(* ===== verification/Prelude.thy ===== *)
theory Prelude
  imports Main "HOL-Library.Word"
begin

text \<open>
  Shared vocabulary of the development: machine words and byte strings as Go has them,
  big-endian integers, the external cryptographic functions as a record of parameters,
  the generic list lemmas used by several components, and the interfaces (locales) that
  more than one component provides: canonical codecs, state machines with an invariant,
  machines with an absorbing failure state, simulations, and issuers of fresh values.
\<close>

unbundle bit_operations_syntax

named_theorems guard_simps \<open>equations that resolve the guard chains of the modelled operations\<close>
named_theorems be_simps \<open>big-endian encodings and their lengths\<close>

section \<open>Machine types\<close>

type_synonym byte = "8 word"
type_synonym bytes = "byte list"
type_synonym u16 = "16 word"
type_synonym u32 = "32 word"
type_synonym u64 = "64 word"

text \<open>
  A Go \<^verbatim>\<open>string\<close> is a sequence of bytes; it is modelled by \<^typ>\<open>string\<close>, whose
  characters are bytes, and \<open>bytes_of\<close> is the conversion \<^verbatim>\<open>[]byte(s)\<close>.
  Instants (\<^verbatim>\<open>time.Time\<close>) and durations are integers counting nanoseconds.
\<close>

type_synonym instant = int
type_synonym duration = int

definition bytes_of :: "string \<Rightarrow> bytes" where
  "bytes_of s = map of_char s"

lemma of_char_byte_inj: "(of_char c :: byte) = of_char d \<longleftrightarrow> c = d"
proof
  assume eq: "(of_char c :: byte) = of_char d"
  have "unat (of_char x :: byte) = (of_char x :: nat)" for x
  proof -
    have small: "(of_char x :: nat) < 256"
      by simp
    have "(of_char x :: byte) = of_nat (of_char x :: nat)"
      by (simp only: of_nat_of_char)
    with small show ?thesis
      by (simp add: unat_of_nat)
  qed
  with eq have "(of_char c :: nat) = of_char d"
    by metis
  then show "c = d"
    by simp
qed simp

lemma bytes_of_inj [simp]: "bytes_of s = bytes_of t \<longleftrightarrow> s = t"
  by (simp add: bytes_of_def inj_map_eq_map inj_def of_char_byte_inj)

lemma length_bytes_of [simp]: "length (bytes_of s) = length s"
  by (simp add: bytes_of_def)

section \<open>Big-endian integers\<close>

text \<open>
  \<^verbatim>\<open>binary.BigEndian\<close>: \<open>be_enc n w\<close> are the \<open>n\<close> low bytes of \<open>w\<close>, most significant
  first, and \<open>be_dec\<close> reads them back.
\<close>

primrec be_enc :: "nat \<Rightarrow> 'a::len word \<Rightarrow> bytes" where
  "be_enc 0 w = []"
| "be_enc (Suc n) w = ucast (drop_bit (8 * n) w) # be_enc n w"

definition be_dec :: "bytes \<Rightarrow> 'a::len word" where
  "be_dec bs = foldl (\<lambda>a b. push_bit 8 a OR ucast b) 0 bs"

lemma length_be_enc [simp, be_simps]: "length (be_enc n w) = n"
  by (induction n) simp_all

lemma be_dec_fold:
  "foldl (\<lambda>a b. push_bit 8 a OR ucast b) a (be_enc n (w::'a::len word)) =
     push_bit (8 * n) a OR take_bit (8 * n) w"
proof (induction n arbitrary: a)
  case 0
  show ?case by simp
next
  case (Suc n)
  have "push_bit (8 * n) (push_bit 8 a OR ucast (ucast (drop_bit (8 * n) w) :: byte))
          OR take_bit (8 * n) w = push_bit (8 * Suc n) a OR take_bit (8 * Suc n) w"
    by (rule bit_word_eqI) (auto simp: bit_simps add.commute [of 8])
  with Suc.IH show ?case
    by simp
qed

lemma be_dec_enc: "LENGTH('a) \<le> 8 * n \<Longrightarrow> be_dec (be_enc n (w::'a::len word)) = w"
  by (simp add: be_dec_def be_dec_fold take_bit_word_eq_self)

lemma be_enc_inj:
  "LENGTH('a) \<le> 8 * n \<Longrightarrow> be_enc n (v::'a::len word) = be_enc n w \<longleftrightarrow> v = w"
  by (metis be_dec_enc)

lemma be_dec_snoc: "be_dec (bs @ [b]) = push_bit 8 (be_dec bs) OR ucast b"
  by (simp add: be_dec_def)

lemma be_enc_snoc: "be_enc (Suc n) w = be_enc n (drop_bit 8 w) @ [ucast w]"
  by (induction n) (simp_all add: add.commute)

lemma be_dec_take:
  "8 * length bs \<le> LENGTH('a) \<Longrightarrow>
     (be_dec bs :: 'a::len word) = take_bit (8 * length bs) (be_dec bs)"
proof (induction bs rule: rev_induct)
  case Nil
  show ?case by (simp add: be_dec_def)
next
  case (snoc c cs)
  then have IH: "be_dec cs = (take_bit (8 * length cs) (be_dec cs) :: 'a word)"
    by simp
  show ?case
    by (subst (1 2) be_dec_snoc, subst (1 2) IH, rule bit_word_eqI)
      (auto simp: bit_simps dest: bit_imp_le_length)
qed

lemma be_enc_dec:
  assumes "8 * length bs \<le> LENGTH('a)"
  shows "be_enc (length bs) (be_dec bs :: 'a::len word) = bs"
  using assms
proof (induction bs rule: rev_induct)
  case Nil
  show ?case by simp
next
  case (snoc b bs)
  let ?w = "push_bit 8 (be_dec bs) OR ucast b :: 'a word"
  have len: "8 * length bs \<le> LENGTH('a)" and len': "8 * length bs + 8 \<le> LENGTH('a)"
    using snoc.prems by simp_all
  have "drop_bit 8 ?w = be_dec bs"
    by (subst (1 2) be_dec_take [OF len], rule bit_word_eqI)
      (use len' in \<open>auto simp: bit_simps dest: bit_imp_le_length\<close>)
  moreover have "ucast ?w = b"
    using len' by (auto simp: bit_simps intro!: bit_word_eqI)
  ultimately show ?case
    using snoc len by (simp add: be_dec_snoc be_enc_snoc del: be_enc.simps)
qed

abbreviation be64 :: "u64 \<Rightarrow> bytes" where "be64 \<equiv> be_enc 8"
abbreviation be32 :: "u32 \<Rightarrow> bytes" where "be32 \<equiv> be_enc 4"
abbreviation be16 :: "u16 \<Rightarrow> bytes" where "be16 \<equiv> be_enc 2"

lemma be64_inj [simp]: "be64 v = be64 w \<longleftrightarrow> v = w"
  by (rule be_enc_inj) simp

lemma be32_inj [simp]: "be32 v = be32 w \<longleftrightarrow> v = w"
  by (rule be_enc_inj) simp

section \<open>Length-prefixed fields\<close>

text \<open>
  The canonical encodings prefix a variable-length field with its length as a big-endian
  \<^verbatim>\<open>uint64\<close>. The prefix is what makes concatenations of fields parse in one way only.
\<close>

definition prefixed :: "bytes \<Rightarrow> bytes" where
  "prefixed v = be64 (of_nat (length v)) @ v"

abbreviation go_sized :: "'a list \<Rightarrow> bool" where
  "go_sized xs \<equiv> length xs < 2 ^ 63"

lemma unat_of_nat_u64: "n < 2 ^ 64 \<Longrightarrow> unat (of_nat n :: u64) = n"
  by (simp add: unat_of_nat)

lemma unat_u64_less: "unat (w :: u64) < 2 ^ 64"
  using unsigned_less [where ?'a = nat, of w] by simp

lemma unat_u64_power: "k < 64 \<Longrightarrow> unat (2 ^ k :: u64) = 2 ^ k"
proof -
  assume "k < 64"
  then have "(2 :: nat) ^ k < 2 ^ 64"
    by (simp only: power_strict_increasing_iff one_less_numeral_iff semiring_norm)
  then have "unat (of_nat (2 ^ k) :: u64) = 2 ^ k"
    by (rule unat_of_nat_u64)
  then show ?thesis by simp
qed

lemma of_nat_u64_inj:
  "m < 2 ^ 64 \<Longrightarrow> n < 2 ^ 64 \<Longrightarrow> (of_nat m :: u64) = of_nat n \<longleftrightarrow> m = n"
  by (metis unat_of_nat_u64)

lemma prefixed_append_inj:
  assumes "go_sized a" and "go_sized b"
  shows "prefixed a @ r = prefixed b @ t \<longleftrightarrow> a = b \<and> r = t"
proof
  assume "prefixed a @ r = prefixed b @ t"
  then have pre: "be64 (of_nat (length a)) = be64 (of_nat (length b))" and rest: "a @ r = b @ t"
    by (simp_all add: prefixed_def)
  from pre have "(of_nat (length a) :: u64) = of_nat (length b)"
    by (simp only: be64_inj)
  moreover have "length a < 2 ^ 64" and "length b < 2 ^ 64"
    using assms by simp_all
  ultimately have "length a = length b"
    by (simp only: of_nat_u64_inj)
  with rest show "a = b \<and> r = t"
    by simp
qed simp

section \<open>External cryptography\<close>

text \<open>
  SHA-256 and Ed25519 are parameters of the model, collected in a record that every
  definition that hashes, signs or verifies takes as its first argument. What the code
  relies on is stated by \<open>hash_ok\<close> and \<open>sign_ok\<close>: the documented lengths of digests, keys and
  signatures, and that a signature made with a private key verifies under its public key.
  Nothing is assumed about collisions or forgeries; where a guarantee rests on them, the
  theorem names the collision or the signature.
\<close>

record crypto =
  sha256 :: "bytes \<Rightarrow> bytes"
  ed_public :: "bytes \<Rightarrow> bytes"
  ed_sign :: "bytes \<Rightarrow> bytes \<Rightarrow> bytes"
  ed_verify :: "bytes \<Rightarrow> bytes \<Rightarrow> bytes \<Rightarrow> bool"

definition publicKeySize :: nat where "publicKeySize = 32"
definition privateKeySize :: nat where "privateKeySize = 64"
definition signatureSize :: nat where "signatureSize = 64"

definition hash_ok :: "crypto \<Rightarrow> bool" where
  "hash_ok c \<longleftrightarrow> (\<forall>m. length (sha256 c m) = 32)"

definition sign_ok :: "crypto \<Rightarrow> bool" where
  "sign_ok c \<longleftrightarrow>
     (\<forall>sk. length sk = privateKeySize \<longrightarrow> length (ed_public c sk) = publicKeySize \<and>
        (\<forall>m. length (ed_sign c sk m) = signatureSize \<and>
             ed_verify c (ed_public c sk) m (ed_sign c sk m)))"

text \<open>
  A concrete instance of the parameters, on which the witnesses evaluate the hypotheses: a
  length-and-sum digest padded to 32 bytes and a keyed digest as signature. It shows that
  \<open>hash_ok\<close> and \<open>sign_ok\<close> can hold together.
\<close>

definition sample_hash :: "bytes \<Rightarrow> bytes" where
  "sample_hash m = replicate 30 0 @ [of_nat (length m), sum_list m]"

definition sample_crypto :: crypto where
  "sample_crypto = \<lparr>sha256 = sample_hash,
     ed_public = (\<lambda>sk. take 32 sk),
     ed_sign = (\<lambda>sk m. sample_hash (take 32 sk @ m) @ replicate 32 0),
     ed_verify = (\<lambda>pk m s. s = sample_hash (pk @ m) @ replicate 32 0)\<rparr>"

lemma sample_hash_ok [simp]: "hash_ok sample_crypto"
  by (simp add: hash_ok_def sample_crypto_def sample_hash_def)

lemma sample_sign_ok [simp]: "sign_ok sample_crypto"
  by (simp add: sign_ok_def sample_crypto_def sample_hash_def publicKeySize_def privateKeySize_def
      signatureSize_def)

text \<open>Two different messages of a list with the same digest: an explicit collision.\<close>

definition collides :: "('m \<Rightarrow> 'd) \<Rightarrow> 'm list \<Rightarrow> bool" where
  "collides h ms \<longleftrightarrow> (\<exists>x \<in> set ms. \<exists>y \<in> set ms. x \<noteq> y \<and> h x = h y)"

lemma collidesI: "x \<in> set ms \<Longrightarrow> y \<in> set ms \<Longrightarrow> x \<noteq> y \<Longrightarrow> h x = h y \<Longrightarrow> collides h ms"
  by (auto simp: collides_def)

lemma collides_mono: "collides h ms \<Longrightarrow> set ms \<subseteq> set ns \<Longrightarrow> collides h ns"
  by (auto simp: collides_def)

lemma not_collidesD: "\<not> collides h ms \<Longrightarrow> x \<in> set ms \<Longrightarrow> y \<in> set ms \<Longrightarrow> h x = h y \<Longrightarrow> x = y"
  by (auto simp: collides_def)

text \<open>A result that carries no value is an error or success.\<close>

lemma unit_result [simp]: "(\<forall>e. r \<noteq> Inl e) \<longleftrightarrow> r = Inr ()" for r :: "'e + unit"
  by (cases r) auto

lemma unit_result_neq: "r \<noteq> Inr () \<longleftrightarrow> (\<exists>e. r = Inl e)" for r :: "'e + unit"
  by (cases r) auto

text \<open>
  Sequencing of fallible steps: \<open>andThen\<close> is \<^verbatim>\<open>if err != nil { return err }\<close>, \<open>require\<close> a guard that
  returns the error when its condition fails, and \<open>expect\<close> turns a failed decoder into the caller's error.
\<close>

definition andThen :: "'e + 'a \<Rightarrow> ('a \<Rightarrow> 'e + 'b) \<Rightarrow> 'e + 'b" where
  "andThen r f = (case r of Inl e \<Rightarrow> Inl e | Inr x \<Rightarrow> f x)"

definition require :: "bool \<Rightarrow> 'e \<Rightarrow> 'e + unit" where
  "require b e = (if b then Inr () else Inl e)"

definition expect :: "'a option \<Rightarrow> 'e \<Rightarrow> 'e + 'a" where
  "expect r e = (case r of None \<Rightarrow> Inl e | Some x \<Rightarrow> Inr x)"

lemma andThen_simps [simp]: "andThen (Inl e) f = Inl e" "andThen (Inr x) f = f x"
  by (simp_all add: andThen_def)

lemma andThen_Inr [guard_simps]: "andThen r f = Inr y \<longleftrightarrow> (\<exists>x. r = Inr x \<and> f x = Inr y)"
  by (cases r) simp_all

lemma require_Inr [guard_simps]: "require b e = Inr u \<longleftrightarrow> b"
  by (simp add: require_def)

lemma require_simps [simp]: "require True e = Inr ()" "require False e = Inl e"
  by (simp_all add: require_def)

lemma expect_Inr [guard_simps]: "expect r e = Inr x \<longleftrightarrow> r = Some x"
  by (cases r) (simp_all add: expect_def)

lemma map_sum_Inr [guard_simps]: "map_sum f id r = Inr x \<longleftrightarrow> r = Inr x"
  by (cases r) auto

lemma expect_simps [simp]: "expect None e = Inl e" "expect (Some x) e = Inr x"
  by (simp_all add: expect_def)

section \<open>Interfaces several components provide\<close>

text \<open>
  A canonical codec: decoding inverts encoding, and only the encoder's own output is
  accepted, so that a value has exactly one spelling.
\<close>

locale canonical_codec =
  fixes enc :: "'a \<Rightarrow> 'b" and dec :: "'b \<Rightarrow> 'a option" and valid :: "'a \<Rightarrow> bool"
  assumes dec_enc: "valid x \<Longrightarrow> dec (enc x) = Some x"
    and enc_dec: "dec s = Some x \<Longrightarrow> enc x = s"
    and dec_valid: "dec s = Some x \<Longrightarrow> valid x"
begin

lemma dec_iff: "dec s = Some x \<longleftrightarrow> valid x \<and> enc x = s"
  using dec_enc enc_dec dec_valid by blast

lemma one_spelling: "dec s = Some x \<Longrightarrow> dec t = Some y \<Longrightarrow> x = y \<longleftrightarrow> s = t"
  using enc_dec by (metis option.inject)

lemma enc_eq_iff: "valid x \<Longrightarrow> valid y \<Longrightarrow> enc x = enc y \<longleftrightarrow> x = y"
  using dec_enc by (metis option.inject)

end

text \<open>
  A component whose operations change a state: \<open>step\<close> performs one operation. Runs are
  left folds over the operations, in the order the program performs them.
\<close>

definition run_ops :: "('s \<Rightarrow> 'o \<Rightarrow> 's) \<Rightarrow> 's \<Rightarrow> 'o list \<Rightarrow> 's" where
  "run_ops step s ops = foldl step s ops"

lemma run_ops_Nil [simp]: "run_ops step s [] = s"
  and run_ops_Cons [simp]: "run_ops step s (a # as) = run_ops step (step s a) as"
  and run_ops_append [simp]: "run_ops step s (as @ bs) = run_ops step (run_ops step s as) bs"
  by (simp_all add: run_ops_def)

locale invariant_machine =
  fixes step :: "'s \<Rightarrow> 'o \<Rightarrow> 's" and inv :: "'s \<Rightarrow> bool"
  assumes step_inv: "inv s \<Longrightarrow> inv (step s a)"
begin

lemma run_inv: "inv s \<Longrightarrow> inv (run_ops step s ops)"
  by (induction ops arbitrary: s) (simp_all add: step_inv)

end

locale ordered_machine = invariant_machine +
  fixes ord :: "'s \<Rightarrow> 's \<Rightarrow> bool"
  assumes ord_refl: "ord s s"
    and ord_trans: "ord s t \<Longrightarrow> ord t u \<Longrightarrow> ord s u"
    and step_ord: "inv s \<Longrightarrow> ord s (step s a)"
begin

lemma run_ord: "inv s \<Longrightarrow> ord s (run_ops step s ops)"
proof (induction ops arbitrary: s)
  case Nil
  show ?case by (simp add: ord_refl)
next
  case (Cons a ops)
  from Cons.prems have "ord s (step s a)" and "inv (step s a)"
    by (simp_all add: step_ord step_inv)
  with Cons.IH show ?case
    by (metis ord_trans run_ops_Cons)
qed

end

locale absorbing_machine =
  fixes step :: "'s \<Rightarrow> 'o \<Rightarrow> 's" and dead :: "'s \<Rightarrow> bool"
  assumes absorb: "dead s \<Longrightarrow> step s a = s"
begin

lemma run_dead: "dead s \<Longrightarrow> run_ops step s ops = s"
  by (induction ops) (simp_all add: absorb)

lemma dead_forever: "dead (run_ops step s as) \<Longrightarrow> run_ops step s (as @ bs) = run_ops step s as"
  by (simp add: run_dead)

end

text \<open>
  A machine that answers every operation, and one that simulates another: related states give the same
  answers and stay related.
\<close>

fun answers :: "('s \<Rightarrow> 'o \<Rightarrow> 's \<times> 'r) \<Rightarrow> 's \<Rightarrow> 'o list \<Rightarrow> 'r list" where
  "answers step s [] = []"
| "answers step s (a # as) = snd (step s a) # answers step (fst (step s a)) as"

abbreviation run_states :: "('s \<Rightarrow> 'o \<Rightarrow> 's \<times> 'r) \<Rightarrow> 's \<Rightarrow> 'o list \<Rightarrow> 's" where
  "run_states step \<equiv> run_ops (\<lambda>s a. fst (step s a))"

lemma length_answers [simp]: "length (answers step s as) = length as"
  by (induction as arbitrary: s) simp_all

lemma answers_append: "answers step s (as @ bs) = answers step s as @ answers step (run_states step s as) bs"
  by (induction as arbitrary: s) simp_all

locale simulation =
  fixes step :: "'s \<Rightarrow> 'o \<Rightarrow> 's \<times> 'r" and astep :: "'a \<Rightarrow> 'o \<Rightarrow> 'a \<times> 'r" and rel :: "'s \<Rightarrow> 'a \<Rightarrow> bool"
  assumes step_sim: "rel s a \<Longrightarrow> rel (fst (step s x)) (fst (astep a x)) \<and> snd (step s x) = snd (astep a x)"
begin

lemma run_sim:
  "rel s a \<Longrightarrow> rel (run_states step s xs) (run_states astep a xs) \<and> answers step s xs = answers astep a xs"
  by (induction xs arbitrary: s a) (simp_all add: step_sim)

end

text \<open>A machine that hands out values, and one that never hands out two with the same key.\<close>

fun issued :: "('s \<Rightarrow> 'o \<Rightarrow> 's \<times> 'v option) \<Rightarrow> 's \<Rightarrow> 'o list \<Rightarrow> 'v list" where
  "issued step s [] = []"
| "issued step s (a # as) =
     (case step s a of (s', None) \<Rightarrow> issued step s' as | (s', Some v) \<Rightarrow> v # issued step s' as)"

locale fresh_issuer =
  fixes step :: "'s \<Rightarrow> 'o \<Rightarrow> 's \<times> 'v option" and key :: "'v \<Rightarrow> 'k" and spent :: "'s \<Rightarrow> 'k set \<Rightarrow> bool"
  assumes step_fresh: "spent s used \<Longrightarrow> step s a = (s', out) \<Longrightarrow>
    (case out of None \<Rightarrow> spent s' used | Some v \<Rightarrow> key v \<notin> used \<and> spent s' (insert (key v) used))"
begin

lemma issued_fresh:
  "spent s used \<Longrightarrow> distinct (map key (issued step s as)) \<and> key ` set (issued step s as) \<inter> used = {}"
proof (induction as arbitrary: s used)
  case (Cons a as)
  obtain s' out where out: "step s a = (s', out)" by (rule prod.exhaust)
  show ?case
  proof (cases out)
    case None
    with step_fresh [OF Cons.prems out] Cons.IH [of s' used] out show ?thesis by simp
  next
    case (Some v)
    with step_fresh [OF Cons.prems out] Cons.IH [of s' "insert (key v) used"] out show ?thesis by auto
  qed
qed simp

end

end
