(* ===== verification/GoStd.thy ===== *)
theory GoStd
  imports Prelude
begin

text \<open>
  The parts of the Go standard library the modelled packages call on: \<^verbatim>\<open>encoding/hex\<close>,
  \<^verbatim>\<open>encoding/base64\<close> (standard alphabet, padded, \<^verbatim>\<open>Strict\<close>), the RFC 3339 layout of
  \<^verbatim>\<open>time\<close> and \<^verbatim>\<open>bits.Len64\<close>. Each codec comes with its round trip.
\<close>

section \<open>Hexadecimal\<close>

definition hex_digit :: "nat \<Rightarrow> char" where
  "hex_digit n = char_of (if n < 10 then 48 + n else 87 + n)"

definition hex_val :: "char \<Rightarrow> nat option" where
  "hex_val c = (let n = of_char c :: nat in
     if 48 \<le> n \<and> n \<le> 57 then Some (n - 48)
     else if 97 \<le> n \<and> n \<le> 102 then Some (n - 87)
     else if 65 \<le> n \<and> n \<le> 70 then Some (n - 55)
     else None)"

primrec hex_EncodeToString :: "bytes \<Rightarrow> string" where
  "hex_EncodeToString [] = []"
| "hex_EncodeToString (b # bs) =
     hex_digit (unat b div 16) # hex_digit (unat b mod 16) # hex_EncodeToString bs"

fun hex_DecodeString :: "string \<Rightarrow> bytes option" where
  "hex_DecodeString [] = Some []"
| "hex_DecodeString [c] = None"
| "hex_DecodeString (c # d # r) =
     (case (hex_val c, hex_val d) of
        (Some h, Some l) \<Rightarrow>
          (case hex_DecodeString r of None \<Rightarrow> None | Some bs \<Rightarrow> Some (of_nat (16 * h + l) # bs))
      | _ \<Rightarrow> None)"

lemma hex_val_digit: "n < 16 \<Longrightarrow> hex_val (hex_digit n) = Some n"
  by (auto simp: hex_val_def hex_digit_def Let_def)

lemma unat_byte_less: "unat (b :: byte) < 256"
  using unsigned_less [of b] by simp

lemma hex_roundtrip: "hex_DecodeString (hex_EncodeToString bs) = Some bs"
proof (induction bs)
  case (Cons b bs)
  have "unat b div 16 < 16"
    using unat_byte_less [of b] by simp
  with Cons show ?case
    by (simp add: hex_val_digit del: of_nat_add)
qed simp

lemma length_hex [simp]: "length (hex_EncodeToString bs) = 2 * length bs"
  by (induction bs) simp_all

lemma hex_EncodeToString_inj [simp]:
  "hex_EncodeToString a = hex_EncodeToString b \<longleftrightarrow> a = b"
  by (metis hex_roundtrip option.inject)

text \<open>
  The canonical decoder the packages build on it: exactly \<open>size\<close> bytes, and only the
  lower-case spelling the encoder itself produces.
\<close>

definition decodeHex :: "nat \<Rightarrow> string \<Rightarrow> bytes option" where
  "decodeHex sz encoded =
     (case hex_DecodeString encoded of
        None \<Rightarrow> None
      | Some decoded \<Rightarrow>
          if length decoded \<noteq> sz \<or> encoded \<noteq> hex_EncodeToString decoded then None
          else Some decoded)"

interpretation hex32: canonical_codec hex_EncodeToString "decodeHex n" "\<lambda>bs. length bs = n" for n
  by unfold_locales (auto simp: decodeHex_def hex_roundtrip split: option.splits if_splits)

section \<open>Base64\<close>

definition b64_digit :: "nat \<Rightarrow> char" where
  "b64_digit n = char_of
     (if n < 26 then 65 + n else if n < 52 then 71 + n else if n < 62 then n - 4
      else if n = 62 then 43 else 47)"

definition b64_val :: "char \<Rightarrow> nat option" where
  "b64_val c = (let n = of_char c :: nat in
     if 65 \<le> n \<and> n \<le> 90 then Some (n - 65)
     else if 97 \<le> n \<and> n \<le> 122 then Some (n - 71)
     else if 48 \<le> n \<and> n \<le> 57 then Some (n + 4)
     else if n = 43 then Some 62
     else if n = 47 then Some 63
     else None)"

definition b64_pad :: char where "b64_pad = CHR ''=''"

fun b64_EncodeToString :: "bytes \<Rightarrow> string" where
  "b64_EncodeToString [] = []"
| "b64_EncodeToString [a] =
     [b64_digit (unat a div 4), b64_digit (unat a mod 4 * 16), b64_pad, b64_pad]"
| "b64_EncodeToString [a, b] =
     [b64_digit (unat a div 4), b64_digit (unat a mod 4 * 16 + unat b div 16),
      b64_digit (unat b mod 16 * 4), b64_pad]"
| "b64_EncodeToString (a # b # c # r) =
     b64_digit (unat a div 4) # b64_digit (unat a mod 4 * 16 + unat b div 16) #
     b64_digit (unat b mod 16 * 4 + unat c div 64) # b64_digit (unat c mod 64) #
     b64_EncodeToString r"

text \<open>
  The strict decoder refuses non-zero trailing bits. Like Go's it skips carriage returns
  and line feeds wherever they stand, so it alone does not make the spelling unique.
\<close>

fun b64_quanta :: "string \<Rightarrow> bytes option" where
  "b64_quanta [] = Some []"
| "b64_quanta (c0 # c1 # c2 # c3 # r) =
     (case (b64_val c0, b64_val c1) of
        (Some v0, Some v1) \<Rightarrow>
          if r = [] \<and> c2 = b64_pad \<and> c3 = b64_pad then
            (if v1 mod 16 = 0 then Some [of_nat (v0 * 4 + v1 div 16)] else None)
          else
            (case b64_val c2 of
               None \<Rightarrow> None
             | Some v2 \<Rightarrow>
                 if r = [] \<and> c3 = b64_pad then
                   (if v2 mod 4 = 0 then
                      Some [of_nat (v0 * 4 + v1 div 16), of_nat (v1 mod 16 * 16 + v2 div 4)]
                    else None)
                 else
                   (case (b64_val c3, b64_quanta r) of
                      (Some v3, Some bs) \<Rightarrow>
                        Some (of_nat (v0 * 4 + v1 div 16) # of_nat (v1 mod 16 * 16 + v2 div 4) #
                              of_nat (v2 mod 4 * 64 + v3) # bs)
                    | _ \<Rightarrow> None))
      | _ \<Rightarrow> None)"
| "b64_quanta _ = None"

definition b64_DecodeString :: "string \<Rightarrow> bytes option" where
  "b64_DecodeString s = b64_quanta (filter (\<lambda>ch. of_char ch \<noteq> (10 :: nat) \<and> of_char ch \<noteq> (13 :: nat)) s)"

lemma b64_val_digit: "n < 64 \<Longrightarrow> b64_val (b64_digit n) = Some n"
  by (auto simp: b64_val_def b64_digit_def Let_def)

lemma b64_digit_not_pad: "n < 64 \<Longrightarrow> b64_digit n \<noteq> b64_pad"
  using b64_val_digit [of n] by (auto simp: b64_val_def b64_pad_def)

lemma b64_chars_kept:
  "set (b64_EncodeToString bs) \<subseteq> insert b64_pad (b64_digit ` {..<64})"
proof (induction bs rule: b64_EncodeToString.induct)
  case (4 a b c r)
  then show ?case
    using unat_byte_less [of a] unat_byte_less [of b] unat_byte_less [of c]
    by (auto intro!: image_eqI)
next
  case (3 a b)
  then show ?case
    using unat_byte_less [of a] unat_byte_less [of b] by (auto intro!: image_eqI)
next
  case (2 a)
  then show ?case
    using unat_byte_less [of a] by (auto intro!: image_eqI)
qed simp

lemma b64_digit_no_newline:
  "n < 64 \<Longrightarrow> of_char (b64_digit n) \<noteq> (10 :: nat) \<and> of_char (b64_digit n) \<noteq> (13 :: nat)"
  using b64_val_digit [of n] by (auto simp: b64_val_def Let_def split: if_splits)

lemma b64_filter_id:
  "filter (\<lambda>ch. of_char ch \<noteq> (10 :: nat) \<and> of_char ch \<noteq> (13 :: nat)) (b64_EncodeToString bs) =
     b64_EncodeToString bs"
proof (rule filter_True, rule ballI)
  fix ch
  assume "ch \<in> set (b64_EncodeToString bs)"
  then have "ch = b64_pad \<or> (\<exists>n < 64. ch = b64_digit n)"
    using b64_chars_kept [of bs] by auto
  then show "of_char ch \<noteq> (10 :: nat) \<and> of_char ch \<noteq> (13 :: nat)"
    by (auto simp: b64_pad_def dest: b64_digit_no_newline)
qed

lemma byte_parts:
  "unat (b :: byte) div 16 div 16 = 0" "unat b div 16 mod 16 = unat b div 16"
  "unat b div 64 div 4 = 0" "unat b div 64 mod 4 = unat b div 64"
  using unat_byte_less [of b] by simp_all

lemma b64_quanta_encode: "b64_quanta (b64_EncodeToString bs) = Some bs"
proof (induction bs rule: b64_EncodeToString.induct)
  case (2 a)
  then show ?case
    using unat_byte_less [of a] by (simp add: b64_val_digit del: of_nat_add of_nat_mult)
next
  case (3 a b)
  have "unat a mod 4 * 16 + unat b div 16 < 64" "unat b mod 16 * 4 < 64" "unat a div 4 < 64"
    using unat_byte_less [of a] unat_byte_less [of b] by simp_all
  then show ?case
    using b64_digit_not_pad [of "unat b mod 16 * 4"]
    by (simp add: b64_val_digit byte_parts del: of_nat_add of_nat_mult)
next
  case (4 a b c r)
  have "unat a mod 4 * 16 + unat b div 16 < 64" "unat b mod 16 * 4 + unat c div 64 < 64"
    "unat a div 4 < 64" "unat c mod 64 < 64"
    using unat_byte_less [of a] unat_byte_less [of b] unat_byte_less [of c] by simp_all
  then show ?case
    using 4 b64_digit_not_pad [of "unat c mod 64"]
    by (simp add: b64_val_digit byte_parts del: of_nat_add of_nat_mult)
qed simp

lemma b64_roundtrip: "b64_DecodeString (b64_EncodeToString bs) = Some bs"
  by (simp add: b64_DecodeString_def b64_filter_id b64_quanta_encode)

text \<open>
  The canonical form every package insists on: decode, check the size, encode again and
  compare with the input.
\<close>

definition decodeBase64 :: "nat \<Rightarrow> string \<Rightarrow> bytes option" where
  "decodeBase64 sz encoded =
     (case b64_DecodeString encoded of
        None \<Rightarrow> None
      | Some decoded \<Rightarrow>
          if length decoded \<noteq> sz then None
          else if b64_EncodeToString decoded \<noteq> encoded then None
          else Some decoded)"

interpretation b64: canonical_codec b64_EncodeToString "decodeBase64 n" "\<lambda>bs. length bs = n" for n
  by unfold_locales (auto simp: decodeBase64_def b64_roundtrip split: option.splits if_splits)

section \<open>Instants and the RFC 3339 layout\<close>

text \<open>
  An instant counts nanoseconds from 0000-01-01T00:00:00Z in the proleptic Gregorian
  calendar. \<open>time_Format\<close> is \<^verbatim>\<open>t.UTC().Format(time.RFC3339)\<close> for the years 0 to 9999.
  \<open>time_Parse\<close> is \<^verbatim>\<open>time.Parse(time.RFC3339, s)\<close> on the UTC whole-second spelling
  \<^verbatim>\<open>YYYY-MM-DDTHH:MM:SSZ\<close>; Go also parses offsets and fractions, and every caller modelled
  here refuses those spellings next by formatting the instant again and comparing.
\<close>

definition leap :: "nat \<Rightarrow> bool" where
  "leap y \<longleftrightarrow> y mod 4 = 0 \<and> (y mod 100 \<noteq> 0 \<or> y mod 400 = 0)"

definition year_start :: "nat \<Rightarrow> nat" where
  "year_start y = 365 * y + (y + 3) div 4 + (y + 399) div 400 - (y + 99) div 100"

definition month_days :: "nat \<Rightarrow> nat \<Rightarrow> nat" where
  "month_days y m =
     (if m = 2 then (if leap y then 29 else 28)
      else if m = 4 \<or> m = 6 \<or> m = 9 \<or> m = 11 then 30 else 31)"

definition month_start :: "nat \<Rightarrow> nat \<Rightarrow> nat" where
  "month_start y m = sum_list (map (month_days y) [1..<m])"

definition second :: duration where "second = 1000000000"
definition minute :: duration where "minute = 60 * second"

definition of_civil :: "nat \<Rightarrow> nat \<Rightarrow> nat \<Rightarrow> nat \<Rightarrow> nat \<Rightarrow> nat \<Rightarrow> instant" where
  "of_civil y mo d h mi se =
     second * int ((((year_start y + month_start y mo + (d - 1)) * 24 + h) * 60 + mi) * 60 + se)"

lemma leap_dvd: "y mod 100 = 0 \<Longrightarrow> y mod 4 = 0" "y mod 400 = 0 \<Longrightarrow> y mod 100 = 0" for y :: nat
  by (auto simp: mod_eq_0_iff_dvd intro: dvd_trans [of 4 100] dvd_trans [of 100 400])

lemma century_parts:
  "(Suc y + 3) div 4 = (y + 3) div 4 + of_bool (y mod 4 = 0)"
  "(Suc y + 99) div 100 = (y + 99) div 100 + of_bool (y mod 100 = 0)"
  "(Suc y + 399) div 400 = (y + 399) div 400 + of_bool (y mod 400 = 0)" for y :: nat
  subgoal using div_Suc [of "y + 3" 4] by (simp add: add.commute)
  subgoal using div_Suc [of "y + 99" 100] by (simp add: add.commute)
  subgoal using div_Suc [of "y + 399" 400] by (simp add: add.commute)
  done

lemma century_le: "(y + 99) div 100 \<le> (y + 3) div (4 :: nat)"
proof (induction y)
  case (Suc y)
  then show ?case
    unfolding century_parts using leap_dvd(1) [of y] by (cases "y mod 100 = 0") simp_all
qed simp

lemma year_start_add:
  "year_start y + (y + 99) div 100 = 365 * y + (y + 3) div 4 + (y + 399) div 400"
  unfolding year_start_def
  by (rule le_add_diff_inverse2) (use century_le [of y] in \<open>simp only: trans_le_add1 trans_le_add2\<close>)

lemma year_step_arith:
  "(a :: nat) + c = l + b \<Longrightarrow> s' + (p + b) = 365 * Suc y + (q + a) + (r + c) \<Longrightarrow>
     s + p = 365 * y + q + r \<Longrightarrow> s' = s + 365 + l"
  by simp

lemma year_start_Suc: "year_start (Suc y) = year_start y + (if leap y then 366 else 365)"
proof -
  have "of_bool (y mod 4 = 0) + of_bool (y mod 400 = 0) =
      (of_bool (leap y) + of_bool (y mod 100 = 0) :: nat)"
    using leap_dvd [of y] unfolding leap_def
    by (cases "y mod 4 = 0"; cases "y mod 100 = 0"; cases "y mod 400 = 0") simp_all
  then have "year_start (Suc y) = year_start y + 365 + of_bool (leap y)"
    using year_start_add [of "Suc y"] year_start_add [of y]
    unfolding century_parts(1-3) by (rule year_step_arith)
  then show ?thesis by simp
qed

lemma year_start_ge: "y \<le> year_start y"
  by (induction y) (simp_all add: year_start_Suc)

function year_from :: "nat \<Rightarrow> nat \<Rightarrow> nat" where
  "year_from d y = (if d < year_start (Suc y) then y else year_from d (Suc y))"
  by pat_completeness auto
termination
proof (relation "measure (\<lambda>(d, y). Suc d - y)", goal_cases)
  case (2 d y)
  have "Suc y \<le> year_start (Suc y)"
    by (rule year_start_ge)
  with 2 show ?case by simp
qed simp

declare year_from.simps [simp del]

lemma year_from_stop: "d < year_start (Suc y) \<Longrightarrow> year_from d y = y"
  and year_from_step: "year_start (Suc y) \<le> d \<Longrightarrow> year_from d y = year_from d (Suc y)"
  by (simp_all add: year_from.simps [of d y])

definition year_of :: "nat \<Rightarrow> nat" where
  "year_of d = year_from d (d div 366)"

fun month_from :: "nat \<Rightarrow> nat \<Rightarrow> nat list \<Rightarrow> nat" where
  "month_from y d [] = 12"
| "month_from y d (m # ms) = (if d < month_start y m + month_days y m then m else month_from y d ms)"

definition month_of :: "nat \<Rightarrow> nat \<Rightarrow> nat" where
  "month_of y d = month_from y d [1..<13]"

definition dec_digit :: "nat \<Rightarrow> char" where
  "dec_digit n = char_of (48 + n mod 10)"

definition dec_val :: "char \<Rightarrow> nat option" where
  "dec_val c = (let n = of_char c :: nat in if 48 \<le> n \<and> n \<le> 57 then Some (n - 48) else None)"

definition dec2 :: "nat \<Rightarrow> string" where
  "dec2 n = [dec_digit (n div 10), dec_digit n]"

definition dec4 :: "nat \<Rightarrow> string" where
  "dec4 n = dec2 (n div 100) @ dec2 (n mod 100)"

definition read2 :: "string \<Rightarrow> nat option" where
  "read2 s =
     (case s of
        [a, b] \<Rightarrow> (case (dec_val a, dec_val b) of (Some x, Some y) \<Rightarrow> Some (10 * x + y) | _ \<Rightarrow> None)
      | _ \<Rightarrow> None)"

definition read4 :: "string \<Rightarrow> nat option" where
  "read4 s =
     (case (read2 (take 2 s), read2 (drop 2 s)) of
        (Some x, Some y) \<Rightarrow> Some (100 * x + y) | _ \<Rightarrow> None)"

definition spell :: "nat \<Rightarrow> nat \<Rightarrow> nat \<Rightarrow> nat \<Rightarrow> nat \<Rightarrow> nat \<Rightarrow> string" where
  "spell y mo d h mi se =
     dec4 y @ ''-'' @ dec2 mo @ ''-'' @ dec2 d @ ''T'' @ dec2 h @ '':'' @ dec2 mi @ '':'' @
     dec2 se @ ''Z''"

definition time_Format :: "instant \<Rightarrow> string" where
  "time_Format t =
     (let s = nat (t div second); m = s div 60; h = m div 60; days = h div 24;
          y = year_of days; mo = month_of y (days - year_start y);
          d = Suc (days - year_start y - month_start y mo)
      in spell y mo d (h mod 24) (m mod 60) (s mod 60))"

definition civil_ok :: "nat \<Rightarrow> nat \<Rightarrow> nat \<Rightarrow> nat \<Rightarrow> nat \<Rightarrow> nat \<Rightarrow> bool" where
  "civil_ok y mo d h mi se \<longleftrightarrow>
     1 \<le> mo \<and> mo \<le> 12 \<and> 1 \<le> d \<and> d \<le> month_days y mo \<and> h < 24 \<and> mi < 60 \<and> se < 60"

definition time_Parse :: "string \<Rightarrow> instant option" where
  "time_Parse s =
     (if length s = 20 \<and> s ! 4 = CHR ''-'' \<and> s ! 7 = CHR ''-'' \<and> s ! 10 = CHR ''T'' \<and>
         s ! 13 = CHR '':'' \<and> s ! 16 = CHR '':'' \<and> s ! 19 = CHR ''Z'' then
        (case (read4 (take 4 s), read2 (take 2 (drop 5 s)), read2 (take 2 (drop 8 s)),
               read2 (take 2 (drop 11 s)), read2 (take 2 (drop 14 s)), read2 (take 2 (drop 17 s))) of
           (Some y, Some mo, Some d, Some h, Some mi, Some se) \<Rightarrow>
             if civil_ok y mo d h mi se then Some (of_civil y mo d h mi se) else None
         | _ \<Rightarrow> None)
      else None)"

lemma year_from_spec:
  "year_start y \<le> d \<Longrightarrow> year_start (year_from d y) \<le> d \<and> d < year_start (Suc (year_from d y))"
proof (induction d y rule: year_from.induct)
  case (1 d y)
  then show ?case
    by (cases "d < year_start (Suc y)") (simp_all add: year_from_stop year_from_step)
qed

lemma year_start_mono: "y \<le> z \<Longrightarrow> year_start y \<le> year_start z"
  by (rule lift_Suc_mono_le [of year_start]) (simp_all add: year_start_Suc)

lemma year_start_div: "year_start (d div 366) \<le> d"
proof -
  have "year_start y \<le> 366 * y" for y
  proof (induction y)
    case 0
    show ?case by (simp add: year_start_def)
  qed (simp add: year_start_Suc)
  from this [of "d div 366"] show ?thesis by linarith
qed

lemma year_unique:
  assumes "year_start y \<le> d" "d < year_start (Suc y)" "year_start z \<le> d" "d < year_start (Suc z)"
  shows "y = z"
proof (rule ccontr)
  assume "y \<noteq> z"
  then have "Suc y \<le> z \<or> Suc z \<le> y" by linarith
  then show False
    using year_start_mono assms by fastforce
qed

lemma year_of_spec: "year_start (year_of d) \<le> d \<and> d < year_start (Suc (year_of d))"
  unfolding year_of_def by (rule year_from_spec) (rule year_start_div)

lemma month_start_Suc: "1 \<le> m \<Longrightarrow> month_start y (Suc m) = month_start y m + month_days y m"
  by (simp add: month_start_def)

lemma month_start_1 [simp]: "month_start y (Suc 0) = 0"
  by (simp add: month_start_def)

lemma month_start_13: "month_start y 13 = (if leap y then 366 else 365)"
proof -
  have "[1..<13] = [1, 2, 3, 4, 5, 6, 7, 8, 9, 10, 11, 12 :: nat]"
    by code_simp
  then show ?thesis
    unfolding month_start_def by (simp add: month_days_def)
qed

lemma month_start_mono: "1 \<le> m \<Longrightarrow> m \<le> n \<Longrightarrow> month_start y m \<le> month_start y n"
proof (induction n)
  case (Suc n)
  then show ?case
    by (cases "m = Suc n") (auto simp: month_start_Suc intro: le_add1 order_trans)
qed simp

lemma month_from_range:
  assumes "d < month_start y 13"
  shows "\<lbrakk>1 \<le> m; m \<le> 12; month_start y m \<le> d\<rbrakk> \<Longrightarrow>
    (let n = month_from y d [m..<13] in
       1 \<le> n \<and> n \<le> 12 \<and> month_start y n \<le> d \<and> d < month_start y n + month_days y n)"
proof (induction "13 - m" arbitrary: m)
  case (Suc k)
  have u: "[m..<13] = m # [Suc m..<13]"
    using Suc by (simp add: upt_conv_Cons)
  show ?case
  proof (cases "d < month_start y m + month_days y m")
    case True
    with Suc.prems show ?thesis by (simp add: u)
  next
    case False
    then have ge: "month_start y (Suc m) \<le> d"
      using Suc.prems by (simp add: month_start_Suc)
    with assms Suc.prems have "Suc m \<le> 12"
      by (cases "m = 12") auto
    with ge Suc.hyps(1) [of "Suc m"] Suc.hyps(2) False show ?thesis
      by (simp add: u)
  qed
qed simp

lemma month_of_spec:
  assumes "d < month_start y 13"
  shows "1 \<le> month_of y d" "month_of y d \<le> 12" "month_start y (month_of y d) \<le> d"
    "d < month_start y (month_of y d) + month_days y (month_of y d)"
  using month_from_range [OF assms, of 1] by (simp_all add: month_of_def Let_def)

lemma month_unique:
  assumes "1 \<le> m" "month_start y m \<le> d" "d < month_start y m + month_days y m"
    "1 \<le> n" "month_start y n \<le> d" "d < month_start y n + month_days y n"
  shows "m = n"
proof (rule ccontr)
  assume "m \<noteq> n"
  then have "Suc m \<le> n \<or> Suc n \<le> m" by linarith
  then show False
    using month_start_mono [of "Suc m" n y] month_start_mono [of "Suc n" m y] assms
    by (auto simp: month_start_Suc)
qed

lemma dec_val_digit [simp]: "dec_val (dec_digit n) = Some (n mod 10)"
  by (simp add: dec_val_def dec_digit_def)

lemma read2_dec2 [simp]: "n < 100 \<Longrightarrow> read2 (dec2 n) = Some n"
  by (simp add: read2_def dec2_def)

lemma length_dec2 [simp]: "length (dec2 n) = 2" and length_dec4 [simp]: "length (dec4 n) = 4"
  by (simp_all add: dec2_def dec4_def)

lemma read4_dec4 [simp]: "n < 10000 \<Longrightarrow> read4 (dec4 n) = Some n"
  by (simp add: read4_def dec4_def)

lemma dec_digit_val: "dec_val c = Some n \<Longrightarrow> dec_digit n = c \<and> n < 10"
proof -
  assume "dec_val c = Some n"
  then have "48 \<le> (of_char c :: nat)" "of_char c \<le> (57 :: nat)" "n = of_char c - 48"
    by (auto simp: dec_val_def Let_def split: if_splits)
  then have "48 + n mod 10 = (of_char c :: nat)" "n < 10"
    by auto
  then show ?thesis by (simp add: dec_digit_def)
qed

lemma dec2_read2: "read2 s = Some n \<Longrightarrow> dec2 n = s \<and> n < 100"
  by (auto simp: read2_def dec2_def split: list.splits option.splits dest!: dec_digit_val)
    (simp_all add: dec_digit_def)

lemma dec4_read4: "read4 s = Some n \<Longrightarrow> dec4 n = s \<and> n < 10000"
proof -
  assume "read4 s = Some n"
  then obtain x y where xy: "read2 (take 2 s) = Some x" "read2 (drop 2 s) = Some y"
      and n: "n = 100 * x + y"
    by (auto simp: read4_def split: option.splits)
  from xy have d: "dec2 x = take 2 s" "dec2 y = drop 2 s" "x < 100" "y < 100"
    by (auto dest: dec2_read2)
  then have "n div 100 = x" "n mod 100 = y"
    using n by simp_all
  with d n show ?thesis
    by (simp add: dec4_def)
qed

text \<open>The whole seconds of the years 0 to 9999 are what the layout can spell.\<close>

definition time_valid :: "instant \<Rightarrow> bool" where
  "time_valid t \<longleftrightarrow> 0 \<le> t \<and> t mod second = 0 \<and> t < second * int (year_start 10000 * 86400)"

lemma second_pos [simp]: "0 < second" "second \<noteq> 0"
  by (simp_all add: second_def)

lemma digit_parts: "b < k \<Longrightarrow> (a * k + b) div k = a" "b < k \<Longrightarrow> (a * k + b) mod k = b" for a b k :: nat
  by simp_all

lemma seconds_bound:
  "Suc n \<le> y \<Longrightarrow> h < 24 \<Longrightarrow> mi < 60 \<Longrightarrow> se < 60 \<Longrightarrow>
     ((n * 24 + h) * 60 + mi) * 60 + se < y * (86400 :: nat)"
  by simp

lemma seconds_bound_div: "s < y * 86400 \<Longrightarrow> s div 60 div 60 div 24 < (y :: nat)"
  by (simp add: less_mult_imp_div_less flip: div_mult2_eq)

lemma time_of_day:
  "((h div 24 * 24 + h mod 24) * 60 + m mod 60) * 60 + s mod 60 = s"
  if "m = s div 60" "h = m div 60" for s m h :: nat
  using that by (simp only: div_mult_mod_eq)

lemma parse_spell:
  assumes "y < 10000" and "civil_ok y mo d h mi se"
  shows "time_Parse (spell y mo d h mi se) = Some (of_civil y mo d h mi se)"
proof -
  have "mo < 100" "d < 100" "h < 100" "mi < 100" "se < 100"
    using assms(2) by (auto simp: civil_ok_def month_days_def split: if_splits)
  then show ?thesis
    using assms by (simp add: time_Parse_def spell_def nth_append)
qed

lemma format_of_civil:
  assumes ok: "civil_ok y mo d h mi se"
  shows "time_Format (of_civil y mo d h mi se) = spell y mo d h mi se"
proof -
  let ?days = "year_start y + month_start y mo + (d - 1)"
  let ?s = "((?days * 24 + h) * 60 + mi) * 60 + se"
  have f: "1 \<le> mo" "mo \<le> 12" "1 \<le> d" "d \<le> month_days y mo" "h < 24" "mi < 60" "se < 60"
    using ok by (auto simp: civil_ok_def)
  have s: "nat (of_civil y mo d h mi se div second) = ?s"
    by (simp add: of_civil_def del: of_nat_add of_nat_mult)
  have parts: "?s div 60 = (?days * 24 + h) * 60 + mi" "?s mod 60 = se"
    "((?days * 24 + h) * 60 + mi) div 60 = ?days * 24 + h" "((?days * 24 + h) * 60 + mi) mod 60 = mi"
    "(?days * 24 + h) div 24 = ?days" "(?days * 24 + h) mod 24 = h"
    using f by (simp_all only: digit_parts)
  have "month_start y mo + month_days y mo \<le> month_start y 13"
    using f month_start_mono [of "Suc mo" 13 y] by (simp add: month_start_Suc)
  then have "year_of ?days = y"
    using year_of_spec [of ?days] f
    by (intro year_unique [of _ ?days]) (simp_all add: year_start_Suc month_start_13)
  moreover have "month_of y (month_start y mo + (d - 1)) = mo"
    using \<open>month_start y mo + month_days y mo \<le> month_start y 13\<close> f
      month_of_spec [of "month_start y mo + (d - 1)" y]
    by (intro month_unique [of _ y "month_start y mo + (d - 1)"]) simp_all
  ultimately show ?thesis
    using f unfolding time_Format_def Let_def s parts by simp
qed

lemma civil_of_instant:
  assumes "time_valid t"
  shows "\<exists>y mo d h mi se. y < 10000 \<and> civil_ok y mo d h mi se \<and> t = of_civil y mo d h mi se"
proof -
  define s where "s = nat (t div second)"
  define m where "m = s div 60"
  define h where "h = m div 60"
  define days where "days = h div 24"
  define y where "y = year_of days"
  define mo where "mo = month_of y (days - year_start y)"
  define d where "d = Suc (days - year_start y - month_start y mo)"
  have t: "t = second * int s"
  proof -
    have "t = second * (t div second)" and "0 \<le> t div second"
      using assms mult_div_mod_eq [of second t]
      by (simp_all add: time_valid_def pos_imp_zdiv_nonneg_iff)
    then show ?thesis by (simp add: s_def)
  qed
  have "s < year_start 10000 * 86400"
    using assms by (simp add: t time_valid_def mult_less_cancel_left_pos del: of_nat_mult)
  then have "days < year_start 10000"
    unfolding days_def h_def m_def by (rule seconds_bound_div)
  have ys: "year_start y \<le> days" "days < year_start (Suc y)"
    using year_of_spec [of days] by (simp_all add: y_def)
  have y: "y < 10000"
  proof (rule ccontr)
    assume "\<not> y < 10000"
    with year_start_mono [of 10000 y] ys \<open>days < year_start 10000\<close> show False by simp
  qed
  have "days - year_start y < month_start y 13"
    using ys by (simp add: month_start_13 year_start_Suc)
  note mo = month_of_spec [OF this, folded mo_def]
  have "civil_ok y mo d (h mod 24) (m mod 60) (s mod 60)"
    using mo by (simp add: civil_ok_def d_def)
  moreover have "t = of_civil y mo d (h mod 24) (m mod 60) (s mod 60)"
  proof -
    have "year_start y + month_start y mo + (d - 1) = h div 24"
      using ys mo by (simp add: d_def flip: days_def)
    then show ?thesis
      using time_of_day [OF m_def h_def] by (simp only: of_civil_def t)
  qed
  ultimately show ?thesis using y by blast
qed

lemma time_valid_of_civil:
  assumes "y < 10000" and ok: "civil_ok y mo d h mi se"
  shows "time_valid (of_civil y mo d h mi se)"
proof -
  let ?days = "year_start y + month_start y mo + (d - 1)"
  have "month_start y mo + month_days y mo \<le> month_start y 13"
    using ok month_start_mono [of "Suc mo" 13 y] by (simp add: month_start_Suc civil_ok_def)
  then have "?days < year_start (Suc y)"
    using ok by (cases "leap y") (auto simp: year_start_Suc month_start_13 civil_ok_def)
  then have "Suc ?days \<le> year_start 10000"
    using year_start_mono [of "Suc y" 10000] assms(1) by simp
  then have "((?days * 24 + h) * 60 + mi) * 60 + se < year_start 10000 * 86400"
    using ok unfolding civil_ok_def by (intro seconds_bound) simp_all
  then show ?thesis
    unfolding time_valid_def of_civil_def
    by (simp add: mult_less_cancel_left_pos less_imp_le zero_le_mult_iff del: of_nat_add of_nat_mult)
qed

lemma take_drop_field: "take 2 (drop k s) @ drop (Suc (Suc k)) s = drop k s"
  by (metis append_take_drop_id add_2_eq_Suc drop_drop)

lemma parse_civil:
  assumes "time_Parse s = Some t"
  shows "\<exists>y mo d h mi se. y < 10000 \<and> civil_ok y mo d h mi se \<and> t = of_civil y mo d h mi se \<and>
    s = spell y mo d h mi se"
proof -
  from assms obtain y mo d h mi se where
      len: "length s = 20" and seps: "s ! 4 = CHR ''-''" "s ! 7 = CHR ''-''" "s ! 10 = CHR ''T''"
        "s ! 13 = CHR '':''" "s ! 16 = CHR '':''" "s ! 19 = CHR ''Z''"
    and fields: "read4 (take 4 s) = Some y" "read2 (take 2 (drop 5 s)) = Some mo"
      "read2 (take 2 (drop 8 s)) = Some d" "read2 (take 2 (drop 11 s)) = Some h"
      "read2 (take 2 (drop 14 s)) = Some mi" "read2 (take 2 (drop 17 s)) = Some se"
    and ok: "civil_ok y mo d h mi se" "t = of_civil y mo d h mi se"
    by (auto simp: time_Parse_def split: if_splits option.splits)
  have flds: "take 2 (drop 17 s) @ drop 19 s = drop 17 s" "take 2 (drop 14 s) @ drop 16 s = drop 14 s"
      "take 2 (drop 11 s) @ drop 13 s = drop 11 s" "take 2 (drop 8 s) @ drop 10 s = drop 8 s"
      "take 2 (drop 5 s) @ drop 7 s = drop 5 s"
    using take_drop_field [of 17 s] take_drop_field [of 14 s] take_drop_field [of 11 s]
      take_drop_field [of 8 s] take_drop_field [of 5 s] by simp_all
  have sps: "[s ! 19] = drop 19 s" "s ! 16 # drop 17 s = drop 16 s" "s ! 13 # drop 14 s = drop 13 s"
      "s ! 10 # drop 11 s = drop 10 s" "s ! 7 # drop 8 s = drop 7 s" "s ! 4 # drop 5 s = drop 4 s"
    using len Cons_nth_drop_Suc [of 19 s] Cons_nth_drop_Suc [of 16 s] Cons_nth_drop_Suc [of 13 s]
      Cons_nth_drop_Suc [of 10 s] Cons_nth_drop_Suc [of 7 s] Cons_nth_drop_Suc [of 4 s] by simp_all
  have "s = take 4 s @ [s ! 4] @ take 2 (drop 5 s) @ [s ! 7] @ take 2 (drop 8 s) @ [s ! 10] @
      take 2 (drop 11 s) @ [s ! 13] @ take 2 (drop 14 s) @ [s ! 16] @ take 2 (drop 17 s) @ [s ! 19]"
    by (simp only: append_Cons append_Nil sps flds append_take_drop_id)
  then have "s = spell y mo d h mi se"
    using fields(1) [THEN dec4_read4] fields(2-6) [THEN dec2_read2] seps
    by (simp add: spell_def)
  with fields(1) [THEN dec4_read4] ok show ?thesis by blast
qed

interpretation rfc3339: canonical_codec time_Format time_Parse time_valid
proof unfold_locales
  fix t
  assume "time_valid t"
  then obtain y mo d h mi se where "y < 10000" "civil_ok y mo d h mi se" "t = of_civil y mo d h mi se"
    using civil_of_instant by blast
  then show "time_Parse (time_Format t) = Some t"
    by (simp add: format_of_civil parse_spell)
next
  fix s t
  assume "time_Parse s = Some t"
  then obtain y mo d h mi se where "y < 10000" "civil_ok y mo d h mi se" "t = of_civil y mo d h mi se"
      "s = spell y mo d h mi se"
    using parse_civil by blast
  then show "time_Format t = s" and "time_valid t"
    by (simp_all add: format_of_civil time_valid_of_civil)
qed

section \<open>Bit lengths\<close>

text \<open>\<^verbatim>\<open>bits.Len64\<close>: the number of bits needed to write a word, 0 for 0.\<close>

fun bit_len :: "nat \<Rightarrow> nat" where
  "bit_len n = (if n = 0 then 0 else Suc (bit_len (n div 2)))"

declare bit_len.simps [simp del]

definition bits_Len64 :: "u64 \<Rightarrow> nat" where
  "bits_Len64 w = bit_len (unat w)"

lemma bit_len_0 [simp]: "bit_len 0 = 0"
  by (simp add: bit_len.simps)

lemma bit_len_bounds: "0 < n \<Longrightarrow> 2 ^ (bit_len n - 1) \<le> n \<and> n < 2 ^ bit_len n \<and> 0 < bit_len n"
proof (induction n rule: bit_len.induct)
  case (1 n)
  show ?case
  proof (cases "n div 2 = 0")
    case True
    with 1 have "n = 1" by simp
    then show ?thesis by (simp add: bit_len.simps)
  next
    case False
    with 1 have IH: "2 ^ (bit_len (n div 2) - 1) \<le> n div 2" "n div 2 < 2 ^ bit_len (n div 2)"
        "0 < bit_len (n div 2)"
      by simp_all
    have len: "bit_len n = Suc (bit_len (n div 2))"
      using 1 by (simp add: bit_len.simps [of n])
    have "(2 :: nat) ^ bit_len (n div 2) = 2 * 2 ^ (bit_len (n div 2) - 1)"
      using IH(3) by (cases "bit_len (n div 2)") simp_all
    with IH have "2 ^ bit_len (n div 2) \<le> n \<and> n < 2 * 2 ^ bit_len (n div 2)"
      by linarith
    with len show ?thesis by simp
  qed
qed

lemma bit_len_unique: "2 ^ k \<le> n \<Longrightarrow> n < 2 ^ Suc k \<Longrightarrow> bit_len n = Suc k"
proof -
  assume k: "2 ^ k \<le> n" "n < 2 ^ Suc k"
  then have "0 < n" using less_le_trans by fastforce
  note b = bit_len_bounds [OF this]
  from b k have "(2::nat) ^ k < 2 ^ bit_len n" and "(2::nat) ^ (bit_len n - 1) < 2 ^ Suc k"
    by linarith+
  then have "k < bit_len n" and "bit_len n - 1 < Suc k"
    by (simp_all only: power_strict_increasing_iff one_less_numeral_iff semiring_norm)
  then show ?thesis by simp
qed

section \<open>Signed machine integers\<close>

text \<open>
  Go's \<^verbatim>\<open>int\<close> and \<^verbatim>\<open>int64\<close> are 64 bits wide and wrap around in two's complement: \<open>int64 x\<close> is the
  value the machine holds for the mathematical result \<open>x\<close>.
\<close>

definition int64 :: "int \<Rightarrow> int" where
  "int64 x = signed_take_bit 63 x"

abbreviation fits64 :: "int \<Rightarrow> bool" where
  "fits64 x \<equiv> - (2 ^ 63) \<le> x \<and> x < 2 ^ 63"

lemma int64_id [simp]: "fits64 x \<Longrightarrow> int64 x = x"
  by (simp add: int64_def signed_take_bit_int_eq_self)

lemma int64_fits: "fits64 (int64 x)"
  using signed_take_bit_int_greater_eq_minus_exp [of 63 x] signed_take_bit_int_less_exp [of 63 x]
  by (simp add: int64_def)

section \<open>Slices\<close>

text \<open>\<^verbatim>\<open>xs[a:b]\<close>, where the bounds are within the length.\<close>

definition slice :: "nat \<Rightarrow> nat \<Rightarrow> 'a list \<Rightarrow> 'a list" where
  "slice a b xs = take (b - a) (drop a xs)"

text \<open>Where each field of a wire image sits.\<close>

lemma slice_fields:
  assumes "length a = i" "length b = j - i" "i \<le> j"
  shows "slice i j (a @ b @ c) = b"
  using assms by (simp add: slice_def)

lemma slices_append:
  assumes "i \<le> j" "j \<le> length xs"
  shows "take i xs @ slice i j xs = take j xs"
  using assms take_add [of i "j - i" xs] by (simp add: slice_def)

lemma length_slice [simp]: "j \<le> length xs \<Longrightarrow> length (slice i j xs) = j - i"
  by (simp add: slice_def)

end
