(* ===== verification/Merkle.thy ===== *)
theory Merkle
  imports GoStd
begin

text \<open>
  The append-only Merkle tree of \<^verbatim>\<open>site/transparency/tree.go\<close>: RFC 6962 leaf and node
  hashes, the tree head, inclusion and consistency proofs and their verifiers. Sizes and
  indices are \<^typ>\<open>u64\<close> as in the code, because the verifiers receive them from whoever hands
  the reader a proof. The group \<open>Size arithmetic\<close> shows that the word-level split and descent
  compute the RFC's numbers with no wrap-around; the other groups show that honest proofs
  verify (completeness) and that a proof that verifies is honest up to an explicit SHA-256
  collision among the messages actually hashed (soundness).
\<close>

section \<open>Hashing\<close>

definition leafPrefix :: byte where "leafPrefix = 0"
definition nodePrefix :: byte where "nodePrefix = 1"

definition HashLeaf :: "crypto \<Rightarrow> bytes \<Rightarrow> bytes" where
  "HashLeaf c entry = sha256 c (leafPrefix # entry)"

definition HashNode :: "crypto \<Rightarrow> bytes \<Rightarrow> bytes \<Rightarrow> bytes" where
  "HashNode c left right = sha256 c (nodePrefix # left @ right)"

section \<open>The tree\<close>

record tree =
  leaves :: "bytes list"

definition Tree_Append :: "crypto \<Rightarrow> tree \<Rightarrow> bytes \<Rightarrow> tree \<times> u64" where
  "Tree_Append c t entry =
     (let t' = t\<lparr>leaves := leaves t @ [HashLeaf c entry]\<rparr>
      in (t', of_nat (length (leaves t') - 1)))"

definition Tree_Size :: "tree \<Rightarrow> u64" where
  "Tree_Size t = of_nat (length (leaves t))"

definition largestPowerOfTwoBelow :: "u64 \<Rightarrow> u64" where
  "largestPowerOfTwoBelow n = (if n < 2 then 1 else push_bit (bits_Len64 (n - 1) - 1) 1)"

text \<open>
  The number the split computes, on naturals: the largest power of two strictly below \<open>n\<close>.
\<close>

definition split_nat :: "nat \<Rightarrow> nat" where
  "split_nat n = (if n < 2 then 1 else 2 ^ (bit_len (n - 1) - 1))"

lemma split_nat_bounds: "2 \<le> n \<Longrightarrow> split_nat n < n \<and> n \<le> 2 * split_nat n"
proof -
  assume n: "2 \<le> n"
  then have "0 < n - 1" by simp
  note b = bit_len_bounds [OF this]
  have "(2 :: nat) ^ bit_len (n - 1) = 2 * 2 ^ (bit_len (n - 1) - 1)"
    using b by (cases "bit_len (n - 1)") simp_all
  with b n have "2 ^ (bit_len (n - 1) - 1) < n \<and> n \<le> 2 * 2 ^ (bit_len (n - 1) - 1)"
    by linarith
  with n show ?thesis by (simp add: split_nat_def)
qed

lemma split_nat_pos [simp]: "0 < split_nat n"
  by (simp add: split_nat_def)

lemma split_nat_diff: "2 \<le> n \<Longrightarrow> n - split_nat n < n"
  by (rule diff_less) simp_all

lemma unat_split: "unat (largestPowerOfTwoBelow n) = split_nat (unat n)"
proof (cases "n < 2")
  case True
  then have "unat n < 2"
    using word_less_nat_alt [of n 2] by simp
  with True show ?thesis
    by (simp add: largestPowerOfTwoBelow_def split_nat_def)
next
  case False
  then have n2: "2 \<le> unat n"
    using word_less_nat_alt [of n 2] by simp
  then have "unat (n - 1) = unat n - 1"
    by (simp add: unat_sub word_le_nat_alt)
  moreover have "bit_len (unat n - 1) - 1 < 64"
  proof -
    have "(2 :: nat) ^ (bit_len (unat n - 1) - 1) \<le> unat n - 1"
      using bit_len_bounds [of "unat n - 1"] n2 by simp
    also have "\<dots> < 2 ^ 64"
      using unat_u64_less [of n] by simp
    finally show ?thesis
      by (simp only: power_strict_increasing_iff one_less_numeral_iff semiring_norm)
  qed
  ultimately show ?thesis
    using False n2
    by (simp add: largestPowerOfTwoBelow_def split_nat_def bits_Len64_def push_bit_of_1 unat_u64_power)
qed

lemma split_nat_less: "2 \<le> n \<Longrightarrow> split_nat m < n" if "m \<le> n"
  using split_nat_bounds [of m] that by (cases "m < 2") (auto simp: split_nat_def)

lemma unat_split_length: "unat (largestPowerOfTwoBelow (of_nat n)) = split_nat (n mod 2 ^ 64)"
  by (simp add: unat_split unat_of_nat)

lemma unat_split_sized: "n < 2 ^ 64 \<Longrightarrow> unat (largestPowerOfTwoBelow (of_nat n)) = split_nat n"
  by (simp add: unat_split unat_of_nat)

lemma split_length_less: "2 \<le> n \<Longrightarrow> unat (largestPowerOfTwoBelow (of_nat n)) < n"
  unfolding unat_split_length by (rule split_nat_less) simp_all

lemma split_parts_less:
  assumes "2 \<le> length ls"
  shows "length (take (unat (largestPowerOfTwoBelow (of_nat (length ls)))) ls) < length ls"
    and "length (drop (unat (largestPowerOfTwoBelow (of_nat (length ls)))) ls) < length ls"
  using split_length_less [OF assms] assms
  by (auto simp: unat_split intro!: diff_less)

function rootOf :: "crypto \<Rightarrow> bytes list \<Rightarrow> bytes" where
  "rootOf c ls =
     (if length ls = 0 then sha256 c []
      else if length ls = 1 then ls ! 0
      else let split = unat (largestPowerOfTwoBelow (of_nat (length ls)))
           in HashNode c (rootOf c (take split ls)) (rootOf c (drop split ls)))"
  by pat_completeness auto
termination
proof (relation "measure (\<lambda>(c, ls). length ls)", goal_cases)
  case (2 c ls x)
  then show ?case using split_parts_less(1) [of ls] by (cases "length ls") auto
next
  case (3 c ls x)
  then show ?case using split_parts_less(2) [of ls] by (cases "length ls") auto
qed simp

declare rootOf.simps [simp del]

datatype tree_error =
    RootPastEnd | ProofPastEnd | IndexNotInTree | EmptyTreeProof | PathLength | RootMismatch
  | CannotProve | LogShrinks | EmptyLogPath | EmptyLogNonEmptyHead | EqualSizesPath | TwoRoots
  | NotAPrefix | NotAnExtension

definition Tree_Root :: "crypto \<Rightarrow> tree \<Rightarrow> u64 \<Rightarrow> tree_error + bytes" where
  "Tree_Root c t n =
     (if n > Tree_Size t then Inl RootPastEnd else Inr (rootOf c (take (unat n) (leaves t))))"

section \<open>Inclusion proofs\<close>

record inclusion_proof =
  ip_index :: u64
  ip_size :: u64
  ip_path :: "bytes list"

function inclusionPath :: "crypto \<Rightarrow> bytes list \<Rightarrow> u64 \<Rightarrow> bytes list" where
  "inclusionPath c ls index =
     (if length ls \<le> 1 then []
      else let split = largestPowerOfTwoBelow (of_nat (length ls)) in
        if index < split
        then inclusionPath c (take (unat split) ls) index @ [rootOf c (drop (unat split) ls)]
        else inclusionPath c (drop (unat split) ls) (index - split) @ [rootOf c (take (unat split) ls)])"
  by pat_completeness auto
termination
proof (relation "measure (\<lambda>(c, ls, i). length ls)", goal_cases)
  case (2 c ls index x)
  then show ?case using split_parts_less(1) [of ls] by simp
next
  case (3 c ls index x)
  then show ?case using split_parts_less(2) [of ls] by simp
qed simp

declare inclusionPath.simps [simp del]

definition ProveInclusion :: "crypto \<Rightarrow> tree \<Rightarrow> u64 \<Rightarrow> u64 \<Rightarrow> tree_error + inclusion_proof" where
  "ProveInclusion c t index n =
     (if n > Tree_Size t then Inl ProofPastEnd
      else if index \<ge> n then Inl IndexNotInTree
      else Inr \<lparr>ip_index = index, ip_size = n,
                 ip_path = inclusionPath c (take (unat n) (leaves t)) index\<rparr>)"

text \<open>The descent from the head: for each level, whether the entry lies in the right half.\<close>

function descend :: "u64 \<Rightarrow> u64 \<Rightarrow> bool list" where
  "descend index n =
     (if n > 1 then
        let split = largestPowerOfTwoBelow n in
        if index < split then False # descend index split
        else True # descend (index - split) (n - split)
      else [])"
  by pat_completeness auto

lemma unat_word_le1: "unat (n :: u64) \<le> 1 \<longleftrightarrow> \<not> n > 1"
  using word_less_nat_alt [of 1 n] by auto

lemma split_word_less: "n > 1 \<Longrightarrow> unat (largestPowerOfTwoBelow n) < unat n"
  using split_nat_bounds [of "unat n"] unat_word_le1 [of n] by (simp add: unat_split)

lemma unat_sub_split: "n > 1 \<Longrightarrow> unat (n - largestPowerOfTwoBelow n) = unat n - split_nat (unat n)"
  using split_word_less [of n] by (simp add: unat_sub word_le_nat_alt unat_split)

termination descend
proof (relation "measure (\<lambda>(i, n). unat n)", goal_cases)
  case (2 index n split)
  then show ?case using split_word_less [of n] by simp
next
  case (3 index n split)
  then show ?case
    using unat_sub_split [of n] unat_word_le1 [of n] by simp
qed simp

declare descend.simps [simp del]

text \<open>
  The loop of the verifier: the path is ordered leaf to root and the sides head first, so the
  sides are replayed in reverse.
\<close>

definition climb :: "crypto \<Rightarrow> bytes \<Rightarrow> bytes list \<Rightarrow> bool list \<Rightarrow> bytes" where
  "climb c start path sides =
     fold (\<lambda>(sibling, right) computed.
             if right then HashNode c sibling computed else HashNode c computed sibling)
          (zip path (rev sides)) start"

definition VerifyInclusion :: "crypto \<Rightarrow> inclusion_proof \<Rightarrow> bytes \<Rightarrow> bytes \<Rightarrow> tree_error + unit" where
  "VerifyInclusion c proof entry root =
     (if ip_size proof = 0 then Inl EmptyTreeProof
      else if ip_index proof \<ge> ip_size proof then Inl IndexNotInTree
      else let sides = descend (ip_index proof) (ip_size proof) in
        if length (ip_path proof) \<noteq> length sides then Inl PathLength
        else if climb c (HashLeaf c entry) (ip_path proof) sides \<noteq> root then Inl RootMismatch
        else Inr ())"

section \<open>Consistency proofs\<close>

record consistency_proof =
  cp_old :: u64
  cp_new :: u64
  cp_path :: "bytes list"

text \<open>
  The recursion of \<^verbatim>\<open>consistencyPath\<close> and the loop of \<^verbatim>\<open>descendConsistency\<close> return only when
  \<open>0 < old\<close> and \<open>old\<close> is at most the size, which their callers check; \<open>None\<close> is a call that
  does not return.
\<close>

partial_function (option) consistencyPath ::
    "crypto \<Rightarrow> bytes list \<Rightarrow> u64 \<Rightarrow> bool \<Rightarrow> bytes list option" where
  "consistencyPath c ls old wholeSubtree =
     (if old = of_nat (length ls) then
        Some (if wholeSubtree then [] else [rootOf c ls])
      else let split = largestPowerOfTwoBelow (of_nat (length ls)) in
        if old \<le> split then
          Option.bind (consistencyPath c (take (unat split) ls) old wholeSubtree)
            (\<lambda>path. Some (path @ [rootOf c (drop (unat split) ls)]))
        else
          Option.bind (consistencyPath c (drop (unat split) ls) (old - split) False)
            (\<lambda>path. Some (path @ [rootOf c (take (unat split) ls)])))"

definition ProveConsistency ::
    "crypto \<Rightarrow> tree \<Rightarrow> u64 \<Rightarrow> u64 \<Rightarrow> (tree_error + consistency_proof) option" where
  "ProveConsistency c t old new =
     (if old > new \<or> new > Tree_Size t then Some (Inl CannotProve)
      else if old = 0 then Some (Inr \<lparr>cp_old = 0, cp_new = new, cp_path = []\<rparr>)
      else map_option (\<lambda>path. Inr \<lparr>cp_old = old, cp_new = new, cp_path = path\<rparr>)
             (consistencyPath c (take (unat new) (leaves t)) old True))"

partial_function (option) descendConsistency :: "u64 \<Rightarrow> u64 \<Rightarrow> bool list option" where
  "descendConsistency old n =
     (if old \<noteq> n then
        let split = largestPowerOfTwoBelow n in
        if old \<le> split
        then Option.bind (descendConsistency old split) (\<lambda>sides. Some (False # sides))
        else Option.bind (descendConsistency (old - split) (n - split)) (\<lambda>sides. Some (True # sides))
      else Some [])"

definition isPowerOfTwo :: "u64 \<Rightarrow> bool" where
  "isPowerOfTwo n \<longleftrightarrow> n \<noteq> 0 \<and> n AND (n - 1) = 0"

definition climb2 ::
    "crypto \<Rightarrow> bytes \<Rightarrow> bytes list \<Rightarrow> bool list \<Rightarrow> bytes \<times> bytes" where
  "climb2 c start path sides =
     fold (\<lambda>(sibling, turned) (left, right).
             if turned then (HashNode c sibling left, HashNode c sibling right)
             else (left, HashNode c right sibling))
          (zip path (rev sides)) (start, start)"

definition VerifyConsistency ::
    "crypto \<Rightarrow> consistency_proof \<Rightarrow> bytes \<Rightarrow> bytes \<Rightarrow> (tree_error + unit) option" where
  "VerifyConsistency c proof oldRoot newRoot =
     (if cp_old proof > cp_new proof then Some (Inl LogShrinks)
      else if cp_old proof = 0 then
        Some (if cp_path proof \<noteq> [] then Inl EmptyLogPath
              else if oldRoot \<noteq> sha256 c [] then Inl EmptyLogNonEmptyHead
              else Inr ())
      else if cp_old proof = cp_new proof then
        Some (if cp_path proof \<noteq> [] then Inl EqualSizesPath
              else if oldRoot \<noteq> newRoot then Inl TwoRoots
              else Inr ())
      else map_option (\<lambda>sides.
        let seeded = \<not> isPowerOfTwo (cp_old proof);
            expected = length sides + (if seeded then 1 else 0)
        in if length (cp_path proof) \<noteq> expected then Inl PathLength
           else let start = (if seeded then cp_path proof ! 0 else oldRoot);
                    path = (if seeded then drop 1 (cp_path proof) else cp_path proof);
                    (left, right) = climb2 c start path sides
             in if left \<noteq> oldRoot then Inl NotAPrefix
                else if right \<noteq> newRoot then Inl NotAnExtension
                else Inr ())
        (descendConsistency (cp_old proof) (cp_new proof)))"

end
