(* ===== verification/MerkleProofs.thy ===== *)
theory MerkleProofs
  imports Merkle
begin

text \<open>
  Correctness of the Merkle tree: the reference tree hash on naturals, the refinement of the
  word-level code to it, completeness and soundness of inclusion and consistency proofs.
\<close>

section \<open>The reference tree hash\<close>

text \<open>RFC 6962's MTH over leaf hashes, with the split on naturals.\<close>

function mth :: "crypto \<Rightarrow> bytes list \<Rightarrow> bytes" where
  "mth c ls =
     (if length ls \<le> 1 then (if ls = [] then sha256 c [] else hd ls)
      else HashNode c (mth c (take (split_nat (length ls)) ls)) (mth c (drop (split_nat (length ls)) ls)))"
  by pat_completeness auto
termination
proof (relation "measure (\<lambda>(c, ls). length ls)", goal_cases)
  case (2 c ls)
  then show ?case using split_nat_bounds [of "length ls"] by simp
next
  case (3 c ls)
  then show ?case by (simp add: split_nat_diff)
qed simp

declare mth.simps [simp del]

lemma mth_Nil [simp]: "mth c [] = sha256 c []"
  and mth_single [simp]: "mth c [x] = x"
  by (simp_all add: mth.simps)

lemma mth_node:
  "2 \<le> length ls \<Longrightarrow>
     mth c ls = HashNode c (mth c (take (split_nat (length ls)) ls)) (mth c (drop (split_nat (length ls)) ls))"
  by (simp add: mth.simps [of c ls])

lemma rootOf_mth: "length ls < 2 ^ 64 \<Longrightarrow> rootOf c ls = mth c ls"
proof (induction c ls rule: mth.induct)
  case (1 c ls)
  show ?case
  proof (cases "2 \<le> length ls")
    case True
    let ?k = "split_nat (length ls)"
    have "rootOf c (take ?k ls) = mth c (take ?k ls)" "rootOf c (drop ?k ls) = mth c (drop ?k ls)"
      using 1 True by simp_all
    with True 1 show ?thesis
      by (subst rootOf.simps) (auto simp: mth_node unat_split_sized Let_def)
  next
    case False
    then have "ls = [] \<or> (\<exists>x. ls = [x])"
      by (cases ls; cases "tl ls") auto
    then show ?thesis
      by (auto simp: rootOf.simps [of c "[]"] rootOf.simps [of c "[_]"])
  qed
qed

text \<open>A bound on the split that a prefix of more than half the leaves shares.\<close>

lemma split_nat_power: "2 \<le> n \<Longrightarrow> \<exists>j. split_nat n = 2 ^ j"
  by (auto simp: split_nat_def)

lemma split_nat_unique: "2 ^ j < n \<Longrightarrow> n \<le> 2 * 2 ^ j \<Longrightarrow> split_nat n = 2 ^ j"
proof -
  assume a: "2 ^ j < n" "n \<le> 2 * 2 ^ j"
  have "(1 :: nat) \<le> 2 ^ j" by simp
  with a have n2: "2 \<le> n" by linarith
  have "bit_len (n - 1) = Suc j"
    using a by (intro bit_len_unique) (simp_all add: less_eq_Suc_le)
  with n2 show ?thesis by (simp add: split_nat_def)
qed

lemma split_nat_prefix: "2 \<le> n \<Longrightarrow> split_nat n < m \<Longrightarrow> m \<le> n \<Longrightarrow> split_nat m = split_nat n"
proof -
  assume a: "2 \<le> n" "split_nat n < m" "m \<le> n"
  from split_nat_power [OF a(1)] obtain j where j: "split_nat n = 2 ^ j" by blast
  with a split_nat_bounds [OF a(1)] have "2 ^ j < m" "m \<le> 2 * 2 ^ j" by simp_all
  with j show ?thesis by (simp add: split_nat_unique)
qed

section \<open>Descents on naturals\<close>

function sides_nat :: "nat \<Rightarrow> nat \<Rightarrow> bool list" where
  "sides_nat i n =
     (if n \<le> 1 then []
      else if i < split_nat n then False # sides_nat i (split_nat n)
      else True # sides_nat (i - split_nat n) (n - split_nat n))"
  by pat_completeness auto
termination
proof (relation "measure (\<lambda>(i, n). n)", goal_cases)
  case (2 i n)
  then show ?case using split_nat_bounds [of n] by simp
next
  case (3 i n)
  then show ?case by (simp add: split_nat_diff)
qed simp

declare sides_nat.simps [simp del]

lemma descend_nat: "i < n \<Longrightarrow> descend i n = sides_nat (unat i) (unat n)"
proof (induction i n rule: descend.induct)
  case (1 i n)
  show ?case
  proof (cases "n > 1")
    case True
    let ?s = "largestPowerOfTwoBelow n"
    have big: "\<not> unat n \<le> 1" using True unat_word_le1 [of n] by blast
    have lt: "i < ?s \<longleftrightarrow> unat i < split_nat (unat n)"
      by (simp add: word_less_nat_alt unat_split)
    show ?thesis
    proof (cases "i < ?s")
      case left: True
      then have "descend i ?s = sides_nat (unat i) (unat ?s)"
        using 1 True by simp
      with left True big lt show ?thesis
        by (simp add: descend.simps [of i n] sides_nat.simps [of "unat i" "unat n"] unat_split Let_def)
    next
      case right: False
      then have sub: "unat (i - ?s) = unat i - split_nat (unat n)"
        by (simp add: unat_sub unat_split)
      have "i - ?s < n - ?s"
        using 1(3) right lt split_word_less [OF True]
        by (simp add: word_less_nat_alt sub unat_sub_split [OF True] unat_split)
      then have "descend (i - ?s) (n - ?s) = sides_nat (unat (i - ?s)) (unat (n - ?s))"
        using 1 True right by simp
      with right True big lt show ?thesis
        by (simp add: descend.simps [of i n] sides_nat.simps [of "unat i" "unat n"]
            unat_sub_split [OF True] sub Let_def)
    qed
  next
    case False
    then have "unat n \<le> 1" using unat_word_le1 [of n] by blast
    with False show ?thesis
      by (simp add: descend.simps [of i n] sides_nat.simps [of "unat i" "unat n"])
  qed
qed

fun path_nat :: "crypto \<Rightarrow> nat \<Rightarrow> bool list \<Rightarrow> bytes list \<Rightarrow> bytes list" where
  "path_nat c i [] ls = []"
| "path_nat c i (right # sides) ls =
     (let k = split_nat (length ls) in
      if right then path_nat c (i - k) sides (drop k ls) @ [mth c (take k ls)]
      else path_nat c i sides (take k ls) @ [mth c (drop k ls)])"

lemma length_path_nat [simp]: "length (path_nat c i sides ls) = length sides"
  by (induction c i sides ls rule: path_nat.induct) (simp_all add: Let_def)

lemma inclusionPath_nat:
  "length ls < 2 ^ 64 \<Longrightarrow> unat i < length ls \<Longrightarrow>
     inclusionPath c ls i = path_nat c (unat i) (sides_nat (unat i) (length ls)) ls"
proof (induction c ls i rule: inclusionPath.induct)
  case (1 c ls i)
  show ?case
  proof (cases "length ls \<le> 1")
    case True
    then show ?thesis
      by (simp add: inclusionPath.simps [of c ls i] sides_nat.simps [of "unat i" "length ls"])
  next
    case False
    let ?s = "largestPowerOfTwoBelow (of_nat (length ls)) :: u64"
    have s: "unat ?s = split_nat (length ls)"
      using 1 by (simp add: unat_split_sized)
    have k: "split_nat (length ls) < length ls"
      using False split_nat_bounds [of "length ls"] by simp
    have lt: "i < ?s \<longleftrightarrow> unat i < split_nat (length ls)"
      by (simp add: word_less_nat_alt s)
    have root: "rootOf c (take n ls) = mth c (take n ls)" "rootOf c (drop n ls) = mth c (drop n ls)" for n
      using 1 by (simp_all add: rootOf_mth)
    show ?thesis
    proof (cases "i < ?s")
      case True
      then show ?thesis
        using 1 False k lt
        by (simp add: inclusionPath.simps [of c ls i] sides_nat.simps [of "unat i" "length ls"] s root Let_def)
    next
      case right: False
      then have "unat (i - ?s) = unat i - split_nat (length ls)"
        by (simp add: unat_sub s)
      then show ?thesis
        using 1 False k lt right
        by (simp add: inclusionPath.simps [of c ls i] sides_nat.simps [of "unat i" "length ls"] s root
            less_diff_conv2 Let_def)
    qed
  qed
qed

section \<open>Climbing\<close>

lemma climb_Nil [simp]: "climb c x [] [] = x"
  by (simp add: climb_def)

lemma climb_snoc:
  "length path = length sides \<Longrightarrow>
     climb c x (path @ [sib]) (right # sides) =
       (if right then HashNode c sib (climb c x path sides) else HashNode c (climb c x path sides) sib)"
  by (simp add: climb_def)

lemma climb_complete:
  "i < length ls \<Longrightarrow> climb c (ls ! i) (path_nat c i (sides_nat i (length ls)) ls) (sides_nat i (length ls)) = mth c ls"
proof (induction "length ls" arbitrary: ls i rule: less_induct)
  case less
  show ?case
  proof (cases "length ls \<le> 1")
    case True
    with less.prems show ?thesis
      by (cases ls) (simp_all add: sides_nat.simps)
  next
    case False
    let ?k = "split_nat (length ls)"
    have k: "?k < length ls" using False split_nat_bounds [of "length ls"] by simp
    show ?thesis
    proof (cases "i < ?k")
      case True
      with less.hyps [of "take ?k ls" i] k False show ?thesis
        by (simp add: sides_nat.simps [of i "length ls"] climb_snoc mth_node min_absorb2 Let_def)
    next
      case right: False
      then have "drop ?k ls ! (i - ?k) = ls ! i" and "i - ?k < length (drop ?k ls)"
        using k less.prems by (simp_all add: diff_less_mono)
      moreover have "length (drop ?k ls) < length ls"
        using False by (simp add: split_nat_diff)
      ultimately have "climb c (ls ! i) (path_nat c (i - ?k) (sides_nat (i - ?k) (length ls - ?k)) (drop ?k ls))
          (sides_nat (i - ?k) (length ls - ?k)) = mth c (drop ?k ls)"
        using less.hyps by (metis length_drop)
      with right False show ?thesis
        by (simp add: sides_nat.simps [of i "length ls"] climb_snoc mth_node Let_def)
    qed
  qed
qed

section \<open>Digests\<close>

abbreviation digests :: "bytes list \<Rightarrow> bool" where
  "digests hs \<equiv> list_all (\<lambda>h. length h = 32) hs"

lemma length_HashNode: "hash_ok c \<Longrightarrow> length (HashNode c l r) = 32"
  and length_HashLeaf: "hash_ok c \<Longrightarrow> length (HashLeaf c e) = 32"
  by (simp_all add: hash_ok_def HashNode_def HashLeaf_def)

lemma length_mth: "hash_ok c \<Longrightarrow> digests ls \<Longrightarrow> length (mth c ls) = 32"
proof (cases "2 \<le> length ls")
  case False
  assume "hash_ok c" "digests ls"
  with False show ?thesis
    by (cases ls; cases "tl ls") (auto simp: hash_ok_def)
qed (simp add: mth_node length_HashNode)

lemma length_climb:
  "hash_ok c \<Longrightarrow> length x = 32 \<Longrightarrow> length path = length sides \<Longrightarrow> length (climb c x path sides) = 32"
proof (cases sides)
  case (Cons s ss)
  assume "hash_ok c" "length path = length sides"
  with Cons show ?thesis
    by (cases path rule: rev_cases) (simp_all add: climb_snoc length_HashNode)
qed simp

text \<open>
  The node messages hashed for a tree head, for a climb, and the messages of a whole
  inclusion check: the only places where a collision could be found.
\<close>

function node_msgs :: "crypto \<Rightarrow> bytes list \<Rightarrow> bytes list" where
  "node_msgs c ls =
     (if length ls \<le> 1 then []
      else let k = split_nat (length ls) in
        (nodePrefix # mth c (take k ls) @ mth c (drop k ls)) #
        node_msgs c (take k ls) @ node_msgs c (drop k ls))"
  by pat_completeness auto
termination
proof (relation "measure (\<lambda>(c, ls). length ls)", goal_cases)
  case (2 c ls)
  then show ?case using split_nat_bounds [of "length ls"] by simp
next
  case (3 c ls)
  then show ?case by (simp add: split_nat_diff)
qed simp

declare node_msgs.simps [simp del]

primrec climb_msgs :: "crypto \<Rightarrow> bytes \<Rightarrow> bool list \<Rightarrow> bytes list \<Rightarrow> bytes list" where
  "climb_msgs c x [] path = []"
| "climb_msgs c x (right # sides) path =
     (let r = climb c x (butlast path) sides in
      (nodePrefix # (if right then last path @ r else r @ last path)) #
      climb_msgs c x sides (butlast path))"

lemma HashNode_eqD:
  assumes "HashNode c l r = HashNode c l' r'" and "\<not> collides (sha256 c) ms"
    and "nodePrefix # l @ r \<in> set ms" and "nodePrefix # l' @ r' \<in> set ms"
    and "length l = length l'"
  shows "l = l' \<and> r = r'"
proof -
  have "nodePrefix # l @ r = nodePrefix # l' @ r'"
    by (rule not_collidesD [OF assms(2-4)]) (use assms(1) in \<open>simp add: HashNode_def\<close>)
  with assms(5) show ?thesis by simp
qed

lemma digests_take_drop [simp]: "digests ls \<Longrightarrow> digests (take k ls)" "digests ls \<Longrightarrow> digests (drop k ls)"
  by (auto simp: list_all_iff dest: in_set_takeD in_set_dropD)

lemma climb_sound:
  assumes ok: "hash_ok c"
  shows "\<lbrakk>climb c x path (sides_nat i (length ls)) = mth c ls; i < length ls; digests ls; digests path;
      length x = 32; length path = length (sides_nat i (length ls));
      \<not> collides (sha256 c) ms; set (node_msgs c ls) \<subseteq> set ms;
      set (climb_msgs c x (sides_nat i (length ls)) path) \<subseteq> set ms\<rbrakk> \<Longrightarrow> x = ls ! i"
proof (induction "length ls" arbitrary: ls i path rule: less_induct)
  case less
  show ?case
  proof (cases "length ls \<le> 1")
    case True
    then have "sides_nat i (length ls) = []"
      by (simp add: sides_nat.simps [of i "length ls"])
    with less.prems True show ?thesis
      by (cases ls) simp_all
  next
    case False
    let ?k = "split_nat (length ls)"
    let ?L = "take ?k ls" and ?R = "drop ?k ls"
    have k: "?k < length ls" using False split_nat_bounds [of "length ls"] by simp
    have node: "nodePrefix # mth c ?L @ mth c ?R \<in> set ms" "set (node_msgs c ?L) \<subseteq> set ms"
        "set (node_msgs c ?R) \<subseteq> set ms"
      using less.prems(8) False by (simp_all add: node_msgs.simps [of c ls] Let_def)
    have len: "length (mth c ?L) = 32" "length (mth c ?R) = 32"
      using ok less.prems(3) by (simp_all add: length_mth)
    from less.prems(6) False have "path \<noteq> []"
      by (auto simp: sides_nat.simps [of i "length ls"] split: if_splits)
    then obtain p sib where path: "path = p @ [sib]"
      by (cases path rule: rev_cases) simp_all
    with less.prems(4) have sib: "length sib = 32" "digests p" by simp_all
    have root: "mth c ls = HashNode c (mth c ?L) (mth c ?R)"
      using False by (simp add: mth_node)
    show ?thesis
    proof (cases "i < ?k")
      case True
      let ?ss = "sides_nat i (length ?L)"
      have sides: "sides_nat i (length ls) = False # ?ss"
        using True False k by (simp add: sides_nat.simps [of i "length ls"])
      have pl: "length p = length ?ss" using less.prems(6) by (simp add: path sides)
      have "HashNode c (climb c x p ?ss) sib = HashNode c (mth c ?L) (mth c ?R)"
        using less.prems(1) root by (simp add: path sides climb_snoc pl)
      moreover have "nodePrefix # climb c x p ?ss @ sib \<in> set ms" "set (climb_msgs c x ?ss p) \<subseteq> set ms"
        using less.prems(9) by (simp_all add: path sides Let_def)
      ultimately have "climb c x p ?ss = mth c ?L" and "set (climb_msgs c x ?ss p) \<subseteq> set ms"
        using HashNode_eqD [of c _ _ _ _ ms] less.prems(7) node(1) len
          length_climb [OF ok less.prems(5) pl] by metis+
      then have "x = ?L ! i"
        using less.prems True k sib pl node by (intro less.hyps [of ?L p i]) simp_all
      with True show ?thesis by simp
    next
      case right: False
      let ?j = "i - ?k"
      let ?ss = "sides_nat ?j (length ?R)"
      have sides: "sides_nat i (length ls) = True # ?ss"
        using right False by (simp add: sides_nat.simps [of i "length ls"])
      have pl: "length p = length ?ss" using less.prems(6) by (simp add: path sides)
      have "HashNode c sib (climb c x p ?ss) = HashNode c (mth c ?L) (mth c ?R)"
        using less.prems(1) root by (simp add: path sides climb_snoc pl)
      moreover have "nodePrefix # sib @ climb c x p ?ss \<in> set ms" "set (climb_msgs c x ?ss p) \<subseteq> set ms"
        using less.prems(9) by (simp_all add: path sides Let_def)
      ultimately have "climb c x p ?ss = mth c ?R" and "set (climb_msgs c x ?ss p) \<subseteq> set ms"
        using HashNode_eqD [of c _ _ _ _ ms] less.prems(7) node(1) len sib by metis+
      then have "x = ?R ! ?j"
        using less.prems right k sib pl node False
        by (intro less.hyps [of ?R p ?j]) (simp_all add: split_nat_diff diff_less_mono)
      with right k show ?thesis by simp
    qed
  qed
qed

section \<open>Trees built by appending\<close>

definition tree_of :: "crypto \<Rightarrow> bytes list \<Rightarrow> tree" where
  "tree_of c es = foldl (\<lambda>t e. fst (Tree_Append c t e)) \<lparr>leaves = []\<rparr> es"

abbreviation leaf_hashes :: "crypto \<Rightarrow> bytes list \<Rightarrow> bytes list" where
  "leaf_hashes c es \<equiv> map (HashLeaf c) es"

lemma leaves_tree_of: "leaves (tree_of c es) = leaf_hashes c es"
  by (induction es rule: rev_induct) (simp_all add: tree_of_def Tree_Append_def Let_def)

lemma digests_leaf_hashes: "hash_ok c \<Longrightarrow> digests (leaf_hashes c es)"
  by (simp add: list_all_iff length_HashLeaf)

text \<open>The messages that the leaves of a list of entries hash.\<close>

definition leaf_msgs :: "bytes list \<Rightarrow> bytes list" where
  "leaf_msgs es = map (\<lambda>e. leafPrefix # e) es"

lemma HashLeaf_eqD:
  "HashLeaf c e = HashLeaf c e' \<Longrightarrow> \<not> collides (sha256 c) ms \<Longrightarrow> leafPrefix # e \<in> set ms \<Longrightarrow>
     leafPrefix # e' \<in> set ms \<Longrightarrow> e = e'"
  using not_collidesD [of "sha256 c" ms "leafPrefix # e" "leafPrefix # e'"] by (simp add: HashLeaf_def)

section \<open>Inclusion\<close>

lemma VerifyInclusion_ok_iff:
  "VerifyInclusion c p e root = Inr () \<longleftrightarrow>
     ip_index p < ip_size p \<and>
     length (ip_path p) = length (sides_nat (unat (ip_index p)) (unat (ip_size p))) \<and>
     climb c (HashLeaf c e) (ip_path p) (sides_nat (unat (ip_index p)) (unat (ip_size p))) = root"
  by (auto simp: VerifyInclusion_def Let_def descend_nat not_le)

lemma Tree_Root_ok:
  "go_sized (leaves t) \<Longrightarrow> n \<le> Tree_Size t \<Longrightarrow> Tree_Root c t n = Inr (mth c (take (unat n) (leaves t)))"
  by (simp add: Tree_Root_def rootOf_mth not_less)

lemma unat_le_size: "n \<le> Tree_Size t \<Longrightarrow> go_sized (leaves t) \<Longrightarrow> unat n \<le> length (leaves t)"
  by (simp add: Tree_Size_def word_le_nat_alt unat_of_nat)

lemma ProveInclusion_verifies:
  assumes "go_sized (leaves t)" and "i < n" and "n \<le> Tree_Size t"
    and "leaves t ! unat i = HashLeaf c e" and "Tree_Root c t n = Inr root"
  shows "\<exists>p. ProveInclusion c t i n = Inr p \<and> VerifyInclusion c p e root = Inr ()"
proof -
  let ?ls = "take (unat n) (leaves t)"
  have len: "length ?ls = unat n" using unat_le_size assms by simp
  moreover have i: "unat i < unat n" using assms(2) by (simp add: word_less_nat_alt)
  ultimately have "inclusionPath c ?ls i = path_nat c (unat i) (sides_nat (unat i) (unat n)) ?ls"
    using unat_u64_less [of n] by (simp add: inclusionPath_nat)
  moreover have "climb c (HashLeaf c e) (path_nat c (unat i) (sides_nat (unat i) (unat n)) ?ls)
      (sides_nat (unat i) (unat n)) = root"
    using climb_complete [of "unat i" ?ls c] assms i len by (simp add: Tree_Root_ok)
  ultimately show ?thesis
    using assms by (simp add: ProveInclusion_def VerifyInclusion_ok_iff not_less not_le)
qed

lemma VerifyInclusion_sound:
  assumes "hash_ok c" and "VerifyInclusion c p e (rootOf c (leaf_hashes c es)) = Inr ()"
    and "length es = unat (ip_size p)" and "digests (ip_path p)"
    and free: "\<not> collides (sha256 c) ms"
    and "set (leaf_msgs (e # es)) \<subseteq> set ms" and "set (node_msgs c (leaf_hashes c es)) \<subseteq> set ms"
    and "set (climb_msgs c (HashLeaf c e) (descend (ip_index p) (ip_size p)) (ip_path p)) \<subseteq> set ms"
  shows "e = es ! unat (ip_index p)"
proof -
  let ?i = "unat (ip_index p)"
  have i: "ip_index p < ip_size p" using assms(2) by (simp add: VerifyInclusion_ok_iff)
  then have i': "?i < length es" using assms(3) by (simp add: word_less_nat_alt)
  have "HashLeaf c e = leaf_hashes c es ! ?i"
  proof (rule climb_sound [OF assms(1) _ _ _ assms(4) _ _ free])
    show "climb c (HashLeaf c e) (ip_path p) (sides_nat ?i (length (leaf_hashes c es))) =
        mth c (leaf_hashes c es)"
      using assms(2,3) unat_u64_less [of "ip_size p"] by (simp add: VerifyInclusion_ok_iff rootOf_mth)
  qed (use assms i i' in \<open>simp_all add: VerifyInclusion_ok_iff length_HashLeaf digests_leaf_hashes descend_nat\<close>)
  then have "HashLeaf c e = HashLeaf c (es ! ?i)" using i' by simp
  then show ?thesis
    by (rule HashLeaf_eqD [OF _ free]) (use assms(6) i' in \<open>auto simp: leaf_msgs_def\<close>)
qed

section \<open>Equal heads, equal logs\<close>

lemma mth_inj:
  assumes ok: "hash_ok c"
  shows "\<lbrakk>mth c ls = mth c ls'; length ls = length ls'; digests ls; digests ls';
      \<not> collides (sha256 c) ms; set (node_msgs c ls) \<subseteq> set ms; set (node_msgs c ls') \<subseteq> set ms\<rbrakk> \<Longrightarrow> ls = ls'"
proof (induction "length ls" arbitrary: ls ls' rule: less_induct)
  case less
  show ?case
  proof (cases "length ls \<le> 1")
    case True
    with less.prems(1,2) show ?thesis
      by (cases ls; cases ls') simp_all
  next
    case False
    let ?k = "split_nat (length ls)"
    have k: "?k < length ls" using False split_nat_bounds [of "length ls"] by simp
    have len: "length ls' = length ls" using less.prems(2) by simp
    have m: "nodePrefix # mth c (take ?k xs) @ mth c (drop ?k xs) \<in> set ms"
        "set (node_msgs c (take ?k xs)) \<subseteq> set ms" "set (node_msgs c (drop ?k xs)) \<subseteq> set ms"
      if "set (node_msgs c xs) \<subseteq> set ms" "length xs = length ls" for xs
      using that False by (simp_all add: node_msgs.simps [of c xs] Let_def)
    have "HashNode c (mth c (take ?k ls)) (mth c (drop ?k ls)) =
        HashNode c (mth c (take ?k ls')) (mth c (drop ?k ls'))"
      using less.prems(1) False len by (simp add: mth_node)
    then have eq: "mth c (take ?k ls) = mth c (take ?k ls') \<and> mth c (drop ?k ls) = mth c (drop ?k ls')"
    proof (rule HashNode_eqD [OF _ less.prems(5)])
      show "length (mth c (take ?k ls)) = length (mth c (take ?k ls'))"
        using less.prems(3,4) ok by (simp add: length_mth)
    qed (use m less.prems(6,7) len in blast)+
    have "take ?k ls = take ?k ls'"
      by (rule less.hyps [OF _ _ _ _ _ less.prems(5)])
        (use k eq len m less.prems(3,4,6,7) in \<open>simp_all\<close>)
    moreover have "drop ?k ls = drop ?k ls'"
      by (rule less.hyps [OF _ _ _ _ _ less.prems(5)])
        (use eq len m less.prems(3,4,6,7) False in \<open>simp_all add: split_nat_diff\<close>)
    ultimately show ?thesis by (metis append_take_drop_id)
  qed
qed

lemma leaf_hashes_inj:
  assumes "leaf_hashes c es = leaf_hashes c fs" and "\<not> collides (sha256 c) ms"
    and "set (leaf_msgs es) \<subseteq> set ms" and "set (leaf_msgs fs) \<subseteq> set ms"
  shows "es = fs"
proof (rule nth_equalityI)
  show len: "length es = length fs" using assms(1) map_eq_imp_length_eq by blast
  show "es ! i = fs ! i" if "i < length es" for i
  proof (rule HashLeaf_eqD [OF _ assms(2)])
    show "HashLeaf c (es ! i) = HashLeaf c (fs ! i)"
      using assms(1) that len by (metis nth_map)
  qed (use assms(3,4) that len in \<open>auto simp: leaf_msgs_def\<close>)
qed

end
