(* ===== verification/MerkleConsistency.thy ===== *)
theory MerkleConsistency
  imports MerkleProofs
begin

text \<open>
  Consistency proofs: the recursion of the prover and the loop of the verifier return for
  every request their guards let through, an honest log's proof verifies, and a proof that
  verifies against the head of a log shows that the old head is the head of a prefix of it,
  up to an explicit collision.
\<close>

section \<open>The descent to the old size\<close>

function csides :: "nat \<Rightarrow> nat \<Rightarrow> bool list" where
  "csides m n =
     (if m = 0 \<or> n \<le> m then []
      else if m \<le> split_nat n then False # csides m (split_nat n)
      else True # csides (m - split_nat n) (n - split_nat n))"
  by pat_completeness auto
termination
proof (relation "measure (\<lambda>(m, n). n)", goal_cases)
  case (2 m n)
  then show ?case using split_nat_bounds [of n] by simp
next
  case (3 m n)
  then show ?case by (simp add: split_nat_diff)
qed simp

declare csides.simps [simp del]

lemma csides_equal [simp]: "csides n n = []"
  by (simp add: csides.simps)

lemma csides_left:
  "0 < m \<Longrightarrow> m < n \<Longrightarrow> m \<le> split_nat n \<Longrightarrow> csides m n = False # csides m (split_nat n)"
  by (simp add: csides.simps [of m n])

lemma csides_right:
  "m < n \<Longrightarrow> split_nat n < m \<Longrightarrow> csides m n = True # csides (m - split_nat n) (n - split_nat n)"
  by (simp add: csides.simps [of m n])

lemma power2_le_split:
  assumes "2 ^ j < n"
  shows "2 ^ j \<le> split_nat n"
proof -
  have n2: "2 \<le> n" using assms one_le_numeral [of "Num.Bit0 Num.One"]
    by (metis (no_types) Suc_1 Suc_leI less_le_trans nat_less_le one_le_power order_le_less_trans)
  then obtain i where i: "split_nat n = 2 ^ i" using split_nat_power by blast
  have "\<not> i < j"
  proof
    assume "i < j"
    then have "(2 :: nat) * 2 ^ i \<le> 2 ^ j" using power_increasing [of "Suc i" j "2 :: nat"] by simp
    with assms split_nat_bounds [OF n2] i show False by simp
  qed
  with i show ?thesis by simp
qed

text \<open>The descent never turns right exactly when the old size is a power of two.\<close>

lemma csides_no_right: "0 < m \<Longrightarrow> m < n \<Longrightarrow> True \<notin> set (csides m n) \<longleftrightarrow> (\<exists>j. m = 2 ^ j)"
proof (induction n rule: less_induct)
  case (less n)
  from less.prems have n2: "2 \<le> n" by simp
  then obtain i where i: "split_nat n = 2 ^ i" using split_nat_power by blast
  show ?case
  proof (cases "m \<le> split_nat n")
    case True
    show ?thesis
    proof (cases "m = split_nat n")
      case eq: True
      then show ?thesis
        using less.prems i by (auto simp: csides_left)
    next
      case False
      with True less split_nat_bounds [OF n2] show ?thesis
        by (simp add: csides_left)
    qed
  next
    case False
    with less.prems have "True \<in> set (csides m n)" by (simp add: csides_right)
    moreover have "m \<noteq> 2 ^ j" for j
      using False less.prems power2_le_split by (metis)
    ultimately show ?thesis by simp
  qed
qed

lemma descendConsistency_nat:
  "0 < m \<Longrightarrow> m \<le> n \<Longrightarrow> descendConsistency m n = Some (csides (unat m) (unat n))"
proof (induction "unat n" arbitrary: m n rule: less_induct)
  case less
  show ?case
  proof (cases "m = n")
    case True
    then show ?thesis by (subst descendConsistency.simps) simp
  next
    case False
    let ?s = "largestPowerOfTwoBelow n"
    have m: "0 < unat m" "unat m < unat n"
      using less.prems False by (simp_all add: word_less_nat_alt [symmetric] unat_gt_0)
    then have n1: "n > 1" by (simp add: word_less_nat_alt)
    have le: "m \<le> ?s \<longleftrightarrow> unat m \<le> split_nat (unat n)"
      by (simp add: word_le_nat_alt unat_split)
    show ?thesis
    proof (cases "m \<le> ?s")
      case True
      then have "descendConsistency m ?s = Some (csides (unat m) (unat ?s))"
        using less split_word_less [OF n1] by simp
      with True False m le show ?thesis
        by (simp add: descendConsistency.simps [of m n] csides_left unat_split Let_def)
    next
      case right: False
      have sub: "unat (m - ?s) = unat m - split_nat (unat n)"
        using right by (simp add: unat_sub unat_split)
      have "descendConsistency (m - ?s) (n - ?s) = Some (csides (unat (m - ?s)) (unat (n - ?s)))"
        using right le m by (intro less.hyps)
          (simp_all add: word_less_nat_alt word_le_nat_alt sub unat_sub_split [OF n1] diff_le_mono)
      with right False m le show ?thesis
        by (simp add: descendConsistency.simps [of m n] csides_right sub unat_sub_split [OF n1] Let_def)
    qed
  qed
qed

lemma nat_and_pred: "0 < (x :: nat) \<Longrightarrow> x AND (x - 1) = 0 \<longleftrightarrow> (\<exists>j. x = 2 ^ j)"
proof
  assume x: "0 < x" and z: "x AND (x - 1) = 0"
  define j where "j = bit_len x - 1"
  from bit_len_bounds [OF x] have b: "2 ^ j \<le> x" "x < 2 * 2 ^ j"
    by (cases "bit_len x"; simp add: j_def)+
  have top: "bit y j" if "2 ^ j \<le> y" "y < 2 * 2 ^ j" for y :: nat
  proof -
    from that have "y div 2 ^ j = 1" by (simp add: div_nat_eqI)
    then show ?thesis by (simp add: bit_iff_odd)
  qed
  have "x = 2 ^ j"
  proof (rule ccontr)
    assume "x \<noteq> 2 ^ j"
    with b have "bit (x - 1) j" "bit x j" by (intro top; simp)+
    then have "bit (x AND (x - 1)) j" by (simp add: bit_and_iff)
    with z show False by simp
  qed
  then show "\<exists>j. x = 2 ^ j" ..
next
  assume "\<exists>j. x = 2 ^ j"
  then obtain j where "x = 2 ^ j" ..
  then have "x AND (x - 1) = take_bit j x"
    by (simp add: take_bit_eq_mask mask_eq_exp_minus_1)
  also have "\<dots> = 0" by (simp add: \<open>x = 2 ^ j\<close> take_bit_eq_mod)
  finally show "x AND (x - 1) = 0" .
qed

lemma isPowerOfTwo_iff: "isPowerOfTwo n \<longleftrightarrow> (\<exists>j. unat n = 2 ^ j)"
proof (cases "n = 0")
  case False
  then have pos: "0 < unat n" by (simp add: unat_eq_zero neq0_conv [symmetric] del: neq0_conv)
  then have "unat (n - 1) = unat n - 1" by (simp add: unat_sub word_le_nat_alt)
  then have "n AND (n - 1) = 0 \<longleftrightarrow> unat n AND (unat n - 1) = 0"
    by (simp add: word_unat_eq_iff unsigned_and_eq)
  with False nat_and_pred [OF pos] show ?thesis by (simp add: isPowerOfTwo_def)
qed (simp add: isPowerOfTwo_def)

section \<open>Both climbs\<close>

lemma climb2_snd: "snd (climb2 c x path sides) = climb c x path sides"
proof -
  have "snd (fold (\<lambda>(sibling, turned) (left, right).
             if turned then (HashNode c sibling left, HashNode c sibling right)
             else (left, HashNode c right sibling)) xs (l, r)) =
        fold (\<lambda>(sibling, right) computed.
             if right then HashNode c sibling computed else HashNode c computed sibling) xs r" for xs l r
    by (induction xs arbitrary: l r) auto
  then show ?thesis by (simp add: climb2_def climb_def)
qed

lemma climb2_Nil [simp]: "climb2 c x [] [] = (x, x)"
  by (simp add: climb2_def)

lemma climb2_fst_snoc:
  "length path = length sides \<Longrightarrow>
     fst (climb2 c x (path @ [sib]) (turned # sides)) =
       (if turned then HashNode c sib (fst (climb2 c x path sides)) else fst (climb2 c x path sides))"
  by (simp add: climb2_def split: prod.split)

text \<open>The leaves below the node where the descent stops.\<close>

fun stop_at :: "bool list \<Rightarrow> bytes list \<Rightarrow> bytes list" where
  "stop_at [] ls = ls"
| "stop_at (right # sides) ls =
     stop_at sides (if right then drop (split_nat (length ls)) ls else take (split_nat (length ls)) ls)"

lemma mth_prefix:
  assumes "2 \<le> length ls" and "split_nat (length ls) < m" and "m \<le> length ls"
  shows "mth c (take m ls) =
    HashNode c (mth c (take (split_nat (length ls)) ls))
      (mth c (take (m - split_nat (length ls)) (drop (split_nat (length ls)) ls)))"
proof -
  have "split_nat m = split_nat (length ls)" using assms by (rule split_nat_prefix)
  moreover have "2 \<le> m" using assms(2) split_nat_pos [of "length ls"] by linarith
  ultimately show ?thesis
    using assms mth_node [of "take m ls" c] by (simp add: min_absorb1 min_absorb2 drop_take)
qed

lemma climb2_complete:
  "0 < m \<Longrightarrow> m \<le> length ls \<Longrightarrow> sides = csides m (length ls) \<Longrightarrow>
     climb2 c (mth c (stop_at sides ls)) (path_nat c i sides ls) sides = (mth c (take m ls), mth c ls)"
proof (induction sides arbitrary: m ls i)
  case Nil
  then have "m = length ls" by (auto simp: csides.simps [of m "length ls"] split: if_splits)
  then show ?case by simp
next
  case (Cons turned sides)
  let ?k = "split_nat (length ls)"
  from Cons.prems have m: "m < length ls" by (auto simp: csides.simps [of m "length ls"] split: if_splits)
  with Cons.prems have n2: "2 \<le> length ls" by simp
  note k = split_nat_bounds [OF n2]
  show ?case
  proof (cases "m \<le> ?k")
    case True
    with Cons.prems m have s: "turned = False" "sides = csides m (length (take ?k ls))"
      using k by (simp_all add: csides_left)
    with Cons.prems True k
    have IH: "climb2 c (mth c (stop_at sides (take ?k ls))) (path_nat c i sides (take ?k ls)) sides =
        (mth c (take m (take ?k ls)), mth c (take ?k ls))"
      by (intro Cons.IH) simp_all
    then have "climb c (mth c (stop_at sides (take ?k ls))) (path_nat c i sides (take ?k ls)) sides =
        mth c (take ?k ls)" by (metis climb2_snd snd_conv)
    with IH s True n2 show ?thesis
      by (intro prod_eqI) (simp_all add: climb2_fst_snoc climb2_snd climb_snoc mth_node Let_def min_absorb1)
  next
    case False
    with Cons.prems m have s: "turned = True" "sides = csides (m - ?k) (length (drop ?k ls))"
      by (simp_all add: csides_right)
    with Cons.prems False
    have IH: "climb2 c (mth c (stop_at sides (drop ?k ls))) (path_nat c (i - ?k) sides (drop ?k ls)) sides =
        (mth c (take (m - ?k) (drop ?k ls)), mth c (drop ?k ls))"
      by (intro Cons.IH) simp_all
    then have "climb c (mth c (stop_at sides (drop ?k ls))) (path_nat c (i - ?k) sides (drop ?k ls)) sides =
        mth c (drop ?k ls)" by (metis climb2_snd snd_conv)
    with IH s False n2 m show ?thesis
      by (intro prod_eqI)
        (simp_all add: climb2_fst_snoc climb2_snd climb_snoc mth_node [of ls] mth_prefix [of ls m] Let_def)
  qed
qed

lemma climb2_no_right:
  "length path = length sides \<Longrightarrow> True \<notin> set sides \<Longrightarrow> fst (climb2 c x path sides) = x"
proof (induction sides arbitrary: path)
  case (Cons s ss)
  then show ?case by (cases path rule: rev_cases) (simp_all add: climb2_fst_snoc)
qed simp

section \<open>The prover\<close>

lemma path_nat_index: "path_nat c i sides ls = path_nat c 0 sides ls"
  by (induction c i sides ls rule: path_nat.induct) (simp_all add: Let_def)

lemma unat_pos_le: "0 < (m :: u64) \<Longrightarrow> 0 < unat m"
  by (simp add: unat_gt_0)

lemma consistencyPath_nat:
  "0 < m \<Longrightarrow> unat m \<le> length ls \<Longrightarrow> length ls < 2 ^ 64 \<Longrightarrow>
     consistencyPath c ls m whole =
       (let sides = csides (unat m) (length ls) in
        Some ((if whole \<and> True \<notin> set sides then [] else [mth c (stop_at sides ls)]) @
          path_nat c 0 sides ls))"
proof (induction "length ls" arbitrary: ls m whole rule: less_induct)
  case less
  have eq: "m = of_nat (length ls) \<longleftrightarrow> unat m = length ls"
    using unat_of_nat_u64 [OF less.prems(3)] by (metis word_unat_eq_iff)
  show ?case
  proof (cases "unat m = length ls")
    case True
    with eq less.prems(3) show ?thesis
      by (subst consistencyPath.simps) (simp add: rootOf_mth)
  next
    case False
    let ?s = "largestPowerOfTwoBelow (of_nat (length ls)) :: u64" and ?k = "split_nat (length ls)"
    have s: "unat ?s = ?k" using less.prems(3) by (simp add: unat_split_sized)
    have m: "0 < unat m" "unat m < length ls" using less.prems False by (simp_all add: unat_gt_0)
    then have n2: "2 \<le> length ls" by simp
    note k = split_nat_bounds [OF n2]
    have le: "m \<le> ?s \<longleftrightarrow> unat m \<le> ?k" by (simp add: word_le_nat_alt s)
    have root: "rootOf c (take n ls) = mth c (take n ls)" "rootOf c (drop n ls) = mth c (drop n ls)" for n
      using less.prems(3) by (simp_all add: rootOf_mth)
    show ?thesis
    proof (cases "m \<le> ?s")
      case True
      have "consistencyPath c (take ?k ls) m whole =
         (let sides = csides (unat m) (length (take ?k ls)) in
          Some ((if whole \<and> True \<notin> set sides then [] else [mth c (stop_at sides (take ?k ls))]) @
            path_nat c 0 sides (take ?k ls)))"
        using less.prems True le k by (intro less.hyps) simp_all
      with True False eq m le k root show ?thesis
        by (subst consistencyPath.simps) (simp add: csides_left s Let_def)
    next
      case right: False
      have sub: "unat (m - ?s) = unat m - ?k" using right by (simp add: unat_sub s)
      have "consistencyPath c (drop ?k ls) (m - ?s) False =
         (let sides = csides (unat (m - ?s)) (length (drop ?k ls)) in
          Some ((if False \<and> True \<notin> set sides then [] else [mth c (stop_at sides (drop ?k ls))]) @
            path_nat c 0 sides (drop ?k ls)))"
        using less.prems right le k by (intro less.hyps) (simp_all add: word_less_nat_alt sub split_nat_diff n2)
      with right False eq m le k root show ?thesis
        by (subst consistencyPath.simps) (simp add: csides_right s sub Let_def path_nat_index [of c "0 - _"])
    qed
  qed
qed

section \<open>The verifier\<close>

text \<open>What an accepting verifier has checked, on naturals.\<close>

lemma VerifyConsistency_ok_iff:
  assumes "0 < cp_old p" and "cp_old p < cp_new p"
  defines "sides \<equiv> csides (unat (cp_old p)) (unat (cp_new p))"
  shows "VerifyConsistency c p old new = Some (Inr ()) \<longleftrightarrow>
    (if True \<in> set sides
     then length (cp_path p) = Suc (length sides) \<and>
       climb2 c (hd (cp_path p)) (tl (cp_path p)) sides = (old, new)
     else length (cp_path p) = length sides \<and> climb2 c old (cp_path p) sides = (old, new))"
proof -
  have pos: "0 < unat (cp_old p)" "unat (cp_old p) < unat (cp_new p)"
    using assms by (simp_all add: word_less_nat_alt)
  have "isPowerOfTwo (cp_old p) \<longleftrightarrow> True \<notin> set sides"
    by (simp add: isPowerOfTwo_iff csides_no_right [OF pos] sides_def)
  moreover have "descendConsistency (cp_old p) (cp_new p) = Some sides"
    using assms by (simp add: descendConsistency_nat less_imp_le)
  ultimately show ?thesis
    using assms(1,2) unfolding VerifyConsistency_def Let_def
    by (cases "cp_path p") (auto split: prod.splits)
qed

text \<open>The descents halve a power of two that bounds the size, so they take at most as many steps as the size has bits.\<close>

lemma split_halves:
  assumes "2 \<le> n" and "n \<le> 2 ^ Suc j"
  shows "split_nat n \<le> 2 ^ j" and "n - split_nat n \<le> 2 ^ j"
proof -
  obtain i where i: "split_nat n = 2 ^ i" using split_nat_power [OF assms(1)] by blast
  have "(2 :: nat) ^ i < 2 ^ Suc j" using split_nat_bounds [OF assms(1)] i assms(2) by linarith
  then have "i \<le> j" by (simp only: power_strict_increasing_iff one_less_numeral_iff semiring_norm less_Suc_eq_le)
  then show le: "split_nat n \<le> 2 ^ j" using i by (simp add: power_increasing)
  show "n - split_nat n \<le> 2 ^ j" using split_nat_bounds [OF assms(1)] le by linarith
qed

lemma csides_length: "n \<le> 2 ^ j \<Longrightarrow> length (csides m n) \<le> j"
proof (induction m n arbitrary: j rule: csides.induct)
  case (1 m n)
  show ?case
  proof (cases "m = 0 \<or> n \<le> m")
    case False
    then have n2: "2 \<le> n" by linarith
    with "1.prems" obtain k where k: "j = Suc k" by (cases j) auto
    with "1.IH" False split_halves [OF n2] "1.prems" show ?thesis by (auto simp: csides.simps [of m n])
  qed (simp add: csides.simps [of m n])
qed

lemma sides_nat_length: "n \<le> 2 ^ j \<Longrightarrow> length (sides_nat i n) \<le> j"
proof (induction i n arbitrary: j rule: sides_nat.induct)
  case (1 i n)
  show ?case
  proof (cases "n \<le> 1")
    case False
    then have n2: "2 \<le> n" by linarith
    with "1.prems" obtain k where k: "j = Suc k" by (cases j) auto
    with "1.IH" False split_halves [OF n2] "1.prems" show ?thesis by (auto simp: sides_nat.simps [of i n])
  qed (simp add: sides_nat.simps [of i n])
qed

lemma descents_short:
  "0 < m \<Longrightarrow> m \<le> n \<Longrightarrow> \<exists>sides. descendConsistency m n = Some sides \<and> length sides \<le> 64"
  "i < n \<Longrightarrow> length (descend i n) \<le> 64"
proof -
  have "unat n \<le> 2 ^ 64" using unat_u64_less [of n] by simp
  then have short: "length (csides (unat m) (unat n)) \<le> 64" "length (sides_nat (unat i) (unat n)) \<le> 64"
    by (rule csides_length, rule sides_nat_length)
  show "0 < m \<Longrightarrow> m \<le> n \<Longrightarrow> \<exists>sides. descendConsistency m n = Some sides \<and> length sides \<le> 64"
    using short(1) by (simp add: descendConsistency_nat)
  show "i < n \<Longrightarrow> length (descend i n) \<le> 64" using short(2) by (simp add: descend_nat)
qed

lemma VerifyConsistency_returns: "\<exists>r. VerifyConsistency c p old new = Some r"
proof (cases "cp_old p \<le> cp_new p \<and> cp_old p \<noteq> 0")
  case True
  then show ?thesis
    by (simp add: VerifyConsistency_def descendConsistency_nat word_gt_0)
qed (auto simp: VerifyConsistency_def)

lemma ProveConsistency_verifies:
  assumes "go_sized (leaves t)" and "m \<le> n" and "n \<le> Tree_Size t"
    and "Tree_Root c t m = Inr old" and "Tree_Root c t n = Inr new"
  shows "\<exists>p. ProveConsistency c t m n = Some (Inr p) \<and> VerifyConsistency c p old new = Some (Inr ())"
proof -
  let ?ls = "take (unat n) (leaves t)"
  have m': "m \<le> Tree_Size t" using assms by simp
  have len: "length ?ls = unat n" using unat_le_size assms by simp
  have "unat m \<le> unat n" using assms(2) by (simp add: word_le_nat_alt)
  then have roots: "old = mth c (take (unat m) ?ls)" "new = mth c ?ls"
    using assms m' by (simp_all add: Tree_Root_ok min_absorb1)
  consider "m = 0" | "m = n" "0 < m" | "0 < m" "m < n"
    using assms(2) by (metis order_le_less word_gt_0)
  then show ?thesis
  proof cases
    case 1
    then show ?thesis using assms(2,3) roots
      by (simp add: ProveConsistency_def VerifyConsistency_def not_less)
  next
    case 2
    let ?p = "\<lparr>cp_old = m, cp_new = n, cp_path = []\<rparr>"
    have "consistencyPath c ?ls m True = Some []"
      using 2 len unat_u64_less [of n] by (simp add: consistencyPath_nat Let_def)
    then have "ProveConsistency c t m n = Some (Inr ?p)"
      using 2 assms(2,3) by (simp add: ProveConsistency_def not_less)
    moreover have "VerifyConsistency c ?p old new = Some (Inr ())"
      using 2 roots len by (simp add: VerifyConsistency_def)
    ultimately show ?thesis by blast
  next
    case 3
    let ?sides = "csides (unat m) (unat n)"
    let ?seed = "if True \<notin> set ?sides then [] else [mth c (stop_at ?sides ?ls)]"
    let ?p = "\<lparr>cp_old = m, cp_new = n, cp_path = ?seed @ path_nat c 0 ?sides ?ls\<rparr>"
    have pos: "0 < unat m" "unat m < unat n" using 3 by (simp_all add: word_less_nat_alt)
    then have "consistencyPath c ?ls m True = Some (cp_path ?p)"
      using len 3 unat_u64_less [of n] by (simp add: consistencyPath_nat Let_def)
    then have prove: "ProveConsistency c t m n = Some (Inr ?p)"
      using 3 assms(2,3) by (auto simp: ProveConsistency_def not_less)
    have climbs: "climb2 c (mth c (stop_at ?sides ?ls)) (path_nat c 0 ?sides ?ls) ?sides = (old, new)"
      using climb2_complete [of "unat m" ?ls ?sides c 0] pos len roots by simp
    have "True \<notin> set ?sides \<Longrightarrow> mth c (stop_at ?sides ?ls) = old"
      using climbs climb2_no_right [of "path_nat c 0 ?sides ?ls" ?sides c] by (metis fst_conv length_path_nat)
    with climbs have "VerifyConsistency c ?p old new = Some (Inr ())"
      using 3 by (auto simp: VerifyConsistency_ok_iff)
    with prove show ?thesis by blast
  qed
qed

text \<open>Soundness: the sibling hashes of an accepted proof are those of the log.\<close>

lemma climb2_sound:
  assumes ok: "hash_ok c" and free: "\<not> collides (sha256 c) ms"
  shows "\<lbrakk>climb c x path sides = mth c ls; sides = csides m (length ls); 0 < m; m \<le> length ls;
      digests ls; digests path; length x = 32; length path = length sides;
      set (node_msgs c ls) \<subseteq> set ms; set (climb_msgs c x sides path) \<subseteq> set ms\<rbrakk> \<Longrightarrow>
    fst (climb2 c x path sides) = mth c (take m ls)"
proof (induction sides arbitrary: path ls m)
  case Nil
  then have "m = length ls" by (auto simp: csides.simps [of m "length ls"] split: if_splits)
  with Nil show ?case by simp
next
  case (Cons turned sides)
  let ?k = "split_nat (length ls)"
  let ?L = "take ?k ls" and ?R = "drop ?k ls"
  from Cons.prems have m: "m < length ls" by (auto simp: csides.simps [of m "length ls"] split: if_splits)
  with Cons.prems have n2: "2 \<le> length ls" by simp
  note k = split_nat_bounds [OF n2]
  have node: "nodePrefix # mth c ?L @ mth c ?R \<in> set ms" "set (node_msgs c ?L) \<subseteq> set ms"
      "set (node_msgs c ?R) \<subseteq> set ms"
    using Cons.prems(9) n2 by (simp_all add: node_msgs.simps [of c ls] Let_def)
  have len: "length (mth c ?L) = 32" using ok Cons.prems(5) by (simp add: length_mth)
  from Cons.prems(8) obtain p sib where path: "path = p @ [sib]" and pl: "length p = length sides"
    by (cases path rule: rev_cases) auto
  with Cons.prems(6) have sib: "length sib = 32" "digests p" by simp_all
  have root: "mth c ls = HashNode c (mth c ?L) (mth c ?R)" using n2 by (simp add: mth_node)
  have msgs: "set (climb_msgs c x sides p) \<subseteq> set ms"
      "nodePrefix # (if turned then sib @ climb c x p sides else climb c x p sides @ sib) \<in> set ms"
    using Cons.prems(10) by (cases turned; simp add: path Let_def)+
  have cl: "length (climb c x p sides) = 32" using ok Cons.prems(7) pl by (rule length_climb)
  show ?case
  proof (cases "m \<le> ?k")
    case True
    with Cons.prems m k have s: "turned = False" "sides = csides m (length ?L)"
      by (simp_all add: csides_left)
    have "HashNode c (climb c x p sides) sib = HashNode c (mth c ?L) (mth c ?R)"
      using Cons.prems(1) root s(1) pl by (simp add: path climb_snoc)
    then have "climb c x p sides = mth c ?L"
      using HashNode_eqD [OF _ free _ node(1)] msgs(2) s(1) cl len by fastforce
    then have "fst (climb2 c x p sides) = mth c (take m ?L)"
      using Cons.prems(3,5,7) True k sib pl node(2) msgs(1) s(2) by (intro Cons.IH) simp_all
    with s True pl show ?thesis by (simp add: path climb2_fst_snoc min_absorb1)
  next
    case False
    with Cons.prems m have s: "turned = True" "sides = csides (m - ?k) (length ?R)"
      by (simp_all add: csides_right)
    have "HashNode c sib (climb c x p sides) = HashNode c (mth c ?L) (mth c ?R)"
      using Cons.prems(1) root s(1) pl by (simp add: path climb_snoc)
    then have eq: "sib = mth c ?L \<and> climb c x p sides = mth c ?R"
      using HashNode_eqD [OF _ free _ node(1)] msgs(2) s(1) sib len by fastforce
    then have "fst (climb2 c x p sides) = mth c (take (m - ?k) ?R)"
      using Cons.prems(4,5,7) False sib pl node(3) msgs(1) s(2) by (intro Cons.IH) simp_all
    with s eq pl False n2 m show ?thesis
      by (simp add: path climb2_fst_snoc mth_prefix)
  qed
qed


definition consistency_msgs :: "crypto \<Rightarrow> consistency_proof \<Rightarrow> bytes \<Rightarrow> bytes list" where
  "consistency_msgs c p old =
     (let sides = csides (unat (cp_old p)) (unat (cp_new p)) in
      if True \<in> set sides then climb_msgs c (hd (cp_path p)) sides (tl (cp_path p))
      else climb_msgs c old sides (cp_path p))"

lemma VerifyConsistency_sound:
  assumes ok: "hash_ok c" and free: "\<not> collides (sha256 c) ms"
    and accepted: "VerifyConsistency c p old (rootOf c ls) = Some (Inr ())"
    and len: "length ls = unat (cp_new p)" and dig: "digests ls" "digests (cp_path p)" "length old = 32"
    and msgs: "set (node_msgs c ls) \<subseteq> set ms" "set (consistency_msgs c p old) \<subseteq> set ms"
  shows "cp_old p \<le> cp_new p \<and> old = rootOf c (take (unat (cp_old p)) ls)"
proof -
  let ?m = "unat (cp_old p)"
  have new: "rootOf c ls = mth c ls" "rootOf c (take ?m ls) = mth c (take ?m ls)"
    using len unat_u64_less [of "cp_new p"] by (simp_all add: rootOf_mth)
  have le: "cp_old p \<le> cp_new p" using accepted by (auto simp: VerifyConsistency_def split: if_splits)
  consider "cp_old p = 0" | "cp_old p = cp_new p" "cp_old p \<noteq> 0" | "0 < cp_old p" "cp_old p < cp_new p"
    using le by (metis order_le_less word_gt_0)
  then show ?thesis
  proof cases
    case 1
    then show ?thesis using accepted new by (auto simp: VerifyConsistency_def split: if_splits)
  next
    case 2
    then show ?thesis using accepted len by (auto simp: VerifyConsistency_def split: if_splits)
  next
    case 3
    let ?sides = "csides ?m (length ls)"
    obtain x path where x: "climb2 c x path ?sides = (old, rootOf c ls)" "length path = length ?sides"
        "digests path" "length x = 32" "set (climb_msgs c x ?sides path) \<subseteq> set ms"
    proof (cases "True \<in> set ?sides")
      case True
      then show thesis
        using accepted 3 len dig msgs that [of "hd (cp_path p)" "tl (cp_path p)"]
        by (cases "cp_path p") (auto simp: VerifyConsistency_ok_iff consistency_msgs_def Let_def)
    next
      case False
      then show thesis
        using accepted 3 len dig msgs that [of old "cp_path p"]
        by (auto simp: VerifyConsistency_ok_iff consistency_msgs_def Let_def)
    qed
    then have "climb c x path ?sides = mth c ls" using new by (metis climb2_snd snd_conv)
    then have "fst (climb2 c x path ?sides) = mth c (take ?m ls)"
      using x 3 len dig msgs le
      by (intro climb2_sound [OF ok free]) (simp_all add: word_less_nat_alt word_le_nat_alt)
    with x new le show ?thesis by simp
  qed
qed

section \<open>Properties\<close>

lemma go_sized_tree: "go_sized es \<Longrightarrow> go_sized (leaves (tree_of c es))"
  by (simp add: leaves_tree_of)

lemma Tree_Size_tree_of: "go_sized es \<Longrightarrow> unat (Tree_Size (tree_of c es)) = length es"
  by (simp add: Tree_Size_def leaves_tree_of unat_of_nat)

lemma Tree_Root_tree_of:
  "go_sized es \<Longrightarrow> unat n \<le> length es \<Longrightarrow>
     Tree_Root c (tree_of c es) n = Inr (mth c (leaf_hashes c (take (unat n) es)))"
  by (simp add: Tree_Root_ok go_sized_tree word_le_nat_alt Tree_Size_tree_of leaves_tree_of take_map)

text \<open>
  C1: The head a log computes is the RFC 6962 tree hash. For every list of entries appended in
  order and every size up to the number of entries, \<^verbatim>\<open>Tree.Root\<close>, whose split is computed on
  64-bit words, returns the reference hash of that many leaf hashes; past the end it reports the
  error.
\<close>

theorem Tree_Root_reference:
  assumes "go_sized es"
  shows "Tree_Root c (tree_of c es) n =
    (if unat n \<le> length es then Inr (mth c (leaf_hashes c (take (unat n) es))) else Inl RootPastEnd)"
proof (cases "unat n \<le> length es")
  case False
  then have "Tree_Size (tree_of c es) < n"
    using assms by (simp add: word_less_nat_alt Tree_Size_tree_of)
  with False show ?thesis by (simp add: Tree_Root_def)
next
  case True
  then show ?thesis using Tree_Root_tree_of [OF assms True] by simp
qed

theorem Tree_Root_reference_witness:
  "Tree_Root sample_crypto (tree_of sample_crypto [[1], [2], [3]]) 4 = Inl RootPastEnd \<and>
   Tree_Root sample_crypto (tree_of sample_crypto [[1], [2], [3]]) 2 =
     Inr (mth sample_crypto (leaf_hashes sample_crypto [[1], [2]]))"
  using Tree_Root_reference [of "[[1], [2], [3]]" sample_crypto 4]
    Tree_Root_reference [of "[[1], [2], [3]]" sample_crypto 2]
  by simp

text \<open>
  C2: Every entry of a log can be proved. For an index below a size the log has reached,
  \<^verbatim>\<open>ProveInclusion\<close> returns a proof and \<^verbatim>\<open>VerifyInclusion\<close> accepts it for that entry against
  the head of that size.
\<close>

theorem inclusion_complete:
  assumes "go_sized es" and "i < n" and "unat n \<le> length es"
  shows "\<exists>p root. ProveInclusion c (tree_of c es) i n = Inr p \<and>
    Tree_Root c (tree_of c es) n = Inr root \<and>
    VerifyInclusion c p (es ! unat i) root = Inr ()"
proof -
  have "n \<le> Tree_Size (tree_of c es)" using assms by (simp add: word_le_nat_alt Tree_Size_tree_of)
  moreover have "leaves (tree_of c es) ! unat i = HashLeaf c (es ! unat i)"
    using assms by (simp add: leaves_tree_of word_less_nat_alt)
  ultimately show ?thesis
    using ProveInclusion_verifies [OF go_sized_tree [OF assms(1)] assms(2)] Tree_Root_tree_of assms(1,3)
    by blast
qed

theorem inclusion_complete_witness:
  "\<exists>p root. ProveInclusion sample_crypto (tree_of sample_crypto [[1], [2], [3]]) 2 3 = Inr p \<and>
    Tree_Root sample_crypto (tree_of sample_crypto [[1], [2], [3]]) 3 = Inr root \<and>
    VerifyInclusion sample_crypto p [3] root = Inr ()"
  using inclusion_complete [of "[[1], [2], [3]]" 2 3 sample_crypto] by simp

text \<open>
  C3: An accepted inclusion proof is true. If \<^verbatim>\<open>VerifyInclusion\<close> accepts an entry at an index
  against the head of a log of the claimed size, that entry is the log's entry at that index, or
  two different messages among those hashed for the leaves, the head and the climb have the same
  SHA-256 digest. Leaf and node prefixes differ, so no node can pass for a leaf.
\<close>

theorem inclusion_sound:
  assumes "hash_ok c" and "digests (ip_path p)" and "length es = unat (ip_size p)"
    and "VerifyInclusion c p e (rootOf c (leaf_hashes c es)) = Inr ()"
  shows "e = es ! unat (ip_index p) \<or>
    collides (sha256 c) (leaf_msgs (e # es) @ node_msgs c (leaf_hashes c es) @
      climb_msgs c (HashLeaf c e) (descend (ip_index p) (ip_size p)) (ip_path p))"
  by (rule disjCI, rule VerifyInclusion_sound [OF assms(1,4,3,2)]) auto

theorem inclusion_sound_witness:
  "[7] = [[7]] ! unat (0 :: u64) \<or>
    collides (sha256 sample_crypto) (leaf_msgs ([7] # [[7]]) @
      node_msgs sample_crypto (leaf_hashes sample_crypto [[7]]) @
      climb_msgs sample_crypto (HashLeaf sample_crypto [7]) (descend 0 1) [])"
proof -
  let ?p = "\<lparr>ip_index = 0, ip_size = 1, ip_path = []\<rparr>"
  have "VerifyInclusion sample_crypto ?p [7] (rootOf sample_crypto (leaf_hashes sample_crypto [[7]])) = Inr ()"
    by (simp add: VerifyInclusion_def descend.simps rootOf.simps climb_def)
  then show ?thesis using inclusion_sound [of sample_crypto ?p "[[7]]" "[7]"] by simp
qed

text \<open>
  C4: A growing log can always show that it only grew. For any two sizes it has reached,
  \<^verbatim>\<open>ProveConsistency\<close> returns a proof (its recursion ends) and \<^verbatim>\<open>VerifyConsistency\<close> accepts it
  for the heads of those sizes (its loop ends).
\<close>

theorem consistency_complete:
  assumes "go_sized es" and "m \<le> n" and "unat n \<le> length es"
  shows "\<exists>p old new. ProveConsistency c (tree_of c es) m n = Some (Inr p) \<and>
    Tree_Root c (tree_of c es) m = Inr old \<and> Tree_Root c (tree_of c es) n = Inr new \<and>
    VerifyConsistency c p old new = Some (Inr ())"
proof -
  have "n \<le> Tree_Size (tree_of c es)" using assms by (simp add: word_le_nat_alt Tree_Size_tree_of)
  moreover have "unat m \<le> length es" using assms(2,3) by (simp add: word_le_nat_alt)
  ultimately show ?thesis
    using ProveConsistency_verifies [OF go_sized_tree [OF assms(1)] assms(2)] Tree_Root_tree_of assms(1,3)
    by blast
qed

theorem consistency_complete_witness:
  "\<exists>p old new. ProveConsistency sample_crypto (tree_of sample_crypto [[1], [2], [3], [4]]) 3 4 = Some (Inr p) \<and>
    Tree_Root sample_crypto (tree_of sample_crypto [[1], [2], [3], [4]]) 3 = Inr old \<and>
    Tree_Root sample_crypto (tree_of sample_crypto [[1], [2], [3], [4]]) 4 = Inr new \<and>
    VerifyConsistency sample_crypto p old new = Some (Inr ())"
  using consistency_complete [of "[[1], [2], [3], [4]]" 3 4 sample_crypto] by simp

text \<open>
  C5: An accepted consistency proof is true. If \<^verbatim>\<open>VerifyConsistency\<close> accepts a proof between
  the head of an old log and the head of a new one, each of the size the proof names, the old log
  is a prefix of the new one, or two different messages among those hashed collide: nothing was
  removed, changed or inserted before the old size.
\<close>

theorem consistency_sound:
  assumes "hash_ok c" and "digests (cp_path p)"
    and "length olds = unat (cp_old p)" and "length news = unat (cp_new p)"
    and "VerifyConsistency c p (rootOf c (leaf_hashes c olds)) (rootOf c (leaf_hashes c news)) = Some (Inr ())"
  shows "olds = take (length olds) news \<or>
    collides (sha256 c) (leaf_msgs olds @ leaf_msgs news @ node_msgs c (leaf_hashes c olds) @
      node_msgs c (leaf_hashes c news) @ node_msgs c (leaf_hashes c (take (length olds) news)) @
      consistency_msgs c p (rootOf c (leaf_hashes c olds)))" (is "_ \<or> collides _ ?ms")
proof (rule disjCI)
  assume free: "\<not> collides (sha256 c) ?ms"
  have root: "rootOf c (leaf_hashes c olds) = mth c (leaf_hashes c olds)"
    using assms(3) unat_u64_less [of "cp_old p"] by (simp add: rootOf_mth)
  have len: "length (rootOf c (leaf_hashes c olds)) = 32"
    using assms(1) root by (simp add: length_mth digests_leaf_hashes)
  have sound: "cp_old p \<le> cp_new p \<and>
      rootOf c (leaf_hashes c olds) = rootOf c (take (unat (cp_old p)) (leaf_hashes c news))"
    by (rule VerifyConsistency_sound [OF assms(1) free assms(5) _ _ assms(2) len])
      (use assms in \<open>auto simp: digests_leaf_hashes\<close>)
  then have short: "length olds \<le> length news" using assms(3,4) by (simp add: word_le_nat_alt)
  have "leaf_hashes c olds = leaf_hashes c (take (length olds) news)"
  proof (rule mth_inj [OF assms(1) _ _ _ _ free])
    show "mth c (leaf_hashes c olds) = mth c (leaf_hashes c (take (length olds) news))"
      using sound root assms(3) unat_u64_less [of "cp_old p"] by (simp add: take_map rootOf_mth)
  qed (use short assms(1) in \<open>auto simp: digests_leaf_hashes\<close>)
  then show "olds = take (length olds) news"
    by (rule leaf_hashes_inj [OF _ free]) (auto simp: leaf_msgs_def dest: in_set_takeD)
qed

theorem consistency_sound_witness:
  "[[7]] = take 1 [[7], [8]] \<or>
    collides (sha256 sample_crypto) (leaf_msgs [[7]] @ leaf_msgs [[7], [8]] @
      node_msgs sample_crypto (leaf_hashes sample_crypto [[7]]) @
      node_msgs sample_crypto (leaf_hashes sample_crypto [[7], [8]]) @
      node_msgs sample_crypto (leaf_hashes sample_crypto (take 1 [[7], [8]])) @
      consistency_msgs sample_crypto
        \<lparr>cp_old = 1, cp_new = 2, cp_path = [HashLeaf sample_crypto [8]]\<rparr>
        (rootOf sample_crypto (leaf_hashes sample_crypto [[7]])))"
proof -
  let ?p = "\<lparr>cp_old = 1, cp_new = 2, cp_path = [HashLeaf sample_crypto [8]]\<rparr>"
  have split2: "largestPowerOfTwoBelow 2 = 1"
    by (simp add: largestPowerOfTwoBelow_def bits_Len64_def bit_len.simps)
  have "descendConsistency 1 2 = Some [False]"
    by (subst descendConsistency.simps, subst descendConsistency.simps) (simp add: split2)
  then have "VerifyConsistency sample_crypto ?p (rootOf sample_crypto (leaf_hashes sample_crypto [[7]]))
      (rootOf sample_crypto (leaf_hashes sample_crypto [[7], [8]])) = Some (Inr ())"
    by (simp add: VerifyConsistency_def isPowerOfTwo_def climb2_def Let_def rootOf.simps split2)
  moreover have "digests (cp_path ?p)" by (simp add: length_HashLeaf)
  ultimately show ?thesis
    using consistency_sound [of sample_crypto ?p "[[7]]" "[[7], [8]]"] by simp
qed

end
