(* ===== verification/Json.thy ===== *)
theory Json
  imports GoStd
begin

text \<open>
  \<^verbatim>\<open>encoding/json\<close> as the packages use it to render signed and published documents:
  \<^verbatim>\<open>json.Marshal\<close> of strings (HTML-escaping, invalid UTF-8 replaced), of unsigned integers,
  of arrays and of structs with a fixed field order. The length bounds are what keeps a
  rendered document below the limits its reader applies.
\<close>

section \<open>Strings\<close>

text \<open>
  \<open>utf8_rune bs\<close> is the length of the well-formed UTF-8 sequence at the front of \<open>bs\<close>, or 0
  when \<^verbatim>\<open>utf8.DecodeRune\<close> reports an error of size one.
\<close>

definition in_range :: "byte \<Rightarrow> byte \<Rightarrow> byte \<Rightarrow> bool" where
  "in_range lo hi b \<longleftrightarrow> lo \<le> b \<and> b \<le> hi"

definition second_byte_ok :: "byte \<Rightarrow> byte \<Rightarrow> bool" where
  "second_byte_ok b b1 =
     (if b = 0xE0 then in_range 0xA0 0xBF b1
      else if b = 0xED then in_range 0x80 0x9F b1
      else if b = 0xF0 then in_range 0x90 0xBF b1
      else if b = 0xF4 then in_range 0x80 0x8F b1
      else in_range 0x80 0xBF b1)"

definition utf8_rune :: "bytes \<Rightarrow> nat" where
  "utf8_rune bs =
     (case bs of
        [] \<Rightarrow> 0
      | b # r \<Rightarrow>
          if b < 0x80 then 1
          else if in_range 0xC2 0xDF b then
            (case r of b1 # _ \<Rightarrow> if second_byte_ok b b1 then 2 else 0 | _ \<Rightarrow> 0)
          else if in_range 0xE0 0xEF b then
            (case r of b1 # b2 # _ \<Rightarrow> if second_byte_ok b b1 \<and> in_range 0x80 0xBF b2 then 3 else 0 | _ \<Rightarrow> 0)
          else if in_range 0xF0 0xF4 b then
            (case r of b1 # b2 # b3 # _ \<Rightarrow>
               if second_byte_ok b b1 \<and> in_range 0x80 0xBF b2 \<and> in_range 0x80 0xBF b3 then 4 else 0 | _ \<Rightarrow> 0)
          else 0)"

lemma utf8_rune_le: "utf8_rune bs \<le> length bs"
  by (auto simp: utf8_rune_def split: list.splits)

definition lower_hex :: "byte \<Rightarrow> byte" where
  "lower_hex n = of_char (hex_digit (unat n))"

definition htmlSafe :: "byte \<Rightarrow> bool" where
  "htmlSafe b \<longleftrightarrow> 0x20 \<le> b \<and> b \<notin> {0x22, 0x5C, 0x3C, 0x3E, 0x26}"

definition escape_byte :: "byte \<Rightarrow> bytes" where
  "escape_byte b =
     (if b = 0x5C \<or> b = 0x22 then [0x5C, b]
      else if b = 8 then [0x5C, 0x62]
      else if b = 12 then [0x5C, 0x66]
      else if b = 10 then [0x5C, 0x6E]
      else if b = 13 then [0x5C, 0x72]
      else if b = 9 then [0x5C, 0x74]
      else [0x5C, 0x75, 0x30, 0x30, lower_hex (drop_bit 4 b), lower_hex (b AND 15)])"

function json_escape :: "bytes \<Rightarrow> bytes" where
  "json_escape [] = []"
| "json_escape (b # r) =
     (if b < 0x80 then (if htmlSafe b then [b] else escape_byte b) @ json_escape r
      else let n = utf8_rune (b # r) in
        if n = 0 then [0x5C, 0x75, 0x66, 0x66, 0x66, 0x64] @ json_escape r
        else (if take 2 (b # r) = [0xE2, 0x80] \<and> n = 3 \<and> r ! 1 \<in> {0xA8, 0xA9}
              then [0x5C, 0x75, 0x32, 0x30, 0x32, lower_hex (r ! 1 AND 15)]
              else take n (b # r)) @ json_escape (drop n (b # r)))"
  by pat_completeness auto
termination
  by (relation "measure length") auto

definition json_string :: "string \<Rightarrow> bytes" where
  "json_string s = 0x22 # json_escape (bytes_of s) @ [0x22]"

lemma length_escape_byte: "length (escape_byte b) \<le> 6"
  by (simp add: escape_byte_def)

lemma json_escape_bound: "length (json_escape bs) \<le> 6 * length bs"
proof (induction bs rule: json_escape.induct)
  case (2 b r)
  show ?case
  proof (cases "b < 0x80")
    case True
    then show ?thesis
      using 2(1) length_escape_byte [of b] by simp
  next
    case False
    define n where "n = utf8_rune (b # r)"
    have le: "n \<le> Suc (length r)" using utf8_rune_le [of "b # r"] by (simp add: n_def)
    show ?thesis
    proof (cases "n = 0")
      case True
      then show ?thesis using 2(2) [OF False n_def] False n_def by simp
    next
      case pos: False
      then have "length (json_escape (drop n (b # r))) \<le> 6 * (Suc (length r) - n)"
        using 2(3) [OF False n_def] by simp
      moreover have "length (if take 2 (b # r) = [0xE2, 0x80] \<and> n = 3 \<and> r ! 1 \<in> {0xA8, 0xA9}
          then [0x5C, 0x75, 0x32, 0x30, 0x32, lower_hex (r ! 1 AND 15)] else take n (b # r)) \<le> 6 * n"
        using pos by (simp add: min_def)
      ultimately show ?thesis
        using False pos le unfolding json_escape.simps n_def [symmetric] Let_def by (simp del: drop_Suc_Cons)
    qed
  qed
qed simp

lemma json_string_bound: "length (json_string s) \<le> 6 * length s + 2"
  using json_escape_bound [of "bytes_of s"] by (simp add: json_string_def)

section \<open>Integers\<close>

fun dec_str :: "nat \<Rightarrow> string" where
  "dec_str n = (if n < 10 then [dec_digit n] else dec_str (n div 10) @ [dec_digit n])"

declare dec_str.simps [simp del]

lemma dec_str_bound: "n < 10 ^ Suc k \<Longrightarrow> length (dec_str n) \<le> Suc k"
proof (induction k arbitrary: n)
  case 0
  then show ?case by (simp add: dec_str.simps)
next
  case (Suc k)
  show ?case
  proof (cases "n < 10")
    case False
    have "n div 10 < 10 ^ Suc k"
      using Suc.prems by (simp add: less_mult_imp_div_less mult.commute)
    from Suc.IH [OF this] False show ?thesis by (subst dec_str.simps) simp
  qed (simp add: dec_str.simps)
qed

definition json_uint :: "u64 \<Rightarrow> bytes" where
  "json_uint n = bytes_of (dec_str (unat n))"

lemma json_uint_bound: "length (json_uint n) \<le> 20"
proof -
  have "unat n < 10 ^ Suc 19" using unat_u64_less [of n] by simp
  from dec_str_bound [OF this] show ?thesis by (simp add: json_uint_def)
qed

section \<open>Arrays and structs\<close>

fun json_commas :: "bytes list \<Rightarrow> bytes" where
  "json_commas [] = []"
| "json_commas [v] = v"
| "json_commas (v # w # vs) = v @ [0x2C] @ json_commas (w # vs)"

definition json_array :: "bytes list \<Rightarrow> bytes" where
  "json_array vs = 0x5B # json_commas vs @ [0x5D]"

definition json_object :: "(string \<times> bytes) list \<Rightarrow> bytes" where
  "json_object members =
     0x7B # json_commas (map (\<lambda>(name, value). json_string name @ [0x3A] @ value) members) @ [0x7D]"

lemma json_commas_bound: "length (json_commas vs) \<le> sum_list (map length vs) + length vs"
  by (induction vs rule: json_commas.induct) simp_all

lemma json_object_bound:
  "length (json_object members) \<le> 2 + sum_list (map (\<lambda>(name, value). 6 * length name + length value + 4) members)"
proof -
  have "sum_list (map length (map (\<lambda>(name, value). json_string name @ [0x3A] @ value) members)) + length members
      \<le> sum_list (map (\<lambda>(name, value). 6 * length name + length value + 4) members)"
  proof (induction members)
    case (Cons f members)
    then show ?case using json_string_bound [of "fst f"] by (cases f) simp
  qed simp
  with json_commas_bound [of "map (\<lambda>(name, value). json_string name @ [0x3A] @ value) members"]
  show ?thesis by (simp add: json_object_def)
qed

end
