(* ===== verification/StrictJson.thy ===== *)
theory StrictJson
  imports Prelude
begin

text \<open>
  \<^verbatim>\<open>internal/strictjson\<close>: the walk that refuses a JSON document in which an object has the
  same member name twice, that nests too deeply or that holds too many members. The walk reads
  the token stream of \<^verbatim>\<open>json.Decoder\<close>; the stream of a document is an argument of the model.
  The walk is shown to end on every stream and to accept exactly the streams that start with a
  value whose objects have distinct names within the limits.
\<close>

section \<open>The walk\<close>

definition MaxElements :: nat where "MaxElements = 4096"

text \<open>
  What successive calls of \<^verbatim>\<open>Token\<close> return: an opening or a closing delimiter, a string, another
  scalar, or an error. \<open>JBad m\<close> is a token that fails to parse where \<^verbatim>\<open>More\<close> reports \<open>m\<close>.
\<close>

datatype jtoken = JOpenObj | JOpenArr | JClose | JStr string | JScalar | JBad bool

datatype json_error = NestingTooDeep | TokenError | TooManyMembers | BadKey | DuplicateKey | TooManyElements

definition json_More :: "jtoken list \<Rightarrow> bool" where
  "json_More ts = (case ts of [] \<Rightarrow> False | JClose # _ \<Rightarrow> False | JBad m # _ \<Rightarrow> m | _ \<Rightarrow> True)"

definition json_Token :: "jtoken list \<Rightarrow> (jtoken \<times> jtoken list) option" where
  "json_Token ts = (case ts of [] \<Rightarrow> None | JBad _ # _ \<Rightarrow> None | t # r \<Rightarrow> Some (t, r))"

text \<open>The last read of \<^verbatim>\<open>walkValue\<close>: the closing delimiter must be there.\<close>

definition closing :: "json_error + jtoken list \<Rightarrow> json_error + jtoken list" where
  "closing result =
     (case result of
        Inl e \<Rightarrow> Inl e
      | Inr ts \<Rightarrow> (case json_Token ts of None \<Rightarrow> Inl TokenError | Some (_, r) \<Rightarrow> Inr r))"

text \<open>
  The recursion is bounded by fuel; \<open>None\<close> means it ran out. Every call consumes a token, so the
  length of the stream is enough (shown below).
\<close>

fun walkValue :: "nat \<Rightarrow> nat \<Rightarrow> nat \<Rightarrow> jtoken list \<Rightarrow> (json_error + jtoken list) option"
  and walkMembers :: "nat \<Rightarrow> nat \<Rightarrow> nat \<Rightarrow> nat \<Rightarrow> string list \<Rightarrow> jtoken list \<Rightarrow> (json_error + jtoken list) option"
  and walkElements :: "nat \<Rightarrow> nat \<Rightarrow> nat \<Rightarrow> nat \<Rightarrow> jtoken list \<Rightarrow> (json_error + jtoken list) option" where
  "walkValue 0 maxDepth depth ts = None"
| "walkValue (Suc fuel) maxDepth depth ts =
     (if depth > maxDepth then Some (Inl NestingTooDeep)
      else case json_Token ts of
        None \<Rightarrow> Some (Inl TokenError)
      | Some (t, r) \<Rightarrow>
          (case t of
             JOpenObj \<Rightarrow> map_option closing (walkMembers fuel maxDepth depth 0 [] r)
           | JOpenArr \<Rightarrow> map_option closing (walkElements fuel maxDepth depth 0 r)
           | JClose \<Rightarrow> Some (closing (Inr r))
           | _ \<Rightarrow> Some (Inr r)))"
| "walkMembers 0 maxDepth depth count seen ts = None"
| "walkMembers (Suc fuel) maxDepth depth count seen ts =
     (if \<not> json_More ts then Some (Inr ts)
      else if count \<ge> MaxElements then Some (Inl TooManyMembers)
      else case json_Token ts of
        None \<Rightarrow> Some (Inl TokenError)
      | Some (JStr key, r) \<Rightarrow>
          if key \<in> set seen then Some (Inl DuplicateKey)
          else (case walkValue fuel maxDepth (Suc depth) r of
                  None \<Rightarrow> None
                | Some (Inl e) \<Rightarrow> Some (Inl e)
                | Some (Inr r') \<Rightarrow> walkMembers fuel maxDepth depth (Suc count) (key # seen) r')
      | Some _ \<Rightarrow> Some (Inl BadKey))"
| "walkElements 0 maxDepth depth count ts = None"
| "walkElements (Suc fuel) maxDepth depth count ts =
     (if \<not> json_More ts then Some (Inr ts)
      else if count \<ge> MaxElements then Some (Inl TooManyElements)
      else (case walkValue fuel maxDepth (Suc depth) ts of
              None \<Rightarrow> None
            | Some (Inl e) \<Rightarrow> Some (Inl e)
            | Some (Inr r') \<Rightarrow> walkElements fuel maxDepth depth (Suc count) r'))"

definition RejectDuplicateKeys :: "(bytes \<Rightarrow> jtoken list) \<Rightarrow> bytes \<Rightarrow> nat \<Rightarrow> (json_error + unit) option" where
  "RejectDuplicateKeys tokens encoded maxDepth =
     (let ts = tokens encoded in
      map_option (map_sum id (\<lambda>_. ())) (walkValue (2 * length ts + 2) maxDepth 0 ts))"

section \<open>The walk ends\<close>

lemma json_Token_Some: "json_Token ts = Some (t, r) \<longleftrightarrow> ts = t # r \<and> (\<forall>m. t \<noteq> JBad m)"
  by (auto simp: json_Token_def split: list.splits jtoken.splits)

lemma json_Token_None: "json_Token ts = None \<longleftrightarrow> ts = [] \<or> (\<exists>m r. ts = JBad m # r)"
  by (auto simp: json_Token_def split: list.splits jtoken.splits)

lemma json_More_simps [simp]:
  "\<not> json_More []" "\<not> json_More (JClose # r)" "json_More (JBad m # r) = m" "json_More (JStr k # r)"
  "json_More (JOpenObj # r)" "json_More (JOpenArr # r)" "json_More (JScalar # r)"
  by (simp_all add: json_More_def)

lemma closing_Inr: "closing x = Inr r \<longleftrightarrow> (\<exists>t. x = Inr (t # r) \<and> (\<forall>m. t \<noteq> JBad m))"
  by (auto simp: closing_def json_Token_Some json_Token_None split: sum.splits option.splits)

lemma walk_shrinks:
  "walkValue fuel d k ts = Some (Inr r) \<Longrightarrow> length r < length ts"
  "walkMembers fuel d k n seen ts = Some (Inr r) \<Longrightarrow> length r \<le> length ts"
  "walkElements fuel d k n ts = Some (Inr r) \<Longrightarrow> length r \<le> length ts"
proof (induction fuel d k ts and fuel d k n seen ts and fuel d k n ts arbitrary: r and r and r
    rule: walkValue_walkMembers_walkElements.induct)
  case (2 fuel d k ts)
  then show ?case
    by (fastforce simp: json_Token_Some closing_Inr split: if_splits option.splits jtoken.splits)
next
  case (4 fuel d k n seen ts)
  then show ?case
    by (fastforce simp: json_Token_Some split: if_splits option.splits jtoken.splits sum.splits)
next
  case (6 fuel d k n ts)
  then show ?case
    by (fastforce split: if_splits option.splits sum.splits)
qed simp_all

lemma walk_returns:
  "2 * length ts + 2 \<le> fuel \<Longrightarrow> walkValue fuel d k ts \<noteq> None"
  "2 * length ts + 3 \<le> fuel \<Longrightarrow> walkMembers fuel d k n seen ts \<noteq> None"
  "2 * length ts + 3 \<le> fuel \<Longrightarrow> walkElements fuel d k n ts \<noteq> None"
proof (induction fuel d k ts and fuel d k n seen ts and fuel d k n ts
    rule: walkValue_walkMembers_walkElements.induct)
  case (2 fuel d k ts)
  then show ?case
    by (auto simp: json_Token_Some split: if_splits option.splits jtoken.splits)
next
  case (4 fuel d k n seen ts)
  have "2 * length r' + 3 \<le> fuel"
    if "ts = JStr key # r" "walkValue fuel d (Suc k) r = Some (Inr r')" for key r r'
    using walk_shrinks(1) [OF that(2)] that(1) 4(3) by simp
  with 4 show ?case
    by (fastforce simp: json_Token_Some split: if_splits option.splits jtoken.splits sum.splits)
next
  case (6 fuel d k n ts)
  have "2 * length r' + 3 \<le> fuel" if "walkValue fuel d (Suc k) ts = Some (Inr r')" for r'
    using walk_shrinks(1) [OF that] 6(3) by simp
  with 6 show ?case
    by (auto split: if_splits option.splits sum.splits)
qed simp_all

section \<open>What the walk accepts\<close>

datatype jval = VStr string | VScalar | VObj "(string \<times> jval) list" | VArr "jval list"

text \<open>The tokens of a value, and the documents the walk is meant to let through.\<close>

fun jval_tokens :: "jval \<Rightarrow> jtoken list" where
  "jval_tokens (VStr s) = [JStr s]"
| "jval_tokens VScalar = [JScalar]"
| "jval_tokens (VObj ms) = JOpenObj # concat (map (\<lambda>(k, v). JStr k # jval_tokens v) ms) @ [JClose]"
| "jval_tokens (VArr vs) = JOpenArr # concat (map jval_tokens vs) @ [JClose]"

fun jval_strict :: "nat \<Rightarrow> nat \<Rightarrow> jval \<Rightarrow> bool" where
  "jval_strict d k (VStr s) = (k \<le> d)"
| "jval_strict d k VScalar = (k \<le> d)"
| "jval_strict d k (VObj ms) =
     (k \<le> d \<and> length ms \<le> MaxElements \<and> distinct (map fst ms) \<and> (\<forall>(n, v) \<in> set ms. jval_strict d (Suc k) v))"
| "jval_strict d k (VArr vs) =
     (k \<le> d \<and> length vs \<le> MaxElements \<and> (\<forall>v \<in> set vs. jval_strict d (Suc k) v))"

definition walk_outcome :: "bool \<Rightarrow> 'a \<Rightarrow> (json_error + 'a) option \<Rightarrow> bool" where
  "walk_outcome ok r w = (if ok then w = Some (Inr r) else \<exists>e. w = Some (Inl e))"

lemma closing_outcome: "walk_outcome ok (JClose # r) w \<Longrightarrow> walk_outcome ok r (map_option closing w)"
  by (auto simp: walk_outcome_def closing_def json_Token_def split: if_splits)

lemma jval_tokens_more [simp]: "json_More (jval_tokens v @ r)"
  by (cases v) simp_all

lemma walkMembers_outcome:
  assumes "\<And>k v r fuel. (k, v) \<in> set ms \<Longrightarrow> 2 * length (jval_tokens v @ r) + 2 \<le> fuel \<Longrightarrow>
      walk_outcome (jval_strict d (Suc depth) v) r (walkValue fuel d (Suc depth) (jval_tokens v @ r))"
  shows "2 * length (concat (map (\<lambda>(k, v). JStr k # jval_tokens v) ms) @ JClose # r) + 3 \<le> fuel \<Longrightarrow>
     walk_outcome (n + length ms \<le> MaxElements \<and> distinct (map fst ms) \<and> fst ` set ms \<inter> set seen = {} \<and>
         (\<forall>(n, v) \<in> set ms. jval_strict d (Suc depth) v) \<or> ms = [])
       (JClose # r) (walkMembers fuel d depth n seen (concat (map (\<lambda>(k, v). JStr k # jval_tokens v) ms) @ JClose # r))"
  using assms
proof (induction ms arbitrary: n seen fuel)
  case Nil
  then show ?case by (cases fuel) (simp_all add: walk_outcome_def)
next
  case (Cons m ms)
  obtain k v where m: "m = (k, v)" by (cases m)
  from Cons.prems(1) obtain fuel' where fuel: "fuel = Suc fuel'" by (cases fuel) simp_all
  let ?rest = "concat (map (\<lambda>(k, v). JStr k # jval_tokens v) ms) @ JClose # r"
  have v: "walk_outcome (jval_strict d (Suc depth) v) ?rest (walkValue fuel' d (Suc depth) (jval_tokens v @ ?rest))"
    using Cons.prems(1) m fuel by (intro Cons.prems(2) [of k]) simp_all
  have ms: "walk_outcome (Suc n + length ms \<le> MaxElements \<and> distinct (map fst ms) \<and>
         fst ` set ms \<inter> set (k # seen) = {} \<and> (\<forall>(n, v) \<in> set ms. jval_strict d (Suc depth) v) \<or> ms = [])
       (JClose # r) (walkMembers fuel' d depth (Suc n) (k # seen) ?rest)"
    by (rule Cons.IH) (use Cons.prems m fuel in auto)
  show ?case
    using v ms m by (auto simp: fuel walk_outcome_def json_Token_def split: if_splits)
qed

lemma walkElements_outcome:
  assumes "\<And>v r fuel. v \<in> set vs \<Longrightarrow> 2 * length (jval_tokens v @ r) + 2 \<le> fuel \<Longrightarrow>
      walk_outcome (jval_strict d (Suc depth) v) r (walkValue fuel d (Suc depth) (jval_tokens v @ r))"
  shows "2 * length (concat (map jval_tokens vs) @ JClose # r) + 3 \<le> fuel \<Longrightarrow>
     walk_outcome (n + length vs \<le> MaxElements \<and> (\<forall>v \<in> set vs. jval_strict d (Suc depth) v) \<or> vs = [])
       (JClose # r) (walkElements fuel d depth n (concat (map jval_tokens vs) @ JClose # r))"
  using assms
proof (induction vs arbitrary: n fuel)
  case Nil
  then show ?case by (cases fuel) (simp_all add: walk_outcome_def)
next
  case (Cons v vs)
  from Cons.prems(1) obtain fuel' where fuel: "fuel = Suc fuel'" by (cases fuel) simp_all
  let ?rest = "concat (map jval_tokens vs) @ JClose # r"
  obtain t ts where v': "jval_tokens v = t # ts" by (cases v) simp_all
  have v: "walk_outcome (jval_strict d (Suc depth) v) ?rest (walkValue fuel' d (Suc depth) (jval_tokens v @ ?rest))"
    using Cons.prems(1) fuel by (intro Cons.prems(2)) simp_all
  have vs: "walk_outcome (Suc n + length vs \<le> MaxElements \<and>
         (\<forall>v \<in> set vs. jval_strict d (Suc depth) v) \<or> vs = [])
       (JClose # r) (walkElements fuel' d depth (Suc n) ?rest)"
    by (rule Cons.IH) (use Cons.prems fuel v' in auto)
  show ?case
    using v vs by (auto simp: fuel walk_outcome_def split: if_splits)
qed

lemma walkValue_outcome:
  "2 * length (jval_tokens v @ r) + 2 \<le> fuel \<Longrightarrow>
     walk_outcome (jval_strict d k v) r (walkValue fuel d k (jval_tokens v @ r))"
proof (induction v arbitrary: k r fuel rule: jval_tokens.induct)
  case (3 ms)
  then obtain fuel' where fuel: "fuel = Suc fuel'" by (cases fuel) simp_all
  have "walk_outcome (0 + length ms \<le> MaxElements \<and> distinct (map fst ms) \<and> fst ` set ms \<inter> set [] = {} \<and>
         (\<forall>(n, v) \<in> set ms. jval_strict d (Suc k) v) \<or> ms = [])
       (JClose # r) (walkMembers fuel' d k 0 [] (concat (map (\<lambda>(k, v). JStr k # jval_tokens v) ms) @ JClose # r))"
    by (rule walkMembers_outcome) (use 3 fuel in auto)
  then show ?case
    by (auto simp: fuel json_Token_def walk_outcome_def closing_def split: if_splits)
next
  case (4 vs)
  then obtain fuel' where fuel: "fuel = Suc fuel'" by (cases fuel) simp_all
  have "walk_outcome (0 + length vs \<le> MaxElements \<and> (\<forall>v \<in> set vs. jval_strict d (Suc k) v) \<or> vs = [])
       (JClose # r) (walkElements fuel' d k 0 (concat (map jval_tokens vs) @ JClose # r))"
    by (rule walkElements_outcome) (use 4 fuel in auto)
  then show ?case
    by (auto simp: fuel json_Token_def walk_outcome_def closing_def split: if_splits)
qed (auto simp: walk_outcome_def json_Token_def elim!: less_eq_Suc_le [THEN iffD2, elim_format] dest!: Suc_le_D)

lemma RejectDuplicateKeys_returns: "\<exists>x. RejectDuplicateKeys tokens encoded d = Some x"
  unfolding RejectDuplicateKeys_def Let_def option.map_disc_iff
  using walk_returns(1) [of "tokens encoded" "2 * length (tokens encoded) + 2" d 0]
  by (metis le_refl not_None_eq option.simps(9))

text \<open>
  The strict walk returns on every token stream, and on the tokens of a JSON value it accepts
  exactly when no object at any depth has two members of the same name, the value nests no deeper
  than the limit and no object or array has more than \<^verbatim>\<open>MaxElements\<close> entries.
\<close>

theorem RejectDuplicateKeys_exact:
  assumes "tokens encoded = jval_tokens v @ rest"
  shows "\<exists>res. RejectDuplicateKeys tokens encoded maxDepth = Some res \<and>
    (res = Inr () \<longleftrightarrow> jval_strict maxDepth 0 v)"
proof -
  define w where "w = walkValue (2 * length (tokens encoded) + 2) maxDepth 0 (tokens encoded)"
  have "walk_outcome (jval_strict maxDepth 0 v) rest w"
    using walkValue_outcome [of v rest "2 * length (tokens encoded) + 2" maxDepth 0] assms
    by (simp only: w_def order_refl)
  moreover have "RejectDuplicateKeys tokens encoded maxDepth = map_option (map_sum id (\<lambda>_. ())) w"
    by (simp only: RejectDuplicateKeys_def Let_def w_def)
  ultimately show ?thesis
    by (auto simp: walk_outcome_def split: if_splits)
qed

theorem RejectDuplicateKeys_exact_witness:
  "\<exists>res. RejectDuplicateKeys (\<lambda>_. [JOpenObj, JStr ''a'', JScalar, JStr ''a'', JScalar, JClose]) [] 8 = Some res \<and>
    (res = Inr () \<longleftrightarrow> jval_strict 8 0 (VObj [(''a'', VScalar), (''a'', VScalar)]))"
  by (rule RejectDuplicateKeys_exact [of _ _ _ "[]"]) simp

end
