(* ===== verification/Checkpoint.thy ===== *)
theory Checkpoint
  imports MerkleConsistency Json StrictJson
begin

text \<open>
  Signed log heads: \<^verbatim>\<open>site/transparency/checkpoint.go\<close>, and the reader's pinned witness set
  of \<^verbatim>\<open>witness.go\<close>. The signing messages are shown to fix every field, a signed head to
  verify as the values that were signed, and an accepted set of cosignatures to come from as many
  different pinned keys as the policy asks for.
\<close>

section \<open>Checkpoints\<close>

definition CheckpointVersion :: string where "CheckpointVersion = ''nomad-site-log-checkpoint-v1''"
definition checkpointDomain :: string where "checkpointDomain = ''nomad-site-log-checkpoint-signature-v1''"
definition witnessDomain :: string where "witnessDomain = ''nomad-site-log-witness-signature-v1''"
definition maxCheckpointDepth :: nat where "maxCheckpointDepth = 8"
definition maxCheckpointBytes :: nat where "maxCheckpointBytes = 8192"
definition maxOriginBytes :: nat where "maxOriginBytes = 255"
definition maxCosignatures :: nat where "maxCosignatures = 16"
definition maxWitnessNameBytes :: nat where "maxWitnessNameBytes = 64"

record cosignature =
  co_Witness :: string
  co_Signature :: string

record checkpoint =
  ck_Version :: string
  ck_Origin :: string
  ck_Size :: u64
  ck_Root :: string
  ck_Time :: string
  ck_Signature :: string
  ck_Cosignatures :: "cosignature list"

record signed_checkpoint =
  sc_Origin :: string
  sc_Size :: u64
  sc_Root :: bytes
  sc_Time :: instant
  sc_Encoded :: bytes

datatype checkpoint_error =
    BadVersion | NoExpectedOrigin | WrongOrigin | BadLogKey | BadRoot | BadTime
  | BadSignatureForm | BadSignature | TooLarge | NoOrigin | OriginTooLong | BadPrivateKey
  | HeadError tree_error | JsonStrict json_error | JsonMalformed | JsonTrailing

definition appendUint64 :: "bytes \<Rightarrow> u64 \<Rightarrow> bytes" where
  "appendUint64 out value = out @ be64 value"

definition appendString :: "bytes \<Rightarrow> string \<Rightarrow> bytes" where
  "appendString out value = appendUint64 out (of_nat (length value)) @ bytes_of value"

definition checkpointSigningMessage :: "string \<Rightarrow> u64 \<Rightarrow> bytes \<Rightarrow> string \<Rightarrow> bytes" where
  "checkpointSigningMessage origin n root when =
     appendString (appendUint64 (appendString (appendString [] checkpointDomain) origin) n @ root) when"

definition WitnessSigningMessage :: "string \<Rightarrow> string \<Rightarrow> u64 \<Rightarrow> bytes \<Rightarrow> string \<Rightarrow> bytes" where
  "WitnessSigningMessage witness origin n root when =
     appendString (appendUint64 (appendString (appendString (appendString [] witnessDomain) witness)
       origin) n @ root) when"

definition cosignature_json :: "cosignature \<Rightarrow> bytes" where
  "cosignature_json co = json_object
     [(''witness'', json_string (co_Witness co)), (''signature'', json_string (co_Signature co))]"

definition checkpoint_json :: "checkpoint \<Rightarrow> bytes" where
  "checkpoint_json ck = json_object
     ([(''version'', json_string (ck_Version ck)), (''origin'', json_string (ck_Origin ck)),
       (''size'', json_uint (ck_Size ck)), (''root'', json_string (ck_Root ck)),
       (''time'', json_string (ck_Time ck)), (''signature'', json_string (ck_Signature ck))] @
      (if ck_Cosignatures ck = [] then []
       else [(''cosignatures'', json_array (map cosignature_json (ck_Cosignatures ck)))]))"

definition EncodeCheckpoint :: "checkpoint \<Rightarrow> checkpoint_error + bytes" where
  "EncodeCheckpoint ck =
     (let encoded = checkpoint_json ck in
      if length encoded > maxCheckpointBytes then Inl TooLarge else Inr encoded)"

text \<open>
  Reading JSON: \<open>tokens\<close> is the token stream of the document and \<open>decode\<close> decodes its first
  value into the struct, refusing unknown members, and reports whether more content follows.
  Both are arguments; the strict walk over the tokens is the repository's own.
\<close>

definition DecodeCheckpoint ::
    "(bytes \<Rightarrow> jtoken list) \<Rightarrow> (bytes \<Rightarrow> (checkpoint \<times> bool) option) \<Rightarrow> bytes \<Rightarrow>
      (checkpoint_error + checkpoint) option" where
  "DecodeCheckpoint tokens decode encoded =
     (if length encoded > maxCheckpointBytes then Some (Inl TooLarge)
      else map_option (\<lambda>walked.
        case walked of
          Inl e \<Rightarrow> Inl (JsonStrict e)
        | Inr _ \<Rightarrow>
            (case decode encoded of
               None \<Rightarrow> Inl JsonMalformed
             | Some (ck, trailing) \<Rightarrow> if trailing then Inl JsonTrailing else Inr ck))
        (RejectDuplicateKeys tokens encoded maxCheckpointDepth))"

definition SignCheckpoint ::
    "crypto \<Rightarrow> string \<Rightarrow> tree \<Rightarrow> u64 \<Rightarrow> instant \<Rightarrow> bytes \<Rightarrow> checkpoint_error + checkpoint" where
  "SignCheckpoint c origin t n when private =
     (if origin = [] then Inl NoOrigin
      else if length origin > maxOriginBytes then Inl OriginTooLong
      else if length private \<noteq> privateKeySize then Inl BadPrivateKey
      else case Tree_Root c t n of
             Inl e \<Rightarrow> Inl (HeadError e)
           | Inr root \<Rightarrow>
               let stamp = time_Format (when - when mod second);
                   signature = ed_sign c private (checkpointSigningMessage origin n root stamp)
               in Inr \<lparr>ck_Version = CheckpointVersion, ck_Origin = origin, ck_Size = n,
                       ck_Root = hex_EncodeToString root, ck_Time = stamp,
                       ck_Signature = b64_EncodeToString signature, ck_Cosignatures = []\<rparr>)"

definition decodeRoot :: "string \<Rightarrow> bytes option" where
  "decodeRoot encoded =
     (case hex_DecodeString encoded of
        None \<Rightarrow> None
      | Some raw \<Rightarrow>
          if length raw \<noteq> 32 \<or> hex_EncodeToString raw \<noteq> encoded then None else Some raw)"

definition validateCanonicalTime :: "string \<Rightarrow> bool" where
  "validateCanonicalTime encoded =
     (case time_Parse encoded of None \<Rightarrow> False | Some parsed \<Rightarrow> time_Format parsed = encoded)"

definition VerifyCheckpoint ::
    "crypto \<Rightarrow> checkpoint \<Rightarrow> string \<Rightarrow> bytes \<Rightarrow> checkpoint_error + signed_checkpoint" where
  "VerifyCheckpoint c ck expectedOrigin logKey =
     (if ck_Version ck \<noteq> CheckpointVersion then Inl BadVersion
      else if expectedOrigin = [] then Inl NoExpectedOrigin
      else if ck_Origin ck \<noteq> expectedOrigin then Inl WrongOrigin
      else if length logKey \<noteq> publicKeySize then Inl BadLogKey
      else case decodeRoot (ck_Root ck) of None \<Rightarrow> Inl BadRoot | Some root \<Rightarrow>
      if \<not> validateCanonicalTime (ck_Time ck) then Inl BadTime
      else case b64_DecodeString (ck_Signature ck) of None \<Rightarrow> Inl BadSignatureForm | Some signature \<Rightarrow>
      if length signature \<noteq> signatureSize then Inl BadSignatureForm
      else if b64_EncodeToString signature \<noteq> ck_Signature ck then Inl BadSignatureForm
      else if \<not> ed_verify c logKey
             (checkpointSigningMessage (ck_Origin ck) (ck_Size ck) root (ck_Time ck)) signature
        then Inl BadSignature
      else case time_Parse (ck_Time ck) of None \<Rightarrow> Inl BadTime | Some when \<Rightarrow>
      case EncodeCheckpoint ck of Inl e \<Rightarrow> Inl e | Inr encoded \<Rightarrow>
        Inr \<lparr>sc_Origin = ck_Origin ck, sc_Size = ck_Size ck, sc_Root = root, sc_Time = when,
             sc_Encoded = encoded\<rparr>)"

section \<open>Witness policies\<close>

record witness_policy =
  wp_threshold :: int
  wp_keys :: "(string \<times> bytes) list"

datatype policy_error =
    NoWitnesses | TooManyWitnesses | ThresholdBelowOne | ThresholdUnreachable | UnnamedWitness
  | WitnessNameTooLong | WitnessKeySize | SharedKey | NoPolicy | TooManyCosignatures
  | WitnessTwice | CosignatureForm | CosignatureInvalid | Underwitnessed

text \<open>
  A Go map is iterated in an unspecified order: the argument lists the map's entries, one per
  name, in the order the loop happens to visit them.
\<close>

fun policyKeysLoop :: "(string \<times> bytes) list \<Rightarrow> bytes list \<Rightarrow> policy_error option" where
  "policyKeysLoop [] seen = None"
| "policyKeysLoop ((name, key) # keys) seen =
     (if name = [] then Some UnnamedWitness
      else if length name > maxWitnessNameBytes then Some WitnessNameTooLong
      else if length key \<noteq> publicKeySize then Some WitnessKeySize
      else if key \<in> set seen then Some SharedKey
      else policyKeysLoop keys (key # seen))"

definition NewWitnessPolicy :: "int \<Rightarrow> (string \<times> bytes) list \<Rightarrow> policy_error + witness_policy" where
  "NewWitnessPolicy threshold keys =
     (if length keys = 0 then Inl NoWitnesses
      else if length keys > maxCosignatures then Inl TooManyWitnesses
      else if threshold < 1 then Inl ThresholdBelowOne
      else if threshold > int (length keys) then Inl ThresholdUnreachable
      else case policyKeysLoop keys [] of
             Some e \<Rightarrow> Inl e
           | None \<Rightarrow> Inr \<lparr>wp_threshold = threshold, wp_keys = keys\<rparr>)"

fun cosignaturesLoop ::
    "crypto \<Rightarrow> (string \<times> bytes) list \<Rightarrow> checkpoint \<Rightarrow> bytes \<Rightarrow> cosignature list \<Rightarrow> string list \<Rightarrow>
      policy_error + string list" where
  "cosignaturesLoop c keys ck root [] counted = Inr counted"
| "cosignaturesLoop c keys ck root (co # cos) counted =
     (case map_of keys (co_Witness co) of
        None \<Rightarrow> cosignaturesLoop c keys ck root cos counted
      | Some key \<Rightarrow>
          if co_Witness co \<in> set counted then Inl WitnessTwice
          else case b64_DecodeString (co_Signature co) of None \<Rightarrow> Inl CosignatureForm | Some signature \<Rightarrow>
          if length signature \<noteq> signatureSize then Inl CosignatureForm
          else if b64_EncodeToString signature \<noteq> co_Signature co then Inl CosignatureForm
          else if \<not> ed_verify c key
                 (WitnessSigningMessage (co_Witness co) (ck_Origin ck) (ck_Size ck) root (ck_Time ck)) signature
            then Inl CosignatureInvalid
          else cosignaturesLoop c keys ck root cos (co_Witness co # counted))"

definition WitnessPolicy_Verify ::
    "crypto \<Rightarrow> witness_policy option \<Rightarrow> checkpoint \<Rightarrow> bytes \<Rightarrow> policy_error + unit" where
  "WitnessPolicy_Verify c policy ck root =
     (case policy of
        None \<Rightarrow> Inl NoPolicy
      | Some p \<Rightarrow>
          if length (ck_Cosignatures ck) > maxCosignatures then Inl TooManyCosignatures
          else case cosignaturesLoop c (wp_keys p) ck root (ck_Cosignatures ck) [] of
                 Inl e \<Rightarrow> Inl e
               | Inr counted \<Rightarrow>
                   if int (length counted) < wp_threshold p then Inl Underwitnessed else Inr ())"

section \<open>The signing messages fix every field\<close>

lemma appendString_prefixed: "appendString out s = out @ prefixed (bytes_of s)"
  by (simp add: appendString_def appendUint64_def prefixed_def)

lemma checkpoint_message_fields:
  "checkpointSigningMessage origin n root when =
     prefixed (bytes_of checkpointDomain) @ prefixed (bytes_of origin) @ be64 n @ root @ prefixed (bytes_of when)"
  by (simp add: checkpointSigningMessage_def appendString_prefixed appendUint64_def)

lemma witness_message_fields:
  "WitnessSigningMessage w origin n root when =
     prefixed (bytes_of witnessDomain) @ prefixed (bytes_of w) @ prefixed (bytes_of origin) @ be64 n @ root @
     prefixed (bytes_of when)"
  by (simp add: WitnessSigningMessage_def appendString_prefixed appendUint64_def)

lemma prefixed_inj: "go_sized a \<Longrightarrow> go_sized b \<Longrightarrow> prefixed a = prefixed b \<longleftrightarrow> a = b"
  using prefixed_append_inj [of a b "[]" "[]"] by simp

lemma go_sized_bytes_of: "go_sized (bytes_of s) \<longleftrightarrow> go_sized s"
  by (simp only: length_bytes_of)

lemmas message_parts = prefixed_append_inj prefixed_inj go_sized_bytes_of bytes_of_inj

lemma head_tail_inj:
  assumes "be64 n @ root @ prefixed (bytes_of when) = be64 n' @ root' @ prefixed (bytes_of when')"
    and "length root = length root'" and "go_sized when" and "go_sized when'"
  shows "n = n' \<and> root = root' \<and> when = when'"
  using assms by (auto simp del: be_enc.simps simp add: message_parts)

lemma checkpoint_message_inj:
  assumes "checkpointSigningMessage origin n root when = checkpointSigningMessage origin' n' root' when'"
    and "length root = length root'" and "go_sized origin" and "go_sized origin'"
    and "go_sized when" and "go_sized when'"
  shows "origin = origin' \<and> n = n' \<and> root = root' \<and> when = when'"
  using assms(1,3,4) head_tail_inj [OF _ assms(2,5,6)]
  unfolding checkpoint_message_fields by (simp add: message_parts del: be_enc.simps) 

lemma witness_message_inj:
  assumes "WitnessSigningMessage w origin n root when = WitnessSigningMessage w' origin' n' root' when'"
    and "length root = length root'" and "go_sized w" and "go_sized w'" and "go_sized origin" and "go_sized origin'"
    and "go_sized when" and "go_sized when'"
  shows "w = w' \<and> origin = origin' \<and> n = n' \<and> root = root' \<and> when = when'"
  using assms(1,3-6) head_tail_inj [OF _ assms(2,7,8)]
  unfolding witness_message_fields by (simp add: message_parts del: be_enc.simps)

lemma message_domains:
  "checkpointSigningMessage origin n root when \<noteq> WitnessSigningMessage w origin' n' root' when'"
proof -
  have "go_sized (bytes_of checkpointDomain)" "go_sized (bytes_of witnessDomain)"
    by (simp_all add: checkpointDomain_def witnessDomain_def)
  moreover have "checkpointDomain \<noteq> witnessDomain"
    by (simp add: checkpointDomain_def witnessDomain_def)
  ultimately show ?thesis
    unfolding checkpoint_message_fields witness_message_fields
    by (simp add: prefixed_append_inj del: be_enc.simps)
qed

section \<open>Verified heads\<close>

lemma decodeRoot_hex: "decodeRoot s = decodeHex 32 s"
  by (simp add: decodeRoot_def decodeHex_def split: option.splits)

lemma validateCanonicalTime_iff: "validateCanonicalTime s \<longleftrightarrow> (\<exists>t. time_Parse s = Some t)"
  using rfc3339.enc_dec by (auto simp: validateCanonicalTime_def split: option.splits)

lemma EncodeCheckpoint_ok:
  "EncodeCheckpoint ck = Inr e \<longleftrightarrow> e = checkpoint_json ck \<and> length (checkpoint_json ck) \<le> maxCheckpointBytes"
  by (auto simp: EncodeCheckpoint_def Let_def)

text \<open>What an accepted checkpoint has been checked for, and nothing less.\<close>

lemma VerifyCheckpoint_ok_iff:
  "VerifyCheckpoint c ck origin logKey = Inr sc \<longleftrightarrow>
     ck_Version ck = CheckpointVersion \<and> origin \<noteq> [] \<and> ck_Origin ck = origin \<and>
     length logKey = publicKeySize \<and> decodeHex 32 (ck_Root ck) = Some (sc_Root sc) \<and>
     time_Parse (ck_Time ck) = Some (sc_Time sc) \<and>
     (\<exists>signature. decodeBase64 signatureSize (ck_Signature ck) = Some signature \<and>
        ed_verify c logKey
          (checkpointSigningMessage origin (ck_Size ck) (sc_Root sc) (ck_Time ck)) signature) \<and>
     length (checkpoint_json ck) \<le> maxCheckpointBytes \<and>
     sc_Origin sc = origin \<and> sc_Size sc = ck_Size ck \<and> sc_Encoded sc = checkpoint_json ck \<and>
     signed_checkpoint.more sc = ()"
  by (cases sc)
    (auto simp: VerifyCheckpoint_def decodeRoot_hex validateCanonicalTime_iff EncodeCheckpoint_def Let_def
      decodeBase64_def split: if_splits option.splits sum.splits)

lemma VerifyCheckpoint_root:
  "VerifyCheckpoint c ck origin key = Inr sc \<Longrightarrow>
     ck_Root ck = hex_EncodeToString (sc_Root sc) \<and> length (sc_Root sc) = 32"
  using hex32.enc_dec hex32.dec_valid by (fastforce simp: VerifyCheckpoint_ok_iff)

lemma VerifyCheckpoint_time:
  "VerifyCheckpoint c ck origin key = Inr sc \<Longrightarrow> ck_Time ck = time_Format (sc_Time sc) \<and> time_valid (sc_Time sc)"
  using rfc3339.enc_dec rfc3339.dec_valid by (fastforce simp: VerifyCheckpoint_ok_iff)

lemma length_time_Format: "length (time_Format t) = 20"
  by (simp add: time_Format_def spell_def Let_def)

lemma length_b64: "length (b64_EncodeToString bs) = 4 * ((length bs + 2) div 3)"
proof (induction bs rule: b64_EncodeToString.induct)
  case (4 a b c r)
  have "(5 + length r) div 3 = Suc (Suc (Suc (length r)) div 3)" by presburger
  with 4 show ?case by simp
qed simp_all

lemma checkpoint_json_bound:
  assumes "ck_Version ck = CheckpointVersion" and "length (ck_Origin ck) \<le> maxOriginBytes"
    and "length (ck_Root ck) = 64" and "length (ck_Time ck) = 20" and "length (ck_Signature ck) = 88"
    and "ck_Cosignatures ck = []"
  shows "length (checkpoint_json ck) \<le> maxCheckpointBytes"
proof -
  let ?b = "\<lambda>s. length (json_string s)"
  have "?b (ck_Version ck) \<le> 170" "?b (ck_Origin ck) \<le> 1532" "?b (ck_Root ck) \<le> 386" "?b (ck_Time ck) \<le> 122"
      "?b (ck_Signature ck) \<le> 530"
    using json_string_bound [of "ck_Version ck"] json_string_bound [of "ck_Origin ck"]
      json_string_bound [of "ck_Root ck"] json_string_bound [of "ck_Time ck"]
      json_string_bound [of "ck_Signature ck"] assms
    by (simp_all add: CheckpointVersion_def maxOriginBytes_def)
  with json_uint_bound [of "ck_Size ck"] show ?thesis
    unfolding checkpoint_json_def assms(6) maxCheckpointBytes_def
    by (intro order_trans [OF json_object_bound]) simp
qed

lemma SignCheckpoint_ok_iff:
  "SignCheckpoint c origin t n when sk = Inr ck \<longleftrightarrow>
     origin \<noteq> [] \<and> length origin \<le> maxOriginBytes \<and> length sk = privateKeySize \<and>
     (\<exists>root. Tree_Root c t n = Inr root \<and>
        ck = \<lparr>ck_Version = CheckpointVersion, ck_Origin = origin, ck_Size = n,
              ck_Root = hex_EncodeToString root, ck_Time = time_Format (when - when mod second),
              ck_Signature = b64_EncodeToString (ed_sign c sk
                (checkpointSigningMessage origin n root (time_Format (when - when mod second)))),
              ck_Cosignatures = []\<rparr>)"
  by (auto simp: SignCheckpoint_def Let_def split: if_splits sum.splits)

lemma SignCheckpoint_verifies:
  assumes "sign_ok c" and "SignCheckpoint c origin t n when sk = Inr ck"
    and "Tree_Root c t n = Inr root" and "length root = 32" and "time_valid (when - when mod second)"
  shows "VerifyCheckpoint c ck origin (ed_public c sk) =
    Inr \<lparr>sc_Origin = origin, sc_Size = n, sc_Root = root, sc_Time = when - when mod second,
         sc_Encoded = checkpoint_json ck\<rparr>"
proof -
  let ?m = "checkpointSigningMessage origin n root (time_Format (when - when mod second))"
  from assms(2,3) have o: "origin \<noteq> []" "length origin \<le> maxOriginBytes" and sk: "length sk = privateKeySize"
    and ck: "ck = \<lparr>ck_Version = CheckpointVersion, ck_Origin = origin, ck_Size = n,
      ck_Root = hex_EncodeToString root, ck_Time = time_Format (when - when mod second),
      ck_Signature = b64_EncodeToString (ed_sign c sk ?m), ck_Cosignatures = []\<rparr>"
    by (auto simp: SignCheckpoint_ok_iff)
  from assms(1) sk have sig: "length (ed_public c sk) = publicKeySize"
      "length (ed_sign c sk ?m) = signatureSize" "ed_verify c (ed_public c sk) ?m (ed_sign c sk ?m)"
    by (simp_all add: sign_ok_def)
  have "length (checkpoint_json ck) \<le> maxCheckpointBytes"
    by (rule checkpoint_json_bound)
      (use o sig(2) assms(4) in \<open>simp_all add: ck length_time_Format length_b64 signatureSize_def\<close>)
  with o sig assms(4,5) show ?thesis
    unfolding VerifyCheckpoint_ok_iff by (simp add: ck rfc3339.dec_enc b64.dec_enc hex32.dec_enc)
qed

section \<open>Cosignatures\<close>

text \<open>A cosignature of the named pinned witness that verifies over exactly this head.\<close>

definition cosigned :: "crypto \<Rightarrow> (string \<times> bytes) list \<Rightarrow> checkpoint \<Rightarrow> bytes \<Rightarrow> string \<Rightarrow> bool" where
  "cosigned c keys ck root name \<longleftrightarrow>
     (\<exists>key co signature. map_of keys name = Some key \<and> co \<in> set (ck_Cosignatures ck) \<and>
        co_Witness co = name \<and> decodeBase64 signatureSize (co_Signature co) = Some signature \<and>
        ed_verify c key (WitnessSigningMessage name (ck_Origin ck) (ck_Size ck) root (ck_Time ck)) signature)"

lemma cosignaturesLoop_counted:
  "cosignaturesLoop c keys ck root cos counted = Inr counted' \<Longrightarrow> distinct counted \<Longrightarrow>
     set cos \<subseteq> set (ck_Cosignatures ck) \<Longrightarrow> \<forall>name \<in> set counted. cosigned c keys ck root name \<Longrightarrow>
     distinct counted' \<and> (\<forall>name \<in> set counted'. cosigned c keys ck root name)"
proof (induction cos arbitrary: counted)
  case (Cons co cos)
  show ?case
  proof (cases "map_of keys (co_Witness co)")
    case None
    with Cons show ?thesis by simp
  next
    case (Some key)
    with Cons.prems(1) obtain signature where s: "co_Witness co \<notin> set counted"
        "decodeBase64 signatureSize (co_Signature co) = Some signature"
        "ed_verify c key (WitnessSigningMessage (co_Witness co) (ck_Origin ck) (ck_Size ck) root (ck_Time ck)) signature"
        "cosignaturesLoop c keys ck root cos (co_Witness co # counted) = Inr counted'"
      by (auto simp: decodeBase64_def split: if_splits option.splits)
    moreover have "cosigned c keys ck root (co_Witness co)"
      using Some s Cons.prems(3) by (auto simp: cosigned_def)
    ultimately show ?thesis using Cons.prems(2-4) by (intro Cons.IH [of "co_Witness co # counted"]) auto
  qed
qed simp

lemma WitnessPolicy_Verify_counts:
  assumes "WitnessPolicy_Verify c (Some p) ck root = Inr ()"
  shows "\<exists>names. distinct names \<and> wp_threshold p \<le> int (length names) \<and>
    (\<forall>name \<in> set names. cosigned c (wp_keys p) ck root name)"
proof -
  from assms obtain counted where
    "cosignaturesLoop c (wp_keys p) ck root (ck_Cosignatures ck) [] = Inr counted"
    and "wp_threshold p \<le> int (length counted)"
    by (auto simp: WitnessPolicy_Verify_def split: if_splits sum.splits)
  with cosignaturesLoop_counted [of c "wp_keys p" ck root "ck_Cosignatures ck" "[]" counted]
  show ?thesis by auto
qed

definition policy_ok :: "witness_policy \<Rightarrow> bool" where
  "policy_ok p \<longleftrightarrow> 1 \<le> wp_threshold p \<and> wp_threshold p \<le> int (length (wp_keys p)) \<and>
     length (wp_keys p) \<le> maxCosignatures \<and> distinct (map snd (wp_keys p)) \<and>
     (\<forall>(name, key) \<in> set (wp_keys p). name \<noteq> [] \<and> length name \<le> maxWitnessNameBytes \<and>
        length key = publicKeySize)"

lemma policyKeysLoop_None:
  "policyKeysLoop keys seen = None \<longleftrightarrow>
     distinct (map snd keys) \<and> snd ` set keys \<inter> set seen = {} \<and>
     (\<forall>(name, key) \<in> set keys. name \<noteq> [] \<and> length name \<le> maxWitnessNameBytes \<and> length key = publicKeySize)"
  by (induction keys seen rule: policyKeysLoop.induct) auto

lemma NewWitnessPolicy_iff:
  "NewWitnessPolicy threshold keys = Inr p \<longleftrightarrow>
     p = \<lparr>wp_threshold = threshold, wp_keys = keys\<rparr> \<and> policy_ok p"
  using policyKeysLoop_None [of keys "[]"]
  by (cases "policyKeysLoop keys []") (auto simp: NewWitnessPolicy_def policy_ok_def split: if_splits)

text \<open>Different pinned names have different pinned keys.\<close>

lemma policy_keys_inj:
  assumes "policy_ok p" and "map_of (wp_keys p) a = Some k" and "map_of (wp_keys p) b = Some k"
  shows "a = b"
proof -
  have "(a, k) \<in> set (wp_keys p)" "(b, k) \<in> set (wp_keys p)"
    using assms by (auto dest: map_of_SomeD)
  moreover have "inj_on snd (set (wp_keys p))" using assms(1) by (simp add: policy_ok_def distinct_map)
  ultimately show ?thesis using inj_onD [of snd _ "(a, k)" "(b, k)"] by simp
qed

lemma cosigned_keys:
  assumes "policy_ok p" and "distinct names" and "\<forall>name \<in> set names. cosigned c (wp_keys p) ck root name"
  shows "card (the ` map_of (wp_keys p) ` set names) = length names"
proof -
  have "inj_on (\<lambda>name. the (map_of (wp_keys p) name)) (set names)"
  proof (rule inj_onI)
    fix a b
    assume ab: "a \<in> set names" "b \<in> set names" and eq: "the (map_of (wp_keys p) a) = the (map_of (wp_keys p) b)"
    from ab assms(3) obtain k l where "map_of (wp_keys p) a = Some k" "map_of (wp_keys p) b = Some l"
      unfolding cosigned_def by blast
    with eq have "map_of (wp_keys p) a = Some k" "map_of (wp_keys p) b = Some k" by simp_all
    then show "a = b" by (rule policy_keys_inj [OF assms(1)])
  qed
  then show ?thesis
    by (simp add: image_image card_image distinct_card [OF assms(2)])
qed

text \<open>Passing verification gives a set of pinned keys of threshold size, each with its own cosignature.\<close>

lemma policy_quorum:
  assumes "policy_ok p" and "WitnessPolicy_Verify c (Some p) ck root = Inr ()"
  shows "\<exists>K. K \<subseteq> snd ` set (wp_keys p) \<and> wp_threshold p \<le> int (card K) \<and>
    (\<forall>key \<in> K. \<exists>co signature. co \<in> set (ck_Cosignatures ck) \<and> (co_Witness co, key) \<in> set (wp_keys p) \<and>
       decodeBase64 signatureSize (co_Signature co) = Some signature \<and>
       ed_verify c key (WitnessSigningMessage (co_Witness co) (ck_Origin ck) (ck_Size ck) root (ck_Time ck)) signature)"
proof -
  from WitnessPolicy_Verify_counts [OF assms(2)] obtain names where n: "distinct names"
      "wp_threshold p \<le> int (length names)" "\<forall>name \<in> set names. cosigned c (wp_keys p) ck root name"
    by auto
  let ?K = "the ` map_of (wp_keys p) ` set names"
  have "card ?K = length names" using cosigned_keys [OF assms(1) n(1,3)] .
  moreover have "key \<in> snd ` set (wp_keys p) \<and> (\<exists>co signature. co \<in> set (ck_Cosignatures ck) \<and>
       (co_Witness co, key) \<in> set (wp_keys p) \<and>
       decodeBase64 signatureSize (co_Signature co) = Some signature \<and>
       ed_verify c key (WitnessSigningMessage (co_Witness co) (ck_Origin ck) (ck_Size ck) root (ck_Time ck)) signature)"
    if "key \<in> ?K" for key
  proof -
    from that obtain name where "name \<in> set names" "key = the (map_of (wp_keys p) name)" by blast
    with n(3) obtain co signature where "map_of (wp_keys p) name = Some key" "co \<in> set (ck_Cosignatures ck)"
        "co_Witness co = name" "decodeBase64 signatureSize (co_Signature co) = Some signature"
        "ed_verify c key (WitnessSigningMessage name (ck_Origin ck) (ck_Size ck) root (ck_Time ck)) signature"
      unfolding cosigned_def by (metis option.sel)
    moreover from this(1) have "(name, key) \<in> set (wp_keys p)" by (rule map_of_SomeD)
    moreover from this have "key \<in> snd ` set (wp_keys p)" by force
    ultimately show ?thesis by blast
  qed
  ultimately show ?thesis using n(2) by (intro exI [of _ ?K]) (simp add: subset_iff)
qed

section \<open>Properties\<close>

text \<open>
  A log signature and a witness signature each fix every field. Two equal checkpoint messages
  name the same log, size, root and time; two equal witness messages also the same witness; and no
  checkpoint message is ever a witness message, so a log's own signature cannot stand in for a
  cosignature.
\<close>

theorem signing_messages_injective:
  assumes "length root = 32" and "length root' = 32" and "go_sized origin" and "go_sized origin'"
    and "go_sized when" and "go_sized when'" and "go_sized w" and "go_sized w'"
  shows "(checkpointSigningMessage origin n root when = checkpointSigningMessage origin' n' root' when' \<longleftrightarrow>
      (origin, n, root, when) = (origin', n', root', when')) \<and>
    (WitnessSigningMessage w origin n root when = WitnessSigningMessage w' origin' n' root' when' \<longleftrightarrow>
      (w, origin, n, root, when) = (w', origin', n', root', when')) \<and>
    checkpointSigningMessage origin n root when \<noteq> WitnessSigningMessage w' origin' n' root' when'"
  using checkpoint_message_inj [of origin n root "when" origin' n' root' "when'"]
    witness_message_inj [of w origin n root "when" w' origin' n' root' "when'"] assms message_domains
  by auto

theorem signing_messages_injective_witness:
  "checkpointSigningMessage ''log'' 1 (replicate 32 0) ''t'' \<noteq> checkpointSigningMessage ''log'' 2 (replicate 32 0) ''t''"
  using signing_messages_injective [of "replicate 32 0" "replicate 32 0" "''log''" "''log''" "''t''" "''t''" "[]" "[]" 1 2]
  by simp

text \<open>
  A head the log signs is a head a reader verifies. Whenever \<^verbatim>\<open>SignCheckpoint\<close> succeeds on a
  tree of entries, \<^verbatim>\<open>VerifyCheckpoint\<close> under the log's public key accepts the result and
  returns exactly the origin, size, tree head and whole-second time that were signed; the rendered
  document is always within the reader's size limit.
\<close>

theorem signed_checkpoint_roundtrip:
  assumes "hash_ok c" and "sign_ok c" and "go_sized es" and "time_valid (when - when mod second)"
    and "SignCheckpoint c origin (tree_of c es) n when sk = Inr ck"
  shows "unat n \<le> length es \<and>
    VerifyCheckpoint c ck origin (ed_public c sk) =
      Inr \<lparr>sc_Origin = origin, sc_Size = n, sc_Root = mth c (leaf_hashes c (take (unat n) es)),
           sc_Time = when - when mod second, sc_Encoded = checkpoint_json ck\<rparr> \<and>
    length (checkpoint_json ck) \<le> maxCheckpointBytes"
proof -
  from assms(5) obtain root where root: "Tree_Root c (tree_of c es) n = Inr root"
    by (auto simp: SignCheckpoint_ok_iff)
  then have "\<not> n > Tree_Size (tree_of c es)" by (auto simp: Tree_Root_def split: if_splits)
  then have le: "unat n \<le> length es"
    using Tree_Size_tree_of [OF assms(3)] by (simp add: word_less_nat_alt not_less)
  with root have eq: "root = mth c (leaf_hashes c (take (unat n) es))"
    using Tree_Root_tree_of [OF assms(3)] by simp
  then have "length root = 32" using assms(1) by (simp add: length_mth digests_leaf_hashes)
  from SignCheckpoint_verifies [OF assms(2,5) root this assms(4)] le eq show ?thesis
    by (auto simp: VerifyCheckpoint_ok_iff)
qed

theorem signed_checkpoint_roundtrip_witness:
  "\<exists>ck. SignCheckpoint sample_crypto ''log'' (tree_of sample_crypto [[7]]) 1 0 (replicate 64 9) = Inr ck \<and>
    VerifyCheckpoint sample_crypto ck ''log'' (ed_public sample_crypto (replicate 64 9)) =
      Inr \<lparr>sc_Origin = ''log'', sc_Size = 1, sc_Root = HashLeaf sample_crypto [7], sc_Time = 0,
           sc_Encoded = checkpoint_json ck\<rparr>"
proof -
  have "Tree_Root sample_crypto (tree_of sample_crypto [[7]]) 1 = Inr (HashLeaf sample_crypto [7])"
    using Tree_Root_tree_of [of "[[7]]" 1 sample_crypto] by simp
  then obtain ck where ck: "SignCheckpoint sample_crypto ''log'' (tree_of sample_crypto [[7]]) 1 0 (replicate 64 9) = Inr ck"
    by (simp add: SignCheckpoint_def maxOriginBytes_def privateKeySize_def Let_def)
  moreover have "time_valid (0 - 0 mod second)"
    by (simp add: time_valid_def year_start_def second_def)
  ultimately show ?thesis
    using signed_checkpoint_roundtrip [of sample_crypto "[[7]]" 0 "''log''" 1 "replicate 64 9" ck] by simp
qed

text \<open>
  C6: A cosigned head has the threshold of different signers. If a policy was accepted and its
  \<^verbatim>\<open>Verify\<close> passes, there are at least as many different pinned keys as the threshold, each of
  which verifies a cosignature of the checkpoint over this origin, size, root and time. Neither a
  witness listed twice nor one key under two names can be counted twice.
\<close>

theorem cosigned_by_threshold:
  assumes "NewWitnessPolicy threshold keys = Inr p" and "WitnessPolicy_Verify c (Some p) ck root = Inr ()"
  shows "\<exists>K. K \<subseteq> snd ` set keys \<and> 1 \<le> threshold \<and> threshold \<le> int (card K) \<and>
    (\<forall>key \<in> K. \<exists>co signature. co \<in> set (ck_Cosignatures ck) \<and> (co_Witness co, key) \<in> set keys \<and>
       decodeBase64 signatureSize (co_Signature co) = Some signature \<and>
       ed_verify c key (WitnessSigningMessage (co_Witness co) (ck_Origin ck) (ck_Size ck) root (ck_Time ck)) signature)"
proof -
  from assms(1) have p: "wp_threshold p = threshold" "wp_keys p = keys" "policy_ok p"
    by (auto simp: NewWitnessPolicy_iff)
  then have "1 \<le> threshold" by (simp add: policy_ok_def)
  with policy_quorum [OF p(3) assms(2)] show ?thesis unfolding p(1,2) by blast
qed

theorem cosigned_by_threshold_witness:
  "\<exists>p ck. NewWitnessPolicy 1 [(''w'', replicate 32 9)] = Inr p \<and>
     WitnessPolicy_Verify sample_crypto (Some p) ck [] = Inr () \<and>
     (\<exists>K. K \<subseteq> {replicate 32 9} \<and> 1 \<le> card K)"
proof -
  let ?keys = "[(''w'', replicate 32 9 :: bytes)]"
  let ?p = "\<lparr>wp_threshold = 1, wp_keys = ?keys\<rparr>"
  let ?sig = "ed_sign sample_crypto (replicate 64 9) (WitnessSigningMessage ''w'' ''log'' 0 [] ''t'')"
  let ?ck = "\<lparr>ck_Version = [], ck_Origin = ''log'', ck_Size = 0, ck_Root = [], ck_Time = ''t'', ck_Signature = [],
    ck_Cosignatures = [\<lparr>co_Witness = ''w'', co_Signature = b64_EncodeToString ?sig\<rparr>]\<rparr>"
  have pol: "NewWitnessPolicy 1 ?keys = Inr ?p"
    by (simp add: NewWitnessPolicy_iff policy_ok_def maxCosignatures_def maxWitnessNameBytes_def publicKeySize_def)
  have "length ?sig = signatureSize \<and> ed_verify sample_crypto (replicate 32 9) (WitnessSigningMessage ''w'' ''log'' 0 [] ''t'') ?sig"
    by (simp add: sample_crypto_def sample_hash_def signatureSize_def)
  then have ver: "WitnessPolicy_Verify sample_crypto (Some ?p) ?ck [] = Inr ()"
    by (simp add: WitnessPolicy_Verify_def b64_roundtrip maxCosignatures_def)
  from cosigned_by_threshold [OF pol ver] have "\<exists>K. K \<subseteq> {replicate 32 9} \<and> 1 \<le> card K" by auto
  with pol ver show ?thesis by blast
qed

end
