(* ===== verification/Monitor.thy ===== *)
theory Monitor
  imports Checkpoint
begin

text \<open>
  The two sides of the transparency log, \<^verbatim>\<open>site/transparency/monitor.go\<close>: the reader's
  \<^verbatim>\<open>Monitor\<close>, which moves from one verified head to the next and never back, and the publisher's
  \<^verbatim>\<open>Log\<close>. An update returns the new state and the outcome; the outer option is the return of
  the consistency verifier's loop, which is shown to return always. The invariant ties the held head,
  the remembered heads and the eviction order together and says that every remembered head verified.
\<close>

section \<open>Split views\<close>

record split_view =
  sv_Origin :: string
  sv_Size :: u64
  sv_First :: checkpoint
  sv_Second :: checkpoint

datatype monitor_error =
    SplitView split_view | CheckpointErr checkpoint_error | FutureDated | PolicyErr policy_error
  | LogShrank | DatedBefore | ProofRange | ConsistencyErr tree_error | FirstProofRange
  | NeverVerified | StaleHead | OtherHead | InclusionErr tree_error
  | NoMonitorOrigin | MonitorKeySize | NoFreshness | MonitorNeedsPolicy

datatype split_error = NoProof | FirstBad checkpoint_error | SecondBad checkpoint_error | SplitSize | SameRoot

definition VerifySplitView :: "crypto \<Rightarrow> split_view option \<Rightarrow> bytes \<Rightarrow> split_error + unit" where
  "VerifySplitView c evidence logKey =
     (case evidence of
        None \<Rightarrow> Inl NoProof
      | Some p \<Rightarrow>
          (case VerifyCheckpoint c (sv_First p) (sv_Origin p) logKey of
             Inl e \<Rightarrow> Inl (FirstBad e)
           | Inr first \<Rightarrow>
               (case VerifyCheckpoint c (sv_Second p) (sv_Origin p) logKey of
                  Inl e \<Rightarrow> Inl (SecondBad e)
                | Inr snd_head \<Rightarrow>
                    if sc_Size first \<noteq> sv_Size p \<or> sc_Size snd_head \<noteq> sv_Size p then Inl SplitSize
                    else if sc_Root first = sc_Root snd_head then Inl SameRoot
                    else Inr ())))"

section \<open>The reader\<close>

definition maxClockSkew :: duration where "maxClockSkew = 5 * minute"
definition maxRememberedHeads :: nat where "maxRememberedHeads = 128"

record monitor =
  mo_origin :: string
  mo_logKey :: bytes
  mo_freshness :: duration
  mo_latest :: "signed_checkpoint option"
  mo_heads :: "u64 \<rightharpoonup> checkpoint"
  mo_order :: "u64 list"
  mo_policy :: "witness_policy option"
  mo_split :: "split_view option"

definition NewMonitor :: "string \<Rightarrow> bytes \<Rightarrow> duration \<Rightarrow> monitor_error + monitor" where
  "NewMonitor origin logKey freshness =
     (if origin = [] then Inl NoMonitorOrigin
      else if length logKey \<noteq> publicKeySize then Inl MonitorKeySize
      else if freshness \<le> 0 then Inl NoFreshness
      else Inr \<lparr>mo_origin = origin, mo_logKey = logKey, mo_freshness = freshness, mo_latest = None,
                 mo_heads = Map.empty, mo_order = [], mo_policy = None, mo_split = None\<rparr>)"

definition NewCosignedMonitor ::
    "string \<Rightarrow> bytes \<Rightarrow> duration \<Rightarrow> witness_policy option \<Rightarrow> monitor_error + monitor" where
  "NewCosignedMonitor origin logKey freshness policy =
     (if policy = None then Inl MonitorNeedsPolicy
      else case NewMonitor origin logKey freshness of
             Inl e \<Rightarrow> Inl e
           | Inr m \<Rightarrow> Inr (m\<lparr>mo_policy := policy\<rparr>))"

definition Monitor_Equivocating :: "monitor \<Rightarrow> split_view option \<times> bool" where
  "Monitor_Equivocating m = (mo_split m, mo_split m \<noteq> None)"

definition Monitor_Head :: "monitor \<Rightarrow> signed_checkpoint option" where
  "Monitor_Head m = mo_latest m"

definition Monitor_Fresh :: "monitor \<Rightarrow> instant \<Rightarrow> bool" where
  "Monitor_Fresh m now =
     (case mo_latest m of None \<Rightarrow> False | Some sc \<Rightarrow> \<not> now > sc_Time sc + mo_freshness m)"

function evictHeads :: "(u64 \<rightharpoonup> checkpoint) \<Rightarrow> u64 list \<Rightarrow> (u64 \<rightharpoonup> checkpoint) \<times> u64 list" where
  "evictHeads heads order =
     (if length order > maxRememberedHeads then evictHeads (heads(hd order := None)) (tl order)
      else (heads, order))"
  by pat_completeness auto
termination
  by (relation "measure (\<lambda>(h, ord). length ord)") auto

declare evictHeads.simps [simp del]

definition Monitor_remember :: "monitor \<Rightarrow> u64 \<Rightarrow> checkpoint \<Rightarrow> monitor" where
  "Monitor_remember m n ck =
     (let order = (if mo_heads m n = None then mo_order m @ [n] else mo_order m);
          (heads, order) = evictHeads ((mo_heads m)(n \<mapsto> ck)) order
      in m\<lparr>mo_heads := heads, mo_order := order\<rparr>)"

text \<open>
  The checks of an update against the held head: the log did not shrink, the date did not go
  back, the proof runs between exactly these two sizes and verifies.
\<close>

definition checkAppend ::
    "crypto \<Rightarrow> monitor \<Rightarrow> signed_checkpoint \<Rightarrow> consistency_proof \<Rightarrow> (monitor_error + unit) option" where
  "checkAppend c m verified proof =
     (case mo_latest m of
        Some latest \<Rightarrow>
          if sc_Size verified < sc_Size latest then Some (Inl LogShrank)
          else if sc_Time verified < sc_Time latest then Some (Inl DatedBefore)
          else if cp_old proof \<noteq> sc_Size latest \<or> cp_new proof \<noteq> sc_Size verified then Some (Inl ProofRange)
          else map_option (map_sum ConsistencyErr id)
                 (VerifyConsistency c proof (sc_Root latest) (sc_Root verified))
      | None \<Rightarrow>
          if cp_old proof \<noteq> 0 \<or> cp_new proof \<noteq> sc_Size verified then Some (Inl FirstProofRange)
          else Some (Inr ()))"

definition Monitor_Update ::
    "crypto \<Rightarrow> monitor \<Rightarrow> checkpoint \<Rightarrow> consistency_proof \<Rightarrow> instant \<Rightarrow>
      (monitor \<times> (monitor_error + unit)) option" where
  "Monitor_Update c m ck proof now =
     (case mo_split m of Some sv \<Rightarrow> Some (m, Inl (SplitView sv)) | None \<Rightarrow>
      case VerifyCheckpoint c ck (mo_origin m) (mo_logKey m) of
        Inl e \<Rightarrow> Some (m, Inl (CheckpointErr e))
      | Inr verified \<Rightarrow>
          if sc_Time verified > now + maxClockSkew then Some (m, Inl FutureDated)
          else case (case mo_heads m (sc_Size verified) of
                       Some previous \<Rightarrow>
                         if ck_Root previous \<noteq> ck_Root ck
                         then Some \<lparr>sv_Origin = mo_origin m, sv_Size = sc_Size verified,
                                    sv_First = previous, sv_Second = ck\<rparr>
                         else None
                     | None \<Rightarrow> None) of
            Some sv \<Rightarrow> Some (m\<lparr>mo_split := Some sv\<rparr>, Inl (SplitView sv))
          | None \<Rightarrow>
              (case (case mo_policy m of
                       Some p \<Rightarrow> WitnessPolicy_Verify c (Some p) ck (sc_Root verified)
                     | None \<Rightarrow> Inr ()) of
                 Inl e \<Rightarrow> Some (m, Inl (PolicyErr e))
               | Inr _ \<Rightarrow>
                   map_option (\<lambda>checked.
                     case checked of
                       Inl e \<Rightarrow> (m, Inl e)
                     | Inr _ \<Rightarrow>
                         ((Monitor_remember m (sc_Size verified) ck)\<lparr>mo_latest := Some verified\<rparr>, Inr ()))
                   (checkAppend c m verified proof)))"

definition Monitor_Accept ::
    "crypto \<Rightarrow> monitor \<Rightarrow> bytes \<Rightarrow> inclusion_proof \<Rightarrow> instant \<Rightarrow> monitor_error + unit" where
  "Monitor_Accept c m entry proof now =
     (case mo_split m of Some sv \<Rightarrow> Inl (SplitView sv) | None \<Rightarrow>
      case mo_latest m of None \<Rightarrow> Inl NeverVerified | Some latest \<Rightarrow>
      if \<not> Monitor_Fresh m now then Inl StaleHead
      else if ip_size proof \<noteq> sc_Size latest then Inl OtherHead
      else map_sum InclusionErr id (VerifyInclusion c proof entry (sc_Root latest)))"

section \<open>The publisher\<close>

record log =
  lg_origin :: string
  lg_private :: bytes
  lg_tree :: tree
  lg_entries :: "bytes list"
  lg_index :: "bytes \<rightharpoonup> u64"

definition NewLog :: "string \<Rightarrow> bytes \<Rightarrow> checkpoint_error + log" where
  "NewLog origin private =
     (if origin = [] then Inl NoOrigin
      else if length origin > maxOriginBytes then Inl OriginTooLong
      else if length private \<noteq> privateKeySize then Inl BadPrivateKey
      else Inr \<lparr>lg_origin = origin, lg_private = private, lg_tree = \<lparr>leaves = []\<rparr>, lg_entries = [],
                 lg_index = Map.empty\<rparr>)"

definition Log_Size :: "log \<Rightarrow> u64" where
  "Log_Size l = Tree_Size (lg_tree l)"

definition Log_Append :: "crypto \<Rightarrow> log \<Rightarrow> bytes \<Rightarrow> log \<times> u64" where
  "Log_Append c l entry =
     (case lg_index l entry of
        Some at \<Rightarrow> (l, at)
      | None \<Rightarrow>
          let (t, at) = Tree_Append c (lg_tree l) entry in
          (l\<lparr>lg_entries := lg_entries l @ [entry], lg_tree := t, lg_index := (lg_index l)(entry \<mapsto> at)\<rparr>, at))"

definition Log_CheckpointAt :: "crypto \<Rightarrow> log \<Rightarrow> u64 \<Rightarrow> instant \<Rightarrow> checkpoint_error + checkpoint" where
  "Log_CheckpointAt c l n now = SignCheckpoint c (lg_origin l) (lg_tree l) n now (lg_private l)"

definition Log_Checkpoint :: "crypto \<Rightarrow> log \<Rightarrow> instant \<Rightarrow> checkpoint_error + checkpoint" where
  "Log_Checkpoint c l now =
     SignCheckpoint c (lg_origin l) (lg_tree l) (Tree_Size (lg_tree l)) now (lg_private l)"

definition Log_ProveInclusion :: "crypto \<Rightarrow> log \<Rightarrow> bytes \<Rightarrow> u64 \<Rightarrow> tree_error option + inclusion_proof" where
  "Log_ProveInclusion c l entry n =
     (case lg_index l entry of
        None \<Rightarrow> Inl None
      | Some at \<Rightarrow> map_sum Some id (ProveInclusion c (lg_tree l) at n))"

definition Log_ProveConsistency ::
    "crypto \<Rightarrow> log \<Rightarrow> u64 \<Rightarrow> u64 \<Rightarrow> (tree_error + consistency_proof) option" where
  "Log_ProveConsistency c l old new = ProveConsistency c (lg_tree l) old new"

section \<open>The reader's invariant\<close>

text \<open>
  \<open>head_ok\<close>: a remembered checkpoint verified at its size and met the policy. \<open>monitor_inv\<close>:
  the eviction order lists the remembered sizes, oldest and smallest first, within the bound; the held
  head is the last of them; recorded evidence verifies.
\<close>

definition head_ok :: "crypto \<Rightarrow> monitor \<Rightarrow> u64 \<Rightarrow> checkpoint \<Rightarrow> bool" where
  "head_ok c m n ck \<longleftrightarrow>
     (\<exists>sc. VerifyCheckpoint c ck (mo_origin m) (mo_logKey m) = Inr sc \<and> sc_Size sc = n \<and>
        (mo_policy m \<noteq> None \<longrightarrow> WitnessPolicy_Verify c (mo_policy m) ck (sc_Root sc) = Inr ()))"

definition held_head :: "crypto \<Rightarrow> monitor \<Rightarrow> signed_checkpoint \<Rightarrow> bool" where
  "held_head c m sc \<longleftrightarrow> mo_order m \<noteq> [] \<and> last (mo_order m) = sc_Size sc \<and>
     (\<exists>ck. mo_heads m (sc_Size sc) = Some ck \<and> VerifyCheckpoint c ck (mo_origin m) (mo_logKey m) = Inr sc)"

definition monitor_inv :: "crypto \<Rightarrow> monitor \<Rightarrow> bool" where
  "monitor_inv c m \<longleftrightarrow>
     sorted_wrt (<) (mo_order m) \<and> set (mo_order m) = dom (mo_heads m) \<and>
     length (mo_order m) \<le> maxRememberedHeads \<and>
     (\<forall>n ck. mo_heads m n = Some ck \<longrightarrow> head_ok c m n ck) \<and>
     (case mo_latest m of None \<Rightarrow> mo_order m = [] | Some sc \<Rightarrow> held_head c m sc) \<and>
     (mo_split m \<noteq> None \<longrightarrow> VerifySplitView c (mo_split m) (mo_logKey m) = Inr ())"

lemma NewMonitor_inv: "NewMonitor origin key fresh = Inr m \<Longrightarrow> monitor_inv c m"
  by (auto simp: NewMonitor_def monitor_inv_def split: if_splits)

lemma NewCosignedMonitor_inv: "NewCosignedMonitor origin key fresh policy = Inr m \<Longrightarrow> monitor_inv c m"
  by (auto simp: NewCosignedMonitor_def NewMonitor_def monitor_inv_def split: if_splits)

lemma checkAppend_returns: "\<exists>r. checkAppend c m verified proof = Some r"
  using VerifyConsistency_returns [of c "proof" _ "sc_Root verified"]
  by (fastforce simp: checkAppend_def split: option.splits)

lemma Monitor_Update_returns: "\<exists>m' r. Monitor_Update c m ck proof now = Some (m', r)"
proof -
  have "checkAppend c m verified proof \<noteq> None" for verified
    using checkAppend_returns [of c m verified "proof"] by simp
  then have "Monitor_Update c m ck proof now = None \<Longrightarrow> False"
    by (auto simp del: not_None_eq simp add: Monitor_Update_def split: option.splits sum.splits if_splits)
  then show ?thesis by (cases "Monitor_Update c m ck proof now") auto
qed

text \<open>The three ways an update can end.\<close>

definition accepts ::
    "crypto \<Rightarrow> monitor \<Rightarrow> checkpoint \<Rightarrow> consistency_proof \<Rightarrow> instant \<Rightarrow> signed_checkpoint \<Rightarrow> bool" where
  "accepts c m ck proof now verified \<longleftrightarrow> mo_split m = None \<and>
     VerifyCheckpoint c ck (mo_origin m) (mo_logKey m) = Inr verified \<and>
     sc_Time verified \<le> now + maxClockSkew \<and>
     (\<forall>previous. mo_heads m (sc_Size verified) = Some previous \<longrightarrow> ck_Root previous = ck_Root ck) \<and>
     (mo_policy m \<noteq> None \<longrightarrow> WitnessPolicy_Verify c (mo_policy m) ck (sc_Root verified) = Inr ()) \<and>
     checkAppend c m verified proof = Some (Inr ())"

definition splits ::
    "crypto \<Rightarrow> monitor \<Rightarrow> checkpoint \<Rightarrow> split_view \<Rightarrow> bool" where
  "splits c m ck sv \<longleftrightarrow> mo_split m = None \<and>
     (\<exists>verified previous. VerifyCheckpoint c ck (mo_origin m) (mo_logKey m) = Inr verified \<and>
        mo_heads m (sc_Size verified) = Some previous \<and> ck_Root previous \<noteq> ck_Root ck \<and>
        sv = \<lparr>sv_Origin = mo_origin m, sv_Size = sc_Size verified, sv_First = previous, sv_Second = ck\<rparr>)"

lemma Monitor_Update_ok_iff:
  "Monitor_Update c m ck proof now = Some (m', Inr ()) \<longleftrightarrow>
     (\<exists>verified. accepts c m ck proof now verified \<and>
        m' = (Monitor_remember m (sc_Size verified) ck)\<lparr>mo_latest := Some verified\<rparr>)"
  unfolding Monitor_Update_def accepts_def
  by (auto split: option.splits sum.splits if_splits)

lemma Monitor_Update_error:
  assumes "Monitor_Update c m ck proof now = Some (m', Inl e)"
  shows "m' = m \<or> (\<exists>sv. splits c m ck sv \<and> e = SplitView sv \<and> m' = m\<lparr>mo_split := Some sv\<rparr>)"
  using assms unfolding Monitor_Update_def splits_def
  by (auto simp: unit_result_neq split: option.splits sum.splits if_splits)

lemma evictHeads_small: "length order \<le> maxRememberedHeads \<Longrightarrow> evictHeads heads order = (heads, order)"
  by (simp add: evictHeads.simps)

lemma evictHeads_one:
  "length order = Suc maxRememberedHeads \<Longrightarrow> evictHeads heads order = (heads(hd order := None), tl order)"
  by (simp add: evictHeads.simps [of heads order] evictHeads_small)

lemma remember_fields:
  "mo_origin (Monitor_remember m n ck) = mo_origin m" "mo_logKey (Monitor_remember m n ck) = mo_logKey m"
  "mo_freshness (Monitor_remember m n ck) = mo_freshness m" "mo_policy (Monitor_remember m n ck) = mo_policy m"
  "mo_split (Monitor_remember m n ck) = mo_split m" "mo_latest (Monitor_remember m n ck) = mo_latest m"
  by (simp_all add: Monitor_remember_def Let_def split: prod.splits)

text \<open>What remembering does to the two structures, for a size that is new or already the newest.\<close>

lemma remember_known:
  "mo_heads m n = Some old \<Longrightarrow> length (mo_order m) \<le> maxRememberedHeads \<Longrightarrow>
     mo_heads (Monitor_remember m n ck) = (mo_heads m)(n \<mapsto> ck) \<and>
     mo_order (Monitor_remember m n ck) = mo_order m"
  by (simp add: Monitor_remember_def evictHeads_small)

lemma remember_new:
  assumes "mo_heads m n = None" and "length (mo_order m) \<le> maxRememberedHeads"
  shows "mo_order (Monitor_remember m n ck) =
      (if length (mo_order m) < maxRememberedHeads then mo_order m @ [n] else tl (mo_order m) @ [n]) \<and>
    mo_heads (Monitor_remember m n ck) =
      (if length (mo_order m) < maxRememberedHeads then (mo_heads m)(n \<mapsto> ck)
       else ((mo_heads m)(n \<mapsto> ck))(hd (mo_order m) := None))"
proof (cases "length (mo_order m) < maxRememberedHeads")
  case True
  with assms show ?thesis by (simp add: Monitor_remember_def evictHeads_small)
next
  case False
  with assms have "length (mo_order m) = maxRememberedHeads" by simp
  moreover from this have "mo_order m \<noteq> []" by (auto simp: maxRememberedHeads_def)
  ultimately show ?thesis using assms(1) by (simp add: Monitor_remember_def evictHeads_one)
qed

text \<open>The part of the invariant about the eviction order.\<close>

definition order_ok :: "(u64 \<rightharpoonup> checkpoint) \<Rightarrow> u64 list \<Rightarrow> bool" where
  "order_ok heads order \<longleftrightarrow> sorted_wrt (<) order \<and> set order = dom heads \<and> length order \<le> maxRememberedHeads"

lemma order_ok_new:
  assumes "order_ok heads order" and "\<forall>k \<in> set order. k < n"
  shows "order_ok (if length order < maxRememberedHeads then heads(n \<mapsto> ck)
      else (heads(n \<mapsto> ck))(hd order := None))
    (if length order < maxRememberedHeads then order @ [n] else tl order @ [n])"
proof (cases "length order < maxRememberedHeads")
  case False
  then obtain k ks where o: "order = k # ks" by (cases order) (auto simp: maxRememberedHeads_def)
  then have "set ks = dom heads - {k}"
    using assms(1) by (auto simp: order_ok_def)
  moreover have "n \<noteq> k" using assms(2) o by auto
  ultimately show ?thesis
    using assms False o by (auto simp: order_ok_def sorted_wrt_append)
qed (use assms in \<open>auto simp: order_ok_def sorted_wrt_append\<close>)

lemma monitor_inv_alt:
  "monitor_inv c m \<longleftrightarrow> order_ok (mo_heads m) (mo_order m) \<and>
     (\<forall>n ck. mo_heads m n = Some ck \<longrightarrow> head_ok c m n ck) \<and>
     (case mo_latest m of None \<Rightarrow> mo_order m = [] | Some sc \<Rightarrow> held_head c m sc) \<and>
     (mo_split m \<noteq> None \<longrightarrow> VerifySplitView c (mo_split m) (mo_logKey m) = Inr ())"
  by (auto simp: monitor_inv_def order_ok_def)

text \<open>An accepted size is either the held one or larger than every remembered one.\<close>

lemma accepted_size:
  assumes "monitor_inv c m" and "accepts c m ck proof now verified"
  shows "(\<exists>old. mo_heads m (sc_Size verified) = Some old \<and> last (mo_order m) = sc_Size verified \<and> mo_order m \<noteq> []) \<or>
    (mo_heads m (sc_Size verified) = None \<and> (\<forall>k \<in> set (mo_order m). k < sc_Size verified))"
proof (cases "mo_latest m")
  case None
  with assms(1) have o: "mo_order m = []" by (simp add: monitor_inv_def)
  have d: "set (mo_order m) = dom (mo_heads m)" using assms(1) unfolding monitor_inv_def by blast
  from o have "sc_Size verified \<notin> dom (mo_heads m)" unfolding d [symmetric] by simp
  with o show ?thesis by auto
next
  case (Some sc)
  with assms(1) have h: "mo_order m \<noteq> []" "last (mo_order m) = sc_Size sc" "mo_heads m (sc_Size sc) \<noteq> None"
    by (auto simp: monitor_inv_def held_head_def)
  have le: "sc_Size sc \<le> sc_Size verified"
    using assms(2) Some by (auto simp: accepts_def checkAppend_def split: if_splits)
  have max: "k \<le> sc_Size sc" if "k \<in> set (mo_order m)" for k
  proof -
    have "sorted_wrt (<) (butlast (mo_order m) @ [last (mo_order m)])"
      using assms(1) h(1) by (simp add: monitor_inv_def)
    with that h show ?thesis
      by (metis append_butlast_last_id in_set_conv_decomp_last less_imp_le list.set_intros(1)
          order_refl rotate1.simps(2) set_ConsD set_rotate1 sorted_wrt_append)
  qed
  show ?thesis
  proof (cases "sc_Size sc = sc_Size verified")
    case True
    with h show ?thesis by auto
  next
    case False
    with le have less: "sc_Size sc < sc_Size verified" by simp
    then have lt: "k < sc_Size verified" if "k \<in> set (mo_order m)" for k
      using max [OF that] by (rule le_less_trans [rotated])
    moreover have "sc_Size verified \<notin> dom (mo_heads m)"
      using lt assms(1) by (metis monitor_inv_def less_irrefl)
    ultimately show ?thesis by auto
  qed
qed

lemma accepts_inv:
  assumes inv: "monitor_inv c m" and acc: "accepts c m ck proof now verified"
  shows "monitor_inv c ((Monitor_remember m (sc_Size verified) ck)\<lparr>mo_latest := Some verified\<rparr>)"
    (is "monitor_inv c ?m")
proof -
  let ?n = "sc_Size verified"
  have small: "length (mo_order m) \<le> maxRememberedHeads" and ok: "order_ok (mo_heads m) (mo_order m)"
    using inv by (simp_all add: monitor_inv_alt order_ok_def)
  have v: "VerifyCheckpoint c ck (mo_origin m) (mo_logKey m) = Inr verified" "mo_split m = None"
    using acc by (simp_all add: accepts_def)
  have new_ok: "head_ok c m ?n ck" using acc by (auto simp: head_ok_def accepts_def)
  have same: "head_ok c ?m k x = head_ok c m k x" for k x
    by (simp add: head_ok_def remember_fields)
  have held: "held_head c ?m verified"
    if "mo_order ?m \<noteq> []" "last (mo_order ?m) = ?n" "mo_heads ?m ?n = Some ck"
    using that v by (simp add: held_head_def remember_fields)
  from accepted_size [OF inv acc] show ?thesis
  proof
    assume "\<exists>old. mo_heads m ?n = Some old \<and> last (mo_order m) = ?n \<and> mo_order m \<noteq> []"
    then obtain old where o: "mo_heads m ?n = Some old" "last (mo_order m) = ?n" "mo_order m \<noteq> []" by blast
    note r = remember_known [OF o(1) small, of ck]
    have "order_ok ((mo_heads m)(?n \<mapsto> ck)) (mo_order m)" using ok o(1) by (auto simp: order_ok_def)
    then show ?thesis
      using r o new_ok inv held v by (auto simp: monitor_inv_alt same remember_fields)
  next
    assume n: "mo_heads m ?n = None \<and> (\<forall>k \<in> set (mo_order m). k < ?n)"
    note r = remember_new [of m ?n ck, OF _ small]
    have "order_ok (mo_heads ?m) (mo_order ?m)" using order_ok_new [OF ok] n r by simp
    moreover have "mo_heads ?m ?n = Some ck"
    proof (cases "length (mo_order m) < maxRememberedHeads")
      case False
      then have "mo_order m \<noteq> []" by (auto simp: maxRememberedHeads_def)
      then have "hd (mo_order m) \<in> set (mo_order m)" by simp
      with n have "hd (mo_order m) \<noteq> ?n" by auto
      with n r False show ?thesis by simp
    qed (use n r in simp)
    moreover have "mo_order ?m \<noteq> []" "last (mo_order ?m) = ?n" using n r by simp_all
    moreover have "head_ok c m k x" if "mo_heads ?m k = Some x" for k x
      using that r n new_ok inv by (auto simp: monitor_inv_alt split: if_splits)
    ultimately show ?thesis
      using held v by (simp add: monitor_inv_alt same remember_fields)
  qed
qed

lemma splits_verify:
  assumes "monitor_inv c m" and "splits c m ck sv"
  shows "VerifySplitView c (Some sv) (mo_logKey m) = Inr ()"
proof -
  from assms(2) obtain verified previous where
    v: "VerifyCheckpoint c ck (mo_origin m) (mo_logKey m) = Inr verified"
    and p: "mo_heads m (sc_Size verified) = Some previous" "ck_Root previous \<noteq> ck_Root ck"
    and sv: "sv = \<lparr>sv_Origin = mo_origin m, sv_Size = sc_Size verified, sv_First = previous, sv_Second = ck\<rparr>"
    by (auto simp: splits_def)
  from p(1) assms(1) obtain first where
    f: "VerifyCheckpoint c previous (mo_origin m) (mo_logKey m) = Inr first" "sc_Size first = sc_Size verified"
    unfolding monitor_inv_def head_ok_def by metis
  have "sc_Root first \<noteq> sc_Root verified"
    using VerifyCheckpoint_root [OF v] VerifyCheckpoint_root [OF f(1)] p(2) by auto
  with v f show ?thesis by (simp add: VerifySplitView_def sv)
qed

text \<open>One update as a step of a machine, and the invariant for every run.\<close>

type_synonym update = "checkpoint \<times> consistency_proof \<times> instant"

definition Monitor_step :: "crypto \<Rightarrow> monitor \<Rightarrow> update \<Rightarrow> monitor" where
  "Monitor_step c m u = (case u of (ck, proof, now) \<Rightarrow> fst (the (Monitor_Update c m ck proof now)))"

lemma Monitor_step_cases:
  obtains (accepted) verified where "accepts c m (fst u) (fst (snd u)) (snd (snd u)) verified"
      "Monitor_step c m u = (Monitor_remember m (sc_Size verified) (fst u))\<lparr>mo_latest := Some verified\<rparr>"
      "Monitor_Update c m (fst u) (fst (snd u)) (snd (snd u)) = Some (Monitor_step c m u, Inr ())"
  | (refused) e where "Monitor_step c m u = m"
      "Monitor_Update c m (fst u) (fst (snd u)) (snd (snd u)) = Some (m, Inl e)"
  | (split) sv where "splits c m (fst u) sv" "Monitor_step c m u = m\<lparr>mo_split := Some sv\<rparr>"
      "Monitor_Update c m (fst u) (fst (snd u)) (snd (snd u)) = Some (Monitor_step c m u, Inl (SplitView sv))"
proof -
  obtain ck p now where u: "u = (ck, p, now)" by (cases u)
  obtain m' r where r: "Monitor_Update c m ck p now = Some (m', r)" using Monitor_Update_returns by blast
  then have step: "Monitor_step c m u = m'" by (simp add: Monitor_step_def u)
  show thesis
  proof (cases r)
    case (Inl e)
    with r Monitor_Update_error [of c m ck p now m' e] show thesis
      using refused [of e] split step u by auto
  next
    case (Inr x)
    with r Monitor_Update_ok_iff [of c m ck p now m'] show thesis
      using accepted step u by auto
  qed
qed

lemma Monitor_step_inv: "monitor_inv c m \<Longrightarrow> monitor_inv c (Monitor_step c m u)"
proof (cases rule: Monitor_step_cases [of c m u])
  case (accepted verified)
  assume "monitor_inv c m"
  with accepts_inv [OF this accepted(1)] accepted(2) show ?thesis by simp
next
  case (split sv)
  assume inv: "monitor_inv c m"
  from splits_verify [OF inv split(1)] inv split(2) show ?thesis
    by (auto simp: monitor_inv_def head_ok_def held_head_def split: option.splits)
qed simp

section \<open>The reader never goes back\<close>

definition not_before :: "monitor \<Rightarrow> monitor \<Rightarrow> bool" where
  "not_before m m' \<longleftrightarrow>
     mo_origin m' = mo_origin m \<and> mo_logKey m' = mo_logKey m \<and> mo_policy m' = mo_policy m \<and>
     (\<forall>sv. mo_split m = Some sv \<longrightarrow> mo_split m' = Some sv) \<and>
     (\<forall>sc. mo_latest m = Some sc \<longrightarrow>
        (\<exists>sc'. mo_latest m' = Some sc' \<and> sc_Size sc \<le> sc_Size sc' \<and> sc_Time sc \<le> sc_Time sc'))"

lemma accepts_not_before:
  "accepts c m ck p now v \<Longrightarrow>
     not_before m ((Monitor_remember m (sc_Size v) ck)\<lparr>mo_latest := Some v\<rparr>)"
  by (auto simp: not_before_def accepts_def remember_fields checkAppend_def split: option.splits if_splits)

interpretation reader: ordered_machine "Monitor_step c" "monitor_inv c" not_before for c
proof unfold_locales
  show "monitor_inv c m \<Longrightarrow> monitor_inv c (Monitor_step c m u)" for c m u
    by (rule Monitor_step_inv)
  show "not_before m m" for m by (auto simp: not_before_def)
  show "not_before m m' \<Longrightarrow> not_before m' m'' \<Longrightarrow> not_before m m''" for m m' m''
    by (fastforce simp: not_before_def)
  show "monitor_inv c m \<Longrightarrow> not_before m (Monitor_step c m u)" for c m u
  proof (cases rule: Monitor_step_cases [of c m u])
    case (accepted verified)
    then show ?thesis using accepts_not_before by simp
  qed (auto simp: not_before_def splits_def)
qed

lemma Monitor_step_split: "mo_split m = Some sv \<Longrightarrow> Monitor_step c m u = m"
  by (simp add: Monitor_step_def Monitor_Update_def split: prod.split)

interpretation equivocated: absorbing_machine "Monitor_step c" "\<lambda>m. mo_split m \<noteq> None" for c
  by unfold_locales (auto intro: Monitor_step_split)

section \<open>Every accepted head is a prefix of the last one\<close>

text \<open>
  The messages hashed by the tree heads of the prefixes of a log and by the consistency proofs
  of a run: where a collision would have to be.
\<close>

definition prefix_msgs :: "crypto \<Rightarrow> bytes list \<Rightarrow> bytes list" where
  "prefix_msgs c ls = concat (map (\<lambda>n. node_msgs c (take n ls)) [0..<Suc (length ls)])"

fun run_msgs :: "crypto \<Rightarrow> monitor \<Rightarrow> update list \<Rightarrow> bytes list" where
  "run_msgs c m [] = []"
| "run_msgs c m ((ck, p, now) # us) =
     (case mo_latest m of None \<Rightarrow> [] | Some sc \<Rightarrow> consistency_msgs c p (sc_Root sc)) @
     run_msgs c (Monitor_step c m (ck, p, now)) us"

lemma node_msgs_prefix: "n \<le> length ls \<Longrightarrow> set (node_msgs c (take n ls)) \<subseteq> set (prefix_msgs c ls)"
  unfolding prefix_msgs_def by (fastforce simp del: upt_Suc)

lemma accepted_step_prefix:
  assumes "hash_ok c" and "\<not> collides (sha256 c) ms" and "monitor_inv c m"
    and "accepts c m ck p now v" and "mo_latest m = Some sc"
    and "sc_Root v = rootOf c (take (unat (sc_Size v)) ls)" and "unat (sc_Size v) \<le> length ls"
    and "digests ls" and "digests (cp_path p)"
    and "set (prefix_msgs c ls) \<subseteq> set ms" and "set (consistency_msgs c p (sc_Root sc)) \<subseteq> set ms"
  shows "unat (sc_Size sc) \<le> unat (sc_Size v) \<and> sc_Root sc = rootOf c (take (unat (sc_Size sc)) ls)"
proof -
  from assms(4,5) have p: "cp_old p = sc_Size sc" "cp_new p = sc_Size v"
    and ok: "VerifyConsistency c p (sc_Root sc) (sc_Root v) = Some (Inr ())"
    by (auto simp: accepts_def checkAppend_def map_sum_def split: if_splits option.splits sum.splits)
  have len: "length (sc_Root sc) = 32"
    using assms(3,5) VerifyCheckpoint_root by (auto simp: monitor_inv_def held_head_def)
  have "cp_old p \<le> cp_new p \<and> sc_Root sc = rootOf c (take (unat (cp_old p)) (take (unat (sc_Size v)) ls))"
  proof (rule VerifyConsistency_sound [OF assms(1,2) _ _ _ assms(9) len _ assms(11)])
    show "VerifyConsistency c p (sc_Root sc) (rootOf c (take (unat (sc_Size v)) ls)) = Some (Inr ())"
      using ok assms(6) by simp
    show "set (node_msgs c (take (unat (sc_Size v)) ls)) \<subseteq> set ms"
      using node_msgs_prefix [OF assms(7)] assms(10) by (rule order_trans)
  qed (use assms(7,8) p in simp_all)
  then show ?thesis using p by (auto simp: word_le_nat_alt min_absorb1)
qed

lemma run_prefix:
  assumes "hash_ok c" and "\<not> collides (sha256 c) ms" and "digests ls" and "set (prefix_msgs c ls) \<subseteq> set ms"
  shows "\<lbrakk>monitor_inv c m; mo_latest m = Some sc; mo_latest (run_ops (Monitor_step c) m us) = Some final;
      sc_Root final = rootOf c ls; length ls = unat (sc_Size final);
      \<forall>(ck, p, now) \<in> set us. digests (cp_path p); set (run_msgs c m us) \<subseteq> set ms\<rbrakk> \<Longrightarrow>
    unat (sc_Size sc) \<le> length ls \<and> sc_Root sc = rootOf c (take (unat (sc_Size sc)) ls)"
proof (induction us arbitrary: m sc)
  case Nil
  then show ?case by simp
next
  case (Cons u us)
  obtain ck p now where u: "u = (ck, p, now)" by (cases u)
  let ?m = "Monitor_step c m u"
  have inv: "monitor_inv c ?m" using Cons.prems(1) by (rule Monitor_step_inv)
  have msgs: "set (consistency_msgs c p (sc_Root sc)) \<subseteq> set ms" "set (run_msgs c ?m us) \<subseteq> set ms"
    using Cons.prems(2,7) by (simp_all add: u)
  have dig: "digests (cp_path p)" "\<forall>(ck, p, now) \<in> set us. digests (cp_path p)"
    using Cons.prems(6) by (simp_all add: u)
  have IH: "unat (sc_Size v) \<le> length ls \<and> sc_Root v = rootOf c (take (unat (sc_Size v)) ls)"
    if "mo_latest ?m = Some v" for v
    using Cons.prems(3-5) msgs(2) dig(2) by (intro Cons.IH [OF inv that]) simp_all
  show ?case
  proof (cases rule: Monitor_step_cases [of c m u])
    case (accepted v)
    then have v: "unat (sc_Size v) \<le> length ls" "sc_Root v = rootOf c (take (unat (sc_Size v)) ls)"
      using IH [of v] by simp_all
    have acc: "accepts c m ck p now v" using accepted(1) by (simp add: u)
    from accepted_step_prefix [OF assms(1,2) Cons.prems(1) acc Cons.prems(2) v(2,1) assms(3) dig(1) assms(4) msgs(1)]
      v(1) show ?thesis by (meson order_trans)
  next
    case (refused e)
    then show ?thesis using IH Cons.prems(2) by simp
  next
    case (split sv)
    then show ?thesis using IH Cons.prems(2) by simp
  qed
qed

section \<open>The publisher's log\<close>

definition log_inv :: "crypto \<Rightarrow> log \<Rightarrow> bool" where
  "log_inv c l \<longleftrightarrow> lg_tree l = tree_of c (lg_entries l) \<and> distinct (lg_entries l) \<and>
     (\<forall>e at. lg_index l e = Some at \<longleftrightarrow> (\<exists>i < length (lg_entries l). lg_entries l ! i = e \<and> at = of_nat i))"

lemma tree_of_snoc: "tree_of c (es @ [e]) = fst (Tree_Append c (tree_of c es) e)"
  by (simp add: tree_of_def)

lemma Tree_Append_index: "snd (Tree_Append c (tree_of c es) e) = of_nat (length es)"
  by (simp add: Tree_Append_def leaves_tree_of Let_def)

lemma NewLog_inv: "NewLog origin sk = Inr l \<Longrightarrow> log_inv c l"
  by (auto simp: NewLog_def log_inv_def tree_of_def split: if_splits)

lemma log_index_None: "log_inv c l \<Longrightarrow> lg_index l e = None \<longleftrightarrow> e \<notin> set (lg_entries l)"
  unfolding log_inv_def by (metis in_set_conv_nth not_None_eq)

lemma Log_Append_new:
  assumes "log_inv c l" and "e \<notin> set (lg_entries l)"
  shows "Log_Append c l e =
    (l\<lparr>lg_entries := lg_entries l @ [e], lg_tree := tree_of c (lg_entries l @ [e]),
       lg_index := (lg_index l)(e \<mapsto> of_nat (length (lg_entries l)))\<rparr>, of_nat (length (lg_entries l)))"
proof -
  have "Tree_Append c (lg_tree l) e = (tree_of c (lg_entries l @ [e]), of_nat (length (lg_entries l)))"
    using assms(1) by (simp add: log_inv_def tree_of_snoc prod_eq_iff Tree_Append_index)
  moreover have "lg_index l e = None" using assms by (simp add: log_index_None)
  ultimately show ?thesis by (simp add: Log_Append_def)
qed

lemma Log_Append_known:
  "log_inv c l \<Longrightarrow> i < length (lg_entries l) \<Longrightarrow> Log_Append c l (lg_entries l ! i) = (l, of_nat i)"
proof -
  assume "log_inv c l" "i < length (lg_entries l)"
  then have "lg_index l (lg_entries l ! i) = Some (of_nat i)" unfolding log_inv_def by blast
  then show ?thesis by (simp add: Log_Append_def)
qed

lemma log_inv_snoc:
  assumes "log_inv c l" and "e \<notin> set (lg_entries l)"
  shows "log_inv c (l\<lparr>lg_entries := lg_entries l @ [e], lg_tree := tree_of c (lg_entries l @ [e]),
    lg_index := (lg_index l)(e \<mapsto> of_nat (length (lg_entries l)))\<rparr>)"
proof -
  have ix: "((lg_index l)(e \<mapsto> of_nat (length (lg_entries l)))) x = Some at \<longleftrightarrow>
      (\<exists>i < Suc (length (lg_entries l)). (lg_entries l @ [e]) ! i = x \<and> at = of_nat i)" for x at
  proof (cases "x = e")
    case True
    have "(lg_entries l @ [e]) ! i = e \<longleftrightarrow> i = length (lg_entries l)" if "i < Suc (length (lg_entries l))" for i
    proof (cases "i = length (lg_entries l)")
      case False
      with that have "i < length (lg_entries l)" by simp
      with nth_mem [OF this] assms(2) show ?thesis by (auto simp: nth_append)
    qed simp
    then show ?thesis using True by auto
  next
    case False
    then show ?thesis using assms(1) by (auto simp: log_inv_def less_Suc_eq nth_append)
  qed
  have "distinct (lg_entries l @ [e])" using assms by (simp add: log_inv_def)
  moreover have "lg_entries (l\<lparr>lg_entries := es, lg_tree := t, lg_index := f\<rparr>) = es"
      "lg_tree (l\<lparr>lg_entries := es, lg_tree := t, lg_index := f\<rparr>) = t"
      "lg_index (l\<lparr>lg_entries := es, lg_tree := t, lg_index := f\<rparr>) = f" for es t f
    by simp_all
  ultimately show ?thesis unfolding log_inv_def using ix by (simp del: fun_upd_apply)
qed

lemma Log_Append_inv: "log_inv c l \<Longrightarrow> log_inv c (fst (Log_Append c l e))"
proof (cases "e \<in> set (lg_entries l)")
  case True
  assume "log_inv c l"
  moreover from True obtain i where "i < length (lg_entries l)" "lg_entries l ! i = e"
    by (auto simp: in_set_conv_nth)
  ultimately show ?thesis using Log_Append_known by fastforce
next
  case False
  assume "log_inv c l"
  with False show ?thesis by (simp add: Log_Append_new log_inv_snoc)
qed

interpretation publisher: invariant_machine "\<lambda>l e. fst (Log_Append c l e)" "log_inv c" for c
  by unfold_locales (rule Log_Append_inv)

section \<open>An honest log is followed\<close>

text \<open>A publisher that can sign, and a reader of it that has seen only its heads.\<close>

definition log_ready :: "crypto \<Rightarrow> log \<Rightarrow> bool" where
  "log_ready c l \<longleftrightarrow> log_inv c l \<and> lg_origin l \<noteq> [] \<and> length (lg_origin l) \<le> maxOriginBytes \<and>
     length (lg_private l) = privateKeySize"

definition honest_view :: "crypto \<Rightarrow> log \<Rightarrow> monitor \<Rightarrow> bool" where
  "honest_view c l m \<longleftrightarrow> monitor_inv c m \<and> mo_split m = None \<and> mo_policy m = None \<and>
     mo_origin m = lg_origin l \<and> mo_logKey m = ed_public c (lg_private l) \<and>
     (\<forall>n ck. mo_heads m n = Some ck \<longrightarrow> unat n \<le> length (lg_entries l) \<and>
        ck_Root ck = hex_EncodeToString (mth c (leaf_hashes c (take (unat n) (lg_entries l)))))"

definition held_size :: "monitor \<Rightarrow> u64" where
  "held_size m = (case mo_latest m of None \<Rightarrow> 0 | Some sc \<Rightarrow> sc_Size sc)"

lemma honest_latest:
  assumes "honest_view c l m" and "mo_latest m = Some sc"
  shows "unat (sc_Size sc) \<le> length (lg_entries l) \<and>
    sc_Root sc = mth c (leaf_hashes c (take (unat (sc_Size sc)) (lg_entries l)))"
proof -
  from assms obtain ck where "mo_heads m (sc_Size sc) = Some ck"
      and v: "VerifyCheckpoint c ck (mo_origin m) (mo_logKey m) = Inr sc"
    by (auto simp: honest_view_def monitor_inv_def held_head_def)
  with assms(1) VerifyCheckpoint_root [OF v] show ?thesis
    by (simp add: honest_view_def)
qed

lemma honest_view_append:
  assumes "honest_view c l m" and "log_inv c l"
  shows "honest_view c (fst (Log_Append c l e)) m"
proof (cases "e \<in> set (lg_entries l)")
  case True
  then obtain i where "i < length (lg_entries l)" "lg_entries l ! i = e" by (auto simp: in_set_conv_nth)
  with Log_Append_known [OF assms(2)] have "fst (Log_Append c l e) = l" by auto
  with assms(1) show ?thesis by simp
next
  case False
  from Log_Append_new [OF assms(2) False] assms(1) show ?thesis by (fastforce simp: honest_view_def)
qed

lemma remember_heads_subset: "mo_heads (Monitor_remember m n ck) k = Some x \<Longrightarrow> mo_heads m k = Some x \<or> k = n \<and> x = ck"
proof -
  have evict: "fst (evictHeads heads order) k = Some x \<Longrightarrow> heads k = Some x" for heads order
  proof (induction heads order rule: evictHeads.induct)
    case (1 heads order)
    show ?case
    proof (cases "length order > maxRememberedHeads")
      case True
      with 1(2) have "fst (evictHeads (heads(hd order := None)) (tl order)) k = Some x"
        by (simp only: evictHeads.simps [of heads order] if_True)
      from 1(1) [OF True this] show ?thesis by (auto split: if_splits)
    next
      case False
      with 1(2) show ?thesis by (simp add: evictHeads.simps [of heads order])
    qed
  qed
  assume "mo_heads (Monitor_remember m n ck) k = Some x"
  then have "\<exists>order. fst (evictHeads ((mo_heads m)(n \<mapsto> ck)) order) k = Some x"
    by (auto simp: Monitor_remember_def Let_def split_beta)
  then have "((mo_heads m)(n \<mapsto> ck)) k = Some x" using evict by blast
  then show ?thesis by (auto split: if_splits)
qed

lemma honest_update:
  assumes ok: "hash_ok c" "sign_ok c" and log: "log_ready c l" "go_sized (lg_entries l)"
    and view: "honest_view c l m" and n: "held_size m \<le> n" "unat n \<le> length (lg_entries l)"
    and time: "time_valid (now - now mod second)"
      "\<forall>sc. mo_latest m = Some sc \<longrightarrow> sc_Time sc \<le> now - now mod second"
  shows "\<exists>ck p m'. Log_CheckpointAt c l n now = Inr ck \<and> Log_ProveConsistency c l (held_size m) n = Some (Inr p) \<and>
    Monitor_Update c m ck p now = Some (m', Inr ()) \<and> honest_view c l m' \<and>
    mo_latest m' = Some \<lparr>sc_Origin = lg_origin l, sc_Size = n,
      sc_Root = mth c (leaf_hashes c (take (unat n) (lg_entries l))),
      sc_Time = now - now mod second, sc_Encoded = checkpoint_json ck\<rparr> \<and> mo_freshness m' = mo_freshness m"
proof -
  let ?es = "lg_entries l" and ?when = "now - now mod second"
  let ?t = "tree_of c ?es" and ?root = "\<lambda>k. mth c (leaf_hashes c (take (unat k) ?es))"
  have t: "lg_tree l = ?t" using log(1) by (simp add: log_ready_def log_inv_def)
  have root: "Tree_Root c ?t k = Inr (?root k)" if "unat k \<le> length ?es" for k
    using Tree_Root_tree_of [OF log(2) that] .
  obtain ck where ck: "Log_CheckpointAt c l n now = Inr ck" and ck_root: "ck_Root ck = hex_EncodeToString (?root n)"
    using log(1) root [OF n(2)] by (simp add: Log_CheckpointAt_def SignCheckpoint_def log_ready_def t Let_def not_less)
  have len: "length (?root n) = 32" using ok(1) by (simp add: length_mth digests_leaf_hashes)
  define v where "v = \<lparr>sc_Origin = lg_origin l, sc_Size = n, sc_Root = ?root n, sc_Time = ?when,
    sc_Encoded = checkpoint_json ck\<rparr>"
  have ver: "VerifyCheckpoint c ck (mo_origin m) (mo_logKey m) = Inr v"
    using SignCheckpoint_verifies [OF ok(2) ck [unfolded Log_CheckpointAt_def t] root [OF n(2)] len time(1)] view
    by (simp add: honest_view_def v_def)
  have held: "unat (held_size m) \<le> length ?es"
    using honest_latest [OF view] by (auto simp: held_size_def split: option.split)
  have "n \<le> Tree_Size ?t" using n(2) Tree_Size_tree_of [OF log(2)] by (simp add: word_le_nat_alt)
  from ProveConsistency_verifies [OF go_sized_tree [OF log(2)] n(1) this root [OF held] root [OF n(2)]]
  obtain p where p: "ProveConsistency c ?t (held_size m) n = Some (Inr p)"
    and pv: "VerifyConsistency c p (?root (held_size m)) (?root n) = Some (Inr ())" by blast
  have range: "cp_old p = held_size m \<and> cp_new p = n"
    using p by (auto simp: ProveConsistency_def split: if_splits)
  have "checkAppend c m v p = Some (Inr ())"
    using honest_latest [OF view] pv range n(1) time(2)
    by (auto simp: checkAppend_def held_size_def v_def not_less split: option.splits)
  moreover have "ck_Root previous = ck_Root ck" if "mo_heads m n = Some previous" for previous
    using that view ck_root by (simp add: honest_view_def)
  moreover have "?when \<le> now + maxClockSkew"
    by (simp add: maxClockSkew_def minute_def second_def add_increasing2)
  moreover have "sc_Size v = n" "sc_Time v = ?when" by (simp_all add: v_def)
  moreover have "mo_split m = None" "mo_policy m = None" using view by (simp_all add: honest_view_def)
  ultimately have acc: "accepts c m ck p now v"
    using ver by (simp add: accepts_def)
  let ?m = "(Monitor_remember m (sc_Size v) ck)\<lparr>mo_latest := Some v\<rparr>"
  have "Monitor_Update c m ck p now = Some (?m, Inr ())" using acc Monitor_Update_ok_iff by blast
  moreover have "honest_view c l ?m"
  proof -
    have "unat k \<le> length ?es \<and> ck_Root x = hex_EncodeToString (?root k)" if "mo_heads ?m k = Some x" for k x
      using remember_heads_subset [of m "sc_Size v" ck k x] that view ck_root n(2)
      by (auto simp: honest_view_def v_def)
    then show ?thesis
      using accepts_inv [OF _ acc] view unfolding honest_view_def by (simp add: remember_fields)
  qed
  moreover have "Log_ProveConsistency c l (held_size m) n = Some (Inr p)"
    by (simp add: Log_ProveConsistency_def t p)
  ultimately show ?thesis using ck by (intro exI) (auto simp: v_def remember_fields)
qed

section \<open>A concrete publisher and reader\<close>

text \<open>The scenario the witnesses evaluate: one entry, one signed head, one reader that accepts it.\<close>

definition sample_log :: log where
  "sample_log = \<lparr>lg_origin = ''log'', lg_private = replicate 64 9, lg_tree = tree_of sample_crypto [[7]],
     lg_entries = [[7]], lg_index = [[7] \<mapsto> 0]\<rparr>"

definition sample_monitor :: monitor where
  "sample_monitor = \<lparr>mo_origin = ''log'', mo_logKey = replicate 32 9, mo_freshness = second, mo_latest = None,
     mo_heads = Map.empty, mo_order = [], mo_policy = None, mo_split = None\<rparr>"

lemma sample_monitor_new: "NewMonitor ''log'' (replicate 32 9) second = Inr sample_monitor"
  by (simp add: NewMonitor_def sample_monitor_def publicKeySize_def second_def)

lemma sample_log_ready: "log_ready sample_crypto sample_log"
  by (auto simp: log_ready_def log_inv_def sample_log_def maxOriginBytes_def privateKeySize_def)

lemma sample_view: "honest_view sample_crypto sample_log sample_monitor"
  using NewMonitor_inv [OF sample_monitor_new, of sample_crypto]
  by (simp add: honest_view_def sample_monitor_def sample_log_def sample_crypto_def)

lemma time_valid_0: "time_valid 0"
  by (simp add: time_valid_def year_start_def second_def)

lemma sample_update:
  "\<exists>ck p m. Monitor_Update sample_crypto sample_monitor ck p 0 = Some (m, Inr ()) \<and>
    mo_latest m = Some \<lparr>sc_Origin = ''log'', sc_Size = 1, sc_Root = HashLeaf sample_crypto [7], sc_Time = 0,
      sc_Encoded = checkpoint_json ck\<rparr> \<and> digests (cp_path p) \<and> mo_freshness m = second \<and> mo_split m = None"
proof -
  from honest_update [OF sample_hash_ok sample_sign_ok sample_log_ready _ sample_view, of 1 0]
  obtain ck p m where "Monitor_Update sample_crypto sample_monitor ck p 0 = Some (m, Inr ())"
      "mo_latest m = Some \<lparr>sc_Origin = ''log'', sc_Size = 1, sc_Root = HashLeaf sample_crypto [7], sc_Time = 0,
        sc_Encoded = checkpoint_json ck\<rparr>" "honest_view sample_crypto sample_log m"
      "mo_freshness m = mo_freshness sample_monitor"
      "Log_ProveConsistency sample_crypto sample_log (held_size sample_monitor) 1 = Some (Inr p)"
    by (auto simp: sample_monitor_def sample_log_def held_size_def time_valid_0)
  moreover from this(5) have "cp_path p = []"
    by (auto simp: Log_ProveConsistency_def ProveConsistency_def held_size_def sample_monitor_def split: if_splits)
  moreover have "mo_freshness sample_monitor = second" by (simp add: sample_monitor_def)
  ultimately show ?thesis
    by (intro exI [of _ ck] exI [of _ p] exI [of _ m]) (simp add: honest_view_def)
qed

text \<open>A second history of the same publisher, and the split view it leads to.\<close>

lemma sample_split:
  "\<exists>us sv. mo_split (run_ops (Monitor_step sample_crypto) sample_monitor us) = Some sv"
proof -
  let ?c = sample_crypto
  from sample_update obtain ck p m where up: "Monitor_Update ?c sample_monitor ck p 0 = Some (m, Inr ())"
      and latest: "mo_latest m = Some \<lparr>sc_Origin = ''log'', sc_Size = 1, sc_Root = HashLeaf ?c [7], sc_Time = 0,
        sc_Encoded = checkpoint_json ck\<rparr>" and free: "mo_split m = None" by blast
  have step: "Monitor_step ?c sample_monitor (ck, p, 0) = m" by (simp add: Monitor_step_def up)
  have inv: "monitor_inv ?c m"
    using Monitor_step_inv NewMonitor_inv [OF sample_monitor_new] step by metis
  then obtain held where held: "mo_heads m 1 = Some held" "ck_Root held = hex_EncodeToString (HashLeaf ?c [7])"
    using latest VerifyCheckpoint_root by (fastforce simp: monitor_inv_def held_head_def)
  have fixed: "mo_origin m = ''log''" "mo_logKey m = replicate 32 9"
    using reader.step_ord [OF NewMonitor_inv [OF sample_monitor_new], of ?c "(ck, p, 0)"] step
    by (simp_all add: not_before_def sample_monitor_def)
  have root: "Tree_Root ?c (tree_of ?c [[8]]) 1 = Inr (HashLeaf ?c [8])"
    using Tree_Root_tree_of [of "[[8]]" 1 ?c] by simp
  obtain ck2 where ck2: "SignCheckpoint ?c ''log'' (tree_of ?c [[8]]) 1 0 (replicate 64 9) = Inr ck2"
      "ck_Root ck2 = hex_EncodeToString (HashLeaf ?c [8])"
    using root by (simp add: SignCheckpoint_def maxOriginBytes_def privateKeySize_def Let_def)
  have "ed_public ?c (replicate 64 9) = replicate 32 9" by (simp add: sample_crypto_def)
  with SignCheckpoint_verifies [OF sample_sign_ok ck2(1) root] time_valid_0 obtain v where
    v: "VerifyCheckpoint ?c ck2 ''log'' (replicate 32 9) = Inr v" "sc_Size v = 1" "sc_Time v = 0"
    by (simp add: length_HashLeaf)
  have "HashLeaf ?c [7] \<noteq> HashLeaf ?c [8]"
    by (simp add: HashLeaf_def sample_crypto_def sample_hash_def leafPrefix_def)
  then have "\<exists>sv. mo_split (Monitor_step ?c m (ck2, p, 0)) = Some sv"
    using v held ck2(2) free fixed
    by (simp add: Monitor_step_def Monitor_Update_def maxClockSkew_def minute_def second_def)
  then show ?thesis using step by (intro exI [of _ "[(ck, p, 0), (ck2, p, 0)]"]) simp
qed

lemma sample_run:
  "\<exists>u m. Monitor_step sample_crypto sample_monitor u = m \<and>
    mo_latest m = Some \<lparr>sc_Origin = ''log'', sc_Size = 1, sc_Root = HashLeaf sample_crypto [7], sc_Time = 0,
      sc_Encoded = checkpoint_json (fst u)\<rparr> \<and> digests (cp_path (fst (snd u))) \<and> mo_freshness m = second \<and>
    mo_split m = None"
proof -
  from sample_update obtain ck p m where "Monitor_Update sample_crypto sample_monitor ck p 0 = Some (m, Inr ())"
      "mo_latest m = Some \<lparr>sc_Origin = ''log'', sc_Size = 1, sc_Root = HashLeaf sample_crypto [7], sc_Time = 0,
        sc_Encoded = checkpoint_json ck\<rparr>" "digests (cp_path p)" "mo_freshness m = second" "mo_split m = None" by blast
  then show ?thesis by (intro exI [of _ "(ck, p, 0)"] exI [of _ m]) (simp add: Monitor_step_def)
qed

lemma rootOf_single: "rootOf c [x] = x"
  by (simp add: rootOf.simps)

end
