(* ===== verification/Witness.thy ===== *)
theory Witness
  imports Monitor
begin

text \<open>
  Witnesses, \<^verbatim>\<open>site/transparency/witness.go\<close>: a witness runs its own monitor and signs only the
  heads that monitor accepted. Shown: over any sequence of requests a witness signs at most one root per
  size, and two readers with the same majority policy cannot accept different heads of one size while
  enough witnesses follow the protocol.
\<close>

record witness =
  wi_name :: string
  wi_private :: bytes
  wi_monitor :: monitor

datatype witness_error =
    WitnessUnnamed | WitnessNameLong | WitnessBadKey | WitnessMonitor monitor_error | WitnessNoHead

definition NewWitness ::
    "string \<Rightarrow> bytes \<Rightarrow> string \<Rightarrow> bytes \<Rightarrow> duration \<Rightarrow> witness_error + witness" where
  "NewWitness name private origin logKey freshness =
     (if name = [] then Inl WitnessUnnamed
      else if length name > maxWitnessNameBytes then Inl WitnessNameLong
      else if length private \<noteq> privateKeySize then Inl WitnessBadKey
      else case NewMonitor origin logKey freshness of
             Inl e \<Rightarrow> Inl (WitnessMonitor e)
           | Inr m \<Rightarrow> Inr \<lparr>wi_name = name, wi_private = private, wi_monitor = m\<rparr>)"

definition Witness_Public :: "crypto \<Rightarrow> witness \<Rightarrow> bytes" where
  "Witness_Public c w = ed_public c (wi_private w)"

definition Witness_Equivocating :: "witness \<Rightarrow> split_view option \<times> bool" where
  "Witness_Equivocating w = Monitor_Equivocating (wi_monitor w)"

definition Witness_Head :: "witness \<Rightarrow> signed_checkpoint option" where
  "Witness_Head w = Monitor_Head (wi_monitor w)"

definition Witness_Cosign ::
    "crypto \<Rightarrow> witness \<Rightarrow> checkpoint \<Rightarrow> consistency_proof \<Rightarrow> instant \<Rightarrow>
      (witness \<times> (witness_error + cosignature)) option" where
  "Witness_Cosign c w ck proof now =
     map_option (\<lambda>(m, outcome).
       (w\<lparr>wi_monitor := m\<rparr>,
        case outcome of
          Inl e \<Rightarrow> Inl (WitnessMonitor e)
        | Inr _ \<Rightarrow>
            (case Monitor_Head m of
               None \<Rightarrow> Inl WitnessNoHead
             | Some head \<Rightarrow>
                 let message = WitnessSigningMessage (wi_name w) (sc_Origin head) (sc_Size head)
                                 (sc_Root head) (ck_Time ck)
                 in Inr \<lparr>co_Witness = wi_name w,
                         co_Signature = b64_EncodeToString (ed_sign c (wi_private w) message)\<rparr>)))
     (Monitor_Update c (wi_monitor w) ck proof now)"

section \<open>What a witness signs\<close>

text \<open>The statement a request makes the witness sign, if any: origin, size, root and time.\<close>

type_synonym statement = "string \<times> u64 \<times> bytes \<times> string"

definition Cosign_statement :: "crypto \<Rightarrow> witness \<Rightarrow> update \<Rightarrow> statement option" where
  "Cosign_statement c w u =
     (case u of (ck, p, now) \<Rightarrow>
      (case Witness_Cosign c w ck p now of
         Some (w', Inr _) \<Rightarrow> map_option (\<lambda>h. (sc_Origin h, sc_Size h, sc_Root h, ck_Time ck)) (Witness_Head w')
       | _ \<Rightarrow> None))"

definition Cosign_step :: "crypto \<Rightarrow> witness \<Rightarrow> update \<Rightarrow> witness" where
  "Cosign_step c w u = (case u of (ck, p, now) \<Rightarrow> fst (the (Witness_Cosign c w ck p now)))"

fun signed_statements :: "crypto \<Rightarrow> witness \<Rightarrow> update list \<Rightarrow> statement list" where
  "signed_statements c w [] = []"
| "signed_statements c w (u # us) =
     (case Cosign_statement c w u of None \<Rightarrow> [] | Some s \<Rightarrow> [s]) @
     signed_statements c (Cosign_step c w u) us"

text \<open>The cosignatures \<^verbatim>\<open>Cosign\<close> hands out over the same requests, and the one that signs a statement.\<close>

fun cosignatures :: "crypto \<Rightarrow> witness \<Rightarrow> update list \<Rightarrow> cosignature list" where
  "cosignatures c w [] = []"
| "cosignatures c w (u # us) =
     (case Witness_Cosign c w (fst u) (fst (snd u)) (snd (snd u)) of Some (_, Inr co) \<Rightarrow> [co] | _ \<Rightarrow> []) @
     cosignatures c (Cosign_step c w u) us"

definition cosignature_over :: "crypto \<Rightarrow> string \<Rightarrow> bytes \<Rightarrow> statement \<Rightarrow> cosignature" where
  "cosignature_over c name sk s =
     (case s of (origin, n, r, t) \<Rightarrow>
        \<lparr>co_Witness = name, co_Signature = b64_EncodeToString (ed_sign c sk (WitnessSigningMessage name origin n r t))\<rparr>)"

lemma Witness_Cosign_accepted:
  "Monitor_Update c (wi_monitor w) ck p now = Some (m, Inr ()) \<Longrightarrow> mo_latest m = Some h \<Longrightarrow>
     Witness_Cosign c w ck p now = Some (w\<lparr>wi_monitor := m\<rparr>,
       Inr \<lparr>co_Witness = wi_name w, co_Signature = b64_EncodeToString (ed_sign c (wi_private w)
         (WitnessSigningMessage (wi_name w) (sc_Origin h) (sc_Size h) (sc_Root h) (ck_Time ck)))\<rparr>)"
  by (simp add: Witness_Cosign_def Monitor_Head_def Let_def)

lemma Witness_Cosign_refused:
  "Monitor_Update c (wi_monitor w) ck p now = Some (m, Inl e) \<Longrightarrow>
     Witness_Cosign c w ck p now = Some (w\<lparr>wi_monitor := m\<rparr>, Inl (WitnessMonitor e))"
  by (simp add: Witness_Cosign_def)

lemma Cosign_step_monitor:
  "Cosign_step c w u = w\<lparr>wi_monitor := Monitor_step c (wi_monitor w) u\<rparr>"
proof -
  obtain ck p now where u: "u = (ck, p, now)" by (cases u)
  obtain m r where "Monitor_Update c (wi_monitor w) ck p now = Some (m, r)"
    using Monitor_Update_returns by blast
  then show ?thesis by (simp add: u Cosign_step_def Witness_Cosign_def Monitor_step_def)
qed

lemma accepts_update:
  "accepts c m ck p now v \<Longrightarrow>
     Monitor_Update c m ck p now = Some ((Monitor_remember m (sc_Size v) ck)\<lparr>mo_latest := Some v\<rparr>, Inr ())"
  using Monitor_Update_ok_iff by blast

lemma Cosign_statement_iff:
  "Cosign_statement c w u = Some s \<longleftrightarrow>
     (\<exists>v. accepts c (wi_monitor w) (fst u) (fst (snd u)) (snd (snd u)) v \<and>
        s = (sc_Origin v, sc_Size v, sc_Root v, ck_Time (fst u)))"
proof (cases rule: Monitor_step_cases [of c "wi_monitor w" u])
  case (accepted v)
  have unique: "v' = v" if "accepts c (wi_monitor w) (fst u) (fst (snd u)) (snd (snd u)) v'" for v'
    using accepted(1) that by (simp add: accepts_def)
  have "Cosign_statement c w u = Some (sc_Origin v, sc_Size v, sc_Root v, ck_Time (fst u))"
    using accepted(2,3)
    by (cases u) (simp add: Cosign_statement_def Witness_Head_def Monitor_Head_def Witness_Cosign_accepted)
  then show ?thesis using accepted(1) unique by (metis option.inject)
next
  case (refused e)
  then have "\<not> accepts c (wi_monitor w) (fst u) (fst (snd u)) (snd (snd u)) v" for v
    using accepts_update by fastforce
  with refused show ?thesis by (cases u) (simp add: Cosign_statement_def Witness_Cosign_refused)
next
  case (split sv)
  then have "\<not> accepts c (wi_monitor w) (fst u) (fst (snd u)) (snd (snd u)) v" for v
    using accepts_update by fastforce
  with split show ?thesis by (cases u) (simp add: Cosign_statement_def Witness_Cosign_refused)
qed

text \<open>What is handed out is the signature over the statement, request by request.\<close>

lemma cosignatures_statements:
  "cosignatures c w us = map (cosignature_over c (wi_name w) (wi_private w)) (signed_statements c w us)"
proof (induction us arbitrary: w)
  case (Cons u us)
  obtain ck p now where u: "u = (ck, p, now)" by (rule prod_cases3)
  have "wi_name (Cosign_step c w u) = wi_name w" "wi_private (Cosign_step c w u) = wi_private w" by (simp_all add: Cosign_step_monitor)
  with Cons.IH [of "Cosign_step c w u"] have tail: "cosignatures c (Cosign_step c w u) us =
      map (cosignature_over c (wi_name w) (wi_private w)) (signed_statements c (Cosign_step c w u) us)" by simp
  show ?case
  proof (cases rule: Monitor_step_cases [of c "wi_monitor w" u])
    case (accepted v)
    with tail show ?thesis
      by (simp add: u Witness_Cosign_accepted Cosign_statement_def Witness_Head_def Monitor_Head_def cosignature_over_def)
  next
    case (refused e)
    with tail show ?thesis by (simp add: u Witness_Cosign_refused Cosign_statement_def)
  next
    case (split sv)
    with tail show ?thesis by (simp add: u Witness_Cosign_refused Cosign_statement_def)
  qed
qed simp

text \<open>
  The statements made so far against the held head: none is for a larger size, and one for the held
  size has the held root.
\<close>

definition covers :: "monitor \<Rightarrow> statement list \<Rightarrow> bool" where
  "covers m ss \<longleftrightarrow>
     (\<forall>(origin, n, r, t) \<in> set ss. \<exists>sc. mo_latest m = Some sc \<and> n \<le> sc_Size sc \<and> (n = sc_Size sc \<longrightarrow> r = sc_Root sc))"

definition one_root :: "statement list \<Rightarrow> bool" where
  "one_root ss \<longleftrightarrow>
     (\<forall>(o1, n1, r1, t1) \<in> set ss. \<forall>(o2, n2, r2, t2) \<in> set ss. n1 = n2 \<longrightarrow> r1 = r2)"

text \<open>A head accepted at the held size has the held root.\<close>

lemma accepts_same_size:
  assumes "monitor_inv c m" and "accepts c m ck p now v" and "mo_latest m = Some sc" and "sc_Size v = sc_Size sc"
  shows "sc_Root v = sc_Root sc"
proof -
  from assms(1,3) obtain held where h: "mo_heads m (sc_Size sc) = Some held"
      "VerifyCheckpoint c held (mo_origin m) (mo_logKey m) = Inr sc"
    by (auto simp: monitor_inv_def held_head_def)
  have v: "VerifyCheckpoint c ck (mo_origin m) (mo_logKey m) = Inr v" "ck_Root held = ck_Root ck"
    using assms(2,4) h(1) by (auto simp: accepts_def)
  from VerifyCheckpoint_root [OF v(1)] VerifyCheckpoint_root [OF h(2)] v(2) show ?thesis
    by (metis hex_EncodeToString_inj)
qed

lemma accepts_size_le:
  "accepts c m ck p now v \<Longrightarrow> mo_latest m = Some sc \<Longrightarrow> sc_Size sc \<le> sc_Size v"
  by (auto simp: accepts_def checkAppend_def split: if_splits)

lemma signed_one_root:
  "monitor_inv c (wi_monitor w) \<Longrightarrow> covers (wi_monitor w) ss \<Longrightarrow> one_root ss \<Longrightarrow>
     one_root (ss @ signed_statements c w us)"
proof (induction us arbitrary: w ss)
  case (Cons u us)
  let ?m = "wi_monitor w"
  let ?w = "Cosign_step c w u"
  have m': "wi_monitor ?w = Monitor_step c ?m u" by (simp add: Cosign_step_monitor)
  have inv: "monitor_inv c (wi_monitor ?w)"
    using Cons.prems(1) by (simp add: m' Monitor_step_inv)
  show ?case
  proof (cases "Cosign_statement c w u")
    case None
    have "covers (wi_monitor ?w) ss"
    proof (cases rule: Monitor_step_cases [of c ?m u])
      case (accepted v)
      with None Cosign_statement_iff [of c w u "(sc_Origin v, sc_Size v, sc_Root v, ck_Time (fst u))"]
      show ?thesis by auto
    qed (use Cons.prems(2) in \<open>simp_all add: m' covers_def\<close>)
    from Cons.IH [OF inv this Cons.prems(3)] None show ?thesis by simp
  next
    case (Some s)
    then obtain v where v: "accepts c ?m (fst u) (fst (snd u)) (snd (snd u)) v"
      and s: "s = (sc_Origin v, sc_Size v, sc_Root v, ck_Time (fst u))"
      by (auto simp: Cosign_statement_iff)
    have latest: "mo_latest (wi_monitor ?w) = Some v"
    proof (cases rule: Monitor_step_cases [of c ?m u])
      case (accepted v')
      with v show ?thesis by (simp add: m' accepts_def)
    qed (use accepts_update [OF v] in simp_all)
    have step: "n \<le> sc_Size v \<and> (n = sc_Size v \<longrightarrow> r = sc_Root v)" if "(o1, n, r, t) \<in> set ss" for o1 n r t
    proof -
      from that Cons.prems(2) obtain sc where sc: "mo_latest ?m = Some sc" "n \<le> sc_Size sc"
          "n = sc_Size sc \<longrightarrow> r = sc_Root sc" by (fastforce simp: covers_def)
      from accepts_size_le [OF v sc(1)] sc accepts_same_size [OF Cons.prems(1) v sc(1)] show ?thesis
        by (metis order_antisym order_trans)
    qed
    have cov: "covers (wi_monitor ?w) (ss @ [s])" using step latest s by (auto simp: covers_def)
    have one: "one_root (ss @ [s])"
      using step Cons.prems(3) s by (fastforce simp: one_root_def)
    from Cons.IH [OF inv cov one] Some show ?thesis by simp
  qed
qed simp

section \<open>Two readers of one log\<close>

lemma step_origin: "mo_origin (Monitor_step c m u) = mo_origin m"
  by (cases rule: Monitor_step_cases [of c m u]) (simp_all add: remember_fields)

lemma step_logKey: "mo_logKey (Monitor_step c m u) = mo_logKey m"
  by (cases rule: Monitor_step_cases [of c m u]) (simp_all add: remember_fields)

lemma statement_fields:
  "(o1, n, r, t) \<in> set (signed_statements c w us) \<Longrightarrow>
     o1 = mo_origin (wi_monitor w) \<and> length r = 32 \<and> length t = 20"
proof (induction us arbitrary: w)
  case (Cons u us)
  show ?case
  proof (cases "Cosign_statement c w u = Some (o1, n, r, t)")
    case True
    then obtain v where v: "VerifyCheckpoint c (fst u) (mo_origin (wi_monitor w)) (mo_logKey (wi_monitor w)) = Inr v"
        "o1 = sc_Origin v" "r = sc_Root v" "t = ck_Time (fst u)"
      by (auto simp: Cosign_statement_iff accepts_def)
    have "sc_Origin v = mo_origin (wi_monitor w)" using v(1) by (simp add: VerifyCheckpoint_ok_iff)
    with v VerifyCheckpoint_root [OF v(1)] VerifyCheckpoint_time [OF v(1)] show ?thesis
      by (simp add: length_time_Format)
  next
    case False
    with Cons.prems have "(o1, n, r, t) \<in> set (signed_statements c (Cosign_step c w u) us)"
      by (auto split: option.splits)
    from Cons.IH [OF this] show ?thesis by (simp add: Cosign_step_monitor step_origin)
  qed
qed simp

lemma statement_source:
  "(o1, n, r, t) \<in> set (signed_statements c w us) \<Longrightarrow>
     \<exists>(ck, p, now) \<in> set us. ck_Size ck = n \<and> ck_Root ck = hex_EncodeToString r \<and> ck_Time ck = t \<and>
       (\<exists>v. VerifyCheckpoint c ck (mo_origin (wi_monitor w)) (mo_logKey (wi_monitor w)) = Inr v)"
proof (induction us arbitrary: w)
  case (Cons u us)
  show ?case
  proof (cases "Cosign_statement c w u = Some (o1, n, r, t)")
    case True
    then obtain v where v: "VerifyCheckpoint c (fst u) (mo_origin (wi_monitor w)) (mo_logKey (wi_monitor w)) = Inr v"
        "n = sc_Size v" "r = sc_Root v" "t = ck_Time (fst u)"
      by (auto simp: Cosign_statement_iff accepts_def)
    have "ck_Size (fst u) = n" "ck_Root (fst u) = hex_EncodeToString r"
      using v VerifyCheckpoint_root [OF v(1)] by (auto simp: VerifyCheckpoint_ok_iff)
    with v show ?thesis by (cases u) auto
  next
    case False
    with Cons.prems have "(o1, n, r, t) \<in> set (signed_statements c (Cosign_step c w u) us)"
      by (auto split: option.splits)
    from Cons.IH [OF this] show ?thesis by (auto simp: Cosign_step_monitor step_origin step_logKey)
  qed
qed simp

text \<open>
  The messages and signatures a checkpoint presents to the policy, and a witness that follows the
  protocol as far as presented signatures go: it starts as \<^verbatim>\<open>NewWitness\<close> leaves it, answers the
  requests \<open>us\<close>, and a presented signature verifies under its key only over a statement for which it handed out its
  cosignature in doing so (nobody forged its signature on one of the presented messages).
\<close>

definition presented :: "checkpoint \<Rightarrow> bytes \<Rightarrow> (bytes \<times> bytes) set" where
  "presented ck root =
     {(WitnessSigningMessage (co_Witness co) (ck_Origin ck) (ck_Size ck) root (ck_Time ck), signature) | co signature.
        co \<in> set (ck_Cosignatures ck) \<and> decodeBase64 signatureSize (co_Signature co) = Some signature}"

definition follows_protocol ::
    "crypto \<Rightarrow> string \<Rightarrow> bytes \<Rightarrow> witness \<Rightarrow> update list \<Rightarrow> (bytes \<times> bytes) set \<Rightarrow> bool" where
  "follows_protocol c name key w us P \<longleftrightarrow>
     (\<exists>sk origin logKey freshness. NewWitness name sk origin logKey freshness = Inr w \<and> go_sized origin) \<and>
     (\<forall>(message, signature) \<in> P. ed_verify c key message signature \<longrightarrow>
        (\<exists>(origin, n, r, t) \<in> set (signed_statements c w us).
           message = WitnessSigningMessage name origin n r t \<and>
           cosignature_over c name (wi_private w) (origin, n, r, t) \<in> set (cosignatures c w us)))"

lemma NewWitness_start:
  assumes "NewWitness name sk origin logKey freshness = Inr w"
  shows "monitor_inv c (wi_monitor w) \<and> mo_latest (wi_monitor w) = None \<and> mo_origin (wi_monitor w) = origin \<and>
    length name \<le> maxWitnessNameBytes"
proof -
  from assms obtain m where m: "NewMonitor origin logKey freshness = Inr m" "wi_monitor w = m"
      "length name \<le> maxWitnessNameBytes"
    by (auto simp: NewWitness_def split: if_splits sum.splits)
  from m(1) have "mo_latest m = None" "mo_origin m = origin" by (auto simp: NewMonitor_def split: if_splits)
  with NewMonitor_inv [OF m(1), of c] m show ?thesis by simp
qed

lemma follows_protocol_statement:
  assumes "follows_protocol c name key w us P" and "ed_verify c key (WitnessSigningMessage name origin n r t) sig"
    and "(WitnessSigningMessage name origin n r t, sig) \<in> P" and "length r = 32" and "go_sized origin" and "go_sized t"
  shows "(origin, n, r, t) \<in> set (signed_statements c w us)"
proof -
  from assms(1) obtain sk origin' logKey fr where
    new: "NewWitness name sk origin' logKey fr = Inr w" and go: "go_sized origin'"
    by (auto simp: follows_protocol_def)
  from assms(1-3) obtain o1 n1 r1 t1 where s: "(o1, n1, r1, t1) \<in> set (signed_statements c w us)"
    and eq: "WitnessSigningMessage name origin n r t = WitnessSigningMessage name o1 n1 r1 t1"
    by (fastforce simp: follows_protocol_def)
  note f = statement_fields [OF s]
  have name: "go_sized name" using NewWitness_start [OF new, of c] by (simp add: maxWitnessNameBytes_def)
  have "go_sized o1" "go_sized t1" using f NewWitness_start [OF new, of c] go by simp_all
  with witness_message_inj [OF eq _ name name assms(5) _ assms(6)] f assms(4) have
    "origin = o1 \<and> n = n1 \<and> r = r1 \<and> t = t1" by simp
  with s show ?thesis by simp
qed

lemma protocol_one_root:
  assumes "follows_protocol c name key w us P"
  shows "one_root (signed_statements c w us)"
proof -
  from assms obtain sk origin logKey fr where "NewWitness name sk origin logKey fr = Inr w"
    by (auto simp: follows_protocol_def)
  from NewWitness_start [OF this, of c] have "monitor_inv c (wi_monitor w)" by simp
  from signed_one_root [OF this, of "[]" us] show ?thesis by (simp add: covers_def one_root_def)
qed

definition shown_to :: "crypto \<Rightarrow> (string \<times> bytes) list \<Rightarrow> checkpoint \<Rightarrow> bytes \<Rightarrow> bytes \<Rightarrow> bool" where
  "shown_to c keys ck r key \<longleftrightarrow> (\<exists>name sig. (name, key) \<in> set keys \<and>
     (WitnessSigningMessage name (ck_Origin ck) (ck_Size ck) r (ck_Time ck), sig) \<in> presented ck r \<and>
     ed_verify c key (WitnessSigningMessage name (ck_Origin ck) (ck_Size ck) r (ck_Time ck)) sig)"

lemma quorum_shown:
  assumes "policy_ok p" and "WitnessPolicy_Verify c (Some p) ck r = Inr ()"
  shows "\<exists>K. K \<subseteq> snd ` set (wp_keys p) \<and> wp_threshold p \<le> int (card K) \<and>
    (\<forall>key \<in> K. shown_to c (wp_keys p) ck r key)"
proof -
  have "shown_to c keys ck r key"
    if "co \<in> set (ck_Cosignatures ck)" "(co_Witness co, key) \<in> set keys"
      "decodeBase64 signatureSize (co_Signature co) = Some sig"
      "ed_verify c key (WitnessSigningMessage (co_Witness co) (ck_Origin ck) (ck_Size ck) r (ck_Time ck)) sig"
    for co key keys sig
    using that unfolding shown_to_def presented_def by blast
  with policy_quorum [OF assms] show ?thesis by meson
qed

text \<open>Two sets of pinned keys, each of threshold size, share one outside a small set.\<close>

lemma quorum_overlap:
  assumes "finite K" and "A \<subseteq> K" and "B \<subseteq> K" and "F \<subseteq> K" and "card K + card F < card A + card B"
  shows "\<exists>k \<in> A \<inter> B. k \<notin> F"
proof (rule ccontr)
  assume "\<not> (\<exists>k \<in> A \<inter> B. k \<notin> F)"
  then have "A \<inter> B \<subseteq> F" by blast
  then have "card (A \<inter> B) \<le> card F" using assms(1,4) by (meson card_mono finite_subset)
  moreover have "card (A \<union> B) \<le> card K" using assms(1-3) by (intro card_mono) auto
  moreover have "card A + card B = card (A \<union> B) + card (A \<inter> B)"
    using assms(1-3) by (meson card_Un_Int finite_subset)
  ultimately show False using assms(5) by simp
qed

section \<open>Properties\<close>

text \<open>
  C9: A witness signs at most one root per size, for ever, and nothing but that. Whatever checkpoints, proofs and times it
  is offered and in whatever order, the cosignatures it hands out are, one by one, its signatures over statements of the pinned
  origin with a size, a root and a time; each statement is that of a checkpoint offered in one of the requests, which carries a valid signature of
  the log; and two statements for the same size name the same root, also after the head at that size has been evicted
  from its memory.
\<close>

theorem witness_one_root_per_size:
  assumes "NewWitness name sk origin logKey freshness = Inr w"
  shows "cosignatures c w us = map (cosignature_over c name sk) (signed_statements c w us) \<and>
    (\<forall>(o1, n1, r1, t1) \<in> set (signed_statements c w us). o1 = origin \<and>
       (\<exists>(ck, p, now) \<in> set us. ck_Size ck = n1 \<and> ck_Root ck = hex_EncodeToString r1 \<and> ck_Time ck = t1 \<and>
          (\<exists>v. VerifyCheckpoint c ck origin logKey = Inr v)) \<and>
       (\<forall>(o2, n2, r2, t2) \<in> set (signed_statements c w us). n1 = n2 \<longrightarrow> r1 = r2))"
proof -
  note start = NewWitness_start [OF assms, of c]
  have w: "wi_name w = name" "wi_private w = sk" "mo_logKey (wi_monitor w) = logKey"
    using assms by (auto simp: NewWitness_def NewMonitor_def split: if_splits sum.splits)
  have one: "one_root (signed_statements c w us)"
    using signed_one_root [of c w "[]" us] start by (simp add: covers_def one_root_def)
  have source: "o1 = origin \<and> (\<exists>(ck, p, now) \<in> set us. ck_Size ck = n1 \<and> ck_Root ck = hex_EncodeToString r1 \<and> ck_Time ck = t1 \<and>
      (\<exists>v. VerifyCheckpoint c ck origin logKey = Inr v))" if s: "(o1, n1, r1, t1) \<in> set (signed_statements c w us)" for o1 n1 r1 t1
    using statement_fields [OF s] statement_source [OF s] start w by simp
  show ?thesis
  proof (intro conjI ballI)
    show "cosignatures c w us = map (cosignature_over c name sk) (signed_statements c w us)" by (simp add: cosignatures_statements w)
    fix s assume in_s: "s \<in> set (signed_statements c w us)"
    obtain o1 n1 r1 t1 where s: "s = (o1, n1, r1, t1)" by (rule prod_cases4)
    have "\<forall>(o2, n2, r2, t2) \<in> set (signed_statements c w us). n1 = n2 \<longrightarrow> r1 = r2"
      using bspec [OF one [unfolded one_root_def] in_s] unfolding s prod.case .
    with source [OF in_s [unfolded s]] show "case s of (o1, n1, r1, t1) \<Rightarrow> o1 = origin \<and>
        (\<exists>(ck, p, now) \<in> set us. ck_Size ck = n1 \<and> ck_Root ck = hex_EncodeToString r1 \<and> ck_Time ck = t1 \<and>
          (\<exists>v. VerifyCheckpoint c ck origin logKey = Inr v)) \<and>
        (\<forall>(o2, n2, r2, t2) \<in> set (signed_statements c w us). n1 = n2 \<longrightarrow> r1 = r2)" unfolding s prod.case by blast
  qed
qed

definition sample_witness :: witness where
  "sample_witness = \<lparr>wi_name = ''w'', wi_private = replicate 64 5, wi_monitor = sample_monitor\<rparr>"

lemma sample_witness_new: "NewWitness ''w'' (replicate 64 5) ''log'' (replicate 32 9) second = Inr sample_witness"
  by (simp add: NewWitness_def sample_monitor_new sample_witness_def maxWitnessNameBytes_def privateKeySize_def)

lemma sample_statement:
  "\<exists>u t. (''log'', 1, HashLeaf sample_crypto [7], t) \<in> set (signed_statements sample_crypto sample_witness [u])"
proof -
  from sample_update obtain ck p m where "Monitor_Update sample_crypto sample_monitor ck p 0 = Some (m, Inr ())"
      "mo_latest m = Some \<lparr>sc_Origin = ''log'', sc_Size = 1, sc_Root = HashLeaf sample_crypto [7], sc_Time = 0,
        sc_Encoded = checkpoint_json ck\<rparr>" by blast
  then have "Cosign_statement sample_crypto sample_witness (ck, p, 0) =
      Some (''log'', 1, HashLeaf sample_crypto [7], ck_Time ck)"
    by (simp add: Cosign_statement_def sample_witness_def Witness_Head_def Monitor_Head_def Witness_Cosign_accepted)
  then show ?thesis by (intro exI [of _ "(ck, p, 0)"] exI [of _ "ck_Time ck"]) simp
qed

theorem witness_one_root_per_size_witness:
  "\<exists>u t. (''log'', 1, HashLeaf sample_crypto [7], t) \<in> set (signed_statements sample_crypto sample_witness [u]) \<and>
     cosignature_over sample_crypto ''w'' (replicate 64 5) (''log'', 1, HashLeaf sample_crypto [7], t)
       \<in> set (cosignatures sample_crypto sample_witness [u])"
proof -
  from sample_statement obtain u t where
    s: "(''log'', 1, HashLeaf sample_crypto [7], t) \<in> set (signed_statements sample_crypto sample_witness [u])" by blast
  note eq = witness_one_root_per_size [OF sample_witness_new, of sample_crypto "[u]", THEN conjunct1]
  show ?thesis by (intro exI conjI, rule s) (unfold eq set_map, rule imageI [OF s])
qed

text \<open>
  C10: Two readers with the same witness policy agree. Let a policy be accepted, let \<open>F\<close> be the
  pinned keys whose holders do not follow the protocol, and let two thresholds together exceed the number
  of pinned keys plus \<open>F\<close>. If each reader accepts the cosignatures of a head of the same size, the
  roots are equal: a log that wants to show two histories has to corrupt more witnesses than that.
\<close>

theorem cosigned_readers_agree:
  assumes pol: "NewWitnessPolicy threshold keys = Inr p" and names: "distinct (map fst keys)"
    and F: "F \<subseteq> snd ` set keys" "int (length keys + card F) < 2 * threshold"
    and honest: "\<forall>(name, key) \<in> set keys. key \<notin> F \<longrightarrow>
      (\<exists>w us. follows_protocol c name key w us (presented ck1 r1 \<union> presented ck2 r2))"
    and v1: "WitnessPolicy_Verify c (Some p) ck1 r1 = Inr ()" and v2: "WitnessPolicy_Verify c (Some p) ck2 r2 = Inr ()"
    and len: "length r1 = 32" "length r2 = 32"
    and go: "go_sized (ck_Origin ck1)" "go_sized (ck_Origin ck2)" "go_sized (ck_Time ck1)" "go_sized (ck_Time ck2)"
    and same: "ck_Size ck1 = ck_Size ck2"
  shows "r1 = r2"
proof -
  have p: "wp_threshold p = threshold" "wp_keys p = keys" "policy_ok p"
    using pol by (auto simp: NewWitnessPolicy_iff)
  from quorum_shown [OF p(3) v1] quorum_shown [OF p(3) v2] obtain A B where
    A: "A \<subseteq> snd ` set keys" "threshold \<le> int (card A)" "\<forall>key \<in> A. shown_to c keys ck1 r1 key" and
    B: "B \<subseteq> snd ` set keys" "threshold \<le> int (card B)" "\<forall>key \<in> B. shown_to c keys ck2 r2 key"
    unfolding p(1,2) by blast
  have inj: "inj_on snd (set keys)" using p(2,3) by (simp add: policy_ok_def distinct_map)
  have "card (snd ` set keys) \<le> length keys" by (metis card_length length_map list.set_map)
  then have "card (snd ` set keys) + card F < card A + card B" using A(2) B(2) F(2) by linarith
  from quorum_overlap [OF _ A(1) B(1) F(1) this] obtain key where k: "key \<in> A" "key \<in> B" "key \<notin> F" by auto
  let ?msg = "\<lambda>name ck r. WitnessSigningMessage name (ck_Origin ck) (ck_Size ck) r (ck_Time ck)"
  from k(1) A(3) obtain name sig1 where n1: "(name, key) \<in> set keys"
      "(?msg name ck1 r1, sig1) \<in> presented ck1 r1" "ed_verify c key (?msg name ck1 r1) sig1"
    by (auto simp: shown_to_def)
  from k(2) B(3) obtain name' sig2 where n2: "(name', key) \<in> set keys"
      "(?msg name' ck2 r2, sig2) \<in> presented ck2 r2" "ed_verify c key (?msg name' ck2 r2) sig2"
    by (auto simp: shown_to_def)
  have eq: "name' = name" using inj_onD [OF inj _ n2(1) n1(1)] by simp
  from honest n1(1) k(3) obtain w us where
    w: "follows_protocol c name key w us (presented ck1 r1 \<union> presented ck2 r2)" by blast
  have "(ck_Origin ck1, ck_Size ck1, r1, ck_Time ck1) \<in> set (signed_statements c w us)"
    using n1 len go by (intro follows_protocol_statement [OF w n1(3)]) simp_all
  moreover have "(ck_Origin ck2, ck_Size ck2, r2, ck_Time ck2) \<in> set (signed_statements c w us)"
    using n2 len go eq by (intro follows_protocol_statement [OF w n2(3) [unfolded eq]]) simp_all
  ultimately show ?thesis using protocol_one_root [OF w] same by (fastforce simp: one_root_def)
qed

theorem cosigned_readers_agree_witness:
  "\<exists>p ck. NewWitnessPolicy 1 [(''w'', replicate 32 5)] = Inr p \<and>
    WitnessPolicy_Verify sample_crypto (Some p) ck (HashLeaf sample_crypto [7]) = Inr () \<and>
    HashLeaf sample_crypto [7] = HashLeaf sample_crypto [7]"
proof -
  let ?keys = "[(''w'', replicate 32 5 :: bytes)]" and ?root = "HashLeaf sample_crypto [7]"
  let ?p = "\<lparr>wp_threshold = 1, wp_keys = ?keys\<rparr>"
  from sample_statement obtain u t where
    s: "(''log'', 1, ?root, t) \<in> set (signed_statements sample_crypto sample_witness [u])" by blast
  let ?msg = "WitnessSigningMessage ''w'' ''log'' 1 ?root t"
  let ?sig = "ed_sign sample_crypto (replicate 64 5) ?msg"
  let ?ck = "\<lparr>ck_Version = [], ck_Origin = ''log'', ck_Size = 1, ck_Root = [], ck_Time = t, ck_Signature = [],
    ck_Cosignatures = [\<lparr>co_Witness = ''w'', co_Signature = b64_EncodeToString ?sig\<rparr>]\<rparr>"
  have pol: "NewWitnessPolicy 1 ?keys = Inr ?p"
    by (simp add: NewWitnessPolicy_iff policy_ok_def maxCosignatures_def maxWitnessNameBytes_def publicKeySize_def)
  have sig: "length ?sig = signatureSize" "ed_verify sample_crypto (replicate 32 5) ?msg ?sig"
    by (simp_all add: sample_crypto_def sample_hash_def signatureSize_def)
  then have ver: "WitnessPolicy_Verify sample_crypto (Some ?p) ?ck ?root = Inr ()"
    by (simp add: WitnessPolicy_Verify_def b64_roundtrip maxCosignatures_def)
  have "presented ?ck ?root = {(?msg, ?sig)}" using sig(1) by (auto simp: presented_def b64.dec_enc)
  moreover have "cosignature_over sample_crypto ''w'' (wi_private sample_witness) (''log'', 1, ?root, t)
      \<in> set (cosignatures sample_crypto sample_witness [u])"
    unfolding cosignatures_statements using s by (auto simp: sample_witness_def)
  ultimately have follows: "follows_protocol sample_crypto ''w'' (replicate 32 5) sample_witness [u]
      (presented ?ck ?root \<union> presented ?ck ?root)"
    using s sample_witness_new unfolding follows_protocol_def by fastforce
  have t: "length t = 20" using statement_fields [OF s] by simp
  have agree: "?root = ?root"
    by (rule cosigned_readers_agree [OF pol, of "{}" sample_crypto ?ck ?root ?ck ?root])
      (use follows ver t in \<open>auto simp: length_HashLeaf\<close>)
  show ?thesis by (intro exI conjI, rule pol, rule ver, rule agree)
qed

end
