(* ===== verification/Transparency.thy ===== *)
theory Transparency
  imports Witness
begin

text \<open>
  The properties of the transparency log as a whole: the reader's safety over every sequence of updates,
  the publisher's log, and that an honest publisher is always followed.
\<close>

section \<open>Properties of the reader\<close>

text \<open>
  The reader's state stays well formed and never goes back. After any sequence of updates, whatever they carry,
  the remembered sizes are strictly increasing, at most 128, exactly the sizes of the remembered heads and end
  with the held head's size; every remembered head verified under the log's key and met the witness policy;
  and recorded evidence of a split view passes \<^verbatim>\<open>VerifySplitView\<close>. Through any further updates the origin, key and
  policy stay fixed, recorded evidence stays, and the size and the date of the held head never decrease.
\<close>

theorem monitor_state_invariant:
  assumes "NewMonitor origin key fresh = Inr m \<or> NewCosignedMonitor origin key fresh policy = Inr m"
  shows "monitor_inv c (run_ops (Monitor_step c) m us) \<and>
    not_before (run_ops (Monitor_step c) m us) (run_ops (Monitor_step c) m (us @ vs))"
proof -
  have "monitor_inv c (run_ops (Monitor_step c) m us)"
    using assms NewMonitor_inv NewCosignedMonitor_inv reader.run_inv by blast
  with reader.run_ord [OF this] show ?thesis by simp
qed

theorem monitor_state_invariant_witness:
  "monitor_inv sample_crypto (run_ops (Monitor_step sample_crypto) sample_monitor []) \<and>
   not_before (run_ops (Monitor_step sample_crypto) sample_monitor []) (run_ops (Monitor_step sample_crypto) sample_monitor ([] @ []))"
  using monitor_state_invariant [of "''log''" "replicate 32 9" second sample_monitor None sample_crypto "[]" "[]"]
    sample_monitor_new by simp

text \<open>
  A log caught with two heads of one size is finished. Once a reader has recorded a split view, no
  update changes its state, every update and every acceptance answers with the evidence, and the evidence
  convinces anyone who holds the log's key: two checkpoints of one size, both signed, with different roots.
\<close>

theorem split_view_absorbing:
  assumes "NewMonitor origin key fresh = Inr m \<or> NewCosignedMonitor origin key fresh policy = Inr m"
    and "mo_split (run_ops (Monitor_step c) m us) = Some sv"
  shows "run_ops (Monitor_step c) m (us @ vs) = run_ops (Monitor_step c) m us \<and>
    Monitor_Update c (run_ops (Monitor_step c) m us) ck p now =
      Some (run_ops (Monitor_step c) m us, Inl (SplitView sv)) \<and>
    Monitor_Accept c (run_ops (Monitor_step c) m us) e ip now = Inl (SplitView sv) \<and>
    VerifySplitView c (Some sv) (mo_logKey (run_ops (Monitor_step c) m us)) = Inr ()"
proof -
  have "monitor_inv c (run_ops (Monitor_step c) m us)"
    using assms(1) NewMonitor_inv NewCosignedMonitor_inv reader.run_inv by blast
  then have "VerifySplitView c (Some sv) (mo_logKey (run_ops (Monitor_step c) m us)) = Inr ()"
    using assms(2) by (simp add: monitor_inv_def)
  moreover have "run_ops (Monitor_step c) m (us @ vs) = run_ops (Monitor_step c) m us"
    using assms(2) by (intro equivocated.dead_forever) simp
  ultimately show ?thesis
    using assms(2) by (simp add: Monitor_Update_def Monitor_Accept_def)
qed

theorem split_view_absorbing_witness:
  "\<exists>us sv. mo_split (run_ops (Monitor_step sample_crypto) sample_monitor us) = Some sv \<and>
    VerifySplitView sample_crypto (Some sv)
      (mo_logKey (run_ops (Monitor_step sample_crypto) sample_monitor us)) = Inr ()"
proof -
  from sample_split obtain us sv where
    "mo_split (run_ops (Monitor_step sample_crypto) sample_monitor us) = Some sv" by blast
  with split_view_absorbing [of "''log''" "replicate 32 9" second sample_monitor None sample_crypto us sv]
    sample_monitor_new show ?thesis by blast
qed

text \<open>
  C7: Every head a reader ever accepted is a prefix of the one it holds. If the reader's final head is
  the head of a log, then at every earlier moment the head it held was the head of the first entries of that
  log, as many as the head said; otherwise two messages among those hashed on the way collide.
\<close>

theorem accepted_heads_are_prefixes:
  assumes "hash_ok c" and "NewMonitor origin key fresh = Inr m \<or> NewCosignedMonitor origin key fresh policy = Inr m"
    and "mo_latest (run_ops (Monitor_step c) m us) = Some sc"
    and "mo_latest (run_ops (Monitor_step c) m (us @ vs)) = Some final"
    and "sc_Root final = rootOf c (leaf_hashes c es)" and "length es = unat (sc_Size final)"
    and "\<forall>(ck, p, now) \<in> set vs. digests (cp_path p)"
  shows "unat (sc_Size sc) \<le> length es \<and> sc_Root sc = rootOf c (leaf_hashes c (take (unat (sc_Size sc)) es)) \<or>
    collides (sha256 c) (prefix_msgs c (leaf_hashes c es) @ run_msgs c (run_ops (Monitor_step c) m us) vs)"
proof (rule disjCI)
  let ?m = "run_ops (Monitor_step c) m us"
  assume free: "\<not> collides (sha256 c) (prefix_msgs c (leaf_hashes c es) @ run_msgs c ?m vs)"
  have inv: "monitor_inv c ?m"
    using assms(2) NewMonitor_inv NewCosignedMonitor_inv reader.run_inv by blast
  have "unat (sc_Size sc) \<le> length (leaf_hashes c es) \<and>
      sc_Root sc = rootOf c (take (unat (sc_Size sc)) (leaf_hashes c es))"
    by (rule run_prefix [OF assms(1) free _ _ inv assms(3) _ assms(5) _ assms(7)])
      (use assms(1,4,6) in \<open>simp_all add: digests_leaf_hashes\<close>)
  then show "unat (sc_Size sc) \<le> length es \<and> sc_Root sc = rootOf c (leaf_hashes c (take (unat (sc_Size sc)) es))"
    by (simp add: take_map)
qed

theorem accepted_heads_are_prefixes_witness:
  "\<exists>u sc. mo_latest (run_ops (Monitor_step sample_crypto) sample_monitor [u]) = Some sc \<and>
    (unat (sc_Size sc) \<le> 1 \<and>
     sc_Root sc = rootOf sample_crypto (leaf_hashes sample_crypto (take (unat (sc_Size sc)) [[7]])) \<or>
     collides (sha256 sample_crypto) (prefix_msgs sample_crypto (leaf_hashes sample_crypto [[7]]) @
       run_msgs sample_crypto (run_ops (Monitor_step sample_crypto) sample_monitor [u]) []))"
proof -
  from sample_run obtain u m where r: "Monitor_step sample_crypto sample_monitor u = m"
    "mo_latest m = Some \<lparr>sc_Origin = ''log'', sc_Size = 1, sc_Root = HashLeaf sample_crypto [7], sc_Time = 0,
      sc_Encoded = checkpoint_json (fst u)\<rparr>" by blast
  let ?sc = "\<lparr>sc_Origin = ''log'', sc_Size = 1, sc_Root = HashLeaf sample_crypto [7], sc_Time = 0,
      sc_Encoded = checkpoint_json (fst u)\<rparr>"
  from r accepted_heads_are_prefixes [of sample_crypto "''log''" "replicate 32 9" second sample_monitor None "[u]" ?sc
      "[]" ?sc "[[7]]"] sample_monitor_new rootOf_single show ?thesis by (intro exI [of _ u] exI [of _ ?sc]) simp
qed

text \<open>
  What a reader accepted stays in the log. If \<^verbatim>\<open>Accept\<close> passed for an entry at some moment, and
  the reader later holds the head of a log, that entry is in the log at the index the proof named, or
  two messages among those hashed collide.
\<close>

theorem accepted_entry_is_logged:
  assumes "hash_ok c" and "NewMonitor origin key fresh = Inr m \<or> NewCosignedMonitor origin key fresh policy = Inr m"
    and "Monitor_Accept c (run_ops (Monitor_step c) m us) e ip now = Inr ()"
    and "mo_latest (run_ops (Monitor_step c) m (us @ vs)) = Some final"
    and "sc_Root final = rootOf c (leaf_hashes c es)" and "length es = unat (sc_Size final)"
    and "\<forall>(ck, p, now) \<in> set vs. digests (cp_path p)" and "digests (ip_path ip)"
  shows "unat (ip_index ip) < length es \<and> e = es ! unat (ip_index ip) \<or>
    collides (sha256 c) (prefix_msgs c (leaf_hashes c es) @ run_msgs c (run_ops (Monitor_step c) m us) vs @
      leaf_msgs (e # es) @ climb_msgs c (HashLeaf c e) (descend (ip_index ip) (ip_size ip)) (ip_path ip))"
    (is "_ \<or> collides _ ?ms")
proof (rule disjCI)
  let ?m = "run_ops (Monitor_step c) m us"
  assume free: "\<not> collides (sha256 c) ?ms"
  from assms(3) obtain sc where sc: "mo_latest ?m = Some sc" "ip_size ip = sc_Size sc"
      "VerifyInclusion c ip e (sc_Root sc) = Inr ()"
    by (auto simp: Monitor_Accept_def map_sum_def split: option.splits if_splits sum.splits)
  have inv: "monitor_inv c ?m"
    using assms(2) NewMonitor_inv NewCosignedMonitor_inv reader.run_inv by blast
  let ?n = "unat (sc_Size sc)"
  have pre: "?n \<le> length (leaf_hashes c es) \<and> sc_Root sc = rootOf c (take ?n (leaf_hashes c es))"
    by (rule run_prefix [OF assms(1) free _ _ inv sc(1) _ assms(5) _ assms(7)])
      (use assms(1,4,6) in \<open>auto simp: digests_leaf_hashes\<close>)
  then have n: "?n \<le> length es" by simp
  have "e = take ?n es ! unat (ip_index ip)"
  proof (rule VerifyInclusion_sound [OF assms(1) _ _ assms(8) free])
    show "VerifyInclusion c ip e (rootOf c (leaf_hashes c (take ?n es))) = Inr ()"
      using sc(3) pre by (simp add: take_map)
    show "set (node_msgs c (leaf_hashes c (take ?n es))) \<subseteq> set ?ms"
      using node_msgs_prefix [of ?n "leaf_hashes c es" c] n by (auto simp: take_map)
    show "length (take ?n es) = unat (ip_size ip)" using n sc(2) by simp
    show "set (leaf_msgs (e # take ?n es)) \<subseteq> set ?ms" by (auto simp: leaf_msgs_def dest: in_set_takeD)
  qed auto
  moreover have "unat (ip_index ip) < ?n"
    using sc(2,3) by (simp add: VerifyInclusion_ok_iff word_less_nat_alt)
  ultimately show "unat (ip_index ip) < length es \<and> e = es ! unat (ip_index ip)" using n by simp
qed

theorem accepted_entry_is_logged_witness:
  "\<exists>u. Monitor_Accept sample_crypto (run_ops (Monitor_step sample_crypto) sample_monitor [u]) [7]
      \<lparr>ip_index = 0, ip_size = 1, ip_path = []\<rparr> 0 = Inr () \<and>
    (0 < length [[7 :: byte]] \<and> [7] = [[7 :: byte]] ! 0 \<or>
     collides (sha256 sample_crypto) (prefix_msgs sample_crypto (leaf_hashes sample_crypto [[7]]) @
       run_msgs sample_crypto (run_ops (Monitor_step sample_crypto) sample_monitor [u]) [] @
       leaf_msgs [[7], [7]] @ climb_msgs sample_crypto (HashLeaf sample_crypto [7]) (descend 0 1) []))"
proof -
  let ?p = "\<lparr>ip_index = 0, ip_size = 1, ip_path = []\<rparr>"
  from sample_run obtain u m where r: "Monitor_step sample_crypto sample_monitor u = m"
    "mo_latest m = Some \<lparr>sc_Origin = ''log'', sc_Size = 1, sc_Root = HashLeaf sample_crypto [7], sc_Time = 0,
      sc_Encoded = checkpoint_json (fst u)\<rparr>" "mo_freshness m = second" "mo_split m = None" by blast
  then have acc: "Monitor_Accept sample_crypto m [7] ?p 0 = Inr ()"
    by (simp add: Monitor_Accept_def Monitor_Fresh_def VerifyInclusion_def descend.simps climb_def second_def)
  with accepted_entry_is_logged [of sample_crypto "''log''" "replicate 32 9" second sample_monitor None "[u]" "[7]" ?p 0
      "[]" _ "[[7]]"] sample_monitor_new r rootOf_single show ?thesis by (intro exI [of _ u]) simp
qed

section \<open>Properties of the publisher\<close>

text \<open>
  The log holds each entry once, at the index it returned. After any entries have been appended to a
  new log, appending an entry returns the index where that entry stands in the log; the log grows by that entry
  if it was not there and is unchanged if it was; and \<^verbatim>\<open>ProveInclusion\<close> then yields a proof for it
  that \<^verbatim>\<open>VerifyInclusion\<close> accepts against the new head.
\<close>

lemma log_append_once:
  assumes "NewLog origin sk = Inr l0" and "l = run_ops (\<lambda>l e. fst (Log_Append c l e)) l0 es"
    and "go_sized (lg_entries l @ [e])" and "Log_Append c l e = (l', at)"
  shows "lg_entries l' = (if e \<in> set (lg_entries l) then lg_entries l else lg_entries l @ [e]) \<and>
    unat at < length (lg_entries l') \<and> lg_entries l' ! unat at = e \<and>
    (\<exists>p root. Log_ProveInclusion c l' e (Log_Size l') = Inr p \<and>
       Tree_Root c (lg_tree l') (Log_Size l') = Inr root \<and> VerifyInclusion c p e root = Inr ())"
proof -
  have inv: "log_inv c l" using assms(1,2) NewLog_inv publisher.run_inv by blast
  then have inv': "log_inv c l'" using Log_Append_inv [OF inv, of e] assms(4) by simp
  have go: "go_sized (lg_entries l)" using assms(3) by simp
  have main: "lg_entries l' = (if e \<in> set (lg_entries l) then lg_entries l else lg_entries l @ [e]) \<and>
      unat at < length (lg_entries l') \<and> lg_entries l' ! unat at = e \<and> lg_index l' e = Some at"
  proof (cases "e \<in> set (lg_entries l)")
    case True
    then obtain i where i: "i < length (lg_entries l)" "lg_entries l ! i = e" by (auto simp: in_set_conv_nth)
    with Log_Append_known [OF inv i(1)] assms(4) have l': "l' = l" "at = of_nat i" by simp_all
    have "lg_index l e = Some (of_nat i)" using inv i unfolding log_inv_def by blast
    with True i go l' show ?thesis by (simp add: unat_of_nat)
  next
    case False
    from Log_Append_new [OF inv False] assms(4) False go show ?thesis by (auto simp: unat_of_nat)
  qed
  have t: "lg_tree l' = tree_of c (lg_entries l')" using inv' by (simp add: log_inv_def)
  have go': "go_sized (lg_entries l')" using assms(3) main go by simp
  have sz: "unat (Log_Size l') = length (lg_entries l')"
    using Tree_Size_tree_of [OF go'] by (simp add: Log_Size_def t)
  obtain root where root: "Tree_Root c (tree_of c (lg_entries l')) (Log_Size l') = Inr root"
    using Tree_Root_tree_of [OF go', of "Log_Size l'" c] sz by simp
  have at: "at < Log_Size l'" using main sz by (metis word_less_nat_alt)
  have bound: "Log_Size l' \<le> Tree_Size (tree_of c (lg_entries l'))" by (simp add: Log_Size_def t)
  have "leaves (tree_of c (lg_entries l')) ! unat at = HashLeaf c e"
    using main by (metis leaves_tree_of nth_map)
  from ProveInclusion_verifies [OF go_sized_tree [OF go'] at bound this root] obtain p where
    "ProveInclusion c (lg_tree l') at (Log_Size l') = Inr p" "VerifyInclusion c p e root = Inr ()"
    by (auto simp: t)
  with root have "\<exists>p root. ProveInclusion c (lg_tree l') at (Log_Size l') = Inr p \<and>
      Tree_Root c (lg_tree l') (Log_Size l') = Inr root \<and> VerifyInclusion c p e root = Inr ()"
    by (auto simp: t)
  moreover have "lg_index l' e = Some at" using main by blast
  ultimately have "\<exists>p root. Log_ProveInclusion c l' e (Log_Size l') = Inr p \<and>
      Tree_Root c (lg_tree l') (Log_Size l') = Inr root \<and> VerifyInclusion c p e root = Inr ()"
    by (auto simp: Log_ProveInclusion_def)
  with main show ?thesis by blast
qed

text \<open>
  C8: An honest publisher is always followed. Take a publisher that can sign and a reader that has seen
  only its heads (a new reader has). For every size from the reader's up to the log's, and every whole-second
  time not before the held head's, the publisher's checkpoint and consistency proof exist, the reader accepts
  them and still has seen only its heads; and until the freshness window closes it then accepts every entry up to
  that size with the publisher's inclusion proof. So safety is not bought by refusing everything.
\<close>

theorem honest_log_is_followed:
  assumes "hash_ok c" and "sign_ok c" and "log_ready c l" and "go_sized (lg_entries l)" and "honest_view c l m"
    and "held_size m \<le> n" and "unat n \<le> length (lg_entries l)" and "time_valid (now - now mod second)"
    and "\<forall>sc. mo_latest m = Some sc \<longrightarrow> sc_Time sc \<le> now - now mod second"
  shows "\<exists>ck p m'. Log_CheckpointAt c l n now = Inr ck \<and>
    Log_ProveConsistency c l (held_size m) n = Some (Inr p) \<and>
    Monitor_Update c m ck p now = Some (m', Inr ()) \<and> honest_view c l m' \<and>
    (\<forall>i later. i < unat n \<longrightarrow> later \<le> now - now mod second + mo_freshness m \<longrightarrow>
       (\<exists>ip. Log_ProveInclusion c l (lg_entries l ! i) n = Inr ip \<and>
          Monitor_Accept c m' (lg_entries l ! i) ip later = Inr ()))"
proof -
  from honest_update [OF assms] obtain ck p m' where
    u: "Log_CheckpointAt c l n now = Inr ck" "Log_ProveConsistency c l (held_size m) n = Some (Inr p)"
      "Monitor_Update c m ck p now = Some (m', Inr ())" "honest_view c l m'" "mo_freshness m' = mo_freshness m"
    and head: "mo_latest m' = Some \<lparr>sc_Origin = lg_origin l, sc_Size = n,
      sc_Root = mth c (leaf_hashes c (take (unat n) (lg_entries l))),
      sc_Time = now - now mod second, sc_Encoded = checkpoint_json ck\<rparr>" by blast
  have inv: "log_inv c l" and t: "lg_tree l = tree_of c (lg_entries l)"
    using assms(3) by (simp_all add: log_ready_def log_inv_def)
  have bound: "n \<le> Tree_Size (tree_of c (lg_entries l))"
    using assms(7) Tree_Size_tree_of [OF assms(4)] by (simp add: word_le_nat_alt)
  note root = Tree_Root_tree_of [OF assms(4,7), of c]
  have "\<exists>ip. Log_ProveInclusion c l (lg_entries l ! i) n = Inr ip \<and>
      Monitor_Accept c m' (lg_entries l ! i) ip later = Inr ()"
    if i: "i < unat n" and later: "later \<le> now - now mod second + mo_freshness m" for i later
  proof -
    have i': "i < length (lg_entries l)" "i < 2 ^ 64" using i assms(7) unat_u64_less [of n] by simp_all
    then have at: "of_nat i < n" "unat (of_nat i :: u64) = i"
      using i by (simp_all add: word_less_nat_alt unat_of_nat)
    have "leaves (tree_of c (lg_entries l)) ! unat (of_nat i :: u64) = HashLeaf c (lg_entries l ! i)"
      using i' at by (simp add: leaves_tree_of)
    from ProveInclusion_verifies [OF go_sized_tree [OF assms(4)] at(1) bound this root] obtain ip where
      ip: "ProveInclusion c (lg_tree l) (of_nat i) n = Inr ip"
        "VerifyInclusion c ip (lg_entries l ! i) (mth c (leaf_hashes c (take (unat n) (lg_entries l)))) = Inr ()"
      by (auto simp: t)
    have "lg_index l (lg_entries l ! i) = Some (of_nat i)" using inv i' unfolding log_inv_def by blast
    moreover have "ip_size ip = n" using ip(1) by (auto simp: ProveInclusion_def split: if_splits)
    moreover have "mo_split m' = None" using u(4) by (simp add: honest_view_def)
    ultimately show ?thesis
      using ip later u(5) head
      by (auto simp: Log_ProveInclusion_def Monitor_Accept_def Monitor_Fresh_def)
  qed
  with u show ?thesis by blast
qed

theorem honest_log_is_followed_witness:
  "\<exists>ck p m'. Log_CheckpointAt sample_crypto sample_log 1 0 = Inr ck \<and>
    Monitor_Update sample_crypto sample_monitor ck p 0 = Some (m', Inr ()) \<and>
    honest_view sample_crypto sample_log m'"
proof -
  have "held_size sample_monitor \<le> 1" "\<forall>sc. mo_latest sample_monitor = Some sc \<longrightarrow> sc_Time sc \<le> 0 - 0 mod second"
    by (simp_all add: sample_monitor_def held_size_def)
  with honest_log_is_followed [OF sample_hash_ok sample_sign_ok sample_log_ready _ sample_view, of 1 0] time_valid_0
  show ?thesis by (auto simp: sample_log_def)
qed

end
