(* ===== verification/Descriptor.thy ===== *)
theory Descriptor
  imports Checkpoint
begin

text \<open>
  Site descriptors, \<^verbatim>\<open>site/encoding.go\<close> and \<^verbatim>\<open>site/descriptor.go\<close>: the canonical encoding, the site
  identity derived from a genesis descriptor, authorizations, and the verification of one descriptor against
  its predecessor.
\<close>

section \<open>Canonical encoding\<close>

definition maxCanonicalBytes :: nat where "maxCanonicalBytes = 1048576"

definition appendBytes :: "bytes \<Rightarrow> bytes \<Rightarrow> bytes" where
  "appendBytes out value = out @ be64 (of_nat (length value)) @ value"

definition appendKeyList :: "bytes \<Rightarrow> bytes list \<Rightarrow> bytes" where
  "appendKeyList out keys = foldl appendBytes (out @ be64 (of_nat (length keys))) keys"

definition validCanonicalLength :: "nat \<Rightarrow> bool" where
  "validCanonicalLength n \<longleftrightarrow> n \<le> maxCanonicalBytes"

section \<open>Descriptors\<close>

definition maxDescriptorDepth :: nat where "maxDescriptorDepth = 16"
definition DescriptorVersion :: string where "DescriptorVersion = ''nomad-site-descriptor-v1''"
definition MaximumFileBytes :: nat where "MaximumFileBytes = 1048576"
definition siteIDDomain :: string where "siteIDDomain = ''nomad-siteid-v1''"
definition descriptorDigestDom :: string where "descriptorDigestDom = ''nomad-site-descriptor-digest-v1''"
definition authorizationDomain :: string where "authorizationDomain = ''nomad-site-authorization-v1''"
definition TransitionGenesis :: string where "TransitionGenesis = ''genesis''"
definition TransitionRotation :: string where "TransitionRotation = ''rotation''"
definition TransitionRecovery :: string where "TransitionRecovery = ''recovery''"
definition TransitionRevocation :: string where "TransitionRevocation = ''revocation''"
definition RoleSigning :: byte where "RoleSigning = 1"
definition RoleRecovery :: byte where "RoleRecovery = 2"
definition maxKeys :: nat where "maxKeys = 8"
definition maxRevokedKeys :: nat where "maxRevokedKeys = 1024"

record recovery =
  rc_Threshold :: u32
  rc_Keys :: "string list"

record authorization =
  au_Role :: string
  au_Key :: string
  au_Signature :: string

record descriptor =
  ds_Version :: string
  ds_SiteID :: string
  ds_Sequence :: u64
  ds_Transition :: string
  ds_Previous :: string
  ds_ValidFrom :: string
  ds_ValidUntil :: string
  ds_SigningKeys :: "string list"
  ds_RevokedKeys :: "string list"
  ds_Recovery :: recovery
  ds_Authorizations :: "authorization list"

record verified =
  vd_Descriptor :: descriptor
  vd_Digest :: bytes
  vd_SiteID :: bytes
  vd_ValidFrom :: instant
  vd_ValidUntil :: instant

datatype key_error = ListTooLong | BadKeyEncoding

datatype site_error =
    UnsupportedVersion | UnsupportedTransition | BadSiteID | BadPreviousDigest | BadValidFrom | BadValidUntil
  | SigningKeys key_error | RevokedKeys key_error | RecoveryKeys key_error | CanonicalLength
  | NotGenesis | GenesisSequence | GenesisPrevious | NoSigningKey | NoRecoveryKey | BadThreshold
  | DuplicateSigning | DuplicateRevoked | DuplicateRecovery | ActiveAndRevoked | NotDisjoint | RecoveryRevokedInUse
  | UnsupportedRole | AuthorizingKeyRequired | FileSize | DescriptorJson json_error | DescriptorMalformed
  | DescriptorTrailing | WalkDiverges | EmptyWindow | GenesisFollows | GenesisCommitment | GenesisRevokes
  | PreviousRequired | DifferentSite | SequenceStep | BrokenLink | DropsRevoked | ReinstatesRevoked
  | RecoveryKeepsSigning | PolicyAuthority | TooManyAuthorizations | BadAuthorizationKey
  | BadAuthorizationSignature | AuthorizationFails | DuplicateAuthorization | GenesisUnsigned
  | SigningMajority | RecoveryThreshold | BadPreviousKey | NotPossessed | NilPreviousPanic

definition decodeBoundedKeyList :: "string list \<Rightarrow> nat \<Rightarrow> key_error + bytes list" where
  "decodeBoundedKeyList encoded limit =
     (if length encoded > limit then Inl ListTooLong
      else expect (those (map (decodeBase64 publicKeySize) encoded)) BadKeyEncoding)"

definition decodeKeyList :: "string list \<Rightarrow> key_error + bytes list" where
  "decodeKeyList encoded = decodeBoundedKeyList encoded maxKeys"

definition zeroDigestHex :: string where
  "zeroDigestHex = hex_EncodeToString (replicate 32 0)"

definition canonicalBytes :: "descriptor \<Rightarrow> bool \<Rightarrow> site_error + bytes" where
  "canonicalBytes d zeroSiteID =
     andThen (require (ds_Version d = DescriptorVersion) UnsupportedVersion) (\<lambda>_.
     andThen (require (ds_Transition d \<in> {TransitionGenesis, TransitionRotation, TransitionRecovery, TransitionRevocation})
       UnsupportedTransition) (\<lambda>_.
     andThen (if zeroSiteID then Inr (replicate 32 0) else expect (decodeHex 32 (ds_SiteID d)) BadSiteID) (\<lambda>siteID.
     andThen (expect (decodeHex 32 (ds_Previous d)) BadPreviousDigest) (\<lambda>previous.
     andThen (require (validateCanonicalTime (ds_ValidFrom d)) BadValidFrom) (\<lambda>_.
     andThen (require (validateCanonicalTime (ds_ValidUntil d)) BadValidUntil) (\<lambda>_.
     andThen (map_sum SigningKeys id (decodeKeyList (ds_SigningKeys d))) (\<lambda>signing.
     andThen (map_sum RevokedKeys id (decodeBoundedKeyList (ds_RevokedKeys d) maxRevokedKeys)) (\<lambda>revoked.
     andThen (map_sum RecoveryKeys id (decodeKeyList (rc_Keys (ds_Recovery d)))) (\<lambda>recovery.
       let canonical = appendString [] (ds_Version d) @ siteID;
           canonical = canonical @ be64 (ds_Sequence d);
           canonical = appendString canonical (ds_Transition d) @ previous;
           canonical = appendString (appendString canonical (ds_ValidFrom d)) (ds_ValidUntil d);
           canonical = appendKeyList (appendKeyList canonical signing) revoked;
           canonical = appendKeyList (canonical @ be32 (rc_Threshold (ds_Recovery d))) recovery
       in if validCanonicalLength (length canonical) then Inr canonical else Inl CanonicalLength)))))))))"

definition containsKey :: "bytes list \<Rightarrow> bytes \<Rightarrow> bool" where
  "containsKey keys key \<longleftrightarrow> key \<in> set keys"

definition requireDistinct :: "bytes list \<Rightarrow> 'e \<Rightarrow> 'e + unit" where
  "requireDistinct keys e = require (distinct keys) e"

definition validateStructure :: "descriptor \<Rightarrow> site_error + unit" where
  "validateStructure d =
     andThen (map_sum SigningKeys id (decodeKeyList (ds_SigningKeys d))) (\<lambda>signing.
     andThen (require (signing \<noteq> []) NoSigningKey) (\<lambda>_.
     andThen (map_sum RevokedKeys id (decodeBoundedKeyList (ds_RevokedKeys d) maxRevokedKeys)) (\<lambda>revoked.
     andThen (map_sum RecoveryKeys id (decodeKeyList (rc_Keys (ds_Recovery d)))) (\<lambda>recovery.
     andThen (require (recovery \<noteq> []) NoRecoveryKey) (\<lambda>_.
     andThen (require (1 \<le> rc_Threshold (ds_Recovery d) \<and> unat (rc_Threshold (ds_Recovery d)) \<le> length recovery)
       BadThreshold) (\<lambda>_.
     andThen (requireDistinct signing DuplicateSigning) (\<lambda>_.
     andThen (requireDistinct revoked DuplicateRevoked) (\<lambda>_.
     andThen (requireDistinct recovery DuplicateRecovery) (\<lambda>_.
     andThen (case List.find (\<lambda>key. containsKey revoked key \<or> containsKey recovery key) signing of
                None \<Rightarrow> Inr ()
              | Some key \<Rightarrow> Inl (if containsKey revoked key then ActiveAndRevoked else NotDisjoint)) (\<lambda>_.
       require (\<not> (\<exists>key \<in> set recovery. containsKey revoked key)) RecoveryRevokedInUse))))))))))"

section \<open>Identity, digest and authorizations\<close>

definition DeriveID :: "crypto \<Rightarrow> descriptor \<Rightarrow> site_error + bytes" where
  "DeriveID c d =
     andThen (require (ds_Transition d = TransitionGenesis) NotGenesis) (\<lambda>_.
     andThen (require (ds_Sequence d = 0) GenesisSequence) (\<lambda>_.
     andThen (require (ds_Previous d = zeroDigestHex) GenesisPrevious) (\<lambda>_.
     andThen (validateStructure d) (\<lambda>_.
     andThen (canonicalBytes d True) (\<lambda>core.
       Inr (sha256 c (bytes_of siteIDDomain @ core)))))))"

definition Digest :: "crypto \<Rightarrow> descriptor \<Rightarrow> site_error + bytes" where
  "Digest c d = andThen (canonicalBytes d False) (\<lambda>canonical. Inr (sha256 c (bytes_of descriptorDigestDom @ canonical)))"

definition AuthorizationMessage :: "bytes \<Rightarrow> byte \<Rightarrow> bytes \<Rightarrow> bytes" where
  "AuthorizationMessage digest role key = bytes_of authorizationDomain @ digest @ [role] @ key"

definition roleByte :: "string \<Rightarrow> site_error + byte" where
  "roleByte role =
     (if role = ''signing'' then Inr RoleSigning
      else if role = ''recovery'' then Inr RoleRecovery
      else Inl UnsupportedRole)"

definition Authorize :: "crypto \<Rightarrow> descriptor \<Rightarrow> string \<Rightarrow> bytes \<Rightarrow> site_error + authorization" where
  "Authorize c d role private =
     andThen (require (length private = privateKeySize) AuthorizingKeyRequired) (\<lambda>_.
     andThen (roleByte role) (\<lambda>value.
     andThen (Digest c d) (\<lambda>digest.
       let public = ed_public c private;
           signature = ed_sign c private (AuthorizationMessage digest value public)
       in Inr \<lparr>au_Role = role, au_Key = b64_EncodeToString public, au_Signature = b64_EncodeToString signature\<rparr>)))"

text \<open>JSON reading, as for checkpoints: the token stream and the struct decoder are arguments.\<close>

record site_json =
  sj_tokens :: "bytes \<Rightarrow> jtoken list"
  sj_descriptor :: "bytes \<Rightarrow> (descriptor \<times> bool) option"

definition site_Decode :: "site_json \<Rightarrow> bytes \<Rightarrow> site_error + descriptor" where
  "site_Decode j encoded =
     (if length encoded = 0 \<or> length encoded > MaximumFileBytes then Inl FileSize
      else case RejectDuplicateKeys (sj_tokens j) encoded maxDescriptorDepth of
             None \<Rightarrow> Inl WalkDiverges
           | Some (Inl e) \<Rightarrow> Inl (DescriptorJson e)
           | Some (Inr _) \<Rightarrow>
               (case sj_descriptor j encoded of
                  None \<Rightarrow> Inl DescriptorMalformed
                | Some (d, trailing) \<Rightarrow> if trailing then Inl DescriptorTrailing else Inr d))"

section \<open>Verification\<close>

definition checkRevocationIsAbsorbing :: "descriptor \<Rightarrow> verified \<Rightarrow> site_error + unit" where
  "checkRevocationIsAbsorbing d previous =
     andThen (map_sum RevokedKeys id (decodeBoundedKeyList (ds_RevokedKeys (vd_Descriptor previous)) maxRevokedKeys)) (\<lambda>previousRevoked.
     andThen (map_sum RevokedKeys id (decodeBoundedKeyList (ds_RevokedKeys d) maxRevokedKeys)) (\<lambda>revoked.
     andThen (require (\<forall>key \<in> set previousRevoked. containsKey revoked key) DropsRevoked) (\<lambda>_.
     andThen (map_sum SigningKeys id (decodeKeyList (ds_SigningKeys d))) (\<lambda>signing.
     andThen (map_sum RecoveryKeys id (decodeKeyList (rc_Keys (ds_Recovery d)))) (\<lambda>recovery.
       require (\<not> (\<exists>key \<in> set (signing @ recovery). containsKey previousRevoked key)) ReinstatesRevoked)))))"

text \<open>
  The inner loop of the two checks below: some authorization of this descriptor, with this role and this
  spelling of the key, carries a signature that verifies.
\<close>

definition proves :: "crypto \<Rightarrow> descriptor \<Rightarrow> bytes \<Rightarrow> string \<Rightarrow> byte \<Rightarrow> string \<Rightarrow> bytes \<Rightarrow> bool" where
  "proves c d digest role value encoded key \<longleftrightarrow>
     (\<exists>a \<in> set (ds_Authorizations d). au_Role a = role \<and> au_Key a = encoded \<and>
        (case decodeBase64 signatureSize (au_Signature a) of
           None \<Rightarrow> False
         | Some signature \<Rightarrow> ed_verify c key (AuthorizationMessage digest value key) signature))"

fun possessed :: "crypto \<Rightarrow> descriptor \<Rightarrow> bytes \<Rightarrow> string set \<Rightarrow> string \<Rightarrow> byte \<Rightarrow> string list \<Rightarrow> site_error + unit" where
  "possessed c d digest known role value [] = Inr ()"
| "possessed c d digest known role value (encoded # keys) =
     (if encoded \<in> known then possessed c d digest known role value keys
      else andThen (expect (decodeBase64 publicKeySize encoded) BadPreviousKey) (\<lambda>key.
        if proves c d digest role value encoded key then possessed c d digest known role value keys
        else Inl NotPossessed))"

definition requirePossessionOfNewKeys :: "crypto \<Rightarrow> descriptor \<Rightarrow> bytes \<Rightarrow> verified option \<Rightarrow> site_error + unit" where
  "requirePossessionOfNewKeys c d digest previous =
     (case previous of
        None \<Rightarrow> Inr ()
      | Some p \<Rightarrow>
          let known = set (ds_SigningKeys (vd_Descriptor p)) \<union> set (rc_Keys (ds_Recovery (vd_Descriptor p))) in
          andThen (possessed c d digest known ''signing'' RoleSigning (ds_SigningKeys d)) (\<lambda>_.
            possessed c d digest known ''recovery'' RoleRecovery (rc_Keys (ds_Recovery d))))"

fun countProved :: "crypto \<Rightarrow> descriptor \<Rightarrow> bytes \<Rightarrow> string list \<Rightarrow> site_error + nat" where
  "countProved c d digest [] = Inr 0"
| "countProved c d digest (encoded # keys) =
     andThen (expect (decodeBase64 publicKeySize encoded) BadPreviousKey) (\<lambda>key.
       map_sum id (\<lambda>n. if proves c d digest ''recovery'' RoleRecovery encoded key then Suc n else n)
         (countProved c d digest keys))"

definition checkRecoveryPolicyAuthority :: "crypto \<Rightarrow> descriptor \<Rightarrow> verified \<Rightarrow> site_error + unit" where
  "checkRecoveryPolicyAuthority c d previous =
     (let old = ds_Recovery (vd_Descriptor previous);
          unchanged = (rc_Threshold (ds_Recovery d) = rc_Threshold old \<and> rc_Keys (ds_Recovery d) = rc_Keys old)
      in andThen (map_sum RevokedKeys id (decodeBoundedKeyList (ds_RevokedKeys d) maxRevokedKeys)) (\<lambda>revoked.
         andThen (map_sum RecoveryKeys id (decodeKeyList (rc_Keys old))) (\<lambda>previousRecovery.
           let revokesRecovery = (\<exists>key \<in> set previousRecovery. containsKey revoked key) in
           if unchanged \<and> \<not> revokesRecovery then Inr ()
           else andThen (Digest c d) (\<lambda>digest.
                andThen (countProved c d digest (rc_Keys old)) (\<lambda>count.
                  require (unat (rc_Threshold old) \<le> count) PolicyAuthority)))))"

definition requireRecoveryRevokesPriorSigning :: "descriptor \<Rightarrow> verified \<Rightarrow> site_error + unit" where
  "requireRecoveryRevokesPriorSigning d previous =
     andThen (map_sum SigningKeys id (decodeKeyList (ds_SigningKeys (vd_Descriptor previous)))) (\<lambda>previousSigning.
     andThen (map_sum RevokedKeys id (decodeBoundedKeyList (ds_RevokedKeys d) maxRevokedKeys)) (\<lambda>revoked.
       require (\<forall>key \<in> set previousSigning. containsKey revoked key) RecoveryKeepsSigning))"

definition authIdentifier :: "string \<Rightarrow> bytes \<Rightarrow> bytes" where
  "authIdentifier role key = bytes_of (role @ '':'') @ key"

fun authorizationsLoop :: "crypto \<Rightarrow> bytes \<Rightarrow> bytes set \<Rightarrow> authorization list \<Rightarrow> site_error + bytes set" where
  "authorizationsLoop c digest verified [] = Inr verified"
| "authorizationsLoop c digest verified (a # as) =
     andThen (roleByte (au_Role a)) (\<lambda>role.
     andThen (expect (decodeBase64 publicKeySize (au_Key a)) BadAuthorizationKey) (\<lambda>key.
     andThen (expect (decodeBase64 signatureSize (au_Signature a)) BadAuthorizationSignature) (\<lambda>signature.
     andThen (require (ed_verify c key (AuthorizationMessage digest role key) signature) AuthorizationFails) (\<lambda>_.
     andThen (require (authIdentifier (au_Role a) key \<notin> verified) DuplicateAuthorization) (\<lambda>_.
       authorizationsLoop c digest (insert (authIdentifier (au_Role a) key) verified) as)))))"

fun selfSigned :: "bytes set \<Rightarrow> string \<Rightarrow> string list \<Rightarrow> site_error + unit" where
  "selfSigned verified role [] = Inr ()"
| "selfSigned verified role (encoded # keys) =
     andThen (expect (decodeBase64 publicKeySize encoded) BadPreviousKey) (\<lambda>key.
       if authIdentifier role key \<in> verified then selfSigned verified role keys else Inl GenesisUnsigned)"

fun countVerified :: "bytes set \<Rightarrow> string \<Rightarrow> string list \<Rightarrow> site_error + nat" where
  "countVerified verified role [] = Inr 0"
| "countVerified verified role (encoded # keys) =
     andThen (expect (decodeBase64 publicKeySize encoded) BadPreviousKey) (\<lambda>key.
       map_sum id (\<lambda>n. if authIdentifier role key \<in> verified then Suc n else n) (countVerified verified role keys))"

definition requireSigningMajority :: "bytes set \<Rightarrow> verified \<Rightarrow> site_error + unit" where
  "requireSigningMajority verified previous =
     (let keys = ds_SigningKeys (vd_Descriptor previous) in
      andThen (countVerified verified ''signing'' keys) (\<lambda>count.
        require (length keys div 2 + 1 \<le> count) SigningMajority))"

definition requireRecoveryThreshold :: "bytes set \<Rightarrow> verified \<Rightarrow> site_error + unit" where
  "requireRecoveryThreshold verified previous =
     (let old = ds_Recovery (vd_Descriptor previous) in
      andThen (countVerified verified ''recovery'' (rc_Keys old)) (\<lambda>count.
        require (unat (rc_Threshold old) \<le> count) RecoveryThreshold))"

definition verifyAuthorizations :: "crypto \<Rightarrow> descriptor \<Rightarrow> bytes \<Rightarrow> verified option \<Rightarrow> site_error + unit" where
  "verifyAuthorizations c d digest previous =
     andThen (require (length (ds_Authorizations d) \<le> 4 * maxKeys) TooManyAuthorizations) (\<lambda>_.
     andThen (authorizationsLoop c digest {} (ds_Authorizations d)) (\<lambda>verified.
       if ds_Transition d = TransitionGenesis then
         andThen (selfSigned verified ''signing'' (ds_SigningKeys d)) (\<lambda>_.
           selfSigned verified ''recovery'' (rc_Keys (ds_Recovery d)))
       else case previous of
              None \<Rightarrow> Inl NilPreviousPanic
            | Some p \<Rightarrow>
                if ds_Transition d = TransitionRotation then requireSigningMajority verified p
                else if ds_Transition d = TransitionRecovery then requireRecoveryThreshold verified p
                else if ds_Transition d = TransitionRevocation then
                  (case requireSigningMajority verified p of
                     Inr _ \<Rightarrow> Inr ()
                   | Inl _ \<Rightarrow> requireRecoveryThreshold verified p)
                else Inl UnsupportedTransition))"

definition genesisChecks :: "crypto \<Rightarrow> descriptor \<Rightarrow> bytes \<Rightarrow> verified option \<Rightarrow> site_error + unit" where
  "genesisChecks c d siteID previous =
     andThen (require (previous = None) GenesisFollows) (\<lambda>_.
     andThen (DeriveID c d) (\<lambda>derived.
     andThen (require (derived = siteID) GenesisCommitment) (\<lambda>_.
       require (ds_RevokedKeys d = []) GenesisRevokes)))"

definition successorChecks :: "crypto \<Rightarrow> descriptor \<Rightarrow> bytes \<Rightarrow> verified \<Rightarrow> site_error + unit" where
  "successorChecks c d siteID p =
     andThen (require (siteID = vd_SiteID p) DifferentSite) (\<lambda>_.
     andThen (require (ds_Sequence d = ds_Sequence (vd_Descriptor p) + 1) SequenceStep) (\<lambda>_.
     andThen (require (ds_Previous d = hex_EncodeToString (vd_Digest p)) BrokenLink) (\<lambda>_.
     andThen (checkRevocationIsAbsorbing d p) (\<lambda>_.
     andThen (if ds_Transition d = TransitionRecovery then requireRecoveryRevokesPriorSigning d p else Inr ()) (\<lambda>_.
       checkRecoveryPolicyAuthority c d p)))))"

definition VerifyDescriptor :: "crypto \<Rightarrow> descriptor \<Rightarrow> verified option \<Rightarrow> site_error + verified" where
  "VerifyDescriptor c d previous =
     andThen (Digest c d) (\<lambda>digest.
     andThen (validateStructure d) (\<lambda>_.
       let validFrom = (case time_Parse (ds_ValidFrom d) of None \<Rightarrow> 0 | Some t \<Rightarrow> t);
           validUntil = (case time_Parse (ds_ValidUntil d) of None \<Rightarrow> 0 | Some t \<Rightarrow> t)
       in
     andThen (require (validFrom < validUntil) EmptyWindow) (\<lambda>_.
     andThen (expect (decodeHex 32 (ds_SiteID d)) BadSiteID) (\<lambda>siteID.
     andThen (if ds_Transition d = TransitionGenesis then genesisChecks c d siteID previous
              else case previous of None \<Rightarrow> Inl PreviousRequired | Some p \<Rightarrow> successorChecks c d siteID p) (\<lambda>_.
     andThen (verifyAuthorizations c d digest previous) (\<lambda>_.
     andThen (requirePossessionOfNewKeys c d digest previous) (\<lambda>_.
       Inr \<lparr>vd_Descriptor = d, vd_Digest = digest, vd_SiteID = siteID, vd_ValidFrom = validFrom,
            vd_ValidUntil = validUntil\<rparr>)))))))"

definition Verify :: "crypto \<Rightarrow> site_json \<Rightarrow> bytes \<Rightarrow> verified option \<Rightarrow> site_error + verified" where
  "Verify c j encoded previous = andThen (site_Decode j encoded) (\<lambda>d. VerifyDescriptor c d previous)"

definition ActiveAt :: "verified \<Rightarrow> instant \<Rightarrow> bool" where
  "ActiveAt v now \<longleftrightarrow> \<not> now < vd_ValidFrom v \<and> now < vd_ValidUntil v"

definition AuthorizesKey :: "verified \<Rightarrow> bytes \<Rightarrow> bool" where
  "AuthorizesKey v key =
     (case decodeKeyList (ds_SigningKeys (vd_Descriptor v)) of
        Inl _ \<Rightarrow> False
      | Inr signing \<Rightarrow>
          (case decodeBoundedKeyList (ds_RevokedKeys (vd_Descriptor v)) maxRevokedKeys of
             Inl _ \<Rightarrow> False
           | Inr revoked \<Rightarrow> containsKey signing key \<and> \<not> containsKey revoked key))"

section \<open>Key lists and the canonical form\<close>

lemma those_decode:
  "those (map (decodeBase64 n) encoded) = Some keys \<longleftrightarrow>
     encoded = map b64_EncodeToString keys \<and> (\<forall>k \<in> set keys. length k = n)"
proof (induction encoded arbitrary: keys)
  case (Cons e encoded)
  show ?case
  proof (cases "decodeBase64 n e")
    case None
    have "e # encoded \<noteq> map b64_EncodeToString keys \<or> \<not> (\<forall>k \<in> set keys. length k = n)"
      using b64.dec_enc None by (cases keys) auto
    with None show ?thesis by auto
  next
    case (Some k)
    then have k: "e = b64_EncodeToString k" "length k = n" by (simp_all add: b64.dec_iff)
    have "those (map (decodeBase64 n) (e # encoded)) = Some keys \<longleftrightarrow>
        (\<exists>ks. those (map (decodeBase64 n) encoded) = Some ks \<and> keys = k # ks)"
      using Some by (auto split: option.splits)
    also have "\<dots> \<longleftrightarrow> (\<exists>ks. encoded = map b64_EncodeToString ks \<and> (\<forall>k \<in> set ks. length k = n) \<and> keys = k # ks)"
      by (simp add: Cons.IH)
    also have "\<dots> \<longleftrightarrow> e # encoded = map b64_EncodeToString keys \<and> (\<forall>k \<in> set keys. length k = n)"
      using k b64.enc_eq_iff by (cases keys) auto
    finally show ?thesis .
  qed
qed auto

lemma decodeBoundedKeyList_Inr [guard_simps]:
  "decodeBoundedKeyList encoded limit = Inr keys \<longleftrightarrow>
     length keys \<le> limit \<and> encoded = map b64_EncodeToString keys \<and> (\<forall>k \<in> set keys. length k = publicKeySize)"
  by (auto simp: decodeBoundedKeyList_def guard_simps those_decode)

lemma decodeKeyList_Inr [guard_simps]:
  "decodeKeyList encoded = Inr keys \<longleftrightarrow>
     length keys \<le> maxKeys \<and> encoded = map b64_EncodeToString keys \<and> (\<forall>k \<in> set keys. length k = publicKeySize)"
  by (simp add: decodeKeyList_def guard_simps)

lemma appendKeyList_eq: "appendKeyList out keys = out @ be64 (of_nat (length keys)) @ concat (map prefixed keys)"
proof -
  have "foldl appendBytes acc keys = acc @ concat (map prefixed keys)" for acc
    by (induction keys arbitrary: acc) (simp_all add: appendBytes_def prefixed_def)
  then show ?thesis by (simp add: appendKeyList_def)
qed

definition key_block :: "bytes list \<Rightarrow> bytes" where
  "key_block keys = be64 (of_nat (length keys)) @ concat (map prefixed keys)"

lemma concat_prefixed_inj:
  assumes "\<forall>k \<in> set xs \<union> set ys. go_sized k" and "length xs = length ys"
  shows "concat (map prefixed xs) @ r = concat (map prefixed ys) @ t \<longleftrightarrow> xs = ys \<and> r = t"
  using assms(2,1)
  by (induction xs ys rule: list_induct2) (auto simp: prefixed_append_inj)

lemma key_block_inj:
  assumes "\<forall>k \<in> set xs \<union> set ys. length k = publicKeySize" and "length xs \<le> maxRevokedKeys" and "length ys \<le> maxRevokedKeys"
  shows "key_block xs @ r = key_block ys @ t \<longleftrightarrow> xs = ys \<and> r = t"
proof
  assume eq: "key_block xs @ r = key_block ys @ t"
  then have n: "be64 (of_nat (length xs)) = be64 (of_nat (length ys))"
    and rest: "concat (map prefixed xs) @ r = concat (map prefixed ys) @ t"
    by (simp_all add: key_block_def)
  from n have "(of_nat (length xs) :: u64) = of_nat (length ys)" by (simp only: be64_inj)
  moreover have "length xs < 2 ^ 64" "length ys < 2 ^ 64" using assms(2,3) by (simp_all add: maxRevokedKeys_def)
  ultimately have "length xs = length ys" by (simp only: of_nat_u64_inj)
  with rest assms(1) show "xs = ys \<and> r = t"
    by (simp add: concat_prefixed_inj publicKeySize_def)
qed simp

text \<open>The canonical form in terms of the decoded fields.\<close>

definition canonical_form :: "descriptor \<Rightarrow> bytes \<Rightarrow> bytes \<Rightarrow> bytes list \<Rightarrow> bytes list \<Rightarrow> bytes list \<Rightarrow> bytes" where
  "canonical_form d siteID previous signing revoked recovery =
     prefixed (bytes_of (ds_Version d)) @ siteID @ be64 (ds_Sequence d) @ prefixed (bytes_of (ds_Transition d)) @
     previous @ prefixed (bytes_of (ds_ValidFrom d)) @ prefixed (bytes_of (ds_ValidUntil d)) @ key_block signing @
     key_block revoked @ be32 (rc_Threshold (ds_Recovery d)) @ key_block recovery"

lemma canonicalBytes_Inr:
  assumes "canonicalBytes d z = Inr x"
  obtains siteID previous signing revoked recovery where
    "x = canonical_form d siteID previous signing revoked recovery"
    "z \<longrightarrow> siteID = replicate 32 0" "\<not> z \<longrightarrow> decodeHex 32 (ds_SiteID d) = Some siteID" "length siteID = 32"
    "decodeHex 32 (ds_Previous d) = Some previous" "ds_Version d = DescriptorVersion"
    "ds_Transition d \<in> {TransitionGenesis, TransitionRotation, TransitionRecovery, TransitionRevocation}"
    "\<exists>t. time_Parse (ds_ValidFrom d) = Some t" "\<exists>t. time_Parse (ds_ValidUntil d) = Some t"
    "decodeKeyList (ds_SigningKeys d) = Inr signing" "decodeBoundedKeyList (ds_RevokedKeys d) maxRevokedKeys = Inr revoked"
    "decodeKeyList (rc_Keys (ds_Recovery d)) = Inr recovery"
proof -
  from assms obtain siteID previous signing revoked recovery where
    id: "(if z then Inr (replicate 32 0) else expect (decodeHex 32 (ds_SiteID d)) BadSiteID) = Inr siteID"
    and f: "decodeHex 32 (ds_Previous d) = Some previous" "ds_Version d = DescriptorVersion"
    "ds_Transition d \<in> {TransitionGenesis, TransitionRotation, TransitionRecovery, TransitionRevocation}"
    "validateCanonicalTime (ds_ValidFrom d)" "validateCanonicalTime (ds_ValidUntil d)"
    "decodeKeyList (ds_SigningKeys d) = Inr signing" "decodeBoundedKeyList (ds_RevokedKeys d) maxRevokedKeys = Inr revoked"
    "decodeKeyList (rc_Keys (ds_Recovery d)) = Inr recovery"
    and x: "x = canonical_form d siteID previous signing revoked recovery"
    unfolding canonicalBytes_def andThen_Inr require_Inr expect_Inr map_sum_Inr
    by (auto simp: Let_def canonical_form_def appendKeyList_eq appendString_prefixed key_block_def split: if_splits)
  have "z \<longrightarrow> siteID = replicate 32 0" "\<not> z \<longrightarrow> decodeHex 32 (ds_SiteID d) = Some siteID" "length siteID = 32"
    using id by (auto simp: expect_Inr hex32.dec_valid split: if_splits)
  with that x f show thesis by (simp add: validateCanonicalTime_iff)
qed

lemma time_field_sized: "\<exists>t. time_Parse s = Some t \<Longrightarrow> go_sized (bytes_of s)"
  using length_time_Format rfc3339.enc_dec by fastforce

lemma canonical_inj:
  assumes "canonicalBytes d z = Inr x" and "canonicalBytes d' z = Inr x"
  shows "d'\<lparr>ds_Authorizations := ds_Authorizations d, ds_SiteID := if z then ds_SiteID d else ds_SiteID d'\<rparr> = d"
proof -
  from assms(1) obtain i p s r y where
    x: "x = canonical_form d i p s r y" and i0: "z \<longrightarrow> i = replicate 32 0"
    and i: "\<not> z \<longrightarrow> decodeHex 32 (ds_SiteID d) = Some i" "length i = 32"
    and p: "decodeHex 32 (ds_Previous d) = Some p" "ds_Version d = DescriptorVersion"
    and tr: "ds_Transition d \<in> {TransitionGenesis, TransitionRotation, TransitionRecovery, TransitionRevocation}"
    and t: "\<exists>t. time_Parse (ds_ValidFrom d) = Some t" "\<exists>t. time_Parse (ds_ValidUntil d) = Some t"
    and k: "decodeKeyList (ds_SigningKeys d) = Inr s" "decodeBoundedKeyList (ds_RevokedKeys d) maxRevokedKeys = Inr r"
      "decodeKeyList (rc_Keys (ds_Recovery d)) = Inr y"
    by (rule canonicalBytes_Inr)
  from assms(2) obtain i' p' s' r' y' where
    x': "x = canonical_form d' i' p' s' r' y'" and i0': "z \<longrightarrow> i' = replicate 32 0"
    and i': "\<not> z \<longrightarrow> decodeHex 32 (ds_SiteID d') = Some i'" "length i' = 32"
    and p': "decodeHex 32 (ds_Previous d') = Some p'" "ds_Version d' = DescriptorVersion"
    and tr': "ds_Transition d' \<in> {TransitionGenesis, TransitionRotation, TransitionRecovery, TransitionRevocation}"
    and t': "\<exists>t. time_Parse (ds_ValidFrom d') = Some t" "\<exists>t. time_Parse (ds_ValidUntil d') = Some t"
    and k': "decodeKeyList (ds_SigningKeys d') = Inr s'" "decodeBoundedKeyList (ds_RevokedKeys d') maxRevokedKeys = Inr r'"
      "decodeKeyList (rc_Keys (ds_Recovery d')) = Inr y'"
    by (rule canonicalBytes_Inr)
  have sized: "go_sized (bytes_of (ds_Transition d))" "go_sized (bytes_of (ds_Transition d'))"
    using tr tr' by (auto simp: TransitionGenesis_def TransitionRotation_def TransitionRecovery_def TransitionRevocation_def)
  note tsized = t [THEN time_field_sized] t' [THEN time_field_sized]
  have lens: "length p = 32" "length p' = 32" using p p' hex32.dec_valid by blast+
  note k0 = k [unfolded guard_simps] k' [unfolded guard_simps]
  have blocks: "key_block s @ a = key_block s' @ b \<longleftrightarrow> s = s' \<and> a = b"
      "key_block r @ a = key_block r' @ b \<longleftrightarrow> r = r' \<and> a = b" "key_block y @ a = key_block y' @ b \<longleftrightarrow> y = y' \<and> a = b" for a b
    using k0 by (intro key_block_inj; auto simp: maxKeys_def maxRevokedKeys_def)+
  have "canonical_form d i p s r y @ [] = canonical_form d' i' p' s' r' y' @ []" using x x' by simp
  then have eq: "i = i'" "ds_Sequence d = ds_Sequence d'" "ds_Transition d = ds_Transition d'" "p = p'"
      "ds_ValidFrom d = ds_ValidFrom d'" "ds_ValidUntil d = ds_ValidUntil d'" "s = s'" "r = r'"
      "rc_Threshold (ds_Recovery d) = rc_Threshold (ds_Recovery d')" "y = y'"
    unfolding canonical_form_def append_assoc p(2) p'(2)
    using i(2) i'(2) lens sized tsized by (simp_all add: prefixed_append_inj blocks blocks(3) [of "[]" "[]", simplified])
  have "ds_SiteID d = ds_SiteID d'" if "\<not> z" using i i' eq(1) that hex32.one_spelling by blast
  moreover have "ds_Previous d = ds_Previous d'" using p(1) p'(1) eq(4) hex32.one_spelling by blast
  moreover have "ds_SigningKeys d = ds_SigningKeys d'" "ds_RevokedKeys d = ds_RevokedKeys d'"
      "rc_Keys (ds_Recovery d) = rc_Keys (ds_Recovery d')"
    using k0 eq by simp_all
  ultimately show ?thesis using eq p(2) p'(2) by (intro descriptor.equality) (auto intro: recovery.equality)
qed

section \<open>What a verified descriptor is\<close>

lemma Digest_Inr [guard_simps]:
  "Digest c d = Inr x \<longleftrightarrow> (\<exists>canonical. canonicalBytes d False = Inr canonical \<and> x = sha256 c (bytes_of descriptorDigestDom @ canonical))"
  by (auto simp: Digest_def guard_simps)

lemma VerifyDescriptor_Inr:
  assumes "VerifyDescriptor c d previous = Inr v"
  shows "vd_Descriptor v = d" "Digest c d = Inr (vd_Digest v)" "validateStructure d = Inr ()"
    "decodeHex 32 (ds_SiteID d) = Some (vd_SiteID v)" "vd_ValidFrom v < vd_ValidUntil v"
    "ds_Transition d = TransitionGenesis \<longrightarrow> genesisChecks c d (vd_SiteID v) previous = Inr ()"
    "ds_Transition d \<noteq> TransitionGenesis \<longrightarrow> (\<exists>p. previous = Some p \<and> successorChecks c d (vd_SiteID v) p = Inr ())"
    "verifyAuthorizations c d (vd_Digest v) previous = Inr ()"
    "requirePossessionOfNewKeys c d (vd_Digest v) previous = Inr ()"
    "time_Parse (ds_ValidFrom d) = Some (vd_ValidFrom v)" "time_Parse (ds_ValidUntil d) = Some (vd_ValidUntil v)"
proof -
  let ?from = "case time_Parse (ds_ValidFrom d) of None \<Rightarrow> 0 | Some t \<Rightarrow> t"
    and ?until = "case time_Parse (ds_ValidUntil d) of None \<Rightarrow> 0 | Some t \<Rightarrow> t"
  from assms obtain digest siteID where
    v: "\<lparr>vd_Descriptor = d, vd_Digest = digest, vd_SiteID = siteID, vd_ValidFrom = ?from, vd_ValidUntil = ?until\<rparr> = v"
    and f: "Digest c d = Inr digest" "validateStructure d = Inr ()" "?from < ?until" "decodeHex 32 (ds_SiteID d) = Some siteID"
      "(if ds_Transition d = TransitionGenesis then genesisChecks c d siteID previous
        else case previous of None \<Rightarrow> Inl PreviousRequired | Some p \<Rightarrow> successorChecks c d siteID p) = Inr ()"
      "verifyAuthorizations c d digest previous = Inr ()" "requirePossessionOfNewKeys c d digest previous = Inr ()"
    unfolding VerifyDescriptor_def Let_def andThen_Inr require_Inr expect_Inr sum.inject
    by (elim exE conjE) (metis (full_types) old.unit.exhaust)
  note v = v [symmetric]
  from v f show "vd_Descriptor v = d" "Digest c d = Inr (vd_Digest v)" "validateStructure d = Inr ()"
    "decodeHex 32 (ds_SiteID d) = Some (vd_SiteID v)" "vd_ValidFrom v < vd_ValidUntil v"
    "verifyAuthorizations c d (vd_Digest v) previous = Inr ()" "requirePossessionOfNewKeys c d (vd_Digest v) previous = Inr ()"
    by simp_all
  show "ds_Transition d = TransitionGenesis \<longrightarrow> genesisChecks c d (vd_SiteID v) previous = Inr ()"
    "ds_Transition d \<noteq> TransitionGenesis \<longrightarrow> (\<exists>p. previous = Some p \<and> successorChecks c d (vd_SiteID v) p = Inr ())"
    unfolding v by (use f(5) in \<open>auto split: if_splits option.splits\<close>)
  from f(1) obtain canonical where "canonicalBytes d False = Inr canonical" by (auto simp: guard_simps)
  then show "time_Parse (ds_ValidFrom d) = Some (vd_ValidFrom v)" "time_Parse (ds_ValidUntil d) = Some (vd_ValidUntil v)"
    using v by (auto elim: canonicalBytes_Inr)
qed

lemma validateStructure_Inr:
  assumes "validateStructure d = Inr ()"
  obtains signing revoked recovery where
    "decodeKeyList (ds_SigningKeys d) = Inr signing" "signing \<noteq> []" "distinct signing"
    "decodeBoundedKeyList (ds_RevokedKeys d) maxRevokedKeys = Inr revoked" "distinct revoked"
    "decodeKeyList (rc_Keys (ds_Recovery d)) = Inr recovery" "distinct recovery"
    "1 \<le> rc_Threshold (ds_Recovery d)" "unat (rc_Threshold (ds_Recovery d)) \<le> length recovery"
    "set signing \<inter> set revoked = {}" "set signing \<inter> set recovery = {}" "set recovery \<inter> set revoked = {}"
proof -
  from assms obtain signing revoked recovery where
    f: "decodeKeyList (ds_SigningKeys d) = Inr signing" "signing \<noteq> []" "distinct signing"
    "decodeBoundedKeyList (ds_RevokedKeys d) maxRevokedKeys = Inr revoked" "distinct revoked"
    "decodeKeyList (rc_Keys (ds_Recovery d)) = Inr recovery" "distinct recovery"
    "1 \<le> rc_Threshold (ds_Recovery d) \<and> unat (rc_Threshold (ds_Recovery d)) \<le> length recovery"
    and g: "(case List.find (\<lambda>key. containsKey revoked key \<or> containsKey recovery key) signing of
        None \<Rightarrow> Inr () | Some key \<Rightarrow> Inl (if containsKey revoked key then ActiveAndRevoked else NotDisjoint)) = Inr ()"
      "\<not> (\<exists>key \<in> set recovery. containsKey revoked key)"
    unfolding validateStructure_def requireDistinct_def andThen_Inr require_Inr map_sum_Inr by (elim exE conjE) simp
  have "set signing \<inter> set revoked = {}" "set signing \<inter> set recovery = {}"
    using g(1) by (auto simp: containsKey_def find_None_iff split: option.splits)
  moreover have "set recovery \<inter> set revoked = {}" using g(2) by (auto simp: containsKey_def)
  ultimately show thesis using that f by blast
qed

section \<open>Authority\<close>

text \<open>The keys that signed a digest in a role, according to a descriptor's authorizations.\<close>

definition signers :: "crypto \<Rightarrow> descriptor \<Rightarrow> bytes \<Rightarrow> byte \<Rightarrow> bytes set" where
  "signers c d digest value =
     {key. \<exists>a \<in> set (ds_Authorizations d). \<exists>signature.
        decodeBase64 publicKeySize (au_Key a) = Some key \<and> decodeBase64 signatureSize (au_Signature a) = Some signature \<and>
        roleByte (au_Role a) = Inr value \<and> ed_verify c key (AuthorizationMessage digest value key) signature}"

lemma roleByte_Inr:
  "roleByte role = Inr RoleSigning \<longleftrightarrow> role = ''signing''" "roleByte role = Inr RoleRecovery \<longleftrightarrow> role = ''recovery''"
  by (auto simp: roleByte_def RoleSigning_def RoleRecovery_def)

lemma proves_signer:
  "proves c d digest role value encoded key \<Longrightarrow> roleByte role = Inr value \<Longrightarrow>
     decodeBase64 publicKeySize encoded = Some key \<Longrightarrow> key \<in> signers c d digest value"
  by (auto simp: proves_def signers_def split: option.splits)

lemma authIdentifier_eq:
  assumes "length k = length k'" and "r \<in> {''signing'', ''recovery''}" and "r' \<in> {''signing'', ''recovery''}"
  shows "authIdentifier r k = authIdentifier r' k' \<longleftrightarrow> r = r' \<and> k = k'"
proof
  assume eq: "authIdentifier r k = authIdentifier r' k'"
  then have "length r = length r'" using assms(1) arg_cong [OF eq, of length] by (simp add: authIdentifier_def)
  then have "r = r'" using assms(2,3) by auto
  with eq show "r = r' \<and> k = k'" by (simp add: authIdentifier_def)
qed simp

lemma authorizationsLoop_verified:
  assumes "authorizationsLoop c digest V as = Inr W"
  shows "\<forall>i \<in> W. i \<in> V \<or> (\<exists>a \<in> set as. \<exists>value key signature. i = authIdentifier (au_Role a) key \<and>
    roleByte (au_Role a) = Inr value \<and> decodeBase64 publicKeySize (au_Key a) = Some key \<and>
    decodeBase64 signatureSize (au_Signature a) = Some signature \<and>
    ed_verify c key (AuthorizationMessage digest value key) signature)"
  using assms
proof (induction as arbitrary: V)
  case (Cons a as)
  from Cons.prems obtain role key signature where
    a: "roleByte (au_Role a) = Inr role" "decodeBase64 publicKeySize (au_Key a) = Some key"
      "decodeBase64 signatureSize (au_Signature a) = Some signature"
      "ed_verify c key (AuthorizationMessage digest role key) signature"
    and rest: "authorizationsLoop c digest (insert (authIdentifier (au_Role a) key) V) as = Inr W"
    unfolding authorizationsLoop.simps andThen_Inr require_Inr expect_Inr by blast
  show ?case
  proof
    fix i
    assume "i \<in> W"
    with Cons.IH [OF rest] a show "i \<in> V \<or> (\<exists>a \<in> set (a # as). \<exists>value key signature. i = authIdentifier (au_Role a) key \<and>
      roleByte (au_Role a) = Inr value \<and> decodeBase64 publicKeySize (au_Key a) = Some key \<and>
      decodeBase64 signatureSize (au_Signature a) = Some signature \<and>
      ed_verify c key (AuthorizationMessage digest value key) signature)"
      by (metis insert_iff list.set_intros)
  qed
qed simp

lemma verified_signers:
  assumes "authorizationsLoop c digest {} (ds_Authorizations d) = Inr W" and "authIdentifier role key \<in> W"
    and "roleByte role = Inr value" and "length key = publicKeySize"
  shows "key \<in> signers c d digest value"
proof -
  from authorizationsLoop_verified [OF assms(1)] assms(2) obtain a v k s where
    a: "a \<in> set (ds_Authorizations d)" "authIdentifier role key = authIdentifier (au_Role a) k" "roleByte (au_Role a) = Inr v"
      "decodeBase64 publicKeySize (au_Key a) = Some k" "decodeBase64 signatureSize (au_Signature a) = Some s"
      "ed_verify c k (AuthorizationMessage digest v k) s" by blast
  have "length k = length key" using a(4) assms(4) b64.dec_valid by metis
  moreover have "role \<in> {''signing'', ''recovery''}" "au_Role a \<in> {''signing'', ''recovery''}"
    using assms(3) a(3) by (auto simp: roleByte_def split: if_splits)
  ultimately have "role = au_Role a \<and> key = k" using a(2) authIdentifier_eq by metis
  with a assms(3) show ?thesis by (auto simp: signers_def)
qed

lemma countVerified_Inr:
  "countVerified W role (map b64_EncodeToString keys) = Inr n \<Longrightarrow> \<forall>k \<in> set keys. length k = publicKeySize \<Longrightarrow>
     n = length (filter (\<lambda>k. authIdentifier role k \<in> W) keys)"
proof (induction keys arbitrary: n)
  case (Cons k keys)
  then show ?case
    by (cases "countVerified W role (map b64_EncodeToString keys)") (auto simp: b64.dec_enc)
qed simp

lemma countProved_Inr:
  "countProved c d digest (map b64_EncodeToString keys) = Inr n \<Longrightarrow> \<forall>k \<in> set keys. length k = publicKeySize \<Longrightarrow>
     n = length (filter (\<lambda>k. proves c d digest ''recovery'' RoleRecovery (b64_EncodeToString k) k) keys)"
proof (induction keys arbitrary: n)
  case (Cons k keys)
  then show ?case
    by (cases "countProved c d digest (map b64_EncodeToString keys)") (auto simp: b64.dec_enc)
qed simp

text \<open>A count over distinct keys is the size of a set of signers.\<close>

lemma count_signers:
  assumes "distinct keys" and "\<forall>k \<in> set keys. P k \<longrightarrow> k \<in> S"
  shows "length (filter P keys) \<le> card (S \<inter> set keys)"
proof -
  have "length (filter P keys) = card (set (filter P keys))" by (metis assms(1) distinct_card distinct_filter)
  also have "\<dots> \<le> card (S \<inter> set keys)" using assms(2) by (intro card_mono) auto
  finally show ?thesis .
qed

lemma majority_signers:
  assumes "requireSigningMajority W p = Inr ()" and "authorizationsLoop c digest {} (ds_Authorizations d) = Inr W"
    and keys: "decodeKeyList (ds_SigningKeys (vd_Descriptor p)) = Inr signing" "distinct signing"
  shows "length signing div 2 + 1 \<le> card (signers c d digest RoleSigning \<inter> set signing)"
proof -
  have enc: "ds_SigningKeys (vd_Descriptor p) = map b64_EncodeToString signing" "\<forall>k \<in> set signing. length k = publicKeySize"
    using keys by (simp_all add: guard_simps)
  with assms(1) obtain n where n: "countVerified W ''signing'' (map b64_EncodeToString signing) = Inr n" "length signing div 2 + 1 \<le> n"
    by (auto simp: requireSigningMajority_def guard_simps)
  have "\<forall>k \<in> set signing. authIdentifier ''signing'' k \<in> W \<longrightarrow> k \<in> signers c d digest RoleSigning"
    using verified_signers [OF assms(2)] enc(2) by (simp add: roleByte_def)
  from count_signers [OF keys(2) this] countVerified_Inr [OF n(1) enc(2)] n(2) show ?thesis by simp
qed

lemma threshold_signers:
  assumes "requireRecoveryThreshold W p = Inr ()" and "authorizationsLoop c digest {} (ds_Authorizations d) = Inr W"
    and keys: "decodeKeyList (rc_Keys (ds_Recovery (vd_Descriptor p))) = Inr recovery" "distinct recovery"
  shows "unat (rc_Threshold (ds_Recovery (vd_Descriptor p))) \<le> card (signers c d digest RoleRecovery \<inter> set recovery)"
proof -
  have enc: "rc_Keys (ds_Recovery (vd_Descriptor p)) = map b64_EncodeToString recovery" "\<forall>k \<in> set recovery. length k = publicKeySize"
    using keys by (simp_all add: guard_simps)
  with assms(1) obtain n where n: "countVerified W ''recovery'' (map b64_EncodeToString recovery) = Inr n"
      "unat (rc_Threshold (ds_Recovery (vd_Descriptor p))) \<le> n"
    by (auto simp: requireRecoveryThreshold_def guard_simps)
  have "\<forall>k \<in> set recovery. authIdentifier ''recovery'' k \<in> W \<longrightarrow> k \<in> signers c d digest RoleRecovery"
    using verified_signers [OF assms(2)] enc(2) by (simp add: roleByte_def)
  from count_signers [OF keys(2) this] countVerified_Inr [OF n(1) enc(2)] n(2) show ?thesis by simp
qed

lemma policy_signers:
  assumes "checkRecoveryPolicyAuthority c d p = Inr ()" and "Digest c d = Inr digest"
    and keys: "decodeKeyList (rc_Keys (ds_Recovery (vd_Descriptor p))) = Inr recovery" "distinct recovery"
    and revoked: "decodeBoundedKeyList (ds_RevokedKeys d) maxRevokedKeys = Inr revoked"
    and changed: "ds_Recovery d \<noteq> ds_Recovery (vd_Descriptor p) \<or> set recovery \<inter> set revoked \<noteq> {}"
  shows "unat (rc_Threshold (ds_Recovery (vd_Descriptor p))) \<le> card (signers c d digest RoleRecovery \<inter> set recovery)"
proof -
  have enc: "rc_Keys (ds_Recovery (vd_Descriptor p)) = map b64_EncodeToString recovery" "\<forall>k \<in> set recovery. length k = publicKeySize"
    using keys by (simp_all add: guard_simps)
  have "\<not> (rc_Threshold (ds_Recovery d) = rc_Threshold (ds_Recovery (vd_Descriptor p)) \<and>
      rc_Keys (ds_Recovery d) = rc_Keys (ds_Recovery (vd_Descriptor p)) \<and> \<not> (\<exists>key \<in> set recovery. containsKey revoked key))"
    using changed by (auto simp: containsKey_def intro: recovery.equality)
  with assms(1,2) keys revoked enc(1) obtain n where
    n: "countProved c d digest (map b64_EncodeToString recovery) = Inr n"
      "unat (rc_Threshold (ds_Recovery (vd_Descriptor p))) \<le> n"
    by (auto simp: checkRecoveryPolicyAuthority_def Let_def andThen_Inr require_Inr split: if_splits)
  have "\<forall>k \<in> set recovery. proves c d digest ''recovery'' RoleRecovery (b64_EncodeToString k) k \<longrightarrow> k \<in> signers c d digest RoleRecovery"
    using proves_signer enc(2) by (metis b64.dec_enc roleByte_Inr(2))
  from count_signers [OF keys(2) this] countProved_Inr [OF n(1) enc(2)] n(2) show ?thesis by simp
qed

lemma possessed_signers:
  "possessed c d digest known role value (map b64_EncodeToString keys) = Inr () \<Longrightarrow> roleByte role = Inr value \<Longrightarrow>
     \<forall>k \<in> set keys. length k = publicKeySize \<Longrightarrow> \<forall>k \<in> set keys. b64_EncodeToString k \<in> known \<or> k \<in> signers c d digest value"
proof (induction keys)
  case (Cons k keys)
  then show ?case using proves_signer [of c d digest role "value" "b64_EncodeToString k" k]
    by (auto simp: b64.dec_enc guard_simps split: if_splits)
qed simp

lemma selfSigned_signers:
  "selfSigned W role (map b64_EncodeToString keys) = Inr () \<Longrightarrow> authorizationsLoop c digest {} (ds_Authorizations d) = Inr W \<Longrightarrow>
     roleByte role = Inr value \<Longrightarrow> \<forall>k \<in> set keys. length k = publicKeySize \<Longrightarrow> set keys \<subseteq> signers c d digest value"
proof (induction keys)
  case (Cons k keys)
  then show ?case using verified_signers [of c digest d W role k "value"]
    by (auto simp: b64.dec_enc split: if_splits)
qed simp

text \<open>The decoded keys of a list of spellings.\<close>

definition keySet :: "string list \<Rightarrow> bytes set" where
  "keySet encoded = {key. \<exists>e \<in> set encoded. decodeBase64 publicKeySize e = Some key}"

lemma keySet_decoded:
  "decodeBoundedKeyList encoded limit = Inr keys \<Longrightarrow> keySet encoded = set keys"
  "decodeKeyList encoded = Inr keys \<Longrightarrow> keySet encoded = set keys"
  by (auto simp: keySet_def guard_simps b64.dec_iff b64.enc_eq_iff)

lemma structure_keySets:
  assumes "validateStructure d = Inr ()"
  shows "keySet (ds_SigningKeys d) \<inter> keySet (ds_RevokedKeys d) = {} \<and>
    keySet (rc_Keys (ds_Recovery d)) \<inter> keySet (ds_RevokedKeys d) = {} \<and>
    keySet (ds_SigningKeys d) \<inter> keySet (rc_Keys (ds_Recovery d)) = {} \<and>
    keySet (ds_SigningKeys d) \<noteq> {} \<and> 0 < unat (rc_Threshold (ds_Recovery d)) \<and>
    unat (rc_Threshold (ds_Recovery d)) \<le> card (keySet (rc_Keys (ds_Recovery d)))"
proof -
  from assms obtain signing revoked recovery where
    f: "decodeKeyList (ds_SigningKeys d) = Inr signing" "signing \<noteq> []" "distinct signing"
    "decodeBoundedKeyList (ds_RevokedKeys d) maxRevokedKeys = Inr revoked" "distinct revoked"
    "decodeKeyList (rc_Keys (ds_Recovery d)) = Inr recovery" "distinct recovery"
    "1 \<le> rc_Threshold (ds_Recovery d)" "unat (rc_Threshold (ds_Recovery d)) \<le> length recovery"
    "set signing \<inter> set revoked = {}" "set signing \<inter> set recovery = {}" "set recovery \<inter> set revoked = {}"
    by (rule validateStructure_Inr)
  have "0 < unat (rc_Threshold (ds_Recovery d))" using f(8) by (simp add: word_le_nat_alt)
  with f show ?thesis by (simp add: keySet_decoded distinct_card)
qed

lemma successor_transition:
  assumes "VerifyDescriptor c d (Some p) = Inr v"
  shows "ds_Transition d \<in> {TransitionRotation, TransitionRecovery, TransitionRevocation}"
    "successorChecks c d (vd_SiteID v) p = Inr ()"
proof -
  note v = VerifyDescriptor_Inr [OF assms]
  have ng: "ds_Transition d \<noteq> TransitionGenesis" using v(6) by (auto simp: genesisChecks_def guard_simps)
  with v(7) show "successorChecks c d (vd_SiteID v) p = Inr ()" by simp
  from v(2) obtain x where "canonicalBytes d False = Inr x" by (auto simp: guard_simps)
  then have "ds_Transition d \<in> {TransitionGenesis, TransitionRotation, TransitionRecovery, TransitionRevocation}"
    by (rule canonicalBytes_Inr)
  with ng show "ds_Transition d \<in> {TransitionRotation, TransitionRecovery, TransitionRevocation}" by simp
qed

section \<open>A sample site\<close>

text \<open>One signing key, one recovery key: the smallest genesis, signed by both.\<close>

definition sample_signing :: bytes where "sample_signing = replicate 32 1"
definition sample_recovery :: bytes where "sample_recovery = replicate 32 2"

definition sample_gone :: bytes where "sample_gone = replicate 32 3"

definition sample_revoked :: "u64 \<Rightarrow> bytes list" where
  "sample_revoked sequence = (if sequence = 0 then [] else [sample_gone])"

definition sample_desc :: "u64 \<Rightarrow> string \<Rightarrow> bytes \<Rightarrow> bytes \<Rightarrow> authorization list \<Rightarrow> descriptor" where
  "sample_desc sequence transition previous siteID auths = \<lparr>ds_Version = DescriptorVersion,
     ds_SiteID = hex_EncodeToString siteID, ds_Sequence = sequence, ds_Transition = transition,
     ds_Previous = hex_EncodeToString previous, ds_ValidFrom = time_Format 0, ds_ValidUntil = time_Format (60 * second),
     ds_SigningKeys = [b64_EncodeToString sample_signing], ds_RevokedKeys = map b64_EncodeToString (sample_revoked sequence),
     ds_Recovery = \<lparr>rc_Threshold = 1, rc_Keys = [b64_EncodeToString sample_recovery]\<rparr>, ds_Authorizations = auths\<rparr>"

definition sample_form :: "u64 \<Rightarrow> string \<Rightarrow> bytes \<Rightarrow> bytes \<Rightarrow> bytes" where
  "sample_form sequence transition previous siteID =
     canonical_form (sample_desc sequence transition previous siteID []) siteID previous [sample_signing]
       (sample_revoked sequence) [sample_recovery]"

abbreviation sample_zero :: bytes where "sample_zero \<equiv> replicate 32 0"

definition sample_id :: bytes where
  "sample_id = sha256 sample_crypto (bytes_of siteIDDomain @ sample_form 0 TransitionGenesis sample_zero sample_zero)"

definition sample_digest :: "u64 \<Rightarrow> string \<Rightarrow> bytes \<Rightarrow> bytes" where
  "sample_digest sequence transition previous =
     sha256 sample_crypto (bytes_of descriptorDigestDom @ sample_form sequence transition previous sample_id)"

definition sample_auth :: "bytes \<Rightarrow> string \<Rightarrow> byte \<Rightarrow> bytes \<Rightarrow> authorization" where
  "sample_auth digest role value key = \<lparr>au_Role = role, au_Key = b64_EncodeToString key,
     au_Signature = b64_EncodeToString (ed_sign sample_crypto (key @ key) (AuthorizationMessage digest value key))\<rparr>"

definition sample_signed :: "u64 \<Rightarrow> string \<Rightarrow> bytes \<Rightarrow> descriptor" where
  "sample_signed sequence transition previous =
     (let digest = sample_digest sequence transition previous in
      sample_desc sequence transition previous sample_id
        [sample_auth digest ''signing'' RoleSigning sample_signing, sample_auth digest ''recovery'' RoleRecovery sample_recovery])"

definition sample_link :: "u64 \<Rightarrow> string \<Rightarrow> bytes \<Rightarrow> verified" where
  "sample_link sequence transition previous = \<lparr>vd_Descriptor = sample_signed sequence transition previous,
     vd_Digest = sample_digest sequence transition previous, vd_SiteID = sample_id, vd_ValidFrom = 0,
     vd_ValidUntil = 60 * second\<rparr>"

lemma sample_times: "time_Parse (time_Format 0) = Some 0" "time_Parse (time_Format (60 * second)) = Some (60 * second)"
  by (rule rfc3339.dec_enc; simp add: time_valid_def second_def year_start_def)+

lemma sample_lengths [simp]: "length sample_signing = publicKeySize" "length sample_recovery = publicKeySize"
    "length sample_id = 32" "length (sample_digest n t p) = 32" "sample_signing \<noteq> sample_recovery"
    "sample_signing \<noteq> sample_gone" "sample_recovery \<noteq> sample_gone" "length sample_gone = publicKeySize"
  using sample_hash_ok
  by (simp_all add: sample_gone_def sample_signing_def sample_recovery_def publicKeySize_def sample_id_def sample_digest_def hash_ok_def)

lemma sample_keys:
  "decodeKeyList [b64_EncodeToString sample_signing] = Inr [sample_signing]"
  "decodeKeyList [b64_EncodeToString sample_recovery] = Inr [sample_recovery]"
  "decodeBoundedKeyList (map b64_EncodeToString (sample_revoked n)) maxRevokedKeys = Inr (sample_revoked n)"
  by (simp_all add: guard_simps maxKeys_def maxRevokedKeys_def sample_revoked_def)

lemma sample_canonical:
  assumes "length siteID = 32" "length previous = 32"
    and "transition \<in> {TransitionGenesis, TransitionRotation, TransitionRecovery, TransitionRevocation}"
  shows "canonicalBytes (sample_desc sequence transition previous siteID auths) z =
    Inr (sample_form sequence transition previous (if z then sample_zero else siteID))"
proof -
  have "length transition \<le> 10" using assms(3)
    by (auto simp: TransitionGenesis_def TransitionRotation_def TransitionRecovery_def TransitionRevocation_def)
  then have "validCanonicalLength (length (sample_form sequence transition previous i))" if "length i = 32" for i
    using that assms(2) by (simp add: validCanonicalLength_def maxCanonicalBytes_def sample_form_def canonical_form_def
        sample_desc_def key_block_def prefixed_def length_time_Format publicKeySize_def DescriptorVersion_def
        sample_revoked_def)
  moreover have "validateCanonicalTime (time_Format 0)" "validateCanonicalTime (time_Format (60 * second))"
    using sample_times by (auto simp: validateCanonicalTime_iff)
  ultimately show ?thesis
    using assms by (simp add: canonicalBytes_def sample_desc_def sample_form_def canonical_form_def hex32.dec_enc
        sample_keys Let_def appendKeyList_eq appendString_prefixed key_block_def ac_simps)
qed

lemma sample_structure: "validateStructure (sample_desc sequence transition previous siteID auths) = Inr ()"
  by (simp add: validateStructure_def sample_desc_def sample_keys requireDistinct_def containsKey_def) (simp add: sample_revoked_def)

lemma sample_signature:
  assumes "length key = publicKeySize"
  shows "decodeBase64 signatureSize (au_Signature (sample_auth digest role v key)) =
      Some (ed_sign sample_crypto (key @ key) (AuthorizationMessage digest v key))"
    and "ed_verify sample_crypto key (AuthorizationMessage digest v key)
      (ed_sign sample_crypto (key @ key) (AuthorizationMessage digest v key))"
    and "decodeBase64 publicKeySize (au_Key (sample_auth digest role v key)) = Some key"
    and "au_Role (sample_auth digest role v key) = role"
proof -
  have "length (key @ key) = privateKeySize" "ed_public sample_crypto (key @ key) = key"
    using assms by (simp_all add: publicKeySize_def privateKeySize_def sample_crypto_def)
  with sample_sign_ok [unfolded sign_ok_def, rule_format, of "key @ key"] assms
  show "decodeBase64 signatureSize (au_Signature (sample_auth digest role v key)) =
      Some (ed_sign sample_crypto (key @ key) (AuthorizationMessage digest v key))"
    "ed_verify sample_crypto key (AuthorizationMessage digest v key)
      (ed_sign sample_crypto (key @ key) (AuthorizationMessage digest v key))"
    "decodeBase64 publicKeySize (au_Key (sample_auth digest role v key)) = Some key"
    "au_Role (sample_auth digest role v key) = role"
    by (auto simp: sample_auth_def b64.dec_enc)
qed

lemma sample_loop:
  "authorizationsLoop sample_crypto digest {} [sample_auth digest ''signing'' RoleSigning sample_signing,
     sample_auth digest ''recovery'' RoleRecovery sample_recovery] =
   Inr {authIdentifier ''recovery'' sample_recovery, authIdentifier ''signing'' sample_signing}"
proof -
  have "authIdentifier ''recovery'' sample_recovery \<noteq> authIdentifier ''signing'' sample_signing"
    by (subst authIdentifier_eq) simp_all
  then show ?thesis by (simp add: sample_signature roleByte_def)
qed

lemma sample_signed_digest:
  assumes "length previous = 32"
    and "transition \<in> {TransitionGenesis, TransitionRotation, TransitionRecovery, TransitionRevocation}"
  shows "Digest sample_crypto (sample_signed sequence transition previous) = Inr (sample_digest sequence transition previous)"
    "decodeHex 32 (ds_SiteID (sample_signed sequence transition previous)) = Some sample_id"
  using assms by (simp_all add: Digest_def sample_signed_def sample_canonical sample_digest_def Let_def)
    (simp add: sample_desc_def hex32.dec_enc)

lemma sample_verifies:
  assumes "Digest sample_crypto (sample_signed n t p) = Inr (sample_digest n t p)"
    and "(if t = TransitionGenesis then genesisChecks sample_crypto (sample_signed n t p) sample_id previous
      else case previous of None \<Rightarrow> Inl PreviousRequired | Some q \<Rightarrow> successorChecks sample_crypto (sample_signed n t p) sample_id q) = Inr ()"
    and "verifyAuthorizations sample_crypto (sample_signed n t p) (sample_digest n t p) previous = Inr ()"
    and "requirePossessionOfNewKeys sample_crypto (sample_signed n t p) (sample_digest n t p) previous = Inr ()"
  shows "VerifyDescriptor sample_crypto (sample_signed n t p) previous = Inr (sample_link n t p)"
proof -
  have "ds_ValidFrom (sample_signed n t p) = time_Format 0" "ds_ValidUntil (sample_signed n t p) = time_Format (60 * second)"
    "ds_Transition (sample_signed n t p) = t" "ds_SiteID (sample_signed n t p) = hex_EncodeToString sample_id"
    "validateStructure (sample_signed n t p) = Inr ()"
    by (simp_all add: sample_signed_def Let_def sample_structure) (simp_all add: sample_desc_def)
  with assms show ?thesis
    by (simp add: VerifyDescriptor_def sample_times hex32.dec_enc sample_link_def Let_def)
qed

abbreviation sample_genesis :: descriptor where "sample_genesis \<equiv> sample_signed 0 TransitionGenesis sample_zero"
abbreviation sample_verified :: verified where "sample_verified \<equiv> sample_link 0 TransitionGenesis sample_zero"
abbreviation sample_next :: descriptor where "sample_next \<equiv> sample_signed 1 TransitionRotation (vd_Digest sample_verified)"
abbreviation sample_next_verified :: verified where
  "sample_next_verified \<equiv> sample_link 1 TransitionRotation (vd_Digest sample_verified)"

lemma sample_genesis_verifies: "VerifyDescriptor sample_crypto sample_genesis None = Inr sample_verified"
proof (rule sample_verifies)
  show "Digest sample_crypto sample_genesis = Inr (sample_digest 0 TransitionGenesis sample_zero)"
    by (rule sample_signed_digest) simp_all
  have "DeriveID sample_crypto sample_genesis = Inr sample_id"
    by (simp add: DeriveID_def sample_signed_def sample_canonical sample_structure Let_def)
      (simp add: sample_desc_def sample_id_def zeroDigestHex_def)
  then show "(if TransitionGenesis = TransitionGenesis then genesisChecks sample_crypto sample_genesis sample_id None
      else case None of None \<Rightarrow> Inl PreviousRequired | Some q \<Rightarrow> successorChecks sample_crypto sample_genesis sample_id q) = Inr ()"
    by (simp add: genesisChecks_def) (simp add: sample_signed_def sample_desc_def sample_revoked_def Let_def)
  show "verifyAuthorizations sample_crypto sample_genesis (sample_digest 0 TransitionGenesis sample_zero) None = Inr ()"
    by (simp add: verifyAuthorizations_def sample_signed_def sample_desc_def Let_def sample_loop maxKeys_def b64.dec_enc
        del: authorizationsLoop.simps)
qed (simp add: requirePossessionOfNewKeys_def)

lemma sample_successor:
  assumes "t \<in> {TransitionRotation, TransitionRevocation}"
  shows "VerifyDescriptor sample_crypto (sample_signed 1 t (vd_Digest sample_verified)) (Some sample_verified) =
    Inr (sample_link 1 t (vd_Digest sample_verified))"
proof (rule sample_verifies)
  let ?d = "sample_signed 1 t (vd_Digest sample_verified)"
  have tr: "t \<noteq> TransitionGenesis" "t \<noteq> TransitionRecovery" "TransitionRevocation \<noteq> TransitionRotation"
    using assms by (auto simp: TransitionGenesis_def TransitionRotation_def TransitionRecovery_def TransitionRevocation_def)
  show "Digest sample_crypto ?d = Inr (sample_digest 1 t (vd_Digest sample_verified))"
    using assms by (intro sample_signed_digest) (auto simp: sample_link_def)
  have "successorChecks sample_crypto ?d sample_id sample_verified = Inr ()"
    using tr by (simp add: successorChecks_def checkRevocationIsAbsorbing_def checkRecoveryPolicyAuthority_def sample_signed_def
        sample_link_def sample_desc_def Let_def sample_keys containsKey_def) (simp add: sample_revoked_def)
  then show "(if t = TransitionGenesis then genesisChecks sample_crypto ?d sample_id (Some sample_verified)
      else case Some sample_verified of None \<Rightarrow> Inl PreviousRequired
        | Some q \<Rightarrow> successorChecks sample_crypto ?d sample_id q) = Inr ()"
    using tr by simp
  show "verifyAuthorizations sample_crypto ?d (sample_digest 1 t (vd_Digest sample_verified)) (Some sample_verified) = Inr ()"
    using tr assms by (auto simp add: verifyAuthorizations_def requireSigningMajority_def sample_signed_def sample_link_def
        sample_desc_def Let_def sample_loop maxKeys_def b64.dec_enc simp del: authorizationsLoop.simps)
  show "requirePossessionOfNewKeys sample_crypto ?d (sample_digest 1 t (vd_Digest sample_verified)) (Some sample_verified) = Inr ()"
    by (simp add: requirePossessionOfNewKeys_def sample_signed_def sample_link_def sample_desc_def Let_def)
qed

lemmas sample_next_verifies = sample_successor [of TransitionRotation, simplified]

lemma sample_digests_differ: "sample_digest 1 TransitionRotation p \<noteq> sample_digest 1 TransitionRevocation p" if "length p = 32"
  using that by (simp add: sample_digest_def sample_crypto_def sample_hash_def sample_form_def canonical_form_def sample_desc_def
      key_block_def prefixed_def length_time_Format publicKeySize_def DescriptorVersion_def TransitionRotation_def
      TransitionRevocation_def sample_revoked_def descriptorDigestDom_def)

section \<open>Properties\<close>

definition digest_message :: "descriptor \<Rightarrow> bytes" where
  "digest_message d = (case canonicalBytes d False of Inl _ \<Rightarrow> [] | Inr x \<Rightarrow> bytes_of descriptorDigestDom @ x)"

definition core_message :: "descriptor \<Rightarrow> bytes" where
  "core_message d = (case canonicalBytes d True of Inl _ \<Rightarrow> [] | Inr x \<Rightarrow> bytes_of siteIDDomain @ x)"

lemma genesis_core:
  assumes "VerifyDescriptor c d None = Inr v"
  shows "\<exists>x. canonicalBytes d True = Inr x \<and> vd_SiteID v = sha256 c (bytes_of siteIDDomain @ x)"
proof -
  note v = VerifyDescriptor_Inr [OF assms]
  have "ds_Transition d = TransitionGenesis" using v(7) by auto
  then have "DeriveID c d = Inr (vd_SiteID v)" using v(6) by (auto simp: genesisChecks_def guard_simps)
  then show ?thesis unfolding DeriveID_def andThen_Inr require_Inr by auto
qed

lemma Digest_binds:
  assumes "Digest c d = Inr x" and "Digest c d' = Inr x"
  shows "d'\<lparr>ds_Authorizations := ds_Authorizations d\<rparr> = d \<or> collides (sha256 c) [digest_message d, digest_message d']"
proof (rule disjCI)
  from assms obtain y y' where y: "canonicalBytes d False = Inr y" "canonicalBytes d' False = Inr y'"
    "sha256 c (bytes_of descriptorDigestDom @ y) = sha256 c (bytes_of descriptorDigestDom @ y')"
    by (auto simp: guard_simps)
  assume "\<not> collides (sha256 c) [digest_message d, digest_message d']"
  with y have "y = y'" by (auto simp: collides_def digest_message_def)
  with canonical_inj [of d False y d'] y(1,2) show "d'\<lparr>ds_Authorizations := ds_Authorizations d\<rparr> = d" by simp
qed

lemma genesis_binds:
  assumes v: "VerifyDescriptor c g None = Inr v" "VerifyDescriptor c g' None = Inr v'" "vd_SiteID v = vd_SiteID v'"
  shows "g'\<lparr>ds_Authorizations := ds_Authorizations g\<rparr> = g \<or> collides (sha256 c) [core_message g, core_message g']"
proof (rule disjCI)
  from v obtain y y' where y: "canonicalBytes g True = Inr y" "canonicalBytes g' True = Inr y'"
    "sha256 c (bytes_of siteIDDomain @ y) = sha256 c (bytes_of siteIDDomain @ y')"
    using genesis_core [of c g v] genesis_core [of c g' v'] by auto
  have id: "ds_SiteID g = ds_SiteID g'"
    using v VerifyDescriptor_Inr(4) [OF v(1)] VerifyDescriptor_Inr(4) [OF v(2)] hex32.one_spelling by metis
  assume "\<not> collides (sha256 c) [core_message g, core_message g']"
  with y have "y = y'" by (auto simp: collides_def core_message_def)
  with canonical_inj [of g True y g'] y(1,2) id
  show "g'\<lparr>ds_Authorizations := ds_Authorizations g\<rparr> = g" by (cases g') simp
qed

text \<open>
  A descriptor's digest commits to everything but its signatures: two descriptors with one digest agree
  in every field except the authorizations, or the two hashed messages are a SHA-256 collision. A site
  identity commits to its genesis: two genesis descriptors that verify for one identity agree in the same
  way, so a site has one beginning.
\<close>

theorem descriptor_commitments:
  "(Digest c d = Inr x \<and> Digest c d' = Inr x \<longrightarrow>
      d'\<lparr>ds_Authorizations := ds_Authorizations d\<rparr> = d \<or> collides (sha256 c) [digest_message d, digest_message d']) \<and>
    (VerifyDescriptor c g None = Inr v \<and> VerifyDescriptor c g' None = Inr v' \<and> vd_SiteID v = vd_SiteID v' \<longrightarrow>
      g'\<lparr>ds_Authorizations := ds_Authorizations g\<rparr> = g \<or> collides (sha256 c) [core_message g, core_message g'])"
proof (intro conjI impI)
  assume "Digest c d = Inr x \<and> Digest c d' = Inr x"
  then show "d'\<lparr>ds_Authorizations := ds_Authorizations d\<rparr> = d \<or> collides (sha256 c) [digest_message d, digest_message d']"
    by (intro Digest_binds) simp_all
next
  assume "VerifyDescriptor c g None = Inr v \<and> VerifyDescriptor c g' None = Inr v' \<and> vd_SiteID v = vd_SiteID v'"
  then show "g'\<lparr>ds_Authorizations := ds_Authorizations g\<rparr> = g \<or> collides (sha256 c) [core_message g, core_message g']"
    by (intro genesis_binds [of c g v g' v']) simp_all
qed

text \<open>
  C15: Who can change a site. A successor that verifies was signed, over its own digest and in the role the
  key holds, by more than half of the previous signing keys (a rotation must be), or by the previous recovery
  threshold (a recovery must be, and it revokes every previous signing key). Without the previous recovery
  threshold the recovery policy is unchanged and no active recovery key is revoked, so a stolen signing
  majority never reaches recovery authority. Every key that is new to the descriptor signed for itself.
\<close>

theorem descriptor_authority:
  assumes "VerifyDescriptor c d (Some p) = Inr v" and "VerifyDescriptor c dp pp = Inr p"
  defines "signing \<equiv> keySet (ds_SigningKeys dp)" and "recovery \<equiv> keySet (rc_Keys (ds_Recovery dp))"
    and "byMajority \<equiv> card (keySet (ds_SigningKeys dp)) div 2 <
        card (signers c d (vd_Digest v) RoleSigning \<inter> keySet (ds_SigningKeys dp))"
    and "byRecovery \<equiv> unat (rc_Threshold (ds_Recovery dp)) \<le>
        card (signers c d (vd_Digest v) RoleRecovery \<inter> keySet (rc_Keys (ds_Recovery dp)))"
  shows "(byMajority \<or> byRecovery) \<and> (ds_Transition d = TransitionRotation \<longrightarrow> byMajority) \<and>
    (ds_Transition d = TransitionRecovery \<longrightarrow> byRecovery \<and> signing \<subseteq> keySet (ds_RevokedKeys d)) \<and>
    (\<not> byRecovery \<longrightarrow> ds_Recovery d = ds_Recovery dp \<and> recovery \<inter> keySet (ds_RevokedKeys d) = {}) \<and>
    keySet (ds_SigningKeys d) - (signing \<union> recovery) \<subseteq> signers c d (vd_Digest v) RoleSigning \<and>
    keySet (rc_Keys (ds_Recovery d)) - (signing \<union> recovery) \<subseteq> signers c d (vd_Digest v) RoleRecovery"
proof -
  note v = VerifyDescriptor_Inr [OF assms(1)] and p = VerifyDescriptor_Inr [OF assms(2)]
  note tr = successor_transition [OF assms(1)]
  let ?known = "set (ds_SigningKeys dp) \<union> set (rc_Keys (ds_Recovery dp))"
  from p(3) obtain sig rec where
    old: "decodeKeyList (ds_SigningKeys dp) = Inr sig" "distinct sig" "decodeKeyList (rc_Keys (ds_Recovery dp)) = Inr rec" "distinct rec"
    by (metis validateStructure_Inr)
  from v(3) obtain sig' rev' rec' where
    new: "decodeKeyList (ds_SigningKeys d) = Inr sig'" "decodeBoundedKeyList (ds_RevokedKeys d) maxRevokedKeys = Inr rev'"
      "decodeKeyList (rc_Keys (ds_Recovery d)) = Inr rec'"
    by (metis validateStructure_Inr)
  have sets: "signing = set sig" "recovery = set rec" "keySet (ds_SigningKeys d) = set sig'" "keySet (ds_RevokedKeys d) = set rev'"
      "keySet (rc_Keys (ds_Recovery d)) = set rec'" "card (set sig) = length sig"
    using old new by (simp_all add: signing_def recovery_def keySet_decoded distinct_card)
  have maj: "byMajority" if "requireSigningMajority W p = Inr ()" "authorizationsLoop c (vd_Digest v) {} (ds_Authorizations d) = Inr W" for W
    using majority_signers [OF that] old sets p(1) by (simp add: byMajority_def signing_def [symmetric])
  have thr: "byRecovery" if "requireRecoveryThreshold W p = Inr ()" "authorizationsLoop c (vd_Digest v) {} (ds_Authorizations d) = Inr W" for W
    using threshold_signers [OF that] old sets p(1) by (simp add: byRecovery_def recovery_def [symmetric])
  have "TransitionRotation \<noteq> TransitionGenesis" "TransitionRecovery \<noteq> TransitionGenesis" "TransitionRevocation \<noteq> TransitionGenesis"
      "TransitionRecovery \<noteq> TransitionRotation" "TransitionRevocation \<noteq> TransitionRotation" "TransitionRevocation \<noteq> TransitionRecovery"
    by (simp_all add: TransitionGenesis_def TransitionRotation_def TransitionRecovery_def TransitionRevocation_def)
  then have auth: "(byMajority \<or> byRecovery) \<and> (ds_Transition d = TransitionRotation \<longrightarrow> byMajority) \<and>
      (ds_Transition d = TransitionRecovery \<longrightarrow> byRecovery)"
    using v(8) tr(1) maj thr by (auto simp: verifyAuthorizations_def andThen_Inr require_Inr split: if_splits sum.splits)
  have checks: "checkRecoveryPolicyAuthority c d p = Inr ()"
      "ds_Transition d = TransitionRecovery \<longrightarrow> requireRecoveryRevokesPriorSigning d p = Inr ()"
    using tr(2) by (auto simp: successorChecks_def andThen_Inr require_Inr split: if_splits)
  have c1: "ds_Transition d = TransitionRecovery \<longrightarrow> signing \<subseteq> keySet (ds_RevokedKeys d)"
    using checks(2) old new sets p(1)
    by (auto simp: requireRecoveryRevokesPriorSigning_def andThen_Inr require_Inr containsKey_def map_sum_Inr)
  have c2: "\<not> byRecovery \<longrightarrow> ds_Recovery d = ds_Recovery dp \<and> recovery \<inter> keySet (ds_RevokedKeys d) = {}"
    using policy_signers [OF checks(1) v(2), unfolded p(1), OF old(3,4) new(2)] sets
    by (auto simp: byRecovery_def recovery_def [symmetric])
  have pos: "\<forall>k \<in> set sig'. b64_EncodeToString k \<in> ?known \<or> k \<in> signers c d (vd_Digest v) RoleSigning"
      "\<forall>k \<in> set rec'. b64_EncodeToString k \<in> ?known \<or> k \<in> signers c d (vd_Digest v) RoleRecovery"
  proof -
    have held: "possessed c d (vd_Digest v) ?known ''signing'' RoleSigning (map b64_EncodeToString sig') = Inr ()"
        "possessed c d (vd_Digest v) ?known ''recovery'' RoleRecovery (map b64_EncodeToString rec') = Inr ()"
      using v(9) p(1) new(1,3) [unfolded guard_simps] by (simp_all add: requirePossessionOfNewKeys_def Let_def andThen_Inr)
    from possessed_signers [OF held(1) roleByte_Inr(1) [THEN iffD2, OF refl]] new(1) [unfolded guard_simps]
    show "\<forall>k \<in> set sig'. b64_EncodeToString k \<in> ?known \<or> k \<in> signers c d (vd_Digest v) RoleSigning" by blast
    from possessed_signers [OF held(2) roleByte_Inr(2) [THEN iffD2, OF refl]] new(3) [unfolded guard_simps]
    show "\<forall>k \<in> set rec'. b64_EncodeToString k \<in> ?known \<or> k \<in> signers c d (vd_Digest v) RoleRecovery" by blast
  qed
  have known: "k \<in> signing \<union> recovery"
    if "b64_EncodeToString k \<in> ?known" "length k = publicKeySize" for k
    using that by (auto simp: signing_def recovery_def keySet_def intro: b64.dec_enc)
  have "\<forall>k \<in> set sig' \<union> set rec'. length k = publicKeySize" using new by (auto simp: guard_simps)
  with pos known have "set sig' - (signing \<union> recovery) \<subseteq> signers c d (vd_Digest v) RoleSigning"
      "set rec' - (signing \<union> recovery) \<subseteq> signers c d (vd_Digest v) RoleRecovery" by blast+
  with auth c1 c2 show ?thesis unfolding sets(3,5) by simp
qed

theorem descriptor_commitments_witness:
  "Digest sample_crypto sample_genesis = Inr (vd_Digest sample_verified) \<and>
   (sample_genesis\<lparr>ds_Authorizations := ds_Authorizations sample_genesis\<rparr> = sample_genesis \<or>
    collides (sha256 sample_crypto) [digest_message sample_genesis, digest_message sample_genesis])"
proof -
  have d: "Digest sample_crypto sample_genesis = Inr (vd_Digest sample_verified)"
    by (rule VerifyDescriptor_Inr(2) [OF sample_genesis_verifies])
  show ?thesis by (rule conjI [OF d descriptor_commitments [THEN conjunct1, THEN mp, OF conjI [OF d d]]])
qed

theorem descriptor_authority_witness:
  "keySet (ds_SigningKeys sample_next) - (keySet (ds_SigningKeys sample_genesis) \<union> keySet (rc_Keys (ds_Recovery sample_genesis)))
     \<subseteq> signers sample_crypto sample_next (vd_Digest sample_next_verified) RoleSigning"
  by (rule descriptor_authority [OF sample_next_verifies sample_genesis_verifies, THEN conjunct2, THEN conjunct2,
        THEN conjunct2, THEN conjunct2, THEN conjunct1])

end
