(* ===== verification/Distribution.thy ===== *)
theory Distribution
  imports Descriptor Monitor
begin

text \<open>
  The reader's view of the log that carries a site's descriptors, \<^verbatim>\<open>site/distribution.go\<close>: a wrapper of
  the transparency reader that several goroutines share through a lock. Every method holds the lock for its
  whole body, so the operations are atomic steps.
\<close>

definition logEntryDomain :: string where "logEntryDomain = ''nomad-site-log-entry-v1''"

definition LogEntry :: "bytes \<Rightarrow> bytes" where
  "LogEntry encoded = bytes_of logEntryDomain @ be64 (of_nat (length encoded)) @ encoded"

lemma LogEntry_inj: "LogEntry a = LogEntry b \<longleftrightarrow> a = b"
  by (auto simp: LogEntry_def)

record distribution =
  di_monitor :: monitor

datatype distribution_error =
    Unwitnessed | ViewSplit split_view | NoCheckpointYet | StaleView instant

definition NewDistribution :: "string \<Rightarrow> bytes \<Rightarrow> duration \<Rightarrow> monitor_error + distribution" where
  "NewDistribution origin logKey freshness =
     andThen (NewMonitor origin logKey freshness) (\<lambda>m. Inr \<lparr>di_monitor = m\<rparr>)"

definition NewCosignedDistribution ::
    "string \<Rightarrow> bytes \<Rightarrow> duration \<Rightarrow> witness_policy option \<Rightarrow> monitor_error + distribution" where
  "NewCosignedDistribution origin logKey freshness policy =
     andThen (NewCosignedMonitor origin logKey freshness policy) (\<lambda>m. Inr \<lparr>di_monitor = m\<rparr>)"

text \<open>The update of the transparency reader always returns; \<open>Monitor_Update_returns\<close>.\<close>

definition Distribution_Refresh ::
    "crypto \<Rightarrow> distribution \<Rightarrow> checkpoint \<Rightarrow> consistency_proof \<Rightarrow> instant \<Rightarrow> (distribution \<times> (monitor_error + unit)) option" where
  "Distribution_Refresh c d ck proof now =
     map_option (\<lambda>(m, r). (d\<lparr>di_monitor := m\<rparr>, r)) (Monitor_Update c (di_monitor d) ck proof now)"

definition Distribution_Fresh :: "distribution \<Rightarrow> instant \<Rightarrow> bool" where
  "Distribution_Fresh d now = Monitor_Fresh (di_monitor d) now"

definition Distribution_Equivocating :: "distribution \<Rightarrow> split_view option \<times> bool" where
  "Distribution_Equivocating d = Monitor_Equivocating (di_monitor d)"

definition Distribution_Head :: "distribution \<Rightarrow> signed_checkpoint option" where
  "Distribution_Head d = Monitor_Head (di_monitor d)"

definition Distribution_Witness :: "crypto \<Rightarrow> distribution \<Rightarrow> bytes \<Rightarrow> inclusion_proof \<Rightarrow> instant \<Rightarrow> monitor_error + unit" where
  "Distribution_Witness c d encoded proof now = Monitor_Accept c (di_monitor d) (LogEntry encoded) proof now"

text \<open>\<open>None\<close> is a nil receiver: a chain built without a log view.\<close>

definition requireUsable :: "distribution option \<Rightarrow> instant \<Rightarrow> distribution_error + unit" where
  "requireUsable distribution now =
     (case distribution of
        None \<Rightarrow> Inl Unwitnessed
      | Some d \<Rightarrow>
          (case Monitor_Equivocating (di_monitor d) of
             (Some p, True) \<Rightarrow> Inl (ViewSplit p)
           | _ \<Rightarrow>
               if \<not> Monitor_Fresh (di_monitor d) now then
                 (case Monitor_Head (di_monitor d) of
                    None \<Rightarrow> Inl NoCheckpointYet
                  | Some head \<Rightarrow> Inl (StaleView (sc_Time head)))
               else Inr ()))"

lemma requireUsable_iff:
  "requireUsable distribution now = Inr () \<longleftrightarrow>
     (\<exists>d. distribution = Some d \<and> mo_split (di_monitor d) = None \<and> Monitor_Fresh (di_monitor d) now)"
  by (auto simp: requireUsable_def Monitor_Equivocating_def Monitor_Head_def split: option.splits)

lemma requireUsable_split:
  "requireUsable distribution now = Inl (ViewSplit p) \<longleftrightarrow>
     (\<exists>d. distribution = Some d \<and> mo_split (di_monitor d) = Some p)"
  by (auto simp: requireUsable_def Monitor_Equivocating_def Monitor_Head_def split: option.splits)

definition Refresh_step :: "crypto \<Rightarrow> distribution \<Rightarrow> update \<Rightarrow> distribution" where
  "Refresh_step c d u = (case u of (ck, p, now) \<Rightarrow>
     (case Distribution_Refresh c d ck p now of None \<Rightarrow> d | Some (d', _) \<Rightarrow> d'))"

lemma Refresh_step_monitor: "di_monitor (Refresh_step c d u) = Monitor_step c (di_monitor d) u"
proof -
  obtain ck p now where u: "u = (ck, p, now)" by (rule prod_cases3)
  from Monitor_Update_returns obtain m r where "Monitor_Update c (di_monitor d) ck p now = Some (m, r)" by blast
  with u show ?thesis by (simp add: Refresh_step_def Distribution_Refresh_def Monitor_step_def)
qed

interpretation split_log: absorbing_machine "Refresh_step c" "\<lambda>d. mo_split (di_monitor d) \<noteq> None" for c
proof unfold_locales
  fix c and d :: distribution and u
  assume "mo_split (di_monitor d) \<noteq> None"
  then have "di_monitor (Refresh_step c d u) = di_monitor d"
    by (simp add: Refresh_step_monitor equivocated.absorb)
  then show "Refresh_step c d u = d" by (intro distribution.equality) simp_all
qed

end
