(* ===== verification/SiteChain.thy ===== *)
theory SiteChain
  imports Distribution
begin

text \<open>
  A site's descriptor chain as one client holds it, \<^verbatim>\<open>site/chain.go\<close>: pinning, appending, the recording of
  equivocation and its verification by a third party. Every method holds the chain's lock, so the operations
  are atomic steps. The distribution the chain points to is refreshed from outside; its current value is a
  field of the state. \<^verbatim>\<open>int(sequence)\<close> is \<open>unat\<close>: a chain has fewer than 2^63 links.
\<close>

record equivocation =
  eq_SiteID :: bytes
  eq_Sequence :: u64
  eq_Prefix :: "bytes list"
  eq_First :: bytes
  eq_Second :: bytes

record chain =
  ch_siteID :: bytes
  ch_links :: "verified list"
  ch_encoded :: "bytes list"
  ch_equivoke :: "equivocation option"
  ch_distribution :: "distribution option"

datatype chain_error =
    SiteErr site_error | Equivocation equivocation | OtherGenesis | ViewErr distribution_error | NotLogged monitor_error
  | WitnessedChain | OtherSite | OutsideChain | Superseded site_error | SequenceGap

definition NewChain :: "crypto \<Rightarrow> site_json \<Rightarrow> bytes \<Rightarrow> bytes \<Rightarrow> chain_error + chain" where
  "NewChain c j expected genesisEncoded =
     andThen (map_sum SiteErr id (Verify c j genesisEncoded None)) (\<lambda>verified.
     andThen (require (vd_SiteID verified = expected) OtherGenesis) (\<lambda>_.
       Inr \<lparr>ch_siteID = expected, ch_links = [verified], ch_encoded = [genesisEncoded], ch_equivoke = None,
            ch_distribution = None\<rparr>))"

definition NewWitnessedChain ::
    "crypto \<Rightarrow> site_json \<Rightarrow> bytes \<Rightarrow> bytes \<Rightarrow> inclusion_proof \<Rightarrow> distribution option \<Rightarrow> instant \<Rightarrow> chain_error + chain" where
  "NewWitnessedChain c j expected genesisEncoded proof distribution now =
     (case distribution of
        None \<Rightarrow> Inl (ViewErr Unwitnessed)
      | Some d \<Rightarrow>
          andThen (map_sum ViewErr id (requireUsable distribution now)) (\<lambda>_.
          andThen (map_sum NotLogged id (Distribution_Witness c d genesisEncoded proof now)) (\<lambda>_.
          andThen (NewChain c j expected genesisEncoded) (\<lambda>ch. Inr (ch\<lparr>ch_distribution := distribution\<rparr>)))))"

definition Chain_view :: "chain \<Rightarrow> distribution option" where
  "Chain_view ch = ch_distribution ch"

definition Chain_Witnessed :: "chain \<Rightarrow> bool" where
  "Chain_Witnessed ch \<longleftrightarrow> ch_distribution ch \<noteq> None"

text \<open>The branch of \<^verbatim>\<open>appendLocked\<close> for a sequence the chain already has.\<close>

definition appendKnown :: "crypto \<Rightarrow> chain \<Rightarrow> bytes \<Rightarrow> descriptor \<Rightarrow> bytes \<Rightarrow> chain \<times> (chain_error + verified)" where
  "appendKnown c ch encoded d digest =
     (let index = unat (ds_Sequence d) in
      if index \<ge> length (ch_links ch) then (ch, Inl OutsideChain)
      else if vd_Digest (ch_links ch ! index) = digest then (ch, Inr (ch_links ch ! index))
      else let previous = (if index > 0 then Some (ch_links ch ! (index - 1)) else None) in
        case VerifyDescriptor c d previous of
          Inl e \<Rightarrow> (ch, Inl (Superseded e))
        | Inr _ \<Rightarrow>
            let p = \<lparr>eq_SiteID = ch_siteID ch, eq_Sequence = ds_Sequence d, eq_Prefix = take index (ch_encoded ch),
                     eq_First = ch_encoded ch ! index, eq_Second = encoded\<rparr>
            in (ch\<lparr>ch_equivoke := Some p\<rparr>, Inl (Equivocation p)))"

definition appendLocked :: "crypto \<Rightarrow> site_json \<Rightarrow> chain \<Rightarrow> bytes \<Rightarrow> chain \<times> (chain_error + verified)" where
  "appendLocked c j ch encoded =
     (case ch_equivoke ch of
        Some p \<Rightarrow> (ch, Inl (Equivocation p))
      | None \<Rightarrow>
          (case site_Decode j encoded of
             Inl e \<Rightarrow> (ch, Inl (SiteErr e))
           | Inr d \<Rightarrow>
               if ds_SiteID d \<noteq> hex_EncodeToString (ch_siteID ch) then (ch, Inl OtherSite)
               else case Digest c d of
                      Inl e \<Rightarrow> (ch, Inl (SiteErr e))
                    | Inr digest \<Rightarrow>
                        let tip = last (ch_links ch) in
                        if ds_Sequence d \<le> ds_Sequence (vd_Descriptor tip) then appendKnown c ch encoded d digest
                        else if ds_Sequence d \<noteq> ds_Sequence (vd_Descriptor tip) + 1 then (ch, Inl SequenceGap)
                        else case VerifyDescriptor c d (Some tip) of
                               Inl e \<Rightarrow> (ch, Inl (SiteErr e))
                             | Inr verified \<Rightarrow>
                                 (ch\<lparr>ch_links := ch_links ch @ [verified], ch_encoded := ch_encoded ch @ [encoded]\<rparr>,
                                  Inr verified)))"

definition Chain_Append :: "crypto \<Rightarrow> site_json \<Rightarrow> chain \<Rightarrow> bytes \<Rightarrow> chain \<times> (chain_error + verified)" where
  "Chain_Append c j ch encoded =
     (if ch_distribution ch \<noteq> None then (ch, Inl WitnessedChain) else appendLocked c j ch encoded)"

definition Chain_AppendWitnessed ::
    "crypto \<Rightarrow> site_json \<Rightarrow> chain \<Rightarrow> bytes \<Rightarrow> inclusion_proof \<Rightarrow> instant \<Rightarrow> chain \<times> (chain_error + verified)" where
  "Chain_AppendWitnessed c j ch encoded proof now =
     (case ch_distribution ch of
        None \<Rightarrow> (ch, Inl (ViewErr Unwitnessed))
      | Some d \<Rightarrow>
          (case requireUsable (Some d) now of
             Inl e \<Rightarrow> (ch, Inl (ViewErr e))
           | Inr _ \<Rightarrow>
               (case Distribution_Witness c d encoded proof now of
                  Inl e \<Rightarrow> (ch, Inl (NotLogged e))
                | Inr _ \<Rightarrow> appendLocked c j ch encoded)))"

definition Chain_Head :: "chain \<Rightarrow> chain_error + verified" where
  "Chain_Head ch = (case ch_equivoke ch of Some p \<Rightarrow> Inl (Equivocation p) | None \<Rightarrow> Inr (last (ch_links ch)))"

definition Chain_Equivocating :: "chain \<Rightarrow> equivocation option \<times> bool" where
  "Chain_Equivocating ch = (ch_equivoke ch, ch_equivoke ch \<noteq> None)"

definition DescriptorByDigest :: "chain \<Rightarrow> bytes \<Rightarrow> verified option" where
  "DescriptorByDigest ch digest =
     (if ch_equivoke ch \<noteq> None then None else List.find (\<lambda>link. vd_Digest link = digest) (ch_links ch))"

section \<open>Third-party verification of an equivocation proof\<close>

datatype proof_error =
    PrefixLength | AncestorBad site_error | GenesisUnderived site_error | OtherDerivedSite | AncestorSite
  | FirstInvalid site_error | SecondInvalid site_error | SequencesDiffer | SitesDiffer | IdenticalBranches

fun verifyPrefix :: "crypto \<Rightarrow> site_json \<Rightarrow> bytes \<Rightarrow> nat \<Rightarrow> verified option \<Rightarrow> bytes list \<Rightarrow> proof_error + verified option" where
  "verifyPrefix c j siteID index previous [] = Inr previous"
| "verifyPrefix c j siteID index previous (encoded # rest) =
     andThen (map_sum AncestorBad id (Verify c j encoded previous)) (\<lambda>verified.
     andThen (if index = 0 then
                andThen (map_sum GenesisUnderived id (DeriveID c (vd_Descriptor verified))) (\<lambda>derived.
                  require (derived = siteID) OtherDerivedSite)
              else Inr ()) (\<lambda>_.
     andThen (require (vd_SiteID verified = siteID) AncestorSite) (\<lambda>_.
       verifyPrefix c j siteID (Suc index) (Some verified) rest)))"

definition VerifyEquivocationProof :: "crypto \<Rightarrow> site_json \<Rightarrow> equivocation \<Rightarrow> proof_error + unit" where
  "VerifyEquivocationProof c j p =
     andThen (require (length (eq_Prefix p) = unat (eq_Sequence p)) PrefixLength) (\<lambda>_.
     andThen (verifyPrefix c j (eq_SiteID p) 0 None (eq_Prefix p)) (\<lambda>previous.
     andThen (map_sum FirstInvalid id (Verify c j (eq_First p) previous)) (\<lambda>first.
     andThen (map_sum SecondInvalid id (Verify c j (eq_Second p) previous)) (\<lambda>second.
     andThen (require (ds_Sequence (vd_Descriptor first) = eq_Sequence p \<and> ds_Sequence (vd_Descriptor second) = eq_Sequence p)
       SequencesDiffer) (\<lambda>_.
     andThen (require (vd_SiteID first = eq_SiteID p \<and> vd_SiteID second = eq_SiteID p) SitesDiffer) (\<lambda>_.
       require (vd_Digest first \<noteq> vd_Digest second) IdenticalBranches))))))"

section \<open>The invariant\<close>

definition link_before :: "verified list \<Rightarrow> nat \<Rightarrow> verified option" where
  "link_before links i = (if i = 0 then None else Some (links ! (i - 1)))"

definition links_ok :: "crypto \<Rightarrow> site_json \<Rightarrow> bytes \<Rightarrow> verified list \<Rightarrow> bytes list \<Rightarrow> bool" where
  "links_ok c j siteID links encoded \<longleftrightarrow> links \<noteq> [] \<and> length encoded = length links \<and> length siteID = 32 \<and>
     (\<forall>i < length links. Verify c j (encoded ! i) (link_before links i) = Inr (links ! i) \<and>
        vd_SiteID (links ! i) = siteID \<and> ds_Sequence (vd_Descriptor (links ! i)) = of_nat i)"

definition chain_ok :: "crypto \<Rightarrow> site_json \<Rightarrow> chain \<Rightarrow> bool" where
  "chain_ok c j ch \<longleftrightarrow> links_ok c j (ch_siteID ch) (ch_links ch) (ch_encoded ch) \<and>
     (\<forall>p. ch_equivoke ch = Some p \<longrightarrow> VerifyEquivocationProof c j p = Inr () \<and> eq_SiteID p = ch_siteID ch)"

lemma Verify_Inr [guard_simps]:
  "Verify c j encoded previous = Inr v \<longleftrightarrow> (\<exists>d. site_Decode j encoded = Inr d \<and> VerifyDescriptor c d previous = Inr v)"
  by (simp add: Verify_def andThen_Inr)

lemma genesis_facts:
  assumes "VerifyDescriptor c d None = Inr v"
  shows "DeriveID c d = Inr (vd_SiteID v)" "ds_Sequence d = 0" "vd_Descriptor v = d" "length (vd_SiteID v) = 32"
    "ds_RevokedKeys d = []"
proof -
  note v = VerifyDescriptor_Inr [OF assms]
  have "ds_Transition d = TransitionGenesis" using v(7) by auto
  with v(6) show id: "DeriveID c d = Inr (vd_SiteID v)" "ds_RevokedKeys d = []" by (auto simp: genesisChecks_def guard_simps)
  from id(1) show "ds_Sequence d = 0" by (auto simp: DeriveID_def guard_simps)
  show "vd_Descriptor v = d" by (rule v(1))
  show "length (vd_SiteID v) = 32" using v(4) hex32.dec_valid by blast
qed

lemma NewChain_ok: "NewChain c j expected encoded = Inr ch \<Longrightarrow> chain_ok c j ch"
  using genesis_facts
  by (auto simp: NewChain_def chain_ok_def links_ok_def link_before_def guard_simps map_sum_Inr)

lemma NewWitnessedChain_ok:
  assumes "NewWitnessedChain c j expected encoded p distribution now = Inr ch"
  shows "chain_ok c j ch"
proof -
  from assms obtain ch0 where "NewChain c j expected encoded = Inr ch0" "ch = ch0\<lparr>ch_distribution := distribution\<rparr>"
    by (auto simp: NewWitnessedChain_def guard_simps split: option.splits)
  then show ?thesis using NewChain_ok [of c j expected encoded ch0] by (simp add: chain_ok_def)
qed

lemma links_ok_last:
  assumes "links_ok c j siteID links encoded"
  shows "last links = links ! (length links - 1)" "ds_Sequence (vd_Descriptor (last links)) + 1 = of_nat (length links)"
    "link_before links (length links) = Some (last links)" "vd_SiteID (last links) = siteID"
proof -
  have ne: "links \<noteq> []" using assms by (simp add: links_ok_def)
  then obtain n where n: "length links = Suc n" by (cases links) auto
  show l: "last links = links ! (length links - 1)" using ne by (simp add: last_conv_nth)
  show "ds_Sequence (vd_Descriptor (last links)) + 1 = of_nat (length links)" "vd_SiteID (last links) = siteID"
    using assms l n by (simp_all add: links_ok_def)
  show "link_before links (length links) = Some (last links)" using l ne by (simp add: link_before_def)
qed

lemma verifyPrefix_links:
  assumes ok: "links_ok c j siteID links encoded" and "k \<le> n" and "n \<le> length links"
  shows "verifyPrefix c j siteID k (link_before links k) (drop k (take n encoded)) = Inr (link_before links n)"
  using assms(2)
proof (induction k rule: inc_induct)
  case (step k)
  from step.hyps assms(3) have k: "k < length links" by simp
  then have v: "Verify c j (encoded ! k) (link_before links k) = Inr (links ! k)" "vd_SiteID (links ! k) = siteID"
    using ok by (auto simp: links_ok_def)
  have "drop k (take n encoded) = encoded ! k # drop (Suc k) (take n encoded)"
    using step.hyps assms(3) ok by (subst Cons_nth_drop_Suc [symmetric]) (auto simp: links_ok_def)
  moreover have "DeriveID c (vd_Descriptor (links ! k)) = Inr siteID" if "k = 0"
    using v that genesis_facts by (auto simp: guard_simps link_before_def)
  moreover have "link_before links (Suc k) = Some (links ! k)" by (simp add: link_before_def)
  ultimately show ?case using step.IH v by simp
qed simp

lemma appendKnown_ok:
  assumes ok: "chain_ok c j ch" and "ch_equivoke ch = None" and "site_Decode j encoded = Inr d"
    and site: "ds_SiteID d = hex_EncodeToString (ch_siteID ch)" and digest: "Digest c d = Inr digest"
  shows "chain_ok c j (fst (appendKnown c ch encoded d digest))"
proof -
  let ?i = "unat (ds_Sequence d)" and ?links = "ch_links ch"
  let ?prev = "if ?i > 0 then Some (?links ! (?i - 1)) else None"
  have prev: "?prev = link_before ?links ?i" by (simp add: link_before_def)
  have links: "links_ok c j (ch_siteID ch) ?links (ch_encoded ch)" using ok by (simp add: chain_ok_def)
  let ?p = "\<lparr>eq_SiteID = ch_siteID ch, eq_Sequence = ds_Sequence d, eq_Prefix = take ?i (ch_encoded ch),
    eq_First = ch_encoded ch ! ?i, eq_Second = encoded\<rparr>"
  have "VerifyEquivocationProof c j ?p = Inr ()"
    if i: "?i < length ?links" and new: "vd_Digest (?links ! ?i) \<noteq> digest" and v: "VerifyDescriptor c d ?prev = Inr v" for v
  proof -
    note vd = VerifyDescriptor_Inr [OF v]
    have "vd_Digest v = digest" using vd(2) digest by simp
    moreover have "vd_SiteID v = ch_siteID ch"
      using vd(4) site links hex32.dec_enc [of "ch_siteID ch" 32] by (simp add: links_ok_def)
    moreover have "Verify c j encoded (link_before ?links ?i) = Inr v" using v assms(3) prev by (simp add: Verify_def)
    moreover have "verifyPrefix c j (ch_siteID ch) 0 None (take ?i (ch_encoded ch)) = Inr (link_before ?links ?i)"
      using verifyPrefix_links [OF links, of 0 ?i] i by (simp add: link_before_def)
    moreover have "Verify c j (ch_encoded ch ! ?i) (link_before ?links ?i) = Inr (?links ! ?i)"
        "vd_SiteID (?links ! ?i) = ch_siteID ch" "ds_Sequence (vd_Descriptor (?links ! ?i)) = ds_Sequence d"
        "length (take ?i (ch_encoded ch)) = ?i"
      using links i by (simp_all add: links_ok_def)
    ultimately show ?thesis using new vd(1) by (simp add: VerifyEquivocationProof_def)
  qed
  then show ?thesis using ok by (auto simp: appendKnown_def Let_def chain_ok_def split: sum.split)
qed

lemma links_ok_snoc:
  assumes ok: "links_ok c j siteID links encoded" and d: "site_Decode j e = Inr d"
    and v: "VerifyDescriptor c d (Some (last links)) = Inr v" and sq: "ds_Sequence d = ds_Sequence (vd_Descriptor (last links)) + 1"
    and site: "ds_SiteID d = hex_EncodeToString siteID"
  shows "links_ok c j siteID (links @ [v]) (encoded @ [e])"
proof -
  note vd = VerifyDescriptor_Inr [OF v] and l = links_ok_last [OF ok]
  have "vd_SiteID v = siteID" using vd(4) site ok hex32.dec_enc [of siteID 32] by (simp add: links_ok_def)
  moreover have "link_before (links @ [v]) i = link_before links i" if "i \<le> length links" for i
    using that by (cases i) (auto simp: link_before_def nth_append)
  ultimately show ?thesis using ok l vd(1) sq v d
    by (auto simp: links_ok_def nth_append less_Suc_eq Verify_def)
qed

lemma appendLocked_ok:
  assumes "chain_ok c j ch"
  shows "chain_ok c j (fst (appendLocked c j ch encoded))"
proof -
  have "chain_ok c j (ch\<lparr>ch_links := ch_links ch @ [v], ch_encoded := ch_encoded ch @ [encoded]\<rparr>)"
    if "ch_equivoke ch = None" "site_Decode j encoded = Inr d" "ds_SiteID d = hex_EncodeToString (ch_siteID ch)"
      "ds_Sequence d = ds_Sequence (vd_Descriptor (last (ch_links ch))) + 1"
      "VerifyDescriptor c d (Some (last (ch_links ch))) = Inr v" for d v
    using links_ok_snoc [OF _ that(2,5,4,3)] assms that(1) by (simp add: chain_ok_def)
  with appendKnown_ok [OF assms] assms show ?thesis
    by (auto simp: appendLocked_def Let_def split: option.split sum.split)
qed

section \<open>Runs\<close>

text \<open>The operations that change a chain: the two appends, and a refresh of the log view it points to.\<close>

datatype chain_op =
    OpAppend bytes
  | OpAppendWitnessed bytes inclusion_proof instant
  | OpRefresh checkpoint consistency_proof instant

fun chain_step :: "crypto \<Rightarrow> site_json \<Rightarrow> chain \<Rightarrow> chain_op \<Rightarrow> chain" where
  "chain_step c j ch (OpAppend encoded) = fst (Chain_Append c j ch encoded)"
| "chain_step c j ch (OpAppendWitnessed encoded p now) = fst (Chain_AppendWitnessed c j ch encoded p now)"
| "chain_step c j ch (OpRefresh ck p now) =
     ch\<lparr>ch_distribution := map_option (\<lambda>d. Refresh_step c d (ck, p, now)) (ch_distribution ch)\<rparr>"

text \<open>Only accepted descriptors are added, at the end, and recorded evidence stops every change.\<close>

definition extends :: "chain \<Rightarrow> chain \<Rightarrow> bool" where
  "extends ch ch' \<longleftrightarrow> ch_siteID ch' = ch_siteID ch \<and> (\<exists>more. ch_links ch' = ch_links ch @ more) \<and>
     (\<forall>p. ch_equivoke ch = Some p \<longrightarrow> ch_equivoke ch' = Some p \<and> ch_links ch' = ch_links ch)"

lemma appendLocked_extends: "extends ch (fst (appendLocked c j ch encoded))"
  by (auto simp: appendLocked_def appendKnown_def extends_def Let_def split: option.split sum.split)

lemma chain_step_cases:
  obtains (same) "chain_step c j ch op = ch"
  | (append) encoded where "chain_step c j ch op = fst (appendLocked c j ch encoded)"
  | (refresh) d where "chain_step c j ch op = ch\<lparr>ch_distribution := d\<rparr>"
proof (cases op)
  case (OpAppend encoded)
  then have "chain_step c j ch op = ch \<or> chain_step c j ch op = fst (appendLocked c j ch encoded)"
    by (auto simp: Chain_Append_def)
  then show thesis using same append by blast
next
  case (OpAppendWitnessed encoded p now)
  then have "chain_step c j ch op = ch \<or> chain_step c j ch op = fst (appendLocked c j ch encoded)"
    by (auto simp: Chain_AppendWitnessed_def split: option.split sum.split)
  then show thesis using same append by blast
next
  case (OpRefresh ck p now)
  then show thesis using refresh by simp
qed

interpretation site_chain: ordered_machine "chain_step c j" "chain_ok c j" extends for c j
proof unfold_locales
  show "chain_ok c j (chain_step c j ch op)" if "chain_ok c j ch" for c j ch op
    by (cases rule: chain_step_cases [of c j ch op]) (use that in \<open>simp_all add: appendLocked_ok\<close>, simp add: chain_ok_def)
  show "extends ch ch" for ch by (simp add: extends_def)
  show "extends a b \<Longrightarrow> extends b d \<Longrightarrow> extends a d" for a b d by (auto simp: extends_def)
  show "extends ch (chain_step c j ch op)" if "chain_ok c j ch" for c j ch op
    by (cases rule: chain_step_cases [of c j ch op]) (auto simp: appendLocked_extends, simp_all add: extends_def)
qed

definition starts :: "crypto \<Rightarrow> site_json \<Rightarrow> bytes \<Rightarrow> chain \<Rightarrow> bool" where
  "starts c j expected ch \<longleftrightarrow> (\<exists>encoded. NewChain c j expected encoded = Inr ch \<or>
     (\<exists>p d now. NewWitnessedChain c j expected encoded p d now = Inr ch))"

lemma starts_ok:
  assumes "starts c j expected ch"
  shows "chain_ok c j ch \<and> ch_siteID ch = expected \<and> ch_equivoke ch = None"
proof -
  have "chain_ok c j ch" using assms NewChain_ok NewWitnessedChain_ok by (auto simp: starts_def)
  moreover have "ch_siteID ch = expected \<and> ch_equivoke ch = None"
    using assms by (auto simp: starts_def NewWitnessedChain_def NewChain_def guard_simps split: option.splits)
  ultimately show ?thesis ..
qed

section \<open>Revocation along a chain\<close>

lemma successor_revoked:
  assumes "VerifyDescriptor c d (Some p) = Inr v"
  shows "keySet (ds_RevokedKeys (vd_Descriptor p)) \<subseteq> keySet (ds_RevokedKeys d)"
proof -
  have "checkRevocationIsAbsorbing d p = Inr ()"
    using successor_transition(2) [OF assms] by (auto simp: successorChecks_def andThen_Inr require_Inr)
  then obtain old new where "decodeBoundedKeyList (ds_RevokedKeys (vd_Descriptor p)) maxRevokedKeys = Inr old"
      "decodeBoundedKeyList (ds_RevokedKeys d) maxRevokedKeys = Inr new" "\<forall>key \<in> set old. containsKey new key"
    by (auto simp: checkRevocationIsAbsorbing_def andThen_Inr require_Inr map_sum_Inr)
  then show ?thesis by (auto simp: keySet_decoded containsKey_def)
qed

lemma links_ok_nth:
  assumes "links_ok c j siteID links encoded" and "i < length links"
  shows "VerifyDescriptor c (vd_Descriptor (links ! i)) (link_before links i) = Inr (links ! i)"
  using assms VerifyDescriptor_Inr(1) by (fastforce simp: links_ok_def Verify_Inr)

lemma links_revoked:
  assumes ok: "links_ok c j siteID links encoded" and "i \<le> k" and "k < length links"
  shows "keySet (ds_RevokedKeys (vd_Descriptor (links ! i))) \<subseteq> keySet (ds_RevokedKeys (vd_Descriptor (links ! k)))"
  using assms(2,3)
proof (induction k rule: dec_induct)
  case (step k)
  from links_ok_nth [OF ok step.prems] have
    "VerifyDescriptor c (vd_Descriptor (links ! Suc k)) (Some (links ! k)) = Inr (links ! Suc k)" by (simp add: link_before_def)
  with successor_revoked step show ?case by fastforce
qed simp

lemma AuthorizesKey_sets:
  "AuthorizesKey v key \<Longrightarrow>
     key \<in> keySet (ds_SigningKeys (vd_Descriptor v)) \<and> key \<notin> keySet (ds_RevokedKeys (vd_Descriptor v))"
  by (auto simp: AuthorizesKey_def containsKey_def keySet_decoded split: sum.splits)

section \<open>Properties\<close>

text \<open>
  C16: A chain is a verified history of the pinned site. After any appends, witnessed or not, and any
  refreshes of the log view, every link verified against its predecessor from the bytes stored for it, carries the
  pinned site identity, its own position as sequence number and its predecessor's digest; and further
  operations only add links at the end.
\<close>

theorem chain_is_verified_history:
  assumes "starts c j expected ch0" and "ch = run_ops (chain_step c j) ch0 ops" and "i < length (ch_links ch)"
  shows "Verify c j (ch_encoded ch ! i) (link_before (ch_links ch) i) = Inr (ch_links ch ! i) \<and>
    vd_SiteID (ch_links ch ! i) = expected \<and> ds_Sequence (vd_Descriptor (ch_links ch ! i)) = of_nat i \<and>
    (0 < i \<longrightarrow> ds_Previous (vd_Descriptor (ch_links ch ! i)) = hex_EncodeToString (vd_Digest (ch_links ch ! (i - 1)))) \<and>
    (\<exists>more. ch_links (run_ops (chain_step c j) ch0 (ops @ ops')) = ch_links ch @ more)"
proof -
  note start = starts_ok [OF assms(1)]
  have ok: "chain_ok c j ch" and ext: "extends ch0 ch"
    using start assms(2) site_chain.run_inv site_chain.run_ord by blast+
  then have links: "links_ok c j expected (ch_links ch) (ch_encoded ch)"
    using start by (simp add: chain_ok_def extends_def)
  have "ds_Previous (vd_Descriptor (ch_links ch ! i)) = hex_EncodeToString (vd_Digest (ch_links ch ! (i - 1)))" if "0 < i"
    using successor_transition(2) [of c "vd_Descriptor (ch_links ch ! i)" "ch_links ch ! (i - 1)" "ch_links ch ! i"]
      links_ok_nth [OF links assms(3)] that
    by (auto simp: link_before_def successorChecks_def andThen_Inr require_Inr)
  moreover have "\<exists>more. ch_links (run_ops (chain_step c j) ch0 (ops @ ops')) = ch_links ch @ more"
    using site_chain.run_ord [OF ok, of ops'] assms(2) by (simp add: extends_def)
  ultimately show ?thesis using links assms(3) by (simp add: links_ok_def)
qed

text \<open>
  C17: Revocation is absorbing. A key a link revokes stays revoked in every later link of the chain, is never
  again one of its signing or recovery keys, and no later link authorizes it to publish, whatever operations
  the chain went through.
\<close>

theorem revocation_is_absorbing:
  assumes "starts c j expected ch0" and "ch = run_ops (chain_step c j) ch0 ops" and "i \<le> k" and "k < length (ch_links ch)"
    and "key \<in> keySet (ds_RevokedKeys (vd_Descriptor (ch_links ch ! i)))"
  shows "key \<in> keySet (ds_RevokedKeys (vd_Descriptor (ch_links ch ! k))) \<and>
    key \<notin> keySet (ds_SigningKeys (vd_Descriptor (ch_links ch ! k))) \<and>
    key \<notin> keySet (rc_Keys (ds_Recovery (vd_Descriptor (ch_links ch ! k)))) \<and>
    \<not> AuthorizesKey (ch_links ch ! k) key"
proof -
  have links: "links_ok c j (ch_siteID ch) (ch_links ch) (ch_encoded ch)"
    using starts_ok [OF assms(1)] assms(2) site_chain.run_inv chain_ok_def by blast
  have rev: "key \<in> keySet (ds_RevokedKeys (vd_Descriptor (ch_links ch ! k)))"
    using links_revoked [OF links assms(3,4)] assms(5) by blast
  with structure_keySets [OF VerifyDescriptor_Inr(3) [OF links_ok_nth [OF links assms(4)]]]
    AuthorizesKey_sets [of "ch_links ch ! k" key] show ?thesis by blast
qed

text \<open>
  Equivocation is final and provable. Once a chain has recorded two competing descriptors, it never
  accepts, returns or finds a descriptor again, and the recorded proof convinces anyone: checking it from the
  bytes alone succeeds and names the pinned site.
\<close>

theorem equivocation_is_final:
  assumes "starts c j expected ch0" and "ch = run_ops (chain_step c j) ch0 ops" and "ch_equivoke ch = Some p"
  shows "VerifyEquivocationProof c j p = Inr () \<and> eq_SiteID p = expected \<and>
    (let ch' = run_ops (chain_step c j) ch0 (ops @ ops') in
     ch_links ch' = ch_links ch \<and> Chain_Head ch' = Inl (Equivocation p) \<and> DescriptorByDigest ch' digest = None \<and>
     (\<forall>encoded. snd (appendLocked c j ch' encoded) = Inl (Equivocation p)))"
proof -
  note start = starts_ok [OF assms(1)]
  have ok: "chain_ok c j ch" and ext: "extends ch0 ch"
    using start assms(2) site_chain.run_inv site_chain.run_ord by blast+
  let ?ch = "run_ops (chain_step c j) ch0 (ops @ ops')"
  have "extends ch ?ch" using site_chain.run_ord [OF ok, of ops'] assms(2) by simp
  then have "ch_equivoke ?ch = Some p" "ch_links ?ch = ch_links ch" using assms(3) by (simp_all add: extends_def)
  then show ?thesis using ok ext start assms(3)
    by (simp add: Let_def chain_ok_def extends_def Chain_Head_def DescriptorByDigest_def appendLocked_def)
qed

section \<open>A sample chain\<close>

text \<open>A genesis, its successor, and a competing successor.\<close>

definition sample_json :: site_json where
  "sample_json = \<lparr>sj_tokens = (\<lambda>_. [JOpenObj, JClose]),
     sj_descriptor = (\<lambda>e. Some (if e = [1] then sample_genesis
       else if e = [2] then sample_next else sample_signed 1 TransitionRevocation (vd_Digest sample_verified), False))\<rparr>"

definition sample_chain :: chain where
  "sample_chain = \<lparr>ch_siteID = sample_id, ch_links = [sample_verified], ch_encoded = [[1]], ch_equivoke = None,
     ch_distribution = None\<rparr>"

lemma sample_decode: "site_Decode sample_json [b] = Inr (if b = 1 then sample_genesis
    else if b = 2 then sample_next else sample_signed 1 TransitionRevocation (vd_Digest sample_verified))"
proof -
  have "RejectDuplicateKeys (\<lambda>_. [JOpenObj, JClose]) [b] maxDescriptorDepth = Some (Inr ())"
    by (simp add: RejectDuplicateKeys_def json_Token_def closing_def numeral_eq_Suc)
  then show ?thesis by (simp add: site_Decode_def sample_json_def MaximumFileBytes_def)
qed

lemma sample_chain_new: "NewChain sample_crypto sample_json sample_id [1] = Inr sample_chain"
  using sample_genesis_verifies by (simp add: NewChain_def Verify_def sample_decode sample_chain_def) (simp add: sample_link_def)

lemma sample_starts: "starts sample_crypto sample_json sample_id sample_chain"
  using sample_chain_new by (auto simp: starts_def)

lemma sample_fields:
  "ds_SiteID (sample_signed n t p) = hex_EncodeToString sample_id" "ds_Sequence (sample_signed n t p) = n"
  "vd_Descriptor (sample_link n t p) = sample_signed n t p" "vd_Digest (sample_link n t p) = sample_digest n t p"
  "ds_RevokedKeys (sample_signed n t p) = map b64_EncodeToString (sample_revoked n)"
  by (simp_all add: sample_signed_def sample_desc_def sample_link_def Let_def)

lemma sample_append:
  "ch_links (run_ops (chain_step sample_crypto sample_json) sample_chain [OpAppend [2]]) = [sample_verified, sample_next_verified]"
  "ch_equivoke (run_ops (chain_step sample_crypto sample_json) sample_chain [OpAppend [2], OpAppend [3]]) \<noteq> None"
proof -
  have d: "Digest sample_crypto (sample_signed 1 t (sample_digest 0 TransitionGenesis sample_zero)) =
      Inr (sample_digest 1 t (sample_digest 0 TransitionGenesis sample_zero))"
    if "t \<in> {TransitionRotation, TransitionRevocation}" for t
    using that by (intro sample_signed_digest) auto
  have s: "VerifyDescriptor sample_crypto (sample_signed 1 t (sample_digest 0 TransitionGenesis sample_zero)) (Some sample_verified) =
    Inr (sample_link 1 t (sample_digest 0 TransitionGenesis sample_zero))"
    if "t \<in> {TransitionRotation, TransitionRevocation}" for t
    using sample_successor [OF that] by (simp add: sample_fields)
  have one: "fst (appendLocked sample_crypto sample_json sample_chain [2]) =
      sample_chain\<lparr>ch_links := [sample_verified, sample_next_verified], ch_encoded := [[1], [2]]\<rparr>"
    by (simp add: appendLocked_def sample_chain_def sample_decode sample_fields d s)
  then show "ch_links (run_ops (chain_step sample_crypto sample_json) sample_chain [OpAppend [2]]) = [sample_verified, sample_next_verified]"
    by (simp add: Chain_Append_def sample_chain_def)
  have "sample_digest 1 TransitionRotation (sample_digest 0 TransitionGenesis sample_zero) \<noteq>
      sample_digest 1 TransitionRevocation (sample_digest 0 TransitionGenesis sample_zero)"
    by (rule sample_digests_differ) simp
  then show "ch_equivoke (run_ops (chain_step sample_crypto sample_json) sample_chain [OpAppend [2], OpAppend [3]]) \<noteq> None"
    using one by (simp add: Chain_Append_def sample_chain_def appendLocked_def appendKnown_def sample_decode sample_fields d s Let_def)
qed

theorem chain_is_verified_history_witness:
  "ds_Previous (vd_Descriptor sample_next_verified) = hex_EncodeToString (vd_Digest sample_verified)"
  using chain_is_verified_history [OF sample_starts refl, of 1 "[OpAppend [2]]"] by (simp add: sample_append(1) del: run_ops_Cons)

theorem revocation_is_absorbing_witness:
  "\<not> AuthorizesKey sample_next_verified sample_gone"
proof -
  have "sample_gone \<in> keySet (ds_RevokedKeys (vd_Descriptor sample_next_verified))"
    by (simp add: sample_fields sample_revoked_def keySet_def b64.dec_enc)
  then show ?thesis
    using revocation_is_absorbing [OF sample_starts refl, of 1 1 "[OpAppend [2]]" sample_gone]
    by (simp add: sample_append(1) del: run_ops_Cons)
qed

theorem equivocation_is_final_witness:
  "\<exists>p. VerifyEquivocationProof sample_crypto sample_json p = Inr () \<and> eq_SiteID p = sample_id"
proof -
  from sample_append(2) obtain p where
    "ch_equivoke (run_ops (chain_step sample_crypto sample_json) sample_chain [OpAppend [2], OpAppend [3]]) = Some p" by blast
  from equivocation_is_final [OF sample_starts refl this] show ?thesis by blast
qed

end
