(* ===== verification/Manifest.thy ===== *)
theory Manifest
  imports GoStd
begin

text \<open>
  Signed objects, \<^verbatim>\<open>reconstruct/manifest.go\<close> and \<^verbatim>\<open>reconstruct/reconstruct.go\<close>: the 228-byte manifest, its
  envelope, the verification of an object, and reconstruction through a decoder interface. Fixed-size arrays are
  byte lists of that length (\<open>manifest_sized\<close>).
\<close>

section \<open>Objects\<close>

record verifier =
  ve_Root :: bytes
  ve_PublicKey :: bytes
  ve_Signature :: bytes

datatype object_error =
    InvalidPublicKey | InvalidSignatureLength | HashMismatch | SignatureFails | EmptyObject | InvalidPrivateKey
  | ZeroLength | GenerationMismatch | ObjectSignatureFails | ManifestSignatureFails | LengthMismatch
  | ManifestLength | ManifestMagic

definition SigningMessage :: "bytes \<Rightarrow> bytes" where
  "SigningMessage root = bytes_of ''nomad-object-v1'' @ root"

definition Verifier_Verify :: "crypto \<Rightarrow> verifier \<Rightarrow> bytes \<Rightarrow> object_error + unit" where
  "Verifier_Verify c v data =
     andThen (require (length (ve_PublicKey v) = publicKeySize) InvalidPublicKey) (\<lambda>_.
     andThen (require (length (ve_Signature v) = signatureSize) InvalidSignatureLength) (\<lambda>_.
       let root = sha256 c data in
     andThen (require (root = ve_Root v) HashMismatch) (\<lambda>_.
       require (ed_verify c (ve_PublicKey v) (SigningMessage root) (ve_Signature v)) SignatureFails)))"

text \<open>
  Reconstruction takes any decoder: \<open>add\<close>, \<open>ready\<close> and \<open>decode\<close> are the methods of the interface on a state.
\<close>

datatype 'e reconstruct_error = AddFails 'e | InsufficientPotential | DecodeFails 'e | ObjectFails object_error

fun feed :: "('d \<Rightarrow> bytes \<Rightarrow> 'd \<times> ('e + unit)) \<Rightarrow> ('d \<Rightarrow> bool) \<Rightarrow> 'd \<Rightarrow> bytes list \<Rightarrow> 'd \<times> ('e + unit)" where
  "feed add ready d [] = (d, Inr ())"
| "feed add ready d (f # fs) =
     (case add d f of
        (d', Inl e) \<Rightarrow> (d', Inl e)
      | (d', Inr _) \<Rightarrow> if ready d' then (d', Inr ()) else feed add ready d' fs)"

definition Reconstruct ::
    "crypto \<Rightarrow> ('d \<Rightarrow> bytes \<Rightarrow> 'd \<times> ('e + unit)) \<Rightarrow> ('d \<Rightarrow> bool) \<Rightarrow> ('d \<Rightarrow> 'e + bytes) \<Rightarrow> 'd \<Rightarrow> bytes list \<Rightarrow> verifier \<Rightarrow>
      'e reconstruct_error + bytes" where
  "Reconstruct c add ready decode d fragments v =
     (case feed add ready d fragments of
        (d', Inl e) \<Rightarrow> Inl (AddFails e)
      | (d', Inr _) \<Rightarrow>
          if \<not> ready d' then Inl InsufficientPotential
          else andThen (map_sum DecodeFails id (decode d')) (\<lambda>data.
               andThen (map_sum ObjectFails id (Verifier_Verify c v data)) (\<lambda>_. Inr data)))"

section \<open>Manifests\<close>

definition ManifestSize :: nat where "ManifestSize = 228"
definition manifestMagic :: bytes where "manifestMagic = bytes_of ''NOM'' @ [1]"

record manifest =
  mf_Length :: u64
  mf_Basin :: u64
  mf_Generation :: bytes
  mf_Root :: bytes
  mf_PublicKey :: bytes
  mf_ObjectSignature :: bytes
  mf_ManifestSignature :: bytes

definition manifest_sized :: "manifest \<Rightarrow> bool" where
  "manifest_sized m \<longleftrightarrow> length (mf_Generation m) = 16 \<and> length (mf_Root m) = 32 \<and> length (mf_PublicKey m) = publicKeySize \<and>
     length (mf_ObjectSignature m) = signatureSize \<and> length (mf_ManifestSignature m) = signatureSize"

definition GenerationFor :: "crypto \<Rightarrow> bytes \<Rightarrow> bytes" where
  "GenerationFor c root = take 16 (sha256 c (bytes_of ''nomad-generation-v1'' @ root))"

definition Manifest_signingMessage :: "manifest \<Rightarrow> bytes" where
  "Manifest_signingMessage m = bytes_of ''nomad-manifest-v1'' @ be64 (mf_Length m) @ be64 (mf_Basin m) @
     mf_Generation m @ mf_Root m @ mf_PublicKey m @ mf_ObjectSignature m"

definition NewManifest :: "crypto \<Rightarrow> bytes \<Rightarrow> u64 \<Rightarrow> bytes \<Rightarrow> object_error + manifest" where
  "NewManifest c data basin privateKey =
     andThen (require (data \<noteq> []) EmptyObject) (\<lambda>_.
     andThen (require (length privateKey = privateKeySize) InvalidPrivateKey) (\<lambda>_.
       let root = sha256 c data;
           m = \<lparr>mf_Length = of_nat (length data), mf_Basin = basin, mf_Generation = GenerationFor c root, mf_Root = root,
                mf_PublicKey = ed_public c privateKey, mf_ObjectSignature = ed_sign c privateKey (SigningMessage root),
                mf_ManifestSignature = replicate signatureSize 0\<rparr>
       in Inr (m\<lparr>mf_ManifestSignature := ed_sign c privateKey (Manifest_signingMessage m)\<rparr>)))"

definition VerifyEnvelope :: "crypto \<Rightarrow> manifest \<Rightarrow> object_error + unit" where
  "VerifyEnvelope c m =
     andThen (require (mf_Length m \<noteq> 0) ZeroLength) (\<lambda>_.
     andThen (require (mf_Generation m = GenerationFor c (mf_Root m)) GenerationMismatch) (\<lambda>_.
     andThen (require (ed_verify c (mf_PublicKey m) (SigningMessage (mf_Root m)) (mf_ObjectSignature m)) ObjectSignatureFails) (\<lambda>_.
       require (ed_verify c (mf_PublicKey m) (Manifest_signingMessage m) (mf_ManifestSignature m)) ManifestSignatureFails)))"

definition Manifest_Verifier :: "manifest \<Rightarrow> verifier" where
  "Manifest_Verifier m = \<lparr>ve_Root = mf_Root m, ve_PublicKey = mf_PublicKey m, ve_Signature = mf_ObjectSignature m\<rparr>"

definition VerifyObject :: "crypto \<Rightarrow> manifest \<Rightarrow> bytes \<Rightarrow> object_error + unit" where
  "VerifyObject c m data =
     andThen (VerifyEnvelope c m) (\<lambda>_.
     andThen (require (of_nat (length data) = mf_Length m) LengthMismatch) (\<lambda>_.
       Verifier_Verify c (Manifest_Verifier m) data))"

definition Manifest_MarshalBinary :: "crypto \<Rightarrow> manifest \<Rightarrow> object_error + bytes" where
  "Manifest_MarshalBinary c m =
     andThen (VerifyEnvelope c m) (\<lambda>_.
       Inr (manifestMagic @ be64 (mf_Length m) @ be64 (mf_Basin m) @ mf_Generation m @ mf_Root m @ mf_PublicKey m @
            mf_ObjectSignature m @ mf_ManifestSignature m))"

definition ParseManifest :: "crypto \<Rightarrow> bytes \<Rightarrow> object_error + manifest" where
  "ParseManifest c wire =
     andThen (require (length wire = ManifestSize) ManifestLength) (\<lambda>_.
     andThen (require (slice 0 4 wire = manifestMagic) ManifestMagic) (\<lambda>_.
       let m = \<lparr>mf_Length = be_dec (slice 4 12 wire), mf_Basin = be_dec (slice 12 20 wire),
                mf_Generation = slice 20 36 wire, mf_Root = slice 36 68 wire, mf_PublicKey = slice 68 100 wire,
                mf_ObjectSignature = slice 100 164 wire, mf_ManifestSignature = slice 164 228 wire\<rparr>
       in andThen (VerifyEnvelope c m) (\<lambda>_. Inr m)))"

section \<open>Round trip\<close>

lemma NewManifest_Inr:
  assumes "NewManifest c data basin sk = Inr m" and ok: "hash_ok c" "sign_ok c" and "go_sized data"
  shows "manifest_sized m" "VerifyEnvelope c m = Inr ()" "mf_Root m = sha256 c data"
    "mf_Length m = of_nat (length data)" "mf_PublicKey m = ed_public c sk"
proof -
  from assms(1) have d: "data \<noteq> []" "length sk = privateKeySize" by (auto simp: NewManifest_def guard_simps)
  let ?m = "\<lparr>mf_Length = of_nat (length data), mf_Basin = basin, mf_Generation = GenerationFor c (sha256 c data),
     mf_Root = sha256 c data, mf_PublicKey = ed_public c sk, mf_ObjectSignature = ed_sign c sk (SigningMessage (sha256 c data)),
     mf_ManifestSignature = replicate signatureSize 0\<rparr>"
  have m: "m = ?m\<lparr>mf_ManifestSignature := ed_sign c sk (Manifest_signingMessage ?m)\<rparr>"
    using assms(1) by (auto simp: NewManifest_def guard_simps Let_def)
  have msg: "Manifest_signingMessage m = Manifest_signingMessage ?m" by (simp add: m Manifest_signingMessage_def)
  show f: "mf_Root m = sha256 c data" "mf_Length m = of_nat (length data)" "mf_PublicKey m = ed_public c sk"
    by (simp_all add: m)
  have lens: "length (ed_public c sk) = publicKeySize" "length (ed_sign c sk x) = signatureSize"
      "ed_verify c (ed_public c sk) x (ed_sign c sk x)" for x
    using ok(2) d(2) by (simp_all add: sign_ok_def)
  with ok(1) show "manifest_sized m" by (simp add: manifest_sized_def m GenerationFor_def hash_ok_def)
  have "(of_nat (length data) :: u64) \<noteq> 0"
    using d(1) assms(4) by (simp add: unat_eq_zero [symmetric] unat_of_nat_u64)
  then show "VerifyEnvelope c m = Inr ()"
    unfolding VerifyEnvelope_def msg using lens(3) by (simp add: m)
qed

definition manifest_image :: "manifest \<Rightarrow> bytes" where
  "manifest_image m = manifestMagic @ be64 (mf_Length m) @ be64 (mf_Basin m) @ mf_Generation m @ mf_Root m @ mf_PublicKey m @
     mf_ObjectSignature m @ mf_ManifestSignature m"

lemma length_manifestMagic [simp]: "length manifestMagic = 4"
  by (simp add: manifestMagic_def)

lemma manifest_slices:
  assumes "manifest_sized m"
  shows "length (manifest_image m) = ManifestSize" "slice 0 4 (manifest_image m) = manifestMagic"
    "slice 4 12 (manifest_image m) = be64 (mf_Length m)" "slice 12 20 (manifest_image m) = be64 (mf_Basin m)"
    "slice 20 36 (manifest_image m) = mf_Generation m" "slice 36 68 (manifest_image m) = mf_Root m"
    "slice 68 100 (manifest_image m) = mf_PublicKey m" "slice 100 164 (manifest_image m) = mf_ObjectSignature m"
    "slice 164 228 (manifest_image m) = mf_ManifestSignature m"
  using assms by (simp_all add: slice_def manifest_image_def manifest_sized_def ManifestSize_def publicKeySize_def signatureSize_def)

lemma ParseManifest_image:
  assumes "manifest_sized m" and "VerifyEnvelope c m = Inr ()"
  shows "ParseManifest c (manifest_image m) = Inr m"
proof -
  have be: "be_dec (be64 (mf_Length m)) = mf_Length m" "be_dec (be64 (mf_Basin m)) = mf_Basin m" by (simp_all add: be_dec_enc)
  have eta: "\<lparr>mf_Length = mf_Length m, mf_Basin = mf_Basin m, mf_Generation = mf_Generation m, mf_Root = mf_Root m,
      mf_PublicKey = mf_PublicKey m, mf_ObjectSignature = mf_ObjectSignature m,
      mf_ManifestSignature = mf_ManifestSignature m\<rparr> = m" by (rule manifest.equality) simp_all
  show ?thesis unfolding ParseManifest_def Let_def manifest_slices [OF assms(1)] be eta using assms(2) by simp
qed

lemma ParseManifest_inverse:
  assumes "ParseManifest c wire = Inr m"
  shows "wire = manifest_image m" "manifest_sized m" "VerifyEnvelope c m = Inr ()"
proof -
  from assms have len: "length wire = 228" and magic: "slice 0 4 wire = manifestMagic" and env: "VerifyEnvelope c m = Inr ()"
    and m: "m = \<lparr>mf_Length = be_dec (slice 4 12 wire), mf_Basin = be_dec (slice 12 20 wire),
       mf_Generation = slice 20 36 wire, mf_Root = slice 36 68 wire, mf_PublicKey = slice 68 100 wire,
       mf_ObjectSignature = slice 100 164 wire, mf_ManifestSignature = slice 164 228 wire\<rparr>"
    by (auto simp: ParseManifest_def guard_simps ManifestSize_def Let_def)
  show "VerifyEnvelope c m = Inr ()" by (rule env)
  show "manifest_sized m" using len by (simp add: m manifest_sized_def publicKeySize_def signatureSize_def)
  have b: "be64 (be_dec (slice 4 12 wire)) = slice 4 12 wire" "be64 (be_dec (slice 12 20 wire)) = slice 12 20 wire"
    using be_enc_dec [of "slice 4 12 wire", where ?'a = 64] be_enc_dec [of "slice 12 20 wire", where ?'a = 64] len by simp_all
  have cat: "take 4 wire @ slice 4 12 wire = take 12 wire" "take 12 wire @ slice 12 20 wire = take 20 wire"
    "take 20 wire @ slice 20 36 wire = take 36 wire" "take 36 wire @ slice 36 68 wire = take 68 wire"
    "take 68 wire @ slice 68 100 wire = take 100 wire" "take 100 wire @ slice 100 164 wire = take 164 wire"
    "take 164 wire @ slice 164 228 wire = take 228 wire"
    using len by (intro slices_append; simp)+
  have "manifest_image m = (((((((take 4 wire @ slice 4 12 wire) @ slice 12 20 wire) @ slice 20 36 wire) @ slice 36 68 wire)
      @ slice 68 100 wire) @ slice 100 164 wire) @ slice 164 228 wire)"
    using magic [symmetric] b by (simp add: manifest_image_def m slice_def)
  then show "wire = manifest_image m" using len by (simp only: cat) simp
qed

section \<open>Properties\<close>

lemma Verifier_Verify_Inr:
  "Verifier_Verify c v data = Inr () \<longleftrightarrow> length (ve_PublicKey v) = publicKeySize \<and> length (ve_Signature v) = signatureSize \<and>
     sha256 c data = ve_Root v \<and> ed_verify c (ve_PublicKey v) (SigningMessage (ve_Root v)) (ve_Signature v)"
  by (auto simp: Verifier_Verify_def guard_simps Let_def)

text \<open>
  A manifest made for an object is complete and travels unchanged. For every non-empty object and key the
  new manifest passes its own envelope check, verifies that object, marshals to exactly 228 bytes and parses
  back to itself; any accepted 228 bytes are the image of the manifest they parse to; and a manifest never
  verifies a second object, unless the two objects are a SHA-256 collision.
\<close>

theorem manifest_roundtrip:
  assumes "hash_ok c" and "sign_ok c" and "go_sized data" and "data \<noteq> []" and "length sk = privateKeySize"
  shows "\<exists>m wire. NewManifest c data basin sk = Inr m \<and> VerifyObject c m data = Inr () \<and>
      Manifest_MarshalBinary c m = Inr wire \<and> length wire = ManifestSize \<and> ParseManifest c wire = Inr m \<and>
      (\<forall>other. VerifyObject c m other = Inr () \<longrightarrow> other = data \<or> collides (sha256 c) [data, other]) \<and>
      (\<forall>w m'. ParseManifest c w = Inr m' \<longrightarrow> Manifest_MarshalBinary c m' = Inr w)"
proof -
  obtain m where m: "NewManifest c data basin sk = Inr m"
    using assms(4,5) by (simp add: NewManifest_def Let_def)
  note f = NewManifest_Inr [OF m assms(1,2,3)]
  have marshal: "Manifest_MarshalBinary c m' = Inr (manifest_image m')" if "VerifyEnvelope c m' = Inr ()" for m'
    using that by (simp add: Manifest_MarshalBinary_def manifest_image_def)
  have "VerifyObject c m data = Inr ()"
    using f by (auto simp: VerifyObject_def Verifier_Verify_Inr Manifest_Verifier_def manifest_sized_def VerifyEnvelope_def guard_simps)
  moreover have "other = data \<or> collides (sha256 c) [data, other]" if "VerifyObject c m other = Inr ()" for other
  proof -
    have "sha256 c other = sha256 c data"
      using that f(3) by (auto simp: VerifyObject_def guard_simps Verifier_Verify_Inr Manifest_Verifier_def)
    then show ?thesis by (auto simp: collides_def)
  qed
  moreover have "Manifest_MarshalBinary c m' = Inr w" if "ParseManifest c w = Inr m'" for w m'
    using ParseManifest_inverse [OF that] marshal by simp
  ultimately show ?thesis
    using m marshal [OF f(2)] manifest_slices(1) [OF f(1)] ParseManifest_image [OF f(1,2)] by blast
qed

theorem manifest_roundtrip_witness:
  "\<exists>m wire. NewManifest sample_crypto [7] 0 (replicate 64 1) = Inr m \<and> ParseManifest sample_crypto wire = Inr m"
proof -
  have "length (replicate 64 (1 :: byte)) = privateKeySize" "go_sized [7 :: byte]" "[7 :: byte] \<noteq> []"
    by (simp_all add: privateKeySize_def)
  from manifest_roundtrip [OF sample_hash_ok sample_sign_ok this(2,3,1), of 0] show ?thesis by blast
qed

end
