(* ===== verification/Publication.thy ===== *)
theory Publication
  imports SiteChain Manifest
begin

text \<open>
  Publications, \<^verbatim>\<open>site/publication.go\<close>: the signed claim that binds one object and manifest to a site under a
  descriptor, and \<^verbatim>\<open>Resolve\<close>, the decision on the publisher's identity that the client renders.
\<close>

definition PublicationVersion :: string where "PublicationVersion = ''nomad-site-publication-v1''"
definition publicationDomain :: string where "publicationDomain = ''nomad-site-publication-v1''"

record publication =
  pu_Version :: string
  pu_SiteID :: string
  pu_DescriptorDigest :: string
  pu_SigningKey :: string
  pu_ObjectRoot :: string
  pu_ManifestDigest :: string
  pu_PublishedAt :: string
  pu_Signature :: string

datatype state = ObjectVerified | PublisherVerified | PublisherUnknown | PublisherInvalid | ObjectInvalid

datatype publication_error =
    ObjectErr object_error | PubVersion | PubSiteID | PubDescriptorDigest | PubSigningKey | PubObjectRoot
  | PubManifestDigest | PubTime | NoAcceptedChain | PubEquivocation equivocation | ChainForOther | ClaimsOtherSite
  | OtherObject | OtherManifest | PubSignatureEncoding | PubSignatureFails | NotInAcceptedChain | HeadErr chain_error
  | OutsideWindow | KeyNotActive | KeyRevoked | ViewFails distribution_error | PublishingKeyRequired

definition publicationCanonicalBytes :: "publication \<Rightarrow> publication_error + bytes" where
  "publicationCanonicalBytes p =
     andThen (require (pu_Version p = PublicationVersion) PubVersion) (\<lambda>_.
     andThen (expect (decodeHex 32 (pu_SiteID p)) PubSiteID) (\<lambda>siteID.
     andThen (expect (decodeHex 32 (pu_DescriptorDigest p)) PubDescriptorDigest) (\<lambda>descriptorDigest.
     andThen (expect (decodeBase64 publicKeySize (pu_SigningKey p)) PubSigningKey) (\<lambda>signingKey.
     andThen (expect (decodeHex 32 (pu_ObjectRoot p)) PubObjectRoot) (\<lambda>objectRoot.
     andThen (expect (decodeHex 32 (pu_ManifestDigest p)) PubManifestDigest) (\<lambda>manifestDigest.
     andThen (require (validateCanonicalTime (pu_PublishedAt p)) PubTime) (\<lambda>_.
       Inr (appendString (appendBytes (appendString [] (pu_Version p) @ siteID @ descriptorDigest) signingKey
              @ objectRoot @ manifestDigest) (pu_PublishedAt p)))))))))"

definition publicationSigningMessage :: "publication \<Rightarrow> publication_error + bytes" where
  "publicationSigningMessage p =
     andThen (publicationCanonicalBytes p) (\<lambda>canonical. Inr (bytes_of publicationDomain @ canonical))"

definition ManifestDigest :: "crypto \<Rightarrow> manifest \<Rightarrow> publication_error + bytes" where
  "ManifestDigest c m =
     andThen (map_sum ObjectErr id (Manifest_MarshalBinary c m)) (\<lambda>encoded. Inr (sha256 c encoded))"

definition NewPublication ::
    "crypto \<Rightarrow> bytes \<Rightarrow> verified \<Rightarrow> manifest \<Rightarrow> instant \<Rightarrow> bytes \<Rightarrow> publication_error + publication" where
  "NewPublication c siteID d m publishedAt private =
     andThen (require (length private = privateKeySize) PublishingKeyRequired) (\<lambda>_.
       let public = ed_public c private in
     andThen (require (AuthorizesKey d public) KeyNotActive) (\<lambda>_.
     andThen (ManifestDigest c m) (\<lambda>manifestDigest.
       let p = \<lparr>pu_Version = PublicationVersion, pu_SiteID = hex_EncodeToString siteID,
                pu_DescriptorDigest = hex_EncodeToString (vd_Digest d), pu_SigningKey = b64_EncodeToString public,
                pu_ObjectRoot = hex_EncodeToString (mf_Root m), pu_ManifestDigest = hex_EncodeToString manifestDigest,
                pu_PublishedAt = time_Format (publishedAt - publishedAt mod second), pu_Signature = []\<rparr>
       in andThen (publicationSigningMessage p) (\<lambda>message.
          Inr (p\<lparr>pu_Signature := b64_EncodeToString (ed_sign c private message)\<rparr>)))))"

definition headRevoked :: "verified \<Rightarrow> bytes \<Rightarrow> bool" where
  "headRevoked head key =
     (case decodeBoundedKeyList (ds_RevokedKeys (vd_Descriptor head)) maxRevokedKeys of
        Inl _ \<Rightarrow> True
      | Inr revoked \<Rightarrow> containsKey revoked key)"

text \<open>The checks of \<^verbatim>\<open>Resolve\<close> whose failure is a contradicted claim, in the order of the code.\<close>

definition claimChecks :: "crypto \<Rightarrow> bytes \<Rightarrow> chain \<Rightarrow> publication \<Rightarrow> manifest \<Rightarrow> publication_error + unit" where
  "claimChecks c intended ch p m =
     andThen (case Chain_Equivocating ch of (Some e, True) \<Rightarrow> Inl (PubEquivocation e) | _ \<Rightarrow> Inr ()) (\<lambda>_.
     andThen (require (ch_siteID ch = intended) ChainForOther) (\<lambda>_.
     andThen (require (pu_SiteID p = hex_EncodeToString intended) ClaimsOtherSite) (\<lambda>_.
     andThen (expect (decodeHex 32 (pu_ObjectRoot p)) PubObjectRoot) (\<lambda>claimedRoot.
     andThen (require (claimedRoot = mf_Root m) OtherObject) (\<lambda>_.
     andThen (ManifestDigest c m) (\<lambda>manifestDigest.
     andThen (expect (decodeHex 32 (pu_ManifestDigest p)) PubManifestDigest) (\<lambda>claimedManifest.
     andThen (require (claimedManifest = manifestDigest) OtherManifest) (\<lambda>_.
     andThen (expect (decodeBase64 publicKeySize (pu_SigningKey p)) PubSigningKey) (\<lambda>signingKey.
     andThen (publicationSigningMessage p) (\<lambda>message.
     andThen (expect (decodeBase64 signatureSize (pu_Signature p)) PubSignatureEncoding) (\<lambda>signature.
     andThen (require (ed_verify c signingKey message signature) PubSignatureFails) (\<lambda>_.
     andThen (expect (decodeHex 32 (pu_DescriptorDigest p)) PubDescriptorDigest) (\<lambda>descriptorDigest.
     andThen (expect (DescriptorByDigest ch descriptorDigest) NotInAcceptedChain) (\<lambda>d.
     andThen (map_sum HeadErr id (Chain_Head ch)) (\<lambda>head.
     andThen (expect (time_Parse (pu_PublishedAt p)) PubTime) (\<lambda>publishedAt.
     andThen (require (ActiveAt d publishedAt) OutsideWindow) (\<lambda>_.
     andThen (require (AuthorizesKey d signingKey) KeyNotActive) (\<lambda>_.
       require (\<not> headRevoked head signingKey) KeyRevoked))))))))))))))))))"

definition Resolve ::
    "crypto \<Rightarrow> bytes \<Rightarrow> chain option \<Rightarrow> publication option \<Rightarrow> manifest \<Rightarrow> bytes \<Rightarrow> instant \<Rightarrow> state \<times> publication_error option" where
  "Resolve c intended chain pub m data now =
     (case VerifyObject c m data of
        Inl e \<Rightarrow> (ObjectInvalid, Some (ObjectErr e))
      | Inr _ \<Rightarrow>
     (case pub of
        None \<Rightarrow> (ObjectVerified, None)
      | Some p \<Rightarrow>
     (case publicationCanonicalBytes p of
        Inl e \<Rightarrow> (PublisherInvalid, Some e)
      | Inr _ \<Rightarrow>
     (case chain of
        None \<Rightarrow> (PublisherUnknown, Some NoAcceptedChain)
      | Some ch \<Rightarrow>
     (case claimChecks c intended ch p m of
        Inl e \<Rightarrow> (PublisherInvalid, Some e)
      | Inr _ \<Rightarrow>
     (case requireUsable (Chain_view ch) now of
        Inl (ViewSplit sv) \<Rightarrow> (PublisherInvalid, Some (ViewFails (ViewSplit sv)))
      | Inl e \<Rightarrow> (PublisherUnknown, Some (ViewFails e))
      | Inr _ \<Rightarrow> (PublisherVerified, None)))))))"

section \<open>When an identity is verified\<close>

lemma Resolve_verified_iff:
  "fst (Resolve c intended chain pub m data now) = PublisherVerified \<longleftrightarrow>
     VerifyObject c m data = Inr () \<and> (\<exists>p x ch. pub = Some p \<and> publicationCanonicalBytes p = Inr x \<and> chain = Some ch \<and>
       claimChecks c intended ch p m = Inr () \<and> requireUsable (ch_distribution ch) now = Inr ())"
  by (auto simp: Resolve_def Chain_view_def split: sum.splits option.splits distribution_error.splits)

lemma claimChecks_Inr:
  "claimChecks c intended ch p m = Inr () \<longleftrightarrow>
     ch_equivoke ch = None \<and> ch_siteID ch = intended \<and> pu_SiteID p = hex_EncodeToString intended \<and>
     decodeHex 32 (pu_ObjectRoot p) = Some (mf_Root m) \<and>
     (\<exists>md. ManifestDigest c m = Inr md \<and> decodeHex 32 (pu_ManifestDigest p) = Some md) \<and>
     (\<exists>key message signature digest d publishedAt.
        decodeBase64 publicKeySize (pu_SigningKey p) = Some key \<and> publicationSigningMessage p = Inr message \<and>
        decodeBase64 signatureSize (pu_Signature p) = Some signature \<and> ed_verify c key message signature \<and>
        decodeHex 32 (pu_DescriptorDigest p) = Some digest \<and>
        List.find (\<lambda>link. vd_Digest link = digest) (ch_links ch) = Some d \<and>
        time_Parse (pu_PublishedAt p) = Some publishedAt \<and> ActiveAt d publishedAt \<and> AuthorizesKey d key \<and>
        \<not> headRevoked (last (ch_links ch)) key)"
  unfolding claimChecks_def andThen_Inr require_Inr expect_Inr map_sum_Inr Chain_Equivocating_def Chain_Head_def DescriptorByDigest_def
  by (auto split: option.splits)

lemma headRevoked_iff:
  "validateStructure (vd_Descriptor head) = Inr () \<Longrightarrow>
     headRevoked head key \<longleftrightarrow> key \<in> keySet (ds_RevokedKeys (vd_Descriptor head))"
  by (auto simp: headRevoked_def containsKey_def keySet_decoded elim!: validateStructure_Inr)

lemma run_links:
  assumes "starts c j site ch0" and "ch = run_ops (chain_step c j) ch0 ops"
  shows "links_ok c j site (ch_links ch) (ch_encoded ch)" "ch_siteID ch = site"
proof -
  note start = starts_ok [OF assms(1)]
  have "chain_ok c j ch" "extends ch0 ch" using start assms(2) site_chain.run_inv site_chain.run_ord by blast+
  with start show "links_ok c j site (ch_links ch) (ch_encoded ch)" "ch_siteID ch = site"
    by (simp_all add: chain_ok_def extends_def)
qed

lemma head_structure:
  assumes "links_ok c j site links encoded"
  shows "validateStructure (vd_Descriptor (last links)) = Inr ()"
proof -
  have "length links - 1 < length links" using assms by (simp add: links_ok_def)
  from VerifyDescriptor_Inr(3) [OF links_ok_nth [OF assms this]] show ?thesis
    using links_ok_last(1) [OF assms] by simp
qed

text \<open>Links of one chain have different digests, or a collision is in hand.\<close>

lemma links_digest:
  assumes ok: "links_ok c j site links encoded" and "i < length links" "k < length links"
    and "length links < 2 ^ 64" and "vd_Digest (links ! i) = vd_Digest (links ! k)"
  shows "i = k \<or> collides (sha256 c) [digest_message (vd_Descriptor (links ! i)), digest_message (vd_Descriptor (links ! k))]"
proof (rule disjCI)
  let ?d = "\<lambda>i. vd_Descriptor (links ! i)"
  assume "\<not> collides (sha256 c) [digest_message (?d i), digest_message (?d k)]"
  moreover have "Digest c (?d i) = Inr (vd_Digest (links ! i))" "Digest c (?d k) = Inr (vd_Digest (links ! i))"
    using VerifyDescriptor_Inr(2) links_ok_nth [OF ok] assms(2,3,5) by metis+
  ultimately have "(?d k)\<lparr>ds_Authorizations := ds_Authorizations (?d i)\<rparr> = ?d i" using Digest_binds by blast
  then have "ds_Sequence ((?d k)\<lparr>ds_Authorizations := ds_Authorizations (?d i)\<rparr>) = ds_Sequence (?d i)" by (rule arg_cong)
  then have "ds_Sequence (?d k) = ds_Sequence (?d i)" by simp
  then have "(of_nat k :: u64) = of_nat i" using ok assms(2,3) by (simp add: links_ok_def)
  then show "i = k" using assms(2,3,4) of_nat_u64_inj [of k i] by simp
qed

section \<open>Publishing\<close>

lemma NewPublication_Inr:
  assumes "NewPublication c site d m at sk = Inr p" and ok: "hash_ok c" "sign_ok c" and site: "length site = 32"
    and dig: "length (vd_Digest d) = 32" and env: "VerifyEnvelope c m = Inr ()" and m: "manifest_sized m"
    and tm: "time_valid (at - at mod second)"
  shows "decodeBase64 publicKeySize (pu_SigningKey p) = Some (ed_public c sk)" "AuthorizesKey d (ed_public c sk)"
    "pu_SiteID p = hex_EncodeToString site" "decodeHex 32 (pu_DescriptorDigest p) = Some (vd_Digest d)"
    "decodeHex 32 (pu_ObjectRoot p) = Some (mf_Root m)" "time_Parse (pu_PublishedAt p) = Some (at - at mod second)"
    "\<exists>md. ManifestDigest c m = Inr md \<and> decodeHex 32 (pu_ManifestDigest p) = Some md"
    "\<exists>message signature. publicationSigningMessage p = Inr message \<and> decodeBase64 signatureSize (pu_Signature p) = Some signature \<and>
       ed_verify c (ed_public c sk) message signature"
proof -
  let ?md = "sha256 c (manifest_image m)"
  have md: "ManifestDigest c m = Inr ?md" using env by (simp add: ManifestDigest_def Manifest_MarshalBinary_def manifest_image_def)
  let ?p = "\<lparr>pu_Version = PublicationVersion, pu_SiteID = hex_EncodeToString site,
    pu_DescriptorDigest = hex_EncodeToString (vd_Digest d), pu_SigningKey = b64_EncodeToString (ed_public c sk),
    pu_ObjectRoot = hex_EncodeToString (mf_Root m), pu_ManifestDigest = hex_EncodeToString ?md,
    pu_PublishedAt = time_Format (at - at mod second), pu_Signature = []\<rparr>"
  from assms(1) md obtain message where sk: "length sk = privateKeySize" "AuthorizesKey d (ed_public c sk)"
    and msg: "publicationSigningMessage ?p = Inr message"
    and p: "p = ?p\<lparr>pu_Signature := b64_EncodeToString (ed_sign c sk message)\<rparr>"
    by (auto simp: NewPublication_def guard_simps Let_def)
  have sg: "length (ed_public c sk) = publicKeySize" "length (ed_sign c sk x) = signatureSize"
      "ed_verify c (ed_public c sk) x (ed_sign c sk x)" for x
    using ok(2) sk(1) by (simp_all add: sign_ok_def)
  show "AuthorizesKey d (ed_public c sk)" by (rule sk)
  show "decodeBase64 publicKeySize (pu_SigningKey p) = Some (ed_public c sk)" using sg(1) by (simp add: p b64.dec_enc)
  show "pu_SiteID p = hex_EncodeToString site" "decodeHex 32 (pu_DescriptorDigest p) = Some (vd_Digest d)"
    "decodeHex 32 (pu_ObjectRoot p) = Some (mf_Root m)"
    using dig m by (simp_all add: p hex32.dec_enc manifest_sized_def)
  show "time_Parse (pu_PublishedAt p) = Some (at - at mod second)" using rfc3339.dec_enc [OF tm] by (simp add: p)
  show "\<exists>md. ManifestDigest c m = Inr md \<and> decodeHex 32 (pu_ManifestDigest p) = Some md"
    using md ok(1) by (simp add: p hex32.dec_enc hash_ok_def)
  have "publicationSigningMessage p = publicationSigningMessage ?p"
    by (simp add: p publicationSigningMessage_def publicationCanonicalBytes_def)
  then show "\<exists>message signature. publicationSigningMessage p = Inr message \<and>
      decodeBase64 signatureSize (pu_Signature p) = Some signature \<and> ed_verify c (ed_public c sk) message signature"
    using msg sg by (simp add: p b64.dec_enc)
qed

lemma published_verifies:
  assumes ok: "hash_ok c" "sign_ok c" and start: "starts c j site ch0" and ch: "ch = run_ops (chain_step c j) ch0 ops"
    and live: "ch_equivoke ch = None" and i: "i < length (ch_links ch)" "length (ch_links ch) < 2 ^ 64"
    and m: "NewManifest c data basin msk = Inr m" "go_sized data"
    and p: "NewPublication c site (ch_links ch ! i) m at sk = Inr p"
    and tm: "time_valid (at - at mod second)" "ActiveAt (ch_links ch ! i) (at - at mod second)"
    and key: "ed_public c sk \<notin> keySet (ds_RevokedKeys (vd_Descriptor (last (ch_links ch))))"
    and view: "requireUsable (ch_distribution ch) now = Inr ()"
  shows "Resolve c site (Some ch) (Some p) m data now = (PublisherVerified, None) \<or>
    (\<exists>k < length (ch_links ch). collides (sha256 c) [digest_message (vd_Descriptor (ch_links ch ! i)),
       digest_message (vd_Descriptor (ch_links ch ! k))])"
proof (rule disjCI)
  assume free: "\<not> (\<exists>k < length (ch_links ch). collides (sha256 c) [digest_message (vd_Descriptor (ch_links ch ! i)),
       digest_message (vd_Descriptor (ch_links ch ! k))])"
  note links = run_links [OF start ch] and mf = NewManifest_Inr [OF m(1) ok m(2)]
  let ?link = "ch_links ch ! i"
  have dig: "length (vd_Digest ?link) = 32"
    using VerifyDescriptor_Inr(2) [OF links_ok_nth [OF links(1) i(1)]] ok(1) by (auto simp: guard_simps hash_ok_def)
  have "length site = 32" using links(1) by (simp add: links_ok_def)
  note pub = NewPublication_Inr [OF p ok this dig mf(2,1) tm(1)]
  have "List.find (\<lambda>l. vd_Digest l = vd_Digest ?link) (ch_links ch) = Some ?link"
  proof -
    have "vd_Digest (ch_links ch ! k) = vd_Digest ?link \<Longrightarrow> k < length (ch_links ch) \<Longrightarrow> k = i" for k
      using links_digest [OF links(1) i(1) _ i(2)] free by metis
    then have "\<forall>k < i. vd_Digest (ch_links ch ! k) \<noteq> vd_Digest ?link" using i(1) by (metis less_irrefl less_trans)
    then show ?thesis using i(1) by (auto simp: find_Some_iff intro!: exI [of _ i])
  qed
  moreover have "\<not> headRevoked (last (ch_links ch)) (ed_public c sk)"
    using headRevoked_iff [OF head_structure [OF links(1)]] key by simp
  ultimately have claim: "claimChecks c site ch p m = Inr ()"
    unfolding claimChecks_Inr using live links(2) pub tm(2) by blast
  have "VerifyObject c m data = Inr ()"
    using mf by (auto simp: VerifyObject_def Verifier_Verify_Inr Manifest_Verifier_def manifest_sized_def VerifyEnvelope_def guard_simps)
  moreover obtain x where "publicationCanonicalBytes p = Inr x"
    using pub(8) by (auto simp: publicationSigningMessage_def guard_simps)
  ultimately show "Resolve c site (Some ch) (Some p) m data now = (PublisherVerified, None)"
    using claim view by (simp add: Resolve_def Chain_view_def)
qed

section \<open>A sample publication\<close>

text \<open>The sample genesis logged alone, a reader that holds that head, and a publication under it.\<close>

lemma sample_view_of:
  "\<exists>m. Monitor_Accept sample_crypto m (LogEntry [1]) \<lparr>ip_index = 0, ip_size = 1, ip_path = []\<rparr> 0 = Inr () \<and>
     mo_split m = None \<and> Monitor_Fresh m 0"
proof -
  let ?e = "LogEntry [1]" and ?p = "\<lparr>ip_index = 0, ip_size = 1, ip_path = []\<rparr>"
  let ?l = "sample_log\<lparr>lg_tree := tree_of sample_crypto [?e], lg_entries := [?e], lg_index := [?e \<mapsto> 0]\<rparr>"
  have "log_ready sample_crypto ?l"
    by (auto simp: log_ready_def log_inv_def sample_log_def maxOriginBytes_def privateKeySize_def)
  moreover have "honest_view sample_crypto ?l sample_monitor"
    using NewMonitor_inv [OF sample_monitor_new, of sample_crypto]
    by (simp add: honest_view_def sample_monitor_def sample_log_def sample_crypto_def)
  moreover have "held_size sample_monitor \<le> 1" "unat (1 :: u64) \<le> length (lg_entries ?l)" "go_sized (lg_entries ?l)"
      "time_valid (0 - 0 mod second)" "\<forall>sc. mo_latest sample_monitor = Some sc \<longrightarrow> sc_Time sc \<le> 0 - 0 mod second"
    by (simp_all add: sample_monitor_def held_size_def time_valid_0)
  ultimately obtain ck p m where up: "honest_view sample_crypto ?l m"
      "mo_latest m = Some \<lparr>sc_Origin = lg_origin ?l, sc_Size = 1,
        sc_Root = mth sample_crypto (leaf_hashes sample_crypto (take (unat (1 :: u64)) (lg_entries ?l))),
        sc_Time = 0 - 0 mod second, sc_Encoded = checkpoint_json ck\<rparr>" "mo_freshness m = mo_freshness sample_monitor"
    using honest_update [OF sample_hash_ok sample_sign_ok, of ?l sample_monitor 1 0] by blast
  then have "mo_latest m = Some \<lparr>sc_Origin = ''log'', sc_Size = 1, sc_Root = HashLeaf sample_crypto ?e,
      sc_Time = 0, sc_Encoded = checkpoint_json ck\<rparr>" "mo_freshness m = second" "mo_split m = None"
    by (simp_all add: sample_monitor_def sample_log_def honest_view_def)
  then show ?thesis
    by (intro exI [of _ m]) (simp add: Monitor_Accept_def Monitor_Fresh_def VerifyInclusion_def descend.simps climb_def second_def)
qed

lemma sample_witnessed:
  obtains ch where "starts sample_crypto sample_json sample_id ch" "ch_links ch = [sample_verified]" "ch_equivoke ch = None"
    "requireUsable (ch_distribution ch) 0 = Inr ()"
proof -
  from sample_view_of obtain m where m: "Monitor_Accept sample_crypto m (LogEntry [1]) \<lparr>ip_index = 0, ip_size = 1, ip_path = []\<rparr> 0 = Inr ()"
    "mo_split m = None" "Monitor_Fresh m 0" by blast
  let ?d = "\<lparr>di_monitor = m\<rparr>" and ?ch = "sample_chain\<lparr>ch_distribution := Some \<lparr>di_monitor = m\<rparr>\<rparr>"
  have use: "requireUsable (Some ?d) 0 = Inr ()" using m by (simp add: requireUsable_iff)
  have "NewWitnessedChain sample_crypto sample_json sample_id [1] \<lparr>ip_index = 0, ip_size = 1, ip_path = []\<rparr> (Some ?d) 0 = Inr ?ch"
    using m(1) use sample_chain_new by (simp add: NewWitnessedChain_def Distribution_Witness_def)
  then have "starts sample_crypto sample_json sample_id ?ch" unfolding starts_def by blast
  with use show thesis by (intro that [of ?ch]) (simp_all add: sample_chain_def)
qed

lemma sample_published:
  obtains m p where "NewManifest sample_crypto [7] 0 (sample_signing @ sample_signing) = Inr m"
    "NewPublication sample_crypto sample_id sample_verified m 0 (sample_signing @ sample_signing) = Inr p"
proof -
  have key: "length (sample_signing @ sample_signing) = privateKeySize" "ed_public sample_crypto (sample_signing @ sample_signing) = sample_signing"
    by (simp_all add: privateKeySize_def publicKeySize_def sample_crypto_def sample_signing_def)
  then obtain m where m: "NewManifest sample_crypto [7] 0 (sample_signing @ sample_signing) = Inr m"
    by (simp add: NewManifest_def Let_def)
  note f = NewManifest_Inr [OF m sample_hash_ok sample_sign_ok]
  have "AuthorizesKey sample_verified sample_signing"
  proof -
    have "ds_SigningKeys sample_genesis = [b64_EncodeToString sample_signing]" by (simp add: sample_signed_def sample_desc_def Let_def)
    then show ?thesis by (simp add: AuthorizesKey_def sample_fields sample_keys containsKey_def) (simp add: sample_revoked_def)
  qed
  moreover have "ManifestDigest sample_crypto m = Inr (sha256 sample_crypto (manifest_image m))"
    using f(2) by (simp add: ManifestDigest_def Manifest_MarshalBinary_def manifest_image_def)
  moreover have "length (sha256 sample_crypto x) = 32" for x using sample_hash_ok by (simp add: hash_ok_def)
  moreover have "length (mf_Root m) = 32" using f(1) by (simp add: manifest_sized_def)
  moreover have "validateCanonicalTime (time_Format 0)" using sample_times by (simp add: validateCanonicalTime_iff)
  ultimately have "\<exists>p. NewPublication sample_crypto sample_id sample_verified m 0 (sample_signing @ sample_signing) = Inr p"
    using key by (simp add: NewPublication_def publicationSigningMessage_def publicationCanonicalBytes_def Let_def
        sample_fields hex32.dec_enc b64.dec_enc)
  with m that show thesis by blast
qed

section \<open>Properties\<close>

text \<open>
  C18: What "publisher verified" means. If \<^verbatim>\<open>Resolve\<close> verifies the publisher of an object against a chain
  the client built, then the chain is for the intended site; the object hashes to the manifest's root, which the
  publication names; some accepted link of the chain was in its validity window at the publication time and lists
  the key that signed the publication; no link of the chain, the newest included, ever revoked that key by then;
  and the client's view of the log is fresh and has never shown two histories.
\<close>

theorem verified_publisher:
  assumes "starts c j site ch0" and "ch = run_ops (chain_step c j) ch0 ops"
    and "fst (Resolve c intended (Some ch) (Some p) m data now) = PublisherVerified"
  shows "\<exists>i key message signature publishedAt d. intended = site \<and> sha256 c data = mf_Root m \<and>
    pu_ObjectRoot p = hex_EncodeToString (mf_Root m) \<and> i < length (ch_links ch) \<and>
    pu_DescriptorDigest p = hex_EncodeToString (vd_Digest (ch_links ch ! i)) \<and> pu_SigningKey p = b64_EncodeToString key \<and>
    time_Parse (pu_PublishedAt p) = Some publishedAt \<and> ActiveAt (ch_links ch ! i) publishedAt \<and>
    key \<in> keySet (ds_SigningKeys (vd_Descriptor (ch_links ch ! i))) \<and>
    (\<forall>k < length (ch_links ch). key \<notin> keySet (ds_RevokedKeys (vd_Descriptor (ch_links ch ! k)))) \<and>
    publicationSigningMessage p = Inr message \<and> pu_Signature p = b64_EncodeToString signature \<and> ed_verify c key message signature \<and>
    ch_distribution ch = Some d \<and> mo_split (di_monitor d) = None \<and> Monitor_Fresh (di_monitor d) now"
proof -
  note links = run_links [OF assms(1,2)]
  from assms(3) have obj: "VerifyObject c m data = Inr ()" and claim: "claimChecks c intended ch p m = Inr ()"
    and view: "requireUsable (ch_distribution ch) now = Inr ()" by (auto simp: Resolve_verified_iff)
  from claim [unfolded claimChecks_Inr] obtain key message signature digest link publishedAt where
    a: "ch_siteID ch = intended" "decodeHex 32 (pu_ObjectRoot p) = Some (mf_Root m)"
      "decodeBase64 publicKeySize (pu_SigningKey p) = Some key" "publicationSigningMessage p = Inr message"
      "decodeBase64 signatureSize (pu_Signature p) = Some signature" "ed_verify c key message signature"
      "decodeHex 32 (pu_DescriptorDigest p) = Some digest" "List.find (\<lambda>l. vd_Digest l = digest) (ch_links ch) = Some link"
      "time_Parse (pu_PublishedAt p) = Some publishedAt" "ActiveAt link publishedAt" "AuthorizesKey link key"
      "\<not> headRevoked (last (ch_links ch)) key" by blast
  from a(8) obtain i where i: "i < length (ch_links ch)" "link = ch_links ch ! i" "vd_Digest link = digest"
    by (auto simp: find_Some_iff)
  have "key \<notin> keySet (ds_RevokedKeys (vd_Descriptor (last (ch_links ch))))"
    using a(12) headRevoked_iff [OF head_structure [OF links(1)]] by simp
  then have "key \<notin> keySet (ds_RevokedKeys (vd_Descriptor (ch_links ch ! k)))" if "k < length (ch_links ch)" for k
  proof -
    have "k \<le> length (ch_links ch) - 1" "length (ch_links ch) - 1 < length (ch_links ch)" using that by linarith+
    from links_revoked [OF links(1) this] show ?thesis
      using \<open>key \<notin> keySet (ds_RevokedKeys (vd_Descriptor (last (ch_links ch))))\<close> links_ok_last(1) [OF links(1)] by auto
  qed
  moreover have "sha256 c data = mf_Root m"
    using obj by (auto simp: VerifyObject_def guard_simps Verifier_Verify_Inr Manifest_Verifier_def)
  moreover have "key \<in> keySet (ds_SigningKeys (vd_Descriptor (ch_links ch ! i)))" using AuthorizesKey_sets a(11) i(2) by blast
  moreover obtain d where "ch_distribution ch = Some d" "mo_split (di_monitor d) = None" "Monitor_Fresh (di_monitor d) now"
    using view by (auto simp: requireUsable_iff)
  ultimately show ?thesis
    using a(1,4,6,9,10) a(2,7) [THEN hex32.enc_dec] a(3,5) [THEN b64.enc_dec] i links(2)
    by (intro exI [of _ i] exI [of _ key] exI [of _ message] exI [of _ signature] exI [of _ publishedAt] exI [of _ d]) auto
qed

text \<open>
  An honest publication is verified. When a publisher signs a publication for its object with a key that a
  link of the reader's chain authorizes, dated in that link's validity window, the reader resolves it to a verified
  publisher as long as the chain has not equivocated, its head has not revoked the key and the log view is usable;
  otherwise two descriptors of the chain are a SHA-256 collision.
\<close>

theorem honest_publication_resolves:
  assumes "hash_ok c" and "sign_ok c" and "starts c j site ch0" and "ch = run_ops (chain_step c j) ch0 ops"
    and "ch_equivoke ch = None" and "i < length (ch_links ch)" and "length (ch_links ch) < 2 ^ 64"
    and "NewManifest c data basin msk = Inr m" and "go_sized data"
    and "NewPublication c site (ch_links ch ! i) m at sk = Inr p"
    and "time_valid (at - at mod second)" and "ActiveAt (ch_links ch ! i) (at - at mod second)"
    and "ed_public c sk \<notin> keySet (ds_RevokedKeys (vd_Descriptor (last (ch_links ch))))"
    and "requireUsable (ch_distribution ch) now = Inr ()"
  shows "Resolve c site (Some ch) (Some p) m data now = (PublisherVerified, None) \<or>
    (\<exists>k < length (ch_links ch). collides (sha256 c) [digest_message (vd_Descriptor (ch_links ch ! i)),
       digest_message (vd_Descriptor (ch_links ch ! k))])"
  by (rule published_verifies [OF assms])

lemma sample_conditions:
  assumes "ch_links ch = [sample_verified]"
  shows "time_valid (0 - 0 mod second)" "ActiveAt (ch_links ch ! 0) (0 - 0 mod second)" "0 < length (ch_links ch)"
    "length (ch_links ch) < 2 ^ 64"
    "ed_public sample_crypto (sample_signing @ sample_signing) \<notin> keySet (ds_RevokedKeys (vd_Descriptor (last (ch_links ch))))"
  using assms by (simp_all add: time_valid_0 ActiveAt_def sample_fields sample_revoked_def keySet_def) (simp_all add: sample_link_def)

lemma sample_no_collision: "\<not> collides h [x, x]"
  by (simp add: collides_def)

theorem honest_publication_resolves_witness:
  "\<exists>ch p m. Resolve sample_crypto sample_id (Some ch) (Some p) m [7] 0 = (PublisherVerified, None)"
proof -
  obtain ch where ch: "starts sample_crypto sample_json sample_id ch" "ch_links ch = [sample_verified]" "ch_equivoke ch = None"
    "requireUsable (ch_distribution ch) 0 = Inr ()" by (rule sample_witnessed)
  obtain m p where mp: "NewManifest sample_crypto [7] 0 (sample_signing @ sample_signing) = Inr m"
    "NewPublication sample_crypto sample_id sample_verified m 0 (sample_signing @ sample_signing) = Inr p" by (rule sample_published)
  note k = sample_conditions [OF ch(2)]
  have "ch = run_ops (chain_step sample_crypto sample_json) ch []" "go_sized [7 :: byte]" by simp_all
  from honest_publication_resolves [OF sample_hash_ok sample_sign_ok ch(1) this(1) ch(3) k(3,4) mp(1) this(2) _ k(1,2,5) ch(4), of p]
    mp(2) ch(2) show ?thesis by (auto simp: sample_no_collision)
qed

theorem verified_publisher_witness:
  "\<exists>ch p m key. starts sample_crypto sample_json sample_id ch \<and>
     fst (Resolve sample_crypto sample_id (Some ch) (Some p) m [7] 0) = PublisherVerified \<and>
     pu_SigningKey p = b64_EncodeToString key \<and> key \<notin> keySet (ds_RevokedKeys (vd_Descriptor (ch_links ch ! 0)))"
proof -
  obtain ch where ch: "starts sample_crypto sample_json sample_id ch" "ch_links ch = [sample_verified]" "ch_equivoke ch = None"
    "requireUsable (ch_distribution ch) 0 = Inr ()" by (rule sample_witnessed)
  obtain m p where mp: "NewManifest sample_crypto [7] 0 (sample_signing @ sample_signing) = Inr m"
    "NewPublication sample_crypto sample_id sample_verified m 0 (sample_signing @ sample_signing) = Inr p" by (rule sample_published)
  note k = sample_conditions [OF ch(2)]
  have run: "ch = run_ops (chain_step sample_crypto sample_json) ch []" and "go_sized [7 :: byte]" by simp_all
  from published_verifies [OF sample_hash_ok sample_sign_ok ch(1) run ch(3) k(3,4) mp(1) this(2) _ k(1,2,5) ch(4), of p]
    mp(2) ch(2) have res: "fst (Resolve sample_crypto sample_id (Some ch) (Some p) m [7] 0) = PublisherVerified"
    by (auto simp: sample_no_collision)
  from verified_publisher [OF ch(1) run res] k(3) ch(1) res show ?thesis by blast
qed

end
