(* ===== verification/GF256.thy ===== *)
theory GF256
  imports Prelude
begin

text \<open>
  \<^verbatim>\<open>rlnc/gf256.go\<close>: arithmetic of GF(256) with the AES polynomial, as the code computes it by
  shifting and reducing. The field laws the decoder relies on are the locale \<open>code_field\<close>; the
  code's own operations are shown to satisfy them.
\<close>

section \<open>The operations\<close>

definition gf_add :: "byte \<Rightarrow> byte \<Rightarrow> byte" where
  "gf_add a b = a XOR b"

text \<open>One doubling step of the loop: shift left and reduce when the top bit falls out.\<close>

definition xtime :: "byte \<Rightarrow> byte" where
  "xtime a = (let hi = a AND 0x80; a = push_bit 1 a in if hi \<noteq> 0 then a XOR 0x1b else a)"

fun mulLoop :: "nat \<Rightarrow> byte \<Rightarrow> byte \<Rightarrow> byte \<Rightarrow> byte" where
  "mulLoop 0 p a b = p"
| "mulLoop (Suc n) p a b =
     mulLoop n (if b AND 1 \<noteq> 0 then p XOR a else p) (xtime a) (drop_bit 1 b)"

definition gf_mul :: "byte \<Rightarrow> byte \<Rightarrow> byte" where
  "gf_mul a b = mulLoop 8 0 a b"

fun powLoop :: "byte \<Rightarrow> byte \<Rightarrow> nat \<Rightarrow> byte" where
  "powLoop r a n =
     (if n > 0 then powLoop (if odd n then gf_mul r a else r) (gf_mul a a) (n div 2) else r)"

declare powLoop.simps [simp del]

definition gf_pow :: "byte \<Rightarrow> nat \<Rightarrow> byte" where
  "gf_pow a n = powLoop 1 a n"

text \<open>The inverse of zero panics: \<open>None\<close>.\<close>

definition gf_inv :: "byte \<Rightarrow> byte option" where
  "gf_inv a = (if a = 0 then None else Some (gf_pow a 254))"

section \<open>The loop as a linear map\<close>

lemma and_80: "(a :: byte) AND 0x80 \<noteq> 0 \<longleftrightarrow> bit a 7"
  using and_exp_eq_0_iff_not_bit [of a 7] by simp

lemma and_1: "(b :: byte) AND 1 \<noteq> 0 \<longleftrightarrow> bit b 0"
  by (simp add: and_one_eq bit_0 odd_iff_mod_2_eq_one)

lemma xtime_alt: "xtime a = push_bit 1 a XOR (if bit a 7 then 0x1b else 0)"
  unfolding xtime_def Let_def and_80 by simp

lemma xtime_xor: "xtime (a XOR b) = xtime a XOR xtime b"
proof -
  have "push_bit 1 (a XOR b) = push_bit 1 a XOR push_bit 1 b" by (rule push_bit_xor)
  moreover have "bit (a XOR b) 7 \<longleftrightarrow> bit a 7 \<noteq> bit b 7" by (simp add: bit_xor_iff)
  ultimately show ?thesis by (auto simp: xtime_alt xor.assoc xor.left_commute xor.commute)
qed

lemma xtime_0 [simp]: "xtime 0 = 0"
  by (simp add: xtime_def)

definition times_bit :: "byte \<Rightarrow> bool \<Rightarrow> byte" where
  "times_bit a c = (if c then a else 0)"

lemma times_bit_simps [simp]: "times_bit 0 c = 0" "times_bit a False = 0" "times_bit a True = a"
  by (simp_all add: times_bit_def)

lemma times_bit_xor: "times_bit (a XOR b) c = times_bit a c XOR times_bit b c"
  by (simp add: times_bit_def)

lemma times_bit_neq: "times_bit a (c = (\<not> d)) = times_bit a c XOR times_bit a d"
  by (simp add: times_bit_def)

fun mul_bits :: "nat \<Rightarrow> nat \<Rightarrow> byte \<Rightarrow> byte \<Rightarrow> byte" where
  "mul_bits 0 i a b = 0"
| "mul_bits (Suc n) i a b = times_bit a (bit b i) XOR mul_bits n (Suc i) (xtime a) b"

lemma mulLoop_bits: "mulLoop n p a (drop_bit i b) = p XOR mul_bits n i a b"
proof (induction n arbitrary: p a i)
  case (Suc n)
  have "bit (drop_bit i b) 0 = bit b i" by (simp add: bit_drop_bit_eq)
  moreover have "drop_bit 1 (drop_bit i b) = drop_bit (Suc i) b" by (simp add: drop_bit_drop_bit)
  ultimately show ?case
    using Suc.IH [of _ _ "Suc i"] by (simp add: and_1 times_bit_def xor.assoc)
qed simp

lemma gf_mul_bits: "gf_mul a b = mul_bits 8 0 a b"
  using mulLoop_bits [of 8 0 a 0 b] by (simp add: gf_mul_def)

lemma mul_bits_xor_left: "mul_bits n i (a XOR b) c = mul_bits n i a c XOR mul_bits n i b c"
  by (induction n arbitrary: i a b) (simp_all add: xtime_xor times_bit_xor xor.assoc xor.left_commute)

lemma mul_bits_xor_right: "mul_bits n i a (b XOR c) = mul_bits n i a b XOR mul_bits n i a c"
  by (induction n arbitrary: i a) (simp_all add: bit_xor_iff times_bit_neq xor.assoc xor.left_commute)

lemma gf_mul_xor: "gf_mul (a XOR b) c = gf_mul a c XOR gf_mul b c" "gf_mul a (b XOR c) = gf_mul a b XOR gf_mul a c"
  by (simp_all add: gf_mul_bits mul_bits_xor_left mul_bits_xor_right)

lemma mul_bits_zero: "mul_bits n i 0 b = 0" "mul_bits n i a 0 = 0"
  by (induction n arbitrary: i a) simp_all

lemma gf_mul_zero [simp]: "gf_mul 0 b = 0" "gf_mul a 0 = 0"
  by (simp_all add: gf_mul_bits mul_bits_zero)

lemma gf_mul_one [simp]: "gf_mul a 1 = a"
proof -
  have "mul_bits n (Suc i) a 1 = 0" for n i a
    by (induction n arbitrary: i a) (simp_all add: bit_1_iff)
  then show ?thesis by (simp add: gf_mul_bits numeral_eq_Suc bit_1_iff)
qed

lemma mul_bits_xtime: "mul_bits n i (xtime a) b = xtime (mul_bits n i a b)"
  by (induction n arbitrary: i a) (simp_all add: xtime_xor times_bit_def)

lemma gf_mul_xtime: "gf_mul (xtime a) b = xtime (gf_mul a b)"
  by (simp add: gf_mul_bits mul_bits_xtime)

section \<open>Commutativity and associativity\<close>

text \<open>Every byte is a sum of the eight powers of two; bilinear facts need checking on those only.\<close>

lemma byte_bits:
  "(b :: byte) = times_bit 1 (bit b 0) XOR times_bit 2 (bit b 1) XOR times_bit 4 (bit b 2) XOR times_bit 8 (bit b 3)
     XOR times_bit 16 (bit b 4) XOR times_bit 32 (bit b 5) XOR times_bit 64 (bit b 6) XOR times_bit 128 (bit b 7)"
proof (rule bit_word_eqI)
  fix n :: nat
  assume "n < LENGTH(8)"
  then have "n = 0 \<or> n = 1 \<or> n = 2 \<or> n = 3 \<or> n = 4 \<or> n = 5 \<or> n = 6 \<or> n = 7" by auto
  then show "bit b n = bit (times_bit 1 (bit b 0) XOR times_bit 2 (bit b 1) XOR times_bit 4 (bit b 2) XOR
     times_bit 8 (bit b 3) XOR times_bit 16 (bit b 4) XOR times_bit 32 (bit b 5) XOR times_bit 64 (bit b 6) XOR
     times_bit 128 (bit b 7)) n"
    by (elim disjE) (simp_all add: bit_xor_iff times_bit_def bit_numeral_simps bit_1_iff)
qed

definition byte_basis :: "byte list" where
  "byte_basis = [1, 2, 4, 8, 16, 32, 64, 128]"

lemma byte_xor_induct:
  assumes "P 0" and "\<forall>x \<in> set byte_basis. P x" and "\<And>x y. P x \<Longrightarrow> P y \<Longrightarrow> P (x XOR y)"
  shows "P (b :: byte)"
proof -
  have "P (times_bit x c)" if "x \<in> set byte_basis" for x c
    using assms(1,2) that by (simp add: times_bit_def)
  then have "P (times_bit 1 c)" "P (times_bit 2 c)" "P (times_bit 4 c)" "P (times_bit 8 c)" "P (times_bit 16 c)"
      "P (times_bit 32 c)" "P (times_bit 64 c)" "P (times_bit 128 c)" for c
    by (simp_all add: byte_basis_def)
  then show ?thesis by (subst byte_bits) (intro assms(3))
qed

lemma basis_commute: "\<forall>x \<in> set byte_basis. \<forall>y \<in> set byte_basis. gf_mul x y = gf_mul y x"
  by code_simp

lemma gf_mul_commute: "gf_mul a b = gf_mul b a"
proof (rule byte_xor_induct [of "\<lambda>a. gf_mul a b = gf_mul b a"])
  show "\<forall>x \<in> set byte_basis. gf_mul x b = gf_mul b x"
  proof
    fix x
    assume x: "x \<in> set byte_basis"
    show "gf_mul x b = gf_mul b x"
      by (rule byte_xor_induct [of "\<lambda>b. gf_mul x b = gf_mul b x"])
        (use x basis_commute in \<open>simp_all add: gf_mul_xor\<close>)
  qed
qed (simp_all add: gf_mul_xor)

lemma gf_one_mul [simp]: "gf_mul 1 a = a"
  using gf_mul_one [of a] by (simp only: gf_mul_commute)

lemma gf_mul_xtime_right: "gf_mul a (xtime b) = xtime (gf_mul a b)"
  by (metis gf_mul_commute gf_mul_xtime)

lemma gf_mul_times_bit: "gf_mul a (times_bit b c) = times_bit (gf_mul a b) c"
  by (simp add: times_bit_def)

lemma gf_mul_mul_bits: "gf_mul a (mul_bits n i b c) = mul_bits n i (gf_mul a b) c"
  by (induction n arbitrary: i b) (simp_all add: gf_mul_xor gf_mul_times_bit gf_mul_xtime_right)

lemma gf_mul_assoc: "gf_mul (gf_mul a b) c = gf_mul a (gf_mul b c)"
  by (simp add: gf_mul_bits [of "gf_mul a b" c] gf_mul_bits [of b c] gf_mul_mul_bits)

section \<open>Inverses\<close>

text \<open>
  Squaring is linear, so the 256th power, eight squarings, is the identity as soon as it is on the
  eight basis bytes. The 255th power of a byte is then idempotent, and the only idempotents are 0 and 1:
  for a non-zero byte it is one, and \<^verbatim>\<open>inv\<close>'s 254th power is the inverse.
\<close>

primrec gpow :: "byte \<Rightarrow> nat \<Rightarrow> byte" where
  "gpow a 0 = 1"
| "gpow a (Suc n) = gf_mul a (gpow a n)"

lemma gpow_add: "gpow a (m + n) = gf_mul (gpow a m) (gpow a n)"
  by (induction m) (simp_all add: gf_mul_assoc)

lemma gpow_1: "gpow a (Suc 0) = a"
  by simp

lemma gpow_mult: "gpow a (m * n) = gpow (gpow a m) n"
  by (induction n) (simp_all add: gpow_add)

lemma gpow_one [simp]: "gpow 1 n = 1"
  by (induction n) simp_all

lemma gpow_mul: "gpow (gf_mul a b) n = gf_mul (gpow a n) (gpow b n)"
proof (induction n)
  case (Suc n)
  have "gf_mul (gf_mul a b) (gf_mul (gpow a n) (gpow b n)) = gf_mul (gf_mul a (gpow a n)) (gf_mul b (gpow b n))"
    by (metis gf_mul_assoc gf_mul_commute)
  with Suc show ?case by simp
qed simp

lemma powLoop_gpow: "powLoop r a n = gf_mul r (gpow a n)"
proof (induction r a n rule: powLoop.induct)
  case (1 r a n)
  show ?case
  proof (cases "n > 0")
    case True
    have "gpow (gf_mul a a) (n div 2) = gpow a (2 * (n div 2))"
      by (simp add: gpow_mul gpow_add mult_2)
    moreover have "odd n \<Longrightarrow> gf_mul a (gpow a (2 * (n div 2))) = gpow a n"
      by (metis gpow.simps(2) odd_two_times_div_two_succ Suc_eq_plus1)
    moreover have "even n \<Longrightarrow> gpow a (2 * (n div 2)) = gpow a n" by simp
    ultimately show ?thesis
      using 1 True by (subst powLoop.simps) (simp add: gf_mul_assoc)
  qed (simp add: powLoop.simps)
qed

lemma gf_pow_gpow: "gf_pow a n = gpow a n"
  by (simp add: gf_pow_def powLoop_gpow)

definition sq :: "byte \<Rightarrow> byte" where
  "sq a = gf_mul a a"

lemma sq_xor: "sq (a XOR b) = sq a XOR sq b"
  by (simp add: sq_def gf_mul_xor gf_mul_commute [of b a] xor.assoc xor.left_commute)

lemma sq_gpow: "sq (gpow a n) = gpow a (2 * n)"
  by (simp add: sq_def gpow_add mult_2)

definition eight_sq :: "byte \<Rightarrow> byte" where
  "eight_sq a = sq (sq (sq (sq (sq (sq (sq (sq a)))))))"

lemma sq_table:
  "map sq [1, 2, 4, 16, 27, 94, 228, 77, 250, 8, 64, 171, 179, 232, 29, 74, 239, 32, 108, 151, 148, 145, 128, 154, 197] =
     [1, 4, 16, 27, 94, 228, 77, 250, 2, 64, 171, 179, 232, 29, 74, 239, 8, 108, 151, 148, 145, 128, 154, 197, 32]"
  by code_simp

lemma basis_eight_sq: "\<forall>x \<in> set byte_basis. eight_sq x = x"
  using sq_table by (simp add: byte_basis_def eight_sq_def)

lemma eight_sq_id: "eight_sq a = a"
  by (rule byte_xor_induct [of "\<lambda>a. eight_sq a = a"])
    (use basis_eight_sq in \<open>simp_all add: eight_sq_def sq_xor sq_def [of 0]\<close>)

lemma gpow_256: "gpow a 256 = a"
proof -
  have "eight_sq (gpow a (Suc 0)) = gpow a (2 * (2 * (2 * (2 * (2 * (2 * (2 * (2 * Suc 0))))))))"
    by (simp only: eight_sq_def sq_gpow)
  then have "eight_sq (gpow a (Suc 0)) = gpow a 256" by (simp del: gpow.simps)
  then show ?thesis by (simp add: eight_sq_id gpow_1)
qed

lemma sq_basis: "map sq byte_basis = [1, 4, 16, 64, 27, 108, 171, 154]"
  by code_simp

lemma sq_times_bit: "sq (times_bit a c) = times_bit (sq a) c"
  by (simp add: times_bit_def sq_def)

lemma sq_bits:
  "sq e = times_bit 1 (bit e 0) XOR
     times_bit 4 (bit e 1) XOR
     times_bit 16 (bit e 2) XOR
     times_bit 64 (bit e 3) XOR
     times_bit 27 (bit e 4) XOR
     times_bit 108 (bit e 5) XOR
     times_bit 171 (bit e 6) XOR
     times_bit 154 (bit e 7)"
proof -
  have b: "sq 1 = 1" "sq 2 = 4" "sq 4 = 16" "sq 8 = 64" "sq 16 = 27" "sq 32 = 108" "sq 64 = 171" "sq 128 = 154"
    using sq_basis by (simp_all add: byte_basis_def)
  show ?thesis
    by (subst byte_bits [of e]) (simp only: sq_xor sq_times_bit b)
qed

lemma idempotent: "sq e = e \<Longrightarrow> e = 0 \<or> e = 1"
proof -
  assume "sq e = e"
  then have n: "bit e n = bit (times_bit 1 (bit e 0) XOR
     times_bit 4 (bit e 1) XOR
     times_bit 16 (bit e 2) XOR
     times_bit 64 (bit e 3) XOR
     times_bit 27 (bit e 4) XOR
     times_bit 108 (bit e 5) XOR
     times_bit 171 (bit e 6) XOR
     times_bit 154 (bit e 7)) n" for n
    using sq_bits [of e] by simp
  note bits = n [of 0] n [of 1] n [of 2] n [of 3] n [of 4] n [of 5] n [of 6] n [of 7]
  have "\<not> bit e 1 \<and> \<not> bit e 2 \<and> \<not> bit e 3 \<and> \<not> bit e 4 \<and> \<not> bit e 5 \<and> \<not> bit e 6 \<and> \<not> bit e 7"
    using bits by (simp add: bit_xor_iff times_bit_def bit_numeral_simps bit_1_iff split: if_splits)
  then show ?thesis by (subst byte_bits [of e], subst byte_bits [of e]) (simp add: times_bit_def)
qed

lemma gpow_255: "a \<noteq> 0 \<Longrightarrow> gpow a 255 = 1"
proof -
  assume a: "a \<noteq> 0"
  have e: "gf_mul (gpow a 255) a = a" using gpow_add [of a 255 1] by (simp add: gpow_256 gpow_1 del: gpow.simps)
  have "sq (gpow a 255) = gf_mul (gpow a 256) (gpow a 254)"
    using gpow_add [of a 256 254] by (simp add: sq_gpow del: gpow.simps)
  also have "\<dots> = gpow a 255"
    using gpow_add [of a 1 254] by (simp add: gpow_256 gpow_1 del: gpow.simps)
  finally have "gpow a 255 = 0 \<or> gpow a 255 = 1" by (rule idempotent)
  with a e show ?thesis by auto
qed

lemma gf_inv_mul: "gf_inv a = Some b \<Longrightarrow> gf_mul a b = 1"
proof -
  assume "gf_inv a = Some b"
  then have "a \<noteq> 0" "b = gpow a 254" by (auto simp: gf_inv_def gf_pow_gpow split: if_splits)
  moreover have "gf_mul a (gpow a 254) = gpow a 255"
    using gpow_add [of a 1 254] by (simp add: gpow_1 del: gpow.simps)
  ultimately show ?thesis by (simp add: gpow_255)
qed

lemma gf_inv_total: "a \<noteq> 0 \<Longrightarrow> \<exists>b. gf_inv a = Some b"
  by (simp add: gf_inv_def)

section \<open>The field interface\<close>

text \<open>What the encoder and the decoder rely on, and the facts about rows of symbols they use it for.\<close>

locale code_field =
  fixes plus :: "'a \<Rightarrow> 'a \<Rightarrow> 'a" and times :: "'a \<Rightarrow> 'a \<Rightarrow> 'a" and inverse_of :: "'a \<Rightarrow> 'a option"
    and zero :: 'a and one :: 'a
  assumes plus_assoc: "plus (plus a b) c = plus a (plus b c)"
    and plus_commute: "plus a b = plus b a"
    and plus_zero: "plus zero a = a"
    and plus_self: "plus a a = zero"
    and times_assoc: "times (times a b) c = times a (times b c)"
    and times_commute: "times a b = times b a"
    and times_one: "times one a = a"
    and distrib: "times a (plus b c) = plus (times a b) (times a c)"
    and inverse_law: "inverse_of a = Some b \<Longrightarrow> times a b = one"
    and inverse_total: "a \<noteq> zero \<Longrightarrow> inverse_of a \<noteq> None"
    and zero_one: "zero \<noteq> one"
begin

lemma plus_left_commute: "plus a (plus b c) = plus b (plus a c)"
  by (metis plus_assoc plus_commute)

lemma plus_cancel: "plus a (plus a b) = b"
  by (metis plus_assoc plus_self plus_zero)

lemma times_zero: "times a zero = zero"
  by (metis distrib plus_self)

lemma no_zero_divisors: "times a b = zero \<Longrightarrow> a = zero \<or> b = zero"
proof (rule ccontr)
  assume z: "times a b = zero" and n: "\<not> (a = zero \<or> b = zero)"
  then obtain c where "inverse_of a = Some c" using inverse_total by blast
  then have "times (times a c) b = b" by (simp add: inverse_law times_one)
  moreover have "times (times a c) b = times c (times a b)" by (metis times_assoc times_commute)
  ultimately show False using z n by (simp add: times_zero)
qed

lemma inverse_nonzero: "inverse_of a = Some b \<Longrightarrow> b \<noteq> zero"
  using inverse_law times_zero zero_one by metis

end

interpretation gf: code_field gf_add gf_mul gf_inv 0 1
proof unfold_locales
  show "gf_inv a \<noteq> None" if "a \<noteq> 0" for a using that gf_inv_total by blast
  show "gf_mul a b = gf_mul b a" for a b by (rule gf_mul_commute)
  show "gf_add a b = gf_add b a" for a b by (simp add: gf_add_def xor.commute)
qed (simp_all add: gf_add_def xor.assoc gf_mul_assoc gf_mul_xor gf_inv_mul)

text \<open>
  The shift-and-reduce arithmetic is a field: multiplication is associative, commutative and
  distributes over addition, one is neutral, and \<^verbatim>\<open>inv\<close>, the 254th power computed by repeated
  squaring, is the multiplicative inverse of every byte but zero, for which it panics.
\<close>

theorem gf256_is_a_field:
  "gf_mul (gf_mul a b) d = gf_mul a (gf_mul b d) \<and> gf_mul a b = gf_mul b a \<and> gf_mul 1 a = a \<and>
   gf_mul a (gf_add b d) = gf_add (gf_mul a b) (gf_mul a d) \<and> gf_inv 0 = None \<and>
   (a \<noteq> 0 \<longrightarrow> (\<exists>i. gf_inv a = Some i \<and> gf_mul a i = 1))"
  using gf.times_assoc gf.times_commute gf.times_one gf.distrib gf_inv_total gf_inv_mul
  by (metis gf_inv_def)

theorem gf256_is_a_field_witness:
  "gf_mul (gf_mul 7 3) 5 = gf_mul 7 (gf_mul 3 5) \<and> (\<exists>i. gf_inv 7 = Some i \<and> gf_mul 7 i = 1)"
proof -
  have "(7 :: byte) \<noteq> 0" by simp
  with gf256_is_a_field [of 7 3 5] show ?thesis by blast
qed

end
