(* ===== verification/Rlnc.thy ===== *)
theory Rlnc
  imports GF256 GoStd
begin

text \<open>
  Random linear network coding, \<^verbatim>\<open>rlnc/rlnc.go\<close> and \<^verbatim>\<open>rlnc/decoder.go\<close>: the encoder, the
  re-encoder and the incremental Gauss-Jordan decoder. The decoder's invariant is that its basis is in
  reduced row-echelon form and that every row agrees with the source; from it follow that honest symbols are
  never reported as contradictory, that a ready decoder returns exactly the encoded bytes, and that it is
  ready as soon as the received coefficient vectors generate every source symbol.
\<close>

section \<open>Symbols and the encoder\<close>

record symbol =
  sy_Coeff :: bytes
  sy_Data :: bytes

record encoder =
  en_source :: "bytes list"
  en_original :: nat
  en_symbolSize :: nat

datatype rlnc_error =
    SymbolSizePositive | DataEmpty | IndexOutOfRange | RandomFailed | NoSymbols | EmptyDimensions
  | Incompatible | ZeroSpan | NoNonZero | InvalidDimensions | Insufficient | EmptySymbolData
  | OverCapacity | DimensionMismatch | ZeroCoefficients | InconsistentSymbol | RankDeficient
  | BasisIncomplete | InversePanic

text \<open>Source symbol \<open>i\<close>: the slice of the data at \<open>i * symbolSize\<close>, zero-padded.\<close>

definition sourceSymbol :: "bytes \<Rightarrow> nat \<Rightarrow> nat \<Rightarrow> bytes" where
  "sourceSymbol data symbolSize i =
     (let start = i * symbolSize;
          end = (if start + symbolSize > length data then length data else start + symbolSize);
          chunk = take (end - start) (drop start data)
      in chunk @ replicate (symbolSize - length chunk) 0)"

definition NewEncoder :: "bytes \<Rightarrow> int \<Rightarrow> rlnc_error + encoder" where
  "NewEncoder data symbolSize =
     (if symbolSize \<le> 0 then Inl SymbolSizePositive
      else if length data = 0 then Inl DataEmpty
      else let sz = nat symbolSize; k = (length data + sz - 1) div sz in
        Inr \<lparr>en_source = map (sourceSymbol data sz) [0..<k], en_original = length data, en_symbolSize = sz\<rparr>)"

definition Encoder_K :: "encoder \<Rightarrow> nat" where
  "Encoder_K e = length (en_source e)"

definition anyNonZero :: "bytes \<Rightarrow> bool" where
  "anyNonZero v \<longleftrightarrow> (\<exists>x \<in> set v. x \<noteq> 0)"

text \<open>The accumulation loop: \<open>out[j] ^= mul(c, source[i][j])\<close> for every non-zero coefficient.\<close>

definition accumulate :: "byte \<Rightarrow> bytes \<Rightarrow> bytes \<Rightarrow> bytes" where
  "accumulate w row out = (if w = 0 then out else map2 (\<lambda>o1 r. o1 XOR gf_mul w r) out row)"

definition encodeWith :: "encoder \<Rightarrow> bytes \<Rightarrow> symbol" where
  "encodeWith e coeff =
     \<lparr>sy_Coeff = coeff,
      sy_Data = fold (\<lambda>(c, row) out. accumulate c row out) (zip coeff (en_source e))
                  (replicate (en_symbolSize e) 0)\<rparr>"

text \<open>
  Randomness is an argument: the results of the successive reads, \<open>None\<close> for a failed one. An outer
  \<open>None\<close> means that every draw so far was the zero vector and the loop is still running.
\<close>

fun Encoder_Encode :: "encoder \<Rightarrow> bytes option list \<Rightarrow> (rlnc_error + symbol) option" where
  "Encoder_Encode e [] = None"
| "Encoder_Encode e (None # draws) = Some (Inl RandomFailed)"
| "Encoder_Encode e (Some coeff # draws) =
     (if anyNonZero coeff then Some (Inr (encodeWith e coeff)) else Encoder_Encode e draws)"

definition Systematic :: "encoder \<Rightarrow> int \<Rightarrow> rlnc_error + symbol" where
  "Systematic e i =
     (if i < 0 \<or> i \<ge> int (Encoder_K e) then Inl IndexOutOfRange
      else Inr (encodeWith e ((replicate (Encoder_K e) 0)[nat i := 1])))"

section \<open>Re-encoding\<close>

definition combine :: "bytes \<Rightarrow> symbol list \<Rightarrow> nat \<Rightarrow> nat \<Rightarrow> symbol" where
  "combine weights symbols k sz =
     fold (\<lambda>(w, s) out. \<lparr>sy_Coeff = accumulate w (sy_Coeff s) (sy_Coeff out),
                           sy_Data = accumulate w (sy_Data s) (sy_Data out)\<rparr>)
       (zip weights symbols) \<lparr>sy_Coeff = replicate k 0, sy_Data = replicate sz 0\<rparr>"

text \<open>At most 64 attempts, each with one read of fresh weights.\<close>

fun reEncodeLoop :: "nat \<Rightarrow> symbol list \<Rightarrow> nat \<Rightarrow> nat \<Rightarrow> (nat \<Rightarrow> bytes option) \<Rightarrow> nat \<Rightarrow> rlnc_error + symbol" where
  "reEncodeLoop 0 symbols k sz draw attempt = Inl NoNonZero"
| "reEncodeLoop (Suc n) symbols k sz draw attempt =
     (case draw attempt of
        None \<Rightarrow> Inl RandomFailed
      | Some weights \<Rightarrow>
          if \<not> anyNonZero weights then reEncodeLoop n symbols k sz draw (Suc attempt)
          else let s = combine weights symbols k sz in
            if anyNonZero (sy_Coeff s) then Inr s
            else reEncodeLoop n symbols k sz draw (Suc attempt))"

definition ReEncode :: "symbol list \<Rightarrow> (nat \<Rightarrow> bytes option) \<Rightarrow> rlnc_error + symbol" where
  "ReEncode symbols draw =
     (case symbols of
        [] \<Rightarrow> Inl NoSymbols
      | first # _ \<Rightarrow>
          let k = length (sy_Coeff first); sz = length (sy_Data first) in
          if k = 0 \<or> sz = 0 then Inl EmptyDimensions
          else if \<exists>s \<in> set symbols. length (sy_Coeff s) \<noteq> k \<or> length (sy_Data s) \<noteq> sz then Inl Incompatible
          else if \<forall>s \<in> set symbols. \<not> anyNonZero (sy_Coeff s) then Inl ZeroSpan
          else reEncodeLoop 64 symbols k sz draw 0)"

section \<open>The decoder\<close>

record decoder =
  de_k :: nat
  de_symbolSize :: nat
  de_originalSize :: nat
  de_basis :: "bytes option list"
  de_rank :: nat

definition NewDecoder :: "int \<Rightarrow> int \<Rightarrow> int \<Rightarrow> rlnc_error + decoder" where
  "NewDecoder k symbolSize originalSize =
     (if k \<le> 0 \<or> symbolSize \<le> 0 \<or> originalSize \<le> 0 then Inl InvalidDimensions
      else let capacity = (k * symbolSize) mod 2 ^ 64 in
        if originalSize > capacity then Inl OverCapacity
        else Inr \<lparr>de_k = nat k, de_symbolSize = nat symbolSize, de_originalSize = nat originalSize,
                   de_basis = replicate (nat k) None, de_rank = 0\<rparr>)"

definition Decoder_Ready :: "decoder \<Rightarrow> bool" where
  "Decoder_Ready d \<longleftrightarrow> de_rank d = de_k d"

definition addScaled :: "bytes \<Rightarrow> bytes \<Rightarrow> byte \<Rightarrow> bytes" where
  "addScaled dst src factor = map2 (\<lambda>d s. gf_add d (gf_mul factor s)) dst src"

definition scale :: "bytes \<Rightarrow> byte \<Rightarrow> bytes" where
  "scale row factor = map (\<lambda>x. gf_mul x factor) row"

text \<open>One step of the first loop of \<^verbatim>\<open>Add\<close>: eliminate the entry at a column that has a pivot.\<close>

definition eliminate :: "bytes option list \<Rightarrow> nat \<Rightarrow> bytes \<Rightarrow> bytes" where
  "eliminate basis col row =
     (case basis ! col of
        Some b \<Rightarrow> if row ! col \<noteq> 0 then addScaled row b (row ! col) else row
      | None \<Rightarrow> row)"

definition reduceRow :: "bytes option list \<Rightarrow> nat \<Rightarrow> bytes \<Rightarrow> bytes" where
  "reduceRow basis k row = fold (eliminate basis) [0..<k] row"

text \<open>The update of the other basis rows when a new pivot is found.\<close>

definition clearColumn :: "nat \<Rightarrow> bytes \<Rightarrow> bytes option \<Rightarrow> bytes option" where
  "clearColumn col row existing =
     map_option (\<lambda>ex. if ex ! col \<noteq> 0 then addScaled ex row (ex ! col) else ex) existing"

definition Decoder_Add :: "decoder \<Rightarrow> symbol \<Rightarrow> decoder \<times> (rlnc_error + bool)" where
  "Decoder_Add d s =
     (if length (sy_Coeff s) \<noteq> de_k d \<or> length (sy_Data s) \<noteq> de_symbolSize d then (d, Inl DimensionMismatch)
      else if \<not> anyNonZero (sy_Coeff s) then (d, Inl ZeroCoefficients)
      else let row = reduceRow (de_basis d) (de_k d) (sy_Coeff s @ sy_Data s) in
        case List.find (\<lambda>col. row ! col \<noteq> 0) [0..<de_k d] of
          Some col \<Rightarrow>
            (case gf_inv (row ! col) of
               None \<Rightarrow> (d, Inl InversePanic)
             | Some i \<Rightarrow>
                 let row = scale row i in
                 (d\<lparr>de_basis := (map (clearColumn col row) (de_basis d))[col := Some row],
                    de_rank := Suc (de_rank d)\<rparr>, Inr True))
        | None \<Rightarrow> if anyNonZero (drop (de_k d) row) then (d, Inl InconsistentSymbol) else (d, Inr False))"

fun decodeRows :: "nat \<Rightarrow> nat \<Rightarrow> bytes option list \<Rightarrow> rlnc_error + bytes" where
  "decodeRows k i [] = Inr []"
| "decodeRows k i (row # rows) =
     (case row of
        None \<Rightarrow> Inl BasisIncomplete
      | Some r \<Rightarrow>
          if r ! i \<noteq> 1 then Inl BasisIncomplete
          else map_sum id (\<lambda>rest. drop k r @ rest) (decodeRows k (Suc i) rows))"

definition Decoder_Decode :: "decoder \<Rightarrow> rlnc_error + bytes" where
  "Decoder_Decode d =
     (if \<not> Decoder_Ready d then Inl RankDeficient
      else map_sum id (take (de_originalSize d)) (decodeRows (de_k d) 0 (de_basis d)))"

fun addAll :: "decoder \<Rightarrow> symbol list \<Rightarrow> rlnc_error + decoder" where
  "addAll d [] = Inr d"
| "addAll d (s # ss) = (case Decoder_Add d s of (d', Inl e) \<Rightarrow> Inl e | (d', Inr _) \<Rightarrow> addAll d' ss)"

definition Decode :: "symbol list \<Rightarrow> int \<Rightarrow> int \<Rightarrow> rlnc_error + bytes" where
  "Decode symbols k originalSize =
     (if k \<le> 0 \<or> originalSize \<le> 0 then Inl InvalidDimensions
      else if int (length symbols) < k then Inl Insufficient
      else let sz = length (sy_Data (symbols ! 0)) in
        if sz = 0 then Inl EmptySymbolData
        else case NewDecoder k (int sz) originalSize of
               Inl e \<Rightarrow> Inl e
             | Inr d \<Rightarrow> (case addAll d symbols of Inl e \<Rightarrow> Inl e | Inr d' \<Rightarrow> Decoder_Decode d'))"

section \<open>Rows\<close>

lemma gf_simps [simp]: "gf_add a b = a XOR b"
  by (simp add: gf_add_def)

lemma length_addScaled [simp]: "length (addScaled d s f) = min (length d) (length s)"
  by (simp add: addScaled_def)

lemma nth_addScaled [simp]:
  "i < length d \<Longrightarrow> i < length s \<Longrightarrow> addScaled d s f ! i = d ! i XOR gf_mul f (s ! i)"
  by (simp add: addScaled_def)

lemma length_scale [simp]: "length (scale r f) = length r"
  by (simp add: scale_def)

lemma nth_scale [simp]: "i < length r \<Longrightarrow> scale r f ! i = gf_mul (r ! i) f"
  by (simp add: scale_def)

lemma addScaled_zero: "length s = length d \<Longrightarrow> addScaled d s 0 = d"
  by (rule nth_equalityI) simp_all

primrec gsum :: "(nat \<Rightarrow> byte) \<Rightarrow> nat \<Rightarrow> byte" where
  "gsum f 0 = 0"
| "gsum f (Suc n) = gsum f n XOR f n"

lemma gsum_cong: "(\<And>i. i < n \<Longrightarrow> f i = g i) \<Longrightarrow> gsum f n = gsum g n"
  by (induction n) simp_all

lemma gsum_xor: "gsum (\<lambda>i. f i XOR g i) n = gsum f n XOR gsum g n"
  by (induction n) (simp_all add: xor.assoc xor.left_commute)

lemma gsum_mul: "gsum (\<lambda>i. gf_mul a (f i)) n = gf_mul a (gsum f n)"
  by (induction n) (simp_all add: gf_mul_xor)

lemma gsum_single: "c < n \<Longrightarrow> gsum (\<lambda>i. if i = c then x else 0) n = x"
proof (induction n)
  case (Suc n)
  have "gsum (\<lambda>i. if i = c then x else 0) c = 0" by (rule trans [OF gsum_cong [of _ _ "\<lambda>_. 0"]]) (simp, induction c, simp_all)
  with Suc show ?case by (cases "c = n") simp_all
qed simp

lemma gsum_zero: "gsum (\<lambda>i. 0) n = 0"
  by (induction n) simp_all

text \<open>A row agrees with the source: its data is the combination its coefficients name.\<close>

definition agrees :: "bytes list \<Rightarrow> nat \<Rightarrow> bytes \<Rightarrow> bool" where
  "agrees src sz r \<longleftrightarrow> length r = length src + sz \<and>
     (\<forall>j < sz. r ! (length src + j) = gsum (\<lambda>i. gf_mul (r ! i) (src ! i ! j)) (length src))"

lemma agrees_addScaled:
  assumes "agrees src sz r" and "agrees src sz b"
  shows "agrees src sz (addScaled r b f)"
proof -
  have "addScaled r b f ! (length src + j) =
      gsum (\<lambda>i. gf_mul (addScaled r b f ! i) (src ! i ! j)) (length src)" if "j < sz" for j
  proof -
    have "gsum (\<lambda>i. gf_mul (addScaled r b f ! i) (src ! i ! j)) (length src) =
        gsum (\<lambda>i. gf_mul (r ! i) (src ! i ! j) XOR gf_mul f (gf_mul (b ! i) (src ! i ! j))) (length src)"
      using assms by (intro gsum_cong) (simp add: agrees_def gf_mul_xor gf_mul_assoc)
    with that assms show ?thesis by (simp add: agrees_def gsum_xor gsum_mul)
  qed
  with assms show ?thesis by (simp add: agrees_def)
qed

lemma agrees_scale: "agrees src sz r \<Longrightarrow> agrees src sz (scale r f)"
proof -
  assume a: "agrees src sz r"
  have "scale r f ! (length src + j) = gsum (\<lambda>i. gf_mul (scale r f ! i) (src ! i ! j)) (length src)"
    if "j < sz" for j
  proof -
    have "gsum (\<lambda>i. gf_mul (scale r f ! i) (src ! i ! j)) (length src) =
        gsum (\<lambda>i. gf_mul f (gf_mul (r ! i) (src ! i ! j))) (length src)"
      using a by (intro gsum_cong) (simp add: agrees_def gf_mul_assoc gf_mul_commute [of f])
    with that a show ?thesis by (simp add: agrees_def gsum_mul gf_mul_commute)
  qed
  with a show ?thesis by (simp add: agrees_def)
qed

section \<open>Elimination\<close>

text \<open>Reduced row-echelon form: every pivot row has a one at its column and zeros at the other pivots.\<close>

definition rref :: "nat \<Rightarrow> nat \<Rightarrow> bytes option list \<Rightarrow> bool" where
  "rref k sz basis \<longleftrightarrow> length basis = k \<and>
     (\<forall>c < k. \<forall>r. basis ! c = Some r \<longrightarrow> length r = k + sz \<and> r ! c = 1 \<and>
        (\<forall>c' < k. c' \<noteq> c \<longrightarrow> basis ! c' \<noteq> None \<longrightarrow> r ! c' = 0))"

lemma rrefD:
  "rref k sz basis \<Longrightarrow> c < k \<Longrightarrow> basis ! c = Some r \<Longrightarrow> length r = k + sz \<and> r ! c = 1"
  "rref k sz basis \<Longrightarrow> c < k \<Longrightarrow> basis ! c = Some r \<Longrightarrow> c' < k \<Longrightarrow> c' \<noteq> c \<Longrightarrow> basis ! c' \<noteq> None \<Longrightarrow> r ! c' = 0"
  by (simp_all add: rref_def)

lemma eliminate_alt:
  "rref k sz basis \<Longrightarrow> col < k \<Longrightarrow> length row = k + sz \<Longrightarrow>
     eliminate basis col row = (case basis ! col of Some b \<Rightarrow> addScaled row b (row ! col) | None \<Rightarrow> row)"
  by (auto simp: eliminate_def addScaled_zero dest: rrefD(1) split: option.splits)

lemma length_eliminate:
  "rref k sz basis \<Longrightarrow> col < k \<Longrightarrow> length row = k + sz \<Longrightarrow> length (eliminate basis col row) = k + sz"
  by (auto simp: eliminate_alt dest: rrefD(1) split: option.splits)

lemma eliminate_pivot:
  assumes "rref k sz basis" and "col < k" and "length row = k + sz" and "p < k" and "basis ! p \<noteq> None"
  shows "eliminate basis col row ! p = (if p = col then 0 else row ! p)"
proof (cases "basis ! col")
  case (Some b)
  with rrefD(1) [OF assms(1,2) Some] rrefD(2) [OF assms(1,2) Some assms(4)] assms show ?thesis
    by (simp add: eliminate_alt)
qed (use assms in \<open>auto simp: eliminate_alt\<close>)

lemma fold_eliminate:
  assumes "rref k sz basis" and "length row = k + sz" and "n \<le> k"
  shows "length (fold (eliminate basis) [0..<n] row) = k + sz \<and>
    (\<forall>p < k. basis ! p \<noteq> None \<longrightarrow> fold (eliminate basis) [0..<n] row ! p = (if p < n then 0 else row ! p))"
  using assms(3)
proof (induction n)
  case (Suc n)
  then show ?case
    using assms(1) by (auto simp: length_eliminate eliminate_pivot)
qed (simp add: assms(2))

lemma length_reduceRow: "rref k sz basis \<Longrightarrow> length row = k + sz \<Longrightarrow> length (reduceRow basis k row) = k + sz"
  using fold_eliminate [of k sz basis row k] by (simp add: reduceRow_def)

lemma reduceRow_pivot:
  "rref k sz basis \<Longrightarrow> length row = k + sz \<Longrightarrow> p < k \<Longrightarrow> basis ! p \<noteq> None \<Longrightarrow> reduceRow basis k row ! p = 0"
  using fold_eliminate [of k sz basis row k] by (simp add: reduceRow_def)

text \<open>Elimination is linear in the row, and an induction rule for facts it preserves.\<close>

lemma reduceRow_induct:
  assumes "rref k sz basis" and "length row = k + sz" and "P row"
    and "\<And>r b c. P r \<Longrightarrow> length r = k + sz \<Longrightarrow> c < k \<Longrightarrow> basis ! c = Some b \<Longrightarrow> P (addScaled r b (r ! c))"
  shows "P (reduceRow basis k row)"
proof -
  have "n \<le> k \<Longrightarrow> P (fold (eliminate basis) [0..<n] row)" for n
  proof (induction n)
    case (Suc n)
    let ?r = "fold (eliminate basis) [0..<n] row"
    have "length ?r = k + sz" using fold_eliminate [OF assms(1,2), of n] Suc.prems by simp
    with Suc assms(1,4) show ?case by (auto simp: eliminate_alt split: option.splits)
  qed (use assms(3) in simp)
  then show ?thesis by (simp add: reduceRow_def)
qed

lemma eliminate_linear:
  assumes "rref k sz basis" and "col < k" and "length v = k + sz" and "length w = k + sz"
  shows "eliminate basis col (addScaled v w a) = addScaled (eliminate basis col v) (eliminate basis col w) a"
proof (cases "basis ! col")
  case (Some b)
  with rrefD(1) [OF assms(1,2)] have b: "length b = k + sz" by simp
  have "addScaled (addScaled v w a) b (addScaled v w a ! col) =
      addScaled (addScaled v b (v ! col)) (addScaled w b (w ! col)) a"
    by (rule nth_equalityI)
      (use assms b in \<open>simp_all add: gf_mul_xor gf_mul_assoc xor.assoc xor.left_commute\<close>)
  with Some assms show ?thesis by (simp add: eliminate_alt)
qed (use assms in \<open>simp add: eliminate_alt\<close>)

lemma reduceRow_linear:
  assumes "rref k sz basis" and "length v = k + sz" and "length w = k + sz"
  shows "reduceRow basis k (addScaled v w a) = addScaled (reduceRow basis k v) (reduceRow basis k w) a"
proof -
  have "n \<le> k \<Longrightarrow> fold (eliminate basis) [0..<n] (addScaled v w a) =
      addScaled (fold (eliminate basis) [0..<n] v) (fold (eliminate basis) [0..<n] w) a" for n
    using fold_eliminate [OF assms(1,2)] fold_eliminate [OF assms(1,3)] eliminate_linear [OF assms(1)]
    by (induction n) simp_all
  then show ?thesis by (simp add: reduceRow_def)
qed

lemma fold_unchanged:
  assumes "rref k sz basis" and "length row = k + sz"
    and "\<forall>p < n. basis ! p \<noteq> None \<longrightarrow> row ! p = 0" and "n \<le> k"
  shows "fold (eliminate basis) [0..<n] row = row"
  using assms(3,4)
proof (induction n)
  case (Suc n)
  then show ?case
    using assms(1,2) by (auto simp: eliminate_def split: option.splits)
qed simp

lemma reduceRow_unchanged:
  "rref k sz basis \<Longrightarrow> length row = k + sz \<Longrightarrow> \<forall>p < k. basis ! p \<noteq> None \<longrightarrow> row ! p = 0 \<Longrightarrow>
     reduceRow basis k row = row"
  using fold_unchanged [of k sz basis row k] by (simp add: reduceRow_def)

lemma reduceRow_zero: "rref k sz basis \<Longrightarrow> reduceRow basis k (replicate (k + sz) 0) = replicate (k + sz) 0"
  by (rule reduceRow_unchanged) simp_all

lemma reduceRow_basis:
  assumes "rref k sz basis" and "c < k" and "basis ! c = Some b"
  shows "reduceRow basis k b = replicate (k + sz) 0"
proof -
  note b = rrefD(1) [OF assms] 
  have "fold (eliminate basis) [0..<c] b = b"
    using b assms(2) rrefD(2) [OF assms] by (intro fold_unchanged [OF assms(1)]) auto
  moreover have "eliminate basis c b = replicate (k + sz) 0"
    using assms b by (auto simp: eliminate_alt intro!: nth_equalityI)
  moreover have "fold (eliminate basis) [Suc c..<n] (replicate (k + sz) 0) = replicate (k + sz) 0" if "n \<le> k" for n
    using that assms(1) by (induction n) (auto simp: eliminate_def split: option.splits)
  moreover have "[0..<k] = [0..<c] @ c # [Suc c..<k]"
    using assms(2) by (metis upt_add_eq_append upt_conv_Cons le0 less_imp_le le_add_diff_inverse add_0)
  ultimately show ?thesis by (simp add: reduceRow_def)
qed

end
