(* ===== verification/RlncDecoder.thy ===== *)
theory RlncDecoder
  imports Rlnc
begin

text \<open>
  Correctness of the incremental decoder: the invariant of its basis, what an addition does to it, the
  span of the received rows, and the round trip from encoder to decoder.
\<close>

section \<open>Spans\<close>

inductive_set row_span :: "nat \<Rightarrow> bytes set \<Rightarrow> bytes set" for n :: nat and S :: "bytes set" where
  span_zero: "replicate n 0 \<in> row_span n S"
| span_add: "v \<in> row_span n S \<Longrightarrow> r \<in> S \<Longrightarrow> addScaled v r a \<in> row_span n S"

lemma span_length:
  assumes "\<forall>r \<in> S. length r = n" and "v \<in> row_span n S"
  shows "length v = n"
  using assms(2,1) by (induction rule: row_span.induct) simp_all

lemma addScaled_scale:
  "length v = n \<Longrightarrow> length r = n \<Longrightarrow> length w = n \<Longrightarrow>
     addScaled v (addScaled w r a) b = addScaled (addScaled v w b) r (gf_mul b a)"
  by (rule nth_equalityI) (simp_all add: gf_mul_xor gf_mul_assoc xor.assoc)

lemma span_addScaled:
  assumes "\<forall>r \<in> S. length r = n" and "w \<in> row_span n S" and "v \<in> row_span n S"
  shows "addScaled v w b \<in> row_span n S"
  using assms(2,3)
proof (induction arbitrary: v rule: row_span.induct)
  case span_zero
  have "addScaled v (replicate n 0) b = v"
    using span_length [OF assms(1) span_zero] by (intro nth_equalityI) simp_all
  with span_zero show ?case by simp
next
  case (span_add w r a)
  have "length v = n" "length w = n" "length r = n"
    using span_length [OF assms(1)] span_add assms(1) by simp_all
  then have "addScaled v (addScaled w r a) b = addScaled (addScaled v w b) r (gf_mul b a)"
    by (simp add: addScaled_scale [of v n r w a b])
  with span_add show ?case by (simp add: row_span.span_add)
qed

lemma span_base: "\<forall>r \<in> S. length r = n \<Longrightarrow> r \<in> S \<Longrightarrow> r \<in> row_span n S"
proof -
  assume a: "\<forall>r \<in> S. length r = n" "r \<in> S"
  then have "addScaled (replicate n 0) r 1 = r" by (intro nth_equalityI) simp_all
  with row_span.span_add [OF row_span.span_zero a(2), of n 1] show ?thesis by simp
qed

lemma span_mono:
  assumes "\<forall>r \<in> T. length r = n" and "S \<subseteq> row_span n T" and "v \<in> row_span n S"
  shows "v \<in> row_span n T"
  using assms(3)
proof (induction rule: row_span.induct)
  case (span_add v r a)
  then show ?case using span_addScaled [OF assms(1)] assms(2) by blast
qed (rule row_span.span_zero)

section \<open>The basis\<close>

definition basis_rows :: "bytes option list \<Rightarrow> bytes set" where
  "basis_rows basis = {r. Some r \<in> set basis}"

lemma basis_rows_nth: "r \<in> basis_rows basis \<longleftrightarrow> (\<exists>c < length basis. basis ! c = Some r)"
  by (auto simp: basis_rows_def in_set_conv_nth)

lemma basis_rows_length: "rref k sz basis \<Longrightarrow> \<forall>r \<in> basis_rows basis. length r = k + sz"
  by (auto simp: basis_rows_nth rref_def)

lemma reduce_span:
  assumes "rref k sz basis" and "v \<in> row_span (k + sz) (basis_rows basis)"
  shows "reduceRow basis k v = replicate (k + sz) 0"
  using assms(2)
proof (induction rule: row_span.induct)
  case span_zero
  show ?case using assms(1) by (rule reduceRow_zero)
next
  case (span_add v r a)
  have lens: "length v = k + sz" "length r = k + sz"
    using span_length [OF basis_rows_length] basis_rows_length assms(1) span_add by blast+
  obtain c where c: "c < k" "basis ! c = Some r"
    using span_add assms(1) by (auto simp: basis_rows_nth rref_def)
  from reduceRow_linear [OF assms(1) lens] span_add.IH reduceRow_basis [OF assms(1) c] show ?case
    by (auto intro!: nth_equalityI)
qed

text \<open>The row offered is a combination of its reduction and the basis.\<close>

lemma row_from_reduction:
  assumes "rref k sz basis" and "length row = k + sz" and "\<forall>r \<in> T. length r = k + sz"
    and "basis_rows basis \<subseteq> row_span (k + sz) T" and "reduceRow basis k row \<in> row_span (k + sz) T"
  shows "row \<in> row_span (k + sz) T"
proof -
  have "reduceRow basis k row \<in> row_span (k + sz) T \<longrightarrow> row \<in> row_span (k + sz) T"
  proof (rule reduceRow_induct [OF assms(1,2)])
    fix r b c
    assume r: "r \<in> row_span (k + sz) T \<longrightarrow> row \<in> row_span (k + sz) T" "length r = k + sz"
      and c: "c < k" "basis ! c = Some b"
    have b: "length b = k + sz" using rrefD(1) [OF assms(1) c] by simp
    have "b \<in> basis_rows basis" using c assms(1) by (auto simp: basis_rows_nth rref_def)
    then have "b \<in> row_span (k + sz) T" using assms(4) by blast
    moreover have "addScaled (addScaled r b (r ! c)) b (r ! c) = r"
      by (rule nth_equalityI) (use r b in \<open>simp_all add: xor.assoc\<close>)
    ultimately show "addScaled r b (r ! c) \<in> row_span (k + sz) T \<longrightarrow> row \<in> row_span (k + sz) T"
      using r(1) span_addScaled [OF assms(3)] by metis
  qed simp
  with assms(5) show ?thesis by simp
qed

section \<open>Adding a pivot\<close>

definition add_pivot :: "bytes option list \<Rightarrow> nat \<Rightarrow> bytes \<Rightarrow> bytes option list" where
  "add_pivot basis col row = (map (clearColumn col row) basis)[col := Some row]"

lemma add_pivot_nth:
  "c < length basis \<Longrightarrow> add_pivot basis col row ! c = (if c = col then Some row else clearColumn col row (basis ! c))"
  by (simp add: add_pivot_def)

lemma clearColumn_alt:
  "length ex = length row \<Longrightarrow> clearColumn col row (Some ex) = Some (addScaled ex row (ex ! col))"
  by (auto simp: clearColumn_def addScaled_zero)

lemma clearColumn_None [simp]: "clearColumn col row x = None \<longleftrightarrow> x = None"
  by (simp add: clearColumn_def)

lemma add_pivot_rref:
  assumes "rref k sz basis" and "col < k" and "length row = k + sz" and "row ! col = 1"
    and zero: "\<forall>p < k. basis ! p \<noteq> None \<longrightarrow> row ! p = 0"
  shows "rref k sz (add_pivot basis col row)"
proof -
  have len: "length basis = k" using assms(1) by (simp add: rref_def)
  have none: "basis ! col = None"
    using zero assms(2,4) by (metis one_neq_zero)
  have "length r = k + sz \<and> r ! c = 1 \<and>
      (\<forall>c' < k. c' \<noteq> c \<longrightarrow> add_pivot basis col row ! c' \<noteq> None \<longrightarrow> r ! c' = 0)"
    if c: "c < k" and r: "add_pivot basis col row ! c = Some r" for c r
  proof (cases "c = col")
    case True
    with c r len assms(3,4) zero show ?thesis by (auto simp: add_pivot_nth)
  next
    case False
    with c r len obtain ex where ex: "basis ! c = Some ex" by (auto simp: add_pivot_nth clearColumn_def)
    note e = rrefD(1) [OF assms(1) c ex] rrefD(2) [OF assms(1) c ex]
    have r': "r = addScaled ex row (ex ! col)"
      using r c len False ex e(1) assms(3) by (simp add: add_pivot_nth clearColumn_alt)
    have "row ! c = 0" using zero c ex by simp
    with e(1) c r' assms(3) have r1: "length r = k + sz" "r ! c = 1" by simp_all
    have "r ! c' = 0" if c': "c' < k" "c' \<noteq> c" "add_pivot basis col row ! c' \<noteq> None" for c'
    proof (cases "c' = col")
      case True
      with r' e(1) assms(2-4) show ?thesis by simp
    next
      case False
      with c' len have "basis ! c' \<noteq> None" by (simp add: add_pivot_nth)
      with c' e zero r' assms(3) show ?thesis by simp
    qed
    with r1 show ?thesis by blast
  qed
  with len show ?thesis by (simp add: rref_def add_pivot_def)
qed

lemma add_pivot_span:
  assumes "rref k sz basis" and "rref k sz (add_pivot basis col row)" and "col < k" and "basis ! col = None"
    and "length row = k + sz"
  shows "basis_rows basis \<subseteq> row_span (k + sz) (basis_rows (add_pivot basis col row))"
    and "row \<in> row_span (k + sz) (basis_rows (add_pivot basis col row))"
proof -
  let ?T = "basis_rows (add_pivot basis col row)"
  have len: "length basis = k" using assms(1) by (simp add: rref_def)
  note T = basis_rows_length [OF assms(2)]
  have "row \<in> ?T" using assms(3) len by (auto simp: basis_rows_nth add_pivot_def)
  then show row: "row \<in> row_span (k + sz) ?T" by (rule span_base [OF T])
  show "basis_rows basis \<subseteq> row_span (k + sz) ?T"
  proof
    fix ex
    assume "ex \<in> basis_rows basis"
    then obtain c where c: "c < k" "basis ! c = Some ex" by (auto simp: basis_rows_nth len)
    with assms(4) have "c \<noteq> col" by auto
    note e = rrefD(1) [OF assms(1) c]
    have "add_pivot basis col row ! c = Some (addScaled ex row (ex ! col))"
      using c len \<open>c \<noteq> col\<close> e assms(5) by (simp add: add_pivot_nth clearColumn_alt)
    then have "addScaled ex row (ex ! col) \<in> row_span (k + sz) ?T"
      using c len by (intro span_base [OF T]) (metis basis_rows_nth add_pivot_def length_list_update length_map)
    then have "addScaled (addScaled ex row (ex ! col)) row (ex ! col) \<in> row_span (k + sz) ?T"
      by (rule span_addScaled [OF T row])
    moreover have "addScaled (addScaled ex row (ex ! col)) row (ex ! col) = ex"
      by (rule nth_equalityI) (use e assms(5) in \<open>simp_all add: xor.assoc\<close>)
    ultimately show "ex \<in> row_span (k + sz) ?T" by simp
  qed
qed

section \<open>The decoder's invariant\<close>

definition pivots :: "bytes option list \<Rightarrow> nat set" where
  "pivots basis = {c. c < length basis \<and> basis ! c \<noteq> None}"

definition decoder_ok :: "decoder \<Rightarrow> bool" where
  "decoder_ok d \<longleftrightarrow> rref (de_k d) (de_symbolSize d) (de_basis d) \<and> de_rank d = card (pivots (de_basis d))"

lemma finite_pivots [simp]: "finite (pivots basis)"
  by (simp add: pivots_def)

lemma pivots_add: "col < length basis \<Longrightarrow> pivots (add_pivot basis col row) = insert col (pivots basis)"
proof -
  assume col: "col < length basis"
  have "add_pivot basis col row ! c \<noteq> None \<longleftrightarrow> c = col \<or> basis ! c \<noteq> None" if "c < length basis" for c
    using that by (cases "basis ! c") (simp_all add: add_pivot_nth clearColumn_def)
  moreover have "length (add_pivot basis col row) = length basis" by (simp add: add_pivot_def)
  ultimately show ?thesis using col unfolding pivots_def by auto
qed

lemma NewDecoder_ok: "NewDecoder k sz n = Inr d \<Longrightarrow> decoder_ok d"
  by (auto simp: NewDecoder_def decoder_ok_def rref_def pivots_def Let_def split: if_splits)

text \<open>The two ways an addition can end once its dimensions and coefficients are accepted.\<close>

lemma Decoder_Add_cases:
  assumes ok: "decoder_ok d" and dims: "length (sy_Coeff s) = de_k d" "length (sy_Data s) = de_symbolSize d"
    and nz: "anyNonZero (sy_Coeff s)"
  obtains (innovative) col row where "col < de_k d" "de_basis d ! col = None"
      "\<exists>i. row = scale (reduceRow (de_basis d) (de_k d) (sy_Coeff s @ sy_Data s)) i"
      "row ! col = 1" "length row = de_k d + de_symbolSize d" "\<forall>p < de_k d. de_basis d ! p \<noteq> None \<longrightarrow> row ! p = 0"
      "reduceRow (de_basis d) (de_k d) (sy_Coeff s @ sy_Data s) =
         scale row (reduceRow (de_basis d) (de_k d) (sy_Coeff s @ sy_Data s) ! col)"
      "Decoder_Add d s = (d\<lparr>de_basis := add_pivot (de_basis d) col row, de_rank := Suc (de_rank d)\<rparr>, Inr True)"
  | (redundant) "\<forall>c < de_k d. reduceRow (de_basis d) (de_k d) (sy_Coeff s @ sy_Data s) ! c = 0"
      "Decoder_Add d s = (d, if anyNonZero (drop (de_k d) (reduceRow (de_basis d) (de_k d) (sy_Coeff s @ sy_Data s)))
         then Inl InconsistentSymbol else Inr False)"
proof -
  let ?k = "de_k d" and ?r = "reduceRow (de_basis d) (de_k d) (sy_Coeff s @ sy_Data s)"
  have rr: "rref ?k (de_symbolSize d) (de_basis d)" using ok by (simp add: decoder_ok_def)
  have len: "length ?r = ?k + de_symbolSize d" using length_reduceRow [OF rr] dims by simp
  have piv: "\<forall>p < ?k. de_basis d ! p \<noteq> None \<longrightarrow> ?r ! p = 0" using reduceRow_pivot [OF rr] dims by simp
  show thesis
  proof (cases "List.find (\<lambda>col. ?r ! col \<noteq> 0) [0..<?k]")
    case None
    then have z: "\<forall>c < ?k. ?r ! c = 0" by (auto simp: find_None_iff)
    then show thesis using redundant None dims nz by (simp add: Decoder_Add_def)
  next
    case (Some col)
    then have col: "col < ?k" "?r ! col \<noteq> 0" by (auto simp: find_Some_iff)
    then obtain i where i: "gf_inv (?r ! col) = Some i" using gf_inv_total by blast
    note inverse = gf_inv_mul [OF i]
    have none: "de_basis d ! col = None" using piv col by (metis option.exhaust option.simps(3))
    have undo: "?r = scale (scale ?r i) (?r ! col)"
    proof (rule nth_equalityI)
      fix j
      assume j: "j < length ?r"
      have "gf_mul i (?r ! col) = 1" using inverse by (simp add: gf_mul_commute)
      then show "?r ! j = scale (scale ?r i) (?r ! col) ! j" using j by (simp add: gf_mul_assoc)
    qed simp
    have "Decoder_Add d s = (d\<lparr>de_basis := add_pivot (de_basis d) col (scale ?r i), de_rank := Suc (de_rank d)\<rparr>, Inr True)"
      using Some dims nz i by (simp add: Decoder_Add_def add_pivot_def Let_def)
    with col none undo len piv inverse show thesis by (intro innovative [of col "scale ?r i"]) auto
  qed
qed

lemma Decoder_Add_refused:
  "length (sy_Coeff s) \<noteq> de_k d \<or> length (sy_Data s) \<noteq> de_symbolSize d \<or> \<not> anyNonZero (sy_Coeff s) \<Longrightarrow>
     \<exists>e. Decoder_Add d s = (d, Inl e) \<and> e \<in> {DimensionMismatch, ZeroCoefficients}"
  by (auto simp: Decoder_Add_def)

lemma Decoder_Add_ok:
  assumes "decoder_ok d"
  shows "decoder_ok (fst (Decoder_Add d s))"
proof (cases "length (sy_Coeff s) = de_k d \<and> length (sy_Data s) = de_symbolSize d \<and> anyNonZero (sy_Coeff s)")
  case True
  then have dims: "length (sy_Coeff s) = de_k d" "length (sy_Data s) = de_symbolSize d" "anyNonZero (sy_Coeff s)"
    by simp_all
  show ?thesis
  proof (cases rule: Decoder_Add_cases [OF assms dims, case_names innovative redundant])
    case (innovative col row)
    have rr: "rref (de_k d) (de_symbolSize d) (de_basis d)" using assms by (simp add: decoder_ok_def)
    then have "length (de_basis d) = de_k d" by (simp add: rref_def)
    with innovative add_pivot_rref [OF rr innovative(1,5,4,6)] assms show ?thesis
      by (auto simp: decoder_ok_def pivots_add) (auto simp: pivots_def)
  qed (use assms in simp)
next
  case False
  then obtain e where "Decoder_Add d s = (d, Inl e)" using Decoder_Add_refused by blast
  with assms show ?thesis by simp
qed

lemma decoder_ok_rank:
  assumes "decoder_ok d"
  shows "de_rank d \<le> de_k d"
proof -
  have "pivots (de_basis d) \<subseteq> {..<de_k d}" using assms by (auto simp: pivots_def decoder_ok_def rref_def)
  then show ?thesis using assms card_mono [of "{..<de_k d}" "pivots (de_basis d)"] by (simp add: decoder_ok_def)
qed

lemma Decoder_Add_result:
  assumes ok: "decoder_ok d"
  shows "snd (Decoder_Add d s) \<noteq> Inl InversePanic \<and>
    (case Decoder_Add d s of (d', Inr True) \<Rightarrow> de_rank d' = Suc (de_rank d) | (d', _) \<Rightarrow> d' = d)"
proof (cases "length (sy_Coeff s) = de_k d \<and> length (sy_Data s) = de_symbolSize d \<and> anyNonZero (sy_Coeff s)")
  case True
  then have dims: "length (sy_Coeff s) = de_k d" "length (sy_Data s) = de_symbolSize d" "anyNonZero (sy_Coeff s)"
    by simp_all
  show ?thesis
    by (cases rule: Decoder_Add_cases [OF ok dims]) (auto split: if_splits)
next
  case False
  then obtain e where "Decoder_Add d s = (d, Inl e)" "e \<in> {DimensionMismatch, ZeroCoefficients}"
    using Decoder_Add_refused by blast
  then show ?thesis by auto
qed

interpretation decoder: invariant_machine "\<lambda>d s. fst (Decoder_Add d s)" decoder_ok
  by unfold_locales (rule Decoder_Add_ok)

lemma Add_dims [simp]:
  "de_k (fst (Decoder_Add d s)) = de_k d" "de_symbolSize (fst (Decoder_Add d s)) = de_symbolSize d"
  "de_originalSize (fst (Decoder_Add d s)) = de_originalSize d"
  by (simp_all add: Decoder_Add_def Let_def split: option.split)

section \<open>Honest symbols\<close>

text \<open>A symbol whose data is the combination of the source its coefficients name, and a basis of such rows.\<close>

definition honest :: "bytes list \<Rightarrow> nat \<Rightarrow> symbol \<Rightarrow> bool" where
  "honest src sz s \<longleftrightarrow> length (sy_Coeff s) = length src \<and> agrees src sz (sy_Coeff s @ sy_Data s)"

definition follows_source :: "bytes list \<Rightarrow> nat \<Rightarrow> decoder \<Rightarrow> bool" where
  "follows_source src sz d \<longleftrightarrow> decoder_ok d \<and> de_k d = length src \<and> de_symbolSize d = sz \<and>
     (\<forall>r \<in> basis_rows (de_basis d). agrees src sz r)"

lemma honest_length: "honest src sz s \<Longrightarrow> length (sy_Data s) = sz"
  by (simp add: honest_def agrees_def)

lemma reduceRow_agrees:
  assumes "follows_source src sz d" and "agrees src sz row"
  shows "agrees src sz (reduceRow (de_basis d) (de_k d) row)"
proof (rule reduceRow_induct)
  show rr: "rref (de_k d) (de_symbolSize d) (de_basis d)"
    using assms(1) unfolding follows_source_def decoder_ok_def by blast
  show "length row = de_k d + de_symbolSize d" using assms by (simp add: follows_source_def agrees_def)
  fix r b c
  assume "agrees src sz r" "c < de_k d" "de_basis d ! c = Some b"
  moreover from this rr have "b \<in> basis_rows (de_basis d)" by (auto simp: basis_rows_nth rref_def)
  ultimately show "agrees src sz (addScaled r b (r ! c))"
    using assms(1) by (simp add: follows_source_def agrees_addScaled)
qed (rule assms(2))

lemma agrees_zero: "agrees src sz r \<Longrightarrow> \<forall>c < length src. r ! c = 0 \<Longrightarrow> \<not> anyNonZero (drop (length src) r)"
proof -
  assume a: "agrees src sz r" "\<forall>c < length src. r ! c = 0"
  have "r ! (length src + j) = 0" if "j < sz" for j
  proof -
    have "gsum (\<lambda>i. gf_mul (r ! i) (src ! i ! j)) (length src) = gsum (\<lambda>i. 0) (length src)"
      using a(2) by (intro gsum_cong) simp
    with a(1) that show ?thesis by (simp add: agrees_def gsum_zero)
  qed
  then show ?thesis using a(1) by (auto simp: anyNonZero_def in_set_conv_nth agrees_def)
qed

lemma add_pivot_agrees:
  assumes "length basis = length src" and "\<forall>r \<in> basis_rows basis. agrees src sz r" and "agrees src sz row"
  shows "\<forall>r \<in> basis_rows (add_pivot basis col row). agrees src sz r"
proof
  fix r
  assume "r \<in> basis_rows (add_pivot basis col row)"
  then obtain c where c: "c < length basis" "add_pivot basis col row ! c = Some r"
    by (auto simp: basis_rows_nth add_pivot_def)
  show "agrees src sz r"
  proof (cases "c = col")
    case True
    with c assms(3) show ?thesis by (simp add: add_pivot_nth)
  next
    case False
    with c obtain ex where ex: "basis ! c = Some ex" "clearColumn col row (Some ex) = Some r"
      by (cases "basis ! c") (auto simp: add_pivot_nth clearColumn_def)
    then have "agrees src sz ex" using c assms(2) by (auto simp: basis_rows_nth)
    with ex(2) assms(3) show ?thesis by (auto simp: clearColumn_def agrees_addScaled split: if_splits)
  qed
qed

lemma Add_honest:
  assumes "follows_source src sz d" and "honest src sz s"
  shows "follows_source src sz (fst (Decoder_Add d s)) \<and> snd (Decoder_Add d s) \<noteq> Inl InconsistentSymbol"
proof (cases "anyNonZero (sy_Coeff s)")
  case True
  have ok: "decoder_ok d" and k: "de_k d = length src" "de_symbolSize d = sz"
    and rows: "\<forall>r \<in> basis_rows (de_basis d). agrees src sz r" using assms(1) by (simp_all add: follows_source_def)
  have dims: "length (sy_Coeff s) = de_k d" "length (sy_Data s) = de_symbolSize d"
    using assms(2) k honest_length by (auto simp: honest_def)
  let ?r = "reduceRow (de_basis d) (de_k d) (sy_Coeff s @ sy_Data s)"
  have r: "agrees src sz ?r" using assms(2) by (intro reduceRow_agrees [OF assms(1)]) (simp add: honest_def)
  show ?thesis
  proof (cases rule: Decoder_Add_cases [OF ok dims True, case_names innovative redundant])
    case (innovative col row)
    have "agrees src sz row" using innovative(3) r agrees_scale by blast
    then have "\<forall>r \<in> basis_rows (add_pivot (de_basis d) col row). agrees src sz r"
      using rows ok k by (intro add_pivot_agrees) (auto simp: decoder_ok_def rref_def)
    with innovative(8) Decoder_Add_ok [OF ok, of s] k show ?thesis by (simp add: follows_source_def)
  next
    case redundant
    with agrees_zero [OF r] k assms(1) show ?thesis by simp
  qed
next
  case False
  with Decoder_Add_refused [of s d] assms(1) show ?thesis by fastforce
qed

section \<open>The encoder makes honest symbols\<close>

lemma length_accumulate: "length (accumulate w row out) = (if w = 0 then length out else min (length out) (length row))"
  by (simp add: accumulate_def)

lemma nth_accumulate:
  "j < length out \<Longrightarrow> length row = length out \<Longrightarrow> accumulate w row out ! j = out ! j XOR gf_mul w (row ! j)"
  by (simp add: accumulate_def)

lemma encode_fold:
  assumes "\<forall>r \<in> set src. length r = sz" and "length coeff = length src" and "n \<le> length src"
  shows "length (fold (\<lambda>(c, row) out. accumulate c row out) (zip (take n coeff) (take n src)) (replicate sz 0)) = sz \<and>
    (\<forall>j < sz. fold (\<lambda>(c, row) out. accumulate c row out) (zip (take n coeff) (take n src)) (replicate sz 0) ! j =
       gsum (\<lambda>i. gf_mul (coeff ! i) (src ! i ! j)) n)"
  using assms(3)
proof (induction n)
  case (Suc n)
  have "length (src ! n) = sz" using assms(1) Suc.prems by simp
  with Suc assms(2) show ?case
    by (simp add: take_Suc_conv_app_nth nth_accumulate length_accumulate)
qed simp

lemma encodeWith_honest:
  assumes "\<forall>r \<in> set (en_source e). length r = en_symbolSize e" and "length coeff = length (en_source e)"
  shows "honest (en_source e) (en_symbolSize e) (encodeWith e coeff)"
proof -
  let ?k = "length (en_source e)" and ?data = "sy_Data (encodeWith e coeff)"
  note enc = encode_fold [OF assms order_refl]
  have data: "length ?data = en_symbolSize e"
      "\<forall>j < en_symbolSize e. ?data ! j = gsum (\<lambda>i. gf_mul (coeff ! i) (en_source e ! i ! j)) ?k"
    using enc assms(2) by (simp_all add: encodeWith_def)
  have "gsum (\<lambda>i. gf_mul ((coeff @ ?data) ! i) (en_source e ! i ! j)) ?k =
      gsum (\<lambda>i. gf_mul (coeff ! i) (en_source e ! i ! j)) ?k" for j
    using assms(2) by (intro gsum_cong) (simp add: nth_append)
  moreover have "(coeff @ ?data) ! (?k + j) = ?data ! j" for j
    using assms(2) by (simp add: nth_append)
  moreover have "sy_Coeff (encodeWith e coeff) = coeff" by (simp add: encodeWith_def)
  ultimately show ?thesis using data assms(2) by (simp add: honest_def agrees_def)
qed

lemma combine_honest:
  assumes "\<forall>s \<in> set symbols. honest src sz s"
  shows "honest src sz (combine weights symbols (length src) sz)"
proof -
  define f :: "byte \<times> symbol \<Rightarrow> symbol \<Rightarrow> symbol" where "f = (\<lambda>(w, s) out. \<lparr>sy_Coeff = accumulate w (sy_Coeff s) (sy_Coeff out),
                           sy_Data = accumulate w (sy_Data s) (sy_Data out)\<rparr>)"
  have step: "honest src sz (f (w, s) out)" if "honest src sz s" "honest src sz out" for w s out
  proof (cases "w = 0")
    case False
    have len: "length (sy_Coeff s) = length src" "length (sy_Coeff out) = length src" "length (sy_Data s) = sz"
        "length (sy_Data out) = sz"
      using that honest_length by (simp_all add: honest_def)
    have "accumulate w (sy_Coeff s) (sy_Coeff out) @ accumulate w (sy_Data s) (sy_Data out) =
        addScaled (sy_Coeff out @ sy_Data out) (sy_Coeff s @ sy_Data s) w"
      using False len by (simp add: accumulate_def addScaled_def)
    with that agrees_addScaled len False show ?thesis
      by (simp add: honest_def f_def) (simp add: accumulate_def)
  qed (use that in \<open>simp add: f_def accumulate_def honest_def\<close>)
  have start: "honest src sz \<lparr>sy_Coeff = replicate (length src) 0, sy_Data = replicate sz 0\<rparr>"
  proof -
    have "gsum (\<lambda>i. gf_mul ((replicate (length src) 0 @ replicate sz 0) ! i) (src ! i ! j)) (length src) = gsum (\<lambda>i. 0) (length src)"
      for j by (intro gsum_cong) (simp add: nth_append)
    then show ?thesis by (simp add: honest_def agrees_def gsum_zero nth_append)
  qed
  have "honest src sz (fold f xs out)" if "\<forall>(w, s) \<in> set xs. honest src sz s" "honest src sz out" for xs out
    using that by (induction xs arbitrary: out) (auto simp: step)
  then show ?thesis
    using start assms unfolding combine_def f_def [symmetric] by (auto dest: set_zip_rightD)
qed

lemma sourceSymbol_alt:
  "sourceSymbol data sz i = map (\<lambda>m. if i * sz + m < length data then data ! (i * sz + m) else 0) [0..<sz]"
  by (rule nth_equalityI) (auto simp: sourceSymbol_def Let_def nth_append min_def)

lemma concat_symbols:
  "concat (map (sourceSymbol data sz) [0..<k]) = map (\<lambda>n. if n < length data then data ! n else 0) [0..<k * sz]"
proof (induction k)
  case (Suc k)
  have "[k * sz..<k * sz + sz] = map (\<lambda>m. k * sz + m) [0..<sz]"
    by (rule nth_equalityI) simp_all
  then have "[0..<Suc k * sz] = [0..<k * sz] @ map (\<lambda>m. k * sz + m) [0..<sz]"
    using upt_add_eq_append [of 0 "k * sz" sz] by (simp add: add.commute)
  with Suc show ?case by (simp add: sourceSymbol_alt)
qed simp

lemma NewEncoder_source:
  assumes "NewEncoder data sz = Inr e"
  shows "(\<forall>r \<in> set (en_source e). length r = en_symbolSize e) \<and> en_symbolSize e = nat sz \<and> 0 < en_symbolSize e \<and>
    0 < length (en_source e) \<and> length data \<le> length (en_source e) * en_symbolSize e \<and>
    en_original e = length data \<and> 0 < length data \<and> take (length data) (concat (en_source e)) = data"
proof -
  from assms have sz: "0 < nat sz" "0 < length data"
    and e: "e = \<lparr>en_source = map (sourceSymbol data (nat sz)) [0..<(length data + nat sz - 1) div nat sz],
      en_original = length data, en_symbolSize = nat sz\<rparr>"
    by (auto simp: NewEncoder_def Let_def split: if_splits)
  let ?k = "(length data + nat sz - 1) div nat sz"
  have "length data + nat sz - 1 < Suc ?k * nat sz"
    using sz(1) by (metis dividend_less_div_times mult.commute mult_Suc add.commute)
  then have cap: "length data \<le> ?k * nat sz" using sz unfolding mult_Suc by linarith
  then have "0 < ?k" using sz by (metis mult_is_0 not_gr_zero not_le)
  moreover have "take (length data) (concat (en_source e)) = data"
    using cap by (auto simp: e concat_symbols take_map intro!: nth_equalityI)
  ultimately show ?thesis using sz cap by (simp add: e sourceSymbol_alt)
qed

section \<open>Decoding\<close>

lemma decodeRows_ok:
  "\<forall>i < length rows. \<exists>r. rows ! i = Some r \<and> r ! (off + i) = 1 \<Longrightarrow>
     decodeRows k off rows = Inr (concat (map (\<lambda>r. drop k (the r)) rows))"
proof (induction rows arbitrary: off)
  case (Cons row rows)
  from Cons.prems obtain r where r: "row = Some r" "r ! off = 1" by (metis length_greater_0_conv list.simps(3)
      nth_Cons_0 add.right_neutral)
  have "\<forall>i < length rows. \<exists>r. rows ! i = Some r \<and> r ! (Suc off + i) = 1"
    using Cons.prems by fastforce
  from Cons.IH [OF this] r show ?case by simp
qed simp

lemma ready_pivots: "decoder_ok d \<Longrightarrow> Decoder_Ready d \<Longrightarrow> c < de_k d \<Longrightarrow> \<exists>r. de_basis d ! c = Some r"
proof -
  assume ok: "decoder_ok d" "Decoder_Ready d" and c: "c < de_k d"
  then have "card (pivots (de_basis d)) = de_k d" "length (de_basis d) = de_k d"
    by (simp_all add: decoder_ok_def Decoder_Ready_def rref_def)
  moreover have "pivots (de_basis d) \<subseteq> {..<length (de_basis d)}" by (auto simp: pivots_def)
  ultimately have "pivots (de_basis d) = {..<de_k d}" by (metis card_lessThan card_subset_eq finite_lessThan)
  with c show ?thesis by (auto simp: pivots_def)
qed

text \<open>Each row of a ready decoder that follows the source carries exactly one source symbol.\<close>

lemma ready_row:
  assumes "follows_source src sz d" and "Decoder_Ready d" and "\<forall>r \<in> set src. length r = sz" and "c < length src"
  shows "\<exists>r. de_basis d ! c = Some r \<and> r ! c = 1 \<and> drop (length src) r = src ! c"
proof -
  have ok: "decoder_ok d" and k: "de_k d = length src" "de_symbolSize d = sz"
    using assms(1) by (simp_all add: follows_source_def)
  have rr: "rref (length src) sz (de_basis d)" using ok k unfolding decoder_ok_def by simp
  have piv: "\<exists>r. de_basis d ! c' = Some r" if "c' < length src" for c'
    using ready_pivots [OF ok assms(2)] that k by simp
  from piv [OF assms(4)] obtain r where r: "de_basis d ! c = Some r" ..
  have row: "length r = length src + sz" "r ! c = 1" using rrefD(1) [OF rr assms(4) r] by simp_all
  have unit: "r ! i = (if i = c then 1 else 0)" if "i < length src" for i
    using rrefD(2) [OF rr assms(4) r that] row(2) piv [OF that] by auto
  have "r \<in> basis_rows (de_basis d)" using r rr assms(4) by (auto simp: basis_rows_nth rref_def)
  then have agr: "agrees src sz r" using assms(1) by (simp add: follows_source_def)
  have "r ! (length src + j) = src ! c ! j" if "j < sz" for j
  proof -
    have "gsum (\<lambda>i. gf_mul (r ! i) (src ! i ! j)) (length src) = gsum (\<lambda>i. if i = c then src ! c ! j else 0) (length src)"
      by (rule gsum_cong) (simp add: unit)
    also have "\<dots> = src ! c ! j" using assms(4) by (rule gsum_single)
    finally show ?thesis using agr that by (simp add: agrees_def)
  qed
  with row assms(3,4) have "drop (length src) r = src ! c" by (intro nth_equalityI) simp_all
  with r row show ?thesis by simp
qed

lemma Decode_source:
  assumes "follows_source src sz d" and "Decoder_Ready d" and "\<forall>r \<in> set src. length r = sz"
  shows "Decoder_Decode d = Inr (take (de_originalSize d) (concat src))"
proof -
  have k: "de_k d = length src" and len: "length (de_basis d) = length src"
    using assms(1) by (simp_all add: follows_source_def decoder_ok_def rref_def)
  have "\<forall>i < length (de_basis d). \<exists>r. de_basis d ! i = Some r \<and> r ! (0 + i) = 1"
    using ready_row [OF assms] len by fastforce
  note rows = decodeRows_ok [OF this, of "length src"]
  have "map (\<lambda>r. drop (length src) (the r)) (de_basis d) = src"
    using ready_row [OF assms] len by (intro nth_equalityI) fastforce+
  with rows assms(2) k show ?thesis by (simp add: Decoder_Decode_def)
qed

section \<open>When the decoder is ready\<close>

definition symbol_row :: "symbol \<Rightarrow> bytes" where
  "symbol_row s = sy_Coeff s @ sy_Data s"

definition spans :: "decoder \<Rightarrow> bytes set \<Rightarrow> bool" where
  "spans d R \<longleftrightarrow> R \<subseteq> row_span (de_k d + de_symbolSize d) (basis_rows (de_basis d))"

lemma zero_row:
  assumes "length r = n" and "\<forall>c < k. r ! c = 0" and "\<not> anyNonZero (drop k r)"
  shows "r = replicate n 0"
proof (rule nth_equalityI)
  fix i
  assume i: "i < length r"
  show "r ! i = replicate n 0 ! i"
  proof (cases "i < k")
    case False
    then have "r ! i = drop k r ! (i - k)" "i - k < length (drop k r)" using i by simp_all
    then have "r ! i \<in> set (drop k r)" by (metis nth_mem)
    with assms(3) i assms(1) show ?thesis by (auto simp: anyNonZero_def)
  qed (use assms i in simp)
qed (use assms(1) in simp)

text \<open>An accepted symbol, innovative or not, is in the span of the new basis, and nothing leaves it.\<close>

lemma Add_spans:
  assumes ok: "decoder_ok d" and "spans d R" and acc: "snd (Decoder_Add d s) = Inr b"
  shows "spans (fst (Decoder_Add d s)) (insert (symbol_row s) R)"
proof -
  have dims: "length (sy_Coeff s) = de_k d" "length (sy_Data s) = de_symbolSize d" "anyNonZero (sy_Coeff s)"
    using acc by (auto simp: Decoder_Add_def split: if_splits)
  have rr: "rref (de_k d) (de_symbolSize d) (de_basis d)" using ok by (simp add: decoder_ok_def)
  let ?n = "de_k d + de_symbolSize d" and ?r = "reduceRow (de_basis d) (de_k d) (sy_Coeff s @ sy_Data s)"
  have row': "length (sy_Coeff s @ sy_Data s) = ?n" using dims by simp
  show ?thesis
  proof (cases rule: Decoder_Add_cases [OF ok dims, case_names innovative redundant])
    case (innovative col row)
    let ?B = "add_pivot (de_basis d) col row"
    have rr': "rref (de_k d) (de_symbolSize d) ?B" by (rule add_pivot_rref [OF rr innovative(1,5,4,6)])
    note T = basis_rows_length [OF rr'] and span = add_pivot_span [OF rr rr' innovative(1,2,5)]
    have "addScaled (replicate ?n 0) row (?r ! col) \<in> row_span ?n (basis_rows ?B)"
      by (rule span_addScaled [OF T span(2) row_span.span_zero])
    moreover have "addScaled (replicate ?n 0) row (?r ! col) = ?r"
      by (subst (2) innovative(7), rule nth_equalityI) (use innovative(5) in \<open>simp_all add: gf_mul_commute\<close>)
    ultimately have "sy_Coeff s @ sy_Data s \<in> row_span ?n (basis_rows ?B)"
      using row_from_reduction [OF rr row' T span(1)] dims by simp
    with innovative(8) assms(2) span_mono [OF T span(1)] show ?thesis
      by (auto simp: spans_def symbol_row_def)
  next
    case redundant
    then have "\<not> anyNonZero (drop (de_k d) ?r)" using acc by (auto split: if_splits)
    then have "?r = replicate ?n 0"
      using redundant(1) by (intro zero_row [OF length_reduceRow [OF rr row']])
    then have "sy_Coeff s @ sy_Data s \<in> row_span ?n (basis_rows (de_basis d))"
      using row_from_reduction [OF rr row' basis_rows_length [OF rr]] span_base [OF basis_rows_length [OF rr]]
        row_span.span_zero by (metis subsetI)
    with redundant(2) assms(2) show ?thesis by (simp add: spans_def symbol_row_def)
  qed
qed

lemma spans_ready:
  assumes ok: "decoder_ok d" and sp: "spans d R" "\<forall>r \<in> R. length r = de_k d + de_symbolSize d"
    and all: "\<forall>c < de_k d. \<exists>v \<in> row_span (de_k d + de_symbolSize d) R. \<forall>i < de_k d. v ! i = (if i = c then 1 else 0)"
  shows "Decoder_Ready d"
proof -
  let ?n = "de_k d + de_symbolSize d"
  have rr: "rref (de_k d) (de_symbolSize d) (de_basis d)" using ok by (simp add: decoder_ok_def)
  have "de_basis d ! c \<noteq> None" if c: "c < de_k d" for c
  proof
    assume none: "de_basis d ! c = None"
    from all c obtain v where v: "v \<in> row_span ?n R" "\<forall>i < de_k d. v ! i = (if i = c then 1 else 0)" by blast
    have len: "length v = ?n" using span_length [OF sp(2) v(1)] .
    have "v \<in> row_span ?n (basis_rows (de_basis d))"
      using span_mono [OF basis_rows_length [OF rr] _ v(1)] sp(1) by (simp add: spans_def)
    from reduce_span [OF rr this] have "reduceRow (de_basis d) (de_k d) v = replicate ?n 0" .
    moreover have "reduceRow (de_basis d) (de_k d) v = v"
      using v(2) none len by (intro reduceRow_unchanged [OF rr]) auto
    ultimately have "v ! c = 0" using c by (metis nth_replicate trans_less_add1)
    with v(2) c show False by simp
  qed
  then have "pivots (de_basis d) = {..<de_k d}" using rr by (auto simp: pivots_def rref_def)
  with ok show ?thesis by (simp add: decoder_ok_def Decoder_Ready_def)
qed

section \<open>Symbols in circulation\<close>

text \<open>
  The symbols of a generation that peers hand around: drawn by the encoder, systematic, or re-encoded
  by a relay from symbols of the generation. Draws have the length the code asks \<^verbatim>\<open>rand.Read\<close> for.
\<close>

inductive coded :: "encoder \<Rightarrow> symbol \<Rightarrow> bool" for e :: encoder where
  drawn: "Encoder_Encode e draws = Some (Inr s) \<Longrightarrow> \<forall>coeff. Some coeff \<in> set draws \<longrightarrow> length coeff = Encoder_K e \<Longrightarrow> coded e s"
| systematic: "Systematic e i = Inr s \<Longrightarrow> coded e s"
| reencoded: "ReEncode ss draw = Inr s \<Longrightarrow> \<forall>x \<in> set ss. coded e x \<Longrightarrow> coded e s"

lemma Encode_cases:
  "Encoder_Encode e draws = Some (Inr s) \<Longrightarrow> \<exists>coeff. Some coeff \<in> set draws \<and> anyNonZero coeff \<and> s = encodeWith e coeff"
  by (induction e draws rule: Encoder_Encode.induct) (auto split: if_splits)

lemma reEncodeLoop_cases:
  "reEncodeLoop n ss k sz draw a = Inr s \<Longrightarrow> \<exists>weights. s = combine weights ss k sz \<and> anyNonZero (sy_Coeff s)"
  by (induction n arbitrary: a) (auto simp: Let_def split: option.splits if_splits)

lemma ReEncode_cases:
  assumes "ReEncode ss draw = Inr s"
  obtains first weights where "first \<in> set ss"
    "s = combine weights ss (length (sy_Coeff first)) (length (sy_Data first))" "anyNonZero (sy_Coeff s)"
  using assms that
  by (auto simp: ReEncode_def Let_def split: list.splits if_splits dest!: reEncodeLoop_cases)

lemma sy_Coeff_encodeWith [simp]: "sy_Coeff (encodeWith e coeff) = coeff"
  by (simp add: encodeWith_def)

lemma coded_honest:
  assumes "NewEncoder data sz = Inr e" and "coded e s"
  shows "honest (en_source e) (en_symbolSize e) s \<and> anyNonZero (sy_Coeff s)"
  using assms(2)
proof (induction rule: coded.induct)
  case (drawn draws s)
  from Encode_cases [OF drawn(1)] obtain coeff where
    c: "Some coeff \<in> set draws" "anyNonZero coeff" "s = encodeWith e coeff" by blast
  with drawn(2) have "length coeff = length (en_source e)" by (simp add: Encoder_K_def)
  then have "honest (en_source e) (en_symbolSize e) (encodeWith e coeff)"
    using encodeWith_honest NewEncoder_source [OF assms(1)] by blast
  with c show ?case by simp
next
  case (systematic i s)
  then have s: "s = encodeWith e ((replicate (Encoder_K e) 0)[nat i := 1])" "nat i < Encoder_K e"
    by (auto simp: Systematic_def split: if_splits)
  then have "anyNonZero ((replicate (Encoder_K e) 0)[nat i := 1])"
    unfolding anyNonZero_def by (intro bexI [of _ 1]) (simp_all add: set_update_memI)
  moreover have "honest (en_source e) (en_symbolSize e) (encodeWith e ((replicate (Encoder_K e) 0)[nat i := 1]))"
  proof (rule encodeWith_honest)
    show "\<forall>r \<in> set (en_source e). length r = en_symbolSize e" using NewEncoder_source [OF assms(1)] by blast
  qed (simp add: Encoder_K_def)
  ultimately show ?case using s by simp
next
  case (reencoded ss draw s)
  from reencoded(1) obtain first weights where f: "first \<in> set ss"
      "s = combine weights ss (length (sy_Coeff first)) (length (sy_Data first))" "anyNonZero (sy_Coeff s)"
    by (rule ReEncode_cases)
  with reencoded(2) have "honest (en_source e) (en_symbolSize e) first" by blast
  then have "length (sy_Coeff first) = length (en_source e)" "length (sy_Data first) = en_symbolSize e"
    using honest_length by (auto simp: honest_def)
  with f reencoded(2) combine_honest [of ss "en_source e" "en_symbolSize e" weights] show ?case by simp
qed

lemma NewDecoder_source:
  assumes "NewDecoder (int (length src)) sz n = Inr d"
  shows "follows_source src (nat sz) d \<and> spans d {} \<and> de_originalSize d = nat n"
  using assms NewDecoder_ok [OF assms]
  by (auto simp: NewDecoder_def follows_source_def spans_def basis_rows_def Let_def split: if_splits)

lemma Add_accepts:
  assumes "follows_source src sz d" and "honest src sz s" and "anyNonZero (sy_Coeff s)"
  shows "\<exists>b. snd (Decoder_Add d s) = Inr b"
proof -
  have dims: "decoder_ok d" "length (sy_Coeff s) = de_k d" "length (sy_Data s) = de_symbolSize d"
    using assms honest_length by (auto simp: follows_source_def honest_def)
  show ?thesis
    by (cases rule: Decoder_Add_cases [OF dims assms(3)]) (use Add_honest [OF assms(1,2)] in \<open>auto split: if_splits\<close>)
qed

lemma run_decoder:
  assumes "\<forall>s \<in> set ss. honest src sz s \<and> anyNonZero (sy_Coeff s)" and "follows_source src sz d" and "spans d R"
  defines "d' \<equiv> run_ops (\<lambda>d s. fst (Decoder_Add d s)) d ss"
  shows "follows_source src sz d' \<and> spans d' (symbol_row ` set ss \<union> R) \<and> de_originalSize d' = de_originalSize d"
  using assms(1-3) unfolding d'_def
proof (induction ss arbitrary: d R)
  case (Cons s ss)
  have add: "follows_source src sz (fst (Decoder_Add d s))" "\<exists>b. snd (Decoder_Add d s) = Inr b"
    using Add_honest Add_accepts Cons.prems by simp_all
  then have "spans (fst (Decoder_Add d s)) (insert (symbol_row s) R)"
    using Add_spans [OF _ Cons.prems(3)] Cons.prems(2) by (auto simp: follows_source_def)
  from Cons.IH [OF _ add(1) this] Cons.prems(1) show ?case by simp
qed simp

section \<open>Properties\<close>

text \<open>
  C11: What was encoded is what is decoded. Take any data the encoder accepts and any symbols of its
  generation, drawn, systematic or re-encoded by relays any number of times, in any order and with any
  repetitions. The decoder accepts each of them without error, and whenever it is ready it returns exactly the
  original bytes.
\<close>

theorem rlnc_roundtrip:
  assumes "NewEncoder data sz = Inr e" and "NewDecoder (int (Encoder_K e)) sz (int (length data)) = Inr d"
    and "\<forall>s \<in> set ss. coded e s" and "coded e s"
  shows "let d' = run_ops (\<lambda>d s. fst (Decoder_Add d s)) d ss in
    (\<exists>b. snd (Decoder_Add d' s) = Inr b) \<and> (Decoder_Ready d' \<longrightarrow> Decoder_Decode d' = Inr data)"
proof -
  let ?d = "run_ops (\<lambda>d s. fst (Decoder_Add d s)) d ss"
  note src = NewEncoder_source [OF assms(1)]
  note d = NewDecoder_source [OF assms(2) [unfolded Encoder_K_def]]
  have run: "follows_source (en_source e) (en_symbolSize e) ?d \<and> de_originalSize ?d = length data"
    using run_decoder [of ss "en_source e" "en_symbolSize e" d "{}"] d src assms(3) coded_honest [OF assms(1)] by auto
  have "\<exists>b. snd (Decoder_Add ?d s) = Inr b"
    using coded_honest [OF assms(1,4)] run Add_accepts by blast
  moreover have "Decoder_Ready ?d \<longrightarrow> Decoder_Decode ?d = Inr data"
    using Decode_source [of "en_source e" "en_symbolSize e" ?d] run src by simp
  ultimately show ?thesis by (simp add: Let_def)
qed

text \<open>
  C12: The decoder is ready as soon as it can be. If the received symbols generate every source symbol,
  that is, for each of them some combination of received rows has the unit coefficient vector, the decoder is
  ready and returns the data: no received information is lost by the elimination.
\<close>

theorem rlnc_complete:
  assumes "NewEncoder data sz = Inr e" and "NewDecoder (int (Encoder_K e)) sz (int (length data)) = Inr d"
    and "\<forall>s \<in> set ss. coded e s"
    and "\<forall>c < Encoder_K e. \<exists>v \<in> row_span (Encoder_K e + en_symbolSize e) (symbol_row ` set ss).
      \<forall>i < Encoder_K e. v ! i = (if i = c then 1 else 0)"
  shows "let d' = run_ops (\<lambda>d s. fst (Decoder_Add d s)) d ss in
    Decoder_Ready d' \<and> de_rank d' = Encoder_K e \<and> Decoder_Decode d' = Inr data"
proof -
  let ?d = "run_ops (\<lambda>d s. fst (Decoder_Add d s)) d ss"
  note src = NewEncoder_source [OF assms(1)]
  note d = NewDecoder_source [OF assms(2) [unfolded Encoder_K_def]]
  have honest: "\<forall>s \<in> set ss. honest (en_source e) (en_symbolSize e) s \<and> anyNonZero (sy_Coeff s)"
    using coded_honest [OF assms(1)] assms(3) by blast
  have run: "follows_source (en_source e) (en_symbolSize e) ?d" "spans ?d (symbol_row ` set ss)"
      "de_originalSize ?d = length data"
    using run_decoder [OF honest, of d "{}"] d src by auto
  have k: "de_k ?d = Encoder_K e" "de_symbolSize ?d = en_symbolSize e" "decoder_ok ?d"
    using run(1) by (simp_all add: follows_source_def Encoder_K_def)
  have "\<forall>r \<in> symbol_row ` set ss. length r = de_k ?d + de_symbolSize ?d"
    using honest k by (auto simp: symbol_row_def honest_def agrees_def Encoder_K_def)
  then have "Decoder_Ready ?d" using assms(4) k by (intro spans_ready [OF k(3) run(2)]) simp_all
  moreover from this have "Decoder_Decode ?d = Inr data"
    using Decode_source [OF run(1)] run src by simp
  ultimately show ?thesis using k by (simp add: Let_def Decoder_Ready_def)
qed

text \<open>One symbol of one byte: the smallest generation.\<close>

definition sample_encoder :: encoder where
  "sample_encoder = \<lparr>en_source = [[7]], en_original = 1, en_symbolSize = 1\<rparr>"

definition sample_decoder :: decoder where
  "sample_decoder = \<lparr>de_k = 1, de_symbolSize = 1, de_originalSize = 1, de_basis = [None], de_rank = 0\<rparr>"

lemma sample_generation:
  "NewEncoder [7] 1 = Inr sample_encoder" "Encoder_K sample_encoder = 1"
  "NewDecoder (int 1) 1 (int (length [7 :: byte])) = Inr sample_decoder"
  "Systematic sample_encoder 0 = Inr (encodeWith sample_encoder [1])"
  by (simp_all add: NewEncoder_def sample_encoder_def sourceSymbol_def Encoder_K_def NewDecoder_def
      sample_decoder_def Systematic_def Let_def)

theorem rlnc_roundtrip_witness:
  "coded sample_encoder (encodeWith sample_encoder [1]) \<and>
   (\<exists>b. snd (Decoder_Add sample_decoder (encodeWith sample_encoder [1])) = Inr b)"
proof -
  have c: "coded sample_encoder (encodeWith sample_encoder [1])" using sample_generation(4) by (rule coded.systematic)
  from rlnc_roundtrip [OF sample_generation(1) sample_generation(3) [folded sample_generation(2)], of "[]"] c
  show ?thesis by (simp add: Let_def)
qed

theorem rlnc_complete_witness:
  "\<exists>ss. (\<forall>s \<in> set ss. coded sample_encoder s) \<and>
     Decoder_Decode (run_ops (\<lambda>d s. fst (Decoder_Add d s)) sample_decoder ss) = Inr [7]"
proof -
  let ?s = "encodeWith sample_encoder [1]"
  have c: "\<forall>s \<in> set [?s]. coded sample_encoder s" using sample_generation(4) coded.systematic by simp
  have row: "symbol_row ?s = [1, 7]"
    by (simp add: symbol_row_def encodeWith_def sample_encoder_def accumulate_def gf_one_mul)
  have "addScaled (replicate 2 0) [1, 7] 1 \<in> row_span 2 {[1, 7]}"
    by (intro row_span.intros) simp
  then have "[1, 7] \<in> row_span 2 {[1, 7]}" by (simp add: addScaled_def numeral_2_eq_2)
  then have "\<forall>k < Encoder_K sample_encoder.
      \<exists>v \<in> row_span (Encoder_K sample_encoder + en_symbolSize sample_encoder) (symbol_row ` set [?s]).
        \<forall>i < Encoder_K sample_encoder. v ! i = (if i = k then 1 else 0)"
    using row by (simp add: sample_generation(2))
      (auto simp add: sample_encoder_def numeral_2_eq_2 intro!: bexI [of _ "[1, 7]"])
  from rlnc_complete [OF sample_generation(1) sample_generation(3) [folded sample_generation(2)] c this] c
  show ?thesis by (intro exI [of _ "[?s]"]) (simp add: Let_def)
qed

text \<open>
  The decoder's state stays well formed for any symbols at all, also hostile ones. The basis is in
  reduced row-echelon form, the rank is the number of its rows and never exceeds K, an addition reports true
  exactly when it raises the rank by one, and on an error the state is unchanged; the inverse the code takes
  never panics.
\<close>

theorem decoder_state_invariant:
  assumes "NewDecoder k sz n = Inr d0" and "d = run_ops (\<lambda>d s. fst (Decoder_Add d s)) d0 ss"
  shows "decoder_ok d \<and> de_rank d \<le> de_k d \<and> snd (Decoder_Add d s) \<noteq> Inl InversePanic \<and>
    (case Decoder_Add d s of
       (d', Inr True) \<Rightarrow> de_rank d' = Suc (de_rank d)
     | (d', _) \<Rightarrow> d' = d)"
proof -
  have ok: "decoder_ok d" using assms NewDecoder_ok decoder.run_inv by blast
  with decoder_ok_rank [OF ok] Decoder_Add_result [OF ok] show ?thesis by simp
qed

theorem decoder_state_invariant_witness:
  "decoder_ok sample_decoder \<and> de_rank sample_decoder \<le> de_k sample_decoder"
  using decoder_state_invariant [OF sample_generation(3), of sample_decoder "[]"] by simp

end
