(* ===== verification/Packet.thy ===== *)
theory Packet
  imports RlncDecoder
begin

text \<open>
  The fixed-size packet that carries one coded symbol, \<^verbatim>\<open>rlnc/packet.go\<close>: validation, the 504-byte wire
  form with random padding, parsing and re-encoding at a relay.
\<close>

definition PacketSize :: nat where "PacketSize = 504"
definition PacketHeaderSize :: nat where "PacketHeaderSize = 28"
definition packetMagic :: bytes where "packetMagic = bytes_of ''NRL'' @ [1]"

record packet =
  pk_Generation :: bytes
  pk_K :: int
  pk_SymbolSize :: int
  pk_OriginalSize :: int
  pk_Symbol :: symbol

datatype packet_error =
    PacketDimensions | ExceedsWireFields | DoesNotFit | OverGenerationCapacity | SymbolMismatch
  | ZeroVector | NilPadding | PaddingFailed | WrongPacketSize | BadMagic | ExceedsCell
  | NoPackets | IncompatibleGenerations | Coding rlnc_error

definition Packet_validate :: "packet \<Rightarrow> packet_error + unit" where
  "Packet_validate p =
     (if pk_K p \<le> 0 \<or> pk_SymbolSize p \<le> 0 \<or> pk_OriginalSize p \<le> 0 then Inl PacketDimensions
      else if pk_K p > 65535 \<or> pk_SymbolSize p > 65535 \<or> pk_OriginalSize p > 4294967295 then Inl ExceedsWireFields
      else if int PacketHeaderSize + pk_K p + pk_SymbolSize p > int PacketSize then Inl DoesNotFit
      else if pk_OriginalSize p > (pk_K p * pk_SymbolSize p) mod 2 ^ 64 then Inl OverGenerationCapacity
      else if int (length (sy_Coeff (pk_Symbol p))) \<noteq> pk_K p \<or> int (length (sy_Data (pk_Symbol p))) \<noteq> pk_SymbolSize p
        then Inl SymbolMismatch
      else if \<not> anyNonZero (sy_Coeff (pk_Symbol p)) then Inl ZeroVector
      else Inr ())"

definition NewPacket :: "bytes \<Rightarrow> int \<Rightarrow> int \<Rightarrow> int \<Rightarrow> symbol \<Rightarrow> packet_error + packet" where
  "NewPacket generation k symbolSize originalSize s =
     (let p = \<lparr>pk_Generation = generation, pk_K = k, pk_SymbolSize = symbolSize,
               pk_OriginalSize = originalSize, pk_Symbol = s\<rparr>
      in case Packet_validate p of Inl e \<Rightarrow> Inl e | Inr _ \<Rightarrow> Inr p)"

text \<open>
  The padding source is \<open>None\<close> for a nil reader; otherwise \<open>fill n\<close> is the outcome of
  \<^verbatim>\<open>io.ReadFull\<close> on \<open>n\<close> bytes.
\<close>

definition MarshalBinaryFrom :: "packet \<Rightarrow> (nat \<Rightarrow> bytes option) option \<Rightarrow> packet_error + bytes" where
  "MarshalBinaryFrom p random =
     (case Packet_validate p of
        Inl e \<Rightarrow> Inl e
      | Inr _ \<Rightarrow>
          (case random of
             None \<Rightarrow> Inl NilPadding
           | Some fill \<Rightarrow>
               let head = packetMagic @ pk_Generation p @ be16 (of_int (pk_K p)) @ be16 (of_int (pk_SymbolSize p))
                     @ be32 (of_int (pk_OriginalSize p)) @ sy_Coeff (pk_Symbol p) @ sy_Data (pk_Symbol p)
               in case fill (PacketSize - length head) of
                    None \<Rightarrow> Inl PaddingFailed
                  | Some padding \<Rightarrow> Inr (head @ padding)))"

definition ParsePacket :: "bytes \<Rightarrow> packet_error + packet" where
  "ParsePacket wire =
     (if length wire \<noteq> PacketSize then Inl WrongPacketSize
      else if slice 0 4 wire \<noteq> packetMagic then Inl BadMagic
      else let generation = slice 4 20 wire;
               k = unat (be_dec (slice 20 22 wire) :: u16);
               symbolSize = unat (be_dec (slice 22 24 wire) :: u16);
               originalSize = unat (be_dec (slice 24 28 wire) :: u32)
        in if PacketHeaderSize + k + symbolSize > length wire then Inl ExceedsCell
           else NewPacket generation (int k) (int symbolSize) (int originalSize)
                  \<lparr>sy_Coeff = slice 28 (28 + k) wire, sy_Data = slice (28 + k) (28 + k + symbolSize) wire\<rparr>)"

text \<open>The loop of \<^verbatim>\<open>ReEncodePackets\<close>: the first packet that does not fit ends it.\<close>

fun collectSymbols :: "packet \<Rightarrow> packet list \<Rightarrow> packet_error + symbol list" where
  "collectSymbols first [] = Inr []"
| "collectSymbols first (p # ps) =
     (if pk_Generation p \<noteq> pk_Generation first \<or> pk_K p \<noteq> pk_K first \<or> pk_SymbolSize p \<noteq> pk_SymbolSize first \<or>
         pk_OriginalSize p \<noteq> pk_OriginalSize first then Inl IncompatibleGenerations
      else case Packet_validate p of
             Inl e \<Rightarrow> Inl e
           | Inr _ \<Rightarrow> map_sum id (\<lambda>ss. pk_Symbol p # ss) (collectSymbols first ps))"

definition ReEncodePackets :: "packet list \<Rightarrow> (nat \<Rightarrow> bytes option) \<Rightarrow> packet_error + packet" where
  "ReEncodePackets packets draw =
     (case packets of
        [] \<Rightarrow> Inl NoPackets
      | first # _ \<Rightarrow>
          (case collectSymbols first packets of
             Inl e \<Rightarrow> Inl e
           | Inr symbols \<Rightarrow>
               (case ReEncode symbols draw of
                  Inl e \<Rightarrow> Inl (Coding e)
                | Inr s \<Rightarrow> NewPacket (pk_Generation first) (pk_K first) (pk_SymbolSize first) (pk_OriginalSize first) s)))"

section \<open>Validation and the wire form\<close>

lemma Packet_validateD:
  assumes "Packet_validate p = Inr ()"
  shows "0 < pk_K p" "0 < pk_SymbolSize p" "0 < pk_OriginalSize p" "pk_K p + pk_SymbolSize p \<le> 476"
    "pk_OriginalSize p \<le> 4294967295" "pk_OriginalSize p \<le> pk_K p * pk_SymbolSize p"
    "int (length (sy_Coeff (pk_Symbol p))) = pk_K p" "int (length (sy_Data (pk_Symbol p))) = pk_SymbolSize p"
    "anyNonZero (sy_Coeff (pk_Symbol p))"
proof -
  show dims: "0 < pk_K p" "0 < pk_SymbolSize p" "0 < pk_OriginalSize p" "pk_K p + pk_SymbolSize p \<le> 476"
    "pk_OriginalSize p \<le> 4294967295"
    "int (length (sy_Coeff (pk_Symbol p))) = pk_K p" "int (length (sy_Data (pk_Symbol p))) = pk_SymbolSize p"
    "anyNonZero (sy_Coeff (pk_Symbol p))"
    using assms by (auto simp: Packet_validate_def PacketSize_def PacketHeaderSize_def split: if_splits)
  have "(pk_K p * pk_SymbolSize p) mod 2 ^ 64 \<le> pk_K p * pk_SymbolSize p"
    using dims(1,2) by (intro zmod_le_nonneg_dividend) simp
  moreover have "pk_OriginalSize p \<le> (pk_K p * pk_SymbolSize p) mod 2 ^ 64"
    using assms by (auto simp: Packet_validate_def split: if_splits)
  ultimately show "pk_OriginalSize p \<le> pk_K p * pk_SymbolSize p" by simp
qed

lemma be16_read: "0 \<le> x \<Longrightarrow> x < 65536 \<Longrightarrow> int (unat (be_dec (be16 (of_int x)) :: u16)) = x"
  by (simp add: be_dec_enc unsigned_of_int take_bit_int_eq_self)

lemma be32_read: "0 \<le> x \<Longrightarrow> x < 4294967296 \<Longrightarrow> int (unat (be_dec (be32 (of_int x)) :: u32)) = x"
  by (simp add: be_dec_enc unsigned_of_int take_bit_int_eq_self)

text \<open>A wire image is parsed field by field, whatever the padding.\<close>

definition image :: "packet \<Rightarrow> bytes" where
  "image p = packetMagic @ pk_Generation p @ be16 (of_int (pk_K p)) @ be16 (of_int (pk_SymbolSize p))
     @ be32 (of_int (pk_OriginalSize p)) @ sy_Coeff (pk_Symbol p) @ sy_Data (pk_Symbol p)"

lemma length_packetMagic [simp]: "length packetMagic = 4"
  by (simp add: packetMagic_def)

lemma image_slices:
  assumes "length (pk_Generation p) = 16" and "length (sy_Coeff (pk_Symbol p)) = k" and "length (sy_Data (pk_Symbol p)) = s"
  shows "slice 0 4 (image p @ padding) = packetMagic" "slice 4 20 (image p @ padding) = pk_Generation p"
    "slice 20 22 (image p @ padding) = be16 (of_int (pk_K p))"
    "slice 22 24 (image p @ padding) = be16 (of_int (pk_SymbolSize p))"
    "slice 24 28 (image p @ padding) = be32 (of_int (pk_OriginalSize p))"
    "slice 28 (28 + k) (image p @ padding) = sy_Coeff (pk_Symbol p)"
    "slice (28 + k) (28 + k + s) (image p @ padding) = sy_Data (pk_Symbol p)"
    "length (image p) = 28 + k + s"
  using assms by (simp_all add: slice_def image_def)

lemma NewPacket_iff:
  "NewPacket g k s n y = Inr p \<longleftrightarrow>
     p = \<lparr>pk_Generation = g, pk_K = k, pk_SymbolSize = s, pk_OriginalSize = n, pk_Symbol = y\<rparr> \<and> Packet_validate p = Inr ()"
  by (auto simp: NewPacket_def Let_def split: sum.split)

lemma ParsePacket_image:
  assumes ok: "Packet_validate p = Inr ()" and gen: "length (pk_Generation p) = 16"
    and len: "length (image p @ padding) = PacketSize"
  shows "ParsePacket (image p @ padding) = Inr p"
proof -
  note v = Packet_validateD [OF ok]
  let ?k = "length (sy_Coeff (pk_Symbol p))" and ?s = "length (sy_Data (pk_Symbol p))"
  note im = image_slices [OF gen refl refl]
  have k: "unat (be_dec (be16 (of_int (pk_K p))) :: u16) = ?k"
    using be16_read [of "pk_K p"] v by linarith
  have s: "unat (be_dec (be16 (of_int (pk_SymbolSize p))) :: u16) = ?s"
    using be16_read [of "pk_SymbolSize p"] v by linarith
  have n: "int (unat (be_dec (be32 (of_int (pk_OriginalSize p))) :: u32)) = pk_OriginalSize p"
    using be32_read [of "pk_OriginalSize p"] v by linarith
  have small: "\<not> PacketHeaderSize + ?k + ?s > PacketSize"
    using v by (simp add: PacketHeaderSize_def PacketSize_def)
  have "ParsePacket (image p @ padding) =
      NewPacket (pk_Generation p) (int ?k) (int ?s) (pk_OriginalSize p)
        \<lparr>sy_Coeff = sy_Coeff (pk_Symbol p), sy_Data = sy_Data (pk_Symbol p)\<rparr>"
    unfolding ParsePacket_def Let_def im k s n len using small im by simp
  also have "\<dots> = Inr p" unfolding NewPacket_iff using ok v by (intro conjI packet.equality symbol.equality) simp_all
  finally show ?thesis .
qed

lemma MarshalBinaryFrom_iff:
  "MarshalBinaryFrom p (Some fill) = Inr wire \<longleftrightarrow> Packet_validate p = Inr () \<and>
     (\<exists>padding. fill (PacketSize - length (image p)) = Some padding \<and> wire = image p @ padding)"
  by (auto simp: MarshalBinaryFrom_def image_def Let_def split: sum.split option.split)

lemma ParsePacket_inverse:
  assumes "ParsePacket wire = Inr p"
  shows "Packet_validate p = Inr () \<and> length (pk_Generation p) = 16 \<and> length wire = PacketSize \<and>
    (\<exists>padding. wire = image p @ padding)"
proof -
  let ?k = "unat (be_dec (slice 20 22 wire) :: u16)" and ?s = "unat (be_dec (slice 22 24 wire) :: u16)"
    and ?n = "unat (be_dec (slice 24 28 wire) :: u32)"
  have len: "length wire = 504" and magic: "slice 0 4 wire = packetMagic" and fit: "28 + ?k + ?s \<le> 504"
    and new: "NewPacket (slice 4 20 wire) (int ?k) (int ?s) (int ?n)
      \<lparr>sy_Coeff = slice 28 (28 + ?k) wire, sy_Data = slice (28 + ?k) (28 + ?k + ?s) wire\<rparr> = Inr p"
    using assms by (auto simp: ParsePacket_def PacketSize_def PacketHeaderSize_def Let_def split: if_splits)
  have b: "be16 (of_nat ?k) = slice 20 22 wire" "be16 (of_nat ?s) = slice 22 24 wire" "be32 (of_nat ?n) = slice 24 28 wire"
    using be_enc_dec [of "slice 20 22 wire", where ?'a = 16] be_enc_dec [of "slice 22 24 wire", where ?'a = 16]
      be_enc_dec [of "slice 24 28 wire", where ?'a = 32] len by simp_all
  have cat: "take 4 wire @ slice 4 20 wire = take 20 wire" "take 20 wire @ slice 20 22 wire = take 22 wire"
    "take 22 wire @ slice 22 24 wire = take 24 wire" "take 24 wire @ slice 24 28 wire = take 28 wire"
    "take 28 wire @ slice 28 (28 + ?k) wire = take (28 + ?k) wire"
    "take (28 + ?k) wire @ slice (28 + ?k) (28 + ?k + ?s) wire = take (28 + ?k + ?s) wire"
    using len fit by (intro slices_append; simp)+
  have "image p = ((((((take 4 wire @ slice 4 20 wire) @ slice 20 22 wire) @ slice 22 24 wire) @ slice 24 28 wire)
      @ slice 28 (28 + ?k) wire) @ slice (28 + ?k) (28 + ?k + ?s) wire)"
    using new magic [symmetric] b by (simp add: image_def NewPacket_iff slice_def)
  then have "image p = take (28 + ?k + ?s) wire" by (simp only: cat)
  then have "wire = image p @ drop (28 + ?k + ?s) wire" by simp
  then show ?thesis using new len by (auto simp: NewPacket_iff PacketSize_def)
qed

section \<open>Relays\<close>

lemma collectSymbols_Inr:
  assumes "collectSymbols first ps = Inr ss"
  shows "ss = map pk_Symbol ps \<and> (\<forall>p \<in> set ps. Packet_validate p = Inr () \<and> pk_K p = pk_K first \<and>
    pk_SymbolSize p = pk_SymbolSize first \<and> pk_OriginalSize p = pk_OriginalSize first \<and>
    pk_Generation p = pk_Generation first)"
  using assms
proof (induction ps arbitrary: ss)
  case (Cons p ps)
  then show ?case
    by (cases "collectSymbols first ps") (auto split: if_splits sum.splits)
qed simp

section \<open>Properties\<close>

text \<open>
  The wire form is faithful. A packet the code accepts marshals to exactly 504 bytes from any padding
  source that fills its buffer, and parsing those bytes gives back the packet, whatever the padding was. In the
  other direction every accepted wire image is the image of the packet it parses to: marshalling that packet
  with the image's own padding reproduces the bytes.
\<close>

theorem packet_roundtrip:
  assumes "\<And>n. \<exists>padding. fill n = Some padding \<and> length padding = n"
  shows "(Packet_validate p = Inr () \<and> length (pk_Generation p) = 16 \<longrightarrow>
      (\<exists>wire. MarshalBinaryFrom p (Some fill) = Inr wire \<and> length wire = PacketSize \<and> ParsePacket wire = Inr p)) \<and>
    (ParsePacket wire' = Inr q \<longrightarrow> Packet_validate q = Inr () \<and>
      MarshalBinaryFrom q (Some (\<lambda>n. Some (drop (PacketSize - n) wire'))) = Inr wire')"
proof (intro conjI impI)
  assume p: "Packet_validate p = Inr () \<and> length (pk_Generation p) = 16"
  note v = Packet_validateD [OF p [THEN conjunct1]]
  have "length (image p) \<le> PacketSize"
    using image_slices(8) [OF p [THEN conjunct2] refl refl] v by (simp add: PacketSize_def)
  moreover obtain padding where "fill (PacketSize - length (image p)) = Some padding"
      "length padding = PacketSize - length (image p)" using assms by blast
  ultimately show "\<exists>wire. MarshalBinaryFrom p (Some fill) = Inr wire \<and> length wire = PacketSize \<and> ParsePacket wire = Inr p"
    using p ParsePacket_image [of p padding] by (intro exI [of _ "image p @ padding"]) (simp add: MarshalBinaryFrom_iff)
next
  assume q: "ParsePacket wire' = Inr q"
  then show "Packet_validate q = Inr ()" using ParsePacket_inverse by blast
  from ParsePacket_inverse [OF q] obtain padding where w: "wire' = image q @ padding" "length wire' = PacketSize" by blast
  have "length (image q) \<le> PacketSize" using arg_cong [OF w(1), of length] w(2) by simp
  then have "drop (PacketSize - (PacketSize - length (image q))) wire' = padding" using w(1) by simp
  then show "MarshalBinaryFrom q (Some (\<lambda>n. Some (drop (PacketSize - n) wire'))) = Inr wire'"
    using \<open>Packet_validate q = Inr ()\<close> w(1) by (simp add: MarshalBinaryFrom_iff)
qed

text \<open>
  A relay keeps the generation. A packet that re-encoding produces has the dimensions and the
  generation of its inputs, is valid, and if all inputs carry symbols of one encoder's generation then so does
  the output. A refused input, one of another generation or an invalid one, is an error and produces nothing.
\<close>

theorem relay_keeps_generation:
  assumes "ReEncodePackets (first # ps) draw = Inr out"
  shows "Packet_validate out = Inr () \<and> pk_Generation out = pk_Generation first \<and> pk_K out = pk_K first \<and>
    pk_SymbolSize out = pk_SymbolSize first \<and> pk_OriginalSize out = pk_OriginalSize first \<and>
    (\<forall>p \<in> set ps. pk_Generation p = pk_Generation first \<and> Packet_validate p = Inr ()) \<and>
    ((\<forall>p \<in> set (first # ps). coded e (pk_Symbol p)) \<longrightarrow> coded e (pk_Symbol out))"
proof -
  obtain ss s where c: "collectSymbols first (first # ps) = Inr ss" and s: "ReEncode ss draw = Inr s"
    and new: "NewPacket (pk_Generation first) (pk_K first) (pk_SymbolSize first) (pk_OriginalSize first) s = Inr out"
    using assms by (auto simp: ReEncodePackets_def simp del: collectSymbols.simps split: sum.splits)
  note syms = collectSymbols_Inr [OF c]
  have "coded e s" if "\<forall>p \<in> set (first # ps). coded e (pk_Symbol p)"
    using s by (rule coded.reencoded) (use syms that in auto)
  moreover have "pk_Symbol out = s" "Packet_validate out = Inr ()" "pk_Generation out = pk_Generation first"
      "pk_K out = pk_K first" "pk_SymbolSize out = pk_SymbolSize first" "pk_OriginalSize out = pk_OriginalSize first"
    using new [unfolded NewPacket_iff] by auto
  moreover have "\<forall>p \<in> set ps. pk_Generation p = pk_Generation first \<and> Packet_validate p = Inr ()"
    using syms [THEN conjunct2] by (meson list.set_intros(2))
  ultimately show ?thesis by blast
qed

definition sample_packet :: packet where
  "sample_packet = \<lparr>pk_Generation = replicate 16 0, pk_K = 1, pk_SymbolSize = 1, pk_OriginalSize = 1,
     pk_Symbol = encodeWith sample_encoder [1]\<rparr>"

lemma sample_symbol: "encodeWith sample_encoder [1] = \<lparr>sy_Coeff = [1], sy_Data = [7]\<rparr>"
  by (simp add: encodeWith_def sample_encoder_def accumulate_def gf_one_mul)

lemma sample_packet_ok: "Packet_validate sample_packet = Inr ()"
  by (simp add: Packet_validate_def sample_packet_def sample_symbol PacketHeaderSize_def PacketSize_def anyNonZero_def)

theorem packet_roundtrip_witness:
  "\<exists>wire. MarshalBinaryFrom sample_packet (Some (\<lambda>n. Some (replicate n 9))) = Inr wire \<and>
     length wire = PacketSize \<and> ParsePacket wire = Inr sample_packet"
proof -
  have "\<exists>padding. Some (replicate n (9 :: byte)) = Some padding \<and> length padding = n" for n by simp
  from packet_roundtrip [of "\<lambda>n. Some (replicate n 9)" sample_packet, OF this] sample_packet_ok
  show ?thesis by (simp add: sample_packet_def)
qed

lemma sample_relay: "ReEncodePackets [sample_packet] (\<lambda>n. Some [1]) = Inr sample_packet"
proof -
  have "reEncodeLoop 64 [pk_Symbol sample_packet] 1 1 (\<lambda>n. Some [1]) 0 = Inr (pk_Symbol sample_packet)"
    by (simp add: numeral_eq_Suc combine_def sample_packet_def sample_symbol accumulate_def gf_one_mul anyNonZero_def Let_def)
  then have "ReEncode [pk_Symbol sample_packet] (\<lambda>n. Some [1]) = Inr (pk_Symbol sample_packet)"
    by (simp add: ReEncode_def sample_packet_def sample_symbol anyNonZero_def)
  with sample_packet_ok show ?thesis
    by (simp add: ReEncodePackets_def NewPacket_iff)
qed

theorem relay_keeps_generation_witness:
  "coded sample_encoder (pk_Symbol sample_packet) \<and> Packet_validate sample_packet = Inr ()"
  using relay_keeps_generation [OF sample_relay, of sample_encoder] coded.systematic [OF sample_generation(4)]
  by (simp add: sample_packet_def)

end
