(* ===== verification/Bounded.thy ===== *)
theory Bounded
  imports RlncDecoder "HOL-Library.Sublist"
begin

text \<open>
  The decoder with enforced budgets, \<^verbatim>\<open>rlnc/bounded.go\<close>: limits, commitments to the source symbols,
  admission with accounting, and termination of a generation that exceeds a budget. It refines the plain
  decoder: while it has not failed its inner state is the plain decoder's after the admitted symbols.
\<close>

section \<open>Limits and commitments\<close>

record limits =
  MaxSymbols :: int
  MaxBytes :: int
  MaxRankAttempts :: int
  MaxWorkUnits :: int
  MaxMemoryBytes :: int
  Lifetime :: duration

datatype budget = SymbolCount | ByteCount | RankAttempts | EliminationWork | BasisMemory

datatype bounded_error =
    BudgetExhausted budget | GenerationExpired | CommitmentMismatch | SymbolDimensions
  | LimitNotPositive | CommitmentsCover | Inner rlnc_error | NilMapPanic

definition DefaultLimits :: "int \<Rightarrow> int \<Rightarrow> limits" where
  "DefaultLimits k symbolSize =
     (let overheadFactor = 4; rowWidth = int64 (k + symbolSize) in
      \<lparr>MaxSymbols = int64 (overheadFactor * k),
       MaxBytes = int64 (int64 (overheadFactor * k) * rowWidth),
       MaxRankAttempts = int64 (overheadFactor * k),
       MaxWorkUnits = int64 (int64 (int64 (overheadFactor * k) * k) * rowWidth),
       MaxMemoryBytes = int64 (k * rowWidth),
       Lifetime = 5 * minute\<rparr>)"

definition Limits_validate :: "limits \<Rightarrow> bounded_error + unit" where
  "Limits_validate l =
     (if MaxSymbols l \<le> 0 \<or> MaxBytes l \<le> 0 \<or> MaxRankAttempts l \<le> 0 \<or>
         MaxWorkUnits l \<le> 0 \<or> MaxMemoryBytes l \<le> 0 \<or> Lifetime l \<le> 0 then Inl LimitNotPositive
      else Inr ())"

definition commitmentMessage :: "nat \<Rightarrow> bytes \<Rightarrow> bytes" where
  "commitmentMessage index data = bytes_of ''nomad-rlnc-source-commitment-v1'' @ be32 (of_nat index) @ data"

definition commitSymbol :: "crypto \<Rightarrow> nat \<Rightarrow> bytes \<Rightarrow> bytes" where
  "commitSymbol c index data = sha256 c (commitmentMessage index data)"

definition CommitSource :: "crypto \<Rightarrow> bytes list \<Rightarrow> bytes list" where
  "CommitSource c sources = map (\<lambda>(index, source). commitSymbol c index source) (enumerate 0 sources)"

definition Encoder_SourceCommitments :: "crypto \<Rightarrow> encoder \<Rightarrow> bytes list" where
  "Encoder_SourceCommitments c e = CommitSource c (en_source e)"

text \<open>The loop of \<^verbatim>\<open>systematicIndex\<close>; \<open>None\<close> stands for \<open>-1\<close>.\<close>

fun systematicLoop :: "nat option \<Rightarrow> nat \<Rightarrow> bytes \<Rightarrow> nat option" where
  "systematicLoop found index [] = found"
| "systematicLoop found index (v # vs) =
     (if v = 0 then systematicLoop found (Suc index) vs
      else if found \<noteq> None \<or> v \<noteq> 1 then None
      else systematicLoop (Some index) (Suc index) vs)"

definition systematicIndex :: "bytes \<Rightarrow> nat option" where
  "systematicIndex coeff = systematicLoop None 0 coeff"

section \<open>The bounded decoder\<close>

record bounded =
  bd_decoder :: decoder
  bd_limits :: limits
  bd_commitments :: "bytes list option"
  bd_deadline :: instant
  bd_symbols :: int
  bd_bytes :: int
  bd_attempts :: int
  bd_work :: int
  bd_memory :: int
  bd_seen :: "bytes set option"
  bd_failed :: "bounded_error option"
  bd_rejected :: int
  bd_duplicate :: int

definition NewBoundedDecoder ::
  "int \<Rightarrow> int \<Rightarrow> int \<Rightarrow> limits \<Rightarrow> bytes list option \<Rightarrow> instant \<Rightarrow> bounded_error + bounded" where
  "NewBoundedDecoder k symbolSize originalSize l commitments now =
     (case Limits_validate l of
        Inl e \<Rightarrow> Inl e
      | Inr _ \<Rightarrow>
          if (case commitments of None \<Rightarrow> False | Some cs \<Rightarrow> int (length cs) \<noteq> k) then Inl CommitmentsCover
          else case NewDecoder k symbolSize originalSize of
                 Inl e \<Rightarrow> Inl (Inner e)
               | Inr d \<Rightarrow> Inr \<lparr>bd_decoder = d, bd_limits = l, bd_commitments = commitments,
                   bd_deadline = now + Lifetime l, bd_symbols = 0, bd_bytes = 0, bd_attempts = 0, bd_work = 0,
                   bd_memory = 0, bd_seen = Some {}, bd_failed = None, bd_rejected = 0, bd_duplicate = 0\<rparr>)"

record stats =
  st_Symbols :: int
  st_Bytes :: int
  st_Attempts :: int
  st_WorkUnits :: int
  st_MemoryUsed :: int
  st_Rejected :: int
  st_Duplicates :: int
  st_Rank :: nat

definition Bounded_Stats :: "bounded \<Rightarrow> stats" where
  "Bounded_Stats b = \<lparr>st_Symbols = bd_symbols b, st_Bytes = bd_bytes b, st_Attempts = bd_attempts b,
     st_WorkUnits = bd_work b, st_MemoryUsed = bd_memory b, st_Rejected = bd_rejected b,
     st_Duplicates = bd_duplicate b, st_Rank = de_rank (bd_decoder b)\<rparr>"

definition Bounded_Ready :: "bounded \<Rightarrow> bool" where
  "Bounded_Ready b \<longleftrightarrow> Decoder_Ready (bd_decoder b)"

definition Bounded_fail :: "bounded \<Rightarrow> bounded_error \<Rightarrow> bounded" where
  "Bounded_fail b e =
     (if bd_failed b = None then
        b\<lparr>bd_failed := Some e, bd_decoder := (bd_decoder b)\<lparr>de_basis := [], de_rank := 0\<rparr>,
          bd_seen := None, bd_memory := 0\<rparr>
      else b)"

text \<open>The check of a systematic symbol against its commitment.\<close>

definition preAdmission :: "crypto \<Rightarrow> bounded \<Rightarrow> symbol \<Rightarrow> bool" where
  "preAdmission c b s =
     (case bd_commitments b of
        None \<Rightarrow> True
      | Some cs \<Rightarrow>
          (case systematicIndex (sy_Coeff s) of
             None \<Rightarrow> True
           | Some index \<Rightarrow> cs ! index = commitSymbol c index (sy_Data s)))"

definition symbolBytes :: "symbol \<Rightarrow> int" where
  "symbolBytes s = int64 (int (length (sy_Coeff s)) + int (length (sy_Data s)))"

definition fingerprint :: "crypto \<Rightarrow> symbol \<Rightarrow> bytes" where
  "fingerprint c s = sha256 c (sy_Coeff s @ sy_Data s)"

definition rowWidth :: "bounded \<Rightarrow> int" where
  "rowWidth b = int64 (int (de_k (bd_decoder b)) + int (de_symbolSize (bd_decoder b)))"

definition projected :: "bounded \<Rightarrow> int" where
  "projected b = int64 ((int (de_rank (bd_decoder b)) + 1) * rowWidth b)"

text \<open>The last part of \<^verbatim>\<open>Add\<close>: charge the budgets and hand the symbol to the decoder.\<close>

definition admit :: "crypto \<Rightarrow> bounded \<Rightarrow> symbol \<Rightarrow> bounded \<times> (bounded_error + bool)" where
  "admit c b s =
     (case bd_seen b of
        None \<Rightarrow> (b, Inl NilMapPanic)
      | Some seen \<Rightarrow>
          let b1 = b\<lparr>bd_seen := Some (insert (fingerprint c s) seen),
                bd_symbols := int64 (bd_symbols b + 1),
                bd_bytes := int64 (bd_bytes b + symbolBytes s),
                bd_attempts := int64 (bd_attempts b + 1),
                bd_work := int64 (bd_work b + projected b)\<rparr>
          in case Decoder_Add (bd_decoder b) s of
               (d, Inl e) \<Rightarrow> (b1\<lparr>bd_decoder := d, bd_rejected := int64 (bd_rejected b + 1)\<rparr>, Inl (Inner e))
             | (d, Inr innovative) \<Rightarrow>
                 (b1\<lparr>bd_decoder := d,
                     bd_memory := (if innovative then int64 (bd_memory b + rowWidth b) else bd_memory b)\<rparr>, Inr innovative))"

definition Bounded_Add :: "crypto \<Rightarrow> bounded \<Rightarrow> symbol \<Rightarrow> instant \<Rightarrow> bounded \<times> (bounded_error + bool)" where
  "Bounded_Add c b s now =
     (let end = (\<lambda>e. (Bounded_fail b e, Inl e));
          l = bd_limits b
      in case bd_failed b of
        Some e \<Rightarrow> (b, Inl e)
      | None \<Rightarrow>
          if \<not> now < bd_deadline b then end GenerationExpired
          else if length (sy_Coeff s) \<noteq> de_k (bd_decoder b) \<or> length (sy_Data s) \<noteq> de_symbolSize (bd_decoder b)
            then (b\<lparr>bd_rejected := int64 (bd_rejected b + 1)\<rparr>, Inl SymbolDimensions)
          else if (case bd_seen b of None \<Rightarrow> False | Some seen \<Rightarrow> fingerprint c s \<in> seen)
            then (b\<lparr>bd_duplicate := int64 (bd_duplicate b + 1)\<rparr>, Inr False)
          else if int64 (bd_symbols b + 1) > MaxSymbols l then end (BudgetExhausted SymbolCount)
          else if int64 (bd_bytes b + symbolBytes s) > MaxBytes l then end (BudgetExhausted ByteCount)
          else if int64 (bd_attempts b + 1) > MaxRankAttempts l then end (BudgetExhausted RankAttempts)
          else if \<not> preAdmission c b s
            then (b\<lparr>bd_rejected := int64 (bd_rejected b + 1)\<rparr>, Inl CommitmentMismatch)
          else if int64 (bd_work b + projected b) > MaxWorkUnits l then end (BudgetExhausted EliminationWork)
          else if \<not> Decoder_Ready (bd_decoder b) \<and> int64 (bd_memory b + rowWidth b) > MaxMemoryBytes l
            then end (BudgetExhausted BasisMemory)
          else admit c b s)"

definition Bounded_Decode :: "bounded \<Rightarrow> bounded_error + bytes" where
  "Bounded_Decode b =
     (case bd_failed b of
        Some e \<Rightarrow> Inl e
      | None \<Rightarrow> map_sum Inner id (Decoder_Decode (bd_decoder b)))"

section \<open>Invariant\<close>

text \<open>
  The limits are far enough from the machine's largest integer that no counter wraps before its check. The
  default limits for a generation that fits a packet satisfy this by a wide margin.
\<close>

definition limits_fit :: "bounded \<Rightarrow> bool" where
  "limits_fit b \<longleftrightarrow>
     (let rw = int (de_k (bd_decoder b)) + int (de_symbolSize (bd_decoder b)); l = bd_limits b in
      rw < 2 ^ 63 \<and> MaxSymbols l + 1 < 2 ^ 63 \<and> MaxRankAttempts l + 1 < 2 ^ 63 \<and> MaxBytes l + rw < 2 ^ 63 \<and>
      MaxWorkUnits l + (int (de_k (bd_decoder b)) + 1) * rw < 2 ^ 63 \<and> MaxMemoryBytes l + rw < 2 ^ 63)"

definition live_ok :: "bounded \<Rightarrow> bool" where
  "live_ok b \<longleftrightarrow>
     (let d = bd_decoder b; rw = int (de_k d) + int (de_symbolSize d) in
      decoder_ok d \<and> bd_memory b = int (de_rank d) * rw \<and> bd_memory b \<le> MaxMemoryBytes (bd_limits b) \<and>
      (\<exists>seen. bd_seen b = Some seen \<and> finite seen \<and> int (card seen) \<le> bd_symbols b) \<and>
      (de_rank d < de_k d \<longrightarrow> bd_work b \<le> bd_symbols b * (int (de_k d) * rw)))"

definition terminal_errors :: "bounded_error set" where
  "terminal_errors = range BudgetExhausted \<union> {GenerationExpired}"

definition bounded_ok :: "bounded \<Rightarrow> bool" where
  "bounded_ok b \<longleftrightarrow>
     (let d = bd_decoder b; rw = int (de_k d) + int (de_symbolSize d); l = bd_limits b in
      limits_fit b \<and> 0 \<le> bd_symbols b \<and> bd_symbols b \<le> MaxSymbols l \<and> bd_attempts b = bd_symbols b \<and>
      bd_attempts b \<le> MaxRankAttempts l \<and> bd_bytes b = bd_symbols b * rw \<and> bd_bytes b \<le> MaxBytes l \<and>
      0 \<le> bd_work b \<and> bd_work b \<le> MaxWorkUnits l \<and> 0 < MaxMemoryBytes l \<and>
      (\<forall>cs. bd_commitments b = Some cs \<longrightarrow> length cs = de_k d) \<and>
      (if bd_failed b = None then live_ok b
       else the (bd_failed b) \<in> terminal_errors \<and> de_basis d = [] \<and> de_rank d = 0 \<and> bd_memory b = 0 \<and> bd_seen b = None))"

text \<open>The ways an offered symbol can end.\<close>

lemma Bounded_Add_cases:
  obtains (dead) e where "bd_failed b = Some e" "Bounded_Add c b s now = (b, Inl e)"
  | (ended) e where "bd_failed b = None" "Bounded_Add c b s now = (Bounded_fail b e, Inl e)"
      "e \<in> terminal_errors"
  | (rejected) e where "bd_failed b = None" "Bounded_Add c b s now = (b\<lparr>bd_rejected := int64 (bd_rejected b + 1)\<rparr>, Inl e)"
      "e \<in> {SymbolDimensions, CommitmentMismatch}"
  | (duplicate) "bd_failed b = None" "Bounded_Add c b s now = (b\<lparr>bd_duplicate := int64 (bd_duplicate b + 1)\<rparr>, Inr False)"
      "\<exists>seen. bd_seen b = Some seen \<and> fingerprint c s \<in> seen"
  | (admitted) "bd_failed b = None" "Bounded_Add c b s now = admit c b s" "now < bd_deadline b"
      "length (sy_Coeff s) = de_k (bd_decoder b)" "length (sy_Data s) = de_symbolSize (bd_decoder b)"
      "preAdmission c b s" "int64 (bd_symbols b + 1) \<le> MaxSymbols (bd_limits b)"
      "int64 (bd_bytes b + symbolBytes s) \<le> MaxBytes (bd_limits b)"
      "int64 (bd_attempts b + 1) \<le> MaxRankAttempts (bd_limits b)"
      "int64 (bd_work b + projected b) \<le> MaxWorkUnits (bd_limits b)"
      "Decoder_Ready (bd_decoder b) \<or> int64 (bd_memory b + rowWidth b) \<le> MaxMemoryBytes (bd_limits b)"
      "\<not> (\<exists>seen. bd_seen b = Some seen \<and> fingerprint c s \<in> seen)"
proof (cases "bd_failed b")
  case (Some e)
  then show thesis using dead by (simp add: Bounded_Add_def)
next
  case None
  note def = Bounded_Add_def [of c b s now, unfolded Let_def None option.case]
  show thesis
    apply (cases "\<not> now < bd_deadline b")
     apply (rule ended [OF None, of "GenerationExpired"]; simp add: def terminal_errors_def)
    apply (cases "length (sy_Coeff s) \<noteq> de_k (bd_decoder b) \<or> length (sy_Data s) \<noteq> de_symbolSize (bd_decoder b)")
     apply (rule rejected [OF None, of "SymbolDimensions"]; simp add: def terminal_errors_def)
    apply (cases "case bd_seen b of None \<Rightarrow> False | Some seen \<Rightarrow> fingerprint c s \<in> seen")
     apply (rule duplicate [OF None]; simp add: def split: option.splits)
    apply (cases "int64 (bd_symbols b + 1) > MaxSymbols (bd_limits b)")
     apply (rule ended [OF None, of "BudgetExhausted SymbolCount"]; simp add: def terminal_errors_def)
    apply (cases "int64 (bd_bytes b + symbolBytes s) > MaxBytes (bd_limits b)")
     apply (rule ended [OF None, of "BudgetExhausted ByteCount"]; simp add: def terminal_errors_def)
    apply (cases "int64 (bd_attempts b + 1) > MaxRankAttempts (bd_limits b)")
     apply (rule ended [OF None, of "BudgetExhausted RankAttempts"]; simp add: def terminal_errors_def)
    apply (cases "\<not> preAdmission c b s")
     apply (rule rejected [OF None, of "CommitmentMismatch"]; simp add: def terminal_errors_def)
    apply (cases "int64 (bd_work b + projected b) > MaxWorkUnits (bd_limits b)")
     apply (rule ended [OF None, of "BudgetExhausted EliminationWork"]; simp add: def terminal_errors_def)
    apply (cases "\<not> Decoder_Ready (bd_decoder b) \<and> int64 (bd_memory b + rowWidth b) > MaxMemoryBytes (bd_limits b)")
     apply (rule ended [OF None, of "BudgetExhausted BasisMemory"]; simp add: def terminal_errors_def)
    by (rule admitted [OF None]) (auto simp add: def not_less split: option.splits)
qed

lemma bounded_ok_arith:
  assumes "bounded_ok b" and "bd_failed b = None"
  defines "d \<equiv> bd_decoder b" and "rw \<equiv> int (de_k (bd_decoder b)) + int (de_symbolSize (bd_decoder b))"
  shows "rowWidth b = rw" "projected b = (int (de_rank d) + 1) * rw"
    "int64 (bd_symbols b + 1) = bd_symbols b + 1" "int64 (bd_attempts b + 1) = bd_attempts b + 1"
    "int64 (bd_work b + projected b) = bd_work b + projected b" "int64 (bd_memory b + rw) = bd_memory b + rw"
    "length (sy_Coeff s) = de_k d \<Longrightarrow> length (sy_Data s) = de_symbolSize d \<Longrightarrow> symbolBytes s = rw"
    "int64 (bd_bytes b + rw) = bd_bytes b + rw" "0 \<le> rw" "0 \<le> projected b"
proof -
  have fit: "limits_fit b" "live_ok b" and b: "0 \<le> bd_symbols b" "bd_symbols b \<le> MaxSymbols (bd_limits b)"
      "bd_attempts b = bd_symbols b" "bd_attempts b \<le> MaxRankAttempts (bd_limits b)" "bd_bytes b = bd_symbols b * rw"
      "bd_bytes b \<le> MaxBytes (bd_limits b)" "0 \<le> bd_work b" "bd_work b \<le> MaxWorkUnits (bd_limits b)"
    using assms(1,2) by (simp_all add: bounded_ok_def Let_def rw_def)
  have rank: "de_rank d \<le> de_k d" and mem: "bd_memory b = int (de_rank d) * rw" "bd_memory b \<le> MaxMemoryBytes (bd_limits b)"
    using fit(2) decoder_ok_rank by (auto simp: live_ok_def Let_def d_def rw_def)
  show rw: "0 \<le> rw" by (simp add: rw_def)
  have "(int (de_rank d) + 1) * rw \<le> (int (de_k d) + 1) * rw" using rank rw by (intro mult_right_mono) simp_all
  moreover have "0 \<le> (int (de_rank d) + 1) * rw" "0 \<le> bd_bytes b" "0 \<le> bd_memory b" using rw b mem by simp_all
  moreover note fit(1) [unfolded limits_fit_def Let_def, folded rw_def d_def]
  ultimately have sizes: "fits64 rw" "fits64 ((int (de_rank d) + 1) * rw)" "fits64 (bd_symbols b + 1)"
      "fits64 (bd_work b + (int (de_rank d) + 1) * rw)" "fits64 (bd_memory b + rw)" "fits64 (bd_bytes b + rw)"
    using b mem rw by linarith+
  show w: "rowWidth b = rw" using sizes(1) by (simp add: rowWidth_def rw_def)
  show p: "projected b = (int (de_rank d) + 1) * rw" unfolding projected_def w d_def [symmetric] by (rule int64_id) (rule sizes)
  show "int64 (bd_symbols b + 1) = bd_symbols b + 1" "int64 (bd_attempts b + 1) = bd_attempts b + 1"
    "int64 (bd_work b + projected b) = bd_work b + projected b" "int64 (bd_memory b + rw) = bd_memory b + rw"
    "int64 (bd_bytes b + rw) = bd_bytes b + rw"
    unfolding p b(3) by (intro int64_id sizes)+
  show "symbolBytes s = rw" if "length (sy_Coeff s) = de_k d" "length (sy_Data s) = de_symbolSize d"
    unfolding symbolBytes_def that using sizes(1) by (simp add: rw_def d_def)
  show "0 \<le> projected b" unfolding p using rw by simp
qed

lemma Bounded_fail_ok: "bounded_ok b \<Longrightarrow> e \<in> terminal_errors \<Longrightarrow> bounded_ok (Bounded_fail b e)"
  by (auto simp: bounded_ok_def limits_fit_def Bounded_fail_def Let_def)

lemma bounded_ok_counts:
  "bounded_ok (b\<lparr>bd_rejected := r\<rparr>) = bounded_ok b" "bounded_ok (b\<lparr>bd_duplicate := r\<rparr>) = bounded_ok b"
  by (simp_all add: bounded_ok_def limits_fit_def live_ok_def Let_def)

text \<open>Admission charges every budget by what was checked, and the memory by one row per rank.\<close>

lemma admit_eq:
  assumes ok: "bounded_ok b" "bd_failed b = None"
    and dims: "length (sy_Coeff s) = de_k (bd_decoder b)" "length (sy_Data s) = de_symbolSize (bd_decoder b)"
  defines "rw \<equiv> int (de_k (bd_decoder b)) + int (de_symbolSize (bd_decoder b))"
  obtains seen b' where "bd_seen b = Some seen" "admit c b s = (b', map_sum Inner id (snd (Decoder_Add (bd_decoder b) s)))"
    "bd_decoder b' = fst (Decoder_Add (bd_decoder b) s)" "bd_failed b' = None" "bd_limits b' = bd_limits b"
    "bd_commitments b' = bd_commitments b" "bd_deadline b' = bd_deadline b"
    "bd_symbols b' = bd_symbols b + 1" "bd_attempts b' = bd_attempts b + 1" "bd_bytes b' = bd_bytes b + rw"
    "bd_work b' = bd_work b + (int (de_rank (bd_decoder b)) + 1) * rw"
    "bd_seen b' = Some (insert (fingerprint c s) seen)"
    "bd_memory b' = bd_memory b + (if snd (Decoder_Add (bd_decoder b) s) = Inr True then rw else 0)"
proof -
  note ar = bounded_ok_arith [OF ok, folded rw_def]
  obtain seen where seen: "bd_seen b = Some seen" using ok by (auto simp: bounded_ok_def live_ok_def Let_def)
  obtain d r where add: "Decoder_Add (bd_decoder b) s = (d, r)" by (rule prod.exhaust)
  show thesis
    by (rule that [OF seen, of "fst (admit c b s)"]; cases r)
      (simp_all add: admit_def seen add ar(1-4,6,8) ar(5) [unfolded ar(2)] ar(7) [OF dims] ok(2) Let_def)
qed

lemma admit_ok:
  assumes ok: "bounded_ok b" "bd_failed b = None"
    and dims: "length (sy_Coeff s) = de_k (bd_decoder b)" "length (sy_Data s) = de_symbolSize (bd_decoder b)"
    and budget: "int64 (bd_symbols b + 1) \<le> MaxSymbols (bd_limits b)"
      "int64 (bd_bytes b + symbolBytes s) \<le> MaxBytes (bd_limits b)"
      "int64 (bd_attempts b + 1) \<le> MaxRankAttempts (bd_limits b)"
      "int64 (bd_work b + projected b) \<le> MaxWorkUnits (bd_limits b)"
      "Decoder_Ready (bd_decoder b) \<or> int64 (bd_memory b + rowWidth b) \<le> MaxMemoryBytes (bd_limits b)"
  shows "bounded_ok (fst (admit c b s))"
proof -
  let ?d = "bd_decoder b" and ?d' = "fst (Decoder_Add (bd_decoder b) s)" and ?k = "int (de_k (bd_decoder b))"
  let ?rw = "?k + int (de_symbolSize ?d)" and ?r = "snd (Decoder_Add (bd_decoder b) s)"
  note ar = bounded_ok_arith [OF ok]
  from ok have live: "live_ok b" by (simp add: bounded_ok_def Let_def)
  then have dec: "decoder_ok ?d" "decoder_ok ?d'" by (simp_all add: live_ok_def Let_def Decoder_Add_ok)
  have step: "de_rank ?d' = (if ?r = Inr True then Suc (de_rank ?d) else de_rank ?d)"
    using Decoder_Add_result [OF dec(1), of s] by (auto split: prod.splits sum.splits bool.splits)
  have ranks: "de_rank ?d' \<le> de_k ?d" using decoder_ok_rank [OF dec(2)] by simp
  obtain seen b' where e: "bd_seen b = Some seen" "admit c b s = (b', map_sum Inner id ?r)" "bd_decoder b' = ?d'"
      "bd_failed b' = None" "bd_limits b' = bd_limits b" "bd_commitments b' = bd_commitments b"
      "bd_symbols b' = bd_symbols b + 1" "bd_attempts b' = bd_attempts b + 1" "bd_bytes b' = bd_bytes b + ?rw"
      "bd_work b' = bd_work b + (int (de_rank ?d) + 1) * ?rw" "bd_seen b' = Some (insert (fingerprint c s) seen)"
      "bd_memory b' = bd_memory b + (if ?r = Inr True then ?rw else 0)"
    using admit_eq [OF ok dims] by metis
  have mem: "bd_memory b' = int (de_rank ?d') * ?rw"
    using live step e(12) by (simp add: live_ok_def Let_def algebra_simps)
  have "bd_memory b' \<le> MaxMemoryBytes (bd_limits b)"
  proof (cases "?r = Inr True")
    case True
    with step ranks have "\<not> Decoder_Ready ?d" by (simp add: Decoder_Ready_def)
    with budget(5) ar(1,6) e(12) True show ?thesis by simp
  next
    case False
    with live e(12) show ?thesis by (simp add: live_ok_def Let_def)
  qed
  moreover have "finite (insert (fingerprint c s) seen) \<and> int (card (insert (fingerprint c s) seen)) \<le> bd_symbols b + 1"
    using live e(1) by (auto simp: live_ok_def Let_def card_insert_if)
  moreover have "bd_work b' \<le> bd_symbols b' * (?k * ?rw)" if "de_rank ?d' < de_k ?d'"
  proof -
    have "de_rank ?d < de_k ?d" using that step by (simp split: if_splits)
    then have "bd_work b \<le> bd_symbols b * (?k * ?rw)" and "(int (de_rank ?d) + 1) * ?rw \<le> ?k * ?rw"
      using live by (auto simp: live_ok_def Let_def intro: mult_right_mono)
    then show ?thesis by (simp add: e(7,10) algebra_simps)
  qed
  ultimately have live': "live_ok b'" using mem dec(2) by (simp add: live_ok_def Let_def e)
  have fit: "limits_fit b'" using ok by (simp add: limits_fit_def bounded_ok_def Let_def e)
  have "0 \<le> bd_work b'" using ok ar(9) by (simp add: e(10) bounded_ok_def Let_def)
  moreover have "bd_work b' \<le> MaxWorkUnits (bd_limits b)" using budget(4) ar(2,5) by (simp add: e(10))
  moreover have "bd_bytes b' = bd_symbols b' * ?rw" using ok by (simp add: e(7,9) bounded_ok_def Let_def algebra_simps)
  moreover have "bd_bytes b' \<le> MaxBytes (bd_limits b)" using budget(2) ar(7) [OF dims] ar(8) by (simp add: e(9))
  moreover have "bd_symbols b' \<le> MaxSymbols (bd_limits b)" "bd_attempts b' \<le> MaxRankAttempts (bd_limits b)"
      "bd_attempts b' = bd_symbols b'" "0 \<le> bd_symbols b'"
    using budget(1,3) ar(3,4) ok by (simp_all add: e(7,8) bounded_ok_def Let_def)
  ultimately show ?thesis using live' fit ok by (simp add: bounded_ok_def Let_def e)
qed

lemma Bounded_Add_ok: "bounded_ok b \<Longrightarrow> bounded_ok (fst (Bounded_Add c b s now))"
  by (cases rule: Bounded_Add_cases [of b c s now])
    (simp_all add: Bounded_fail_ok bounded_ok_counts admit_ok)

abbreviation offer :: "crypto \<Rightarrow> bounded \<Rightarrow> symbol \<times> instant \<Rightarrow> bounded" where
  "offer c b op \<equiv> fst (Bounded_Add c b (fst op) (snd op))"

interpretation bounded: invariant_machine "offer c" bounded_ok
  by unfold_locales (rule Bounded_Add_ok)

interpretation ended: absorbing_machine "offer c" "\<lambda>b. bd_failed b \<noteq> None"
  by unfold_locales (auto simp: Bounded_Add_def)

lemma NewBoundedDecoder_ok:
  assumes "NewBoundedDecoder k sz n l cs now = Inr b" and "limits_fit b"
  shows "bounded_ok b \<and> bd_failed b = None"
proof -
  from assms(1) obtain d where d: "NewDecoder k sz n = Inr d" and b: "b = \<lparr>bd_decoder = d, bd_limits = l, bd_commitments = cs,
       bd_deadline = now + Lifetime l, bd_symbols = 0, bd_bytes = 0, bd_attempts = 0, bd_work = 0,
       bd_memory = 0, bd_seen = Some {}, bd_failed = None, bd_rejected = 0, bd_duplicate = 0\<rparr>"
    and l: "Limits_validate l = Inr ()" and cs: "\<forall>x. cs = Some x \<longrightarrow> int (length x) = k"
    by (auto simp: NewBoundedDecoder_def split: sum.splits if_splits option.splits)
  have "de_rank d = 0 \<and> int (de_k d) = k" using d by (auto simp: NewDecoder_def Let_def split: if_splits)
  then show ?thesis using assms(2) NewDecoder_ok [OF d] l cs
    by (auto simp: b bounded_ok_def live_ok_def Let_def Limits_validate_def split: if_splits)
qed

section \<open>Systematic symbols\<close>

lemma systematicLoop_Some:
  "systematicLoop (Some f) index vs = (if \<forall>v \<in> set vs. v = 0 then Some f else None)"
  by (induction vs arbitrary: index) auto

lemma systematicLoop_None:
  "systematicLoop None index vs = Some i \<Longrightarrow>
     \<exists>j < length vs. i = index + j \<and> vs = (replicate (length vs) 0)[j := 1]"
proof (induction vs arbitrary: index)
  case (Cons v vs)
  show ?case
  proof (cases "v = 0")
    case True
    with Cons.prems Cons.IH [of "Suc index"] obtain j where
      "j < length vs" "i = Suc index + j" "vs = (replicate (length vs) 0)[j := 1]" by auto
    with True show ?thesis by (intro exI [of _ "Suc j"]) simp
  next
    case False
    with Cons.prems have "v = 1" "\<forall>v \<in> set vs. v = 0" "i = index"
      by (auto simp: systematicLoop_Some split: if_splits)
    then show ?thesis by (intro exI [of _ 0]) (simp add: replicate_length_same)
  qed
qed simp

lemma systematicIndex_unit:
  "systematicIndex coeff = Some i \<Longrightarrow> i < length coeff \<and> coeff = (replicate (length coeff) 0)[i := 1]"
  using systematicLoop_None [of 0 coeff i] by (auto simp: systematicIndex_def)

lemma CommitSource_nth: "i < length sources \<Longrightarrow> CommitSource c sources ! i = commitSymbol c i (sources ! i)"
  by (simp add: CommitSource_def nth_enumerate_eq)

lemma preAdmission_source:
  assumes "bd_commitments b = Some (Encoder_SourceCommitments c e)" and "preAdmission c b s"
    and "systematicIndex (sy_Coeff s) = Some i" and "length (sy_Coeff s) = Encoder_K e"
  shows "sy_Data s = en_source e ! i \<or>
    collides (sha256 c) [commitmentMessage i (en_source e ! i), commitmentMessage i (sy_Data s)]"
proof (rule disjCI)
  assume "\<not> collides (sha256 c) [commitmentMessage i (en_source e ! i), commitmentMessage i (sy_Data s)]"
  moreover have "i < length (en_source e)" using systematicIndex_unit [OF assms(3)] assms(4) by (simp add: Encoder_K_def)
  then have "sha256 c (commitmentMessage i (en_source e ! i)) = sha256 c (commitmentMessage i (sy_Data s))"
    using assms(1-3) by (simp add: preAdmission_def Encoder_SourceCommitments_def CommitSource_nth commitSymbol_def)
  ultimately have "commitmentMessage i (en_source e ! i) = commitmentMessage i (sy_Data s)"
    by (auto simp: collides_def)
  then show "sy_Data s = en_source e ! i" by (simp add: commitmentMessage_def)
qed

section \<open>Refinement of the plain decoder\<close>

lemma offer_keeps [simp]:
  "bd_commitments (fst (Bounded_Add c b s now)) = bd_commitments b" "bd_limits (fst (Bounded_Add c b s now)) = bd_limits b"
  "bd_deadline (fst (Bounded_Add c b s now)) = bd_deadline b"
  "de_k (bd_decoder (fst (Bounded_Add c b s now))) = de_k (bd_decoder b)"
  "de_symbolSize (bd_decoder (fst (Bounded_Add c b s now))) = de_symbolSize (bd_decoder b)"
  by (cases rule: Bounded_Add_cases [of b c s now];
      simp add: Bounded_fail_def admit_def Let_def split: option.split prod.split sum.split;
      metis Add_dims fst_conv)+

lemma offer_step:
  assumes "bd_failed (fst (Bounded_Add c b s now)) = None"
  shows "bd_decoder (fst (Bounded_Add c b s now)) = bd_decoder b \<or>
    bd_decoder (fst (Bounded_Add c b s now)) = fst (Decoder_Add (bd_decoder b) s) \<and> preAdmission c b s \<and>
      length (sy_Coeff s) = de_k (bd_decoder b)"
proof (cases rule: Bounded_Add_cases [of b c s now, case_names dead ended rejected duplicate admitted])
  case admitted
  then show ?thesis by (auto simp: admit_def Let_def split: option.split prod.split sum.split)
qed (use assms in \<open>auto simp: Bounded_fail_def\<close>)

lemma offer_refines:
  assumes "bd_failed (run_ops (offer c) b ops) = None"
  shows "\<exists>adm. subseq adm (map fst ops) \<and>
    bd_decoder (run_ops (offer c) b ops) = run_ops (\<lambda>d s. fst (Decoder_Add d s)) (bd_decoder b) adm \<and>
    (\<forall>s \<in> set adm. preAdmission c b s \<and> length (sy_Coeff s) = de_k (bd_decoder b))"
  using assms
proof (induction ops arbitrary: b)
  case (Cons op ops)
  let ?b = "offer c b op"
  have live: "bd_failed ?b = None" using Cons.prems ended.run_dead [of ?b c ops] by (cases "bd_failed ?b") auto
  from Cons.IH [OF Cons.prems [unfolded run_ops_Cons]] obtain adm where adm: "subseq adm (map fst ops)"
      "bd_decoder (run_ops (offer c) ?b ops) = run_ops (\<lambda>d s. fst (Decoder_Add d s)) (bd_decoder ?b) adm"
      "\<forall>s \<in> set adm. preAdmission c ?b s \<and> length (sy_Coeff s) = de_k (bd_decoder ?b)"
    by blast
  then have pre: "\<forall>s \<in> set adm. preAdmission c b s \<and> length (sy_Coeff s) = de_k (bd_decoder b)"
    by (simp add: preAdmission_def)
  from offer_step [OF live] show ?case
  proof
    assume "bd_decoder ?b = bd_decoder b"
    with adm pre show ?thesis by (intro exI [of _ adm]) (simp add: list_emb_Cons)
  next
    assume "bd_decoder ?b = fst (Decoder_Add (bd_decoder b) (fst op)) \<and> preAdmission c b (fst op) \<and>
      length (sy_Coeff (fst op)) = de_k (bd_decoder b)"
    with adm pre show ?thesis by (intro exI [of _ "fst op # adm"]) simp
  qed
qed (simp add: exI [of _ "[]"])

section \<open>What is charged\<close>

text \<open>
  A symbol was handed to the decoder when the answer is the decoder's; a duplicate is answered without it. Each such symbol costs
  one symbol, one attempt, its bytes, and as work one row for each rank and one more.
\<close>

definition handed :: "crypto \<Rightarrow> bounded \<Rightarrow> symbol \<Rightarrow> instant \<Rightarrow> bool" where
  "handed c b s now \<longleftrightarrow>
     (case snd (Bounded_Add c b s now) of
        Inr innovative \<Rightarrow> \<not> (\<exists>seen. bd_seen b = Some seen \<and> fingerprint c s \<in> seen)
      | Inl e \<Rightarrow> e \<in> range Inner)"

definition charge :: "bounded \<Rightarrow> symbol \<Rightarrow> int \<times> int" where
  "charge b s = (int (length (sy_Coeff s)) + int (length (sy_Data s)),
     (int (de_rank (bd_decoder b)) + 1) * (int (de_k (bd_decoder b)) + int (de_symbolSize (bd_decoder b))))"

fun charges :: "crypto \<Rightarrow> bounded \<Rightarrow> (symbol \<times> instant) list \<Rightarrow> (int \<times> int) list" where
  "charges c b [] = []"
| "charges c b (op # ops) = (if handed c b (fst op) (snd op) then [charge b (fst op)] else []) @ charges c (offer c b op) ops"

text \<open>The four counters together.\<close>

definition counters :: "bounded \<Rightarrow> int \<times> int \<times> int \<times> int" where
  "counters b = (bd_symbols b, bd_attempts b, bd_bytes b, bd_work b)"

lemma offer_charges:
  assumes ok: "bounded_ok b"
  shows "counters (fst (Bounded_Add c b s now)) =
    (if handed c b s now then (bd_symbols b + 1, bd_attempts b + 1, bd_bytes b + fst (charge b s), bd_work b + snd (charge b s)) else counters b)"
proof (cases rule: Bounded_Add_cases [of b c s now, case_names dead ended rejected duplicate admitted])
  case (dead e)
  then have "e \<in> terminal_errors" using ok by (simp add: bounded_ok_def Let_def)
  with dead show ?thesis by (auto simp: handed_def terminal_errors_def)
next
  case admitted
  let ?rw = "int (de_k (bd_decoder b)) + int (de_symbolSize (bd_decoder b))"
  obtain b' where e: "admit c b s = (b', map_sum Inner id (snd (Decoder_Add (bd_decoder b) s)))"
      "bd_symbols b' = bd_symbols b + 1" "bd_attempts b' = bd_attempts b + 1" "bd_bytes b' = bd_bytes b + ?rw"
      "bd_work b' = bd_work b + (int (de_rank (bd_decoder b)) + 1) * ?rw"
    by (rule admit_eq [OF ok admitted(1,4,5)])
  then have "handed c b s now" using admitted(2,12) by (cases "snd (Decoder_Add (bd_decoder b) s)") (auto simp: handed_def)
  with e admitted(2,4,5) show ?thesis by (simp add: charge_def counters_def)
qed (auto simp: handed_def terminal_errors_def counters_def Bounded_fail_def)

lemma run_charges:
  "bounded_ok b \<Longrightarrow> bd_symbols (run_ops (offer c) b ops) = bd_symbols b + int (length (charges c b ops)) \<and>
     bd_attempts (run_ops (offer c) b ops) = bd_attempts b + int (length (charges c b ops)) \<and>
     bd_bytes (run_ops (offer c) b ops) = bd_bytes b + sum_list (map fst (charges c b ops)) \<and>
     bd_work (run_ops (offer c) b ops) = bd_work b + sum_list (map snd (charges c b ops))"
proof (induction ops arbitrary: b)
  case (Cons op ops)
  from Cons.IH [OF Bounded_Add_ok [OF Cons.prems]] offer_charges [OF Cons.prems, of c "fst op" "snd op"] show ?case
    by (auto simp: counters_def split: if_splits)
qed simp

text \<open>Which symbols are handed over, in unbounded arithmetic.\<close>

definition affordable :: "bounded \<Rightarrow> symbol \<Rightarrow> bool" where
  "affordable b s \<longleftrightarrow>
     (let l = bd_limits b; rw = int (de_k (bd_decoder b)) + int (de_symbolSize (bd_decoder b)) in
      bd_symbols b + 1 \<le> MaxSymbols l \<and> bd_attempts b + 1 \<le> MaxRankAttempts l \<and> bd_bytes b + fst (charge b s) \<le> MaxBytes l \<and>
      bd_work b + snd (charge b s) \<le> MaxWorkUnits l \<and> (Decoder_Ready (bd_decoder b) \<or> bd_memory b + rw \<le> MaxMemoryBytes l))"

lemma handed_iff:
  assumes ok: "bounded_ok b"
  shows "handed c b s now \<longleftrightarrow> bd_failed b = None \<and> now < bd_deadline b \<and> length (sy_Coeff s) = de_k (bd_decoder b) \<and>
    length (sy_Data s) = de_symbolSize (bd_decoder b) \<and> \<not> (\<exists>seen. bd_seen b = Some seen \<and> fingerprint c s \<in> seen) \<and>
    preAdmission c b s \<and> affordable b s"
proof (cases "bd_failed b")
  case (Some e)
  then have "e \<in> terminal_errors" using ok by (simp add: bounded_ok_def Let_def)
  with Some show ?thesis by (auto simp: handed_def Bounded_Add_def terminal_errors_def)
next
  case None
  note ar = bounded_ok_arith [OF ok None]
  have afford: "affordable b s \<longleftrightarrow> int64 (bd_symbols b + 1) \<le> MaxSymbols (bd_limits b) \<and> int64 (bd_bytes b + symbolBytes s) \<le> MaxBytes (bd_limits b) \<and>
      int64 (bd_attempts b + 1) \<le> MaxRankAttempts (bd_limits b) \<and> int64 (bd_work b + projected b) \<le> MaxWorkUnits (bd_limits b) \<and>
      (Decoder_Ready (bd_decoder b) \<or> int64 (bd_memory b + rowWidth b) \<le> MaxMemoryBytes (bd_limits b))"
    if "length (sy_Coeff s) = de_k (bd_decoder b)" "length (sy_Data s) = de_symbolSize (bd_decoder b)"
    using that ar(1,3-6,8) ar(2) ar(7) [OF that] by (auto simp: affordable_def charge_def Let_def)
  let ?G = "now < bd_deadline b \<and> length (sy_Coeff s) = de_k (bd_decoder b) \<and> length (sy_Data s) = de_symbolSize (bd_decoder b) \<and>
    \<not> (\<exists>seen. bd_seen b = Some seen \<and> fingerprint c s \<in> seen) \<and> preAdmission c b s \<and> affordable b s"
  have "handed c b s now" if g: ?G
  proof -
    have dims: "length (sy_Coeff s) = de_k (bd_decoder b)" "length (sy_Data s) = de_symbolSize (bd_decoder b)" using g by auto
    have "Bounded_Add c b s now = admit c b s"
      using g afford [OF dims] None by (auto simp: Bounded_Add_def Let_def not_less split: option.splits)
    moreover obtain b' where "admit c b s = (b', map_sum Inner id (snd (Decoder_Add (bd_decoder b) s)))"
      by (rule admit_eq [OF ok None dims])
    ultimately show ?thesis using g by (cases "snd (Decoder_Add (bd_decoder b) s)") (auto simp: handed_def)
  qed
  moreover have ?G if handed: "handed c b s now"
  proof (cases rule: Bounded_Add_cases [of b c s now, case_names dead ended rejected duplicate admitted])
    case admitted
    with afford show ?thesis by blast
  qed (use None handed in \<open>auto simp: handed_def terminal_errors_def\<close>)
  ultimately show ?thesis using None by blast
qed

section \<open>Properties\<close>

text \<open>
  C13: No symbols, honest or hostile, in any order and at any times, make a generation exceed a budget, for limits that leave
  one charge of room below the largest machine integer (\<open>limits_fit\<close>). After any sequence of additions the counters are exactly
  what the symbols handed to the decoder cost, summed in unbounded arithmetic: one symbol, one attempt, their bytes and their
  elimination work; so none has wrapped, and each is within its limit. A symbol is handed over exactly when the
  generation is alive and in time, the symbol has the right dimensions, is new and matches its commitment, and every budget can pay for it.
  The fingerprint table has at most one entry per admitted symbol, the basis memory is exactly one row per rank and zero after failure. The next
  addition neither takes the inverse of zero nor writes to a nil map.
\<close>

theorem bounded_budgets:
  assumes "NewBoundedDecoder k sz n l cs start = Inr b0" and "limits_fit b0"
    and "b = run_ops (offer c) b0 ops"
  shows "bd_symbols b = int (length (charges c b0 ops)) \<and> bd_attempts b = int (length (charges c b0 ops)) \<and>
    bd_bytes b = sum_list (map fst (charges c b0 ops)) \<and> bd_work b = sum_list (map snd (charges c b0 ops)) \<and>
    bd_symbols b \<le> MaxSymbols l \<and> bd_attempts b \<le> MaxRankAttempts l \<and> bd_bytes b \<le> MaxBytes l \<and>
    bd_work b \<le> MaxWorkUnits l \<and> bd_memory b \<le> MaxMemoryBytes l \<and>
    bd_memory b = int (de_rank (bd_decoder b)) * (int (de_k (bd_decoder b)) + int (de_symbolSize (bd_decoder b))) \<and>
    (\<forall>seen. bd_seen b = Some seen \<longrightarrow> int (card seen) \<le> MaxSymbols l) \<and>
    (handed c b s now \<longleftrightarrow> bd_failed b = None \<and> now < bd_deadline b \<and> length (sy_Coeff s) = de_k (bd_decoder b) \<and>
       length (sy_Data s) = de_symbolSize (bd_decoder b) \<and> \<not> (\<exists>seen. bd_seen b = Some seen \<and> fingerprint c s \<in> seen) \<and>
       preAdmission c b s \<and> affordable b s) \<and>
    snd (Bounded_Add c b s now) \<notin> {Inl NilMapPanic, Inl (Inner InversePanic)}"
proof -
  have ok: "bounded_ok b" using assms NewBoundedDecoder_ok bounded.run_inv by blast
  have "bd_limits (run_ops (offer c) b0 ops) = bd_limits b0" for b0
    by (induction ops arbitrary: b0) simp_all
  then have l: "bd_limits b = l" using assms
    by (auto simp: NewBoundedDecoder_def split: sum.splits if_splits)
  have "snd (Bounded_Add c b s now) \<notin> {Inl NilMapPanic, Inl (Inner InversePanic)}"
  proof (cases rule: Bounded_Add_cases [of b c s now, case_names dead ended rejected duplicate admitted])
    case (dead e)
    then have "e \<in> terminal_errors" using ok by (simp add: bounded_ok_def Let_def)
    then show ?thesis using dead by (auto simp: terminal_errors_def)
  next
    case admitted
    obtain b' where "admit c b s = (b', map_sum Inner id (snd (Decoder_Add (bd_decoder b) s)))"
      by (rule admit_eq [OF ok admitted(1,4,5)])
    moreover have "snd (Decoder_Add (bd_decoder b) s) \<noteq> Inl InversePanic"
      using ok admitted(1) Decoder_Add_result by (simp add: bounded_ok_def live_ok_def Let_def)
    ultimately show ?thesis using admitted(2) by (cases "snd (Decoder_Add (bd_decoder b) s)") auto
  qed (auto simp: terminal_errors_def)
  moreover have "bd_memory b \<le> MaxMemoryBytes l \<and>
      bd_memory b = int (de_rank (bd_decoder b)) * (int (de_k (bd_decoder b)) + int (de_symbolSize (bd_decoder b)))"
    using ok l by (auto simp: bounded_ok_def live_ok_def Let_def split: if_splits)
  moreover have "\<forall>seen. bd_seen b = Some seen \<longrightarrow> int (card seen) \<le> MaxSymbols l"
    using ok l by (auto simp: bounded_ok_def live_ok_def Let_def split: if_splits)
  moreover have "bd_symbols b \<le> MaxSymbols l \<and> bd_attempts b \<le> MaxRankAttempts l \<and> bd_bytes b \<le> MaxBytes l \<and>
      bd_work b \<le> MaxWorkUnits l"
    using ok l by (simp add: bounded_ok_def Let_def)
  moreover have "bd_symbols b = int (length (charges c b0 ops)) \<and> bd_attempts b = int (length (charges c b0 ops)) \<and>
      bd_bytes b = sum_list (map fst (charges c b0 ops)) \<and> bd_work b = sum_list (map snd (charges c b0 ops))"
    using run_charges [of b0 c ops] NewBoundedDecoder_ok [OF assms(1,2)] assms(1,3) by (auto simp: NewBoundedDecoder_def split: sum.splits if_splits)
  moreover note handed_iff [OF ok, of c s now]
  ultimately show ?thesis by blast
qed

text \<open>
  Failure is final. An addition that runs out of a budget or comes at or after the deadline ends the
  generation: it releases the basis and the table, and from then on every addition and every decode returns the
  same error and changes nothing. No other refusal ends a generation: wrong dimensions, duplicates and
  polluted systematic symbols leave everything but a counter as it was.
\<close>

theorem bounded_failure_final:
  assumes "bd_failed b = None" and "snd (Bounded_Add c b s now) = Inl e"
  shows "(e \<in> terminal_errors \<longrightarrow>
      (let b' = run_ops (offer c) (fst (Bounded_Add c b s now)) ops in
       b' = Bounded_fail b e \<and> de_basis (bd_decoder b') = [] \<and> bd_seen b' = None \<and> bd_memory b' = 0 \<and>
       snd (Bounded_Add c b' s' now') = Inl e \<and> Bounded_Decode b' = Inl e)) \<and>
    (e \<notin> terminal_errors \<longrightarrow> bd_failed (fst (Bounded_Add c b s now)) = None) \<and>
    (e \<in> {SymbolDimensions, CommitmentMismatch} \<longrightarrow>
      fst (Bounded_Add c b s now) = b\<lparr>bd_rejected := int64 (bd_rejected b + 1)\<rparr>)"
proof (cases rule: Bounded_Add_cases [of b c s now, case_names dead ended rejected duplicate admitted])
  case (ended e')
  then have "bd_failed (Bounded_fail b e) = Some e" "e' = e" using assms by (simp_all add: Bounded_fail_def)
  with ended assms ended.run_dead [of "Bounded_fail b e" c ops] show ?thesis
    by (auto simp: Let_def Bounded_fail_def Bounded_Add_def Bounded_Decode_def terminal_errors_def)
next
  case admitted
  then have "e \<in> insert NilMapPanic (range Inner) \<and> bd_failed (fst (admit c b s)) = None"
    using assms by (auto simp: admit_def Let_def split: option.splits prod.splits sum.splits)
  with admitted(2) show ?thesis by (auto simp: terminal_errors_def)
next
  case (rejected e')
  then have "e' = e" using assms by simp
  with rejected show ?thesis by (auto simp: terminal_errors_def)
next
  case (dead e')
  with assms(1) have False by simp
  then show ?thesis ..
next
  case duplicate
  with assms(2) have False by simp
  then show ?thesis ..
qed

text \<open>
  C14: The bounded decoder refines the plain one. While a generation has not failed, its state is the plain
  decoder's after a subsequence of the offered symbols, the admitted ones, and decoding gives what the plain
  decoder gives. With the publisher's commitments every admitted systematic symbol carries the source symbol
  it names, or two messages with one SHA-256 digest are in hand.
\<close>

theorem bounded_refines_decoder:
  assumes "NewBoundedDecoder k sz n l cs start = Inr b0" and "b = run_ops (offer c) b0 ops" and "bd_failed b = None"
  shows "\<exists>d0 adm. NewDecoder k sz n = Inr d0 \<and> subseq adm (map fst ops) \<and>
    bd_decoder b = run_ops (\<lambda>d s. fst (Decoder_Add d s)) d0 adm \<and>
    Bounded_Decode b = map_sum Inner id (Decoder_Decode (bd_decoder b)) \<and>
    (cs = Some (Encoder_SourceCommitments c e) \<longrightarrow>
      (\<forall>s \<in> set adm. \<forall>i. systematicIndex (sy_Coeff s) = Some i \<longrightarrow>
         i < Encoder_K e \<and> sy_Coeff s = (replicate (Encoder_K e) 0)[i := 1] \<and>
         (sy_Data s = en_source e ! i \<or>
          collides (sha256 c) [commitmentMessage i (en_source e ! i), commitmentMessage i (sy_Data s)])))"
proof -
  obtain d0 where d0: "NewDecoder k sz n = Inr d0" "bd_decoder b0 = d0" "bd_commitments b0 = cs"
      "\<forall>x. cs = Some x \<longrightarrow> int (length x) = k"
    using assms(1) by (auto simp: NewBoundedDecoder_def split: sum.splits if_splits option.splits)
  have k: "int (de_k d0) = k" using d0(1) by (auto simp: NewDecoder_def Let_def split: if_splits)
  from offer_refines [OF assms(3) [unfolded assms(2)]] d0(2) obtain adm where
    adm: "subseq adm (map fst ops)" "bd_decoder b = run_ops (\<lambda>d s. fst (Decoder_Add d s)) d0 adm"
      "\<forall>s \<in> set adm. preAdmission c b0 s \<and> length (sy_Coeff s) = de_k d0"
    using assms(2) by auto
  have "i < Encoder_K e \<and> sy_Coeff s = (replicate (Encoder_K e) 0)[i := 1] \<and>
      (sy_Data s = en_source e ! i \<or>
       collides (sha256 c) [commitmentMessage i (en_source e ! i), commitmentMessage i (sy_Data s)])"
    if cs: "cs = Some (Encoder_SourceCommitments c e)" and s: "s \<in> set adm" and i: "systematicIndex (sy_Coeff s) = Some i" for s i
  proof -
    have "length (sy_Coeff s) = Encoder_K e" using adm(3) s d0(4) k cs
      by (simp add: Encoder_K_def Encoder_SourceCommitments_def CommitSource_def)
    with systematicIndex_unit [OF i] preAdmission_source [OF _ _ i] adm(3) s d0(3) cs show ?thesis by metis
  qed
  with d0 adm assms(3) show ?thesis by (intro exI [of _ d0] exI [of _ adm]) (simp add: Bounded_Decode_def)
qed

text \<open>The default limits of a generation that fits a packet, without wrap-around.\<close>

lemma fits64_small: "0 \<le> x \<Longrightarrow> x \<le> 1000000000000 \<Longrightarrow> fits64 x"
  by simp

lemma DefaultLimits_exact:
  assumes "0 < k" "0 < sz" "k + sz \<le> 476"
  shows "DefaultLimits k sz = \<lparr>MaxSymbols = 4 * k, MaxBytes = 4 * k * (k + sz), MaxRankAttempts = 4 * k,
     MaxWorkUnits = 4 * k * k * (k + sz), MaxMemoryBytes = k * (k + sz), Lifetime = 5 * minute\<rparr>"
    and "0 < k * (k + sz)" "k * (k + sz) \<le> 226576" "4 * k * k * (k + sz) \<le> 431400704" "0 < 4 * k * k * (k + sz)"
proof -
  have "k * (k + sz) \<le> 476 * 476" using assms by (intro mult_mono) simp_all
  then show p: "k * (k + sz) \<le> 226576" by simp
  have "(4 * k) * (k * (k + sz)) \<le> (4 * 476) * 226576" using assms p by (intro mult_mono) simp_all
  then show q: "4 * k * k * (k + sz) \<le> 431400704" by (simp add: mult.assoc)
  show r: "0 < k * (k + sz)" "0 < 4 * k * k * (k + sz)" using assms by simp_all
  have "0 < 4 * k * k" "4 * k * k \<le> 4 * 476 * 476" using assms by (simp, intro mult_mono) simp_all
  then have "fits64 (4 * k)" "fits64 (k + sz)" "fits64 (4 * k * k)" "fits64 (k * (k + sz))" "fits64 (4 * k * (k + sz))"
      "fits64 (4 * k * k * (k + sz))"
    using assms p q r unfolding mult.assoc by - (rule fits64_small; linarith)+
  then show "DefaultLimits k sz = \<lparr>MaxSymbols = 4 * k, MaxBytes = 4 * k * (k + sz), MaxRankAttempts = 4 * k,
     MaxWorkUnits = 4 * k * k * (k + sz), MaxMemoryBytes = k * (k + sz), Lifetime = 5 * minute\<rparr>"
    by (simp add: DefaultLimits_def Let_def)
qed

lemma default_limits_fit:
  assumes "NewBoundedDecoder k sz n (DefaultLimits k sz) cs start = Inr b" and "k + sz \<le> 476"
  shows "limits_fit b \<and> 0 < k \<and> 0 < sz \<and> bd_limits b = DefaultLimits k sz \<and> int (de_k (bd_decoder b)) = k \<and>
    int (de_symbolSize (bd_decoder b)) = sz"
proof -
  have d: "0 < k \<and> 0 < sz \<and> bd_limits b = DefaultLimits k sz \<and> int (de_k (bd_decoder b)) = k \<and>
      int (de_symbolSize (bd_decoder b)) = sz"
    using assms(1) by (auto simp: NewBoundedDecoder_def NewDecoder_def Let_def split: sum.splits if_splits)
  note l = DefaultLimits_exact [of k sz]
  have "(k + 1) * (k + sz) \<le> 477 * 476" using d assms(2) by (intro mult_mono) simp_all
  with l d assms(2) show ?thesis by (simp add: limits_fit_def Let_def mult.assoc)
qed

text \<open>What an addition does below the default limits, while the decoder is not ready.\<close>

lemma default_admission:
  assumes ok: "bounded_ok b" and live: "bd_failed b = None" and "\<not> Bounded_Ready b" and "now < bd_deadline b"
    and "bd_symbols b < 4 * k" and fit: "0 < k" "0 < sz" "k + sz \<le> 476"
    and dims: "int (de_k (bd_decoder b)) = k" "int (de_symbolSize (bd_decoder b)) = sz" "bd_limits b = DefaultLimits k sz"
  shows "Bounded_Add c b s now =
      (if length (sy_Coeff s) \<noteq> de_k (bd_decoder b) \<or> length (sy_Data s) \<noteq> de_symbolSize (bd_decoder b)
         then (b\<lparr>bd_rejected := int64 (bd_rejected b + 1)\<rparr>, Inl SymbolDimensions)
       else if fingerprint c s \<in> the (bd_seen b) then (b\<lparr>bd_duplicate := int64 (bd_duplicate b + 1)\<rparr>, Inr False)
       else if \<not> preAdmission c b s then (b\<lparr>bd_rejected := int64 (bd_rejected b + 1)\<rparr>, Inl CommitmentMismatch)
       else admit c b s)"
proof -
  let ?d = "bd_decoder b"
  have lv: "live_ok b" using ok live by (simp add: bounded_ok_def Let_def)
  note lim = DefaultLimits_exact(1) [OF fit] and ar = bounded_ok_arith [OF ok live, unfolded dims]
  have rank: "de_rank ?d < de_k ?d"
    using lv assms(3) decoder_ok_rank [of ?d] by (auto simp: live_ok_def Let_def Bounded_Ready_def Decoder_Ready_def)
  have rw: "0 < k + sz" using fit by simp
  have "(int (de_rank ?d) + 1) * (k + sz) \<le> k * (k + sz)" using rank dims rw by (intro mult_right_mono) simp_all
  then have p: "projected b \<le> k * (k + sz)" and m: "bd_memory b + (k + sz) \<le> k * (k + sz)"
    using ar(2) lv dims by (simp_all add: live_ok_def Let_def algebra_simps)
  have "(bd_symbols b + 1) * (k * (k + sz)) \<le> (4 * k) * (k * (k + sz))"
    using assms(5) rw fit by (intro mult_right_mono) simp_all
  moreover have "bd_work b \<le> bd_symbols b * (k * (k + sz))" using lv rank dims by (simp add: live_ok_def Let_def)
  ultimately have w: "bd_work b + projected b \<le> 4 * k * k * (k + sz)" using p by (simp add: algebra_simps)
  have "(bd_symbols b + 1) * (k + sz) \<le> (4 * k) * (k + sz)" using assms(5) rw by (intro mult_right_mono) simp_all
  then have y: "bd_bytes b + (k + sz) \<le> 4 * k * (k + sz)"
    using ok dims by (simp add: bounded_ok_def Let_def algebra_simps)
  have att: "bd_attempts b = bd_symbols b" using ok by (simp add: bounded_ok_def Let_def)
  obtain seen where seen: "bd_seen b = Some seen" using lv by (auto simp: live_ok_def Let_def)
  show ?thesis
    using live assms(4,5) ar(1,3-6,8) w y m att ar(7) [of s] fit by (simp add: Bounded_Add_def seen lim dims Let_def)
qed

lemma run_keeps:
  "bd_limits (run_ops (offer c) b ops) = bd_limits b"
  "de_k (bd_decoder (run_ops (offer c) b ops)) = de_k (bd_decoder b)"
  "de_symbolSize (bd_decoder (run_ops (offer c) b ops)) = de_symbolSize (bd_decoder b)"
  by (induction ops arbitrary: b) simp_all

text \<open>
  The default budgets are never what stops an honest generation. For every generation that fits a
  packet, before the deadline and until the decoder is ready, as long as fewer than four times K symbols were
  admitted, no symbol ends the generation, and a new symbol that passes the commitment check is handed to
  the decoder.
\<close>

theorem default_limits_suffice:
  assumes "NewBoundedDecoder k sz n (DefaultLimits k sz) cs start = Inr b0" and "k + sz \<le> 476"
    and "b = run_ops (offer c) b0 ops" and "bd_failed b = None" and "\<not> Bounded_Ready b"
    and "now < bd_deadline b" and "bd_symbols b < 4 * k"
  shows "bd_failed (fst (Bounded_Add c b s now)) = None \<and>
    (length (sy_Coeff s) = nat k \<and> length (sy_Data s) = nat sz \<and> fingerprint c s \<notin> the (bd_seen b) \<and> preAdmission c b s \<longrightarrow>
       snd (Bounded_Add c b s now) = map_sum Inner id (snd (Decoder_Add (bd_decoder b) s)))"
proof -
  note fit = default_limits_fit [OF assms(1,2)]
  have ok: "bounded_ok b" using assms(1,3) fit NewBoundedDecoder_ok bounded.run_inv by blast
  let ?d = "bd_decoder b"
  have dims: "int (de_k ?d) = k" "int (de_symbolSize ?d) = sz" "bd_limits b = DefaultLimits k sz"
    using fit assms(3) by (simp_all add: run_keeps)
  note add = default_admission [OF ok assms(4-7) _ _ assms(2) dims, of c s]
  show ?thesis
  proof (cases "length (sy_Coeff s) = de_k ?d \<and> length (sy_Data s) = de_symbolSize ?d")
    case True
    then obtain b' where "admit c b s = (b', map_sum Inner id (snd (Decoder_Add ?d s)))" "bd_failed b' = None"
      using admit_eq [OF ok assms(4), of s c] by metis
    with True add assms(4) dims fit show ?thesis by auto
  next
    case False
    with add assms(4) dims fit show ?thesis by auto
  qed
qed

definition sample_bounded :: bounded where
  "sample_bounded = \<lparr>bd_decoder = sample_decoder, bd_limits = DefaultLimits 1 1,
     bd_commitments = Some (Encoder_SourceCommitments sample_crypto sample_encoder), bd_deadline = 5 * minute,
     bd_symbols = 0, bd_bytes = 0, bd_attempts = 0, bd_work = 0, bd_memory = 0, bd_seen = Some {},
     bd_failed = None, bd_rejected = 0, bd_duplicate = 0\<rparr>"

lemma sample_bounded_new:
  "NewBoundedDecoder 1 1 1 (DefaultLimits 1 1) (Some (Encoder_SourceCommitments sample_crypto sample_encoder)) 0 = Inr sample_bounded"
  using sample_generation(3) DefaultLimits_exact(1) [of 1 1]
  by (simp add: NewBoundedDecoder_def Limits_validate_def sample_bounded_def Encoder_SourceCommitments_def
      CommitSource_def sample_encoder_def minute_def second_def)

lemma sample_bounded_fits: "limits_fit sample_bounded"
  using default_limits_fit [OF sample_bounded_new] by simp

abbreviation sample_systematic :: symbol where
  "sample_systematic \<equiv> \<lparr>sy_Coeff = [1], sy_Data = [7]\<rparr>"

theorem bounded_budgets_witness:
  "handed sample_crypto sample_bounded sample_systematic 0 \<and>
   bd_work (run_ops (offer sample_crypto) sample_bounded [(sample_systematic, 0), (sample_systematic, 1)]) \<le> 8"
proof -
  note budgets = bounded_budgets [OF sample_bounded_new sample_bounded_fits refl]
  have "preAdmission sample_crypto sample_bounded sample_systematic"
    by (simp add: preAdmission_def sample_bounded_def systematicIndex_def Encoder_SourceCommitments_def CommitSource_def sample_encoder_def)
  moreover have "affordable sample_bounded sample_systematic"
    using DefaultLimits_exact(1) [of 1 1] by (simp add: affordable_def charge_def sample_bounded_def sample_decoder_def)
  ultimately have "handed sample_crypto sample_bounded sample_systematic 0"
    using budgets [of sample_crypto "[]" sample_systematic 0] by (simp add: sample_bounded_def sample_decoder_def minute_def second_def)
  moreover have "bd_work (run_ops (offer sample_crypto) sample_bounded [(sample_systematic, 0), (sample_systematic, 1)]) \<le> MaxWorkUnits (DefaultLimits 1 1)"
    using budgets by blast
  ultimately show ?thesis using DefaultLimits_exact(1) [of 1 1] by simp
qed

theorem bounded_failure_final_witness:
  "Bounded_Decode (run_ops (offer sample_crypto)
     (fst (Bounded_Add sample_crypto sample_bounded sample_systematic (5 * minute))) [(sample_systematic, 0)]) = Inl GenerationExpired"
proof -
  have "bd_failed sample_bounded = None"
      "snd (Bounded_Add sample_crypto sample_bounded sample_systematic (5 * minute)) = Inl GenerationExpired"
    by (simp_all add: Bounded_Add_def sample_bounded_def)
  from bounded_failure_final [OF this, of "[(sample_systematic, 0)]"] show ?thesis
    unfolding Let_def terminal_errors_def by blast
qed

lemma sample_admitted: "bd_failed (offer sample_crypto sample_bounded (sample_systematic, 0)) = None"
  using default_limits_fit [OF sample_bounded_new] DefaultLimits_exact(1) [of 1 1]
  by (simp add: Bounded_Add_def sample_bounded_def sample_decoder_def admit_def symbolBytes_def projected_def
      rowWidth_def preAdmission_def minute_def second_def Let_def split: prod.split sum.split)

theorem bounded_refines_decoder_witness:
  "\<exists>adm. bd_decoder (offer sample_crypto sample_bounded (sample_systematic, 0)) =
     run_ops (\<lambda>d s. fst (Decoder_Add d s)) sample_decoder adm"
proof -
  let ?b = "run_ops (offer sample_crypto) sample_bounded [(sample_systematic, 0)]"
  have "bd_failed ?b = None" using sample_admitted by simp
  from bounded_refines_decoder [OF sample_bounded_new refl this, of sample_encoder] sample_generation(3)
  show ?thesis by auto
qed

theorem default_limits_suffice_witness:
  "bd_failed (fst (Bounded_Add sample_crypto sample_bounded sample_systematic 0)) = None"
proof -
  have "bd_failed sample_bounded = None" "\<not> Bounded_Ready sample_bounded" "0 < bd_deadline sample_bounded"
      "bd_symbols sample_bounded < 4 * 1"
    by (simp_all add: sample_bounded_def Bounded_Ready_def Decoder_Ready_def sample_decoder_def minute_def second_def)
  from default_limits_suffice [OF sample_bounded_new _ _ this, of sample_crypto "[]"] show ?thesis by simp
qed

end
