(* ===== verification/Materialize.thy ===== *)
theory Materialize
  imports Packet Bounded Manifest
begin

text \<open>
  From coded packets back to the object: the packet decoder of \<^verbatim>\<open>live/materialize/materializer.go\<close>, which joins the
  packet parser, the bounded decoder with its default budgets and the source commitments behind the decoder
  interface of \<^verbatim>\<open>reconstruct.Reconstruct\<close>. The interface is the locale \<open>object_decoder\<close>.
\<close>

section \<open>The packet decoder\<close>

text \<open>The fields of \<^verbatim>\<open>batch.VerifiedDescriptor\<close> the decoder reads.\<close>

record batch_descriptor =
  bt_Generation :: bytes
  bt_K :: u16
  bt_SymbolSize :: u16
  bt_OriginalSize :: u32
  bt_Commitments :: "bytes list option"

text \<open>
  The readings of \<^verbatim>\<open>time.Now()\<close> are a function of how many there were before; \<open>pd_reads\<close> counts them.
\<close>

record packetDecoder =
  pd_expectedGeneration :: bytes
  pd_k :: int
  pd_symbolSize :: int
  pd_originalSize :: int
  pd_decoder :: bounded
  pd_reads :: nat

datatype materialize_error = PacketErr packet_error | MetadataDiffers | DecoderErr bounded_error

definition newPacketDecoder :: "(nat \<Rightarrow> instant) \<Rightarrow> batch_descriptor \<Rightarrow> materialize_error + packetDecoder" where
  "newPacketDecoder clock desc =
     (let k = int (unat (bt_K desc)); symbolSize = int (unat (bt_SymbolSize desc));
          originalSize = int (unat (bt_OriginalSize desc))
      in case NewBoundedDecoder k symbolSize originalSize (DefaultLimits k symbolSize) (bt_Commitments desc) (clock 0) of
           Inl e \<Rightarrow> Inl (DecoderErr e)
         | Inr d \<Rightarrow> Inr \<lparr>pd_expectedGeneration = bt_Generation desc, pd_k = k, pd_symbolSize = symbolSize,
                        pd_originalSize = originalSize, pd_decoder = d, pd_reads = 1\<rparr>)"

definition packetDecoder_Add ::
    "crypto \<Rightarrow> (nat \<Rightarrow> instant) \<Rightarrow> packetDecoder \<Rightarrow> bytes \<Rightarrow> packetDecoder \<times> (materialize_error + unit)" where
  "packetDecoder_Add c clock d fragment =
     (case ParsePacket fragment of
        Inl e \<Rightarrow> (d, Inl (PacketErr e))
      | Inr p \<Rightarrow>
          if pk_Generation p \<noteq> pd_expectedGeneration d \<or> pk_K p \<noteq> pd_k d \<or> pk_SymbolSize p \<noteq> pd_symbolSize d \<or>
             pk_OriginalSize p \<noteq> pd_originalSize d then (d, Inl MetadataDiffers)
          else case Bounded_Add c (pd_decoder d) (pk_Symbol p) (clock (pd_reads d)) of
                 (b, r) \<Rightarrow> (d\<lparr>pd_decoder := b, pd_reads := Suc (pd_reads d)\<rparr>, map_sum DecoderErr (\<lambda>_. ()) r))"

definition packetDecoder_Ready :: "packetDecoder \<Rightarrow> bool" where
  "packetDecoder_Ready d \<longleftrightarrow> Bounded_Ready (pd_decoder d)"

definition packetDecoder_Decode :: "packetDecoder \<Rightarrow> materialize_error + bytes" where
  "packetDecoder_Decode d = map_sum DecoderErr id (Bounded_Decode (pd_decoder d))"

section \<open>The decoder interface\<close>

text \<open>
  What \<^verbatim>\<open>Reconstruct\<close> relies on. \<open>keeps n F d\<close> says that \<open>d\<close> has taken the fragments \<open>F\<close> and can take \<open>n\<close> more;
  \<open>generates F\<close> that the fragments determine the object.
\<close>

locale object_decoder =
  fixes add :: "'d \<Rightarrow> bytes \<Rightarrow> 'd \<times> ('e + unit)" and ready :: "'d \<Rightarrow> bool" and decode :: "'d \<Rightarrow> 'e + bytes"
    and keeps :: "nat \<Rightarrow> bytes set \<Rightarrow> 'd \<Rightarrow> bool" and fragment :: "bytes \<Rightarrow> bool" and generates :: "bytes set \<Rightarrow> bool"
    and object :: bytes
  assumes add_keeps: "keeps (Suc n) F d \<Longrightarrow> \<not> ready d \<Longrightarrow> fragment f \<Longrightarrow>
      snd (add d f) = Inr () \<and> keeps n (insert f F) (fst (add d f))"
    and decode_object: "keeps n F d \<Longrightarrow> ready d \<Longrightarrow> decode d = Inr object"
    and generates_ready: "keeps n F d \<Longrightarrow> generates F \<Longrightarrow> ready d"
begin

lemma feed_keeps:
  "keeps (length fs) F d \<Longrightarrow> \<not> ready d \<Longrightarrow> \<forall>f \<in> set fs. fragment f \<Longrightarrow>
     \<exists>d' n F'. feed add ready d fs = (d', Inr ()) \<and> keeps n F' d' \<and> (ready d' \<or> F' = F \<union> set fs)"
proof (induction fs arbitrary: F d)
  case (Cons f fs)
  obtain d' where d': "add d f = (d', Inr ())" "keeps (length fs) (insert f F) d'"
    using add_keeps [of "length fs" F d f] Cons.prems by (cases "add d f") auto
  show ?case
  proof (cases "ready d'")
    case True
    with d' show ?thesis by auto
  next
    case False
    with Cons.IH [OF d'(2)] Cons.prems(3) d'(1) show ?thesis by auto
  qed
qed auto

lemma Reconstruct_object:
  assumes "keeps (length fs) {} d" and "\<not> ready d" and "\<forall>f \<in> set fs. fragment f" and "generates (set fs)"
    and "Verifier_Verify c v object = Inr ()"
  shows "Reconstruct c add ready decode d fs v = Inr object"
proof -
  from feed_keeps [OF assms(1-3)] obtain d' n F where d': "feed add ready d fs = (d', Inr ())" "keeps n F d'"
      "ready d' \<or> F = set fs" by auto
  with generates_ready assms(4) have "ready d'" by blast
  with d' decode_object [OF d'(2)] assms(5) show ?thesis by (simp add: Reconstruct_def)
qed

end

section \<open>The packet decoder implements it\<close>

text \<open>A wire image that carries a symbol of the encoder's generation under the right metadata.\<close>

definition carries :: "encoder \<Rightarrow> bytes \<Rightarrow> bytes \<Rightarrow> bool" where
  "carries e generation f \<longleftrightarrow>
     (case ParsePacket f of
        Inl _ \<Rightarrow> False
      | Inr p \<Rightarrow> pk_Generation p = generation \<and> pk_K p = int (Encoder_K e) \<and> pk_SymbolSize p = int (en_symbolSize e) \<and>
          pk_OriginalSize p = int (en_original e) \<and> coded e (pk_Symbol p))"

definition fragment_row :: "bytes \<Rightarrow> bytes" where
  "fragment_row f = (case ParsePacket f of Inl _ \<Rightarrow> [] | Inr p \<Rightarrow> symbol_row (pk_Symbol p))"

text \<open>The rows generate every source symbol: for each, some combination has the unit coefficient vector.\<close>

definition determines :: "encoder \<Rightarrow> bytes set \<Rightarrow> bool" where
  "determines e R \<longleftrightarrow> (\<forall>i < Encoder_K e. \<exists>v \<in> row_span (Encoder_K e + en_symbolSize e) R.
     \<forall>j < Encoder_K e. v ! j = (if j = i then 1 else 0))"

definition decoding :: "crypto \<Rightarrow> (nat \<Rightarrow> instant) \<Rightarrow> bytes \<Rightarrow> encoder \<Rightarrow> bytes list \<Rightarrow> bytes \<Rightarrow> nat \<Rightarrow> bytes set \<Rightarrow> packetDecoder \<Rightarrow> bool" where
  "decoding c clock object e fs generation n F d \<longleftrightarrow>
     (let b = pd_decoder d; src = en_source e; sz = en_symbolSize e; k = int (Encoder_K e) in
      NewEncoder object (int sz) = Inr e \<and> k + int sz \<le> 476 \<and> \<not> collides (sha256 c) (map fragment_row fs) \<and>
      F \<subseteq> {f \<in> set fs. carries e generation f} \<and>
      pd_expectedGeneration d = generation \<and> pd_k d = k \<and> pd_symbolSize d = int sz \<and> pd_originalSize d = int (en_original e) \<and>
      bounded_ok b \<and> bd_failed b = None \<and> bd_limits b = DefaultLimits k (int sz) \<and> bd_symbols b + int n \<le> 4 * k \<and>
      bd_commitments b = Some (Encoder_SourceCommitments c e) \<and> (\<forall>i < n. clock (pd_reads d + i) < bd_deadline b) \<and>
      follows_source src sz (bd_decoder b) \<and> de_originalSize (bd_decoder b) = en_original e \<and>
      spans (bd_decoder b) (fragment_row ` F) \<and> the (bd_seen b) \<subseteq> sha256 c ` fragment_row ` F)"

text \<open>A systematic symbol of the generation carries the source symbol it names, so its commitment matches.\<close>

lemma honest_systematic:
  assumes "honest src sz s" and "systematicIndex (sy_Coeff s) = Some i" and "\<forall>r \<in> set src. length r = sz"
  shows "i < length src \<and> sy_Data s = src ! i"
proof -
  have i: "i < length src" "sy_Coeff s = (replicate (length src) 0)[i := 1]"
    using systematicIndex_unit [OF assms(2)] assms(1) by (simp_all add: honest_def)
  have len: "length (sy_Data s) = sz" "length (src ! i) = sz" using honest_length assms i(1) by simp_all
  have "sy_Data s ! j = src ! i ! j" if j: "j < sz" for j
  proof -
    have "sy_Data s ! j = gsum (\<lambda>m. gf_mul ((sy_Coeff s @ sy_Data s) ! m) (src ! m ! j)) (length src)"
      using assms(1) j by (auto simp: honest_def agrees_def nth_append)
    also have "\<dots> = gsum (\<lambda>m. if m = i then src ! i ! j else 0) (length src)"
      using i by (intro gsum_cong) (auto simp: nth_append gf_one_mul)
    finally show ?thesis using i(1) by (simp add: gsum_single)
  qed
  with len have "sy_Data s = src ! i" by (intro nth_equalityI) simp_all
  with i show ?thesis by simp
qed

lemma preAdmission_honest:
  assumes "bd_commitments b = Some (Encoder_SourceCommitments c e)" and "honest (en_source e) sz s"
    and "\<forall>r \<in> set (en_source e). length r = sz"
  shows "preAdmission c b s"
  using assms(1) honest_systematic [OF assms(2) _ assms(3)]
  by (auto simp: preAdmission_def Encoder_SourceCommitments_def CommitSource_nth split: option.split)

lemma packetDecoder_Add_carries:
  assumes "carries e generation f" and "pd_expectedGeneration d = generation" and "pd_k d = int (Encoder_K e)"
    and "pd_symbolSize d = int (en_symbolSize e)" and "pd_originalSize d = int (en_original e)"
  obtains s where "coded e s" "fragment_row f = symbol_row s"
    "packetDecoder_Add c clock d f =
       (d\<lparr>pd_decoder := fst (Bounded_Add c (pd_decoder d) s (clock (pd_reads d))), pd_reads := Suc (pd_reads d)\<rparr>,
        map_sum DecoderErr (\<lambda>_. ()) (snd (Bounded_Add c (pd_decoder d) s (clock (pd_reads d)))))"
proof (cases "ParsePacket f")
  case (Inl e')
  with assms(1) show thesis by (simp add: carries_def)
next
  case (Inr p)
  with assms show thesis
    by (intro that [of "pk_Symbol p"]) (simp_all add: carries_def fragment_row_def packetDecoder_Add_def split: prod.split)
qed

text \<open>One more honest symbol: it is absorbed, either as a duplicate or by the inner decoder.\<close>

lemma Bounded_Add_coded:
  assumes new: "NewEncoder object (int (en_symbolSize e)) = Inr e" and s: "coded e s"
    and fit: "int (Encoder_K e) + int (en_symbolSize e) \<le> 476"
    and ok: "bounded_ok b" "bd_failed b = None" "\<not> Bounded_Ready b" "now < bd_deadline b"
    and lim: "bd_limits b = DefaultLimits (int (Encoder_K e)) (int (en_symbolSize e))" "bd_symbols b < 4 * int (Encoder_K e)"
    and com: "bd_commitments b = Some (Encoder_SourceCommitments c e)"
    and fol: "follows_source (en_source e) (en_symbolSize e) (bd_decoder b)"
  defines "r \<equiv> Bounded_Add c b s now"
  shows "(\<exists>x. snd r = Inr x) \<and> bounded_ok (fst r) \<and> bd_failed (fst r) = None \<and> bd_symbols (fst r) \<le> bd_symbols b + 1 \<and>
    (sha256 c (symbol_row s) \<in> the (bd_seen b) \<and> bd_decoder (fst r) = bd_decoder b \<and> bd_seen (fst r) = bd_seen b \<or>
     bd_decoder (fst r) = fst (Decoder_Add (bd_decoder b) s) \<and> (\<exists>x. snd (Decoder_Add (bd_decoder b) s) = Inr x) \<and>
       the (bd_seen (fst r)) = insert (sha256 c (symbol_row s)) (the (bd_seen b)))"
proof -
  note src = NewEncoder_source [OF new] and h = coded_honest [OF new s]
  have dims: "de_k (bd_decoder b) = Encoder_K e" "de_symbolSize (bd_decoder b) = en_symbolSize e"
    using fol by (simp_all add: follows_source_def Encoder_K_def)
  have len: "length (sy_Coeff s) = de_k (bd_decoder b)" "length (sy_Data s) = de_symbolSize (bd_decoder b)"
    using h honest_length dims by (auto simp: honest_def Encoder_K_def)
  have pos: "0 < int (Encoder_K e)" "0 < int (en_symbolSize e)" using src by (simp_all add: Encoder_K_def)
  have pre: "preAdmission c b s" using preAdmission_honest [OF com] h src by blast
  have fp: "fingerprint c s = sha256 c (symbol_row s)" by (simp add: fingerprint_def symbol_row_def)
  have add: "r = (if fingerprint c s \<in> the (bd_seen b) then (b\<lparr>bd_duplicate := int64 (bd_duplicate b + 1)\<rparr>, Inr False) else admit c b s)"
    using default_admission [OF ok lim(2) pos fit, of c s] dims lim(1) len pre by (simp add: r_def)
  have inv: "bounded_ok (fst r)" unfolding r_def by (rule Bounded_Add_ok) (rule ok)
  obtain x where x: "snd (Decoder_Add (bd_decoder b) s) = Inr x" using Add_accepts [OF fol] h by blast
  show ?thesis
  proof (cases "fingerprint c s \<in> the (bd_seen b)")
    case True
    with add inv ok fp show ?thesis by auto
  next
    case False
    obtain seen b' where b': "bd_seen b = Some seen" "admit c b s = (b', map_sum Inner id (snd (Decoder_Add (bd_decoder b) s)))"
        "bd_decoder b' = fst (Decoder_Add (bd_decoder b) s)" "bd_failed b' = None" "bd_symbols b' = bd_symbols b + 1"
        "bd_seen b' = Some (insert (fingerprint c s) seen)"
      using admit_eq [OF ok(1,2) len, of c] by metis
    with False add inv x fp show ?thesis by simp
  qed
qed

lemma decoding_add:
  assumes inv: "decoding c clock object e fs g (Suc n) F d" and wait: "\<not> packetDecoder_Ready d"
    and f: "f \<in> set fs \<and> carries e g f"
  shows "snd (packetDecoder_Add c clock d f) = Inr () \<and>
    decoding c clock object e fs g n (insert f F) (fst (packetDecoder_Add c clock d f))"
proof -
  let ?b = "pd_decoder d" and ?now = "clock (pd_reads d)" and ?R = "fragment_row ` F"
  note i = inv [unfolded decoding_def Let_def]
  have "carries e g f" "pd_expectedGeneration d = g" "pd_k d = int (Encoder_K e)" "pd_symbolSize d = int (en_symbolSize e)"
      "pd_originalSize d = int (en_original e)" using f i by blast+
  then obtain s where s: "coded e s" "fragment_row f = symbol_row s"
    and eq: "packetDecoder_Add c clock d f = (d\<lparr>pd_decoder := fst (Bounded_Add c ?b s ?now), pd_reads := Suc (pd_reads d)\<rparr>,
        map_sum DecoderErr (\<lambda>_. ()) (snd (Bounded_Add c ?b s ?now)))"
    by (rule packetDecoder_Add_carries [of e g f d c clock])
  let ?b' = "fst (Bounded_Add c ?b s ?now)"
  have h: "honest (en_source e) (en_symbolSize e) s" using coded_honest i s(1) by blast
  have "clock (pd_reads d + 0) < bd_deadline ?b" using i by blast
  then have now: "?now < bd_deadline ?b" by simp
  have "bd_symbols ?b < 4 * int (Encoder_K e)" "\<not> Bounded_Ready ?b" using i wait by (auto simp: packetDecoder_Ready_def)
  then have step: "\<exists>x. snd (Bounded_Add c ?b s ?now) = Inr x" "bounded_ok ?b'" "bd_failed ?b' = None" "bd_symbols ?b' \<le> bd_symbols ?b + 1"
    and out: "sha256 c (symbol_row s) \<in> the (bd_seen ?b) \<and> bd_decoder ?b' = bd_decoder ?b \<and> bd_seen ?b' = bd_seen ?b \<or>
       bd_decoder ?b' = fst (Decoder_Add (bd_decoder ?b) s) \<and> (\<exists>x. snd (Decoder_Add (bd_decoder ?b) s) = Inr x) \<and>
       the (bd_seen ?b') = insert (sha256 c (symbol_row s)) (the (bd_seen ?b))"
    using Bounded_Add_coded [of object e s ?b ?now c] i s(1) now by simp_all
  have dec: "follows_source (en_source e) (en_symbolSize e) (bd_decoder ?b') \<and> de_originalSize (bd_decoder ?b') = en_original e \<and>
      spans (bd_decoder ?b') (insert (symbol_row s) ?R) \<and> the (bd_seen ?b') \<subseteq> insert (sha256 c (symbol_row s)) (sha256 c ` ?R)"
    using out
  proof
    assume dup: "sha256 c (symbol_row s) \<in> the (bd_seen ?b) \<and> bd_decoder ?b' = bd_decoder ?b \<and> bd_seen ?b' = bd_seen ?b"
    then obtain r where r: "r \<in> ?R" "sha256 c r = sha256 c (symbol_row s)" using i by (metis (no_types, lifting) imageE subsetD)
    then have "r = symbol_row s"
      using not_collidesD [of "sha256 c" "map fragment_row fs" r "symbol_row s"] i f s(2) by (metis (no_types, lifting) image_mono list.set_map mem_Collect_eq subsetD subsetI image_eqI)
    with r dup i show ?thesis by (simp add: insert_absorb)
  next
    assume new: "bd_decoder ?b' = fst (Decoder_Add (bd_decoder ?b) s) \<and> (\<exists>x. snd (Decoder_Add (bd_decoder ?b) s) = Inr x) \<and>
       the (bd_seen ?b') = insert (sha256 c (symbol_row s)) (the (bd_seen ?b))"
    then have "spans (bd_decoder ?b') (insert (symbol_row s) ?R)"
      using Add_spans i by (metis follows_source_def)
    with new i Add_honest [of "en_source e" "en_symbolSize e" "bd_decoder ?b" s] h show ?thesis by auto
  qed
  have "\<forall>j < n. clock (Suc (pd_reads d) + j) < bd_deadline ?b"
    using i by (metis Suc_less_eq add_Suc_shift)
  with i f step dec s(2) show ?thesis unfolding eq by (auto simp: decoding_def Let_def)
qed

interpretation packets: object_decoder "packetDecoder_Add c clock" packetDecoder_Ready packetDecoder_Decode
  "decoding c clock object e fs g" "\<lambda>f. f \<in> set fs \<and> carries e g f" "\<lambda>F. determines e (fragment_row ` F)" object
proof unfold_locales
  fix n F d f
  assume "decoding c clock object e fs g (Suc n) F d" "\<not> packetDecoder_Ready d" "f \<in> set fs \<and> carries e g f"
  then show "snd (packetDecoder_Add c clock d f) = Inr () \<and>
      decoding c clock object e fs g n (insert f F) (fst (packetDecoder_Add c clock d f))" by (rule decoding_add)
next
  fix n F d
  assume "decoding c clock object e fs g n F d" and r: "packetDecoder_Ready d"
  note i = this(1) [unfolded decoding_def Let_def]
  have new: "NewEncoder object (int (en_symbolSize e)) = Inr e" using i by blast
  note src = NewEncoder_source [OF new]
  have "Decoder_Decode (bd_decoder (pd_decoder d)) = Inr object"
    using Decode_source [of "en_source e" "en_symbolSize e" "bd_decoder (pd_decoder d)"] i r src
    by (simp add: packetDecoder_Ready_def Bounded_Ready_def)
  with i show "packetDecoder_Decode d = Inr object" by (simp add: packetDecoder_Decode_def Bounded_Decode_def)
next
  fix n F d
  assume "decoding c clock object e fs g n F d" and gen: "determines e (fragment_row ` F)"
  note i = this(1) [unfolded decoding_def Let_def]
  let ?d = "bd_decoder (pd_decoder d)"
  have dims: "de_k ?d = Encoder_K e" "de_symbolSize ?d = en_symbolSize e" "decoder_ok ?d"
    using i by (simp_all add: follows_source_def Encoder_K_def)
  have "length (fragment_row f) = de_k ?d + de_symbolSize ?d" if "f \<in> F" for f
  proof -
    have "carries e g f" using that i by blast
    then obtain s where "coded e s" "fragment_row f = symbol_row s"
      by (auto simp: carries_def fragment_row_def split: sum.splits)
    with coded_honest [of object "int (en_symbolSize e)" e s] i dims show ?thesis
      by (simp add: honest_def agrees_def symbol_row_def Encoder_K_def)
  qed
  with i gen dims have "Decoder_Ready ?d"
    by (intro spans_ready [of ?d "fragment_row ` F"]) (auto simp: determines_def)
  then show "packetDecoder_Ready d" by (simp add: packetDecoder_Ready_def Bounded_Ready_def)
qed

section \<open>Properties\<close>

lemma newPacketDecoder_decoding:
  assumes new: "NewEncoder object (int (unat (bt_SymbolSize desc))) = Inr e"
    and k: "unat (bt_K desc) = Encoder_K e" and n: "unat (bt_OriginalSize desc) = length object"
    and com: "bt_Commitments desc = Some (Encoder_SourceCommitments c e)"
    and fit: "Encoder_K e + en_symbolSize e \<le> 476" and len: "length fs \<le> 4 * Encoder_K e"
    and clock: "\<forall>i < length fs. clock (Suc i) < clock 0 + 5 * minute"
    and coll: "\<not> collides (sha256 c) (map fragment_row fs)"
  obtains d where "newPacketDecoder clock desc = Inr d"
    "decoding c clock object e fs (bt_Generation desc) (length fs) {} d" "\<not> packetDecoder_Ready d"
proof -
  note src = NewEncoder_source [OF new]
  have sz: "unat (bt_SymbolSize desc) = en_symbolSize e" using src by simp
  let ?k = "int (Encoder_K e)" and ?s = "int (en_symbolSize e)" and ?n = "int (length object)"
  let ?new = "NewBoundedDecoder ?k ?s ?n (DefaultLimits ?k ?s) (Some (Encoder_SourceCommitments c e)) (clock 0)"
  have "0 < Encoder_K e" "0 < en_symbolSize e" using src by (auto simp: Encoder_K_def)
  then have pos: "0 < ?k" "0 < ?s" "?k + ?s \<le> 476" using fit by linarith+
  note lim = DefaultLimits_exact [OF pos]
  have small: "?k * ?s \<le> ?k * (?k + ?s)" using pos by (intro mult_left_mono) simp_all
  have "0 \<le> ?k * ?s" "?k * ?s \<le> 226576" using small lim(3) by simp_all
  then have cap: "(?k * ?s) mod 2 ^ 64 = ?k * ?s" by (intro mod_pos_pos_trivial) simp_all
  have "?n \<le> ?k * ?s" "0 < ?n" using src by (metis Encoder_K_def of_nat_le_iff of_nat_mult, simp)
  with cap pos obtain dec where dec: "NewDecoder ?k ?s ?n = Inr dec"
    by (metis NewDecoder_def linorder_not_le)
  then obtain b where b: "?new = Inr b" "bd_decoder b = dec" "bd_commitments b = Some (Encoder_SourceCommitments c e)"
      "bd_deadline b = clock 0 + 5 * minute" "bd_symbols b = 0" "bd_seen b = Some {}"
    using lim pos by (simp add: NewBoundedDecoder_def Limits_validate_def Encoder_SourceCommitments_def CommitSource_def
        Encoder_K_def minute_def second_def)
  note bf = default_limits_fit [OF b(1) pos(3)]
  have ok: "bounded_ok b \<and> bd_failed b = None" using NewBoundedDecoder_ok [OF b(1)] bf by blast
  have fol: "follows_source (en_source e) (en_symbolSize e) dec" "spans dec {}" "de_originalSize dec = length object"
    using NewDecoder_source [OF dec [unfolded Encoder_K_def]] by simp_all
  let ?d = "\<lparr>pd_expectedGeneration = bt_Generation desc, pd_k = ?k, pd_symbolSize = ?s, pd_originalSize = ?n,
      pd_decoder = b, pd_reads = 1\<rparr>"
  have "newPacketDecoder clock desc = Inr ?d" unfolding newPacketDecoder_def k n com sz Let_def b(1) sum.case ..
  moreover have "decoding c clock object e fs (bt_Generation desc) (length fs) {} ?d"
    using new [unfolded sz] ok b(2-6) bf fol src [THEN conjunct2, THEN conjunct2, THEN conjunct2, THEN conjunct2] len clock coll fit
    by (simp add: decoding_def Let_def)
  moreover have "de_rank dec = 0" "de_k dec = Encoder_K e"
    using dec by (auto simp: NewDecoder_def Let_def split: if_splits)
  then have "\<not> packetDecoder_Ready ?d"
    using pos(1) b(2) by (simp add: packetDecoder_Ready_def Bounded_Ready_def Decoder_Ready_def)
  ultimately show thesis by (rule that)
qed

lemma Reconstruct_verified:
  "Reconstruct c add ready decode d fs v = Inr data \<Longrightarrow> Verifier_Verify c v data = Inr ()"
  by (cases "Verifier_Verify c v data") (auto simp: Reconstruct_def guard_simps split: prod.splits sum.splits if_splits)

text \<open>
  End to end, from packets to the object. Take an object whose generation fits a packet and the descriptor
  that names its dimensions and commits to its source symbols. Feed the materializer at most four times K wire
  packets of the generation, systematic, coded or re-encoded, repeated or not, that together determine the source
  symbols, within the lifetime of the default limits. Then no packet is refused, no budget ends the generation,
  and reconstruction returns exactly the object; and no other packets at all make it return another object,
  unless two messages with one SHA-256 digest are in hand.
\<close>

theorem materializer_recovers:
  assumes "NewEncoder object (int (unat (bt_SymbolSize desc))) = Inr e" and "unat (bt_K desc) = Encoder_K e"
    and "unat (bt_OriginalSize desc) = length object" and "bt_Commitments desc = Some (Encoder_SourceCommitments c e)"
    and "Encoder_K e + en_symbolSize e \<le> 476" and "Verifier_Verify c v object = Inr ()"
    and "length fs \<le> 4 * Encoder_K e" and "\<forall>f \<in> set fs. carries e (bt_Generation desc) f"
    and "determines e (fragment_row ` set fs)" and "\<forall>i < length fs. clock (Suc i) < clock 0 + 5 * minute"
    and "\<not> collides (sha256 c) (map fragment_row fs)"
  shows "\<exists>d. newPacketDecoder clock desc = Inr d \<and>
    Reconstruct c (packetDecoder_Add c clock) packetDecoder_Ready packetDecoder_Decode d fs v = Inr object \<and>
    (\<forall>fs' clock' data. Reconstruct c (packetDecoder_Add c clock') packetDecoder_Ready packetDecoder_Decode d fs' v = Inr data \<longrightarrow>
      data = object \<or> collides (sha256 c) [object, data])"
proof -
  obtain d where d: "newPacketDecoder clock desc = Inr d" "\<not> packetDecoder_Ready d"
      "decoding c clock object e fs (bt_Generation desc) (length fs) {} d"
    using newPacketDecoder_decoding [OF assms(1-5,7,10,11)] by blast
  have "\<forall>f \<in> set fs. f \<in> set fs \<and> carries e (bt_Generation desc) f" using assms(8) by blast
  from packets.Reconstruct_object [OF d(3,2) this assms(9,6)]
  have "Reconstruct c (packetDecoder_Add c clock) packetDecoder_Ready packetDecoder_Decode d fs v = Inr object" .
  moreover have "data = object \<or> collides (sha256 c) [object, data]"
    if "Reconstruct c (packetDecoder_Add c clock') packetDecoder_Ready packetDecoder_Decode d fs' v = Inr data" for fs' clock' data
    using Reconstruct_verified [OF that] assms(6) by (auto simp: Verifier_Verify_Inr collides_def)
  ultimately show ?thesis using d(1) by (intro exI [of _ d]) simp
qed

text \<open>One packet of the smallest generation.\<close>

definition sample_descriptor :: batch_descriptor where
  "sample_descriptor = \<lparr>bt_Generation = replicate 16 0, bt_K = 1, bt_SymbolSize = 1, bt_OriginalSize = 1,
     bt_Commitments = Some (Encoder_SourceCommitments sample_crypto sample_encoder)\<rparr>"

definition sample_verifier :: verifier where
  "sample_verifier = \<lparr>ve_Root = sha256 sample_crypto [7], ve_PublicKey = replicate 32 0,
     ve_Signature = ed_sign sample_crypto (replicate 64 0) (SigningMessage (sha256 sample_crypto [7]))\<rparr>"

definition sample_wire :: bytes where
  "sample_wire = image sample_packet @ replicate 474 0"

lemma sample_wire_parse: "ParsePacket sample_wire = Inr sample_packet"
  unfolding sample_wire_def
  by (rule ParsePacket_image [OF sample_packet_ok])
    (simp_all add: sample_packet_def sample_symbol image_def PacketSize_def)

lemma sample_row: "fragment_row sample_wire = [1, 7]"
  by (simp add: fragment_row_def sample_wire_parse symbol_row_def sample_packet_def sample_symbol)

lemma sample_determines: "determines sample_encoder (fragment_row ` set [sample_wire])"
proof -
  have "addScaled (replicate 2 0) [1, 7] 1 \<in> row_span 2 {[1, 7]}" by (intro row_span.intros) simp
  then have "[1, 7] \<in> row_span 2 {[1, 7]}" by (simp add: addScaled_def numeral_2_eq_2)
  then show ?thesis
    by (simp add: determines_def sample_generation(2) sample_row)
      (auto simp add: sample_encoder_def numeral_2_eq_2 intro!: bexI [of _ "[1, 7]"])
qed

theorem materializer_recovers_witness:
  "\<exists>d. newPacketDecoder (\<lambda>_. 0) sample_descriptor = Inr d \<and>
    Reconstruct sample_crypto (packetDecoder_Add sample_crypto (\<lambda>_. 0)) packetDecoder_Ready packetDecoder_Decode d
      [sample_wire] sample_verifier = Inr [7]"
proof -
  have c: "\<forall>f \<in> set [sample_wire]. carries sample_encoder (bt_Generation sample_descriptor) f"
    using coded.systematic [OF sample_generation(4)] sample_generation(2)
    by (simp add: carries_def sample_wire_parse sample_packet_def sample_descriptor_def) (simp add: sample_encoder_def)
  have v: "Verifier_Verify sample_crypto sample_verifier [7] = Inr ()"
    by (simp add: Verifier_Verify_Inr sample_verifier_def sample_crypto_def sample_hash_def publicKeySize_def signatureSize_def)
  have "\<exists>d. newPacketDecoder (\<lambda>_. 0) sample_descriptor = Inr d \<and>
    Reconstruct sample_crypto (packetDecoder_Add sample_crypto (\<lambda>_. 0)) packetDecoder_Ready packetDecoder_Decode d
      [sample_wire] sample_verifier = Inr [7] \<and>
    (\<forall>fs' clock' data. Reconstruct sample_crypto (packetDecoder_Add sample_crypto clock') packetDecoder_Ready
        packetDecoder_Decode d fs' sample_verifier = Inr data \<longrightarrow> data = [7] \<or> collides (sha256 sample_crypto) [[7], data])"
  proof (rule materializer_recovers [OF _ _ _ _ _ v _ c sample_determines])
    show "NewEncoder [7] (int (unat (bt_SymbolSize sample_descriptor))) = Inr sample_encoder"
      using sample_generation(1) by (simp add: sample_descriptor_def)
  qed (simp_all add: Encoder_K_def sample_descriptor_def sample_encoder_def minute_def second_def collides_def)
  then show ?thesis by blast
qed

end
