(* ===== verification/HopReplay.thy ===== *)
theory HopReplay
  imports Prelude
begin

text \<open>
  The replay window of \<^verbatim>\<open>live/hop/replay.go\<close>: the highest sequence number and a 64-bit map of the ones below it.
  It refines a specification that remembers every accepted number.
\<close>

section \<open>The window\<close>

record replayWindow =
  rw_initialized :: bool
  rw_highest :: u32
  rw_bitmap :: u64

definition newWindow :: replayWindow where
  "newWindow = \<lparr>rw_initialized = False, rw_highest = 0, rw_bitmap = 0\<rparr>"

text \<open>The answer is whether the number was accepted; a refusal is \<^verbatim>\<open>ErrReplay\<close>.\<close>

definition Window_Accept :: "replayWindow \<Rightarrow> u32 \<Rightarrow> replayWindow \<times> bool" where
  "Window_Accept w sequence =
     (if sequence = 0 then (w, False)
      else if \<not> rw_initialized w then (w\<lparr>rw_initialized := True, rw_highest := sequence, rw_bitmap := 1\<rparr>, True)
      else if sequence > rw_highest w then
        (let shift = sequence - rw_highest w;
             bitmap = (if shift \<ge> 64 then 1 else push_bit (unat shift) (rw_bitmap w) OR 1)
         in (w\<lparr>rw_bitmap := bitmap, rw_highest := sequence\<rparr>, True))
      else let delta = rw_highest w - sequence in
        if delta \<ge> 64 \<or> rw_bitmap w AND push_bit (unat delta) 1 \<noteq> 0 then (w, False)
        else (w\<lparr>rw_bitmap := rw_bitmap w OR push_bit (unat delta) 1\<rparr>, True))"

section \<open>Specification\<close>

text \<open>
  The state is the list of accepted numbers, newest first. A number is accepted when it is not zero, was never
  accepted, and is less than 64 below the highest accepted one.
\<close>

definition highest :: "u32 list \<Rightarrow> nat" where
  "highest seen = Max (insert 0 (unat ` set seen))"

definition fresh :: "u32 list \<Rightarrow> u32 \<Rightarrow> bool" where
  "fresh seen q \<longleftrightarrow> q \<noteq> 0 \<and> q \<notin> set seen \<and> highest seen < unat q + 64"

definition spec_Accept :: "u32 list \<Rightarrow> u32 \<Rightarrow> u32 list \<times> bool" where
  "spec_Accept seen q = (if fresh seen q then (q # seen, True) else (seen, False))"

definition window_rel :: "replayWindow \<Rightarrow> u32 list \<Rightarrow> bool" where
  "window_rel w seen \<longleftrightarrow> rw_initialized w = (seen \<noteq> []) \<and> 0 \<notin> set seen \<and> distinct seen \<and>
     (seen \<noteq> [] \<longrightarrow> unat (rw_highest w) = highest seen \<and>
       (\<forall>d < 64. bit (rw_bitmap w) d \<longleftrightarrow> (\<exists>q \<in> set seen. unat q + d = highest seen)))"

lemma highest_Nil [simp]: "highest [] = 0"
  by (simp add: highest_def)

lemma highest_Cons [simp]: "highest (q # seen) = max (unat q) (highest seen)"
  by (cases "seen = []") (simp_all add: highest_def max.left_commute)

lemma le_highest: "q \<in> set seen \<Longrightarrow> unat q \<le> highest seen"
  by (simp add: highest_def)

lemma single_bit: "rw AND push_bit d 1 \<noteq> 0 \<longleftrightarrow> bit rw d" if "d < 64" for rw :: u64
proof -
  have "bit (rw AND push_bit d 1) n \<longleftrightarrow> n = d \<and> bit rw d" for n
    using that by (auto simp: bit_simps)
  then show ?thesis by (metis bit_eqI bit_0_eq bot_apply bot_bool_def)
qed

lemma unat_u32_sub: "v \<le> u \<Longrightarrow> unat (u - v) = unat u - unat v" for u v :: u32
  by (simp add: unat_sub)

text \<open>The three ways a number is taken: the first, a new highest, and one inside the window.\<close>

lemma rel_first:
  assumes "window_rel w []" and "q \<noteq> 0"
  shows "window_rel (w\<lparr>rw_initialized := True, rw_highest := q, rw_bitmap := 1\<rparr>) [q]"
  using assms by (auto simp: window_rel_def bit_simps)

lemma rel_higher:
  assumes rel: "window_rel w seen" and ne: "seen \<noteq> []" and q: "rw_highest w < q"
  defines "shift \<equiv> q - rw_highest w"
  defines "bitmap \<equiv> (if shift \<ge> 64 then 1 else push_bit (unat shift) (rw_bitmap w) OR 1)"
  shows "window_rel (w\<lparr>rw_bitmap := bitmap, rw_highest := q\<rparr>) (q # seen) \<and> fresh seen q"
proof -
  let ?H = "highest seen"
  have H: "unat (rw_highest w) = ?H" "?H < unat q" and bits: "\<forall>d < 64. bit (rw_bitmap w) d \<longleftrightarrow> (\<exists>p \<in> set seen. unat p + d = ?H)"
    using rel ne q by (auto simp: window_rel_def word_less_nat_alt)
  have old: "unat p \<le> ?H" if "p \<in> set seen" for p using le_highest [OF that] .
  have new: "q \<notin> set seen" "q \<noteq> 0" using old H(2) by fastforce+
  have shift: "unat shift = unat q - ?H" using q H(1) by (simp add: shift_def unat_u32_sub less_imp_le)
  have "bit bitmap d \<longleftrightarrow> d = 0 \<or> (\<exists>p \<in> set seen. unat p + d = unat q)" if d: "d < 64" for d
  proof (cases "shift \<ge> 64")
    case True
    then have "64 \<le> unat q - ?H" using shift by (simp add: word_le_nat_alt)
    then have "unat p + d \<noteq> unat q" if "p \<in> set seen" for p using old [OF that] d by linarith
    with True show ?thesis by (auto simp: bitmap_def bit_simps)
  next
    case False
    have "(\<exists>p \<in> set seen. unat p + d = unat q) \<longleftrightarrow> unat shift \<le> d \<and> (\<exists>p \<in> set seen. unat p + (d - unat shift) = ?H)"
    proof -
      have "unat p + d = unat q \<longleftrightarrow> unat shift \<le> d \<and> unat p + (d - unat shift) = ?H" if "p \<in> set seen" for p
        using old [OF that] H(2) shift by linarith
      then show ?thesis by blast
    qed
    with False d bits show ?thesis by (auto simp: bitmap_def bit_simps)
  qed
  with H new rel ne show ?thesis by (auto simp: window_rel_def fresh_def max_def)
qed

lemma rel_inside:
  assumes rel: "window_rel w seen" and ne: "seen \<noteq> []" and q: "q \<le> rw_highest w" "q \<noteq> 0"
  defines "delta \<equiv> rw_highest w - q"
  shows "(delta \<ge> 64 \<or> rw_bitmap w AND push_bit (unat delta) 1 \<noteq> 0) = (\<not> fresh seen q)"
    and "fresh seen q \<Longrightarrow> window_rel (w\<lparr>rw_bitmap := rw_bitmap w OR push_bit (unat delta) 1\<rparr>) (q # seen)"
proof -
  let ?H = "highest seen"
  have H: "unat (rw_highest w) = ?H" "unat q \<le> ?H" and bits: "\<forall>d < 64. bit (rw_bitmap w) d \<longleftrightarrow> (\<exists>p \<in> set seen. unat p + d = ?H)"
    using rel ne q by (auto simp: window_rel_def word_le_nat_alt)
  have delta: "unat q + unat delta = ?H" using q H(1) by (simp add: delta_def unat_u32_sub word_le_nat_alt)
  have in_seen: "q \<in> set seen \<longleftrightarrow> (\<exists>p \<in> set seen. unat p + unat delta = ?H)"
    using delta by (metis add_right_cancel word_unat_eq_iff)
  have small: "delta < 64 \<longleftrightarrow> unat delta < 64" by (simp add: word_less_nat_alt)
  then show "(delta \<ge> 64 \<or> rw_bitmap w AND push_bit (unat delta) 1 \<noteq> 0) = (\<not> fresh seen q)"
    using q(2) delta bits in_seen single_bit [of "unat delta" "rw_bitmap w"] by (auto simp: fresh_def not_le)
  assume fresh: "fresh seen q"
  have "bit (rw_bitmap w OR push_bit (unat delta) 1) d \<longleftrightarrow> (\<exists>p \<in> set (q # seen). unat p + d = ?H)" if "d < 64" for d
    using bits that delta by (auto simp: bit_simps)
  with H fresh rel ne show "window_rel (w\<lparr>rw_bitmap := rw_bitmap w OR push_bit (unat delta) 1\<rparr>) (q # seen)"
    by (simp add: window_rel_def fresh_def max_absorb2)
qed

lemma Window_Accept_sim:
  assumes rel: "window_rel w seen"
  shows "window_rel (fst (Window_Accept w q)) (fst (spec_Accept seen q)) \<and> snd (Window_Accept w q) = snd (spec_Accept seen q)"
proof (cases "q = 0 \<or> seen = []")
  case True
  with rel rel_first [of w q] show ?thesis by (auto simp: Window_Accept_def spec_Accept_def fresh_def window_rel_def)
next
  case False
  then have ini: "rw_initialized w" "q \<noteq> 0" "seen \<noteq> []" using rel by (simp_all add: window_rel_def)
  show ?thesis
  proof (cases "rw_highest w < q")
    case True
    from rel_higher [OF rel ini(3) this] True ini show ?thesis by (simp add: Window_Accept_def spec_Accept_def Let_def)
  next
    case False
    then have le: "q \<le> rw_highest w" by simp
    show ?thesis
    proof (cases "fresh seen q")
      case True
      with rel_inside [OF rel ini(3) le ini(2)] False ini show ?thesis by (simp add: Window_Accept_def spec_Accept_def Let_def)
    next
      case stale: False
      with rel_inside(1) [OF rel ini(3) le ini(2)] False ini rel show ?thesis by (simp add: Window_Accept_def spec_Accept_def Let_def)
    qed
  qed
qed

interpretation replay: simulation Window_Accept spec_Accept window_rel
  by unfold_locales (rule Window_Accept_sim)

section \<open>Property\<close>

lemma spec_run:
  "run_states spec_Accept seen qs = rev (map fst (filter snd (zip qs (answers spec_Accept seen qs)))) @ seen"
  by (induction qs arbitrary: seen) (simp_all add: spec_Accept_def)

text \<open>
  C20: Every sequence number is delivered at most once, and reordering inside the window costs nothing. After any
  arrivals at all, the numbers the window has let through are pairwise different; and the next number is let through
  exactly when it is not zero, was not let through before, and is less than 64 below the highest one let through.
  The 64-bit map therefore loses nothing against a receiver that remembers every number.
\<close>

theorem replay_window_refines:
  "let accepted = map fst (filter snd (zip qs (answers Window_Accept newWindow qs)));
       w = run_states Window_Accept newWindow qs
   in distinct accepted \<and>
     (\<forall>q. snd (Window_Accept w q) \<longleftrightarrow>
       q \<noteq> 0 \<and> q \<notin> set accepted \<and> (\<forall>p \<in> set accepted. unat p < unat q + 64))"
proof -
  let ?w = "run_states Window_Accept newWindow qs" and ?seen = "run_states spec_Accept [] qs"
  let ?acc = "map fst (filter snd (zip qs (answers Window_Accept newWindow qs)))"
  have sim: "window_rel ?w ?seen" "answers Window_Accept newWindow qs = answers spec_Accept [] qs"
    using replay.run_sim [of newWindow "[]" qs] by (simp_all add: window_rel_def newWindow_def)
  have seen: "?seen = rev ?acc" using spec_run [of "[]" qs] sim(2) by simp
  have "distinct ?acc" using sim(1) seen by (simp add: window_rel_def)
  moreover have "snd (Window_Accept ?w q) \<longleftrightarrow> fresh ?seen q" for q
    using Window_Accept_sim [OF sim(1), of q] by (simp add: spec_Accept_def)
  moreover have "fresh ?seen q \<longleftrightarrow> q \<noteq> 0 \<and> q \<notin> set ?acc \<and> (\<forall>p \<in> set ?acc. unat p < unat q + 64)" for q
    unfolding seen fresh_def by (auto simp: highest_def)
  ultimately show ?thesis unfolding Let_def by blast
qed

theorem replay_window_refines_witness:
  "\<not> snd (Window_Accept (run_states Window_Accept newWindow [5, 3]) 3) \<and>
   snd (Window_Accept (run_states Window_Accept newWindow [5, 3]) 4)"
proof -
  have acc: "map fst (filter snd (zip [5, 3] (answers Window_Accept newWindow [5, 3]))) = [5, 3]"
    by (simp add: Window_Accept_def newWindow_def Let_def)
  from replay_window_refines [of "[5, 3]", unfolded Let_def acc] show ?thesis by simp
qed

end
