(* ===== verification/HopFrame.thy ===== *)
theory HopFrame
  imports GoStd
begin

text \<open>
  One hop on the wire, \<^verbatim>\<open>live/hop/frame.go\<close>: routing metadata, the local header of a cell in memory and the sealed
  header of a cell on a link, the keystream, \<^verbatim>\<open>Seal\<close> and \<^verbatim>\<open>Open\<close>. A cell is a byte list of length 1200; a
  nil pointer is \<open>None\<close>. \<^verbatim>\<open>Seal\<close> and \<^verbatim>\<open>Open\<close> rewrite the cell behind the pointer, so they return it.
\<close>

section \<open>Cells and metadata\<close>

definition CellSize :: nat where "CellSize = 1200"
definition CiphertextSize :: nat where "CiphertextSize = 1152"
definition HeaderSize :: nat where "HeaderSize = 48"
definition TagSize :: nat where "TagSize = 16"
definition MaximumBatch :: nat where "MaximumBatch = 256"
definition FlagWork :: u16 where "FlagWork = 1"
definition sealedSize :: nat where "sealedSize = 24"
definition sequenceOffset :: nat where "sequenceOffset = 4"
definition sealedOffset :: nat where "sealedOffset = 8"
definition tagOffset :: nat where "tagOffset = HeaderSize - TagSize"
definition streamKeyLabel :: string where "streamKeyLabel = ''nomad-hop-link-stream-v2''"
definition headerTagLabel :: string where "headerTagLabel = ''nomad-hop-cell-v2''"
definition wireMagic :: bytes where "wireMagic = bytes_of ''NHC'' @ [2]"
definition localMagic :: bytes where "localMagic = bytes_of ''NHL'' @ [2]"

lemmas frame_sizes = CellSize_def CiphertextSize_def HeaderSize_def TagSize_def MaximumBatch_def sealedSize_def
  sequenceOffset_def sealedOffset_def tagOffset_def

record metadata =
  md_Sender :: u16
  md_Ordinal :: u16
  md_BatchSize :: u16
  md_Flags :: u16
  md_Stream :: bytes
  md_Sequence :: u32

record hop_context =
  hc_TopologyDigest :: bytes
  hc_NetworkID :: string
  hc_Epoch :: u64
  hc_Receiver :: u16

datatype hop_error =
    CellRequired | UnsupportedFlags | EmptyStream | BatchCoordinates | CoverWithWork | NotLocalHeader | NotWireHeader
  | ZeroKey | ContextIncomplete | ZeroSequence | UnsupportedHeader | AuthenticationFailed | SenderMismatch | PayloadCount

definition IsWork :: "metadata \<Rightarrow> bool" where
  "IsWork m \<longleftrightarrow> md_Flags m AND FlagWork \<noteq> 0"

definition validateMetadata :: "metadata \<Rightarrow> hop_error + unit" where
  "validateMetadata m =
     (if md_Flags m AND NOT FlagWork \<noteq> 0 then Inl UnsupportedFlags
      else if IsWork m then
        (if md_Stream m = replicate 16 0 then Inl EmptyStream
         else if md_BatchSize m < 2 \<or> md_BatchSize m > of_nat MaximumBatch \<or> md_Ordinal m \<ge> md_BatchSize m
           then Inl BatchCoordinates
         else Inr ())
      else if md_Stream m \<noteq> replicate 16 0 \<or> md_Ordinal m \<noteq> 0 \<or> md_BatchSize m \<noteq> 0 then Inl CoverWithWork
      else Inr ())"

definition CoverMetadata :: metadata where
  "CoverMetadata = \<lparr>md_Sender = 0, md_Ordinal = 0, md_BatchSize = 0, md_Flags = 0, md_Stream = replicate 16 0, md_Sequence = 0\<rparr>"

definition WorkMetadata :: "bytes \<Rightarrow> u16 \<Rightarrow> u16 \<Rightarrow> hop_error + metadata" where
  "WorkMetadata stream ordinal batchSize =
     (let m = \<lparr>md_Sender = 0, md_Ordinal = ordinal, md_BatchSize = batchSize, md_Flags = FlagWork, md_Stream = stream,
               md_Sequence = 0\<rparr>
      in andThen (validateMetadata m) (\<lambda>_. Inr m))"

section \<open>Headers\<close>

definition encodeSealed :: "metadata \<Rightarrow> bytes" where
  "encodeSealed m = be16 (md_Sender m) @ be16 (md_Ordinal m) @ be16 (md_BatchSize m) @ be16 (md_Flags m) @ md_Stream m"

definition decodeSealed :: "bytes \<Rightarrow> metadata" where
  "decodeSealed source = \<lparr>md_Sender = be_dec (slice 0 2 source), md_Ordinal = be_dec (slice 2 4 source),
     md_BatchSize = be_dec (slice 4 6 source), md_Flags = be_dec (slice 6 8 source), md_Stream = slice 8 24 source,
     md_Sequence = 0\<rparr>"

definition encodeLocalHeader :: "metadata \<Rightarrow> bytes" where
  "encodeLocalHeader m = localMagic @ be16 (md_Ordinal m) @ be16 (md_BatchSize m) @ be16 (md_Flags m) @ md_Stream m
     @ replicate (HeaderSize - 26) 0"

definition decodeLocalHeader :: "bytes \<Rightarrow> hop_error + metadata" where
  "decodeLocalHeader source =
     (if length source \<noteq> HeaderSize \<or> slice 0 4 source \<noteq> localMagic then Inl NotLocalHeader
      else let m = \<lparr>md_Sender = 0, md_Ordinal = be_dec (slice 4 6 source), md_BatchSize = be_dec (slice 6 8 source),
                    md_Flags = be_dec (slice 8 10 source), md_Stream = slice 10 26 source, md_Sequence = 0\<rparr>
           in andThen (validateMetadata m) (\<lambda>_. Inr m))"

definition SetMetadata :: "bytes option \<Rightarrow> metadata \<Rightarrow> bytes option \<times> (hop_error + unit)" where
  "SetMetadata cell m =
     (case cell of
        None \<Rightarrow> (None, Inl CellRequired)
      | Some cl \<Rightarrow>
          (case validateMetadata m of
             Inl e \<Rightarrow> (Some cl, Inl e)
           | Inr _ \<Rightarrow> (Some (take CiphertextSize cl @ encodeLocalHeader m), Inr ())))"

definition LocalMetadata :: "bytes \<Rightarrow> hop_error + metadata" where
  "LocalMetadata cell = decodeLocalHeader (drop CiphertextSize cell)"

definition WireSequence :: "bytes \<Rightarrow> hop_error + u32" where
  "WireSequence cell =
     (let header = drop CiphertextSize cell in
      if slice 0 4 header \<noteq> wireMagic then Inl NotWireHeader
      else Inr (be_dec (slice sequenceOffset (sequenceOffset + 4) header)))"

definition Ciphertext :: "bytes \<Rightarrow> bytes" where
  "Ciphertext cell = take CiphertextSize cell"

definition FromCiphertext :: "bytes \<Rightarrow> metadata \<Rightarrow> hop_error + bytes" where
  "FromCiphertext payload m =
     (case SetMetadata (Some (payload @ replicate (CellSize - CiphertextSize) 0)) m of
        (cell, Inl e) \<Rightarrow> Inl e
      | (cell, Inr _) \<Rightarrow> Inr (the cell))"

definition StreamFor :: "crypto \<Rightarrow> bytes list \<Rightarrow> hop_error + bytes" where
  "StreamFor c payloads =
     (if length payloads < 2 \<or> length payloads > MaximumBatch then Inl PayloadCount
      else Inr (take 16 (sha256 c (bytes_of ''nomad-live-stream-v1'' @ be16 (of_nat (length payloads)) @ concat payloads))))"

section \<open>Keystream and tag\<close>

text \<open>\<^verbatim>\<open>hmac.New(sha256.New, key)\<close> over SHA-256's 64-byte blocks.\<close>

definition hmac :: "crypto \<Rightarrow> bytes \<Rightarrow> bytes \<Rightarrow> bytes" where
  "hmac c key message =
     (let k = (if length key > 64 then sha256 c key else key);
          padded = k @ replicate (64 - length k) 0
      in sha256 c (map (\<lambda>b. b XOR 0x5c) padded @ sha256 c (map (\<lambda>b. b XOR 0x36) padded @ message)))"

definition bindContext :: "hop_context \<Rightarrow> bytes" where
  "bindContext x = hc_TopologyDigest x @ be64 (hc_Epoch x) @ be16 (hc_Receiver x)
     @ be16 (of_nat (length (hc_NetworkID x))) @ bytes_of (hc_NetworkID x)"

definition keystreamBlockSize :: nat where "keystreamBlockSize = 32"

record counterStream =
  ks_key :: bytes
  ks_counter :: u32
  ks_block :: bytes
  ks_offset :: nat

definition linkStream :: "crypto \<Rightarrow> bytes \<Rightarrow> hop_context \<Rightarrow> u32 \<Rightarrow> counterStream" where
  "linkStream c key x sequence =
     \<lparr>ks_key = hmac c key (bytes_of streamKeyLabel @ bindContext x @ be32 sequence), ks_counter = 0,
      ks_block = replicate keystreamBlockSize 0, ks_offset = keystreamBlockSize\<rparr>"

definition refill :: "crypto \<Rightarrow> counterStream \<Rightarrow> counterStream" where
  "refill c st =
     (if ks_offset st = keystreamBlockSize
      then st\<lparr>ks_block := hmac c (ks_key st) (be32 (ks_counter st)), ks_counter := ks_counter st + 1, ks_offset := 0\<rparr>
      else st)"

fun XORKeyStream :: "crypto \<Rightarrow> counterStream \<Rightarrow> bytes \<Rightarrow> bytes \<times> counterStream" where
  "XORKeyStream c st [] = ([], st)"
| "XORKeyStream c st (b # bs) =
     (let st1 = refill c st;
          (out, st2) = XORKeyStream c (st1\<lparr>ks_offset := Suc (ks_offset st1)\<rparr>) bs
      in ((b XOR ks_block st1 ! ks_offset st1) # out, st2))"

definition authenticationTag :: "crypto \<Rightarrow> bytes \<Rightarrow> bytes \<Rightarrow> hop_context \<Rightarrow> bytes" where
  "authenticationTag c cell key x =
     take TagSize (hmac c key (bytes_of headerTagLabel @ bindContext x @ take (CiphertextSize + tagOffset) cell))"

definition validateAuthentication :: "bytes \<Rightarrow> hop_context \<Rightarrow> hop_error + unit" where
  "validateAuthentication key x =
     (if key = replicate 32 0 then Inl ZeroKey
      else if hc_TopologyDigest x = replicate 32 0 \<or> hc_NetworkID x = [] \<or> hc_Epoch x = 0 then Inl ContextIncomplete
      else Inr ())"

section \<open>Seal and open\<close>

definition Seal ::
    "crypto \<Rightarrow> bytes option \<Rightarrow> metadata \<Rightarrow> u16 \<Rightarrow> u32 \<Rightarrow> bytes \<Rightarrow> hop_context \<Rightarrow> bytes option \<times> (hop_error + unit)" where
  "Seal c cell m sender sequence key x =
     (case cell of
        None \<Rightarrow> (None, Inl CellRequired)
      | Some cl \<Rightarrow>
          let m = m\<lparr>md_Sender := sender, md_Sequence := sequence\<rparr> in
          (case andThen (validateAuthentication key x) (\<lambda>_.
                andThen (require (sequence \<noteq> 0) ZeroSequence) (\<lambda>_. validateMetadata m)) of
             Inl e \<Rightarrow> (Some cl, Inl e)
           | Inr _ \<Rightarrow>
               let (body, st) = XORKeyStream c (linkStream c key x sequence) (take CiphertextSize cl);
                   (sealed, _) = XORKeyStream c st (encodeSealed m);
                   cl1 = body @ wireMagic @ be32 sequence @ sealed @ drop (CiphertextSize + tagOffset) cl
               in (Some (take (CiphertextSize + tagOffset) cl1 @ authenticationTag c cl1 key x), Inr ())))"

definition Open ::
    "crypto \<Rightarrow> bytes option \<Rightarrow> u16 \<Rightarrow> bytes \<Rightarrow> hop_context \<Rightarrow> bytes option \<times> (hop_error + metadata)" where
  "Open c cell expectedSender key x =
     (case cell of
        None \<Rightarrow> (None, Inl CellRequired)
      | Some cl \<Rightarrow>
          let header = drop CiphertextSize cl;
              sequence = be_dec (slice sequenceOffset (sequenceOffset + 4) header);
              (body, st) = XORKeyStream c (linkStream c key x sequence) (take CiphertextSize cl);
              (sealed, _) = XORKeyStream c st (slice sealedOffset (sealedOffset + sealedSize) header);
              m = (decodeSealed sealed)\<lparr>md_Sequence := sequence\<rparr>
          in (case andThen (validateAuthentication key x) (\<lambda>_.
                   andThen (require (slice 0 4 header = wireMagic) UnsupportedHeader) (\<lambda>_.
                   andThen (require (drop tagOffset header = authenticationTag c cl key x) AuthenticationFailed) (\<lambda>_.
                   andThen (require (sequence \<noteq> 0) ZeroSequence) (\<lambda>_.
                   andThen (require (md_Sender m = expectedSender) SenderMismatch) (\<lambda>_. validateMetadata m))))) of
                Inl e \<Rightarrow> (Some cl, Inl e)
              | Inr _ \<Rightarrow> (Some (body @ encodeLocalHeader m), Inr m)))"

section \<open>The keystream\<close>

lemma length_XORKeyStream [simp]: "length (fst (XORKeyStream c st bs)) = length bs"
  by (induction bs arbitrary: st) (simp_all add: Let_def split: prod.split, metis fst_conv)

lemma XORKeyStream_state:
  "length bs = length bs' \<Longrightarrow> snd (XORKeyStream c st bs) = snd (XORKeyStream c st bs')"
proof (induction bs arbitrary: st bs')
  case (Cons b bs)
  then obtain b' cs where "bs' = b' # cs" "length bs = length cs" by (cases bs') auto
  with Cons.IH [of cs] show ?case by (simp add: Let_def split_def)
qed simp

lemma XORKeyStream_involution: "fst (XORKeyStream c st (fst (XORKeyStream c st bs))) = bs"
  by (induction bs arbitrary: st) (simp_all add: Let_def split_def xor.assoc)

section \<open>Wire images\<close>

lemma length_magic [simp]: "length wireMagic = 4" "length localMagic = 4"
  by (simp_all add: wireMagic_def localMagic_def)

lemma be16_dec [simp]: "be_dec (be16 w) = w"
  by (rule be_dec_enc) simp

lemma be32_dec [simp]: "be_dec (be32 w) = w"
  by (rule be_dec_enc) simp

lemma be16_inj [simp]: "be16 v = be16 w \<longleftrightarrow> v = w"
  by (rule be_enc_inj) simp

lemma be16_of_dec [simp]: "length bs = 2 \<Longrightarrow> be16 (be_dec bs) = bs"
  using be_enc_dec [of bs, where ?'a = 16] by simp

lemma be32_of_dec [simp]: "length bs = 4 \<Longrightarrow> be32 (be_dec bs) = bs"
  using be_enc_dec [of bs, where ?'a = 32] by simp

lemma decode_encodeSealed: "length (md_Stream m) = 16 \<Longrightarrow> decodeSealed (encodeSealed m) = m\<lparr>md_Sequence := 0\<rparr>"
  by (simp add: decodeSealed_def encodeSealed_def slice_def del: be_enc.simps)

lemma length_encodeSealed [simp]: "length (encodeSealed m) = 8 + length (md_Stream m)"
  by (simp add: encodeSealed_def)

lemma slice_cat: "i \<le> j \<Longrightarrow> j \<le> k \<Longrightarrow> slice i j xs @ slice j k xs = slice i k xs"
  using take_add [of "j - i" "k - j" "drop i xs"] by (simp add: slice_def)

lemma slice_all: "length xs \<le> k \<Longrightarrow> slice 0 k xs = xs"
  by (simp add: slice_def)

lemma encode_decodeSealed:
  assumes "length bs = 24"
  shows "encodeSealed (decodeSealed bs) = bs" and "length (md_Stream (decodeSealed bs)) = 16"
proof -
  have "encodeSealed (decodeSealed bs) = slice 0 2 bs @ slice 2 4 bs @ slice 4 6 bs @ slice 6 8 bs @ slice 8 24 bs"
    using assms by (simp add: encodeSealed_def decodeSealed_def)
  also have "\<dots> = bs" using assms by (simp add: slice_cat slice_all)
  finally show "encodeSealed (decodeSealed bs) = bs" .
  show "length (md_Stream (decodeSealed bs)) = 16" using assms by (simp add: decodeSealed_def)
qed

text \<open>What the tag covers, and the tag over it.\<close>

definition covered :: "bytes \<Rightarrow> u32 \<Rightarrow> bytes \<Rightarrow> bytes" where
  "covered body sequence sealed = body @ wireMagic @ be32 sequence @ sealed"

definition tagOf :: "crypto \<Rightarrow> bytes \<Rightarrow> hop_context \<Rightarrow> bytes \<Rightarrow> bytes" where
  "tagOf c key x message = take TagSize (hmac c key (bytes_of headerTagLabel @ bindContext x @ message))"

text \<open>The two passes over one keystream: the payload, then the routing fields.\<close>

definition encipher :: "crypto \<Rightarrow> bytes \<Rightarrow> hop_context \<Rightarrow> u32 \<Rightarrow> bytes \<Rightarrow> bytes \<Rightarrow> bytes \<times> bytes" where
  "encipher c key x sequence body plain =
     (let (b, st) = XORKeyStream c (linkStream c key x sequence) body in (b, fst (XORKeyStream c st plain)))"

lemma encipher_involution:
  "encipher c key x q (fst (encipher c key x q body plain)) (snd (encipher c key x q body plain)) = (body, plain)"
  using XORKeyStream_state [of "fst (XORKeyStream c (linkStream c key x q) body)" body c "linkStream c key x q"]
  by (simp add: encipher_def split_def Let_def XORKeyStream_involution)

lemma length_encipher [simp]:
  "length (fst (encipher c key x q body plain)) = length body" "length (snd (encipher c key x q body plain)) = length plain"
  by (simp_all add: encipher_def split_def Let_def)

lemma length_tagOf [simp]: "hash_ok c \<Longrightarrow> length (tagOf c key x message) = 16"
  by (simp add: tagOf_def hmac_def Let_def hash_ok_def frame_sizes)

lemma length_covered [simp]: "length (covered body q sealed) = length body + 8 + length sealed"
  by (simp add: covered_def)

lemma Seal_image:
  assumes "length cl = CellSize" and "length (md_Stream m) = 16"
  shows "Seal c (Some cl) m s q key x =
    (let m = m\<lparr>md_Sender := s, md_Sequence := q\<rparr>;
         (body, sealed) = encipher c key x q (take CiphertextSize cl) (encodeSealed m)
     in case andThen (validateAuthentication key x) (\<lambda>_. andThen (require (q \<noteq> 0) ZeroSequence) (\<lambda>_. validateMetadata m)) of
          Inl e \<Rightarrow> (Some cl, Inl e)
        | Inr _ \<Rightarrow> (Some (covered body q sealed @ tagOf c key x (covered body q sealed)), Inr ()))"
  using assms unfolding Seal_def
  by (simp add: encipher_def split_def Let_def covered_def tagOf_def authenticationTag_def frame_sizes del: be_enc.simps split: sum.split)

lemma Open_image:
  assumes "length body = CiphertextSize" "length sealed = sealedSize"
  shows "Open c (Some (covered body q sealed @ tag)) s key x =
    (let (payload, plain) = encipher c key x q body sealed;
         m = (decodeSealed plain)\<lparr>md_Sequence := q\<rparr>
     in case andThen (validateAuthentication key x) (\<lambda>_. andThen (require (tag = tagOf c key x (covered body q sealed)) AuthenticationFailed) (\<lambda>_.
             andThen (require (q \<noteq> 0) ZeroSequence) (\<lambda>_. andThen (require (md_Sender m = s) SenderMismatch) (\<lambda>_. validateMetadata m)))) of
          Inl e \<Rightarrow> (Some (covered body q sealed @ tag), Inl e)
        | Inr _ \<Rightarrow> (Some (payload @ encodeLocalHeader m), Inr m))"
  using assms unfolding Open_def
  by (simp add: encipher_def split_def Let_def covered_def tagOf_def authenticationTag_def frame_sizes slice_def
      del: be_enc.simps split: sum.split)

text \<open>Every cell with the wire magic is such an image.\<close>

lemma wire_image:
  assumes "length w = CellSize" and "slice 0 4 (drop CiphertextSize w) = wireMagic"
  obtains body q sealed tag where "w = covered body q sealed @ tag" "length body = CiphertextSize"
    "length sealed = sealedSize" "length tag = TagSize"
proof
  let ?h = "drop CiphertextSize w"
  have "?h = slice 0 4 ?h @ slice 4 8 ?h @ slice 8 32 ?h @ slice 32 48 ?h"
    using assms(1) by (simp add: slice_cat slice_all frame_sizes)
  then have "?h = wireMagic @ be32 (be_dec (slice 4 8 ?h)) @ slice 8 32 ?h @ slice 32 48 ?h"
    using assms by (simp add: frame_sizes del: be_enc.simps)
  then show "w = covered (take CiphertextSize w) (be_dec (slice 4 8 ?h)) (slice 8 32 ?h) @ slice 32 48 ?h"
    by (metis append.assoc append_take_drop_id covered_def)
qed (use assms(1) in \<open>simp_all add: frame_sizes\<close>)

text \<open>A local cell is read back as it was written.\<close>

lemma LocalMetadata_local:
  assumes "length payload = CiphertextSize" and "length (md_Stream m) = 16" and "validateMetadata m = Inr ()"
  shows "LocalMetadata (payload @ encodeLocalHeader m) = Inr (m\<lparr>md_Sender := 0, md_Sequence := 0\<rparr>)"
proof -
  have "validateMetadata \<lparr>md_Sender = 0, md_Ordinal = md_Ordinal m, md_BatchSize = md_BatchSize m, md_Flags = md_Flags m,
      md_Stream = md_Stream m, md_Sequence = 0\<rparr> = Inr ()"
    using assms(3) by (simp add: validateMetadata_def IsWork_def split: if_splits)
  with assms(1,2) show ?thesis
    by (cases m) (simp add: LocalMetadata_def decodeLocalHeader_def encodeLocalHeader_def slice_def frame_sizes Let_def del: be_enc.simps)
qed

lemma Open_accepts:
  assumes "length w = CellSize" and "Open c (Some w) s key x = (Some p, Inr m)"
  obtains body q sealed where "w = covered body q sealed @ tagOf c key x (covered body q sealed)"
    "length body = CiphertextSize" "length sealed = sealedSize" "validateAuthentication key x = Inr ()" "q \<noteq> 0"
    "m = (decodeSealed (snd (encipher c key x q body sealed)))\<lparr>md_Sequence := q\<rparr>" "md_Sender m = s"
    "validateMetadata m = Inr ()" "p = fst (encipher c key x q body sealed) @ encodeLocalHeader m"
proof -
  have magic: "slice 0 4 (drop CiphertextSize w) = wireMagic"
    using assms(2) by (auto simp: Open_def guard_simps Let_def split_def split: sum.splits)
  obtain body q sealed tag where w: "w = covered body q sealed @ tag" "length body = CiphertextSize" "length sealed = sealedSize"
    using wire_image [OF assms(1) magic] by metis
  from assms(2) [unfolded w(1) Open_image [OF w(2,3)]] show thesis
    by (intro that [OF _ w(2,3), of q]) (auto simp: w(1) guard_simps Let_def split_def split: sum.splits)
qed

lemma bindContext_inj:
  assumes "length (hc_TopologyDigest x) = 32" "length (hc_TopologyDigest y) = 32" "length m = length n"
  shows "bytes_of label @ bindContext x @ m = bytes_of label @ bindContext y @ n \<longleftrightarrow> x = y \<and> m = n"
proof
  assume eq: "bytes_of label @ bindContext x @ m = bytes_of label @ bindContext y @ n"
  have "length (hc_NetworkID x) = length (hc_NetworkID y)"
    using arg_cong [OF eq, of length] assms by (simp add: bindContext_def)
  with eq assms have "hc_TopologyDigest x = hc_TopologyDigest y" "hc_Epoch x = hc_Epoch y" "hc_Receiver x = hc_Receiver y"
      "hc_NetworkID x = hc_NetworkID y" "m = n"
    by (simp_all add: bindContext_def del: be_enc.simps)
  then show "x = y \<and> m = n" by simp
qed simp

section \<open>Properties\<close>

text \<open>
  C19: The sealed form of a cell is exact. What is sealed for a peer opens at that peer to the same payload and
  metadata, and the sealed cell shows only its sequence number. Conversely, whatever opens is the seal of what it
  opened to, byte for byte, by the sender it is attributed to, so no second wire form of a cell is accepted.
  Whenever opening fails, for whatever reason, the caller's cell is unchanged. A cell that opens in two different
  contexts, another network, epoch, topology or receiver, exhibits two messages with the same tag.
\<close>

theorem hop_seal_open:
  assumes "hash_ok c" and "length cl = CellSize" and "length (md_Stream m) = 16" and "length w = CellSize"
    and "length (hc_TopologyDigest x) = 32" and "length (hc_TopologyDigest y) = 32"
  shows "(Seal c (Some cl) m s q key x = (Some v, Inr ()) \<longrightarrow> length v = CellSize \<and> WireSequence v = Inr q \<and>
      Open c (Some v) s key x = (Some (Ciphertext cl @ encodeLocalHeader m), Inr (m\<lparr>md_Sender := s, md_Sequence := q\<rparr>))) \<and>
    (Open c (Some w) s key x = (Some p, Inr m') \<longrightarrow>
      md_Sender m' = s \<and> Seal c (Some p) m' s (md_Sequence m') key x = (Some w, Inr ())) \<and>
    (Open c cell s key x = (cell', Inl e) \<longrightarrow> cell' = cell) \<and>
    (Open c (Some w) s key x = (Some p, Inr m') \<and> Open c (Some w) s' key y = (Some p', Inr m'') \<longrightarrow>
      x = y \<or> collides (\<lambda>t. take TagSize (hmac c key t))
        [bytes_of headerTagLabel @ bindContext x @ take (CiphertextSize + tagOffset) w,
         bytes_of headerTagLabel @ bindContext y @ take (CiphertextSize + tagOffset) w])"
proof (intro conjI impI)
  let ?m = "m\<lparr>md_Sender := s, md_Sequence := q\<rparr>"
  obtain body sealed where e: "encipher c key x q (take CiphertextSize cl) (encodeSealed ?m) = (body, sealed)"
    by (rule prod.exhaust)
  have undo: "encipher c key x q body sealed = (take CiphertextSize cl, encodeSealed ?m)"
    using encipher_involution [of c key x q "take CiphertextSize cl" "encodeSealed ?m"] e by simp
  have len: "length body = CiphertextSize" "length sealed = sealedSize"
    using length_encipher [of c key x q "take CiphertextSize cl" "encodeSealed ?m", unfolded e fst_conv snd_conv] assms(2,3)
    by (simp_all add: frame_sizes)
  assume "Seal c (Some cl) m s q key x = (Some v, Inr ())"
  from this [unfolded Seal_image [OF assms(2,3)]] have
    v: "v = covered body q sealed @ tagOf c key x (covered body q sealed)"
    and ok: "validateAuthentication key x = Inr ()" "q \<noteq> 0" "validateMetadata ?m = Inr ()"
    by (auto simp: e guard_simps Let_def split: sum.splits)
  show "length v = CellSize" using v len assms(1) by (simp add: frame_sizes)
  show "WireSequence v = Inr q"
    using v len by (simp add: WireSequence_def covered_def frame_sizes slice_def Let_def del: be_enc.simps)
  have "decodeSealed (encodeSealed ?m) = ?m\<lparr>md_Sequence := 0\<rparr>" using assms(3) by (intro decode_encodeSealed) simp
  then have dec: "(decodeSealed (encodeSealed ?m))\<lparr>md_Sequence := q\<rparr> = ?m" by simp
  show "Open c (Some v) s key x = (Some (Ciphertext cl @ encodeLocalHeader m), Inr ?m)"
    unfolding v Open_image [OF len] undo Let_def prod.case dec
    using ok by (simp add: Ciphertext_def encodeLocalHeader_def)
next
  assume "Open c (Some w) s key x = (Some p, Inr m')"
  then obtain body q sealed where op: "w = covered body q sealed @ tagOf c key x (covered body q sealed)"
    "length body = CiphertextSize" "length sealed = sealedSize" "validateAuthentication key x = Inr ()" "q \<noteq> 0"
    "m' = (decodeSealed (snd (encipher c key x q body sealed)))\<lparr>md_Sequence := q\<rparr>" "md_Sender m' = s"
    "validateMetadata m' = Inr ()" "p = fst (encipher c key x q body sealed) @ encodeLocalHeader m'"
    by (rule Open_accepts [OF assms(4)])
  let ?f = "snd (encipher c key x q body sealed)" and ?b = "fst (encipher c key x q body sealed)"
  have f: "length ?f = 24" using op(3) by (simp add: frame_sizes)
  have m': "encodeSealed m' = ?f" "length (md_Stream m') = 16" "md_Sequence m' = q"
    using encode_decodeSealed [OF f] by (simp_all add: op(6) encodeSealed_def)
  have p: "length p = CellSize" "take CiphertextSize p = ?b"
    using op(2) m'(2) by (simp_all add: op(9) encodeLocalHeader_def frame_sizes)
  have same: "m'\<lparr>md_Sender := s, md_Sequence := q\<rparr> = m'" using op(7) m'(3) by simp
  show "md_Sender m' = s" by (rule op)
  show "Seal c (Some p) m' s (md_Sequence m') key x = (Some w, Inr ())"
    unfolding Seal_image [OF p(1) m'(2)] m'(3) same m'(1) p(2) encipher_involution Let_def prod.case
    using op by simp
next
  assume "Open c cell s key x = (cell', Inl e)"
  then show "cell' = cell" by (auto simp: Open_def Let_def split_def split: option.splits sum.splits)
next
  assume "Open c (Some w) s key x = (Some p, Inr m') \<and> Open c (Some w) s' key y = (Some p', Inr m'')"
  then have "drop tagOffset (drop CiphertextSize w) = authenticationTag c w key x"
      "drop tagOffset (drop CiphertextSize w) = authenticationTag c w key y"
    by (auto simp: Open_def guard_simps Let_def split_def split: sum.splits)
  then show "x = y \<or> collides (\<lambda>t. take TagSize (hmac c key t))
        [bytes_of headerTagLabel @ bindContext x @ take (CiphertextSize + tagOffset) w,
         bytes_of headerTagLabel @ bindContext y @ take (CiphertextSize + tagOffset) w]"
    unfolding authenticationTag_def using bindContext_inj [OF assms(5,6), of "[]" "[]" "[]"] by (auto simp: collides_def)
qed

text \<open>A cover cell on a link of the sample network.\<close>

definition sample_context :: hop_context where
  "sample_context = \<lparr>hc_TopologyDigest = replicate 32 1, hc_NetworkID = ''n'', hc_Epoch = 1, hc_Receiver = 2\<rparr>"

lemma sample_seal:
  "Seal sample_crypto (Some (replicate 1200 5)) CoverMetadata 1 9 (replicate 32 3) sample_context =
     (fst (Seal sample_crypto (Some (replicate 1200 5)) CoverMetadata 1 9 (replicate 32 3) sample_context), Inr ())"
  by (simp add: Seal_image frame_sizes CoverMetadata_def validateMetadata_def validateAuthentication_def sample_context_def
      IsWork_def Let_def split_def)

theorem hop_seal_open_witness:
  "\<exists>v. length v = CellSize \<and> WireSequence v = Inr 9 \<and>
     Open sample_crypto (Some v) 1 (replicate 32 3) sample_context =
       (Some (Ciphertext (replicate 1200 5) @ encodeLocalHeader CoverMetadata),
        Inr (CoverMetadata\<lparr>md_Sender := 1, md_Sequence := 9\<rparr>))"
proof -
  have len: "length (replicate 1200 (5 :: byte)) = CellSize" "length (md_Stream CoverMetadata) = 16"
      "length (hc_TopologyDigest sample_context) = 32"
    by (simp_all add: frame_sizes CoverMetadata_def sample_context_def)
  obtain v where v: "Seal sample_crypto (Some (replicate 1200 5)) CoverMetadata 1 9 (replicate 32 3) sample_context = (Some v, Inr ())"
    using sample_seal by (simp add: Seal_def Let_def split: sum.splits prod.splits)
  from hop_seal_open [OF sample_hash_ok len(1,2,1,3,3), of 1 9 "replicate 32 3" v, THEN conjunct1] v show ?thesis by blast
qed

end
