(* ===== verification/HopSequence.thy ===== *)
theory HopSequence
  imports GoStd
begin

text \<open>
  Durable sequence numbers, \<^verbatim>\<open>live/hop/sequence.go\<close> and \<^verbatim>\<open>live/uplink/sequence.go\<close>. The two files differ in the width of
  the number (32 and 64 bits) and in \<^verbatim>\<open>Return\<close>, which only the first has; the model is generic in the width.
  Ranges are reserved in a file before use, so that a crash skips numbers and never repeats one.
\<close>

section \<open>The state file\<close>

text \<open>
  The file as the process finds it: absent, not readable as a regular file, or with contents. A replacement of the
  file can succeed, fail before the rename, or fail after it, when the directory cannot be synced.
\<close>

datatype stored = Absent | Unreadable | Stored bytes

datatype write_outcome = Written | NotWritten | WrittenNotSynced

datatype sequence_error = SequenceWriteFailed | SequenceExhausted | SequenceStateInvalid | PathRequired | DirectoryFailed

definition readReservation :: "stored \<Rightarrow> sequence_error + 'w::len word" where
  "readReservation file =
     (case file of
        Absent \<Rightarrow> Inr 0
      | Unreadable \<Rightarrow> Inl SequenceStateInvalid
      | Stored data \<Rightarrow> if 8 * length data \<noteq> LENGTH('w) then Inl SequenceStateInvalid else Inr (be_dec data))"

definition atomicStateWrite :: "write_outcome \<Rightarrow> stored \<Rightarrow> bytes \<Rightarrow> stored \<times> bool" where
  "atomicStateWrite outcome file data =
     (case outcome of
        Written \<Rightarrow> (Stored data, True)
      | NotWritten \<Rightarrow> (file, False)
      | WrittenNotSynced \<Rightarrow> (Stored data, False))"

section \<open>The sequence\<close>

record 'n fileSequence =
  sq_next :: 'n
  sq_reserved :: 'n

definition sequenceReservation :: "'w::len word" where
  "sequenceReservation = push_bit 20 1"

definition reserve ::
    "write_outcome \<Rightarrow> stored \<Rightarrow> 'w::len word fileSequence \<Rightarrow> (stored \<times> 'w word fileSequence) \<times> (sequence_error + unit)" where
  "reserve outcome file s =
     (case readReservation file of
        Inl e \<Rightarrow> ((file, s), Inl e)
      | Inr previous \<Rightarrow>
          if previous > NOT 0 - sequenceReservation then ((file, s), Inl SequenceExhausted)
          else let reserved = previous + sequenceReservation;
                   (file', ok) = atomicStateWrite outcome file (be_enc (LENGTH('w) div 8) reserved)
            in if ok then ((file', \<lparr>sq_next = previous + 1, sq_reserved = reserved\<rparr>), Inr ())
               else ((file', s), Inl SequenceWriteFailed))"

definition OpenFileSequence ::
    "string \<Rightarrow> bool \<Rightarrow> write_outcome \<Rightarrow> stored \<Rightarrow> stored \<times> (sequence_error + 'w::len word fileSequence)" where
  "OpenFileSequence path directory outcome file =
     (if path = [] then (file, Inl PathRequired)
      else if \<not> directory then (file, Inl DirectoryFailed)
      else case reserve outcome file \<lparr>sq_next = 0, sq_reserved = 0\<rparr> of
             ((file', s), Inl e) \<Rightarrow> (file', Inl e)
           | ((file', s), Inr _) \<Rightarrow> (file', Inr s))"

definition Sequence_Next ::
    "write_outcome \<Rightarrow> stored \<Rightarrow> 'w::len word fileSequence \<Rightarrow> (stored \<times> 'w word fileSequence) \<times> (sequence_error + 'w word)" where
  "Sequence_Next outcome file s =
     (case (if sq_next s = 0 \<or> sq_next s > sq_reserved s then reserve outcome file s else ((file, s), Inr ())) of
        ((file', s'), Inl e) \<Rightarrow> ((file', s'), Inl e)
      | ((file', s'), Inr _) \<Rightarrow> ((file', s'\<lparr>sq_next := sq_next s' + 1\<rparr>), Inr (sq_next s')))"

definition Sequence_Return :: "'w::len word fileSequence \<Rightarrow> 'w word \<Rightarrow> 'w word fileSequence" where
  "Sequence_Return s v = (if v \<noteq> 0 \<and> sq_next s = v + 1 then s\<lparr>sq_next := v\<rparr> else s)"

section \<open>Invariant\<close>

text \<open>
  \<open>top\<close> is the number the sequence would issue next; after the last number of the range the counter has wrapped
  to zero, which the code treats as an empty range. \<open>used\<close> are the numbers that count as spent.
\<close>

definition top :: "'w::len word fileSequence \<Rightarrow> nat" where
  "top s = (if sq_next s = 0 then 2 ^ LENGTH('w) else unat (sq_next s))"

definition file_ok :: "stored \<Rightarrow> 'w::len word set \<Rightarrow> bool" where
  "file_ok file used \<longleftrightarrow> (\<forall>r :: 'w word. readReservation file = Inr r \<longrightarrow> (\<forall>u \<in> used. unat u \<le> unat r))"

definition seq_ok :: "stored \<Rightarrow> 'w::len word fileSequence \<Rightarrow> 'w word set \<Rightarrow> bool" where
  "seq_ok file s used \<longleftrightarrow> (\<exists>r :: 'w word. readReservation file = Inr r \<and> unat (sq_reserved s) \<le> unat r) \<and>
     top s \<le> unat (sq_reserved s) + 1 \<and> (\<forall>u \<in> used. unat u < top s)"

lemma seq_ok_file: "seq_ok file s used \<Longrightarrow> file_ok file used"
  by (fastforce simp: seq_ok_def file_ok_def)

text \<open>The widths in use: whole bytes, with room for a reservation.\<close>

definition width_ok :: "'w::len itself \<Rightarrow> bool" where
  "width_ok w \<longleftrightarrow> 8 dvd LENGTH('w) \<and> 20 < LENGTH('w)"

lemma readReservation_written:
  "8 dvd LENGTH('w) \<Longrightarrow> readReservation (Stored (be_enc (LENGTH('w) div 8) r)) = Inr (r :: 'w::len word)"
  by (simp add: readReservation_def be_dec_enc)

lemma reservation_fits:
  fixes r :: "'w::len word"
  assumes "20 < LENGTH('w)" and "\<not> r > NOT 0 - sequenceReservation"
  shows "unat (r + sequenceReservation) = unat r + 2 ^ 20" and "unat (r + 1) = unat r + 1"
proof -
  have small: "unat (sequenceReservation :: 'w word) = 2 ^ 20"
  proof -
    have "(2 :: nat) ^ 20 < 2 ^ LENGTH('w)" using assms(1) by (intro power_strict_increasing) simp_all
    then have "unat (of_nat (2 ^ 20) :: 'w word) = 2 ^ 20" by (simp only: unat_of_nat mod_less)
    then show ?thesis by (simp add: sequenceReservation_def push_bit_of_1)
  qed
  have "(sequenceReservation :: 'w word) \<le> NOT 0" by (simp add: word_order.extremum)
  then have "unat (NOT 0 - sequenceReservation :: 'w word) = 2 ^ LENGTH('w) - 1 - 2 ^ 20"
    by (simp add: unat_sub small unsigned_minus_1_eq_mask mask_eq_exp_minus_1)
  moreover have "(2 :: nat) ^ 20 < 2 ^ LENGTH('w)" using assms(1) by (intro power_strict_increasing) simp_all
  ultimately have le: "unat r + 2 ^ 20 < 2 ^ LENGTH('w)"
    using assms(2) unfolding word_less_nat_alt by linarith
  then show "unat (r + sequenceReservation) = unat r + 2 ^ 20" using small by (subst unat_add_lem [THEN iffD1]) simp_all
  have "unat r + 1 < 2 ^ LENGTH('w)" using le by simp
  then show "unat (r + 1) = unat r + 1" by (subst unat_add_lem [THEN iffD1]) simp_all
qed

lemma reserve_cases:
  fixes s :: "'w::len word fileSequence"
  assumes "width_ok TYPE('w)" and "file_ok file used" and "reserve outcome file s = ((file', s'), r)"
  shows "file_ok file' used \<and> (r = Inr () \<longrightarrow> seq_ok file' s' used \<and> sq_next s' \<noteq> 0 \<and> sq_next s' \<le> sq_reserved s') \<and> (r \<noteq> Inr () \<longrightarrow> s' = s) \<and>
    (seq_ok file s used \<longrightarrow> seq_ok file' s' used)"
proof (cases "readReservation file :: sequence_error + 'w word")
  case (Inl e)
  with assms show ?thesis by (auto simp: reserve_def)
next
  case (Inr p)
  show ?thesis
  proof (cases "p > NOT 0 - sequenceReservation")
    case True
    with Inr assms show ?thesis by (auto simp: reserve_def)
  next
    case False
    note w = assms(1) [unfolded width_ok_def]
    note fits = reservation_fits [OF w [THEN conjunct2] False]
    let ?new = "Stored (be_enc (LENGTH('w) div 8) (p + sequenceReservation))"
    have new: "readReservation ?new = Inr (p + sequenceReservation)" using w by (intro readReservation_written) simp
    have used: "unat u \<le> unat p" if "u \<in> used" for u using assms(2) Inr that by (simp add: file_ok_def)
    have grown: "file_ok ?new used" using used fits(1) new by (fastforce simp: file_ok_def)
    have keep: "seq_ok ?new s used" if "seq_ok file s used" using that fits(1) new Inr by (auto simp: seq_ok_def)
    have "p + 1 \<noteq> 0" using fits(2) by (metis Suc_eq_plus1 Zero_not_Suc unat_0)
    then have "seq_ok ?new \<lparr>sq_next = p + 1, sq_reserved = p + sequenceReservation\<rparr> used"
      using used fits new by (fastforce simp: seq_ok_def top_def)
    moreover have "p + 1 \<le> p + sequenceReservation" using fits by (simp add: word_le_nat_alt)
    ultimately show ?thesis using Inr False assms(2,3) grown keep \<open>p + 1 \<noteq> 0\<close>
      by (auto simp: reserve_def atomicStateWrite_def Let_def split: write_outcome.splits)
  qed
qed

lemma Next_refused:
  fixes s :: "'w::len word fileSequence"
  assumes "width_ok TYPE('w)" and "seq_ok file s used" and "Sequence_Next outcome file s = ((file', s'), Inl e)"
  shows "seq_ok file' s' used"
proof -
  have "reserve outcome file s = ((file', s'), Inl e)"
    using assms(3) by (auto simp: Sequence_Next_def split: if_splits prod.splits sum.splits)
  from reserve_cases [OF assms(1) seq_ok_file [OF assms(2)] this] assms(2) show ?thesis by blast
qed

lemma Next_issued:
  fixes s :: "'w::len word fileSequence"
  assumes "width_ok TYPE('w)" and "seq_ok file s used" and "Sequence_Next outcome file s = ((file', s'), Inr v)"
  shows "v \<noteq> 0 \<and> v \<notin> used \<and> seq_ok file' s' (insert v used) \<and> sq_next s' = v + 1 \<and> seq_ok file' (Sequence_Return s' v) used"
proof -
  obtain t where t: "seq_ok file' t used" "sq_next t \<noteq> 0" "sq_next t \<le> sq_reserved t" "s' = t\<lparr>sq_next := sq_next t + 1\<rparr>" "v = sq_next t"
  proof (cases "sq_next s = 0 \<or> sq_next s > sq_reserved s")
    case True
    obtain f t res where r': "reserve outcome file s = ((f, t), res)" by (metis prod.exhaust)
    note def = assms(3) [unfolded Sequence_Next_def if_P [OF True] r' prod.case]
    have r: "reserve outcome file s = ((file', t), Inr ())" and st: "s' = t\<lparr>sq_next := sq_next t + 1\<rparr>" "v = sq_next t"
      using def r' by (cases res; simp)+
    have "seq_ok file' t used \<and> sq_next t \<noteq> 0 \<and> sq_next t \<le> sq_reserved t"
      using reserve_cases [OF assms(1) seq_ok_file [OF assms(2)] r] by blast
    with st show thesis using that by blast
  next
    case False
    with assms(2,3) show thesis by (intro that [of s]) (auto simp: Sequence_Next_def not_less)
  qed
  have top: "top t = unat v" "top t \<le> unat (sq_reserved t) + 1" using t by (simp_all add: top_def seq_ok_def)
  have new: "top s' = unat v + 1"
  proof (cases "v + 1 = 0")
    case True
    then have "v = - 1" by (simp add: eq_neg_iff_add_eq_0)
    then have "unat v + 1 = 2 ^ LENGTH('w)" by (simp add: unsigned_minus_1_eq_mask mask_eq_exp_minus_1)
    with True t show ?thesis by (simp add: top_def)
  next
    case False
    then have "unat (v + 1) = unat v + 1" by (metis Suc_eq_plus1 add.commute unatSuc)
    with False t show ?thesis by (simp add: top_def)
  qed
  have "v \<notin> used" using t(1) top(1) by (auto simp: seq_ok_def)
  moreover have "seq_ok file' s' (insert v used)"
    using t new top by (auto simp: seq_ok_def word_le_nat_alt)
  moreover have "Sequence_Return s' v = t" using t by (simp add: Sequence_Return_def)
  ultimately show ?thesis using t by simp
qed

section \<open>Histories\<close>

text \<open>
  What happens to a sequence over its lifetime: processes start on the state file, and a running process draws numbers.
  A drawn number is used, or given back at once by \<^verbatim>\<open>Return\<close>, or lost. A process may be replaced at any moment,
  which models a crash: the file stays, the memory is gone.
\<close>

datatype fate = Used | GivenBack | Lost

datatype sequence_event = Start string bool write_outcome | Draw write_outcome fate

fun sequence_step ::
    "stored \<times> 'w::len word fileSequence option \<Rightarrow> sequence_event \<Rightarrow> (stored \<times> 'w word fileSequence option) \<times> 'w word option" where
  "sequence_step (file, p) (Start path directory outcome) =
     (case OpenFileSequence path directory outcome file of
        (file', Inl _) \<Rightarrow> ((file', None), None)
      | (file', Inr s) \<Rightarrow> ((file', Some s), None))"
| "sequence_step (file, None) (Draw outcome fate) = ((file, None), None)"
| "sequence_step (file, Some s) (Draw outcome fate) =
     (case Sequence_Next outcome file s of
        ((file', s'), Inl _) \<Rightarrow> ((file', Some s'), None)
      | ((file', s'), Inr v) \<Rightarrow>
          (case fate of
             Used \<Rightarrow> ((file', Some s'), Some v)
           | GivenBack \<Rightarrow> ((file', Some (Sequence_Return s' v)), None)
           | Lost \<Rightarrow> ((file', Some s'), None)))"

definition history_ok :: "stored \<times> 'w::len word fileSequence option \<Rightarrow> 'w word set \<Rightarrow> bool" where
  "history_ok st used \<longleftrightarrow> (case st of (file, None) \<Rightarrow> file_ok file used | (file, Some s) \<Rightarrow> seq_ok file s used)"

lemma OpenFileSequence_ok:
  assumes "width_ok TYPE('w::len)" and "file_ok file (used :: 'w word set)"
  shows "case OpenFileSequence path directory outcome file of
      (file', Inl _) \<Rightarrow> file_ok file' used | (file', Inr s) \<Rightarrow> seq_ok file' (s :: 'w word fileSequence) used"
proof -
  obtain f t res where "reserve outcome file \<lparr>sq_next = 0, sq_reserved = 0 :: 'w word\<rparr> = ((f, t), res)" by (metis prod.exhaust)
  with reserve_cases [OF assms this] assms(2) show ?thesis
    by (cases res) (simp_all add: OpenFileSequence_def)
qed

lemma seq_ok_mono: "seq_ok file s used \<Longrightarrow> used' \<subseteq> used \<Longrightarrow> seq_ok file s used'"
  by (auto simp: seq_ok_def)

lemma sequence_step_ok:
  fixes used :: "'w::len word set"
  assumes w: "width_ok TYPE('w)" and "history_ok st used" and "sequence_step st ev = (st', out)"
  shows "case out of None \<Rightarrow> history_ok st' used | Some v \<Rightarrow> v \<noteq> 0 \<and> v \<notin> used \<and> history_ok st' (insert v used)"
proof -
  obtain fl p where st: "st = (fl, p)" by (rule prod.exhaust)
  have file_used: "file_ok fl used" using assms(2) seq_ok_file by (cases p) (auto simp: st history_ok_def)
  show ?thesis
  proof (cases ev)
    case (Start path directory outcome)
    with assms(3) OpenFileSequence_ok [OF w file_used, of path directory outcome] show ?thesis
      by (auto simp: st history_ok_def split: prod.splits sum.splits)
  next
    case (Draw outcome fate)
    show ?thesis
    proof (cases p)
      case None
      with Draw assms(2,3) show ?thesis by (auto simp: st)
    next
      case (Some s)
      with assms(2) have ok: "seq_ok fl s used" by (simp add: st history_ok_def)
      obtain f t r where n: "Sequence_Next outcome fl s = ((f, t), r)" by (metis prod.exhaust)
      show ?thesis
      proof (cases r)
        case (Inl e)
        with n assms(3) Next_refused [OF w ok] Draw Some show ?thesis by (auto simp: st history_ok_def)
      next
        case (Inr v)
        note i = Next_issued [OF w ok n [unfolded Inr]]
        then have "seq_ok f t used" using seq_ok_mono by blast
        with i n Inr assms(3) Draw Some show ?thesis by (cases fate) (auto simp: st history_ok_def)
      qed
    qed
  qed
qed

interpretation numbers: fresh_issuer sequence_step id "\<lambda>st (used :: 'w::len word set). width_ok TYPE('w) \<and> history_ok st used"
proof unfold_locales
  fix st used ev st' out
  assume "width_ok TYPE('w) \<and> history_ok st (used :: 'w word set)" "sequence_step st ev = (st', out)"
  then show "case out of None \<Rightarrow> width_ok TYPE('w) \<and> history_ok st' used
      | Some v \<Rightarrow> id v \<notin> used \<and> width_ok TYPE('w) \<and> history_ok st' (insert (id v) used)"
    using sequence_step_ok [of st used ev st' out] by (auto split: option.splits)
qed

lemma width_words: "width_ok TYPE(32)" "width_ok TYPE(64)"
  by (simp_all add: width_ok_def)

text \<open>
  \<^verbatim>\<open>Return\<close> takes a number back also when it was not the last one issued: after the last number is given back the one
  before it can be given back too, and is then issued again, although it was used.
\<close>

lemma return_twice_repeats:
  defines "s \<equiv> \<lparr>sq_next = 3, sq_reserved = 1048576\<rparr> :: u32 fileSequence"
  shows "snd (Sequence_Next Written file (Sequence_Return (Sequence_Return s 2) 1)) = Inr 1"
  by (simp add: s_def Sequence_Return_def Sequence_Next_def)

end
