(* ===== verification/RelaySink.thy ===== *)
theory RelaySink
  imports HopFrame HopSequence
begin

text \<open>
  The sending side of a relay, \<^verbatim>\<open>authenticatedSink\<close> of \<^verbatim>\<open>live/node/node.go\<close>: every tick the scheduler hands it one cell, which
  it seals for the peer the signed plan names, under the next durable sequence number, and writes to the socket.
  What the operating system answers is an argument of each send.
\<close>

section \<open>Failures\<close>

datatype errno = ENOBUFS | ENOMEM | EAGAIN | EINTR | ENETUNREACH | EHOSTUNREACH | ENETDOWN | EPERM | EINVAL | OtherErrno

datatype cause = DeadlineExceeded | Errno errno | ReservationWrite | ShortWrite nat | OtherCause

datatype sink_error =
    InvalidCell hop_error | SequenceUnusable sequence_error | SealError hop_error
  | CellDropped cause | NotClearing cause | Fatal cause | PlanPanic

definition maximumConsecutiveDrops :: int where "maximumConsecutiveDrops = 4096"

definition sendFailureIsTransient :: "cause \<Rightarrow> bool" where
  "sendFailureIsTransient x =
     (case x of
        DeadlineExceeded \<Rightarrow> True
      | Errno n \<Rightarrow> n \<in> {ENOBUFS, ENOMEM, EAGAIN, EINTR, ENETUNREACH, EHOSTUNREACH, ENETDOWN}
      | ReservationWrite \<Rightarrow> True
      | _ \<Rightarrow> False)"

section \<open>The sink\<close>

record outgoingPeer =
  op_index :: u16
  op_key :: bytes

record authenticatedSink =
  sk_self :: u16
  sk_peers :: "outgoingPeer list"
  sk_plan :: "u16 list"
  sk_next :: u64
  sk_sequence :: "u32 fileSequence"
  sk_context :: hop_context
  sk_consecutive :: int
  sk_sent :: u64
  sk_relayed :: u64
  sk_coverSent :: u64
  sk_sendDropped :: u64

definition sink_drop :: "authenticatedSink \<Rightarrow> cause \<Rightarrow> authenticatedSink \<times> sink_error" where
  "sink_drop sk x =
     (let sk1 = sk\<lparr>sk_consecutive := sk_consecutive sk + 1\<rparr> in
      if sk_consecutive sk1 > maximumConsecutiveDrops then (sk1, NotClearing x)
      else (sk1\<lparr>sk_sendDropped := sk_sendDropped sk1 + 1\<rparr>, CellDropped x))"

definition classify :: "authenticatedSink \<Rightarrow> cause \<Rightarrow> authenticatedSink \<times> sink_error" where
  "classify sk x =
     (if \<not> sendFailureIsTransient x then (sk\<lparr>sk_consecutive := 0\<rparr>, Fatal x)
      else let sk1 = sk\<lparr>sk_consecutive := sk_consecutive sk + 1\<rparr> in
        if sk_consecutive sk1 > maximumConsecutiveDrops then (sk1, NotClearing x)
        else (sk1\<lparr>sk_sendDropped := sk_sendDropped sk1 + 1\<rparr>, CellDropped x))"

text \<open>
  The answers of the system to one send: to the reservation, to setting the write deadline, and to the write itself,
  which fails without anything leaving the socket or reports how many bytes were written.
\<close>

record send_answers =
  an_reservation :: write_outcome
  an_deadline :: "cause option"
  an_write :: "cause + nat"

text \<open>What reached the wire: the peer, the sequence number, and the bytes.\<close>

record emission =
  em_peer :: u16
  em_sequence :: u32
  em_bytes :: bytes

text \<open>The last part of \<^verbatim>\<open>Send\<close>: the socket.\<close>

definition transmit ::
    "authenticatedSink \<Rightarrow> send_answers \<Rightarrow> metadata \<Rightarrow> outgoingPeer \<Rightarrow> u32 \<Rightarrow> bytes \<Rightarrow>
      authenticatedSink \<times> (sink_error + unit) \<times> emission option" where
  "transmit sk an m peer sequence cell =
     (let back = sk\<lparr>sk_sequence := Sequence_Return (sk_sequence sk) sequence\<rparr> in
      case an_deadline an of
        Some x \<Rightarrow> (case classify back x of (sk', e) \<Rightarrow> (sk', Inl e, None))
      | None \<Rightarrow>
          (case an_write an of
             Inl x \<Rightarrow> (case classify back x of (sk', e) \<Rightarrow> (sk', Inl e, None))
           | Inr written \<Rightarrow>
               let out = Some \<lparr>em_peer = op_index peer, em_sequence = sequence, em_bytes = take written cell\<rparr> in
               if written \<noteq> CellSize then (case classify sk (ShortWrite written) of (sk', e) \<Rightarrow> (sk', Inl e, out))
               else (sk\<lparr>sk_consecutive := 0, sk_sent := sk_sent sk + 1,
                        sk_relayed := (if IsWork m then sk_relayed sk + 1 else sk_relayed sk),
                        sk_coverSent := (if IsWork m then sk_coverSent sk else sk_coverSent sk + 1)\<rparr>, Inr (), out)))"

definition Send ::
    "crypto \<Rightarrow> stored \<Rightarrow> authenticatedSink \<Rightarrow> send_answers \<Rightarrow> bytes \<Rightarrow>
      (stored \<times> authenticatedSink) \<times> (sink_error + unit) \<times> emission option" where
  "Send c fl sk an cell =
     (case LocalMetadata cell of
        Inl e \<Rightarrow> ((fl, sk), Inl (InvalidCell e), None)
      | Inr m \<Rightarrow>
          if sk_plan sk = [] then ((fl, sk), Inl PlanPanic, None)
          else let slot = unat (sk_plan sk ! (unat (sk_next sk) mod length (sk_plan sk))) in
            if slot \<ge> length (sk_peers sk) then ((fl, sk), Inl PlanPanic, None)
            else let peer = sk_peers sk ! slot; sk1 = sk\<lparr>sk_next := sk_next sk + 1\<rparr> in
              (case Sequence_Next (an_reservation an) fl (sk_sequence sk1) of
                 ((fl', sq), Inl e) \<Rightarrow>
                   (let sk2 = sk1\<lparr>sk_sequence := sq\<rparr> in
                    if e \<noteq> SequenceWriteFailed then ((fl', sk2), Inl (SequenceUnusable e), None)
                    else case sink_drop sk2 ReservationWrite of (sk3, e) \<Rightarrow> ((fl', sk3), Inl e, None))
               | ((fl', sq), Inr sequence) \<Rightarrow>
                   (let sk2 = sk1\<lparr>sk_sequence := sq\<rparr> in
                    case Seal c (Some cell) m (sk_self sk2) sequence (op_key peer)
                           ((sk_context sk2)\<lparr>hc_Receiver := op_index peer\<rparr>) of
                      (_, Inl e) \<Rightarrow> ((fl', sk2), Inl (SealError e), None)
                    | (sealed, Inr _) \<Rightarrow>
                        (case transmit sk2 an m peer sequence (the sealed) of (sk3, r, out) \<Rightarrow> ((fl', sk3), r, out)))))"

section \<open>One send\<close>

lemma classify_keeps [simp]: "sk_sequence (fst (classify sk x)) = sk_sequence sk" "sk_next (fst (classify sk x)) = sk_next sk"
  by (simp_all add: classify_def Let_def)

lemma sink_drop_keeps [simp]: "sk_sequence (fst (sink_drop sk x)) = sk_sequence sk" "sk_next (fst (sink_drop sk x)) = sk_next sk"
  by (simp_all add: sink_drop_def Let_def)

text \<open>A number is given back exactly when nothing left the socket.\<close>

lemma transmit_cases:
  obtains (lost) sk' e where "transmit sk an m peer q cell = (sk', Inl e, None)"
      "sk_sequence sk' = Sequence_Return (sk_sequence sk) q" "sk_next sk' = sk_next sk"
  | (emitted) sk' r n where "transmit sk an m peer q cell = (sk', r, Some \<lparr>em_peer = op_index peer, em_sequence = q, em_bytes = take n cell\<rparr>)"
      "sk_sequence sk' = sk_sequence sk" "sk_next sk' = sk_next sk" "r = Inr () \<longrightarrow> n = CellSize"
proof -
  let ?ret = "sk\<lparr>sk_sequence := Sequence_Return (sk_sequence sk) q\<rparr>"
  have gone: thesis if "transmit sk an m peer q cell = (fst (classify ?ret x), Inl (snd (classify ?ret x)), None)" for x
    using lost [OF that] by simp
  show thesis
  proof (cases "an_deadline an")
    case (Some x)
    then show thesis by (intro gone [of x]) (simp add: transmit_def split_def Let_def)
  next
    case None
    show thesis
    proof (cases "an_write an")
      case (Inl x)
      with None show thesis by (intro gone [of x]) (simp add: transmit_def split_def Let_def)
    next
      case (Inr n)
      let ?em = "Some \<lparr>em_peer = op_index peer, em_sequence = q, em_bytes = take n cell\<rparr>"
      have "\<exists>sk' r. transmit sk an m peer q cell = (sk', r, ?em) \<and> sk_sequence sk' = sk_sequence sk \<and>
          sk_next sk' = sk_next sk \<and> (r = Inr () \<longrightarrow> n = CellSize)"
        using None Inr by (cases "n = CellSize") (simp_all add: transmit_def split_def Let_def)
      with emitted [of _ _ n] show thesis by blast
    qed
  qed
qed

text \<open>The peer a tick is addressed to.\<close>

definition tick_peer :: "authenticatedSink \<Rightarrow> outgoingPeer" where
  "tick_peer sk = sk_peers sk ! unat (sk_plan sk ! (unat (sk_next sk) mod length (sk_plan sk)))"

definition sealed_for :: "crypto \<Rightarrow> authenticatedSink \<Rightarrow> bytes \<Rightarrow> u32 \<Rightarrow> bytes \<Rightarrow> bool" where
  "sealed_for c sk cell q sealed \<longleftrightarrow> (\<exists>m. LocalMetadata cell = Inr m \<and>
     Seal c (Some cell) m (sk_self sk) q (op_key (tick_peer sk)) ((sk_context sk)\<lparr>hc_Receiver := op_index (tick_peer sk)\<rparr>) =
       (Some sealed, Inr ()))"

lemma Seal_some: "snd (Seal c (Some cl) m s q key x) = Inr () \<Longrightarrow> \<exists>v. Seal c (Some cl) m s q key x = (Some v, Inr ())"
  by (auto simp: Seal_def Let_def split_def split: sum.splits)

lemma Send_cases:
  assumes "seq_ok fl (sk_sequence sk) used"
  obtains (quiet) fl' sk' r where "Send c fl sk an cell = ((fl', sk'), r, None)" "seq_ok fl' (sk_sequence sk') used"
      "r \<noteq> Inr ()" "r \<in> {Inl PlanPanic} \<union> range (Inl \<circ> InvalidCell) \<and> sk' = sk \<or> sk_next sk' = sk_next sk + 1"
  | (emitted) fl' sk' r q sealed n where
      "Send c fl sk an cell = ((fl', sk'), r, Some \<lparr>em_peer = op_index (tick_peer sk), em_sequence = q, em_bytes = take n sealed\<rparr>)"
      "q \<notin> used" "seq_ok fl' (sk_sequence sk') (insert q used)" "sk_next sk' = sk_next sk + 1"
      "sealed_for c sk cell q sealed" "r = Inr () \<longrightarrow> n = CellSize"
proof -
  let ?slot = "unat (sk_plan sk ! (unat (sk_next sk) mod length (sk_plan sk)))" and ?sk = "sk\<lparr>sk_next := sk_next sk + 1\<rparr>"
  note w = width_words(1)
  consider (bad) e where "Send c fl sk an cell = ((fl, sk), Inl e, None)" "e = PlanPanic \<or> e \<in> range InvalidCell"
    | (ok) m where "LocalMetadata cell = Inr m" "sk_plan sk \<noteq> []" "?slot < length (sk_peers sk)"
    by (cases "LocalMetadata cell"; cases "sk_plan sk = []"; cases "?slot < length (sk_peers sk)") (auto simp: Send_def Let_def)
  then show thesis
  proof cases
    case bad
    with assms show thesis by (intro quiet) auto
  next
    case (ok m)
    obtain fl' sq r where n: "Sequence_Next (an_reservation an) fl (sk_sequence sk) = ((fl', sq), r)" by (metis prod.exhaust)
    show thesis
    proof (cases r)
      case (Inl e)
      have sq: "seq_ok fl' sq used" using Next_refused [OF w assms n [unfolded Inl]] .
      let ?sk2 = "?sk\<lparr>sk_sequence := sq\<rparr>"
      show thesis
      proof (cases "e = SequenceWriteFailed")
        case True
        with ok n Inl sq show thesis
          by (intro quiet [of fl' "fst (sink_drop ?sk2 ReservationWrite)" "Inl (snd (sink_drop ?sk2 ReservationWrite))"])
            (simp_all add: Send_def Let_def split_def)
      next
        case False
        with ok n Inl sq show thesis
          by (intro quiet [of fl' ?sk2 "Inl (SequenceUnusable e)"]) (simp_all add: Send_def Let_def)
      qed
    next
      case (Inr q)
      note i = Next_issued [OF w assms n [unfolded Inr]]
      let ?sk2 = "?sk\<lparr>sk_sequence := sq\<rparr>"
      let ?seal = "Seal c (Some cell) m (sk_self sk) q (op_key (tick_peer sk)) ((sk_context sk)\<lparr>hc_Receiver := op_index (tick_peer sk)\<rparr>)"
      have send: "Send c fl sk an cell = (case ?seal of (_, Inl e) \<Rightarrow> ((fl', ?sk2), Inl (SealError e), None)
          | (sealed, Inr _) \<Rightarrow> (case transmit ?sk2 an m (tick_peer sk) q (the sealed) of (sk3, r, out) \<Rightarrow> ((fl', sk3), r, out)))"
        using ok n Inr by (simp add: Send_def tick_peer_def Let_def split_def split: sum.split)
      show thesis
      proof (cases "snd ?seal")
        case (Inl e)
        then have "Send c fl sk an cell = ((fl', ?sk2), Inl (SealError e), None)" unfolding send by (simp add: split_def)
        moreover have "seq_ok fl' sq used" using i seq_ok_mono by blast
        ultimately show thesis by (intro quiet) auto
      next
        case sealed: (Inr u)
        then obtain v where v: "?seal = (Some v, Inr ())" using Seal_some by (metis old.unit.exhaust)
        then have sf: "sealed_for c sk cell q v" using ok(1) by (auto simp: sealed_for_def)
        show thesis
        proof (cases rule: transmit_cases [of ?sk2 an m "tick_peer sk" q v])
          case (lost sk' e)
          with i show thesis unfolding send v by (intro quiet) (auto simp: v send)
        next
          case (emitted sk' r n)
          with i sf show thesis by (intro that(2)) (auto simp: v send)
        qed
      qed
    qed
  qed
qed

section \<open>Histories\<close>

text \<open>
  The life of a relay on one state file: processes start, with the signed configuration \<open>sk0\<close>, and a running process is
  handed a cell every tick. A start may come at any moment, which models a crash of the process before it.
\<close>

datatype relay_event = Boot string bool write_outcome | Tick send_answers bytes

fun relay_step ::
    "crypto \<Rightarrow> authenticatedSink \<Rightarrow> stored \<times> authenticatedSink option \<Rightarrow> relay_event \<Rightarrow>
      (stored \<times> authenticatedSink option) \<times> emission option" where
  "relay_step c sk0 (fl, p) (Boot path directory outcome) =
     (case OpenFileSequence path directory outcome fl of
        (fl', Inl _) \<Rightarrow> ((fl', None), None)
      | (fl', Inr s) \<Rightarrow> ((fl', Some (sk0\<lparr>sk_sequence := s, sk_next := 0\<rparr>)), None))"
| "relay_step c sk0 (fl, None) (Tick an cell) = ((fl, None), None)"
| "relay_step c sk0 (fl, Some sk) (Tick an cell) =
     (case Send c fl sk an cell of ((fl', sk'), r, out) \<Rightarrow> ((fl', Some sk'), out))"

definition relay_ok :: "stored \<times> authenticatedSink option \<Rightarrow> u32 set \<Rightarrow> bool" where
  "relay_ok st used \<longleftrightarrow> history_ok (fst st, map_option sk_sequence (snd st)) used"

lemma relay_step_ok:
  assumes "relay_ok st used" and "relay_step c sk0 st ev = (st', out)"
  shows "case out of None \<Rightarrow> relay_ok st' used | Some em \<Rightarrow> em_sequence em \<notin> used \<and> relay_ok st' (insert (em_sequence em) used)"
proof -
  obtain fl p where st: "st = (fl, p)" by (rule prod.exhaust)
  have fl: "file_ok fl used" using assms(1) seq_ok_file by (cases p) (auto simp: st relay_ok_def history_ok_def)
  show ?thesis
  proof (cases ev)
    case (Boot path directory outcome)
    with assms(2) OpenFileSequence_ok [OF width_words(1) fl, of path directory outcome] show ?thesis
      by (auto simp: st relay_ok_def history_ok_def split: prod.splits sum.splits)
  next
    case (Tick an cell)
    show ?thesis
    proof (cases p)
      case None
      with Tick assms show ?thesis by (auto simp: st)
    next
      case (Some sk)
      then have "seq_ok fl (sk_sequence sk) used" using assms(1) by (simp add: st relay_ok_def history_ok_def)
      then show ?thesis
        by (cases rule: Send_cases [of fl sk used c an cell])
          (use assms(2) Some Tick in \<open>auto simp: st relay_ok_def history_ok_def\<close>)
    qed
  qed
qed

interpretation emissions: fresh_issuer "relay_step c sk0" em_sequence relay_ok
  by unfold_locales (rule relay_step_ok)

text \<open>The configuration of a process is the signed one, and its tick count advances whatever the system answers.\<close>

definition configured :: "authenticatedSink \<Rightarrow> authenticatedSink \<Rightarrow> bool" where
  "configured sk0 sk \<longleftrightarrow> sk_self sk = sk_self sk0 \<and> sk_peers sk = sk_peers sk0 \<and> sk_plan sk = sk_plan sk0 \<and> sk_context sk = sk_context sk0"

lemma Send_keeps:
  "configured sk0 sk \<Longrightarrow> configured sk0 (snd (fst (Send c fl sk an cell)))"
  by (simp add: configured_def Send_def transmit_def classify_def sink_drop_def Let_def split_def
      split: sum.split option.split if_splits)

lemma Send_ticks:
  "LocalMetadata cell = Inr m \<Longrightarrow> sk_plan sk \<noteq> [] \<Longrightarrow> \<forall>slot \<in> set (sk_plan sk). unat slot < length (sk_peers sk) \<Longrightarrow>
     sk_next (snd (fst (Send c fl sk an cell))) = sk_next sk + 1"
  by (simp add: Send_def transmit_def Let_def split_def not_le split: sum.split option.split if_splits)

definition emission_of :: "crypto \<Rightarrow> authenticatedSink \<Rightarrow> emission \<Rightarrow> bool" where
  "emission_of c sk0 em \<longleftrightarrow> (\<exists>sk cell sealed n. configured sk0 sk \<and> sealed_for c sk cell (em_sequence em) sealed \<and>
     em_peer em = op_index (tick_peer sk) \<and> em_bytes em = take n sealed)"

lemma relay_emits_seals:
  assumes "relay_ok st used" and "\<forall>sk. snd st = Some sk \<longrightarrow> configured sk0 sk"
  shows "\<forall>em \<in> set (issued (relay_step c sk0) st evs). emission_of c sk0 em"
  using assms
proof (induction evs arbitrary: st used)
  case (Cons ev evs)
  obtain st' out where step: "relay_step c sk0 st ev = (st', out)" by (rule prod.exhaust)
  have ok: "relay_ok st' (case out of None \<Rightarrow> used | Some em \<Rightarrow> insert (em_sequence em) used)"
    using relay_step_ok [OF Cons.prems(1) step] by (cases out) simp_all
  have main: "(\<forall>sk. snd st' = Some sk \<longrightarrow> configured sk0 sk) \<and> (\<forall>em. out = Some em \<longrightarrow> emission_of c sk0 em)"
  proof (cases rule: relay_step.cases [of "(c, sk0, st, ev)", case_names boot none tick])
    case (boot _ _ fl p path directory outcome)
    with step show ?thesis by (auto simp: configured_def split: prod.splits sum.splits)
  next
    case none
    with step Cons.prems(2) show ?thesis by auto
  next
    case (tick _ _ fl sk an cell)
    then have st: "st = (fl, Some sk)" and ev: "ev = Tick an cell" by simp_all
    have seq: "seq_ok fl (sk_sequence sk) used" using Cons.prems(1) by (simp add: st relay_ok_def history_ok_def)
    have cfg: "configured sk0 sk" using Cons.prems(2) st by simp
    have "snd st' = Some (snd (fst (Send c fl sk an cell)))" using step by (auto simp: st ev split: prod.splits)
    moreover have "emission_of c sk0 em" if "out = Some em" for em
    proof (cases rule: Send_cases [OF seq, of c an cell, case_names quiet emitted])
      case quiet
      with step that show ?thesis by (simp add: st ev)
    next
      case (emitted fl' sk' r q sealed n)
      then have "em = \<lparr>em_peer = op_index (tick_peer sk), em_sequence = q, em_bytes = take n sealed\<rparr>"
        using step that by (simp add: st ev)
      with emitted(5) cfg show ?thesis unfolding emission_of_def by auto
    qed
    ultimately show ?thesis using Send_keeps [OF cfg] by auto
  qed
  show ?case
    using Cons.IH [OF ok] main step by (cases out) auto
qed simp

section \<open>Property\<close>

text \<open>
  C21: No keystream is used twice. Through any history of starts, crashes, failed and partial writes and failed
  reservations, the cells a relay has put on the wire carry pairwise different, non-zero sequence numbers; each is
  (a prefix of) the seal of a local cell under that number, for the peer that the signed plan names at that tick; and
  the tick advances with every cell, whatever the system answers, so failures do not show in who is addressed.
  The publisher's 64-bit numbers never repeat either.
\<close>

theorem relay_never_repeats:
  "let ems = issued (relay_step c sk0) (fl, None) evs in
     distinct (map em_sequence ems) \<and> 0 \<notin> em_sequence ` set ems \<and>
     (\<forall>em \<in> set ems. \<exists>sk cell sealed n. configured sk0 sk \<and> sealed_for c sk cell (em_sequence em) sealed \<and>
        em_peer em = op_index (tick_peer sk) \<and> em_bytes em = take n sealed) \<and>
     (\<forall>fl sk an cell m. LocalMetadata cell = Inr m \<and> sk_plan sk \<noteq> [] \<and>
        (\<forall>slot \<in> set (sk_plan sk). unat slot < length (sk_peers sk)) \<longrightarrow>
        sk_next (snd (fst (Send c fl sk an cell))) = sk_next sk + 1) \<and>
     (let vs = issued sequence_step (fl', None :: u64 fileSequence option) starts in distinct vs \<and> 0 \<notin> set vs)"
proof -
  have start: "relay_ok (fl, None) {0}" "history_ok (fl', None :: u64 fileSequence option) {0}"
    by (simp_all add: relay_ok_def history_ok_def file_ok_def)
  note e = emissions.issued_fresh [OF start(1), of c sk0 evs]
  note u = numbers.issued_fresh [OF conjI [OF width_words(2) start(2)], of starts]
  have "\<forall>em \<in> set (issued (relay_step c sk0) (fl, None) evs). emission_of c sk0 em"
    by (rule relay_emits_seals [OF start(1)]) simp
  with e u Send_ticks show ?thesis unfolding Let_def emission_of_def by auto
qed

text \<open>A relay with one peer sends one cover cell.\<close>

definition sample_sink :: authenticatedSink where
  "sample_sink = \<lparr>sk_self = 1, sk_peers = [\<lparr>op_index = 2, op_key = replicate 32 3\<rparr>], sk_plan = [0], sk_next = 0,
     sk_sequence = \<lparr>sq_next = 0, sq_reserved = 0\<rparr>, sk_context = sample_context, sk_consecutive = 0, sk_sent = 0,
     sk_relayed = 0, sk_coverSent = 0, sk_sendDropped = 0\<rparr>"

definition sample_cover :: bytes where
  "sample_cover = replicate CiphertextSize 0 @ encodeLocalHeader CoverMetadata"

definition sample_answers :: send_answers where
  "sample_answers = \<lparr>an_reservation = Written, an_deadline = None, an_write = Inr CellSize\<rparr>"

lemma sample_cover_ok: "LocalMetadata sample_cover = Inr CoverMetadata" "length sample_cover = CellSize"
  using LocalMetadata_local [of "replicate CiphertextSize 0" CoverMetadata]
  by (simp_all add: sample_cover_def CoverMetadata_def validateMetadata_def IsWork_def encodeLocalHeader_def frame_sizes)

lemma sample_boot:
  "OpenFileSequence ''s'' True Written Absent = (Stored (be32 1048576), Inr (\<lparr>sq_next = 1, sq_reserved = 1048576\<rparr> :: u32 fileSequence))"
  by (simp add: OpenFileSequence_def reserve_def readReservation_def atomicStateWrite_def sequenceReservation_def Let_def push_bit_of_1 del: be_enc.simps)

lemma sample_sends:
  "\<exists>em. issued (relay_step sample_crypto sample_sink) (Absent, None) [Boot ''s'' True Written, Tick sample_answers sample_cover] = [em]"
proof -
  let ?x = "sample_context\<lparr>hc_Receiver := 2\<rparr>"
  have "snd (Seal sample_crypto (Some sample_cover) CoverMetadata 1 1 (replicate 32 3) ?x) = Inr ()"
    by (simp add: Seal_image [OF sample_cover_ok(2)] CoverMetadata_def validateMetadata_def validateAuthentication_def
        sample_context_def IsWork_def Let_def split_def)
  from Seal_some [OF this] obtain v where v: "Seal sample_crypto (Some sample_cover) CoverMetadata 1 1 (replicate 32 3) ?x = (Some v, Inr ())"
    by blast
  then show ?thesis
    by (simp add: sample_boot Send_def sample_cover_ok(1) Sequence_Next_def transmit_def sample_answers_def Let_def)
      (simp add: sample_sink_def)
qed

theorem relay_never_repeats_witness:
  "\<exists>em. issued (relay_step sample_crypto sample_sink) (Absent, None) [Boot ''s'' True Written, Tick sample_answers sample_cover] = [em] \<and>
     em_sequence em \<noteq> 0 \<and> emission_of sample_crypto sample_sink em"
proof -
  obtain em where em: "issued (relay_step sample_crypto sample_sink) (Absent, None) [Boot ''s'' True Written, Tick sample_answers sample_cover] = [em]"
    using sample_sends by blast
  from relay_never_repeats [of sample_crypto sample_sink Absent "[Boot ''s'' True Written, Tick sample_answers sample_cover]", unfolded Let_def em]
  show ?thesis using em unfolding emission_of_def by auto
qed

end
