(* ===== verification/FairQueue.thy ===== *)
theory FairQueue
  imports Prelude
begin

text \<open>
  The relay queue of \<^verbatim>\<open>live/node/fairqueue.go\<close>: one line per signed source, a share of the capacity each, served in rotation.
  Every method holds the lock, so it is one atomic step.
\<close>

section \<open>The queue\<close>

record fairQueue =
  fq_capacity :: int
  fq_perSource :: int
  fq_order :: "u16 list"
  fq_lines :: "u16 \<rightharpoonup> bytes list"
  fq_turn :: nat
  fq_dropped :: "u16 \<Rightarrow> u64"

datatype queue_error = CapacityNotPositive | NoSource | CapacityBelowSources | NoWork

definition addSource :: "fairQueue \<Rightarrow> u16 \<Rightarrow> fairQueue" where
  "addSource q source =
     (if fq_lines q source \<noteq> None then q
      else q\<lparr>fq_order := fq_order q @ [source], fq_lines := (fq_lines q)(source \<mapsto> [])\<rparr>)"

definition NewFairQueue :: "int \<Rightarrow> u16 list \<Rightarrow> queue_error + fairQueue" where
  "NewFairQueue capacity sources =
     (if capacity < 1 then Inl CapacityNotPositive
      else if sources = [] then Inl NoSource
      else let perSource = capacity div int (length sources) in
        if perSource < 1 then Inl CapacityBelowSources
        else Inr (foldl addSource \<lparr>fq_capacity = capacity, fq_perSource = perSource, fq_order = [], fq_lines = Map.empty,
                                   fq_turn = 0, fq_dropped = (\<lambda>_. 0)\<rparr> sources))"

definition Enqueue :: "fairQueue \<Rightarrow> u16 \<Rightarrow> bytes \<Rightarrow> fairQueue \<times> bool" where
  "Enqueue q source cell =
     (case fq_lines q source of
        None \<Rightarrow> (q, False)
      | Some line \<Rightarrow>
          if int (length line) \<ge> fq_perSource q
          then (q\<lparr>fq_dropped := (fq_dropped q)(source := fq_dropped q source + 1)\<rparr>, False)
          else (q\<lparr>fq_lines := (fq_lines q)(source \<mapsto> line @ [cell])\<rparr>, True))"

text \<open>A line as Go's map index reads it: the nil slice for a source without one.\<close>

definition lineOf :: "fairQueue \<Rightarrow> u16 \<Rightarrow> bytes list" where
  "lineOf q source = (case fq_lines q source of None \<Rightarrow> [] | Some line \<Rightarrow> line)"

text \<open>The scan of \<^verbatim>\<open>NextCell\<close>: the first source in rotation order whose line is not empty.\<close>

definition scan :: "fairQueue \<Rightarrow> u16 option" where
  "scan q =
     (let n = length (fq_order q); start = fq_turn q mod n in
      List.find (\<lambda>source. lineOf q source \<noteq> []) (map (\<lambda>offset. fq_order q ! ((start + offset) mod n)) [0..<n]))"

definition NextCell :: "fairQueue \<Rightarrow> fairQueue \<times> (queue_error + bytes)" where
  "NextCell q =
     (if fq_order q = [] then (q, Inl NoWork)
      else let q1 = q\<lparr>fq_turn := (fq_turn q + 1) mod length (fq_order q)\<rparr> in
        case scan q of
          None \<Rightarrow> (q1, Inl NoWork)
        | Some source \<Rightarrow>
            (q1\<lparr>fq_lines := (fq_lines q)(source \<mapsto> tl (lineOf q source))\<rparr>, Inr (hd (lineOf q source))))"

definition Queue_Len :: "fairQueue \<Rightarrow> nat" where
  "Queue_Len q = (\<Sum>source \<in> dom (fq_lines q). length (lineOf q source))"

definition PerSource :: "fairQueue \<Rightarrow> int" where
  "PerSource q = fq_perSource q"

definition Dropped :: "fairQueue \<Rightarrow> u16 \<Rightarrow> u64" where
  "Dropped q = fq_dropped q"

section \<open>Invariant\<close>

definition queue_ok :: "fairQueue \<Rightarrow> bool" where
  "queue_ok q \<longleftrightarrow> distinct (fq_order q) \<and> dom (fq_lines q) = set (fq_order q) \<and> 1 \<le> fq_perSource q \<and>
     fq_perSource q * int (length (fq_order q)) \<le> fq_capacity q \<and> (fq_order q \<noteq> [] \<longrightarrow> fq_turn q < length (fq_order q)) \<and>
     (\<forall>source. int (length (lineOf q source)) \<le> fq_perSource q)"

lemma lineOf_outside: "queue_ok q \<Longrightarrow> source \<notin> set (fq_order q) \<Longrightarrow> lineOf q source = []"
  by (auto simp: queue_ok_def lineOf_def dom_def split: option.splits)

lemma Enqueue_lines:
  "lineOf (fst (Enqueue q source cell)) s = lineOf q s @ (if s = source \<and> snd (Enqueue q source cell) then [cell] else [])"
  by (simp add: Enqueue_def lineOf_def split: option.split)

lemma scan_nonempty: "scan q = Some source \<Longrightarrow> lineOf q source \<noteq> [] \<and> source \<in> set (fq_order q)"
proof -
  let ?n = "length (fq_order q)"
  assume "scan q = Some source"
  then obtain i where i: "i < ?n" "lineOf q source \<noteq> []" "source = fq_order q ! ((fq_turn q mod ?n + i) mod ?n)"
    by (auto simp: scan_def Let_def find_Some_iff)
  then have "(fq_turn q mod ?n + i) mod ?n < ?n" by (intro mod_less_divisor) linarith
  with i show ?thesis by (metis nth_mem)
qed

lemma NextCell_lines:
  "lineOf (fst (NextCell q)) s = (if fq_order q \<noteq> [] \<and> scan q = Some s then tl (lineOf q s) else lineOf q s)"
  by (auto simp: NextCell_def lineOf_def Let_def split: option.split)

lemma NextCell_answer:
  "snd (NextCell q) = (case scan q of Some s \<Rightarrow> if fq_order q = [] then Inl NoWork else Inr (hd (lineOf q s)) | None \<Rightarrow> Inl NoWork)"
  by (simp add: NextCell_def Let_def split: option.split)

lemma queue_ok_Enqueue: "queue_ok q \<Longrightarrow> queue_ok (fst (Enqueue q source cell))"
  unfolding queue_ok_def Enqueue_lines by (auto simp: Enqueue_def lineOf_def split: option.split)

lemma queue_ok_NextCell:
  assumes ok: "queue_ok q"
  shows "queue_ok (fst (NextCell q))"
proof -
  have "dom (fq_lines (fst (NextCell q))) = set (fq_order q)"
    using ok scan_nonempty [of q] by (auto simp: NextCell_def queue_ok_def Let_def split: option.split)
  moreover have "int (length (lineOf (fst (NextCell q)) s)) \<le> fq_perSource q" for s
  proof -
    have "length (lineOf (fst (NextCell q)) s) \<le> length (lineOf q s)" by (simp add: NextCell_lines)
    moreover have "int (length (lineOf q s)) \<le> fq_perSource q" using ok by (simp add: queue_ok_def)
    ultimately show ?thesis by linarith
  qed
  ultimately show ?thesis using ok by (auto simp: queue_ok_def NextCell_def Let_def split: option.split)
qed

lemma addSource_fold:
  assumes "distinct (fq_order q)" and "dom (fq_lines q) = set (fq_order q)" and "\<forall>s. lineOf q s = []"
  shows "let q' = foldl addSource q sources in distinct (fq_order q') \<and> dom (fq_lines q') = set (fq_order q') \<and>
    set (fq_order q') = set (fq_order q) \<union> set sources \<and> length (fq_order q') \<le> length (fq_order q) + length sources \<and>
    (\<forall>s. lineOf q' s = []) \<and> fq_capacity q' = fq_capacity q \<and> fq_perSource q' = fq_perSource q \<and> fq_turn q' = fq_turn q \<and>
    fq_dropped q' = fq_dropped q"
  using assms
proof (induction sources arbitrary: q)
  case (Cons x xs)
  have known: "fq_lines q x = None \<longleftrightarrow> x \<notin> set (fq_order q)" using Cons.prems(2) by blast
  have "distinct (fq_order (addSource q x))" "dom (fq_lines (addSource q x)) = set (fq_order (addSource q x))"
      "\<forall>s. lineOf (addSource q x) s = []" "set (fq_order (addSource q x)) = insert x (set (fq_order q))"
      "length (fq_order (addSource q x)) \<le> length (fq_order q) + 1"
      "fq_capacity (addSource q x) = fq_capacity q" "fq_perSource (addSource q x) = fq_perSource q"
      "fq_turn (addSource q x) = fq_turn q" "fq_dropped (addSource q x) = fq_dropped q"
    using Cons.prems known by (auto simp: addSource_def lineOf_def)
  with Cons.IH [of "addSource q x"] show ?case by (auto simp: Let_def)
qed simp

lemma NewFairQueue_ok:
  assumes "NewFairQueue capacity sources = Inr q"
  shows "queue_ok q \<and> set (fq_order q) = set sources \<and> length (fq_order q) = card (set sources) \<and> fq_capacity q = capacity \<and>
    fq_perSource q = capacity div int (length sources) \<and> (\<forall>s. lineOf q s = []) \<and> sources \<noteq> []"
proof -
  let ?per = "capacity div int (length sources)"
  let ?q0 = "\<lparr>fq_capacity = capacity, fq_perSource = ?per, fq_order = [], fq_lines = Map.empty, fq_turn = 0, fq_dropped = (\<lambda>_. 0)\<rparr>"
  have q: "q = foldl addSource ?q0 sources" and per: "1 \<le> ?per" and ne: "sources \<noteq> []"
    using assms by (auto simp: NewFairQueue_def Let_def split: if_splits)
  have f: "distinct (fq_order q) \<and> dom (fq_lines q) = set (fq_order q) \<and> set (fq_order q) = set sources \<and>
      length (fq_order q) \<le> length sources \<and> (\<forall>s. lineOf q s = []) \<and> fq_capacity q = capacity \<and> fq_perSource q = ?per \<and> fq_turn q = 0"
    using addSource_fold [of ?q0 sources] by (simp add: q Let_def lineOf_def)
  have "?per * int (length (fq_order q)) \<le> ?per * int (length sources)" using f per by (intro mult_left_mono) simp_all
  also have "\<dots> \<le> capacity" using ne by (simp add: minus_mod_eq_div_mult [symmetric])
  finally show ?thesis using f per ne distinct_card [of "fq_order q"] by (auto simp: queue_ok_def)
qed

section \<open>Histories\<close>

datatype queue_event = Offer u16 bytes | Serve

fun queue_step :: "fairQueue \<Rightarrow> queue_event \<Rightarrow> fairQueue" where
  "queue_step q (Offer source cell) = fst (Enqueue q source cell)"
| "queue_step q Serve = fst (NextCell q)"

interpretation queue: invariant_machine queue_step queue_ok
proof unfold_locales
  fix q ev
  show "queue_ok q \<Longrightarrow> queue_ok (queue_step q ev)"
    by (cases ev) (simp_all add: queue_ok_Enqueue queue_ok_NextCell)
qed

text \<open>
  What was taken from a source, and the cells \<^verbatim>\<open>NextCell\<close> returned to the scheduler while that source's line got shorter.
\<close>

fun taken :: "fairQueue \<Rightarrow> u16 \<Rightarrow> queue_event list \<Rightarrow> bytes list" where
  "taken q s [] = []"
| "taken q s (Offer source cell # evs) =
     (if source = s \<and> snd (Enqueue q source cell) then [cell] else []) @ taken (queue_step q (Offer source cell)) s evs"
| "taken q s (Serve # evs) = taken (queue_step q Serve) s evs"

fun served :: "fairQueue \<Rightarrow> u16 \<Rightarrow> queue_event list \<Rightarrow> bytes list" where
  "served q s [] = []"
| "served q s (Offer source cell # evs) = served (queue_step q (Offer source cell)) s evs"
| "served q s (Serve # evs) =
     (case snd (NextCell q) of
        Inr cell \<Rightarrow> if length (lineOf (fst (NextCell q)) s) < length (lineOf q s) then [cell] else []
      | Inl _ \<Rightarrow> []) @ served (queue_step q Serve) s evs"

lemma served_Serve [simp]:
  "served q s (Serve # evs) = (if fq_order q \<noteq> [] \<and> scan q = Some s then [hd (lineOf q s)] else []) @ served (queue_step q Serve) s evs"
proof -
  have "length (tl (lineOf q t)) < length (lineOf q t)" if "scan q = Some t" for t
    using scan_nonempty [OF that] by simp
  then show ?thesis by (auto simp: NextCell_lines NextCell_answer split: option.splits)
qed

declare served.simps(3) [simp del]

lemma first_in_first_out: "lineOf q s @ taken q s evs = served q s evs @ lineOf (run_ops queue_step q evs) s"
proof (induction evs arbitrary: q)
  case (Cons ev evs)
  show ?case
  proof (cases ev)
    case (Offer source cell)
    with Cons.IH [of "queue_step q ev"] show ?thesis by (cases "source = s") (auto simp: Enqueue_lines split: if_splits)
  next
    case Serve
    with Cons.IH [of "queue_step q ev"] scan_nonempty [of q s] show ?thesis
      by (cases "lineOf q s") (auto simp: NextCell_lines)
  qed
qed simp

text \<open>A waiting source is served at the latest when the rotation reaches it.\<close>

lemma Enqueue_keeps [simp]:
  "fq_order (fst (Enqueue q source cell)) = fq_order q" "fq_turn (fst (Enqueue q source cell)) = fq_turn q"
  by (simp_all add: Enqueue_def split: option.split)

lemma NextCell_keeps [simp]:
  "fq_order (fst (NextCell q)) = fq_order q"
  "fq_turn (fst (NextCell q)) = (if fq_order q = [] then fq_turn q else (fq_turn q + 1) mod length (fq_order q))"
  by (simp_all add: NextCell_def Let_def split: option.split)

lemma step_keeps [simp]:
  "fq_order (queue_step q ev) = fq_order q" "fq_perSource (queue_step q ev) = fq_perSource q" "fq_capacity (queue_step q ev) = fq_capacity q"
  by (cases ev; simp add: Enqueue_def NextCell_def Let_def split: option.split)+

lemma scan_turn:
  assumes "fq_turn q mod length (fq_order q) < length (fq_order q)" and "lineOf q (fq_order q ! (fq_turn q mod length (fq_order q))) \<noteq> []"
  shows "scan q = Some (fq_order q ! (fq_turn q mod length (fq_order q)))"
proof -
  obtain m where m: "length (fq_order q) = Suc m" using assms(1) by (cases "length (fq_order q)") auto
  show ?thesis using assms unfolding scan_def Let_def m upt_conv_Cons [OF zero_less_Suc] by simp
qed

lemma served_in_turn:
  assumes "lineOf q s \<noteq> []" and "(fq_turn q + d) mod length (fq_order q) < length (fq_order q)"
    and "fq_order q ! ((fq_turn q + d) mod length (fq_order q)) = s" and "d < length (filter ((=) Serve) evs)"
  shows "served q s evs \<noteq> []"
  using assms
proof (induction evs arbitrary: q d)
  case (Cons ev evs)
  let ?n = "length (fq_order q)"
  show ?case
  proof (cases ev)
    case (Offer source cell)
    with Cons.IH [of "queue_step q ev" d] Cons.prems show ?thesis by (simp add: Enqueue_lines)
  next
    case Serve
    show ?thesis
    proof (cases "scan q = Some s")
      case True
      with Serve scan_nonempty [OF True] show ?thesis by auto
    next
      case False
      have d: "0 < d"
      proof (rule ccontr)
        assume "\<not> 0 < d"
        with scan_turn [of q] Cons.prems False show False by simp
      qed
      have ne: "fq_order q \<noteq> []" using Cons.prems(2) by auto
      have "((fq_turn q + 1) mod ?n + (d - 1)) mod ?n = (fq_turn q + d) mod ?n" using d by (cases d) (simp_all add: mod_simps)
      with Cons.IH [of "queue_step q Serve" "d - 1"] Cons.prems d ne False Serve show ?thesis by (simp add: NextCell_lines)
    qed
  qed
qed simp

lemma Queue_Len_bound:
  assumes "queue_ok q"
  shows "int (Queue_Len q) \<le> fq_capacity q"
proof -
  have "int (Queue_Len q) = (\<Sum>s \<in> set (fq_order q). int (length (lineOf q s)))"
    using assms by (simp add: Queue_Len_def queue_ok_def)
  also have "\<dots> \<le> (\<Sum>s \<in> set (fq_order q). fq_perSource q)" using assms by (intro sum_mono) (simp add: queue_ok_def)
  also have "\<dots> = fq_perSource q * int (length (fq_order q))" using assms distinct_card [of "fq_order q"] by (simp add: queue_ok_def)
  finally show ?thesis using assms by (simp add: queue_ok_def)
qed

section \<open>Property\<close>

lemma run_order [simp]:
  "fq_order (run_ops queue_step q evs) = fq_order q" "fq_perSource (run_ops queue_step q evs) = fq_perSource q"
  "fq_capacity (run_ops queue_step q evs) = fq_capacity q"
  by (induction evs arbitrary: q) simp_all

lemma Enqueue_iff:
  "queue_ok q \<Longrightarrow> snd (Enqueue q s cell) \<longleftrightarrow> s \<in> set (fq_order q) \<and> int (length (lineOf q s)) < fq_perSource q"
  using domIff [of s "fq_lines q"] by (auto simp: Enqueue_def lineOf_def queue_ok_def split: option.split)

text \<open>A service comes back empty only when nobody waits.\<close>

lemma scan_finds:
  assumes "s \<in> set (fq_order q)" "lineOf q s \<noteq> []"
  shows "scan q \<noteq> None"
proof -
  let ?n = "length (fq_order q)" and ?start = "fq_turn q mod length (fq_order q)"
  obtain i where i: "i < ?n" "fq_order q ! i = s" using assms(1) by (auto simp: in_set_conv_nth)
  then have start: "?start < ?n" by (intro mod_less_divisor) linarith
  let ?offset = "(i + (?n - ?start)) mod ?n"
  have "(?start + ?offset) mod ?n = (?start + (i + (?n - ?start))) mod ?n" by (rule mod_add_right_eq)
  also have "\<dots> = i" using start i by simp
  finally have at: "(?start + ?offset) mod ?n = i" .
  moreover have "?offset < ?n" using start by (intro mod_less_divisor) linarith
  ultimately show ?thesis using i assms(2) by (auto simp: scan_def Let_def find_None_iff intro!: bexI [of _ ?offset])
qed

lemma NextCell_empty:
  assumes "queue_ok q"
  shows "(\<exists>cell. snd (NextCell q) = Inr cell) \<longleftrightarrow> (\<exists>s. lineOf q s \<noteq> [])"
proof
  assume "\<exists>cell. snd (NextCell q) = Inr cell"
  then obtain s where "scan q = Some s" by (auto simp: NextCell_def Let_def split: if_splits option.splits)
  with scan_nonempty show "\<exists>s. lineOf q s \<noteq> []" by blast
next
  assume "\<exists>s. lineOf q s \<noteq> []"
  then obtain s where s: "lineOf q s \<noteq> []" "s \<in> set (fq_order q)" using lineOf_outside [OF assms] by blast
  with scan_finds [of s q] show "\<exists>cell. snd (NextCell q) = Inr cell" by (auto simp: NextCell_def Let_def)
qed

text \<open>
  C22: No source can take another's place. After any offers and services the queue holds at most its capacity;
  an offer is taken exactly when its source is one of the signed ones and its own line is below the fixed share, whatever
  the other sources did; the cells \<^verbatim>\<open>NextCell\<close> returns from a source's line are those taken from it, in their order, none lost
  and none invented; it returns one whenever any source waits; and a source that waits is served within as many services as there are sources, however much the others send.
\<close>

theorem fair_queue_isolates:
  assumes "NewFairQueue capacity sources = Inr q0" and "q = run_ops queue_step q0 evs"
  shows "int (Queue_Len q) \<le> capacity \<and>
    (\<forall>s cell. snd (Enqueue q s cell) \<longleftrightarrow> s \<in> set sources \<and> int (length (lineOf q s)) < capacity div int (length sources)) \<and>
    (\<forall>s. taken q0 s evs = served q0 s evs @ lineOf q s) \<and>
    ((\<exists>cell. snd (NextCell q) = Inr cell) \<longleftrightarrow> (\<exists>s. lineOf q s \<noteq> [])) \<and>
    (\<forall>s later. lineOf q s \<noteq> [] \<and> card (set sources) \<le> length (filter ((=) Serve) later) \<longrightarrow> served q s later \<noteq> [])"
proof (intro conjI allI impI)
  note new = NewFairQueue_ok [OF assms(1)]
  have ok: "queue_ok q" using new assms(2) queue.run_inv by blast
  have order: "set (fq_order q) = set sources" "fq_order q = fq_order q0" using new assms(2) by simp_all
  show "int (Queue_Len q) \<le> capacity" using Queue_Len_bound [OF ok] new assms(2) by simp
  show "snd (Enqueue q s cell) \<longleftrightarrow> s \<in> set sources \<and> int (length (lineOf q s)) < capacity div int (length sources)" for s cell
    using Enqueue_iff [OF ok] order new assms(2) by simp
  show "taken q0 s evs = served q0 s evs @ lineOf q s" for s
    using first_in_first_out [of q0 s evs] new assms(2) by simp
  show "(\<exists>cell. snd (NextCell q) = Inr cell) \<longleftrightarrow> (\<exists>s. lineOf q s \<noteq> [])" by (rule NextCell_empty [OF ok])
  fix s later
  assume wait: "lineOf q s \<noteq> [] \<and> card (set sources) \<le> length (filter ((=) Serve) later)"
  then have "s \<in> set (fq_order q)" using lineOf_outside [OF ok] by blast
  then obtain i where i: "i < length (fq_order q)" "fq_order q ! i = s" by (auto simp: in_set_conv_nth)
  let ?n = "length (fq_order q)" and ?d = "\<lambda>i. (i + (length (fq_order q) - fq_turn q)) mod length (fq_order q)"
  have turn: "fq_turn q < ?n" using ok i by (auto simp: queue_ok_def)
  have "(fq_turn q + ?d i) mod ?n = (fq_turn q + (i + (?n - fq_turn q))) mod ?n" by (simp add: mod_simps)
  also have "\<dots> = i" using turn i by simp
  finally have at: "(fq_turn q + ?d i) mod ?n = i" .
  have "?d i < ?n" using i by (intro mod_less_divisor) linarith
  with wait new order have "?d i < length (filter ((=) Serve) later)" by simp
  with served_in_turn [of q s "?d i" later] wait at i show "served q s later \<noteq> []" by simp
qed

theorem fair_queue_isolates_witness:
  "\<exists>q. NewFairQueue 4 [7, 9] = Inr q \<and> snd (Enqueue (run_ops queue_step q [Offer 7 [1], Offer 7 [2], Offer 7 [3]]) 9 [4]) \<and>
     \<not> snd (Enqueue (run_ops queue_step q [Offer 7 [1], Offer 7 [2], Offer 7 [3]]) 7 [4])"
proof -
  obtain q where q: "NewFairQueue 4 [7, 9] = Inr q"
    by (simp add: NewFairQueue_def)
  let ?q = "run_ops queue_step q [Offer 7 [1], Offer 7 [2], Offer 7 [3]]"
  have "lineOf ?q 9 = []" "lineOf ?q 7 = [[1], [2]]"
    using q by (auto simp: NewFairQueue_def addSource_def Enqueue_def lineOf_def)
  with fair_queue_isolates [OF q refl, of "[Offer 7 [1], Offer 7 [2], Offer 7 [3]]", THEN conjunct2, THEN conjunct1] q
  show ?thesis by simp
qed

end
