(* ===== verification/CanonicalJson.thy ===== *)
theory CanonicalJson
  imports Json
begin

text \<open>
  The canonical JSON of \<^verbatim>\<open>live/topology/canonical.go\<close>, the form that is hashed and signed: members sorted by
  the UTF-16 code units of their names, no white space, minimal escapes, integers only, and an absent array
  written as an empty one. The encoding is shown to be unambiguous: one text stands for one value, up to the
  order of members and the difference between an absent and an empty array.
\<close>

section \<open>Text\<close>

function utf8_valid :: "bytes \<Rightarrow> bool" where
  "utf8_valid bs =
     (if bs = [] then True
      else let n = utf8_rune bs in if n = 0 then False else utf8_valid (drop n bs))"
  by pat_completeness auto
termination
  by (relation "measure length") auto

declare utf8_valid.simps [simp del]

definition utf8_ValidString :: "string \<Rightarrow> bool" where
  "utf8_ValidString s = utf8_valid (bytes_of s)"

text \<open>The code point of a well-formed sequence, and the UTF-16 code units of \<^verbatim>\<open>[]rune(s)\<close>.\<close>

definition rune_value :: "bytes \<Rightarrow> nat" where
  "rune_value bs =
     (case bs of
        [b] \<Rightarrow> unat b
      | [b, c] \<Rightarrow> unat b mod 32 * 64 + unat c mod 64
      | [b, c, d] \<Rightarrow> (unat b mod 16 * 64 + unat c mod 64) * 64 + unat d mod 64
      | [b, c, d, e] \<Rightarrow> ((unat b mod 8 * 64 + unat c mod 64) * 64 + unat d mod 64) * 64 + unat e mod 64
      | _ \<Rightarrow> 0)"

function utf16_units :: "bytes \<Rightarrow> nat list" where
  "utf16_units [] = []"
| "utf16_units (b # r) =
     (let n = utf8_rune (b # r) in
      if n = 0 then 0xFFFD # utf16_units r
      else let cp = rune_value (take n (b # r)) in
        (if cp < 0x10000 then [cp]
         else [0xD800 + (cp - 0x10000) div 0x400, 0xDC00 + (cp - 0x10000) mod 0x400]) @
        utf16_units (drop n (b # r)))"
  by pat_completeness auto
termination
  by (relation "measure length") auto

fun less_units :: "nat list \<Rightarrow> nat list \<Rightarrow> bool" where
  "less_units (a # l) (b # r) = (if a \<noteq> b then a < b else less_units l r)"
| "less_units [] r = (r \<noteq> [])"
| "less_units l [] = False"

definition lessUTF16 :: "string \<Rightarrow> string \<Rightarrow> bool" where
  "lessUTF16 left right = less_units (utf16_units (bytes_of left)) (utf16_units (bytes_of right))"

section \<open>The writer\<close>

text \<open>
  What \<^verbatim>\<open>json.Decoder\<close> with \<^verbatim>\<open>UseNumber\<close> decodes into an \<^verbatim>\<open>any\<close>. An object is a map; its members are
  listed once each, in some order.
\<close>

datatype cvalue =
    CNull | CBool bool | CNumber string | CString string | CArray "cvalue list" | CObject "(string \<times> cvalue) list"

datatype canonical_error = EmptyNumber | NotInteger | LeadingZero | NegativeZero | InvalidUtf8

definition writeCanonicalNumber :: "string \<Rightarrow> canonical_error + string" where
  "writeCanonicalNumber literal =
     (if literal = [] then Inl EmptyNumber
      else let body = (if hd literal = CHR ''-'' then tl literal else literal) in
        if body = [] then Inl NotInteger
        else if \<not> list_all (\<lambda>d. dec_val d \<noteq> None) body then Inl NotInteger
        else if length body > 1 \<and> hd body = CHR ''0'' then Inl LeadingZero
        else if literal = ''-0'' then Inl NegativeZero
        else Inr literal)"

abbreviation quote :: char where "quote \<equiv> CHR 0x22"
abbreviation backslash :: char where "backslash \<equiv> CHR 0x5C"

definition canonical_escape :: "char \<Rightarrow> string" where
  "canonical_escape ch =
     (let b = of_char ch :: nat in
      if ch = quote then [backslash, quote]
      else if ch = backslash then [backslash, backslash]
      else if ch = CHR 0x08 then [backslash, CHR ''b'']
      else if ch = CHR 0x0C then [backslash, CHR ''f'']
      else if ch = CHR 0x0A then [backslash, CHR ''n'']
      else if ch = CHR 0x0D then [backslash, CHR ''r'']
      else if ch = CHR 0x09 then [backslash, CHR ''t'']
      else if b < 32 then [backslash, CHR ''u'', CHR ''0'', CHR ''0'', hex_digit (b div 16), hex_digit (b mod 16)]
      else [ch])"

definition writeCanonicalString :: "string \<Rightarrow> canonical_error + string" where
  "writeCanonicalString s =
     (if \<not> utf8_ValidString s then Inl InvalidUtf8
      else Inr (quote # concat (map canonical_escape s) @ [quote]))"

text \<open>\<^verbatim>\<open>sort.Slice\<close> on names that differ: the order is determined.\<close>

fun insertMember :: "string \<times> 'a \<Rightarrow> (string \<times> 'a) list \<Rightarrow> (string \<times> 'a) list" where
  "insertMember m [] = [m]"
| "insertMember m (x # xs) = (if lessUTF16 (fst x) (fst m) then x # insertMember m xs else m # x # xs)"

definition sortMembers :: "(string \<times> 'a) list \<Rightarrow> (string \<times> 'a) list" where
  "sortMembers ms = foldr insertMember ms []"

definition writeMember :: "string \<times> (canonical_error + string) \<Rightarrow> canonical_error + string" where
  "writeMember m =
     andThen (writeCanonicalString (fst m)) (\<lambda>name. andThen (snd m) (\<lambda>v. Inr (name @ CHR '':'' # v)))"

fun joinAll :: "(canonical_error + string) list \<Rightarrow> canonical_error + string" where
  "joinAll [] = Inr []"
| "joinAll [r] = r"
| "joinAll (r # rs) = andThen r (\<lambda>s. andThen (joinAll rs) (\<lambda>t. Inr (s @ CHR '','' # t)))"

fun writeCanonical :: "cvalue \<Rightarrow> canonical_error + string" where
  "writeCanonical CNull = Inr ''[]''"
| "writeCanonical (CBool b) = Inr (if b then ''true'' else ''false'')"
| "writeCanonical (CNumber n) = writeCanonicalNumber n"
| "writeCanonical (CString s) = writeCanonicalString s"
| "writeCanonical (CArray vs) =
     andThen (joinAll (map writeCanonical vs)) (\<lambda>s. Inr (CHR ''['' # s @ [CHR '']'']))"
| "writeCanonical (CObject ms) =
     andThen (joinAll (map writeMember (sortMembers (map (\<lambda>(n, v). (n, writeCanonical v)) ms))))
       (\<lambda>s. Inr (CHR ''{'' # s @ [CHR ''}'']))"

section \<open>One text, one value\<close>

text \<open>The value a text stands for: members in order, absent arrays as empty ones.\<close>

fun canon :: "cvalue \<Rightarrow> cvalue" where
  "canon CNull = CArray []"
| "canon (CArray vs) = CArray (map canon vs)"
| "canon (CObject ms) = CObject (sortMembers (map (\<lambda>(n, v). (n, canon v)) ms))"
| "canon v = v"

lemma insertMember_map: "insertMember (fst m, f (snd m)) (map (\<lambda>m. (fst m, f (snd m))) xs) = map (\<lambda>m. (fst m, f (snd m))) (insertMember m xs)"
  by (induction xs) simp_all

lemma sortMembers_map: "sortMembers (map (\<lambda>m. (fst m, f (snd m))) ms) = map (\<lambda>m. (fst m, f (snd m))) (sortMembers ms)"
  by (induction ms) (simp_all add: sortMembers_def insertMember_map)

lemma set_insertMember [simp]: "set (insertMember m xs) = insert m (set xs)"
  by (induction xs) auto

lemma set_sortMembers [simp]: "set (sortMembers ms) = set ms"
  by (induction ms) (auto simp: sortMembers_def)

definition unescape :: "string \<Rightarrow> (char \<times> string) option" where
  "unescape s =
     (case s of
        [] \<Rightarrow> None
      | a # r \<Rightarrow>
          if a = quote then None
          else if a \<noteq> backslash then Some (a, r)
          else case r of
            [] \<Rightarrow> None
          | c # r' \<Rightarrow>
              if c = CHR ''b'' then Some (CHR 0x08, r')
              else if c = CHR ''f'' then Some (CHR 0x0C, r')
              else if c = CHR ''n'' then Some (CHR 0x0A, r')
              else if c = CHR ''r'' then Some (CHR 0x0D, r')
              else if c = CHR ''t'' then Some (CHR 0x09, r')
              else if c = CHR ''u'' then
                (case (hex_val (r' ! 2), hex_val (r' ! 3)) of
                   (Some h, Some l) \<Rightarrow> Some (char_of (16 * h + l), drop 4 r') | _ \<Rightarrow> None)
              else Some (c, r'))"

lemma unescape_escape: "unescape (canonical_escape ch @ s) = Some (ch, s)"
proof (cases "of_char ch < (32 :: nat)")
  case True
  then have "(of_char ch :: nat) div 16 < 16" by simp
  then show ?thesis
    by (auto simp: canonical_escape_def unescape_def Let_def hex_val_digit)
next
  case False
  then show ?thesis
    by (auto simp: canonical_escape_def unescape_def Let_def)
qed

lemma unescape_quote: "unescape (quote # s) = None"
  by (simp add: unescape_def)

lemma escaped_text_ends:
  "concat (map canonical_escape a) @ quote # s = concat (map canonical_escape b) @ quote # t \<Longrightarrow> a = b \<and> s = t"
proof (induction a arbitrary: b)
  case Nil
  then show ?case
    using unescape_escape unescape_quote by (cases b) (auto, metis option.distinct(1))
next
  case (Cons x a)
  show ?case
  proof (cases b)
    case Nil
    with Cons.prems show ?thesis
      using unescape_escape [of x] unescape_quote by simp (metis option.distinct(1))
  next
    case (Cons y b')
    with Cons.prems have eq: "canonical_escape x @ concat (map canonical_escape a) @ quote # s =
        canonical_escape y @ concat (map canonical_escape b') @ quote # t" by simp
    then have "x = y \<and> concat (map canonical_escape a) @ quote # s = concat (map canonical_escape b') @ quote # t"
      using unescape_escape [of x] unescape_escape [of y] by (metis option.inject prod.inject)
    with Cons.IH Cons show ?thesis by blast
  qed
qed

text \<open>
  A written item ends by itself: followed by a comma or a closing bracket, its text determines what is written
  and where it stops. \<open>g\<close> is what is determined of an item.
\<close>

definition stops :: "string \<Rightarrow> bool" where
  "stops r \<longleftrightarrow> r = [] \<or> hd r \<in> {CHR '','', CHR '']'', CHR ''}''}"

definition self_ending :: "('a \<Rightarrow> canonical_error + string) \<Rightarrow> ('a \<Rightarrow> 'b) \<Rightarrow> 'a \<Rightarrow> bool" where
  "self_ending f g x \<longleftrightarrow>
     (\<forall>y s s' r r'. f x = Inr s \<longrightarrow> f y = Inr s' \<longrightarrow> s @ r = s' @ r' \<longrightarrow> stops r \<longrightarrow> stops r' \<longrightarrow> g x = g y \<and> r = r')"

lemma self_endingD:
  "self_ending f g x \<Longrightarrow> f x = Inr s \<Longrightarrow> f y = Inr s' \<Longrightarrow> s @ r = s' @ r' \<Longrightarrow> stops r \<Longrightarrow> stops r' \<Longrightarrow>
     g x = g y \<and> r = r'"
  unfolding self_ending_def by blast

definition opens :: "('a \<Rightarrow> canonical_error + string) \<Rightarrow> bool" where
  "opens f \<longleftrightarrow> (\<forall>x s. f x = Inr s \<longrightarrow> \<not> stops s)"

lemma stops_simps [simp]:
  "stops []" "stops (ch # r) \<longleftrightarrow> ch \<in> {CHR '','', CHR '']'', CHR ''}''}"
  by (simp_all add: stops_def)

lemma joinAll_Cons:
  "joinAll (f x # map f xs) = Inr s \<longleftrightarrow>
     (\<exists>a. f x = Inr a \<and> (if xs = [] then s = a else \<exists>t. joinAll (map f xs) = Inr t \<and> s = a @ CHR '','' # t))"
  by (cases xs) (auto simp: guard_simps)

lemma not_stops_append: "\<not> stops a \<Longrightarrow> a @ u \<noteq> ch # v \<or> ch \<notin> {CHR '','', CHR '']'', CHR ''}''}"
  by (cases a) auto

lemma joined_ends:
  assumes "opens f" and "ch \<in> {CHR '']'', CHR ''}''}"
  shows "(\<And>x. x \<in> set xs \<Longrightarrow> self_ending f g x) \<Longrightarrow> joinAll (map f xs) = Inr s \<Longrightarrow> joinAll (map f ys) = Inr s' \<Longrightarrow>
    s @ ch # r = s' @ ch # r' \<Longrightarrow> map g xs = map g ys \<and> r = r'"
proof (induction xs arbitrary: ys s s')
  case Nil
  show ?case
  proof (cases ys)
    case (Cons y ys')
    with Nil obtain a u where "f y = Inr a" "a @ u = ch # r"
      by (auto simp: joinAll_Cons split: if_splits)
    with assms not_stops_append [of a u ch r] show ?thesis by (auto simp: opens_def)
  qed (use Nil in simp)
next
  case (Cons x xs)
  from Cons.prems(2) obtain a where a: "f x = Inr a"
      "if xs = [] then s = a else \<exists>t. joinAll (map f xs) = Inr t \<and> s = a @ CHR '','' # t"
    by (auto simp only: list.map joinAll_Cons)
  show ?case
  proof (cases ys)
    case Nil
    with a Cons.prems obtain u where "a @ u = ch # r'" by (auto split: if_splits)
    with a(1) assms not_stops_append [of a u ch r'] show ?thesis by (auto simp: opens_def)
  next
    case (Cons y ys')
    from Cons.prems(3) [unfolded Cons] obtain b where b: "f y = Inr b"
        "if ys' = [] then s' = b else \<exists>t. joinAll (map f ys') = Inr t \<and> s' = b @ CHR '','' # t"
      by (auto simp only: list.map joinAll_Cons)
    define u where "u = (if xs = [] then ch # r else CHR '','' # (THE t. joinAll (map f xs) = Inr t) @ ch # r)"
    define v where "v = (if ys' = [] then ch # r' else CHR '','' # (THE t. joinAll (map f ys') = Inr t) @ ch # r')"
    have "s @ ch # r = a @ u" "s' @ ch # r' = b @ v"
      using a b by (auto simp: u_def v_def split: if_splits)
    moreover have "stops u" "stops v" using assms(2) by (auto simp: u_def v_def)
    ultimately have "g x = g y \<and> u = v"
      using Cons.prems(1) [of x] Cons.prems(4) a(1) b(1) by (intro self_endingD [of f g x a y b u v]) simp_all
    then have eq: "g x = g y" "u = v" by simp_all
    show ?thesis
    proof (cases "xs = [] \<or> ys' = []")
      case True
      with eq assms(2) have "xs = [] \<and> ys' = [] \<and> r = r'" by (auto simp: u_def v_def split: if_splits)
      with eq(1) Cons show ?thesis by simp
    next
      case False
      with a b obtain t t' where t: "joinAll (map f xs) = Inr t" "joinAll (map f ys') = Inr t'" by auto
      with eq(2) False have "t @ ch # r = t' @ ch # r'" by (simp add: u_def v_def)
      with Cons.IH [OF Cons.prems(1)] t have "map g xs = map g ys' \<and> r = r'" by simp
      with eq(1) Cons show ?thesis by simp
    qed
  qed
qed

text \<open>How each kind of value starts.\<close>

definition numeral :: "char \<Rightarrow> bool" where "numeral ch \<longleftrightarrow> ch = CHR ''-'' \<or> dec_val ch \<noteq> None"

fun lead :: "cvalue \<Rightarrow> char \<Rightarrow> bool" where
  "lead (CBool b) ch = (ch = (if b then CHR ''t'' else CHR ''f''))"
| "lead (CNumber n) ch = numeral ch"
| "lead (CString s) ch = (ch = quote)"
| "lead (CObject ms) ch = (ch = CHR ''{'')"
| "lead v ch = (ch = CHR ''['')"

lemma numeral_simps [simp]:
  "\<not> numeral CHR ''t''" "\<not> numeral CHR ''f''" "\<not> numeral quote" "\<not> numeral CHR ''{''" "\<not> numeral CHR ''[''"
  "\<not> numeral CHR ''}''" "\<not> numeral CHR '']''" "\<not> numeral CHR '',''"
  by (simp_all add: numeral_def dec_val_def)

lemma writeCanonicalNumber_Inr: "writeCanonicalNumber n = Inr s \<Longrightarrow> s = n \<and> n \<noteq> [] \<and> list_all numeral n"
  by (cases n) (auto simp: writeCanonicalNumber_def Let_def numeral_def list_all_iff split: if_splits)

lemma writeCanonicalString_Inr: "writeCanonicalString t = Inr s \<Longrightarrow> s = quote # concat (map canonical_escape t) @ [quote]"
  by (auto simp: writeCanonicalString_def split: if_splits)

lemma writeCanonical_lead: "writeCanonical v = Inr s \<Longrightarrow> \<exists>ch t. s = ch # t \<and> lead v ch"
  by (cases v) (auto simp: guard_simps dest!: writeCanonicalNumber_Inr writeCanonicalString_Inr simp: neq_Nil_conv)

lemma opens_writeCanonical: "opens writeCanonical"
proof -
  have "\<not> stops s" if "writeCanonical v = Inr s" for v s
    using writeCanonical_lead [OF that] by (cases v) (auto split: if_splits)
  then show ?thesis by (simp add: opens_def)
qed

lemma number_ends:
  assumes "list_all numeral n" "list_all numeral n'" "n @ r = n' @ r'" "stops r" "stops r'"
  shows "n = n' \<and> r = r'"
proof -
  have "takeWhile numeral (m @ q) = m" if "list_all numeral m" "stops q" for m q
    using that by (cases q) (auto simp: list_all_iff takeWhile_append2)
  with assms show ?thesis by (metis same_append_eq)
qed

definition member_text :: "string \<times> cvalue \<Rightarrow> canonical_error + string" where
  "member_text m = writeMember (fst m, writeCanonical (snd m))"

lemma member_text_Inr:
  "member_text m = Inr s \<longleftrightarrow>
     (\<exists>v. utf8_ValidString (fst m) \<and> writeCanonical (snd m) = Inr v \<and>
        s = quote # concat (map canonical_escape (fst m)) @ quote # CHR '':'' # v)"
  by (auto simp: member_text_def writeMember_def guard_simps writeCanonicalString_def)

lemma opens_member: "opens member_text"
  by (auto simp: opens_def member_text_Inr)

lemma member_ends:
  assumes "self_ending writeCanonical canon v"
  shows "self_ending member_text (\<lambda>m. (fst m, canon (snd m))) (n, v)"
  unfolding self_ending_def
proof (intro allI impI)
  fix y s s' r r'
  assume "member_text (n, v) = Inr s" "member_text y = Inr s'" and eq: "s @ r = s' @ r'" and st: "stops r" "stops r'"
  then obtain t t' where t: "writeCanonical v = Inr t" "writeCanonical (snd y) = Inr t'"
      "s = quote # concat (map canonical_escape n) @ quote # CHR '':'' # t"
      "s' = quote # concat (map canonical_escape (fst y)) @ quote # CHR '':'' # t'"
    by (auto simp: member_text_Inr)
  with eq have "n = fst y \<and> CHR '':'' # t @ r = CHR '':'' # t' @ r'"
    using escaped_text_ends [of n "CHR '':'' # t @ r" "fst y" "CHR '':'' # t' @ r'"] by simp
  with self_endingD [OF assms t(1,2) _ st] show "(fst (n, v), canon (snd (n, v))) = (fst y, canon (snd y)) \<and> r = r'"
    by simp
qed

lemma writeCanonical_Object:
  "writeCanonical (CObject ms) =
     andThen (joinAll (map member_text (sortMembers ms))) (\<lambda>s. Inr (CHR ''{'' # s @ [CHR ''}'']))"
  using sortMembers_map [of writeCanonical ms] by (simp add: case_prod_unfold member_text_def [abs_def] comp_def)

lemma canon_Object: "canon (CObject ms) = CObject (map (\<lambda>m. (fst m, canon (snd m))) (sortMembers ms))"
  using sortMembers_map [of canon ms] by (simp add: case_prod_unfold)

text \<open>An absent array is written like an empty one.\<close>

lemma some_array: "\<exists>w. w \<noteq> CNull \<and> canon w = canon v \<and> writeCanonical w = writeCanonical v"
proof (cases "v = CNull")
  case True
  then show ?thesis by (intro exI [of _ "CArray []"]) simp
qed blast

lemma same_kind:
  assumes "writeCanonical v = Inr s" "writeCanonical w = Inr s'" "s @ r = s' @ r'" "w \<noteq> CNull"
  shows "v = CBool b \<Longrightarrow> w = CBool b"
    and "v = CNumber n \<Longrightarrow> \<exists>n'. w = CNumber n'"
    and "v = CString t \<Longrightarrow> \<exists>t'. w = CString t'"
    and "v = CArray vs \<Longrightarrow> \<exists>ws. w = CArray ws"
    and "v = CObject ms \<Longrightarrow> \<exists>ns. w = CObject ns"
proof -
  obtain ch q q' where h: "s = ch # q" "lead v ch" "s' = ch # q'" "lead w ch"
    using writeCanonical_lead [OF assms(1)] writeCanonical_lead [OF assms(2)] assms(3) by auto
  show "v = CBool b \<Longrightarrow> w = CBool b" "v = CNumber n \<Longrightarrow> \<exists>n'. w = CNumber n'" "v = CString t \<Longrightarrow> \<exists>t'. w = CString t'"
    "v = CArray vs \<Longrightarrow> \<exists>ws. w = CArray ws" "v = CObject ms \<Longrightarrow> \<exists>ns. w = CObject ns"
    using h(2,4) assms(4) by (cases w; auto split: if_splits)+
qed

lemma self_endingI:
  assumes "\<And>w s s' r r'. writeCanonical v = Inr s \<Longrightarrow> writeCanonical w = Inr s' \<Longrightarrow> s @ r = s' @ r' \<Longrightarrow> stops r \<Longrightarrow> stops r' \<Longrightarrow>
    w \<noteq> CNull \<Longrightarrow> canon v = canon w \<and> r = r'"
  shows "self_ending writeCanonical canon v"
  unfolding self_ending_def by (metis assms some_array)

lemma array_ends:
  assumes "\<And>x. x \<in> set vs \<Longrightarrow> self_ending writeCanonical canon x"
  shows "self_ending writeCanonical canon (CArray vs)"
proof (rule self_endingI)
  fix w s s' r r'
  assume w: "writeCanonical (CArray vs) = Inr s" "writeCanonical w = Inr s'" "s @ r = s' @ r'" "w \<noteq> CNull"
  with same_kind(4) [of "CArray vs" s w s' r r' vs] obtain ws where "w = CArray ws" by auto
  with w obtain t t' where t: "joinAll (map writeCanonical vs) = Inr t" "joinAll (map writeCanonical ws) = Inr t'"
      "t @ CHR '']'' # r = t' @ CHR '']'' # r'"
    by (auto simp: guard_simps)
  have "map canon vs = map canon ws \<and> r = r'"
    by (rule joined_ends [OF opens_writeCanonical _ assms t]) simp_all
  with \<open>w = CArray ws\<close> show "canon (CArray vs) = canon w \<and> r = r'" by simp
qed

lemma object_ends:
  assumes "\<And>m. m \<in> set ms \<Longrightarrow> self_ending writeCanonical canon (snd m)"
  shows "self_ending writeCanonical canon (CObject ms)"
proof (rule self_endingI)
  fix w s s' r r'
  assume w: "writeCanonical (CObject ms) = Inr s" "writeCanonical w = Inr s'" "s @ r = s' @ r'" "w \<noteq> CNull"
  with same_kind(5) [of "CObject ms" s w s' r r' ms] obtain ns where ns: "w = CObject ns" by auto
  with w obtain t t' where "joinAll (map member_text (sortMembers ms)) = Inr t"
      "joinAll (map member_text (sortMembers ns)) = Inr t'" "t @ CHR ''}'' # r = t' @ CHR ''}'' # r'"
    by (auto simp: guard_simps writeCanonical_Object simp del: writeCanonical.simps)
  moreover have "self_ending member_text (\<lambda>m. (fst m, canon (snd m))) m" if "m \<in> set (sortMembers ms)" for m
    using member_ends [of "snd m" "fst m"] assms [of m] that by simp
  ultimately show "canon (CObject ms) = canon w \<and> r = r'"
    using joined_ends [OF opens_member, of "CHR ''}''" "sortMembers ms" "\<lambda>m. (fst m, canon (snd m))" t "sortMembers ns" t' r r']
    unfolding ns canon_Object by simp
qed

lemma scalar_ends:
  assumes "v = CBool b \<or> v = CNumber n \<or> v = CString t"
  shows "self_ending writeCanonical canon v"
proof (rule self_endingI)
  fix w s s' r r'
  assume w: "writeCanonical v = Inr s" "writeCanonical w = Inr s'" "s @ r = s' @ r'" "stops r" "stops r'" "w \<noteq> CNull"
  note k = same_kind [OF w(1-3,6)]
  from assms show "canon v = canon w \<and> r = r'"
  proof (elim disjE)
    assume "v = CBool b"
    with k(1) w show ?thesis by auto
  next
    assume n: "v = CNumber n"
    with k(2) obtain n' where "w = CNumber n'" by blast
    with n w number_ends [of n n' r r'] show ?thesis by (auto dest!: writeCanonicalNumber_Inr)
  next
    assume t: "v = CString t"
    with k(3) obtain t' where "w = CString t'" by blast
    with t w escaped_text_ends [of t r t' r'] show ?thesis by (auto dest!: writeCanonicalString_Inr)
  qed
qed

lemma value_ends: "self_ending writeCanonical canon v"
proof (induction v rule: canon.induct)
  case 1
  have "self_ending writeCanonical canon (CArray [])" by (rule array_ends) simp
  then show ?case by (simp add: self_ending_def)
next
  case (2 vs)
  then show ?case by (rule array_ends)
next
  case (3 ms)
  then show ?case by (intro object_ends) (auto simp: case_prod_unfold)
qed (rule scalar_ends, blast)+

text \<open>The bytes that are signed determine the value.\<close>

lemma writeCanonical_inj:
  assumes "writeCanonical v = Inr s" "writeCanonical w = Inr s"
  shows "canon v = canon w"
  using self_endingD [OF value_ends assms, of "[]" "[]"] by simp

end
