(* ===== verification/TopologyDoc.thy ===== *)
theory TopologyDoc
  imports CanonicalJson
begin

text \<open>
  The documents of \<^verbatim>\<open>live/topology/topology.go\<close> and the bytes that are signed for them. The canonical bytes of
  a document determine the document, and the attestation messages of one document differ between operators.
  \<^verbatim>\<open>cloneDocument\<close> copies slices so that later writes by the caller do not show; values here are immutable.
\<close>

section \<open>Documents\<close>

definition topology_Version :: string where "topology_Version = ''nomad-live-topology-v3''"
definition topology_CellSize :: u16 where "topology_CellSize = 1200"
definition topology_MaximumFileBytes :: nat where "topology_MaximumFileBytes = 2 ^ 20"

record TrafficClass =
  tc_CellSize :: u16
  tc_CellIntervalMillis :: u32
  tc_MaxLatenessMillis :: u32
  tc_QueueCapacity :: u32

record DKGProfile =
  dkg_Threshold :: u32
  dkg_SessionID :: string
  dkg_StartAt :: string
  dkg_PhaseDurationMillis :: u32

record Operator =
  op_ID :: string
  op_Index :: u16
  op_Endpoint :: string
  op_PartialEndpoint :: string
  op_DKGEndpoint :: string
  op_IdentityKey :: string
  op_KEXKey :: string
  op_DKGIdentityKey :: string
  op_PeerPlan :: "u16 list"
  op_Attestation :: string

record Document =
  doc_Version :: string
  doc_NetworkID :: string
  doc_Epoch :: u64
  doc_NotBefore :: string
  doc_NotAfter :: string
  doc_Traffic :: TrafficClass
  doc_DKG :: DKGProfile
  doc_Operators :: "Operator list"

record SignedTopology =
  sgn_Document :: Document
  sgn_Signature :: string

section \<open>Canonical bytes\<close>

text \<open>
  \<^verbatim>\<open>json.Marshal\<close> followed by decoding into an \<^verbatim>\<open>any\<close>: a string keeps its well-formed UTF-8 and every other
  byte becomes U+FFFD, an integer becomes its digits, and an absent list becomes null.
\<close>

function utf8_coerce :: "bytes \<Rightarrow> bytes" where
  "utf8_coerce [] = []"
| "utf8_coerce (b # r) =
     (let n = utf8_rune (b # r) in
      if n = 0 then [0xEF, 0xBF, 0xBD] @ utf8_coerce r
      else take n (b # r) @ utf8_coerce (drop n (b # r)))"
  by pat_completeness auto
termination
  by (relation "measure length") auto

definition string_of :: "bytes \<Rightarrow> string" where "string_of bs = map (\<lambda>b. char_of (unat b)) bs"

definition jstring :: "string \<Rightarrow> cvalue" where
  "jstring s = CString (string_of (utf8_coerce (bytes_of s)))"

definition juint :: "'a::len word \<Rightarrow> cvalue" where
  "juint n = CNumber (dec_str (unat n))"

definition jlist :: "cvalue list \<Rightarrow> cvalue" where
  "jlist vs = (if vs = [] then CNull else CArray vs)"

definition traffic_value :: "TrafficClass \<Rightarrow> cvalue" where
  "traffic_value t = CObject
     [(''cell_size'', juint (tc_CellSize t)), (''cell_interval_ms'', juint (tc_CellIntervalMillis t)),
      (''max_lateness_ms'', juint (tc_MaxLatenessMillis t)), (''queue_capacity'', juint (tc_QueueCapacity t))]"

definition dkg_value :: "DKGProfile \<Rightarrow> cvalue" where
  "dkg_value p = CObject
     [(''threshold'', juint (dkg_Threshold p)), (''session_id'', jstring (dkg_SessionID p)),
      (''start_at'', jstring (dkg_StartAt p)), (''phase_duration_ms'', juint (dkg_PhaseDurationMillis p))]"

definition operator_value :: "Operator \<Rightarrow> cvalue" where
  "operator_value p = CObject
     [(''id'', jstring (op_ID p)), (''index'', juint (op_Index p)), (''endpoint'', jstring (op_Endpoint p)),
      (''partial_endpoint'', jstring (op_PartialEndpoint p)), (''dkg_endpoint'', jstring (op_DKGEndpoint p)),
      (''identity_key'', jstring (op_IdentityKey p)), (''kex_key'', jstring (op_KEXKey p)),
      (''dkg_identity_key'', jstring (op_DKGIdentityKey p)), (''peer_plan'', jlist (map juint (op_PeerPlan p))),
      (''attestation'', jstring (op_Attestation p))]"

definition document_value :: "Document \<Rightarrow> cvalue" where
  "document_value d = CObject
     [(''version'', jstring (doc_Version d)), (''network_id'', jstring (doc_NetworkID d)), (''epoch'', juint (doc_Epoch d)),
      (''not_before'', jstring (doc_NotBefore d)), (''not_after'', jstring (doc_NotAfter d)),
      (''traffic'', traffic_value (doc_Traffic d)), (''dkg'', dkg_value (doc_DKG d)),
      (''operators'', jlist (map operator_value (doc_Operators d)))]"

definition canonicalDocument :: "Document \<Rightarrow> canonical_error + string" where
  "canonicalDocument d = writeCanonical (document_value d)"

definition topology_signingMessage :: "string \<Rightarrow> string \<Rightarrow> bytes" where
  "topology_signingMessage domain payload = bytes_of domain @ bytes_of payload"

definition blank_attestations :: "Document \<Rightarrow> Document" where
  "blank_attestations d = d\<lparr>doc_Operators := map (\<lambda>p. p\<lparr>op_Attestation := []\<rparr>) (doc_Operators d)\<rparr>"

definition operatorSigningMessage :: "Document \<Rightarrow> string \<Rightarrow> canonical_error + bytes" where
  "operatorSigningMessage d operatorID =
     andThen (writeCanonical (CObject
         [(''operator_id'', jstring operatorID), (''document'', document_value (blank_attestations d))]))
       (\<lambda>canonical. Inr (topology_signingMessage ''nomad-operator-attestation-v3'' canonical))"

section \<open>The bytes determine the document\<close>

text \<open>Two objects with the same member names agree in every member.\<close>

lemma same_members:
  assumes "map fst ms = map fst ns" "distinct (map fst ms)" "set ms = set ns"
  shows "ms = ns"
proof (rule nth_equalityI)
  show len: "length ms = length ns" using assms(1) map_eq_imp_length_eq by blast
  fix i assume i: "i < length ms"
  then obtain j where j: "j < length ns" "ns ! j = ms ! i"
    using assms(3) by (metis in_set_conv_nth)
  have "map fst ns ! j = map fst ns ! i"
    using assms(1) i len j by (metis nth_map)
  with assms(1,2) i j len have "j = i" by (simp only: nth_eq_iff_index_eq length_map)
  with j show "ms ! i = ns ! i" by simp
qed

lemma canon_object_members:
  assumes "canon (CObject ms) = canon (CObject ns)" "map fst ms = map fst ns" "distinct (map fst ms)"
  shows "map (\<lambda>m. canon (snd m)) ms = map (\<lambda>m. canon (snd m)) ns"
proof -
  let ?f = "map (\<lambda>m. (fst m, canon (snd m)))"
  from assms(1) have "?f (sortMembers ms) = ?f (sortMembers ns)" by (simp only: canon_Object cvalue.inject)
  then have "set (?f (sortMembers ms)) = set (?f (sortMembers ns))" by (rule arg_cong)
  then have "set (?f ms) = set (?f ns)" by simp
  with assms(2,3) have "?f ms = ?f ns" by (intro same_members) (simp_all add: comp_def)
  then have "map snd (?f ms) = map snd (?f ns)" by (rule arg_cong)
  then show ?thesis by (simp add: comp_def)
qed

lemma canon_jlist [simp]: "canon (jlist vs) = CArray (map canon vs)"
  by (simp add: jlist_def)

lemma unat_of_char_byte: "unat (of_char ch :: byte) = (of_char ch :: nat)"
proof -
  have "(of_char ch :: byte) = of_nat (of_char ch :: nat)" by (simp only: of_nat_of_char)
  then show ?thesis by (simp add: unat_of_nat)
qed

lemma string_of_bytes [simp]: "string_of (bytes_of s) = s"
  by (simp add: string_of_def bytes_of_def comp_def unat_of_char_byte)

lemma utf8_coerce_valid: "utf8_valid bs \<Longrightarrow> utf8_coerce bs = bs"
proof (induction bs rule: utf8_coerce.induct)
  case (2 b r)
  then have "utf8_rune (b # r) \<noteq> 0" "utf8_valid (drop (utf8_rune (b # r)) (b # r))"
    by (simp_all add: utf8_valid.simps [of "b # r"] Let_def split: if_splits)
  with 2 show ?case by (simp del: drop_Cons take_Cons add: Let_def)
qed simp

lemma jstring_valid: "utf8_ValidString s \<Longrightarrow> jstring s = CString s"
  by (simp add: jstring_def utf8_coerce_valid utf8_ValidString_def)

text \<open>Decimal digits determine the number.\<close>

lemma dec_digit_inj: "a < 10 \<Longrightarrow> b < 10 \<Longrightarrow> dec_digit a = dec_digit b \<Longrightarrow> a = b"
  by (metis dec_val_digit mod_less option.inject)

lemma dec_digit_mod: "dec_digit n = dec_digit (n mod 10)"
  by (simp add: dec_digit_def)

lemma dec_str_nonempty: "dec_str n \<noteq> []"
  by (simp add: dec_str.simps [of n])

lemma dec_str_inj: "dec_str a = dec_str b \<longleftrightarrow> a = b"
proof
  show "dec_str a = dec_str b \<Longrightarrow> a = b"
  proof (induction a arbitrary: b rule: dec_str.induct)
    case (1 a)
    from 1(2) have "dec_digit (a mod 10) = dec_digit (b mod 10)"
      by (simp add: dec_str.simps [of a] dec_str.simps [of b] dec_digit_mod [symmetric] split: if_splits)
    then have last: "a mod 10 = b mod 10" by (intro dec_digit_inj) simp_all
    show ?case
    proof (cases "a < 10 \<or> b < 10")
      case True
      with 1(2) have "a < 10 \<and> b < 10"
        by (auto simp: dec_str.simps [of a] dec_str.simps [of b] dec_str_nonempty dec_str_nonempty [symmetric] split: if_splits)
      with last show ?thesis by simp
    next
      case False
      with 1(2) have "dec_str (a div 10) = dec_str (b div 10)"
        by (simp add: dec_str.simps [of a] dec_str.simps [of b])
      with 1(1) [of "b div 10"] False have "a div 10 = b div 10" by simp
      with last show ?thesis by (metis div_mod_decomp)
    qed
  qed
qed simp

lemma canon_leaf [simp]:
  "canon (juint m) = canon (juint n) \<longleftrightarrow> m = n" for m n :: "'a::len word"
  by (auto simp: juint_def dec_str_inj intro: unsigned_word_eqI)

text \<open>Every string of a document is well-formed UTF-8: what \<^verbatim>\<open>encoding/json\<close> decodes always is.\<close>

definition operator_text_ok :: "Operator \<Rightarrow> bool" where
  "operator_text_ok p \<longleftrightarrow>
     list_all utf8_ValidString [op_ID p, op_Endpoint p, op_PartialEndpoint p, op_DKGEndpoint p, op_IdentityKey p, op_KEXKey p,
       op_DKGIdentityKey p, op_Attestation p]"

definition document_text_ok :: "Document \<Rightarrow> bool" where
  "document_text_ok d \<longleftrightarrow>
     list_all utf8_ValidString [doc_Version d, doc_NetworkID d, doc_NotBefore d, doc_NotAfter d, dkg_SessionID (doc_DKG d),
       dkg_StartAt (doc_DKG d)] \<and>
     list_all operator_text_ok (doc_Operators d)"

lemma canon_jstring: "utf8_ValidString s \<Longrightarrow> utf8_ValidString t \<Longrightarrow> canon (jstring s) = canon (jstring t) \<longleftrightarrow> s = t"
  by (simp add: jstring_valid)

lemma map_canon_juint: "map (canon \<circ> juint) xs = map (canon \<circ> juint) ys \<longleftrightarrow> xs = ys"
  by (rule inj_map_eq_map) (simp add: inj_def)

lemmas text_ok_defs = operator_text_ok_def document_text_ok_def

lemma operator_value_inj:
  assumes "operator_text_ok p" "operator_text_ok q" "canon (operator_value p) = canon (operator_value q)"
  shows "p = q"
  using canon_object_members [OF assms(3) [unfolded operator_value_def]] assms(1,2)
  by (intro Operator.equality) (simp_all add: text_ok_defs canon_jstring comp_def map_canon_juint [unfolded comp_def])

lemma traffic_value_inj:
  assumes "canon (traffic_value t) = canon (traffic_value u)"
  shows "t = u"
  using canon_object_members [OF assms [unfolded traffic_value_def]] by (intro TrafficClass.equality) simp_all

lemma dkg_value_inj:
  assumes "canon (dkg_value p) = canon (dkg_value q)" "list_all utf8_ValidString [dkg_SessionID p, dkg_StartAt p, dkg_SessionID q, dkg_StartAt q]"
  shows "p = q"
  using canon_object_members [OF assms(1) [unfolded dkg_value_def]] assms(2)
  by (intro DKGProfile.equality) (simp_all add: canon_jstring)

lemma operators_inj:
  "list_all operator_text_ok ps \<Longrightarrow> list_all operator_text_ok qs \<Longrightarrow>
     map (canon \<circ> operator_value) ps = map (canon \<circ> operator_value) qs \<Longrightarrow> ps = qs"
proof (induction ps arbitrary: qs)
  case (Cons p ps)
  then show ?case by (cases qs) (auto intro: operator_value_inj)
qed simp

lemma document_value_inj:
  assumes "document_text_ok d" "document_text_ok e" "canon (document_value d) = canon (document_value e)"
  shows "d = e"
proof -
  note m = canon_object_members [OF assms(3) [unfolded document_value_def]]
  have "doc_Traffic d = doc_Traffic e" using m by (intro traffic_value_inj) simp
  moreover have "doc_DKG d = doc_DKG e" using m assms(1,2) by (intro dkg_value_inj) (simp_all add: text_ok_defs)
  moreover have "doc_Operators d = doc_Operators e" using m assms(1,2) by (intro operators_inj) (simp_all add: text_ok_defs)
  ultimately show ?thesis
    using m assms(1,2) by (intro Document.equality) (simp_all add: text_ok_defs canon_jstring)
qed

lemma canonicalDocument_inj:
  assumes "document_text_ok d" "document_text_ok e" "canonicalDocument d = Inr s" "canonicalDocument e = Inr s"
  shows "d = e"
  using assms document_value_inj writeCanonical_inj unfolding canonicalDocument_def by blast

lemma blank_text_ok: "document_text_ok d \<Longrightarrow> document_text_ok (blank_attestations d)"
  by (auto simp: text_ok_defs blank_attestations_def list_all_iff utf8_ValidString_def bytes_of_def utf8_valid.simps [of "[]"])

lemma operatorSigningMessage_inj:
  assumes "document_text_ok d" "document_text_ok e" "utf8_ValidString i" "utf8_ValidString j"
    "operatorSigningMessage d i = Inr msg" "operatorSigningMessage e j = Inr msg"
  shows "i = j \<and> blank_attestations d = blank_attestations e"
proof -
  let ?ms = "\<lambda>d i. [(''operator_id'', jstring i), (''document'', document_value (blank_attestations d))]"
  from assms(5,6) obtain s where "writeCanonical (CObject (?ms d i)) = Inr s" "writeCanonical (CObject (?ms e j)) = Inr s"
    unfolding operatorSigningMessage_def by (auto simp: guard_simps topology_signingMessage_def simp del: writeCanonical.simps)
  then have "canon (CObject (?ms d i)) = canon (CObject (?ms e j))" by (rule writeCanonical_inj)
  from canon_object_members [OF this] have
    "canon (jstring i) = canon (jstring j)" "canon (document_value (blank_attestations d)) = canon (document_value (blank_attestations e))"
    by simp_all
  with assms(1-4) blank_text_ok document_value_inj show ?thesis by (simp add: canon_jstring)
qed

section \<open>Every document has canonical bytes\<close>

definition writable :: "cvalue \<Rightarrow> bool" where "writable v \<longleftrightarrow> (\<exists>s. writeCanonical v = Inr s)"

lemma joinAll_total: "(\<And>r. r \<in> set rs \<Longrightarrow> \<exists>s. r = Inr s) \<Longrightarrow> \<exists>s. joinAll rs = Inr s"
proof (induction rs rule: joinAll.induct)
  case (3 r q rs)
  then obtain s t where "r = Inr s" "joinAll (q # rs) = Inr t" by (metis list.set_intros)
  then show ?case by simp
qed auto

lemma writable_array: "list_all writable vs \<Longrightarrow> writable (CArray vs)"
  using joinAll_total [of "map writeCanonical vs"] by (auto simp: writable_def list_all_iff guard_simps)

lemma writable_jlist: "list_all writable vs \<Longrightarrow> writable (jlist vs)"
  using writable_array [of vs] by (auto simp: jlist_def writable_def)

lemma writable_object:
  assumes "list_all (\<lambda>m. utf8_ValidString (fst m) \<and> writable (snd m)) ms"
  shows "writable (CObject ms)"
proof -
  have "\<exists>s. joinAll (map member_text (sortMembers ms)) = Inr s"
    using assms by (intro joinAll_total) (auto simp: member_text_Inr list_all_iff writable_def)
  then show ?thesis unfolding writable_def writeCanonical_Object by auto
qed

lemma writable_jstring: "utf8_ValidString s \<Longrightarrow> writable (jstring s)"
  by (simp add: writable_def jstring_valid writeCanonicalString_def)

lemma dec_str_digits: "list_all (\<lambda>d. dec_val d \<noteq> None) (dec_str n)"
proof (induction n rule: dec_str.induct)
  case (1 n)
  then show ?case by (simp add: dec_str.simps [of n])
qed

lemma dec_str_lead: "n \<noteq> 0 \<Longrightarrow> hd (dec_str n) \<noteq> CHR ''0''"
proof (induction n rule: dec_str.induct)
  case (1 n)
  have "dec_digit n \<noteq> CHR ''0''" if "n < 10"
  proof -
    have "CHR ''0'' = dec_digit 0" by code_simp
    with that 1(2) dec_digit_inj [of n 0] show ?thesis by auto
  qed
  with 1 show ?case by (auto simp: dec_str.simps [of n] dec_str_nonempty)
qed

lemma writable_juint: "writable (juint (n :: 'a::len word))"
proof -
  have "hd (dec_str (unat n)) \<noteq> CHR ''-''"
    using dec_str_digits [of "unat n"] dec_str_nonempty [of "unat n"]
    by (cases "dec_str (unat n)") (auto simp: dec_val_def)
  moreover have "length (dec_str (unat n)) > 1 \<Longrightarrow> hd (dec_str (unat n)) \<noteq> CHR ''0''"
    using dec_str_lead [of "unat n"] by (cases "unat n = 0") (simp_all add: dec_str.simps [of 0])
  ultimately show ?thesis
    using dec_str_digits [of "unat n"] dec_str_nonempty [of "unat n"]
    by (auto simp: writable_def juint_def writeCanonicalNumber_def Let_def)
qed

lemma ascii_name: "list_all (\<lambda>ch. of_char ch < (128 :: nat)) s \<Longrightarrow> utf8_ValidString s"
proof (induction s)
  case (Cons ch s)
  have "(of_char ch :: byte) < 0x80"
    using Cons.prems by (simp add: word_less_nat_alt unat_of_char_byte)
  with Cons show ?case
    by (simp add: utf8_ValidString_def bytes_of_def utf8_valid.simps [of "_ # _"] utf8_rune_def)
qed (simp add: utf8_ValidString_def bytes_of_def utf8_valid.simps)

lemma document_writable:
  assumes "document_text_ok d"
  shows "writable (document_value d)"
proof -
  have op: "writable (operator_value p)" if "operator_text_ok p" for p
    using that unfolding operator_value_def text_ok_defs
    by (intro writable_object) (simp add: ascii_name writable_jstring writable_juint writable_jlist list_all_iff)
  have "writable (traffic_value t)" for t
    unfolding traffic_value_def by (intro writable_object) (simp add: ascii_name writable_juint)
  moreover have "writable (dkg_value (doc_DKG d))"
    using assms unfolding dkg_value_def text_ok_defs
    by (intro writable_object) (simp add: ascii_name writable_jstring writable_juint)
  moreover have "writable (jlist (map operator_value (doc_Operators d)))"
    using assms op by (intro writable_jlist) (simp add: text_ok_defs list_all_iff)
  ultimately show ?thesis
    using assms unfolding document_value_def text_ok_defs
    by (intro writable_object) (simp add: ascii_name writable_jstring writable_juint)
qed

lemma canonicalDocument_total: "document_text_ok d \<Longrightarrow> \<exists>s. canonicalDocument d = Inr s"
  using document_writable by (simp add: canonicalDocument_def writable_def)

lemma operatorSigningMessage_total:
  assumes "document_text_ok d" "utf8_ValidString i"
  shows "\<exists>m. operatorSigningMessage d i = Inr m"
proof -
  have "writable (CObject [(''operator_id'', jstring i), (''document'', document_value (blank_attestations d))])"
    using assms document_writable [OF blank_text_ok] by (intro writable_object) (simp add: ascii_name writable_jstring)
  then show ?thesis unfolding writable_def operatorSigningMessage_def by (auto simp del: writeCanonical.simps)
qed

end
