(* ===== verification/PeerGraph.thy ===== *)
theory PeerGraph
  imports TopologyDoc
begin

text \<open>
  \<^verbatim>\<open>validateStrongConnectivity\<close> of \<^verbatim>\<open>live/topology/topology.go\<close>: the operators' peer plans as a graph, and the two
  depth-first searches that decide whether every operator reaches every other. \<open>None\<close> is the panic of an index
  outside a slice; it does not happen on the plans the validator lets through to this check. The searches end,
  and the verdict is that of reachability.
\<close>

type_synonym graph = "u16 list list"

fun addPeers :: "u16 \<Rightarrow> u16 list \<Rightarrow> graph \<Rightarrow> graph option" where
  "addPeers index [] reverse = Some reverse"
| "addPeers index (peer # rest) reverse =
     (if unat peer < length reverse then addPeers index rest (reverse[unat peer := reverse ! unat peer @ [index]])
      else None)"

fun buildGraphs :: "graph \<Rightarrow> graph \<Rightarrow> Operator list \<Rightarrow> (graph \<times> graph) option" where
  "buildGraphs forward reverse [] = Some (forward, reverse)"
| "buildGraphs forward reverse (p # ps) =
     (if unat (op_Index p) < length forward then
        (case addPeers (op_Index p) (op_PeerPlan p) reverse of
           None \<Rightarrow> None
         | Some reverse' \<Rightarrow> buildGraphs (forward[unat (op_Index p) := op_PeerPlan p]) reverse' ps)
      else None)"

lemma mark_fewer:
  "i < length seen \<Longrightarrow> \<not> seen ! i \<Longrightarrow> length (filter Not (seen[i := True])) < length (filter Not seen)"
proof (induction seen arbitrary: i)
  case (Cons b seen)
  then show ?case by (cases i) auto
qed simp

function visit :: "graph \<Rightarrow> bool list \<Rightarrow> u16 list \<Rightarrow> bool list option" where
  "visit graph seen stack =
     (if stack = [] then Some seen
      else let current = unat (last stack) in
        if length seen \<le> current \<or> length graph \<le> current then None
        else if seen ! current then visit graph seen (butlast stack)
        else visit graph (seen[current := True]) (butlast stack @ graph ! current))"
  by pat_completeness auto
termination
  by (relation "measures [\<lambda>(graph, seen, stack). length (filter Not seen), \<lambda>(graph, seen, stack). length stack]")
    (auto intro: mark_fewer)

declare visit.simps [simp del]

definition connectivity_ok :: "graph \<Rightarrow> nat \<Rightarrow> bool option" where
  "connectivity_ok graph n = map_option (list_all id) (visit graph (replicate n False) [0])"

definition validateStrongConnectivity :: "Document \<Rightarrow> bool option" where
  "validateStrongConnectivity d =
     (let n = length (doc_Operators d) in
      case buildGraphs (replicate n []) (replicate n []) (doc_Operators d) of
        None \<Rightarrow> None
      | Some (forward, reverse) \<Rightarrow>
          (case connectivity_ok forward n of
             None \<Rightarrow> None
           | Some False \<Rightarrow> Some False
           | Some True \<Rightarrow> connectivity_ok reverse n))"

section \<open>The search finds what is reachable\<close>

definition arcs :: "graph \<Rightarrow> (nat \<times> nat) set" where
  "arcs g = {(i, j). i < length g \<and> j \<in> unat ` set (g ! i)}"

text \<open>What a search that starts from \<open>seen\<close> and \<open>stack\<close> ends with.\<close>

definition search_post :: "graph \<Rightarrow> bool list \<Rightarrow> u16 list \<Rightarrow> bool list \<Rightarrow> bool" where
  "search_post g seen stack res \<longleftrightarrow>
     length res = length g \<and> (\<forall>i < length g. seen ! i \<longrightarrow> res ! i) \<and> (\<forall>s \<in> set stack. res ! unat s) \<and>
     (\<forall>(i, j) \<in> arcs g. res ! i \<longrightarrow> res ! j) \<and>
     (\<forall>i < length g. res ! i \<longrightarrow> seen ! i \<or> (\<exists>s \<in> set stack. (unat s, i) \<in> (arcs g)\<^sup>*))"

lemma search_post_seen: "search_post g seen rest res \<Longrightarrow> unat s < length g \<Longrightarrow> seen ! unat s \<Longrightarrow> search_post g seen (rest @ [s]) res"
  by (auto simp: search_post_def)

lemma search_post_mark:
  assumes post: "search_post g (seen[unat s := True]) (rest @ g ! unat s) res"
    and c: "unat s < length g" "length seen = length g"
  shows "search_post g seen (rest @ [s]) res"
proof -
  have arc: "(unat s, unat t) \<in> arcs g" if "t \<in> set (g ! unat s)" for t using that c by (auto simp: arcs_def)
  have "seen ! i \<or> (\<exists>s \<in> set (rest @ [s]). (unat s, i) \<in> (arcs g)\<^sup>*)" if i: "i < length g" "res ! i" for i
  proof -
    from post i have "seen[unat s := True] ! i \<or> (\<exists>s \<in> set (rest @ g ! unat s). (unat s, i) \<in> (arcs g)\<^sup>*)"
      by (simp add: search_post_def)
    then consider "i = unat s" | "seen ! i" | t where "t \<in> set rest" "(unat t, i) \<in> (arcs g)\<^sup>*"
      | t where "t \<in> set (g ! unat s)" "(unat t, i) \<in> (arcs g)\<^sup>*"
      using c by (auto simp: nth_list_update split: if_splits)
    then show ?thesis
      by cases (use arc in \<open>auto intro: converse_rtrancl_into_rtrancl\<close>)
  qed
  then show ?thesis
    using post c unfolding search_post_def by (auto simp: nth_list_update)
qed

lemma visit_reaches:
  assumes "\<forall>(i, j) \<in> arcs g. j < length g"
  shows "length seen = length g \<Longrightarrow> \<forall>s \<in> set stack. unat s < length g \<Longrightarrow>
    \<forall>(i, j) \<in> arcs g. seen ! i \<longrightarrow> seen ! j \<or> j \<in> unat ` set stack \<Longrightarrow>
    \<exists>res. visit g seen stack = Some res \<and> search_post g seen stack res"
  using assms
proof (induction g seen stack rule: visit.induct)
  case (1 g seen stack)
  show ?case
  proof (cases stack rule: rev_cases)
    case Nil
    with 1(3-5) show ?thesis by (auto simp: visit.simps [of g seen] search_post_def)
  next
    case (snoc rest s)
    let ?c = "unat s"
    have c: "?c < length g" "?c < length seen" "\<not> (length seen \<le> ?c \<or> length g \<le> ?c)" "stack \<noteq> []" "last stack = s" "butlast stack = rest"
      using snoc 1(3,4) by simp_all
    note step = visit.simps [of g seen stack, unfolded c(5,6) Let_def]
    show ?thesis
    proof (cases "seen ! ?c")
      case True
      have "\<forall>s \<in> set rest. unat s < length g" "\<forall>(i, j) \<in> arcs g. seen ! i \<longrightarrow> seen ! j \<or> j \<in> unat ` set rest"
        using 1(4,5) True snoc by fastforce+
      from 1(1) [OF c(4) refl, unfolded c(5,6), OF c(3) True 1(3) this 1(6)]
      obtain res where "visit g seen rest = Some res" "search_post g seen rest res" by blast
      then show ?thesis using step c True snoc search_post_seen by auto
    next
      case False
      let ?seen = "seen[?c := True]" and ?stack = "rest @ g ! ?c"
      have stack: "\<forall>s \<in> set ?stack. unat s < length g"
        using 1(4,6) snoc c(1) by (fastforce simp: arcs_def)
      have closed: "\<forall>(i, j) \<in> arcs g. ?seen ! i \<longrightarrow> ?seen ! j \<or> j \<in> unat ` set ?stack"
      proof (intro ballI, clarify)
        fix i j assume ij: "(i, j) \<in> arcs g" "?seen ! i" "j \<notin> unat ` set ?stack"
        then have "i \<noteq> ?c" by (auto simp: arcs_def)
        with ij have "seen ! j \<or> j \<in> unat ` set stack" using 1(5) by auto
        with ij(3) snoc c show "?seen ! j" by (auto simp: nth_list_update)
      qed
      have len: "length ?seen = length g" using 1(3) by simp
      from 1(2) [OF c(4) refl, unfolded c(5,6), OF c(3) False len stack closed 1(6)]
      obtain res where "visit g ?seen ?stack = Some res" "search_post g ?seen ?stack res" by blast
      then show ?thesis using step c False snoc 1(3) search_post_mark by auto
    qed
  qed
qed

lemma connectivity_ok_iff:
  assumes "\<forall>(i, j) \<in> arcs g. j < length g" "0 < length g" "n = length g"
  shows "\<exists>b. connectivity_ok g n = Some b \<and> (b \<longleftrightarrow> (\<forall>i < n. (0, i) \<in> (arcs g)\<^sup>*))"
proof -
  have "\<forall>(i, j) \<in> arcs g. replicate n False ! i \<longrightarrow> replicate n False ! j \<or> j \<in> unat ` set [0 :: u16]"
    using assms(3) by (auto simp: arcs_def)
  moreover have "length (replicate n False) = length g" "\<forall>s \<in> set [0 :: u16]. unat s < length g"
    using assms(2,3) by simp_all
  ultimately obtain res where v: "visit g (replicate n False) [0] = Some res" and post: "search_post g (replicate n False) [0] res"
    using visit_reaches [OF assms(1)] by blast
  have closed: "\<forall>(i, j) \<in> arcs g. res ! i \<longrightarrow> res ! j" and start: "res ! 0" "length res = n"
    and sound: "\<And>i. i < n \<Longrightarrow> res ! i \<Longrightarrow> (0, i) \<in> (arcs g)\<^sup>*"
    using post assms(3) by (auto simp: search_post_def)
  have "res ! i" if "(0, i) \<in> (arcs g)\<^sup>*" for i
    using that by induction (use start closed in auto)
  with sound have "res ! i \<longleftrightarrow> (0, i) \<in> (arcs g)\<^sup>*" if "i < n" for i using that by blast
  then have "list_all id res \<longleftrightarrow> (\<forall>i < n. (0, i) \<in> (arcs g)\<^sup>*)" by (simp add: list_all_length start(2))
  with v show ?thesis by (simp add: connectivity_ok_def)
qed

section \<open>The graphs of a document\<close>

text \<open>Who sends to whom, by index, as the peer plans say.\<close>

definition plan_arcs :: "Operator list \<Rightarrow> (nat \<times> nat) set" where
  "plan_arcs ps = {(unat (op_Index p), unat q) | p q. p \<in> set ps \<and> q \<in> set (op_PeerPlan p)}"

definition indexed :: "Operator list \<Rightarrow> bool" where
  "indexed ps \<longleftrightarrow> (\<forall>i < length ps. unat (op_Index (ps ! i)) = i)"

definition peers_within :: "nat \<Rightarrow> Operator \<Rightarrow> bool" where
  "peers_within n p \<longleftrightarrow> (\<forall>q \<in> set (op_PeerPlan p). unat q < n)"

lemma addPeers_spec:
  "\<forall>q \<in> set qs. unat q < length r \<Longrightarrow>
     \<exists>r'. addPeers i qs r = Some r' \<and> length r' = length r \<and>
       (\<forall>j < length r. set (r' ! j) = set (r ! j) \<union> (if j \<in> unat ` set qs then {i} else {}))"
proof (induction qs arbitrary: r)
  case (Cons q qs)
  from Cons.prems have q: "unat q < length r" by simp
  obtain r' where "addPeers i qs (r[unat q := r ! unat q @ [i]]) = Some r'" "length r' = length r"
      "\<forall>j < length r. set (r' ! j) = set (r[unat q := r ! unat q @ [i]] ! j) \<union> (if j \<in> unat ` set qs then {i} else {})"
    using Cons.IH [of "r[unat q := r ! unat q @ [i]]"] Cons.prems by auto
  with q show ?case by (auto simp: nth_list_update)
qed simp

lemma buildGraphs_spec:
  "length f = n \<Longrightarrow> length r = n \<Longrightarrow> distinct (map op_Index ps) \<Longrightarrow>
   \<forall>p \<in> set ps. unat (op_Index p) < n \<and> peers_within n p \<Longrightarrow>
     \<exists>f' r'. buildGraphs f r ps = Some (f', r') \<and> length f' = n \<and> length r' = n \<and>
       (\<forall>p \<in> set ps. f' ! unat (op_Index p) = op_PeerPlan p) \<and>
       (\<forall>i < n. (\<forall>p \<in> set ps. unat (op_Index p) \<noteq> i) \<longrightarrow> f' ! i = f ! i) \<and>
       (\<forall>j < n. set (r' ! j) = set (r ! j) \<union> {op_Index p | p. p \<in> set ps \<and> j \<in> unat ` set (op_PeerPlan p)})"
proof (induction ps arbitrary: f r)
  case (Cons p ps)
  have p: "unat (op_Index p) < n" "\<forall>q \<in> set (op_PeerPlan p). unat q < length r"
    using Cons.prems by (auto simp: peers_within_def)
  obtain r1 where r1: "addPeers (op_Index p) (op_PeerPlan p) r = Some r1" "length r1 = n"
      "\<forall>j < n. set (r1 ! j) = set (r ! j) \<union> (if j \<in> unat ` set (op_PeerPlan p) then {op_Index p} else {})"
    using addPeers_spec [OF p(2)] Cons.prems(2) by blast
  have fresh: "\<forall>x \<in> set ps. unat (op_Index x) \<noteq> unat (op_Index p)"
    using Cons.prems(3) by simp (metis imageI unsigned_word_eqI)
  let ?f = "f[unat (op_Index p) := op_PeerPlan p]"
  have pre: "length ?f = n" "distinct (map op_Index ps)" "\<forall>p \<in> set ps. unat (op_Index p) < n \<and> peers_within n p"
    using Cons.prems by auto
  obtain f' r' where fr: "buildGraphs ?f r1 ps = Some (f', r')" "length f' = n" "length r' = n"
      "\<forall>p \<in> set ps. f' ! unat (op_Index p) = op_PeerPlan p"
      "\<forall>i < n. (\<forall>p \<in> set ps. unat (op_Index p) \<noteq> i) \<longrightarrow> f' ! i = ?f ! i"
      "\<forall>j < n. set (r' ! j) = set (r1 ! j) \<union> {op_Index p | p. p \<in> set ps \<and> j \<in> unat ` set (op_PeerPlan p)}"
    using Cons.IH [OF pre(1) r1(2) pre(2,3)] by blast
  have "f' ! unat (op_Index p) = op_PeerPlan p"
    using fr(5) fresh p(1) Cons.prems(1) by simp
  moreover have "\<forall>i < n. (\<forall>x \<in> set (p # ps). unat (op_Index x) \<noteq> i) \<longrightarrow> f' ! i = f ! i"
    using fr(5) by auto
  moreover have "\<forall>j < n. set (r' ! j) = set (r ! j) \<union> {op_Index x | x. x \<in> set (p # ps) \<and> j \<in> unat ` set (op_PeerPlan x)}"
    using fr(6) r1(3) by auto
  ultimately show ?case
    using fr(1-4) r1 p Cons.prems(1) by (intro exI [of _ f'] exI [of _ r']) simp
qed simp

lemma connected_both_ways:
  assumes "\<And>i. i < n \<Longrightarrow> (0, i) \<in> E\<^sup>*" "\<And>i. i < n \<Longrightarrow> (0, i) \<in> (E\<inverse>)\<^sup>*"
  shows "i < n \<Longrightarrow> j < n \<Longrightarrow> (i, j) \<in> E\<^sup>*"
  using assms rtrancl_trans [of i 0 E j] by (simp add: rtrancl_converse)

text \<open>The verdict is that of reachability over the peer plans.\<close>

lemma validateStrongConnectivity_iff:
  assumes "indexed (doc_Operators d)" "list_all (peers_within (length (doc_Operators d))) (doc_Operators d)"
    "doc_Operators d \<noteq> []"
  shows "\<exists>b. validateStrongConnectivity d = Some b \<and>
    (b \<longleftrightarrow> (\<forall>i < length (doc_Operators d). \<forall>j < length (doc_Operators d). (i, j) \<in> (plan_arcs (doc_Operators d))\<^sup>*))"
proof -
  let ?ps = "doc_Operators d"
  let ?n = "length ?ps" and ?E = "plan_arcs ?ps"
  have at: "\<exists>i < ?n. p = ?ps ! i \<and> unat (op_Index p) = i" if "p \<in> set ?ps" for p
    using that assms(1) by (auto simp: in_set_conv_nth indexed_def)
  have distinct: "distinct (map op_Index ?ps)"
    using assms(1) unfolding distinct_conv_nth indexed_def by (metis length_map nth_map)
  obtain f r where fr: "buildGraphs (replicate ?n []) (replicate ?n []) ?ps = Some (f, r)" "length f = ?n" "length r = ?n"
      "\<forall>p \<in> set ?ps. f ! unat (op_Index p) = op_PeerPlan p"
      "\<forall>j < ?n. set (r ! j) = set (replicate ?n [] ! j) \<union> {op_Index p | p. p \<in> set ?ps \<and> j \<in> unat ` set (op_PeerPlan p)}"
    using buildGraphs_spec [of "replicate ?n []" ?n "replicate ?n []" ?ps] distinct at assms(2)
    by (fastforce simp: list_all_iff)
  have peers: "unat q < ?n" if "p \<in> set ?ps" "q \<in> set (op_PeerPlan p)" for p q
    using assms(2) that by (auto simp: list_all_iff peers_within_def)
  have "f ! i = op_PeerPlan (?ps ! i)" if "i < ?n" for i
    using fr(4) that assms(1) by (metis indexed_def nth_mem)
  then have F: "arcs f = ?E"
    using fr(2) at by (auto simp: arcs_def plan_arcs_def) (metis nth_mem indexed_def assms(1))
  have R: "arcs r = ?E\<inverse>"
    using fr(3,5) peers by (fastforce simp: arcs_def plan_arcs_def)
  have in_range: "i < ?n \<and> j < ?n" if "(i, j) \<in> ?E" for i j
    using that at peers by (auto simp: plan_arcs_def)
  obtain b b' where b: "connectivity_ok f ?n = Some b" "b \<longleftrightarrow> (\<forall>i < ?n. (0, i) \<in> ?E\<^sup>*)"
      "connectivity_ok r ?n = Some b'" "b' \<longleftrightarrow> (\<forall>i < ?n. (0, i) \<in> (?E\<inverse>)\<^sup>*)"
    using connectivity_ok_iff [of f ?n] connectivity_ok_iff [of r ?n] fr(2,3) assms(3) in_range
    unfolding F R by fastforce
  have "validateStrongConnectivity d = Some (b \<and> b')"
    using fr(1) b(1,3) by (cases b) (simp_all add: validateStrongConnectivity_def Let_def)
  moreover have "(b \<and> b') \<longleftrightarrow> (\<forall>i < ?n. \<forall>j < ?n. (i, j) \<in> ?E\<^sup>*)"
    using connected_both_ways [of ?n ?E] assms(3) unfolding b(2,4) by (auto simp: rtrancl_converse)
  ultimately show ?thesis by blast
qed

end
