(* ===== verification/GoNet.thy ===== *)
theory GoNet
  imports Json
begin

text \<open>
  What the operator packages use of \<^verbatim>\<open>time\<close>, \<^verbatim>\<open>net\<close>, \<^verbatim>\<open>net/netip\<close>, \<^verbatim>\<open>strconv\<close> and \<^verbatim>\<open>strings\<close>: the full
  RFC 3339 reader (offsets, fractions and one-digit hours included), \<^verbatim>\<open>SplitHostPort\<close>, \<^verbatim>\<open>JoinHostPort\<close>,
  \<^verbatim>\<open>ParseUint\<close>, \<^verbatim>\<open>Split\<close>, and the classification of IP addresses.
\<close>

section \<open>Instants\<close>

text \<open>The zero \<^verbatim>\<open>time.Time\<close>, on which \<^verbatim>\<open>IsZero\<close> is true.\<close>

definition time_zero :: instant where "time_zero = of_civil 1 1 1 0 0 0"

definition is_digit :: "char \<Rightarrow> bool" where "is_digit ch \<longleftrightarrow> dec_val ch \<noteq> None"

definition getnum :: "bool \<Rightarrow> string \<Rightarrow> (nat \<times> string) option" where
  "getnum fixed s =
     (case s of
        [] \<Rightarrow> None
      | a # r \<Rightarrow>
          (case dec_val a of
             None \<Rightarrow> None
           | Some x \<Rightarrow>
               (case r of
                  [] \<Rightarrow> if fixed then None else Some (x, r)
                | b # r' \<Rightarrow>
                    (case dec_val b of
                       None \<Rightarrow> if fixed then None else Some (x, r)
                     | Some y \<Rightarrow> Some (10 * x + y, r')))))"

definition skip_char :: "char \<Rightarrow> string \<Rightarrow> string option" where
  "skip_char ch s = (case s of [] \<Rightarrow> None | a # r \<Rightarrow> if a = ch then Some r else None)"

definition dec_number :: "string \<Rightarrow> nat" where
  "dec_number s = foldl (\<lambda>n ch. 10 * n + (case dec_val ch of None \<Rightarrow> 0 | Some d \<Rightarrow> d)) 0 s"

lemma dec_number_snoc: "dec_number (s @ [d]) = 10 * dec_number s + (case dec_val d of None \<Rightarrow> 0 | Some k \<Rightarrow> k)"
  by (simp add: dec_number_def)

lemma dec_number_dec_str: "dec_number (dec_str n) = n"
proof (induction n rule: dec_str.induct)
  case (1 n)
  then show ?case
    by (subst dec_str.simps) (auto simp: dec_number_snoc dec_number_def [of "[_]"])
qed

text \<open>The verb \<^verbatim>\<open>%0wd\<close>: decimal, filled with zeros to a width.\<close>

definition zero_padded :: "nat \<Rightarrow> nat \<Rightarrow> string" where
  "zero_padded width n = replicate (width - length (dec_str n)) (CHR ''0'') @ dec_str n"

lemma zero_padded_inj [simp]: "zero_padded width a = zero_padded width b \<longleftrightarrow> a = b"
proof
  have "dec_number (replicate m (CHR ''0'') @ ds) = dec_number ds" for m ds
    by (induction m) (simp_all add: dec_number_def dec_val_def)
  then have number: "dec_number (zero_padded width n) = n" for n by (simp add: zero_padded_def dec_number_dec_str)
  show "zero_padded width a = zero_padded width b \<Longrightarrow> a = b" by (metis number)
qed simp

text \<open>A fraction of a second: a period or a comma and digits, of which nine count.\<close>

definition fraction :: "string \<Rightarrow> nat \<times> string" where
  "fraction s =
     (case s of
        p # d # r \<Rightarrow>
          if (p = CHR ''.'' \<or> p = CHR '','') \<and> is_digit d then
            let ds = take 9 (takeWhile is_digit (d # r))
            in (dec_number ds * 10 ^ (9 - length ds), dropWhile is_digit (d # r))
          else (0, s)
      | _ \<Rightarrow> (0, s))"

text \<open>The offset in seconds east of UTC.\<close>

definition zone_offset :: "string \<Rightarrow> (int \<times> string) option" where
  "zone_offset s =
     (if s \<noteq> [] \<and> hd s = CHR ''Z'' then Some (0, tl s)
      else if length s < 6 \<or> s ! 3 \<noteq> CHR '':'' then None
      else case (getnum True (take 2 (drop 1 s)), getnum True (take 2 (drop 4 s))) of
             (Some (hr, _), Some (mm, _)) \<Rightarrow>
               if hr > 24 \<or> mm > 60 then None
               else if hd s = CHR ''+'' then Some (int ((hr * 60 + mm) * 60), drop 6 s)
               else if hd s = CHR ''-'' then Some (- int ((hr * 60 + mm) * 60), drop 6 s)
               else None
           | _ \<Rightarrow> None)"

definition time_ParseRFC3339 :: "string \<Rightarrow> instant option" where
  "time_ParseRFC3339 s =
     Option.bind (read4 (take 4 s)) (\<lambda>y.
     Option.bind (skip_char CHR ''-'' (drop 4 s)) (\<lambda>s.
     Option.bind (getnum True s) (\<lambda>(mo, s).
     Option.bind (skip_char CHR ''-'' s) (\<lambda>s.
     Option.bind (getnum True s) (\<lambda>(d, s).
     Option.bind (skip_char CHR ''T'' s) (\<lambda>s.
     Option.bind (getnum False s) (\<lambda>(h, s).
     Option.bind (skip_char CHR '':'' s) (\<lambda>s.
     Option.bind (getnum True s) (\<lambda>(mi, s).
     Option.bind (skip_char CHR '':'' s) (\<lambda>s.
     Option.bind (getnum True s) (\<lambda>(se, s).
     case fraction s of (nanos, s) \<Rightarrow>
     Option.bind (zone_offset s) (\<lambda>(off, s).
       if s \<noteq> [] \<or> \<not> civil_ok y mo d h mi se then None
       else Some (of_civil y mo d h mi se + int nanos - second * off)))))))))))))"

lemma getnum_dec2: "n < 100 \<Longrightarrow> getnum fixed (dec2 n @ r) = Some (n, r)"
  using read2_dec2 [of n] by (auto simp: getnum_def dec2_def read2_def split: option.splits)

text \<open>The lenient reader agrees with the canonical spelling.\<close>

lemma time_ParseRFC3339_canonical:
  assumes "time_Parse s = Some t"
  shows "time_ParseRFC3339 s = Some t"
proof -
  from parse_civil [OF assms] obtain y mo d h mi se where
    f: "y < 10000" "civil_ok y mo d h mi se" "t = of_civil y mo d h mi se" "s = spell y mo d h mi se" by blast
  have "month_days y mo \<le> 31" by (simp add: month_days_def)
  with f have "mo < 100" "d < 100" "h < 100" "mi < 100" "se < 100" by (simp_all add: civil_ok_def)
  then show ?thesis
    using f read4_dec4 [OF f(1)]
    by (simp add: time_ParseRFC3339_def spell_def getnum_dec2 skip_char_def fraction_def zone_offset_def)
qed

definition millisecond :: duration where "millisecond = 1000000"
definition hour :: duration where "hour = 60 * minute"

section \<open>Host and port\<close>

definition last_index :: "char \<Rightarrow> string \<Rightarrow> nat option" where
  "last_index ch s = (if ch \<in> set s then Some (length s - 1 - length (takeWhile ((\<noteq>) ch) (rev s))) else None)"

definition first_index :: "char \<Rightarrow> string \<Rightarrow> nat option" where
  "first_index ch s = (if ch \<in> set s then Some (length (takeWhile ((\<noteq>) ch) s)) else None)"

definition SplitHostPort :: "string \<Rightarrow> (string \<times> string) option" where
  "SplitHostPort s =
     (case last_index CHR '':'' s of
        None \<Rightarrow> None
      | Some i \<Rightarrow>
          if hd s = CHR ''['' then
            (case first_index CHR '']'' s of
               None \<Rightarrow> None
             | Some e \<Rightarrow>
                 if e + 1 \<noteq> i then None
                 else if CHR ''['' \<in> set (drop 1 s) \<or> CHR '']'' \<in> set (drop (e + 1) s) then None
                 else Some (slice 1 e s, drop (i + 1) s))
          else if CHR '':'' \<in> set (take i s) then None
          else if CHR ''['' \<in> set s \<or> CHR '']'' \<in> set s then None
          else Some (take i s, drop (i + 1) s))"

definition JoinHostPort :: "string \<Rightarrow> string \<Rightarrow> string" where
  "JoinHostPort host port =
     (if CHR '':'' \<in> set host then ''['' @ host @ '']:'' @ port else host @ '':'' @ port)"

text \<open>\<^verbatim>\<open>strconv.ParseUint(s, 10, width)\<close>: decimal digits only, and a value that fits.\<close>

definition ParseUint :: "string \<Rightarrow> nat \<Rightarrow> nat option" where
  "ParseUint s width =
     (if s = [] \<or> \<not> list_all is_digit s then None
      else if dec_number s \<ge> 2 ^ width then None else Some (dec_number s))"

text \<open>\<^verbatim>\<open>strings.Split\<close> with a separator of one byte.\<close>

fun split_at :: "char \<Rightarrow> string \<Rightarrow> string list" where
  "split_at ch [] = [[]]"
| "split_at ch (a # s) =
     (if a = ch then [] # split_at ch s
      else case split_at ch s of [] \<Rightarrow> [[a]] | l # ls \<Rightarrow> (a # l) # ls)"

section \<open>Addresses\<close>

text \<open>
  A parsed address: four bytes, or sixteen with a zone. \<^verbatim>\<open>netip.ParseAddr\<close>, \<^verbatim>\<open>Addr.String\<close>, \<^verbatim>\<open>net.ParseIP\<close>
  and \<^verbatim>\<open>url.Parse\<close> are arguments of the definitions that use them.
\<close>

datatype Addr = V4 bytes | V6 bytes string

definition addr_Unmap :: "Addr \<Rightarrow> Addr" where
  "addr_Unmap a =
     (case a of
        V4 bs \<Rightarrow> a
      | V6 bs z \<Rightarrow> if take 12 bs = replicate 10 0 @ [0xFF, 0xFF] then V4 (drop 12 bs) else a)"

definition addr_Zone :: "Addr \<Rightarrow> string" where
  "addr_Zone a = (case a of V4 bs \<Rightarrow> [] | V6 bs z \<Rightarrow> z)"

definition addr_IsLoopback :: "Addr \<Rightarrow> bool" where
  "addr_IsLoopback a = (case a of V4 bs \<Rightarrow> hd bs = 127 | V6 bs z \<Rightarrow> bs = replicate 15 0 @ [1])"

definition addr_IsUnspecified :: "Addr \<Rightarrow> bool" where
  "addr_IsUnspecified a \<longleftrightarrow> a = V4 (replicate 4 0) \<or> a = V6 (replicate 16 0) []"

definition addr_IsMulticast :: "Addr \<Rightarrow> bool" where
  "addr_IsMulticast a = (case a of V4 bs \<Rightarrow> hd bs AND 0xF0 = 0xE0 | V6 bs z \<Rightarrow> hd bs = 0xFF)"

record Url =
  url_Scheme :: string
  url_Hostname :: string
  url_Port :: string
  url_User :: bool
  url_Path :: string
  url_RawQuery :: string
  url_Fragment :: string

end
