(* ===== verification/Endpoint.thy ===== *)
theory Endpoint
  imports GoNet
begin

text \<open>
  The endpoints of \<^verbatim>\<open>live/topology/topology.go\<close>: an operator's UDP and HTTP endpoints are reduced to one key
  per socket address, so that the distinctness check of the topology compares what endpoints mean.
\<close>

datatype endpoint_error =
    HostPortMalformed | HostOrPortMissing | PortInvalid | PortZero | ZonedAddress | UnusableAddress
  | BracketedName | EmptyHost | HostTooLong | LabelLength | LabelHyphen | LabelCharacter | NumericTopLabel | EndpointMissing

text \<open>
  The parsers of the standard library's network packages: \<^verbatim>\<open>netip.ParseAddr\<close>, \<^verbatim>\<open>Addr.String\<close>, \<^verbatim>\<open>url.Parse\<close>,
  and whether \<^verbatim>\<open>net.ParseIP\<close> reads a loopback address.
\<close>

record netlib =
  netip_ParseAddr :: "string \<Rightarrow> Addr option"
  addr_String :: "Addr \<Rightarrow> string"
  url_Parse :: "string \<Rightarrow> Url option"
  ip_IsLoopback :: "string \<Rightarrow> bool"

definition loopbackHost :: string where "loopbackHost = ''loopback''"

definition usableAsPeerAddress :: "Addr \<Rightarrow> bool" where
  "usableAsPeerAddress address =
     (if addr_IsUnspecified address \<or> addr_IsMulticast address then False
      else address \<noteq> V4 [255, 255, 255, 255])"

definition allDigits :: "string \<Rightarrow> bool" where
  "allDigits label = (if label = [] then False else list_all is_digit label)"

text \<open>The inner loop: one label, folded to lower case.\<close>

fun lowerLabel :: "string \<Rightarrow> string option" where
  "lowerLabel [] = Some []"
| "lowerLabel (ch # r) =
     (let n = of_char ch :: nat in
      if 97 \<le> n \<and> n \<le> 122 \<or> 48 \<le> n \<and> n \<le> 57 \<or> n = 45 then map_option ((#) ch) (lowerLabel r)
      else if 65 \<le> n \<and> n \<le> 90 then map_option ((#) (char_of (n + 32))) (lowerLabel r)
      else None)"

fun lowerLabels :: "string \<Rightarrow> string list \<Rightarrow> endpoint_error + string" where
  "lowerLabels lowered [] = Inr lowered"
| "lowerLabels lowered (label # rest) =
     (if length label = 0 \<or> length label > 63 then Inl LabelLength
      else if hd label = CHR ''-'' \<or> last label = CHR ''-'' then Inl LabelHyphen
      else case lowerLabel label of
             None \<Rightarrow> Inl LabelCharacter
           | Some l \<Rightarrow> lowerLabels (lowered @ (if lowered \<noteq> [] then ''.'' else []) @ l) rest)"

definition trim_dot :: "string \<Rightarrow> string" where
  "trim_dot s = (if s \<noteq> [] \<and> last s = CHR ''.'' then butlast s else s)"

definition canonicalHostname :: "string \<Rightarrow> endpoint_error + string" where
  "canonicalHostname host =
     (let name = trim_dot host in
      if name = [] \<or> last name = CHR ''.'' then Inl EmptyHost
      else if length name > 253 then Inl HostTooLong
      else andThen (lowerLabels [] (split_at CHR ''.'' name)) (\<lambda>lowered.
        if allDigits (last (split_at CHR ''.'' lowered)) then Inl NumericTopLabel
        else if lowered = ''localhost'' then Inr loopbackHost
        else Inr lowered))"

definition canonicalHost :: "netlib \<Rightarrow> string \<Rightarrow> bool \<Rightarrow> endpoint_error + string" where
  "canonicalHost lib host bracketed =
     (case netip_ParseAddr lib host of
        Some parsed \<Rightarrow>
          (let address = addr_Unmap parsed in
           if addr_Zone address \<noteq> [] then Inl ZonedAddress
           else if \<not> usableAsPeerAddress address then Inl UnusableAddress
           else if addr_IsLoopback address then Inr loopbackHost
           else Inr (addr_String lib address))
      | None \<Rightarrow> if bracketed then Inl BracketedName else canonicalHostname host)"

definition canonicalEndpoint :: "netlib \<Rightarrow> string \<Rightarrow> endpoint_error + string" where
  "canonicalEndpoint lib endpoint =
     (case SplitHostPort endpoint of
        None \<Rightarrow> Inl HostPortMalformed
      | Some (host, port) \<Rightarrow>
          if host = [] \<or> port = [] then Inl HostOrPortMissing
          else case ParseUint port 16 of
            None \<Rightarrow> Inl PortInvalid
          | Some number \<Rightarrow>
              if number = 0 then Inl PortZero
              else andThen (canonicalHost lib host (endpoint \<noteq> [] \<and> hd endpoint = CHR ''['')) (\<lambda>canonical.
                Inr (canonical @ '':'' @ dec_str number)))"

definition canonicalURLEndpoint :: "netlib \<Rightarrow> Url option \<Rightarrow> endpoint_error + string" where
  "canonicalURLEndpoint lib endpoint =
     (case endpoint of
        None \<Rightarrow> Inl EndpointMissing
      | Some u \<Rightarrow>
          if url_Hostname u = [] \<or> url_Port u = [] then Inl HostOrPortMissing
          else canonicalEndpoint lib (JoinHostPort (url_Hostname u) (url_Port u)))"

definition validCeremonyURL :: "netlib \<Rightarrow> Url \<Rightarrow> bool" where
  "validCeremonyURL lib u =
     (if url_Hostname u = [] \<or> url_Port u = [] \<or> url_User u \<or> (url_Path u \<noteq> [] \<and> url_Path u \<noteq> ''/'') \<or>
         url_RawQuery u \<noteq> [] \<or> url_Fragment u \<noteq> [] then False
      else if url_Scheme u = ''https'' then True
      else if url_Scheme u \<noteq> ''http'' then False
      else if url_Hostname u = ''localhost'' then True
      else ip_IsLoopback lib (url_Hostname u))"

section \<open>Folding\<close>

text \<open>
  The name \<^verbatim>\<open>loopback\<close> is folded onto the key that stands for the loopback addresses: an operator whose
  host is called that is taken for one at 127.0.0.1.
\<close>

lemma loopback_name_folds: "canonicalHostname ''loopback'' = canonicalHostname ''LocalHost.''"
  by code_simp

end
