(* ===== verification/LiveJson.thy ===== *)
theory LiveJson
  imports StrictJson GoStd
begin

text \<open>
  \<^verbatim>\<open>live/strictjson\<close>, the stricter reader of the documents operators sign: base64 fields with exactly one
  spelling, and a walk that refuses a document with a repeated member name or with content after its value.
  The walk works on the same token stream as the one of \<open>StrictJson\<close>, without limits on depth or size.
\<close>

section \<open>Base64 fields\<close>

definition isBase64Alphabet :: "char \<Rightarrow> bool" where
  "isBase64Alphabet ch =
     (let n = of_char ch :: nat in
      65 \<le> n \<and> n \<le> 90 \<or> 97 \<le> n \<and> n \<le> 122 \<or> 48 \<le> n \<and> n \<le> 57 \<or> n = 43 \<or> n = 47 \<or> n = 61)"

definition DecodeBase64 :: "string \<Rightarrow> bytes option" where
  "DecodeBase64 encoded = (if list_all isBase64Alphabet encoded then b64_DecodeString encoded else None)"

lemma b64_val_inverse: "b64_val ch = Some v \<Longrightarrow> v < 64 \<and> b64_digit v = ch"
  by (auto simp: b64_val_def b64_digit_def Let_def split: if_splits) (metis char_of_char)+

lemma b64_quantum_bytes:
  assumes "v0 < 64" "v1 < 64" "v2 < 64" "v3 < 64"
  shows "unat (of_nat (v0 * 4 + v1 div 16) :: byte) = v0 * 4 + v1 div 16"
    and "unat (of_nat (v1 mod 16 * 16 + v2 div 4) :: byte) = v1 mod 16 * 16 + v2 div 4"
    and "unat (of_nat (v2 mod 4 * 64 + v3) :: byte) = v2 mod 4 * 64 + v3"
  using assms by (auto simp: unat_of_nat simp del: of_nat_add of_nat_mult intro!: mod_less)

lemma join_parts:
  assumes "v < 64"
  shows "v div 16 mod 4 * 16 + v mod 16 = v" and "v div 4 mod 16 * 4 + v mod 4 = (v :: nat)"
proof -
  have "v div 16 mod 4 = v div 16" "v div 4 mod 16 = v div 4" using assms by simp_all
  then show "v div 16 mod 4 * 16 + v mod 16 = v" and "v div 4 mod 16 * 4 + v mod 4 = v"
    using div_mult_mod_eq [of v 16] div_mult_mod_eq [of v 4] by simp_all
qed

lemma b64_quantum_digits:
  assumes "v0 < 64" "v1 < 64" "v2 < 64" "v3 < (64 :: nat)"
  shows "(v0 * 4 + v1 div 16) div 4 = v0"
    and "(v0 * 4 + v1 div 16) mod 4 * 16 + (v1 mod 16 * 16 + v2 div 4) div 16 = v1"
    and "(v1 mod 16 * 16 + v2 div 4) mod 16 * 4 + (v2 mod 4 * 64 + v3) div 64 = v2"
    and "(v2 mod 4 * 64 + v3) mod 64 = v3"
    and "v1 mod 16 = 0 \<Longrightarrow> (v0 * 4 + v1 div 16) mod 4 * 16 = v1"
    and "v2 mod 4 = 0 \<Longrightarrow> (v1 mod 16 * 16 + v2 div 4) mod 16 * 4 = v2"
  using assms join_parts [of v1] join_parts [of v2] by simp_all

text \<open>The strict decoder is the inverse of the encoder on text without line breaks.\<close>

lemma b64_encode_quanta: "b64_quanta s = Some bs \<Longrightarrow> b64_EncodeToString bs = s"
proof (induction s arbitrary: bs rule: b64_quanta.induct)
  case (2 c0 c1 c2 c3 r)
  from "2.prems" obtain v0 v1 where v: "b64_val c0 = Some v0" "b64_val c1 = Some v1"
    by (auto split: option.splits)
  note d01 = b64_val_inverse [OF v(1)] b64_val_inverse [OF v(2)]
  note B = b64_quantum_bytes [of v0 v1] and D = b64_quantum_digits [of v0 v1]
  consider (pad2) "r = []" "c2 = b64_pad" "c3 = b64_pad" | (pad1) v2 where "b64_val c2 = Some v2" "r = []" "c3 = b64_pad"
    "\<not> (c2 = b64_pad \<and> c3 = b64_pad)" | (full) v2 v3 bs' where "b64_val c2 = Some v2" "b64_val c3 = Some v3"
      "b64_quanta r = Some bs'" "\<not> (r = [] \<and> c3 = b64_pad)"
    using "2.prems" v by (auto split: option.splits if_splits)
  then show ?case
  proof cases
    case pad2
    then have "bs = [of_nat (v0 * 4 + v1 div 16)]" "v1 mod 16 = 0"
      using "2.prems" v by (auto split: if_splits simp del: of_nat_add of_nat_mult)
    then show ?thesis
      using d01 pad2 B(1) [of 0 0] D(1,5) [of 0 0] by simp
  next
    case (pad1 v2)
    then have "bs = [of_nat (v0 * 4 + v1 div 16), of_nat (v1 mod 16 * 16 + v2 div 4)]" and "v2 mod 4 = 0"
      using "2.prems" v by (auto split: if_splits simp del: of_nat_add of_nat_mult)
    moreover have "v2 < 64" "b64_digit v2 = c2" using b64_val_inverse [OF pad1(1)] by auto
    ultimately show ?thesis
      using d01 pad1(2,3) by (simp only: b64_EncodeToString.simps B(1,2) [of v2 0] D(1,2,6) [of v2 0])
  next
    case (full v2 v3 bs')
    then have "b64_EncodeToString bs' = r"
      using 2 v by (auto split: if_splits)
    moreover have "bs = of_nat (v0 * 4 + v1 div 16) # of_nat (v1 mod 16 * 16 + v2 div 4) # of_nat (v2 mod 4 * 64 + v3) # bs'"
      using "2.prems" v full by (auto simp del: of_nat_add of_nat_mult split: if_splits)
    moreover have "v2 < 64" "b64_digit v2 = c2" "v3 < 64" "b64_digit v3 = c3"
      using b64_val_inverse [OF full(1)] b64_val_inverse [OF full(2)] by auto
    ultimately show ?thesis
      using d01 by (simp only: b64_EncodeToString.simps B [of v2 v3] D(1-4) [of v2 v3])
  qed
qed simp_all

lemma alphabet_chars: "list_all isBase64Alphabet (b64_EncodeToString bs)"
proof -
  have "isBase64Alphabet (b64_digit n)" if "n < 64" for n
    using b64_val_digit [OF that] by (auto simp: isBase64Alphabet_def b64_val_def Let_def split: if_splits)
  moreover have "isBase64Alphabet b64_pad"
    by (simp add: isBase64Alphabet_def b64_pad_def)
  ultimately show ?thesis
    using b64_chars_kept [of bs] by (fastforce simp: list_all_iff)
qed

lemma alphabet_no_newline:
  "list_all isBase64Alphabet s \<Longrightarrow> filter (\<lambda>ch. of_char ch \<noteq> (10 :: nat) \<and> of_char ch \<noteq> (13 :: nat)) s = s"
  by (rule filter_True) (auto simp: list_all_iff isBase64Alphabet_def Let_def)

text \<open>A field that decodes has the one spelling the encoder gives.\<close>

interpretation field64: canonical_codec b64_EncodeToString DecodeBase64 "\<lambda>_. True"
  by unfold_locales
    (auto simp: DecodeBase64_def b64_DecodeString_def alphabet_chars b64_filter_id b64_quanta_encode alphabet_no_newline
      b64_encode_quanta split: if_splits)

text \<open>\<^verbatim>\<open>decodeFixed\<close> and \<^verbatim>\<open>decodeBase64\<close> of the packages: a field of exactly \<open>sz\<close> bytes.\<close>

definition decodeFixed :: "string \<Rightarrow> nat \<Rightarrow> bytes option" where
  "decodeFixed encoded sz =
     (case DecodeBase64 encoded of
        None \<Rightarrow> None
      | Some decoded \<Rightarrow> if length decoded \<noteq> sz then None else Some decoded)"

lemma decodeFixed_iff: "decodeFixed s n = Some bs \<longleftrightarrow> b64_EncodeToString bs = s \<and> length bs = n"
proof -
  have "decodeFixed s n = Some bs \<longleftrightarrow> DecodeBase64 s = Some bs \<and> length bs = n"
    by (auto simp: decodeFixed_def split: option.splits)
  then show ?thesis by (simp only: field64.dec_iff simp_thms)
qed

lemma decodeFixed_encode: "length bs = n \<Longrightarrow> decodeFixed (b64_EncodeToString bs) n = Some bs"
  by (simp add: decodeFixed_iff)

section \<open>The walk\<close>

datatype live_json_error = WalkToken | KeyNotString | RepeatedKey | TrailingContent

definition live_closing :: "live_json_error + jtoken list \<Rightarrow> live_json_error + jtoken list" where
  "live_closing result =
     (case result of
        Inl e \<Rightarrow> Inl e
      | Inr ts \<Rightarrow> (case json_Token ts of None \<Rightarrow> Inl WalkToken | Some (_, r) \<Rightarrow> Inr r))"

fun live_walk :: "nat \<Rightarrow> jtoken list \<Rightarrow> (live_json_error + jtoken list) option"
  and live_members :: "nat \<Rightarrow> string list \<Rightarrow> jtoken list \<Rightarrow> (live_json_error + jtoken list) option"
  and live_elements :: "nat \<Rightarrow> jtoken list \<Rightarrow> (live_json_error + jtoken list) option" where
  "live_walk 0 ts = None"
| "live_walk (Suc fuel) ts =
     (case json_Token ts of
        None \<Rightarrow> Some (Inl WalkToken)
      | Some (t, r) \<Rightarrow>
          (case t of
             JOpenObj \<Rightarrow> map_option live_closing (live_members fuel [] r)
           | JOpenArr \<Rightarrow> map_option live_closing (live_elements fuel r)
           | JClose \<Rightarrow> Some (live_closing (Inr r))
           | _ \<Rightarrow> Some (Inr r)))"
| "live_members 0 seen ts = None"
| "live_members (Suc fuel) seen ts =
     (if \<not> json_More ts then Some (Inr ts)
      else case json_Token ts of
        None \<Rightarrow> Some (Inl WalkToken)
      | Some (JStr key, r) \<Rightarrow>
          if key \<in> set seen then Some (Inl RepeatedKey)
          else (case live_walk fuel r of
                  None \<Rightarrow> None
                | Some (Inl e) \<Rightarrow> Some (Inl e)
                | Some (Inr r') \<Rightarrow> live_members fuel (key # seen) r')
      | Some _ \<Rightarrow> Some (Inl KeyNotString))"
| "live_elements 0 ts = None"
| "live_elements (Suc fuel) ts =
     (if \<not> json_More ts then Some (Inr ts)
      else (case live_walk fuel ts of
              None \<Rightarrow> None
            | Some (Inl e) \<Rightarrow> Some (Inl e)
            | Some (Inr r') \<Rightarrow> live_elements fuel r'))"

text \<open>
  After the value the next \<^verbatim>\<open>Token\<close> has to report the end of the input, not a token and not a broken one.
\<close>

definition live_RejectDuplicateKeys :: "(bytes \<Rightarrow> jtoken list) \<Rightarrow> bytes \<Rightarrow> (live_json_error + unit) option" where
  "live_RejectDuplicateKeys tokens encoded =
     (let ts = tokens encoded in
      map_option (\<lambda>walked.
        case walked of
          Inl e \<Rightarrow> Inl e
        | Inr r \<Rightarrow> if r = [] then Inr () else Inl TrailingContent)
        (live_walk (2 * length ts + 2) ts))"

lemma live_closing_Inr: "live_closing x = Inr r \<longleftrightarrow> (\<exists>t. x = Inr (t # r) \<and> (\<forall>m. t \<noteq> JBad m))"
  by (auto simp: live_closing_def json_Token_Some json_Token_None split: sum.splits option.splits)

lemma live_walk_shrinks:
  "live_walk fuel ts = Some (Inr r) \<Longrightarrow> length r < length ts"
  "live_members fuel seen ts = Some (Inr r) \<Longrightarrow> length r \<le> length ts"
  "live_elements fuel ts = Some (Inr r) \<Longrightarrow> length r \<le> length ts"
proof (induction fuel ts and fuel seen ts and fuel ts arbitrary: r and r and r
    rule: live_walk_live_members_live_elements.induct)
  case (2 fuel ts)
  then show ?case
    by (fastforce simp: json_Token_Some live_closing_Inr split: if_splits option.splits jtoken.splits)
next
  case (4 fuel seen ts)
  then show ?case
    by (fastforce simp: json_Token_Some split: if_splits option.splits jtoken.splits sum.splits)
next
  case (6 fuel ts)
  then show ?case
    by (fastforce split: if_splits option.splits sum.splits)
qed simp_all

lemma live_walk_returns:
  "2 * length ts + 2 \<le> fuel \<Longrightarrow> live_walk fuel ts \<noteq> None"
  "2 * length ts + 3 \<le> fuel \<Longrightarrow> live_members fuel seen ts \<noteq> None"
  "2 * length ts + 3 \<le> fuel \<Longrightarrow> live_elements fuel ts \<noteq> None"
proof (induction fuel ts and fuel seen ts and fuel ts rule: live_walk_live_members_live_elements.induct)
  case (2 fuel ts)
  then show ?case
    by (auto simp: json_Token_Some split: if_splits option.splits jtoken.splits)
next
  case (4 fuel seen ts)
  have "2 * length r' + 3 \<le> fuel" if "ts = JStr key # r" "live_walk fuel r = Some (Inr r')" for key r r'
    using live_walk_shrinks(1) [OF that(2)] that(1) 4(3) by simp
  with 4 show ?case
    by (fastforce simp: json_Token_Some split: if_splits option.splits jtoken.splits sum.splits)
next
  case (6 fuel ts)
  have "2 * length r' + 3 \<le> fuel" if "live_walk fuel ts = Some (Inr r')" for r'
    using live_walk_shrinks(1) [OF that] 6(3) by simp
  with 6 show ?case
    by (auto split: if_splits option.splits sum.splits)
qed simp_all

lemma live_RejectDuplicateKeys_returns: "\<exists>x. live_RejectDuplicateKeys tokens encoded = Some x"
  unfolding live_RejectDuplicateKeys_def Let_def
  using live_walk_returns(1) [of "tokens encoded" "2 * length (tokens encoded) + 2"]
  by (metis le_refl not_None_eq option.simps(9))

end
