(* ===== verification/Topology.thy ===== *)
theory Topology
  imports PeerGraph Endpoint LiveJson
begin

text \<open>
  \<^verbatim>\<open>live/topology/topology.go\<close>: validation, attestation, signing and verification of the network plan that every
  operator attests and the authority signs, and \<^verbatim>\<open>live/topology/watermark.go\<close>, the record that stops a node from
  going back to an older plan. URL and address parsing (\<open>netlib\<close>), the key-agreement probe and the check of a DKG
  identity (\<open>keylib\<close>), Ed25519 and SHA-256 (\<open>crypto\<close>) and JSON decoding are arguments.
\<close>

section \<open>Validation\<close>

record keylib =
  kex_contributory :: "bytes \<Rightarrow> bool"
  dkg_identity_valid :: "bytes \<Rightarrow> bool"

datatype document_error =
    TopologyVersionUnsupported | NetworkIDInvalid | EpochZero | NotBeforeInvalid | NotAfterInvalid | NotCurrentlyValid
  | CellSizeWrong | CellIntervalRange | LatenessRange | QueueCapacityRange | OperatorCountRange | ThresholdRange
  | SessionIDInvalid | DKGStartInvalid | PhaseDurationRange | DKGExceedsValidity

datatype operator_error =
    IndexesNotContiguous | OperatorIDInvalid | OperatorIDDuplicate | UDPEndpointInvalid endpoint_error | UDPEndpointDuplicate
  | PartialURLInvalid | PartialEndpointInvalid endpoint_error | PartialEndpointDuplicate
  | DKGURLInvalid | DKGEndpointInvalid endpoint_error | DKGEndpointDuplicate
  | IdentityKeyInvalid | IdentityKeyDuplicate | KEXKeyInvalid | KEXNotContributory | KEXKeyDuplicate
  | DKGIdentityInvalid | DKGIdentityRejected | DKGIdentityDuplicate
  | PeerPlanLength | PeerSlotInvalid | PeerSlotDuplicate

datatype topology_error =
    DocumentErr document_error | OperatorErr operator_error | NotStronglyConnected | IndexPanic
  | TopologySize | AuthorityKeyInvalid | TopologyAmbiguous live_json_error | TopologyMalformed | TopologyTrailing
  | CanonicalFails canonical_error | AuthoritySignatureEncoding | AuthoritySignatureFails
  | AttestationIdentity | AttestationEncoding | AttestationFails
  | IdentityPrivateMissing | OperatorNotListed | IdentityPrivateMismatch | AuthorityPrivateInvalid | OperatorIndexOutside
  | OperatorIndexMismatch

definition id_char :: "char \<Rightarrow> bool" where
  "id_char ch = (let n = of_char ch :: nat in 97 \<le> n \<and> n \<le> 122 \<or> 48 \<le> n \<and> n \<le> 57)"

definition operatorIDPattern :: "string \<Rightarrow> bool" where
  "operatorIDPattern s \<longleftrightarrow> s \<noteq> [] \<and> id_char (hd s) \<and> list_all (\<lambda>ch. id_char ch \<or> ch = CHR ''-'') (tl s) \<and> length (tl s) \<le> 62"

record SeenOperators =
  seen_ids :: "string list"
  seen_endpoints :: "string list"
  seen_partial :: "string list"
  seen_dkg :: "string list"
  seen_identity :: "string list"
  seen_kex :: "string list"
  seen_dkg_identity :: "string list"

definition none_seen :: SeenOperators where
  "none_seen = \<lparr>seen_ids = [], seen_endpoints = [], seen_partial = [], seen_dkg = [], seen_identity = [], seen_kex = [],
     seen_dkg_identity = []\<rparr>"

definition validPartialURL :: "Url \<Rightarrow> bool" where
  "validPartialURL u \<longleftrightarrow>
     (url_Scheme u = ''http'' \<or> url_Scheme u = ''https'') \<and> url_Hostname u \<noteq> [] \<and> url_Port u \<noteq> [] \<and> \<not> url_User u \<and>
     (url_Path u = [] \<or> url_Path u = ''/'') \<and> url_RawQuery u = [] \<and> url_Fragment u = []"

fun validatePeers :: "nat \<Rightarrow> u16 \<Rightarrow> u16 list \<Rightarrow> u16 list \<Rightarrow> operator_error + unit" where
  "validatePeers n self slots [] = Inr ()"
| "validatePeers n self slots (peer # rest) =
     (if unat peer \<ge> n \<or> peer = self then Inl PeerSlotInvalid
      else if peer \<in> set slots then Inl PeerSlotDuplicate
      else validatePeers n self (peer # slots) rest)"

definition kexKeySize :: nat where "kexKeySize = 32"
definition dkgIdentitySize :: nat where "dkgIdentitySize = 32"

text \<open>One turn of the loop over the operators: \<open>n\<close> is their number and \<open>i\<close> the turn.\<close>

definition validateOperator ::
    "netlib \<Rightarrow> keylib \<Rightarrow> nat \<Rightarrow> nat \<Rightarrow> SeenOperators \<Rightarrow> Operator \<Rightarrow> operator_error + SeenOperators" where
  "validateOperator lib keys n i seen p =
     andThen (require (op_Index p = of_nat i) IndexesNotContiguous) (\<lambda>_.
     andThen (require (operatorIDPattern (op_ID p)) OperatorIDInvalid) (\<lambda>_.
     andThen (require (op_ID p \<notin> set (seen_ids seen)) OperatorIDDuplicate) (\<lambda>_.
     andThen (map_sum UDPEndpointInvalid id (canonicalEndpoint lib (op_Endpoint p))) (\<lambda>canonical.
     andThen (require (canonical \<notin> set (seen_endpoints seen)) UDPEndpointDuplicate) (\<lambda>_.
     andThen (expect (url_Parse lib (op_PartialEndpoint p)) PartialURLInvalid) (\<lambda>partialURL.
     andThen (require (validPartialURL partialURL) PartialURLInvalid) (\<lambda>_.
     andThen (map_sum PartialEndpointInvalid id (canonicalURLEndpoint lib (Some partialURL))) (\<lambda>canonicalPartial.
     andThen (require (canonicalPartial \<notin> set (seen_partial seen)) PartialEndpointDuplicate) (\<lambda>_.
     andThen (expect (url_Parse lib (op_DKGEndpoint p)) DKGURLInvalid) (\<lambda>dkgURL.
     andThen (require (validCeremonyURL lib dkgURL) DKGURLInvalid) (\<lambda>_.
     andThen (map_sum DKGEndpointInvalid id (canonicalURLEndpoint lib (Some dkgURL))) (\<lambda>canonicalDKG.
     andThen (require (canonicalDKG \<notin> set (seen_dkg seen)) DKGEndpointDuplicate) (\<lambda>_.
     andThen (expect (decodeFixed (op_IdentityKey p) publicKeySize) IdentityKeyInvalid) (\<lambda>_.
     andThen (require (op_IdentityKey p \<notin> set (seen_identity seen)) IdentityKeyDuplicate) (\<lambda>_.
     andThen (expect (decodeFixed (op_KEXKey p) kexKeySize) KEXKeyInvalid) (\<lambda>encodedKEX.
     andThen (require (kex_contributory keys encodedKEX) KEXNotContributory) (\<lambda>_.
     andThen (require (op_KEXKey p \<notin> set (seen_kex seen)) KEXKeyDuplicate) (\<lambda>_.
     andThen (expect (decodeFixed (op_DKGIdentityKey p) dkgIdentitySize) DKGIdentityInvalid) (\<lambda>dkgIdentity.
     andThen (require (dkg_identity_valid keys dkgIdentity) DKGIdentityRejected) (\<lambda>_.
     andThen (require (op_DKGIdentityKey p \<notin> set (seen_dkg_identity seen)) DKGIdentityDuplicate) (\<lambda>_.
     andThen (require (op_PeerPlan p \<noteq> [] \<and> length (op_PeerPlan p) < n) PeerPlanLength) (\<lambda>_.
     andThen (validatePeers n (op_Index p) [] (op_PeerPlan p)) (\<lambda>_.
     Inr \<lparr>seen_ids = op_ID p # seen_ids seen, seen_endpoints = canonical # seen_endpoints seen,
       seen_partial = canonicalPartial # seen_partial seen, seen_dkg = canonicalDKG # seen_dkg seen,
       seen_identity = op_IdentityKey p # seen_identity seen, seen_kex = op_KEXKey p # seen_kex seen,
       seen_dkg_identity = op_DKGIdentityKey p # seen_dkg_identity seen\<rparr>)))))))))))))))))))))))"

fun validateOperators ::
    "netlib \<Rightarrow> keylib \<Rightarrow> nat \<Rightarrow> nat \<Rightarrow> SeenOperators \<Rightarrow> Operator list \<Rightarrow> operator_error + unit" where
  "validateOperators lib keys n i seen [] = Inr ()"
| "validateOperators lib keys n i seen (p # ps) =
     andThen (validateOperator lib keys n i seen p) (\<lambda>seen'. validateOperators lib keys n (Suc i) seen' ps)"

definition validateTraffic :: "TrafficClass \<Rightarrow> document_error + unit" where
  "validateTraffic t =
     andThen (require (tc_CellSize t = topology_CellSize) CellSizeWrong) (\<lambda>_.
     andThen (require (5 \<le> tc_CellIntervalMillis t \<and> tc_CellIntervalMillis t \<le> 60000) CellIntervalRange) (\<lambda>_.
     andThen (require (tc_CellIntervalMillis t \<le> tc_MaxLatenessMillis t \<and>
         tc_MaxLatenessMillis t \<le> 10 * tc_CellIntervalMillis t) LatenessRange) (\<lambda>_.
     require (16 \<le> tc_QueueCapacity t \<and> tc_QueueCapacity t \<le> 65536) QueueCapacityRange)))"

definition dkg_end :: "instant \<Rightarrow> DKGProfile \<Rightarrow> instant" where
  "dkg_end start p = start + 4 * int (unat (dkg_PhaseDurationMillis p)) * millisecond"

definition validateDKG :: "DKGProfile \<Rightarrow> nat \<Rightarrow> instant \<Rightarrow> instant \<Rightarrow> document_error + unit" where
  "validateDKG p n notBefore notAfter =
     andThen (require (2 \<le> dkg_Threshold p \<and> unat (dkg_Threshold p) \<le> n) ThresholdRange) (\<lambda>_.
     andThen (expect (decodeFixed (dkg_SessionID p) 32) SessionIDInvalid) (\<lambda>_.
     andThen (expect (time_ParseRFC3339 (dkg_StartAt p)) DKGStartInvalid) (\<lambda>dkgStart.
     andThen (require (notBefore \<le> dkgStart) DKGStartInvalid) (\<lambda>_.
     andThen (require (1000 \<le> dkg_PhaseDurationMillis p \<and> dkg_PhaseDurationMillis p \<le> 600000) PhaseDurationRange) (\<lambda>_.
     require (dkg_end dkgStart p \<le> notAfter) DKGExceedsValidity)))))"

definition validateConnected :: "Document \<Rightarrow> topology_error + unit" where
  "validateConnected d =
     (case validateStrongConnectivity d of
        None \<Rightarrow> Inl IndexPanic
      | Some False \<Rightarrow> Inl NotStronglyConnected
      | Some True \<Rightarrow> Inr ())"

text \<open>The checks of \<^verbatim>\<open>validateDocument\<close> before the loop over the operators.\<close>

definition validateHeader :: "Document \<Rightarrow> instant \<Rightarrow> document_error + unit" where
  "validateHeader d now =
     (let n = length (doc_Operators d) in
     andThen (require (doc_Version d = topology_Version) TopologyVersionUnsupported) (\<lambda>_.
     andThen (require (operatorIDPattern (doc_NetworkID d)) NetworkIDInvalid) (\<lambda>_.
     andThen (require (doc_Epoch d \<noteq> 0) EpochZero) (\<lambda>_.
     andThen (expect (time_ParseRFC3339 (doc_NotBefore d)) NotBeforeInvalid) (\<lambda>notBefore.
     andThen (expect (time_ParseRFC3339 (doc_NotAfter d)) NotAfterInvalid) (\<lambda>notAfter.
     andThen (require (notBefore < notAfter) NotAfterInvalid) (\<lambda>_.
     andThen (require (now = time_zero \<or> notBefore \<le> now \<and> now < notAfter) NotCurrentlyValid) (\<lambda>_.
     andThen (validateTraffic (doc_Traffic d)) (\<lambda>_.
     andThen (require (3 \<le> n \<and> n \<le> 64) OperatorCountRange) (\<lambda>_.
     validateDKG (doc_DKG d) n notBefore notAfter))))))))))"

definition validateDocument :: "netlib \<Rightarrow> keylib \<Rightarrow> Document \<Rightarrow> instant \<Rightarrow> topology_error + unit" where
  "validateDocument lib keys d now =
     andThen (map_sum DocumentErr id (validateHeader d now)) (\<lambda>_.
     andThen (map_sum OperatorErr id
       (validateOperators lib keys (length (doc_Operators d)) 0 none_seen (doc_Operators d))) (\<lambda>_.
     validateConnected d))"

definition ValidateDraft :: "netlib \<Rightarrow> keylib \<Rightarrow> Document \<Rightarrow> topology_error + unit" where
  "ValidateDraft lib keys d = validateDocument lib keys d time_zero"

section \<open>Signatures\<close>

fun verifyOperators :: "crypto \<Rightarrow> Document \<Rightarrow> Operator list \<Rightarrow> topology_error + unit" where
  "verifyOperators c d [] = Inr ()"
| "verifyOperators c d (p # ps) =
     andThen (expect (decodeFixed (op_IdentityKey p) publicKeySize) AttestationIdentity) (\<lambda>publicKey.
     andThen (expect (decodeFixed (op_Attestation p) signatureSize) AttestationEncoding) (\<lambda>attestation.
     andThen (map_sum CanonicalFails id (operatorSigningMessage d (op_ID p))) (\<lambda>message.
     andThen (require (ed_verify c publicKey message attestation) AttestationFails) (\<lambda>_.
     verifyOperators c d ps))))"

definition verifyAttestations :: "crypto \<Rightarrow> Document \<Rightarrow> topology_error + unit" where
  "verifyAttestations c d = verifyOperators c d (doc_Operators d)"

definition ValidateAttestations :: "netlib \<Rightarrow> keylib \<Rightarrow> crypto \<Rightarrow> Document \<Rightarrow> topology_error + unit" where
  "ValidateAttestations lib keys c d = andThen (validateDocument lib keys d time_zero) (\<lambda>_. verifyAttestations c d)"

definition DraftDigest :: "netlib \<Rightarrow> keylib \<Rightarrow> crypto \<Rightarrow> Document \<Rightarrow> topology_error + bytes" where
  "DraftDigest lib keys c d =
     (let draft = blank_attestations d in
      andThen (validateDocument lib keys draft time_zero) (\<lambda>_.
      andThen (map_sum CanonicalFails id (canonicalDocument draft)) (\<lambda>canonical.
      Inr (sha256 c (topology_signingMessage ''nomad-topology-draft-v3'' canonical)))))"

record TopologyVerified =
  tv_Document :: Document
  tv_Digest :: bytes

definition topology_Verify ::
    "netlib \<Rightarrow> keylib \<Rightarrow> crypto \<Rightarrow> (bytes \<Rightarrow> jtoken list) \<Rightarrow> (bytes \<Rightarrow> (SignedTopology \<times> bool) option) \<Rightarrow>
      bytes \<Rightarrow> bytes \<Rightarrow> instant \<Rightarrow> (topology_error + TopologyVerified) option" where
  "topology_Verify lib keys c tokens decode encoded authority now =
     (if encoded = [] \<or> length encoded > topology_MaximumFileBytes then Some (Inl TopologySize)
      else if length authority \<noteq> publicKeySize then Some (Inl AuthorityKeyInvalid)
      else map_option (\<lambda>walked.
        andThen (map_sum TopologyAmbiguous id walked) (\<lambda>_.
        andThen (expect (decode encoded) TopologyMalformed) (\<lambda>(signed, trailing).
        andThen (require (\<not> trailing) TopologyTrailing) (\<lambda>_.
        andThen (validateDocument lib keys (sgn_Document signed) now) (\<lambda>_.
        andThen (map_sum CanonicalFails id (canonicalDocument (sgn_Document signed))) (\<lambda>canonical.
        andThen (expect (decodeFixed (sgn_Signature signed) signatureSize) AuthoritySignatureEncoding) (\<lambda>signature.
        andThen (require (ed_verify c authority (topology_signingMessage ''nomad-topology-authority-v3'' canonical) signature)
          AuthoritySignatureFails) (\<lambda>_.
        andThen (verifyAttestations c (sgn_Document signed)) (\<lambda>_.
        Inr \<lparr>tv_Document = sgn_Document signed,
             tv_Digest = sha256 c (topology_signingMessage ''nomad-topology-digest-v3'' canonical)\<rparr>)))))))))
        (live_RejectDuplicateKeys tokens encoded))"

fun indexOf :: "string \<Rightarrow> Operator list \<Rightarrow> nat option" where
  "indexOf operatorID [] = None"
| "indexOf operatorID (p # ps) = (if op_ID p = operatorID then Some 0 else map_option Suc (indexOf operatorID ps))"

definition Attest :: "netlib \<Rightarrow> keylib \<Rightarrow> crypto \<Rightarrow> Document \<Rightarrow> string \<Rightarrow> bytes \<Rightarrow> topology_error + Document" where
  "Attest lib keys c d operatorID identity =
     andThen (require (length identity = privateKeySize) IdentityPrivateMissing) (\<lambda>_.
     andThen (validateDocument lib keys d time_zero) (\<lambda>_.
     andThen (expect (indexOf operatorID (doc_Operators d)) OperatorNotListed) (\<lambda>i.
     let p = doc_Operators d ! i in
     andThen (require (decodeFixed (op_IdentityKey p) publicKeySize = Some (ed_public c identity)) IdentityPrivateMismatch) (\<lambda>_.
     andThen (map_sum CanonicalFails id (operatorSigningMessage d (op_ID p))) (\<lambda>message.
     Inr (d\<lparr>doc_Operators := (doc_Operators d)[i := p\<lparr>op_Attestation := b64_EncodeToString (ed_sign c identity message)\<rparr>]\<rparr>))))))"

definition Finalize :: "netlib \<Rightarrow> keylib \<Rightarrow> crypto \<Rightarrow> Document \<Rightarrow> bytes \<Rightarrow> topology_error + SignedTopology" where
  "Finalize lib keys c d authority =
     andThen (require (length authority = privateKeySize) AuthorityPrivateInvalid) (\<lambda>_.
     andThen (validateDocument lib keys d time_zero) (\<lambda>_.
     andThen (verifyAttestations c d) (\<lambda>_.
     andThen (map_sum CanonicalFails id (canonicalDocument d)) (\<lambda>canonical.
     Inr \<lparr>sgn_Document = d, sgn_Signature = b64_EncodeToString
       (ed_sign c authority (topology_signingMessage ''nomad-topology-authority-v3'' canonical))\<rparr>))))"

text \<open>A name that is missing from the map of identities reads as an empty key.\<close>

fun attestAll :: "netlib \<Rightarrow> keylib \<Rightarrow> crypto \<Rightarrow> (string \<Rightarrow> bytes) \<Rightarrow> Document \<Rightarrow> Operator list \<Rightarrow> topology_error + Document" where
  "attestAll lib keys c identities attested [] = Inr attested"
| "attestAll lib keys c identities attested (p # ps) =
     andThen (Attest lib keys c attested (op_ID p) (identities (op_ID p))) (\<lambda>attested'.
       attestAll lib keys c identities attested' ps)"

definition topology_Sign ::
    "netlib \<Rightarrow> keylib \<Rightarrow> crypto \<Rightarrow> Document \<Rightarrow> bytes \<Rightarrow> (string \<Rightarrow> bytes) \<Rightarrow> topology_error + SignedTopology" where
  "topology_Sign lib keys c d authority identities =
     andThen (attestAll lib keys c identities d (doc_Operators d)) (\<lambda>attested. Finalize lib keys c attested authority)"

section \<open>Questions to a verified plan\<close>

definition Verified_Operator :: "TopologyVerified \<Rightarrow> u16 \<Rightarrow> topology_error + Operator" where
  "Verified_Operator v index =
     (if unat index \<ge> length (doc_Operators (tv_Document v)) then Inl OperatorIndexOutside
      else let p = doc_Operators (tv_Document v) ! unat index in
        if op_Index p \<noteq> index then Inl OperatorIndexMismatch else Inr p)"

definition OperatorByID :: "TopologyVerified \<Rightarrow> string \<Rightarrow> topology_error + Operator" where
  "OperatorByID v operatorID =
     (case List.find (\<lambda>p. op_ID p = operatorID) (doc_Operators (tv_Document v)) of
        None \<Rightarrow> Inl OperatorNotListed
      | Some p \<Rightarrow> Inr p)"

definition IncomingPeers :: "TopologyVerified \<Rightarrow> u16 \<Rightarrow> Operator list" where
  "IncomingPeers v index = filter (\<lambda>p. index \<in> set (op_PeerPlan p)) (doc_Operators (tv_Document v))"

definition OperatorIdentity :: "Operator \<Rightarrow> topology_error + bytes" where
  "OperatorIdentity p = expect (decodeFixed (op_IdentityKey p) publicKeySize) (OperatorErr IdentityKeyInvalid)"

end
