(* ===== verification/TopologyVerify.thy ===== *)
theory TopologyVerify
  imports Topology
begin

text \<open>
  What acceptance of a network plan means: a verified topology is well formed and strongly connected, carries the
  authority's signature over its canonical bytes and one attestation by every operator, and its digest and its
  attestations determine it. A plan whose operators all sign it verifies.
\<close>

section \<open>Validated operators\<close>

text \<open>An address of the public plan: host and port, and nothing else.\<close>

definition bare_url :: "Url \<Rightarrow> bool" where
  "bare_url u \<longleftrightarrow> url_Hostname u \<noteq> [] \<and> url_Port u \<noteq> [] \<and> \<not> url_User u \<and> url_Path u \<in> {[], ''/''} \<and> url_RawQuery u = [] \<and> url_Fragment u = []"

text \<open>The key ceremony runs over HTTPS, or over HTTP on the machine itself.\<close>

definition operator_ok :: "netlib \<Rightarrow> keylib \<Rightarrow> nat \<Rightarrow> nat \<Rightarrow> Operator \<Rightarrow> bool" where
  "operator_ok lib keys n i p \<longleftrightarrow>
     op_Index p = of_nat i \<and> operatorIDPattern (op_ID p) \<and>
     (\<exists>e. canonicalEndpoint lib (op_Endpoint p) = Inr e) \<and>
     (\<exists>u e. url_Parse lib (op_PartialEndpoint p) = Some u \<and> bare_url u \<and> url_Scheme u \<in> {''http'', ''https''} \<and>
        canonicalURLEndpoint lib (Some u) = Inr e) \<and>
     (\<exists>u e. url_Parse lib (op_DKGEndpoint p) = Some u \<and> bare_url u \<and>
        (url_Scheme u = ''https'' \<or> url_Scheme u = ''http'' \<and> (url_Hostname u = ''localhost'' \<or> ip_IsLoopback lib (url_Hostname u))) \<and>
        canonicalURLEndpoint lib (Some u) = Inr e) \<and>
     (\<exists>k. decodeFixed (op_IdentityKey p) publicKeySize = Some k) \<and>
     (\<exists>k. decodeFixed (op_KEXKey p) kexKeySize = Some k \<and> kex_contributory keys k) \<and>
     (\<exists>k. decodeFixed (op_DKGIdentityKey p) dkgIdentitySize = Some k \<and> dkg_identity_valid keys k) \<and>
     op_PeerPlan p \<noteq> [] \<and> length (op_PeerPlan p) < n \<and> distinct (op_PeerPlan p) \<and> op_Index p \<notin> set (op_PeerPlan p) \<and> peers_within n p"

lemma validatePeers_Inr:
  "validatePeers n self slots qs = Inr () \<longleftrightarrow>
     distinct qs \<and> self \<notin> set qs \<and> (\<forall>q \<in> set qs. unat q < n \<and> q \<notin> set slots)"
  by (induction qs arbitrary: slots) auto

text \<open>The seven things that name an operator, and the table the validator keeps of each.\<close>

abbreviation endpoint_key :: "netlib \<Rightarrow> Operator \<Rightarrow> string" where
  "endpoint_key lib p \<equiv> projr (canonicalEndpoint lib (op_Endpoint p))"

abbreviation partial_key :: "netlib \<Rightarrow> Operator \<Rightarrow> string" where
  "partial_key lib p \<equiv> projr (canonicalURLEndpoint lib (url_Parse lib (op_PartialEndpoint p)))"

abbreviation dkg_key :: "netlib \<Rightarrow> Operator \<Rightarrow> string" where
  "dkg_key lib p \<equiv> projr (canonicalURLEndpoint lib (url_Parse lib (op_DKGEndpoint p)))"

definition namings :: "netlib \<Rightarrow> ((Operator \<Rightarrow> string) \<times> (SeenOperators \<Rightarrow> string list)) list" where
  "namings lib = [(op_ID, seen_ids), (endpoint_key lib, seen_endpoints), (partial_key lib, seen_partial), (dkg_key lib, seen_dkg),
     (op_IdentityKey, seen_identity), (op_KEXKey, seen_kex), (op_DKGIdentityKey, seen_dkg_identity)]"

definition noted :: "netlib \<Rightarrow> SeenOperators \<Rightarrow> Operator \<Rightarrow> SeenOperators" where
  "noted lib seen p = \<lparr>seen_ids = op_ID p # seen_ids seen, seen_endpoints = endpoint_key lib p # seen_endpoints seen,
     seen_partial = partial_key lib p # seen_partial seen, seen_dkg = dkg_key lib p # seen_dkg seen,
     seen_identity = op_IdentityKey p # seen_identity seen, seen_kex = op_KEXKey p # seen_kex seen,
     seen_dkg_identity = op_DKGIdentityKey p # seen_dkg_identity seen\<rparr>"

lemma noted_field: "(key, fld) \<in> set (namings lib) \<Longrightarrow> fld (noted lib seen p) = key p # fld seen"
  by (auto simp: namings_def noted_def)

lemma partial_url: "validPartialURL u \<longleftrightarrow> bare_url u \<and> url_Scheme u \<in> {''http'', ''https''}"
  by (auto simp: validPartialURL_def bare_url_def)

lemma ceremony_url: "validCeremonyURL lib u \<longleftrightarrow> bare_url u \<and>
    (url_Scheme u = ''https'' \<or> url_Scheme u = ''http'' \<and> (url_Hostname u = ''localhost'' \<or> ip_IsLoopback lib (url_Hostname u)))"
  unfolding validCeremonyURL_def bare_url_def by (cases "url_Scheme u = ''http''"; cases "url_Scheme u = ''https''") auto

lemma validateOperator_Inr:
  "validateOperator lib keys n i seen p = Inr seen' \<longleftrightarrow>
     operator_ok lib keys n i p \<and> (\<forall>(key, fld) \<in> set (namings lib). key p \<notin> set (fld seen)) \<and> seen' = noted lib seen p"
  unfolding validateOperator_def guard_simps validatePeers_Inr partial_url ceremony_url operator_ok_def peers_within_def namings_def noted_def
  by (rule iffI) (auto simp: validatePeers_Inr)

lemma validateOperators_iff:
  "validateOperators lib keys n i seen ps = Inr () \<longleftrightarrow>
     (\<forall>k < length ps. operator_ok lib keys n (i + k) (ps ! k)) \<and>
     (\<forall>(key, fld) \<in> set (namings lib). distinct (map key ps) \<and> set (map key ps) \<inter> set (fld seen) = {})"
proof (induction ps arbitrary: i seen)
  case (Cons p ps)
  have heads: "(\<forall>k < length (p # ps). operator_ok lib keys n (i + k) ((p # ps) ! k)) \<longleftrightarrow>
      operator_ok lib keys n i p \<and> (\<forall>k < length ps. operator_ok lib keys n (Suc i + k) (ps ! k))"
    by (auto simp: less_Suc_eq_0_disj)
  have names: "(distinct (map key (p # ps)) \<and> set (map key (p # ps)) \<inter> set (fld seen) = {}) \<longleftrightarrow>
      key p \<notin> set (fld seen) \<and> distinct (map key ps) \<and> set (map key ps) \<inter> set (fld (noted lib seen p)) = {}"
    if "(key, fld) \<in> set (namings lib)" for key fld
    unfolding noted_field [OF that] by auto
  have "validateOperators lib keys n i seen (p # ps) = Inr () \<longleftrightarrow> operator_ok lib keys n i p \<and>
      (\<forall>(key, fld) \<in> set (namings lib). key p \<notin> set (fld seen)) \<and> validateOperators lib keys n (Suc i) (noted lib seen p) ps = Inr ()"
    by (auto simp: guard_simps validateOperator_Inr)
  also have "\<dots> \<longleftrightarrow> (\<forall>k < length (p # ps). operator_ok lib keys n (i + k) ((p # ps) ! k)) \<and>
      (\<forall>(key, fld) \<in> set (namings lib). distinct (map key (p # ps)) \<and> set (map key (p # ps)) \<inter> set (fld seen) = {})"
    unfolding Cons.IH heads using names by fast
  finally show ?case .
qed simp

text \<open>The operators of a valid plan: numbered in order, pairwise different in everything that names them.\<close>

definition operators_ok :: "netlib \<Rightarrow> keylib \<Rightarrow> Operator list \<Rightarrow> bool" where
  "operators_ok lib keys ps \<longleftrightarrow>
     (\<forall>i < length ps. operator_ok lib keys (length ps) i (ps ! i)) \<and>
     distinct (map op_ID ps) \<and> distinct (map op_IdentityKey ps) \<and> distinct (map op_KEXKey ps) \<and> distinct (map op_DKGIdentityKey ps) \<and>
     distinct (map (endpoint_key lib) ps) \<and> distinct (map (partial_key lib) ps) \<and> distinct (map (dkg_key lib) ps)"

lemma validateOperators_ok: "validateOperators lib keys (length ps) 0 none_seen ps = Inr () \<longleftrightarrow> operators_ok lib keys ps"
  by (auto simp: validateOperators_iff operators_ok_def namings_def none_seen_def)

lemma operators_ok_graph:
  assumes "operators_ok lib keys ps" "length ps \<le> 64"
  shows "indexed ps" and "list_all (peers_within (length ps)) ps"
proof -
  have "unat (of_nat i :: u16) = i" if "i < length ps" for i
    using that assms(2) by (simp add: unat_of_nat)
  then show "indexed ps" using assms(1) by (simp add: operators_ok_def operator_ok_def indexed_def)
  show "list_all (peers_within (length ps)) ps"
    using assms(1) by (simp add: operators_ok_def operator_ok_def list_all_length)
qed

section \<open>Validated plans\<close>

definition every_pair_connected :: "Operator list \<Rightarrow> bool" where
  "every_pair_connected ps \<longleftrightarrow> (\<forall>i < length ps. \<forall>j < length ps. (i, j) \<in> (plan_arcs ps)\<^sup>*)"

text \<open>The public traffic class, in plain numbers.\<close>

definition traffic_ok :: "TrafficClass \<Rightarrow> bool" where
  "traffic_ok t \<longleftrightarrow> tc_CellSize t = 1200 \<and> 5 \<le> unat (tc_CellIntervalMillis t) \<and> unat (tc_CellIntervalMillis t) \<le> 60000 \<and>
     unat (tc_CellIntervalMillis t) \<le> unat (tc_MaxLatenessMillis t) \<and> unat (tc_MaxLatenessMillis t) \<le> 10 * unat (tc_CellIntervalMillis t) \<and>
     16 \<le> unat (tc_QueueCapacity t) \<and> unat (tc_QueueCapacity t) \<le> 65536"

text \<open>
  The public schedule: the key ceremony, four phases of one second to ten minutes each, fits into the window of the plan,
  and the window holds the instant.
\<close>

definition schedule_ok :: "Document \<Rightarrow> instant \<Rightarrow> bool" where
  "schedule_ok d now \<longleftrightarrow>
     (\<exists>notBefore notAfter start.
        time_ParseRFC3339 (doc_NotBefore d) = Some notBefore \<and> time_ParseRFC3339 (doc_NotAfter d) = Some notAfter \<and>
        time_ParseRFC3339 (dkg_StartAt (doc_DKG d)) = Some start \<and> notBefore \<le> start \<and> dkg_end start (doc_DKG d) \<le> notAfter \<and>
        (now = time_zero \<or> notBefore \<le> now \<and> now < notAfter)) \<and>
     1000 \<le> unat (dkg_PhaseDurationMillis (doc_DKG d)) \<and> unat (dkg_PhaseDurationMillis (doc_DKG d)) \<le> 600000"

definition plan_ok :: "netlib \<Rightarrow> keylib \<Rightarrow> Document \<Rightarrow> instant \<Rightarrow> bool" where
  "plan_ok lib keys d now \<longleftrightarrow>
     doc_Version d = topology_Version \<and> operatorIDPattern (doc_NetworkID d) \<and> doc_Epoch d \<noteq> 0 \<and> traffic_ok (doc_Traffic d) \<and>
     3 \<le> length (doc_Operators d) \<and> length (doc_Operators d) \<le> 64 \<and>
     2 \<le> unat (dkg_Threshold (doc_DKG d)) \<and> unat (dkg_Threshold (doc_DKG d)) \<le> length (doc_Operators d) \<and>
     (\<exists>session. decodeFixed (dkg_SessionID (doc_DKG d)) 32 = Some session) \<and>
     schedule_ok d now \<and> operators_ok lib keys (doc_Operators d) \<and> every_pair_connected (doc_Operators d)"

lemma validateTraffic_Inr: "validateTraffic t = Inr () \<longleftrightarrow> traffic_ok t"
proof -
  have "unat (10 * tc_CellIntervalMillis t) = 10 * unat (tc_CellIntervalMillis t)" if "unat (tc_CellIntervalMillis t) \<le> 60000"
    using that by (simp add: unat_word_ariths)
  then show ?thesis by (auto simp: validateTraffic_def traffic_ok_def guard_simps topology_CellSize_def word_le_nat_alt)
qed

lemma validateHeader_Inr:
  "validateHeader d now = Inr () \<longleftrightarrow>
     doc_Version d = topology_Version \<and> operatorIDPattern (doc_NetworkID d) \<and> doc_Epoch d \<noteq> 0 \<and> traffic_ok (doc_Traffic d) \<and>
     3 \<le> length (doc_Operators d) \<and> length (doc_Operators d) \<le> 64 \<and>
     2 \<le> unat (dkg_Threshold (doc_DKG d)) \<and> unat (dkg_Threshold (doc_DKG d)) \<le> length (doc_Operators d) \<and>
     (\<exists>session. decodeFixed (dkg_SessionID (doc_DKG d)) 32 = Some session) \<and> schedule_ok d now"
proof -
  have span: "notBefore < notAfter"
    if "1000 \<le> unat (dkg_PhaseDurationMillis (doc_DKG d))" "notBefore \<le> start" "dkg_end start (doc_DKG d) \<le> notAfter" for notBefore start notAfter
    using that unfolding dkg_end_def millisecond_def by linarith
  have words: "2 \<le> dkg_Threshold (doc_DKG d) \<longleftrightarrow> 2 \<le> unat (dkg_Threshold (doc_DKG d))"
    "1000 \<le> dkg_PhaseDurationMillis (doc_DKG d) \<longleftrightarrow> 1000 \<le> unat (dkg_PhaseDurationMillis (doc_DKG d))"
    "dkg_PhaseDurationMillis (doc_DKG d) \<le> 600000 \<longleftrightarrow> unat (dkg_PhaseDurationMillis (doc_DKG d)) \<le> 600000"
    by (simp_all add: word_le_nat_alt)
  show ?thesis
    unfolding validateHeader_def validateDKG_def Let_def guard_simps validateTraffic_Inr words schedule_ok_def
    by (rule iffI) (auto simp: validateTraffic_Inr intro: span)
qed

lemma validateDocument_ok: "validateDocument lib keys d now = Inr () \<longleftrightarrow> plan_ok lib keys d now"
proof -
  let ?ps = "doc_Operators d"
  have conn: "validateConnected d = Inr () \<longleftrightarrow> every_pair_connected ?ps"
    if "validateHeader d now = Inr ()" "operators_ok lib keys ?ps"
  proof -
    have size: "?ps \<noteq> []" "length ?ps \<le> 64" using that(1) by (auto simp: validateHeader_Inr)
    from validateStrongConnectivity_iff [OF operators_ok_graph [OF that(2) size(2)] size(1)] show ?thesis
      by (auto simp: validateConnected_def every_pair_connected_def split: option.splits bool.splits)
  qed
  have "validateDocument lib keys d now = Inr () \<longleftrightarrow> validateHeader d now = Inr () \<and> operators_ok lib keys ?ps \<and> validateConnected d = Inr ()"
    by (auto simp: validateDocument_def guard_simps validateOperators_ok)
  also have "\<dots> \<longleftrightarrow> validateHeader d now = Inr () \<and> operators_ok lib keys ?ps \<and> every_pair_connected ?ps" using conn by blast
  finally show ?thesis by (auto simp: plan_ok_def validateHeader_Inr)
qed

text \<open>The validator never indexes outside a slice.\<close>

lemma validateDocument_no_panic: "validateDocument lib keys d now \<noteq> Inl IndexPanic"
proof
  let ?ps = "doc_Operators d"
  assume panic: "validateDocument lib keys d now = Inl IndexPanic"
  have h: "validateHeader d now = Inr ()" "validateOperators lib keys (length ?ps) 0 none_seen ?ps = Inr ()"
    using panic by (cases "validateHeader d now"; cases "validateOperators lib keys (length ?ps) 0 none_seen ?ps";
        simp add: validateDocument_def)+
  with panic have conn: "validateStrongConnectivity d = None"
    by (simp add: validateDocument_def validateConnected_def split: option.splits bool.splits)
  have size: "?ps \<noteq> []" "length ?ps \<le> 64" using h(1) by (auto simp: validateHeader_Inr)
  note graph = operators_ok_graph [OF h(2) [unfolded validateOperators_ok] size(2)]
  with validateStrongConnectivity_iff [OF graph size(1)] conn show False by auto
qed

section \<open>Accepted plans\<close>

text \<open>Every operator's key has signed the attestation message of that operator for this plan.\<close>

definition attested_by_all :: "crypto \<Rightarrow> Document \<Rightarrow> Operator list \<Rightarrow> bool" where
  "attested_by_all c d ps \<longleftrightarrow>
     (\<forall>p \<in> set ps. \<exists>key message attestation.
        decodeFixed (op_IdentityKey p) publicKeySize = Some key \<and> operatorSigningMessage d (op_ID p) = Inr message \<and>
        decodeFixed (op_Attestation p) signatureSize = Some attestation \<and> ed_verify c key message attestation)"

lemma verifyOperators_Inr: "verifyOperators c d ps = Inr () \<longleftrightarrow> attested_by_all c d ps"
  by (induction ps) (auto simp: guard_simps attested_by_all_def)

lemma topology_Verify_returns: "\<exists>r. topology_Verify lib keys c tokens decode encoded authority now = Some r"
  using live_RejectDuplicateKeys_returns [of tokens encoded] by (auto simp: topology_Verify_def)

lemma topology_Verify_Inr:
  "topology_Verify lib keys c tokens decode encoded authority now = Some (Inr v) \<longleftrightarrow>
     encoded \<noteq> [] \<and> length encoded \<le> topology_MaximumFileBytes \<and> length authority = publicKeySize \<and>
     live_RejectDuplicateKeys tokens encoded = Some (Inr ()) \<and>
     (\<exists>signed canonical signature.
        decode encoded = Some (signed, False) \<and> tv_Document v = sgn_Document signed \<and>
        validateDocument lib keys (sgn_Document signed) now = Inr () \<and> canonicalDocument (sgn_Document signed) = Inr canonical \<and>
        decodeFixed (sgn_Signature signed) signatureSize = Some signature \<and>
        ed_verify c authority (topology_signingMessage ''nomad-topology-authority-v3'' canonical) signature \<and>
        verifyAttestations c (sgn_Document signed) = Inr () \<and>
        tv_Digest v = sha256 c (topology_signingMessage ''nomad-topology-digest-v3'' canonical))"
  by (cases v) (auto simp: topology_Verify_def guard_simps)

lemma guard_Inl:
  "andThen r f = Inl e \<longleftrightarrow> r = Inl e \<or> (\<exists>x. r = Inr x \<and> f x = Inl e)"
  "require b e = Inl e' \<longleftrightarrow> \<not> b \<and> e' = e" "expect x e = Inl e' \<longleftrightarrow> x = None \<and> e' = e"
  "map_sum g id q = Inl e' \<longleftrightarrow> (\<exists>x. q = Inl x \<and> e' = g x)"
  subgoal by (cases r) auto
  subgoal by (cases b) auto
  subgoal by (cases x) auto
  subgoal by (cases q) auto
  done

lemma topology_Verify_no_panic: "topology_Verify lib keys c tokens decode encoded authority now \<noteq> Some (Inl IndexPanic)"
proof -
  have "verifyOperators c d ps \<noteq> Inl IndexPanic" for d ps
    by (induction ps) (auto simp: guard_Inl)
  with validateDocument_no_panic show ?thesis
    by (auto simp: topology_Verify_def verifyAttestations_def guard_Inl split: if_splits)
qed

section \<open>Signing\<close>

text \<open>Attestations play no part in validation nor in what is attested.\<close>

abbreviation blank :: "Operator \<Rightarrow> Operator" where "blank p \<equiv> p\<lparr>op_Attestation := []\<rparr>"

lemma validateOperators_blank: "validateOperators lib keys n i seen (map blank ps) = validateOperators lib keys n i seen ps"
proof (induction ps arbitrary: i seen)
  case (Cons p ps)
  have "validateOperator lib keys n i seen (blank p) = validateOperator lib keys n i seen p"
    by (simp add: validateOperator_def)
  with Cons.IH show ?case by simp
qed simp

lemma buildGraphs_blank: "buildGraphs f r (map blank ps) = buildGraphs f r ps"
  by (induction ps arbitrary: f r) (simp_all split: option.split)

lemma validateDocument_blank: "validateDocument lib keys (blank_attestations d) now = validateDocument lib keys d now"
proof -
  have "validateHeader (blank_attestations d) now = validateHeader d now"
    by (simp add: validateHeader_def blank_attestations_def)
  moreover have "validateConnected (blank_attestations d) = validateConnected d"
    by (simp add: validateConnected_def validateStrongConnectivity_def blank_attestations_def buildGraphs_blank)
  ultimately show ?thesis
    unfolding validateDocument_def by (simp add: blank_attestations_def validateOperators_blank)
qed

lemma same_plan:
  assumes "blank_attestations d = blank_attestations e"
  shows "validateDocument lib keys d now = validateDocument lib keys e now"
    and "operatorSigningMessage d i = operatorSigningMessage e i"
    and "length (doc_Operators d) = length (doc_Operators e)"
    and "k < length (doc_Operators e) \<Longrightarrow> blank (doc_Operators d ! k) = blank (doc_Operators e ! k)"
proof -
  show "validateDocument lib keys d now = validateDocument lib keys e now"
    by (metis assms validateDocument_blank)
  show "operatorSigningMessage d i = operatorSigningMessage e i"
    by (simp add: operatorSigningMessage_def assms)
  have eq: "map blank (doc_Operators d) = map blank (doc_Operators e)"
    using arg_cong [OF assms, of doc_Operators] by (simp add: blank_attestations_def)
  then show len: "length (doc_Operators d) = length (doc_Operators e)" by (metis length_map)
  show "blank (doc_Operators d ! k) = blank (doc_Operators e ! k)" if "k < length (doc_Operators e)"
    using arg_cong [OF eq, of "\<lambda>xs. xs ! k"] that len by simp
qed

lemma blank_fields: "blank p = blank q \<Longrightarrow> op_ID p = op_ID q \<and> op_IdentityKey p = op_IdentityKey q"
  by (metis Operator.select_convs(1,6) Operator.surjective Operator.update_convs(10))

lemma indexOf_distinct: "distinct (map op_ID ps) \<Longrightarrow> k < length ps \<Longrightarrow> indexOf (op_ID (ps ! k)) ps = Some k"
proof (induction ps arbitrary: k)
  case (Cons p ps)
  show ?case
  proof (cases k)
    case (Suc j)
    with Cons.prems have "op_ID (ps ! j) \<in> op_ID ` set ps" by simp
    with Cons.prems have "op_ID p \<noteq> op_ID (ps ! j)" by auto
    with Suc Cons show ?thesis by simp
  qed simp
qed simp

definition attested_at :: "crypto \<Rightarrow> Document \<Rightarrow> nat \<Rightarrow> bool" where
  "attested_at c d i \<longleftrightarrow> attested_by_all c d [doc_Operators d ! i]"

lemma b64_ascii: "utf8_ValidString (b64_EncodeToString bs)"
proof (rule ascii_name)
  show "list_all (\<lambda>ch. of_char ch < (128 :: nat)) (b64_EncodeToString bs)"
    using alphabet_chars [of bs] by (auto simp: list_all_iff isBase64Alphabet_def Let_def)
qed

text \<open>What an honest operator holds: the private key of the identity it is listed with.\<close>

definition holds_identities :: "crypto \<Rightarrow> (string \<Rightarrow> bytes) \<Rightarrow> Document \<Rightarrow> bool" where
  "holds_identities c identities d \<longleftrightarrow>
     (\<forall>p \<in> set (doc_Operators d). length (identities (op_ID p)) = privateKeySize \<and>
        decodeFixed (op_IdentityKey p) publicKeySize = Some (ed_public c (identities (op_ID p))))"

lemma Attest_step:
  assumes sign: "sign_ok c" and valid: "validateDocument lib keys d time_zero = Inr ()" and text_d: "document_text_ok d"
    and holds: "holds_identities c identities d" and k: "k < length (doc_Operators d)"
    and same: "blank_attestations d' = blank_attestations d" and text_e: "document_text_ok d'"
  shows "\<exists>d''. Attest lib keys c d' (op_ID (doc_Operators d ! k)) (identities (op_ID (doc_Operators d ! k))) = Inr d'' \<and>
    blank_attestations d'' = blank_attestations d \<and> document_text_ok d'' \<and> attested_at c d'' k \<and>
    (\<forall>i. i \<noteq> k \<and> attested_at c d' i \<longrightarrow> attested_at c d'' i)"
proof -
  let ?p = "doc_Operators d ! k" and ?q = "doc_Operators d' ! k"
  let ?sk = "identities (op_ID ?p)"
  note plan = same_plan [OF same]
  have q: "op_ID ?q = op_ID ?p" "op_IdentityKey ?q = op_IdentityKey ?p"
    using blank_fields [OF plan(4) [OF k]] by simp_all
  have valid': "validateDocument lib keys d' time_zero = Inr ()" using plan(1) valid by simp
  then have "distinct (map op_ID (doc_Operators d'))"
    using validateDocument_ok by (simp add: plan_ok_def operators_ok_def)
  then have ix: "indexOf (op_ID ?p) (doc_Operators d') = Some k"
    using indexOf_distinct [of "doc_Operators d'" k] k plan(3) q by simp
  have sk: "length ?sk = privateKeySize" "decodeFixed (op_IdentityKey ?p) publicKeySize = Some (ed_public c ?sk)"
    using holds k by (auto simp: holds_identities_def)
  have "utf8_ValidString (op_ID ?p)" using text_d k by (simp add: text_ok_defs list_all_iff)
  with operatorSigningMessage_total [OF text_d] obtain m where m: "operatorSigningMessage d (op_ID ?p) = Inr m" by blast
  let ?sig = "ed_sign c ?sk m"
  let ?q' = "?q\<lparr>op_Attestation := b64_EncodeToString ?sig\<rparr>"
  let ?d'' = "d'\<lparr>doc_Operators := (doc_Operators d')[k := ?q']\<rparr>"
  have sig: "length ?sig = signatureSize" "ed_verify c (ed_public c ?sk) m ?sig"
    using sign sk(1) by (simp_all add: sign_ok_def)
  have k': "k < length (doc_Operators d')" using k plan(3) by simp
  have res: "Attest lib keys c d' (op_ID ?p) ?sk = Inr ?d''"
    using sk valid' ix q m plan(2) by (simp add: Attest_def Let_def)
  have "map blank (doc_Operators ?d'') = map blank (doc_Operators d')"
    using k' by (simp add: map_update) (metis (no_types, lifting) Operator.fold_congs(10) Operator.update_convs(10) list_update_id nth_map Operator.surjective)
  then have same'': "blank_attestations ?d'' = blank_attestations d'" by (simp add: blank_attestations_def)
  have text_new: "document_text_ok ?d''"
  proof -
    have "operator_text_ok ?q'" using text_e k' b64_ascii by (simp add: text_ok_defs list_all_iff)
    with text_e set_update_subset_insert [of "doc_Operators d'" k ?q'] show ?thesis
      by (auto simp: document_text_ok_def list_all_iff)
  qed
  have msg'': "operatorSigningMessage ?d'' = operatorSigningMessage d"
    using same_plan(2) [OF same''] plan(2) by (intro ext) simp
  have "attested_at c ?d'' k"
    using k' q m sk sig by (simp add: attested_at_def attested_by_all_def msg'' decodeFixed_encode)
  moreover have "attested_at c ?d'' i" if "i \<noteq> k" "attested_at c d' i" for i
    using that plan(2) by (simp add: attested_at_def attested_by_all_def msg'')
  ultimately show ?thesis using res same same'' text_new by auto
qed

lemma attestAll_ok:
  assumes "sign_ok c" "validateDocument lib keys d time_zero = Inr ()" "document_text_ok d" "holds_identities c identities d"
  shows "blank_attestations d' = blank_attestations d \<Longrightarrow> document_text_ok d' \<Longrightarrow> \<forall>i < k. attested_at c d' i \<Longrightarrow>
    k \<le> length (doc_Operators d) \<Longrightarrow>
    \<exists>d''. attestAll lib keys c identities d' (drop k (doc_Operators d)) = Inr d'' \<and> blank_attestations d'' = blank_attestations d \<and>
      document_text_ok d'' \<and> (\<forall>i < length (doc_Operators d). attested_at c d'' i)"
proof (induction "length (doc_Operators d) - k" arbitrary: k d')
  case 0
  then show ?case by auto
next
  case (Suc n)
  then have k: "k < length (doc_Operators d)" by simp
  then have "drop k (doc_Operators d) = doc_Operators d ! k # drop (Suc k) (doc_Operators d)" by (simp add: Cons_nth_drop_Suc)
  moreover obtain e where e: "Attest lib keys c d' (op_ID (doc_Operators d ! k)) (identities (op_ID (doc_Operators d ! k))) = Inr e"
      "blank_attestations e = blank_attestations d" "document_text_ok e" "attested_at c e k"
      "\<forall>i. i \<noteq> k \<and> attested_at c d' i \<longrightarrow> attested_at c e i"
    using Attest_step [OF assms k Suc.prems(1,2)] by blast
  moreover have "\<forall>i < Suc k. attested_at c e i" using e(4,5) Suc.prems(3) by (auto simp: less_Suc_eq)
  ultimately show ?case using Suc.hyps(1) [of "Suc k" e] Suc.hyps(2) k by auto
qed

text \<open>Everything that is checked of a signed plan holds of one its operators and authority made.\<close>

lemma topology_Sign_ok:
  assumes "sign_ok c" "validateDocument lib keys d time_zero = Inr ()" "document_text_ok d" "holds_identities c identities d"
    "length authority = privateKeySize"
  shows "\<exists>e canonical. topology_Sign lib keys c d authority identities =
        Inr \<lparr>sgn_Document = e, sgn_Signature = b64_EncodeToString
          (ed_sign c authority (topology_signingMessage ''nomad-topology-authority-v3'' canonical))\<rparr> \<and>
      blank_attestations e = blank_attestations d \<and> document_text_ok e \<and> canonicalDocument e = Inr canonical \<and>
      verifyAttestations c e = Inr ()"
proof -
  obtain e where e: "attestAll lib keys c identities d (doc_Operators d) = Inr e" "blank_attestations e = blank_attestations d"
      "document_text_ok e" "\<forall>i < length (doc_Operators d). attested_at c e i"
    using attestAll_ok [OF assms(1-4), of d 0] assms(3) by auto
  note plan = same_plan [OF e(2)]
  have "attested_by_all c e (doc_Operators e)"
    using e(4) plan(3) by (fastforce simp: attested_at_def attested_by_all_def in_set_conv_nth)
  then have att: "verifyAttestations c e = Inr ()"
    by (simp add: verifyAttestations_def verifyOperators_Inr)
  obtain canonical where "canonicalDocument e = Inr canonical" using canonicalDocument_total [OF e(3)] by blast
  with e att assms(2,5) plan(1) show ?thesis by (simp add: topology_Sign_def Finalize_def)
qed

lemma signed_topology_verifies:
  assumes "sign_ok c" "validateDocument lib keys d time_zero = Inr ()" "document_text_ok d" "holds_identities c identities d"
    "length authority = privateKeySize" "topology_Sign lib keys c d authority identities = Inr st"
    "encoded \<noteq> []" "length encoded \<le> topology_MaximumFileBytes" "live_RejectDuplicateKeys tokens encoded = Some (Inr ())"
    "decode encoded = Some (st, False)" "validateDocument lib keys d now = Inr ()"
  shows "\<exists>v. topology_Verify lib keys c tokens decode encoded (ed_public c authority) now = Some (Inr v) \<and>
    tv_Document v = sgn_Document st \<and> blank_attestations (tv_Document v) = blank_attestations d \<and> document_text_ok (tv_Document v)"
proof -
  obtain e canonical where e: "st = \<lparr>sgn_Document = e, sgn_Signature = b64_EncodeToString
          (ed_sign c authority (topology_signingMessage ''nomad-topology-authority-v3'' canonical))\<rparr>"
      "blank_attestations e = blank_attestations d" "document_text_ok e" "canonicalDocument e = Inr canonical" "verifyAttestations c e = Inr ()"
    using topology_Sign_ok [OF assms(1-5)] assms(6) by auto
  have sig: "length (ed_public c authority) = publicKeySize"
      "length (ed_sign c authority m) = signatureSize" "ed_verify c (ed_public c authority) m (ed_sign c authority m)" for m
    using assms(1,5) by (simp_all add: sign_ok_def)
  let ?v = "\<lparr>tv_Document = e, tv_Digest = sha256 c (topology_signingMessage ''nomad-topology-digest-v3'' canonical)\<rparr>"
  have "topology_Verify lib keys c tokens decode encoded (ed_public c authority) now = Some (Inr ?v)"
    unfolding topology_Verify_Inr
    using assms(7-11) e sig same_plan(1) [OF e(2)] by (auto simp: decodeFixed_encode)
  with e show ?thesis by auto
qed

section \<open>A network of three\<close>

definition sample_netlib :: netlib where
  "sample_netlib = \<lparr>netip_ParseAddr = (\<lambda>_. None), addr_String = (\<lambda>_. []),
     url_Parse = (\<lambda>s. if take 8 s = ''https://'' then
       map_option (\<lambda>(h, p). \<lparr>url_Scheme = ''https'', url_Hostname = h, url_Port = p, url_User = False, url_Path = [],
         url_RawQuery = [], url_Fragment = []\<rparr>) (SplitHostPort (drop 8 s)) else None),
     ip_IsLoopback = (\<lambda>_. False)\<rparr>"

definition sample_keylib :: keylib where
  "sample_keylib = \<lparr>kex_contributory = (\<lambda>k. k \<noteq> replicate 32 0), dkg_identity_valid = (\<lambda>k. length k = 32)\<rparr>"

definition sample_operator :: "nat \<Rightarrow> string \<Rightarrow> u16 \<Rightarrow> Operator" where
  "sample_operator i name peer =
     \<lparr>op_ID = name, op_Index = of_nat i, op_Endpoint = name @ ''.example:4000'', op_PartialEndpoint = ''https://'' @ name @ ''.example:443'',
      op_DKGEndpoint = ''https://'' @ name @ ''.example:8443'', op_IdentityKey = b64_EncodeToString (replicate 32 (of_nat i)),
      op_KEXKey = b64_EncodeToString (replicate 32 (of_nat i + 10)), op_DKGIdentityKey = b64_EncodeToString (replicate 32 (of_nat i + 20)),
      op_PeerPlan = [peer], op_Attestation = []\<rparr>"

definition sample_plan :: Document where
  "sample_plan =
     \<lparr>doc_Version = topology_Version, doc_NetworkID = ''net'', doc_Epoch = 7, doc_NotBefore = ''2026-01-01T00:00:00Z'',
      doc_NotAfter = ''2026-02-01T01:30:00.5+01:00'',
      doc_Traffic = \<lparr>tc_CellSize = 1200, tc_CellIntervalMillis = 20, tc_MaxLatenessMillis = 40, tc_QueueCapacity = 64\<rparr>,
      doc_DKG = \<lparr>dkg_Threshold = 2, dkg_SessionID = b64_EncodeToString (replicate 32 9), dkg_StartAt = ''2026-01-02T00:00:00Z'',
        dkg_PhaseDurationMillis = 1000\<rparr>,
      doc_Operators = [sample_operator 0 ''a'' 1, sample_operator 1 ''b'' 2, sample_operator 2 ''c'' 0]\<rparr>"

definition sample_identity :: "string \<Rightarrow> bytes" where
  "sample_identity name = replicate 64 (if name = ''a'' then 0 else if name = ''b'' then 1 else 2)"

lemmas sample_defs = sample_netlib_def sample_keylib_def sample_operator_def sample_plan_def sample_identity_def

lemmas header_eval = validateHeader_def validateTraffic_def validateDKG_def operatorIDPattern_def id_char_def topology_Version_def
  topology_CellSize_def decodeFixed_encode dkg_end_def millisecond_def time_ParseRFC3339_def read4_def read2_def dec_val_def
  getnum_def skip_char_def fraction_def zone_offset_def is_digit_def dec_number_def civil_ok_def month_days_def leap_def
  of_civil_def year_start_def month_start_def second_def

lemmas operator_eval = validateOperator_def canonicalEndpoint_def SplitHostPort_def last_index_def ParseUint_def is_digit_def dec_val_def
  dec_number_def canonicalHost_def canonicalHostname_def trim_dot_def allDigits_def dec_str.simps dec_digit_def decodeFixed_encode
  none_seen_def operatorIDPattern_def id_char_def canonicalURLEndpoint_def JoinHostPort_def validPartialURL_def validCeremonyURL_def
  publicKeySize_def kexKeySize_def dkgIdentitySize_def

lemma sample_header: "validateHeader sample_plan time_zero = Inr ()"
  by (simp add: header_eval sample_plan_def)

lemma sample_operators: "validateOperators sample_netlib sample_keylib 3 0 none_seen (doc_Operators sample_plan) = Inr ()"
  by (simp add: operator_eval sample_defs field64.enc_eq_iff)

lemma sample_connected: "validateConnected sample_plan = Inr ()"
proof -
  let ?E = "plan_arcs (doc_Operators sample_plan)"
  have arc: "p \<in> set ps \<Longrightarrow> q \<in> set (op_PeerPlan p) \<Longrightarrow> (unat (op_Index p), unat q) \<in> plan_arcs ps" for p q ps
    by (auto simp: plan_arcs_def)
  have len: "length (doc_Operators sample_plan) = 3" by (simp add: sample_plan_def)
  have idx: "indexed (doc_Operators sample_plan)"
    by (auto simp: indexed_def sample_plan_def sample_operator_def less_Suc_eq numeral_3_eq_3)
  have "list_all (peers_within (length (doc_Operators sample_plan))) (doc_Operators sample_plan)" "doc_Operators sample_plan \<noteq> []"
    by (simp_all add: peers_within_def sample_plan_def sample_operator_def)
  from validateStrongConnectivity_iff [OF idx this] obtain b where b: "validateStrongConnectivity sample_plan = Some b"
      "b \<longleftrightarrow> (\<forall>i < 3. \<forall>j < 3. (i, j) \<in> ?E\<^sup>*)"
    unfolding len by blast
  have "(0, 1) \<in> ?E" "(1, 2) \<in> ?E" "(2, 0) \<in> ?E"
    using arc [of "sample_operator 0 ''a'' 1" "doc_Operators sample_plan" 1] arc [of "sample_operator 1 ''b'' 2" "doc_Operators sample_plan" 2]
      arc [of "sample_operator 2 ''c'' 0" "doc_Operators sample_plan" 0]
    by (simp_all add: sample_plan_def sample_operator_def)
  then have "(0, 1) \<in> ?E\<^sup>*" "(1, 2) \<in> ?E\<^sup>*" "(2, 0) \<in> ?E\<^sup>*" by auto
  then have "(i, j) \<in> ?E\<^sup>*" if "i \<in> {0, 1, 2}" "j \<in> {0, 1, 2}" for i j
    using that by (auto intro: rtrancl_trans)
  moreover have "i \<in> {0, 1, 2}" if "i < 3" for i :: nat using that by auto
  ultimately show ?thesis using b by (simp add: validateConnected_def)
qed

lemma sample_plan_valid: "validateDocument sample_netlib sample_keylib sample_plan time_zero = Inr ()"
proof -
  have "length (doc_Operators sample_plan) = 3" by (simp add: sample_plan_def)
  then show ?thesis
    using sample_header sample_operators sample_connected by (simp add: validateDocument_def)
qed

lemma sample_plan_text: "document_text_ok sample_plan"
  by (simp add: text_ok_defs sample_defs ascii_name b64_ascii topology_Version_def)

lemma sample_identities: "holds_identities sample_crypto sample_identity sample_plan"
  by (simp add: holds_identities_def sample_plan_def sample_operator_def sample_identity_def sample_crypto_def decodeFixed_encode
      publicKeySize_def privateKeySize_def)

text \<open>The plan, signed by its three operators and an authority, and its reader.\<close>

definition sample_authority :: bytes where "sample_authority = replicate 64 5"

definition sample_signed_plan :: SignedTopology where
  "sample_signed_plan = projr (topology_Sign sample_netlib sample_keylib sample_crypto sample_plan sample_authority sample_identity)"

definition sample_reader :: "bytes \<Rightarrow> (SignedTopology \<times> bool) option" where
  "sample_reader bs = (if bs = [1] then Some (sample_signed_plan, False) else None)"

lemma sample_topology_verifies:
  "\<exists>v. topology_Verify sample_netlib sample_keylib sample_crypto (\<lambda>_. [JScalar]) sample_reader [1] (replicate 32 5) time_zero = Some (Inr v) \<and>
     document_text_ok (tv_Document v) \<and> blank_attestations (tv_Document v) = blank_attestations sample_plan"
proof -
  note ok = sample_sign_ok sample_plan_valid sample_plan_text sample_identities
  have len: "length sample_authority = privateKeySize" by (simp add: sample_authority_def privateKeySize_def)
  have "topology_Sign sample_netlib sample_keylib sample_crypto sample_plan sample_authority sample_identity = Inr sample_signed_plan"
    using topology_Sign_ok [OF ok len] by (auto simp: sample_signed_plan_def)
  moreover have "live_RejectDuplicateKeys (\<lambda>_. [JScalar]) [1] = Some (Inr ())" by code_simp
  moreover have "ed_public sample_crypto sample_authority = replicate 32 5"
    by (simp add: sample_crypto_def sample_authority_def)
  ultimately show ?thesis
    using signed_topology_verifies [OF ok len, of sample_signed_plan "[1]" "\<lambda>_. [JScalar]" sample_reader time_zero] sample_plan_valid
    by (auto simp: sample_reader_def topology_MaximumFileBytes_def)
qed

section \<open>What acceptance means\<close>

lemma domains_differ:
  "topology_signingMessage ''nomad-operator-attestation-v3'' x \<noteq> topology_signingMessage ''nomad-topology-authority-v3'' y"
proof -
  have "topology_signingMessage domain x = bytes_of (domain @ x)" for domain x
    by (simp add: topology_signingMessage_def bytes_of_def)
  then show ?thesis by (simp only: bytes_of_inj) simp
qed

text \<open>
  C23: A network plan is accepted only if it is well formed and agreed on. When \<^verbatim>\<open>Verify\<close> returns a topology, the plan obeys
  every public rule, the authority's key has signed its canonical bytes, and every operator's own key has signed the
  attestation message of the very plan. The public rules are all that \<^verbatim>\<open>validateDocument\<close> checks, no more and no less: version,
  network name and epoch; the traffic class within its ranges; three to 64 operators, numbered in order, each with valid UDP, partial
  and ceremony endpoints and keys, pairwise different in name, endpoints and keys; peer plans that name other operators once each and
  connect every operator to every other; a threshold between two and the number of operators and a ceremony with
  a session identifier that fits into the window of the plan, which holds the given instant. \<^verbatim>\<open>Verify\<close> always returns, and
  never indexes outside the operators.
\<close>

theorem verified_topology_is_agreed:
  assumes "topology_Verify lib keys c tokens decode encoded authority now = Some (Inr v)"
  shows "plan_ok lib keys (tv_Document v) now \<and> attested_by_all c (tv_Document v) (doc_Operators (tv_Document v)) \<and>
    (\<exists>canonical signature. canonicalDocument (tv_Document v) = Inr canonical \<and>
       ed_verify c authority (topology_signingMessage ''nomad-topology-authority-v3'' canonical) signature \<and>
       tv_Digest v = sha256 c (topology_signingMessage ''nomad-topology-digest-v3'' canonical)) \<and>
    (validateDocument lib keys d later = Inr () \<longleftrightarrow> plan_ok lib keys d later) \<and>
    (\<exists>r. topology_Verify lib keys c tokens decode other authority now = Some r \<and> r \<noteq> Inl IndexPanic)"
proof -
  have "\<exists>r. topology_Verify lib keys c tokens decode other authority now = Some r \<and> r \<noteq> Inl IndexPanic"
    using topology_Verify_returns topology_Verify_no_panic by metis
  then show ?thesis
    using assms validateDocument_ok unfolding topology_Verify_Inr verifyAttestations_def verifyOperators_Inr by auto
qed

theorem verified_topology_is_agreed_witness:
  "\<exists>v :: TopologyVerified. plan_ok sample_netlib sample_keylib (tv_Document v) time_zero \<and>
    attested_by_all sample_crypto (tv_Document v) (doc_Operators (tv_Document v)) \<and> doc_Epoch (tv_Document v) = 7"
proof -
  obtain v where v: "topology_Verify sample_netlib sample_keylib sample_crypto (\<lambda>_. [JScalar]) sample_reader [1] (replicate 32 5) time_zero = Some (Inr v)"
      "blank_attestations (tv_Document v) = blank_attestations sample_plan"
    using sample_topology_verifies by blast
  from arg_cong [OF v(2), of doc_Epoch] have "doc_Epoch (tv_Document v) = 7"
    by (simp add: blank_attestations_def sample_plan_def)
  with verified_topology_is_agreed [OF v(1)] show ?thesis by (intro exI [of _ v]) simp
qed

text \<open>
  Signatures and digests of a network plan bind the plan. Two accepted topologies with the same digest are the
  same document, or their two digest messages are a SHA-256 collision. One attestation message is that of one operator
  and of one plan, attestations apart, so a signature cannot be carried over to another operator or another plan;
  and no attestation message is a message the authority signs.
\<close>

theorem topology_signatures_bind:
  assumes "topology_Verify lib keys c tokens decode enc1 authority now1 = Some (Inr v)"
    and "topology_Verify lib keys c tokens decode enc2 authority now2 = Some (Inr w)"
    and "document_text_ok (tv_Document v)" "document_text_ok (tv_Document w)"
  shows "(tv_Digest v = tv_Digest w \<longrightarrow> tv_Document v = tv_Document w \<or>
       collides (sha256 c) (map (\<lambda>d. topology_signingMessage ''nomad-topology-digest-v3'' (projr (canonicalDocument d)))
         [tv_Document v, tv_Document w])) \<and>
    (\<forall>p \<in> set (doc_Operators (tv_Document v)). \<forall>q \<in> set (doc_Operators (tv_Document w)).
       operatorSigningMessage (tv_Document v) (op_ID p) = operatorSigningMessage (tv_Document w) (op_ID q) \<longrightarrow>
       op_ID p = op_ID q \<and> blank_attestations (tv_Document v) = blank_attestations (tv_Document w)) \<and>
    (\<forall>i s. operatorSigningMessage (tv_Document v) i \<noteq> Inr (topology_signingMessage ''nomad-topology-authority-v3'' s))"
proof (intro conjI impI ballI allI)
  obtain s t where s: "canonicalDocument (tv_Document v) = Inr s" "tv_Digest v = sha256 c (topology_signingMessage ''nomad-topology-digest-v3'' s)"
    and t: "canonicalDocument (tv_Document w) = Inr t" "tv_Digest w = sha256 c (topology_signingMessage ''nomad-topology-digest-v3'' t)"
    using assms(1,2) unfolding topology_Verify_Inr by auto
  assume "tv_Digest v = tv_Digest w"
  with s t canonicalDocument_inj [OF assms(3,4)] show "tv_Document v = tv_Document w \<or>
       collides (sha256 c) (map (\<lambda>d. topology_signingMessage ''nomad-topology-digest-v3'' (projr (canonicalDocument d)))
         [tv_Document v, tv_Document w])"
    by (cases "s = t") (auto simp: collides_def topology_signingMessage_def)
next
  fix p q
  assume pq: "p \<in> set (doc_Operators (tv_Document v))" "q \<in> set (doc_Operators (tv_Document w))"
    and eq: "operatorSigningMessage (tv_Document v) (op_ID p) = operatorSigningMessage (tv_Document w) (op_ID q)"
  have ids: "utf8_ValidString (op_ID p)" "utf8_ValidString (op_ID q)"
    using assms(3,4) pq by (auto simp: text_ok_defs list_all_iff)
  with operatorSigningMessage_total [OF assms(3)] obtain m where m: "operatorSigningMessage (tv_Document v) (op_ID p) = Inr m" by blast
  have "op_ID p = op_ID q \<and> blank_attestations (tv_Document v) = blank_attestations (tv_Document w)"
    by (rule operatorSigningMessage_inj [OF assms(3,4) ids m]) (use m eq in simp)
  then show "op_ID p = op_ID q" and "blank_attestations (tv_Document v) = blank_attestations (tv_Document w)" by blast+
next
  show "operatorSigningMessage (tv_Document v) i \<noteq> Inr (topology_signingMessage ''nomad-topology-authority-v3'' s)" for i s
  proof
    assume "operatorSigningMessage (tv_Document v) i = Inr (topology_signingMessage ''nomad-topology-authority-v3'' s)"
    then obtain x where "topology_signingMessage ''nomad-operator-attestation-v3'' x = topology_signingMessage ''nomad-topology-authority-v3'' s"
      unfolding operatorSigningMessage_def andThen_Inr by auto
    with domains_differ show False by blast
  qed
qed

theorem topology_signatures_bind_witness:
  "\<exists>v :: TopologyVerified. (\<forall>p \<in> set (doc_Operators (tv_Document v)). \<forall>q \<in> set (doc_Operators (tv_Document v)).
       operatorSigningMessage (tv_Document v) (op_ID p) = operatorSigningMessage (tv_Document v) (op_ID q) \<longrightarrow> op_ID p = op_ID q) \<and>
     length (doc_Operators (tv_Document v)) = 3"
proof -
  obtain v where v: "topology_Verify sample_netlib sample_keylib sample_crypto (\<lambda>_. [JScalar]) sample_reader [1] (replicate 32 5) time_zero = Some (Inr v)"
      "document_text_ok (tv_Document v)" "blank_attestations (tv_Document v) = blank_attestations sample_plan"
    using sample_topology_verifies by blast
  have "length (doc_Operators (tv_Document v)) = 3"
    using same_plan(3) [OF v(3)] by (simp add: sample_plan_def)
  with topology_signatures_bind [OF v(1) v(1) v(2) v(2)] show ?thesis by blast
qed

text \<open>
  A plan that its operators agree on verifies. For a valid plan whose operators each hold the private key of their
  listed identity, \<^verbatim>\<open>Sign\<close> attests it for all of them and produces a signed topology, and a reader to whom the signed topology arrives intact accepts it under the authority's key
  at every instant of its window, with the same plan in it.
\<close>

theorem attested_topology_verifies:
  assumes "sign_ok c" "validateDocument lib keys d time_zero = Inr ()" "document_text_ok d" "holds_identities c identities d"
    "length authority = privateKeySize"
  shows "\<exists>st. topology_Sign lib keys c d authority identities = Inr st \<and>
    (\<forall>encoded tokens decode now.
       encoded \<noteq> [] \<and> length encoded \<le> topology_MaximumFileBytes \<and> live_RejectDuplicateKeys tokens encoded = Some (Inr ()) \<and>
       decode encoded = Some (st, False) \<and> validateDocument lib keys d now = Inr () \<longrightarrow>
       (\<exists>v. topology_Verify lib keys c tokens decode encoded (ed_public c authority) now = Some (Inr v) \<and>
          tv_Document v = sgn_Document st \<and> blank_attestations (tv_Document v) = blank_attestations d))"
proof -
  obtain st where st: "topology_Sign lib keys c d authority identities = Inr st"
    using topology_Sign_ok [OF assms] by blast
  then show ?thesis
    using signed_topology_verifies [OF assms st] by blast
qed

theorem attested_topology_verifies_witness:
  "\<exists>st. topology_Sign sample_netlib sample_keylib sample_crypto sample_plan sample_authority sample_identity = Inr st"
proof -
  have len: "length sample_authority = privateKeySize" by (simp add: sample_authority_def privateKeySize_def)
  from attested_topology_verifies [OF sample_sign_ok sample_plan_valid sample_plan_text sample_identities len]
  show ?thesis by blast
qed

end
