(* ===== verification/Watermark.thy ===== *)
theory Watermark
  imports TopologyVerify HopSequence
begin

text \<open>
  \<^verbatim>\<open>live/topology/watermark.go\<close>: the record of the newest plan a node has run. The file is an argument and a
  result of every operation, in the three states it can be found in; its replacement has the three outcomes of
  \<open>HopSequence\<close>. \<open>decode\<close> decodes a stored record and reports whether more content follows.
\<close>

section \<open>The record\<close>

definition WatermarkVersion :: string where "WatermarkVersion = ''nomad-topology-watermark-v1''"

record watermarkFile =
  wm_Version :: string
  wm_NetworkID :: string
  wm_Epoch :: u64
  wm_Digest :: string

datatype watermark_error =
    WatermarkPath | WatermarkUnreadable | WatermarkMalformed | WatermarkTrailing | WatermarkVersionUnsupported
  | WatermarkContents | WatermarkDigest | TopologyRollback | TopologyEquivocation | WatermarkNotWritten

definition watermark_json :: "watermarkFile \<Rightarrow> bytes" where
  "watermark_json m = json_object
     [(''version'', json_string (wm_Version m)), (''network_id'', json_string (wm_NetworkID m)),
      (''epoch'', json_uint (wm_Epoch m)), (''digest'', json_string (wm_Digest m))]"

definition readWatermark ::
    "(bytes \<Rightarrow> (watermarkFile \<times> bool) option) \<Rightarrow> stored \<Rightarrow> watermark_error + watermarkFile option" where
  "readWatermark decode file =
     (case file of
        Absent \<Rightarrow> Inr None
      | Unreadable \<Rightarrow> Inl WatermarkUnreadable
      | Stored data \<Rightarrow>
          andThen (require (length data \<le> topology_MaximumFileBytes) WatermarkUnreadable) (\<lambda>_.
          andThen (expect (decode data) WatermarkMalformed) (\<lambda>(mark, trailing).
          andThen (require (\<not> trailing) WatermarkTrailing) (\<lambda>_.
          andThen (require (wm_Version mark = WatermarkVersion) WatermarkVersionUnsupported) (\<lambda>_.
          andThen (require (wm_Epoch mark \<noteq> 0 \<and> operatorIDPattern (wm_NetworkID mark)) WatermarkContents) (\<lambda>_.
          andThen (require (hex_DecodeString (wm_Digest mark) \<noteq> None \<and> length (wm_Digest mark) = 64) WatermarkDigest) (\<lambda>_.
          Inr (Some mark))))))))"

definition writeWatermark :: "write_outcome \<Rightarrow> stored \<Rightarrow> watermarkFile \<Rightarrow> stored \<times> (watermark_error + unit)" where
  "writeWatermark outcome file contents =
     (case atomicStateWrite outcome file (watermark_json contents) of
        (file', ok) \<Rightarrow> (file', if ok then Inr () else Inl WatermarkNotWritten))"

definition mark_of :: "TopologyVerified \<Rightarrow> watermarkFile" where
  "mark_of v = \<lparr>wm_Version = WatermarkVersion, wm_NetworkID = doc_NetworkID (tv_Document v),
     wm_Epoch = doc_Epoch (tv_Document v), wm_Digest = hex_EncodeToString (tv_Digest v)\<rparr>"

definition AcceptMonotonic ::
    "(bytes \<Rightarrow> (watermarkFile \<times> bool) option) \<Rightarrow> string \<Rightarrow> write_outcome \<Rightarrow> stored \<Rightarrow> TopologyVerified \<Rightarrow>
      stored \<times> (watermark_error + unit)" where
  "AcceptMonotonic decode path outcome file v =
     (if path = [] then (file, Inl WatermarkPath)
      else case readWatermark decode file of
        Inl e \<Rightarrow> (file, Inl e)
      | Inr previous \<Rightarrow>
          (case previous of
             None \<Rightarrow> writeWatermark outcome file (mark_of v)
           | Some mark \<Rightarrow>
               if wm_NetworkID mark = doc_NetworkID (tv_Document v) then
                 if doc_Epoch (tv_Document v) < wm_Epoch mark then (file, Inl TopologyRollback)
                 else if doc_Epoch (tv_Document v) = wm_Epoch mark \<and> wm_Digest mark \<noteq> hex_EncodeToString (tv_Digest v)
                 then (file, Inl TopologyEquivocation)
                 else if doc_Epoch (tv_Document v) = wm_Epoch mark then (file, Inr ())
                 else writeWatermark outcome file (mark_of v)
               else writeWatermark outcome file (mark_of v)))"

section \<open>Runs\<close>

text \<open>A node starting again and again, each time with some plan and some fate of the write.\<close>

definition accept_step ::
    "(bytes \<Rightarrow> (watermarkFile \<times> bool) option) \<Rightarrow> string \<Rightarrow> stored \<Rightarrow> TopologyVerified \<times> write_outcome \<Rightarrow>
      stored \<times> (watermark_error + unit)" where
  "accept_step decode path file a = AcceptMonotonic decode path (snd a) file (fst a)"

text \<open>What the reader relies on: the record of an accepted plan reads back as it was written.\<close>

definition reads_back :: "(bytes \<Rightarrow> (watermarkFile \<times> bool) option) \<Rightarrow> TopologyVerified \<Rightarrow> bool" where
  "reads_back decode v \<longleftrightarrow>
     decode (watermark_json (mark_of v)) = Some (mark_of v, False) \<and>
     length (watermark_json (mark_of v)) \<le> topology_MaximumFileBytes \<and>
     doc_Epoch (tv_Document v) \<noteq> 0 \<and> operatorIDPattern (doc_NetworkID (tv_Document v)) \<and> length (tv_Digest v) = 32"

text \<open>The file is at or past a plan: it records a later epoch, or this very plan.\<close>

definition at_least :: "watermarkFile \<Rightarrow> TopologyVerified \<Rightarrow> bool" where
  "at_least mark v \<longleftrightarrow> wm_NetworkID mark = doc_NetworkID (tv_Document v) \<and>
     (doc_Epoch (tv_Document v) < wm_Epoch mark \<or>
      doc_Epoch (tv_Document v) = wm_Epoch mark \<and> wm_Digest mark = hex_EncodeToString (tv_Digest v))"

definition records :: "watermarkFile \<Rightarrow> TopologyVerified \<Rightarrow> bool" where
  "records mark v \<longleftrightarrow> wm_NetworkID mark = doc_NetworkID (tv_Document v) \<and> wm_Epoch mark = doc_Epoch (tv_Document v) \<and>
     wm_Digest mark = hex_EncodeToString (tv_Digest v)"

definition file_at_least :: "(bytes \<Rightarrow> (watermarkFile \<times> bool) option) \<Rightarrow> stored \<Rightarrow> TopologyVerified \<Rightarrow> bool" where
  "file_at_least decode file v \<longleftrightarrow> (\<exists>mark. readWatermark decode file = Inr (Some mark) \<and> at_least mark v)"

lemma readWatermark_written: "reads_back decode v \<Longrightarrow> readWatermark decode (Stored (watermark_json (mark_of v))) = Inr (Some (mark_of v))"
  by (simp add: readWatermark_def reads_back_def mark_of_def hex_roundtrip)

lemma writeWatermark_cases:
  assumes "writeWatermark outcome file (mark_of v) = (file', r)"
  shows "file' = file \<and> r \<noteq> Inr () \<or> file' = Stored (watermark_json (mark_of v))"
  using assms by (cases outcome) (auto simp: writeWatermark_def atomicStateWrite_def)

lemma accept_cases:
  assumes "AcceptMonotonic decode path outcome file v = (file', r)"
  shows "file' = file \<and> (r = Inr () \<longrightarrow> (\<exists>mark. readWatermark decode file = Inr (Some mark) \<and> records mark v)) \<or>
    file' = Stored (watermark_json (mark_of v)) \<and>
    (readWatermark decode file = Inr None \<or>
      (\<exists>mark. readWatermark decode file = Inr (Some mark) \<and>
        (wm_NetworkID mark = doc_NetworkID (tv_Document v) \<longrightarrow> wm_Epoch mark < doc_Epoch (tv_Document v))))"
proof (cases "path = [] \<or> (\<exists>e. readWatermark decode file = Inl e)")
  case True
  with assms show ?thesis by (auto simp: AcceptMonotonic_def split: if_splits)
next
  case False
  then obtain previous where p: "path \<noteq> []" "readWatermark decode file = Inr previous" by (cases "readWatermark decode file") auto
  show ?thesis
  proof (cases previous)
    case None
    with p assms have "writeWatermark outcome file (mark_of v) = (file', r)" by (simp add: AcceptMonotonic_def)
    from writeWatermark_cases [OF this] None p show ?thesis by auto
  next
    case (Some mark)
    with p assms show ?thesis
      by (auto simp: AcceptMonotonic_def records_def split: if_splits dest: writeWatermark_cases)
  qed
qed

text \<open>What the file has reached, it keeps, as long as the node stays in one network.\<close>

lemma accept_keeps:
  assumes "AcceptMonotonic decode path outcome file v = (file', r)" "reads_back decode v"
    and "file_at_least decode file u" "doc_NetworkID (tv_Document u) = doc_NetworkID (tv_Document v)"
  shows "file_at_least decode file' u"
proof -
  from assms(3) obtain mark where m: "readWatermark decode file = Inr (Some mark)" "at_least mark u"
    by (auto simp: file_at_least_def)
  from accept_cases [OF assms(1)] show ?thesis
  proof (elim disjE conjE)
    assume "file' = Stored (watermark_json (mark_of v))" and "\<exists>mark. readWatermark decode file = Inr (Some mark) \<and>
        (wm_NetworkID mark = doc_NetworkID (tv_Document v) \<longrightarrow> wm_Epoch mark < doc_Epoch (tv_Document v))"
    with m assms(4) have "at_least (mark_of v) u" by (auto simp: at_least_def mark_of_def)
    with \<open>file' = _\<close> readWatermark_written [OF assms(2)] show ?thesis by (simp add: file_at_least_def)
  qed (use assms(3) m in auto)
qed

lemma accept_reaches:
  assumes "AcceptMonotonic decode path outcome file v = (file', Inr ())" "reads_back decode v"
  shows "file_at_least decode file' v"
  using accept_cases [OF assms(1)] readWatermark_written [OF assms(2)]
  by (auto simp: file_at_least_def at_least_def mark_of_def records_def)

lemma accepted_after:
  assumes "AcceptMonotonic decode path outcome file v = (file', Inr ())" "file_at_least decode file u"
    and "doc_NetworkID (tv_Document u) = doc_NetworkID (tv_Document v)"
  shows "doc_Epoch (tv_Document u) < doc_Epoch (tv_Document v) \<or>
    doc_Epoch (tv_Document u) = doc_Epoch (tv_Document v) \<and> tv_Digest u = tv_Digest v"
  using accept_cases [OF assms(1)] assms(2,3)
  by (auto simp: file_at_least_def at_least_def records_def)

lemma watermark_run_keeps:
  "file_at_least decode st u \<Longrightarrow>
   \<forall>a \<in> set ops. reads_back decode (fst a) \<and> doc_NetworkID (tv_Document (fst a)) = doc_NetworkID (tv_Document u) \<Longrightarrow>
     file_at_least decode (run_states (accept_step decode path) st ops) u"
proof (induction ops arbitrary: st)
  case (Cons a ops)
  obtain v w where a: "a = (v, w)" by (cases a)
  obtain st' r where step: "AcceptMonotonic decode path w st v = (st', r)" by fastforce
  have "file_at_least decode st' u"
    using accept_keeps [OF step] Cons.prems a by auto
  with Cons a step show ?case by (simp add: accept_step_def)
qed simp

text \<open>
  C24: A node never goes back to an older plan. Over any history of starts in one network, with any writes failing or
  left unsynced, the plans that are accepted have epochs that never decrease, and two accepted plans of one epoch have
  the same digest: a stale directory cannot bring back an operator or a key that a later plan has removed, and of two
  plans signed for one epoch at most one is ever run.
\<close>

theorem watermark_never_goes_back:
  assumes "\<forall>a \<in> set ops. reads_back decode (fst a) \<and> doc_NetworkID (tv_Document (fst a)) = network"
    and "i < j" "j < length ops"
    and "answers (accept_step decode path) st ops ! i = Inr ()" "answers (accept_step decode path) st ops ! j = Inr ()"
  shows "doc_Epoch (tv_Document (fst (ops ! i))) < doc_Epoch (tv_Document (fst (ops ! j))) \<or>
    doc_Epoch (tv_Document (fst (ops ! i))) = doc_Epoch (tv_Document (fst (ops ! j))) \<and>
      tv_Digest (fst (ops ! i)) = tv_Digest (fst (ops ! j))"
proof -
  let ?step = "accept_step decode path" and ?u = "fst (ops ! i)" and ?v = "fst (ops ! j)"
  let ?before = "\<lambda>k. run_states ?step st (take k ops)"
  have ans: "answers ?step st ops ! k = snd (?step (?before k) (ops ! k))" if "k < length ops" for k
    using that id_take_nth_drop [of k ops] answers_append [of ?step st "take k ops" "ops ! k # drop (Suc k) ops"]
    by (metis answers.simps(2) length_answers length_take min.absorb4 nth_append_length)
  have i: "i < length ops" using assms(2,3) by simp
  let ?mid = "take (j - Suc i) (drop (Suc i) ops)"
  have split: "take j ops = take i ops @ ops ! i # ?mid"
    using assms(2) i by (metis Suc_leI add_diff_inverse_nat not_less take_Suc_conv_app_nth take_add append.assoc append_Cons append_Nil)
  obtain st1 where st1: "AcceptMonotonic decode path (snd (ops ! i)) (?before i) ?u = (st1, Inr ())"
    using ans [OF i] assms(4) by (metis accept_step_def prod.collapse)
  have ok: "reads_back decode (fst a)" "doc_NetworkID (tv_Document (fst a)) = network" if "a \<in> set ops" for a
    using assms(1) that by auto
  have "file_at_least decode st1 ?u"
    using accept_reaches [OF st1] ok(1) i by simp
  moreover have "set ?mid \<subseteq> set ops" by (meson set_drop_subset set_take_subset subset_trans)
  then have "\<forall>a \<in> set ?mid. reads_back decode (fst a) \<and> doc_NetworkID (tv_Document (fst a)) = doc_NetworkID (tv_Document ?u)"
    using ok ok(2) [OF nth_mem [OF i]] by auto
  ultimately have reached: "file_at_least decode (run_states ?step st1 ?mid) ?u" by (rule watermark_run_keeps)
  have before: "?before j = run_states ?step st1 ?mid"
    using st1 by (simp add: split accept_step_def run_ops_def)
  obtain st2 where st2: "AcceptMonotonic decode path (snd (ops ! j)) (?before j) ?v = (st2, Inr ())"
    using ans [OF assms(3)] assms(5) by (metis accept_step_def prod.collapse)
  have "doc_NetworkID (tv_Document ?u) = doc_NetworkID (tv_Document ?v)" using ok(2) i assms(3) by simp
  from accepted_after [OF st2 _ this] show ?thesis using reached before by simp
qed

text \<open>Three plans and a reader of their records.\<close>

definition sample_at :: "u64 \<Rightarrow> byte \<Rightarrow> string \<Rightarrow> TopologyVerified" where
  "sample_at epoch digest network =
     \<lparr>tv_Document = sample_plan\<lparr>doc_Epoch := epoch, doc_NetworkID := network\<rparr>, tv_Digest = replicate 32 digest\<rparr>"

definition sample_marks :: "bytes \<Rightarrow> (watermarkFile \<times> bool) option" where
  "sample_marks bs =
     (let vs = [sample_at 3 1 ''a'', sample_at 5 1 ''a'', sample_at 1 1 ''b''] in
      map_option (\<lambda>v. (mark_of v, False)) (List.find (\<lambda>v. watermark_json (mark_of v) = bs) vs))"

lemma sample_json_differ:
  "watermark_json (mark_of (sample_at 3 1 ''a'')) \<noteq> watermark_json (mark_of (sample_at 5 1 ''a''))"
  "watermark_json (mark_of (sample_at 3 1 ''a'')) \<noteq> watermark_json (mark_of (sample_at 1 1 ''b''))"
  "watermark_json (mark_of (sample_at 5 1 ''a'')) \<noteq> watermark_json (mark_of (sample_at 1 1 ''b''))"
  by (simp_all add: watermark_json_def mark_of_def sample_at_def json_object_def json_uint_def dec_str.simps dec_digit_def bytes_of_def
      json_string_def htmlSafe_def of_char_byte_inj char_of_eq_iff)

lemma sample_marks_read:
  assumes "v \<in> {sample_at 3 1 ''a'', sample_at 5 1 ''a'', sample_at 1 1 ''b''}"
  shows "reads_back sample_marks v"
proof -
  have "length (watermark_json (mark_of v)) \<le> topology_MaximumFileBytes"
  proof -
    have "length (wm_NetworkID (mark_of v)) = 1" "length (wm_Digest (mark_of v)) = 64" "length (wm_Version (mark_of v)) \<le> 64"
      using assms by (auto simp: mark_of_def sample_at_def WatermarkVersion_def)
    then show ?thesis
      using json_object_bound [of "[(''version'', json_string (wm_Version (mark_of v))), (''network_id'', json_string (wm_NetworkID (mark_of v))),
          (''epoch'', json_uint (wm_Epoch (mark_of v))), (''digest'', json_string (wm_Digest (mark_of v)))]"]
        json_string_bound [of "wm_Version (mark_of v)"] json_string_bound [of "wm_NetworkID (mark_of v)"]
        json_string_bound [of "wm_Digest (mark_of v)"] json_uint_bound [of "wm_Epoch (mark_of v)"]
      by (simp add: watermark_json_def topology_MaximumFileBytes_def)
  qed
  moreover have "sample_marks (watermark_json (mark_of v)) = Some (mark_of v, False)"
    using assms sample_json_differ sample_json_differ [symmetric] by (auto simp: sample_marks_def Let_def)
  ultimately show ?thesis
    using assms by (auto simp: reads_back_def sample_at_def operatorIDPattern_def id_char_def)
qed

theorem watermark_never_goes_back_witness:
  "answers (accept_step sample_marks ''w'') Absent
       [(sample_at 3 1 ''a'', Written), (sample_at 5 1 ''a'', Written), (sample_at 3 1 ''a'', Written), (sample_at 5 1 ''a'', Written)] =
     [Inr (), Inr (), Inl TopologyRollback, Inr ()] \<and>
   doc_Epoch (tv_Document (sample_at 3 1 ''a'')) < doc_Epoch (tv_Document (sample_at 5 1 ''a''))"
proof -
  let ?ops = "[(sample_at 3 1 ''a'', Written), (sample_at 5 1 ''a'', Written), (sample_at 3 1 ''a'', Written), (sample_at 5 1 ''a'', Written)]"
  note r = readWatermark_written [OF sample_marks_read]
  have ans: "answers (accept_step sample_marks ''w'') Absent ?ops = [Inr (), Inr (), Inl TopologyRollback, Inr ()]"
    using r [of "sample_at 3 1 ''a''"] r [of "sample_at 5 1 ''a''"]
    by (simp add: accept_step_def AcceptMonotonic_def writeWatermark_def atomicStateWrite_def readWatermark_def [of _ Absent] mark_of_def sample_at_def)
  have "\<forall>a \<in> set ?ops. reads_back sample_marks (fst a) \<and> doc_NetworkID (tv_Document (fst a)) = ''a''"
    using sample_marks_read by (simp add: sample_at_def)
  from watermark_never_goes_back [OF this, of 0 1 "''w''" Absent] ans show ?thesis by (simp add: sample_at_def)
qed

text \<open>
  The record holds one network at a time: running a plan of another network in between forgets the epoch that was
  reached, and an older plan of the first network is accepted again.
\<close>

lemma watermark_other_network_resets:
  "answers (accept_step sample_marks ''w'') Absent
     [(sample_at 5 1 ''a'', Written), (sample_at 1 1 ''b'', Written), (sample_at 3 1 ''a'', Written)] = [Inr (), Inr (), Inr ()]"
  using readWatermark_written [OF sample_marks_read, of "sample_at 5 1 ''a''"] readWatermark_written [OF sample_marks_read, of "sample_at 1 1 ''b''"]
  by (simp add: accept_step_def AcceptMonotonic_def writeWatermark_def atomicStateWrite_def readWatermark_def [of _ Absent] mark_of_def sample_at_def)

end
