(* ===== verification/EpochRules.thy ===== *)
theory EpochRules
  imports TopologyVerify
begin

text \<open>
  \<^verbatim>\<open>live/epoch/descriptor.go\<close> with the encoding of \<^verbatim>\<open>encoding.go\<close> and \<^verbatim>\<open>vectors.go\<close>: the signed object that activates one
  epoch of the network. It embeds the signed topology and the certificate of the key ceremony, chains to the previous
  epoch and carries the approvals of the previous operators and the activations of its own. JSON decoding and the
  check of the certificate (which rests on a group library outside this repository) are arguments.
\<close>

section \<open>Data\<close>

definition epoch_Version :: string where "epoch_Version = ''nomad-epoch-descriptor-v1''"
definition epoch_MaximumFileBytes :: nat where "epoch_MaximumFileBytes = 2 ^ 20"
definition digestDomain :: string where "digestDomain = ''nomad-epoch-descriptor-digest-v1''"
definition activationDomain :: string where "activationDomain = ''nomad-epoch-activation-v1''"
definition approvalDomain :: string where "approvalDomain = ''nomad-epoch-approval-v1''"
definition epoch_TransitionGenesis :: string where "epoch_TransitionGenesis = ''genesis''"
definition epoch_TransitionScheduled :: string where "epoch_TransitionScheduled = ''scheduled''"
definition epoch_TransitionEmergency :: string where "epoch_TransitionEmergency = ''emergency''"
definition epoch_maxCanonicalBytes :: nat where "epoch_maxCanonicalBytes = 4 * 2 ^ 20"

record Approval =
  ap_OperatorID :: string
  ap_Index :: u32
  ap_Signature :: string

record Activation =
  ac_OperatorID :: string
  ac_Index :: u32
  ac_Signature :: string

record EpochDescriptor =
  ep_Version :: string
  ep_PreviousEpochDigest :: string
  ep_Transition :: string
  ep_ActivateAt :: string
  ep_RetireAt :: string
  ep_Topology :: string
  ep_DKGCertificate :: string
  ep_UplinkProfile :: string
  ep_Approvals :: "Approval list"
  ep_Activations :: "Activation list"

text \<open>\<open>'cert\<close> is the verified certificate, which this package only carries along.\<close>

record 'cert EpochVerified =
  ev_Descriptor :: EpochDescriptor
  ev_Digest :: bytes
  ev_Topology :: TopologyVerified
  ev_Certificate :: 'cert
  ev_Epoch :: u64
  ev_NetworkID :: string
  ev_ActivateAt :: instant
  ev_RetireAt :: instant

datatype epoch_error =
    EpochSize | EpochMalformed | EpochTrailing | EpochVersionUnsupported | PreviousDigestInvalid | TransitionUnsupported
  | ActivateAtInvalid | RetireAtInvalid | TopologyEncoding | CertificateEncoding | UplinkEncoding | UplinkNotEmpty
  | EmbeddedTopology topology_error | EmbeddedCertificate

datatype epoch_rule =
    ActivationNotBeforeRetirement | BeforeCeremonyEnds | OutsideValidity | RevokedIdentity
  | GenesisAfterEpoch | GenesisDigest | GenesisApprovals | NoPreviousEpoch | NotChained | NetworkChanged | EpochNotNext
  | ScheduledBoundary | EmergencyTooLate | EmergencyTooEarly | TransitionUnconstrained
  | TooFewApprovals | ApprovalIndex | ApprovalMembership | ApprovalDuplicate | ApprovalRevoked | ApprovalIdentity | ApprovalInvalid
  | ActivationCount | ActivationMembership | ActivationIdentity | ActivationInvalid | IdentityPrivateKey | IdentityMismatch

text \<open>The code outside the package that \<^verbatim>\<open>Verify\<close> calls.\<close>

record 'cert epoch_env =
  env_net :: netlib
  env_keys :: keylib
  env_crypto :: crypto
  env_tokens :: "bytes \<Rightarrow> jtoken list"
  env_topology :: "bytes \<Rightarrow> (SignedTopology \<times> bool) option"
  env_descriptor :: "bytes \<Rightarrow> (EpochDescriptor \<times> bool) option"
  env_certify :: "bytes \<Rightarrow> TopologyVerified \<Rightarrow> 'cert option"

section \<open>Digests and messages\<close>

definition decodeBounded :: "string \<Rightarrow> bytes option" where
  "decodeBounded encoded =
     (case DecodeBase64 encoded of
        None \<Rightarrow> None
      | Some decoded \<Rightarrow> if length decoded > epoch_maxCanonicalBytes then None else Some decoded)"

definition epoch_validateCanonicalTime :: "string \<Rightarrow> bool" where
  "epoch_validateCanonicalTime encoded =
     (case time_ParseRFC3339 encoded of None \<Rightarrow> False | Some t \<Rightarrow> time_Format t = encoded)"

definition epoch_CanonicalBytes :: "EpochDescriptor \<Rightarrow> epoch_error + bytes" where
  "epoch_CanonicalBytes d =
     andThen (require (ep_Version d = epoch_Version) EpochVersionUnsupported) (\<lambda>_.
     andThen (expect (decodeHex 32 (ep_PreviousEpochDigest d)) PreviousDigestInvalid) (\<lambda>previousDigest.
     andThen (require (ep_Transition d \<in> {epoch_TransitionGenesis, epoch_TransitionScheduled, epoch_TransitionEmergency}) TransitionUnsupported) (\<lambda>_.
     andThen (require (epoch_validateCanonicalTime (ep_ActivateAt d)) ActivateAtInvalid) (\<lambda>_.
     andThen (require (epoch_validateCanonicalTime (ep_RetireAt d)) RetireAtInvalid) (\<lambda>_.
     andThen (expect (decodeBounded (ep_Topology d)) TopologyEncoding) (\<lambda>topologyBytes.
     andThen (expect (decodeBounded (ep_DKGCertificate d)) CertificateEncoding) (\<lambda>certificateBytes.
     andThen (expect (decodeBounded (ep_UplinkProfile d)) UplinkEncoding) (\<lambda>uplinkBytes.
     Inr (prefixed (bytes_of (ep_Version d)) @ previousDigest @ prefixed (bytes_of (ep_Transition d)) @
       prefixed (bytes_of (ep_ActivateAt d)) @ prefixed (bytes_of (ep_RetireAt d)) @
       prefixed topologyBytes @ prefixed certificateBytes @ prefixed uplinkBytes)))))))))"

definition epoch_Digest :: "crypto \<Rightarrow> EpochDescriptor \<Rightarrow> epoch_error + bytes" where
  "epoch_Digest c d = andThen (epoch_CanonicalBytes d) (\<lambda>canonical. Inr (sha256 c (bytes_of digestDomain @ canonical)))"

definition activationMessage :: "bytes \<Rightarrow> bytes" where
  "activationMessage digest = bytes_of activationDomain @ digest"

definition approvalMessage :: "bytes \<Rightarrow> bytes \<Rightarrow> bytes \<Rightarrow> bytes" where
  "approvalMessage previousDigest digest approver = bytes_of approvalDomain @ previousDigest @ digest @ approver"

definition epoch_zeroDigestHex :: string where "epoch_zeroDigestHex = hex_EncodeToString (replicate 32 0)"

definition epoch_New ::
    "crypto \<Rightarrow> 'cert EpochVerified option \<Rightarrow> string \<Rightarrow> string \<Rightarrow> string \<Rightarrow> bytes \<Rightarrow> bytes \<Rightarrow> epoch_error + EpochDescriptor" where
  "epoch_New c previous transition activateAt retireAt topologyBytes certificateBytes =
     (let d = \<lparr>ep_Version = epoch_Version,
        ep_PreviousEpochDigest = (case previous of None \<Rightarrow> epoch_zeroDigestHex | Some p \<Rightarrow> hex_EncodeToString (ev_Digest p)),
        ep_Transition = transition, ep_ActivateAt = activateAt, ep_RetireAt = retireAt,
        ep_Topology = b64_EncodeToString topologyBytes, ep_DKGCertificate = b64_EncodeToString certificateBytes,
        ep_UplinkProfile = [], ep_Approvals = [], ep_Activations = []\<rparr>
      in andThen (epoch_Digest c d) (\<lambda>_. Inr d))"

definition requireMatchingIdentity :: "crypto \<Rightarrow> Operator \<Rightarrow> bytes \<Rightarrow> epoch_rule + unit" where
  "requireMatchingIdentity c p identity =
     andThen (require (length identity = privateKeySize) IdentityPrivateKey) (\<lambda>_.
     require (decodeFixed (op_IdentityKey p) publicKeySize = Some (ed_public c identity)) IdentityMismatch)"

definition Activate :: "crypto \<Rightarrow> EpochDescriptor \<Rightarrow> Operator \<Rightarrow> bytes \<Rightarrow> (epoch_error + epoch_rule) + Activation" where
  "Activate c d p identity =
     andThen (map_sum Inr id (requireMatchingIdentity c p identity)) (\<lambda>_.
     andThen (map_sum Inl id (epoch_Digest c d)) (\<lambda>digest.
     Inr \<lparr>ac_OperatorID = op_ID p, ac_Index = ucast (op_Index p),
          ac_Signature = b64_EncodeToString (ed_sign c identity (activationMessage digest))\<rparr>))"

definition Approve ::
    "crypto \<Rightarrow> EpochDescriptor \<Rightarrow> 'cert EpochVerified \<Rightarrow> Operator \<Rightarrow> bytes \<Rightarrow> (epoch_error + epoch_rule) + Approval" where
  "Approve c d previous p identity =
     andThen (map_sum Inr id (requireMatchingIdentity c p identity)) (\<lambda>_.
     andThen (map_sum Inl id (epoch_Digest c d)) (\<lambda>digest.
     Inr \<lparr>ap_OperatorID = op_ID p, ap_Index = ucast (op_Index p),
          ap_Signature = b64_EncodeToString (ed_sign c identity (approvalMessage (ev_Digest previous) digest (ed_public c identity)))\<rparr>))"

section \<open>Verification\<close>

abbreviation ev_Operators :: "'cert EpochVerified \<Rightarrow> Operator list" where
  "ev_Operators v \<equiv> doc_Operators (tv_Document (ev_Topology v))"

definition ApprovalQuorum :: "'cert EpochVerified \<Rightarrow> nat" where
  "ApprovalQuorum previous =
     (let majority = length (ev_Operators previous) div 2 + 1;
          threshold = unat (dkg_Threshold (doc_DKG (tv_Document (ev_Topology previous))))
      in if threshold > majority then threshold else majority)"

definition revokedIdentity :: "string list \<Rightarrow> string \<Rightarrow> bool" where
  "revokedIdentity revoked identityKey \<longleftrightarrow> identityKey \<in> set revoked"

definition verifyChainLink ::
    "EpochDescriptor \<Rightarrow> Document \<Rightarrow> 'cert EpochVerified option \<Rightarrow> instant \<Rightarrow> epoch_rule + unit" where
  "verifyChainLink d network previous activateAt =
     (if ep_Transition d = epoch_TransitionGenesis then
        andThen (require (previous = None) GenesisAfterEpoch) (\<lambda>_.
        andThen (require (ep_PreviousEpochDigest d = epoch_zeroDigestHex) GenesisDigest) (\<lambda>_.
        require (ep_Approvals d = []) GenesisApprovals))
      else andThen (expect previous NoPreviousEpoch) (\<lambda>p.
        andThen (require (ep_PreviousEpochDigest d = hex_EncodeToString (ev_Digest p)) NotChained) (\<lambda>_.
        andThen (require (doc_NetworkID network = ev_NetworkID p) NetworkChanged) (\<lambda>_.
        andThen (require (doc_Epoch network = ev_Epoch p + 1) EpochNotNext) (\<lambda>_.
        if ep_Transition d = epoch_TransitionScheduled then require (activateAt = ev_RetireAt p) ScheduledBoundary
        else if ep_Transition d = epoch_TransitionEmergency then
          andThen (require (activateAt < ev_RetireAt p) EmergencyTooLate) (\<lambda>_.
          require (ev_ActivateAt p < activateAt) EmergencyTooEarly)
        else Inl TransitionUnconstrained)))))"

fun checkApprovals ::
    "crypto \<Rightarrow> 'cert EpochVerified \<Rightarrow> bytes \<Rightarrow> string list \<Rightarrow> string list \<Rightarrow> Approval list \<Rightarrow> epoch_rule + string list" where
  "checkApprovals c previous digest revoked seen [] = Inr seen"
| "checkApprovals c previous digest revoked seen (a # as) =
     andThen (require (ap_Index a < of_nat (length (ev_Operators previous))) ApprovalIndex) (\<lambda>_.
     andThen (case Verified_Operator (ev_Topology previous) (ucast (ap_Index a)) of
         Inl _ \<Rightarrow> Inl ApprovalMembership
       | Inr p \<Rightarrow> if op_ID p \<noteq> ap_OperatorID a then Inl ApprovalMembership else Inr p) (\<lambda>p.
     andThen (require (op_ID p \<notin> set seen) ApprovalDuplicate) (\<lambda>_.
     andThen (require (\<not> revokedIdentity revoked (op_IdentityKey p)) ApprovalRevoked) (\<lambda>_.
     andThen (expect (decodeFixed (op_IdentityKey p) publicKeySize) ApprovalIdentity) (\<lambda>public.
     andThen (expect (decodeFixed (ap_Signature a) signatureSize) ApprovalInvalid) (\<lambda>signature.
     andThen (require (ed_verify c public (approvalMessage (ev_Digest previous) digest public) signature) ApprovalInvalid) (\<lambda>_.
     checkApprovals c previous digest revoked (op_ID p # seen) as)))))))"

definition verifyApprovals ::
    "crypto \<Rightarrow> EpochDescriptor \<Rightarrow> bytes \<Rightarrow> 'cert EpochVerified option \<Rightarrow> string list \<Rightarrow> epoch_rule + unit" where
  "verifyApprovals c d digest previous revoked =
     (if ep_Transition d = epoch_TransitionGenesis then Inr ()
      else case previous of
        None \<Rightarrow> Inl NoPreviousEpoch
      | Some p \<Rightarrow>
          andThen (require (ApprovalQuorum p \<le> length (ep_Approvals d)) TooFewApprovals) (\<lambda>_.
          andThen (checkApprovals c p digest revoked [] (ep_Approvals d)) (\<lambda>seen.
          require (ApprovalQuorum p \<le> length seen) TooFewApprovals)))"

text \<open>
  The activations sorted by index, against the operators in order. Activations with one index twice fail
  whatever the order the sort leaves them in.
\<close>

fun checkActivations :: "crypto \<Rightarrow> bytes \<Rightarrow> nat \<Rightarrow> Activation list \<Rightarrow> Operator list \<Rightarrow> epoch_rule + unit" where
  "checkActivations c message index (a # as) (p # ps) =
     andThen (require (ac_Index a = of_nat index \<and> ac_OperatorID a = op_ID p) ActivationMembership) (\<lambda>_.
     andThen (expect (decodeFixed (op_IdentityKey p) publicKeySize) ActivationIdentity) (\<lambda>public.
     andThen (expect (decodeFixed (ac_Signature a) signatureSize) ActivationInvalid) (\<lambda>signature.
     andThen (require (ed_verify c public message signature) ActivationInvalid) (\<lambda>_.
     checkActivations c message (Suc index) as ps))))"
| "checkActivations c message index _ _ = Inr ()"

definition verifyActivations :: "crypto \<Rightarrow> EpochDescriptor \<Rightarrow> bytes \<Rightarrow> Document \<Rightarrow> epoch_rule + unit" where
  "verifyActivations c d digest network =
     andThen (require (length (ep_Activations d) = length (doc_Operators network)) ActivationCount) (\<lambda>_.
     checkActivations c (activationMessage digest) 0 (sort_key (\<lambda>a. unat (ac_Index a)) (ep_Activations d)) (doc_Operators network))"

text \<open>An instant whose parse error is dropped reads as the zero time.\<close>

definition instant_of :: "string \<Rightarrow> instant" where
  "instant_of s = (case time_ParseRFC3339 s of None \<Rightarrow> time_zero | Some t \<Rightarrow> t)"

definition checkWindow :: "EpochDescriptor \<Rightarrow> Document \<Rightarrow> epoch_rule + unit" where
  "checkWindow d network =
     (let activateAt = instant_of (ep_ActivateAt d); retireAt = instant_of (ep_RetireAt d);
          notBefore = instant_of (doc_NotBefore network); notAfter = instant_of (doc_NotAfter network);
          dkgEnd = dkg_end (instant_of (dkg_StartAt (doc_DKG network))) (doc_DKG network)
      in andThen (require (activateAt < retireAt) ActivationNotBeforeRetirement) (\<lambda>_.
         andThen (require (dkgEnd \<le> activateAt) BeforeCeremonyEnds) (\<lambda>_.
         require (notBefore \<le> activateAt \<and> retireAt \<le> notAfter) OutsideValidity)))"

definition decodeDescriptor :: "'cert epoch_env \<Rightarrow> bytes \<Rightarrow> epoch_error + EpochDescriptor" where
  "decodeDescriptor env encoded =
     (case env_descriptor env encoded of
        None \<Rightarrow> Inl EpochMalformed
      | Some (d, trailing) \<Rightarrow> if trailing then Inl EpochTrailing else Inr d)"

definition epoch_Verify ::
    "'cert epoch_env \<Rightarrow> bytes \<Rightarrow> bytes \<Rightarrow> 'cert EpochVerified option \<Rightarrow> string list \<Rightarrow>
      ((epoch_error + epoch_rule) + 'cert EpochVerified) option" where
  "epoch_Verify env encoded authority previous revoked =
     (if encoded = [] \<or> length encoded > epoch_MaximumFileBytes then Some (Inl (Inl EpochSize))
      else case decodeDescriptor env encoded of
        Inl e \<Rightarrow> Some (Inl (Inl e))
      | Inr d \<Rightarrow>
          (case epoch_Digest (env_crypto env) d of
             Inl e \<Rightarrow> Some (Inl (Inl e))
           | Inr digest \<Rightarrow>
               if ep_UplinkProfile d \<noteq> [] then Some (Inl (Inl UplinkNotEmpty))
               else map_option (\<lambda>verified.
                 andThen (map_sum (Inl \<circ> EmbeddedTopology) id verified) (\<lambda>topology.
                 andThen (expect (env_certify env (the (decodeBounded (ep_DKGCertificate d))) topology) (Inl EmbeddedCertificate)) (\<lambda>certified.
                 let network = tv_Document topology in
                 andThen (map_sum Inr id (checkWindow d network)) (\<lambda>_.
                 andThen (require (list_all (\<lambda>p. \<not> revokedIdentity revoked (op_IdentityKey p)) (doc_Operators network)) (Inr RevokedIdentity)) (\<lambda>_.
                 andThen (map_sum Inr id (verifyChainLink d network previous (instant_of (ep_ActivateAt d)))) (\<lambda>_.
                 andThen (map_sum Inr id (verifyApprovals (env_crypto env) d digest previous revoked)) (\<lambda>_.
                 andThen (map_sum Inr id (verifyActivations (env_crypto env) d digest network)) (\<lambda>_.
                 Inr \<lparr>ev_Descriptor = d, ev_Digest = digest, ev_Topology = topology, ev_Certificate = certified,
                      ev_Epoch = doc_Epoch network, ev_NetworkID = doc_NetworkID network,
                      ev_ActivateAt = instant_of (ep_ActivateAt d), ev_RetireAt = instant_of (ep_RetireAt d)\<rparr>))))))))
                 (topology_Verify (env_net env) (env_keys env) (env_crypto env) (env_tokens env) (env_topology env)
                   (the (decodeBounded (ep_Topology d))) authority time_zero)))"

text \<open>
  The decoded topology and certificate are there once the digest has been computed, since it decodes the same fields.
\<close>

lemma digest_decodes:
  "epoch_Digest c d = Inr digest \<Longrightarrow> decodeBounded (ep_Topology d) \<noteq> None \<and> decodeBounded (ep_DKGCertificate d) \<noteq> None"
  by (auto simp: epoch_Digest_def epoch_CanonicalBytes_def guard_simps)

section \<open>Lifecycle position\<close>

datatype epoch_state = StateReady | StateActive | StateRetired

definition stateAtIgnoringSuccessors :: "'cert EpochVerified \<Rightarrow> instant \<Rightarrow> epoch_state" where
  "stateAtIgnoringSuccessors v now =
     (if now < ev_ActivateAt v then StateReady else if now < ev_RetireAt v then StateActive else StateRetired)"

section \<open>What a verified descriptor carries\<close>

text \<open>An operator of the previous epoch has approved the transition to a digest.\<close>

definition approves :: "crypto \<Rightarrow> 'cert EpochVerified \<Rightarrow> bytes \<Rightarrow> string list \<Rightarrow> Operator \<Rightarrow> bool" where
  "approves c previous digest revoked p \<longleftrightarrow>
     p \<in> set (ev_Operators previous) \<and> op_IdentityKey p \<notin> set revoked \<and>
     (\<exists>key signature. decodeFixed (op_IdentityKey p) publicKeySize = Some key \<and>
        ed_verify c key (approvalMessage (ev_Digest previous) digest key) signature)"

definition approvers :: "crypto \<Rightarrow> 'cert EpochVerified \<Rightarrow> bytes \<Rightarrow> string list \<Rightarrow> string set" where
  "approvers c previous digest revoked = op_ID ` {p. approves c previous digest revoked p}"

definition activated_by_all :: "crypto \<Rightarrow> bytes \<Rightarrow> Operator list \<Rightarrow> bool" where
  "activated_by_all c digest ps \<longleftrightarrow>
     (\<forall>p \<in> set ps. \<exists>key signature. decodeFixed (op_IdentityKey p) publicKeySize = Some key \<and>
        ed_verify c key (activationMessage digest) signature)"

lemma Verified_Operator_Inr: "Verified_Operator v i = Inr p \<Longrightarrow> p \<in> set (doc_Operators (tv_Document v))"
  by (auto simp: Verified_Operator_def Let_def split: if_splits) (metis not_le nth_mem)

lemma checkApprovals_Inr:
  "checkApprovals c previous digest revoked seen as = Inr seen' \<Longrightarrow> distinct seen \<Longrightarrow>
     length seen' = length seen + length as \<and> distinct seen' \<and> set seen' \<subseteq> set seen \<union> approvers c previous digest revoked"
proof (induction as arbitrary: seen)
  case (Cons a as)
  then obtain p key signature where p: "Verified_Operator (ev_Topology previous) (ucast (ap_Index a)) = Inr p"
      "op_ID p \<notin> set seen" "op_IdentityKey p \<notin> set revoked" "decodeFixed (op_IdentityKey p) publicKeySize = Some key"
      "ed_verify c key (approvalMessage (ev_Digest previous) digest key) signature"
      "checkApprovals c previous digest revoked (op_ID p # seen) as = Inr seen'"
    by (auto simp: guard_simps revokedIdentity_def split: sum.splits if_splits)
  then have "approves c previous digest revoked p"
    by (auto simp: approves_def dest: Verified_Operator_Inr)
  then have "op_ID p \<in> approvers c previous digest revoked" by (auto simp: approvers_def)
  with Cons.IH [OF p(6)] p(2) Cons.prems(2) show ?case by auto
qed simp

lemma finite_approvers [simp]: "finite (approvers c previous digest revoked)"
  by (rule finite_subset [of _ "op_ID ` set (ev_Operators previous)"]) (auto simp: approvers_def approves_def)

lemma verifyApprovals_quorum:
  assumes "verifyApprovals c d digest (Some previous) revoked = Inr ()" "ep_Transition d \<noteq> epoch_TransitionGenesis"
  shows "ApprovalQuorum previous \<le> card (approvers c previous digest revoked)"
proof -
  from assms obtain seen where seen: "checkApprovals c previous digest revoked [] (ep_Approvals d) = Inr seen" "ApprovalQuorum previous \<le> length seen"
    by (auto simp: verifyApprovals_def guard_simps)
  from checkApprovals_Inr [OF seen(1)] have "distinct seen" "set seen \<subseteq> approvers c previous digest revoked" by auto
  with seen(2) show ?thesis by (metis card_mono distinct_card finite_approvers le_trans)
qed

lemma checkActivations_Inr:
  "checkActivations c message i as ps = Inr () \<Longrightarrow> length as = length ps \<Longrightarrow> p \<in> set ps \<Longrightarrow>
     \<exists>key signature. decodeFixed (op_IdentityKey p) publicKeySize = Some key \<and> ed_verify c key message signature"
proof (induction c message i as ps rule: checkActivations.induct)
  case (1 c message i a as p' ps)
  then show ?case by (auto simp: guard_simps)
qed auto

lemma verifyActivations_all:
  assumes "verifyActivations c d digest network = Inr ()"
  shows "activated_by_all c digest (doc_Operators network)"
  unfolding activated_by_all_def
proof
  fix p assume p: "p \<in> set (doc_Operators network)"
  let ?as = "sort_key (\<lambda>a. unat (ac_Index a)) (ep_Activations d)"
  from assms have "checkActivations c (activationMessage digest) 0 ?as (doc_Operators network) = Inr ()"
      "length ?as = length (doc_Operators network)"
    by (auto simp: verifyActivations_def guard_simps)
  from checkActivations_Inr [OF this p] show "\<exists>key signature. decodeFixed (op_IdentityKey p) publicKeySize = Some key \<and>
      ed_verify c key (activationMessage digest) signature" .
qed

lemma epoch_Verify_returns: "\<exists>r. epoch_Verify env encoded authority previous revoked = Some r"
proof -
  have "\<exists>r. topology_Verify (env_net env) (env_keys env) (env_crypto env) (env_tokens env) (env_topology env) bs authority time_zero = Some r" for bs
    by (rule topology_Verify_returns)
  then show ?thesis
    by (auto simp: epoch_Verify_def Let_def split: sum.split)
qed

lemma epoch_Verify_Inr:
  assumes "epoch_Verify env encoded authority previous revoked = Some (Inr v)"
  shows "epoch_Digest (env_crypto env) (ev_Descriptor v) = Inr (ev_Digest v)"
    and "decodeDescriptor env encoded = Inr (ev_Descriptor v)"
    and "topology_Verify (env_net env) (env_keys env) (env_crypto env) (env_tokens env) (env_topology env)
        (the (decodeBounded (ep_Topology (ev_Descriptor v)))) authority time_zero = Some (Inr (ev_Topology v))"
    and "checkWindow (ev_Descriptor v) (tv_Document (ev_Topology v)) = Inr ()"
    and "\<forall>p \<in> set (ev_Operators v). op_IdentityKey p \<notin> set revoked"
    and "verifyChainLink (ev_Descriptor v) (tv_Document (ev_Topology v)) previous (ev_ActivateAt v) = Inr ()"
    and "verifyApprovals (env_crypto env) (ev_Descriptor v) (ev_Digest v) previous revoked = Inr ()"
    and "verifyActivations (env_crypto env) (ev_Descriptor v) (ev_Digest v) (tv_Document (ev_Topology v)) = Inr ()"
    and "ev_Epoch v = doc_Epoch (tv_Document (ev_Topology v)) \<and> ev_NetworkID v = doc_NetworkID (tv_Document (ev_Topology v)) \<and>
      ev_ActivateAt v = instant_of (ep_ActivateAt (ev_Descriptor v)) \<and> ev_RetireAt v = instant_of (ep_RetireAt (ev_Descriptor v))"
proof -
  from assms obtain d digest topology certified where
      "decodeDescriptor env encoded = Inr d" "epoch_Digest (env_crypto env) d = Inr digest"
      "topology_Verify (env_net env) (env_keys env) (env_crypto env) (env_tokens env) (env_topology env)
        (the (decodeBounded (ep_Topology d))) authority time_zero = Some (Inr topology)"
      "checkWindow d (tv_Document topology) = Inr ()"
      "list_all (\<lambda>p. \<not> revokedIdentity revoked (op_IdentityKey p)) (doc_Operators (tv_Document topology))"
      "verifyChainLink d (tv_Document topology) previous (instant_of (ep_ActivateAt d)) = Inr ()"
      "verifyApprovals (env_crypto env) d digest previous revoked = Inr ()"
      "verifyActivations (env_crypto env) d digest (tv_Document topology) = Inr ()"
      "v = \<lparr>ev_Descriptor = d, ev_Digest = digest, ev_Topology = topology, ev_Certificate = certified,
            ev_Epoch = doc_Epoch (tv_Document topology), ev_NetworkID = doc_NetworkID (tv_Document topology),
            ev_ActivateAt = instant_of (ep_ActivateAt d), ev_RetireAt = instant_of (ep_RetireAt d)\<rparr>"
    by (auto simp: epoch_Verify_def guard_simps Let_def split: if_splits sum.splits)
  note f = this
  show "epoch_Digest (env_crypto env) (ev_Descriptor v) = Inr (ev_Digest v)"
    "decodeDescriptor env encoded = Inr (ev_Descriptor v)"
    "topology_Verify (env_net env) (env_keys env) (env_crypto env) (env_tokens env) (env_topology env)
        (the (decodeBounded (ep_Topology (ev_Descriptor v)))) authority time_zero = Some (Inr (ev_Topology v))"
    "checkWindow (ev_Descriptor v) (tv_Document (ev_Topology v)) = Inr ()"
    "\<forall>p \<in> set (ev_Operators v). op_IdentityKey p \<notin> set revoked"
    "verifyChainLink (ev_Descriptor v) (tv_Document (ev_Topology v)) previous (ev_ActivateAt v) = Inr ()"
    "verifyApprovals (env_crypto env) (ev_Descriptor v) (ev_Digest v) previous revoked = Inr ()"
    "verifyActivations (env_crypto env) (ev_Descriptor v) (ev_Digest v) (tv_Document (ev_Topology v)) = Inr ()"
    "ev_Epoch v = doc_Epoch (tv_Document (ev_Topology v)) \<and> ev_NetworkID v = doc_NetworkID (tv_Document (ev_Topology v)) \<and>
      ev_ActivateAt v = instant_of (ep_ActivateAt (ev_Descriptor v)) \<and> ev_RetireAt v = instant_of (ep_RetireAt (ev_Descriptor v))"
    using f by (simp_all add: list_all_iff revokedIdentity_def)
qed

text \<open>The rules that tie an epoch to the one before it.\<close>

definition follows :: "'cert EpochVerified \<Rightarrow> 'cert EpochVerified \<Rightarrow> bool" where
  "follows previous v \<longleftrightarrow>
     ep_PreviousEpochDigest (ev_Descriptor v) = hex_EncodeToString (ev_Digest previous) \<and>
     ev_NetworkID v = ev_NetworkID previous \<and> ev_Epoch v = ev_Epoch previous + 1 \<and>
     (ep_Transition (ev_Descriptor v) = epoch_TransitionScheduled \<and> ev_ActivateAt v = ev_RetireAt previous \<or>
      ep_Transition (ev_Descriptor v) = epoch_TransitionEmergency \<and> ev_ActivateAt previous < ev_ActivateAt v \<and> ev_ActivateAt v < ev_RetireAt previous)"

lemma verified_follows:
  assumes "epoch_Verify env encoded authority (Some previous) revoked = Some (Inr v)"
  shows "follows previous v" and "ep_Transition (ev_Descriptor v) \<noteq> epoch_TransitionGenesis"
  using epoch_Verify_Inr(6,9) [OF assms]
  by (auto simp: verifyChainLink_def follows_def guard_simps split: if_splits)

lemma verified_genesis:
  "epoch_Verify env encoded authority None revoked = Some (Inr v) \<Longrightarrow> ep_Transition (ev_Descriptor v) = epoch_TransitionGenesis"
  using epoch_Verify_Inr(6) [of env encoded authority None revoked v] by (auto simp: verifyChainLink_def guard_simps split: if_splits)

lemma verified_window:
  assumes "epoch_Verify env encoded authority previous revoked = Some (Inr v)"
  shows "ev_ActivateAt v < ev_RetireAt v"
  using epoch_Verify_Inr(4,9) [OF assms] by (auto simp: checkWindow_def Let_def guard_simps)

lemma topology_Verify_plan:
  "topology_Verify lib keys c tokens decode encoded authority now = Some (Inr v) \<Longrightarrow> plan_ok lib keys (tv_Document v) now"
  using validateDocument_ok unfolding topology_Verify_Inr by auto

lemma plan_ok_indexed: "plan_ok lib keys d now \<Longrightarrow> indexed (doc_Operators d) \<and> length (doc_Operators d) \<le> 64 \<and> distinct (map op_ID (doc_Operators d))"
  using operators_ok_graph(1) by (auto simp: plan_ok_def operators_ok_def)

lemma verified_plan:
  assumes "epoch_Verify env encoded authority previous revoked = Some (Inr v)"
  shows "plan_ok (env_net env) (env_keys env) (tv_Document (ev_Topology v)) time_zero"
  by (rule topology_Verify_plan [OF epoch_Verify_Inr(3) [OF assms]])

lemma quorum_majority: "length (ev_Operators previous) < 2 * ApprovalQuorum previous"
  by (auto simp: ApprovalQuorum_def Let_def)

section \<open>Making a descriptor\<close>

text \<open>The approval and the activation that \<^verbatim>\<open>Approve\<close> and \<^verbatim>\<open>Activate\<close> make.\<close>

definition approval_by :: "crypto \<Rightarrow> (string \<Rightarrow> bytes) \<Rightarrow> bytes \<Rightarrow> bytes \<Rightarrow> Operator \<Rightarrow> Approval" where
  "approval_by c identities previousDigest digest p =
     \<lparr>ap_OperatorID = op_ID p, ap_Index = ucast (op_Index p), ap_Signature = b64_EncodeToString (ed_sign c (identities (op_ID p))
        (approvalMessage previousDigest digest (ed_public c (identities (op_ID p)))))\<rparr>"

definition activation_by :: "crypto \<Rightarrow> (string \<Rightarrow> bytes) \<Rightarrow> bytes \<Rightarrow> Operator \<Rightarrow> Activation" where
  "activation_by c identities digest p =
     \<lparr>ac_OperatorID = op_ID p, ac_Index = ucast (op_Index p),
      ac_Signature = b64_EncodeToString (ed_sign c (identities (op_ID p)) (activationMessage digest))\<rparr>"

definition holds :: "crypto \<Rightarrow> (string \<Rightarrow> bytes) \<Rightarrow> Operator \<Rightarrow> bool" where
  "holds c identities p \<longleftrightarrow> length (identities (op_ID p)) = privateKeySize \<and>
     decodeFixed (op_IdentityKey p) publicKeySize = Some (ed_public c (identities (op_ID p)))"

lemma Approve_makes:
  "holds c identities p \<Longrightarrow> epoch_Digest c d = Inr digest \<Longrightarrow>
     Approve c d previous p (identities (op_ID p)) = Inr (approval_by c identities (ev_Digest previous) digest p)"
  by (simp add: Approve_def requireMatchingIdentity_def holds_def approval_by_def)

lemma Activate_makes:
  "holds c identities p \<Longrightarrow> epoch_Digest c d = Inr digest \<Longrightarrow>
     Activate c d p (identities (op_ID p)) = Inr (activation_by c identities digest p)"
  by (simp add: Activate_def requireMatchingIdentity_def holds_def activation_by_def)

lemma signed_by_holder:
  assumes "sign_ok c" "holds c identities p"
  shows "decodeFixed (b64_EncodeToString (ed_sign c (identities (op_ID p)) m)) signatureSize = Some (ed_sign c (identities (op_ID p)) m)"
    and "ed_verify c (ed_public c (identities (op_ID p))) m (ed_sign c (identities (op_ID p)) m)"
  using assms by (auto simp: sign_ok_def holds_def decodeFixed_encode)

lemma index_there_and_back: "ucast (ucast (i :: u16) :: u32) = (i :: u16)" "unat (ucast (i :: u16) :: u32) = unat i"
  by (transfer, simp)+

lemma operator_found:
  assumes "indexed (ev_Operators previous)" "p \<in> set (ev_Operators previous)"
  shows "unat (op_Index p) < length (ev_Operators previous)" "Verified_Operator (ev_Topology previous) (op_Index p) = Inr p"
  using assms by (auto simp: in_set_conv_nth indexed_def Verified_Operator_def Let_def)

lemma checkApprovals_made:
  assumes "sign_ok c" "indexed (ev_Operators previous)" "length (ev_Operators previous) \<le> 64"
  shows "\<forall>p \<in> set ps. p \<in> set (ev_Operators previous) \<and> holds c identities p \<and> op_IdentityKey p \<notin> set revoked \<Longrightarrow>
    distinct (map op_ID ps) \<Longrightarrow> op_ID ` set ps \<inter> set seen = {} \<Longrightarrow>
    checkApprovals c previous digest revoked seen (map (approval_by c identities (ev_Digest previous) digest) ps) =
      Inr (rev (map op_ID ps) @ seen)"
proof (induction ps arbitrary: seen)
  case (Cons p ps)
  then have p: "p \<in> set (ev_Operators previous)" "holds c identities p" "op_IdentityKey p \<notin> set revoked" by auto
  note found = operator_found [OF assms(2) p(1)]
  have idx: "(ucast (op_Index p) :: u32) < of_nat (length (ev_Operators previous))"
    using found(1) assms(3) by (simp add: word_less_nat_alt index_there_and_back unat_of_nat)
  have rest: "checkApprovals c previous digest revoked (op_ID p # seen) (map (approval_by c identities (ev_Digest previous) digest) ps) =
      Inr (rev (map op_ID ps) @ op_ID p # seen)"
    using Cons by (intro Cons.IH) auto
  show ?case
    using p idx found(2) rest Cons.prems(3) signed_by_holder [OF assms(1) p(2)]
    by (simp add: approval_by_def [of _ _ _ _ p] index_there_and_back revokedIdentity_def holds_def [of c identities p])
qed simp

lemma checkActivations_made:
  assumes "sign_ok c"
  shows "\<forall>p \<in> set ps. holds c identities p \<Longrightarrow> \<forall>k < length ps. unat (op_Index (ps ! k)) = i + k \<Longrightarrow> i + length ps \<le> 64 \<Longrightarrow>
    checkActivations c (activationMessage digest) i (map (activation_by c identities digest) ps) ps = Inr ()"
proof (induction ps arbitrary: i)
  case (Cons p ps)
  have i: "unat (op_Index p) = i" using Cons.prems(2) by force
  have "(ucast (op_Index p) :: u32) = of_nat i"
  proof -
    have "unat (ucast (op_Index p) :: u32) = unat (of_nat i :: u32)"
      using i Cons.prems(3) by (simp add: index_there_and_back unat_of_nat)
    then show ?thesis by (metis unsigned_word_eqI)
  qed
  moreover have "\<forall>k < length ps. unat (op_Index (ps ! k)) = Suc i + k" using Cons.prems(2) by auto
  then have "checkActivations c (activationMessage digest) (Suc i) (map (activation_by c identities digest) ps) ps = Inr ()"
    using Cons.prems by (intro Cons.IH) auto
  ultimately show ?case
    using Cons.prems(1) signed_by_holder [OF assms, of identities p] by (simp add: activation_by_def [of _ _ _ p] holds_def [of c identities p])
qed simp

end
