(* ===== verification/EpochTransition.thy ===== *)
theory EpochTransition
  imports EpochRules "HOL-Library.Multiset"
begin

text \<open>
  From one epoch to the next: a verified transition has the approval of a quorum of the previous operators and the
  activation of all new ones, two different transitions from one epoch have an operator who approved both, and a
  transition that enough operators sign verifies.
\<close>

section \<open>A signed transition verifies\<close>

lemma digest_ignores_signatures:
  "epoch_Digest c (d\<lparr>ep_Approvals := as, ep_Activations := bs\<rparr>) = epoch_Digest c d"
  by (simp add: epoch_Digest_def epoch_CanonicalBytes_def)

lemma decodeBounded_encode: "length bs \<le> epoch_maxCanonicalBytes \<Longrightarrow> decodeBounded (b64_EncodeToString bs) = Some bs"
proof -
  assume "length bs \<le> epoch_maxCanonicalBytes"
  moreover have "DecodeBase64 (b64_EncodeToString bs) = Some bs" by (simp only: field64.dec_iff)
  ultimately show ?thesis by (simp add: decodeBounded_def)
qed

lemma sorted_activations:
  assumes "mset qs = mset ps" "indexed ps"
  shows "sort_key (\<lambda>a. unat (ac_Index a)) (map (activation_by c identities digest) qs) = map (activation_by c identities digest) ps"
proof -
  let ?f = "\<lambda>a. unat (ac_Index a)" and ?g = "activation_by c identities digest"
  have key: "?f (?g p) = unat (op_Index p)" for p by (simp add: activation_by_def index_there_and_back)
  have "map ?f (map ?g ps) = [0..<length ps]"
    using assms(2) by (intro nth_equalityI) (simp_all add: key indexed_def)
  then have "sorted (map ?f (map ?g ps))" "distinct (map ?f (map ?g ps))" by simp_all
  moreover have "mset (map ?g ps) = mset (map ?g qs)" using assms(1) by simp
  moreover have "inj_on ?f (set (map ?g qs))"
    using \<open>distinct (map ?f (map ?g ps))\<close> assms(1) by (metis distinct_map list.set_map set_mset_mset)
  ultimately show ?thesis by (metis sort_key_inj_key_eq)
qed

text \<open>A transition as its makers put it together.\<close>

definition made_transition ::
    "crypto \<Rightarrow> EpochDescriptor \<Rightarrow> 'cert EpochVerified \<Rightarrow> (string \<Rightarrow> bytes) \<Rightarrow> Operator list \<Rightarrow> Operator list \<Rightarrow> EpochDescriptor" where
  "made_transition c d previous identities approving activating =
     d\<lparr>ep_Approvals := map (\<lambda>p. projr (Approve c d previous p (identities (op_ID p)))) approving,
       ep_Activations := map (\<lambda>p. projr (Activate c d p (identities (op_ID p)))) activating\<rparr>"

lemma made_transition_eq:
  assumes "epoch_Digest c d = Inr digest" "\<forall>p \<in> set approving \<union> set activating. holds c identities p"
  shows "made_transition c d previous identities approving activating =
    d\<lparr>ep_Approvals := map (approval_by c identities (ev_Digest previous) digest) approving,
      ep_Activations := map (activation_by c identities digest) activating\<rparr>"
  using assms by (auto simp: made_transition_def Approve_makes Activate_makes intro!: EpochDescriptor.equality)

definition link_ok :: "string \<Rightarrow> instant \<Rightarrow> Document \<Rightarrow> 'cert EpochVerified \<Rightarrow> bool" where
  "link_ok transition activateAt network previous \<longleftrightarrow>
     doc_NetworkID network = ev_NetworkID previous \<and> doc_Epoch network = ev_Epoch previous + 1 \<and>
     (transition = epoch_TransitionScheduled \<and> activateAt = ev_RetireAt previous \<or>
      transition = epoch_TransitionEmergency \<and> ev_ActivateAt previous < activateAt \<and> activateAt < ev_RetireAt previous)"

lemma epoch_New_fields:
  assumes "epoch_New c (Some previous) transition activateAt retireAt bs cs = Inr d"
  shows "ep_PreviousEpochDigest d = hex_EncodeToString (ev_Digest previous)" "ep_Transition d = transition" "ep_ActivateAt d = activateAt"
    "ep_RetireAt d = retireAt" "ep_UplinkProfile d = []" "ep_Topology d = b64_EncodeToString bs" "ep_DKGCertificate d = b64_EncodeToString cs"
  using assms by (auto simp: epoch_New_def Let_def guard_simps)

lemma bounded_when_encoded: "decodeBounded (b64_EncodeToString x) = Some y \<Longrightarrow> length x \<le> epoch_maxCanonicalBytes"
  using field64.dec_iff [of "b64_EncodeToString x" x] by (auto simp: decodeBounded_def split: option.splits if_splits)

lemma activations_made:
  assumes "sign_ok c" and topo: "topology_Verify lib keys c tokens decode bs authority time_zero = Some (Inr topo)"
    and act: "mset activating = mset (doc_Operators (tv_Document topo))"
    and held: "\<forall>p \<in> set activating. holds c identities p \<and> op_IdentityKey p \<notin> set revoked"
  shows "ep_Activations d = map (activation_by c identities digest) activating \<Longrightarrow> verifyActivations c d digest (tv_Document topo) = Inr ()"
    and "\<forall>p \<in> set (doc_Operators (tv_Document topo)). op_IdentityKey p \<notin> set revoked"
proof -
  let ?n = "tv_Document topo"
  have ops: "length (doc_Operators ?n) \<le> 64" "indexed (doc_Operators ?n)"
    using plan_ok_indexed [OF topology_Verify_plan [OF topo]] by simp_all
  have "set activating = set (doc_Operators ?n)" using act by (metis set_mset_mset)
  with held have new: "\<forall>p \<in> set (doc_Operators ?n). holds c identities p \<and> op_IdentityKey p \<notin> set revoked" by auto
  then show "\<forall>p \<in> set (doc_Operators ?n). op_IdentityKey p \<notin> set revoked" by blast
  have "checkActivations c (activationMessage digest) 0 (map (activation_by c identities digest) (doc_Operators ?n)) (doc_Operators ?n) = Inr ()"
    using checkActivations_made [OF assms(1)] new ops by (auto simp: indexed_def)
  moreover have "length activating = length (doc_Operators ?n)" using act by (metis size_mset)
  moreover assume "ep_Activations d = map (activation_by c identities digest) activating"
  ultimately show "verifyActivations c d digest ?n = Inr ()"
    using sorted_activations [OF act ops(2)] by (simp add: verifyActivations_def)
qed

lemma signed_transition_verifies:
  assumes sign: "sign_ok (env_crypto env)"
    and made: "epoch_New (env_crypto env) (Some previous) transition activateAt retireAt bs cs = Inr d"
    and topo: "topology_Verify (env_net env) (env_keys env) (env_crypto env) (env_tokens env) (env_topology env) bs authority time_zero = Some (Inr topo)"
    and cert: "env_certify env cs topo = Some cert"
    and win: "checkWindow d (tv_Document topo) = Inr ()" and link: "link_ok transition (instant_of activateAt) (tv_Document topo) previous"
    and prev: "indexed (ev_Operators previous)" "length (ev_Operators previous) \<le> 64"
    and app: "set approving \<subseteq> set (ev_Operators previous)" "distinct (map op_ID approving)" "ApprovalQuorum previous \<le> length approving"
    and act: "mset activating = mset (doc_Operators (tv_Document topo))"
    and keys: "\<forall>p \<in> set approving \<union> set activating. holds (env_crypto env) identities p \<and> op_IdentityKey p \<notin> set revoked"
    and enc: "encoded \<noteq> []" "length encoded \<le> epoch_MaximumFileBytes"
      "decodeDescriptor env encoded = Inr (made_transition (env_crypto env) d previous identities approving activating)"
  shows "\<exists>v. epoch_Verify env encoded authority (Some previous) revoked = Some (Inr v) \<and> ev_Topology v = topo \<and>
    ev_Certificate v = cert \<and> epoch_Digest (env_crypto env) d = Inr (ev_Digest v)"
proof -
  let ?c = "env_crypto env" and ?n = "tv_Document topo"
  obtain digest where digest: "epoch_Digest ?c d = Inr digest" using made by (auto simp: epoch_New_def Let_def guard_simps)
  note fields = epoch_New_fields [OF made]
  have small: "length bs \<le> epoch_maxCanonicalBytes" "length cs \<le> epoch_maxCanonicalBytes"
    using digest_decodes [OF digest] fields bounded_when_encoded by auto
  let ?d = "d\<lparr>ep_Approvals := map (approval_by ?c identities (ev_Digest previous) digest) approving,
      ep_Activations := map (activation_by ?c identities digest) activating\<rparr>"
  have made': "made_transition ?c d previous identities approving activating = ?d"
    using made_transition_eq [OF digest] keys by blast
  have "transition \<noteq> epoch_TransitionGenesis"
    using link by (auto simp: link_ok_def epoch_TransitionGenesis_def epoch_TransitionScheduled_def epoch_TransitionEmergency_def)
  have chain: "verifyChainLink ?d ?n (Some previous) (instant_of activateAt) = Inr ()"
    using link fields \<open>transition \<noteq> _\<close>
    by (auto simp: verifyChainLink_def link_ok_def epoch_TransitionScheduled_def epoch_TransitionEmergency_def)
  have "checkApprovals ?c previous digest revoked [] (ep_Approvals ?d) = Inr (rev (map op_ID approving))"
    using checkApprovals_made [OF sign prev, of approving identities revoked "[]" digest] app(1,2) keys by auto
  then have approvals: "verifyApprovals ?c ?d digest (Some previous) revoked = Inr ()"
    using app(3) fields \<open>transition \<noteq> _\<close> by (simp add: verifyApprovals_def)
  have act_keys: "\<forall>p \<in> set activating. holds ?c identities p \<and> op_IdentityKey p \<notin> set revoked" using keys by blast
  note made_act = activations_made [OF sign topo act act_keys]
  have activations: "verifyActivations ?c ?d digest ?n = Inr ()" by (rule made_act(1)) simp
  have win': "checkWindow ?d ?n = Inr ()" using win by (simp add: checkWindow_def)
  have dig': "epoch_Digest ?c ?d = Inr digest" using digest digest_ignores_signatures by simp
  show ?thesis
    using enc topo cert win' chain approvals activations dig' digest fields decodeBounded_encode [OF small(1)] decodeBounded_encode [OF small(2)] made_act(2)
    by (simp add: epoch_Verify_def made' list_all_iff revokedIdentity_def Let_def)
qed

text \<open>The first epoch needs no approval, only the activation of its operators.\<close>

definition made_genesis :: "crypto \<Rightarrow> EpochDescriptor \<Rightarrow> (string \<Rightarrow> bytes) \<Rightarrow> Operator list \<Rightarrow> EpochDescriptor" where
  "made_genesis c d identities activating = d\<lparr>ep_Activations := map (\<lambda>p. projr (Activate c d p (identities (op_ID p)))) activating\<rparr>"

lemma signed_genesis_verifies:
  fixes env :: "'cert epoch_env"
  assumes sign: "sign_ok (env_crypto env)"
    and made: "epoch_New (env_crypto env) (None :: 'cert EpochVerified option) epoch_TransitionGenesis activateAt retireAt bs cs = Inr d"
    and topo: "topology_Verify (env_net env) (env_keys env) (env_crypto env) (env_tokens env) (env_topology env) bs authority time_zero = Some (Inr topo)"
    and cert: "env_certify env cs topo = Some cert" and win: "checkWindow d (tv_Document topo) = Inr ()"
    and act: "mset activating = mset (doc_Operators (tv_Document topo))"
    and keys: "\<forall>p \<in> set activating. holds (env_crypto env) identities p \<and> op_IdentityKey p \<notin> set revoked"
    and enc: "encoded \<noteq> []" "length encoded \<le> epoch_MaximumFileBytes"
      "decodeDescriptor env encoded = Inr (made_genesis (env_crypto env) d identities activating)"
  shows "\<exists>v. epoch_Verify env encoded authority None revoked = Some (Inr v) \<and> ev_Topology v = topo \<and>
    epoch_Digest (env_crypto env) d = Inr (ev_Digest v)"
proof -
  let ?c = "env_crypto env" and ?n = "tv_Document topo"
  obtain digest where digest: "epoch_Digest ?c d = Inr digest" using made by (auto simp: epoch_New_def Let_def guard_simps)
  have fields: "ep_PreviousEpochDigest d = epoch_zeroDigestHex" "ep_Transition d = epoch_TransitionGenesis" "ep_UplinkProfile d = []"
      "ep_Topology d = b64_EncodeToString bs" "ep_DKGCertificate d = b64_EncodeToString cs" "ep_Approvals d = []"
    using made by (auto simp: epoch_New_def Let_def guard_simps)
  have small: "length bs \<le> epoch_maxCanonicalBytes" "length cs \<le> epoch_maxCanonicalBytes"
    using digest_decodes [OF digest] fields bounded_when_encoded by auto
  let ?d = "d\<lparr>ep_Activations := map (activation_by ?c identities digest) activating\<rparr>"
  have made': "made_genesis ?c d identities activating = ?d"
    using keys digest by (auto simp: made_genesis_def Activate_makes intro!: EpochDescriptor.equality)
  note made_act = activations_made [OF sign topo act keys]
  have "verifyActivations ?c ?d digest ?n = Inr ()" by (rule made_act(1)) simp
  moreover have "checkWindow ?d ?n = Inr ()" using win by (simp add: checkWindow_def)
  moreover have "epoch_Digest ?c ?d = Inr digest" using digest by (simp add: epoch_Digest_def epoch_CanonicalBytes_def)
  moreover have "verifyChainLink ?d ?n (None :: 'cert EpochVerified option) t = Inr ()" for t using fields by (simp add: verifyChainLink_def)
  ultimately show ?thesis
    using enc topo cert digest fields decodeBounded_encode [OF small(1)] decodeBounded_encode [OF small(2)] made_act(2)
    by (simp add: epoch_Verify_def made' list_all_iff revokedIdentity_def Let_def verifyApprovals_def)
qed

section \<open>The digest binds the descriptor\<close>

definition unsigned_part :: "EpochDescriptor \<Rightarrow> EpochDescriptor" where
  "unsigned_part d = d\<lparr>ep_Approvals := [], ep_Activations := []\<rparr>"

lemma canonical_time_short: "epoch_validateCanonicalTime s \<Longrightarrow> length s = 20"
  by (auto simp: epoch_validateCanonicalTime_def time_Format_def spell_def Let_def split: option.splits)

lemma decodeBounded_Some: "decodeBounded s = Some bs \<longleftrightarrow> b64_EncodeToString bs = s \<and> length bs \<le> epoch_maxCanonicalBytes"
proof -
  have "decodeBounded s = Some bs \<longleftrightarrow> DecodeBase64 s = Some bs \<and> length bs \<le> epoch_maxCanonicalBytes"
    by (auto simp: decodeBounded_def split: option.splits if_splits)
  then show ?thesis by (simp only: field64.dec_iff simp_thms)
qed

lemma six_fields:
  assumes "go_sized a" "go_sized b" "go_sized c" "go_sized d" "go_sized e" "go_sized f"
    "go_sized a'" "go_sized b'" "go_sized c'" "go_sized d'" "go_sized e'" "go_sized f'"
    "prefixed a @ prefixed b @ prefixed c @ prefixed d @ prefixed e @ prefixed f =
     prefixed a' @ prefixed b' @ prefixed c' @ prefixed d' @ prefixed e' @ prefixed f'"
  shows "a = a'" "b = b'" "c = c'" "d = d'" "e = e'" "f = f'"
  using assms(13) prefixed_append_inj [OF assms(6,12), of "[]" "[]"]
  by (simp_all only: prefixed_append_inj [OF assms(1,7)] prefixed_append_inj [OF assms(2,8)] prefixed_append_inj [OF assms(3,9)]
      prefixed_append_inj [OF assms(4,10)] prefixed_append_inj [OF assms(5,11)] append_Nil2 simp_thms)

lemma epoch_CanonicalBytes_inj:
  assumes "epoch_CanonicalBytes d = Inr bs" "epoch_CanonicalBytes e = Inr bs"
  shows "unsigned_part d = unsigned_part e"
proof -
  have shape: "\<exists>pd tb cb ub. bs = prefixed (bytes_of epoch_Version) @ pd @ prefixed (bytes_of (ep_Transition x)) @
       prefixed (bytes_of (ep_ActivateAt x)) @ prefixed (bytes_of (ep_RetireAt x)) @ prefixed tb @ prefixed cb @ prefixed ub \<and>
       ep_Version x = epoch_Version \<and> length pd = 32 \<and> ep_PreviousEpochDigest x = hex_EncodeToString pd \<and>
       ep_Topology x = b64_EncodeToString tb \<and> ep_DKGCertificate x = b64_EncodeToString cb \<and> ep_UplinkProfile x = b64_EncodeToString ub \<and>
       go_sized (bytes_of (ep_Transition x)) \<and> go_sized (bytes_of (ep_ActivateAt x)) \<and> go_sized (bytes_of (ep_RetireAt x)) \<and>
       go_sized tb \<and> go_sized cb \<and> go_sized ub"
    if "epoch_CanonicalBytes x = Inr bs" for x
  proof -
    from that obtain pd tb cb ub where f: "decodeHex 32 (ep_PreviousEpochDigest x) = Some pd" "decodeBounded (ep_Topology x) = Some tb"
        "decodeBounded (ep_DKGCertificate x) = Some cb" "decodeBounded (ep_UplinkProfile x) = Some ub" "ep_Version x = epoch_Version"
        "epoch_validateCanonicalTime (ep_ActivateAt x)" "epoch_validateCanonicalTime (ep_RetireAt x)"
        "ep_Transition x \<in> {epoch_TransitionGenesis, epoch_TransitionScheduled, epoch_TransitionEmergency}"
        "bs = prefixed (bytes_of (ep_Version x)) @ pd @ prefixed (bytes_of (ep_Transition x)) @
       prefixed (bytes_of (ep_ActivateAt x)) @ prefixed (bytes_of (ep_RetireAt x)) @ prefixed tb @ prefixed cb @ prefixed ub"
      by (auto simp: epoch_CanonicalBytes_def guard_simps)
    have sized: "go_sized xs" if "length xs \<le> epoch_maxCanonicalBytes" for xs :: "'z list"
      using that by (rule le_less_trans) (simp add: epoch_maxCanonicalBytes_def)
    have "length (ep_Transition x) \<le> epoch_maxCanonicalBytes"
      using f(8) by (auto simp: epoch_TransitionGenesis_def epoch_TransitionScheduled_def epoch_TransitionEmergency_def epoch_maxCanonicalBytes_def)
    moreover have "length (ep_ActivateAt x) \<le> epoch_maxCanonicalBytes" "length (ep_RetireAt x) \<le> epoch_maxCanonicalBytes"
      using canonical_time_short [OF f(6)] canonical_time_short [OF f(7)] by (simp_all add: epoch_maxCanonicalBytes_def)
    moreover have "length tb \<le> epoch_maxCanonicalBytes" "length cb \<le> epoch_maxCanonicalBytes" "length ub \<le> epoch_maxCanonicalBytes"
      using f(2-4) by (simp_all add: decodeBounded_Some)
    ultimately have "go_sized (bytes_of (ep_Transition x))" "go_sized (bytes_of (ep_ActivateAt x))" "go_sized (bytes_of (ep_RetireAt x))"
        "go_sized tb" "go_sized cb" "go_sized ub"
      using sized by (simp_all only: length_bytes_of)
    moreover have "length pd = 32" "ep_PreviousEpochDigest x = hex_EncodeToString pd"
      using hex32.dec_iff [THEN iffD1, OF f(1)] by simp_all
    moreover have "ep_Topology x = b64_EncodeToString tb" "ep_DKGCertificate x = b64_EncodeToString cb" "ep_UplinkProfile x = b64_EncodeToString ub"
      using f(2-4) by (simp_all add: decodeBounded_Some)
    ultimately show ?thesis using f(5,9) by metis
  qed
  obtain pd tb cb ub where D: "bs = prefixed (bytes_of epoch_Version) @ pd @ prefixed (bytes_of (ep_Transition d)) @
       prefixed (bytes_of (ep_ActivateAt d)) @ prefixed (bytes_of (ep_RetireAt d)) @ prefixed tb @ prefixed cb @ prefixed ub"
      "ep_Version d = epoch_Version" "length pd = 32" "ep_PreviousEpochDigest d = hex_EncodeToString pd"
      "ep_Topology d = b64_EncodeToString tb" "ep_DKGCertificate d = b64_EncodeToString cb" "ep_UplinkProfile d = b64_EncodeToString ub"
      and gd: "go_sized (bytes_of (ep_Transition d))" "go_sized (bytes_of (ep_ActivateAt d))" "go_sized (bytes_of (ep_RetireAt d))"
       "go_sized tb" "go_sized cb" "go_sized ub"
    using shape [OF assms(1)] by blast
  obtain pe te ce ue where E: "bs = prefixed (bytes_of epoch_Version) @ pe @ prefixed (bytes_of (ep_Transition e)) @
       prefixed (bytes_of (ep_ActivateAt e)) @ prefixed (bytes_of (ep_RetireAt e)) @ prefixed te @ prefixed ce @ prefixed ue"
      "ep_Version e = epoch_Version" "length pe = 32" "ep_PreviousEpochDigest e = hex_EncodeToString pe"
      "ep_Topology e = b64_EncodeToString te" "ep_DKGCertificate e = b64_EncodeToString ce" "ep_UplinkProfile e = b64_EncodeToString ue"
      and ge: "go_sized (bytes_of (ep_Transition e))" "go_sized (bytes_of (ep_ActivateAt e))" "go_sized (bytes_of (ep_RetireAt e))"
       "go_sized te" "go_sized ce" "go_sized ue"
    using shape [OF assms(2)] by blast
  have "pd = pe" and rest: "prefixed (bytes_of (ep_Transition d)) @ prefixed (bytes_of (ep_ActivateAt d)) @ prefixed (bytes_of (ep_RetireAt d)) @
      prefixed tb @ prefixed cb @ prefixed ub = prefixed (bytes_of (ep_Transition e)) @ prefixed (bytes_of (ep_ActivateAt e)) @
      prefixed (bytes_of (ep_RetireAt e)) @ prefixed te @ prefixed ce @ prefixed ue"
    using D(1,3) E(1,3) by simp_all
  note six = six_fields [OF gd ge rest]
  with D E \<open>pd = pe\<close> show ?thesis
    by (intro EpochDescriptor.equality) (simp_all add: unsigned_part_def)
qed

lemma epoch_Digest_binds:
  assumes "epoch_Digest c d = Inr x" "epoch_Digest c e = Inr x"
  shows "unsigned_part d = unsigned_part e \<or>
    collides (sha256 c) (map (\<lambda>d. bytes_of digestDomain @ projr (epoch_CanonicalBytes d)) [d, e])"
proof -
  from assms obtain a b where ab: "epoch_CanonicalBytes d = Inr a" "epoch_CanonicalBytes e = Inr b"
      "sha256 c (bytes_of digestDomain @ a) = x" "sha256 c (bytes_of digestDomain @ b) = x"
    by (auto simp: epoch_Digest_def guard_simps)
  show ?thesis
  proof (cases "a = b")
    case True
    with ab epoch_CanonicalBytes_inj [OF ab(1), of e] show ?thesis by blast
  next
    case False
    have "collides (sha256 c) (map (\<lambda>d. bytes_of digestDomain @ projr (epoch_CanonicalBytes d)) [d, e])"
      by (rule collidesI [of "bytes_of digestDomain @ a" _ "bytes_of digestDomain @ b"]) (use ab False in simp_all)
    then show ?thesis ..
  qed
qed

section \<open>A transition of the network of three\<close>

lemma parsed_is_canonical: "time_Parse s = Some t \<Longrightarrow> epoch_validateCanonicalTime s"
  using rfc3339.dec_iff [of s t] by (simp add: epoch_validateCanonicalTime_def time_ParseRFC3339_canonical)

definition sample_previous :: "unit EpochVerified" where
  "sample_previous =
     \<lparr>ev_Descriptor = \<lparr>ep_Version = epoch_Version, ep_PreviousEpochDigest = epoch_zeroDigestHex, ep_Transition = epoch_TransitionGenesis,
        ep_ActivateAt = ''2026-01-03T00:00:00Z'', ep_RetireAt = ''2026-01-10T00:00:00Z'', ep_Topology = [], ep_DKGCertificate = [],
        ep_UplinkProfile = [], ep_Approvals = [], ep_Activations = []\<rparr>,
      ev_Digest = replicate 32 3, ev_Topology = \<lparr>tv_Document = sample_plan\<lparr>doc_Epoch := 6\<rparr>, tv_Digest = replicate 32 0\<rparr>,
      ev_Certificate = (), ev_Epoch = 6, ev_NetworkID = ''net'',
      ev_ActivateAt = instant_of ''2026-01-03T00:00:00Z'', ev_RetireAt = instant_of ''2026-01-10T00:00:00Z''\<rparr>"

definition sample_next_epoch :: EpochDescriptor where
  "sample_next_epoch = projr (epoch_New sample_crypto (Some sample_previous) epoch_TransitionScheduled ''2026-01-10T00:00:00Z'' ''2026-01-20T00:00:00Z'' [1] [2])"

definition sample_env :: "unit epoch_env" where
  "sample_env = \<lparr>env_net = sample_netlib, env_keys = sample_keylib, env_crypto = sample_crypto, env_tokens = (\<lambda>_. [JScalar]),
     env_topology = sample_reader,
     env_descriptor = (\<lambda>bs. if bs = [7] then Some (made_transition sample_crypto sample_next_epoch sample_previous sample_identity
       [sample_operator 2 ''c'' 0, sample_operator 0 ''a'' 1] (rev (doc_Operators (sgn_Document sample_signed_plan))), False) else None),
     env_certify = (\<lambda>_ _. Some ())\<rparr>"

lemma sample_instants:
  "time_Parse ''2026-01-10T00:00:00Z'' = Some 63935222400000000000" "time_Parse ''2026-01-20T00:00:00Z'' = Some 63936086400000000000"
  by (simp_all add: time_Parse_def header_eval)

lemma sample_next_epoch_made:
  "epoch_New sample_crypto (Some sample_previous) epoch_TransitionScheduled ''2026-01-10T00:00:00Z'' ''2026-01-20T00:00:00Z'' [1] [2] = Inr sample_next_epoch"
proof -
  have "decodeHex 32 (hex_EncodeToString (ev_Digest sample_previous)) = Some (replicate 32 3)"
    using hex32.dec_iff by (simp add: sample_previous_def)
  moreover have "decodeBounded (b64_EncodeToString [n]) = Some [n]" for n
    by (rule decodeBounded_encode) (simp add: epoch_maxCanonicalBytes_def)
  moreover have "decodeBounded [] = Some []"
    using decodeBounded_Some [of "[]" "[]"] by simp
  ultimately show ?thesis
    using parsed_is_canonical [OF sample_instants(1)] parsed_is_canonical [OF sample_instants(2)]
    by (simp add: sample_next_epoch_def epoch_New_def Let_def epoch_Digest_def epoch_CanonicalBytes_def del: b64_EncodeToString.simps)
qed

lemma sample_operators_hold:
  assumes "blank_attestations d = blank_attestations sample_plan" "p \<in> set (doc_Operators d)"
  shows "holds sample_crypto sample_identity p"
proof -
  from assms(2) obtain k where k: "k < length (doc_Operators d)" "p = doc_Operators d ! k" by (auto simp: in_set_conv_nth)
  let ?q = "doc_Operators sample_plan ! k"
  have "k < length (doc_Operators sample_plan)" using k same_plan(3) [OF assms(1)] by simp
  then have "?q \<in> set (doc_Operators sample_plan)" "op_ID p = op_ID ?q \<and> op_IdentityKey p = op_IdentityKey ?q"
    using blank_fields [OF same_plan(4) [OF assms(1)]] k(2) by simp_all
  then show ?thesis using sample_identities by (simp add: holds_def holds_identities_def)
qed

lemma sample_transition_verifies:
  "\<exists>v. epoch_Verify sample_env [7] (replicate 32 5) (Some sample_previous) [] = Some (Inr v) \<and> ev_Epoch v = 7"
proof -
  obtain topo where topo: "topology_Verify sample_netlib sample_keylib sample_crypto (\<lambda>_. [JScalar]) sample_reader [1] (replicate 32 5) time_zero = Some (Inr topo)"
      "blank_attestations (tv_Document topo) = blank_attestations sample_plan"
    using sample_topology_verifies by blast
  have doc: "tv_Document topo = sgn_Document sample_signed_plan"
    using topo(1) unfolding topology_Verify_Inr by (auto simp: sample_reader_def)
  let ?n = "tv_Document topo"
  have net: "doc_NetworkID ?n = ''net''" "doc_Epoch ?n = 7" "doc_NotBefore ?n = doc_NotBefore sample_plan" "doc_NotAfter ?n = doc_NotAfter sample_plan"
      "doc_DKG ?n = doc_DKG sample_plan"
    using arg_cong [OF topo(2), of doc_NetworkID] arg_cong [OF topo(2), of doc_Epoch] arg_cong [OF topo(2), of doc_NotBefore]
      arg_cong [OF topo(2), of doc_NotAfter] arg_cong [OF topo(2), of doc_DKG]
    by (simp_all add: blank_attestations_def sample_plan_def)
  note fields = epoch_New_fields(3,4) [OF sample_next_epoch_made]
  have "instant_of (doc_NotBefore sample_plan) = 63934444800000000000" "instant_of (doc_NotAfter sample_plan) = 63937125000500000000"
      "instant_of (dkg_StartAt (doc_DKG sample_plan)) = 63934531200000000000"
    by (simp_all add: instant_of_def sample_plan_def header_eval)
  then have win: "checkWindow sample_next_epoch ?n = Inr ()"
    using time_ParseRFC3339_canonical [OF sample_instants(1)] time_ParseRFC3339_canonical [OF sample_instants(2)]
    by (simp add: checkWindow_def fields net instant_of_def [of "''2026-01-10T00:00:00Z''"] instant_of_def [of "''2026-01-20T00:00:00Z''"]
        dkg_end_def millisecond_def) (simp add: sample_plan_def)
  have ops: "ev_Operators sample_previous = doc_Operators sample_plan" by (simp add: sample_previous_def)
  let ?app = "[sample_operator 2 ''c'' 0, sample_operator 0 ''a'' 1]" and ?act = "rev (doc_Operators (sgn_Document sample_signed_plan))"
  have keys: "\<forall>p \<in> set ?app \<union> set ?act. holds (env_crypto sample_env) sample_identity p \<and> op_IdentityKey p \<notin> set []"
    using sample_operators_hold [OF topo(2)] sample_operators_hold [OF refl] doc by (auto simp: sample_env_def sample_plan_def)
  have "\<exists>v. epoch_Verify sample_env [7] (replicate 32 5) (Some sample_previous) [] = Some (Inr v) \<and> ev_Topology v = topo \<and>
    ev_Certificate v = () \<and> epoch_Digest (env_crypto sample_env) sample_next_epoch = Inr (ev_Digest v)"
  proof (rule signed_transition_verifies [where approving = ?app and activating = ?act])
    show "epoch_New (env_crypto sample_env) (Some sample_previous) epoch_TransitionScheduled ''2026-01-10T00:00:00Z'' ''2026-01-20T00:00:00Z'' [1] [2] = Inr sample_next_epoch"
      using sample_next_epoch_made by (simp add: sample_env_def)
    show "link_ok epoch_TransitionScheduled (instant_of ''2026-01-10T00:00:00Z'') ?n sample_previous"
      by (simp add: link_ok_def net sample_previous_def)
    show "indexed (ev_Operators sample_previous)" "length (ev_Operators sample_previous) \<le> 64"
      unfolding ops by (auto simp: indexed_def sample_plan_def sample_operator_def less_Suc_eq)
    show "set ?app \<subseteq> set (ev_Operators sample_previous)" "ApprovalQuorum sample_previous \<le> length ?app"
      unfolding ApprovalQuorum_def ops by (simp_all add: sample_plan_def sample_previous_def)
  qed (use win keys topo(1) doc in \<open>simp_all add: sample_env_def decodeDescriptor_def epoch_MaximumFileBytes_def sample_operator_def\<close>)
  then obtain v where v: "epoch_Verify sample_env [7] (replicate 32 5) (Some sample_previous) [] = Some (Inr v)" "ev_Topology v = topo" by blast
  with epoch_Verify_Inr(9) [OF v(1)] net(2) show ?thesis by auto
qed

section \<open>Transitions\<close>

text \<open>
  C25: An epoch is left only with the consent of its operators. A descriptor that verifies as the successor of an epoch
  names that epoch's digest, keeps the network and takes the next number; it activates exactly where the previous epoch
  retires, or, in an emergency, inside its window, and before it retires itself. More than half of the previous
  operators, and at least its threshold, none of them revoked and each counted once, have signed this transition, and
  every operator of the new epoch, none of them revoked, has signed the new digest.
\<close>

theorem epoch_transition_needs_quorum:
  assumes "epoch_Verify env encoded authority (Some previous) revoked = Some (Inr v)"
  shows "follows previous v \<and> ev_ActivateAt v < ev_RetireAt v \<and>
    ApprovalQuorum previous \<le> card (approvers (env_crypto env) previous (ev_Digest v) revoked) \<and>
    length (ev_Operators previous) < 2 * ApprovalQuorum previous \<and>
    unat (dkg_Threshold (doc_DKG (tv_Document (ev_Topology previous)))) \<le> ApprovalQuorum previous \<and>
    activated_by_all (env_crypto env) (ev_Digest v) (ev_Operators v) \<and>
    (\<forall>p \<in> set (ev_Operators v). op_IdentityKey p \<notin> set revoked) \<and>
    plan_ok (env_net env) (env_keys env) (tv_Document (ev_Topology v)) time_zero"
proof -
  note link = verified_follows [OF assms]
  have "unat (dkg_Threshold (doc_DKG (tv_Document (ev_Topology previous)))) \<le> ApprovalQuorum previous"
    by (simp add: ApprovalQuorum_def Let_def)
  with link verified_window [OF assms] verifyApprovals_quorum [OF epoch_Verify_Inr(7) [OF assms] link(2)] quorum_majority
    verifyActivations_all [OF epoch_Verify_Inr(8) [OF assms]] epoch_Verify_Inr(5) [OF assms] verified_plan [OF assms]
  show ?thesis by blast
qed

theorem epoch_transition_needs_quorum_witness:
  "\<exists>v. ev_Epoch v = 7 \<and> follows sample_previous v \<and> 2 \<le> card (approvers sample_crypto sample_previous (ev_Digest v) [])"
proof -
  obtain v where v: "epoch_Verify sample_env [7] (replicate 32 5) (Some sample_previous) [] = Some (Inr v)" "ev_Epoch v = 7"
    using sample_transition_verifies by blast
  have "ApprovalQuorum sample_previous = 2" by (simp add: ApprovalQuorum_def sample_previous_def sample_plan_def)
  with epoch_transition_needs_quorum [OF v(1)] v(2) show ?thesis by (auto simp: sample_env_def)
qed

text \<open>Two majorities of one set of operators share a member.\<close>

definition double_signer :: "crypto \<Rightarrow> 'cert EpochVerified \<Rightarrow> bytes \<Rightarrow> bytes \<Rightarrow> bool" where
  "double_signer c previous digest1 digest2 \<longleftrightarrow>
     (\<exists>p \<in> set (ev_Operators previous). \<exists>key s1 s2. decodeFixed (op_IdentityKey p) publicKeySize = Some key \<and>
        ed_verify c key (approvalMessage (ev_Digest previous) digest1 key) s1 \<and>
        ed_verify c key (approvalMessage (ev_Digest previous) digest2 key) s2 \<and>
        (digest1 \<noteq> digest2 \<longrightarrow> approvalMessage (ev_Digest previous) digest1 key \<noteq> approvalMessage (ev_Digest previous) digest2 key))"

lemma common_approver:
  assumes "epoch_Verify env enc1 auth1 (Some previous) revoked1 = Some (Inr v)"
    and "epoch_Verify env enc2 auth2 (Some previous) revoked2 = Some (Inr w)"
    and "distinct (map op_ID (ev_Operators previous))"
  shows "double_signer (env_crypto env) previous (ev_Digest v) (ev_Digest w)"
proof -
  let ?A = "approvers (env_crypto env) previous (ev_Digest v) revoked1" and ?B = "approvers (env_crypto env) previous (ev_Digest w) revoked2"
  let ?ids = "op_ID ` set (ev_Operators previous)"
  have "ApprovalQuorum previous \<le> card ?A" "ApprovalQuorum previous \<le> card ?B"
    using verifyApprovals_quorum [OF epoch_Verify_Inr(7) [OF assms(1)] verified_follows(2) [OF assms(1)]]
      verifyApprovals_quorum [OF epoch_Verify_Inr(7) [OF assms(2)] verified_follows(2) [OF assms(2)]] by auto
  moreover have "card ?ids \<le> length (ev_Operators previous)" by (metis card_length image_set length_map)
  ultimately have more: "card ?ids < card ?A + card ?B" using quorum_majority [of previous] by linarith
  have "?A \<union> ?B \<subseteq> ?ids" by (auto simp: approvers_def approves_def)
  then have "card (?A \<union> ?B) \<le> card ?ids" by (intro card_mono) simp_all
  with more card_Un_disjoint [of ?A ?B] have "?A \<inter> ?B \<noteq> {}" by auto
  then obtain p q where p: "approves (env_crypto env) previous (ev_Digest v) revoked1 p" "approves (env_crypto env) previous (ev_Digest w) revoked2 q"
      "op_ID p = op_ID q"
    by (auto simp: approvers_def)
  have "p = q"
    using p assms(3) by (auto simp: approves_def distinct_map inj_on_def)
  with p(1,2) show ?thesis
    unfolding double_signer_def approves_def approvalMessage_def by fastforce
qed

text \<open>
  C26: A fork has a double signer. Whenever two descriptors verify as successors of one epoch, under whatever revocation
  lists and authorities, some operator of that epoch has signed the approval of both, and has therefore signed two different
  messages if the digests differ. One digest stands for one descriptor, signatures apart, or shows a SHA-256 collision.
\<close>

theorem fork_has_double_signer:
  assumes "epoch_Verify env enc1 auth1 (Some previous) revoked1 = Some (Inr v)"
    and "epoch_Verify env enc2 auth2 (Some previous) revoked2 = Some (Inr w)"
    and "distinct (map op_ID (ev_Operators previous))"
  shows "double_signer (env_crypto env) previous (ev_Digest v) (ev_Digest w) \<and>
    (ev_Digest v = ev_Digest w \<longrightarrow> unsigned_part (ev_Descriptor v) = unsigned_part (ev_Descriptor w) \<or>
      collides (sha256 (env_crypto env)) (map (\<lambda>d. bytes_of digestDomain @ projr (epoch_CanonicalBytes d)) [ev_Descriptor v, ev_Descriptor w]))"
proof
  show "double_signer (env_crypto env) previous (ev_Digest v) (ev_Digest w)" by (rule common_approver [OF assms])
next
  show "ev_Digest v = ev_Digest w \<longrightarrow> unsigned_part (ev_Descriptor v) = unsigned_part (ev_Descriptor w) \<or>
      collides (sha256 (env_crypto env)) (map (\<lambda>d. bytes_of digestDomain @ projr (epoch_CanonicalBytes d)) [ev_Descriptor v, ev_Descriptor w])"
    using epoch_Digest_binds [OF epoch_Verify_Inr(1) [OF assms(1)]] epoch_Verify_Inr(1) [OF assms(2)] by auto
qed

theorem fork_has_double_signer_witness:
  "\<exists>v :: unit EpochVerified. \<exists>p \<in> set (ev_Operators sample_previous). \<exists>key s. decodeFixed (op_IdentityKey p) publicKeySize = Some key \<and>
      ed_verify sample_crypto key (approvalMessage (replicate 32 3) (ev_Digest v) key) s \<and> ev_Epoch v = 7"
proof -
  obtain v where v: "epoch_Verify sample_env [7] (replicate 32 5) (Some sample_previous) [] = Some (Inr v)" "ev_Epoch v = 7"
    using sample_transition_verifies by blast
  have d: "distinct (map op_ID (ev_Operators sample_previous))" "ev_Digest sample_previous = replicate 32 3" "env_crypto sample_env = sample_crypto"
    by (simp_all add: sample_previous_def sample_plan_def sample_operator_def sample_env_def)
  from fork_has_double_signer [OF v(1) v(1) d(1)] v(2) show ?thesis unfolding d(2,3) double_signer_def by blast
qed

end
