(* ===== verification/EpochChain.thy ===== *)
theory EpochChain
  imports EpochTransition HopSequence
begin

text \<open>
  \<^verbatim>\<open>live/epoch/chain.go\<close>: the persisted, append-only store of epoch descriptors that every verifier keeps. The state is
  the chain in memory and the directory it is kept in; what can go wrong with the directory during one call is an
  argument. The lock across processes makes every call one step, and another process shows as a change of the
  directory between steps.
\<close>

section \<open>State\<close>

text \<open>Both descriptors of an equivocation, in full.\<close>

record equivocationProof =
  eq_NetworkID :: string
  eq_Epoch :: u64
  eq_StoredDigest :: bytes
  eq_OfferedDigest :: bytes
  eq_StoredEncoded :: bytes
  eq_OfferedEncoded :: bytes

record chainDisk =
  disk_files :: "(u64 \<times> bytes) list"
  disk_halted :: "equivocationProof option"
  disk_watermark :: "string option"

record 'cert chainState =
  ch_networkID :: string
  ch_authority :: bytes
  ch_revoked :: "string list"
  ch_epochs :: "'cert EpochVerified list"
  ch_halted :: bool

text \<open>
  What the file system does during a call: whether the lock is granted, the marker can be looked for, a file and the
  mark can be read, and how the writes end. \<open>WrittenNotSynced\<close> for the descriptor file is a failed sync of the directory.
\<close>

record chainFaults =
  fa_lock :: bool
  fa_stat :: bool
  fa_read :: "u64 \<Rightarrow> bool"
  fa_readMark :: bool
  fa_writeMark :: write_outcome
  fa_writeFile :: write_outcome
  fa_writeHalt :: bool

definition no_faults :: chainFaults where
  "no_faults = \<lparr>fa_lock = True, fa_stat = True, fa_read = (\<lambda>_. True), fa_readMark = True, fa_writeMark = Written,
     fa_writeFile = Written, fa_writeHalt = True\<rparr>"

datatype store_error =
    LockUnavailable | StatFailed | ReadFailed | StoredInvalid "epoch_error + epoch_rule" | StoredEpochWrong | StoredNetworkWrong
  | ChainHalted | OfferedSize | Offered "epoch_error + epoch_rule" | EmbeddedTopologyInvalid | EmbeddedIdentityMissing
  | DifferentNetwork | ConflictInvalid "epoch_error + epoch_rule" | Equivocation bool | MarkUnreadable | MarkMalformed
  | BurnedNumber | RollsBack | MarkNotRaised | MarkWouldFall | FileExists | FileNotWritten | DirectoryNotSynced
  | NetworkRequired | AuthorityInvalid | EpochNotStored | NotActive epoch_state

section \<open>Reading\<close>

text \<open>\<^verbatim>\<open>Verify\<close> always returns.\<close>

definition verify_descriptor ::
    "'cert epoch_env \<Rightarrow> bytes \<Rightarrow> bytes \<Rightarrow> 'cert EpochVerified option \<Rightarrow> string list \<Rightarrow> (epoch_error + epoch_rule) + 'cert EpochVerified" where
  "verify_descriptor env encoded authority previous revoked = the (epoch_Verify env encoded authority previous revoked)"

lemma verify_descriptor_iff:
  "verify_descriptor env encoded authority previous revoked = r \<longleftrightarrow> epoch_Verify env encoded authority previous revoked = Some r"
  using epoch_Verify_returns [of env encoded authority previous revoked] by (auto simp: verify_descriptor_def)

definition tip_of :: "'a list \<Rightarrow> 'a option" where
  "tip_of vs = (if vs = [] then None else Some (last vs))"

fun loadEpochs ::
    "'cert epoch_env \<Rightarrow> chainFaults \<Rightarrow> chainDisk \<Rightarrow> 'cert chainState \<Rightarrow> u64 list \<Rightarrow> store_error + 'cert chainState" where
  "loadEpochs env faults disk ch [] = Inr ch"
| "loadEpochs env faults disk ch (n # ns) =
     (case (if fa_read faults n then map_of (disk_files disk) n else None) of
        None \<Rightarrow> Inl ReadFailed
      | Some encoded \<Rightarrow>
          (case verify_descriptor env encoded (ch_authority ch) (tip_of (ch_epochs ch)) [] of
             Inl e \<Rightarrow> Inl (StoredInvalid e)
           | Inr v \<Rightarrow>
               if ev_Epoch v \<noteq> n then Inl StoredEpochWrong
               else if ev_NetworkID v \<noteq> ch_networkID ch then Inl StoredNetworkWrong
               else loadEpochs env faults disk (ch\<lparr>ch_epochs := ch_epochs ch @ [v]\<rparr>) ns))"

definition OpenChain ::
    "'cert epoch_env \<Rightarrow> chainFaults \<Rightarrow> chainDisk \<Rightarrow> string \<Rightarrow> bytes \<Rightarrow> string list \<Rightarrow> store_error + 'cert chainState" where
  "OpenChain env faults disk networkID authority revoked =
     andThen (require (networkID \<noteq> []) NetworkRequired) (\<lambda>_.
     andThen (require (length authority = publicKeySize) AuthorityInvalid) (\<lambda>_.
     andThen (require (fa_stat faults) StatFailed) (\<lambda>_.
     let ch = \<lparr>ch_networkID = networkID, ch_authority = authority, ch_revoked = revoked, ch_epochs = [], ch_halted = False\<rparr> in
     if disk_halted disk \<noteq> None then Inr (ch\<lparr>ch_halted := True\<rparr>)
     else loadEpochs env faults disk ch (sort_key unat (map fst (disk_files disk))))))"

text \<open>
  The loop of \<^verbatim>\<open>refreshLocked\<close>, which adopts what another process has stored. \<open>None\<close> means the fuel ran out; one turn
  more than there are files is enough (shown below).
\<close>

fun adoptEpochs ::
    "nat \<Rightarrow> 'cert epoch_env \<Rightarrow> chainFaults \<Rightarrow> chainDisk \<Rightarrow> 'cert chainState \<Rightarrow> ('cert chainState \<times> (store_error + unit)) option" where
  "adoptEpochs 0 env faults disk ch = None"
| "adoptEpochs (Suc fuel) env faults disk ch =
     (let n = (case tip_of (ch_epochs ch) of None \<Rightarrow> 1 | Some tip \<Rightarrow> ev_Epoch tip + 1) in
      case map_of (disk_files disk) n of
        None \<Rightarrow> Some (ch, Inr ())
      | Some encoded \<Rightarrow>
          if \<not> fa_read faults n then Some (ch, Inl ReadFailed)
          else case verify_descriptor env encoded (ch_authority ch) (tip_of (ch_epochs ch)) [] of
            Inl e \<Rightarrow> Some (ch, Inl (StoredInvalid e))
          | Inr v \<Rightarrow>
              if ev_NetworkID v \<noteq> ch_networkID ch then Some (ch, Inl StoredNetworkWrong)
              else adoptEpochs fuel env faults disk (ch\<lparr>ch_epochs := ch_epochs ch @ [v]\<rparr>))"

definition refreshLocked ::
    "'cert epoch_env \<Rightarrow> chainFaults \<Rightarrow> chainDisk \<Rightarrow> 'cert chainState \<Rightarrow> ('cert chainState \<times> (store_error + unit)) option" where
  "refreshLocked env faults disk ch =
     (if ch_halted ch then Some (ch, Inr ())
      else if \<not> fa_stat faults then Some (ch, Inl StatFailed)
      else if disk_halted disk \<noteq> None then Some (ch\<lparr>ch_halted := True\<rparr>, Inr ())
      else adoptEpochs (length (disk_files disk) + 2) env faults disk ch)"

definition embeddedIdentity :: "'cert epoch_env \<Rightarrow> EpochDescriptor \<Rightarrow> store_error + string \<times> u64" where
  "embeddedIdentity env d =
     andThen (expect (decodeBounded (ep_Topology d)) EmbeddedTopologyInvalid) (\<lambda>bs.
     andThen (expect (env_topology env bs) EmbeddedTopologyInvalid) (\<lambda>(signed, _).
     let document = sgn_Document signed in
     if doc_Epoch document = 0 \<or> doc_NetworkID document = [] then Inl EmbeddedIdentityMissing
     else Inr (doc_NetworkID document, doc_Epoch document)))"

fun lookupFrom :: "nat \<Rightarrow> u64 \<Rightarrow> 'cert EpochVerified list \<Rightarrow> (nat \<times> 'cert EpochVerified) option" where
  "lookupFrom i n [] = None"
| "lookupFrom i n (v # vs) = (if ev_Epoch v = n then Some (i, v) else lookupFrom (Suc i) n vs)"

definition lookupSlot :: "'cert chainState \<Rightarrow> u64 \<Rightarrow> (nat \<times> 'cert EpochVerified) option" where
  "lookupSlot ch n = lookupFrom 0 n (ch_epochs ch)"

definition is_space :: "char \<Rightarrow> bool" where
  "is_space ch \<longleftrightarrow> (of_char ch :: nat) \<in> {9, 10, 11, 12, 13, 32}"

definition TrimSpace :: "string \<Rightarrow> string" where
  "TrimSpace s = rev (dropWhile is_space (rev (dropWhile is_space s)))"

definition epoch_readWatermark :: "chainFaults \<Rightarrow> chainDisk \<Rightarrow> store_error + u64" where
  "epoch_readWatermark faults disk =
     (case disk_watermark disk of
        None \<Rightarrow> Inr 0
      | Some s \<Rightarrow>
          if \<not> fa_readMark faults then Inl MarkUnreadable
          else case ParseUint (TrimSpace s) 64 of None \<Rightarrow> Inl MarkMalformed | Some n \<Rightarrow> Inr (of_nat n))"

section \<open>Writing\<close>

definition mark_text :: "u64 \<Rightarrow> string" where
  "mark_text n = dec_str (unat n) @ [CHR 0x0A]"

definition raiseWatermark :: "chainFaults \<Rightarrow> chainDisk \<Rightarrow> u64 \<Rightarrow> chainDisk \<times> (store_error + unit)" where
  "raiseWatermark faults disk n =
     (case epoch_readWatermark faults disk of
        Inl e \<Rightarrow> (disk, Inl e)
      | Inr current \<Rightarrow>
          if n \<le> current then (disk, Inl MarkWouldFall)
          else (case fa_writeMark faults of
                  Written \<Rightarrow> (disk\<lparr>disk_watermark := Some (mark_text n)\<rparr>, Inr ())
                | NotWritten \<Rightarrow> (disk, Inl MarkNotRaised)
                | WrittenNotSynced \<Rightarrow> (disk\<lparr>disk_watermark := Some (mark_text n)\<rparr>, Inl MarkNotRaised)))"

definition epoch_writeNewFile :: "chainFaults \<Rightarrow> chainDisk \<Rightarrow> u64 \<Rightarrow> bytes \<Rightarrow> chainDisk \<times> (store_error + unit)" where
  "epoch_writeNewFile faults disk n encoded =
     (if map_of (disk_files disk) n \<noteq> None then (disk, Inl FileExists)
      else case fa_writeFile faults of
        Written \<Rightarrow> (disk\<lparr>disk_files := (n, encoded) # disk_files disk\<rparr>, Inr ())
      | NotWritten \<Rightarrow> (disk, Inl FileNotWritten)
      | WrittenNotSynced \<Rightarrow> (disk\<lparr>disk_files := (n, encoded) # disk_files disk\<rparr>, Inl DirectoryNotSynced))"

text \<open>The halt takes effect in memory before anything is written; an existing marker is as good as a new one.\<close>

definition halt ::
    "chainFaults \<Rightarrow> chainDisk \<Rightarrow> 'cert chainState \<Rightarrow> 'cert EpochVerified \<Rightarrow> bytes \<Rightarrow> bytes \<Rightarrow> (chainDisk \<times> 'cert chainState) \<times> bool" where
  "halt faults disk ch stored_epoch offeredDigest offered =
     (let ch' = ch\<lparr>ch_halted := True\<rparr>;
          evidence = \<lparr>eq_NetworkID = ev_NetworkID stored_epoch, eq_Epoch = ev_Epoch stored_epoch, eq_StoredDigest = ev_Digest stored_epoch,
            eq_OfferedDigest = offeredDigest,
            eq_StoredEncoded = (case map_of (disk_files disk) (ev_Epoch stored_epoch) of None \<Rightarrow> [] | Some bs \<Rightarrow> bs),
            eq_OfferedEncoded = offered\<rparr>
      in if disk_halted disk \<noteq> None then ((disk, ch'), True)
         else if fa_writeHalt faults then ((disk\<lparr>disk_halted := Some evidence\<rparr>, ch'), True)
         else ((disk, ch'), False))"

type_synonym 'cert store = "chainDisk \<times> 'cert chainState"

definition appendKnownEpoch ::
    "'cert epoch_env \<Rightarrow> chainFaults \<Rightarrow> chainDisk \<Rightarrow> 'cert chainState \<Rightarrow> nat \<times> 'cert EpochVerified \<Rightarrow> bytes \<Rightarrow> bytes \<Rightarrow>
      'cert store \<times> (store_error + 'cert EpochVerified)" where
  "appendKnownEpoch env faults disk ch slot offeredDigest encoded =
     (let (i, v) = slot; slotPrevious = (if i > 0 then Some (ch_epochs ch ! (i - 1)) else None) in
      case verify_descriptor env encoded (ch_authority ch) slotPrevious (ch_revoked ch) of
        Inl e \<Rightarrow> ((disk, ch), Inl (if ev_Digest v = offeredDigest then Offered e else ConflictInvalid e))
      | Inr competing \<Rightarrow>
          if ev_Digest v = offeredDigest then ((disk, ch), Inr v)
          else if ev_NetworkID competing \<noteq> ev_NetworkID v then ((disk, ch), Inl DifferentNetwork)
          else (case halt faults disk ch v offeredDigest encoded of (store, persisted) \<Rightarrow> (store, Inl (Equivocation persisted))))"

definition appendNewEpoch ::
    "'cert epoch_env \<Rightarrow> chainFaults \<Rightarrow> chainDisk \<Rightarrow> 'cert chainState \<Rightarrow> u64 \<Rightarrow> bytes \<Rightarrow> 'cert store \<times> (store_error + 'cert EpochVerified)" where
  "appendNewEpoch env faults disk ch probeEpoch encoded =
     (case epoch_readWatermark faults disk of
        Inl e \<Rightarrow> ((disk, ch), Inl e)
      | Inr watermark \<Rightarrow>
          if probeEpoch \<le> watermark then ((disk, ch), Inl BurnedNumber)
          else (case verify_descriptor env encoded (ch_authority ch) (tip_of (ch_epochs ch)) (ch_revoked ch) of
             Inl e \<Rightarrow> ((disk, ch), Inl (Offered e))
           | Inr v \<Rightarrow>
               if (case tip_of (ch_epochs ch) of None \<Rightarrow> False | Some tip \<Rightarrow> ev_Epoch v \<le> ev_Epoch tip) then ((disk, ch), Inl RollsBack)
               else (case raiseWatermark faults disk (ev_Epoch v) of
                  (disk1, Inl e) \<Rightarrow> ((disk1, ch), Inl e)
                | (disk1, Inr _) \<Rightarrow>
                    (case epoch_writeNewFile faults disk1 (ev_Epoch v) encoded of
                       (disk2, Inl e) \<Rightarrow> ((disk2, ch), Inl e)
                     | (disk2, Inr _) \<Rightarrow> ((disk2, ch\<lparr>ch_epochs := ch_epochs ch @ [v]\<rparr>), Inr v)))))"

text \<open>\<^verbatim>\<open>Append\<close> once the store has been refreshed, and the whole of it.\<close>

definition appendRefreshed ::
    "'cert epoch_env \<Rightarrow> chainFaults \<Rightarrow> chainDisk \<Rightarrow> 'cert chainState \<Rightarrow> bytes \<Rightarrow> 'cert store \<times> (store_error + 'cert EpochVerified)" where
  "appendRefreshed env faults disk ch encoded =
     (if ch_halted ch then ((disk, ch), Inl ChainHalted)
      else if encoded = [] \<or> length encoded > epoch_MaximumFileBytes then ((disk, ch), Inl OfferedSize)
      else (case andThen (map_sum (Offered \<circ> Inl) id (decodeDescriptor env encoded)) (\<lambda>probe.
              andThen (map_sum (Offered \<circ> Inl) id (epoch_Digest (env_crypto env) probe)) (\<lambda>offeredDigest.
              andThen (embeddedIdentity env probe) (\<lambda>(network, number). Inr (offeredDigest, network, number)))) of
         Inl e \<Rightarrow> ((disk, ch), Inl e)
       | Inr (offeredDigest, probeNetwork, probeEpoch) \<Rightarrow>
           if ch_networkID ch \<noteq> [] \<and> probeNetwork \<noteq> ch_networkID ch then ((disk, ch), Inl DifferentNetwork)
           else case lookupSlot ch probeEpoch of
             Some slot \<Rightarrow> appendKnownEpoch env faults disk ch slot offeredDigest encoded
           | None \<Rightarrow> appendNewEpoch env faults disk ch probeEpoch encoded))"

definition epoch_Append ::
    "'cert epoch_env \<Rightarrow> chainFaults \<Rightarrow> 'cert store \<Rightarrow> bytes \<Rightarrow> ('cert store \<times> (store_error + 'cert EpochVerified)) option" where
  "epoch_Append env faults store encoded =
     (case store of (disk, ch) \<Rightarrow>
      if \<not> fa_lock faults then Some ((disk, ch), Inl LockUnavailable)
      else map_option (\<lambda>(ch1, refreshed).
        case refreshed of Inl e \<Rightarrow> ((disk, ch1), Inl e) | Inr _ \<Rightarrow> appendRefreshed env faults disk ch1 encoded)
        (refreshLocked env faults disk ch))"

section \<open>Questions\<close>

definition Tip :: "'cert chainState \<Rightarrow> 'cert EpochVerified option" where
  "Tip ch = (if ch_halted ch \<or> ch_epochs ch = [] then None else Some (last (ch_epochs ch)))"

text \<open>The loop runs from the tip downwards.\<close>

fun activeFrom :: "instant \<Rightarrow> 'cert EpochVerified list \<Rightarrow> 'cert EpochVerified option" where
  "activeFrom now [] = None"
| "activeFrom now (v # vs) =
     (if now < ev_ActivateAt v then activeFrom now vs
      else if now < ev_RetireAt v then Some v else None)"

definition Chain_ActiveAt :: "'cert chainState \<Rightarrow> instant \<Rightarrow> 'cert EpochVerified option" where
  "Chain_ActiveAt ch now = (if ch_halted ch then None else activeFrom now (rev (ch_epochs ch)))"

definition chain_state_at :: "'cert EpochVerified list \<Rightarrow> nat \<Rightarrow> instant \<Rightarrow> epoch_state" where
  "chain_state_at vs i now =
     (let state = stateAtIgnoringSuccessors (vs ! i) now in
      if state = StateActive \<and> Suc i < length vs \<and>
         ep_Transition (ev_Descriptor (vs ! Suc i)) = epoch_TransitionEmergency \<and> ev_ActivateAt (vs ! Suc i) \<le> now
      then StateRetired else state)"

definition StateOf :: "'cert chainState \<Rightarrow> u64 \<Rightarrow> instant \<Rightarrow> store_error + epoch_state" where
  "StateOf ch n now =
     (if ch_halted ch then Inl ChainHalted
      else case lookupSlot ch n of
        None \<Rightarrow> Inl EpochNotStored
      | Some (i, _) \<Rightarrow> Inr (chain_state_at (ch_epochs ch) i now))"

definition ServesEpoch :: "'cert chainState \<Rightarrow> u64 \<Rightarrow> instant \<Rightarrow> store_error + unit" where
  "ServesEpoch ch n now =
     andThen (StateOf ch n now) (\<lambda>state. require (state = StateActive) (NotActive state))"

definition HighestRetired :: "'cert chainState \<Rightarrow> instant \<Rightarrow> u64" where
  "HighestRetired ch now =
     foldl (\<lambda>highest i. if chain_state_at (ch_epochs ch) i now = StateRetired \<and> ev_Epoch (ch_epochs ch ! i) > highest
              then ev_Epoch (ch_epochs ch ! i) else highest) 0 [0..<length (ch_epochs ch)]"

section \<open>The chain in memory is a history\<close>

text \<open>
  One epoch after another: it starts with a genesis, every later epoch follows the one before it, and windows are not
  empty. This says nothing of the directory, which other processes change.
\<close>

definition linked :: "'cert EpochVerified list \<Rightarrow> bool" where
  "linked vs \<longleftrightarrow>
     (\<forall>v \<in> set vs. ev_ActivateAt v < ev_RetireAt v \<and> ev_Epoch v \<noteq> 0) \<and>
     (\<forall>i. Suc i < length vs \<longrightarrow> follows (vs ! i) (vs ! Suc i)) \<and>
     (vs \<noteq> [] \<longrightarrow> ep_Transition (ev_Descriptor (hd vs)) = epoch_TransitionGenesis)"

lemma linked_Nil [simp]: "linked []"
  by (simp add: linked_def)

lemma tip_of_simps [simp]: "tip_of [] = None" "tip_of (vs @ [v]) = Some v" "vs \<noteq> [] \<Longrightarrow> tip_of vs = Some (last vs)"
  by (simp_all add: tip_of_def)

lemma linked_snoc:
  assumes "linked vs" "ev_ActivateAt v < ev_RetireAt v" "ev_Epoch v \<noteq> 0"
    "case tip_of vs of None \<Rightarrow> ep_Transition (ev_Descriptor v) = epoch_TransitionGenesis | Some tip \<Rightarrow> follows tip v"
  shows "linked (vs @ [v])"
proof (cases vs rule: rev_cases)
  case (snoc us tip)
  have "follows ((vs @ [v]) ! i) ((vs @ [v]) ! Suc i)" if i: "Suc i < length (vs @ [v])" for i
  proof (cases "Suc i < length vs")
    case False
    with i have "i = length us" using snoc by simp
    with assms(4) show ?thesis unfolding snoc by (simp add: nth_append)
  qed (use assms(1) in \<open>simp add: linked_def nth_append\<close>)
  with assms show ?thesis by (auto simp: linked_def snoc hd_append)
qed (use assms in \<open>auto simp: linked_def\<close>)

lemma verified_extends:
  assumes "verify_descriptor env encoded authority (tip_of vs) revoked = Inr v" "linked vs"
  shows "linked (vs @ [v])"
proof -
  from assms(1) have v: "epoch_Verify env encoded authority (tip_of vs) revoked = Some (Inr v)"
    by (simp add: verify_descriptor_iff)
  have "ev_Epoch v \<noteq> 0"
    using verified_plan [OF v] epoch_Verify_Inr(9) [OF v] by (simp add: plan_ok_def)
  with assms(2) verified_window [OF v] show ?thesis
  proof (intro linked_snoc)
    show "case tip_of vs of None \<Rightarrow> ep_Transition (ev_Descriptor v) = epoch_TransitionGenesis | Some tip \<Rightarrow> follows tip v"
      using v verified_genesis verified_follows(1) by (auto split: option.split)
  qed simp_all
qed

definition wf_chain :: "'cert chainState \<Rightarrow> bool" where
  "wf_chain ch \<longleftrightarrow> linked (ch_epochs ch) \<and> (\<forall>v \<in> set (ch_epochs ch). ev_NetworkID v = ch_networkID ch) \<and> ch_networkID ch \<noteq> []"

text \<open>The order in which a chain develops: epochs are only added at the end, and a halt is never undone.\<close>

definition chain_extends :: "'cert chainState \<Rightarrow> 'cert chainState \<Rightarrow> bool" where
  "chain_extends ch ch' \<longleftrightarrow>
     (\<exists>vs. ch_epochs ch' = ch_epochs ch @ vs) \<and> (ch_halted ch \<longrightarrow> ch_halted ch') \<and> ch_networkID ch' = ch_networkID ch \<and>
     ch_authority ch' = ch_authority ch \<and> ch_revoked ch' = ch_revoked ch"

lemma chain_extends_refl [simp]: "chain_extends ch ch"
  by (simp add: chain_extends_def)

lemma chain_extends_trans: "chain_extends a b \<Longrightarrow> chain_extends b c \<Longrightarrow> chain_extends a c"
  by (auto simp: chain_extends_def)

lemma wf_chain_snoc:
  assumes "wf_chain ch" "verify_descriptor env encoded authority (tip_of (ch_epochs ch)) revoked = Inr v" "ev_NetworkID v = ch_networkID ch"
  shows "wf_chain (ch\<lparr>ch_epochs := ch_epochs ch @ [v]\<rparr>)"
  using assms verified_extends [OF assms(2)] by (auto simp: wf_chain_def)

lemma loadEpochs_wf: "loadEpochs env faults disk ch ns = Inr ch' \<Longrightarrow> wf_chain ch \<Longrightarrow> wf_chain ch'"
proof (induction ns arbitrary: ch)
  case (Cons n ns)
  then show ?case by (auto split: option.splits sum.splits if_splits intro: wf_chain_snoc)
qed simp

lemma OpenChain_wf: "OpenChain env faults disk networkID authority revoked = Inr ch \<Longrightarrow> wf_chain ch"
  by (auto simp: OpenChain_def guard_simps Let_def wf_chain_def split: if_splits dest!: loadEpochs_wf)

lemma adoptEpochs_wf:
  "adoptEpochs fuel env faults disk ch = Some (ch', r) \<Longrightarrow> wf_chain ch \<Longrightarrow> wf_chain ch' \<and> chain_extends ch ch'"
proof (induction fuel arbitrary: ch)
  case (Suc fuel)
  have "chain_extends ch (ch\<lparr>ch_epochs := ch_epochs ch @ [v]\<rparr>)" for v by (simp add: chain_extends_def)
  with Suc show ?case
    by (auto simp: Let_def split: option.splits sum.splits if_splits dest!: Suc.IH intro: wf_chain_snoc chain_extends_trans)
qed simp

end
