(* ===== verification/EpochHistory.thy ===== *)
theory EpochHistory
  imports EpochChain "HOL-Library.Sublist"
begin

text \<open>
  What the epoch store promises: one epoch is served at a time, the history only grows, a halt is final and is
  caused by two valid descriptors of one epoch only.
\<close>

section \<open>One epoch at a time\<close>

lemma linked_follows: "linked vs \<Longrightarrow> Suc i < length vs \<Longrightarrow> follows (vs ! i) (vs ! Suc i)"
  by (simp add: linked_def)

lemma linked_window: "linked vs \<Longrightarrow> i < length vs \<Longrightarrow> ev_ActivateAt (vs ! i) < ev_RetireAt (vs ! i) \<and> ev_Epoch (vs ! i) \<noteq> 0"
  by (simp add: linked_def)

lemma linked_numbers: "linked vs \<Longrightarrow> i < length vs \<Longrightarrow> unat (ev_Epoch (vs ! i)) = unat (ev_Epoch (vs ! 0)) + i"
proof (induction i)
  case (Suc i)
  then have "ev_Epoch (vs ! Suc i) = ev_Epoch (vs ! i) + 1" "ev_Epoch (vs ! Suc i) \<noteq> 0"
    using linked_follows [of vs i] linked_window [of vs "Suc i"] by (auto simp: follows_def)
  then have "unat (ev_Epoch (vs ! Suc i)) = Suc (unat (ev_Epoch (vs ! i)))"
    by (metis add.commute unatSuc)
  with Suc show ?case by simp
qed simp

lemma linked_starts: "linked vs \<Longrightarrow> i < j \<Longrightarrow> j < length vs \<Longrightarrow> ev_ActivateAt (vs ! i) < ev_ActivateAt (vs ! j)"
proof (induction j)
  case (Suc j)
  then have "ev_ActivateAt (vs ! j) < ev_ActivateAt (vs ! Suc j)"
    using linked_follows [of vs j] linked_window [of vs j] by (auto simp: follows_def)
  with Suc show ?case by (cases "i = j") auto
qed simp

lemma lookupFrom_nth:
  "i < length vs \<Longrightarrow> (\<forall>j < i. ev_Epoch (vs ! j) \<noteq> ev_Epoch (vs ! i)) \<Longrightarrow> lookupFrom k (ev_Epoch (vs ! i)) vs = Some (k + i, vs ! i)"
proof (induction vs arbitrary: i k)
  case (Cons v vs)
  show ?case
  proof (cases i)
    case (Suc i')
    have "\<forall>j < i'. ev_Epoch (vs ! j) \<noteq> ev_Epoch (vs ! i')" using Cons.prems(2) Suc by (metis Suc_less_eq nth_Cons_Suc)
    with Cons.IH [of i' "Suc k"] Cons.prems Suc show ?thesis by (auto dest: spec [of _ 0])
  qed simp
qed simp

lemma lookupFrom_Some: "lookupFrom k n vs = Some (j, v) \<Longrightarrow> \<exists>i < length vs. j = k + i \<and> v = vs ! i \<and> ev_Epoch v = n"
proof (induction vs arbitrary: k)
  case (Cons u us)
  show ?case
  proof (cases "ev_Epoch u = n")
    case True
    with Cons.prems show ?thesis by (intro exI [of _ 0]) simp
  next
    case False
    with Cons.prems have "lookupFrom (Suc k) n us = Some (j, v)" by simp
    from Cons.IH [OF this] obtain i where "i < length us" "j = Suc k + i" "v = us ! i" "ev_Epoch v = n" by blast
    then show ?thesis by (intro exI [of _ "Suc i"]) simp
  qed
qed simp

lemma linked_distinct: "linked vs \<Longrightarrow> i < length vs \<Longrightarrow> j < length vs \<Longrightarrow> ev_Epoch (vs ! i) = ev_Epoch (vs ! j) \<Longrightarrow> i = j"
  by (metis add_left_cancel linked_numbers)

lemma lookupSlot_iff:
  assumes "linked (ch_epochs ch)"
  shows "lookupSlot ch n = Some (i, v) \<longleftrightarrow> i < length (ch_epochs ch) \<and> v = ch_epochs ch ! i \<and> ev_Epoch v = n"
proof
  assume "i < length (ch_epochs ch) \<and> v = ch_epochs ch ! i \<and> ev_Epoch v = n"
  then have i: "i < length (ch_epochs ch)" "v = ch_epochs ch ! i" "ev_Epoch v = n" by blast+
  have "\<forall>j < i. ev_Epoch (ch_epochs ch ! j) \<noteq> ev_Epoch (ch_epochs ch ! i)"
  proof (intro allI impI notI)
    fix j assume "j < i" "ev_Epoch (ch_epochs ch ! j) = ev_Epoch (ch_epochs ch ! i)"
    with linked_distinct [OF assms, of j i] i(1) show False by simp
  qed
  from lookupFrom_nth [OF i(1) this, of 0] i show "lookupSlot ch n = Some (i, v)" by (simp add: lookupSlot_def)
next
  assume "lookupSlot ch n = Some (i, v)"
  from lookupFrom_Some [OF this [unfolded lookupSlot_def]]
  show "i < length (ch_epochs ch) \<and> v = ch_epochs ch ! i \<and> ev_Epoch v = n" by auto
qed

text \<open>The epoch in force: the last one that has started, while it lasts.\<close>

definition in_force :: "'cert EpochVerified list \<Rightarrow> nat \<Rightarrow> instant \<Rightarrow> bool" where
  "in_force vs i now \<longleftrightarrow> i < length vs \<and> ev_ActivateAt (vs ! i) \<le> now \<and> now < ev_RetireAt (vs ! i) \<and>
     (\<forall>j. i < j \<and> j < length vs \<longrightarrow> now < ev_ActivateAt (vs ! j))"

lemma activeFrom_rev:
  "activeFrom now (rev vs) = Some v \<longleftrightarrow> (\<exists>i. in_force vs i now \<and> v = vs ! i)"
proof (induction vs rule: rev_induct)
  case (snoc u us)
  show ?case
  proof (cases "now < ev_ActivateAt u")
    case True
    then have "in_force (us @ [u]) i now \<longleftrightarrow> in_force us i now" for i
      by (auto simp: in_force_def nth_append not_less less_Suc_eq)
    with snoc True show ?thesis by (auto simp: in_force_def nth_append)
  next
    case False
    then have "in_force (us @ [u]) i now \<longleftrightarrow> i = length us \<and> now < ev_RetireAt u" for i
      by (auto simp: in_force_def nth_append not_less less_Suc_eq dest: spec [of _ "length us"])
    with False show ?thesis by auto
  qed
qed (simp add: in_force_def)

lemma chain_state_active:
  assumes "linked vs" "i < length vs"
  shows "chain_state_at vs i now = StateActive \<longleftrightarrow> in_force vs i now"
proof -
  have "in_force vs i now \<longleftrightarrow> ev_ActivateAt (vs ! i) \<le> now \<and> now < ev_RetireAt (vs ! i) \<and> (Suc i < length vs \<longrightarrow> now < ev_ActivateAt (vs ! Suc i))"
    using linked_starts [OF assms(1), of "Suc i"] assms(2) unfolding in_force_def
    by (metis lessI less_trans linorder_neqE_nat not_less_eq)
  with linked_follows [OF assms(1), of i] show ?thesis
    by (auto simp: chain_state_at_def stateAtIgnoringSuccessors_def Let_def follows_def not_less not_le
        epoch_TransitionScheduled_def epoch_TransitionEmergency_def)
qed

lemma StateOf_iff:
  assumes "linked (ch_epochs ch)" "\<not> ch_halted ch"
  shows "StateOf ch n now = Inr state \<longleftrightarrow>
    (\<exists>i < length (ch_epochs ch). ev_Epoch (ch_epochs ch ! i) = n \<and> state = chain_state_at (ch_epochs ch) i now)"
proof -
  have "StateOf ch n now = Inr state \<longleftrightarrow> (\<exists>i v. lookupSlot ch n = Some (i, v) \<and> state = chain_state_at (ch_epochs ch) i now)"
    using assms(2) by (auto simp: StateOf_def split: option.split)
  then show ?thesis unfolding lookupSlot_iff [OF assms(1)] by blast
qed

lemma served_iff:
  assumes "linked (ch_epochs ch)" "\<not> ch_halted ch"
  shows "ServesEpoch ch n now = Inr () \<longleftrightarrow> (\<exists>i. in_force (ch_epochs ch) i now \<and> ev_Epoch (ch_epochs ch ! i) = n)"
proof -
  have "ServesEpoch ch n now = Inr () \<longleftrightarrow> StateOf ch n now = Inr StateActive"
    by (auto simp: ServesEpoch_def guard_simps split: sum.split)
  then show ?thesis
    unfolding StateOf_iff [OF assms] using chain_state_active [OF assms(1)] by (metis in_force_def)
qed

lemma served_is_active:
  assumes "linked (ch_epochs ch)"
  shows "ServesEpoch ch n now = Inr () \<longleftrightarrow> (\<exists>v. Chain_ActiveAt ch now = Some v \<and> ev_Epoch v = n)"
proof (cases "ch_halted ch")
  case False
  then show ?thesis unfolding served_iff [OF assms False] Chain_ActiveAt_def by (auto simp: activeFrom_rev)
qed (simp add: ServesEpoch_def StateOf_def Chain_ActiveAt_def)

section \<open>Every offer is answered\<close>

lemma verified_number:
  assumes "verify_descriptor env encoded authority previous revoked = Inr v"
  shows "ev_Epoch v \<noteq> 0" and "previous = Some tip \<Longrightarrow> ev_Epoch v = ev_Epoch tip + 1 \<and> unat (ev_Epoch v) = Suc (unat (ev_Epoch tip))"
proof -
  from assms have v: "epoch_Verify env encoded authority previous revoked = Some (Inr v)" by (simp add: verify_descriptor_iff)
  show "ev_Epoch v \<noteq> 0" using verified_plan [OF v] epoch_Verify_Inr(9) [OF v] by (simp add: plan_ok_def)
  moreover assume "previous = Some tip"
  with v have "epoch_Verify env encoded authority (Some tip) revoked = Some (Inr v)" by simp
  from verified_follows(1) [OF this] have "ev_Epoch v = ev_Epoch tip + 1" by (simp add: follows_def)
  ultimately show "ev_Epoch v = ev_Epoch tip + 1 \<and> unat (ev_Epoch v) = Suc (unat (ev_Epoch tip))"
    by (metis add.commute unatSuc)
qed

definition ahead :: "chainDisk \<Rightarrow> u64 \<Rightarrow> u64 set" where
  "ahead disk n = {k \<in> fst ` set (disk_files disk). unat n < unat k}"

lemma card_ahead: "card (ahead disk n) \<le> length (disk_files disk)"
proof -
  have "card (ahead disk n) \<le> card (fst ` set (disk_files disk))" by (intro card_mono) (auto simp: ahead_def)
  also have "\<dots> \<le> length (disk_files disk)" by (metis card_length length_map set_map)
  finally show ?thesis .
qed

lemma adoptEpochs_from_tip:
  "tip_of (ch_epochs ch) = Some tip \<Longrightarrow> card (ahead disk (ev_Epoch tip)) < fuel \<Longrightarrow> \<exists>r. adoptEpochs fuel env faults disk ch = Some r"
proof (induction fuel arbitrary: ch tip)
  case (Suc fuel)
  have "\<exists>r. adoptEpochs fuel env faults disk (ch\<lparr>ch_epochs := ch_epochs ch @ [v]\<rparr>) = Some r"
    if stored_file: "map_of (disk_files disk) (ev_Epoch tip + 1) = Some encoded"
      and v: "verify_descriptor env encoded (ch_authority ch) (Some tip) [] = Inr v" for encoded v
  proof (rule Suc.IH)
    note n = verified_number(2) [OF v refl]
    have "ev_Epoch v \<in> ahead disk (ev_Epoch tip) - ahead disk (ev_Epoch v)"
      using n map_of_SomeD [OF stored_file] by (force simp: ahead_def)
    moreover have "ahead disk (ev_Epoch v) \<subseteq> ahead disk (ev_Epoch tip)" using n by (auto simp: ahead_def)
    ultimately have "card (ahead disk (ev_Epoch v)) < card (ahead disk (ev_Epoch tip))"
      by (intro psubset_card_mono) (auto simp: ahead_def)
    with Suc.prems show "card (ahead disk (ev_Epoch v)) < fuel" by simp
  qed simp
  with Suc.prems show ?case by (simp add: Let_def split: option.split sum.split)
qed simp

lemma refreshLocked_returns: "\<exists>r. refreshLocked env faults disk ch = Some r"
proof -
  have "\<exists>r. adoptEpochs (length (disk_files disk) + 2) env faults disk ch = Some r"
  proof (cases "tip_of (ch_epochs ch)")
    case None
    have "\<exists>r. adoptEpochs (Suc (length (disk_files disk))) env faults disk (ch\<lparr>ch_epochs := ch_epochs ch @ [v]\<rparr>) = Some r" for v
      by (rule adoptEpochs_from_tip [of _ v]) (use card_ahead [of disk "ev_Epoch v"] in simp_all)
    with None show ?thesis by (simp add: Let_def split: option.split sum.split)
  next
    case (Some tip)
    then show ?thesis by (rule adoptEpochs_from_tip) (use card_ahead [of disk "ev_Epoch tip"] in simp)
  qed
  then show ?thesis by (simp add: refreshLocked_def)
qed

lemma epoch_Append_returns: "\<exists>r. epoch_Append env faults store encoded = Some r"
proof -
  obtain disk ch where store: "store = (disk, ch)" by (rule prod.exhaust)
  obtain r where "refreshLocked env faults disk ch = Some r" using refreshLocked_returns by blast
  then show ?thesis unfolding epoch_Append_def store by (simp only: prod.case option.map split: if_split) blast
qed

section \<open>What one offer can change\<close>

lemma embedded_is_verified:
  assumes "embeddedIdentity env probe = Inr (network, n)" "decodeDescriptor env encoded = Inr probe"
    and "verify_descriptor env encoded authority previous revoked = Inr v"
  shows "ev_NetworkID v = network" "ev_Epoch v = n" "ev_Descriptor v = probe"
proof -
  from assms(3) have v: "epoch_Verify env encoded authority previous revoked = Some (Inr v)" by (simp add: verify_descriptor_iff)
  show probe: "ev_Descriptor v = probe" using epoch_Verify_Inr(2) [OF v] assms(2) by simp
  from assms(1) obtain bs signed_plan rest where bs: "decodeBounded (ep_Topology probe) = Some bs" "env_topology env bs = Some (signed_plan, rest)"
      "network = doc_NetworkID (sgn_Document signed_plan)" "n = doc_Epoch (sgn_Document signed_plan)"
    by (auto simp: embeddedIdentity_def guard_simps Let_def split: if_splits)
  from epoch_Verify_Inr(3) [OF v] probe bs(1,2) have "tv_Document (ev_Topology v) = sgn_Document signed_plan"
    unfolding topology_Verify_Inr by auto
  with epoch_Verify_Inr(9) [OF v] bs(3,4) show "ev_NetworkID v = network" "ev_Epoch v = n" by simp_all
qed

text \<open>A valid descriptor that competes with a stored epoch.\<close>

definition before :: "'a list \<Rightarrow> nat \<Rightarrow> 'a option" where
  "before vs i = (if i > 0 then Some (vs ! (i - 1)) else None)"

definition conflict :: "'cert epoch_env \<Rightarrow> 'cert chainState \<Rightarrow> bytes \<Rightarrow> bool" where
  "conflict env ch encoded \<longleftrightarrow>
     (\<exists>i competing. i < length (ch_epochs ch) \<and>
        verify_descriptor env encoded (ch_authority ch) (before (ch_epochs ch) i) (ch_revoked ch) = Inr competing \<and>
        ev_Epoch competing = ev_Epoch (ch_epochs ch ! i) \<and> ev_NetworkID competing = ev_NetworkID (ch_epochs ch ! i) \<and>
        ev_Digest competing \<noteq> ev_Digest (ch_epochs ch ! i))"

text \<open>The order of the directories one store goes through by its own calls: nothing that was written is lost or altered.\<close>

definition disk_grows :: "chainDisk \<Rightarrow> chainDisk \<Rightarrow> bool" where
  "disk_grows disk disk' \<longleftrightarrow> map_of (disk_files disk) \<subseteq>\<^sub>m map_of (disk_files disk') \<and>
     (disk_halted disk \<noteq> None \<longrightarrow> disk_halted disk' = disk_halted disk)"

lemma disk_grows_refl [simp]: "disk_grows disk disk"
  by (simp add: disk_grows_def)

lemma disk_grows_trans: "disk_grows a b \<Longrightarrow> disk_grows b c \<Longrightarrow> disk_grows a c"
  by (auto simp: disk_grows_def intro: map_le_trans)

lemma raiseWatermark_grows: "raiseWatermark faults disk n = (disk', r) \<Longrightarrow> disk_grows disk disk' \<and> disk_files disk' = disk_files disk \<and> disk_halted disk' = disk_halted disk"
  by (auto simp: raiseWatermark_def disk_grows_def split: sum.splits if_splits write_outcome.splits)

lemma epoch_writeNewFile_grows:
  "epoch_writeNewFile faults disk n encoded = (disk', r) \<Longrightarrow> disk_grows disk disk' \<and> disk_halted disk' = disk_halted disk"
  by (auto simp: epoch_writeNewFile_def disk_grows_def map_le_def split: if_splits write_outcome.splits)

lemma appendNewEpoch_effect:
  assumes "appendNewEpoch env faults disk ch n encoded = ((disk', ch'), r)" "wf_chain ch"
    and "\<And>v. verify_descriptor env encoded (ch_authority ch) (tip_of (ch_epochs ch)) (ch_revoked ch) = Inr v \<Longrightarrow> ev_NetworkID v = ch_networkID ch"
  shows "wf_chain ch'" "chain_extends ch ch'" "ch_halted ch' = ch_halted ch" "disk_grows disk disk'" "\<forall>v. r = Inr v \<longrightarrow> v \<in> set (ch_epochs ch')"
proof -
  have *: "ch' = ch \<and> (\<exists>e. r = Inl e) \<or>
      (\<exists>v. r = Inr v \<and> ch' = ch\<lparr>ch_epochs := ch_epochs ch @ [v]\<rparr> \<and>
        verify_descriptor env encoded (ch_authority ch) (tip_of (ch_epochs ch)) (ch_revoked ch) = Inr v)"
    using assms(1) by (auto simp: appendNewEpoch_def split: sum.splits if_splits prod.splits option.splits)
  then show "wf_chain ch'" using assms(2,3) wf_chain_snoc by blast
  from * show "chain_extends ch ch'" "ch_halted ch' = ch_halted ch" "\<forall>v. r = Inr v \<longrightarrow> v \<in> set (ch_epochs ch')" by (auto simp: chain_extends_def)
  show "disk_grows disk disk'"
    using assms(1) by (auto simp: appendNewEpoch_def split: sum.splits if_splits prod.splits option.splits
        dest!: raiseWatermark_grows epoch_writeNewFile_grows intro: disk_grows_trans)
qed

lemma appendKnownEpoch_effect:
  assumes "appendKnownEpoch env faults disk ch (i, v) digest encoded = ((disk', ch'), r)"
    and "i < length (ch_epochs ch)" "v = ch_epochs ch ! i"
    and "\<And>u. verify_descriptor env encoded (ch_authority ch) (before (ch_epochs ch) i) (ch_revoked ch) = Inr u \<Longrightarrow> ev_Epoch u = ev_Epoch v \<and> ev_Digest u = digest"
  shows "ch' = ch \<or> ch' = ch\<lparr>ch_halted := True\<rparr> \<and> conflict env ch encoded" "disk_grows disk disk'" "\<forall>v. r = Inr v \<longrightarrow> v \<in> set (ch_epochs ch')"
  using assms
  by (auto simp: appendKnownEpoch_def Let_def before_def [symmetric] halt_def disk_grows_def conflict_def split: sum.splits if_splits)

lemma appendRefreshed_cases:
  assumes "appendRefreshed env faults disk ch encoded = ((disk', ch'), r)"
  obtains (refused) e where "disk' = disk" "ch' = ch" "r = Inl e"
  | (probed) probe digest network n where "decodeDescriptor env encoded = Inr probe" "epoch_Digest (env_crypto env) probe = Inr digest"
      "embeddedIdentity env probe = Inr (network, n)" "ch_networkID ch \<noteq> [] \<longrightarrow> network = ch_networkID ch" "\<not> ch_halted ch"
      "(case lookupSlot ch n of Some slot \<Rightarrow> appendKnownEpoch env faults disk ch slot digest encoded
          | None \<Rightarrow> appendNewEpoch env faults disk ch n encoded) = ((disk', ch'), r)"
proof (cases "disk' = disk \<and> ch' = ch \<and> (\<exists>e. r = Inl e)")
  case False
  with assms have "\<exists>probe digest network n. decodeDescriptor env encoded = Inr probe \<and> epoch_Digest (env_crypto env) probe = Inr digest \<and>
      embeddedIdentity env probe = Inr (network, n) \<and> (ch_networkID ch \<noteq> [] \<longrightarrow> network = ch_networkID ch) \<and> \<not> ch_halted ch \<and>
      (case lookupSlot ch n of Some slot \<Rightarrow> appendKnownEpoch env faults disk ch slot digest encoded
          | None \<Rightarrow> appendNewEpoch env faults disk ch n encoded) = ((disk', ch'), r)"
    by (auto simp: appendRefreshed_def guard_simps split: if_splits sum.splits)
  then show ?thesis using that(2) by blast
qed (use that(1) in blast)

lemma epoch_Append_cases:
  assumes "epoch_Append env faults (disk, ch) encoded = Some ((disk', ch'), r)"
  obtains (unlocked) "disk' = disk" "ch' = ch" "r = Inl LockUnavailable"
  | (stale) e where "refreshLocked env faults disk ch = Some (ch', Inl e)" "disk' = disk" "r = Inl e"
  | (refreshed) ch1 where "refreshLocked env faults disk ch = Some (ch1, Inr ())" "appendRefreshed env faults disk ch1 encoded = ((disk', ch'), r)"
proof (cases "fa_lock faults")
  case True
  with assms obtain ch1 q where q: "refreshLocked env faults disk ch = Some (ch1, q)"
    "(case q of Inl e \<Rightarrow> ((disk, ch1), Inl e) | Inr _ \<Rightarrow> appendRefreshed env faults disk ch1 encoded) = ((disk', ch'), r)"
    by (auto simp: epoch_Append_def)
  show ?thesis
  proof (cases q)
    case (Inl e)
    with q have "refreshLocked env faults disk ch = Some (ch', Inl e)" "disk' = disk" "r = Inl e" by simp_all
    then show ?thesis by (rule that(2))
  next
    case (Inr u)
    with q have "refreshLocked env faults disk ch = Some (ch1, Inr ())" "appendRefreshed env faults disk ch1 encoded = ((disk', ch'), r)" by simp_all
    then show ?thesis by (rule that(3))
  qed
next
  case False
  with assms have "disk' = disk" "ch' = ch" "r = Inl LockUnavailable" by (simp_all add: epoch_Append_def)
  then show ?thesis by (rule that(1))
qed

lemma appendRefreshed_effect:
  assumes "appendRefreshed env faults disk ch encoded = ((disk', ch'), r)" "wf_chain ch"
  shows "wf_chain ch'" "chain_extends ch ch'" "ch_halted ch' \<longrightarrow> ch_halted ch \<or> conflict env ch encoded" "disk_grows disk disk'"
    "\<forall>v. r = Inr v \<longrightarrow> v \<in> set (ch_epochs ch') \<and> \<not> ch_halted ch'"
proof -
  let ?goal = "wf_chain ch' \<and> chain_extends ch ch' \<and> (ch_halted ch' \<longrightarrow> ch_halted ch \<or> conflict env ch encoded) \<and> disk_grows disk disk' \<and>
    (\<forall>v. r = Inr v \<longrightarrow> v \<in> set (ch_epochs ch') \<and> \<not> ch_halted ch')"
  from assms(1) have "?goal"
  proof (cases rule: appendRefreshed_cases)
    case (probed probe digest network n)
    note probe = probed(1-5) and step = probed(6)
    have v: "ev_NetworkID v = ch_networkID ch \<and> ev_Epoch v = n \<and> ev_Digest v = digest"
      if "verify_descriptor env encoded authority previous revoked = Inr v" for authority previous revoked v
      using embedded_is_verified [OF probe(3,1) that] epoch_Verify_Inr(1) [OF that [unfolded verify_descriptor_iff]] probe(2,4) assms(2)
      by (simp add: wf_chain_def)
    show ?thesis
    proof (cases "lookupSlot ch n")
      case None
      with step have "appendNewEpoch env faults disk ch n encoded = ((disk', ch'), r)" by simp
      from appendNewEpoch_effect [OF this assms(2)] v probe(5) show ?thesis by blast
    next
      case (Some slot)
      obtain i u where slot: "slot = (i, u)" by (rule prod.exhaust)
      with Some assms(2) have iu: "i < length (ch_epochs ch)" "u = ch_epochs ch ! i" "ev_Epoch u = n"
        by (auto simp: wf_chain_def lookupSlot_iff)
      from step Some slot have known: "appendKnownEpoch env faults disk ch (i, u) digest encoded = ((disk', ch'), r)" by simp
      note e = appendKnownEpoch_effect [OF known iu(1,2)]
      have "ch' = ch \<or> ch' = ch\<lparr>ch_halted := True\<rparr> \<and> conflict env ch encoded \<and> (\<exists>e. r = Inl e)"
        using e(1) v iu known by (auto simp: appendKnownEpoch_def halt_def Let_def split: sum.splits if_splits)
      with e(2,3) v iu probe(5) assms(2) show ?thesis by (auto simp: chain_extends_def wf_chain_def)
    qed
  qed (use assms(2) in auto)
  then show "wf_chain ch'" "chain_extends ch ch'" "ch_halted ch' \<longrightarrow> ch_halted ch \<or> conflict env ch encoded" "disk_grows disk disk'"
    "\<forall>v. r = Inr v \<longrightarrow> v \<in> set (ch_epochs ch') \<and> \<not> ch_halted ch'" by blast+
qed

lemma refreshLocked_effect:
  assumes "refreshLocked env faults disk ch = Some (ch', r)" "wf_chain ch"
  shows "wf_chain ch' \<and> chain_extends ch ch' \<and> (ch_halted ch' \<longrightarrow> ch_halted ch \<or> disk_halted disk \<noteq> None)"
proof -
  have same: "adoptEpochs fuel env faults disk c = Some (c', r) \<Longrightarrow> ch_halted c' = ch_halted c" for fuel c c'
    by (induction fuel arbitrary: c) (auto simp: Let_def split: option.splits sum.splits if_splits)
  consider "ch' = ch" | "ch' = ch\<lparr>ch_halted := True\<rparr>" "disk_halted disk \<noteq> None"
    | "adoptEpochs (length (disk_files disk) + 2) env faults disk ch = Some (ch', r)"
    using assms(1) unfolding refreshLocked_def by (metis Pair_inject option.inject)
  then show ?thesis
  proof cases
    case 3
    from adoptEpochs_wf [OF this assms(2)] same [OF this] show ?thesis by simp
  qed (use assms(2) in \<open>auto simp: wf_chain_def chain_extends_def\<close>)
qed

lemma conflict_extends: "conflict env ch encoded \<Longrightarrow> chain_extends ch ch' \<Longrightarrow> conflict env ch' encoded"
proof -
  assume "conflict env ch encoded" "chain_extends ch ch'"
  then obtain i competing vs where "i < length (ch_epochs ch)" "ch_epochs ch' = ch_epochs ch @ vs" "ch_authority ch' = ch_authority ch"
      "ch_revoked ch' = ch_revoked ch" "verify_descriptor env encoded (ch_authority ch) (before (ch_epochs ch) i) (ch_revoked ch) = Inr competing"
      "ev_Epoch competing = ev_Epoch (ch_epochs ch ! i)" "ev_NetworkID competing = ev_NetworkID (ch_epochs ch ! i)"
      "ev_Digest competing \<noteq> ev_Digest (ch_epochs ch ! i)"
    unfolding conflict_def chain_extends_def by blast
  then show "conflict env ch' encoded"
    unfolding conflict_def by (intro exI [of _ i] exI [of _ competing]) (auto simp: before_def nth_append)
qed

lemma epoch_Append_effect:
  assumes "epoch_Append env faults (disk, ch) encoded = Some ((disk', ch'), r)" "wf_chain ch"
  shows "wf_chain ch'" "chain_extends ch ch'" "disk_grows disk disk'"
    "ch_halted ch' \<longrightarrow> ch_halted ch \<or> disk_halted disk \<noteq> None \<or> conflict env ch' encoded"
    "\<forall>v. r = Inr v \<longrightarrow> v \<in> set (ch_epochs ch') \<and> \<not> ch_halted ch'"
proof -
  let ?goal = "wf_chain ch' \<and> chain_extends ch ch' \<and> disk_grows disk disk' \<and>
    (ch_halted ch' \<longrightarrow> ch_halted ch \<or> disk_halted disk \<noteq> None \<or> conflict env ch' encoded) \<and>
    (\<forall>v. r = Inr v \<longrightarrow> v \<in> set (ch_epochs ch') \<and> \<not> ch_halted ch')"
  from assms(1) have ?goal
  proof (cases rule: epoch_Append_cases)
    case (stale e)
    with refreshLocked_effect [OF stale(1) assms(2)] show ?thesis by auto
  next
    case (refreshed ch1)
    note e = refreshLocked_effect [OF refreshed(1) assms(2)]
    note f = appendRefreshed_effect [OF refreshed(2) conjunct1 [OF e]]
    have "chain_extends ch ch'" using e f(2) chain_extends_trans by blast
    moreover have "ch_halted ch' \<longrightarrow> ch_halted ch \<or> disk_halted disk \<noteq> None \<or> conflict env ch' encoded"
      using e f(2,3) conflict_extends by blast
    ultimately show ?thesis using f(1,4,5) by blast
  qed (use assms(2) in auto)
  then show "wf_chain ch'" "chain_extends ch ch'" "disk_grows disk disk'"
    "ch_halted ch' \<longrightarrow> ch_halted ch \<or> disk_halted disk \<noteq> None \<or> conflict env ch' encoded"
    "\<forall>v. r = Inr v \<longrightarrow> v \<in> set (ch_epochs ch') \<and> \<not> ch_halted ch'" by blast+
qed

section \<open>Any run of the store\<close>

text \<open>A descriptor is offered, or another process has left the directory in some other state.\<close>

datatype chain_event = Offer chainFaults bytes | Elsewhere chainDisk

definition store_step :: "'cert epoch_env \<Rightarrow> 'cert store \<Rightarrow> chain_event \<Rightarrow> 'cert store" where
  "store_step env store event =
     (case event of
        Offer faults encoded \<Rightarrow> fst (the (epoch_Append env faults store encoded))
      | Elsewhere disk \<Rightarrow> (disk, snd store))"

lemma Offer_effect:
  assumes "wf_chain ch" "store_step env (disk, ch) (Offer faults encoded) = (disk', ch')"
  shows "\<exists>r. epoch_Append env faults (disk, ch) encoded = Some ((disk', ch'), r)"
  using assms epoch_Append_returns [of env faults "(disk, ch)" encoded] by (auto simp: store_step_def)

interpretation epoch_store: ordered_machine "store_step env" "\<lambda>store. wf_chain (snd store)" "\<lambda>store store'. chain_extends (snd store) (snd store')"
  for env :: "'cert epoch_env"
proof
  fix store :: "'cert store" and event
  assume wf: "wf_chain (snd store)"
  obtain disk ch disk' ch' where st: "store = (disk, ch)" "store_step env store event = (disk', ch')" by (metis surj_pair)
  have "wf_chain ch' \<and> chain_extends ch ch'"
  proof (cases event)
    case (Offer faults encoded)
    from Offer_effect [of ch env disk faults encoded disk' ch'] wf st Offer obtain r
      where "epoch_Append env faults (disk, ch) encoded = Some ((disk', ch'), r)" by auto
    with epoch_Append_effect(1,2) wf st show ?thesis by (metis snd_conv)
  qed (use st wf in \<open>auto simp: store_step_def\<close>)
  with st show "wf_chain (snd (store_step env store event))" "chain_extends (snd store) (snd (store_step env store event))" by simp_all
qed (auto intro: chain_extends_trans)

section \<open>Serving over time\<close>

lemma in_force_later:
  assumes "linked vs" "in_force vs i now" "in_force vs j later" "now \<le> later"
  shows "i \<le> j"
  using assms by (auto simp: in_force_def not_le)

lemma state_before_force:
  assumes "linked vs" "in_force vs j now" "i < length vs" "chain_state_at vs i now = StateRetired"
  shows "ev_Epoch (vs ! i) < ev_Epoch (vs ! j)"
proof -
  have "i \<noteq> j" using chain_state_active [OF assms(1,3), of now] assms(2,4) by auto
  moreover have "\<not> j < i"
    using assms(2-4) linked_window [OF assms(1,3)] by (auto simp: in_force_def chain_state_at_def stateAtIgnoringSuccessors_def Let_def split: if_splits)
  ultimately have "i < j" by simp
  moreover have "j < length vs" using assms(2) by (simp add: in_force_def)
  ultimately show ?thesis using linked_numbers [OF assms(1)] assms(3) by (simp add: word_less_nat_alt)
qed

lemma HighestRetired_below:
  assumes "linked (ch_epochs ch)" "in_force (ch_epochs ch) j now"
  shows "HighestRetired ch now < ev_Epoch (ch_epochs ch ! j)"
proof -
  let ?vs = "ch_epochs ch"
  have "h < ev_Epoch (?vs ! j) \<Longrightarrow> \<forall>i \<in> set is. i < length ?vs \<Longrightarrow>
      foldl (\<lambda>highest i. if chain_state_at ?vs i now = StateRetired \<and> ev_Epoch (?vs ! i) > highest then ev_Epoch (?vs ! i) else highest) h is
        < ev_Epoch (?vs ! j)" for h "is"
    by (induction "is" arbitrary: h) (auto simp: state_before_force [OF assms])
  moreover have "0 < ev_Epoch (?vs ! j)"
    using linked_window [OF assms(1), of j] assms(2) by (simp add: in_force_def word_neq_0_conv)
  ultimately show ?thesis by (simp add: HighestRetired_def)
qed

section \<open>A store of the network of three\<close>

text \<open>Two genesis descriptors of one epoch, alike but for the instant they retire at.\<close>

definition sample_first :: "string \<Rightarrow> EpochDescriptor" where
  "sample_first retireAt =
     projr (epoch_New sample_crypto (None :: unit EpochVerified option) epoch_TransitionGenesis ''2026-01-10T00:00:00Z'' retireAt [1] [2])"

definition sample_store_env :: "unit epoch_env" where
  "sample_store_env = sample_env\<lparr>env_descriptor := (\<lambda>bs.
     let signed_genesis = (\<lambda>retireAt. made_genesis sample_crypto (sample_first retireAt) sample_identity (doc_Operators (sgn_Document sample_signed_plan))) in
     if bs = [8] then Some (signed_genesis ''2026-01-20T00:00:00Z'', False)
     else if bs = [9] then Some (signed_genesis ''2026-01-21T00:00:00Z'', False) else None)\<rparr>"

lemma sample_late: "time_Parse ''2026-01-21T00:00:00Z'' = Some 63936172800000000000"
  by (simp add: time_Parse_def header_eval)

lemma sample_first_made:
  assumes "time_Parse retireAt = Some t"
  shows "epoch_New sample_crypto (None :: unit EpochVerified option) epoch_TransitionGenesis ''2026-01-10T00:00:00Z'' retireAt [1] [2] = Inr (sample_first retireAt)"
proof -
  have "decodeHex 32 epoch_zeroDigestHex = Some (replicate 32 0)"
    using hex32.dec_iff by (simp add: epoch_zeroDigestHex_def)
  moreover have "decodeBounded (b64_EncodeToString [n]) = Some [n]" for n
    by (rule decodeBounded_encode) (simp add: epoch_maxCanonicalBytes_def)
  moreover have "decodeBounded [] = Some []"
    using decodeBounded_Some [of "[]" "[]"] by simp
  ultimately show ?thesis
    using parsed_is_canonical [OF sample_instants(1)] parsed_is_canonical [OF assms]
    by (simp add: sample_first_def epoch_New_def Let_def epoch_Digest_def epoch_CanonicalBytes_def del: b64_EncodeToString.simps)
qed

lemma sample_plan_verifies:
  obtains topo where
    "topology_Verify sample_netlib sample_keylib sample_crypto (\<lambda>_. [JScalar]) sample_reader [1] (replicate 32 5) time_zero = Some (Inr topo)"
    "tv_Document topo = sgn_Document sample_signed_plan" "doc_NetworkID (tv_Document topo) = ''net''" "doc_Epoch (tv_Document topo) = 7"
    "instant_of (doc_NotBefore (tv_Document topo)) = 63934444800000000000" "instant_of (doc_NotAfter (tv_Document topo)) = 63937125000500000000"
    "dkg_end (instant_of (dkg_StartAt (doc_DKG (tv_Document topo)))) (doc_DKG (tv_Document topo)) \<le> 63935222400000000000"
    "\<forall>p \<in> set (doc_Operators (tv_Document topo)). holds sample_crypto sample_identity p"
proof -
  obtain topo where topo: "topology_Verify sample_netlib sample_keylib sample_crypto (\<lambda>_. [JScalar]) sample_reader [1] (replicate 32 5) time_zero = Some (Inr topo)"
      "blank_attestations (tv_Document topo) = blank_attestations sample_plan"
    using sample_topology_verifies by blast
  have doc: "tv_Document topo = sgn_Document sample_signed_plan"
    using topo(1) unfolding topology_Verify_Inr by (auto simp: sample_reader_def)
  let ?n = "tv_Document topo"
  have net: "doc_NetworkID ?n = ''net''" "doc_Epoch ?n = 7" "doc_NotBefore ?n = doc_NotBefore sample_plan" "doc_NotAfter ?n = doc_NotAfter sample_plan"
      "doc_DKG ?n = doc_DKG sample_plan"
    using arg_cong [OF topo(2), of doc_NetworkID] arg_cong [OF topo(2), of doc_Epoch] arg_cong [OF topo(2), of doc_NotBefore]
      arg_cong [OF topo(2), of doc_NotAfter] arg_cong [OF topo(2), of doc_DKG]
    by (simp_all add: blank_attestations_def sample_plan_def)
  have "instant_of (doc_NotBefore sample_plan) = 63934444800000000000" "instant_of (doc_NotAfter sample_plan) = 63937125000500000000"
      "dkg_end (instant_of (dkg_StartAt (doc_DKG sample_plan))) (doc_DKG sample_plan) \<le> 63935222400000000000"
    by (simp_all add: instant_of_def sample_plan_def header_eval)
  with that [OF topo(1) doc net(1,2)] net sample_operators_hold [OF topo(2)] show ?thesis by simp
qed

lemma sample_first_eq:
  assumes "time_Parse retireAt = Some t"
  shows "sample_first retireAt = \<lparr>ep_Version = epoch_Version, ep_PreviousEpochDigest = epoch_zeroDigestHex, ep_Transition = epoch_TransitionGenesis,
    ep_ActivateAt = ''2026-01-10T00:00:00Z'', ep_RetireAt = retireAt, ep_Topology = b64_EncodeToString [1],
    ep_DKGCertificate = b64_EncodeToString [2], ep_UplinkProfile = [], ep_Approvals = [], ep_Activations = []\<rparr>"
  using sample_first_made [OF assms] by (auto simp: epoch_New_def Let_def guard_simps simp del: b64_EncodeToString.simps)

lemma sample_first_verifies:
  assumes "encoded = [8] \<and> retireAt = ''2026-01-20T00:00:00Z'' \<and> t = 63936086400000000000 \<or>
    encoded = [9] \<and> retireAt = ''2026-01-21T00:00:00Z'' \<and> t = 63936172800000000000"
  shows "\<exists>v. verify_descriptor sample_store_env encoded (replicate 32 5) None [] = Inr v \<and> ev_Epoch v = 7 \<and> ev_NetworkID v = ''net'' \<and>
    ev_ActivateAt v = 63935222400000000000 \<and> ev_RetireAt v = t \<and> epoch_Digest sample_crypto (sample_first retireAt) = Inr (ev_Digest v) \<and>
    decodeDescriptor sample_store_env encoded = Inr (ev_Descriptor v) \<and> embeddedIdentity sample_store_env (ev_Descriptor v) = Inr (''net'', 7)"
proof -
  obtain topo where topo: "topology_Verify sample_netlib sample_keylib sample_crypto (\<lambda>_. [JScalar]) sample_reader [1] (replicate 32 5) time_zero = Some (Inr topo)"
    "tv_Document topo = sgn_Document sample_signed_plan" "doc_NetworkID (tv_Document topo) = ''net''" "doc_Epoch (tv_Document topo) = 7"
    "instant_of (doc_NotBefore (tv_Document topo)) = 63934444800000000000" "instant_of (doc_NotAfter (tv_Document topo)) = 63937125000500000000"
    "dkg_end (instant_of (dkg_StartAt (doc_DKG (tv_Document topo)))) (doc_DKG (tv_Document topo)) \<le> 63935222400000000000"
    "\<forall>p \<in> set (doc_Operators (tv_Document topo)). holds sample_crypto sample_identity p"
    by (rule sample_plan_verifies)
  have retire: "time_Parse retireAt = Some t" using assms sample_instants(2) sample_late by auto
  note eq = sample_first_eq [OF retire]
  have instants: "instant_of ''2026-01-10T00:00:00Z'' = 63935222400000000000" "instant_of retireAt = t"
    using time_ParseRFC3339_canonical [OF sample_instants(1)] time_ParseRFC3339_canonical [OF retire] by (simp_all add: instant_of_def)
  have win: "checkWindow (sample_first retireAt) (tv_Document topo) = Inr ()"
    using topo(7) assms by (auto simp: checkWindow_def eq instants topo(5,6))
  have dec: "decodeDescriptor sample_store_env encoded = Inr (made_genesis sample_crypto (sample_first retireAt) sample_identity (doc_Operators (tv_Document topo)))"
    using assms topo(2) by (auto simp: sample_store_env_def decodeDescriptor_def Let_def)
  have envs: "env_crypto sample_store_env = sample_crypto" "env_net sample_store_env = sample_netlib" "env_keys sample_store_env = sample_keylib"
      "env_tokens sample_store_env = (\<lambda>_. [JScalar])" "env_topology sample_store_env = sample_reader" "env_certify sample_store_env = (\<lambda>_ _. Some ())"
    by (simp_all add: sample_store_env_def sample_env_def)
  have "\<exists>v. epoch_Verify sample_store_env encoded (replicate 32 5) None [] = Some (Inr v) \<and> ev_Topology v = topo \<and>
      epoch_Digest (env_crypto sample_store_env) (sample_first retireAt) = Inr (ev_Digest v)"
    by (rule signed_genesis_verifies [where activating = "doc_Operators (tv_Document topo)" and identities = sample_identity and bs = "[1]" and cs = "[2]"])
      (use sample_first_made [OF retire] topo(1,8) win dec assms in \<open>auto simp: envs epoch_MaximumFileBytes_def\<close>)
  then obtain v where v: "epoch_Verify sample_store_env encoded (replicate 32 5) None [] = Some (Inr v)" "ev_Topology v = topo"
      "epoch_Digest sample_crypto (sample_first retireAt) = Inr (ev_Digest v)"
    by (auto simp: envs)
  have "ev_Descriptor v = made_genesis sample_crypto (sample_first retireAt) sample_identity (doc_Operators (tv_Document topo))"
    using epoch_Verify_Inr(2) [OF v(1)] dec by simp
  then have d: "ep_ActivateAt (ev_Descriptor v) = ''2026-01-10T00:00:00Z''" "ep_RetireAt (ev_Descriptor v) = retireAt"
      "ep_Topology (ev_Descriptor v) = b64_EncodeToString [1]"
    by (simp_all only: made_genesis_def eq EpochDescriptor.simps)
  have "decodeBounded (b64_EncodeToString [1]) = Some [1]" by (rule decodeBounded_encode) (simp add: epoch_maxCanonicalBytes_def)
  then have "embeddedIdentity sample_store_env (ev_Descriptor v) = Inr (''net'', 7)"
    using topo(2-4) by (simp add: embeddedIdentity_def d(3) envs sample_reader_def Let_def del: b64_EncodeToString.simps)
  with v epoch_Verify_Inr(2,9) [OF v(1)] topo(3,4) instants show ?thesis
    by (intro exI [of _ v]) (simp add: verify_descriptor_iff d)
qed

lemma sample_first_digests:
  "epoch_Digest sample_crypto (sample_first ''2026-01-20T00:00:00Z'') \<noteq> epoch_Digest sample_crypto (sample_first ''2026-01-21T00:00:00Z'')"
proof -
  have "decodeBounded [] = Some []" using decodeBounded_Some [of "[]" "[]"] by simp
  moreover have "decodeBounded (b64_EncodeToString [n]) = Some [n]" for n
    by (rule decodeBounded_encode) (simp add: epoch_maxCanonicalBytes_def)
  moreover have "decodeHex 32 epoch_zeroDigestHex = Some (replicate 32 0)"
    using hex32.dec_iff by (simp add: epoch_zeroDigestHex_def)
  ultimately show ?thesis
    using parsed_is_canonical [OF sample_instants(1)] parsed_is_canonical [OF sample_instants(2)] parsed_is_canonical [OF sample_late]
    by (simp add: sample_first_eq [OF sample_instants(2)] sample_first_eq [OF sample_late] epoch_Digest_def epoch_CanonicalBytes_def
        sample_crypto_def sample_hash_def prefixed_def bytes_of_def del: b64_EncodeToString.simps)
qed

definition empty_disk :: chainDisk where
  "empty_disk = \<lparr>disk_files = [], disk_halted = None, disk_watermark = None\<rparr>"

definition sample_store :: "unit chainState" where
  "sample_store = \<lparr>ch_networkID = ''net'', ch_authority = replicate 32 5, ch_revoked = [], ch_epochs = [], ch_halted = False\<rparr>"

lemma sample_opens: "OpenChain sample_store_env no_faults empty_disk ''net'' (replicate 32 5) [] = Inr sample_store"
  by (simp add: OpenChain_def empty_disk_def no_faults_def publicKeySize_def sample_store_def Let_def)

lemma sample_grows:
  obtains v disk where "store_step sample_store_env (empty_disk, sample_store) (Offer no_faults [8]) = (disk, sample_store\<lparr>ch_epochs := [v]\<rparr>)"
    "verify_descriptor sample_store_env [8] (replicate 32 5) None [] = Inr v" "disk_files disk = [(7, [8])]" "disk_halted disk = None"
    "ev_Epoch v = 7" "ev_NetworkID v = ''net''" "ev_ActivateAt v = 63935222400000000000" "ev_RetireAt v = 63936086400000000000"
proof -
  obtain v where v: "verify_descriptor sample_store_env [8] (replicate 32 5) None [] = Inr v" "ev_Epoch v = 7" "ev_NetworkID v = ''net''"
      "ev_ActivateAt v = 63935222400000000000" "ev_RetireAt v = 63936086400000000000"
      "epoch_Digest sample_crypto (sample_first ''2026-01-20T00:00:00Z'') = Inr (ev_Digest v)"
      "decodeDescriptor sample_store_env [8] = Inr (ev_Descriptor v)" "embeddedIdentity sample_store_env (ev_Descriptor v) = Inr (''net'', 7)"
    using sample_first_verifies [of "[8]" "''2026-01-20T00:00:00Z''"] by blast
  have dig: "epoch_Digest (env_crypto sample_store_env) (ev_Descriptor v) = Inr (ev_Digest v)"
    using epoch_Verify_Inr(1) v(1) by (auto simp: verify_descriptor_iff)
  let ?disk = "empty_disk\<lparr>disk_watermark := Some (mark_text 7), disk_files := [(7, [8])]\<rparr>"
  have "appendRefreshed sample_store_env no_faults empty_disk sample_store [8] = ((?disk, sample_store\<lparr>ch_epochs := [v]\<rparr>), Inr v)"
    using v dig by (simp add: appendRefreshed_def sample_store_def epoch_MaximumFileBytes_def lookupSlot_def appendNewEpoch_def
        epoch_readWatermark_def raiseWatermark_def epoch_writeNewFile_def empty_disk_def no_faults_def)
  then have "store_step sample_store_env (empty_disk, sample_store) (Offer no_faults [8]) = (?disk, sample_store\<lparr>ch_epochs := [v]\<rparr>)"
    by (simp add: store_step_def epoch_Append_def refreshLocked_def) (simp add: no_faults_def empty_disk_def sample_store_def)
  moreover have "disk_files ?disk = [(7, [8])]" "disk_halted ?disk = None" by (simp_all add: empty_disk_def)
  ultimately show ?thesis using that v(1-5) by blast
qed

section \<open>What the store promises\<close>

text \<open>
  C27: One epoch is in force at a time. Whatever is offered to a store, whatever other processes do to its directory and
  however its reads and writes fail, an epoch is served exactly while it is the one that \<^verbatim>\<open>ActiveAt\<close> names; served epochs
  never go back as time passes, so at one instant there is at most one; and the highest retired epoch, below which keys
  may be erased, lies below the served one.
\<close>

theorem one_epoch_served:
  assumes "OpenChain env faults disk networkID authority revoked = Inr ch0"
    and "ch = snd (run_ops (store_step env) (disk0, ch0) events)"
  shows "(ServesEpoch ch n now = Inr () \<longleftrightarrow> (\<exists>v. Chain_ActiveAt ch now = Some v \<and> ev_Epoch v = n)) \<and>
    (ServesEpoch ch n now = Inr () \<longrightarrow> HighestRetired ch now < n \<and>
       (\<forall>m later. ServesEpoch ch m later = Inr () \<and> now \<le> later \<longrightarrow> n \<le> m))"
proof -
  have "wf_chain ch"
    using epoch_store.run_inv [of "(disk0, ch0)" env events] OpenChain_wf [OF assms(1)] assms(2) by simp
  then have linked: "linked (ch_epochs ch)" by (simp add: wf_chain_def)
  moreover have "HighestRetired ch now < n \<and> (\<forall>m later. ServesEpoch ch m later = Inr () \<and> now \<le> later \<longrightarrow> n \<le> m)"
    if served: "ServesEpoch ch n now = Inr ()"
  proof -
    have live: "\<not> ch_halted ch" using served by (auto simp: ServesEpoch_def StateOf_def)
    obtain i where i: "in_force (ch_epochs ch) i now" "ev_Epoch (ch_epochs ch ! i) = n" using served served_iff [OF linked live] by blast
    have "n \<le> m" if m: "ServesEpoch ch m later = Inr ()" "now \<le> later" for m later
    proof -
      obtain j where j: "in_force (ch_epochs ch) j later" "ev_Epoch (ch_epochs ch ! j) = m" using m(1) served_iff [OF linked live] by blast
      with in_force_later [OF linked i(1) j(1) m(2)] i linked_numbers [OF linked] show ?thesis
        by (auto simp: in_force_def word_le_nat_alt)
    qed
    with HighestRetired_below [OF linked i(1)] i(2) show ?thesis by blast
  qed
  ultimately show ?thesis using served_is_active by blast
qed

theorem one_epoch_served_witness:
  "\<exists>ch. ch = snd (run_ops (store_step sample_store_env) (empty_disk, sample_store) [Offer no_faults [8]]) \<and>
     ServesEpoch ch 7 63936000000000000000 = Inr () \<and> HighestRetired ch 63936000000000000000 < 7"
proof -
  obtain v disk where v: "store_step sample_store_env (empty_disk, sample_store) (Offer no_faults [8]) = (disk, sample_store\<lparr>ch_epochs := [v]\<rparr>)"
    "ev_Epoch v = 7" "ev_ActivateAt v = 63935222400000000000" "ev_RetireAt v = 63936086400000000000"
    by (rule sample_grows)
  let ?ch = "sample_store\<lparr>ch_epochs := [v]\<rparr>"
  have ch: "?ch = snd (run_ops (store_step sample_store_env) (empty_disk, sample_store) [Offer no_faults [8]])" using v(1) by simp
  have "Chain_ActiveAt ?ch 63936000000000000000 = Some v" using v by (simp add: Chain_ActiveAt_def sample_store_def)
  with one_epoch_served [OF sample_opens ch, of 7 63936000000000000000] v(2) ch show ?thesis by blast
qed

lemma halted_refuses:
  assumes "ch_halted ch" "epoch_Append env faults (disk, ch) encoded = Some ((disk', ch'), r)"
  shows "\<exists>e. r = Inl e" "disk' = disk"
  using assms by (auto simp: epoch_Append_def refreshLocked_def appendRefreshed_def split: if_splits)

text \<open>
  History is append-only and a halt is final. Take any run of a store, then anything further. The epochs held are
  kept, in order, as the beginning of those held later, and what an \<^verbatim>\<open>Append\<close> reports as accepted is among them. Once
  halted, a store stays halted: it names no tip and no active epoch, serves none, and refuses every offer without
  touching its directory.
\<close>

theorem epoch_history_is_final:
  assumes "OpenChain env faults disk networkID authority revoked = Inr ch0"
    and "store1 = run_ops (store_step env) (disk0, ch0) events" and "store2 = run_ops (store_step env) store1 later"
  shows "prefix (ch_epochs (snd store1)) (ch_epochs (snd store2)) \<and>
    (\<forall>v store3 f encoded. epoch_Append env f store2 encoded = Some (store3, Inr v) \<longrightarrow> v \<in> set (ch_epochs (snd store3))) \<and>
    (ch_halted (snd store1) \<longrightarrow>
       ch_halted (snd store2) \<and> Tip (snd store2) = None \<and> Chain_ActiveAt (snd store2) now = None \<and>
       ServesEpoch (snd store2) n now = Inl ChainHalted \<and>
       (\<forall>f encoded. \<exists>ch e. epoch_Append env f store2 encoded = Some ((fst store2, ch), Inl e)))"
proof -
  have wf1: "wf_chain (snd store1)"
    using epoch_store.run_inv [of "(disk0, ch0)" env events] OpenChain_wf [OF assms(1)] assms(2) by simp
  then have wf2: "wf_chain (snd store2)" unfolding assms(3) by (rule epoch_store.run_inv)
  have ext: "chain_extends (snd store1) (snd store2)" unfolding assms(3) by (rule epoch_store.run_ord [OF wf1])
  then have "prefix (ch_epochs (snd store1)) (ch_epochs (snd store2))" by (auto simp: chain_extends_def)
  moreover have "v \<in> set (ch_epochs (snd store3))" if "epoch_Append env f store2 encoded = Some (store3, Inr v)" for v store3 f encoded
    using epoch_Append_effect(5) [of env f "fst store2" "snd store2" encoded "fst store3" "snd store3" "Inr v"] that wf2 by simp
  moreover have "ch_halted (snd store2) \<and> Tip (snd store2) = None \<and> Chain_ActiveAt (snd store2) now = None \<and>
       ServesEpoch (snd store2) n now = Inl ChainHalted \<and>
       (\<forall>f encoded. \<exists>ch e. epoch_Append env f store2 encoded = Some ((fst store2, ch), Inl e))" if "ch_halted (snd store1)"
  proof -
    from that ext have h: "ch_halted (snd store2)" by (simp add: chain_extends_def)
    have "\<exists>ch e. epoch_Append env f store2 encoded = Some ((fst store2, ch), Inl e)" for f encoded
    proof -
      obtain disk3 ch3 r where "epoch_Append env f store2 encoded = Some ((disk3, ch3), r)"
        using epoch_Append_returns [of env f store2 encoded] by (metis surj_pair)
      with halted_refuses [OF h, of env f "fst store2" encoded disk3 ch3 r] show ?thesis by auto
    qed
    with h show ?thesis by (simp add: Tip_def Chain_ActiveAt_def ServesEpoch_def StateOf_def)
  qed
  ultimately show ?thesis by blast
qed

text \<open>The second genesis of epoch 7 halts the store of the sample network.\<close>

lemma sample_halts:
  obtains v disk where "run_ops (store_step sample_store_env) (empty_disk, sample_store) [Offer no_faults [8], Offer no_faults [9]] =
      (disk, sample_store\<lparr>ch_epochs := [v], ch_halted := True\<rparr>)"
    "\<exists>w. verify_descriptor sample_store_env [9] (replicate 32 5) None [] = Inr w \<and> ev_Epoch w = 7 \<and> ev_Digest w \<noteq> ev_Digest v" "ev_Epoch v = 7"
proof -
  obtain v disk where v: "store_step sample_store_env (empty_disk, sample_store) (Offer no_faults [8]) = (disk, sample_store\<lparr>ch_epochs := [v]\<rparr>)"
    "verify_descriptor sample_store_env [8] (replicate 32 5) None [] = Inr v" "disk_files disk = [(7, [8])]" "disk_halted disk = None"
    "ev_Epoch v = 7" "ev_NetworkID v = ''net''"
    by (rule sample_grows)
  obtain v' where v': "verify_descriptor sample_store_env [8] (replicate 32 5) None [] = Inr v'"
      "epoch_Digest sample_crypto (sample_first ''2026-01-20T00:00:00Z'') = Inr (ev_Digest v')"
    using sample_first_verifies [of "[8]" "''2026-01-20T00:00:00Z''"] by blast
  obtain w where w: "verify_descriptor sample_store_env [9] (replicate 32 5) None [] = Inr w" "ev_Epoch w = 7" "ev_NetworkID w = ''net''"
      "epoch_Digest sample_crypto (sample_first ''2026-01-21T00:00:00Z'') = Inr (ev_Digest w)"
      "decodeDescriptor sample_store_env [9] = Inr (ev_Descriptor w)" "embeddedIdentity sample_store_env (ev_Descriptor w) = Inr (''net'', 7)"
    using sample_first_verifies [of "[9]" "''2026-01-21T00:00:00Z''"] by blast
  have differ: "ev_Digest v \<noteq> ev_Digest w" using v(2) v' w(4) sample_first_digests by auto
  have dig: "epoch_Digest (env_crypto sample_store_env) (ev_Descriptor w) = Inr (ev_Digest w)"
    using epoch_Verify_Inr(1) w(1) by (auto simp: verify_descriptor_iff)
  let ?ch = "sample_store\<lparr>ch_epochs := [v]\<rparr>"
  have "refreshLocked sample_store_env no_faults disk ?ch = Some (?ch, Inr ())"
    using v by (simp add: refreshLocked_def sample_store_def no_faults_def Let_def)
  moreover have "\<exists>disk2 r. appendRefreshed sample_store_env no_faults disk ?ch [9] = ((disk2, ?ch\<lparr>ch_halted := True\<rparr>), r)"
    using v w dig differ
    by (simp add: appendRefreshed_def sample_store_def epoch_MaximumFileBytes_def lookupSlot_def appendKnownEpoch_def halt_def no_faults_def Let_def)
  ultimately obtain disk2 where "store_step sample_store_env (disk, ?ch) (Offer no_faults [9]) = (disk2, ?ch\<lparr>ch_halted := True\<rparr>)"
    by (auto simp: store_step_def epoch_Append_def no_faults_def)
  with v(1) have "run_ops (store_step sample_store_env) (empty_disk, sample_store) [Offer no_faults [8], Offer no_faults [9]] =
      (disk2, sample_store\<lparr>ch_epochs := [v], ch_halted := True\<rparr>)" by simp
  from that [OF this] w differ v(5) show ?thesis by metis
qed

theorem epoch_history_is_final_witness:
  "\<exists>store. store = run_ops (store_step sample_store_env) (empty_disk, sample_store) [Offer no_faults [8], Offer no_faults [9]] \<and>
     Tip (snd store) = None \<and> ServesEpoch (snd store) 7 63936000000000000000 = Inl ChainHalted \<and>
     (\<exists>ch e. epoch_Append sample_store_env no_faults store [8] = Some ((fst store, ch), Inl e))"
proof -
  let ?es = "[Offer no_faults [8], Offer no_faults [9]]" let ?store = "run_ops (store_step sample_store_env) (empty_disk, sample_store) ?es"
  obtain v disk where "?store = (disk, sample_store\<lparr>ch_epochs := [v], ch_halted := True\<rparr>)" by (rule sample_halts)
  then have "ch_halted (snd ?store)" by simp
  with epoch_history_is_final [OF sample_opens, of ?store empty_disk ?es ?store "[]" 63936000000000000000 7] show ?thesis
    by (metis run_ops_Nil)
qed

end
