(* ===== verification/EpochEquivocation.thy ===== *)
theory EpochEquivocation
  imports EpochHistory
begin

text \<open>
  Why an epoch store halts, what it takes from a failed write, and what a restart finds: the store of
  \<^verbatim>\<open>live/epoch/chain.go\<close> and the transition rules of \<^verbatim>\<open>live/epoch/descriptor.go\<close> together.
\<close>

section \<open>Every stored epoch was verified\<close>

definition vouched :: "'cert epoch_env \<Rightarrow> 'cert chainState \<Rightarrow> bool" where
  "vouched env ch \<longleftrightarrow> (\<forall>i < length (ch_epochs ch). \<exists>encoded revoked.
     verify_descriptor env encoded (ch_authority ch) (before (ch_epochs ch) i) revoked = Inr (ch_epochs ch ! i))"

lemma before_tip: "before (vs @ [v]) (length vs) = tip_of vs"
  by (cases vs rule: rev_cases) (simp_all add: before_def nth_append)

lemma before_append: "i < length vs \<Longrightarrow> before (vs @ us) i = before vs i"
  by (auto simp: before_def nth_append)

lemma vouched_snoc:
  assumes "vouched env ch" "verify_descriptor env encoded (ch_authority ch) previous revoked = Inr v" "tip_of (ch_epochs ch) = previous"
  shows "vouched env (ch\<lparr>ch_epochs := ch_epochs ch @ [v]\<rparr>)"
  using assms by (auto simp: vouched_def less_Suc_eq before_append before_tip nth_append)

lemma loadEpochs_vouched: "loadEpochs env faults disk ch ns = Inr ch' \<Longrightarrow> vouched env ch \<Longrightarrow> vouched env ch'"
  by (induction ns arbitrary: ch) (auto split: option.splits sum.splits if_splits intro: vouched_snoc)

lemma OpenChain_vouched: "OpenChain env faults disk networkID authority revoked = Inr ch \<Longrightarrow> vouched env ch"
  by (auto simp: OpenChain_def guard_simps Let_def vouched_def [of _ "\<lparr>ch_networkID = _, ch_authority = _, ch_revoked = _, ch_epochs = [], ch_halted = _\<rparr>"]
      split: if_splits dest!: loadEpochs_vouched)

lemma vouched_halt [simp]: "vouched env (ch\<lparr>ch_halted := h\<rparr>) = vouched env ch"
  by (simp add: vouched_def)

lemma adoptEpochs_vouched: "adoptEpochs fuel env faults disk ch = Some (ch', r) \<Longrightarrow> vouched env ch \<Longrightarrow> vouched env ch'"
  by (induction fuel arbitrary: ch) (auto simp: Let_def split: option.splits sum.splits if_splits intro: vouched_snoc)

lemma refreshLocked_vouched: "refreshLocked env faults disk ch = Some (ch', r) \<Longrightarrow> vouched env ch \<Longrightarrow> vouched env ch'"
  unfolding refreshLocked_def by (auto simp del: adoptEpochs.simps split: if_splits dest: adoptEpochs_vouched)

lemma appendRefreshed_vouched:
  assumes "appendRefreshed env faults disk ch encoded = ((disk', ch'), r)" "vouched env ch"
  shows "vouched env ch'"
proof -
  have "vouched env ch'" if "appendNewEpoch env faults disk ch n encoded = ((disk', ch'), r)" for n
    using that assms(2) by (auto simp: appendNewEpoch_def split: sum.splits if_splits prod.splits option.splits intro: vouched_snoc)
  moreover have "vouched env ch'" if "appendKnownEpoch env faults disk ch slot digest encoded = ((disk', ch'), r)" for slot digest
    using that assms(2) by (auto simp: appendKnownEpoch_def halt_def Let_def split: sum.splits if_splits prod.splits)
  ultimately show ?thesis
    using assms by (auto simp: appendRefreshed_def split: sum.splits if_splits option.splits prod.splits)
qed

lemma epoch_Append_vouched:
  assumes "epoch_Append env faults (disk, ch) encoded = Some ((disk', ch'), r)" "vouched env ch"
  shows "vouched env ch'"
  using assms(1)
  by (cases rule: epoch_Append_cases) (use assms(2) in \<open>auto dest: refreshLocked_vouched appendRefreshed_vouched\<close>)

interpretation vouched_store: invariant_machine "store_step env" "\<lambda>store. wf_chain (snd store) \<and> vouched env (snd store)"
  for env :: "'cert epoch_env"
proof
  fix store :: "'cert store" and event
  assume inv: "wf_chain (snd store) \<and> vouched env (snd store)"
  obtain disk ch disk' ch' where st: "store = (disk, ch)" "store_step env store event = (disk', ch')" by (metis surj_pair)
  have "vouched env ch'"
  proof (cases event)
    case (Offer faults encoded)
    from Offer_effect [of ch env disk faults encoded disk' ch'] inv st Offer obtain r
      where "epoch_Append env faults (disk, ch) encoded = Some ((disk', ch'), r)" by auto
    with inv st show ?thesis by (auto dest: epoch_Append_vouched)
  qed (use st inv in \<open>auto simp: store_step_def\<close>)
  with st epoch_store.step_inv [of store env event] inv
  show "wf_chain (snd (store_step env store event)) \<and> vouched env (snd (store_step env store event))" by simp
qed

section \<open>Reading the mark\<close>

lemma digit_not_space: "dec_val ch \<noteq> None \<Longrightarrow> \<not> is_space ch"
  by (auto simp: dec_val_def is_space_def Let_def split: if_splits)

lemma TrimSpace_mark: "TrimSpace (mark_text n) = dec_str (unat n)"
proof -
  have digits: "\<not> is_space ch" if "ch \<in> set (dec_str (unat n))" for ch
    using dec_str_digits [of "unat n"] that digit_not_space by (auto simp: list_all_iff)
  have keep: "dropWhile is_space xs = xs" if "\<And>ch. ch \<in> set xs \<Longrightarrow> \<not> is_space ch" for xs
    using that by (cases xs) auto
  have "dropWhile is_space (mark_text n) = mark_text n"
    using dec_str_nonempty [of "unat n"] digits by (cases "dec_str (unat n)") (auto simp: mark_text_def)
  moreover have "is_space (CHR 0x0A)" by (simp add: is_space_def)
  ultimately show ?thesis
    using keep [of "rev (dec_str (unat n))"] digits by (simp add: TrimSpace_def mark_text_def)
qed

lemma mark_reads_back:
  assumes "disk_watermark disk = Some (mark_text n)" "fa_readMark faults"
  shows "epoch_readWatermark faults disk = Inr n"
proof -
  have "unat n < 2 ^ LENGTH(64)" by (rule unsigned_less)
  then have "unat n < 2 ^ 64" by simp
  then have "ParseUint (dec_str (unat n)) 64 = Some (unat n)"
    using dec_str_nonempty [of "unat n"] dec_str_digits [of "unat n"]
    by (simp add: ParseUint_def dec_number_dec_str is_digit_def list_all_iff)
  with assms show ?thesis by (simp add: epoch_readWatermark_def TrimSpace_mark)
qed

section \<open>A number that is burned but not stored\<close>

text \<open>
  The mark is raised before the descriptor is written. When that write fails, the number is burned, and since a
  successor must carry exactly the next number, no offer extends the chain again: neither the same descriptor nor
  another, whatever else succeeds.
\<close>

definition lost_successor :: "'cert store \<Rightarrow> bool" where
  "lost_successor store \<longleftrightarrow> (case store of (disk, ch) \<Rightarrow> wf_chain ch \<and> (\<exists>tip n. tip_of (ch_epochs ch) = Some tip \<and>
     disk_watermark disk = Some (mark_text n) \<and> ev_Epoch tip < n \<and> map_of (disk_files disk) (ev_Epoch tip + 1) = None))"

lemma watermark_errors: "epoch_readWatermark faults disk \<noteq> Inl FileNotWritten" "raiseWatermark faults disk n \<noteq> (disk', Inl FileNotWritten)"
  by (auto simp: epoch_readWatermark_def raiseWatermark_def split: option.splits if_splits sum.splits write_outcome.splits)

lemma raiseWatermark_writes: "raiseWatermark faults disk n = (disk', Inr u) \<Longrightarrow> disk' = disk\<lparr>disk_watermark := Some (mark_text n)\<rparr>"
  by (auto simp: raiseWatermark_def split: sum.splits if_splits write_outcome.splits)

lemma lost_write_makes_lost_successor:
  fixes env :: "'cert epoch_env"
  assumes "wf_chain ch" "tip_of (ch_epochs ch) = Some tip" "appendNewEpoch env faults disk ch n encoded = ((disk', ch'), Inl FileNotWritten)"
    and "map_of (disk_files disk) (ev_Epoch tip + 1) = None"
  shows "lost_successor (disk', ch')"
proof -
  from assms(2,3) obtain v :: "'cert EpochVerified" and disk1 where v: "ch' = ch" "ev_Epoch tip < ev_Epoch v" "raiseWatermark faults disk (ev_Epoch v) = (disk1, Inr ())"
      "epoch_writeNewFile faults disk1 (ev_Epoch v) encoded = (disk', Inl FileNotWritten)"
    by (auto simp: appendNewEpoch_def watermark_errors not_le split: sum.splits if_splits prod.splits)
  then have "disk' = disk1" by (auto simp: epoch_writeNewFile_def split: if_splits write_outcome.splits)
  with v raiseWatermark_writes [OF v(3)] assms(1,2,4) show ?thesis by (auto simp: lost_successor_def)
qed

lemma refresh_without_successor:
  assumes "tip_of (ch_epochs ch) = Some tip" "map_of (disk_files disk) (ev_Epoch tip + 1) = None" "refreshLocked env faults disk ch = Some (ch', r)"
  shows "ch_epochs ch' = ch_epochs ch"
  using assms by (auto simp: refreshLocked_def Let_def split: if_splits)

lemma lost_successor_blocks_new:
  assumes "tip_of (ch_epochs ch) = Some tip" "disk_watermark disk = Some (mark_text n)" "ev_Epoch tip < n"
    and "appendNewEpoch env faults disk ch k encoded = ((disk', ch'), r)"
    and "\<And>v. verify_descriptor env encoded (ch_authority ch) (Some tip) (ch_revoked ch) = Inr v \<Longrightarrow> ev_Epoch v = k"
  shows "ch_epochs ch' = ch_epochs ch"
proof (rule ccontr)
  assume "ch_epochs ch' \<noteq> ch_epochs ch"
  with assms(1,4) obtain v w where v: "verify_descriptor env encoded (ch_authority ch) (Some tip) (ch_revoked ch) = Inr v"
      "epoch_readWatermark faults disk = Inr w" "w < k"
    by (auto simp: appendNewEpoch_def not_le split: sum.splits if_splits prod.splits option.splits)
  have "fa_readMark faults" using v(2) assms(2) by (auto simp: epoch_readWatermark_def split: if_splits)
  with v(2) mark_reads_back [OF assms(2)] have "w = n" by simp
  with verified_number(2) [OF v(1) refl] assms(3) assms(5) [OF v(1)] v(3) show False by (auto simp: word_less_nat_alt)
qed

lemma lost_successor_blocks:
  assumes "lost_successor (disk, ch)" "epoch_Append env faults (disk, ch) encoded = Some ((disk', ch'), r)"
  shows "ch_epochs ch' = ch_epochs ch"
proof -
  from assms(1) obtain tip n where tip: "tip_of (ch_epochs ch) = Some tip" "disk_watermark disk = Some (mark_text n)" "ev_Epoch tip < n"
      "map_of (disk_files disk) (ev_Epoch tip + 1) = None"
    by (auto simp: lost_successor_def)
  note same = refresh_without_successor [OF tip(1,4)]
  from assms(2) show ?thesis
  proof (cases rule: epoch_Append_cases)
    case (refreshed ch1)
    from refreshed(2) have "ch_epochs ch' = ch_epochs ch1"
    proof (cases rule: appendRefreshed_cases)
      case (probed probe digest network k)
      have "ch_epochs ch' = ch_epochs ch1" if "appendNewEpoch env faults disk ch1 k encoded = ((disk', ch'), r)"
        by (rule lost_successor_blocks_new [OF _ tip(2,3) that])
          (use same [OF refreshed(1)] tip(1) embedded_is_verified(2) [OF probed(3,1)] in auto)
      moreover have "ch_epochs ch' = ch_epochs ch1" if "appendKnownEpoch env faults disk ch1 slot digest encoded = ((disk', ch'), r)" for slot
        using that by (auto simp: appendKnownEpoch_def halt_def Let_def split: sum.splits if_splits prod.splits)
      ultimately show ?thesis using probed(6) by (auto split: option.splits)
    qed simp
    with same [OF refreshed(1)] show ?thesis by simp
  qed (use same in auto)
qed

section \<open>Why a store halts\<close>

text \<open>
  C28: A store halts only for cause. Let a store that is not halted, and whose directory holds no marker, take an offer
  after any run; if it is halted then, the offer was a valid descriptor of an epoch the store holds, of the same network
  and with another digest. Unless that epoch is the first, some operator of the epoch before it has signed the approval
  of both, so invalid bytes and honest operators never stop a store.
\<close>

theorem halt_has_culprit:
  assumes "OpenChain env faults disk networkID authority revoked = Inr ch0"
    and "store = run_ops (store_step env) (disk0, ch0) events" "\<not> ch_halted (snd store)" "disk_halted (fst store) = None"
    and "epoch_Append env f store encoded = Some (store', r)" "ch_halted (snd store')"
  shows "\<exists>i competing. i < length (ch_epochs (snd store')) \<and>
    verify_descriptor env encoded (ch_authority (snd store')) (before (ch_epochs (snd store')) i) (ch_revoked (snd store')) = Inr competing \<and>
    ev_Epoch competing = ev_Epoch (ch_epochs (snd store') ! i) \<and> ev_NetworkID competing = ev_NetworkID (ch_epochs (snd store') ! i) \<and>
    ev_Digest competing \<noteq> ev_Digest (ch_epochs (snd store') ! i) \<and>
    (0 < i \<longrightarrow> double_signer (env_crypto env) (ch_epochs (snd store') ! (i - 1)) (ev_Digest (ch_epochs (snd store') ! i)) (ev_Digest competing))"
proof -
  obtain disk1 ch1 disk2 ch2 where st: "store = (disk1, ch1)" "store' = (disk2, ch2)" by (metis surj_pair)
  have inv: "wf_chain ch1 \<and> vouched env ch1"
    using vouched_store.run_inv [of "(disk0, ch0)" env events] OpenChain_wf [OF assms(1)] OpenChain_vouched [OF assms(1)] assms(2) st
    by (metis snd_conv)
  have app: "epoch_Append env f (disk1, ch1) encoded = Some ((disk2, ch2), r)" using assms(5) st by simp
  have "conflict env ch2 encoded" using epoch_Append_effect(4) [OF app] inv assms(3,4,6) st by auto
  then obtain i competing where i: "i < length (ch_epochs ch2)"
      "verify_descriptor env encoded (ch_authority ch2) (before (ch_epochs ch2) i) (ch_revoked ch2) = Inr competing"
      "ev_Epoch competing = ev_Epoch (ch_epochs ch2 ! i)" "ev_NetworkID competing = ev_NetworkID (ch_epochs ch2 ! i)"
      "ev_Digest competing \<noteq> ev_Digest (ch_epochs ch2 ! i)"
    unfolding conflict_def by blast
  have v: "\<forall>i < length (ch_epochs ch2). \<exists>encoded revoked.
      verify_descriptor env encoded (ch_authority ch2) (before (ch_epochs ch2) i) revoked = Inr (ch_epochs ch2 ! i)"
    using epoch_Append_vouched [OF app] inv by (simp add: vouched_def)
  have "double_signer (env_crypto env) (ch_epochs ch2 ! (i - 1)) (ev_Digest (ch_epochs ch2 ! i)) (ev_Digest competing)" if "0 < i"
  proof -
    from v that i(1) obtain e2 r2 where previous: "verify_descriptor env e2 (ch_authority ch2) (before (ch_epochs ch2) (i - 1)) r2 = Inr (ch_epochs ch2 ! (i - 1))"
      by (metis less_imp_diff_less)
    have "distinct (map op_ID (ev_Operators (ch_epochs ch2 ! (i - 1))))"
      using plan_ok_indexed [OF verified_plan [OF previous [unfolded verify_descriptor_iff]]] by blast
    moreover obtain e1 r1 where "verify_descriptor env e1 (ch_authority ch2) (before (ch_epochs ch2) i) r1 = Inr (ch_epochs ch2 ! i)"
      using v i(1) by blast
    ultimately show ?thesis
      using i(2) that by (intro common_approver) (auto simp: before_def verify_descriptor_iff)
  qed
  with i st show ?thesis by auto
qed

theorem halt_has_culprit_witness:
  "\<exists>ch competing. (\<exists>disk. run_ops (store_step sample_store_env) (empty_disk, sample_store) [Offer no_faults [8], Offer no_faults [9]] = (disk, ch)) \<and>
     ch_halted ch \<and> verify_descriptor sample_store_env [9] (ch_authority ch) (before (ch_epochs ch) 0) (ch_revoked ch) = Inr competing \<and>
     ev_Epoch competing = 7 \<and> ev_Digest competing \<noteq> ev_Digest (ch_epochs ch ! 0)"
proof -
  let ?store = "run_ops (store_step sample_store_env) (empty_disk, sample_store) [Offer no_faults [8]]"
  obtain v disk2 where halted: "run_ops (store_step sample_store_env) (empty_disk, sample_store) [Offer no_faults [8], Offer no_faults [9]] =
      (disk2, sample_store\<lparr>ch_epochs := [v], ch_halted := True\<rparr>)" "ev_Epoch v = 7"
    by (rule sample_halts)
  obtain u disk where grown: "?store = (disk, sample_store\<lparr>ch_epochs := [u]\<rparr>)" "disk_halted disk = None"
    by (rule sample_grows) simp
  obtain r where "epoch_Append sample_store_env no_faults ?store [9] = Some ((disk2, sample_store\<lparr>ch_epochs := [v], ch_halted := True\<rparr>), r)"
    using halted(1) epoch_Append_returns [of sample_store_env no_faults ?store "[9]"] by (auto simp: store_step_def)
  from halt_has_culprit [OF sample_opens refl _ _ this] grown halted(2)
  obtain competing where "verify_descriptor sample_store_env [9] (replicate 32 5) None [] = Inr competing" "ev_Epoch competing = 7" "ev_Digest competing \<noteq> ev_Digest v"
    by (auto simp: sample_store_def before_def)
  with halted(1) show ?thesis by (intro exI [of _ "sample_store\<lparr>ch_epochs := [v], ch_halted := True\<rparr>"]) (auto simp: sample_store_def before_def)
qed

end
