(* ===== verification/EpochRestart.thy ===== *)
theory EpochRestart
  imports EpochEquivocation
begin

text \<open>
  A restart finds the store it left: \<^verbatim>\<open>OpenChain\<close> on the directory that any offers have produced returns the chain that
  was in memory, though it verifies without the revocations that were in force when the epochs were accepted.
\<close>

section \<open>Revocation only refuses\<close>

lemma checkApprovals_unrevoked:
  "checkApprovals c previous digest revoked seen as = Inr seen' \<Longrightarrow> checkApprovals c previous digest [] seen as = Inr seen'"
proof (induction as arbitrary: seen)
  case (Cons a as)
  then show ?case by (auto simp: guard_simps revokedIdentity_def split: sum.splits if_splits)
qed simp

lemma verifyApprovals_unrevoked:
  "verifyApprovals c d digest previous revoked = Inr () \<Longrightarrow> verifyApprovals c d digest previous [] = Inr ()"
  by (auto simp: verifyApprovals_def guard_simps split: if_splits option.splits dest: checkApprovals_unrevoked)

lemma verified_unrevoked:
  assumes "verify_descriptor env encoded authority previous revoked = Inr v"
  shows "verify_descriptor env encoded authority previous [] = Inr v"
proof -
  have "epoch_Verify env encoded authority previous revoked = Some (Inr v)" using assms by (simp add: verify_descriptor_iff)
  then have "epoch_Verify env encoded authority previous [] = Some (Inr v)"
    by (auto simp: epoch_Verify_def guard_simps Let_def revokedIdentity_def list_all_iff split: if_splits sum.splits
        dest: verifyApprovals_unrevoked)
  then show ?thesis by (simp add: verify_descriptor_iff)
qed

section \<open>The directory of an undisturbed store\<close>

definition filed :: "'cert epoch_env \<Rightarrow> chainDisk \<Rightarrow> 'cert chainState \<Rightarrow> nat \<Rightarrow> bool" where
  "filed env disk ch i \<longleftrightarrow> (\<exists>encoded. map_of (disk_files disk) (ev_Epoch (ch_epochs ch ! i)) = Some encoded \<and>
     verify_descriptor env encoded (ch_authority ch) (before (ch_epochs ch) i) [] = Inr (ch_epochs ch ! i))"

definition in_step :: "'cert epoch_env \<Rightarrow> 'cert store \<Rightarrow> bool" where
  "in_step env store \<longleftrightarrow> (case store of (disk, ch) \<Rightarrow> wf_chain ch \<and> (ch_halted ch \<longleftrightarrow> disk_halted disk \<noteq> None) \<and>
     map fst (disk_files disk) = rev (map ev_Epoch (ch_epochs ch)) \<and> (\<forall>i < length (ch_epochs ch). filed env disk ch i))"

lemma loadEpochs_filed:
  "\<forall>i < length us. \<exists>encoded. map_of (disk_files disk) (ev_Epoch (us ! i)) = Some encoded \<and>
      verify_descriptor env encoded (ch_authority ch) (before (ch_epochs ch @ us) (length (ch_epochs ch) + i)) [] = Inr (us ! i) \<and>
      ev_NetworkID (us ! i) = ch_networkID ch \<Longrightarrow>
    loadEpochs env no_faults disk ch (map ev_Epoch us) = Inr (ch\<lparr>ch_epochs := ch_epochs ch @ us\<rparr>)"
proof (induction us arbitrary: ch)
  case (Cons u us)
  from Cons.prems obtain encoded where u: "map_of (disk_files disk) (ev_Epoch u) = Some encoded"
      "verify_descriptor env encoded (ch_authority ch) (before (ch_epochs ch @ u # us) (length (ch_epochs ch))) [] = Inr u" "ev_NetworkID u = ch_networkID ch"
    by (force dest: spec [of _ 0])
  have tip: "before (ch_epochs ch @ u # us) (length (ch_epochs ch)) = tip_of (ch_epochs ch)"
    using before_append [of "length (ch_epochs ch)" "ch_epochs ch @ [u]" us] before_tip [of "ch_epochs ch" u] by simp
  have "loadEpochs env no_faults disk (ch\<lparr>ch_epochs := ch_epochs ch @ [u]\<rparr>) (map ev_Epoch us) =
      Inr (ch\<lparr>ch_epochs := ch_epochs ch @ [u]\<rparr>\<lparr>ch_epochs := (ch_epochs ch @ [u]) @ us\<rparr>)"
    using Cons.IH [of "ch\<lparr>ch_epochs := ch_epochs ch @ [u]\<rparr>"] Cons.prems by (auto simp: All_less_Suc2)
  with u tip show ?case by (simp add: no_faults_def)
qed simp

lemma sorted_numbers: "linked vs \<Longrightarrow> sort_key unat (rev (map ev_Epoch vs)) = map ev_Epoch vs"
proof -
  assume l: "linked vs"
  have "map unat (map ev_Epoch vs) = [unat (ev_Epoch (vs ! 0))..<unat (ev_Epoch (vs ! 0)) + length vs]"
    by (intro nth_equalityI) (simp_all add: linked_numbers [OF l])
  then have "sorted (map unat (map ev_Epoch vs))" "distinct (map unat (map ev_Epoch vs))" by simp_all
  moreover have "mset (map ev_Epoch vs) = mset (rev (map ev_Epoch vs))" by simp
  moreover have "inj_on unat (set (rev (map ev_Epoch vs)))" by (metis inj_onI unsigned_word_eqI)
  ultimately show ?thesis by (metis sort_key_inj_key_eq)
qed

lemma in_step_opens:
  assumes "in_step env (disk, ch)" "length (ch_authority ch) = publicKeySize"
  shows "OpenChain env no_faults disk (ch_networkID ch) (ch_authority ch) (ch_revoked ch) =
    Inr (if ch_halted ch then ch\<lparr>ch_epochs := []\<rparr> else ch)"
proof -
  let ?new = "ch\<lparr>ch_epochs := [], ch_halted := False\<rparr>"
  from assms(1) have wf: "wf_chain ch" "ch_halted ch \<longleftrightarrow> disk_halted disk \<noteq> None" "map fst (disk_files disk) = rev (map ev_Epoch (ch_epochs ch))"
      "\<forall>i < length (ch_epochs ch). filed env disk ch i"
    by (auto simp: in_step_def)
  have new: "?new = \<lparr>ch_networkID = ch_networkID ch, ch_authority = ch_authority ch, ch_revoked = ch_revoked ch, ch_epochs = [], ch_halted = False\<rparr>"
    by simp
  have "loadEpochs env no_faults disk ?new (map ev_Epoch (ch_epochs ch)) = Inr (?new\<lparr>ch_epochs := ch_epochs ?new @ ch_epochs ch\<rparr>)"
    by (rule loadEpochs_filed) (use wf in \<open>auto simp: filed_def wf_chain_def\<close>)
  moreover have "sort_key unat (map fst (disk_files disk)) = map ev_Epoch (ch_epochs ch)"
    using wf(1,3) by (simp add: wf_chain_def sorted_numbers)
  ultimately show ?thesis
    using wf(1,2) assms(2) unfolding OpenChain_def new by (cases ch) (auto simp: no_faults_def wf_chain_def Let_def)
qed

section \<open>Offers keep memory and directory in step\<close>

lemma in_step_refresh:
  assumes "in_step env (disk, ch)"
  shows "refreshLocked env no_faults disk ch = Some (ch, Inr ())"
proof -
  from assms have wf: "wf_chain ch" "ch_halted ch \<longleftrightarrow> disk_halted disk \<noteq> None" "map fst (disk_files disk) = rev (map ev_Epoch (ch_epochs ch))"
    by (auto simp: in_step_def)
  have keys: "fst ` set (disk_files disk) = ev_Epoch ` set (ch_epochs ch)" using wf(3) by (metis image_set set_rev)
  let ?n = "case tip_of (ch_epochs ch) of None \<Rightarrow> 1 | Some tip \<Rightarrow> ev_Epoch tip + 1"
  have "?n \<notin> fst ` set (disk_files disk)"
  proof (cases "ch_epochs ch" rule: rev_cases)
    case (snoc us tip)
    have l: "linked (ch_epochs ch)" using wf(1) by (simp add: wf_chain_def)
    have "ev_Epoch tip + 1 \<noteq> ev_Epoch v" if "v \<in> set (ch_epochs ch)" for v
    proof
      assume eq: "ev_Epoch tip + 1 = ev_Epoch v"
      from that obtain i where i: "i < length (ch_epochs ch)" "v = ch_epochs ch ! i" by (auto simp: in_set_conv_nth)
      have "ev_Epoch v \<noteq> 0" using linked_window [OF l i(1)] i(2) by simp
      with eq have "unat (ev_Epoch v) = Suc (unat (ev_Epoch tip))" by (metis add.commute unatSuc)
      moreover have "unat (ev_Epoch tip) = unat (ev_Epoch (ch_epochs ch ! 0)) + length us"
        using linked_numbers [OF l, of "length us"] snoc by simp
      ultimately show False using linked_numbers [OF l i(1)] i snoc by simp
    qed
    with snoc keys show ?thesis by auto
  qed (use keys in simp)
  then have "map_of (disk_files disk) ?n = None" by (simp add: map_of_eq_None_iff)
  with wf(2) show ?thesis by (simp add: refreshLocked_def no_faults_def Let_def)
qed

lemma filed_snoc:
  assumes "filed env disk ch i" "i < length (ch_epochs ch)" "map_of (disk_files disk) \<subseteq>\<^sub>m map_of (disk_files disk')"
  shows "filed env disk' (ch\<lparr>ch_epochs := ch_epochs ch @ us\<rparr>) i"
  using assms by (auto simp: filed_def before_append nth_append map_le_def dom_def)

lemma no_faults_writes: "fa_writeMark no_faults = Written" "fa_writeFile no_faults = Written" "fa_writeHalt no_faults" "fa_lock no_faults"
  by (simp_all add: no_faults_def)

lemma in_step_append_new:
  assumes "in_step env (disk, ch)" "\<not> ch_halted ch" "appendNewEpoch env no_faults disk ch n encoded = ((disk', ch'), r)"
    and "\<And>v. verify_descriptor env encoded (ch_authority ch) (tip_of (ch_epochs ch)) (ch_revoked ch) = Inr v \<Longrightarrow> ev_NetworkID v = ch_networkID ch"
  shows "in_step env (disk', ch')"
proof -
  from assms(3) consider (same) "ch' = ch" "disk_files disk' = disk_files disk" "disk_halted disk' = disk_halted disk"
    | (new) v where "ch' = ch\<lparr>ch_epochs := ch_epochs ch @ [v]\<rparr>" "disk_files disk' = (ev_Epoch v, encoded) # disk_files disk"
      "disk_halted disk' = disk_halted disk" "map_of (disk_files disk) (ev_Epoch v) = None"
      "verify_descriptor env encoded (ch_authority ch) (tip_of (ch_epochs ch)) (ch_revoked ch) = Inr v"
    by (auto simp: appendNewEpoch_def raiseWatermark_def epoch_writeNewFile_def no_faults_writes
        split: sum.splits if_splits prod.splits option.splits)
  then show ?thesis
  proof cases
    case same
    with assms(1) show ?thesis by (simp add: in_step_def filed_def)
  next
    case (new v)
    have wf: "wf_chain ch" using assms(1) by (simp add: in_step_def)
    have sub: "map_of (disk_files disk) \<subseteq>\<^sub>m map_of (disk_files disk')" using new(2,4) by (auto simp: map_le_def)
    have "filed env disk' ch' i" if "i < length (ch_epochs ch')" for i
    proof (cases "i < length (ch_epochs ch)")
      case True
      with assms(1) filed_snoc [OF _ True sub] new(1) show ?thesis by (simp add: in_step_def)
    next
      case False
      with that new(1) have "i = length (ch_epochs ch)" by simp
      with new(1,2) verified_unrevoked [OF new(5)] show ?thesis by (simp add: filed_def before_tip)
    qed
    moreover have "wf_chain ch'" using wf_chain_snoc [OF wf new(5) assms(4) [OF new(5)]] new(1) by simp
    ultimately show ?thesis using assms(1) new(1-3) by (simp add: in_step_def)
  qed
qed

lemma in_step_Offer:
  assumes "in_step env (disk, ch)" "epoch_Append env no_faults (disk, ch) encoded = Some ((disk', ch'), r)"
  shows "in_step env (disk', ch')"
proof -
  have wf: "wf_chain ch" using assms(1) by (simp add: in_step_def)
  have "appendRefreshed env no_faults disk ch encoded = ((disk', ch'), r)"
    using assms(2) in_step_refresh [OF assms(1)] by (simp add: epoch_Append_def no_faults_writes)
  then show ?thesis
  proof (cases rule: appendRefreshed_cases)
    case (probed probe digest network n)
    have net: "ev_NetworkID v = ch_networkID ch"
      if "verify_descriptor env encoded authority previous revoked = Inr v" for authority previous revoked v
      using embedded_is_verified(1) [OF probed(3,1) that] probed(4) wf by (simp add: wf_chain_def)
    have "in_step env (disk', ch')" if "appendKnownEpoch env no_faults disk ch slot digest encoded = ((disk', ch'), r)" for slot
      using that assms(1) probed(5)
      by (auto simp: appendKnownEpoch_def halt_def Let_def no_faults_writes in_step_def filed_def wf_chain_def split: sum.splits if_splits prod.splits)
    moreover have "in_step env (disk', ch')" if "appendNewEpoch env no_faults disk ch n encoded = ((disk', ch'), r)"
      by (rule in_step_append_new [OF assms(1) probed(5) that net])
    ultimately show ?thesis using probed(6) by (auto split: option.splits)
  qed (use assms(1) in simp)
qed

section \<open>Restarting\<close>

definition offer_bytes :: "'cert epoch_env \<Rightarrow> 'cert store \<Rightarrow> bytes \<Rightarrow> 'cert store" where
  "offer_bytes env store encoded = store_step env store (Offer no_faults encoded)"

interpretation undisturbed: ordered_machine "offer_bytes env" "in_step env" "\<lambda>store store'. chain_extends (snd store) (snd store')"
  for env :: "'cert epoch_env"
proof
  fix store :: "'cert store" and encoded
  assume inv: "in_step env store"
  obtain disk ch disk' ch' where st: "store = (disk, ch)" "offer_bytes env store encoded = (disk', ch')" by (metis surj_pair)
  have wf: "wf_chain ch" using inv st(1) by (simp add: in_step_def)
  from Offer_effect [OF wf, of env disk no_faults encoded disk' ch'] st obtain r
    where "epoch_Append env no_faults (disk, ch) encoded = Some ((disk', ch'), r)" by (auto simp: offer_bytes_def)
  with in_step_Offer inv st(1) epoch_Append_effect(2) [OF this wf] st(2)
  show "in_step env (offer_bytes env store encoded)" "chain_extends (snd store) (snd (offer_bytes env store encoded))" by auto
qed (auto intro: chain_extends_trans)

lemma empty_in_step: "wf_chain ch \<Longrightarrow> ch_epochs ch = [] \<Longrightarrow> \<not> ch_halted ch \<Longrightarrow> in_step env (empty_disk, ch)"
  by (simp add: in_step_def empty_disk_def)

text \<open>
  C29: A restart continues where the store stopped. Start a store on an empty directory and offer it anything, with no
  failing writes and no other process. Opening the directory again, with the same pins, succeeds and gives the chain
  that was in memory, epoch for epoch, whatever the revocation list has excluded meanwhile; a store that halted comes
  back halted, and serves nothing.
\<close>

theorem restart_continues:
  assumes "OpenChain env no_faults empty_disk networkID authority revoked = Inr ch0"
    and "run_ops (offer_bytes env) (empty_disk, ch0) offers = (disk, ch)"
  shows "OpenChain env no_faults disk networkID authority revoked = Inr (if ch_halted ch then ch\<lparr>ch_epochs := []\<rparr> else ch)"
proof -
  have ch0: "ch_networkID ch0 = networkID" "ch_authority ch0 = authority" "ch_revoked ch0 = revoked" "ch_epochs ch0 = []" "\<not> ch_halted ch0"
      "length authority = publicKeySize"
    using assms(1) by (auto simp: OpenChain_def guard_simps empty_disk_def Let_def)
  have start: "in_step env (empty_disk, ch0)" using empty_in_step [OF OpenChain_wf [OF assms(1)]] ch0 by simp
  have "in_step env (disk, ch)" using undisturbed.run_inv [OF start, of offers] assms(2) by simp
  moreover have "chain_extends ch0 ch" using undisturbed.run_ord [OF start, of offers] assms(2) by simp
  ultimately show ?thesis using in_step_opens [of env disk ch] ch0 by (simp add: chain_extends_def)
qed

theorem restart_continues_witness:
  "\<exists>disk v. run_ops (offer_bytes sample_store_env) (empty_disk, sample_store) [[8]] = (disk, sample_store\<lparr>ch_epochs := [v]\<rparr>) \<and>
     OpenChain sample_store_env no_faults disk ''net'' (replicate 32 5) [] = Inr (sample_store\<lparr>ch_epochs := [v]\<rparr>) \<and> ev_Epoch v = 7"
proof -
  obtain v disk where v: "store_step sample_store_env (empty_disk, sample_store) (Offer no_faults [8]) = (disk, sample_store\<lparr>ch_epochs := [v]\<rparr>)" "ev_Epoch v = 7"
    by (rule sample_grows)
  then have run: "run_ops (offer_bytes sample_store_env) (empty_disk, sample_store) [[8]] = (disk, sample_store\<lparr>ch_epochs := [v]\<rparr>)" by (simp add: offer_bytes_def)
  have "\<not> ch_halted (sample_store\<lparr>ch_epochs := [v]\<rparr>)" by (simp add: sample_store_def)
  with restart_continues [OF sample_opens run] run v(2) show ?thesis by auto
qed

end
