(* ===== verification/ReleaseSchedule.thy ===== *)
theory ReleaseSchedule
  imports GoNet
begin

text \<open>
  \<^verbatim>\<open>live/airlock/schedule.go\<close>: the public schedule of release epochs. Durations are 64-bit words of nanoseconds read as
  signed numbers, so that products and differences wrap where the machine's do; instants are unbounded.
\<close>

section \<open>Schedule\<close>

type_synonym duration64 = "64 word"

abbreviation ns :: "duration64 \<Rightarrow> int" where "ns d \<equiv> sint d"

definition maxInt64 :: int where "maxInt64 = 2 ^ 63 - 1"

text \<open>\<^verbatim>\<open>Time.Sub\<close> saturates instead of wrapping.\<close>

definition time_Sub :: "instant \<Rightarrow> instant \<Rightarrow> duration64" where
  "time_Sub a b = of_int (max (- (2 ^ 63)) (min maxInt64 (a - b)))"

record Schedule =
  sch_Genesis :: instant
  sch_Period :: duration64
  sch_DepositCutoff :: duration64
  sch_BatchSize :: "64 word"
  sch_MaxDepositsPerSession :: "64 word"

datatype schedule_error =
    GenesisRequired | PeriodNotPositive | CutoffOutsidePeriod | BatchTooSmall | SessionBoundInvalid
  | EpochOutOfRange | BeforeGenesis | BeyondRange

definition Schedule_Validate :: "Schedule \<Rightarrow> schedule_error + unit" where
  "Schedule_Validate s =
     andThen (require (sch_Genesis s \<noteq> time_zero) GenesisRequired) (\<lambda>_.
     andThen (require (0 < ns (sch_Period s)) PeriodNotPositive) (\<lambda>_.
     andThen (require (0 < ns (sch_DepositCutoff s) \<and> ns (sch_DepositCutoff s) < ns (sch_Period s)) CutoffOutsidePeriod) (\<lambda>_.
     andThen (require (2 \<le> ns (sch_BatchSize s)) BatchTooSmall) (\<lambda>_.
     require (1 \<le> ns (sch_MaxDepositsPerSession s) \<and> ns (sch_MaxDepositsPerSession s) \<le> ns (sch_BatchSize s)) SessionBoundInvalid))))"

definition MaxEpoch :: "Schedule \<Rightarrow> u64" where
  "MaxEpoch s = (if ns (sch_Period s) \<le> 0 then 0 else of_int maxInt64 div sch_Period s - 1)"

definition checkEpoch :: "Schedule \<Rightarrow> u64 \<Rightarrow> schedule_error + unit" where
  "checkEpoch s epoch = require (epoch \<le> MaxEpoch s) EpochOutOfRange"

text \<open>The elapsed time is not negative and the period is positive, so Go's division rounds down.\<close>

definition EpochAt :: "Schedule \<Rightarrow> instant \<Rightarrow> schedule_error + u64" where
  "EpochAt s now =
     andThen (Schedule_Validate s) (\<lambda>_.
     andThen (require (\<not> now < sch_Genesis s) BeforeGenesis) (\<lambda>_.
     let elapsed = time_Sub now (sch_Genesis s) in
     andThen (require (ns elapsed \<noteq> maxInt64) BeyondRange) (\<lambda>_.
     let epoch = of_int (ns elapsed div ns (sch_Period s)) in
     andThen (checkEpoch s epoch) (\<lambda>_. Inr epoch))))"

definition DepositWindow :: "Schedule \<Rightarrow> u64 \<Rightarrow> schedule_error + instant \<times> instant" where
  "DepositWindow s epoch =
     andThen (Schedule_Validate s) (\<lambda>_.
     andThen (checkEpoch s epoch) (\<lambda>_.
     let opens = sch_Genesis s + ns (epoch * sch_Period s) in
     Inr (opens, opens + ns (sch_Period s - sch_DepositCutoff s))))"

definition ReleaseAt :: "Schedule \<Rightarrow> u64 \<Rightarrow> schedule_error + instant" where
  "ReleaseAt s epoch =
     andThen (Schedule_Validate s) (\<lambda>_.
     andThen (checkEpoch s epoch) (\<lambda>_.
     Inr (sch_Genesis s + ns ((epoch + 1) * sch_Period s))))"

section \<open>Without wrapping\<close>

lemma ns_of_int: "0 \<le> x \<Longrightarrow> x < 2 ^ 63 \<Longrightarrow> ns (of_int x) = x"
  by (simp add: signed_of_int signed_take_bit_int_eq_self)

lemma ns_bound: "- (2 ^ 63) \<le> ns d" "ns d < 2 ^ 63"
  using sint_ge [of d] sint_lt [of d] by simp_all

lemma uint_positive: "0 \<le> ns d \<Longrightarrow> uint d = ns d"
proof -
  assume "0 \<le> ns d"
  moreover have "uint d = take_bit 64 (ns d)"
  proof -
    have "uint (of_int (ns d) :: 64 word) = take_bit 64 (ns d)" by (subst unsigned_of_int) simp
    then show ?thesis by (metis of_int_sint scast_id)
  qed
  ultimately show ?thesis using ns_bound(2) [of d] by (simp add: take_bit_int_eq_self)
qed

lemma Schedule_Validate_ok:
  "Schedule_Validate s = Inr () \<longleftrightarrow> sch_Genesis s \<noteq> time_zero \<and> 0 < ns (sch_Period s) \<and> 0 < ns (sch_DepositCutoff s) \<and>
     ns (sch_DepositCutoff s) < ns (sch_Period s) \<and> 2 \<le> ns (sch_BatchSize s) \<and> 1 \<le> ns (sch_MaxDepositsPerSession s) \<and>
     ns (sch_MaxDepositsPerSession s) \<le> ns (sch_BatchSize s)"
  by (auto simp: Schedule_Validate_def guard_simps)

lemma MaxEpoch_eq:
  assumes "0 < ns (sch_Period s)"
  shows "uint (MaxEpoch s) = maxInt64 div ns (sch_Period s) - 1"
proof -
  let ?p = "ns (sch_Period s)"
  have p: "uint (sch_Period s) = ?p" "?p \<le> maxInt64" using assms uint_positive ns_bound(2) [of "sch_Period s"] by (simp_all add: maxInt64_def)
  have m: "uint (of_int maxInt64 :: u64) = maxInt64" by (simp add: maxInt64_def)
  let ?q = "of_int maxInt64 div sch_Period s :: u64"
  have q: "uint ?q = maxInt64 div ?p" by (simp add: uint_div_distrib m p)
  have "0 < maxInt64 div ?p" using assms p(2) by (simp add: pos_imp_zdiv_pos_iff)
  then have "uint (1 :: u64) \<le> uint ?q" using q by simp
  then have "uint (?q - 1) = uint ?q - 1" using uint_sub_lem [of "1 :: u64" ?q] by simp
  with q assms show ?thesis by (simp add: MaxEpoch_def)
qed

lemma in_range:
  assumes "0 < ns (sch_Period s)" "epoch \<le> MaxEpoch s"
  shows "(uint epoch + 1) * ns (sch_Period s) \<le> maxInt64"
proof -
  let ?p = "ns (sch_Period s)"
  have "uint epoch + 1 \<le> maxInt64 div ?p" using assms(2) MaxEpoch_eq [OF assms(1)] by (simp add: word_le_def)
  then have "(uint epoch + 1) * ?p \<le> maxInt64 div ?p * ?p" using assms(1) by (simp add: mult_right_mono)
  also have "\<dots> \<le> maxInt64" using assms(1) by (metis div_mult_mod_eq le_add_same_cancel1 pos_mod_sign)
  finally show ?thesis .
qed

lemma ns_product:
  assumes "0 < ns p" "0 \<le> x" "x * ns p \<le> maxInt64"
  shows "ns (of_int x * p) = x * ns p"
proof -
  have "of_int x * p = of_int (x * ns p)" by simp
  moreover have "ns (of_int (x * ns p)) = x * ns p" using assms by (intro ns_of_int) (auto simp: maxInt64_def)
  ultimately show ?thesis by (metis)
qed

lemma boundaries:
  assumes "Schedule_Validate s = Inr ()" "epoch \<le> MaxEpoch s"
  shows "ns (epoch * sch_Period s) = uint epoch * ns (sch_Period s)"
    and "ns ((epoch + 1) * sch_Period s) = (uint epoch + 1) * ns (sch_Period s)"
    and "ns (sch_Period s - sch_DepositCutoff s) = ns (sch_Period s) - ns (sch_DepositCutoff s)"
proof -
  have v: "0 < ns (sch_Period s)" "0 < ns (sch_DepositCutoff s)" "ns (sch_DepositCutoff s) < ns (sch_Period s)"
    using assms(1) by (simp_all add: Schedule_Validate_ok)
  note r = in_range [OF v(1) assms(2)]
  have "uint epoch * ns (sch_Period s) \<le> maxInt64" using r v(1) by (simp add: distrib_right)
  from ns_product [OF v(1) _ this] show "ns (epoch * sch_Period s) = uint epoch * ns (sch_Period s)" by simp
  from ns_product [OF v(1) _ r] show "ns ((epoch + 1) * sch_Period s) = (uint epoch + 1) * ns (sch_Period s)" by simp
  have "ns (of_int (ns (sch_Period s) - ns (sch_DepositCutoff s))) = ns (sch_Period s) - ns (sch_DepositCutoff s)"
    using v ns_bound(2) [of "sch_Period s"] by (intro ns_of_int) simp_all
  then show "ns (sch_Period s - sch_DepositCutoff s) = ns (sch_Period s) - ns (sch_DepositCutoff s)" by simp
qed

lemma elapsed_eq:
  assumes "sch_Genesis s \<le> now"
  shows "ns (time_Sub now (sch_Genesis s)) = min maxInt64 (now - sch_Genesis s)"
proof -
  have "max (- (2 ^ 63)) (min maxInt64 (now - sch_Genesis s)) = min maxInt64 (now - sch_Genesis s)"
    using assms by (simp add: maxInt64_def)
  then show ?thesis
    unfolding time_Sub_def using assms by (simp only:) (rule ns_of_int, auto simp: maxInt64_def)
qed

lemma EpochAt_iff:
  assumes "Schedule_Validate s = Inr ()"
  shows "EpochAt s now = Inr e \<longleftrightarrow> e \<le> MaxEpoch s \<and> sch_Genesis s + uint e * ns (sch_Period s) \<le> now \<and>
    now < sch_Genesis s + (uint e + 1) * ns (sch_Period s)"
proof -
  let ?p = "ns (sch_Period s)" and ?x = "now - sch_Genesis s"
  have p: "0 < ?p" using assms by (simp add: Schedule_Validate_ok)
  have step: "EpochAt s now = Inr e \<longleftrightarrow> 0 \<le> ?x \<and> ?x < maxInt64 \<and> of_int (?x div ?p) = e \<and> e \<le> MaxEpoch s"
  proof (cases "0 \<le> ?x")
    case True
    then have "sch_Genesis s \<le> now" by simp
    with assms elapsed_eq [OF this] show ?thesis
      by (auto simp: EpochAt_def Let_def checkEpoch_def guard_simps)
  qed (use assms in \<open>auto simp: EpochAt_def guard_simps\<close>)
  have small: "uint (of_int (?x div ?p) :: u64) = ?x div ?p" if "0 \<le> ?x" "?x < maxInt64"
  proof -
    have "?x div ?p \<le> ?x" using zdiv_mono2 [of ?x 1 ?p] p that(1) by simp
    moreover have "0 \<le> ?x div ?p" using p that(1) by (simp add: pos_imp_zdiv_nonneg_iff)
    ultimately show ?thesis using that(2) by (simp add: unsigned_of_int take_bit_int_eq_self maxInt64_def)
  qed
  have "?x div ?p = uint e \<longleftrightarrow> uint e * ?p \<le> ?x \<and> ?x < (uint e + 1) * ?p"
  proof -
    have "?x = ?x div ?p * ?p + ?x mod ?p" "0 \<le> ?x mod ?p" "?x mod ?p < ?p" using p by simp_all
    moreover have "?x div ?p = uint e" if "uint e * ?p \<le> ?x" "?x < uint e * ?p + ?p"
      using that p by (intro int_div_pos_eq [of _ _ _ "?x - uint e * ?p"]) (simp_all add: mult.commute)
    ultimately have "?x div ?p = uint e \<longleftrightarrow> uint e * ?p \<le> ?x \<and> ?x < uint e * ?p + ?p" by (metis add.right_neutral add_less_cancel_left add_left_mono)
    then show ?thesis by (simp add: distrib_right)
  qed
  moreover have "?x < maxInt64" if "e \<le> MaxEpoch s" "?x < (uint e + 1) * ?p" using in_range [OF p that(1)] that(2) by linarith
  moreover have "0 \<le> ?x" if "uint e * ?p \<le> ?x" using that p by (meson mult_nonneg_nonneg order_trans less_imp_le uint_ge_0)
  moreover have "of_int (?x div ?p) = e \<longleftrightarrow> ?x div ?p = uint e" if "0 \<le> ?x" "?x < maxInt64"
    using small [OF that] word_uint_eq_iff [of "of_int (?x div ?p)" e] by simp
  ultimately show ?thesis unfolding step by (auto simp: algebra_simps)
qed

definition sample_schedule :: Schedule where
  "sample_schedule = \<lparr>sch_Genesis = 1000, sch_Period = 600, sch_DepositCutoff = 150, sch_BatchSize = 3, sch_MaxDepositsPerSession = 2\<rparr>"

lemma sample_schedule_valid: "Schedule_Validate sample_schedule = Inr ()"
proof -
  have "(1000 :: int) \<noteq> time_zero" by (simp add: time_zero_def of_civil_def second_def year_start_def)
  then show ?thesis by (simp add: Schedule_Validate_ok sample_schedule_def)
qed

section \<open>Release times\<close>

text \<open>
  C30: Release times are a function of public parameters alone, and never wrap. For a valid schedule, an epoch up to
  \<^verbatim>\<open>MaxEpoch\<close> takes deposits from its opening to the cutoff before its release, epoch after epoch without gap, at exactly
  the instants that unbounded arithmetic gives; beyond \<^verbatim>\<open>MaxEpoch\<close> there is an error and no window. \<^verbatim>\<open>EpochAt\<close> finds
  exactly the epoch whose opening and release enclose the instant.
\<close>

theorem release_times_exact:
  assumes "Schedule_Validate s = Inr ()"
  shows "(epoch \<le> MaxEpoch s \<longrightarrow>
      DepositWindow s epoch = Inr (sch_Genesis s + uint epoch * ns (sch_Period s),
        sch_Genesis s + (uint epoch + 1) * ns (sch_Period s) - ns (sch_DepositCutoff s)) \<and>
      ReleaseAt s epoch = Inr (sch_Genesis s + (uint epoch + 1) * ns (sch_Period s))) \<and>
    (\<not> epoch \<le> MaxEpoch s \<longrightarrow> DepositWindow s epoch = Inl EpochOutOfRange \<and> ReleaseAt s epoch = Inl EpochOutOfRange) \<and>
    (EpochAt s now = Inr epoch \<longleftrightarrow>
      (\<exists>opens closes release. DepositWindow s epoch = Inr (opens, closes) \<and> ReleaseAt s epoch = Inr release \<and> opens \<le> now \<and> now < release))"
proof -
  have inside: "DepositWindow s epoch = Inr (sch_Genesis s + uint epoch * ns (sch_Period s),
        sch_Genesis s + (uint epoch + 1) * ns (sch_Period s) - ns (sch_DepositCutoff s)) \<and>
      ReleaseAt s epoch = Inr (sch_Genesis s + (uint epoch + 1) * ns (sch_Period s))" if "epoch \<le> MaxEpoch s"
    using assms boundaries [OF assms that] that
    by (simp add: DepositWindow_def ReleaseAt_def checkEpoch_def Let_def distrib_right)
  moreover have outside: "DepositWindow s epoch = Inl EpochOutOfRange \<and> ReleaseAt s epoch = Inl EpochOutOfRange" if "\<not> epoch \<le> MaxEpoch s"
    using assms that by (simp add: DepositWindow_def ReleaseAt_def checkEpoch_def)
  moreover have "EpochAt s now = Inr epoch \<longleftrightarrow>
      (\<exists>opens closes release. DepositWindow s epoch = Inr (opens, closes) \<and> ReleaseAt s epoch = Inr release \<and> opens \<le> now \<and> now < release)"
  proof (cases "epoch \<le> MaxEpoch s")
    case True
    with inside EpochAt_iff [OF assms, of now epoch] show ?thesis by simp
  next
    case False
    with outside EpochAt_iff [OF assms, of now epoch] show ?thesis by simp
  qed
  ultimately show ?thesis by blast
qed

theorem release_times_exact_witness:
  "EpochAt sample_schedule 2900 = Inr 3 \<and> DepositWindow sample_schedule 3 = Inr (2800, 3250) \<and> ReleaseAt sample_schedule 3 = Inr 3400"
proof -
  have "3 \<le> MaxEpoch sample_schedule" by (simp add: MaxEpoch_def sample_schedule_def maxInt64_def)
  with release_times_exact [OF sample_schedule_valid, of 3 2900] show ?thesis by (simp add: sample_schedule_def)
qed

end
