(* ===== verification/Airlock.thy ===== *)
theory Airlock
  imports ReleaseSchedule "HOL-Library.Multiset"
begin

text \<open>
  \<^verbatim>\<open>live/airlock/deposit.go\<close>: the accumulator of one release epoch's deposits at an entry operator, from \<^verbatim>\<open>New\<close> over any
  deposits to \<^verbatim>\<open>Seal\<close>. Every method holds the lock and is one step. The mix library of the repository, which computes on
  curve points, is an argument; so are the draws of the system's random source.
\<close>

section \<open>State\<close>

definition DepositSize :: nat where "DepositSize = 1152"

definition wireCellSize :: nat where "wireCellSize = 1200"

text \<open>What the airlock calls of \<^verbatim>\<open>mix\<close>.\<close>

record ('committee, 'batch) mix_lib =
  mx_ValidateThresholdCommittee :: "'committee \<Rightarrow> bool"
  mx_ValidateCiphertextColumn :: "bytes \<Rightarrow> bool"
  mx_ParseWire :: "bytes list \<Rightarrow> 'batch option"
  mx_MarshalWire :: "nat \<Rightarrow> 'batch \<Rightarrow> bytes list option"
  mx_Digest :: "'batch \<Rightarrow> bytes option"

record airlock =
  al_schedule :: Schedule
  al_epoch :: u64
  al_opens :: instant
  al_closes :: instant
  al_deposits :: "(bytes \<times> bytes) list"
  al_sessions :: "bytes \<Rightarrow> nat"
  al_cover :: "bytes list"
  al_sealed :: bool
  al_droppedFull :: nat
  al_droppedSession :: nat

datatype airlock_error =
    ScheduleRefused schedule_error | CommitteeNotCertified | CoverFailed
  | WindowClosed | WindowOpen | DepositConflict | AlreadySealed | DepositMalformed | NoRandomness | BatchInvalid

record 'batch Sealed =
  se_ReleaseEpoch :: u64
  se_Digest :: bytes
  se_Columns :: "bytes list"
  se_batch :: 'batch

section \<open>Opening\<close>

text \<open>The cover columns of \<^verbatim>\<open>New\<close>; \<open>encrypt i\<close> is the outcome of the \<open>i\<close>-th encryption of the empty fragment.\<close>

fun coverColumns :: "(nat \<Rightarrow> bytes option) \<Rightarrow> nat \<Rightarrow> nat \<Rightarrow> bytes list option" where
  "coverColumns encrypt i 0 = Some []"
| "coverColumns encrypt i (Suc n) =
     (case encrypt i of None \<Rightarrow> None | Some column \<Rightarrow> map_option ((#) column) (coverColumns encrypt (Suc i) n))"

definition airlock_New ::
    "('committee, 'batch) mix_lib \<Rightarrow> (nat \<Rightarrow> bytes option) \<Rightarrow> Schedule \<Rightarrow> 'committee \<Rightarrow> u64 \<Rightarrow> airlock_error + airlock" where
  "airlock_New mx encrypt schedule committee epoch =
     andThen (map_sum ScheduleRefused id (Schedule_Validate schedule)) (\<lambda>_.
     andThen (require (mx_ValidateThresholdCommittee mx committee) CommitteeNotCertified) (\<lambda>_.
     andThen (map_sum ScheduleRefused id (DepositWindow schedule epoch)) (\<lambda>(opens, closes).
     andThen (expect (coverColumns encrypt 0 (nat (ns (sch_BatchSize schedule)))) CoverFailed) (\<lambda>cover.
     Inr \<lparr>al_schedule = schedule, al_epoch = epoch, al_opens = opens, al_closes = closes, al_deposits = [],
          al_sessions = (\<lambda>_. 0), al_cover = cover, al_sealed = False, al_droppedFull = 0, al_droppedSession = 0\<rparr>))))"

section \<open>Depositing\<close>

definition DepositID :: "crypto \<Rightarrow> bytes \<Rightarrow> u64 \<Rightarrow> bytes" where
  "DepositID c session sequence = sha256 c (bytes_of ''nomad-airlock-deposit-id-v1'' @ session @ be64 sequence)"

text \<open>A payload copied into a zeroed wire cell.\<close>

definition column_of :: "bytes \<Rightarrow> bytes" where
  "column_of payload = payload @ replicate (wireCellSize - length payload) 0"

definition validatePayload :: "('committee, 'batch) mix_lib \<Rightarrow> bytes \<Rightarrow> bool" where
  "validatePayload mx payload = mx_ValidateCiphertextColumn mx (column_of payload)"

definition Deposit ::
    "crypto \<Rightarrow> ('committee, 'batch) mix_lib \<Rightarrow> airlock \<Rightarrow> bytes \<Rightarrow> u64 \<Rightarrow> bytes \<Rightarrow> instant \<Rightarrow> airlock \<times> (airlock_error + unit)" where
  "Deposit c mx a session sequence payload now =
     (let id = DepositID c session sequence in
      if al_sealed a then (a, Inl AlreadySealed)
      else if now < al_opens a \<or> \<not> now < al_closes a then (a, Inl WindowClosed)
      else case map_of (al_deposits a) id of
        Some existing \<Rightarrow> (a, if existing \<noteq> payload then Inl DepositConflict else Inr ())
      | None \<Rightarrow>
          if int (al_sessions a session) \<ge> ns (sch_MaxDepositsPerSession (al_schedule a))
          then (a\<lparr>al_droppedSession := al_droppedSession a + 1\<rparr>, Inr ())
          else if int (length (al_deposits a)) \<ge> ns (sch_BatchSize (al_schedule a))
          then (a\<lparr>al_droppedFull := al_droppedFull a + 1\<rparr>, Inr ())
          else if \<not> validatePayload mx payload then (a, Inl DepositMalformed)
          else (a\<lparr>al_deposits := (id, payload) # al_deposits a, al_sessions := (al_sessions a)(session := al_sessions a session + 1)\<rparr>, Inr ()))"

definition Pending :: "airlock \<Rightarrow> nat" where
  "Pending a = length (al_deposits a)"

section \<open>Sealing\<close>

text \<open>
  Fisher-Yates from the last index down; \<open>draw i\<close> is what the random source gives for a number up to \<open>i\<close>, or its failure.
\<close>

definition swap_at :: "'a list \<Rightarrow> nat \<Rightarrow> nat \<Rightarrow> 'a list" where
  "swap_at xs i j = xs[i := xs ! j, j := xs ! i]"

fun shuffleFrom :: "(nat \<Rightarrow> nat option) \<Rightarrow> nat \<Rightarrow> 'a list \<Rightarrow> 'a list option" where
  "shuffleFrom draw 0 columns = Some columns"
| "shuffleFrom draw (Suc i) columns =
     (case draw (Suc i) of None \<Rightarrow> None | Some position \<Rightarrow> shuffleFrom draw i (swap_at columns (Suc i) position))"

definition shuffleColumns :: "(nat \<Rightarrow> nat option) \<Rightarrow> 'a list \<Rightarrow> 'a list option" where
  "shuffleColumns draw columns = shuffleFrom draw (length columns - 1) columns"

text \<open>Identifiers are compared byte by byte; they all have the same length.\<close>

fun bytes_less :: "bytes \<Rightarrow> bytes \<Rightarrow> bool" where
  "bytes_less (a # as) (b # bs) = (a < b \<or> a = b \<and> bytes_less as bs)"
| "bytes_less [] (b # bs) = True"
| "bytes_less _ [] = False"

fun insertDeposit :: "bytes \<times> bytes \<Rightarrow> (bytes \<times> bytes) list \<Rightarrow> (bytes \<times> bytes) list" where
  "insertDeposit d [] = [d]"
| "insertDeposit d (e # es) = (if bytes_less (fst d) (fst e) then d # e # es else e # insertDeposit d es)"

definition sortDeposits :: "(bytes \<times> bytes) list \<Rightarrow> (bytes \<times> bytes) list" where
  "sortDeposits ds = foldr insertDeposit ds []"

text \<open>Cover fills up from the index the real deposits leave off at.\<close>

definition fillColumns :: "airlock \<Rightarrow> bytes list" where
  "fillColumns a =
     (let real_columns = map (\<lambda>d. column_of (snd d)) (sortDeposits (al_deposits a));
          size = nat (ns (sch_BatchSize (al_schedule a)))
      in real_columns @ map (\<lambda>i. al_cover a ! i) [length real_columns..<size])"

definition Airlock_Seal ::
    "('committee, 'batch) mix_lib \<Rightarrow> airlock \<Rightarrow> instant \<Rightarrow> (nat \<Rightarrow> nat option) \<Rightarrow> nat \<Rightarrow> airlock \<times> (airlock_error + 'batch Sealed)" where
  "Airlock_Seal mx a now draw padding =
     (if al_sealed a then (a, Inl AlreadySealed)
      else if now < al_closes a then (a, Inl WindowOpen)
      else case ReleaseAt (al_schedule a) (al_epoch a) of
        Inl e \<Rightarrow> (a, Inl (ScheduleRefused e))
      | Inr release \<Rightarrow>
          if \<not> now < release then (a, Inl WindowClosed)
          else case shuffleColumns draw (fillColumns a) of
            None \<Rightarrow> (a, Inl NoRandomness)
          | Some columns \<Rightarrow>
              (case mx_ParseWire mx columns of
                 None \<Rightarrow> (a, Inl BatchInvalid)
               | Some batch \<Rightarrow>
                   (case (mx_MarshalWire mx padding batch, mx_Digest mx batch) of
                      (Some out, Some digest) \<Rightarrow>
                        (a\<lparr>al_sealed := True\<rparr>,
                         Inr \<lparr>se_ReleaseEpoch = al_epoch a, se_Digest = digest, se_Columns = out, se_batch = batch\<rparr>)
                    | _ \<Rightarrow> (a, Inl BatchInvalid))))"

section \<open>Shuffling and filling\<close>

definition draws_below :: "(nat \<Rightarrow> nat option) \<Rightarrow> bool" where
  "draws_below draw \<longleftrightarrow> (\<forall>i position. draw i = Some position \<longrightarrow> position \<le> i)"

lemma mset_swap_at: "i < length xs \<Longrightarrow> j < length xs \<Longrightarrow> mset (swap_at xs i j) = mset xs"
  by (simp add: swap_at_def mset_swap)

lemma shuffleFrom_mset:
  "shuffleFrom draw i xs = Some ys \<Longrightarrow> draws_below draw \<Longrightarrow> i < length xs \<or> i = 0 \<Longrightarrow> mset ys = mset xs"
proof (induction draw i xs rule: shuffleFrom.induct)
  case (2 draw i xs)
  then obtain position where "draw (Suc i) = Some position" "shuffleFrom draw i (swap_at xs (Suc i) position) = Some ys" "position \<le> Suc i"
    by (auto simp: draws_below_def split: option.splits)
  with 2 show ?case by (simp add: mset_swap_at) (simp add: swap_at_def)
qed simp

lemma shuffleFrom_total: "\<forall>k. draw k \<noteq> None \<Longrightarrow> \<exists>ys. shuffleFrom draw i xs = Some ys"
  by (induction draw i xs rule: shuffleFrom.induct) (auto split: option.split)

lemma shuffleColumns_mset: "shuffleColumns draw xs = Some ys \<Longrightarrow> draws_below draw \<Longrightarrow> mset ys = mset xs"
  unfolding shuffleColumns_def by (erule shuffleFrom_mset) (cases xs; simp)+

lemma sortDeposits_mset [simp]: "mset (sortDeposits ds) = mset ds"
proof -
  have "mset (insertDeposit d es) = add_mset d (mset es)" for d es by (induction es) auto
  then have "mset (foldr insertDeposit ds es) = mset ds + mset es" for es by (induction ds) auto
  then show ?thesis by (simp add: sortDeposits_def)
qed

lemma length_sortDeposits [simp]: "length (sortDeposits ds) = length ds"
  by (metis size_mset sortDeposits_mset)

lemma fillColumns_mset:
  assumes "length (al_deposits a) \<le> length (al_cover a)" "length (al_cover a) = nat (ns (sch_BatchSize (al_schedule a)))"
  shows "mset (fillColumns a) = mset (map (\<lambda>d. column_of (snd d)) (al_deposits a)) + mset (drop (length (al_deposits a)) (al_cover a))"
    and "length (fillColumns a) = length (al_cover a)"
proof -
  have "map (\<lambda>i. al_cover a ! i) [length (al_deposits a)..<length (al_cover a)] = drop (length (al_deposits a)) (al_cover a)"
    by (intro nth_equalityI) simp_all
  then show "mset (fillColumns a) = mset (map (\<lambda>d. column_of (snd d)) (al_deposits a)) + mset (drop (length (al_deposits a)) (al_cover a))"
    unfolding fillColumns_def Let_def assms(2) [symmetric] by simp
  show "length (fillColumns a) = length (al_cover a)"
    using assms unfolding fillColumns_def Let_def by simp
qed

section \<open>Any run\<close>

datatype airlock_event =
    DepositAt bytes u64 bytes instant
  | SealAt instant "nat \<Rightarrow> nat option" nat

definition airlock_step :: "crypto \<Rightarrow> ('committee, 'batch) mix_lib \<Rightarrow> airlock \<Rightarrow> airlock_event \<Rightarrow> airlock" where
  "airlock_step c mx a event =
     (case event of
        DepositAt session sequence payload now \<Rightarrow> fst (Deposit c mx a session sequence payload now)
      | SealAt now draw padding \<Rightarrow> fst (Airlock_Seal mx a now draw padding))"

definition airlock_inv :: "('committee, 'batch) mix_lib \<Rightarrow> airlock \<Rightarrow> bool" where
  "airlock_inv mx a \<longleftrightarrow> Schedule_Validate (al_schedule a) = Inr () \<and>
     DepositWindow (al_schedule a) (al_epoch a) = Inr (al_opens a, al_closes a) \<and>
     length (al_cover a) = nat (ns (sch_BatchSize (al_schedule a))) \<and> distinct (map fst (al_deposits a)) \<and>
     length (al_deposits a) \<le> length (al_cover a) \<and> (\<forall>d \<in> set (al_deposits a). validatePayload mx (snd d)) \<and>
     (\<forall>session. int (al_sessions a session) \<le> ns (sch_MaxDepositsPerSession (al_schedule a)))"

definition airlock_grows :: "airlock \<Rightarrow> airlock \<Rightarrow> bool" where
  "airlock_grows a b \<longleftrightarrow> al_schedule b = al_schedule a \<and> al_epoch b = al_epoch a \<and> al_opens b = al_opens a \<and> al_closes b = al_closes a \<and>
     al_cover b = al_cover a \<and> map_of (al_deposits a) \<subseteq>\<^sub>m map_of (al_deposits b) \<and>
     (al_sealed a \<longrightarrow> al_sealed b \<and> al_deposits b = al_deposits a)"

lemma Airlock_Seal_state: "fst (Airlock_Seal mx a now draw padding) = a \<or> fst (Airlock_Seal mx a now draw padding) = a\<lparr>al_sealed := True\<rparr> \<and> \<not> al_sealed a"
  by (auto simp: Airlock_Seal_def split: sum.split option.split)

lemma Deposit_state:
  assumes "Deposit c mx a session sequence payload now = (a', r)"
  obtains (same) "a' = a" | (dropped) n m where "a' = a\<lparr>al_droppedSession := n, al_droppedFull := m\<rparr>" "r = Inr ()"
  | (taken) "a' = a\<lparr>al_deposits := (DepositID c session sequence, payload) # al_deposits a,
        al_sessions := (al_sessions a)(session := al_sessions a session + 1)\<rparr>"
      "map_of (al_deposits a) (DepositID c session sequence) = None" "validatePayload mx payload" "\<not> al_sealed a"
      "int (al_sessions a session) < ns (sch_MaxDepositsPerSession (al_schedule a))" "int (length (al_deposits a)) < ns (sch_BatchSize (al_schedule a))"
proof (cases "al_sealed a \<or> now < al_opens a \<or> \<not> now < al_closes a \<or> map_of (al_deposits a) (DepositID c session sequence) \<noteq> None")
  case True
  with assms have "a' = a" by (auto simp: Deposit_def Let_def split: option.splits if_splits)
  then show ?thesis by (rule that(1))
next
  case False
  let ?full = "int (length (al_deposits a)) \<ge> ns (sch_BatchSize (al_schedule a))"
  from False have open_window: "\<not> al_sealed a" "map_of (al_deposits a) (DepositID c session sequence) = None" by simp_all
  have go: "(a', r) = (if int (al_sessions a session) \<ge> ns (sch_MaxDepositsPerSession (al_schedule a))
          then (a\<lparr>al_droppedSession := al_droppedSession a + 1\<rparr>, Inr ())
          else if ?full then (a\<lparr>al_droppedFull := al_droppedFull a + 1\<rparr>, Inr ())
          else if \<not> validatePayload mx payload then (a, Inl DepositMalformed)
          else (a\<lparr>al_deposits := (DepositID c session sequence, payload) # al_deposits a,
            al_sessions := (al_sessions a)(session := al_sessions a session + 1)\<rparr>, Inr ()))"
    using assms False by (simp add: Deposit_def Let_def)
  consider (quota) "int (al_sessions a session) \<ge> ns (sch_MaxDepositsPerSession (al_schedule a))"
    | (full) "\<not> int (al_sessions a session) \<ge> ns (sch_MaxDepositsPerSession (al_schedule a))" ?full
    | (malformed) "\<not> int (al_sessions a session) \<ge> ns (sch_MaxDepositsPerSession (al_schedule a))" "\<not> ?full" "\<not> validatePayload mx payload"
    | (good) "\<not> int (al_sessions a session) \<ge> ns (sch_MaxDepositsPerSession (al_schedule a))" "\<not> ?full" "validatePayload mx payload"
    by blast
  then show ?thesis
  proof cases
    case quota
    with go have "a' = a\<lparr>al_droppedSession := al_droppedSession a + 1, al_droppedFull := al_droppedFull a\<rparr>" "r = Inr ()" by simp_all
    then show ?thesis by (rule that(2))
  next
    case full
    with go have "a' = a\<lparr>al_droppedSession := al_droppedSession a, al_droppedFull := al_droppedFull a + 1\<rparr>" "r = Inr ()" by simp_all
    then show ?thesis by (rule that(2))
  next
    case malformed
    with go that(1) show ?thesis by simp
  next
    case good
    with go open_window that(3) show ?thesis by (simp add: not_le)
  qed
qed

interpretation airlock: ordered_machine "airlock_step c mx" "airlock_inv mx" airlock_grows
  for c and mx :: "('committee, 'batch) mix_lib"
proof
  fix a event
  assume inv: "airlock_inv mx a"
  show "airlock_inv mx (airlock_step c mx a event)"
  proof (cases event)
    case (DepositAt session sequence payload now)
    obtain a' r where "Deposit c mx a session sequence payload now = (a', r)" by (rule prod.exhaust)
    then have "airlock_inv mx a'"
      by (cases rule: Deposit_state) (use inv in \<open>auto simp: airlock_inv_def map_of_eq_None_iff\<close>)
    with DepositAt \<open>Deposit _ _ _ _ _ _ _ = _\<close> show ?thesis by (simp add: airlock_step_def)
  next
    case (SealAt now draw padding)
    with inv Airlock_Seal_state [of mx a now draw padding] show ?thesis by (auto simp: airlock_step_def airlock_inv_def)
  qed
  show "airlock_grows a (airlock_step c mx a event)"
  proof (cases event)
    case (DepositAt session sequence payload now)
    obtain a' r where "Deposit c mx a session sequence payload now = (a', r)" by (rule prod.exhaust)
    then have "airlock_grows a a'"
      by (cases rule: Deposit_state) (auto simp: airlock_grows_def map_le_def)
    with DepositAt \<open>Deposit _ _ _ _ _ _ _ = _\<close> show ?thesis by (simp add: airlock_step_def)
  next
    case (SealAt now draw padding)
    with Airlock_Seal_state [of mx a now draw padding] show ?thesis by (auto simp: airlock_step_def airlock_grows_def)
  qed
qed (auto simp: airlock_grows_def intro: map_le_trans)

section \<open>What the mix library promises\<close>

text \<open>
  \<^verbatim>\<open>ParseWire\<close> takes any two or more columns whose points decode; \<^verbatim>\<open>ValidateCiphertextColumn\<close> is stricter than that, and an
  encryption decodes. A parsed batch has a digest and, when padding is available, marshals to as many columns.
\<close>

definition mix_contract :: "('committee, 'batch) mix_lib \<Rightarrow> (bytes \<Rightarrow> bool) \<Rightarrow> bool" where
  "mix_contract mx decodes \<longleftrightarrow>
     (\<forall>column. mx_ValidateCiphertextColumn mx column \<longrightarrow> decodes column) \<and>
     (\<forall>columns. 2 \<le> length columns \<and> (\<forall>column \<in> set columns. decodes column) \<longrightarrow> mx_ParseWire mx columns \<noteq> None) \<and>
     (\<forall>columns batch. mx_ParseWire mx columns = Some batch \<longrightarrow> mx_Digest mx batch \<noteq> None \<and>
        (\<forall>padding. \<exists>out. mx_MarshalWire mx padding batch = Some out \<and> length out = length columns))"

lemma coverColumns_Some: "coverColumns encrypt i n = Some cover \<Longrightarrow> length cover = n \<and> (\<forall>column \<in> set cover. \<exists>k. encrypt k = Some column)"
  by (induction encrypt i n arbitrary: cover rule: coverColumns.induct) (auto split: option.splits)

lemma airlock_New_inv:
  assumes "airlock_New mx encrypt schedule committee epoch = Inr a"
  shows "airlock_inv mx a" "\<forall>column \<in> set (al_cover a). \<exists>k. encrypt k = Some column" "al_schedule a = schedule" "al_epoch a = epoch" "\<not> al_sealed a"
proof -
  from assms obtain opens closes cover where f: "Schedule_Validate schedule = Inr ()" "DepositWindow schedule epoch = Inr (opens, closes)"
      "coverColumns encrypt 0 (nat (ns (sch_BatchSize schedule))) = Some cover"
      "a = \<lparr>al_schedule = schedule, al_epoch = epoch, al_opens = opens, al_closes = closes, al_deposits = [],
          al_sessions = (\<lambda>_. 0), al_cover = cover, al_sealed = False, al_droppedFull = 0, al_droppedSession = 0\<rparr>"
    by (auto simp: airlock_New_def guard_simps split: sum.splits)
  with coverColumns_Some [OF f(3)]
  show "airlock_inv mx a" "\<forall>column \<in> set (al_cover a). \<exists>k. encrypt k = Some column" "al_schedule a = schedule" "al_epoch a = epoch" "\<not> al_sealed a"
    by (auto simp: airlock_inv_def Schedule_Validate_ok)
qed

lemma inv_release:
  assumes "airlock_inv mx a"
  obtains release where "ReleaseAt (al_schedule a) (al_epoch a) = Inr release" "al_closes a < release"
    "al_closes a = release - ns (sch_DepositCutoff (al_schedule a))"
proof -
  let ?s = "al_schedule a"
  from assms have v: "Schedule_Validate ?s = Inr ()" "DepositWindow ?s (al_epoch a) = Inr (al_opens a, al_closes a)" by (simp_all add: airlock_inv_def)
  then have e: "al_epoch a \<le> MaxEpoch ?s" by (auto simp: DepositWindow_def checkEpoch_def guard_simps)
  note b = boundaries [OF v(1) e]
  have "ReleaseAt ?s (al_epoch a) = Inr (sch_Genesis ?s + (uint (al_epoch a) + 1) * ns (sch_Period ?s))"
    using v(1) e b by (simp add: ReleaseAt_def checkEpoch_def)
  moreover have "al_closes a = sch_Genesis ?s + (uint (al_epoch a) + 1) * ns (sch_Period ?s) - ns (sch_DepositCutoff ?s)"
    using v e b by (simp add: DepositWindow_def checkEpoch_def Let_def distrib_right)
  moreover have "0 < ns (sch_DepositCutoff ?s)" using v(1) by (simp add: Schedule_Validate_ok)
  ultimately show ?thesis using that by simp
qed

lemma filled_decodes:
  assumes "mix_contract mx decodes" "airlock_inv mx a" "\<forall>column \<in> set (al_cover a). decodes column"
  shows "\<forall>column \<in> set (fillColumns a). decodes column" "2 \<le> length (fillColumns a)" "length (fillColumns a) = nat (ns (sch_BatchSize (al_schedule a)))"
    "mset (fillColumns a) = mset (map (\<lambda>d. column_of (snd d)) (al_deposits a)) + mset (drop (length (al_deposits a)) (al_cover a))"
proof -
  from assms(2) have len: "length (al_deposits a) \<le> length (al_cover a)" "length (al_cover a) = nat (ns (sch_BatchSize (al_schedule a)))"
    by (simp_all add: airlock_inv_def)
  note f = fillColumns_mset [OF len]
  show "mset (fillColumns a) = mset (map (\<lambda>d. column_of (snd d)) (al_deposits a)) + mset (drop (length (al_deposits a)) (al_cover a))" by (rule f(1))
  then have "set (fillColumns a) = set (map (\<lambda>d. column_of (snd d)) (al_deposits a)) \<union> set (drop (length (al_deposits a)) (al_cover a))"
    by (metis set_mset_mset set_mset_union)
  moreover have "\<forall>d \<in> set (al_deposits a). decodes (column_of (snd d))"
    using assms(1,2) by (auto simp: mix_contract_def airlock_inv_def validatePayload_def)
  moreover have "\<forall>column \<in> set (drop (length (al_deposits a)) (al_cover a)). decodes column" using assms(3) by (meson in_set_dropD)
  ultimately show "\<forall>column \<in> set (fillColumns a). decodes column" by auto
  show "length (fillColumns a) = nat (ns (sch_BatchSize (al_schedule a)))" using f(2) len(2) by simp
  moreover have "2 \<le> ns (sch_BatchSize (al_schedule a))" using assms(2) by (simp add: airlock_inv_def Schedule_Validate_ok)
  ultimately show "2 \<le> length (fillColumns a)" by linarith
qed

text \<open>What a sealing gives, and when there is one.\<close>

lemma Airlock_Seal_batch:
  assumes "mix_contract mx decodes" "airlock_inv mx a" "\<forall>column \<in> set (al_cover a). decodes column" "draws_below draw"
    and "Airlock_Seal mx a now draw padding = (a', Inr sealed)" "ReleaseAt (al_schedule a) (al_epoch a) = Inr release"
  shows "\<not> al_sealed a" "a' = a\<lparr>al_sealed := True\<rparr>" "al_closes a \<le> now" "now < release" "se_ReleaseEpoch sealed = al_epoch a"
    "int (length (se_Columns sealed)) = ns (sch_BatchSize (al_schedule a))"
    "\<exists>columns. mx_ParseWire mx columns = Some (se_batch sealed) \<and> mx_MarshalWire mx padding (se_batch sealed) = Some (se_Columns sealed) \<and>
       mset columns = mset (map (\<lambda>d. column_of (snd d)) (al_deposits a)) + mset (drop (length (al_deposits a)) (al_cover a))"
proof -
  note fill = filled_decodes [OF assms(1-3)]
  from assms(5) obtain columns where columns: "shuffleColumns draw (fillColumns a) = Some columns" "mx_ParseWire mx columns = Some (se_batch sealed)"
      "mx_MarshalWire mx padding (se_batch sealed) = Some (se_Columns sealed)"
    and bounds: "\<not> al_sealed a" "a' = a\<lparr>al_sealed := True\<rparr>" "al_closes a \<le> now" "now < release" "se_ReleaseEpoch sealed = al_epoch a"
    by (auto simp: Airlock_Seal_def assms(6) not_less split: if_splits option.splits)
  from columns(1) have mset: "mset columns = mset (fillColumns a)" by (rule shuffleColumns_mset) (rule assms(4))
  then have "length columns = length (fillColumns a)" by (metis size_mset)
  moreover have "0 \<le> ns (sch_BatchSize (al_schedule a))" using assms(2) by (simp add: airlock_inv_def Schedule_Validate_ok)
  ultimately show "int (length (se_Columns sealed)) = ns (sch_BatchSize (al_schedule a))"
    using assms(1) columns(2,3) fill(3) unfolding mix_contract_def by (metis int_nat_eq option.inject)
  show "\<exists>columns. mx_ParseWire mx columns = Some (se_batch sealed) \<and> mx_MarshalWire mx padding (se_batch sealed) = Some (se_Columns sealed) \<and>
       mset columns = mset (map (\<lambda>d. column_of (snd d)) (al_deposits a)) + mset (drop (length (al_deposits a)) (al_cover a))"
    using columns(2,3) mset fill(4) by metis
  show "\<not> al_sealed a" "a' = a\<lparr>al_sealed := True\<rparr>" "al_closes a \<le> now" "now < release" "se_ReleaseEpoch sealed = al_epoch a"
    by (rule bounds)+
qed

lemma Airlock_Seal_total:
  assumes "mix_contract mx decodes" "airlock_inv mx a" "\<forall>column \<in> set (al_cover a). decodes column" "draws_below draw"
    and "ReleaseAt (al_schedule a) (al_epoch a) = Inr release" "\<not> al_sealed a" "al_closes a \<le> now" "now < release" "\<forall>i. draw i \<noteq> None"
  shows "\<exists>a' sealed. Airlock_Seal mx a now draw padding = (a', Inr sealed)"
proof -
  note fill = filled_decodes [OF assms(1-3)]
  obtain columns where columns: "shuffleColumns draw (fillColumns a) = Some columns"
    using shuffleFrom_total [OF assms(9)] by (auto simp: shuffleColumns_def)
  from shuffleColumns_mset [OF this assms(4)] fill(1,2) have "2 \<le> length columns" "\<forall>column \<in> set columns. decodes column"
    by (metis size_mset) (metis set_mset_mset shuffleColumns_mset [OF columns assms(4)] fill(1))
  with assms(1) obtain b out digest where "mx_ParseWire mx columns = Some b" "mx_MarshalWire mx padding b = Some out" "mx_Digest mx b = Some digest"
    unfolding mix_contract_def by (metis not_None_eq)
  with assms(5-8) columns show ?thesis by (auto simp: Airlock_Seal_def)
qed

section \<open>What the airlock promises\<close>

text \<open>
  C31: Every release epoch looks the same from outside. Over any deposits, an airlock is sealed only between its cutoff
  and its release, once, and then into exactly the public number of columns: the deposits it holds and cover, in an order
  the draws decide. Sealing fails for no reason that lies in the deposits: whatever was offered, it succeeds at any instant
  of that interval at which randomness is available.
\<close>

theorem airlock_seals_fixed_batch:
  assumes "mix_contract mx decodes" "airlock_New mx encrypt schedule committee epoch = Inr a0"
    and "\<forall>i column. encrypt i = Some column \<longrightarrow> decodes column" "draws_below draw"
    and "a = run_ops (airlock_step c mx) a0 events" "Airlock_Seal mx a now draw padding = (a', r)" "ReleaseAt schedule epoch = Inr release"
  shows "(r = Inr sealed \<longrightarrow>
      \<not> al_sealed a \<and> al_sealed a' \<and> release - ns (sch_DepositCutoff schedule) \<le> now \<and> now < release \<and>
      se_ReleaseEpoch sealed = epoch \<and> int (length (se_Columns sealed)) = ns (sch_BatchSize schedule) \<and>
      (\<exists>columns. mx_ParseWire mx columns = Some (se_batch sealed) \<and>
         mset columns = mset (map (\<lambda>d. column_of (snd d)) (al_deposits a)) + mset (drop (length (al_deposits a)) (al_cover a0)))) \<and>
    (\<not> al_sealed a \<and> release - ns (sch_DepositCutoff schedule) \<le> now \<and> now < release \<and> (\<forall>i. draw i \<noteq> None) \<longrightarrow> (\<exists>sealed. r = Inr sealed))"
proof -
  note new = airlock_New_inv [OF assms(2)]
  have inv: "airlock_inv mx a" unfolding assms(5) by (rule airlock.run_inv [OF new(1)])
  have "airlock_grows a0 a" unfolding assms(5) by (rule airlock.run_ord [OF new(1)])
  then have same: "al_schedule a = schedule" "al_epoch a = epoch" "al_cover a = al_cover a0" using new(3,4) by (simp_all add: airlock_grows_def)
  have close: "al_closes a = release - ns (sch_DepositCutoff schedule)"
    by (rule inv_release [OF inv]) (use assms(7) same in simp)
  have cover: "\<forall>column \<in> set (al_cover a). decodes column" using new(2) assms(3) same(3) by metis
  have release: "ReleaseAt (al_schedule a) (al_epoch a) = Inr release" using assms(7) same by simp
  have "\<not> al_sealed a \<and> al_sealed a' \<and> al_closes a \<le> now \<and> now < release \<and>
      se_ReleaseEpoch sealed = epoch \<and> int (length (se_Columns sealed)) = ns (sch_BatchSize schedule) \<and>
      (\<exists>columns. mx_ParseWire mx columns = Some (se_batch sealed) \<and>
         mset columns = mset (map (\<lambda>d. column_of (snd d)) (al_deposits a)) + mset (drop (length (al_deposits a)) (al_cover a0)))"
    if "r = Inr sealed"
    using Airlock_Seal_batch [OF assms(1) inv cover assms(4) _ release, of now padding a' sealed] assms(6) that same by auto
  moreover have "\<exists>sealed. r = Inr sealed" if due: "\<not> al_sealed a" "al_closes a \<le> now" "now < release" "\<forall>i. draw i \<noteq> None"
    using Airlock_Seal_total [OF assms(1) inv cover assms(4) release due, of padding] assms(6) by auto
  ultimately show ?thesis unfolding close by blast
qed

text \<open>A mix library of toy columns: those that start with 1 are ciphertexts.\<close>

definition sample_mix :: "(unit, bytes list) mix_lib" where
  "sample_mix = \<lparr>mx_ValidateThresholdCommittee = (\<lambda>_. True), mx_ValidateCiphertextColumn = (\<lambda>column. take 1 column = [1]),
     mx_ParseWire = (\<lambda>columns. if 2 \<le> length columns \<and> list_all (\<lambda>column. take 1 column = [1]) columns then Some columns else None),
     mx_MarshalWire = (\<lambda>padding batch. Some batch), mx_Digest = (\<lambda>batch. Some (replicate 32 0))\<rparr>"

lemma sample_mix_contract: "mix_contract sample_mix (\<lambda>column. take 1 column = [1])"
  by (auto simp: mix_contract_def sample_mix_def list_all_iff)

definition sample_airlock :: airlock where
  "sample_airlock = projr (airlock_New sample_mix (\<lambda>i. Some [1, of_nat i]) sample_schedule () 3)"

lemma sample_airlock_eq:
  "airlock_New sample_mix (\<lambda>i. Some [1, of_nat i]) sample_schedule () 3 = Inr sample_airlock"
  "sample_airlock = \<lparr>al_schedule = sample_schedule, al_epoch = 3, al_opens = 2800, al_closes = 3250, al_deposits = [],
     al_sessions = (\<lambda>_. 0), al_cover = [[1, 0], [1, 1], [1, 2]], al_sealed = False, al_droppedFull = 0, al_droppedSession = 0\<rparr>"
proof -
  have "3 \<le> MaxEpoch sample_schedule" by (simp add: MaxEpoch_def sample_schedule_def maxInt64_def)
  then have "DepositWindow sample_schedule 3 = Inr (2800, 3250)"
    using boundaries [OF sample_schedule_valid, of 3] sample_schedule_valid
    by (simp add: DepositWindow_def checkEpoch_def Let_def) (simp add: sample_schedule_def)
  then have "airlock_New sample_mix (\<lambda>i. Some [1, of_nat i]) sample_schedule () 3 =
      Inr \<lparr>al_schedule = sample_schedule, al_epoch = 3, al_opens = 2800, al_closes = 3250, al_deposits = [],
     al_sessions = (\<lambda>_. 0), al_cover = [[1, 0], [1, 1], [1, 2]], al_sealed = False, al_droppedFull = 0, al_droppedSession = 0\<rparr>"
    using sample_schedule_valid by (simp add: airlock_New_def sample_mix_def) (simp add: sample_schedule_def numeral_3_eq_3)
  then show "airlock_New sample_mix (\<lambda>i. Some [1, of_nat i]) sample_schedule () 3 = Inr sample_airlock"
    "sample_airlock = \<lparr>al_schedule = sample_schedule, al_epoch = 3, al_opens = 2800, al_closes = 3250, al_deposits = [],
     al_sessions = (\<lambda>_. 0), al_cover = [[1, 0], [1, 1], [1, 2]], al_sealed = False, al_droppedFull = 0, al_droppedSession = 0\<rparr>"
    by (simp_all add: sample_airlock_def)
qed

lemma sample_release: "ReleaseAt sample_schedule 3 = Inr 3400"
proof -
  have "3 \<le> MaxEpoch sample_schedule" by (simp add: MaxEpoch_def sample_schedule_def maxInt64_def)
  then show ?thesis
    using boundaries(2) [OF sample_schedule_valid, of 3] sample_schedule_valid
    by (simp add: ReleaseAt_def checkEpoch_def) (simp add: sample_schedule_def)
qed

theorem airlock_seals_fixed_batch_witness:
  "\<exists>a' sealed. Airlock_Seal sample_mix (run_ops (airlock_step sample_crypto sample_mix) sample_airlock [DepositAt [4] 1 (1 # replicate 1151 7) 3000])
      3300 (\<lambda>_. Some 0) 0 = (a', Inr sealed) \<and> length (se_Columns sealed) = 3 \<and> se_ReleaseEpoch sealed = 3"
proof -
  let ?a = "run_ops (airlock_step sample_crypto sample_mix) sample_airlock [DepositAt [4] 1 (1 # replicate 1151 7) 3000]"
  obtain a' r where seal: "Airlock_Seal sample_mix ?a 3300 (\<lambda>_. Some 0) 0 = (a', r)" by (rule prod.exhaust)
  have enc: "\<forall>i column. Some [1, of_nat i] = Some column \<longrightarrow> take 1 column = [1]" by auto
  have draw: "draws_below (\<lambda>_. Some 0)" by (simp add: draws_below_def)
  note th = airlock_seals_fixed_batch [OF sample_mix_contract sample_airlock_eq(1) enc draw refl seal sample_release]
  have "\<not> al_sealed ?a"
    by (simp add: airlock_step_def Deposit_def Let_def sample_airlock_eq(2))
  with th have "\<exists>sealed. r = Inr sealed" by (simp add: sample_schedule_def)
  then obtain sealed where r: "r = Inr sealed" ..
  with th [of sealed] have "int (length (se_Columns sealed)) = 3" "se_ReleaseEpoch sealed = 3" by (simp_all add: sample_schedule_def)
  with seal r show ?thesis by auto
qed

text \<open>
  Deposits are kept, bounded and silent. Over any run an airlock never holds more than its batch, nor more of one
  session than its bound; a payload once held is held unchanged to the end, and a sealed airlock changes no more. While
  the window is open, offering a held payload again succeeds and changes nothing, another payload for its number is
  refused, and a well-formed payload for a fresh number is answered with success whether or not there was room for it.
\<close>

theorem airlock_deposits_kept:
  assumes "airlock_New mx encrypt schedule committee epoch = Inr a0"
    and "a = run_ops (airlock_step c mx) a0 events" "b = run_ops (airlock_step c mx) a later"
  shows "int (Pending a) \<le> ns (sch_BatchSize schedule) \<and> int (al_sessions a session) \<le> ns (sch_MaxDepositsPerSession schedule) \<and>
    (map_of (al_deposits a) key = Some held \<longrightarrow> map_of (al_deposits b) key = Some held) \<and>
    (al_sealed a \<longrightarrow> al_sealed b \<and> al_deposits b = al_deposits a) \<and>
    (\<not> al_sealed b \<and> al_opens b \<le> now \<and> now < al_closes b \<longrightarrow>
      (case map_of (al_deposits b) (DepositID c session sequence) of
         Some other \<Rightarrow> Deposit c mx b session sequence payload now = (b, if payload = other then Inr () else Inl DepositConflict)
       | None \<Rightarrow> validatePayload mx payload \<longrightarrow> snd (Deposit c mx b session sequence payload now) = Inr ()))"
proof -
  note new = airlock_New_inv [OF assms(1)]
  have inv: "airlock_inv mx a" unfolding assms(2) by (rule airlock.run_inv [OF new(1)])
  have "airlock_grows a0 a" unfolding assms(2) by (rule airlock.run_ord [OF new(1)])
  then have "al_schedule a = schedule" using new(3) by (simp add: airlock_grows_def)
  with inv have bounds: "int (Pending a) \<le> ns (sch_BatchSize schedule)" "int (al_sessions a session) \<le> ns (sch_MaxDepositsPerSession schedule)"
    by (auto simp: airlock_inv_def Pending_def Schedule_Validate_ok)
  have grows: "airlock_grows a b" unfolding assms(3) by (rule airlock.run_ord [OF inv])
  then have "map_of (al_deposits a) key = Some held \<longrightarrow> map_of (al_deposits b) key = Some held" "al_sealed a \<longrightarrow> al_sealed b \<and> al_deposits b = al_deposits a"
    by (auto simp: airlock_grows_def map_le_def dom_def)
  moreover have "case map_of (al_deposits b) (DepositID c session sequence) of
         Some other \<Rightarrow> Deposit c mx b session sequence payload now = (b, if payload = other then Inr () else Inl DepositConflict)
       | None \<Rightarrow> validatePayload mx payload \<longrightarrow> snd (Deposit c mx b session sequence payload now) = Inr ()"
    if "\<not> al_sealed b" "al_opens b \<le> now" "now < al_closes b"
    using that by (auto simp: Deposit_def Let_def split: option.split)
  ultimately show ?thesis using bounds by blast
qed

theorem airlock_deposits_kept_witness:
  "\<exists>a b. a = run_ops (airlock_step sample_crypto sample_mix) sample_airlock [DepositAt [4] 1 (1 # replicate 1151 7) 3000] \<and>
     b = run_ops (airlock_step sample_crypto sample_mix) a [DepositAt [4] 1 (1 # replicate 1151 8) 3001, SealAt 3300 (\<lambda>_. Some 0) 0] \<and>
     map_of (al_deposits b) (DepositID sample_crypto [4] 1) = Some (1 # replicate 1151 7) \<and> int (Pending a) \<le> 3"
proof -
  let ?a = "run_ops (airlock_step sample_crypto sample_mix) sample_airlock [DepositAt [4] 1 (1 # replicate 1151 7) 3000]"
  have valid: "validatePayload sample_mix (1 # replicate 1151 7)" by (simp add: validatePayload_def sample_mix_def column_of_def)
  have "map_of (al_deposits ?a) (DepositID sample_crypto [4] 1) = Some (1 # replicate 1151 7)"
    using valid by (simp add: airlock_step_def Deposit_def Let_def sample_airlock_eq(2) sample_schedule_def)
  moreover have "ns (sch_BatchSize sample_schedule) = 3" by (simp add: sample_schedule_def)
  ultimately show ?thesis
    using airlock_deposits_kept [OF sample_airlock_eq(1) refl refl, where c = sample_crypto and events = "[DepositAt [4] 1 (1 # replicate 1151 7) 3000]"
        and later = "[DepositAt [4] 1 (1 # replicate 1151 8) 3001, SealAt 3300 (\<lambda>_. Some 0) 0]" and key = "DepositID sample_crypto [4] 1"]
    by metis
qed

text \<open>
  The silence has two holes. Capacity is asked before the payload is validated, so a malformed payload is answered with
  success exactly when there is no room; and a payload that was dropped for want of room is not held, so that offering
  another for its number is answered with success where a held one gives a conflict.
\<close>

lemma malformed_deposit_shows_full:
  assumes "\<not> al_sealed a" "al_opens a \<le> now" "now < al_closes a" "map_of (al_deposits a) (DepositID c session sequence) = None"
    and "int (al_sessions a session) < ns (sch_MaxDepositsPerSession (al_schedule a))" "\<not> validatePayload mx payload"
  shows "snd (Deposit c mx a session sequence payload now) =
    (if ns (sch_BatchSize (al_schedule a)) \<le> int (Pending a) then Inr () else Inl DepositMalformed)"
  using assms by (simp add: Deposit_def Let_def Pending_def)

lemma second_deposit_shows_full:
  assumes "\<not> al_sealed a" "al_opens a \<le> now" "now < al_closes a" "map_of (al_deposits a) (DepositID c session sequence) = None"
    and "int (al_sessions a session) < ns (sch_MaxDepositsPerSession (al_schedule a))" "validatePayload mx payload" "validatePayload mx other" "other \<noteq> payload"
  shows "snd (Deposit c mx (fst (Deposit c mx a session sequence payload now)) session sequence other now) =
    (if ns (sch_BatchSize (al_schedule a)) \<le> int (Pending a) then Inr () else Inl DepositConflict)"
  using assms by (simp add: Deposit_def Let_def Pending_def)

end
