(* ===== verification/Uplink.thy ===== *)
theory Uplink
  imports GoStd
begin

text \<open>
  \<^verbatim>\<open>live/uplink\<close>: \<^verbatim>\<open>session.go\<close>, the cells between a publisher and its entry operator, and \<^verbatim>\<open>handshake.go\<close>, the cell that
  sets a session up. AES-GCM, HKDF and X25519 are parameters in a record; the committee's encryption of a cell is the
  outcome of one call, an argument. A cell is a byte list of 1200; the pointers are never nil.
\<close>

section \<open>Sessions\<close>

definition fabric_CellSize :: nat where "fabric_CellSize = 1200"
definition PayloadSize :: nat where "PayloadSize = 504"
definition InnerSize :: nat where "InnerSize = 1152"
definition SequenceSize :: nat where "SequenceSize = 8"
definition paddingSize :: nat where "paddingSize = fabric_CellSize - SequenceSize - InnerSize - 16"

lemmas uplink_sizes = fabric_CellSize_def PayloadSize_def InnerSize_def SequenceSize_def paddingSize_def

text \<open>
  \<open>kx_derive\<close> are the first 32 bytes of HKDF over a secret, a salt and an info; \<open>kx_seal\<close> and \<open>kx_open\<close> are AES-GCM under
  a key and a nonce, with the plaintext or ciphertext and the additional data; \<open>kx_agree\<close> is X25519, which refuses
  a point of low order.
\<close>

record key_lib =
  kx_derive :: "bytes \<Rightarrow> bytes \<Rightarrow> bytes \<Rightarrow> bytes"
  kx_seal :: "bytes \<Rightarrow> bytes \<Rightarrow> bytes \<Rightarrow> bytes \<Rightarrow> bytes"
  kx_open :: "bytes \<Rightarrow> bytes \<Rightarrow> bytes \<Rightarrow> bytes \<Rightarrow> bytes option"
  kx_public :: "bytes \<Rightarrow> bytes"
  kx_agree :: "bytes \<Rightarrow> bytes \<Rightarrow> bytes option"

record uplink_context =
  ux_NetworkID :: string
  ux_Epoch :: u64
  ux_TopologyDigest :: bytes
  ux_EntryOperator :: u16

record Session =
  ss_key :: bytes
  ss_committee :: bytes
  ss_context :: uplink_context

datatype uplink_error =
    SecretRequired | UplinkContextIncomplete | UplinkSequenceZero | EncryptFailed | SealedLength
  | CellAuthentication | CellLength | PaddingNotZero
  | OperatorKeyInvalid | NoEphemeral | AgreementFailed | SessionLimitInvalid
  | NotAHandshake | SessionReplay | TooManySessions

definition sessionInfo :: "uplink_context \<Rightarrow> bytes" where
  "sessionInfo ctx = bytes_of ''nomad-uplink-session-v1'' @ be64 (of_nat (length (ux_NetworkID ctx))) @
     bytes_of (ux_NetworkID ctx) @ be64 (ux_Epoch ctx) @ be16 (ux_EntryOperator ctx)"

definition SessionKey :: "key_lib \<Rightarrow> bytes \<Rightarrow> uplink_context \<Rightarrow> uplink_error + bytes" where
  "SessionKey k sharedSecret ctx =
     (if sharedSecret = [] then Inl SecretRequired
      else if ux_NetworkID ctx = '''' \<or> ux_Epoch ctx = 0 \<or> ux_TopologyDigest ctx = replicate 32 0 then Inl UplinkContextIncomplete
      else Inr (kx_derive k sharedSecret (ux_TopologyDigest ctx) (sessionInfo ctx)))"

definition NewSession :: "key_lib \<Rightarrow> bytes \<Rightarrow> bytes \<Rightarrow> uplink_context \<Rightarrow> uplink_error + Session" where
  "NewSession k sharedSecret committee ctx =
     andThen (SessionKey k sharedSecret ctx) (\<lambda>key. Inr \<lparr>ss_key = key, ss_committee = committee, ss_context = ctx\<rparr>)"

definition Nonce :: "crypto \<Rightarrow> bytes \<Rightarrow> u64 \<Rightarrow> bytes" where
  "Nonce c key sequence = take 12 (sha256 c (bytes_of ''nomad-uplink-nonce-v1'' @ key @ be64 sequence))"

text \<open>\<open>encrypt\<close> is what this call of \<^verbatim>\<open>mix.EncryptCell\<close> makes of a committee key and a plaintext.\<close>

type_synonym encryption = "bytes \<Rightarrow> bytes \<Rightarrow> bytes option"

definition Session_seal :: "crypto \<Rightarrow> key_lib \<Rightarrow> encryption \<Rightarrow> Session \<Rightarrow> u64 \<Rightarrow> bytes \<Rightarrow> uplink_error + bytes" where
  "Session_seal c k encrypt session sequence payload =
     (if sequence = 0 then Inl UplinkSequenceZero
      else case encrypt (ss_committee session) payload of
        None \<Rightarrow> Inl EncryptFailed
      | Some wire \<Rightarrow>
          (let inner = take InnerSize wire @ replicate paddingSize 0;
               prefix = be64 sequence;
               body = kx_seal k (ss_key session) (Nonce c (ss_key session) sequence) inner prefix
           in if length body \<noteq> fabric_CellSize - SequenceSize then Inl SealedLength else Inr (prefix @ body)))"

definition SealWork :: "crypto \<Rightarrow> key_lib \<Rightarrow> encryption \<Rightarrow> Session \<Rightarrow> u64 \<Rightarrow> bytes \<Rightarrow> uplink_error + bytes" where
  "SealWork c k encrypt session sequence payload = Session_seal c k encrypt session sequence payload"

definition SealCover :: "crypto \<Rightarrow> key_lib \<Rightarrow> encryption \<Rightarrow> Session \<Rightarrow> u64 \<Rightarrow> uplink_error + bytes" where
  "SealCover c k encrypt session sequence = Session_seal c k encrypt session sequence (replicate PayloadSize 0)"

definition Session_Open :: "crypto \<Rightarrow> key_lib \<Rightarrow> Session \<Rightarrow> bytes \<Rightarrow> uplink_error + u64 \<times> bytes" where
  "Session_Open c k session cell =
     (let prefix = take SequenceSize cell; sequence = be_dec prefix in
      if sequence = 0 then Inl UplinkSequenceZero
      else case kx_open k (ss_key session) (Nonce c (ss_key session) sequence) (drop SequenceSize cell) prefix of
        None \<Rightarrow> Inl CellAuthentication
      | Some opened \<Rightarrow>
          if length opened \<noteq> InnerSize + paddingSize then Inl CellLength
          else if \<exists>b \<in> set (drop InnerSize opened). b \<noteq> 0 then Inl PaddingNotZero
          else Inr (sequence, take InnerSize opened))"

section \<open>Handshakes\<close>

definition EphemeralSize :: nat where "EphemeralSize = 32"
definition handshakePadding :: nat where "handshakePadding = fabric_CellSize - SequenceSize - EphemeralSize - 16"
definition handshakeKeyDomain :: string where "handshakeKeyDomain = ''nomad-uplink-handshake-v1''"
definition handshakeSecretDomain :: string where "handshakeSecretDomain = ''nomad-uplink-handshake-secret-v1''"
definition handshakeIDDomain :: string where "handshakeIDDomain = ''nomad-uplink-handshake-id-v1''"

definition uplink_context_validate :: "uplink_context \<Rightarrow> uplink_error + unit" where
  "uplink_context_validate ctx =
     require (\<not> (ux_NetworkID ctx = '''' \<or> ux_Epoch ctx = 0 \<or> ux_TopologyDigest ctx = replicate 32 0)) UplinkContextIncomplete"

definition handshakeInfo :: "string \<Rightarrow> uplink_context \<Rightarrow> bytes \<Rightarrow> bytes" where
  "handshakeInfo domain ctx public = bytes_of domain @ be64 (of_nat (length (ux_NetworkID ctx))) @
     bytes_of (ux_NetworkID ctx) @ be64 (ux_Epoch ctx) @ be16 (ux_EntryOperator ctx) @ public"

definition handshakeDerive :: "key_lib \<Rightarrow> bytes \<Rightarrow> bytes \<Rightarrow> uplink_context \<Rightarrow> string \<Rightarrow> bytes" where
  "handshakeDerive k agreed public ctx domain = kx_derive k agreed (ux_TopologyDigest ctx) (handshakeInfo domain ctx public)"

definition sessionFromAgreement :: "key_lib \<Rightarrow> bytes \<Rightarrow> bytes \<Rightarrow> bytes \<Rightarrow> uplink_context \<Rightarrow> uplink_error + Session \<times> bytes" where
  "sessionFromAgreement k agreed public committee ctx =
     andThen (NewSession k (handshakeDerive k agreed public ctx handshakeSecretDomain) committee ctx) (\<lambda>session.
     Inr (session, handshakeDerive k agreed public ctx handshakeIDDomain))"

definition handshakeNonce :: "crypto \<Rightarrow> key_lib \<Rightarrow> bytes \<Rightarrow> bytes \<Rightarrow> uplink_context \<Rightarrow> u64 \<Rightarrow> bytes" where
  "handshakeNonce c k agreed public ctx sequence = Nonce c (handshakeDerive k agreed public ctx handshakeKeyDomain) sequence"

definition sealHandshake :: "crypto \<Rightarrow> key_lib \<Rightarrow> bytes \<Rightarrow> bytes \<Rightarrow> uplink_context \<Rightarrow> u64 \<Rightarrow> uplink_error + bytes" where
  "sealHandshake c k agreed public ctx sequence =
     (let prefix = be64 sequence @ public;
          body = kx_seal k (handshakeDerive k agreed public ctx handshakeKeyDomain) (handshakeNonce c k agreed public ctx sequence)
            (replicate handshakePadding 0) prefix
      in if length body \<noteq> fabric_CellSize - SequenceSize - EphemeralSize then Inl SealedLength else Inr (prefix @ body))"

definition openHandshake :: "crypto \<Rightarrow> key_lib \<Rightarrow> bytes \<Rightarrow> bytes \<Rightarrow> uplink_context \<Rightarrow> u64 \<Rightarrow> bytes \<Rightarrow> uplink_error + unit" where
  "openHandshake c k agreed public ctx sequence cell =
     (case kx_open k (handshakeDerive k agreed public ctx handshakeKeyDomain) (handshakeNonce c k agreed public ctx sequence)
         (drop (SequenceSize + EphemeralSize) cell) (take (SequenceSize + EphemeralSize) cell) of
        None \<Rightarrow> Inl NotAHandshake
      | Some opened \<Rightarrow>
          if length opened \<noteq> handshakePadding then Inl NotAHandshake
          else require (opened = replicate handshakePadding 0) NotAHandshake)"

record Initiator =
  in_ephemeral :: bytes
  in_session :: Session
  in_sessionID :: bytes
  in_cell :: bytes

text \<open>\<open>ephemeral\<close> is the secret key the random source gives, or its failure. A public key has 32 bytes.\<close>

definition Establish ::
    "crypto \<Rightarrow> key_lib \<Rightarrow> bytes option \<Rightarrow> bytes \<Rightarrow> bytes \<Rightarrow> uplink_context \<Rightarrow> u64 \<Rightarrow> uplink_error + Initiator" where
  "Establish c k ephemeral operatorKEXKey committee ctx sequence =
     andThen (require (sequence \<noteq> 0) UplinkSequenceZero) (\<lambda>_.
     andThen (uplink_context_validate ctx) (\<lambda>_.
     andThen (require (length operatorKEXKey = EphemeralSize) OperatorKeyInvalid) (\<lambda>_.
     andThen (expect ephemeral NoEphemeral) (\<lambda>secret.
     andThen (expect (kx_agree k secret operatorKEXKey) AgreementFailed) (\<lambda>agreed.
     andThen (sessionFromAgreement k agreed (kx_public k secret) committee ctx) (\<lambda>(session, sessionID).
     andThen (sealHandshake c k agreed (kx_public k secret) ctx sequence) (\<lambda>cell.
     Inr \<lparr>in_ephemeral = secret, in_session = session, in_sessionID = sessionID, in_cell = cell\<rparr>)))))))"

record Responder =
  rs_static :: bytes
  rs_committee :: bytes
  rs_context :: uplink_context
  rs_limit :: nat
  rs_seen :: "bytes list"

definition NewResponder :: "bytes \<Rightarrow> bytes \<Rightarrow> uplink_context \<Rightarrow> int \<Rightarrow> uplink_error + Responder" where
  "NewResponder static committee ctx limit =
     andThen (uplink_context_validate ctx) (\<lambda>_.
     andThen (require (\<not> limit < 1) SessionLimitInvalid) (\<lambda>_.
     Inr \<lparr>rs_static = static, rs_committee = committee, rs_context = ctx, rs_limit = nat limit, rs_seen = []\<rparr>))"

definition Responder_Accept :: "crypto \<Rightarrow> key_lib \<Rightarrow> Responder \<Rightarrow> bytes \<Rightarrow> Responder \<times> (uplink_error + Session \<times> bytes)" where
  "Responder_Accept c k responder cell =
     (let sequence = be_dec (take SequenceSize cell); public = slice SequenceSize (SequenceSize + EphemeralSize) cell in
      if sequence = 0 then (responder, Inl NotAHandshake)
      else case kx_agree k (rs_static responder) public of
        None \<Rightarrow> (responder, Inl NotAHandshake)
      | Some agreed \<Rightarrow>
          if openHandshake c k agreed public (rs_context responder) sequence cell \<noteq> Inr () then (responder, Inl NotAHandshake)
          else if public \<in> set (rs_seen responder) then (responder, Inl SessionReplay)
          else if rs_limit responder \<le> length (rs_seen responder) then (responder, Inl TooManySessions)
          else (responder\<lparr>rs_seen := public # rs_seen responder\<rparr>,
                sessionFromAgreement k agreed public (rs_committee responder) (rs_context responder)))"

section \<open>What the libraries promise\<close>

text \<open>
  AES-GCM adds a tag of 16 bytes and opens exactly what it sealed; X25519 agrees from both sides; HKDF gives 32 bytes.
\<close>

definition key_ok :: "key_lib \<Rightarrow> bool" where
  "key_ok k \<longleftrightarrow> (\<forall>key nonce plain extra. length (kx_seal k key nonce plain extra) = length plain + 16) \<and>
     (\<forall>key nonce sealed plain extra. kx_open k key nonce sealed extra = Some plain \<longleftrightarrow> sealed = kx_seal k key nonce plain extra) \<and>
     (\<forall>a b. kx_agree k a (kx_public k b) = kx_agree k b (kx_public k a)) \<and> (\<forall>a. length (kx_public k a) = EphemeralSize) \<and>
     (\<forall>secret salt info. length (kx_derive k secret salt info) = 32)"

lemma key_okD:
  assumes "key_ok k"
  shows "length (kx_seal k key nonce plain extra) = length plain + 16"
    "kx_open k key nonce sealed extra = Some plain \<longleftrightarrow> sealed = kx_seal k key nonce plain extra"
    "kx_agree k a (kx_public k b) = kx_agree k b (kx_public k a)" "length (kx_public k a) = EphemeralSize"
    "length (kx_derive k secret salt info) = 32"
  using assms by (auto simp: key_ok_def)

lemma key_opens: "key_ok k \<Longrightarrow> kx_open k key nonce (kx_seal k key nonce plain extra) extra = Some plain"
  by (simp add: key_okD(2))

definition wire_sized :: "encryption \<Rightarrow> bool" where
  "wire_sized encrypt \<longleftrightarrow> (\<forall>committee payload wire. encrypt committee payload = Some wire \<longrightarrow> length wire = fabric_CellSize)"

lemma be_dec_be64 [simp]: "be_dec (be64 w) = w"
  by (simp add: be_dec_enc del: be_enc.simps)

section \<open>Sealing and opening\<close>

lemma Session_seal_opens:
  assumes "key_ok k" "Session_seal c k encrypt session sequence payload = Inr cell" "wire_sized encrypt"
  obtains wire where "encrypt (ss_committee session) payload = Some wire" "length cell = fabric_CellSize" "take SequenceSize cell = be64 sequence"
    "Session_Open c k session cell = Inr (sequence, take InnerSize wire)" "sequence \<noteq> 0"
proof -
  from assms(2) obtain wire where wire: "encrypt (ss_committee session) payload = Some wire" and "sequence \<noteq> 0"
    and cell: "cell = be64 sequence @ kx_seal k (ss_key session) (Nonce c (ss_key session) sequence)
      (take InnerSize wire @ replicate paddingSize 0) (be64 sequence)"
    by (auto simp: Session_seal_def Let_def split: if_splits option.splits)
  from wire assms(3) have "length wire = fabric_CellSize" by (simp add: wire_sized_def)
  then have inner: "length (take InnerSize wire) = InnerSize" by (simp add: uplink_sizes)
  have head: "take SequenceSize cell = be64 sequence" and rest: "drop SequenceSize cell = kx_seal k (ss_key session)
      (Nonce c (ss_key session) sequence) (take InnerSize wire @ replicate paddingSize 0) (be64 sequence)"
    by (simp_all add: cell SequenceSize_def)
  then have "kx_open k (ss_key session) (Nonce c (ss_key session) sequence) (drop SequenceSize cell) (be64 sequence) =
      Some (take InnerSize wire @ replicate paddingSize 0)" by (simp add: key_opens [OF assms(1)])
  with head \<open>sequence \<noteq> 0\<close> inner have "Session_Open c k session cell = Inr (sequence, take InnerSize wire)"
    by (simp add: Session_Open_def Let_def)
  moreover have "length cell = fabric_CellSize"
    using inner by (simp add: cell key_okD(1) [OF assms(1)]) (simp add: uplink_sizes)
  ultimately show ?thesis using that wire head \<open>sequence \<noteq> 0\<close> by blast
qed

lemma Session_seal_returns:
  assumes "key_ok k" "sequence \<noteq> 0" "encrypt (ss_committee session) payload = Some wire" "length wire = fabric_CellSize"
  shows "\<exists>cell. Session_seal c k encrypt session sequence payload = Inr cell"
  using assms(2-4) by (simp add: Session_seal_def Let_def key_okD(1) [OF assms(1)]) (simp add: uplink_sizes)

text \<open>Only what was sealed under the session's key opens.\<close>

lemma Session_Open_sealed:
  assumes "key_ok k" "Session_Open c k session cell = Inr (sequence, inner)" "length cell = fabric_CellSize"
  shows "sequence \<noteq> 0" "length inner = InnerSize"
    "cell = be64 sequence @ kx_seal k (ss_key session) (Nonce c (ss_key session) sequence) (inner @ replicate paddingSize 0) (be64 sequence)"
proof -
  from assms(2) obtain opened where sequence: "sequence = be_dec (take SequenceSize cell)" "sequence \<noteq> 0"
    and opens: "kx_open k (ss_key session) (Nonce c (ss_key session) sequence) (drop SequenceSize cell) (take SequenceSize cell) = Some opened"
    and shape: "length opened = InnerSize + paddingSize" "\<forall>b \<in> set (drop InnerSize opened). b = 0" "inner = take InnerSize opened"
    by (auto simp: Session_Open_def Let_def split: if_splits option.splits)
  from shape have "opened = inner @ replicate paddingSize 0"
    by (metis append_take_drop_id diff_add_inverse length_drop replicate_eqI)
  moreover have "take SequenceSize cell = be64 sequence"
    using be_enc_dec [of "take SequenceSize cell", where ?'a = 64] assms(3) by (simp add: sequence(1) uplink_sizes)
  ultimately show "cell = be64 sequence @ kx_seal k (ss_key session) (Nonce c (ss_key session) sequence) (inner @ replicate paddingSize 0) (be64 sequence)"
    using opens key_okD(2) [OF assms(1)] by (metis append_take_drop_id)
  show "sequence \<noteq> 0" by (rule sequence(2))
  show "length inner = InnerSize" using shape by simp
qed

section \<open>Setting up\<close>

lemma sealHandshake_opens:
  assumes "key_ok k" "sealHandshake c k agreed public ctx sequence = Inr cell" "length public = EphemeralSize"
  shows "openHandshake c k agreed public ctx sequence cell = Inr ()" "take SequenceSize cell = be64 sequence"
    "slice SequenceSize (SequenceSize + EphemeralSize) cell = public" "length cell = fabric_CellSize"
proof -
  let ?body = "kx_seal k (handshakeDerive k agreed public ctx handshakeKeyDomain) (handshakeNonce c k agreed public ctx sequence)
            (replicate handshakePadding 0) (be64 sequence @ public)"
  from assms(2) have cell: "cell = (be64 sequence @ public) @ ?body"
    by (auto simp: sealHandshake_def Let_def split: if_splits)
  then have parts: "take (SequenceSize + EphemeralSize) cell = be64 sequence @ public" "drop (SequenceSize + EphemeralSize) cell = ?body"
    using assms(3) by (simp_all add: SequenceSize_def)
  then show "openHandshake c k agreed public ctx sequence cell = Inr ()"
    unfolding openHandshake_def by (simp add: key_opens [OF assms(1)])
  show "take SequenceSize cell = be64 sequence" "slice SequenceSize (SequenceSize + EphemeralSize) cell = public"
    using cell assms(3) by (simp_all add: SequenceSize_def slice_def)
  show "length cell = fabric_CellSize"
    using assms(3) by (simp add: cell key_okD(1) [OF assms(1)]) (simp add: uplink_sizes handshakePadding_def EphemeralSize_def)
qed

lemma Establish_accepted:
  assumes "key_ok k" "Establish c k (Some secret) (kx_public k (rs_static r)) (rs_committee r) (rs_context r) sequence = Inr i"
    and "kx_public k secret \<notin> set (rs_seen r)" "length (rs_seen r) < rs_limit r"
  shows "Responder_Accept c k r (in_cell i) = (r\<lparr>rs_seen := kx_public k secret # rs_seen r\<rparr>, Inr (in_session i, in_sessionID i))"
    "snd (Responder_Accept c k (r\<lparr>rs_seen := kx_public k secret # rs_seen r\<rparr>) (in_cell i)) = Inl SessionReplay"
    "length (in_cell i) = fabric_CellSize" "ss_committee (in_session i) = rs_committee r"
proof -
  note size = key_okD(4) [OF assms(1), of secret]
  from assms(2) obtain agreed where agreed: "kx_agree k secret (kx_public k (rs_static r)) = Some agreed" "sequence \<noteq> 0"
    and made: "sessionFromAgreement k agreed (kx_public k secret) (rs_committee r) (rs_context r) = Inr (in_session i, in_sessionID i)"
    and cell: "sealHandshake c k agreed (kx_public k secret) (rs_context r) sequence = Inr (in_cell i)"
    by (auto simp: Establish_def guard_simps)
  note opens = sealHandshake_opens [OF assms(1) cell size]
  from agreed(1) key_okD(3) [OF assms(1)] have "kx_agree k (rs_static r) (kx_public k secret) = Some agreed" by metis
  with agreed(2) opens assms(3,4) made show
    "Responder_Accept c k r (in_cell i) = (r\<lparr>rs_seen := kx_public k secret # rs_seen r\<rparr>, Inr (in_session i, in_sessionID i))"
    "snd (Responder_Accept c k (r\<lparr>rs_seen := kx_public k secret # rs_seen r\<rparr>) (in_cell i)) = Inl SessionReplay"
    by (simp_all add: Responder_Accept_def Let_def)
  show "length (in_cell i) = fabric_CellSize" by (rule opens(4))
  show "ss_committee (in_session i) = rs_committee r"
    using made by (auto simp: sessionFromAgreement_def NewSession_def guard_simps dest!: sym [of _ "in_session i"])
qed

text \<open>Every accepted cell is the handshake its sequence, ephemeral key and context determine.\<close>

lemma Responder_Accept_cases:
  assumes "Responder_Accept c k r cell = (r', out)"
  obtains (refused) e where "r' = r" "out = Inl e"
  | (accepted) public where "public = slice SequenceSize (SequenceSize + EphemeralSize) cell" "r' = r\<lparr>rs_seen := public # rs_seen r\<rparr>"
      "public \<notin> set (rs_seen r)" "length (rs_seen r) < rs_limit r"
      "kx_agree k (rs_static r) public \<noteq> None"
      "out = sessionFromAgreement k (the (kx_agree k (rs_static r) public)) public (rs_committee r) (rs_context r)"
proof (cases "r' = r \<and> (\<exists>e. out = Inl e)")
  case True
  then show ?thesis using that(1) by blast
next
  case False
  define public where "public = slice SequenceSize (SequenceSize + EphemeralSize) cell"
  from False assms have "r' = r\<lparr>rs_seen := public # rs_seen r\<rparr>" "public \<notin> set (rs_seen r)" "length (rs_seen r) < rs_limit r"
      "kx_agree k (rs_static r) public \<noteq> None"
      "out = sessionFromAgreement k (the (kx_agree k (rs_static r) public)) public (rs_committee r) (rs_context r)"
    by (auto simp: Responder_Accept_def Let_def public_def [symmetric] split: if_splits option.splits)
  with public_def show ?thesis by (rule that(2))
qed

lemma NewResponder_context: "NewResponder static committee ctx limit = Inr r \<Longrightarrow>
    uplink_context_validate ctx = Inr () \<and> rs_seen r = [] \<and> int (rs_limit r) = limit \<and> rs_static r = static \<and> rs_committee r = committee \<and> rs_context r = ctx"
  by (auto simp: NewResponder_def guard_simps)

text \<open>With a valid context and derived secrets that are not empty a session is always made.\<close>

lemma sessionFromAgreement_returns:
  assumes "key_ok k" "uplink_context_validate ctx = Inr ()"
  shows "sessionFromAgreement k agreed public committee ctx =
    Inr (\<lparr>ss_key = kx_derive k (handshakeDerive k agreed public ctx handshakeSecretDomain) (ux_TopologyDigest ctx) (sessionInfo ctx),
          ss_committee = committee, ss_context = ctx\<rparr>, handshakeDerive k agreed public ctx handshakeIDDomain)"
proof -
  have "handshakeDerive k agreed public ctx handshakeSecretDomain \<noteq> []"
    using key_okD(5) [OF assms(1)] by (metis handshakeDerive_def list.size(3) zero_neq_numeral)
  with assms(2) show ?thesis
    by (auto simp: sessionFromAgreement_def NewSession_def SessionKey_def uplink_context_validate_def require_def split: if_splits)
qed

section \<open>Separate derivations\<close>

definition handshakeDomains :: "string set" where
  "handshakeDomains = {handshakeKeyDomain, handshakeSecretDomain, handshakeIDDomain}"

lemma domains_prefix_free:
  assumes "domain \<in> handshakeDomains" "domain' \<in> handshakeDomains" "bytes_of domain @ xs = bytes_of domain' @ ys"
  shows "domain = domain' \<and> xs = ys"
proof -
  from assms(3) have "take 24 (bytes_of domain @ xs) = take 24 (bytes_of domain' @ ys)" by simp
  moreover have "24 \<le> length d \<and> take 24 (bytes_of d @ zs) = bytes_of (take 24 d)" if "d \<in> handshakeDomains" for d zs
    using that by (auto simp: handshakeDomains_def handshakeKeyDomain_def handshakeSecretDomain_def handshakeIDDomain_def bytes_of_def)
  ultimately have "take 24 domain = take 24 domain'" using assms(1,2) by (metis bytes_of_inj)
  then have "domain = domain'"
    using assms(1,2) by (auto simp: handshakeDomains_def handshakeKeyDomain_def handshakeSecretDomain_def handshakeIDDomain_def)
  with assms(3) show ?thesis by simp
qed

lemma handshakeInfo_inj:
  assumes "domain \<in> handshakeDomains" "domain' \<in> handshakeDomains" "go_sized (ux_NetworkID ctx)" "go_sized (ux_NetworkID ctx')"
    and "handshakeInfo domain ctx public = handshakeInfo domain' ctx' public'"
  shows "domain = domain'" "ux_NetworkID ctx = ux_NetworkID ctx'" "ux_Epoch ctx = ux_Epoch ctx'" "ux_EntryOperator ctx = ux_EntryOperator ctx'" "public = public'"
proof -
  have "prefixed (bytes_of (ux_NetworkID ctx)) @ be64 (ux_Epoch ctx) @ be16 (ux_EntryOperator ctx) @ public =
      prefixed (bytes_of (ux_NetworkID ctx')) @ be64 (ux_Epoch ctx') @ be16 (ux_EntryOperator ctx') @ public'" and domain: "domain = domain'"
    using domains_prefix_free [OF assms(1,2)] assms(5) by (simp_all add: handshakeInfo_def prefixed_def)
  then have "bytes_of (ux_NetworkID ctx) = bytes_of (ux_NetworkID ctx')"
    "be64 (ux_Epoch ctx) @ be16 (ux_EntryOperator ctx) @ public = be64 (ux_Epoch ctx') @ be16 (ux_EntryOperator ctx') @ public'"
    using assms(3,4) by (simp_all add: prefixed_append_inj)
  then show "ux_NetworkID ctx = ux_NetworkID ctx'" "ux_Epoch ctx = ux_Epoch ctx'" "ux_EntryOperator ctx = ux_EntryOperator ctx'" "public = public'"
    by (simp_all add: be_enc_inj)
  show "domain = domain'" by (rule domain)
qed

section \<open>Any run of an operator\<close>

definition Responder_step :: "crypto \<Rightarrow> key_lib \<Rightarrow> Responder \<Rightarrow> bytes \<Rightarrow> Responder \<times> (bytes \<times> Session \<times> bytes) option" where
  "Responder_step c k r cell =
     (case Responder_Accept c k r cell of
        (r', Inl _) \<Rightarrow> (r', None)
      | (r', Inr (session, sessionID)) \<Rightarrow> (r', Some (slice SequenceSize (SequenceSize + EphemeralSize) cell, session, sessionID)))"

definition Responder_inv :: "Responder \<Rightarrow> bool" where
  "Responder_inv r \<longleftrightarrow> uplink_context_validate (rs_context r) = Inr () \<and> distinct (rs_seen r) \<and> length (rs_seen r) \<le> rs_limit r"

definition same_responder :: "Responder \<Rightarrow> Responder \<Rightarrow> bool" where
  "same_responder r r' \<longleftrightarrow> rs_static r' = rs_static r \<and> rs_committee r' = rs_committee r \<and> rs_context r' = rs_context r \<and>
     rs_limit r' = rs_limit r \<and> set (rs_seen r) \<subseteq> set (rs_seen r')"

interpretation responder: ordered_machine "\<lambda>r cell. fst (Responder_Accept c k r cell)" Responder_inv same_responder
  for c k
proof
  fix r cell
  assume inv: "Responder_inv r"
  obtain r' out where step: "Responder_Accept c k r cell = (r', out)" by (rule prod.exhaust)
  from step inv have "Responder_inv r' \<and> same_responder r r'"
    by (cases rule: Responder_Accept_cases) (auto simp: Responder_inv_def same_responder_def)
  with step show "Responder_inv (fst (Responder_Accept c k r cell))" "same_responder r (fst (Responder_Accept c k r cell))" by simp_all
qed (auto simp: same_responder_def)

interpretation handshakes: fresh_issuer "Responder_step c k" fst "\<lambda>r used. used \<subseteq> set (rs_seen r)"
  for c k
proof
  fix r r' used cell and out :: "(bytes \<times> Session \<times> bytes) option"
  assume used: "used \<subseteq> set (rs_seen r)" and step: "Responder_step c k r cell = (r', out)"
  obtain e res where accept: "Responder_Accept c k r cell = (e, res)" by (rule prod.exhaust)
  with step have r': "r' = e" and out: "out = (case res of Inl _ \<Rightarrow> None
      | Inr (session, sessionID) \<Rightarrow> Some (slice SequenceSize (SequenceSize + EphemeralSize) cell, session, sessionID))"
    by (auto simp: Responder_step_def split: sum.splits)
  from accept show "case out of None \<Rightarrow> used \<subseteq> set (rs_seen r') | Some v \<Rightarrow> fst v \<notin> used \<and> insert (fst v) used \<subseteq> set (rs_seen r')"
    using used by (cases rule: Responder_Accept_cases) (auto simp: r' out split: sum.split)
qed

text \<open>
  C32: A session is set up from both sides and carries cells. When a publisher establishes a session with the key an
  operator publishes, its cell has the size of every cell and the operator, if it has room and has not seen that ephemeral
  key, accepts it with the very session and identifier the publisher holds, and refuses the same cell a second time as a
  replay. From then on every payload that the committee's encryption takes, and cover likewise, seals under every nonzero
  number to one cell of the same size, headed by the number, which the operator opens to the number and the ciphertext.
\<close>

theorem uplink_session_roundtrip:
  assumes "key_ok k" "wire_sized encrypt"
    and "Establish c k (Some secret) (kx_public k (rs_static r)) (rs_committee r) (rs_context r) number = Inr i"
    and "kx_public k secret \<notin> set (rs_seen r)" "length (rs_seen r) < rs_limit r"
  shows "length (in_cell i) = fabric_CellSize \<and>
    (\<exists>r'. Responder_Accept c k r (in_cell i) = (r', Inr (in_session i, in_sessionID i)) \<and> snd (Responder_Accept c k r' (in_cell i)) = Inl SessionReplay) \<and>
    (\<forall>sequence payload wire. sequence \<noteq> 0 \<longrightarrow> encrypt (rs_committee r) payload = Some wire \<longrightarrow>
      (\<exists>cell. SealWork c k encrypt (in_session i) sequence payload = Inr cell \<and> length cell = fabric_CellSize \<and>
        take SequenceSize cell = be64 sequence \<and> Session_Open c k (in_session i) cell = Inr (sequence, take InnerSize wire) \<and>
        (payload = replicate PayloadSize 0 \<longrightarrow> SealCover c k encrypt (in_session i) sequence = Inr cell)))"
proof -
  note accepted = Establish_accepted [OF assms(1,3-5)]
  have "\<exists>cell. SealWork c k encrypt (in_session i) sequence payload = Inr cell \<and> length cell = fabric_CellSize \<and>
        take SequenceSize cell = be64 sequence \<and> Session_Open c k (in_session i) cell = Inr (sequence, take InnerSize wire) \<and>
        (payload = replicate PayloadSize 0 \<longrightarrow> SealCover c k encrypt (in_session i) sequence = Inr cell)"
    if "sequence \<noteq> 0" and wire: "encrypt (rs_committee r) payload = Some wire" for sequence payload wire
  proof -
    from wire assms(2) have "length wire = fabric_CellSize" by (simp add: wire_sized_def)
    then obtain cell where cell: "Session_seal c k encrypt (in_session i) sequence payload = Inr cell"
      using Session_seal_returns [OF assms(1) \<open>sequence \<noteq> 0\<close>] wire accepted(4) by metis
    from Session_seal_opens [OF assms(1) cell assms(2)] wire accepted(4)
    have "length cell = fabric_CellSize" "take SequenceSize cell = be64 sequence"
      "Session_Open c k (in_session i) cell = Inr (sequence, take InnerSize wire)" by (metis option.inject)+
    with cell show ?thesis by (auto simp: SealWork_def SealCover_def)
  qed
  with accepted(1-3) show ?thesis by blast
qed

text \<open>A toy library on which the contract holds: a keyed tag of 16 bytes, and addition as agreement.\<close>

definition pad32 :: "bytes \<Rightarrow> bytes" where "pad32 a = take 32 (a @ replicate 32 0)"

definition sample_key_lib :: key_lib where
  "sample_key_lib = \<lparr>kx_derive = (\<lambda>secret salt info. sample_hash (secret @ salt @ info)),
     kx_seal = (\<lambda>key nonce plain extra. plain @ drop 16 (sample_hash (key @ nonce @ extra))),
     kx_open = (\<lambda>key nonce sealed extra. let n = length sealed - 16 in
       if 16 \<le> length sealed \<and> drop n sealed = drop 16 (sample_hash (key @ nonce @ extra)) then Some (take n sealed) else None),
     kx_public = pad32, kx_agree = (\<lambda>a p. Some (map2 (+) (pad32 a) (pad32 p)))\<rparr>"

lemma sample_key_lib_ok: "key_ok sample_key_lib"
proof -
  have pad: "length (pad32 a) = 32" "pad32 (pad32 a) = pad32 a" for a by (simp_all add: pad32_def)
  have hash: "length (sample_hash m) = 32" for m by (simp add: sample_hash_def)
  have "map2 (+) xs ys = map2 (+) ys xs" for xs ys :: bytes by (subst zip_commute) (auto simp: split_beta add.commute)
  moreover have "(let n = length sealed - 16 in if 16 \<le> length sealed \<and> drop n sealed = drop 16 (sample_hash m) then Some (take n sealed) else None) = Some plain \<longleftrightarrow>
      sealed = plain @ drop 16 (sample_hash m)" for sealed plain m
    by (auto simp: Let_def hash) (metis append_take_drop_id)
  ultimately show ?thesis by (simp add: key_ok_def sample_key_lib_def pad hash EphemeralSize_def)
qed

definition sample_encrypt :: encryption where
  "sample_encrypt committee payload = Some (1 # replicate 1199 7)"

lemma sample_encrypt_sized: "wire_sized sample_encrypt"
  by (simp add: wire_sized_def sample_encrypt_def fabric_CellSize_def)

definition sample_uplink_context :: uplink_context where
  "sample_uplink_context = \<lparr>ux_NetworkID = ''n'', ux_Epoch = 1, ux_TopologyDigest = replicate 32 3, ux_EntryOperator = 0\<rparr>"

definition sample_responder :: Responder where
  "sample_responder = \<lparr>rs_static = [5], rs_committee = [6], rs_context = sample_uplink_context, rs_limit = 2, rs_seen = []\<rparr>"

definition sample_initiator :: Initiator where
  "sample_initiator = projr (Establish sample_crypto sample_key_lib (Some [9]) (kx_public sample_key_lib [5]) [6] sample_uplink_context 1)"

lemma sample_uplink_context_valid: "uplink_context_validate sample_uplink_context = Inr ()"
proof -
  have "replicate 32 (3 :: byte) \<noteq> replicate 32 0" by (simp add: replicate_eq_replicate)
  then show ?thesis by (simp add: uplink_context_validate_def sample_uplink_context_def)
qed

lemma sample_initiator_eq:
  "Establish sample_crypto sample_key_lib (Some [9]) (kx_public sample_key_lib [5]) [6] sample_uplink_context 1 = Inr sample_initiator"
proof -
  have sizes: "length (kx_public sample_key_lib [5]) = EphemeralSize" by (simp add: key_okD(4) [OF sample_key_lib_ok])
  have "\<exists>cell. sealHandshake sample_crypto sample_key_lib agreed (kx_public sample_key_lib [9]) sample_uplink_context 1 = Inr cell" for agreed
    by (simp add: sealHandshake_def Let_def key_okD(1) [OF sample_key_lib_ok]) (simp add: uplink_sizes handshakePadding_def EphemeralSize_def)
  then have "\<exists>i. Establish sample_crypto sample_key_lib (Some [9]) (kx_public sample_key_lib [5]) [6] sample_uplink_context 1 = Inr i"
    using sizes sample_uplink_context_valid
    by (auto simp: Establish_def guard_simps sessionFromAgreement_returns [OF sample_key_lib_ok]) (simp_all add: sample_key_lib_def)
  then show ?thesis by (auto simp: sample_initiator_def)
qed

theorem uplink_session_roundtrip_witness:
  "\<exists>r'. Responder_Accept sample_crypto sample_key_lib sample_responder (in_cell sample_initiator) = (r', Inr (in_session sample_initiator, in_sessionID sample_initiator))
     \<and> (\<exists>cell. SealWork sample_crypto sample_key_lib sample_encrypt (in_session sample_initiator) 7 [1, 2] = Inr cell
        \<and> Session_Open sample_crypto sample_key_lib (in_session sample_initiator) cell = Inr (7, 1 # replicate 1151 7))"
proof -
  note th = uplink_session_roundtrip [OF sample_key_lib_ok sample_encrypt_sized, of sample_crypto "[9]" sample_responder 1 sample_initiator]
  have "take InnerSize (1 # replicate 1199 7) = (1 :: byte) # replicate 1151 7" by (simp add: InnerSize_def)
  moreover have "(7 :: u64) \<noteq> 0" "sample_encrypt [6] [1, 2] = Some (1 # replicate 1199 7)" "rs_committee sample_responder = [6]"
    by (simp_all add: sample_encrypt_def sample_responder_def)
  moreover have "Establish sample_crypto sample_key_lib (Some [9]) (kx_public sample_key_lib (rs_static sample_responder)) (rs_committee sample_responder)
      (rs_context sample_responder) 1 = Inr sample_initiator" "kx_public sample_key_lib [9] \<notin> set (rs_seen sample_responder)"
    "length (rs_seen sample_responder) < rs_limit sample_responder"
    using sample_initiator_eq by (simp_all add: sample_responder_def)
  ultimately show ?thesis using th by metis
qed

text \<open>
  An operator sets up each handshake once, and no more sessions than its limit. Whatever cells it is offered, in any
  order and however often, the ephemeral keys of the sessions it sets up are pairwise different, their number is at most the
  limit, and once a key was accepted its cell is refused ever after. The key of each session and its identifier are derived
  from inputs that no other ephemeral key, network, epoch or operator shares.
\<close>

theorem handshakes_accepted_once:
  assumes "NewResponder static committee ctx limit = Inr r0" "go_sized (ux_NetworkID ctx)" "go_sized (ux_NetworkID ctx')"
  shows "distinct (map fst (issued (Responder_step c k) r0 cells)) \<and>
    int (length (rs_seen (run_ops (\<lambda>r cell. fst (Responder_Accept c k r cell)) r0 cells))) \<le> limit \<and>
    (\<forall>cell. slice SequenceSize (SequenceSize + EphemeralSize) cell \<in> set (rs_seen (run_ops (\<lambda>r cell. fst (Responder_Accept c k r cell)) r0 cells)) \<longrightarrow>
       (\<exists>e. snd (Responder_Accept c k (run_ops (\<lambda>r cell. fst (Responder_Accept c k r cell)) r0 (cells @ later)) cell) = Inl e)) \<and>
    (\<forall>domain domain' public public'. domain \<in> handshakeDomains \<longrightarrow> domain' \<in> handshakeDomains \<longrightarrow>
       (domain, public, ux_NetworkID ctx, ux_Epoch ctx, ux_EntryOperator ctx) \<noteq> (domain', public', ux_NetworkID ctx', ux_Epoch ctx', ux_EntryOperator ctx') \<longrightarrow>
       handshakeInfo domain ctx public \<noteq> handshakeInfo domain' ctx' public')"
proof (intro conjI allI impI)
  let ?run = "run_ops (\<lambda>r cell. fst (Responder_Accept c k r cell)) r0"
  note new = NewResponder_context [OF assms(1)]
  then have inv: "Responder_inv r0" by (simp add: Responder_inv_def)
  show "distinct (map fst (issued (Responder_step c k) r0 cells))"
    using handshakes.issued_fresh [of "{}" r0] by simp
  have "Responder_inv (?run cells)" "same_responder r0 (?run cells)" by (rule responder.run_inv [OF inv], rule responder.run_ord [OF inv])
  then show "int (length (rs_seen (?run cells))) \<le> limit"
    using new by (simp add: Responder_inv_def same_responder_def)
  fix cell
  assume seen: "slice SequenceSize (SequenceSize + EphemeralSize) cell \<in> set (rs_seen (?run cells))"
  have "same_responder (?run cells) (?run (cells @ later))"
    unfolding run_ops_append by (rule responder.run_ord, rule responder.run_inv [OF inv])
  with seen have "slice SequenceSize (SequenceSize + EphemeralSize) cell \<in> set (rs_seen (?run (cells @ later)))" by (auto simp: same_responder_def)
  then show "\<exists>e. snd (Responder_Accept c k (?run (cells @ later)) cell) = Inl e"
    by (auto simp: Responder_Accept_def Let_def split: option.split)
next
  fix domain domain' and public public' :: bytes
  assume "domain \<in> handshakeDomains" "domain' \<in> handshakeDomains"
    "(domain, public, ux_NetworkID ctx, ux_Epoch ctx, ux_EntryOperator ctx) \<noteq> (domain', public', ux_NetworkID ctx', ux_Epoch ctx', ux_EntryOperator ctx')"
  then show "handshakeInfo domain ctx public \<noteq> handshakeInfo domain' ctx' public'"
    using handshakeInfo_inj [OF _ _ assms(2,3)] by blast
qed

theorem handshakes_accepted_once_witness:
  "\<exists>r0. NewResponder [5] [6] sample_uplink_context 2 = Inr r0 \<and>
     int (length (rs_seen (run_ops (\<lambda>r cell. fst (Responder_Accept sample_crypto sample_key_lib r cell)) r0 [in_cell sample_initiator]))) \<le> 2 \<and>
     handshakeInfo handshakeKeyDomain sample_uplink_context [] \<noteq> handshakeInfo handshakeIDDomain sample_uplink_context []"
proof -
  have r0: "NewResponder [5] [6] sample_uplink_context 2 = Inr sample_responder"
    by (simp add: NewResponder_def sample_uplink_context_valid sample_responder_def)
  have "go_sized (ux_NetworkID sample_uplink_context)" by (simp add: sample_uplink_context_def)
  note th = handshakes_accepted_once [OF r0 this this, of sample_crypto sample_key_lib "[in_cell sample_initiator]"]
  have "handshakeKeyDomain \<noteq> handshakeIDDomain" by (simp add: handshakeKeyDomain_def handshakeIDDomain_def)
  with th r0 show ?thesis by (auto simp: handshakeDomains_def)
qed

end
