(* ===== verification/PublishQueue.thy ===== *)
theory PublishQueue
  imports Uplink "HOL-Library.List_Lexorder" "HOL-Library.Char_ord" "HOL-Library.Multiset"
begin

text \<open>
  \<^verbatim>\<open>live/publish/queue.go\<close>: the publisher's local queue. An object is cut into fragments of one size, each is sealed into a
  file named by its identifier, and the emitter takes them one at a time in the order of the names. The directory is a list
  of names and contents; which calls to the disk fail is an argument. Every method holds the lock and is one step.
\<close>

section \<open>State\<close>

definition FragmentSize :: nat where "FragmentSize = 504"
definition MaximumObjectBytes :: nat where "MaximumObjectBytes = 262144"
definition fragmentIDDomain :: string where "fragmentIDDomain = ''nomad-publication-fragment-v1''"
definition entryIDDomain :: string where "entryIDDomain = ''nomad-publication-entry-v1''"
definition fragment_headerSize :: nat where "fragment_headerSize = 4 + 4 + 4 + 32"
definition fragment_bodySize :: nat where "fragment_bodySize = FragmentSize - fragment_headerSize"

lemmas fragment_sizes = FragmentSize_def fragment_headerSize_def fragment_bodySize_def

record Fragment =
  fg_ID :: bytes
  fg_Index :: u32
  fg_Total :: u32
  fg_Payload :: bytes

record pubqueue =
  pq_maxFragments :: nat
  pq_key :: bytes
  pq_files :: "(string \<times> bytes) list"

datatype pubqueue_error =
    QueueRoot | QueueLimit | QueueKey | ObjectSize | PublisherKey | FragmentCount | QueueFull | NoWork | ListFailed
  | FragmentConflict | ReadFailed | WriteFailed | EntryName | FragmentAuthentication | FragmentLength | RemoveFailed
  | NotSynced "Fragment option"

text \<open>
  The disk: whether the listing, the \<open>i\<close>-th status, read and write of a call, the removal and the final flush succeed.
\<close>

record disk =
  dk_list :: bool
  dk_stat :: "nat \<Rightarrow> bool"
  dk_read :: "nat \<Rightarrow> bool"
  dk_write :: "nat \<Rightarrow> bool"
  dk_remove :: bool
  dk_sync :: bool

section \<open>Fragments\<close>

definition fragmentID :: "crypto \<Rightarrow> bytes \<Rightarrow> u32 \<Rightarrow> bytes" where
  "fragmentID c root index = sha256 c (bytes_of fragmentIDDomain @ root @ be32 index)"

definition fragmentAt :: "crypto \<Rightarrow> bytes \<Rightarrow> bytes \<Rightarrow> nat \<Rightarrow> nat \<Rightarrow> Fragment" where
  "fragmentAt c root object pieces index =
     (let start = index * fragment_bodySize;
          stop = (if length object < start + fragment_bodySize then length object else start + fragment_bodySize);
          body = slice start stop object
      in \<lparr>fg_ID = fragmentID c root (of_nat index), fg_Index = of_nat index, fg_Total = of_nat pieces,
          fg_Payload = be32 (of_nat index) @ be32 (of_nat pieces) @ be32 (of_nat (length object)) @ root @ body @
            replicate (fragment_bodySize - length body) 0\<rparr>)"

definition fragmentObject :: "crypto \<Rightarrow> bytes \<Rightarrow> bytes \<Rightarrow> pubqueue_error + Fragment list" where
  "fragmentObject c root object =
     (let pieces = (length object + fragment_bodySize - 1) div fragment_bodySize in
      if pieces = 0 \<or> pieces > 2 ^ 20 then Inl FragmentCount
      else Inr (map (fragmentAt c root object pieces) [0..<pieces]))"

definition entryNonce :: "crypto \<Rightarrow> bytes \<Rightarrow> bytes" where
  "entryNonce c ident = take 12 (sha256 c (bytes_of entryIDDomain @ ident))"

definition sealFragment :: "crypto \<Rightarrow> key_lib \<Rightarrow> pubqueue \<Rightarrow> Fragment \<Rightarrow> bytes" where
  "sealFragment c k q fragment =
     kx_seal k (pq_key q) (entryNonce c (fg_ID fragment))
       (be32 (fg_Index fragment) @ be32 (fg_Total fragment) @ fg_Payload fragment) (fg_ID fragment)"

definition openFragment :: "crypto \<Rightarrow> key_lib \<Rightarrow> pubqueue \<Rightarrow> bytes \<Rightarrow> bytes \<Rightarrow> pubqueue_error + Fragment" where
  "openFragment c k q ident data =
     (case kx_open k (pq_key q) (entryNonce c ident) data ident of
        None \<Rightarrow> Inl FragmentAuthentication
      | Some plaintext \<Rightarrow>
          if length plaintext \<noteq> 8 + FragmentSize then Inl FragmentLength
          else Inr \<lparr>fg_ID = ident, fg_Index = be_dec (slice 0 4 plaintext), fg_Total = be_dec (slice 4 8 plaintext),
                    fg_Payload = drop 8 plaintext\<rparr>)"

section \<open>The directory\<close>

definition pathFor :: "bytes \<Rightarrow> string" where
  "pathFor ident = hex_EncodeToString ident @ ''.fragment''"

text \<open>\<^verbatim>\<open>filepath.Ext\<close>: from the last dot on.\<close>

definition path_Ext :: "string \<Rightarrow> string" where
  "path_Ext name = (if CHR ''.'' \<in> set name then CHR ''.'' # rev (takeWhile (\<lambda>ch. ch \<noteq> CHR ''.'') (rev name)) else [])"

definition listLocked :: "pubqueue \<Rightarrow> string list" where
  "listLocked q = sort (filter (\<lambda>name. path_Ext name = ''.fragment'') (map fst (pq_files q)))"

definition countLocked :: "pubqueue \<Rightarrow> nat" where
  "countLocked q = length (listLocked q)"

definition writeOrCompare ::
    "disk \<Rightarrow> nat \<Rightarrow> (string \<times> bytes) list \<Rightarrow> string \<Rightarrow> bytes \<Rightarrow> pubqueue_error + (string \<times> bytes) list" where
  "writeOrCompare dk i files path data =
     (case map_of files path of
        Some existing \<Rightarrow>
          if \<not> dk_read dk i then Inl ReadFailed
          else if existing = data then Inr files
          else Inl FragmentConflict
      | None \<Rightarrow> if dk_write dk i then Inr ((path, data) # files) else Inl WriteFailed)"

section \<open>Operations\<close>

text \<open>\<open>key\<close> is what the key source gives.\<close>

definition publish_Open :: "string \<Rightarrow> int \<Rightarrow> bytes option \<Rightarrow> (string \<times> bytes) list \<Rightarrow> pubqueue_error + pubqueue" where
  "publish_Open root maximumFragments key files =
     andThen (require (root \<noteq> '''') QueueRoot) (\<lambda>_.
     andThen (require (\<not> (maximumFragments < 1 \<or> maximumFragments > 2 ^ 20)) QueueLimit) (\<lambda>_.
     andThen (expect key QueueKey) (\<lambda>opened.
     Inr \<lparr>pq_maxFragments = nat maximumFragments, pq_key = opened, pq_files = files\<rparr>)))"

fun storeFragments ::
    "crypto \<Rightarrow> key_lib \<Rightarrow> disk \<Rightarrow> nat \<Rightarrow> pubqueue \<Rightarrow> Fragment list \<Rightarrow> pubqueue \<times> (pubqueue_error + unit)" where
  "storeFragments c k dk i q [] = (q, Inr ())"
| "storeFragments c k dk i q (fragment # rest) =
     (case writeOrCompare dk i (pq_files q) (pathFor (fg_ID fragment)) (sealFragment c k q fragment) of
        Inl e \<Rightarrow> (q, Inl e)
      | Inr files \<Rightarrow> storeFragments c k dk (Suc i) (q\<lparr>pq_files := files\<rparr>) rest)"

definition existingFragments :: "disk \<Rightarrow> pubqueue \<Rightarrow> Fragment list \<Rightarrow> nat" where
  "existingFragments dk q fragments =
     length (filter (\<lambda>(i, fragment). dk_stat dk i \<and> map_of (pq_files q) (pathFor (fg_ID fragment)) \<noteq> None) (enumerate 0 fragments))"

definition Submit ::
    "crypto \<Rightarrow> key_lib \<Rightarrow> disk \<Rightarrow> pubqueue \<Rightarrow> bytes \<Rightarrow> bytes \<Rightarrow> pubqueue \<times> (pubqueue_error + unit)" where
  "Submit c k dk q object publisher =
     (if object = [] \<or> length object > MaximumObjectBytes then (q, Inl ObjectSize)
      else if length publisher \<noteq> publicKeySize then (q, Inl PublisherKey)
      else case fragmentObject c (sha256 c object) object of
        Inl e \<Rightarrow> (q, Inl e)
      | Inr fragments \<Rightarrow>
          if \<not> dk_list dk then (q, Inl ListFailed)
          else if int (countLocked q) + int (length fragments) - int (existingFragments dk q fragments) > int (pq_maxFragments q)
          then (q, Inl QueueFull)
          else (case storeFragments c k dk 0 q fragments of
                  (q', Inl e) \<Rightarrow> (q', Inl e)
                | (q', Inr _) \<Rightarrow> (q', require (dk_sync dk) (NotSynced None))))"

definition removeFile :: "pubqueue \<Rightarrow> string \<Rightarrow> pubqueue" where
  "removeFile q name = q\<lparr>pq_files := filter (\<lambda>(n, data). n \<noteq> name) (pq_files q)\<rparr>"

text \<open>When the final flush fails, the fragment is returned together with the error.\<close>

definition publish_Next :: "crypto \<Rightarrow> key_lib \<Rightarrow> disk \<Rightarrow> pubqueue \<Rightarrow> pubqueue \<times> (pubqueue_error + Fragment)" where
  "publish_Next c k dk q =
     (if \<not> dk_list dk then (q, Inl ListFailed)
      else case listLocked q of
        [] \<Rightarrow> (q, Inl NoWork)
      | name # _ \<Rightarrow>
          (case hex_DecodeString (take (length name - length ''.fragment'') name) of
             None \<Rightarrow> (q, Inl EntryName)
           | Some ident \<Rightarrow>
               if length ident \<noteq> 32 then (q, Inl EntryName)
               else if \<not> dk_read dk 0 then (q, Inl ReadFailed)
               else (case openFragment c k q ident (the (map_of (pq_files q) name)) of
                       Inl e \<Rightarrow> (if dk_remove dk then removeFile q name else q, Inl e)
                     | Inr fragment \<Rightarrow>
                         if \<not> dk_remove dk then (q, Inl RemoveFailed)
                         else (removeFile q name, if dk_sync dk then Inr fragment else Inl (NotSynced (Some fragment))))))"

definition publish_Pending :: "disk \<Rightarrow> pubqueue \<Rightarrow> pubqueue_error + nat" where
  "publish_Pending dk q = (if dk_list dk then Inr (countLocked q) else Inl ListFailed)"

section \<open>Cutting and putting together\<close>

text \<open>
  How a reader puts the payloads of one object together: by the index each begins with, up to the length it names.
\<close>

definition payload_index :: "bytes \<Rightarrow> nat" where
  "payload_index payload = unat (be_dec (take 4 payload) :: u32)"

definition payload_length :: "bytes \<Rightarrow> nat" where
  "payload_length payload = unat (be_dec (slice 8 12 payload) :: u32)"

definition reassemble :: "bytes list \<Rightarrow> bytes" where
  "reassemble payloads =
     take (payload_length (hd payloads)) (concat (map (drop fragment_headerSize) (sort_key payload_index payloads)))"

lemma chunks_concat: "concat (map (\<lambda>i. take b (drop (i * b) xs)) [0..<m]) = take (m * b) xs"
  by (induction m) (simp_all add: take_add [symmetric] add.commute)

lemma fragment_body:
  assumes "index * fragment_bodySize \<le> length object"
  shows "fg_Payload (fragmentAt c root object pieces index) =
    (be32 (of_nat index) @ be32 (of_nat pieces) @ be32 (of_nat (length object)) @ root) @ take fragment_bodySize (drop (index * fragment_bodySize) object) @
      replicate (fragment_bodySize - length (take fragment_bodySize (drop (index * fragment_bodySize) object))) 0"
proof -
  have "slice (index * fragment_bodySize) (if length object < index * fragment_bodySize + fragment_bodySize then length object
      else index * fragment_bodySize + fragment_bodySize) object = take fragment_bodySize (drop (index * fragment_bodySize) object)"
    using assms by (auto simp: slice_def)
  then show ?thesis by (simp add: fragmentAt_def Let_def)
qed

lemma fragment_pieces:
  assumes "pieces = (length object + fragment_bodySize - 1) div fragment_bodySize" "object \<noteq> []"
  obtains m where "pieces = Suc m" "m * fragment_bodySize < length object" "length object \<le> pieces * fragment_bodySize"
proof -
  define n where "n = length object"
  have "pieces = (n + 459) div 460" "0 < n" using assms by (simp_all add: fragment_sizes n_def)
  then have "0 < pieces" "(pieces - 1) * 460 < n" "n \<le> pieces * 460" by linarith+
  then show ?thesis using that [of "pieces - 1"] by (simp add: fragment_sizes n_def)
qed

lemma fragment_payloads:
  assumes "fragmentObject c root object = Inr fragments" "object \<noteq> []" "length object \<le> MaximumObjectBytes" "length root = 32"
  shows "\<forall>f \<in> set fragments. length (fg_Payload f) = FragmentSize \<and> payload_length (fg_Payload f) = length object \<and> fg_Payload f \<noteq> replicate FragmentSize 0"
    "map (payload_index \<circ> fg_Payload) fragments = [0..<length fragments]"
    "concat (map (drop fragment_headerSize \<circ> fg_Payload) fragments) =
      object @ replicate (length fragments * fragment_bodySize - length object) 0"
    "fragments \<noteq> []"
proof -
  define pieces where "pieces = (length object + fragment_bodySize - 1) div fragment_bodySize"
  obtain m where m: "pieces = Suc m" "m * fragment_bodySize < length object" "length object \<le> pieces * fragment_bodySize"
    using fragment_pieces [OF pieces_def assms(2)] .
  from assms(1) have fragments: "fragments = map (fragmentAt c root object pieces) [0..<pieces]" and small: "pieces \<le> 2 ^ 20"
    unfolding fragmentObject_def Let_def pieces_def [symmetric] by (auto split: if_splits)
  let ?body = "\<lambda>i. take fragment_bodySize (drop (i * fragment_bodySize) object)"
  let ?head = "\<lambda>i. be32 (of_nat i) @ be32 (of_nat pieces) @ be32 (of_nat (length object)) @ root"
  have within: "i * fragment_bodySize \<le> length object" if "i < pieces" for i
    using that m by (metis less_Suc_eq_le less_imp_le mult_le_mono1 order_trans)
  have payload: "fg_Payload (fragmentAt c root object pieces i) = ?head i @ ?body i @ replicate (fragment_bodySize - length (?body i)) 0" if "i < pieces" for i
    by (rule fragment_body [OF within [OF that]])
  have u32: "unat (of_nat i :: u32) = i" if "i \<le> 2 ^ 20" for i using that by (simp add: unat_of_nat)
  have four: "be_dec (be32 w) = w" for w :: u32 by (rule be_dec_enc) simp
  have head: "length (?head i) = fragment_headerSize" for i using assms(4) by (simp add: fragment_sizes)
  have read: "payload_index (be32 (of_nat i) @ r) = i" "payload_length (be32 (of_nat i) @ be32 w @ be32 (of_nat (length object)) @ r) = length object"
    if "i < pieces" for i w r
    using that small assms(3) u32 by (simp_all add: payload_index_def payload_length_def four MaximumObjectBytes_def slice_def)
  show "\<forall>f \<in> set fragments. length (fg_Payload f) = FragmentSize \<and> payload_length (fg_Payload f) = length object \<and> fg_Payload f \<noteq> replicate FragmentSize 0"
  proof (safe)
    fix f assume "f \<in> set fragments"
    then obtain i where i: "i < pieces" "f = fragmentAt c root object pieces i" by (auto simp: fragments)
    have "length (?body i) \<le> fragment_bodySize" by simp
    then show size: "length (fg_Payload f) = FragmentSize" using i payload head by (simp add: fragment_sizes)
    show len: "payload_length (fg_Payload f) = length object" using i payload read by simp
    assume "fg_Payload f = replicate FragmentSize 0"
    then have "payload_length (fg_Payload f) = 0"
      by (simp add: payload_length_def slice_def fragment_sizes be_dec_def numeral_eq_Suc)
    with len assms(2) show False by simp
  qed
  show "map (payload_index \<circ> fg_Payload) fragments = [0..<length fragments]"
    by (rule nth_equalityI) (simp_all add: fragments payload read)
  have bodies: "drop fragment_headerSize (fg_Payload (fragmentAt c root object pieces i)) = ?body i @ replicate (fragment_bodySize - length (?body i)) 0" if "i < pieces" for i
    using assms(4) by (simp add: payload [OF that] fragment_headerSize_def)
  have full: "drop fragment_headerSize (fg_Payload (fragmentAt c root object pieces i)) = ?body i" if "i < m" for i
  proof -
    have "(i + 1) * fragment_bodySize \<le> m * fragment_bodySize" using that by (intro mult_le_mono1) simp
    then have "length (?body i) = fragment_bodySize" using m by simp
    with bodies [of i] that m show ?thesis by simp
  qed
  have "concat (map (drop fragment_headerSize \<circ> fg_Payload) fragments) =
      concat (map ?body [0..<m]) @ ?body m @ replicate (fragment_bodySize - length (?body m)) 0"
  proof -
    have "concat (map (\<lambda>i. drop fragment_headerSize (fg_Payload (fragmentAt c root object pieces i))) [0..<m]) = concat (map ?body [0..<m])"
      using full by (intro arg_cong [where f = concat] map_cong) auto
    moreover have "concat (map (drop fragment_headerSize \<circ> fg_Payload) fragments) =
        concat (map (\<lambda>i. drop fragment_headerSize (fg_Payload (fragmentAt c root object pieces i))) [0..<m]) @
        drop fragment_headerSize (fg_Payload (fragmentAt c root object pieces m))"
      using m(1) by (simp add: fragments comp_def)
    ultimately show ?thesis using bodies [of m] m(1) by (metis lessI)
  qed
  also have "\<dots> = object @ replicate (length fragments * fragment_bodySize - length object) 0"
    using m by (simp add: chunks_concat fragments min_def)
  finally show "concat (map (drop fragment_headerSize \<circ> fg_Payload) fragments) =
      object @ replicate (length fragments * fragment_bodySize - length object) 0" .
  show "fragments \<noteq> []" using m by (simp add: fragments)
qed

lemma fragmentObject_returns:
  assumes "object \<noteq> []" "length object \<le> MaximumObjectBytes"
  shows "\<exists>fragments. fragmentObject c root object = Inr fragments"
proof -
  have "(length object + 459) div 460 \<le> (262144 + 459) div 460" using assms(2) by (intro div_le_mono) (simp add: MaximumObjectBytes_def)
  moreover have "0 < (length object + 459) div 460" using assms(1) by (cases object) auto
  ultimately show ?thesis by (simp add: fragmentObject_def Let_def fragment_sizes add.commute [of 459])
qed

lemma reassemble_any_order:
  assumes "fragmentObject c root object = Inr fragments" "object \<noteq> []" "length object \<le> MaximumObjectBytes" "length root = 32"
    and "mset payloads = mset (map fg_Payload fragments)"
  shows "reassemble payloads = object"
proof -
  note parts = fragment_payloads [OF assms(1-4)]
  have "sort_key payload_index payloads = map fg_Payload fragments"
  proof (rule sort_key_inj_key_eq [OF assms(5)])
    have "distinct (map payload_index (map fg_Payload fragments))" using parts(2) by (simp add: comp_def)
    then show "inj_on payload_index (set payloads)" using assms(5) by (metis distinct_map set_mset_mset)
    show "sorted (map payload_index (map fg_Payload fragments))" using parts(2) by (simp add: comp_def)
  qed
  moreover have "payload_length (hd payloads) = length object"
  proof -
    have "set payloads = fg_Payload ` set fragments" using assms(5) by (metis list.set_map set_mset_mset)
    moreover from this parts(4) have "hd payloads \<in> set payloads" by (cases payloads) auto
    ultimately show ?thesis using parts(1) by auto
  qed
  ultimately show ?thesis using parts(3) by (simp add: reassemble_def comp_def)
qed

section \<open>What the directory holds\<close>

definition fragment_ok :: "Fragment \<Rightarrow> bool" where
  "fragment_ok f \<longleftrightarrow> length (fg_ID f) = 32 \<and> length (fg_Payload f) = FragmentSize"

definition queue_holds :: "crypto \<Rightarrow> key_lib \<Rightarrow> pubqueue \<Rightarrow> Fragment \<Rightarrow> bool" where
  "queue_holds c k q f \<longleftrightarrow> fragment_ok f \<and> map_of (pq_files q) (pathFor (fg_ID f)) = Some (sealFragment c k q f)"

definition pubqueue_ok :: "crypto \<Rightarrow> key_lib \<Rightarrow> pubqueue \<Rightarrow> bool" where
  "pubqueue_ok c k q \<longleftrightarrow> distinct (map fst (pq_files q)) \<and> countLocked q \<le> pq_maxFragments q \<and>
     (\<forall>(name, data) \<in> set (pq_files q). path_Ext name = ''.fragment'' \<longrightarrow>
        (\<exists>f. fragment_ok f \<and> name = pathFor (fg_ID f) \<and> data = sealFragment c k q f))"

lemma path_Ext_pathFor [simp]: "path_Ext (pathFor ident) = ''.fragment''"
  by (simp add: path_Ext_def pathFor_def)

lemma pathFor_inj [simp]: "pathFor a = pathFor b \<longleftrightarrow> a = b"
  by (simp add: pathFor_def)

lemma pathFor_decodes: "hex_DecodeString (take (length (pathFor ident) - length ''.fragment'') (pathFor ident)) = Some ident"
  by (simp add: pathFor_def hex_roundtrip)

lemma sealFragment_files [simp]: "sealFragment c k (q\<lparr>pq_files := files\<rparr>) f = sealFragment c k q f"
  by (simp add: sealFragment_def)

lemma openFragment_iff:
  assumes "key_ok k" "length ident = 32"
  shows "openFragment c k q ident data = Inr f \<longleftrightarrow> fg_ID f = ident \<and> fragment_ok f \<and> data = sealFragment c k q f"
proof
  assume "openFragment c k q ident data = Inr f"
  then obtain plain where plain: "kx_open k (pq_key q) (entryNonce c ident) data ident = Some plain" "length plain = 8 + FragmentSize"
    and f: "f = \<lparr>fg_ID = ident, fg_Index = be_dec (slice 0 4 plain), fg_Total = be_dec (slice 4 8 plain), fg_Payload = drop 8 plain\<rparr>"
    by (auto simp: openFragment_def split: option.splits if_splits)
  have "be32 (be_dec (slice i (i + 4) plain)) = slice i (i + 4) plain" if "i \<le> 4" for i
    using be_enc_dec [of "slice i (i + 4) plain", where ?'a = 32] that plain(2) by simp
  from this [of 0] this [of 4] have "plain = be32 (fg_Index f) @ be32 (fg_Total f) @ fg_Payload f"
    using slices_append [of 4 8 plain] plain(2) by (simp add: f slice_def) (metis append.assoc append_take_drop_id)
  moreover have "fg_ID f = ident" "length (fg_Payload f) = FragmentSize" using plain(2) by (simp_all add: f)
  moreover have "data = kx_seal k (pq_key q) (entryNonce c ident) plain ident" using plain(1) key_okD(2) [OF assms(1)] by simp
  ultimately show "fg_ID f = ident \<and> fragment_ok f \<and> data = sealFragment c k q f"
    using assms(2) by (metis fragment_ok_def sealFragment_def)
next
  assume f: "fg_ID f = ident \<and> fragment_ok f \<and> data = sealFragment c k q f"
  have "be_dec (be32 w) = w" for w :: u32 by (rule be_dec_enc) simp
  with f show "openFragment c k q ident data = Inr f"
    by (auto simp: openFragment_def sealFragment_def key_opens [OF assms(1)] fragment_ok_def slice_def)
qed

lemma holds_unique: "key_ok k \<Longrightarrow> queue_holds c k q f \<Longrightarrow> queue_holds c k q g \<Longrightarrow> fg_ID f = fg_ID g \<Longrightarrow> f = g"
  by (metis fragment_ok_def openFragment_iff option.inject queue_holds_def sum.inject(2))

lemma holds_listed: "queue_holds c k q f \<Longrightarrow> pathFor (fg_ID f) \<in> set (listLocked q)"
  by (force simp: queue_holds_def listLocked_def dest: map_of_SomeD)

lemma listed_held:
  assumes "pubqueue_ok c k q" "name \<in> set (listLocked q)"
  obtains f where "queue_holds c k q f" "name = pathFor (fg_ID f)"
proof -
  from assms(2) obtain data where entry: "(name, data) \<in> set (pq_files q)" "path_Ext name = ''.fragment''" by (auto simp: listLocked_def)
  with assms(1) obtain f where "fragment_ok f" "name = pathFor (fg_ID f)" "data = sealFragment c k q f" by (auto simp: pubqueue_ok_def)
  moreover have "map_of (pq_files q) name = Some data" using assms(1) entry(1) by (simp add: pubqueue_ok_def)
  ultimately show ?thesis using that by (simp add: queue_holds_def)
qed

section \<open>Taking\<close>

lemma map_of_removeFile: "map_of (pq_files (removeFile q name)) n = (if n = name then None else map_of (pq_files q) n)"
proof -
  have "map_of (filter (\<lambda>(n, data). n \<noteq> name) xs) n = (if n = name then None else map_of xs n)" for xs :: "(string \<times> bytes) list"
    by (induction xs) auto
  then show ?thesis by (simp add: removeFile_def)
qed

lemma removeFile_holds: "queue_holds c k (removeFile q name) g \<longleftrightarrow> queue_holds c k q g \<and> pathFor (fg_ID g) \<noteq> name"
  by (auto simp: queue_holds_def map_of_removeFile) (simp_all add: removeFile_def)

lemma removeFile_ok: "pubqueue_ok c k q \<Longrightarrow> pubqueue_ok c k (removeFile q name)"
proof -
  assume ok: "pubqueue_ok c k q"
  have "length (filter P (map fst (filter R xs))) \<le> length (filter P (map fst xs))" for P R and xs :: "(string \<times> bytes) list"
    by (induction xs) auto
  then have "countLocked (removeFile q name) \<le> countLocked q" by (simp add: countLocked_def listLocked_def removeFile_def)
  with ok show ?thesis
    by (force simp: pubqueue_ok_def distinct_map_filter removeFile_def)
qed

text \<open>Whatever fails, taking changes only what it hands out, and it hands out what it holds.\<close>

lemma publish_Next_effect:
  assumes "key_ok k" "pubqueue_ok c k q" "publish_Next c k dk q = (q', r)"
  obtains (same) e where "q' = q" "r = Inl e" "dk_list dk \<Longrightarrow> dk_read dk 0 \<Longrightarrow> dk_remove dk \<Longrightarrow> e = NoWork \<and> (\<forall>g. \<not> queue_holds c k q g)"
  | (taken) f where "queue_holds c k q f" "q' = removeFile q (pathFor (fg_ID f))" "r = (if dk_sync dk then Inr f else Inl (NotSynced (Some f)))"
      "\<forall>g. queue_holds c k q g \<longrightarrow> pathFor (fg_ID f) \<le> pathFor (fg_ID g)"
proof (cases "dk_list dk \<and> listLocked q \<noteq> []")
  case False
  then have "publish_Next c k dk q = (q, Inl (if dk_list dk then NoWork else ListFailed))" "dk_list dk \<longrightarrow> listLocked q = []"
    by (simp_all add: publish_Next_def)
  with assms(3) have "q' = q" "r = Inl (if dk_list dk then NoWork else ListFailed)" "dk_list dk \<longrightarrow> listLocked q = []" by simp_all
  moreover have "\<not> queue_holds c k q g" if "listLocked q = []" for g using holds_listed [of c k q g] that by auto
  ultimately show ?thesis by (intro that(1) [of "if dk_list dk then NoWork else ListFailed"]) auto
next
  case True
  then obtain name rest where names: "listLocked q = name # rest" by (cases "listLocked q") auto
  then obtain f where f: "queue_holds c k q f" "name = pathFor (fg_ID f)" using listed_held [OF assms(2), of name] by auto
  have size: "length (fg_ID f) = 32" using f(1) by (simp add: queue_holds_def fragment_ok_def)
  have "openFragment c k q (fg_ID f) (the (map_of (pq_files q) name)) = Inr f"
    using f openFragment_iff [OF assms(1) size] by (simp add: queue_holds_def)
  then have result: "publish_Next c k dk q = (if \<not> dk_read dk 0 then (q, Inl ReadFailed) else if \<not> dk_remove dk then (q, Inl RemoveFailed)
      else (removeFile q name, if dk_sync dk then Inr f else Inl (NotSynced (Some f))))"
    using True size unfolding publish_Next_def names f(2) list.case pathFor_decodes option.case by simp
  have "sorted (listLocked q)" by (simp add: listLocked_def)
  then have first: "\<forall>g. queue_holds c k q g \<longrightarrow> pathFor (fg_ID f) \<le> pathFor (fg_ID g)"
    using names f(2) holds_listed by fastforce
  show ?thesis
  proof (cases "dk_read dk 0 \<and> dk_remove dk")
    case True
    with result f(2) assms(3) have "q' = removeFile q (pathFor (fg_ID f))" "r = (if dk_sync dk then Inr f else Inl (NotSynced (Some f)))" by simp_all
    with f(1) show ?thesis using first by (rule that(2))
  next
    case False
    with result assms(3) have "q' = q" "r = Inl (if dk_read dk 0 then RemoveFailed else ReadFailed)" by (simp_all split: if_splits)
    then show ?thesis using False by (intro that(1)) auto
  qed
qed

section \<open>Storing\<close>

lemma storeFragments_key: "storeFragments c k dk i q fs = (q', r) \<Longrightarrow> pq_key q' = pq_key q \<and> pq_maxFragments q' = pq_maxFragments q"
  by (induction c k dk i q fs rule: storeFragments.induct) (auto split: sum.splits)

lemma sealFragment_key: "pq_key q' = pq_key q \<Longrightarrow> sealFragment c k q' f = sealFragment c k q f"
  by (simp add: sealFragment_def)

text \<open>One file: an entry that was there stays, a new one is that of the fragment.\<close>

lemma writeOrCompare_effect:
  assumes "writeOrCompare dk i files path data = Inr files'"
  shows "map_of files' path = Some data \<and> (files' = files \<or> map_of files path = None \<and> files' = (path, data) # files)"
  using assms by (auto simp: writeOrCompare_def split: option.splits if_splits)

definition files_ok :: "crypto \<Rightarrow> key_lib \<Rightarrow> pubqueue \<Rightarrow> bool" where
  "files_ok c k q \<longleftrightarrow> distinct (map fst (pq_files q)) \<and>
     (\<forall>(name, data) \<in> set (pq_files q). path_Ext name = ''.fragment'' \<longrightarrow>
        (\<exists>f. fragment_ok f \<and> name = pathFor (fg_ID f) \<and> data = sealFragment c k q f))"

lemma pubqueue_ok_iff: "pubqueue_ok c k q \<longleftrightarrow> files_ok c k q \<and> countLocked q \<le> pq_maxFragments q"
  by (auto simp: pubqueue_ok_def files_ok_def)

lemma holds_files: "queue_holds c k (q\<lparr>pq_files := files\<rparr>) f \<longleftrightarrow> fragment_ok f \<and> map_of files (pathFor (fg_ID f)) = Some (sealFragment c k q f)"
  by (simp add: queue_holds_def)

lemma storeFragments_effect:
  assumes "storeFragments c k dk i q fs = (q', r)" "files_ok c k q" "\<forall>f \<in> set fs. fragment_ok f" "key_ok k"
  shows "files_ok c k q' \<and> (\<forall>g. queue_holds c k q g \<longrightarrow> queue_holds c k q' g) \<and>
    (\<forall>g. queue_holds c k q' g \<longrightarrow> queue_holds c k q g \<or> g \<in> set fs) \<and> (r = Inr () \<longrightarrow> (\<forall>f \<in> set fs. queue_holds c k q' f)) \<and>
    countLocked q' \<le> countLocked q + length (filter (\<lambda>f. map_of (pq_files q) (pathFor (fg_ID f)) = None) fs)"
  using assms
proof (induction c k dk i q fs rule: storeFragments.induct)
  case (2 c k dk i q f fs)
  show ?case
  proof (cases "writeOrCompare dk i (pq_files q) (pathFor (fg_ID f)) (sealFragment c k q f)")
    case (Inl e)
    with 2 show ?thesis by auto
  next
    case (Inr files)
    define q1 where "q1 = q\<lparr>pq_files := files\<rparr>"
    note effect = writeOrCompare_effect [OF Inr]
    have stored: "queue_holds c k q1 f" using effect 2(4) by (simp add: q1_def holds_files)
    have kept: "queue_holds c k q1 g" if "queue_holds c k q g" for g
      using that effect by (auto simp: q1_def holds_files queue_holds_def)
    have new: "queue_holds c k q g \<or> g = f" if held: "queue_holds c k q1 g" for g
    proof (cases "fg_ID g = fg_ID f")
      case True
      then show ?thesis using holds_unique [OF 2(5) held stored] by simp
    next
      case False
      then show ?thesis using held effect by (auto simp: q1_def holds_files queue_holds_def)
    qed
    have ok: "files_ok c k q1"
      using effect 2(3,4) unfolding files_ok_def q1_def by (auto simp: map_of_eq_None_iff)
    have listed: "countLocked q1 = countLocked q + (if map_of (pq_files q) (pathFor (fg_ID f)) = None then 1 else 0)"
      using effect by (auto simp: countLocked_def listLocked_def q1_def)
    have mono: "length (filter P xs) \<le> length (filter R xs)" if "\<And>x. P x \<Longrightarrow> R x" for P R and xs :: "Fragment list"
      using that by (induction xs) auto
    have fewer: "length (filter (\<lambda>f. map_of (pq_files q1) (pathFor (fg_ID f)) = None) fs) \<le>
        length (filter (\<lambda>f. map_of (pq_files q) (pathFor (fg_ID f)) = None) fs)"
      using effect by (intro mono) (auto simp: q1_def split: if_splits)
    from 2(1) [OF Inr] 2(2,4,5) ok have "files_ok c k q' \<and> (\<forall>g. queue_holds c k q1 g \<longrightarrow> queue_holds c k q' g) \<and>
      (\<forall>g. queue_holds c k q' g \<longrightarrow> queue_holds c k q1 g \<or> g \<in> set fs) \<and> (r = Inr () \<longrightarrow> (\<forall>f \<in> set fs. queue_holds c k q' f)) \<and>
      countLocked q' \<le> countLocked q1 + length (filter (\<lambda>f. map_of (pq_files q1) (pathFor (fg_ID f)) = None) fs)"
      unfolding q1_def by (simp add: Inr)
    with stored kept new listed fewer show ?thesis by (auto split: if_splits)
  qed
qed auto

lemma existing_le: "existingFragments dk q fs \<le> length (filter (\<lambda>f. map_of (pq_files q) (pathFor (fg_ID f)) \<noteq> None) fs)"
proof -
  have "length (filter (\<lambda>(i, f). P i \<and> R f) (enumerate n xs)) \<le> length (filter R xs)" for P R n and xs :: "Fragment list"
    by (induction xs arbitrary: n) (auto intro: le_SucI)
  then show ?thesis by (simp add: existingFragments_def)
qed

lemma fragmentObject_ok:
  assumes "fragmentObject c (sha256 c object) object = Inr fragments" "object \<noteq> []" "length object \<le> MaximumObjectBytes" "hash_ok c"
  shows "\<forall>f \<in> set fragments. fragment_ok f" "distinct fragments"
proof -
  have root: "length (sha256 c object) = 32" using assms(4) by (simp add: hash_ok_def)
  note parts = fragment_payloads [OF assms(1-3) root]
  from assms(1) have "\<forall>f \<in> set fragments. length (fg_ID f) = 32"
    using assms(4) by (auto simp: fragmentObject_def fragmentAt_def fragmentID_def hash_ok_def Let_def split: if_splits)
  with parts(1) show "\<forall>f \<in> set fragments. fragment_ok f" by (simp add: fragment_ok_def)
  have "distinct (map (payload_index \<circ> fg_Payload) fragments)" using parts(2) by simp
  then show "distinct fragments" by (simp add: distinct_map)
qed

lemma Submit_effect:
  assumes "key_ok k" "hash_ok c" "pubqueue_ok c k q" "Submit c k dk q object publisher = (q', r)"
  shows "pubqueue_ok c k q'" "\<forall>g. queue_holds c k q g \<longrightarrow> queue_holds c k q' g"
    "r = Inr () \<Longrightarrow> \<exists>fragments. fragmentObject c (sha256 c object) object = Inr fragments \<and> object \<noteq> [] \<and> length object \<le> MaximumObjectBytes \<and>
      (\<forall>f \<in> set fragments. queue_holds c k q' f)"
proof -
  have "pubqueue_ok c k q' \<and> (\<forall>g. queue_holds c k q g \<longrightarrow> queue_holds c k q' g) \<and> (r = Inr () \<longrightarrow>
      (\<exists>fragments. fragmentObject c (sha256 c object) object = Inr fragments \<and> object \<noteq> [] \<and> length object \<le> MaximumObjectBytes \<and>
        (\<forall>f \<in> set fragments. queue_holds c k q' f)))"
  proof (cases "q' = q \<and> (\<exists>e. r = Inl e)")
    case True
    then show ?thesis using assms(3) by auto
  next
    case False
    obtain fragments where fragments: "fragmentObject c (sha256 c object) object = Inr fragments" "object \<noteq> []" "length object \<le> MaximumObjectBytes"
      and room: "int (countLocked q) + int (length fragments) - int (existingFragments dk q fragments) \<le> int (pq_maxFragments q)"
      and out: "(q', r) = (case storeFragments c k dk 0 q fragments of
                  (q', Inl e) \<Rightarrow> (q', Inl e)
                | (q', Inr _) \<Rightarrow> (q', require (dk_sync dk) (NotSynced None)))"
      using assms(4) False by (cases "fragmentObject c (sha256 c object) object") (auto simp: Submit_def split: if_splits)
    obtain q1 r1 where store: "storeFragments c k dk 0 q fragments = (q1, r1)" by (rule prod.exhaust)
    note effect = storeFragments_effect [OF store _ fragmentObject_ok(1) [OF fragments assms(2)] assms(1)]
    have q': "q' = q1" "r = Inr () \<Longrightarrow> r1 = Inr ()" using out store by (auto split: sum.splits)
    have "length (filter (\<lambda>f. map_of (pq_files q) (pathFor (fg_ID f)) = None) fragments) +
        length (filter (\<lambda>f. map_of (pq_files q) (pathFor (fg_ID f)) \<noteq> None) fragments) = length fragments"
      using sum_length_filter_compl [of "\<lambda>f. map_of (pq_files q) (pathFor (fg_ID f)) = None" fragments] by simp
    with effect existing_le [of dk q fragments] room assms(3) storeFragments_key [OF store]
    have "pubqueue_ok c k q1" by (simp add: pubqueue_ok_iff)
    with effect fragments q' assms(3) show ?thesis by (auto simp: pubqueue_ok_iff)
  qed
  then show "pubqueue_ok c k q'" "\<forall>g. queue_holds c k q g \<longrightarrow> queue_holds c k q' g"
    "r = Inr () \<Longrightarrow> \<exists>fragments. fragmentObject c (sha256 c object) object = Inr fragments \<and> object \<noteq> [] \<and> length object \<le> MaximumObjectBytes \<and>
      (\<forall>f \<in> set fragments. queue_holds c k q' f)" by blast+
qed

section \<open>Any run\<close>

datatype pubqueue_event = SubmitObject disk bytes bytes | TakeNext disk

text \<open>The fragment that leaves the directory in a step, if any, also where the flush fails.\<close>

definition pubqueue_step :: "crypto \<Rightarrow> key_lib \<Rightarrow> pubqueue \<Rightarrow> pubqueue_event \<Rightarrow> pubqueue \<times> Fragment option" where
  "pubqueue_step c k q event =
     (case event of
        SubmitObject dk object publisher \<Rightarrow> (fst (Submit c k dk q object publisher), None)
      | TakeNext dk \<Rightarrow>
          (case publish_Next c k dk q of
             (q', Inr f) \<Rightarrow> (q', Some f)
           | (q', Inl (NotSynced out)) \<Rightarrow> (q', out)
           | (q', Inl _) \<Rightarrow> (q', None)))"

lemma pubqueue_step_effect:
  assumes "key_ok k" "hash_ok c" "pubqueue_ok c k q" "pubqueue_step c k q event = (q', out)"
  shows "pubqueue_ok c k q'" "\<forall>g. queue_holds c k q g \<longrightarrow> queue_holds c k q' g \<or> out = Some g"
proof -
  have "pubqueue_ok c k q' \<and> (\<forall>g. queue_holds c k q g \<longrightarrow> queue_holds c k q' g \<or> out = Some g)"
  proof (cases event)
    case (SubmitObject dk object publisher)
    obtain q1 r where "Submit c k dk q object publisher = (q1, r)" by (rule prod.exhaust)
    with Submit_effect(1,2) [OF assms(1-3) this] assms(4) SubmitObject show ?thesis by (simp add: pubqueue_step_def)
  next
    case (TakeNext dk)
    obtain q1 r where step: "publish_Next c k dk q = (q1, r)" by (rule prod.exhaust)
    from assms(1,3) step show ?thesis
    proof (cases rule: publish_Next_effect)
      case (same e)
      with step assms(3,4) TakeNext show ?thesis by (auto simp: pubqueue_step_def split: pubqueue_error.splits)
    next
      case (taken f)
      have "queue_holds c k q' g \<or> out = Some g" if "queue_holds c k q g" for g
      proof (cases "g = f")
        case True
        with taken step assms(4) TakeNext show ?thesis by (auto simp: pubqueue_step_def split: if_splits)
      next
        case False
        with that holds_unique [OF assms(1) that taken(1)] taken step assms(4) TakeNext show ?thesis
          by (auto simp: pubqueue_step_def removeFile_holds split: if_splits)
      qed
      moreover have "pubqueue_ok c k q'" using removeFile_ok [OF assms(3)] taken step assms(4) TakeNext by (auto simp: pubqueue_step_def split: if_splits)
      ultimately show ?thesis by blast
    qed
  qed
  then show "pubqueue_ok c k q'" "\<forall>g. queue_holds c k q g \<longrightarrow> queue_holds c k q' g \<or> out = Some g" by blast+
qed

lemma queue_run:
  assumes "key_ok k" "hash_ok c" "pubqueue_ok c k q"
  shows "pubqueue_ok c k (run_states (pubqueue_step c k) q events) \<and>
    (queue_holds c k q f \<longrightarrow> queue_holds c k (run_states (pubqueue_step c k) q events) f \<or> Some f \<in> set (answers (pubqueue_step c k) q events))"
  using assms(3)
proof (induction events arbitrary: q)
  case (Cons event events)
  obtain q' out where step: "pubqueue_step c k q event = (q', out)" by (rule prod.exhaust)
  note effect = pubqueue_step_effect [OF assms(1,2) Cons.prems step]
  from Cons.IH [OF effect(1)] effect(2) step show ?case by auto
qed simp

section \<open>Draining\<close>

definition calm :: disk where
  "calm = \<lparr>dk_list = True, dk_stat = (\<lambda>_. True), dk_read = (\<lambda>_. True), dk_write = (\<lambda>_. True), dk_remove = True, dk_sync = True\<rparr>"

lemma removeFile_count:
  assumes "pubqueue_ok c k q" "name \<in> set (listLocked q)"
  shows "countLocked q = Suc (countLocked (removeFile q name))"
proof -
  have d: "distinct (listLocked q)" "distinct (listLocked (removeFile q name))"
    using assms(1) removeFile_ok [OF assms(1)] by (simp_all add: listLocked_def pubqueue_ok_def)
  have "set (listLocked (removeFile q name)) = set (listLocked q) - {name}" by (auto simp: listLocked_def removeFile_def)
  then show ?thesis
    using d assms(2) by (metis List.finite_set card_Suc_Diff1 countLocked_def distinct_card)
qed

lemma queue_drains:
  assumes "key_ok k" "hash_ok c"
  shows "pubqueue_ok c k q \<Longrightarrow> countLocked q = n \<Longrightarrow>
    \<exists>fs. answers (pubqueue_step c k) q (replicate n (TakeNext calm)) = map Some fs \<and> distinct fs \<and> set fs = {f. queue_holds c k q f}"
proof (induction n arbitrary: q)
  case 0
  then have "\<not> queue_holds c k q f" for f using holds_listed [of c k q f] by (auto simp: countLocked_def)
  then show ?case by simp
next
  case (Suc n)
  obtain q1 r where step: "publish_Next c k calm q = (q1, r)" by (rule prod.exhaust)
  from assms(1) Suc.prems(1) step show ?case
  proof (cases rule: publish_Next_effect)
    case (same e)
    then have "\<forall>f. \<not> queue_holds c k q f" by (simp add: calm_def)
    moreover have "\<exists>name. name \<in> set (listLocked q)" using Suc.prems(2) by (cases "listLocked q") (auto simp: countLocked_def)
    ultimately show ?thesis using listed_held [OF Suc.prems(1)] by blast
  next
    case (taken f)
    with step have step': "pubqueue_step c k q (TakeNext calm) = (q1, Some f)" by (simp add: pubqueue_step_def calm_def)
    have "countLocked q1 = n" using removeFile_count [OF Suc.prems(1) holds_listed [OF taken(1)]] taken(2) Suc.prems(2) by simp
    with Suc.IH removeFile_ok [OF Suc.prems(1)] taken(2) obtain fs where
      fs: "answers (pubqueue_step c k) q1 (replicate n (TakeNext calm)) = map Some fs" "distinct fs" "set fs = {f. queue_holds c k q1 f}" by blast
    have "queue_holds c k q1 g \<longleftrightarrow> queue_holds c k q g \<and> g \<noteq> f" for g
      using taken(1,2) holds_unique [OF assms(1) _ taken(1)] by (auto simp: removeFile_holds)
    with fs step' taken(1) show ?thesis by (intro exI [of _ "f # fs"]) auto
  qed
qed

section \<open>Properties\<close>

text \<open>
  C33: An object submitted is an object handed out. When a submission succeeds, each of its fragments, all of one size and
  none of them equal to the empty payload that means cover, is in the queue; through any further submissions and takings,
  whatever the disk refuses, each stays there until it is the one handed out; the queue never holds more than its limit. A
  queue that is emptied on a working disk hands out every fragment it holds exactly once, and the payloads of the object
  among them, in whatever order they come, put together give the object.
\<close>

theorem submitted_object_is_handed_out:
  assumes "key_ok k" "hash_ok c" "pubqueue_ok c k q" "Submit c k dk q object publisher = (q1, Inr ())"
    and "q2 = run_states (pubqueue_step c k) q1 events"
  shows "\<exists>fragments. fragmentObject c (sha256 c object) object = Inr fragments \<and>
    (\<forall>f \<in> set fragments. length (fg_Payload f) = FragmentSize \<and> fg_Payload f \<noteq> replicate FragmentSize 0 \<and>
       (queue_holds c k q2 f \<or> Some f \<in> set (answers (pubqueue_step c k) q1 events))) \<and> countLocked q2 \<le> pq_maxFragments q2 \<and>
    (\<exists>fs. answers (pubqueue_step c k) q1 (replicate (countLocked q1) (TakeNext calm)) = map Some fs \<and> distinct fs \<and>
       set fs = {f. queue_holds c k q1 f} \<and> reassemble (map fg_Payload (filter (\<lambda>f. f \<in> set fragments) fs)) = object)"
proof -
  note stored = Submit_effect [OF assms(1-4)]
  from stored(3) obtain fragments where fragments: "fragmentObject c (sha256 c object) object = Inr fragments" "object \<noteq> []" "length object \<le> MaximumObjectBytes"
    and held: "\<forall>f \<in> set fragments. queue_holds c k q1 f" by blast
  have root: "length (sha256 c object) = 32" using assms(2) by (simp add: hash_ok_def)
  note run = queue_run [OF assms(1,2) stored(1), of events]
  obtain fs where fs: "answers (pubqueue_step c k) q1 (replicate (countLocked q1) (TakeNext calm)) = map Some fs" "distinct fs" "set fs = {f. queue_holds c k q1 f}"
    using queue_drains [OF assms(1,2) stored(1) refl] by blast
  have "mset (filter (\<lambda>f. f \<in> set fragments) fs) = mset fragments"
    using fs(2,3) held fragmentObject_ok(2) [OF fragments assms(2)] by (subst set_eq_iff_mset_eq_distinct [symmetric]) auto
  then have "reassemble (map fg_Payload (filter (\<lambda>f. f \<in> set fragments) fs)) = object"
    by (intro reassemble_any_order [OF fragments root]) simp
  moreover have "\<forall>f \<in> set fragments. length (fg_Payload f) = FragmentSize \<and> fg_Payload f \<noteq> replicate FragmentSize 0 \<and>
       (queue_holds c k q2 f \<or> Some f \<in> set (answers (pubqueue_step c k) q1 events))"
    using fragment_payloads(1) [OF fragments root] run held unfolding assms(5) by blast
  moreover have "countLocked q2 \<le> pq_maxFragments q2" using run unfolding assms(5) by (simp add: pubqueue_ok_def)
  ultimately show ?thesis using fragments(1) fs by blast
qed

definition sample_pubqueue :: pubqueue where
  "sample_pubqueue = \<lparr>pq_maxFragments = 4, pq_key = replicate 32 1, pq_files = []\<rparr>"

lemma sample_pubqueue_ok: "pubqueue_ok c k sample_pubqueue"
  by (simp add: pubqueue_ok_def sample_pubqueue_def countLocked_def listLocked_def)

lemma sample_Submit: "\<exists>q1. Submit sample_crypto sample_key_lib calm sample_pubqueue [1, 2, 3] (replicate 32 0) = (q1, Inr ())"
  by (simp add: Submit_def fragmentObject_def fragment_sizes MaximumObjectBytes_def publicKeySize_def calm_def countLocked_def listLocked_def
      sample_pubqueue_def writeOrCompare_def existingFragments_def)

theorem submitted_object_is_handed_out_witness:
  "\<exists>q1 fs. Submit sample_crypto sample_key_lib calm sample_pubqueue [1, 2, 3] (replicate 32 0) = (q1, Inr ()) \<and>
     answers (pubqueue_step sample_crypto sample_key_lib) q1 (replicate (countLocked q1) (TakeNext calm)) = map Some fs \<and>
     (\<exists>gs. set gs \<subseteq> set fs \<and> reassemble (map fg_Payload gs) = [1, 2, 3])"
proof -
  obtain q1 where q1: "Submit sample_crypto sample_key_lib calm sample_pubqueue [1, 2, 3] (replicate 32 0) = (q1, Inr ())"
    using sample_Submit by blast
  from submitted_object_is_handed_out [OF sample_key_lib_ok sample_hash_ok sample_pubqueue_ok q1 refl, of "[]"]
  obtain fragments fs where "answers (pubqueue_step sample_crypto sample_key_lib) q1 (replicate (countLocked q1) (TakeNext calm)) = map Some fs"
    "reassemble (map fg_Payload (filter (\<lambda>f. f \<in> set fragments) fs)) = [1, 2, 3]" by blast
  with q1 show ?thesis by (metis filter_is_subset)
qed

text \<open>
  Two ways work is lost or stuck. A name that does not decode is refused but, unlike a corrupt entry, never removed, so that
  when it sorts first nothing behind it is ever handed out; and when only the flush after a removal fails, the fragment is
  gone from the directory and returned beside an error, which the caller takes for no fragment.
\<close>

lemma malformed_name_blocks:
  assumes "listLocked q = name # rest" "hex_DecodeString (take (length name - length ''.fragment'') name) = None"
  shows "fst (publish_Next c k dk q) = q \<and> (\<forall>f. snd (publish_Next c k dk q) \<noteq> Inr f)"
  using assms by (simp add: publish_Next_def)

lemma unsynced_fragment_gone:
  assumes "key_ok k" "pubqueue_ok c k q" "dk_list dk" "dk_read dk 0" "dk_remove dk" "\<not> dk_sync dk" "queue_holds c k q f" "countLocked q = 1"
  shows "publish_Next c k dk q = (removeFile q (pathFor (fg_ID f)), Inl (NotSynced (Some f)))"
proof -
  obtain q' r where step: "publish_Next c k dk q = (q', r)" by (rule prod.exhaust)
  from assms(1,2) step show ?thesis
  proof (cases rule: publish_Next_effect)
    case (same e)
    with assms(3-5,7) show ?thesis by blast
  next
    case (taken g)
    have "set (listLocked q) = {pathFor (fg_ID f)}"
      using holds_listed [OF assms(7)] assms(8) by (cases "listLocked q") (auto simp: countLocked_def)
    then have "g = f" using holds_listed [OF taken(1)] holds_unique [OF assms(1) taken(1) assms(7)] by simp
    with taken step assms(6) show ?thesis by simp
  qed
qed

end
