(* ===== verification/Drain.thy ===== *)
theory Drain
  imports Airlock PublishQueue
begin

text \<open>
  \<^verbatim>\<open>live/deposit/drain.go\<close> and \<^verbatim>\<open>ingress.go\<close>: the publisher's side, which turns a queue into a stream of cells at a fixed
  cadence, and the entry operator's side, which opens cells into the airlock. The filling goroutine and the emitting
  caller meet in a buffer of one slot; the model keeps the fragment the goroutine holds while the buffer is full, and
  lets it put that fragment into the buffer while a cell is being emitted (\<open>putting\<close>). An instant stands for each reading of the clock.
\<close>

section \<open>The publisher\<close>

record drain =
  dr_schedule :: Schedule
  dr_ready :: "Fragment option"
  dr_hand :: "Fragment option"
  dr_work :: nat
  dr_cover :: nat
  dr_deferred :: nat
  dr_lastSequence :: u64
  dr_quotaEpoch :: u64
  dr_quotaSpent :: nat

datatype drain_error = DrainSchedule schedule_error | PollNotPositive | SequenceZero | SequenceReused | SealFailed uplink_error

definition NewDrain :: "Schedule \<Rightarrow> duration64 \<Rightarrow> drain_error + drain" where
  "NewDrain schedule poll =
     andThen (map_sum DrainSchedule id (Schedule_Validate schedule)) (\<lambda>_.
     andThen (require (0 < ns poll) PollNotPositive) (\<lambda>_.
     Inr \<lparr>dr_schedule = schedule, dr_ready = None, dr_hand = None, dr_work = 0, dr_cover = 0, dr_deferred = 0,
          dr_lastSequence = 0, dr_quotaEpoch = 0, dr_quotaSpent = 0\<rparr>))"

definition windowState :: "drain \<Rightarrow> instant \<Rightarrow> u64 \<times> bool" where
  "windowState d now =
     (case EpochAt (dr_schedule d) now of
        Inl _ \<Rightarrow> (0, False)
      | Inr epoch \<Rightarrow>
          (case DepositWindow (dr_schedule d) epoch of
             Inl _ \<Rightarrow> (0, False)
           | Inr (opens, closes) \<Rightarrow> (epoch, \<not> now < opens \<and> now < closes)))"

definition quotaRemaining :: "drain \<Rightarrow> u64 \<Rightarrow> bool" where
  "quotaRemaining d epoch \<longleftrightarrow>
     dr_quotaEpoch d \<noteq> epoch \<or> int (dr_quotaSpent d) < ns (sch_MaxDepositsPerSession (dr_schedule d))"

definition spendDepositSlot :: "drain \<Rightarrow> u64 \<Rightarrow> drain" where
  "spendDepositSlot d epoch =
     (let d' = (if dr_quotaEpoch d \<noteq> epoch then d\<lparr>dr_quotaEpoch := epoch, dr_quotaSpent := 0\<rparr> else d)
      in d'\<lparr>dr_quotaSpent := dr_quotaSpent d' + 1\<rparr>)"

text \<open>
  The filling goroutine: one pass over the queue when its tick comes, and the blocking send that follows. While it holds a
  fragment it takes no other.
\<close>

definition fillTake :: "drain \<Rightarrow> instant \<Rightarrow> Fragment option \<Rightarrow> drain" where
  "fillTake d now next_fragment =
     (if dr_hand d \<noteq> None \<or> \<not> snd (windowState d now) then d else d\<lparr>dr_hand := next_fragment\<rparr>)"

definition fillPut :: "drain \<Rightarrow> drain" where
  "fillPut d = (if dr_ready d = None then d\<lparr>dr_ready := dr_hand d, dr_hand := None\<rparr> else d)"

definition drain_reserve :: "drain \<Rightarrow> u64 \<Rightarrow> drain \<times> (drain_error + unit)" where
  "drain_reserve d sequence =
     (if sequence = 0 then (d, Inl SequenceZero)
      else if dr_lastSequence d \<noteq> 0 \<and> sequence \<le> dr_lastSequence d then (d, Inl SequenceReused)
      else (d\<lparr>dr_lastSequence := sequence\<rparr>, Inr ()))"

datatype emissionKind = emissionWork | emissionCover | emissionDeferred

definition drain_count :: "drain \<Rightarrow> emissionKind \<Rightarrow> drain" where
  "drain_count d kind =
     (case kind of
        emissionWork \<Rightarrow> d\<lparr>dr_work := dr_work d + 1\<rparr>
      | emissionDeferred \<Rightarrow> d\<lparr>dr_deferred := dr_deferred d + 1, dr_cover := dr_cover d + 1\<rparr>
      | emissionCover \<Rightarrow> d\<lparr>dr_cover := dr_cover d + 1\<rparr>)"

definition emitWork ::
    "crypto \<Rightarrow> key_lib \<Rightarrow> encryption \<Rightarrow> Session \<Rightarrow> bool \<Rightarrow> u64 \<Rightarrow> u64 \<Rightarrow> Fragment \<Rightarrow> drain \<Rightarrow> drain \<times> (drain_error + bytes)" where
  "emitWork c k encrypt session putting epoch sequence fragment d =
     (let received = d\<lparr>dr_ready := None\<rparr>; d1 = (if putting then fillPut received else received) in
      case SealWork c k encrypt session sequence (fg_Payload fragment) of
        Inl e \<Rightarrow> (if dr_ready d1 = None then d1\<lparr>dr_ready := Some fragment\<rparr> else d1, Inl (SealFailed e))
      | Inr cell \<Rightarrow> (spendDepositSlot (drain_count d1 emissionWork) epoch, Inr cell))"

definition emitCover ::
    "crypto \<Rightarrow> key_lib \<Rightarrow> encryption \<Rightarrow> Session \<Rightarrow> bool \<Rightarrow> u64 \<Rightarrow> bool \<Rightarrow> u64 \<Rightarrow> drain \<Rightarrow> drain \<times> (drain_error + bytes)" where
  "emitCover c k encrypt session putting epoch opened sequence d =
     (let d1 = (if putting then fillPut d else d) in
      case SealCover c k encrypt session sequence of
        Inl e \<Rightarrow> (d1, Inl (SealFailed e))
      | Inr cell \<Rightarrow>
          (let kind = (if (\<not> opened \<or> \<not> quotaRemaining d1 epoch) \<and> dr_ready d1 \<noteq> None then emissionDeferred else emissionCover);
               d2 = drain_count d1 kind
           in (if opened then spendDepositSlot d2 epoch else d2, Inr cell)))"

definition Emit ::
    "crypto \<Rightarrow> key_lib \<Rightarrow> encryption \<Rightarrow> Session \<Rightarrow> bool \<Rightarrow> drain \<Rightarrow> u64 \<Rightarrow> instant \<Rightarrow> drain \<times> (drain_error + bytes)" where
  "Emit c k encrypt session putting d sequence now =
     (case drain_reserve d sequence of
        (d0, Inl e) \<Rightarrow> (d0, Inl e)
      | (d0, Inr _) \<Rightarrow>
          (case windowState d0 now of (epoch, opened) \<Rightarrow>
             (case (if opened \<and> quotaRemaining d0 epoch then dr_ready d0 else None) of
                Some fragment \<Rightarrow> emitWork c k encrypt session putting epoch sequence fragment d0
              | None \<Rightarrow> emitCover c k encrypt session putting epoch opened sequence d0)))"

section \<open>The entry operator\<close>

datatype ingress_error = CellRefused | NotForThisEpoch | DepositError airlock_error

definition Ingress_Accept ::
    "crypto \<Rightarrow> key_lib \<Rightarrow> ('committee, 'batch) mix_lib \<Rightarrow> Session \<Rightarrow> bytes \<Rightarrow> airlock \<Rightarrow> bytes \<Rightarrow> instant \<Rightarrow>
      airlock \<times> (ingress_error + unit)" where
  "Ingress_Accept c k mx session sessionID a cell now =
     (case Session_Open c k session cell of
        Inl _ \<Rightarrow> (a, Inl CellRefused)
      | Inr (sequence, inner) \<Rightarrow>
          (case Deposit c mx a sessionID sequence inner now of
             (a', Inl e) \<Rightarrow> (a', Inl (if e = WindowClosed \<or> e = AlreadySealed then NotForThisEpoch else DepositError e))
           | (a', Inr _) \<Rightarrow> (a', Inr ())))"

section \<open>Emitting\<close>

text \<open>The fragment a tick carries, if any.\<close>

definition tick_carries :: "drain \<Rightarrow> instant \<Rightarrow> Fragment option" where
  "tick_carries d now = (case windowState d now of (epoch, opened) \<Rightarrow> if opened \<and> quotaRemaining d epoch then dr_ready d else None)"

lemma reserved_same [simp]:
  "windowState (d\<lparr>dr_lastSequence := n\<rparr>) now = windowState d now" "quotaRemaining (d\<lparr>dr_lastSequence := n\<rparr>) epoch = quotaRemaining d epoch"
  by (simp_all add: windowState_def quotaRemaining_def split: sum.split)

lemma Emit_fresh:
  assumes "sequence \<noteq> 0" "dr_lastSequence d < sequence"
  shows "Emit c k encrypt session putting d sequence now =
    (case tick_carries d now of
       Some fragment \<Rightarrow> emitWork c k encrypt session putting (fst (windowState d now)) sequence fragment (d\<lparr>dr_lastSequence := sequence\<rparr>)
     | None \<Rightarrow> emitCover c k encrypt session putting (fst (windowState d now)) (snd (windowState d now)) sequence (d\<lparr>dr_lastSequence := sequence\<rparr>))"
  using assms by (auto simp: Emit_def drain_reserve_def tick_carries_def not_le split: prod.split option.split)

lemma Emit_stale:
  "\<not> (sequence \<noteq> 0 \<and> (dr_lastSequence d = 0 \<or> dr_lastSequence d < sequence)) \<Longrightarrow> \<exists>e. Emit c k encrypt session putting d sequence now = (d, Inl e)"
  by (auto simp: Emit_def drain_reserve_def not_le)

lemma spend_count_fields [simp]:
  "dr_lastSequence (spendDepositSlot d epoch) = dr_lastSequence d" "dr_schedule (spendDepositSlot d epoch) = dr_schedule d"
  "dr_lastSequence (drain_count d kind) = dr_lastSequence d" "dr_schedule (drain_count d kind) = dr_schedule d"
  "dr_quotaEpoch (drain_count d kind) = dr_quotaEpoch d" "dr_quotaSpent (drain_count d kind) = dr_quotaSpent d"
  "dr_lastSequence (fillPut d) = dr_lastSequence d" "dr_schedule (fillPut d) = dr_schedule d"
  "dr_quotaEpoch (fillPut d) = dr_quotaEpoch d" "dr_quotaSpent (fillPut d) = dr_quotaSpent d"
  by (simp_all add: spendDepositSlot_def drain_count_def fillPut_def Let_def split: emissionKind.split)

lemma Emit_lastSequence:
  assumes "Emit c k encrypt session putting d sequence now = (d', r)"
  shows "(\<exists>e. r = Inl e \<and> d' = d) \<or>
    sequence \<noteq> 0 \<and> (dr_lastSequence d = 0 \<or> dr_lastSequence d < sequence) \<and> dr_lastSequence d' = sequence \<and> dr_schedule d' = dr_schedule d"
proof (cases "sequence \<noteq> 0 \<and> (dr_lastSequence d = 0 \<or> dr_lastSequence d < sequence)")
  case True
  then have "dr_lastSequence d < sequence" by (auto simp: word_neq_0_conv)
  with True Emit_fresh [of sequence d c k encrypt session putting now] assms have
    "(case tick_carries d now of
       Some fragment \<Rightarrow> emitWork c k encrypt session putting (fst (windowState d now)) sequence fragment (d\<lparr>dr_lastSequence := sequence\<rparr>)
     | None \<Rightarrow> emitCover c k encrypt session putting (fst (windowState d now)) (snd (windowState d now)) sequence (d\<lparr>dr_lastSequence := sequence\<rparr>)) = (d', r)" by simp
  then have "dr_lastSequence d' = sequence \<and> dr_schedule d' = dr_schedule d"
    by (auto simp: emitWork_def emitCover_def Let_def split: sum.splits option.splits if_splits)
  with True show ?thesis by blast
next
  case False
  with Emit_stale [OF False, of c k encrypt session putting now] assms show ?thesis by auto
qed

text \<open>
  A fragment whose sealing fails is put back only when the buffer is still empty. When the filling goroutine waits with the
  next fragment, the receive lets that one in at once, and the fragment taken is in neither place afterwards.
\<close>

lemma failed_seal_loses_fragment:
  assumes "sequence \<noteq> 0" "dr_lastSequence d < sequence" "tick_carries d now = Some fragment" "dr_hand d = Some waiting" "waiting \<noteq> fragment"
    and "SealWork c k encrypt session sequence (fg_Payload fragment) = Inl e"
    and "Emit c k encrypt session True d sequence now = (d', r)"
  shows "r = Inl (SealFailed e) \<and> dr_ready d' = Some waiting \<and> dr_hand d' = None"
  using assms(7) unfolding Emit_fresh [OF assms(1,2)] assms(3) by (auto simp: emitWork_def fillPut_def assms(4,6) Let_def)

section \<open>Any run of a publisher\<close>

text \<open>
  A run from a fresh drain, with the fragments the goroutine took off the queue and the cells that left: their numbers,
  what they carry, and their bytes. \<open>encryptions\<close> are the outcomes the committee's encryption may have.
\<close>

definition opt_list :: "'a option \<Rightarrow> 'a list" where
  "opt_list x = (case x of None \<Rightarrow> [] | Some v \<Rightarrow> [v])"

lemma opt_list_simps [simp]: "opt_list None = []" "opt_list (Some v) = [v]"
  by (simp_all add: opt_list_def)

inductive drain_run ::
    "encryption set \<Rightarrow> crypto \<Rightarrow> key_lib \<Rightarrow> Session \<Rightarrow> drain \<Rightarrow> drain \<Rightarrow> Fragment list \<Rightarrow> (u64 \<times> Fragment option \<times> bytes) list \<Rightarrow> bool"
  for encryptions c k session d0 where
  start: "drain_run encryptions c k session d0 d0 [] []"
| fill: "drain_run encryptions c k session d0 d taken sent \<Longrightarrow>
    drain_run encryptions c k session d0 (fillTake d now fragment)
      (taken @ (if dr_hand d = None \<and> snd (windowState d now) then opt_list fragment else [])) sent"
| put: "drain_run encryptions c k session d0 d taken sent \<Longrightarrow> drain_run encryptions c k session d0 (fillPut d) taken sent"
| emit: "drain_run encryptions c k session d0 d taken sent \<Longrightarrow> encrypt \<in> encryptions \<Longrightarrow>
    Emit c k encrypt session putting d sequence now = (d', r) \<Longrightarrow>
    drain_run encryptions c k session d0 d' taken (sent @ (case r of Inl _ \<Rightarrow> [] | Inr cell \<Rightarrow> [(sequence, tick_carries d now, cell)]))"

definition encrypts :: "encryption \<Rightarrow> Session \<Rightarrow> bool" where
  "encrypts encrypt session \<longleftrightarrow> wire_sized encrypt \<and> (\<forall>payload. encrypt (ss_committee session) payload \<noteq> None)"

text \<open>With a working encryption every fresh number gives a cell, and the fragments move in order.\<close>

lemma Emit_carries:
  assumes "key_ok k" "encrypts encrypt session" "sequence \<noteq> 0" "dr_lastSequence d < sequence" "Emit c k encrypt session putting d sequence now = (d', r)"
  obtains cell where "r = Inr cell" "length cell = fabric_CellSize" "dr_lastSequence d' = sequence"
    "(case tick_carries d now of Some fragment \<Rightarrow> SealWork c k encrypt session sequence (fg_Payload fragment) | None \<Rightarrow> SealCover c k encrypt session sequence) = Inr cell"
    "opt_list (tick_carries d now) @ opt_list (dr_ready d') @ opt_list (dr_hand d') = opt_list (dr_ready d) @ opt_list (dr_hand d)"
proof -
  define payload where "payload = (case tick_carries d now of Some fragment \<Rightarrow> fg_Payload fragment | None \<Rightarrow> replicate PayloadSize 0)"
  from assms(2) obtain wire where wire: "encrypt (ss_committee session) payload = Some wire" by (auto simp: encrypts_def)
  moreover have sized: "wire_sized encrypt" using assms(2) by (simp add: encrypts_def)
  ultimately have "length wire = fabric_CellSize" by (simp add: wire_sized_def)
  from Session_seal_returns [where encrypt = encrypt and session = session and payload = payload, OF assms(1,3) wire this] obtain cell where cell: "Session_seal c k encrypt session sequence payload = Inr cell" by blast
  then have size: "length cell = fabric_CellSize" using Session_seal_opens [OF assms(1) cell sized] by blast
  from cell have sealed: "(case tick_carries d now of Some fragment \<Rightarrow> SealWork c k encrypt session sequence (fg_Payload fragment) | None \<Rightarrow> SealCover c k encrypt session sequence) = Inr cell"
    by (simp add: payload_def SealWork_def SealCover_def split: option.splits)
  have some: "dr_ready d = tick_carries d now" if "tick_carries d now \<noteq> None" using that by (auto simp: tick_carries_def split: prod.splits if_splits)
  have "r = Inr cell \<and> dr_lastSequence d' = sequence \<and>
    opt_list (tick_carries d now) @ opt_list (dr_ready d') @ opt_list (dr_hand d') = opt_list (dr_ready d) @ opt_list (dr_hand d)"
    using assms(5) sealed some unfolding Emit_fresh [OF assms(3,4)]
    by (auto simp: emitWork_def emitCover_def fillPut_def Let_def spendDepositSlot_def drain_count_def split: option.splits if_splits emissionKind.splits)
  with size sealed show ?thesis using that by blast
qed

definition drain_traced :: "drain \<Rightarrow> Fragment list \<Rightarrow> (u64 \<times> Fragment option \<times> bytes) list \<Rightarrow> bool" where
  "drain_traced d taken sent \<longleftrightarrow> sorted_wrt (<) (0 # map fst sent) \<and> dr_lastSequence d = last (0 # map fst sent) \<and>
     taken = concat (map (opt_list \<circ> fst \<circ> snd) sent) @ opt_list (dr_ready d) @ opt_list (dr_hand d)"

lemma sorted_wrt_last: "sorted_wrt (<) xs \<Longrightarrow> xs \<noteq> [] \<Longrightarrow> sorted_wrt (<) (xs @ [x]) \<longleftrightarrow> last xs < x" for xs :: "u64 list"
  by (induction xs rule: rev_induct) (auto simp: sorted_wrt_append dest: less_trans)

lemma drain_run_traced:
  assumes "drain_run encryptions c k session d0 d taken sent" "key_ok k" "\<forall>encrypt \<in> encryptions. encrypts encrypt session"
    and "dr_lastSequence d0 = 0" "dr_ready d0 = None" "dr_hand d0 = None"
  shows "drain_traced d taken sent \<and> dr_schedule d = dr_schedule d0 \<and>
    (\<forall>(sequence, work, cell) \<in> set sent. length cell = fabric_CellSize \<and> (\<exists>encrypt \<in> encryptions.
      (case work of Some fragment \<Rightarrow> SealWork c k encrypt session sequence (fg_Payload fragment) | None \<Rightarrow> SealCover c k encrypt session sequence) = Inr cell))"
  using assms(1)
proof induction
  case start
  then show ?case using assms(4-6) by (simp add: drain_traced_def)
next
  case (fill d taken sent now fragment)
  then show ?case by (auto simp: drain_traced_def fillTake_def)
next
  case (put d taken sent)
  then show ?case by (auto simp: drain_traced_def fillPut_def)
next
  case (emit d taken sent encrypt putting sequence now d' r)
  show ?case
  proof (cases "sequence \<noteq> 0 \<and> (dr_lastSequence d = 0 \<or> dr_lastSequence d < sequence)")
    case False
    then have "d' = d" "\<exists>e. r = Inl e" using Emit_stale [OF False, of c k encrypt session putting now] emit.hyps(3) by auto
    with emit.IH show ?thesis by auto
  next
    case True
    then have fresh: "sequence \<noteq> 0" "dr_lastSequence d < sequence" by (auto simp: word_neq_0_conv)
    have works: "encrypts encrypt session" using assms(3) emit.hyps(2) by blast
    from Emit_carries [OF assms(2) works fresh emit.hyps(3)] obtain cell where cell: "r = Inr cell" "length cell = fabric_CellSize" "dr_lastSequence d' = sequence"
      "(case tick_carries d now of Some fragment \<Rightarrow> SealWork c k encrypt session sequence (fg_Payload fragment) | None \<Rightarrow> SealCover c k encrypt session sequence) = Inr cell"
      "opt_list (tick_carries d now) @ opt_list (dr_ready d') @ opt_list (dr_hand d') = opt_list (dr_ready d) @ opt_list (dr_hand d)" by metis
    have "sorted_wrt (<) ((0 # map fst sent) @ [sequence])"
      using emit.IH fresh(2) by (subst sorted_wrt_last) (simp_all add: drain_traced_def)
    with emit.IH cell have "drain_traced d' taken (sent @ [(sequence, tick_carries d now, cell)])" by (simp add: drain_traced_def)
    moreover have "dr_schedule d' = dr_schedule d" using Emit_lastSequence [OF emit.hyps(3)] by auto
    moreover have "\<exists>encrypt \<in> encryptions. (case tick_carries d now of Some fragment \<Rightarrow> SealWork c k encrypt session sequence (fg_Payload fragment)
        | None \<Rightarrow> SealCover c k encrypt session sequence) = Inr cell" using cell(4) emit.hyps(2) by blast
    ultimately show ?thesis using emit.IH cell(1,2) by auto
  qed
qed

text \<open>
  C34: A publisher's stream of cells does not depend on its work. From a new drain, while the committee's encryption works and
  however the filling goroutine interleaves, every cell that leaves has the one size, under numbers that only rise; each
  is the sealing of a payload of a fragment or of cover under its number; the fragments taken off the queue leave in their
  order, each in exactly one cell, apart from at most two still held; and a tick with a fresh number always
  gives a cell, whatever the time, the window and the queue.
\<close>

theorem drain_emits_every_tick:
  assumes "NewDrain schedule poll = Inr d0" "key_ok k" "\<forall>encrypt \<in> encryptions. encrypts encrypt session"
    and "drain_run encryptions c k session d0 d taken sent"
  shows "sorted_wrt (<) (map fst sent) \<and> 0 \<notin> set (map fst sent) \<and>
    taken = concat (map (opt_list \<circ> fst \<circ> snd) sent) @ opt_list (dr_ready d) @ opt_list (dr_hand d) \<and>
    (\<forall>(sequence, work, cell) \<in> set sent. length cell = fabric_CellSize \<and> (\<exists>encrypt \<in> encryptions.
      (case work of Some fragment \<Rightarrow> SealWork c k encrypt session sequence (fg_Payload fragment) | None \<Rightarrow> SealCover c k encrypt session sequence) = Inr cell)) \<and>
    (\<forall>sequence encrypt putting now. sequence \<noteq> 0 \<and> encrypt \<in> encryptions \<and> (\<forall>used \<in> set (map fst sent). used < sequence) \<longrightarrow>
      (\<exists>cell. snd (Emit c k encrypt session putting d sequence now) = Inr cell \<and> length cell = fabric_CellSize))"
proof -
  from assms(1) have "dr_lastSequence d0 = 0" "dr_ready d0 = None" "dr_hand d0 = None" by (auto simp: NewDrain_def guard_simps)
  note run = drain_run_traced [OF assms(4,2,3) this]
  then have traced: "drain_traced d taken sent" by blast
  have "\<exists>cell. snd (Emit c k encrypt session putting d sequence now) = Inr cell \<and> length cell = fabric_CellSize"
    if "sequence \<noteq> 0" "encrypt \<in> encryptions" "\<forall>used \<in> set (map fst sent). used < sequence" for sequence encrypt putting now
  proof -
    have "dr_lastSequence d \<in> insert 0 (set (map fst sent))" using traced unfolding drain_traced_def by (metis last_in_set list.distinct(1) list.simps(15))
    with that have "dr_lastSequence d < sequence" by (auto simp: word_neq_0_conv)
    moreover obtain d' r where "Emit c k encrypt session putting d sequence now = (d', r)" by (rule prod.exhaust)
    ultimately show ?thesis using Emit_carries [OF assms(2) _ that(1)] assms(3) that(2) by (metis snd_conv)
  qed
  moreover have "sorted_wrt (<) (map fst sent)" "0 \<notin> set (map fst sent)" using traced by (auto simp: drain_traced_def)
  ultimately show ?thesis using run traced unfolding drain_traced_def by blast
qed

section \<open>A publisher and its airlock\<close>

lemma window_epoch:
  assumes "Schedule_Validate (dr_schedule d) = Inr ()" "DepositWindow (dr_schedule d) epoch = Inr (opens, closes)"
  shows "windowState d now = (epoch, True) \<longleftrightarrow> opens \<le> now \<and> now < closes"
proof -
  let ?s = "dr_schedule d"
  from assms have max: "epoch \<le> MaxEpoch ?s" by (auto simp: DepositWindow_def checkEpoch_def Let_def guard_simps)
  note b = boundaries [OF assms(1) max]
  have edges: "opens = sch_Genesis ?s + uint epoch * ns (sch_Period ?s)" "closes = opens + (ns (sch_Period ?s) - ns (sch_DepositCutoff ?s))"
    using assms b by (auto simp: DepositWindow_def Let_def guard_simps)
  have cutoff: "0 < ns (sch_DepositCutoff ?s)" using assms(1) by (simp add: Schedule_Validate_ok)
  have "EpochAt ?s now = Inr epoch" if "opens \<le> now" "now < closes"
    using that edges cutoff max unfolding EpochAt_iff [OF assms(1)] by (simp add: distrib_right)
  moreover have "windowState d now = (epoch, opens \<le> now \<and> now < closes)" if "EpochAt ?s now = Inr epoch"
    using that assms(2) by (auto simp: windowState_def not_less)
  moreover have "EpochAt ?s now = Inr epoch" if state: "windowState d now = (epoch, True)"
  proof (cases "EpochAt ?s now")
    case (Inr e)
    with state show ?thesis by (auto simp: windowState_def split: sum.splits)
  qed (use state in \<open>simp add: windowState_def\<close>)
  ultimately show ?thesis by auto
qed

lemma Emit_quota:
  assumes "Emit c k encrypt session putting d sequence now = (d', r)"
  shows "(dr_quotaEpoch d', dr_quotaSpent d') =
    (if (\<exists>cell. r = Inr cell) \<and> snd (windowState d now)
     then (fst (windowState d now), Suc (if dr_quotaEpoch d = fst (windowState d now) then dr_quotaSpent d else 0))
     else (dr_quotaEpoch d, dr_quotaSpent d))"
proof (cases "sequence \<noteq> 0 \<and> (dr_lastSequence d = 0 \<or> dr_lastSequence d < sequence)")
  case False
  then show ?thesis using Emit_stale [OF False, of c k encrypt session putting now] assms by auto
next
  case True
  then have "sequence \<noteq> 0" "dr_lastSequence d < sequence" by (auto simp: word_neq_0_conv)
  have "snd (windowState d now)" if "tick_carries d now \<noteq> None" using that by (auto simp: tick_carries_def split: prod.splits if_splits)
  with assms show ?thesis
    unfolding Emit_fresh [OF \<open>sequence \<noteq> 0\<close> \<open>dr_lastSequence d < sequence\<close>]
    by (auto simp: emitWork_def emitCover_def Let_def spendDepositSlot_def drain_count_def fillPut_def split: option.splits sum.splits if_splits emissionKind.splits)
qed

lemma Ingress_Accept_session:
  assumes "Ingress_Accept c k mx session sid a cell now = (a', r)"
  shows "al_sessions a' sid \<le> Suc (al_sessions a sid)" "\<not> (al_opens a \<le> now \<and> now < al_closes a) \<Longrightarrow> a' = a"
    "\<exists>sequence inner. a' = a \<or> a' = airlock_step c mx a (DepositAt sid sequence inner now)"
proof -
  consider (kept) "a' = a" | (offered) sequence inner where "a' = fst (Deposit c mx a sid sequence inner now)"
  proof (cases "Session_Open c k session cell")
    case (Inr opened)
    obtain sequence inner where "opened = (sequence, inner)" by (rule prod.exhaust)
    with Inr assms have "a' = fst (Deposit c mx a sid sequence inner now)" by (auto simp: Ingress_Accept_def split: prod.splits sum.splits)
    then show ?thesis by (rule that(2))
  qed (use assms that(1) in \<open>simp add: Ingress_Accept_def\<close>)
  then have "al_sessions a' sid \<le> Suc (al_sessions a sid) \<and> (\<not> (al_opens a \<le> now \<and> now < al_closes a) \<longrightarrow> a' = a) \<and>
    (\<exists>sequence inner. a' = a \<or> a' = airlock_step c mx a (DepositAt sid sequence inner now))"
  proof cases
    case (offered sequence inner)
    obtain r' where deposit: "Deposit c mx a sid sequence inner now = (a', r')" using offered by (metis prod.exhaust_sel)
    then have "al_sessions a' sid \<le> Suc (al_sessions a sid)" by (cases rule: Deposit_state) auto
    moreover have "a' = a" if "\<not> (al_opens a \<le> now \<and> now < al_closes a)"
    proof -
      from that have "now < al_opens a \<or> \<not> now < al_closes a" by auto
      then show ?thesis unfolding offered Deposit_def Let_def by (cases "al_sealed a") simp_all
    qed
    moreover have "a' = airlock_step c mx a (DepositAt sid sequence inner now)" using deposit by (simp add: airlock_step_def)
    ultimately show ?thesis by blast
  qed simp
  then show "al_sessions a' sid \<le> Suc (al_sessions a sid)" "\<not> (al_opens a \<le> now \<and> now < al_closes a) \<Longrightarrow> a' = a"
    "\<exists>sequence inner. a' = a \<or> a' = airlock_step c mx a (DepositAt sid sequence inner now)" by blast+
qed

text \<open>
  A publisher and the airlock of one release epoch, over a network that may delay, lose, reorder and repeat cells, while
  others deposit under their own sessions and the airlock may be sealed. Instants are of one clock, which does not go back.
  A run keeps what was sent (number, instant, fragment carried, cell) and what arrived (number, instants of sending and of arrival).
\<close>

type_synonym sent_cells = "(u64 \<times> instant \<times> Fragment option \<times> bytes) list"
type_synonym arrivals = "(u64 \<times> instant \<times> instant) list"

inductive joint_run ::
    "crypto \<Rightarrow> key_lib \<Rightarrow> ('committee, 'batch) mix_lib \<Rightarrow> Session \<Rightarrow> bytes \<Rightarrow> drain \<Rightarrow> airlock \<Rightarrow>
      drain \<Rightarrow> airlock \<Rightarrow> instant \<Rightarrow> sent_cells \<Rightarrow> arrivals \<Rightarrow> bool"
  for c k mx session sid d0 a0 where
  start: "joint_run c k mx session sid d0 a0 d0 a0 clock [] []"
| fill: "joint_run c k mx session sid d0 a0 d a clock sent arrived \<Longrightarrow> joint_run c k mx session sid d0 a0 (fillTake d now fragment) a clock sent arrived"
| put: "joint_run c k mx session sid d0 a0 d a clock sent arrived \<Longrightarrow> joint_run c k mx session sid d0 a0 (fillPut d) a clock sent arrived"
| refused: "joint_run c k mx session sid d0 a0 d a clock sent arrived \<Longrightarrow> Emit c k encrypt session putting d sequence now = (d', Inl e) \<Longrightarrow>
    joint_run c k mx session sid d0 a0 d' a clock sent arrived"
| emitted: "joint_run c k mx session sid d0 a0 d a clock sent arrived \<Longrightarrow> clock \<le> now \<Longrightarrow> wire_sized encrypt \<Longrightarrow>
    Emit c k encrypt session putting d sequence now = (d', Inr cell) \<Longrightarrow>
    joint_run c k mx session sid d0 a0 d' a now ((sequence, now, tick_carries d now, cell) # sent) arrived"
| arrives: "joint_run c k mx session sid d0 a0 d a clock sent arrived \<Longrightarrow> clock \<le> now \<Longrightarrow> (sequence, t, work, cell) \<in> set sent \<Longrightarrow>
    Ingress_Accept c k mx session sid a cell now = (a', r) \<Longrightarrow>
    joint_run c k mx session sid d0 a0 d a' now sent ((sequence, t, now) # arrived)"
| other: "joint_run c k mx session sid d0 a0 d a clock sent arrived \<Longrightarrow> another \<noteq> sid \<Longrightarrow>
    joint_run c k mx session sid d0 a0 d (airlock_step c mx a (DepositAt another number payload now)) clock sent arrived"
| closed: "joint_run c k mx session sid d0 a0 d a clock sent arrived \<Longrightarrow>
    joint_run c k mx session sid d0 a0 d (airlock_step c mx a (SealAt now draw padding)) clock sent arrived"

definition in_window :: "airlock \<Rightarrow> instant \<Rightarrow> bool" where
  "in_window a t \<longleftrightarrow> al_opens a \<le> t \<and> t < al_closes a"

definition window_numbers :: "airlock \<Rightarrow> sent_cells \<Rightarrow> u64 set" where
  "window_numbers a sent = {n. \<exists>t work cell. (n, t, work, cell) \<in> set sent \<and> in_window a t}"

definition cell_ok :: "crypto \<Rightarrow> key_lib \<Rightarrow> Session \<Rightarrow> u64 \<Rightarrow> instant \<Rightarrow> u64 \<times> instant \<times> Fragment option \<times> bytes \<Rightarrow> bool" where
  "cell_ok c k session highest clock = (\<lambda>(n, t, work, cell). n \<noteq> 0 \<and> n \<le> highest \<and> t \<le> clock \<and>
     (\<exists>encrypt payload. wire_sized encrypt \<and> Session_seal c k encrypt session n payload = Inr cell \<and>
        (\<forall>fragment. work = Some fragment \<longrightarrow> payload = fg_Payload fragment)))"

definition sent_ok :: "crypto \<Rightarrow> key_lib \<Rightarrow> Session \<Rightarrow> drain \<Rightarrow> instant \<Rightarrow> sent_cells \<Rightarrow> bool" where
  "sent_ok c k session d clock sent \<longleftrightarrow> (\<forall>x \<in> set sent. cell_ok c k session (dr_lastSequence d) clock x)"

text \<open>A fragment leaves only while the cells of its window number fewer than the session bound.\<close>

definition ranks_ok :: "airlock \<Rightarrow> sent_cells \<Rightarrow> bool" where
  "ranks_ok a sent \<longleftrightarrow> (\<forall>n t fragment cell. (n, t, Some fragment, cell) \<in> set sent \<longrightarrow> in_window a t \<longrightarrow>
     int (card {m \<in> window_numbers a sent. m < n}) < ns (sch_MaxDepositsPerSession (al_schedule a)))"

definition quota_linked :: "drain \<Rightarrow> airlock \<Rightarrow> instant \<Rightarrow> sent_cells \<Rightarrow> bool" where
  "quota_linked d a clock sent \<longleftrightarrow>
     (if dr_quotaEpoch d = al_epoch a then card (window_numbers a sent) \<le> dr_quotaSpent d \<and> (0 < dr_quotaSpent d \<longrightarrow> al_opens a \<le> clock)
      else window_numbers a sent = {} \<or> al_closes a \<le> clock)"

text \<open>What the airlock charged the session are numbers that arrived in the window, each once.\<close>

definition arrived_numbers :: "airlock \<Rightarrow> arrivals \<Rightarrow> u64 set" where
  "arrived_numbers a arrived = {n. \<exists>t w. (n, t, w) \<in> set arrived \<and> in_window a w}"

definition charged_ok :: "crypto \<Rightarrow> bytes \<Rightarrow> airlock \<Rightarrow> arrivals \<Rightarrow> bool" where
  "charged_ok c sid a arrived \<longleftrightarrow> (\<exists>D \<subseteq> arrived_numbers a arrived. al_sessions a sid \<le> card D \<and>
     (\<forall>n \<in> D. map_of (al_deposits a) (DepositID c sid n) \<noteq> None))"

definition arrivals_ok :: "sent_cells \<Rightarrow> arrivals \<Rightarrow> bool" where
  "arrivals_ok sent arrived \<longleftrightarrow> (\<forall>n t w. (n, t, w) \<in> set arrived \<longrightarrow> t \<le> w \<and> (\<exists>work cell. (n, t, work, cell) \<in> set sent))"

definition joint_inv :: "crypto \<Rightarrow> key_lib \<Rightarrow> ('committee, 'batch) mix_lib \<Rightarrow> Session \<Rightarrow> bytes \<Rightarrow> drain \<Rightarrow> airlock \<Rightarrow> instant \<Rightarrow> sent_cells \<Rightarrow> arrivals \<Rightarrow> bool" where
  "joint_inv c k mx session sid d a clock sent arrived \<longleftrightarrow> airlock_inv mx a \<and> dr_schedule d = al_schedule a \<and>
     sent_ok c k session d clock sent \<and> ranks_ok a sent \<and> quota_linked d a clock sent \<and> charged_ok c sid a arrived \<and> arrivals_ok sent arrived"

lemma window_numbers_Cons:
  "window_numbers a ((n, t, work, cell) # sent) = (if in_window a t then insert n (window_numbers a sent) else window_numbers a sent)"
  by (auto simp: window_numbers_def)

lemma finite_window_numbers [simp]: "finite (window_numbers a sent)"
  by (rule finite_subset [of _ "fst ` set sent"]) (force simp: window_numbers_def)+

lemma finite_arrived_numbers: "finite (arrived_numbers a arrived)"
  by (rule finite_subset [of _ "fst ` set arrived"]) (force simp: arrived_numbers_def)+

lemma cell_ok_later: "cell_ok c k session highest clock x \<Longrightarrow> highest \<le> highest' \<Longrightarrow> clock \<le> clock' \<Longrightarrow> cell_ok c k session highest' clock' x"
  by (cases x) (auto simp: cell_ok_def)

lemma sent_ok_later:
  "sent_ok c k session d clock sent \<Longrightarrow> dr_lastSequence d \<le> dr_lastSequence d' \<Longrightarrow> clock \<le> clock' \<Longrightarrow> sent_ok c k session d' clock' sent"
  using cell_ok_later by (fastforce simp: sent_ok_def)

lemma sent_ok_D:
  assumes "sent_ok c k session d clock sent" "(n, t, work, cell) \<in> set sent"
  shows "n \<noteq> 0" "n \<le> dr_lastSequence d" "t \<le> clock"
    "\<exists>encrypt payload. wire_sized encrypt \<and> Session_seal c k encrypt session n payload = Inr cell \<and>
       (\<forall>fragment. work = Some fragment \<longrightarrow> payload = fg_Payload fragment)"
  using bspec [OF assms(1) [unfolded sent_ok_def] assms(2)] unfolding cell_ok_def prod.case by blast+

lemma window_numbers_le: "sent_ok c k session d clock sent \<Longrightarrow> n \<in> window_numbers a sent \<Longrightarrow> n \<le> dr_lastSequence d"
  unfolding window_numbers_def using sent_ok_D(2) by blast

lemma joint_window: "joint_inv c k mx session sid d a clock sent arrived \<Longrightarrow> windowState d now = (al_epoch a, True) \<longleftrightarrow> in_window a now"
  unfolding in_window_def by (rule window_epoch) (simp_all add: joint_inv_def airlock_inv_def)

lemma grows_window:
  assumes "airlock_grows a a'"
  shows "in_window a' = in_window a" "window_numbers a' = window_numbers a" "ranks_ok a' = ranks_ok a" "quota_linked d a' clock = quota_linked d a clock"
proof -
  show w: "in_window a' = in_window a" using assms by (intro ext) (simp add: in_window_def airlock_grows_def)
  show n: "window_numbers a' = window_numbers a" by (intro ext) (simp add: window_numbers_def w)
  show "ranks_ok a' = ranks_ok a" using assms by (intro ext) (simp add: ranks_ok_def w n airlock_grows_def)
  show "quota_linked d a' clock = quota_linked d a clock" using assms by (intro ext) (simp add: quota_linked_def w n airlock_grows_def)
qed

lemma Emit_sealed:
  assumes "Emit c k encrypt session putting d sequence now = (d', Inr cell)"
  shows "sequence \<noteq> 0" "dr_lastSequence d < sequence" "dr_lastSequence d' = sequence" "dr_schedule d' = dr_schedule d"
    "\<exists>payload. Session_seal c k encrypt session sequence payload = Inr cell \<and> (\<forall>fragment. tick_carries d now = Some fragment \<longrightarrow> payload = fg_Payload fragment)"
proof -
  from Emit_lastSequence [OF assms] show fresh: "sequence \<noteq> 0" "dr_lastSequence d < sequence" "dr_lastSequence d' = sequence" "dr_schedule d' = dr_schedule d"
    by (auto simp: word_neq_0_conv)
  from assms show "\<exists>payload. Session_seal c k encrypt session sequence payload = Inr cell \<and> (\<forall>fragment. tick_carries d now = Some fragment \<longrightarrow> payload = fg_Payload fragment)"
    unfolding Emit_fresh [OF fresh(1,2)]
    by (auto simp: emitWork_def emitCover_def SealWork_def SealCover_def Let_def split: option.splits sum.splits if_splits)
qed

text \<open>A tick that leaves a cell.\<close>

lemma joint_emit:
  assumes inv: "joint_inv c k mx session sid d a clock sent arrived" and "clock \<le> now" "wire_sized encrypt"
    and emit: "Emit c k encrypt session putting d sequence now = (d', Inr cell)"
  shows "joint_inv c k mx session sid d' a now ((sequence, now, tick_carries d now, cell) # sent) arrived"
proof -
  let ?sent = "(sequence, now, tick_carries d now, cell) # sent" and ?N = "window_numbers a sent" and ?max = "ns (sch_MaxDepositsPerSession (al_schedule a))"
  have old: "sent_ok c k session d clock sent" "ranks_ok a sent" "quota_linked d a clock sent"
    using inv by (simp_all add: joint_inv_def)
  note e = Emit_sealed [OF emit] and quota = Emit_quota [OF emit]
  have below: "m < sequence" if "m \<in> ?N" for m using window_numbers_le [OF old(1) that] e(2) by simp
  have "sent_ok c k session d' now ?sent"
  proof -
    have "cell_ok c k session (dr_lastSequence d') now (sequence, now, tick_carries d now, cell)"
      using e(1,3,5) assms(3) unfolding cell_ok_def prod.case by auto
    moreover have "sent_ok c k session d' now sent" using sent_ok_later [OF old(1) _ assms(2)] e(2,3) by simp
    ultimately show ?thesis by (simp add: sent_ok_def)
  qed
  moreover have ranks: "{m \<in> window_numbers a ?sent. m < n} = {m \<in> ?N. m < n}" if "n \<le> sequence" for n
    using that by (auto simp: window_numbers_Cons)
  have "ranks_ok a ?sent"
    unfolding ranks_ok_def
  proof (intro allI impI)
    fix n t fragment cell'
    assume cells: "(n, t, Some fragment, cell') \<in> set ?sent" and t: "in_window a t"
    show "int (card {m \<in> window_numbers a ?sent. m < n}) < ?max"
    proof (cases "(n, t, Some fragment, cell') \<in> set sent")
      case True
      with old(2) t have "int (card {m \<in> ?N. m < n}) < ?max" unfolding ranks_ok_def by blast
      moreover have "n \<le> sequence" using sent_ok_D(2) [OF old(1) True] e(2) by simp
      ultimately show ?thesis by (simp add: ranks)
    next
      case False
      with cells t have here: "n = sequence" "in_window a now" "tick_carries d now \<noteq> None" by (auto dest: sym [of "Some fragment"])
      then have "windowState d now = (al_epoch a, True)" by (simp add: joint_window [OF inv])
      then have "quotaRemaining d (al_epoch a)" using here(3) by (auto simp: tick_carries_def split: if_splits)
      moreover have "1 \<le> ?max" using inv by (simp add: joint_inv_def airlock_inv_def Schedule_Validate_ok)
      moreover have "card {m \<in> ?N. m < n} \<le> card ?N" by (intro card_mono) auto
      moreover have "dr_schedule d = al_schedule a" using inv by (simp add: joint_inv_def)
      ultimately have "int (card {m \<in> ?N. m < n}) < ?max"
        using old(3) here(2) assms(2) by (auto simp: quota_linked_def quotaRemaining_def in_window_def split: if_splits)
      then show ?thesis using here(1) by (simp add: ranks)
    qed
  qed
  moreover have "quota_linked d' a now ?sent"
  proof (cases "windowState d now = (al_epoch a, True)")
    case True
    then have "in_window a now" by (simp add: joint_window [OF inv])
    moreover from this have "card (window_numbers a ?sent) \<le> Suc (card ?N)" by (simp add: window_numbers_Cons card_insert_if)
    ultimately show ?thesis using old(3) quota True assms(2) by (auto simp: quota_linked_def in_window_def split: if_splits)
  next
    case False
    then have "\<not> in_window a now" by (simp add: joint_window [OF inv])
    moreover obtain epoch opened where "windowState d now = (epoch, opened)" by (rule prod.exhaust)
    ultimately show ?thesis
      using old(3) quota False assms(2) by (auto simp: quota_linked_def in_window_def window_numbers_Cons split: if_splits)
  qed
  moreover have "arrivals_ok ?sent arrived" using inv unfolding joint_inv_def arrivals_ok_def set_simps by blast
  ultimately show ?thesis using inv e(4) by (simp add: joint_inv_def)
qed

text \<open>A cell that arrives, for the first time or again.\<close>

lemma joint_arrive:
  assumes inv: "joint_inv c k mx session sid d a clock sent arrived" and "clock \<le> now" "key_ok k"
    and cell: "(n, t, work, cell) \<in> set sent" and accept: "Ingress_Accept c k mx session sid a cell now = (a', r)"
  shows "joint_inv c k mx session sid d a' now sent ((n, t, now) # arrived)"
proof -
  have old: "airlock_inv mx a" "sent_ok c k session d clock sent" "ranks_ok a sent" "quota_linked d a clock sent" "charged_ok c sid a arrived"
    using inv by (simp_all add: joint_inv_def)
  from sent_ok_D(3,4) [OF old(2) cell] obtain encrypt payload
    where "wire_sized encrypt" "Session_seal c k encrypt session n payload = Inr cell" and t: "t \<le> clock" by blast
  then obtain inner where opens: "Session_Open c k session cell = Inr (n, inner)" using Session_seal_opens [OF assms(3)] by metis
  obtain r' where deposit: "Deposit c mx a sid n inner now = (a', r')"
    using accept opens by (auto simp: Ingress_Accept_def split: prod.splits sum.splits)
  then have step: "a' = airlock_step c mx a (DepositAt sid n inner now)" by (simp add: airlock_step_def)
  have grows: "airlock_grows a a'" "airlock_inv mx a'" unfolding step using airlock.step_ord [OF old(1)] airlock.step_inv [OF old(1)] by blast+
  note same = grows_window [OF grows(1)]
  obtain D where D: "D \<subseteq> arrived_numbers a arrived" "al_sessions a sid \<le> card D"
      "\<forall>m \<in> D. map_of (al_deposits a) (DepositID c sid m) \<noteq> None"
    using old(5) unfolding charged_ok_def by blast
  have fin: "finite D" by (rule finite_subset [OF D(1) finite_arrived_numbers])
  let ?arrived = "(n, t, now) # arrived"
  have more: "arrived_numbers a arrived \<subseteq> arrived_numbers a ?arrived" "in_window a now \<Longrightarrow> n \<in> arrived_numbers a ?arrived"
    by (auto simp: arrived_numbers_def)
  have kept: "\<forall>m \<in> D. map_of (al_deposits a') (DepositID c sid m) \<noteq> None" using D(3) grows(1) by (auto simp: airlock_grows_def map_le_def dom_def)
  have charged: "charged_ok c sid a' ?arrived"
  proof (cases "al_sessions a' sid \<le> al_sessions a sid")
    case True
    have "arrived_numbers a' ?arrived = arrived_numbers a ?arrived" by (simp add: arrived_numbers_def same(1))
    with D(1) more(1) have "D \<subseteq> arrived_numbers a' ?arrived" by simp
    then show ?thesis unfolding charged_ok_def using order_trans [OF True D(2)] kept by blast
  next
    case False
    from deposit False have new: "map_of (al_deposits a) (DepositID c sid n) = None" "al_sessions a' sid = Suc (al_sessions a sid)"
        "map_of (al_deposits a') (DepositID c sid n) = Some inner"
      by (cases rule: Deposit_state; auto)+
    have "in_window a now"
    proof (rule ccontr)
      assume "\<not> in_window a now"
      then have "a' = a" using Ingress_Accept_session(2) [OF accept] by (simp add: in_window_def)
      with False show False by simp
    qed
    with D(1) more have "insert n D \<subseteq> arrived_numbers a ?arrived" by simp
    then have "insert n D \<subseteq> arrived_numbers a' ?arrived" by (simp add: arrived_numbers_def same(1))
    moreover have "al_sessions a' sid \<le> card (insert n D)"
    proof -
      have "n \<notin> D" using D(3) new(1) by auto
      then show ?thesis using D(2) fin new(2) by simp
    qed
    moreover have "\<forall>m \<in> insert n D. map_of (al_deposits a') (DepositID c sid m) \<noteq> None" using kept new(3) by simp
    ultimately show ?thesis unfolding charged_ok_def by blast
  qed
  have "arrivals_ok sent ?arrived"
    using inv cell order_trans [OF t assms(2)] unfolding joint_inv_def arrivals_ok_def set_simps by blast
  moreover have "sent_ok c k session d now sent" by (rule sent_ok_later [OF old(2) order_refl assms(2)])
  moreover have "quota_linked d a now sent" using old(4) assms(2) by (auto simp: quota_linked_def split: if_splits)
  ultimately show ?thesis using inv old(3) grows same charged by (simp add: joint_inv_def airlock_grows_def)
qed

lemma airlock_step_other:
  "another \<noteq> sid \<Longrightarrow> al_sessions (airlock_step c mx a (DepositAt another number payload now)) sid = al_sessions a sid"
  "al_sessions (airlock_step c mx a (SealAt now draw padding)) = al_sessions a"
  using Airlock_Seal_state [of mx a now draw padding]
  by (auto simp: airlock_step_def Deposit_def Let_def split: option.split)

text \<open>The rest of the world does not touch the session.\<close>

lemma joint_other:
  assumes inv: "joint_inv c k mx session sid d a clock sent arrived" and "al_sessions (airlock_step c mx a event) sid = al_sessions a sid"
  shows "joint_inv c k mx session sid d (airlock_step c mx a event) clock sent arrived"
proof -
  have a: "airlock_inv mx a" using inv by (simp add: joint_inv_def)
  note grows = airlock.step_ord [OF a, of c event] and same = grows_window [OF airlock.step_ord [OF a, of c event]]
  have kept: "map_of (al_deposits (airlock_step c mx a event)) id \<noteq> None" if "map_of (al_deposits a) id \<noteq> None" for id
    using grows that by (auto simp: airlock_grows_def map_le_def dom_def)
  have "charged_ok c sid (airlock_step c mx a event) arrived"
  proof -
    obtain D where "D \<subseteq> arrived_numbers a arrived" "al_sessions a sid \<le> card D" "\<forall>n \<in> D. map_of (al_deposits a) (DepositID c sid n) \<noteq> None"
      using inv unfolding joint_inv_def charged_ok_def by (elim conjE exE)
    moreover from this(3) kept have "\<forall>n \<in> D. map_of (al_deposits (airlock_step c mx a event)) (DepositID c sid n) \<noteq> None" by simp
    ultimately show ?thesis unfolding charged_ok_def arrived_numbers_def same(1) assms(2) by (intro exI [of _ D] conjI)
  qed
  with inv airlock.step_inv [OF a, of c event] grows same show ?thesis by (simp add: joint_inv_def airlock_grows_def)
qed

lemma joint_run_inv:
  assumes "joint_run c k mx session sid d0 a0 d a clock sent arrived" "airlock_inv mx a0" "dr_schedule d0 = al_schedule a0" "al_sessions a0 sid = 0" "dr_quotaSpent d0 = 0" "key_ok k"
  shows "joint_inv c k mx session sid d a clock sent arrived"
  using assms(1)
proof induction
  case (start clock)
  show ?case using assms(2-5) by (auto simp: joint_inv_def sent_ok_def ranks_ok_def quota_linked_def charged_ok_def arrivals_ok_def window_numbers_def)
next
  case (fill d a clock sent arrived now fragment)
  then show ?case by (simp add: joint_inv_def quota_linked_def sent_ok_def fillTake_def)
next
  case (put d a clock sent arrived)
  then show ?case by (simp add: joint_inv_def quota_linked_def sent_ok_def)
next
  case (refused d a clock sent arrived encrypt putting sequence now d' e)
  have "dr_schedule d' = dr_schedule d" "dr_lastSequence d \<le> dr_lastSequence d'" using Emit_lastSequence [OF refused.hyps(2)] by auto
  moreover from this have "sent_ok c k session d' clock sent" using refused.IH sent_ok_later unfolding joint_inv_def by blast
  ultimately show ?case using refused.IH Emit_quota [OF refused.hyps(2)] by (simp add: joint_inv_def quota_linked_def)
next
  case (emitted d a clock sent arrived now encrypt putting sequence d' cell)
  then show ?case by (intro joint_emit)
next
  case (arrives d a clock sent arrived now sequence t work cell a' r)
  then show ?case using joint_arrive [OF _ _ assms(6)] by blast
next
  case (other d a clock sent arrived another number payload now)
  then show ?case by (intro joint_other) (simp_all add: airlock_step_other(1))
next
  case (closed d a clock sent arrived now draw padding)
  then show ?case by (intro joint_other) (simp_all add: airlock_step_other(2))
qed

lemma airlock_New_fresh:
  assumes "airlock_New mx cover schedule committee epoch = Inr a"
  shows "al_deposits a = []" "al_sessions a = (\<lambda>_. 0)" "\<not> al_sealed a" "al_schedule a = schedule" "al_epoch a = epoch" "Schedule_Validate schedule = Inr ()"
  using assms by (auto simp: airlock_New_def guard_simps split: prod.splits dest!: sym [of _ a])

lemma joint_run_new:
  assumes "NewDrain schedule poll = Inr d0" "airlock_New mx cover schedule committee epoch = Inr a0"
    and "joint_run c k mx session sid d0 a0 d a clock sent arrived" "key_ok k"
  shows "joint_inv c k mx session sid d a clock sent arrived" "al_schedule a = schedule"
proof -
  have d0: "dr_schedule d0 = schedule" "dr_quotaSpent d0 = 0" using assms(1) by (auto simp: NewDrain_def guard_simps)
  have a0: "al_schedule a0 = schedule" "al_sessions a0 sid = 0" "airlock_inv mx a0"
    using airlock_New_fresh [OF assms(2)] airlock_New_inv [OF assms(2)] by simp_all
  show inv: "joint_inv c k mx session sid d a clock sent arrived"
    by (rule joint_run_inv [OF assms(3) a0(3) _ a0(2) d0(2) assms(4)]) (simp add: d0 a0)
  have "dr_schedule d = dr_schedule d0" using assms(3) by induction (auto simp: fillTake_def dest: Emit_lastSequence)
  with inv d0(1) show "al_schedule a = schedule" by (simp add: joint_inv_def)
qed

text \<open>
  While nothing sent before the window opened arrived in it, and nothing later overtook a fragment of it, the airlock has a
  place for that fragment.
\<close>

lemma in_order_room:
  assumes inv: "joint_inv c k mx session sid d a clock sent arrived" and work: "(n, t, Some fragment, cell) \<in> set sent" "in_window a t"
    and order: "\<forall>m s w. (m, s, w) \<in> set arrived \<longrightarrow> in_window a w \<longrightarrow> al_opens a \<le> s \<and> m \<le> n"
    and fresh: "map_of (al_deposits a) (DepositID c sid n) = None"
  shows "int (al_sessions a sid) < ns (sch_MaxDepositsPerSession (al_schedule a))"
proof -
  obtain D where D: "D \<subseteq> arrived_numbers a arrived" "al_sessions a sid \<le> card D" "\<forall>m \<in> D. map_of (al_deposits a) (DepositID c sid m) \<noteq> None"
    using inv unfolding joint_inv_def charged_ok_def by (elim conjE exE)
  have "D \<subseteq> {m \<in> window_numbers a sent. m < n}"
  proof
    fix m assume "m \<in> D"
    with D(1) obtain s w where arrival: "(m, s, w) \<in> set arrived" "in_window a w" unfolding arrived_numbers_def by blast
    from inv arrival(1) obtain work' cell' where "s \<le> w" "(m, s, work', cell') \<in> set sent" unfolding joint_inv_def arrivals_ok_def by blast
    moreover have "al_opens a \<le> s" "m \<le> n" using order arrival by blast+
    ultimately have "m \<in> window_numbers a sent" using arrival(2) unfolding window_numbers_def in_window_def by force
    moreover have "m \<noteq> n" using D(3) fresh \<open>m \<in> D\<close> by auto
    ultimately show "m \<in> {m \<in> window_numbers a sent. m < n}" using \<open>m \<le> n\<close> by simp
  qed
  then have "card D \<le> card {m \<in> window_numbers a sent. m < n}" by (intro card_mono) simp_all
  moreover have "int (card {m \<in> window_numbers a sent. m < n}) < ns (sch_MaxDepositsPerSession (al_schedule a))"
    using inv work unfolding joint_inv_def ranks_ok_def by blast
  ultimately show ?thesis using D(2) by linarith
qed

text \<open>What the airlock does with a cell that opens: exactly one deposit.\<close>

lemma Ingress_Accept_sealed:
  assumes "key_ok k" "wire_sized encrypt" "Session_seal c k encrypt session sequence payload = Inr cell" "encrypt (ss_committee session) payload = Some wire"
  shows "Ingress_Accept c k mx session sid a cell now = (case Deposit c mx a sid sequence (take InnerSize wire) now of
      (a', Inl e) \<Rightarrow> (a', Inl (if e = WindowClosed \<or> e = AlreadySealed then NotForThisEpoch else DepositError e))
    | (a', Inr _) \<Rightarrow> (a', Inr ()))"
proof -
  from Session_seal_opens [OF assms(1,3,2)] assms(4) have "Session_Open c k session cell = Inr (sequence, take InnerSize wire)" by (metis option.inject)
  then show ?thesis by (simp add: Ingress_Accept_def)
qed

text \<open>
  C35: The session bound costs a publisher no work on a network that keeps order. A publisher and the airlock of a release
  epoch start with the same schedule and run in any interleaving; cells are delayed, lost and repeated, other sessions deposit and the
  clock does not go back. Consider a cell that carried a fragment, was sent after the window opened and arrives before it
  closes, and suppose that whatever of this session arrived in the window was sent after it opened and carries no later number.
  The cell opens to its number and to the encryption of its fragment; and if that ciphertext is well-formed, its number is new,
  the airlock is not sealed and its batch has room, then the airlock holds the ciphertext under that number afterwards. The
  operator's count for the session does not refuse it, because the publisher spent at least as much before it was sent. Both
  suppositions are needed: \<open>early_cover_costs_work\<close> and \<open>captured_cell_deposited_again\<close> below.
\<close>

theorem carried_work_is_deposited:
  assumes "NewDrain schedule poll = Inr d0" "airlock_New mx cover schedule committee epoch = Inr a0"
    and "joint_run c k mx session sid d0 a0 d a clock sent arrived" "key_ok k"
    and "(n, t, Some fragment, cell) \<in> set sent" "al_opens a \<le> t" "clock \<le> now" "now < al_closes a"
    and "\<forall>m s w. (m, s, w) \<in> set arrived \<longrightarrow> in_window a w \<longrightarrow> al_opens a \<le> s \<and> m \<le> n"
    and "\<not> al_sealed a" "int (Pending a) < ns (sch_BatchSize schedule)" "map_of (al_deposits a) (DepositID c sid n) = None"
  shows "\<exists>encrypt wire. wire_sized encrypt \<and> encrypt (ss_committee session) (fg_Payload fragment) = Some wire \<and>
    Session_Open c k session cell = Inr (n, take InnerSize wire) \<and>
    (validatePayload mx (take InnerSize wire) \<longrightarrow>
      (\<exists>a'. Ingress_Accept c k mx session sid a cell now = (a', Inr ()) \<and>
        map_of (al_deposits a') (DepositID c sid n) = Some (take InnerSize wire) \<and>
        joint_run c k mx session sid d0 a0 d a' now sent ((n, t, now) # arrived)))"
proof -
  have inv: "joint_inv c k mx session sid d a clock sent arrived" and schedule: "al_schedule a = schedule"
    using joint_run_new [OF assms(1-4)] by blast+
  have ok: "sent_ok c k session d clock sent" using inv by (simp add: joint_inv_def)
  from sent_ok_D(4) [OF this assms(5)] obtain encrypt
    where encrypt: "wire_sized encrypt" "Session_seal c k encrypt session n (fg_Payload fragment) = Inr cell" by blast
  from Session_seal_opens [OF assms(4) encrypt(2,1)] obtain wire
    where wire: "encrypt (ss_committee session) (fg_Payload fragment) = Some wire" "Session_Open c k session cell = Inr (n, take InnerSize wire)" by metis
  have "t \<le> now" using sent_ok_D(3) [OF ok assms(5)] assms(7) by simp
  have room: "int (al_sessions a sid) < ns (sch_MaxDepositsPerSession schedule)"
    using in_order_room [OF inv assms(5)] assms(6-9,12) \<open>t \<le> now\<close> schedule by (simp add: in_window_def)
  have "\<exists>a'. Ingress_Accept c k mx session sid a cell now = (a', Inr ()) \<and> map_of (al_deposits a') (DepositID c sid n) = Some (take InnerSize wire)"
    if "validatePayload mx (take InnerSize wire)"
    using that assms(6,8,10-12) \<open>t \<le> now\<close> schedule room by (simp add: Ingress_Accept_def wire(2) Deposit_def Let_def Pending_def)
  with joint_run.arrives [OF assms(3,7,5)] encrypt(1) wire show ?thesis by blast
qed

text \<open>
  Cover sent while the window is shut and arriving when it is open is charged by the airlock and not by the drain. When it
  takes the session's last place, the airlock silently drops work the publisher still had quota for.
\<close>

lemma early_cover_costs_work:
  assumes "Emit c k encrypt session putting d early t = (d', Inr cover_cell)" "\<not> snd (windowState d t)"
    and "Session_Open c k session cover_cell = Inr (early, inner)" "validatePayload mx inner" "map_of (al_deposits a) (DepositID c sid early) = None"
    and "\<not> al_sealed a" "in_window a now" "int (Pending a) < ns (sch_BatchSize (al_schedule a))"
    and "int (Suc (al_sessions a sid)) = ns (sch_MaxDepositsPerSession (al_schedule a))"
    and "Session_Open c k session cell = Inr (n, work)" "in_window a later" "map_of (al_deposits a) (DepositID c sid n) = None" "DepositID c sid n \<noteq> DepositID c sid early"
  shows "dr_quotaEpoch d' = dr_quotaEpoch d" "dr_quotaSpent d' = dr_quotaSpent d"
    "\<exists>a'. Ingress_Accept c k mx session sid a cover_cell now = (a', Inr ()) \<and> map_of (al_deposits a') (DepositID c sid early) = Some inner \<and>
      Ingress_Accept c k mx session sid a' cell later = (a'\<lparr>al_droppedSession := al_droppedSession a' + 1\<rparr>, Inr ())"
proof -
  show "dr_quotaEpoch d' = dr_quotaEpoch d" "dr_quotaSpent d' = dr_quotaSpent d" using Emit_quota [OF assms(1)] assms(2) by simp_all
  have "\<not> ns (sch_MaxDepositsPerSession (al_schedule a)) \<le> int (al_sessions a sid)" using assms(9) by simp
  with assms(3-13) show "\<exists>a'. Ingress_Accept c k mx session sid a cover_cell now = (a', Inr ()) \<and> map_of (al_deposits a') (DepositID c sid early) = Some inner \<and>
      Ingress_Accept c k mx session sid a' cell later = (a'\<lparr>al_droppedSession := al_droppedSession a' + 1\<rparr>, Inr ())"
    by (simp add: Ingress_Accept_def Deposit_def Let_def Pending_def in_window_def)
qed

text \<open>
  A cell is not bound to a release epoch. One that was deposited in an epoch, or that came too late for it, is deposited
  again when it is sent again in the window of a later epoch of the same session, and counts against the session there.
\<close>

lemma captured_cell_deposited_again:
  assumes "key_ok k" "wire_sized encrypt" "Session_seal c k encrypt session sequence payload = Inr cell" "encrypt (ss_committee session) payload = Some wire"
    and "validatePayload mx (take InnerSize wire)" "airlock_New mx cover schedule committee later = Inr a" "al_opens a \<le> now" "now < al_closes a"
  shows "\<exists>a'. Ingress_Accept c k mx session sid a cell now = (a', Inr ()) \<and>
    map_of (al_deposits a') (DepositID c sid sequence) = Some (take InnerSize wire) \<and> al_sessions a' sid = 1"
proof -
  have a: "al_deposits a = []" "al_sessions a = (\<lambda>_. 0)" "\<not> al_sealed a" "Schedule_Validate (al_schedule a) = Inr ()"
    using airlock_New_fresh [OF assms(6)] by simp_all
  then have "0 < ns (sch_MaxDepositsPerSession (al_schedule a))" "0 < ns (sch_BatchSize (al_schedule a))" by (simp_all add: Schedule_Validate_ok)
  with a assms(5,7,8) show ?thesis
    by (simp add: Ingress_Accept_sealed [OF assms(1-4)] Deposit_def Let_def)
qed

section \<open>A concrete publisher\<close>

definition sample_drain :: drain where
  "sample_drain = \<lparr>dr_schedule = sample_schedule, dr_ready = None, dr_hand = None, dr_work = 0, dr_cover = 0, dr_deferred = 0,
     dr_lastSequence = 0, dr_quotaEpoch = 0, dr_quotaSpent = 0\<rparr>"

definition sample_fragment :: Fragment where
  "sample_fragment = \<lparr>fg_ID = replicate 32 2, fg_Index = 0, fg_Total = 1, fg_Payload = replicate 504 5\<rparr>"

abbreviation sample_session :: Session where "sample_session \<equiv> in_session sample_initiator"

lemma sample_drain_new: "NewDrain sample_schedule 1 = Inr sample_drain"
  by (simp add: NewDrain_def sample_schedule_valid sample_drain_def)

lemma sample_drain_window: "windowState (sample_drain\<lparr>dr_hand := x, dr_ready := y\<rparr>) 3000 = (3, True)"
  using window_epoch [of "sample_drain\<lparr>dr_hand := x, dr_ready := y\<rparr>" 3 2800 3250 3000] airlock_New_inv(1) [OF sample_airlock_eq(1)]
  by (simp add: sample_schedule_valid sample_drain_def sample_airlock_eq(2) airlock_inv_def)

lemma sample_drain_filled:
  "fillPut (fillTake sample_drain 3000 (Some sample_fragment)) = sample_drain\<lparr>dr_hand := None, dr_ready := Some sample_fragment\<rparr>"
  "tick_carries (sample_drain\<lparr>dr_hand := None, dr_ready := Some sample_fragment\<rparr>) 3000 = Some sample_fragment"
  using sample_drain_window [where x = None and y = None] sample_drain_window [where x = None and y = "Some sample_fragment"]
  by (simp_all add: fillTake_def fillPut_def tick_carries_def quotaRemaining_def) (simp_all add: sample_drain_def)

lemma sample_encrypts: "encrypts sample_encrypt sample_session"
  by (simp add: encrypts_def sample_encrypt_sized) (simp add: sample_encrypt_def)

theorem drain_emits_every_tick_witness:
  "\<exists>d cell. drain_run {sample_encrypt} sample_crypto sample_key_lib sample_session sample_drain d [sample_fragment] [(1, Some sample_fragment, cell)]
     \<and> length cell = fabric_CellSize \<and> (\<exists>cell2. snd (Emit sample_crypto sample_key_lib sample_encrypt sample_session True d 2 3100) = Inr cell2)"
proof -
  let ?run = "drain_run {sample_encrypt} sample_crypto sample_key_lib sample_session sample_drain"
  let ?d = "sample_drain\<lparr>dr_hand := None, dr_ready := Some sample_fragment\<rparr>"
  have works: "\<forall>encrypt \<in> {sample_encrypt}. encrypts encrypt sample_session" by (simp add: sample_encrypts)
  note th = drain_emits_every_tick [OF sample_drain_new sample_key_lib_ok works]
  have "?run (fillPut (fillTake sample_drain 3000 (Some sample_fragment)))
      ([] @ (if dr_hand sample_drain = None \<and> snd (windowState sample_drain 3000) then opt_list (Some sample_fragment) else [])) []"
    by (intro drain_run.intros)
  then have run: "?run ?d [sample_fragment] []"
    using sample_drain_window [where x = None and y = None] by (simp add: sample_drain_filled) (simp add: sample_drain_def)
  have tick: "\<exists>cell. snd (Emit sample_crypto sample_key_lib sample_encrypt sample_session True d n now) = Inr cell"
    if "?run d taken sent" "n \<noteq> 0" "\<forall>used \<in> set (map fst sent). used < n" for d taken sent n now
    using th [OF that(1)] that(2,3) by blast
  from tick [OF run, of 1 3000] obtain cell where cell: "snd (Emit sample_crypto sample_key_lib sample_encrypt sample_session True ?d 1 3000) = Inr cell" by auto
  then obtain d where "Emit sample_crypto sample_key_lib sample_encrypt sample_session True ?d 1 3000 = (d, Inr cell)" by (metis prod.exhaust_sel)
  from drain_run.emit [OF run _ this] have next_run: "?run d [sample_fragment] [(1, Some sample_fragment, cell)]" by (simp add: sample_drain_filled)
  moreover from th [OF next_run] have "length cell = fabric_CellSize" by auto
  moreover have "\<exists>cell2. snd (Emit sample_crypto sample_key_lib sample_encrypt sample_session True d 2 3100) = Inr cell2"
    by (rule tick [OF next_run]) simp_all
  ultimately show ?thesis by blast
qed

theorem carried_work_is_deposited_witness:
  "\<exists>d cell a'. joint_run sample_crypto sample_key_lib sample_mix sample_session [4] sample_drain sample_airlock d sample_airlock 3000
       [(1, 3000, Some sample_fragment, cell)] [] \<and>
     Ingress_Accept sample_crypto sample_key_lib sample_mix sample_session [4] sample_airlock cell 3100 = (a', Inr ()) \<and>
     map_of (al_deposits a') (DepositID sample_crypto [4] 1) = Some (1 # replicate 1151 7)"
proof -
  let ?d = "sample_drain\<lparr>dr_hand := None, dr_ready := Some sample_fragment\<rparr>"
  let ?run = "joint_run sample_crypto sample_key_lib sample_mix sample_session [4] sample_drain sample_airlock"
  have run: "?run ?d sample_airlock 3000 [] []" unfolding sample_drain_filled(1) [symmetric] by (intro joint_run.intros)
  have wire: "sample_encrypt (ss_committee sample_session) (fg_Payload sample_fragment) = Some (1 # replicate 1199 7)" by (simp add: sample_encrypt_def)
  have inner: "take InnerSize (1 # replicate 1199 7) = (1 :: byte) # replicate 1151 7" by (simp add: InnerSize_def)
  obtain cell where cell: "Session_seal sample_crypto sample_key_lib sample_encrypt sample_session 1 (fg_Payload sample_fragment) = Inr cell"
    using Session_seal_returns [where encrypt = sample_encrypt and session = sample_session and wire = "1 # replicate 1199 7", OF sample_key_lib_ok _ wire, of 1 sample_crypto] by (auto simp: fabric_CellSize_def)
  obtain d' where "Emit sample_crypto sample_key_lib sample_encrypt sample_session False ?d 1 3000 = (d', Inr cell)"
  proof -
    have "dr_lastSequence ?d < 1" by (simp add: sample_drain_def)
    from Emit_fresh [OF _ this] cell that show ?thesis by (auto simp: sample_drain_filled(2) emitWork_def SealWork_def Let_def)
  qed
  from joint_run.emitted [OF run order_refl sample_encrypt_sized this]
  have sent: "?run d' sample_airlock 3000 [(1, 3000, Some sample_fragment, cell)] []" by (simp add: sample_drain_filled(2))
  have opened: "Session_Open sample_crypto sample_key_lib sample_session cell = Inr (1, 1 # replicate 1151 7)"
    using Session_seal_opens [OF sample_key_lib_ok cell sample_encrypt_sized] wire inner by (metis option.inject)
  have valid: "validatePayload sample_mix (1 # replicate 1151 7)" by (simp add: validatePayload_def sample_mix_def column_of_def)
  have "al_opens sample_airlock \<le> 3000" "(3000 :: int) \<le> 3100" "(3100 :: int) < al_closes sample_airlock" "\<not> al_sealed sample_airlock"
    "int (Pending sample_airlock) < ns (sch_BatchSize sample_schedule)" "map_of (al_deposits sample_airlock) (DepositID sample_crypto [4] 1) = None"
    by (simp_all add: sample_airlock_eq(2) Pending_def) (simp add: sample_schedule_def)
  with carried_work_is_deposited [OF sample_drain_new sample_airlock_eq(1) sent sample_key_lib_ok, of 1 3000 sample_fragment cell 3100] opened valid
  have "\<exists>a'. Ingress_Accept sample_crypto sample_key_lib sample_mix sample_session [4] sample_airlock cell 3100 = (a', Inr ()) \<and>
     map_of (al_deposits a') (DepositID sample_crypto [4] 1) = Some (1 # replicate 1151 7)" by auto
  with sent show ?thesis by blast
qed

end
