(* ===== verification/Entry.thy ===== *)
theory Entry
  imports Drain Topology
begin

text \<open>
  \<^verbatim>\<open>live/entry/entry.go\<close>: the entry operator's service. One goroutine handles the datagrams, another seals the deposit
  window and moves on to the next release epoch. They share the mailbox, which is replaced but never destroyed: the model
  keeps every airlock the service made, the newest first, and a datagram is handled against the one that was current when its
  handling began. Counters are unbounded; the health file is not modelled, and the batch directory holds documents.
\<close>

section \<open>State\<close>

record entry_stats =
  et_received :: nat
  et_wrongSize :: nat
  et_handshakes :: nat
  et_refusedHandshakes :: nat
  et_accepted :: nat
  et_refusedCell :: nat
  et_outsideWindow :: nat
  et_conflicted :: nat
  et_sealed :: nat

record sealedBatch =
  sb_ReleaseEpoch :: u64
  sb_Digest :: string
  sb_Columns :: "string list"

text \<open>A file holds a whole document or what a failed write left.\<close>

datatype batch_file = Whole sealedBatch | Torn

record 'committee entry_config =
  ec_Topology :: TopologyVerified
  ec_KEX :: bytes
  ec_Committee :: 'committee
  ec_CommitteeKey :: bytes
  ec_ListenAddress :: string
  ec_BatchDirectory :: string
  ec_Schedule :: Schedule
  ec_SessionLimit :: int

record 'committee service =
  sv_config :: "'committee entry_config"
  sv_responder :: Responder
  sv_mailboxes :: "airlock list"
  sv_sessions :: "string \<Rightarrow> (Session \<times> bytes) list"
  sv_stats :: entry_stats
  sv_lastSeal :: instant
  sv_files :: "(string \<times> batch_file) list"

datatype entry_error =
    ListenAddressRequired | BatchDirectoryRequired | SessionLimitRequired | NoPlaceInEpoch | ResponderRefused uplink_error
  | EntrySchedule schedule_error | DirectoryFailed | MailboxFailed airlock_error

definition maxSessionsPerAddress :: nat where "maxSessionsPerAddress = 4"

definition zero_stats :: entry_stats where
  "zero_stats = \<lparr>et_received = 0, et_wrongSize = 0, et_handshakes = 0, et_refusedHandshakes = 0, et_accepted = 0, et_refusedCell = 0,
     et_outsideWindow = 0, et_conflicted = 0, et_sealed = 0\<rparr>"

section \<open>Starting\<close>

fun selfOperator_in :: "Operator list \<Rightarrow> string \<Rightarrow> Operator option" where
  "selfOperator_in [] want = None"
| "selfOperator_in (operator # rest) want = (if op_KEXKey operator = want then Some operator else selfOperator_in rest want)"

definition selfOperator :: "key_lib \<Rightarrow> TopologyVerified \<Rightarrow> bytes \<Rightarrow> Operator option" where
  "selfOperator k network kex = selfOperator_in (doc_Operators (tv_Document network)) (b64_EncodeToString (kx_public k kex))"

definition entry_New :: "key_lib \<Rightarrow> bool \<Rightarrow> 'committee entry_config \<Rightarrow> (string \<times> batch_file) list \<Rightarrow> entry_error + 'committee service" where
  "entry_New k mkdir config files =
     andThen (require (ec_ListenAddress config \<noteq> '''') ListenAddressRequired) (\<lambda>_.
     andThen (require (ec_BatchDirectory config \<noteq> '''') BatchDirectoryRequired) (\<lambda>_.
     andThen (require (\<not> ec_SessionLimit config < 1) SessionLimitRequired) (\<lambda>_.
     andThen (expect (selfOperator k (ec_Topology config) (ec_KEX config)) NoPlaceInEpoch) (\<lambda>operator.
     let uplinkContext = \<lparr>ux_NetworkID = doc_NetworkID (tv_Document (ec_Topology config)), ux_Epoch = doc_Epoch (tv_Document (ec_Topology config)),
           ux_TopologyDigest = tv_Digest (ec_Topology config), ux_EntryOperator = op_Index operator\<rparr> in
     andThen (map_sum ResponderRefused id (NewResponder (ec_KEX config) (ec_CommitteeKey config) uplinkContext (ec_SessionLimit config))) (\<lambda>responder.
     andThen (map_sum EntrySchedule id (Schedule_Validate (ec_Schedule config))) (\<lambda>_.
     andThen (require mkdir DirectoryFailed) (\<lambda>_.
     Inr \<lparr>sv_config = config, sv_responder = responder, sv_mailboxes = [], sv_sessions = (\<lambda>_. []), sv_stats = zero_stats,
          sv_lastSeal = 0, sv_files = files\<rparr>)))))))"

text \<open>\<open>cover\<close> are the outcomes of the cover encryptions of the new airlock.\<close>

definition rollTo ::
    "('committee, 'batch) mix_lib \<Rightarrow> (nat \<Rightarrow> bytes option) \<Rightarrow> 'committee service \<Rightarrow> u64 \<Rightarrow> 'committee service \<times> (entry_error + unit)" where
  "rollTo mx cover s epoch =
     (case airlock_New mx cover (ec_Schedule (sv_config s)) (ec_Committee (sv_config s)) epoch of
        Inl e \<Rightarrow> (s, Inl (MailboxFailed e))
      | Inr mailbox \<Rightarrow> (s\<lparr>sv_mailboxes := mailbox # sv_mailboxes s\<rparr>, Inr ()))"

text \<open>The first thing \<^verbatim>\<open>Run\<close> does once its socket is open.\<close>

definition Run_start ::
    "('committee, 'batch) mix_lib \<Rightarrow> (nat \<Rightarrow> bytes option) \<Rightarrow> 'committee service \<Rightarrow> instant \<Rightarrow> 'committee service \<times> (entry_error + unit)" where
  "Run_start mx cover s now =
     (case EpochAt (ec_Schedule (sv_config s)) now of
        Inl e \<Rightarrow> (s, Inl (EntrySchedule e))
      | Inr epoch \<Rightarrow> rollTo mx cover s epoch)"

section \<open>Datagrams\<close>

text \<open>The first bound session that opens the cell decides; the others leave the mailbox alone.\<close>

fun tryBound ::
    "crypto \<Rightarrow> key_lib \<Rightarrow> ('committee, 'batch) mix_lib \<Rightarrow> airlock \<Rightarrow> (Session \<times> bytes) list \<Rightarrow> bytes \<Rightarrow> instant \<Rightarrow> airlock \<times> (ingress_error + unit) option" where
  "tryBound c k mx mailbox [] cell now = (mailbox, None)"
| "tryBound c k mx mailbox ((session, sessionID) # bound) cell now =
     (case Ingress_Accept c k mx session sessionID mailbox cell now of
        (mailbox', Inl CellRefused) \<Rightarrow> tryBound c k mx mailbox' bound cell now
      | (mailbox', r) \<Rightarrow> (mailbox', Some r))"

definition countDeposit :: "ingress_error + unit \<Rightarrow> entry_stats \<Rightarrow> entry_stats" where
  "countDeposit r st =
     (case r of
        Inr _ \<Rightarrow> st\<lparr>et_accepted := et_accepted st + 1\<rparr>
      | Inl NotForThisEpoch \<Rightarrow> st\<lparr>et_outsideWindow := et_outsideWindow st + 1\<rparr>
      | Inl (DepositError DepositConflict) \<Rightarrow> st\<lparr>et_conflicted := et_conflicted st + 1\<rparr>
      | Inl _ \<Rightarrow> st\<lparr>et_refusedCell := et_refusedCell st + 1\<rparr>)"

definition offerHandshake :: "crypto \<Rightarrow> key_lib \<Rightarrow> 'committee service \<Rightarrow> bytes \<Rightarrow> string \<Rightarrow> 'committee service" where
  "offerHandshake c k s cell from_key =
     (let bound = sv_sessions s from_key; st = sv_stats s in
      if maxSessionsPerAddress \<le> length bound then s\<lparr>sv_stats := st\<lparr>et_refusedHandshakes := et_refusedHandshakes st + 1\<rparr>\<rparr>
      else case Responder_Accept c k (sv_responder s) cell of
        (responder, Inl _) \<Rightarrow>
          s\<lparr>sv_responder := responder,
            sv_stats := (if bound \<noteq> [] then st\<lparr>et_refusedCell := et_refusedCell st + 1\<rparr>
                         else st\<lparr>et_refusedHandshakes := et_refusedHandshakes st + 1\<rparr>)\<rparr>
      | (responder, Inr held) \<Rightarrow>
          s\<lparr>sv_responder := responder, sv_sessions := (sv_sessions s)(from_key := held # sv_sessions s from_key),
            sv_stats := st\<lparr>et_handshakes := et_handshakes st + 1\<rparr>\<rparr>)"

text \<open>\<open>age\<close> is how many times the mailbox was replaced since this datagram's handling began.\<close>

definition handle ::
    "crypto \<Rightarrow> key_lib \<Rightarrow> ('committee, 'batch) mix_lib \<Rightarrow> 'committee service \<Rightarrow> nat \<Rightarrow> bytes \<Rightarrow> string \<Rightarrow> instant \<Rightarrow> 'committee service" where
  "handle c k mx s age cell from_key now =
     (case tryBound c k mx (sv_mailboxes s ! age) (sv_sessions s from_key) cell now of
        (mailbox, Some r) \<Rightarrow> s\<lparr>sv_mailboxes := (sv_mailboxes s)[age := mailbox], sv_stats := countDeposit r (sv_stats s)\<rparr>
      | (_, None) \<Rightarrow> offerHandshake c k s cell from_key)"

definition receive ::
    "crypto \<Rightarrow> key_lib \<Rightarrow> ('committee, 'batch) mix_lib \<Rightarrow> 'committee service \<Rightarrow> nat \<Rightarrow> bytes \<Rightarrow> string \<Rightarrow> instant \<Rightarrow> 'committee service" where
  "receive c k mx s age datagram from_key now =
     (let st = sv_stats s; counted = st\<lparr>et_received := et_received st + 1\<rparr> in
      if length datagram \<noteq> fabric_CellSize then s\<lparr>sv_stats := counted\<lparr>et_wrongSize := et_wrongSize counted + 1\<rparr>\<rparr>
      else handle c k mx (s\<lparr>sv_stats := counted\<rparr>) age datagram from_key now)"

section \<open>Sealing and rolling\<close>

definition batchName :: "u64 \<Rightarrow> string" where
  "batchName epoch = ''release-'' @ zero_padded 20 (unat epoch) @ ''.json''"

definition putFile :: "(string \<times> batch_file) list \<Rightarrow> string \<Rightarrow> batch_file \<Rightarrow> (string \<times> batch_file) list" where
  "putFile files name content = (name, content) # filter (\<lambda>(n, f). n \<noteq> name) files"

definition dropFile :: "(string \<times> batch_file) list \<Rightarrow> string \<Rightarrow> (string \<times> batch_file) list" where
  "dropFile files name = filter (\<lambda>(n, f). n \<noteq> name) files"

text \<open>\<open>written\<close> and \<open>renamed\<close> say whether the two calls to the disk succeed.\<close>

definition writeBatch ::
    "bool \<Rightarrow> bool \<Rightarrow> (string \<times> batch_file) list \<Rightarrow> 'batch Sealed \<Rightarrow> (string \<times> batch_file) list \<times> bool" where
  "writeBatch written renamed files sealed =
     (let document = \<lparr>sb_ReleaseEpoch = se_ReleaseEpoch sealed, sb_Digest = b64_EncodeToString (se_Digest sealed),
                      sb_Columns = map b64_EncodeToString (se_Columns sealed)\<rparr>;
          final = batchName (se_ReleaseEpoch sealed);
          temporary = final @ ''.partial''
      in if \<not> written then (putFile files temporary Torn, False)
         else if \<not> renamed then (putFile files temporary (Whole document), False)
         else (putFile (dropFile files temporary) final (Whole document), True))"

definition sealIfDue ::
    "('committee, 'batch) mix_lib \<Rightarrow> 'committee service \<Rightarrow> instant \<Rightarrow> (nat \<Rightarrow> nat option) \<Rightarrow> nat \<Rightarrow> bool \<Rightarrow> bool \<Rightarrow> 'committee service" where
  "sealIfDue mx s now draw padding written renamed =
     (case sv_mailboxes s of
        [] \<Rightarrow> s
      | mailbox # older \<Rightarrow>
          if al_sealed mailbox then s
          else (case Airlock_Seal mx mailbox now draw padding of
                  (mailbox', Inl _) \<Rightarrow> s\<lparr>sv_mailboxes := mailbox' # older\<rparr>
                | (mailbox', Inr sealed) \<Rightarrow>
                    (let s' = s\<lparr>sv_mailboxes := mailbox' # older\<rparr>; st = sv_stats s in
                     case writeBatch written renamed (sv_files s) sealed of
                       (files, False) \<Rightarrow> s'\<lparr>sv_files := files\<rparr>
                     | (files, True) \<Rightarrow> s'\<lparr>sv_files := files, sv_stats := st\<lparr>et_sealed := et_sealed st + 1\<rparr>, sv_lastSeal := now\<rparr>)))"

definition maintain ::
    "('committee, 'batch) mix_lib \<Rightarrow> 'committee service \<Rightarrow> instant \<Rightarrow> (nat \<Rightarrow> nat option) \<Rightarrow> nat \<Rightarrow> bool \<Rightarrow> bool \<Rightarrow> (nat \<Rightarrow> bytes option) \<Rightarrow>
      'committee service \<times> (entry_error + unit)" where
  "maintain mx s now draw padding written renamed cover =
     (let s1 = sealIfDue mx s now draw padding written renamed in
      case EpochAt (ec_Schedule (sv_config s1)) now of
        Inl _ \<Rightarrow> (s1, Inr ())
      | Inr epoch \<Rightarrow>
          (case sv_mailboxes s1 of
             [] \<Rightarrow> rollTo mx cover s1 epoch
           | mailbox # _ \<Rightarrow> if epoch \<noteq> al_epoch mailbox then rollTo mx cover s1 epoch else (s1, Inr ())))"

text \<open>What the loop does when it is asked to stop.\<close>

definition maintain_stop ::
    "('committee, 'batch) mix_lib \<Rightarrow> 'committee service \<Rightarrow> instant \<Rightarrow> (nat \<Rightarrow> nat option) \<Rightarrow> nat \<Rightarrow> bool \<Rightarrow> bool \<Rightarrow> 'committee service" where
  "maintain_stop mx s now draw padding written renamed = sealIfDue mx s now draw padding written renamed"

section \<open>One datagram\<close>

lemma Ingress_refused_iff:
  "Ingress_Accept c k mx session sid a cell now = (a', Inl CellRefused) \<longleftrightarrow> a' = a \<and> (\<exists>e. Session_Open c k session cell = Inl e)"
  by (auto simp: Ingress_Accept_def split: sum.splits prod.splits if_splits)

definition opens_under :: "crypto \<Rightarrow> key_lib \<Rightarrow> bytes \<Rightarrow> Session \<times> bytes \<Rightarrow> bool" where
  "opens_under c k cell held \<longleftrightarrow> (\<exists>opened. Session_Open c k (fst held) cell = Inr opened)"

text \<open>The first session that opens the cell, if there is one, decides, and the cell reaches the mailbox once.\<close>

lemma tryBound_find:
  "tryBound c k mx a bound cell now =
     (case find (opens_under c k cell) bound of
        None \<Rightarrow> (a, None)
      | Some held \<Rightarrow> (fst (Ingress_Accept c k mx (fst held) (snd held) a cell now), Some (snd (Ingress_Accept c k mx (fst held) (snd held) a cell now))))"
proof (induction bound)
  case (Cons held bound)
  obtain session sid where held: "held = (session, sid)" by (rule prod.exhaust)
  obtain a' r where accept: "Ingress_Accept c k mx session sid a cell now = (a', r)" by (rule prod.exhaust)
  show ?case
  proof (cases "r = Inl CellRefused")
    case True
    with accept Ingress_refused_iff [of c k mx session sid a cell now a'] have "a' = a" "\<not> opens_under c k cell held"
      by (auto simp: opens_under_def held)
    with Cons True accept held show ?thesis by simp
  next
    case False
    with accept have "opens_under c k cell held"
      by (cases "Session_Open c k session cell") (auto simp: opens_under_def held Ingress_Accept_def)
    with False accept held show ?thesis by (auto split: sum.splits ingress_error.splits)
  qed
qed simp

lemma handle_opened:
  assumes "find (opens_under c k cell) (sv_sessions s from_key) = Some (session, sid)" "Session_Open c k session cell = Inr (sequence, inner)"
  shows "handle c k mx s age cell from_key now = s\<lparr>
    sv_mailboxes := (sv_mailboxes s)[age := fst (Deposit c mx (sv_mailboxes s ! age) sid sequence inner now)],
    sv_stats := countDeposit (snd (Ingress_Accept c k mx session sid (sv_mailboxes s ! age) cell now)) (sv_stats s)\<rparr>"
  using assms by (auto simp: handle_def tryBound_find Ingress_Accept_def split: prod.splits sum.splits)

lemma handle_unopened:
  "find (opens_under c k cell) (sv_sessions s from_key) = None \<Longrightarrow> handle c k mx s age cell from_key now = offerHandshake c k s cell from_key"
  by (simp add: handle_def tryBound_find)

lemma handle_cases:
  obtains (opened) session sid sequence inner where "find (opens_under c k cell) (sv_sessions s from_key) = Some (session, sid)"
      "Session_Open c k session cell = Inr (sequence, inner)"
  | (unopened) "find (opens_under c k cell) (sv_sessions s from_key) = None"
proof (cases "find (opens_under c k cell) (sv_sessions s from_key)")
  case (Some held)
  then have "opens_under c k cell held" by (auto simp: find_Some_iff)
  then show ?thesis using that(1) [of "fst held" "snd held"] Some by (auto simp: opens_under_def)
qed (rule that(2))

section \<open>What every run keeps\<close>

definition stats_total :: "entry_stats \<Rightarrow> nat" where
  "stats_total st = et_wrongSize st + et_handshakes st + et_refusedHandshakes st + et_accepted st + et_refusedCell st + et_outsideWindow st + et_conflicted st"

definition entry_inv :: "key_lib \<Rightarrow> ('committee, 'batch) mix_lib \<Rightarrow> 'committee service \<Rightarrow> bool" where
  "entry_inv k mx s \<longleftrightarrow> key_ok k \<and> Responder_inv (sv_responder s) \<and> int (rs_limit (sv_responder s)) = ec_SessionLimit (sv_config s) \<and>
     et_handshakes (sv_stats s) = length (rs_seen (sv_responder s)) \<and> et_received (sv_stats s) = stats_total (sv_stats s) \<and>
     (\<forall>from_key. length (sv_sessions s from_key) \<le> maxSessionsPerAddress) \<and>
     (\<forall>mailbox \<in> set (sv_mailboxes s). airlock_inv mx mailbox \<and> al_schedule mailbox = ec_Schedule (sv_config s))"

lemma countDeposit_total: "stats_total (countDeposit r st) = Suc (stats_total st)" "et_handshakes (countDeposit r st) = et_handshakes st"
  "et_received (countDeposit r st) = et_received st"
  by (auto simp: countDeposit_def stats_total_def split: sum.split ingress_error.split airlock_error.split)

lemma offerHandshake_effect:
  assumes "key_ok k" "Responder_inv (sv_responder s)" "offerHandshake c k s cell from_key = s'"
  shows "sv_mailboxes s' = sv_mailboxes s" "sv_config s' = sv_config s" "sv_files s' = sv_files s" "Responder_inv (sv_responder s')"
    "same_responder (sv_responder s) (sv_responder s')"
    "stats_total (sv_stats s') = Suc (stats_total (sv_stats s))" "et_received (sv_stats s') = et_received (sv_stats s)"
    "\<forall>key. length (sv_sessions s key) \<le> maxSessionsPerAddress \<Longrightarrow> \<forall>key. length (sv_sessions s' key) \<le> maxSessionsPerAddress"
    "et_handshakes (sv_stats s) = length (rs_seen (sv_responder s)) \<Longrightarrow> et_handshakes (sv_stats s') = length (rs_seen (sv_responder s'))"
proof -
  have "sv_mailboxes s' = sv_mailboxes s \<and> sv_config s' = sv_config s \<and> sv_files s' = sv_files s \<and> Responder_inv (sv_responder s') \<and>
    same_responder (sv_responder s) (sv_responder s') \<and> stats_total (sv_stats s') = Suc (stats_total (sv_stats s)) \<and> et_received (sv_stats s') = et_received (sv_stats s) \<and>
    ((\<forall>key. length (sv_sessions s key) \<le> maxSessionsPerAddress) \<longrightarrow> (\<forall>key. length (sv_sessions s' key) \<le> maxSessionsPerAddress)) \<and>
    (et_handshakes (sv_stats s) = length (rs_seen (sv_responder s)) \<longrightarrow> et_handshakes (sv_stats s') = length (rs_seen (sv_responder s')))"
  proof (cases "maxSessionsPerAddress \<le> length (sv_sessions s from_key)")
    case True
    with assms(2,3) show ?thesis by (auto simp: offerHandshake_def Let_def stats_total_def same_responder_def)
  next
    case False
    obtain r out where accept: "Responder_Accept c k (sv_responder s) cell = (r, out)" by (rule prod.exhaust)
    note keeps = responder.step_inv [OF assms(2), of c k cell] responder.step_ord [OF assms(2), of c k cell]
    from accept show ?thesis
    proof (cases rule: Responder_Accept_cases)
      case (refused e)
      with False accept assms(2,3) show ?thesis by (auto simp: offerHandshake_def Let_def stats_total_def same_responder_def)
    next
      case (accepted public)
      with sessionFromAgreement_returns [OF assms(1)] assms(2) obtain held where "out = Inr held" by (auto simp: Responder_inv_def)
      with False accept assms(3) have s': "s' = s\<lparr>sv_responder := r, sv_sessions := (sv_sessions s)(from_key := held # sv_sessions s from_key),
          sv_stats := (sv_stats s)\<lparr>et_handshakes := et_handshakes (sv_stats s) + 1\<rparr>\<rparr>" by (simp add: offerHandshake_def Let_def)
      have "Responder_inv r" "same_responder (sv_responder s) r" "length (rs_seen r) = Suc (length (rs_seen (sv_responder s)))"
        using keeps accept accepted(2) by simp_all
      with False show ?thesis by (simp add: s' stats_total_def)
    qed
  qed
  then show "sv_mailboxes s' = sv_mailboxes s" "sv_config s' = sv_config s" "sv_files s' = sv_files s" "Responder_inv (sv_responder s')"
    "same_responder (sv_responder s) (sv_responder s')"
    "stats_total (sv_stats s') = Suc (stats_total (sv_stats s))" "et_received (sv_stats s') = et_received (sv_stats s)"
    "\<forall>key. length (sv_sessions s key) \<le> maxSessionsPerAddress \<Longrightarrow> \<forall>key. length (sv_sessions s' key) \<le> maxSessionsPerAddress"
    "et_handshakes (sv_stats s) = length (rs_seen (sv_responder s)) \<Longrightarrow> et_handshakes (sv_stats s') = length (rs_seen (sv_responder s'))"
    by blast+
qed

lemma Airlock_Seal_failed: "Airlock_Seal mx a now draw padding = (a', Inl e) \<Longrightarrow> a' = a"
  by (auto simp: Airlock_Seal_def split: if_splits sum.splits option.splits)

lemma sealIfDue_cases:
  assumes "sealIfDue mx s now draw padding written renamed = s'"
  obtains (idle) "s' = s"
  | (sealed) mailbox older mailbox' batch files flag where "sv_mailboxes s = mailbox # older" "\<not> al_sealed mailbox"
      "Airlock_Seal mx mailbox now draw padding = (mailbox', Inr batch)" "writeBatch written renamed (sv_files s) batch = (files, flag)"
      "s' = s\<lparr>sv_mailboxes := mailbox' # older, sv_files := files,
         sv_stats := (if flag then (sv_stats s)\<lparr>et_sealed := et_sealed (sv_stats s) + 1\<rparr> else sv_stats s),
         sv_lastSeal := (if flag then now else sv_lastSeal s)\<rparr>"
proof (cases "sv_mailboxes s = [] \<or> al_sealed (hd (sv_mailboxes s)) \<or> (\<exists>e. snd (Airlock_Seal mx (hd (sv_mailboxes s)) now draw padding) = Inl e)")
  case True
  have "s' = s"
  proof (cases "sv_mailboxes s")
    case (Cons mailbox older)
    obtain m r where seal: "Airlock_Seal mx mailbox now draw padding = (m, r)" by (rule prod.exhaust)
    with True Cons consider "al_sealed mailbox" | e where "r = Inl e" by auto
    then show ?thesis
      using assms Cons seal Airlock_Seal_failed [of mx mailbox now draw padding m] by cases (auto simp: sealIfDue_def)
  qed (use assms in \<open>simp add: sealIfDue_def\<close>)
  then show ?thesis by (rule that(1))
next
  case False
  then obtain mailbox older where box: "sv_mailboxes s = mailbox # older" "\<not> al_sealed mailbox" by (cases "sv_mailboxes s") auto
  obtain m r where seal: "Airlock_Seal mx mailbox now draw padding = (m, r)" by (rule prod.exhaust)
  with False box obtain batch where r: "r = Inr batch" by (cases r) auto
  obtain files flag where wrote: "writeBatch written renamed (sv_files s) batch = (files, flag)" by (rule prod.exhaust)
  have "s' = s\<lparr>sv_mailboxes := m # older, sv_files := files,
         sv_stats := (if flag then (sv_stats s)\<lparr>et_sealed := et_sealed (sv_stats s) + 1\<rparr> else sv_stats s),
         sv_lastSeal := (if flag then now else sv_lastSeal s)\<rparr>"
    using assms box seal r wrote by (cases flag; cases s) (auto simp: sealIfDue_def Let_def)
  with box seal r wrote show ?thesis using that(2) by blast
qed

lemma Airlock_Seal_step: "airlock_step c mx a (SealAt now draw padding) = fst (Airlock_Seal mx a now draw padding)"
  by (simp add: airlock_step_def)

lemma sealIfDue_inv: "entry_inv k mx s \<Longrightarrow> entry_inv k mx (sealIfDue mx s now draw padding written renamed)"
proof -
  assume inv: "entry_inv k mx s"
  obtain s' where s': "sealIfDue mx s now draw padding written renamed = s'" by blast
  then show ?thesis
  proof (cases rule: sealIfDue_cases)
    case idle
    with s' inv show ?thesis by simp
  next
    case (sealed mailbox older mailbox' batch files flag)
    have "airlock_inv mx mailbox" "al_schedule mailbox = ec_Schedule (sv_config s)" using inv sealed(1) by (auto simp: entry_inv_def)
    then have "airlock_inv mx mailbox'" "al_schedule mailbox' = ec_Schedule (sv_config s)"
      using airlock.step_inv airlock.step_ord sealed(3) Airlock_Seal_step by (metis airlock_grows_def fst_conv)+
    with inv sealed(1) show ?thesis unfolding s' sealed(5) by (auto simp: entry_inv_def stats_total_def)
  qed
qed

lemma rollTo_effect:
  assumes "rollTo mx cover s epoch = (s', r)"
  shows "(\<exists>e. r = Inl e \<and> s' = s) \<or> (\<exists>mailbox. r = Inr () \<and> s' = s\<lparr>sv_mailboxes := mailbox # sv_mailboxes s\<rparr> \<and>
    airlock_New mx cover (ec_Schedule (sv_config s)) (ec_Committee (sv_config s)) epoch = Inr mailbox)"
  using assms by (auto simp: rollTo_def split: sum.splits)

lemma rollTo_inv: "entry_inv k mx s \<Longrightarrow> entry_inv k mx (fst (rollTo mx cover s epoch))"
proof -
  assume inv: "entry_inv k mx s"
  obtain s' r where roll: "rollTo mx cover s epoch = (s', r)" by (rule prod.exhaust)
  from rollTo_effect [OF roll] show ?thesis
  proof
    assume "\<exists>mailbox. r = Inr () \<and> s' = s\<lparr>sv_mailboxes := mailbox # sv_mailboxes s\<rparr> \<and>
      airlock_New mx cover (ec_Schedule (sv_config s)) (ec_Committee (sv_config s)) epoch = Inr mailbox"
    with inv roll airlock_New_inv(1,3) show ?thesis by (auto simp: entry_inv_def)
  qed (use inv roll in auto)
qed

lemma maintain_inv: "entry_inv k mx s \<Longrightarrow> entry_inv k mx (fst (maintain mx s now draw padding written renamed cover))"
  using sealIfDue_inv [of k mx s now draw padding written renamed] rollTo_inv [of k mx "sealIfDue mx s now draw padding written renamed" cover]
  by (auto simp: maintain_def Let_def split: sum.split list.split)

lemma receive_inv:
  assumes inv: "entry_inv k mx s" and age: "age < length (sv_mailboxes s)"
  shows "entry_inv k mx (receive c k mx s age datagram from_key now)"
proof (cases "length datagram = fabric_CellSize")
  case False
  with inv show ?thesis by (simp add: receive_def Let_def entry_inv_def stats_total_def)
next
  case True
  define s0 where "s0 = s\<lparr>sv_stats := (sv_stats s)\<lparr>et_received := et_received (sv_stats s) + 1\<rparr>\<rparr>"
  have run: "receive c k mx s age datagram from_key now = handle c k mx s0 age datagram from_key now" using True by (simp add: receive_def Let_def s0_def)
  have s0: "key_ok k" "Responder_inv (sv_responder s0)" "int (rs_limit (sv_responder s0)) = ec_SessionLimit (sv_config s0)"
      "et_handshakes (sv_stats s0) = length (rs_seen (sv_responder s0))" "et_received (sv_stats s0) = Suc (stats_total (sv_stats s0))"
      "\<forall>key. length (sv_sessions s0 key) \<le> maxSessionsPerAddress"
      "\<forall>mailbox \<in> set (sv_mailboxes s0). airlock_inv mx mailbox \<and> al_schedule mailbox = ec_Schedule (sv_config s0)"
    using inv by (simp_all add: entry_inv_def s0_def stats_total_def)
  show ?thesis
  proof (cases rule: handle_cases [of c k datagram s0 from_key])
    case (opened session sid sequence inner)
    let ?m = "fst (Deposit c mx (sv_mailboxes s0 ! age) sid sequence inner now)"
    have old: "airlock_inv mx (sv_mailboxes s0 ! age)" "al_schedule (sv_mailboxes s0 ! age) = ec_Schedule (sv_config s0)"
      using s0(7) age by (simp_all add: s0_def)
    have "?m = airlock_step c mx (sv_mailboxes s0 ! age) (DepositAt sid sequence inner now)" by (simp add: airlock_step_def)
    with airlock.step_inv [OF old(1)] airlock.step_ord [OF old(1)] old(2) have new: "airlock_inv mx ?m \<and> al_schedule ?m = ec_Schedule (sv_config s0)"
      by (metis airlock_grows_def)
    then have "\<forall>mailbox \<in> set ((sv_mailboxes s0)[age := ?m]). airlock_inv mx mailbox \<and> al_schedule mailbox = ec_Schedule (sv_config s0)"
      using s0(7) set_update_subset_insert [of "sv_mailboxes s0" age ?m] by blast
    with s0 show ?thesis unfolding run handle_opened [OF opened] by (simp add: entry_inv_def countDeposit_total)
  next
    case unopened
    note effect = offerHandshake_effect [OF s0(1,2) refl, of c datagram from_key]
    have "rs_limit (sv_responder (offerHandshake c k s0 datagram from_key)) = rs_limit (sv_responder s0)"
      using effect(5) by (simp add: same_responder_def)
    with s0 effect show ?thesis unfolding run handle_unopened [OF unopened] entry_inv_def by simp
  qed
qed

datatype entry_event =
    Datagram nat bytes string instant
  | MaintainTick instant "nat \<Rightarrow> nat option" nat bool bool "nat \<Rightarrow> bytes option"
  | Shutdown instant "nat \<Rightarrow> nat option" nat bool bool

text \<open>No datagram is handled before there is a mailbox.\<close>

definition entry_step :: "crypto \<Rightarrow> key_lib \<Rightarrow> ('committee, 'batch) mix_lib \<Rightarrow> 'committee service \<Rightarrow> entry_event \<Rightarrow> 'committee service" where
  "entry_step c k mx s event =
     (case event of
        Datagram age datagram from_key now \<Rightarrow> if age < length (sv_mailboxes s) then receive c k mx s age datagram from_key now else s
      | MaintainTick now draw padding written renamed cover \<Rightarrow> fst (maintain mx s now draw padding written renamed cover)
      | Shutdown now draw padding written renamed \<Rightarrow> maintain_stop mx s now draw padding written renamed)"

interpretation entry: invariant_machine "entry_step c k mx" "entry_inv k mx" for c k mx
  by unfold_locales (auto simp: entry_step_def receive_inv maintain_inv maintain_stop_def sealIfDue_inv split: entry_event.split)

lemma entry_New_fresh:
  assumes "entry_New k mkdir config files = Inr s"
  shows "sv_config s = config" "sv_files s = files" "sv_mailboxes s = []" "key_ok k \<Longrightarrow> entry_inv k mx s" "Schedule_Validate (ec_Schedule config) = Inr ()"
proof -
  from assms obtain responder ctx where r: "NewResponder (ec_KEX config) (ec_CommitteeKey config) ctx (ec_SessionLimit config) = Inr responder"
    and s: "s = \<lparr>sv_config = config, sv_responder = responder, sv_mailboxes = [], sv_sessions = (\<lambda>_. []), sv_stats = zero_stats,
          sv_lastSeal = 0, sv_files = files\<rparr>" and v: "Schedule_Validate (ec_Schedule config) = Inr ()"
    by (auto simp: entry_New_def Let_def guard_simps)
  show "sv_config s = config" "sv_files s = files" "sv_mailboxes s = []" "Schedule_Validate (ec_Schedule config) = Inr ()" by (simp_all add: s v)
  show "entry_inv k mx s" if "key_ok k"
    using that NewResponder_context [OF r] by (auto simp: s entry_inv_def Responder_inv_def zero_stats_def stats_total_def)
qed

lemma Run_start_effect:
  assumes "Run_start mx cover s t = (s1, Inr ())"
  obtains epoch mailbox where "EpochAt (ec_Schedule (sv_config s)) t = Inr epoch" "s1 = s\<lparr>sv_mailboxes := mailbox # sv_mailboxes s\<rparr>"
    "airlock_New mx cover (ec_Schedule (sv_config s)) (ec_Committee (sv_config s)) epoch = Inr mailbox"
  using assms by (auto simp: Run_start_def rollTo_def split: sum.splits)

lemma started_inv:
  assumes "key_ok k" "entry_New k mkdir config files = Inr s0" "Run_start mx cover s0 t = (s1, Inr ())"
  shows "entry_inv k mx s1"
proof -
  obtain epoch mailbox where "s1 = s0\<lparr>sv_mailboxes := mailbox # sv_mailboxes s0\<rparr>"
    "airlock_New mx cover (ec_Schedule (sv_config s0)) (ec_Committee (sv_config s0)) epoch = Inr mailbox" by (rule Run_start_effect [OF assms(3)])
  then have "fst (rollTo mx cover s0 epoch) = s1" by (simp add: rollTo_def)
  moreover have "entry_inv k mx s0" by (rule entry_New_fresh(4) [OF assms(2,1)])
  ultimately show ?thesis using rollTo_inv by blast
qed

text \<open>
  C39: The entry service accounts for every datagram and spends fixed budgets. Over any run, of any datagrams from any
  addresses interleaved with its maintenance, each datagram received is counted under exactly one outcome; the sessions
  set up are as many as the ephemeral keys remembered, all different, and at most the configured limit; no address holds
  more than four; and no mailbox the service ever made holds more than its batch, nor more of one session than its bound.
\<close>

theorem entry_accounts_for_datagrams:
  assumes "key_ok k" "entry_New k mkdir config files = Inr s0" "Run_start mx cover s0 t = (s1, Inr ())"
    and "s = run_ops (entry_step c k mx) s1 events"
  shows "et_received (sv_stats s) = et_wrongSize (sv_stats s) + et_handshakes (sv_stats s) + et_refusedHandshakes (sv_stats s) +
      et_accepted (sv_stats s) + et_refusedCell (sv_stats s) + et_outsideWindow (sv_stats s) + et_conflicted (sv_stats s) \<and>
    et_handshakes (sv_stats s) = length (rs_seen (sv_responder s)) \<and> distinct (rs_seen (sv_responder s)) \<and>
    int (et_handshakes (sv_stats s)) \<le> ec_SessionLimit (sv_config s) \<and> (\<forall>from_key. length (sv_sessions s from_key) \<le> 4) \<and>
    (\<forall>mailbox \<in> set (sv_mailboxes s). int (Pending mailbox) \<le> ns (sch_BatchSize (ec_Schedule (sv_config s))) \<and>
       (\<forall>sid. int (al_sessions mailbox sid) \<le> ns (sch_MaxDepositsPerSession (ec_Schedule (sv_config s)))))"
proof -
  have inv: "entry_inv k mx s" unfolding assms(4) by (rule entry.run_inv [OF started_inv [OF assms(1-3)]])
  then have "\<forall>mailbox \<in> set (sv_mailboxes s). int (Pending mailbox) \<le> ns (sch_BatchSize (ec_Schedule (sv_config s))) \<and>
       (\<forall>sid. int (al_sessions mailbox sid) \<le> ns (sch_MaxDepositsPerSession (ec_Schedule (sv_config s))))"
    by (fastforce simp: entry_inv_def airlock_inv_def Pending_def Schedule_Validate_ok)
  with inv show ?thesis by (simp add: entry_inv_def Responder_inv_def stats_total_def maxSessionsPerAddress_def)
qed

text \<open>
  C36: A publisher that introduced itself is served. When the cell of a publisher's handshake arrives from an address that
  holds fewer than four sessions, none of which opens it, at a service with room that has not seen its ephemeral key, the
  service binds the publisher's own session to that address in front of the others. A cell the publisher then seals and sends
  from there is, whatever the other sessions are and whatever mailbox is current, deposited exactly once into that mailbox
  and no other, under the publisher's session and number, and changes neither the sessions nor the responder.
\<close>

theorem introduced_publisher_is_served:
  assumes "entry_inv k mx s" "wire_sized encrypt" "age < length (sv_mailboxes s)" "later < length (sv_mailboxes s)"
    and "Establish c k (Some secret) (kx_public k (rs_static (sv_responder s))) (rs_committee (sv_responder s)) (rs_context (sv_responder s)) number = Inr i"
    and "kx_public k secret \<notin> set (rs_seen (sv_responder s))" "length (rs_seen (sv_responder s)) < rs_limit (sv_responder s)"
    and "length (sv_sessions s from_key) < 4" "find (opens_under c k (in_cell i)) (sv_sessions s from_key) = None"
    and "s1 = receive c k mx s age (in_cell i) from_key now" "encrypt (rs_committee (sv_responder s)) payload = Some wire"
    and "SealWork c k encrypt (in_session i) sequence payload = Inr cell" "s2 = receive c k mx s1 later cell from_key now'"
  shows "sv_sessions s1 from_key = (in_session i, in_sessionID i) # sv_sessions s from_key \<and> sv_mailboxes s1 = sv_mailboxes s \<and>
    sv_mailboxes s2 = (sv_mailboxes s)[later := fst (Deposit c mx (sv_mailboxes s ! later) (in_sessionID i) sequence (take InnerSize wire) now')] \<and>
    sv_sessions s2 = sv_sessions s1 \<and> sv_responder s2 = sv_responder s1 \<and> et_handshakes (sv_stats s2) = Suc (et_handshakes (sv_stats s))"
proof -
  have "key_ok k" using assms(1) by (simp add: entry_inv_def)
  note made = Establish_accepted [OF this assms(5-7)]
  let ?s0 = "s\<lparr>sv_stats := (sv_stats s)\<lparr>et_received := et_received (sv_stats s) + 1\<rparr>\<rparr>"
  have "s1 = handle c k mx ?s0 age (in_cell i) from_key now" using made(3) by (simp add: assms(10) receive_def Let_def)
  also have "\<dots> = offerHandshake c k ?s0 (in_cell i) from_key" by (rule handle_unopened) (simp add: assms(9))
  finally have s1: "sv_sessions s1 = (sv_sessions s)(from_key := (in_session i, in_sessionID i) # sv_sessions s from_key)"
    "sv_mailboxes s1 = sv_mailboxes s" "et_handshakes (sv_stats s1) = Suc (et_handshakes (sv_stats s))"
    using made(1) assms(8) by (simp_all add: offerHandshake_def Let_def maxSessionsPerAddress_def)
  from assms(12) have seal: "Session_seal c k encrypt (in_session i) sequence payload = Inr cell" by (simp add: SealWork_def)
  obtain wire' where "encrypt (ss_committee (in_session i)) payload = Some wire'" and cell: "length cell = fabric_CellSize"
      "Session_Open c k (in_session i) cell = Inr (sequence, take InnerSize wire')"
    using Session_seal_opens [OF \<open>key_ok k\<close> seal assms(2)] by metis
  with assms(11) made(4) have opens: "Session_Open c k (in_session i) cell = Inr (sequence, take InnerSize wire)" by simp
  let ?t0 = "s1\<lparr>sv_stats := (sv_stats s1)\<lparr>et_received := et_received (sv_stats s1) + 1\<rparr>\<rparr>"
  have "find (opens_under c k cell) (sv_sessions ?t0 from_key) = Some (in_session i, in_sessionID i)" using opens by (simp add: s1 opens_under_def)
  from handle_opened [OF this opens] have "s2 = ?t0\<lparr>
    sv_mailboxes := (sv_mailboxes ?t0)[later := fst (Deposit c mx (sv_mailboxes ?t0 ! later) (in_sessionID i) sequence (take InnerSize wire) now')],
    sv_stats := countDeposit (snd (Ingress_Accept c k mx (in_session i) (in_sessionID i) (sv_mailboxes ?t0 ! later) cell now')) (sv_stats ?t0)\<rparr>"
    using cell(1) by (simp add: assms(13) receive_def Let_def)
  with s1 show ?thesis by (simp add: countDeposit_total)
qed

section \<open>Batches\<close>

lemma batchName_inj [simp]: "batchName a = batchName b \<longleftrightarrow> a = b"
  by (auto simp: batchName_def intro: unsigned_word_eqI)

lemma partial_not_batch [simp]: "batchName a @ ''.partial'' \<noteq> batchName b" "batchName b \<noteq> batchName a @ ''.partial''"
proof -
  have "last (batchName a @ ''.partial'') \<noteq> last (batchName b)" by (simp add: batchName_def)
  then show "batchName a @ ''.partial'' \<noteq> batchName b" "batchName b \<noteq> batchName a @ ''.partial''" by metis+
qed

lemma map_of_putFile: "map_of (putFile files name content) n = (if n = name then Some content else map_of files n)"
proof -
  have "map_of (filter (\<lambda>(n, f). n \<noteq> name) xs) n = map_of xs n" if "n \<noteq> name" for xs :: "(string \<times> batch_file) list"
    using that by (induction xs) auto
  then show ?thesis by (simp add: putFile_def)
qed

lemma map_of_dropFile: "n \<noteq> name \<Longrightarrow> map_of (dropFile files name) n = map_of files n"
  by (induction files) (auto simp: dropFile_def)

text \<open>Only the name of the sealed epoch gets a new document, and only when both calls succeed.\<close>

lemma writeBatch_files:
  assumes "writeBatch written renamed files batch = (files', flag)"
  shows "flag \<longleftrightarrow> written \<and> renamed" "map_of files' (batchName e) =
    (if flag \<and> e = se_ReleaseEpoch batch then Some (Whole \<lparr>sb_ReleaseEpoch = se_ReleaseEpoch batch, sb_Digest = b64_EncodeToString (se_Digest batch),
        sb_Columns = map b64_EncodeToString (se_Columns batch)\<rparr>) else map_of files (batchName e))"
  using assms by (auto simp: writeBatch_def Let_def map_of_putFile map_of_dropFile split: if_splits)

definition covers_decode :: "(bytes \<Rightarrow> bool) \<Rightarrow> 'committee service \<Rightarrow> bool" where
  "covers_decode decodes s \<longleftrightarrow> (\<forall>mailbox \<in> set (sv_mailboxes s). \<forall>column \<in> set (al_cover mailbox). decodes column)"

definition event_covers :: "(bytes \<Rightarrow> bool) \<Rightarrow> entry_event \<Rightarrow> bool" where
  "event_covers decodes event \<longleftrightarrow>
     (case event of MaintainTick now draw padding written renamed cover \<Rightarrow> \<forall>i column. cover i = Some column \<longrightarrow> decodes column | _ \<Rightarrow> True)"

lemma rollTo_covers:
  assumes "covers_decode decodes s" "\<forall>i column. cover i = Some column \<longrightarrow> decodes column"
  shows "covers_decode decodes (fst (rollTo mx cover s epoch))" "sv_files (fst (rollTo mx cover s epoch)) = sv_files s"
  using assms airlock_New_inv(2) [of mx cover "ec_Schedule (sv_config s)" "ec_Committee (sv_config s)" epoch]
  by (auto simp: covers_decode_def rollTo_def split: sum.split) fastforce

lemma sealIfDue_covers: "covers_decode decodes s \<Longrightarrow> covers_decode decodes (sealIfDue mx s now draw padding written renamed)"
proof -
  assume covers: "covers_decode decodes s"
  obtain s' where s': "sealIfDue mx s now draw padding written renamed = s'" by blast
  then show ?thesis
  proof (cases rule: sealIfDue_cases)
    case (sealed mailbox older mailbox' batch files flag)
    have "al_cover mailbox' = al_cover mailbox" using Airlock_Seal_state [of mx mailbox now draw padding] sealed(3) by auto
    with covers sealed(1) show ?thesis unfolding s' sealed(5) by (simp add: covers_decode_def)
  qed (use s' covers in simp)
qed

lemma entry_step_covers:
  assumes "covers_decode decodes s" "event_covers decodes event" "entry_inv k mx s"
  shows "covers_decode decodes (entry_step c k mx s event)"
proof (cases event)
  case (MaintainTick now draw padding written renamed cover)
  with assms(2) have "\<forall>i column. cover i = Some column \<longrightarrow> decodes column" by (simp add: event_covers_def)
  with MaintainTick show ?thesis
    by (auto simp: entry_step_def maintain_def Let_def intro!: rollTo_covers(1) sealIfDue_covers assms(1) split: sum.split list.split)
next
  case (Shutdown now draw padding written renamed)
  with assms(1) show ?thesis by (simp add: entry_step_def maintain_stop_def sealIfDue_covers)
next
  case (Datagram age datagram from_key now)
  define s0 where "s0 = s\<lparr>sv_stats := (sv_stats s)\<lparr>et_received := et_received (sv_stats s) + 1\<rparr>\<rparr>"
  have s0: "covers_decode decodes s0" "key_ok k" "Responder_inv (sv_responder s0)" using assms(1,3) by (simp_all add: s0_def covers_decode_def entry_inv_def)
  have "covers_decode decodes (handle c k mx s0 age datagram from_key now)" if age: "age < length (sv_mailboxes s0)"
  proof (cases rule: handle_cases [of c k datagram s0 from_key])
    case (opened session sid sequence inner)
    obtain m r where deposit: "Deposit c mx (sv_mailboxes s0 ! age) sid sequence inner now = (m, r)" by (rule prod.exhaust)
    then have "al_cover m = al_cover (sv_mailboxes s0 ! age)" by (cases rule: Deposit_state) auto
    moreover have "\<forall>column \<in> set (al_cover (sv_mailboxes s0 ! age)). decodes column" using s0(1) nth_mem [OF age] unfolding covers_decode_def by blast
    ultimately have "\<forall>mailbox \<in> set ((sv_mailboxes s0)[age := m]). \<forall>column \<in> set (al_cover mailbox). decodes column"
      using s0(1) set_update_subset_insert [of "sv_mailboxes s0" age m] by (auto simp: covers_decode_def)
    with deposit show ?thesis unfolding handle_opened [OF opened] by (simp add: covers_decode_def)
  next
    case unopened
    show ?thesis unfolding handle_unopened [OF unopened]
      using s0(1) offerHandshake_effect(1) [OF s0(2,3) refl, of c datagram from_key] by (simp add: covers_decode_def)
  qed
  with Datagram assms(1) show ?thesis by (simp add: entry_step_def receive_def Let_def s0_def covers_decode_def)
qed

lemma entry_run_covers:
  assumes "entry_inv k mx s" "covers_decode decodes s" "list_all (event_covers decodes) events"
  shows "covers_decode decodes (run_ops (entry_step c k mx) s events)"
  using assms
proof (induction events arbitrary: s)
  case (Cons event events)
  then show ?case using entry.step_inv [OF Cons.prems(1)] entry_step_covers [OF Cons.prems(2) _ Cons.prems(1)] by simp
qed simp

lemma maintain_files: "sv_files (fst (maintain mx s now draw padding written renamed cover)) = sv_files (sealIfDue mx s now draw padding written renamed)"
  by (auto simp: maintain_def Let_def rollTo_def split: sum.split list.split)

text \<open>
  C37: What was deposited is published. Over any run of the service, if the current mailbox is not yet sealed when a
  maintenance tick falls between its cutoff and its release, with randomness available and a disk that writes, then after
  that tick the batch directory holds, under the name of the release epoch, a whole document for that epoch with exactly the
  public number of columns, made from a batch in which every deposit of the mailbox is a column.
\<close>

theorem deposits_are_published:
  assumes "mix_contract mx decodes" "key_ok k" "entry_New k mkdir config files = Inr s0" "Run_start mx cover s0 t = (s1, Inr ())"
    and "\<forall>i column. cover i = Some column \<longrightarrow> decodes column" "list_all (event_covers decodes) events"
    and "s = run_ops (entry_step c k mx) s1 events" "sv_mailboxes s = mailbox # older" "\<not> al_sealed mailbox"
    and "al_closes mailbox \<le> now" "ReleaseAt (al_schedule mailbox) (al_epoch mailbox) = Inr release" "now < release"
    and "draws_below draw" "\<forall>i. draw i \<noteq> None" "maintain mx s now draw padding True True cover' = (s', r)"
  shows "\<exists>document columns batch out. map_of (sv_files s') (batchName (al_epoch mailbox)) = Some (Whole document) \<and>
    sb_ReleaseEpoch document = al_epoch mailbox \<and> int (length (sb_Columns document)) = ns (sch_BatchSize (ec_Schedule (sv_config s))) \<and>
    mx_ParseWire mx columns = Some batch \<and> mx_MarshalWire mx padding batch = Some out \<and> sb_Columns document = map b64_EncodeToString out \<and>
    (\<forall>(ident, payload) \<in> set (al_deposits mailbox). column_of payload \<in> set columns)"
proof -
  note inv1 = started_inv [OF assms(2-4)]
  have "covers_decode decodes s1"
    by (rule Run_start_effect [OF assms(4)]) (use airlock_New_inv(2) assms(5) entry_New_fresh(3) [OF assms(3)] in \<open>fastforce simp: covers_decode_def\<close>)
  from entry_run_covers [OF inv1 this assms(6), of c] have "covers_decode decodes s" by (simp only: assms(7))
  then have cover: "\<forall>column \<in> set (al_cover mailbox). decodes column" by (simp add: covers_decode_def assms(8))
  have "entry_inv k mx s" unfolding assms(7) by (rule entry.run_inv [OF inv1])
  then have inv: "airlock_inv mx mailbox" "al_schedule mailbox = ec_Schedule (sv_config s)" by (simp_all add: entry_inv_def assms(8))
  obtain mailbox' sealed where seal: "Airlock_Seal mx mailbox now draw padding = (mailbox', Inr sealed)"
    using Airlock_Seal_total [OF assms(1) inv(1) cover assms(13,11,9,10,12,14)] by blast
  note batch = Airlock_Seal_batch [OF assms(1) inv(1) cover assms(13) seal assms(11)]
  obtain files' flag where wrote: "writeBatch True True (sv_files s) sealed = (files', flag)" by (rule prod.exhaust)
  note doc = writeBatch_files [OF wrote]
  have "sv_files s' = files'"
    using maintain_files [of mx s now draw padding True True cover'] assms(8,9,15) seal wrote doc(1) by (simp add: sealIfDue_def Let_def)
  then have "map_of (sv_files s') (batchName (al_epoch mailbox)) = Some (Whole \<lparr>sb_ReleaseEpoch = al_epoch mailbox,
      sb_Digest = b64_EncodeToString (se_Digest sealed), sb_Columns = map b64_EncodeToString (se_Columns sealed)\<rparr>)" (is "_ = Some (Whole ?document)")
    using doc batch(5) by simp
  moreover obtain columns where columns: "mx_ParseWire mx columns = Some (se_batch sealed)" "mx_MarshalWire mx padding (se_batch sealed) = Some (se_Columns sealed)"
      "mset columns = mset (map (\<lambda>d. column_of (snd d)) (al_deposits mailbox)) + mset (drop (length (al_deposits mailbox)) (al_cover mailbox))"
    using batch(7) by blast
  moreover from columns(3) have "set columns = set (map (\<lambda>d. column_of (snd d)) (al_deposits mailbox)) \<union> set (drop (length (al_deposits mailbox)) (al_cover mailbox))"
    by (metis set_mset_mset set_mset_union)
  then have "\<forall>(ident, payload) \<in> set (al_deposits mailbox). column_of payload \<in> set columns" by force
  moreover have "int (length (sb_Columns ?document)) = ns (sch_BatchSize (ec_Schedule (sv_config s)))" using batch(6) inv(2) by simp
  ultimately show ?thesis by (intro exI [of _ ?document] exI [of _ columns] exI [of _ "se_batch sealed"] exI [of _ "se_Columns sealed"]) simp
qed

section \<open>Batches are final while the service runs\<close>

text \<open>Runs in which the maintenance clock does not go back; \<open>clock\<close> is its last instant.\<close>

inductive entry_run ::
    "crypto \<Rightarrow> key_lib \<Rightarrow> ('committee, 'batch) mix_lib \<Rightarrow> 'committee service \<Rightarrow> instant \<Rightarrow> 'committee service \<Rightarrow> instant \<Rightarrow> bool"
  for c k mx s0 clock0 where
  start: "entry_run c k mx s0 clock0 s0 clock0"
| datagram: "entry_run c k mx s0 clock0 s clock \<Longrightarrow> age < length (sv_mailboxes s) \<Longrightarrow>
    entry_run c k mx s0 clock0 (receive c k mx s age bytes from_key now) clock"
| tick: "entry_run c k mx s0 clock0 s clock \<Longrightarrow> clock \<le> now \<Longrightarrow> maintain mx s now draw padding written renamed cover = (s', r) \<Longrightarrow>
    entry_run c k mx s0 clock0 s' now"
| shutdown: "entry_run c k mx s0 clock0 s clock \<Longrightarrow> clock \<le> now \<Longrightarrow>
    entry_run c k mx s0 clock0 (maintain_stop mx s now draw padding written renamed) now"

text \<open>
  Mailboxes are of rising epochs, the newest has opened, and every document for an epoch from the first one on comes from a
  sealed mailbox.
\<close>

definition epochs_rise :: "u64 \<Rightarrow> 'committee service \<Rightarrow> instant \<Rightarrow> bool" where
  "epochs_rise first s clock \<longleftrightarrow> sv_mailboxes s \<noteq> [] \<and> sorted_wrt (\<lambda>a b. b < a) (map al_epoch (sv_mailboxes s)) \<and>
     (\<forall>e \<in> set (map al_epoch (sv_mailboxes s)). first \<le> e) \<and> hd (map al_opens (sv_mailboxes s)) \<le> clock \<and>
     (\<forall>e \<ge> first. map_of (sv_files s) (batchName e) \<noteq> None \<longrightarrow> (\<exists>mailbox \<in> set (sv_mailboxes s). al_epoch mailbox = e \<and> al_sealed mailbox))"

definition batches_kept :: "'committee service \<Rightarrow> 'committee service \<Rightarrow> bool" where
  "batches_kept s s' \<longleftrightarrow> (\<forall>e f. map_of (sv_files s) (batchName e) = Some f \<longrightarrow> map_of (sv_files s') (batchName e) = Some f)"

lemma receive_mailboxes:
  assumes "entry_inv k mx s" "age < length (sv_mailboxes s)" "receive c k mx s age datagram from_key now = s'"
  shows "sv_files s' = sv_files s" "sv_config s' = sv_config s"
    "\<exists>m. sv_mailboxes s' = (sv_mailboxes s)[age := m] \<and> airlock_grows (sv_mailboxes s ! age) m"
proof -
  define s0 where "s0 = s\<lparr>sv_stats := (sv_stats s)\<lparr>et_received := et_received (sv_stats s) + 1\<rparr>\<rparr>"
  have s0: "sv_mailboxes s0 = sv_mailboxes s" "sv_files s0 = sv_files s" "sv_config s0 = sv_config s" "key_ok k" "Responder_inv (sv_responder s0)"
    using assms(1) by (simp_all add: s0_def entry_inv_def)
  have inv: "airlock_inv mx (sv_mailboxes s ! age)" using assms(1,2) by (simp add: entry_inv_def)
  have "sv_files (handle c k mx s0 age datagram from_key now) = sv_files s \<and> sv_config (handle c k mx s0 age datagram from_key now) = sv_config s \<and>
    (\<exists>m. sv_mailboxes (handle c k mx s0 age datagram from_key now) = (sv_mailboxes s)[age := m] \<and> airlock_grows (sv_mailboxes s ! age) m)"
  proof (cases rule: handle_cases [of c k datagram s0 from_key])
    case (opened session sid sequence inner)
    have "airlock_grows (sv_mailboxes s ! age) (fst (Deposit c mx (sv_mailboxes s ! age) sid sequence inner now))"
      using airlock.step_ord [OF inv, of c "DepositAt sid sequence inner now"] by (simp add: airlock_step_def)
    then show ?thesis unfolding handle_opened [OF opened] using s0 by auto
  next
    case unopened
    note effect = offerHandshake_effect(1-3) [OF s0(4,5) refl, of c datagram from_key]
    have "(sv_mailboxes s)[age := sv_mailboxes s ! age] = sv_mailboxes s" by simp
    with effect s0 airlock.ord_refl show ?thesis unfolding handle_unopened [OF unopened] by metis
  qed
  moreover have "s' = s\<lparr>sv_stats := sv_stats s'\<rparr> \<or> s' = handle c k mx s0 age datagram from_key now"
    using assms(3) by (auto simp: receive_def Let_def s0_def)
  ultimately show "sv_files s' = sv_files s" "sv_config s' = sv_config s"
    "\<exists>m. sv_mailboxes s' = (sv_mailboxes s)[age := m] \<and> airlock_grows (sv_mailboxes s ! age) m"
    using airlock.ord_refl [of "sv_mailboxes s ! age"] by (metis list_update_id service.select_convs(1,3,7) service.surjective service.update_convs(5))+
qed

lemma batches_kept_refl: "batches_kept s s" and batches_kept_trans: "batches_kept s t \<Longrightarrow> batches_kept t u \<Longrightarrow> batches_kept s u"
  by (auto simp: batches_kept_def)

lemma receive_rises:
  assumes "entry_inv k mx s" "age < length (sv_mailboxes s)" "epochs_rise first s clock"
  shows "epochs_rise first (receive c k mx s age datagram from_key now) clock \<and> batches_kept s (receive c k mx s age datagram from_key now)"
proof -
  let ?s' = "receive c k mx s age datagram from_key now"
  note effect = receive_mailboxes [OF assms(1,2) refl, of c datagram from_key now]
  then obtain m where m: "sv_mailboxes ?s' = (sv_mailboxes s)[age := m]" "airlock_grows (sv_mailboxes s ! age) m" by blast
  have same: "map f (sv_mailboxes ?s') = map f (sv_mailboxes s)" if "f m = f (sv_mailboxes s ! age)" for f :: "airlock \<Rightarrow> 'x"
    using that by (simp add: m(1) map_update) (metis list_update_id map_update)
  have "map al_epoch (sv_mailboxes ?s') = map al_epoch (sv_mailboxes s)" "map al_opens (sv_mailboxes ?s') = map al_opens (sv_mailboxes s)"
    using m(2) by (simp_all add: same airlock_grows_def)
  moreover have "\<exists>mailbox \<in> set (sv_mailboxes ?s'). al_epoch mailbox = e \<and> al_sealed mailbox"
    if "\<exists>mailbox \<in> set (sv_mailboxes s). al_epoch mailbox = e \<and> al_sealed mailbox" for e
  proof -
    from that obtain i where i: "i < length (sv_mailboxes s)" "al_epoch (sv_mailboxes s ! i) = e" "al_sealed (sv_mailboxes s ! i)" by (auto simp: in_set_conv_nth)
    with m(2) have "al_epoch (sv_mailboxes ?s' ! i) = e \<and> al_sealed (sv_mailboxes ?s' ! i)"
      by (cases "i = age") (simp_all add: m(1) airlock_grows_def)
    moreover have "sv_mailboxes ?s' ! i \<in> set (sv_mailboxes ?s')" using i(1) m(1) by simp
    ultimately show ?thesis by blast
  qed
  moreover have "sv_mailboxes ?s' \<noteq> []" using m(1) assms(2) by auto
  ultimately show ?thesis using assms(3) effect(1) by (simp add: epochs_rise_def batches_kept_def)
qed

lemma Airlock_Seal_done:
  "Airlock_Seal mx a now draw padding = (a', Inr batch) \<Longrightarrow> a' = a\<lparr>al_sealed := True\<rparr> \<and> se_ReleaseEpoch batch = al_epoch a"
  by (auto simp: Airlock_Seal_def split: if_splits sum.splits option.splits)

lemma sealIfDue_rises:
  assumes "epochs_rise first s clock" "clock \<le> now"
  shows "epochs_rise first (sealIfDue mx s now draw padding written renamed) now \<and> batches_kept s (sealIfDue mx s now draw padding written renamed) \<and>
    sv_config (sealIfDue mx s now draw padding written renamed) = sv_config s"
proof -
  obtain s' where s': "sealIfDue mx s now draw padding written renamed = s'" by blast
  then show ?thesis
  proof (cases rule: sealIfDue_cases)
    case idle
    with s' assms show ?thesis by (auto simp: epochs_rise_def batches_kept_refl)
  next
    case (sealed mailbox older mailbox' batch files flag)
    note sealing = Airlock_Seal_done [OF sealed(3)]
    have none: "map_of (sv_files s) (batchName (al_epoch mailbox)) = None"
    proof (rule ccontr)
      assume "map_of (sv_files s) (batchName (al_epoch mailbox)) \<noteq> None"
      moreover have "first \<le> al_epoch mailbox" using assms(1) sealed(1) by (simp add: epochs_rise_def)
      ultimately obtain m where "m \<in> set (sv_mailboxes s)" "al_epoch m = al_epoch mailbox" "al_sealed m" using assms(1) unfolding epochs_rise_def by blast
      with assms(1) sealed(1,2) show False by (auto simp: epochs_rise_def)
    qed
    note written = writeBatch_files(2) [OF sealed(4)]
    have kept: "batches_kept s s'" using none sealing by (auto simp: sealed(5) batches_kept_def written)
    have "epochs_rise first s' now"
      using assms sealed(1) sealing by (auto simp: sealed(5) epochs_rise_def written split: if_splits)
    with kept s' sealed(5) show ?thesis by simp
  qed
qed

lemma opens_edge:
  assumes "Schedule_Validate schedule = Inr ()" "DepositWindow schedule epoch = Inr (start_at, close_at)"
  shows "start_at = sch_Genesis schedule + uint epoch * ns (sch_Period schedule)"
proof -
  from assms have "epoch \<le> MaxEpoch schedule" by (auto simp: DepositWindow_def checkEpoch_def Let_def guard_simps)
  with boundaries(1) [OF assms(1) this] assms show ?thesis by (auto simp: DepositWindow_def Let_def guard_simps)
qed

lemma rollTo_rises:
  assumes "entry_inv k mx s" "epochs_rise first s now" "sv_mailboxes s = mailbox # older" "EpochAt (ec_Schedule (sv_config s)) now = Inr epoch" "epoch \<noteq> al_epoch mailbox"
  shows "epochs_rise first (fst (rollTo mx cover s epoch)) now \<and> batches_kept s (fst (rollTo mx cover s epoch))"
proof -
  obtain s' r where roll: "rollTo mx cover s epoch = (s', r)" by (rule prod.exhaust)
  consider "s' = s" | m where "s' = s\<lparr>sv_mailboxes := m # sv_mailboxes s\<rparr>" "airlock_New mx cover (ec_Schedule (sv_config s)) (ec_Committee (sv_config s)) epoch = Inr m"
    using rollTo_effect [OF roll] by blast
  then show ?thesis
  proof cases
    case 1
    with roll assms(2) batches_kept_refl show ?thesis by auto
  next
    case (2 m)
    let ?schedule = "ec_Schedule (sv_config s)"
    have valid: "Schedule_Validate ?schedule = Inr ()" and p: "0 < ns (sch_Period ?schedule)"
      using airlock_New_fresh(6) [OF 2(2)] by (simp_all add: Schedule_Validate_ok)
    note at = EpochAt_iff [OF valid, of now epoch] assms(4)
    have "airlock_inv mx mailbox" "al_schedule mailbox = ?schedule" using assms(1,3) by (simp_all add: entry_inv_def)
    then have "al_opens mailbox = sch_Genesis ?schedule + uint (al_epoch mailbox) * ns (sch_Period ?schedule)"
      using opens_edge [OF valid] by (simp add: airlock_inv_def)
    moreover have "al_opens mailbox \<le> now" using assms(2,3) by (simp add: epochs_rise_def)
    ultimately have "uint (al_epoch mailbox) * ns (sch_Period ?schedule) < (uint epoch + 1) * ns (sch_Period ?schedule)" using at by linarith
    then have "uint (al_epoch mailbox) < uint epoch + 1" using p by (simp add: mult_less_cancel_right)
    with assms(5) have later: "al_epoch mailbox < epoch" by (metis less_add_one order.not_eq_order_implies_strict word_le_def word_less_def zle_add1_eq_le zless_add1_eq word_uint_eq_iff)
    have "airlock_inv mx m" "al_schedule m = ?schedule" "al_epoch m = epoch" using airlock_New_inv [OF 2(2)] by simp_all
    then have "al_opens m \<le> now" using opens_edge [OF valid] at by (simp add: airlock_inv_def)
    with later assms(2,3) roll 2(1) \<open>al_epoch m = epoch\<close> show ?thesis by (auto simp: epochs_rise_def batches_kept_def)
  qed
qed

lemma maintain_rises:
  assumes "entry_inv k mx s" "epochs_rise first s clock" "clock \<le> now" "maintain mx s now draw padding written renamed cover = (s', r)"
  shows "epochs_rise first s' now \<and> batches_kept s s'"
proof -
  let ?s1 = "sealIfDue mx s now draw padding written renamed"
  note seal = sealIfDue_rises [OF assms(2,3), of mx draw padding written renamed]
  have inv: "entry_inv k mx ?s1" by (rule sealIfDue_inv [OF assms(1)])
  from seal obtain mailbox older where box: "sv_mailboxes ?s1 = mailbox # older" by (cases "sv_mailboxes ?s1") (auto simp: epochs_rise_def)
  have "s' = ?s1 \<or> (\<exists>epoch. EpochAt (ec_Schedule (sv_config ?s1)) now = Inr epoch \<and> epoch \<noteq> al_epoch mailbox \<and> s' = fst (rollTo mx cover ?s1 epoch))"
    using assms(4) box by (auto simp: maintain_def Let_def split: sum.splits if_splits)
  then show ?thesis
  proof
    assume "\<exists>epoch. EpochAt (ec_Schedule (sv_config ?s1)) now = Inr epoch \<and> epoch \<noteq> al_epoch mailbox \<and> s' = fst (rollTo mx cover ?s1 epoch)"
    then obtain epoch where "EpochAt (ec_Schedule (sv_config ?s1)) now = Inr epoch" "epoch \<noteq> al_epoch mailbox" and s': "s' = fst (rollTo mx cover ?s1 epoch)" by blast
    from rollTo_rises [OF inv _ box this(1,2), of first cover] seal show ?thesis unfolding s' using batches_kept_trans by blast
  qed (use seal in simp)
qed

lemma entry_run_rises:
  assumes "entry_run c k mx s0 clock0 s clock" "entry_inv k mx s0" "epochs_rise first s0 clock0"
  shows "entry_inv k mx s \<and> epochs_rise first s clock \<and> batches_kept s0 s"
  using assms(1)
proof induction
  case start
  show ?case using assms(2,3) batches_kept_refl by blast
next
  case (datagram s clock age bytes from_key now)
  then have "epochs_rise first (receive c k mx s age bytes from_key now) clock \<and> batches_kept s (receive c k mx s age bytes from_key now)"
    using receive_rises by blast
  with datagram show ?case using receive_inv batches_kept_trans by blast
next
  case (tick s clock now draw padding written renamed cover s' r)
  then have "epochs_rise first s' now \<and> batches_kept s s'" using maintain_rises by blast
  moreover have "entry_inv k mx s'" using maintain_inv [of k mx s now draw padding written renamed cover] tick by simp
  ultimately show ?case using tick.IH batches_kept_trans by blast
next
  case (shutdown s clock now draw padding written renamed)
  then have "epochs_rise first (maintain_stop mx s now draw padding written renamed) now \<and> batches_kept s (maintain_stop mx s now draw padding written renamed)"
    using sealIfDue_rises unfolding maintain_stop_def by blast
  moreover have "entry_inv k mx (maintain_stop mx s now draw padding written renamed)" using shutdown.IH by (simp add: maintain_stop_def sealIfDue_inv)
  ultimately show ?case using shutdown.IH batches_kept_trans by blast
qed

text \<open>
  Stopping before the cutoff seals nothing: what was deposited in the open window is gone with the process.
\<close>

lemma stop_before_cutoff_seals_nothing:
  assumes "sv_mailboxes s = mailbox # older" "now < al_closes mailbox"
  shows "maintain_stop mx s now draw padding written renamed = s"
  using assms by (cases s) (auto simp: maintain_stop_def sealIfDue_def Airlock_Seal_def)

text \<open>
  C38: A published batch is final while the service runs. A service starts in a directory that has no batch from its first
  epoch on, and its maintenance clock does not go back. Then, over any datagrams, ticks and a stop, whatever the disk refuses,
  every document once under the name of a release epoch stays there unchanged; its mailboxes are of strictly rising epochs;
  and a document for an epoch from the first on is there only when the mailbox of that epoch was sealed.
\<close>

theorem published_batch_is_final:
  assumes "key_ok k" "entry_New k mkdir config files = Inr s0" "Run_start mx cover s0 t = (s1, Inr ())" "EpochAt (ec_Schedule config) t = Inr first"
    and "\<forall>e \<ge> first. map_of files (batchName e) = None" "entry_run c k mx s1 t s clock" "entry_run c k mx s clock s' clock'"
  shows "(map_of (sv_files s) (batchName e) = Some f \<longrightarrow> map_of (sv_files s') (batchName e) = Some f) \<and>
    sorted_wrt (\<lambda>a b. b < a) (map al_epoch (sv_mailboxes s')) \<and>
    (first \<le> e \<and> map_of (sv_files s') (batchName e) \<noteq> None \<longrightarrow> (\<exists>mailbox \<in> set (sv_mailboxes s'). al_epoch mailbox = e \<and> al_sealed mailbox))"
proof -
  note inv = started_inv [OF assms(1-3)] and new = entry_New_fresh [OF assms(2)]
  obtain epoch mailbox where start: "EpochAt (ec_Schedule config) t = Inr epoch" "s1 = s0\<lparr>sv_mailboxes := [mailbox]\<rparr>"
    "airlock_New mx cover (ec_Schedule config) (ec_Committee config) epoch = Inr mailbox"
    by (rule Run_start_effect [OF assms(3)]) (simp add: new)
  have "al_epoch mailbox = first" "al_opens mailbox \<le> t"
    using airlock_New_inv [OF start(3)] start(1) assms(4) opens_edge [OF new(5)] EpochAt_iff [OF new(5), of t epoch]
    by (simp_all add: airlock_inv_def)
  then have "epochs_rise first s1 t" using assms(5) by (simp add: start(2) epochs_rise_def new(2))
  note run = entry_run_rises [OF assms(6) inv this]
  then have "epochs_rise first s' clock' \<and> batches_kept s s'" using entry_run_rises [OF assms(7)] by blast
  then show ?thesis by (auto simp: epochs_rise_def batches_kept_def)
qed

text \<open>
  A restart is not covered. A service that starts again between the cutoff and the release of an epoch makes an empty mailbox
  for it, seals cover alone at its first tick and puts that over the batch that was published before.
\<close>

theorem restart_replaces_batch:
  assumes "mix_contract mx decodes" "\<forall>i column. cover i = Some column \<longrightarrow> decodes column" "entry_New k mkdir config files = Inr s0"
    and "Run_start mx cover s0 t = (s1, Inr ())" "sv_mailboxes s1 = [mailbox]" "ReleaseAt (ec_Schedule config) (al_epoch mailbox) = Inr release"
    and "al_closes mailbox \<le> t" "t < release" "draws_below draw" "\<forall>i. draw i \<noteq> None"
  shows "\<exists>document columns. map_of (sv_files (sealIfDue mx s1 t draw padding True True)) (batchName (al_epoch mailbox)) = Some (Whole document) \<and>
    (\<exists>batch out. mx_ParseWire mx columns = Some batch \<and> mx_MarshalWire mx padding batch = Some out \<and> sb_Columns document = map b64_EncodeToString out) \<and>
    mset columns = mset (al_cover mailbox)"
proof -
  note new = entry_New_fresh [OF assms(3)]
  obtain epoch where s1: "s1 = s0\<lparr>sv_mailboxes := [mailbox]\<rparr>" "airlock_New mx cover (ec_Schedule config) (ec_Committee config) epoch = Inr mailbox"
    by (rule Run_start_effect [OF assms(4)]) (use assms(5) new in auto)
  note box = airlock_New_inv [OF s1(2)] airlock_New_fresh [OF s1(2)]
  have covers: "\<forall>column \<in> set (al_cover mailbox). decodes column" using box(2) assms(2) by metis
  have release: "ReleaseAt (al_schedule mailbox) (al_epoch mailbox) = Inr release" using assms(6) box(3) by simp
  obtain m sealed where seal: "Airlock_Seal mx mailbox t draw padding = (m, Inr sealed)"
    using Airlock_Seal_total [OF assms(1) box(1) covers assms(9) release box(5) assms(7,8,10)] by blast
  note batch = Airlock_Seal_batch [OF assms(1) box(1) covers assms(9) seal release]
  obtain files' flag where wrote: "writeBatch True True (sv_files s1) sealed = (files', flag)" by (rule prod.exhaust)
  have "sv_files (sealIfDue mx s1 t draw padding True True) = files'"
    using wrote writeBatch_files(1) [OF wrote] seal box(5) by (simp add: sealIfDue_def s1(1) Let_def)
  with writeBatch_files [OF wrote] batch(5) have "map_of (sv_files (sealIfDue mx s1 t draw padding True True)) (batchName (al_epoch mailbox)) =
      Some (Whole \<lparr>sb_ReleaseEpoch = al_epoch mailbox, sb_Digest = b64_EncodeToString (se_Digest sealed), sb_Columns = map b64_EncodeToString (se_Columns sealed)\<rparr>)"
    by simp
  moreover from batch(7) box(6) obtain columns where "mx_ParseWire mx columns = Some (se_batch sealed)"
      "mx_MarshalWire mx padding (se_batch sealed) = Some (se_Columns sealed)" "mset columns = mset (al_cover mailbox)" by auto
  ultimately show ?thesis by fastforce
qed

section \<open>A concrete service\<close>

definition sample_network :: TopologyVerified where
  "sample_network = \<lparr>tv_Document = \<lparr>doc_Version = topology_Version, doc_NetworkID = ''n'', doc_Epoch = 1, doc_NotBefore = [], doc_NotAfter = [],
     doc_Traffic = \<lparr>tc_CellSize = 1200, tc_CellIntervalMillis = 100, tc_MaxLatenessMillis = 10, tc_QueueCapacity = 4\<rparr>,
     doc_DKG = \<lparr>dkg_Threshold = 1, dkg_SessionID = [], dkg_StartAt = [], dkg_PhaseDurationMillis = 1\<rparr>,
     doc_Operators = [\<lparr>op_ID = ''a'', op_Index = 0, op_Endpoint = [], op_PartialEndpoint = [], op_DKGEndpoint = [], op_IdentityKey = [],
       op_KEXKey = b64_EncodeToString (kx_public sample_key_lib [5]), op_DKGIdentityKey = [], op_PeerPlan = [], op_Attestation = [] \<rparr>]\<rparr>,
     tv_Digest = replicate 32 3\<rparr>"

definition sample_config :: "unit entry_config" where
  "sample_config = \<lparr>ec_Topology = sample_network, ec_KEX = [5], ec_Committee = (), ec_CommitteeKey = [6], ec_ListenAddress = '':1'',
     ec_BatchDirectory = ''b'', ec_Schedule = sample_schedule, ec_SessionLimit = 2\<rparr>"

definition sample_service :: "unit service" where
  "sample_service = \<lparr>sv_config = sample_config, sv_responder = sample_responder, sv_mailboxes = [], sv_sessions = (\<lambda>_. []), sv_stats = zero_stats,
     sv_lastSeal = 0, sv_files = []\<rparr>"

abbreviation sample_started :: "unit service" where "sample_started \<equiv> sample_service\<lparr>sv_mailboxes := [sample_airlock]\<rparr>"

abbreviation sample_covers :: "nat \<Rightarrow> bytes option" where "sample_covers \<equiv> \<lambda>i. Some [1, of_nat i]"

lemma sample_service_new: "entry_New sample_key_lib True sample_config [] = Inr sample_service"
proof -
  have "selfOperator sample_key_lib sample_network [5] = Some (hd (doc_Operators (tv_Document sample_network)))"
    by (simp add: selfOperator_def sample_network_def)
  moreover have "NewResponder [5] [6] sample_uplink_context 2 = Inr sample_responder" by (simp add: NewResponder_def sample_uplink_context_valid sample_responder_def)
  moreover have "sample_uplink_context = \<lparr>ux_NetworkID = doc_NetworkID (tv_Document sample_network), ux_Epoch = doc_Epoch (tv_Document sample_network),
      ux_TopologyDigest = tv_Digest sample_network, ux_EntryOperator = op_Index (hd (doc_Operators (tv_Document sample_network)))\<rparr>"
    by (simp add: sample_uplink_context_def sample_network_def)
  ultimately show ?thesis
    by (simp add: entry_New_def sample_config_def Let_def sample_schedule_valid sample_service_def)
qed

lemma sample_epoch: "EpochAt sample_schedule 3000 = Inr 3"
proof -
  have "3 \<le> MaxEpoch sample_schedule" by (simp add: MaxEpoch_def sample_schedule_def maxInt64_def)
  then show ?thesis unfolding EpochAt_iff [OF sample_schedule_valid] by (simp add: sample_schedule_def)
qed

lemma sample_service_started: "Run_start sample_mix sample_covers sample_service 3000 = (sample_started, Inr ())"
  using sample_airlock_eq(1) by (simp add: Run_start_def rollTo_def sample_service_def sample_config_def sample_epoch)

theorem entry_accounts_for_datagrams_witness:
  "et_handshakes (sv_stats (run_ops (entry_step sample_crypto sample_key_lib sample_mix) sample_started [Datagram 0 [1, 2] ''peer'' 3001])) \<le> 2"
proof -
  let ?s = "run_ops (entry_step sample_crypto sample_key_lib sample_mix) sample_started [Datagram 0 [1, 2] ''peer'' 3001]"
  have "sv_config ?s = sample_config" by (simp add: entry_step_def receive_def Let_def fabric_CellSize_def sample_service_def)
  with entry_accounts_for_datagrams [OF sample_key_lib_ok sample_service_new sample_service_started, where s = ?s and c = sample_crypto and events = "[Datagram 0 [1, 2] ''peer'' 3001]"]
  show ?thesis by (simp add: sample_config_def)
qed

theorem introduced_publisher_is_served_witness:
  "\<exists>cell. SealWork sample_crypto sample_key_lib sample_encrypt sample_session 7 [1, 2] = Inr cell \<and>
     map_of (al_deposits (hd (sv_mailboxes (receive sample_crypto sample_key_lib sample_mix
        (receive sample_crypto sample_key_lib sample_mix sample_started 0 (in_cell sample_initiator) ''peer'' 3001) 0 cell ''peer'' 3002))))
       (DepositID sample_crypto (in_sessionID sample_initiator) 7) = Some (1 # replicate 1151 7)"
proof -
  let ?s1 = "receive sample_crypto sample_key_lib sample_mix sample_started 0 (in_cell sample_initiator) ''peer'' 3001"
  have inv: "entry_inv sample_key_lib sample_mix sample_started" by (rule started_inv [OF sample_key_lib_ok sample_service_new sample_service_started])
  have wire: "sample_encrypt [6] [1, 2] = Some (1 # replicate 1199 7)" by (simp add: sample_encrypt_def)
  have inner: "take InnerSize (1 # replicate 1199 7) = (1 :: byte) # replicate 1151 7" by (simp add: InnerSize_def)
  have committee: "ss_committee sample_session = [6]"
    using Establish_accepted(4) [OF sample_key_lib_ok, of sample_crypto "[9]" sample_responder 1 sample_initiator] sample_initiator_eq
    by (simp add: sample_responder_def)
  obtain cell where cell: "SealWork sample_crypto sample_key_lib sample_encrypt sample_session 7 [1, 2] = Inr cell"
    using Session_seal_returns [OF sample_key_lib_ok, of 7 sample_encrypt sample_session "[1, 2]" "1 # replicate 1199 7" sample_crypto] wire committee
    by (auto simp: SealWork_def fabric_CellSize_def)
  have place: "0 < length (sv_mailboxes sample_started)" by (simp add: sample_service_def)
  have "Establish sample_crypto sample_key_lib (Some [9]) (kx_public sample_key_lib (rs_static (sv_responder sample_started))) (rs_committee (sv_responder sample_started))
      (rs_context (sv_responder sample_started)) 1 = Inr sample_initiator"
    using sample_initiator_eq by (simp add: sample_service_def sample_responder_def)
  note established = this
  have room: "kx_public sample_key_lib [9] \<notin> set (rs_seen (sv_responder sample_started))"
    "length (rs_seen (sv_responder sample_started)) < rs_limit (sv_responder sample_started)" "length (sv_sessions sample_started ''peer'') < 4"
    "find (opens_under sample_crypto sample_key_lib (in_cell sample_initiator)) (sv_sessions sample_started ''peer'') = None"
    "sample_encrypt (rs_committee (sv_responder sample_started)) [1, 2] = Some (1 # replicate 1199 7)"
    by (simp_all add: sample_service_def sample_responder_def sample_encrypt_def)
  from introduced_publisher_is_served [OF inv sample_encrypt_sized place place established room(1-4) refl room(5) cell refl, of 3001 3002]
  have "sv_mailboxes (receive sample_crypto sample_key_lib sample_mix ?s1 0 cell ''peer'' 3002) = (sv_mailboxes sample_started)[0 :=
      fst (Deposit sample_crypto sample_mix (sv_mailboxes sample_started ! 0) (in_sessionID sample_initiator) 7 (take InnerSize (1 # replicate 1199 7)) 3002)]" by blast
  moreover have "sv_mailboxes sample_started = [sample_airlock]" by (simp add: sample_service_def)
  ultimately have "sv_mailboxes (receive sample_crypto sample_key_lib sample_mix ?s1 0 cell ''peer'' 3002) =
      [fst (Deposit sample_crypto sample_mix sample_airlock (in_sessionID sample_initiator) 7 (1 # replicate 1151 7) 3002)]"
    unfolding inner by (simp only: list_update_code nth_Cons_0)
  moreover have "validatePayload sample_mix (1 # replicate 1151 7)" by (simp add: validatePayload_def sample_mix_def column_of_def)
  ultimately have "map_of (al_deposits (hd (sv_mailboxes (receive sample_crypto sample_key_lib sample_mix ?s1 0 cell ''peer'' 3002))))
       (DepositID sample_crypto (in_sessionID sample_initiator) 7) = Some (1 # replicate 1151 7)"
    by (simp only: list.sel) (simp add: Deposit_def Let_def sample_airlock_eq(2) sample_schedule_def)
  with cell show ?thesis by blast
qed

theorem deposits_are_published_witness:
  "\<exists>s' r document. maintain sample_mix sample_started 3300 (\<lambda>_. Some 0) 0 True True sample_covers = (s', r) \<and>
     map_of (sv_files s') (batchName 3) = Some (Whole document) \<and> length (sb_Columns document) = 3"
proof -
  obtain s' r where tick: "maintain sample_mix sample_started 3300 (\<lambda>_. Some 0) 0 True True sample_covers = (s', r)" by (rule prod.exhaust)
  have decodes: "\<forall>i column. sample_covers i = Some column \<longrightarrow> take 1 column = [1]" by simp
  have "sv_mailboxes sample_started = sample_airlock # []" "draws_below (\<lambda>_. Some 0)" by (simp_all add: sample_service_def draws_below_def)
  with deposits_are_published [OF sample_mix_contract sample_key_lib_ok sample_service_new sample_service_started decodes, where events = "[]" and s = sample_started
      and mailbox = sample_airlock and older = "[]" and now = 3300 and release = 3400 and draw = "\<lambda>_. Some 0" and padding = 0, OF _ _ _ _ _ _ _ _ _ tick]
  obtain document where "map_of (sv_files s') (batchName 3) = Some (Whole document)" "int (length (sb_Columns document)) = ns (sch_BatchSize (ec_Schedule (sv_config sample_started)))"
    using sample_release by (auto simp: sample_airlock_eq(2))
  with tick show ?thesis by (auto simp: sample_service_def sample_config_def sample_schedule_def)
qed

theorem published_batch_is_final_witness:
  "\<exists>s'. entry_run sample_crypto sample_key_lib sample_mix sample_started 3000 s' 3300 \<and> sorted_wrt (\<lambda>a b. b < a) (map al_epoch (sv_mailboxes s'))"
proof -
  obtain s' r where tick: "maintain sample_mix sample_started 3300 (\<lambda>_. Some 0) 0 True True sample_covers = (s', r)" by (rule prod.exhaust)
  note start = entry_run.start [of sample_crypto sample_key_lib sample_mix sample_started 3000]
  have run: "entry_run sample_crypto sample_key_lib sample_mix sample_started 3000 s' 3300" by (rule entry_run.tick [OF start _ tick]) simp
  have "EpochAt (ec_Schedule sample_config) 3000 = Inr 3" by (simp add: sample_config_def sample_epoch)
  from published_batch_is_final [OF sample_key_lib_ok sample_service_new sample_service_started this _ start run] run show ?thesis by auto
qed

end
