(* ===== verification/FabricQueue.thy ===== *)
theory FabricQueue
  imports Prelude
begin

text \<open>
  \<^verbatim>\<open>sdk/nomad-constant-rate-fabric/fabric/cell.go\<close>: the bounded queue between any number of producers and the one
  scheduler that consumes, without a lock. Each load, compare-and-swap and store is a step of its own, in any interleaving;
  so are the copy of a cell into its slot and out of it. Counters are 64-bit words.
\<close>

section \<open>State\<close>

type_synonym cell = bytes

record queueSlot =
  sl_published :: u64
  sl_cell :: cell

record QueueSource =
  qs_capacity :: u64
  qs_slots :: "queueSlot list"
  qs_enqueue :: u64
  qs_dequeue :: u64

text \<open>\<^verbatim>\<open>make\<close> gives zeroed slots. A capacity is an \<^verbatim>\<open>int\<close>, so it is below \<open>2 ^ 63\<close>.\<close>

definition NewQueueSource :: "int \<Rightarrow> QueueSource option" where
  "NewQueueSource capacity =
     (if capacity < 1 then None
      else Some \<lparr>qs_capacity = of_int capacity, qs_slots = replicate (nat capacity) \<lparr>sl_published = 0, sl_cell = replicate 1200 0\<rparr>,
                 qs_enqueue = 0, qs_dequeue = 0\<rparr>)"

definition slot_of :: "QueueSource \<Rightarrow> u64 \<Rightarrow> nat" where
  "slot_of q position = unat (position mod qs_capacity q)"

text \<open>Where a producer stands in \<^verbatim>\<open>Enqueue\<close>, and the consumer in \<^verbatim>\<open>NextCell\<close>.\<close>

datatype producer =
    Outside
  | AtLoop cell
  | HasPosition cell u64
  | HasConsumed cell u64 u64
  | HasReserved cell u64
  | HasCopied u64

datatype consumer =
    Waiting
  | AtPosition u64
  | SawReserved u64
  | SawPublished u64
  | TookCell u64 cell

datatype outcome = Enqueued | Refused

section \<open>Steps\<close>

text \<open>One step of a producer: the queue, where it then stands, and what \<^verbatim>\<open>Enqueue\<close> returned if it did.\<close>

fun produce :: "QueueSource \<Rightarrow> producer \<Rightarrow> QueueSource \<times> producer \<times> outcome option" where
  "produce q Outside = (q, Outside, None)"
| "produce q (AtLoop cl) = (q, HasPosition cl (qs_enqueue q), None)"
| "produce q (HasPosition cl position) = (q, HasConsumed cl position (qs_dequeue q), None)"
| "produce q (HasConsumed cl position consumed) =
     (if position - consumed \<ge> qs_capacity q then (q, Outside, Some Refused)
      else if qs_enqueue q \<noteq> position then (q, AtLoop cl, None)
      else (q\<lparr>qs_enqueue := position + 1\<rparr>, HasReserved cl position, None))"
| "produce q (HasReserved cl position) =
     (q\<lparr>qs_slots := (qs_slots q)[slot_of q position := (qs_slots q ! slot_of q position)\<lparr>sl_cell := cl\<rparr>]\<rparr>, HasCopied position, None)"
| "produce q (HasCopied position) =
     (q\<lparr>qs_slots := (qs_slots q)[slot_of q position := (qs_slots q ! slot_of q position)\<lparr>sl_published := position + 1\<rparr>]\<rparr>, Outside, Some Enqueued)"

text \<open>One step of the consumer: the queue, where it then stands, and the cell or \<^verbatim>\<open>ErrNoWork\<close> when \<^verbatim>\<open>NextCell\<close> returned.\<close>

fun consume :: "QueueSource \<Rightarrow> consumer \<Rightarrow> QueueSource \<times> consumer \<times> cell option option" where
  "consume q Waiting = (q, AtPosition (qs_dequeue q), None)"
| "consume q (AtPosition position) =
     (if position \<ge> qs_enqueue q then (q, Waiting, Some None) else (q, SawReserved position, None))"
| "consume q (SawReserved position) =
     (if sl_published (qs_slots q ! slot_of q position) \<noteq> position + 1 then (q, Waiting, Some None) else (q, SawPublished position, None))"
| "consume q (SawPublished position) = (q, TookCell position (sl_cell (qs_slots q ! slot_of q position)), None)"
| "consume q (TookCell position cl) = (q\<lparr>qs_dequeue := position + 1\<rparr>, Waiting, Some (Some cl))"

text \<open>
  Runs. \<open>reserved\<close> are the cells in the order their positions were reserved, and \<open>delivered\<close> those that \<^verbatim>\<open>NextCell\<close>
  returned. The counters do not wrap: there are fewer than \<open>2 ^ 64 - 1\<close> reservations.
\<close>

record fabric =
  fb_queue :: QueueSource
  fb_producers :: "nat \<Rightarrow> producer"
  fb_consumer :: consumer
  fb_reserved :: "cell list"
  fb_delivered :: "cell list"

inductive fabric_step :: "fabric \<Rightarrow> fabric \<Rightarrow> bool" where
  call: "fb_producers f i = Outside \<Longrightarrow> fabric_step f (f\<lparr>fb_producers := (fb_producers f)(i := AtLoop cl)\<rparr>)"
| produced: "produce (fb_queue f) (fb_producers f i) = (q, p, out) \<Longrightarrow>
    length (fb_reserved f) < 2 ^ 64 - 2 \<Longrightarrow>
    fabric_step f (f\<lparr>fb_queue := q, fb_producers := (fb_producers f)(i := p),
      fb_reserved := fb_reserved f @ (case p of HasReserved cl position \<Rightarrow> [cl] | _ \<Rightarrow> [])\<rparr>)"
| consumed: "consume (fb_queue f) (fb_consumer f) = (q, s, out) \<Longrightarrow>
    fabric_step f (f\<lparr>fb_queue := q, fb_consumer := s,
      fb_delivered := fb_delivered f @ (case out of Some (Some cl) \<Rightarrow> [cl] | _ \<Rightarrow> [])\<rparr>)"

inductive_cases fabric_stepE: "fabric_step f g"

definition fabric_start :: "QueueSource \<Rightarrow> fabric" where
  "fabric_start q = \<lparr>fb_queue = q, fb_producers = (\<lambda>_. Outside), fb_consumer = Waiting, fb_reserved = [], fb_delivered = []\<rparr>"

section \<open>The invariant\<close>

text \<open>The position a producer has reserved and not yet published.\<close>

fun holding :: "producer \<Rightarrow> u64 option" where
  "holding (HasReserved cl position) = Some position"
| "holding (HasCopied position) = Some position"
| "holding _ = None"

definition slot_at :: "QueueSource \<Rightarrow> nat \<Rightarrow> queueSlot" where
  "slot_at q n = qs_slots q ! (n mod unat (qs_capacity q))"

abbreviation fb_cap :: "fabric \<Rightarrow> nat" where "fb_cap f \<equiv> unat (qs_capacity (fb_queue f))"
abbreviation fb_first :: "fabric \<Rightarrow> nat" where "fb_first f \<equiv> unat (qs_dequeue (fb_queue f))"
abbreviation fb_last :: "fabric \<Rightarrow> nat" where "fb_last f \<equiv> unat (qs_enqueue (fb_queue f))"

text \<open>The window of positions in use, and what was delivered.\<close>

definition window_ok :: "fabric \<Rightarrow> bool" where
  "window_ok f \<longleftrightarrow> 0 < fb_cap f \<and> fb_cap f < 2 ^ 63 \<and> length (qs_slots (fb_queue f)) = fb_cap f \<and> fb_last f = length (fb_reserved f) \<and>
     fb_last f < 2 ^ 64 - 1 \<and> fb_first f \<le> fb_last f \<and> fb_last f \<le> fb_first f + fb_cap f \<and> fb_delivered f = take (fb_first f) (fb_reserved f)"

text \<open>A position in the window is held by one producer, or its slot is published with its cell.\<close>

definition slots_ok :: "fabric \<Rightarrow> bool" where
  "slots_ok f \<longleftrightarrow> (\<forall>n. fb_first f \<le> n \<and> n < fb_last f \<longrightarrow>
       (\<exists>i. holding (fb_producers f i) = Some (of_nat n)) \<or>
       sl_published (slot_at (fb_queue f) n) = of_nat (Suc n) \<and> sl_cell (slot_at (fb_queue f) n) = fb_reserved f ! n) \<and>
     (\<forall>n. unat (sl_published (slot_at (fb_queue f) n)) \<le> fb_last f)"

definition holders_ok :: "fabric \<Rightarrow> bool" where
  "holders_ok f \<longleftrightarrow> (\<forall>i position. holding (fb_producers f i) = Some position \<longrightarrow>
     fb_first f \<le> unat position \<and> unat position < fb_last f \<and> sl_published (slot_at (fb_queue f) (unat position)) \<noteq> position + 1 \<and>
     (\<forall>j. holding (fb_producers f j) = Some position \<longrightarrow> j = i))"

fun producer_ok :: "fabric \<Rightarrow> producer \<Rightarrow> bool" where
  "producer_ok f (HasPosition cl position) = (unat position \<le> fb_last f)"
| "producer_ok f (HasConsumed cl position taken) = (unat position \<le> fb_last f \<and> unat taken \<le> fb_first f)"
| "producer_ok f (HasReserved cl position) = (cl = fb_reserved f ! unat position)"
| "producer_ok f (HasCopied position) = (sl_cell (slot_at (fb_queue f) (unat position)) = fb_reserved f ! unat position)"
| "producer_ok f _ = True"

fun consumer_ok :: "fabric \<Rightarrow> consumer \<Rightarrow> bool" where
  "consumer_ok f Waiting = True"
| "consumer_ok f (AtPosition position) = (position = qs_dequeue (fb_queue f))"
| "consumer_ok f (SawReserved position) = (position = qs_dequeue (fb_queue f) \<and> fb_first f < fb_last f)"
| "consumer_ok f (SawPublished position) = (position = qs_dequeue (fb_queue f) \<and> fb_first f < fb_last f \<and>
     sl_published (slot_at (fb_queue f) (fb_first f)) = position + 1)"
| "consumer_ok f (TookCell position cl) = (position = qs_dequeue (fb_queue f) \<and> fb_first f < fb_last f \<and>
     sl_published (slot_at (fb_queue f) (fb_first f)) = position + 1 \<and> cl = fb_reserved f ! fb_first f)"

definition fabric_inv :: "fabric \<Rightarrow> bool" where
  "fabric_inv f \<longleftrightarrow> window_ok f \<and> slots_ok f \<and> holders_ok f \<and> (\<forall>i. producer_ok f (fb_producers f i)) \<and> consumer_ok f (fb_consumer f)"

lemma slot_of_at: "slot_of q position = unat position mod unat (qs_capacity q)"
  by (simp add: slot_of_def unat_mod_distrib)

text \<open>Two positions of one window never share a slot.\<close>

lemma window_slots_differ:
  assumes "window_ok f" "fb_first f \<le> n" "n < fb_last f" "fb_first f \<le> m" "m < fb_last f" "n mod fb_cap f = m mod fb_cap f"
  shows "n = m"
proof -
  have "\<not> (n < m \<or> m < n)"
  proof
    assume "n < m \<or> m < n"
    then obtain x y where xy: "x < y" "y < x + fb_cap f" "y mod fb_cap f = x mod fb_cap f"
      using assms by (auto simp: window_ok_def)
    then have "(y - x) mod fb_cap f = 0" by (metis less_imp_le mod_eq_dvd_iff_nat dvd_eq_mod_eq_0)
    then show False using xy by (simp add: mod_less)
  qed
  then show ?thesis by simp
qed

lemma slot_at_update:
  assumes "0 < unat (qs_capacity q)" "length (qs_slots q) = unat (qs_capacity q)"
  shows "slot_at (q\<lparr>qs_slots := (qs_slots q)[slot_of q position := x]\<rparr>) n =
    (if n mod unat (qs_capacity q) = unat position mod unat (qs_capacity q) then x else slot_at q n)"
  using assms by (auto simp: slot_at_def slot_of_at nth_list_update)

lemma slot_at_counters [simp]: "slot_at (q\<lparr>qs_enqueue := x\<rparr>) n = slot_at q n" "slot_at (q\<lparr>qs_dequeue := x\<rparr>) n = slot_at q n"
  by (simp_all add: slot_at_def)

lemma slot_at_this: "qs_slots q ! slot_of q position = slot_at q (unat position)"
  by (simp add: slot_at_def slot_of_at)

section \<open>Every step keeps it\<close>

lemma view_same [simp]:
  "producer_ok (f\<lparr>fb_producers := ps\<rparr>) p = producer_ok f p" "producer_ok (f\<lparr>fb_consumer := cs\<rparr>) p = producer_ok f p"
  "consumer_ok (f\<lparr>fb_producers := ps\<rparr>) s = consumer_ok f s" "consumer_ok (f\<lparr>fb_consumer := cs\<rparr>) s = consumer_ok f s"
  by (cases p; simp)+ (cases s; simp)+

lemma producer_moves:
  assumes "fabric_inv f" "holding p = holding (fb_producers f i)" "producer_ok f p"
  shows "fabric_inv (f\<lparr>fb_producers := (fb_producers f)(i := p)\<rparr>)"
proof -
  have same: "holding (((fb_producers f)(i := p)) j) = holding (fb_producers f j)" for j using assms(2) by simp
  have "window_ok (f\<lparr>fb_producers := (fb_producers f)(i := p)\<rparr>)" using assms(1) by (simp add: fabric_inv_def window_ok_def)
  moreover have "slots_ok (f\<lparr>fb_producers := (fb_producers f)(i := p)\<rparr>)" using assms(1) unfolding fabric_inv_def slots_ok_def fabric.select_convs fabric.update_convs
    by (simp add: same del: fun_upd_apply)
  moreover have "holders_ok (f\<lparr>fb_producers := (fb_producers f)(i := p)\<rparr>)" using assms(1) by (simp add: fabric_inv_def holders_ok_def same del: fun_upd_apply)
  ultimately show ?thesis using assms(1,3) by (simp add: fabric_inv_def)
qed

lemma reserve_step:
  assumes inv: "fabric_inv f" and at: "fb_producers f i = HasConsumed cl position taken" and "\<not> position - taken \<ge> qs_capacity (fb_queue f)"
    and "qs_enqueue (fb_queue f) = position" "length (fb_reserved f) < 2 ^ 64 - 2"
  shows "fabric_inv (f\<lparr>fb_queue := (fb_queue f)\<lparr>qs_enqueue := position + 1\<rparr>, fb_producers := (fb_producers f)(i := HasReserved cl position),
    fb_reserved := fb_reserved f @ [cl]\<rparr>)" (is "fabric_inv ?g")
proof -
  have w: "window_ok f" using inv by (simp add: fabric_inv_def)
  have taken: "unat taken \<le> fb_first f" using inv at by (metis fabric_inv_def producer_ok.simps(2))
  have last: "unat position = fb_last f" "fb_last f = length (fb_reserved f)" "fb_last f < 2 ^ 64 - 2" using w assms(4,5) by (simp_all add: window_ok_def)
  then have next_last: "unat (position + 1) = Suc (fb_last f)" by (simp add: unat_word_ariths)
  have "taken \<le> position" using taken w last(1) by (simp add: window_ok_def word_le_nat_alt)
  then have "unat (position - taken) = fb_last f - unat taken" using last(1) by (simp add: unat_sub)
  with assms(3) taken have room: "Suc (fb_last f) \<le> fb_first f + fb_cap f" by (simp add: word_le_nat_alt not_le)
  have slot: "slot_at (fb_queue ?g) = slot_at (fb_queue f)" by (simp add: fun_eq_iff slot_at_def)
  have "window_ok ?g" using w next_last room last by (simp add: window_ok_def)
  moreover have "slots_ok ?g"
  proof -
    have old: "(\<exists>j. holding (fb_producers ?g j) = Some (of_nat n)) \<or>
       sl_published (slot_at (fb_queue f) n) = of_nat (Suc n) \<and> sl_cell (slot_at (fb_queue f) n) = fb_reserved ?g ! n"
      if "fb_first f \<le> n" "n < fb_last f" for n
    proof -
      from inv that consider j where "holding (fb_producers f j) = Some (of_nat n)"
        | "sl_published (slot_at (fb_queue f) n) = of_nat (Suc n)" "sl_cell (slot_at (fb_queue f) n) = fb_reserved f ! n"
        unfolding fabric_inv_def slots_ok_def by blast
      then show ?thesis
      proof cases
        case (1 j)
        then have "j \<noteq> i" using at by auto
        with 1 have "holding (fb_producers ?g j) = Some (of_nat n)" by simp
        then show ?thesis by blast
      next
        case 2
        with that last(2) show ?thesis by (simp add: nth_append)
      qed
    qed
    have "holding (fb_producers ?g i) = Some (of_nat (fb_last f))" using last(1) by (simp flip: last(1))
    then have new: "\<exists>j. holding (fb_producers ?g j) = Some (of_nat (fb_last f))" by blast
    have "unat (sl_published (slot_at (fb_queue f) n)) \<le> fb_last f" for n using inv by (simp add: fabric_inv_def slots_ok_def)
    with old new show ?thesis unfolding slots_ok_def slot by (auto simp: next_last less_Suc_eq le_SucI simp del: fun_upd_apply)
  qed
  moreover have "holders_ok ?g"
  proof -
    have fresh: "sl_published (slot_at (fb_queue f) n) \<noteq> position + 1" for n
      using inv next_last by (auto simp: fabric_inv_def slots_ok_def dest!: spec [of _ n])
    have "unat position < fb_last f" if "holding (fb_producers f j) = Some position" for j
      using inv that unfolding fabric_inv_def holders_ok_def by blast
    then have "holding (fb_producers f j) \<noteq> Some position" for j using last(1) by (metis less_irrefl)
    moreover have "fb_first f \<le> fb_last f" using w by (simp add: window_ok_def)
    moreover have "holders_ok f" using inv by (simp add: fabric_inv_def)
    ultimately show ?thesis unfolding holders_ok_def slot using fresh last(1) next_last at
      by (auto simp: less_Suc_eq split: if_splits)
  qed
  moreover have "\<forall>j. producer_ok ?g (fb_producers ?g j)"
  proof
    fix j
    have "producer_ok f (fb_producers f j)" "holders_ok f" using inv by (simp_all add: fabric_inv_def)
    then show "producer_ok ?g (fb_producers ?g j)"
      using last next_last by (cases "fb_producers f j") (auto simp: holders_ok_def slot nth_append dest!: spec [of _ j])
  qed
  moreover have "consumer_ok ?g (fb_consumer ?g)"
  proof -
    have "consumer_ok f (fb_consumer f)" using inv by (simp add: fabric_inv_def)
    then show ?thesis using last next_last by (cases "fb_consumer f") (auto simp: slot nth_append)
  qed
  ultimately show ?thesis by (simp add: fabric_inv_def)
qed

text \<open>A write into the slot of a position that the writer holds leaves every other slot of the window alone.\<close>

lemma held_slot:
  assumes "fabric_inv f" "holding (fb_producers f i) = Some position"
  shows "fb_first f \<le> unat position" "unat position < fb_last f" "sl_published (slot_at (fb_queue f) (unat position)) \<noteq> position + 1"
    "\<And>j. holding (fb_producers f j) = Some position \<Longrightarrow> j = i"
    "\<And>n x. fb_first f \<le> n \<Longrightarrow> n < fb_last f \<Longrightarrow> n \<noteq> unat position \<Longrightarrow>
      slot_at ((fb_queue f)\<lparr>qs_slots := (qs_slots (fb_queue f))[slot_of (fb_queue f) position := x]\<rparr>) n = slot_at (fb_queue f) n"
    "\<And>x. slot_at ((fb_queue f)\<lparr>qs_slots := (qs_slots (fb_queue f))[slot_of (fb_queue f) position := x]\<rparr>) (unat position) = x"
proof -
  have w: "window_ok f" using assms(1) by (simp add: fabric_inv_def)
  then have sized: "0 < fb_cap f" "length (qs_slots (fb_queue f)) = fb_cap f" by (simp_all add: window_ok_def)
  from assms show held: "fb_first f \<le> unat position" "unat position < fb_last f" "sl_published (slot_at (fb_queue f) (unat position)) \<noteq> position + 1"
    "\<And>j. holding (fb_producers f j) = Some position \<Longrightarrow> j = i" unfolding fabric_inv_def holders_ok_def by blast+
  show "slot_at ((fb_queue f)\<lparr>qs_slots := (qs_slots (fb_queue f))[slot_of (fb_queue f) position := x]\<rparr>) n = slot_at (fb_queue f) n"
    if "fb_first f \<le> n" "n < fb_last f" "n \<noteq> unat position" for n x
    using window_slots_differ [OF w that(1,2) held(1,2)] that(3) by (auto simp: slot_at_update [OF sized])
  show "slot_at ((fb_queue f)\<lparr>qs_slots := (qs_slots (fb_queue f))[slot_of (fb_queue f) position := x]\<rparr>) (unat position) = x" for x
    by (simp add: slot_at_update [OF sized])
qed

lemma unat_of_nat_window: "window_ok f \<Longrightarrow> n < fb_last f \<Longrightarrow> unat (of_nat n :: u64) = n" "window_ok f \<Longrightarrow> n < fb_last f \<Longrightarrow> unat (of_nat (Suc n) :: u64) = Suc n"
  by (intro unat_of_nat_u64, simp add: window_ok_def)+

lemma slot_step:
  assumes inv: "fabric_inv f" and held: "holding (fb_producers f i) = Some position" and x: "unat (sl_published x) \<le> fb_last f"
    and p: "holding p = Some position \<and> sl_published x \<noteq> position + 1 \<or> holding p = None \<and> sl_published x = position + 1 \<and> sl_cell x = fb_reserved f ! unat position"
    and ok: "p = HasCopied position \<and> sl_cell x = fb_reserved f ! unat position \<or> p = Outside"
  shows "fabric_inv (f\<lparr>fb_queue := (fb_queue f)\<lparr>qs_slots := (qs_slots (fb_queue f))[slot_of (fb_queue f) position := x]\<rparr>,
    fb_producers := (fb_producers f)(i := p)\<rparr>)" (is "fabric_inv ?g")
proof -
  note h = held_slot [OF inv held]
  have w: "window_ok f" and s: "slots_ok f" and hd: "holders_ok f" using inv by (simp_all add: fabric_inv_def)
  have counters: "fb_first ?g = fb_first f" "fb_last ?g = fb_last f" "fb_reserved ?g = fb_reserved f" by simp_all
  have queue: "fb_queue ?g = (fb_queue f)\<lparr>qs_slots := (qs_slots (fb_queue f))[slot_of (fb_queue f) position := x]\<rparr>" by simp
  have other: "slot_at (fb_queue ?g) n = slot_at (fb_queue f) n" if "fb_first f \<le> n" "n < fb_last f" "n \<noteq> unat position" for n
    unfolding queue by (rule h(5) [OF that])
  have this_slot: "slot_at (fb_queue ?g) (unat position) = x" unfolding queue by (rule h(6))
  have "window_ok ?g" using w by (simp add: window_ok_def)
  moreover have "slots_ok ?g"
  proof -
    have "(\<exists>j. holding (fb_producers ?g j) = Some (of_nat n)) \<or> sl_published (slot_at (fb_queue ?g) n) = of_nat (Suc n) \<and> sl_cell (slot_at (fb_queue ?g) n) = fb_reserved f ! n"
      if n: "fb_first f \<le> n" "n < fb_last f" for n
    proof (cases "n = unat position")
      case True
      then have "of_nat n = position" "of_nat (Suc n) = position + 1" by simp_all
      moreover have "fb_producers ?g i = p" by simp
      ultimately show ?thesis using p this_slot True by metis
    next
      case False
      from s n consider j where "holding (fb_producers f j) = Some (of_nat n)"
        | "sl_published (slot_at (fb_queue f) n) = of_nat (Suc n)" "sl_cell (slot_at (fb_queue f) n) = fb_reserved f ! n"
        unfolding slots_ok_def by blast
      then show ?thesis
      proof cases
        case (1 j)
        then have "j \<noteq> i" using held False unat_of_nat_window(1) [OF w n(2)] by auto
        with 1 have "holding (fb_producers ?g j) = Some (of_nat n)" by simp
        then show ?thesis by blast
      next
        case 2
        with other [OF n False] show ?thesis by simp
      qed
    qed
    moreover have "unat (sl_published (slot_at (fb_queue ?g) n)) \<le> fb_last f" for n
    proof -
      have "0 < fb_cap f" "length (qs_slots (fb_queue f)) = fb_cap f" using w by (simp_all add: window_ok_def)
      then have "slot_at (fb_queue ?g) n = x \<or> slot_at (fb_queue ?g) n = slot_at (fb_queue f) n" unfolding queue by (simp add: slot_at_update)
      with x s show ?thesis by (metis slots_ok_def)
    qed
    ultimately show ?thesis unfolding slots_ok_def counters by blast
  qed
  moreover have "holders_ok ?g" unfolding holders_ok_def counters
  proof (intro allI impI)
    fix j place
    assume "holding (fb_producers ?g j) = Some place"
    note asm = this
    have mine: "place = position \<and> sl_published x \<noteq> position + 1" if "j = i" using asm that p by auto
    have others: "holding (fb_producers f l) = Some q" "q \<noteq> position" if "l \<noteq> i" "holding (fb_producers ?g l) = Some q" for l q
      using that h(4) [of l] by auto
    show "fb_first f \<le> unat place \<and> unat place < fb_last f \<and> sl_published (slot_at (fb_queue ?g) (unat place)) \<noteq> place + 1 \<and>
      (\<forall>l. holding (fb_producers ?g l) = Some place \<longrightarrow> l = j)"
    proof (cases "j = i")
      case True
      with mine h(1,2) this_slot others show ?thesis by metis
    next
      case False
      note place = others [OF False asm]
      from held_slot(1-4) [OF inv place(1)] have in_window: "fb_first f \<le> unat place" "unat place < fb_last f" "sl_published (slot_at (fb_queue f) (unat place)) \<noteq> place + 1"
        and unique: "\<And>l. holding (fb_producers f l) = Some place \<Longrightarrow> l = j" by blast+
      moreover have "unat place \<noteq> unat position" using place(2) by (metis unsigned_word_eqI)
      moreover have "l = j" if "holding (fb_producers ?g l) = Some place" for l
        using that unique others(1) [of l place] p place(2) by (cases "l = i") auto
      ultimately show ?thesis using other by metis
    qed
  qed
  moreover have "\<forall>j. producer_ok ?g (fb_producers ?g j)"
  proof
    fix j
    show "producer_ok ?g (fb_producers ?g j)"
    proof (cases "j = i")
      case True
      have "fb_producers ?g j = p" using True by simp
      with ok this_slot show ?thesis by (auto simp del: fabric.select_convs fabric.update_convs simp add: counters)
    next
      case False
      then have same: "fb_producers ?g j = fb_producers f j" by simp
      have "producer_ok f (fb_producers f j)" using inv by (simp add: fabric_inv_def)
      moreover have "slot_at (fb_queue ?g) (unat place) = slot_at (fb_queue f) (unat place)" if "fb_producers f j = HasCopied place" for place
      proof -
        have "holding (fb_producers f j) = Some place" using that by simp
        moreover from this have "place \<noteq> position" using h(4) False by auto
        ultimately show ?thesis using held_slot(1,2) [OF inv] other by (metis unsigned_word_eqI)
      qed
      ultimately show ?thesis unfolding same by (cases "fb_producers f j") simp_all
    qed
  qed
  moreover have "consumer_ok ?g (fb_consumer ?g)"
  proof -
    have c: "consumer_ok f (fb_consumer f)" using inv by (simp add: fabric_inv_def)
    have "slot_at (fb_queue ?g) (fb_first f) = slot_at (fb_queue f) (fb_first f)"
      if "fb_first f < fb_last f" "sl_published (slot_at (fb_queue f) (fb_first f)) = qs_dequeue (fb_queue f) + 1"
      using that other [of "fb_first f"] h(3) by (metis order_refl unsigned_word_eqI)
    with c show ?thesis by (cases "fb_consumer f") auto
  qed
  ultimately show ?thesis by (simp add: fabric_inv_def)
qed

lemma consume_step:
  assumes inv: "fabric_inv f" and out: "consume (fb_queue f) (fb_consumer f) = (q, s, r)"
  shows "fabric_inv (f\<lparr>fb_queue := q, fb_consumer := s, fb_delivered := fb_delivered f @ (case r of Some (Some cl) \<Rightarrow> [cl] | _ \<Rightarrow> [])\<rparr>)"
proof -
  have w: "window_ok f" and so: "slots_ok f" and hd: "holders_ok f" and po: "\<forall>i. producer_ok f (fb_producers f i)"
    and c: "consumer_ok f (fb_consumer f)" using inv by (simp_all add: fabric_inv_def)
  have quiet: "fabric_inv (f\<lparr>fb_consumer := s\<rparr>)" if "consumer_ok f s" for s
    using that w so hd po by (simp add: fabric_inv_def window_ok_def slots_ok_def holders_ok_def)
  show ?thesis
  proof (cases "fb_consumer f")
    case Waiting
    with out quiet [of s] show ?thesis by auto
  next
    case (AtPosition position)
    with out quiet [of s] c show ?thesis by (auto simp: word_le_nat_alt not_le split: if_splits)
  next
    case (SawReserved position)
    with out quiet [of s] c show ?thesis by (auto simp: slot_at_this split: if_splits)
  next
    case (SawPublished position)
    with c have at: "position = qs_dequeue (fb_queue f)" "fb_first f < fb_last f" "sl_published (slot_at (fb_queue f) (fb_first f)) = position + 1" by simp_all
    have "\<not> (\<exists>i. holding (fb_producers f i) = Some (of_nat (fb_first f)))" using hd at by (auto simp: holders_ok_def)
    with so at(2) have "sl_cell (slot_at (fb_queue f) (fb_first f)) = fb_reserved f ! fb_first f" unfolding slots_ok_def by blast
    with SawPublished out quiet [of s] at show ?thesis by (auto simp: slot_at_this)
  next
    case (TookCell position cl)
    with c have at: "position = qs_dequeue (fb_queue f)" "fb_first f < fb_last f" "sl_published (slot_at (fb_queue f) (fb_first f)) = position + 1"
      and cl: "cl = fb_reserved f ! fb_first f" by simp_all
    let ?g = "f\<lparr>fb_queue := (fb_queue f)\<lparr>qs_dequeue := position + 1\<rparr>, fb_consumer := Waiting, fb_delivered := fb_delivered f @ [cl]\<rparr>"
    have next_first: "unat (position + 1) = Suc (fb_first f)" using at w by (simp add: window_ok_def unat_word_ariths)
    have "window_ok ?g" using w at(2) cl next_first by (simp add: window_ok_def take_Suc_conv_app_nth)
    moreover have "slots_ok ?g" using so next_first by (simp add: slots_ok_def)
    moreover have "holders_ok ?g" unfolding holders_ok_def
    proof (intro allI impI)
      fix i place
      assume held: "holding (fb_producers ?g i) = Some place"
      then have "holding (fb_producers f i) = Some place" by simp
      note h = held_slot(1-4) [OF inv this]
      then have "unat place \<noteq> fb_first f" using at by (metis unsigned_word_eqI)
      with h(1-3) next_first h(4) show "fb_first ?g \<le> unat place \<and> unat place < fb_last ?g \<and> sl_published (slot_at (fb_queue ?g) (unat place)) \<noteq> place + 1 \<and>
        (\<forall>j. holding (fb_producers ?g j) = Some place \<longrightarrow> j = i)" by simp
    qed
    moreover have "\<forall>i. producer_ok ?g (fb_producers ?g i)"
    proof
      fix i
      have "producer_ok f (fb_producers f i)" using po by blast
      then show "producer_ok ?g (fb_producers ?g i)" using next_first by (cases "fb_producers f i") auto
    qed
    ultimately have "fabric_inv ?g" by (simp add: fabric_inv_def)
    with TookCell out show ?thesis by auto
  qed
qed

lemma fabric_step_inv: "fabric_step f g \<Longrightarrow> fabric_inv f \<Longrightarrow> fabric_inv g"
proof (induction rule: fabric_step.induct)
  case (call f i cl)
  then show ?case by (intro producer_moves) simp_all
next
  case (consumed f q s out)
  then show ?case using consume_step by blast
next
  case (produced f i q p out)
  have ok: "producer_ok f (fb_producers f i)" using produced.prems by (simp add: fabric_inv_def)
  have move: "fabric_inv (f\<lparr>fb_queue := fb_queue f, fb_producers := (fb_producers f)(i := p), fb_reserved := fb_reserved f @ []\<rparr>)"
    if "holding p = holding (fb_producers f i)" "producer_ok f p" for p
    using producer_moves [OF produced.prems that] by simp
  show ?case
  proof (cases "fb_producers f i")
    case Outside
    with produced move [of Outside] show ?thesis by auto
  next
    case (AtLoop cl)
    with produced(1) move [of "HasPosition cl (qs_enqueue (fb_queue f))"] show ?thesis by auto
  next
    case (HasPosition cl position)
    with produced(1) move [of "HasConsumed cl position (qs_dequeue (fb_queue f))"] ok show ?thesis by auto
  next
    case (HasConsumed cl position taken)
    with produced(1) move [of Outside] move [of "AtLoop cl"] reserve_step [OF produced.prems HasConsumed _ _ produced(2)] show ?thesis
      by (auto split: if_splits)
  next
    case (HasReserved cl position)
    let ?x = "(slot_at (fb_queue f) (unat position))\<lparr>sl_cell := cl\<rparr>"
    have held: "holding (fb_producers f i) = Some position" using HasReserved by simp
    have "unat (sl_published ?x) \<le> fb_last f" using produced.prems by (simp add: fabric_inv_def slots_ok_def)
    from slot_step [OF produced.prems held this, of "HasCopied position"] held_slot(3) [OF produced.prems held] ok HasReserved produced(1) show ?thesis
      by (auto simp: slot_at_this)
  next
    case (HasCopied position)
    let ?x = "(slot_at (fb_queue f) (unat position))\<lparr>sl_published := position + 1\<rparr>"
    have held: "holding (fb_producers f i) = Some position" using HasCopied by simp
    note h = held_slot(1,2) [OF produced.prems held]
    have "fb_last f < 2 ^ 64 - 1" using produced.prems by (simp add: fabric_inv_def window_ok_def)
    with h have "unat (position + 1) = Suc (unat position)" by (simp add: unat_word_ariths)
    with h have "unat (sl_published ?x) \<le> fb_last f" by simp
    from slot_step [OF produced.prems held this, of Outside] ok HasCopied produced(1) show ?thesis by (auto simp: slot_at_this)
  qed
qed

section \<open>First in, first out, and never waiting\<close>

lemma fabric_start_inv:
  assumes "NewQueueSource capacity = Some q" "capacity < 2 ^ 63"
  shows "fabric_inv (fabric_start q)"
proof -
  from assms have q: "q = \<lparr>qs_capacity = of_int capacity, qs_slots = replicate (nat capacity) \<lparr>sl_published = 0, sl_cell = replicate 1200 0\<rparr>,
      qs_enqueue = 0, qs_dequeue = 0\<rparr>" and cap: "1 \<le> capacity" by (auto simp: NewQueueSource_def split: if_splits)
  have "unat (of_int capacity :: u64) = nat capacity" using cap assms(2) by (simp add: unat_of_nat flip: of_nat_nat)
  moreover have "slot_at q n = \<lparr>sl_published = 0, sl_cell = replicate 1200 0\<rparr>" for n
    using cap calculation by (simp add: slot_at_def q nat_less_iff)
  ultimately show ?thesis
    using cap assms(2) by (simp add: fabric_inv_def fabric_start_def window_ok_def slots_ok_def holders_ok_def q nat_less_iff)
qed

lemma fabric_reachable_inv: "fabric_step\<^sup>*\<^sup>* f g \<Longrightarrow> fabric_inv f \<Longrightarrow> fabric_inv g"
  by (induction rule: rtranclp_induct) (simp_all add: fabric_step_inv)

lemma fabric_step_capacity: "fabric_step g h \<Longrightarrow> qs_capacity (fb_queue h) = qs_capacity (fb_queue g)"
proof (induction rule: fabric_step.induct)
  case (produced f i q p out)
  then show ?case by (cases "fb_producers f i") (auto split: if_splits)
next
  case (consumed f q s out)
  then show ?case by (cases "fb_consumer f") (auto split: if_splits)
qed simp

text \<open>How many more steps of its own the consumer can need.\<close>

fun steps_left :: "consumer \<Rightarrow> nat" where
  "steps_left Waiting = 5"
| "steps_left (AtPosition position) = 4"
| "steps_left (SawReserved position) = 3"
| "steps_left (SawPublished position) = 2"
| "steps_left (TookCell position cl) = 1"

text \<open>The consumer alone, for a number of steps, until it returns.\<close>

fun consume_alone :: "nat \<Rightarrow> QueueSource \<Rightarrow> consumer \<Rightarrow> (QueueSource \<times> cell option) option" where
  "consume_alone 0 q s = None"
| "consume_alone (Suc n) q s = (case consume q s of (q', s', Some out) \<Rightarrow> Some (q', out) | (q', s', None) \<Rightarrow> consume_alone n q' s')"

lemma published_is_delivered:
  assumes "fabric_inv f" "fb_consumer f = Waiting" "\<forall>i. holding (fb_producers f i) = None" "length (fb_delivered f) < length (fb_reserved f)"
  shows "consume_alone 5 (fb_queue f) Waiting =
    Some ((fb_queue f)\<lparr>qs_dequeue := qs_dequeue (fb_queue f) + 1\<rparr>, Some (fb_reserved f ! length (fb_delivered f)))"
proof -
  have w: "window_ok f" and so: "slots_ok f" using assms(1) by (simp_all add: fabric_inv_def)
  have first: "length (fb_delivered f) = fb_first f" using w by (simp add: window_ok_def)
  with assms(4) w have lt: "fb_first f < fb_last f" by (simp add: window_ok_def)
  with so assms(3) have "sl_published (slot_at (fb_queue f) (fb_first f)) = of_nat (Suc (fb_first f))" "sl_cell (slot_at (fb_queue f) (fb_first f)) = fb_reserved f ! fb_first f"
    unfolding slots_ok_def by auto
  moreover have "of_nat (Suc (fb_first f)) = qs_dequeue (fb_queue f) + 1" by simp
  moreover have "\<not> qs_dequeue (fb_queue f) \<ge> qs_enqueue (fb_queue f)" using lt by (simp add: word_le_nat_alt)
  ultimately show ?thesis by (simp add: numeral_eq_Suc slot_at_this first)
qed

text \<open>
  The lock-free queue is a bounded first-in-first-out queue. Over every interleaving of the atomic steps of any number of
  producers and the consumer, the cells delivered are, in order and each once, the first of those whose positions were reserved; no more
  than the capacity are reserved and not delivered; a cell is delivered only whole, as its producer gave it. The consumer
  never waits: each call returns within five steps of its own whatever the producers do, and when no producer is between
  reserving and publishing, it returns the oldest cell there is.
\<close>

theorem fabric_queue_fifo:
  assumes "NewQueueSource capacity = Some q" "capacity < 2 ^ 63" "fabric_step\<^sup>*\<^sup>* (fabric_start q) f"
  shows "fb_delivered f = take (length (fb_delivered f)) (fb_reserved f) \<and> length (fb_delivered f) \<le> length (fb_reserved f) \<and>
    int (length (fb_reserved f)) \<le> int (length (fb_delivered f)) + capacity \<and>
    (\<forall>q' s' . consume (fb_queue f) (fb_consumer f) = (q', s', None) \<longrightarrow> steps_left s' < steps_left (fb_consumer f) \<and> steps_left s' \<le> 5) \<and>
    (fb_consumer f = Waiting \<and> (\<forall>i. holding (fb_producers f i) = None) \<and> length (fb_delivered f) < length (fb_reserved f) \<longrightarrow>
      (\<exists>q'. consume_alone 5 (fb_queue f) Waiting = Some (q', Some (fb_reserved f ! length (fb_delivered f)))))"
proof -
  have inv: "fabric_inv f" by (rule fabric_reachable_inv [OF assms(3) fabric_start_inv [OF assms(1,2)]])
  have cap: "int (fb_cap f) = capacity"
  proof -
    have "qs_capacity (fb_queue f) = qs_capacity q" using assms(3)
      by (induction rule: rtranclp_induct) (simp_all add: fabric_start_def fabric_step_capacity)
    moreover from assms(1) have "qs_capacity q = of_int capacity" "1 \<le> capacity" by (auto simp: NewQueueSource_def split: if_splits)
    ultimately show ?thesis using assms(2) by (simp add: unat_of_nat flip: of_nat_nat)
  qed
  have w: "window_ok f" using inv by (simp add: fabric_inv_def)
  then have first: "length (fb_delivered f) = fb_first f" by (simp add: window_ok_def)
  have "steps_left s' < steps_left (fb_consumer f) \<and> steps_left s' \<le> 5" if "consume (fb_queue f) (fb_consumer f) = (q', s', None)" for q' s'
    using that by (cases "fb_consumer f") (auto split: if_splits)
  moreover have "int (length (fb_reserved f)) \<le> int (length (fb_delivered f)) + capacity"
  proof -
    have "length (fb_reserved f) \<le> length (fb_delivered f) + fb_cap f" using w first by (simp add: window_ok_def)
    then have "int (length (fb_reserved f)) \<le> int (length (fb_delivered f)) + int (fb_cap f)" by linarith
    then show ?thesis by (simp only: cap)
  qed
  ultimately show ?thesis using w first published_is_delivered [OF inv] by (auto simp: window_ok_def)
qed

theorem fabric_queue_fifo_witness:
  "\<exists>q f. NewQueueSource 2 = Some q \<and> fabric_step\<^sup>*\<^sup>* (fabric_start q) f \<and> fb_producers f 7 = AtLoop [1] \<and> int (length (fb_reserved f)) \<le> int (length (fb_delivered f)) + 2"
proof -
  obtain q where q: "NewQueueSource 2 = Some q" by (simp add: NewQueueSource_def)
  have "fabric_step (fabric_start q) ((fabric_start q)\<lparr>fb_producers := (fb_producers (fabric_start q))(7 := AtLoop [1])\<rparr>)"
    by (rule fabric_step.call) (simp add: fabric_start_def)
  then have "fabric_step\<^sup>*\<^sup>* (fabric_start q) ((fabric_start q)\<lparr>fb_producers := (fb_producers (fabric_start q))(7 := AtLoop [1])\<rparr>)" by blast
  with fabric_queue_fifo [OF q _ this] q show ?thesis by fastforce
qed

text \<open>
  A producer that read its position before others moved the queue past it computes with a position behind the consumer. The
  difference wraps, and the call is refused as if the queue were full, however empty it is.
\<close>

lemma stale_position_refused:
  assumes "position < taken" "unat taken < 2 ^ 63" "unat (qs_capacity q) < 2 ^ 63"
  shows "produce q (HasConsumed cl position taken) = (q, Outside, Some Refused)"
proof -
  have "unat (position - taken) = 2 ^ 64 + unat position - unat taken"
    using assms(1) unat_sub_if' [of position taken] by (simp add: word_less_nat_alt)
  then have "qs_capacity q \<le> position - taken" using assms(2,3) unat_u64_less [of taken] by (simp add: word_le_nat_alt)
  then show ?thesis by simp
qed

section \<open>Cover\<close>

text \<open>\<open>work\<close> is what the work source returned, if there is one; the filler is asked only when it gave no cell.\<close>

definition CoverSource_NextCell :: "nat \<Rightarrow> cell option option \<Rightarrow> ('e + cell) \<Rightarrow> nat \<times> ('e + cell)" where
  "CoverSource_NextCell fallbacks work filler =
     (case work of Some (Some cl) \<Rightarrow> (fallbacks, Inr cl) | _ \<Rightarrow> (fallbacks + 1, filler))"

end
