(* ===== verification/RawCache.thy ===== *)
theory RawCache
  imports HopFrame GoNet "HOL-Library.AList" "HOL-Library.List_Lexorder" "HOL-Library.Char_ord" "HOL-Library.Multiset"
begin

text \<open>
  \<^verbatim>\<open>live/rawcache/store.go\<close>: the directory in which a node keeps the work cells it has accepted, one subdirectory per
  stream. Every method holds the lock and is one step; which calls to the file system succeed is an argument. A file is
  written under a temporary name and renamed, so it is there whole or not at all.
\<close>

section \<open>State\<close>

datatype entry = PlainFile | StreamDir "(string \<times> bytes) list"

record cache_store =
  ca_maxStreams :: int
  ca_perSource :: int
  ca_sources :: "u16 list"
  ca_root :: "(string \<times> entry) list"

datatype cache_error =
    PathRequired | StreamLimit | NoSender | ShareBelowOne | CacheFull | SourceShareFull | CacheEquivocation | CacheIO
  | MalformedSender | SizeMissing | SizeInvalid | CellInvalid | StreamRefused hop_error

text \<open>The calls to the file system that can fail, each about one stream or about the root.\<close>

datatype cache_call =
    ListRoot | StatStream string | MakeStream string | WriteSize string | WriteSource string | ReadSource string
  | ReadSize string | ReadCell string nat | WriteCell string nat | SyncStream string

type_synonym cache_disk = "cache_call \<Rightarrow> bool"

definition sourceFile :: string where "sourceFile = ''source''"
definition sizeFile :: string where "sizeFile = ''batch-size''"

definition cellFile :: "nat \<Rightarrow> string" where
  "cellFile ordinal = zero_padded 5 ordinal @ ''.cell''"

definition streamPath :: "bytes \<Rightarrow> string" where
  "streamPath stream = hex_EncodeToString stream"

text \<open>\<open>root\<close> is what the directory holds when it is opened.\<close>

definition cache_Open :: "string \<Rightarrow> int \<Rightarrow> (string \<times> entry) list \<Rightarrow> cache_error + cache_store" where
  "cache_Open path maxStreams root =
     andThen (require (path \<noteq> '''') PathRequired) (\<lambda>_.
     andThen (require (\<not> (maxStreams < 1 \<or> maxStreams > 4096)) StreamLimit) (\<lambda>_.
     Inr \<lparr>ca_maxStreams = maxStreams, ca_perSource = 0, ca_sources = [], ca_root = root\<rparr>))"

definition OpenShared :: "string \<Rightarrow> int \<Rightarrow> u16 list \<Rightarrow> (string \<times> entry) list \<Rightarrow> cache_error + cache_store" where
  "OpenShared path maxStreams sources root =
     andThen (cache_Open path maxStreams root) (\<lambda>st.
     andThen (require (sources \<noteq> []) NoSender) (\<lambda>_.
     let known = remdups sources; perSource = maxStreams div int (length known) in
     andThen (require (\<not> perSource < 1) ShareBelowOne) (\<lambda>_.
     Inr (st\<lparr>ca_sources := known, ca_perSource := perSource\<rparr>))))"

section \<open>Reading\<close>

definition filesOf :: "cache_store \<Rightarrow> string \<Rightarrow> (string \<times> bytes) list" where
  "filesOf st name = (case map_of (ca_root st) name of Some (StreamDir files) \<Rightarrow> files | _ \<Rightarrow> [])"

definition readBatchSize :: "cache_disk \<Rightarrow> cache_store \<Rightarrow> string \<Rightarrow> cache_error + u16" where
  "readBatchSize disk st name =
     (case map_of (ca_root st) name of
        None \<Rightarrow> Inl SizeMissing
      | Some PlainFile \<Rightarrow> Inl CacheIO
      | Some (StreamDir files) \<Rightarrow>
          (case map_of files sizeFile of
             None \<Rightarrow> Inl SizeMissing
           | Some data \<Rightarrow>
               if \<not> disk (ReadSize name) then Inl CacheIO
               else if length data \<noteq> 2 then Inl SizeInvalid
               else let number = be_dec data in
                 if number < 2 \<or> number > of_nat MaximumBatch then Inl SizeInvalid else Inr number))"

definition verifyBatchSize :: "cache_disk \<Rightarrow> cache_store \<Rightarrow> string \<Rightarrow> u16 \<Rightarrow> cache_error + unit" where
  "verifyBatchSize disk st name expected =
     andThen (readBatchSize disk st name) (\<lambda>observed. require (observed = expected) CacheEquivocation)"

text \<open>One entry of the listing: whether it counts as a stream, and whose it is.\<close>

fun countStreams :: "cache_disk \<Rightarrow> cache_store \<Rightarrow> (string \<times> entry) list \<Rightarrow> nat \<Rightarrow> (u16 \<Rightarrow> nat) \<Rightarrow> cache_error + nat \<times> (u16 \<Rightarrow> nat)" where
  "countStreams disk st [] seen perSource = Inr (seen, perSource)"
| "countStreams disk st ((name, PlainFile) # entries) seen perSource = countStreams disk st entries seen perSource"
| "countStreams disk st ((name, StreamDir files) # entries) seen perSource =
     (if length name \<noteq> 32 then countStreams disk st entries seen perSource
      else if ca_perSource st = 0 then countStreams disk st entries (seen + 1) perSource
      else case map_of files sourceFile of
        None \<Rightarrow> countStreams disk st entries (seen + 1) perSource
      | Some recorded \<Rightarrow>
          if \<not> disk (ReadSource name) then Inl CacheIO
          else if length recorded \<noteq> 2 then Inl MalformedSender
          else countStreams disk st entries (seen + 1) (perSource(be_dec recorded := perSource (be_dec recorded) + 1)))"

text \<open>\<^verbatim>\<open>os.ReadDir\<close> lists by name.\<close>

definition readDir :: "cache_store \<Rightarrow> (string \<times> entry) list" where
  "readDir st = sort_key fst (ca_root st)"

definition streamCounts :: "cache_disk \<Rightarrow> cache_store \<Rightarrow> cache_error + nat \<times> (u16 \<Rightarrow> nat)" where
  "streamCounts disk st =
     (if \<not> disk ListRoot then Inl CacheIO else countStreams disk st (readDir st) 0 (\<lambda>_. 0))"

text \<open>The cells in order; \<open>None\<close> when one is missing.\<close>

fun loadCells :: "cache_disk \<Rightarrow> string \<Rightarrow> (string \<times> bytes) list \<Rightarrow> nat list \<Rightarrow> cache_error + bytes list option" where
  "loadCells disk name files [] = Inr (Some [])"
| "loadCells disk name files (ordinal # ordinals) =
     (case map_of files (cellFile ordinal) of
        None \<Rightarrow> Inr None
      | Some payload \<Rightarrow>
          if \<not> disk (ReadCell name ordinal) then Inl CacheIO
          else if length payload \<noteq> CiphertextSize then Inl CellInvalid
          else andThen (loadCells disk name files ordinals) (\<lambda>r. Inr (map_option ((#) payload) r)))"

definition cache_Load :: "crypto \<Rightarrow> cache_disk \<Rightarrow> cache_store \<Rightarrow> bytes \<Rightarrow> cache_error + bytes list option" where
  "cache_Load c disk st stream =
     (let name = streamPath stream in
      case readBatchSize disk st name of
        Inl e \<Rightarrow> if e = SizeMissing then Inr None else Inl e
      | Inr batchSize \<Rightarrow>
          andThen (loadCells disk name (filesOf st name) [0..<unat batchSize]) (\<lambda>r.
          case r of
            None \<Rightarrow> Inr None
          | Some payloads \<Rightarrow>
              andThen (map_sum StreamRefused id (StreamFor c payloads)) (\<lambda>calculated.
              if calculated \<noteq> stream then Inl CacheEquivocation else Inr (Some payloads))))"

definition cache_Complete :: "crypto \<Rightarrow> cache_disk \<Rightarrow> cache_store \<Rightarrow> bytes \<Rightarrow> cache_error + bool" where
  "cache_Complete c disk st stream = andThen (cache_Load c disk st stream) (\<lambda>r. Inr (r \<noteq> None))"

fun completeFrom :: "crypto \<Rightarrow> cache_disk \<Rightarrow> cache_store \<Rightarrow> (string \<times> entry) list \<Rightarrow> cache_error + bytes list" where
  "completeFrom c disk st [] = Inr []"
| "completeFrom c disk st ((name, PlainFile) # entries) = completeFrom c disk st entries"
| "completeFrom c disk st ((name, StreamDir files) # entries) =
     (if length name \<noteq> 32 then completeFrom c disk st entries
      else case hex_DecodeString name of
        None \<Rightarrow> completeFrom c disk st entries
      | Some stream \<Rightarrow>
          if length stream \<noteq> 16 then completeFrom c disk st entries
          else andThen (cache_Complete c disk st stream) (\<lambda>complete.
               andThen (completeFrom c disk st entries) (\<lambda>streams. Inr (if complete then stream # streams else streams))))"

definition CompleteStreams :: "crypto \<Rightarrow> cache_disk \<Rightarrow> cache_store \<Rightarrow> cache_error + bytes list" where
  "CompleteStreams c disk st = (if \<not> disk ListRoot then Inl CacheIO else completeFrom c disk st (readDir st))"

section \<open>Writing\<close>

definition setFiles :: "cache_store \<Rightarrow> string \<Rightarrow> (string \<times> bytes) list \<Rightarrow> cache_store" where
  "setFiles st name files = st\<lparr>ca_root := AList.update name (StreamDir files) (ca_root st)\<rparr>"

text \<open>The first cell of a stream makes its directory, within the limit and the sender's share.\<close>

definition introduce :: "cache_disk \<Rightarrow> cache_store \<Rightarrow> metadata \<Rightarrow> cache_store \<times> (cache_error + unit)" where
  "introduce disk st m =
     (let name = streamPath (md_Stream m) in
      if \<not> disk (StatStream name) then (st, Inl CacheIO)
      else if map_of (ca_root st) name \<noteq> None then (st, Inr ())
      else case streamCounts disk st of
        Inl e \<Rightarrow> (st, Inl e)
      | Inr (seen, perSource) \<Rightarrow>
          if int seen \<ge> ca_maxStreams st then (st, Inl CacheFull)
          else if ca_perSource st > 0 \<and> (md_Sender m \<notin> set (ca_sources st) \<or> int (perSource (md_Sender m)) \<ge> ca_perSource st)
            then (st, Inl SourceShareFull)
          else if \<not> disk (MakeStream name) then (st, Inl CacheIO)
          else let sizes = [(sizeFile, be16 (md_BatchSize m))] in
            if \<not> disk (WriteSize name) then (setFiles st name [], Inl CacheIO)
            else if ca_perSource st > 0 then
              (if \<not> disk (WriteSource name) then (setFiles st name sizes, Inl CacheIO)
               else (setFiles st name ((sourceFile, be16 (md_Sender m)) # sizes), Inr ()))
            else (setFiles st name sizes, Inr ()))"

definition cache_writeOrCompare ::
    "cache_disk \<Rightarrow> cache_store \<Rightarrow> string \<Rightarrow> nat \<Rightarrow> bytes \<Rightarrow> cache_store \<times> (cache_error + bool)" where
  "cache_writeOrCompare disk st name ordinal data =
     (case map_of (filesOf st name) (cellFile ordinal) of
        Some existing \<Rightarrow>
          (st, if \<not> disk (ReadCell name ordinal) then Inl CacheIO else if existing \<noteq> data then Inl CacheEquivocation else Inr False)
      | None \<Rightarrow>
          if \<not> disk (WriteCell name ordinal) then (st, Inl CacheIO)
          else (setFiles st name ((cellFile ordinal, data) # filesOf st name), Inr True))"

definition Put :: "cache_disk \<Rightarrow> cache_store \<Rightarrow> metadata \<Rightarrow> bytes \<Rightarrow> cache_store \<times> (cache_error + bool)" where
  "Put disk st m payload =
     (if \<not> IsWork m then (st, Inr False)
      else let name = streamPath (md_Stream m) in
        case introduce disk st m of
          (st1, Inl e) \<Rightarrow> (st1, Inl e)
        | (st1, Inr _) \<Rightarrow>
            (case verifyBatchSize disk st1 name (md_BatchSize m) of
               Inl e \<Rightarrow> (st1, Inl e)
             | Inr _ \<Rightarrow>
                 (case cache_writeOrCompare disk st1 name (unat (md_Ordinal m)) payload of
                    (st2, Inl e) \<Rightarrow> (st2, Inl e)
                  | (st2, Inr created) \<Rightarrow>
                      (st2, if created \<and> \<not> disk (SyncStream name) then Inl CacheIO else Inr created))))"

section \<open>What a call changes\<close>

text \<open>Files are only ever added, and only to one stream.\<close>

definition cache_grows :: "cache_store \<Rightarrow> cache_store \<Rightarrow> bool" where
  "cache_grows st st' \<longleftrightarrow> ca_maxStreams st' = ca_maxStreams st \<and> ca_perSource st' = ca_perSource st \<and> ca_sources st' = ca_sources st \<and>
     (\<forall>name. map_of (ca_root st) name = Some PlainFile \<longrightarrow> map_of (ca_root st') name = Some PlainFile) \<and>
     (\<forall>name files. map_of (ca_root st) name = Some (StreamDir files) \<longrightarrow>
        (\<exists>files'. map_of (ca_root st') name = Some (StreamDir files') \<and> map_of files \<subseteq>\<^sub>m map_of files'))"

lemma cache_grows_refl [simp]: "cache_grows st st"
  by (simp add: cache_grows_def)

lemma cache_grows_trans: "cache_grows st st1 \<Longrightarrow> cache_grows st1 st2 \<Longrightarrow> cache_grows st st2"
  unfolding cache_grows_def by (intro conjI allI impI) (simp_all, meson map_le_trans)

lemma map_of_setFiles [simp]:
  "map_of (ca_root (setFiles st name files)) n = (if n = name then Some (StreamDir files) else map_of (ca_root st) n)"
  by (simp add: setFiles_def update_conv')

lemma filesOf_setFiles [simp]: "filesOf (setFiles st name files) n = (if n = name then files else filesOf st n)"
  by (simp add: filesOf_def)

lemma setFiles_keeps [simp]:
  "ca_maxStreams (setFiles st name files) = ca_maxStreams st" "ca_perSource (setFiles st name files) = ca_perSource st"
  "ca_sources (setFiles st name files) = ca_sources st"
  by (simp_all add: setFiles_def)

lemma grows_filesOf: "cache_grows st st' \<Longrightarrow> map_of (filesOf st name) file_name = Some data \<Longrightarrow> map_of (filesOf st' name) file_name = Some data"
proof -
  assume grows: "cache_grows st st'" and found: "map_of (filesOf st name) file_name = Some data"
  from found obtain files where files: "map_of (ca_root st) name = Some (StreamDir files)" "map_of files file_name = Some data"
    by (auto simp: filesOf_def split: option.splits entry.splits)
  with grows obtain files' where "map_of (ca_root st') name = Some (StreamDir files')" "map_of files \<subseteq>\<^sub>m map_of files'"
    unfolding cache_grows_def by blast
  with files(2) show ?thesis by (auto simp: filesOf_def map_le_def domI dest!: bspec [of _ _ file_name])
qed

lemma grows_new: "map_of (ca_root st) name = None \<Longrightarrow> cache_grows st (setFiles st name files)"
  by (auto simp: cache_grows_def)

lemma grows_cell:
  "map_of (ca_root st) name = Some (StreamDir files) \<Longrightarrow> map_of files file_name = None \<Longrightarrow> cache_grows st (setFiles st name ((file_name, data) # files))"
  by (auto simp: cache_grows_def map_le_def)

lemma introduce_grows: "introduce disk st m = (st', r) \<Longrightarrow> cache_grows st st'"
  by (auto simp: introduce_def Let_def grows_new split: if_splits sum.splits)

lemma verified_stream:
  "verifyBatchSize disk st name expected = Inr () \<Longrightarrow> \<exists>files. map_of (ca_root st) name = Some (StreamDir files) \<and> filesOf st name = files \<and>
     map_of files sizeFile = Some (be16 expected) \<and> 2 \<le> expected \<and> expected \<le> 256"
  by (auto simp: verifyBatchSize_def readBatchSize_def filesOf_def guard_simps Let_def MaximumBatch_def not_less split: option.splits entry.splits if_splits)

text \<open>The three parts of an accepted or refused put.\<close>

lemma Put_cases:
  assumes "Put disk st m payload = (st', r)"
  obtains (cover) "\<not> IsWork m" "st' = st" "r = Inr False"
  | (refused) e where "IsWork m" "introduce disk st m = (st', Inl e)" "r = Inl e"
  | (mismatch) e where "IsWork m" "introduce disk st m = (st', Inr ())" "r = Inl e"
  | (present) "IsWork m" "introduce disk st m = (st', Inr ())" "verifyBatchSize disk st' (streamPath (md_Stream m)) (md_BatchSize m) = Inr ()"
      "map_of (filesOf st' (streamPath (md_Stream m))) (cellFile (unat (md_Ordinal m))) = Some payload" "r = Inr False"
  | (stored) st1 where "IsWork m" "introduce disk st m = (st1, Inr ())" "verifyBatchSize disk st1 (streamPath (md_Stream m)) (md_BatchSize m) = Inr ()"
      "map_of (filesOf st1 (streamPath (md_Stream m))) (cellFile (unat (md_Ordinal m))) = None"
      "st' = setFiles st1 (streamPath (md_Stream m)) ((cellFile (unat (md_Ordinal m)), payload) # filesOf st1 (streamPath (md_Stream m)))"
      "r = Inr True \<or> r = Inl CacheIO"
proof -
  obtain st1 r1 where i: "introduce disk st m = (st1, r1)" by (rule prod.exhaust)
  show thesis
  proof (cases "IsWork m")
    case False
    with assms cover show thesis by (simp add: Put_def)
  next
    case work: True
    show thesis
    proof (cases r1)
      case (Inl e)
      with assms i work refused show thesis by (simp add: Put_def Let_def)
    next
      case (Inr u)
      show thesis
      proof (cases "verifyBatchSize disk st1 (streamPath (md_Stream m)) (md_BatchSize m)")
        case (Inl e)
        with assms i work Inr show thesis by (intro mismatch [of e]) (simp_all add: Put_def Let_def)
      next
        case ok: (Inr v)
        show thesis
        proof (cases "map_of (filesOf st1 (streamPath (md_Stream m))) (cellFile (unat (md_Ordinal m)))")
          case None
          show thesis
          proof (cases "disk (WriteCell (streamPath (md_Stream m)) (unat (md_Ordinal m)))")
            case True
            with assms i work Inr ok None show thesis by (intro stored [of st1]) (auto simp: Put_def Let_def cache_writeOrCompare_def split: if_splits)
          next
            case False
            with assms i work Inr ok None show thesis by (intro mismatch [of CacheIO]) (auto simp: Put_def Let_def cache_writeOrCompare_def)
          qed
        next
          case (Some existing)
          with assms i work Inr ok present mismatch show thesis
            by (auto simp: Put_def Let_def cache_writeOrCompare_def split: if_splits)
        qed
      qed
    qed
  qed
qed

lemma Put_grows: assumes "Put disk st m payload = (st', r)" shows "cache_grows st st'"
  using assms
proof (cases rule: Put_cases)
  case (stored st1)
  from verified_stream [OF stored(3)] stored(4) have "cache_grows st1 st'" by (auto simp: stored(5) intro: grows_cell)
  with introduce_grows [OF stored(2)] show ?thesis by (rule cache_grows_trans)
qed (auto dest: introduce_grows)

text \<open>What an accepted cell leaves in the cache.\<close>

definition cache_holds :: "cache_store \<Rightarrow> metadata \<Rightarrow> bytes \<Rightarrow> bool" where
  "cache_holds st m payload \<longleftrightarrow> (let files = filesOf st (streamPath (md_Stream m)) in
     map_of files sizeFile = Some (be16 (md_BatchSize m)) \<and> map_of files (cellFile (unat (md_Ordinal m))) = Some payload)"

lemma file_names [simp]: "cellFile n \<noteq> sizeFile" "cellFile n \<noteq> sourceFile" "sizeFile \<noteq> sourceFile" "sizeFile \<noteq> cellFile n" "sourceFile \<noteq> cellFile n"
  "sourceFile \<noteq> sizeFile" "cellFile a = cellFile b \<longleftrightarrow> a = b"
proof -
  have "last (cellFile n) \<noteq> last sizeFile" "last (cellFile n) \<noteq> last sourceFile" by (simp_all add: cellFile_def sizeFile_def sourceFile_def)
  then show "cellFile n \<noteq> sizeFile" "sizeFile \<noteq> cellFile n" "cellFile n \<noteq> sourceFile" "sourceFile \<noteq> cellFile n" by metis+
  show "sizeFile \<noteq> sourceFile" "sourceFile \<noteq> sizeFile" by (simp_all add: sizeFile_def sourceFile_def)
  show "cellFile a = cellFile b \<longleftrightarrow> a = b" by (simp add: cellFile_def)
qed

lemma Put_accepted_holds:
  assumes "Put disk st m payload = (st', Inr created)" "IsWork m"
  shows "cache_holds st' m payload \<and> 2 \<le> md_BatchSize m \<and> md_BatchSize m \<le> 256"
  using assms(1)
proof (cases rule: Put_cases)
  case present
  with verified_stream [OF present(3)] show ?thesis by (auto simp: cache_holds_def Let_def)
next
  case (stored st1)
  with verified_stream [OF stored(3)] show ?thesis by (auto simp: cache_holds_def Let_def)
qed (use assms(2) in simp_all)

lemma holds_kept: "cache_grows st st' \<Longrightarrow> cache_holds st m payload \<Longrightarrow> cache_holds st' m payload"
  by (auto simp: cache_holds_def Let_def dest: grows_filesOf)

section \<open>Counting\<close>

definition is_stream :: "string \<times> entry \<Rightarrow> bool" where
  "is_stream e \<longleftrightarrow> (case e of (name, StreamDir files) \<Rightarrow> length name = 32 | _ \<Rightarrow> False)"

definition owns :: "u16 \<Rightarrow> string \<times> entry \<Rightarrow> bool" where
  "owns s e \<longleftrightarrow> (case e of (name, StreamDir files) \<Rightarrow> length name = 32 \<and> map_of files sourceFile = Some (be16 s) | _ \<Rightarrow> False)"

lemma entry_kinds [simp]:
  "is_stream (name, StreamDir files) \<longleftrightarrow> length name = 32" "\<not> is_stream (name, PlainFile)"
  "owns s (name, StreamDir files) \<longleftrightarrow> length name = 32 \<and> map_of files sourceFile = Some (be16 s)" "\<not> owns s (name, PlainFile)"
  by (simp_all add: is_stream_def owns_def)

definition stream_count :: "cache_store \<Rightarrow> nat" where
  "stream_count st = length (filter is_stream (ca_root st))"

definition owned_count :: "cache_store \<Rightarrow> u16 \<Rightarrow> nat" where
  "owned_count st s = length (filter (owns s) (ca_root st))"

lemma countStreams_counts:
  assumes "countStreams disk st entries n per = Inr (n', per')" "0 < ca_perSource st"
  shows "n' = n + length (filter is_stream entries) \<and> per' s = per s + length (filter (owns s) entries)"
  using assms
proof (induction disk st entries n per rule: countStreams.induct)
  case (3 disk st name files entries n per)
  show ?case
  proof (cases "map_of files sourceFile")
    case None
    with 3 show ?thesis by (auto split: if_splits)
  next
    case (Some recorded)
    show ?thesis
    proof (cases "length name = 32")
      case True
      with Some 3(5,6) have len: "length recorded = 2" "disk (ReadSource name)" by (auto split: if_splits)
      then have "be16 (be_dec recorded) = recorded" by simp
      then have own: "recorded = be16 s \<longleftrightarrow> be_dec recorded = s" by (metis be16_dec)
      have "countStreams disk st entries (n + 1) (per(be_dec recorded := per (be_dec recorded) + 1)) = Inr (n', per')"
        using 3(5,6) True Some len by simp
      from 3(4) [OF _ _ Some _ _ this 3(6)] 3(6) True Some len show ?thesis by (auto simp: own simp del: be_enc.simps)
    next
      case False
      with 3 show ?thesis by simp
    qed
  qed
qed simp_all

lemma length_filter_sort_key [simp]: "length (filter P (sort_key f xs)) = length (filter P xs)"
proof -
  have "mset (filter P (sort_key f xs)) = mset (filter P xs)" by simp
  then show ?thesis by (metis size_mset)
qed

lemma streamCounts_counts:
  "streamCounts disk st = Inr (n, per) \<Longrightarrow> 0 < ca_perSource st \<Longrightarrow> n = stream_count st \<and> per s = owned_count st s"
  using countStreams_counts [of disk st "readDir st" 0 "\<lambda>_. 0" n per s]
  by (auto simp: streamCounts_def readDir_def stream_count_def owned_count_def split: if_splits)

lemma update_new: "map_of al k = None \<Longrightarrow> AList.update k v al = al @ [(k, v)]"
  by (induction al) (auto split: if_splits)

lemma update_same_count:
  "map_of al k = Some v0 \<Longrightarrow> P (k, v0) = P (k, v) \<Longrightarrow> length (filter P (AList.update k v al)) = length (filter P al)"
  by (induction al) (auto split: if_splits)

lemma counts_new:
  assumes "map_of (ca_root st) name = None"
  shows "stream_count (setFiles st name files) = stream_count st + (if length name = 32 then 1 else 0)"
    "owned_count (setFiles st name files) s = owned_count st s + (if length name = 32 \<and> map_of files sourceFile = Some (be16 s) then 1 else 0)"
  using assms by (simp_all add: stream_count_def owned_count_def setFiles_def update_new)

lemma counts_cell:
  assumes "map_of (ca_root st) name = Some (StreamDir files)"
  shows "stream_count (setFiles st name ((cellFile n, data) # files)) = stream_count st"
    "owned_count (setFiles st name ((cellFile n, data) # files)) s = owned_count st s"
  using assms by (simp_all add: stream_count_def owned_count_def setFiles_def update_same_count)

section \<open>Limits and shares\<close>

definition cache_inv :: "cache_store \<Rightarrow> bool" where
  "cache_inv st \<longleftrightarrow> 0 < ca_perSource st \<and> distinct (ca_sources st) \<and> ca_perSource st * int (length (ca_sources st)) \<le> ca_maxStreams st \<and>
     int (stream_count st) \<le> ca_maxStreams st \<and>
     (\<forall>s. int (owned_count st s) \<le> ca_perSource st \<and> (s \<notin> set (ca_sources st) \<longrightarrow> owned_count st s = 0))"

lemma introduce_inv:
  assumes "introduce disk st m = (st', r)" "cache_inv st"
  shows "cache_inv st'"
proof (cases "st' = st")
  case False
  let ?name = "streamPath (md_Stream m)"
  have per: "0 < ca_perSource st" using assms(2) by (simp add: cache_inv_def)
  from False assms(1) per obtain n per files where
    new: "map_of (ca_root st) ?name = None" and counts: "streamCounts disk st = Inr (n, per)" and room: "int n < ca_maxStreams st"
    and share: "md_Sender m \<in> set (ca_sources st)" "int (per (md_Sender m)) < ca_perSource st"
    and st': "st' = setFiles st ?name files" and owner: "\<forall>s. map_of files sourceFile = Some (be16 s) \<longrightarrow> s = md_Sender m"
    by (auto simp: introduce_def Let_def not_le split: if_splits sum.splits simp del: be_enc.simps)
  note c = streamCounts_counts [OF counts per]
  show ?thesis using assms(2) room share owner counts_new [OF new, of files] c [of "md_Sender m"]
    by (auto simp: cache_inv_def st' simp del: be_enc.simps)
qed (use assms(2) in simp)

lemma Put_inv:
  assumes "Put disk st m payload = (st', r)" "cache_inv st"
  shows "cache_inv st'"
  using assms(1)
proof (cases rule: Put_cases)
  case (stored st1)
  from introduce_inv [OF stored(2) assms(2)] verified_stream [OF stored(3)] show ?thesis
    by (auto simp: cache_inv_def stored(5) counts_cell)
qed (use assms(2) in \<open>auto dest: introduce_inv\<close>)

type_synonym put_event = "cache_disk \<times> metadata \<times> bytes"

definition cache_step :: "cache_store \<Rightarrow> put_event \<Rightarrow> cache_store \<times> (cache_error + bool)" where
  "cache_step st ev = (case ev of (disk, m, payload) \<Rightarrow> Put disk st m payload)"

interpretation rawcache: ordered_machine "\<lambda>st ev. fst (cache_step st ev)" cache_inv cache_grows
proof unfold_locales
  fix st st1 st2 and ev :: put_event
  obtain disk m payload where ev: "ev = (disk, m, payload)" by (rule prod_cases3)
  obtain st' r where out: "Put disk st m payload = (st', r)" by (rule prod.exhaust)
  show "cache_grows st st" by simp
  show "cache_grows st st1 \<Longrightarrow> cache_grows st1 st2 \<Longrightarrow> cache_grows st st2" by (rule cache_grows_trans)
  show "cache_inv st \<Longrightarrow> cache_inv (fst (cache_step st ev))" using Put_inv [OF out] by (simp add: cache_step_def ev out)
  show "cache_inv st \<Longrightarrow> cache_grows st (fst (cache_step st ev))" using Put_grows [OF out] by (simp add: cache_step_def ev out)
qed

lemma OpenShared_inv: "OpenShared path maxStreams sources [] = Inr st \<Longrightarrow> cache_inv st \<and> ca_root st = [] \<and> ca_sources st = remdups sources \<and>
    ca_maxStreams st = maxStreams \<and> ca_perSource st = maxStreams div int (length (remdups sources))"
proof -
  assume "OpenShared path maxStreams sources [] = Inr st"
  then have st: "st = \<lparr>ca_maxStreams = maxStreams, ca_perSource = maxStreams div int (length (remdups sources)), ca_sources = remdups sources, ca_root = []\<rparr>"
    and per: "1 \<le> maxStreams div int (length (remdups sources))" and lim: "1 \<le> maxStreams"
    by (auto simp: OpenShared_def cache_Open_def guard_simps Let_def not_less)
  have "maxStreams div int (length (remdups sources)) * int (length (remdups sources)) \<le> maxStreams"
    using per lim pos_mod_sign [of "int (length (remdups sources))" maxStreams]
    by (cases "remdups sources = []") (simp_all add: minus_mod_eq_div_mult [symmetric] del: remdups_eq_nil_iff)
  with st per lim show ?thesis by (simp add: cache_inv_def stream_count_def owned_count_def)
qed

section \<open>A sender's own room\<close>

text \<open>Every stream has a recorded sender, one of the signed ones.\<close>

definition attributed :: "cache_store \<Rightarrow> bool" where
  "attributed st \<longleftrightarrow> (\<forall>e \<in> set (ca_root st). is_stream e \<longrightarrow> (\<exists>s \<in> set (ca_sources st). owns s e))"

definition works :: cache_disk where
  "works = (\<lambda>_. True)"

definition records_kept :: "cache_disk \<Rightarrow> bool" where
  "records_kept disk \<longleftrightarrow> (\<forall>name. disk (WriteSize name) \<and> disk (WriteSource name))"

lemma set_update_subset: "set (AList.update k v al) \<subseteq> insert (k, v) (set al)"
  by (induction al) auto

lemma attributed_setFiles:
  "attributed st \<Longrightarrow> length name = 32 \<longrightarrow> (\<exists>s \<in> set (ca_sources st). map_of files sourceFile = Some (be16 s)) \<Longrightarrow> attributed (setFiles st name files)"
  using set_update_subset [of name "StreamDir files" "ca_root st"] unfolding attributed_def
  by (auto simp: setFiles_def simp del: be_enc.simps dest!: subsetD)

lemma Put_attributed:
  assumes "Put disk st m payload = (st', r)" "attributed st" "records_kept disk" "0 < ca_perSource st"
  shows "attributed st'"
proof -
  have intro: "attributed st1" if "introduce disk st m = (st1, r1)" for st1 r1
    using that assms(2-4) by (auto simp: introduce_def records_kept_def Let_def split: if_splits sum.splits simp del: be_enc.simps intro!: attributed_setFiles)
  from assms(1) show ?thesis
  proof (cases rule: Put_cases)
    case (stored st1)
    obtain files where files: "map_of (ca_root st1) (streamPath (md_Stream m)) = Some (StreamDir files)" "filesOf st1 (streamPath (md_Stream m)) = files"
      using verified_stream [OF stored(3)] by blast
    have "attributed st1" by (rule intro [OF stored(2)])
    moreover from this files(1) have "length (streamPath (md_Stream m)) = 32 \<longrightarrow> (\<exists>s \<in> set (ca_sources st1). map_of files sourceFile = Some (be16 s))"
      unfolding attributed_def by (fastforce dest: map_of_SomeD)
    ultimately show ?thesis using files(2) by (auto simp: stored(5) simp del: be_enc.simps intro!: attributed_setFiles)
  qed (use assms(2) intro in auto)
qed

lemma countStreams_works:
  "\<forall>e \<in> set entries. is_stream e \<longrightarrow> (\<exists>s. owns s e) \<Longrightarrow> \<exists>n' per'. countStreams works st entries n per = Inr (n', per')"
  by (induction works st entries n per rule: countStreams.induct) (auto simp: works_def)

lemma streams_of_senders:
  assumes "\<forall>e \<in> set entries. is_stream e \<longrightarrow> (\<exists>s \<in> S. owns s e)" "finite S"
  shows "length (filter is_stream entries) \<le> (\<Sum>s \<in> S. length (filter (owns s) entries))"
  using assms(1)
proof (induction entries)
  case (Cons e entries)
  have split: "(\<Sum>s \<in> S. length (filter (owns s) (e # entries))) = (\<Sum>s \<in> S. if owns s e then 1 else 0) + (\<Sum>s \<in> S. length (filter (owns s) entries))"
    by (simp add: sum.distrib [symmetric] if_distrib cong: if_cong) (rule sum.cong, simp_all)
  have "1 \<le> (\<Sum>s \<in> S. if owns s e then 1 else 0 :: nat)" if "is_stream e"
  proof -
    have "\<exists>s \<in> S. owns s e" using that Cons.prems by simp
    then obtain s where s: "s \<in> S" "owns s e" by blast
    have "(if owns s e then 1 else 0) \<le> (\<Sum>s \<in> S. if owns s e then 1 else 0 :: nat)" by (rule member_le_sum) (use s assms(2) in auto)
    with s show ?thesis by simp
  qed
  with Cons split show ?case by fastforce
qed simp

lemma attributed_room:
  assumes "cache_inv st" "attributed st" "s \<in> set (ca_sources st)" "int (owned_count st s) < ca_perSource st"
  shows "int (stream_count st) < ca_maxStreams st"
proof -
  let ?S = "set (ca_sources st)"
  have "int (stream_count st) \<le> (\<Sum>s \<in> ?S. int (owned_count st s))"
    using streams_of_senders [of "ca_root st" ?S] assms(2) by (simp add: attributed_def stream_count_def owned_count_def flip: of_nat_sum)
  also have "\<dots> < (\<Sum>s \<in> ?S. ca_perSource st)"
    using assms(1,3,4) by (intro sum_strict_mono_ex1) (auto simp: cache_inv_def)
  also have "\<dots> \<le> ca_maxStreams st" using assms(1) distinct_card [of "ca_sources st"] by (simp add: cache_inv_def mult.commute)
  finally show ?thesis .
qed

lemma Put_admitted:
  assumes "cache_inv st" "attributed st" "md_Sender m \<in> set (ca_sources st)" "int (owned_count st (md_Sender m)) < ca_perSource st"
    and "IsWork m" "map_of (ca_root st) (streamPath (md_Stream m)) = None" "2 \<le> md_BatchSize m" "md_BatchSize m \<le> 256"
  shows "\<exists>st'. Put works st m payload = (st', Inr True) \<and> cache_holds st' m payload"
proof -
  let ?name = "streamPath (md_Stream m)"
  let ?st = "setFiles st ?name [(sourceFile, be16 (md_Sender m)), (sizeFile, be16 (md_BatchSize m))]"
  have per: "0 < ca_perSource st" using assms(1) by (simp add: cache_inv_def)
  obtain n counts where counts: "streamCounts works st = Inr (n, counts)"
    using countStreams_works [of "readDir st" st 0 "\<lambda>_. 0"] assms(2) by (force simp: streamCounts_def works_def attributed_def readDir_def)
  have "int n < ca_maxStreams st" "int (counts (md_Sender m)) < ca_perSource st"
    using streamCounts_counts [OF counts per] attributed_room [OF assms(1-4)] assms(4) by auto
  then have "introduce works st m = (?st, Inr ())"
    using assms(3,6) per counts by (simp add: introduce_def Let_def works_def del: be_enc.simps)
  moreover have "verifyBatchSize works ?st ?name (md_BatchSize m) = Inr ()"
    using assms(7,8) by (simp add: verifyBatchSize_def readBatchSize_def works_def MaximumBatch_def not_less Let_def del: be_enc.simps)
  ultimately have "Put works st m payload = (setFiles ?st ?name ((cellFile (unat (md_Ordinal m)), payload) # filesOf ?st ?name), Inr True)"
    using assms(5) by (simp add: Put_def Let_def cache_writeOrCompare_def works_def del: be_enc.simps)
  with Put_accepted_holds assms(5) show ?thesis by blast
qed

section \<open>Whole streams\<close>

lemma loadCells_whole:
  "(\<And>i. i < length payloads \<Longrightarrow> map_of files (cellFile (from + i)) = Some (payloads ! i) \<and> length (payloads ! i) = CiphertextSize) \<Longrightarrow>
   loadCells works name files [from..<from + length payloads] = Inr (Some payloads)"
proof (induction payloads arbitrary: "from")
  case (Cons payload payloads)
  have "loadCells works name files [Suc from..<Suc from + length payloads] = Inr (Some payloads)"
    using Cons.prems [of "Suc _"] by (intro Cons.IH) auto
  with Cons.prems [of 0] show ?case by (simp add: upt_conv_Cons works_def del: upt_Suc)
qed simp

text \<open>All cells of a batch are in the cache.\<close>

definition whole :: "cache_store \<Rightarrow> bytes \<Rightarrow> bytes list \<Rightarrow> bool" where
  "whole st stream payloads \<longleftrightarrow> 2 \<le> length payloads \<and> length payloads \<le> 256 \<and> (\<forall>payload \<in> set payloads. length payload = CiphertextSize) \<and>
     (let files = filesOf st (streamPath stream) in map_of files sizeFile = Some (be16 (of_nat (length payloads))) \<and>
        (\<forall>i < length payloads. map_of files (cellFile i) = Some (payloads ! i)))"

lemma Load_whole:
  assumes "whole st stream payloads"
  shows "cache_Load c works st stream = (case StreamFor c payloads of Inl e \<Rightarrow> Inl (StreamRefused e)
    | Inr calculated \<Rightarrow> if calculated \<noteq> stream then Inl CacheEquivocation else Inr (Some payloads))"
proof -
  let ?name = "streamPath stream" and ?n = "of_nat (length payloads) :: u16"
  have size: "map_of (filesOf st ?name) sizeFile = Some (be16 ?n)" and len: "2 \<le> length payloads" "length payloads \<le> 256"
    using assms by (simp_all add: whole_def Let_def)
  then obtain files where root: "map_of (ca_root st) ?name = Some (StreamDir files)" "filesOf st ?name = files"
    by (auto simp: filesOf_def split: option.splits entry.splits)
  have n: "unat ?n = length payloads" using len by (simp add: unat_of_nat)
  then have "\<not> ?n < 2 \<and> \<not> ?n > 256" using len by (simp add: word_less_nat_alt)
  with root size have "readBatchSize works st ?name = Inr ?n"
    by (simp add: readBatchSize_def works_def MaximumBatch_def Let_def del: be_enc.simps)
  moreover have "loadCells works ?name (filesOf st ?name) [0..<unat ?n] = Inr (Some payloads)"
    using loadCells_whole [of payloads "filesOf st ?name" 0 ?name] assms by (simp add: n whole_def Let_def)
  ultimately show ?thesis by (simp add: cache_Load_def Let_def split: sum.split)
qed

lemma whole_kept: "cache_grows st st' \<Longrightarrow> whole st stream payloads \<Longrightarrow> whole st' stream payloads"
  by (auto simp: whole_def Let_def dest: grows_filesOf)

text \<open>Whatever loads is what its stream identifier commits to.\<close>

lemma Load_committed: "cache_Load c disk st stream = Inr (Some payloads) \<Longrightarrow> StreamFor c payloads = Inr stream"
  by (auto simp: cache_Load_def guard_simps Let_def split: sum.splits if_splits option.splits)

section \<open>Properties\<close>

abbreviation cache_run :: "cache_store \<Rightarrow> put_event list \<Rightarrow> cache_store" where
  "cache_run \<equiv> run_ops (\<lambda>st ev. fst (cache_step st ev))"

lemma run_attributed:
  "attributed st \<Longrightarrow> cache_inv st \<Longrightarrow> \<forall>ev \<in> set evs. records_kept (fst ev) \<Longrightarrow> attributed (cache_run st evs)"
proof (induction evs arbitrary: st)
  case (Cons ev evs)
  obtain disk m payload where ev: "ev = (disk, m, payload)" by (rule prod_cases3)
  obtain st' r where out: "Put disk st m payload = (st', r)" by (rule prod.exhaust)
  have "attributed st'" using Put_attributed [OF out Cons.prems(1)] Cons.prems(2,3) by (simp add: ev cache_inv_def)
  with Cons.IH [OF _ Put_inv [OF out Cons.prems(2)]] Cons.prems(3) show ?case by (simp add: cache_step_def ev out)
qed simp

text \<open>
  The cache of accepted cells, over any puts on any disk. It holds at most its limit of streams and of each sender at
  most its share; nothing that was written is ever changed or removed; an accepted cell is in it from then on under its
  stream and ordinal. As long as the disk kept the senders' records, a sender below its own share gets a new stream in,
  however much the others have sent. A batch whose cells are all there loads whole, as it was sent, and only batches that
  their stream identifier commits to load at all.
\<close>

theorem raw_cache_keeps_streams:
  assumes "OpenShared path maxStreams sources [] = Inr st0" "st = cache_run st0 evs"
  shows "int (stream_count st) \<le> maxStreams \<and> int (owned_count st s) \<le> maxStreams div int (length (remdups sources)) \<and>
    (map_of (filesOf st name) file_name = Some data \<longrightarrow> map_of (filesOf (cache_run st later) name) file_name = Some data) \<and>
    (Put disk st m payload = (st1, Inr created) \<and> IsWork m \<longrightarrow> cache_holds (cache_run st1 later) m payload) \<and>
    ((\<forall>ev \<in> set evs. records_kept (fst ev)) \<and> md_Sender m \<in> set sources \<and>
       int (owned_count st (md_Sender m)) < maxStreams div int (length (remdups sources)) \<and> IsWork m \<and>
       map_of (ca_root st) (streamPath (md_Stream m)) = None \<and> 2 \<le> md_BatchSize m \<and> md_BatchSize m \<le> 256 \<longrightarrow>
       snd (Put works st m payload) = Inr True) \<and>
    (whole st stream payloads \<and> StreamFor c payloads = Inr stream \<longrightarrow> cache_Load c works (cache_run st later) stream = Inr (Some payloads)) \<and>
    (cache_Load c disk st stream = Inr (Some payloads) \<longrightarrow> StreamFor c payloads = Inr stream)"
proof -
  note start = OpenShared_inv [OF assms(1)]
  have inv: "cache_inv st" unfolding assms(2) by (rule rawcache.run_inv) (use start in simp)
  have "cache_grows st0 st" unfolding assms(2) by (rule rawcache.run_ord) (use start in simp)
  then have same: "ca_maxStreams st = maxStreams" "ca_sources st = remdups sources" "ca_perSource st = maxStreams div int (length (remdups sources))"
    using start by (simp_all add: cache_grows_def)
  have grows: "cache_grows st' (cache_run st' later)" if "cache_inv st'" for st' by (rule rawcache.run_ord [OF that])
  have "cache_holds (cache_run st1 later) m payload" if out: "Put disk st m payload = (st1, Inr created)" and "IsWork m"
    using holds_kept [OF grows [OF Put_inv [OF out inv]]] Put_accepted_holds [OF that] by blast
  moreover have "snd (Put works st m payload) = Inr True"
    if "\<forall>ev \<in> set evs. records_kept (fst ev)" "md_Sender m \<in> set sources" "int (owned_count st (md_Sender m)) < maxStreams div int (length (remdups sources))"
      "IsWork m" "map_of (ca_root st) (streamPath (md_Stream m)) = None" "2 \<le> md_BatchSize m" "md_BatchSize m \<le> 256"
  proof -
    have "attributed st" unfolding assms(2) by (rule run_attributed) (use start that(1) in \<open>simp_all add: attributed_def\<close>)
    from Put_admitted [OF inv this, of m payload] that same show ?thesis by auto
  qed
  moreover have "cache_Load c works (cache_run st later) stream = Inr (Some payloads)" if "whole st stream payloads" "StreamFor c payloads = Inr stream"
    using Load_whole [OF whole_kept [OF grows [OF inv] that(1)]] that(2) by simp
  moreover have "map_of (filesOf (cache_run st later) name) file_name = Some data" if "map_of (filesOf st name) file_name = Some data"
    by (rule grows_filesOf [OF grows [OF inv] that])
  moreover have "int (stream_count st) \<le> maxStreams" "int (owned_count st s) \<le> maxStreams div int (length (remdups sources))"
    using inv by (simp_all only: cache_inv_def same)
  moreover note Load_committed [of c disk st stream payloads]
  ultimately show ?thesis by blast
qed

text \<open>A cache for two senders takes a stream from the second although the first has used up its share.\<close>

definition sample_put :: "u16 \<Rightarrow> byte \<Rightarrow> metadata" where
  "sample_put sender tag = \<lparr>md_Sender = sender, md_Ordinal = 0, md_BatchSize = 2, md_Flags = FlagWork, md_Stream = replicate 16 tag, md_Sequence = 1\<rparr>"

definition sample_cache :: cache_store where
  "sample_cache = \<lparr>ca_maxStreams = 2, ca_perSource = 1, ca_sources = [3, 7], ca_root = []\<rparr>"

theorem raw_cache_keeps_streams_witness:
  "OpenShared ''cache'' 2 [3, 7] [] = Inr sample_cache \<and> owned_count (cache_run sample_cache [(works, sample_put 3 5, [1])]) 3 = 1 \<and>
   snd (Put works (cache_run sample_cache [(works, sample_put 3 5, [1])]) (sample_put 7 9) [1]) = Inr True"
proof -
  let ?st = "cache_run sample_cache [(works, sample_put 3 5, [1])]"
  have st0: "OpenShared ''cache'' 2 [3, 7] [] = Inr sample_cache" by (simp add: OpenShared_def cache_Open_def Let_def sample_cache_def)
  moreover have "owned_count ?st 3 = 1" "owned_count ?st 7 = 0" "map_of (ca_root ?st) (streamPath (replicate 16 9)) = None" by code_simp+
  ultimately show ?thesis
    using raw_cache_keeps_streams [OF st0 refl, of "[(works, sample_put 3 5, [1])]" 7 _ _ _ _ works "sample_put 7 9" "[1]"]
    by (auto simp: sample_put_def IsWork_def FlagWork_def records_kept_def works_def)
qed

section \<open>Streams that cannot be used\<close>

text \<open>
  A stream whose first put failed after its directory was made stays without a batch size: every later put for it is refused,
  on a working disk too, and changes nothing.
\<close>

lemma half_made_stream_is_blocked:
  assumes "map_of (ca_root st) (streamPath (md_Stream m)) = Some (StreamDir [])" "IsWork m"
  shows "Put works st m payload = (st, Inl SizeMissing)"
  using assms by (simp add: Put_def introduce_def verifyBatchSize_def readBatchSize_def works_def Let_def)

lemma failed_size_half_made:
  assumes "cache_inv st" "attributed st" "md_Sender m \<in> set (ca_sources st)" "int (owned_count st (md_Sender m)) < ca_perSource st"
    and "IsWork m" "map_of (ca_root st) (streamPath (md_Stream m)) = None"
  shows "\<exists>st'. Put (works(WriteSize (streamPath (md_Stream m)) := False)) st m payload = (st', Inl CacheIO) \<and>
    map_of (ca_root st') (streamPath (md_Stream m)) = Some (StreamDir [])"
proof -
  let ?d = "works(WriteSize (streamPath (md_Stream m)) := False)"
  have per: "0 < ca_perSource st" using assms(1) by (simp add: cache_inv_def)
  have "countStreams ?d st entries n counts = countStreams works st entries n counts" for entries n counts
    by (induction works st entries n counts rule: countStreams.induct) (auto simp: works_def split: option.split)
  then obtain n counts where counts: "streamCounts ?d st = Inr (n, counts)"
    using countStreams_works [of "readDir st" st 0 "\<lambda>_. 0"] assms(2) by (force simp: streamCounts_def works_def attributed_def readDir_def)
  have "int n < ca_maxStreams st" "int (counts (md_Sender m)) < ca_perSource st"
    using streamCounts_counts [OF counts per] attributed_room [OF assms(1-4)] assms(4) by auto
  then show ?thesis using assms(3,5,6) per counts by (simp add: Put_def introduce_def Let_def works_def)
qed

text \<open>
  A whole batch under an identifier that is not its digest, which any sender can have accepted cell by cell, makes the listing
  of all complete streams fail, whatever else the cache holds.
\<close>

lemma completeFrom_fails:
  assumes "(streamPath stream, StreamDir files) \<in> set entries" "length stream = 16" "\<forall>complete. cache_Complete c disk st stream \<noteq> Inr complete"
  shows "\<exists>e. completeFrom c disk st entries = Inl e"
  using assms(1)
proof (induction entries)
  case (Cons x entries)
  obtain name e where x: "x = (name, e)" by (rule prod.exhaust)
  show ?case
  proof (cases "x = (streamPath stream, StreamDir files)")
    case True
    obtain err where "cache_Complete c disk st stream = Inl err" using assms(3) by (cases "cache_Complete c disk st stream") auto
    with True assms(2) show ?thesis by (simp add: streamPath_def hex_roundtrip)
  next
    case False
    with Cons obtain err where ih: "completeFrom c disk st entries = Inl err" by auto
    show ?thesis
    proof (cases e)
      case (StreamDir fs)
      with ih x show ?thesis
        by (cases "hex_DecodeString name") (auto simp: andThen_def split: sum.split)
    qed (use ih x in simp)
  qed
qed simp

lemma false_stream_fails_listing:
  assumes "whole st stream payloads" "StreamFor c payloads \<noteq> Inr stream" "length stream = 16"
  shows "\<exists>e. CompleteStreams c works st = Inl e"
proof -
  obtain e where "cache_Load c works st stream = Inl e" using Load_whole [OF assms(1), of c] assms(2) by (cases "StreamFor c payloads") auto
  then have failing: "\<forall>complete. cache_Complete c works st stream \<noteq> Inr complete" by (simp add: cache_Complete_def)
  have "filesOf st (streamPath stream) \<noteq> []" using assms(1) by (auto simp: whole_def Let_def)
  then obtain files where "map_of (ca_root st) (streamPath stream) = Some (StreamDir files)"
    by (auto simp: filesOf_def split: option.splits entry.splits)
  then have "(streamPath stream, StreamDir files) \<in> set (readDir st)" by (simp add: readDir_def map_of_SomeD)
  from completeFrom_fails [OF this assms(3) failing] show ?thesis by (simp add: CompleteStreams_def works_def)
qed

end
