(* ===== verification/Spec2Isabelle.thy ===== *)
theory Spec2Isabelle
  imports Witness Transparency Publication Materialize HopReplay RelaySink FairQueue Watermark EpochRestart Entry
    FabricQueue RawCache
begin

text \<open>
  Verification of the core logic of the Nomad testnet (Go). File names are relative to \<^verbatim>\<open>src/\<close>.

  \<^bold>\<open>The program.\<close> Nomad publishes objects without revealing who publishes or who reads. A publisher cuts an object into
  fragments and keeps them in a local queue; at a fixed cadence its drain sends an entry operator one cell per tick, work or
  cover. The operator opens the cells into the airlock of the current release epoch, which at the cutoff seals a batch of a
  fixed number of columns for the mix. Batches spread between the operators as coded cells, over links that are
  encrypted, numbered and shaped; each node keeps what it accepted in a cache. Which operators exist, with which keys and peers, is
  a plan signed by all of them; plans follow each other in a chain of epochs. A reader decodes the packets, checks the
  object against its signed manifest, and decides who published it from the site's chain of descriptors, which a public
  log with witnesses carries.

  \<^bold>\<open>Shared theories.\<close>
  \<^item> \<open>Prelude\<close>: words and bytes as Go has them, the record \<open>crypto\<close> of external primitives, and the interfaces more than
    one component provides, as locales: \<open>canonical_codec\<close>, \<open>invariant_machine\<close>, \<open>ordered_machine\<close>, \<open>absorbing_machine\<close>,
    \<open>simulation\<close>, \<open>fresh_issuer\<close>. Each is interpreted in the theory of the component that provides it.
  \<^item> \<open>GoStd\<close>, \<open>GoNet\<close>, \<open>Json\<close>, \<open>StrictJson\<close>, \<open>LiveJson\<close>, \<open>CanonicalJson\<close>: what the code uses of the standard library, and the
    repository's own JSON rules (\<^verbatim>\<open>internal/strictjson\<close>, \<^verbatim>\<open>live/strictjson\<close>, \<^verbatim>\<open>live/topology/canonical.go\<close>), with their
    round trips and the injectivity of what is signed.

  \<^bold>\<open>Public log\<close> (\<^verbatim>\<open>sdk/nomad-local-reconstruction/site/transparency\<close>, C1 to C10).
  \<^item> \<open>Merkle\<close>, \<open>MerkleProofs\<close>, \<open>MerkleConsistency\<close> (\<^verbatim>\<open>tree.go\<close>): the tree on 64-bit sizes equals the RFC 6962 reference;
    inclusion and consistency proofs are complete, and sound up to an explicit collision of listed messages.
  \<^item> \<open>Checkpoint\<close>, \<open>Monitor\<close>, \<open>Transparency\<close> (\<^verbatim>\<open>checkpoint.go\<close>, \<^verbatim>\<open>monitor.go\<close>): signed heads, the reader that never goes
    back, the publisher it can follow. State: the records \<open>monitor\<close> and \<open>log\<close> with one function per method.
  \<^item> \<open>Witness\<close> (\<^verbatim>\<open>witness.go\<close>): what a witness signs, cosignature by cosignature, and that readers of one policy agree.

  \<^bold>\<open>Network coding\<close> (\<^verbatim>\<open>sdk/nomad-rlnc/rlnc\<close>, C11 to C14).
  \<^item> \<open>GF256\<close>, \<open>Rlnc\<close>, \<open>RlncDecoder\<close>: the field of 256 elements with its laws in the locale \<open>code_field\<close>, encoder, re-encoder and
    incremental decoder; a ready decoder returns the source, and enough independent symbols make it ready.
  \<^item> \<open>Packet\<close>, \<open>Bounded\<close>: the packet format, and the decoder with budgets. Its counters are Go's 64-bit integers with the
    wrap-around written out; for limits that leave room for one more charge (\<open>limits_fit\<close>) they are shown to be exact sums.

  \<^bold>\<open>Site identity and objects\<close> (\<^verbatim>\<open>sdk/nomad-local-reconstruction/site\<close>, \<^verbatim>\<open>reconstruct\<close>, \<^verbatim>\<open>live/materialize\<close>, C15 to C18).
  \<^item> \<open>Descriptor\<close>, \<open>SiteChain\<close>, \<open>Distribution\<close>, \<open>Publication\<close>: descriptors, the chain a client holds, its view of the log and
    the verdict on a publication; authority passes only as signed, and revocation is final.
  \<^item> \<open>Manifest\<close>, \<open>Materialize\<close>: signed objects and the way from packets back to the object, through the locale \<open>object_decoder\<close>.

  \<^bold>\<open>Links and relays\<close> (\<^verbatim>\<open>live/hop\<close>, \<^verbatim>\<open>live/node\<close>, \<^verbatim>\<open>live/rawcache\<close>, \<^verbatim>\<open>sdk/nomad-constant-rate-fabric\<close>, C19 to C22).
  \<^item> \<open>HopFrame\<close>, \<open>HopReplay\<close>, \<open>HopSequence\<close>, \<open>RelaySink\<close>: sealing and opening a hop, the 64-bit replay window refined from the
    set of all accepted numbers, durable sequence numbers, and the sink, which never uses a number twice over
    restarts, crashes and short writes.
  \<^item> \<open>FairQueue\<close> (\<^verbatim>\<open>fairqueue.go\<close>): shares and rotation, stated on the cells \<^verbatim>\<open>NextCell\<close> returns.
  \<^item> \<open>FabricQueue\<close> (\<^verbatim>\<open>fabric/cell.go\<close>): the lock-free queue with every atomic access as a step; first in, first out in
    every interleaving (\<open>fabric_queue_fifo\<close>).
  \<^item> \<open>RawCache\<close> (\<^verbatim>\<open>rawcache/store.go\<close>): the cache of accepted cells on a disk that may fail (\<open>raw_cache_keeps_streams\<close>).

  \<^bold>\<open>Network plan and epochs\<close> (\<^verbatim>\<open>live/topology\<close>, \<^verbatim>\<open>live/epoch\<close>, C23 to C29).
  \<^item> \<open>Endpoint\<close>, \<open>TopologyDoc\<close>, \<open>PeerGraph\<close>, \<open>Topology\<close>, \<open>TopologyVerify\<close>, \<open>Watermark\<close>: the plan's rules, characterised
    exactly by \<open>plan_ok\<close>, its signatures, strong connectivity by two searches, and the record against going back.
  \<^item> \<open>EpochRules\<close>, \<open>EpochTransition\<close>, \<open>EpochChain\<close>, \<open>EpochHistory\<close>, \<open>EpochEquivocation\<close>, \<open>EpochRestart\<close>: descriptors, quorum
    and fork rules, the persisted store under any disk changes, why it halts, and that a restart continues.

  \<^bold>\<open>Publication path\<close> (\<^verbatim>\<open>live/airlock\<close>, \<^verbatim>\<open>live/uplink\<close>, \<^verbatim>\<open>live/publish\<close>, \<^verbatim>\<open>live/deposit\<close>, \<^verbatim>\<open>live/entry\<close>, C30 to C39).
  \<^item> \<open>ReleaseSchedule\<close>, \<open>Airlock\<close>: the public schedule in 64-bit nanoseconds, deposits and the sealed batch of fixed size.
  \<^item> \<open>Uplink\<close>, \<open>PublishQueue\<close>, \<open>Drain\<close>: handshake and cells, the queue, and the drain. \<open>Drain\<close> also joins a publisher with an
    airlock over a network that delays, loses, reorders and repeats cells (\<open>joint_run\<close>), and says when the session
    bound costs no work and when it does.
  \<^item> \<open>Entry\<close>: the operator's service with its two goroutines interleaved step by step, its batch directory and its stop.

  This theory holds what spans components: verification of a log ends for all inputs (C40).

  \<^bold>\<open>Conventions.\<close> A struct is a record, an error a value of a sum type, a nil pointer or a missing file \<open>None\<close>. Integers are
  words of the source's width where a wrap can matter, and unbounded otherwise (statistics of the entry service, lengths in
  the encoder); where a bound is needed for the two to agree it is a hypothesis. A method that holds its lock for its whole
  body is one step, and so is a file replaced by renaming; what the disk, the clock, the socket and the random source answer is an
  argument, so that failures are branches. Where a Go loop is not structural, recursion has a termination proof or is
  \<^theory_text>\<open>partial_function (option)\<close>, and then it is shown to return. Fuel bounds three loops: the JSON walks of
  \<open>StrictJson\<close> and \<open>LiveJson\<close> (twice the tokens and a constant: every call takes a token), the adoption of epochs stored by another
  process in \<open>EpochChain\<close> (two more than the files of the directory: every turn takes a file), and the consumer of \<open>FabricQueue\<close> run
  alone (five steps, the most it takes); each is shown to be enough. Hashes, signatures, AES-GCM, HKDF, X25519
  and the mix library are arguments with named contracts (\<open>hash_ok\<close>, \<open>sign_ok\<close>, \<open>key_ok\<close>, \<open>mix_contract\<close>); collision resistance is
  never assumed: theorems that rest on it conclude with an explicit collision.

  \<^bold>\<open>Not modelled.\<close> The curve arithmetic and proofs of the mix library and the key ceremony built on it
  (\<^verbatim>\<open>sdk/nomad-anytrust-mix-sim\<close>, \<^verbatim>\<open>live/dkg\<close>, \<^verbatim>\<open>live/ceremony\<close>, \<^verbatim>\<open>live/committee\<close>, \<^verbatim>\<open>live/batch\<close>), since they are computations of a third-party
  group; sockets, HTTP services, timers, telemetry and file permissions; the receive loop of \<^verbatim>\<open>live/node\<close>, which joins parts that are
  modelled; journal, erasure and locks of \<^verbatim>\<open>live/epoch\<close>; the browser, the ranking models, commands and test corpora.
\<close>

section \<open>Verification ends\<close>

text \<open>
  C40: Checking a proof always ends, and soon. For any 64-bit sizes and any path, also hostile ones, the verifier of
  consistency proofs returns, and so do the reader's update and the witness's cosigning built on it; the loops that walk
  down the tree take at most 64 steps. The prover returns for every request to a log that fits in memory.
\<close>

theorem log_verification_terminates:
  "(\<exists>r. VerifyConsistency c p old new = Some r) \<and>
   (0 < cp_old p \<and> cp_old p \<le> cp_new p \<longrightarrow>
      (\<exists>sides. descendConsistency (cp_old p) (cp_new p) = Some sides \<and> length sides \<le> 64)) \<and>
   (ip_index q < ip_size q \<longrightarrow> length (descend (ip_index q) (ip_size q)) \<le> 64) \<and>
   (\<exists>m' r. Monitor_Update c m ck p now = Some (m', r)) \<and>
   (\<exists>w' r. Witness_Cosign c w ck p now = Some (w', r)) \<and>
   (go_sized es \<longrightarrow> (\<exists>r. ProveConsistency c (tree_of c es) a b = Some r))"
proof (intro conjI impI)
  show "\<exists>r. VerifyConsistency c p old new = Some r" by (rule VerifyConsistency_returns)
  show "\<exists>m' r. Monitor_Update c m ck p now = Some (m', r)" by (rule Monitor_Update_returns)
  obtain m' r where "Monitor_Update c (wi_monitor w) ck p now = Some (m', r)" using Monitor_Update_returns by blast
  then show "\<exists>w' r. Witness_Cosign c w ck p now = Some (w', r)" by (simp add: Witness_Cosign_def)
  show "go_sized es \<Longrightarrow> \<exists>r. ProveConsistency c (tree_of c es) a b = Some r"
  proof (cases "a \<le> b \<and> b \<le> Tree_Size (tree_of c es)")
    case True
    assume go: "go_sized es"
    have "unat b \<le> length es" "unat a \<le> length es"
      using True Tree_Size_tree_of [OF go] by (auto simp: word_le_nat_alt)
    with True go Tree_Root_tree_of [OF go] ProveConsistency_verifies [OF go_sized_tree [OF go], of a b c] show ?thesis by blast
  qed (auto simp: ProveConsistency_def)
qed (use descents_short in simp_all)

theorem log_verification_terminates_witness:
  "length (descend 5 7) \<le> 64 \<and> (\<exists>r. ProveConsistency sample_crypto (tree_of sample_crypto [[1], [2]]) 1 2 = Some r)"
  using log_verification_terminates [of sample_crypto _ _ _ "\<lparr>ip_index = 5, ip_size = 7, ip_path = []\<rparr>" _ _ _ _ "[[1], [2]]" 1 2]
  by simp

end
